(* ===== verification/Prelude.thy ===== *)
theory Prelude
  imports Main "HOL-Library.Word"
begin

text \<open>
  Shared vocabulary of the development: the fixed-width integers of
  \<open>Tunnel/arch/cc.h\<close>, the scan loop \<open>for (i = 0; i < N; i++) if (P a[i]) ...\<close>
  that the C code uses on its fixed-size tables, big-endian and little-endian
  reads and writes on byte buffers, and the arithmetic of one's complement sums
  (the Internet checksum), which the bridge and lwIP both compute.
\<close>

unbundle bit_operations_syntax

type_synonym u8 = "8 word"
type_synonym u16 = "16 word"
type_synonym u32 = "32 word"

named_theorems byte_simps \<open>reads, writes and sizes of byte buffers\<close>
named_theorems csum_simps \<open>one's complement arithmetic\<close>
named_theorems scan_simps \<open>facts about the table scan\<close>

section \<open>Scanning a table\<close>

text \<open>
  The index at which the loop \<open>for (i = 0; i < N; i++) if (P (a[i])) ...\<close> stops,
  \<open>None\<close> when it runs to the end.
\<close>

fun first_index :: "('a \<Rightarrow> bool) \<Rightarrow> 'a list \<Rightarrow> nat option" where
  "first_index P [] = None"
| "first_index P (x # xs) = (if P x then Some 0 else map_option Suc (first_index P xs))"

lemma first_index_None [scan_simps]: "first_index P xs = None \<longleftrightarrow> (\<forall>x \<in> set xs. \<not> P x)"
  by (induction xs) auto

lemma first_index_Some:
  "first_index P xs = Some i \<longleftrightarrow> i < length xs \<and> P (xs ! i) \<and> (\<forall>j < i. \<not> P (xs ! j))"
proof (induction xs arbitrary: i)
  case Nil
  then show ?case by simp
next
  case (Cons x xs)
  show ?case
  proof (cases i)
    case 0
    then show ?thesis by auto
  next
    case (Suc k)
    have "(\<forall>j < Suc k. \<not> P ((x # xs) ! j)) \<longleftrightarrow> \<not> P x \<and> (\<forall>j < k. \<not> P (xs ! j))"
      by (metis less_Suc_eq_0_disj nth_Cons_0 nth_Cons_Suc)
    with Suc Cons.IH [of k] show ?thesis by auto
  qed
qed

lemma first_index_Some_nth: "first_index P xs = Some i \<Longrightarrow> P (xs ! i)"
  by (simp add: first_index_Some)

lemma first_index_Some_less: "first_index P xs = Some i \<Longrightarrow> i < length xs"
  by (simp add: first_index_Some)

lemma first_index_unique:
  assumes "i < length xs" "P (xs ! i)" "\<And>j. j < length xs \<Longrightarrow> P (xs ! j) \<Longrightarrow> j = i"
  shows "first_index P xs = Some i"
proof -
  have "\<forall>j < i. \<not> P (xs ! j)"
    using assms(1) assms(3) by (metis less_trans nat_neq_iff)
  then show ?thesis
    using assms(1,2) by (simp add: first_index_Some)
qed

text \<open>The table around the entry the scan stops at.\<close>

lemma first_index_split:
  assumes "first_index P xs = Some i"
  obtains as x bs where "xs = as @ x # bs" "i = length as" "P x" "\<forall>a \<in> set as. \<not> P a"
proof -
  from assms have i: "i < length xs" "P (xs ! i)" "\<forall>j < i. \<not> P (xs ! j)"
    by (simp_all add: first_index_Some)
  show thesis
  proof (rule that)
    show "xs = take i xs @ xs ! i # drop (Suc i) xs" using i(1) by (rule id_take_nth_drop)
    show "i = length (take i xs)" using i(1) by simp
    show "P (xs ! i)" by (rule i(2))
    show "\<forall>a \<in> set (take i xs). \<not> P a" using i(1,3) by (auto simp: in_set_conv_nth)
  qed
qed

section \<open>Bytes and buffers\<close>

text \<open>
  \<open>rd16\<close> is the C expression \<open>((uint16_t)b[i] << 8) | b[i+1]\<close>, \<open>rd32\<close> its
  four-byte version; \<open>hi8\<close>, \<open>lo8\<close> and \<open>byte_of\<close> are \<open>(x >> k) & 0xFF\<close>.
\<close>

definition rd16 :: "u8 list \<Rightarrow> nat \<Rightarrow> u16" where
  "rd16 b i = push_bit 8 (ucast (b ! i)) OR ucast (b ! (i + 1))"

definition rd32 :: "u8 list \<Rightarrow> nat \<Rightarrow> u32" where
  "rd32 b i = push_bit 24 (ucast (b ! i)) OR push_bit 16 (ucast (b ! (i + 1)))
     OR push_bit 8 (ucast (b ! (i + 2))) OR ucast (b ! (i + 3))"

definition byte_of :: "nat \<Rightarrow> 'a::len word \<Rightarrow> u8" where
  "byte_of k x = ucast (drop_bit (8 * k) x AND 0xFF)"

definition wr16 :: "u8 list \<Rightarrow> nat \<Rightarrow> u16 \<Rightarrow> u8 list" where
  "wr16 b i x = b[i := byte_of 1 x, i + 1 := byte_of 0 x]"

definition wr32 :: "u8 list \<Rightarrow> nat \<Rightarrow> u32 \<Rightarrow> u8 list" where
  "wr32 b i x = b[i := byte_of 3 x, i + 1 := byte_of 2 x, i + 2 := byte_of 1 x,
     i + 3 := byte_of 0 x]"

lemma or_disjoint_add: "(x :: 'a::len word) AND y = 0 \<Longrightarrow> x OR y = x + y"
  by (simp add: disjunctive_add_eq_or)

lemma length_wr16 [simp]: "length (wr16 b i x) = length b"
  by (simp add: wr16_def)

lemma length_wr32 [simp]: "length (wr32 b i x) = length b"
  by (simp add: wr32_def)

lemma unat_u8_less: "unat (x :: u8) < 256"
  using unsigned_less [of x, where ?'a = nat] by simp

lemma unat_u16_less: "unat (x :: u16) < 65536"
  using unsigned_less [of x, where ?'a = nat] by simp

lemma unat_u32_less: "unat (x :: u32) < 4294967296"
  using unsigned_less [of x, where ?'a = nat] by simp

lemma unat_u8_ucast [byte_simps]:
  "unat (ucast (x :: u8) :: u16) = unat x" "unat (ucast (x :: u8) :: u32) = unat x"
  using unat_u8_less [of x] by (simp_all add: unsigned_ucast_eq take_bit_eq_mod)

lemma unat_u16_ucast [byte_simps]: "unat (ucast (x :: u16) :: u32) = unat x"
  using unat_u16_less [of x] by (simp add: unsigned_ucast_eq take_bit_eq_mod)

lemma unat_byte_of [byte_simps]: "unat (byte_of k x) = unat x div 256 ^ k mod 256"
proof -
  have "unat (drop_bit (8 * k) x AND 0xFF) = unat x div 256 ^ k mod 256"
  proof -
    have m: "(0xFF :: 'a word) = mask 8" by (simp add: mask_eq_exp_minus_1)
    show ?thesis
      by (simp only: m take_bit_eq_mask [symmetric] unsigned_take_bit_eq unat_drop_bit_eq)
        (simp add: take_bit_eq_mod drop_bit_eq_div power_mult)
  qed
  then show ?thesis
    by (simp add: byte_of_def unsigned_ucast_eq take_bit_eq_mod)
qed

lemma rd16_nat [byte_simps]: "unat (rd16 b i) = 256 * unat (b ! i) + unat (b ! (i + 1))"
proof -
  have disj: "push_bit 8 (ucast (x::u8) :: u16) AND ucast (y::u8) = 0" for x y
    by (rule bit_word_eqI) (auto simp: bit_simps dest: bit_imp_le_length)
  have "unat (push_bit 8 (ucast (x::u8) :: u16)) = 256 * unat x" for x
    using unat_u8_less [of x] by (simp add: push_bit_eq_mult unat_word_ariths byte_simps)
  then show ?thesis
    using unat_u8_less [of "b ! i"] unat_u8_less [of "b ! (i + 1)"]
    by (simp add: rd16_def or_disjoint_add [OF disj] unat_word_ariths byte_simps)
qed

lemma rd32_nat [byte_simps]:
  "unat (rd32 b i) = 16777216 * unat (b ! i) + 65536 * unat (b ! (i + 1))
     + 256 * unat (b ! (i + 2)) + unat (b ! (i + 3))"
proof -
  let ?p = "\<lambda>k (x::u8). push_bit k (ucast x :: u32)"
  have d1: "?p 8 x AND ucast (y::u8) = 0" for x y
    by (rule bit_word_eqI) (auto simp: bit_simps dest: bit_imp_le_length)
  have d2: "?p 16 x AND (?p 8 y + ucast (z::u8)) = 0" for x y z
    unfolding or_disjoint_add [OF d1, symmetric]
    by (rule bit_word_eqI) (auto simp: bit_simps dest: bit_imp_le_length)
  have d3: "?p 24 w AND (?p 16 x + (?p 8 y + ucast (z::u8))) = 0" for w x y z
    unfolding or_disjoint_add [OF d2, symmetric]
    unfolding or_disjoint_add [OF d1, symmetric]
    by (rule bit_word_eqI) (auto simp: bit_simps dest: bit_imp_le_length)
  have p: "unat (?p 24 x) = 16777216 * unat x" "unat (?p 16 x) = 65536 * unat x"
    "unat (?p 8 x) = 256 * unat x" for x
    using unat_u8_less [of x] by (simp_all add: push_bit_eq_mult unat_word_ariths byte_simps)
  have eq: "rd32 b i = ?p 24 (b ! i) + (?p 16 (b ! (i + 1)) + (?p 8 (b ! (i + 2)) + ucast (b ! (i + 3))))"
    unfolding rd32_def or.assoc or_disjoint_add [OF d3] or_disjoint_add [OF d2]
      or_disjoint_add [OF d1] by simp
  show ?thesis
    using unat_u8_less [of "b ! i"] unat_u8_less [of "b ! (i + 1)"]
      unat_u8_less [of "b ! (i + 2)"] unat_u8_less [of "b ! (i + 3)"]
    by (simp add: eq p unat_word_ariths byte_simps)
qed

lemma base256_4:
  assumes "(n::nat) < 4294967296"
  shows "16777216 * (n div 16777216 mod 256) + 65536 * (n div 65536 mod 256)
      + 256 * (n div 256 mod 256) + n mod 256 = n"
proof -
  define q1 q2 q3 where q: "q1 = n div 256" "q2 = q1 div 256" "q3 = q2 div 256"
  have d: "n div 65536 = q2" "n div 16777216 = q3"
    by (simp_all add: q div_mult2_eq [symmetric])
  have n: "n = 256 * q1 + n mod 256" "q1 = 256 * q2 + q1 mod 256" "q2 = 256 * q3 + q2 mod 256"
    by (simp_all add: q)
  have "q3 mod 256 = q3"
    using assms by (simp add: q div_mult2_eq [symmetric] less_mult_imp_div_less)
  with n show ?thesis
    unfolding d q(1) [symmetric] by linarith
qed

lemma rd16_wr16_same [byte_simps]:
  assumes "i + 1 < length b" shows "rd16 (wr16 b i x) i = x"
proof -
  have "unat (rd16 (wr16 b i x) i) = 256 * (unat x div 256 mod 256) + unat x mod 256"
    using assms by (simp add: byte_simps wr16_def nth_list_update)
  also have "\<dots> = unat x"
    using unat_u16_less [of x] by simp
  finally show ?thesis by (simp add: word_unat_eq_iff)
qed

lemma rd32_wr32_same [byte_simps]:
  assumes "i + 3 < length b" shows "rd32 (wr32 b i x) i = x"
proof -
  have "unat (rd32 (wr32 b i x) i) = 16777216 * (unat x div 16777216 mod 256)
      + 65536 * (unat x div 65536 mod 256) + 256 * (unat x div 256 mod 256) + unat x mod 256"
    using assms by (simp add: byte_simps wr32_def nth_list_update)
  also have "\<dots> = unat x"
    using unat_u32_less [of x] by (rule base256_4)
  finally show ?thesis by (simp add: word_unat_eq_iff)
qed

lemma nth_wr16: "j \<noteq> i \<Longrightarrow> j \<noteq> i + 1 \<Longrightarrow> wr16 b i x ! j = b ! j"
  by (simp add: wr16_def nth_list_update)

lemma nth_wr32: "j \<notin> {i, i + 1, i + 2, i + 3} \<Longrightarrow> wr32 b i x ! j = b ! j"
  by (simp add: wr32_def nth_list_update)

lemma rd16_other:
  assumes "\<And>j. j \<in> {i, i + 1} \<Longrightarrow> c ! j = b ! j" shows "rd16 c i = rd16 b i"
  by (simp add: rd16_def assms)

lemma rd32_other:
  assumes "\<And>j. j \<in> {i, i + 1, i + 2, i + 3} \<Longrightarrow> c ! j = b ! j" shows "rd32 c i = rd32 b i"
  by (simp add: rd32_def assms)

section \<open>One's complement sums\<close>

text \<open>
  \<open>fold16 n\<close> is the 16-bit one's complement representative of the sum \<open>n\<close>: what
  adding the carries back in until none is left computes. It is zero only for zero.
\<close>

definition fold16 :: "nat \<Rightarrow> nat" where
  "fold16 n = (if n = 0 then 0 else (n - 1) mod 65535 + 1)"

lemma fold16_le: "fold16 n \<le> 65535"
proof -
  have "(n - 1) mod 65535 < 65535" by simp
  then have "(n - 1) mod 65535 + 1 \<le> 65535" by linarith
  then show ?thesis by (simp add: fold16_def del: One_nat_def)
qed

lemma fold16_id [csum_simps]: "n \<le> 65535 \<Longrightarrow> fold16 n = n"
  by (auto simp: fold16_def)

lemma fold16_0_iff [csum_simps]: "fold16 n = 0 \<longleftrightarrow> n = 0"
  by (simp add: fold16_def)

lemma fold16_mod: "fold16 n mod 65535 = n mod 65535"
  by (cases n) (simp_all add: fold16_def mod_simps)

lemma fold16_eqI:
  assumes "n mod 65535 = m mod 65535" "n = 0 \<longleftrightarrow> m = 0" shows "fold16 n = fold16 m"
proof (cases "n = 0")
  case True
  with assms show ?thesis by simp
next
  case False
  with assms obtain n' m' where nm: "n = Suc n'" "m = Suc m'"
    by (metis not0_implies_Suc)
  have shift: "k mod 65535 = (Suc k + 65534) mod 65535" for k :: nat
    by simp
  have "n' mod 65535 = m' mod 65535"
    using assms(1) shift [of n'] shift [of m'] unfolding nm by (metis mod_add_left_eq)
  with nm show ?thesis by (simp add: fold16_def)
qed

lemma fold16_unique:
  assumes "x \<le> 65535" "x mod 65535 = n mod 65535" "x = 0 \<longleftrightarrow> n = 0"
  shows "fold16 n = x"
  using fold16_eqI [OF assms(2,3)] fold16_id [OF assms(1)] by simp

lemma fold16_add_left [csum_simps]: "fold16 (fold16 a + b) = fold16 (a + b)"
proof (rule fold16_eqI)
  show "(fold16 a + b) mod 65535 = (a + b) mod 65535"
    by (metis fold16_mod mod_add_left_eq)
qed (simp add: csum_simps)

lemma fold16_add_right [csum_simps]: "fold16 (a + fold16 b) = fold16 (a + b)"
  using fold16_add_left [of b a] by (simp add: add.commute)

lemma fold16_step: "fold16 (n mod 65536 + n div 65536) = fold16 n"
proof (rule fold16_eqI)
  have "n = 65535 * (n div 65536) + (n mod 65536 + n div 65536)"
    using div_mult_mod_eq [of n 65536] by linarith
  then show "(n mod 65536 + n div 65536) mod 65535 = n mod 65535"
    by (metis mod_mult_self4)
  show "(n mod 65536 + n div 65536 = 0) = (n = 0)"
    by (auto simp: div_eq_0_iff)
qed

text \<open>A checksum field holding the complement of the rest makes the whole sum all ones.\<close>

lemma fold16_complement: "fold16 (n + (65535 - fold16 n)) = 65535"
proof (rule fold16_unique)
  have le: "fold16 n \<le> 65535" by (rule fold16_le)
  have "(n + (65535 - fold16 n)) mod 65535 = (fold16 n + (65535 - fold16 n)) mod 65535"
    by (metis fold16_mod mod_add_left_eq)
  with le show "(65535::nat) mod 65535 = (n + (65535 - fold16 n)) mod 65535" by simp
  show "((65535::nat) = 0) = (n + (65535 - fold16 n) = 0)"
    using le fold16_0_iff [of n] by (cases "n = 0") auto
qed simp

section \<open>The Internet sum of a byte sequence\<close>

text \<open>
  RFC 1071: the sum of the 16-bit big-endian words of the data, a last odd byte padded
  with a zero byte. The checksum is the complement of \<open>fold16\<close> of this sum.
\<close>

fun be_sum :: "u8 list \<Rightarrow> nat" where
  "be_sum [] = 0"
| "be_sum [x] = 256 * unat x"
| "be_sum (x # y # xs) = 256 * unat x + unat y + be_sum xs"

lemma be_sum_append [csum_simps]: "even (length xs) \<Longrightarrow> be_sum (xs @ ys) = be_sum xs + be_sum ys"
  by (induction xs rule: be_sum.induct) auto

lemma be_sum_bound: "be_sum xs \<le> 65535 * ((length xs + 1) div 2)"
proof (induction xs rule: be_sum.induct)
  case (2 x)
  then show ?case using unat_u8_less [of x] by simp
next
  case (3 x y xs)
  then show ?case using unat_u8_less [of x] unat_u8_less [of y] by simp
qed simp

lemma be_sum_drop_step:
  assumes "i + 1 < length b"
  shows "be_sum (drop i b) = unat (rd16 b i) + be_sum (drop (i + 2) b)"
proof -
  have "drop i b = b ! i # b ! (i + 1) # drop (i + 2) b"
    using assms by (metis Cons_nth_drop_Suc Suc_eq_plus1 add_2_eq_Suc' add_lessD1)
  then show ?thesis by (simp add: byte_simps)
qed

lemma wr16_split:
  assumes "i + 1 < length b"
  shows "wr16 b i x = take i b @ [byte_of 1 x, byte_of 0 x] @ drop (i + 2) b"
  using assms unfolding wr16_def
proof (intro nth_equalityI)
  fix j
  assume "j < length (b[i := byte_of 1 x, i + 1 := byte_of 0 x])"
  moreover have "Suc (Suc (i + (j - Suc (Suc i)))) = j" if "\<not> j \<le> Suc i"
    using that by arith
  ultimately show "b[i := byte_of 1 x, i + 1 := byte_of 0 x] ! j
      = (take i b @ [byte_of 1 x, byte_of 0 x] @ drop (i + 2) b) ! j"
    using assms by (auto simp: nth_append nth_list_update nth_Cons' not_le less_Suc_eq)
qed (use assms in simp)

text \<open>Storing a word at an even offset replaces its contribution to the sum.\<close>

lemma be_sum_wr16 [csum_simps]:
  assumes "i + 1 < length b" "even i"
  shows "be_sum (wr16 b i x) + unat (rd16 b i) = be_sum b + unat x"
proof -
  have "unat (byte_of 1 x) * 256 + unat (byte_of 0 x) = unat x"
    using unat_u16_less [of x] by (simp add: byte_simps)
  then have "be_sum (wr16 b i x) = be_sum (take i b) + unat x + be_sum (drop (i + 2) b)"
    using assms by (simp add: wr16_split csum_simps min_def)
  moreover have "be_sum b = be_sum (take i b) + be_sum (drop i b)"
    using assms be_sum_append [of "take i b" "drop i b"] by (simp add: min_def)
  ultimately show ?thesis
    using be_sum_drop_step [OF assms(1)] by simp
qed

lemma u32_low_high [byte_simps]:
  "unat ((s :: u32) AND 0xFFFF) = unat s mod 65536" "unat (drop_bit 16 (s :: u32)) = unat s div 65536"
proof -
  have m: "(0xFFFF :: u32) = mask 16" by (simp add: mask_eq_exp_minus_1)
  show "unat (s AND 0xFFFF) = unat s mod 65536"
    by (simp only: m take_bit_eq_mask [symmetric] unsigned_take_bit_eq) (simp add: take_bit_eq_mod)
  have "unat (drop_bit 16 s) = drop_bit 16 (unat s)"
    by (rule unat_drop_bit_eq)
  then show "unat (drop_bit 16 s) = unat s div 65536"
    by (simp only: drop_bit_eq_div) simp
qed

text \<open>One step of adding the carries back in.\<close>

lemma unat_fold_step:
  "unat ((s AND 0xFFFF) + drop_bit 16 (s :: u32)) = unat s mod 65536 + unat s div 65536"
proof -
  have "unat s div 65536 < 65536" "unat s mod 65536 < 65536"
    using unat_u32_less [of s] by (simp_all add: less_mult_imp_div_less)
  then show ?thesis
    by (simp add: unat_word_ariths u32_low_high)
qed

lemma unat_not_u32: "unat (NOT (x :: u32)) = 4294967295 - unat x"
proof -
  have "NOT x = -1 - x" by (simp add: not_eq_complement)
  moreover have "unat (-1 - x) = unat (-1 :: u32) - unat x"
    by (rule unat_sub) simp
  moreover have "unat (-1 :: u32) = 4294967295"
    by (simp add: unsigned_minus_1_eq_mask mask_eq_exp_minus_1)
  ultimately show ?thesis by simp
qed

end
