(* ===== verification/Mem.thy ===== *)
theory Mem
  imports Prelude "HOL-Library.Monad_Syntax"
begin

text \<open>
  The heap of lwIP (\<open>Tunnel/lwip/core/mem.c\<close>), a first-fit allocator over one array of
  \<open>MEM_SIZE\<close> bytes. Block headers (\<open>struct mem\<close>) lie in the array itself and are linked
  by offsets. The model keeps the header found at each offset; the operations are
  translated with their pointer updates, and \<open>None\<close> means that the C code would follow an
  offset where no header was ever written, or loop for ever. Alignment is 1 in this
  configuration, so \<open>LWIP_MEM_ALIGN_SIZE\<close> is the identity. The theorems relate the headers to
  a list of blocks that covers the array.
\<close>

section \<open>State\<close>

definition MEM_SIZE_ALIGNED :: nat where
  "MEM_SIZE_ALIGNED = 1048576"

definition MIN_SIZE_ALIGNED :: nat where
  "MIN_SIZE_ALIGNED = 12"

definition SIZEOF_STRUCT_MEM :: nat where
  "SIZEOF_STRUCT_MEM = 12"

record mem_hdr =
  m_next :: nat
  m_prev :: nat
  m_used :: bool

type_synonym ram = "nat \<rightharpoonup> mem_hdr"

record heap =
  h_ram :: ram
  h_lfree :: nat

text \<open>Subtraction of \<open>mem_size_t\<close> (32 bits) values.\<close>

definition sub32 :: "nat \<Rightarrow> nat \<Rightarrow> nat" where
  "sub32 a b = (a + 2 ^ 32 - b) mod 2 ^ 32"

text \<open>\<open>ptr_to_mem(k)->prev = p\<close>, guarded by \<open>k != MEM_SIZE_ALIGNED\<close>.\<close>

definition set_prev :: "ram \<Rightarrow> nat \<Rightarrow> nat \<Rightarrow> ram option" where
  "set_prev r k p =
     (if k \<noteq> MEM_SIZE_ALIGNED then map_option (\<lambda>m. r(k \<mapsto> m\<lparr>m_prev := p\<rparr>)) (r k) else Some r)"

section \<open>Operations\<close>

definition mem_init :: "heap \<Rightarrow> heap" where
  "mem_init h =
     \<lparr>h_ram = (h_ram h)
        (0 \<mapsto> \<lparr>m_next = MEM_SIZE_ALIGNED, m_prev = 0, m_used = False\<rparr>,
         MEM_SIZE_ALIGNED \<mapsto> \<lparr>m_next = MEM_SIZE_ALIGNED, m_prev = MEM_SIZE_ALIGNED, m_used = True\<rparr>),
      h_lfree = 0\<rparr>"

text \<open>The body both halves of \<open>plug_holes\<close> share: \<open>low\<close> takes over its successor \<open>high\<close>.\<close>

definition plug_combine :: "heap \<Rightarrow> nat \<Rightarrow> nat \<Rightarrow> heap option" where
  "plug_combine h low high =
     do { let lf = (if h_lfree h = high then low else h_lfree h);
          lm \<leftarrow> h_ram h low;
          hm \<leftarrow> h_ram h high;
          r \<leftarrow> set_prev ((h_ram h)(low \<mapsto> lm\<lparr>m_next := m_next hm\<rparr>)) (m_next hm) low;
          Some \<lparr>h_ram = r, h_lfree = lf\<rparr> }"

definition plug_holes :: "heap \<Rightarrow> nat \<Rightarrow> heap option" where
  "plug_holes h mem =
     do { m \<leftarrow> h_ram h mem;
          let nmem = m_next m;
          nm \<leftarrow> h_ram h nmem;
          h \<leftarrow> (if mem \<noteq> nmem \<and> \<not> m_used nm \<and> nmem \<noteq> MEM_SIZE_ALIGNED
                then plug_combine h mem nmem else Some h);
          m \<leftarrow> h_ram h mem;
          let pmem = m_prev m;
          pm \<leftarrow> h_ram h pmem;
          if pmem \<noteq> mem \<and> \<not> m_used pm then plug_combine h pmem mem else Some h }"

definition mem_link_valid :: "heap \<Rightarrow> nat \<Rightarrow> bool option" where
  "mem_link_valid h mem =
     do { m \<leftarrow> h_ram h mem;
          if m_next m > MEM_SIZE_ALIGNED \<or> m_prev m > MEM_SIZE_ALIGNED then Some False
          else do {
            pm \<leftarrow> h_ram h (m_prev m);
            if m_prev m \<noteq> mem \<and> m_next pm \<noteq> mem then Some False
            else if m_next m \<noteq> MEM_SIZE_ALIGNED then do {
              nm \<leftarrow> h_ram h (m_next m);
              Some (m_prev nm = mem) }
            else Some True } }"

text \<open>\<open>rmem\<close> is \<open>NULL\<close> or an offset into \<open>ram\<close>.\<close>

definition mem_free :: "heap \<Rightarrow> nat option \<Rightarrow> heap option" where
  "mem_free h rmem =
     (case rmem of None \<Rightarrow> Some h
      | Some p \<Rightarrow>
          (if p < SIZEOF_STRUCT_MEM \<or> p + MIN_SIZE_ALIGNED > MEM_SIZE_ALIGNED then Some h
           else do {
             let mem = p - SIZEOF_STRUCT_MEM;
             m \<leftarrow> h_ram h mem;
             if \<not> m_used m then Some h
             else do {
               valid \<leftarrow> mem_link_valid h mem;
               if \<not> valid then Some h
               else plug_holes
                 \<lparr>h_ram = (h_ram h)(mem \<mapsto> m\<lparr>m_used := False\<rparr>),
                  h_lfree = (if mem < h_lfree h then mem else h_lfree h)\<rparr> mem } }))"

text \<open>The returned pointer and the heap; the two rewriting cases share their last steps.\<close>

definition mem_trim_relink :: "ram \<Rightarrow> nat \<Rightarrow> nat \<Rightarrow> nat \<Rightarrow> ram option" where
  "mem_trim_relink r ptr ptr2 nxt =
     do { let r = r(ptr2 \<mapsto> \<lparr>m_next = nxt, m_prev = ptr, m_used = False\<rparr>);
          m \<leftarrow> r ptr;
          set_prev (r(ptr \<mapsto> m\<lparr>m_next := ptr2\<rparr>)) nxt ptr2 }"

definition mem_trim :: "heap \<Rightarrow> nat \<Rightarrow> nat \<Rightarrow> (nat option \<times> heap) option" where
  "mem_trim h rmem new_size =
     (let newsize = (if new_size < MIN_SIZE_ALIGNED then MIN_SIZE_ALIGNED else new_size)
      in if newsize > MEM_SIZE_ALIGNED \<or> newsize < new_size then Some (None, h)
         else if rmem \<ge> MEM_SIZE_ALIGNED then Some (Some rmem, h)
         else if rmem < SIZEOF_STRUCT_MEM then None
         else do {
           let ptr = rmem - SIZEOF_STRUCT_MEM;
           m \<leftarrow> h_ram h ptr;
           let size = sub32 (sub32 (m_next m) ptr) SIZEOF_STRUCT_MEM;
           if newsize > size then Some (None, h)
           else if newsize = size then Some (Some rmem, h)
           else do {
             m2 \<leftarrow> h_ram h (m_next m);
             let ptr2 = ptr + SIZEOF_STRUCT_MEM + newsize;
             if \<not> m_used m2 then do {
               r \<leftarrow> mem_trim_relink (h_ram h) ptr ptr2 (m_next m2);
               Some (Some rmem, \<lparr>h_ram = r, h_lfree = (if h_lfree h = m_next m then ptr2 else h_lfree h)\<rparr>) }
             else if newsize + SIZEOF_STRUCT_MEM + MIN_SIZE_ALIGNED \<le> size then do {
               r \<leftarrow> mem_trim_relink (h_ram h) ptr ptr2 (m_next m);
               Some (Some rmem, \<lparr>h_ram = r, h_lfree = (if ptr2 < h_lfree h then ptr2 else h_lfree h)\<rparr>) }
             else Some (Some rmem, h) } })"

text \<open>The \<open>for\<close> loop of \<open>mem_malloc\<close>: the offset of the block it takes, if there is one.\<close>

partial_function (option) mem_scan :: "ram \<Rightarrow> nat \<Rightarrow> nat \<Rightarrow> nat option option" where
  "mem_scan r sz ptr =
     (if ptr < MEM_SIZE_ALIGNED - sz
      then Option.bind (r ptr) (\<lambda>m.
        if \<not> m_used m \<and> sub32 (m_next m) (ptr + SIZEOF_STRUCT_MEM) \<ge> sz then Some (Some ptr)
        else mem_scan r sz (m_next m))
      else Some None)"

text \<open>\<open>while (cur->used && cur != ram_end)\<close>: the next free block.\<close>

partial_function (option) adjust_lfree :: "ram \<Rightarrow> nat \<Rightarrow> nat option" where
  "adjust_lfree r cur =
     Option.bind (r cur) (\<lambda>m.
       if m_used m \<and> cur \<noteq> MEM_SIZE_ALIGNED then adjust_lfree r (m_next m) else Some cur)"

definition mem_take :: "ram \<Rightarrow> nat \<Rightarrow> nat \<Rightarrow> ram option" where
  "mem_take r ptr sz =
     do { m \<leftarrow> r ptr;
          if sub32 (m_next m) (ptr + SIZEOF_STRUCT_MEM) \<ge> sz + SIZEOF_STRUCT_MEM + MIN_SIZE_ALIGNED
          then (let ptr2 = ptr + SIZEOF_STRUCT_MEM + sz
                in set_prev (r(ptr2 \<mapsto> \<lparr>m_next = m_next m, m_prev = ptr, m_used = False\<rparr>,
                               ptr \<mapsto> m\<lparr>m_next := ptr2, m_used := True\<rparr>))
                     (m_next m) ptr2)
          else Some (r(ptr \<mapsto> m\<lparr>m_used := True\<rparr>)) }"

definition mem_malloc :: "heap \<Rightarrow> nat \<Rightarrow> (nat option \<times> heap) option" where
  "mem_malloc h size_in =
     (if size_in = 0 then Some (None, h)
      else let size = (if size_in < MIN_SIZE_ALIGNED then MIN_SIZE_ALIGNED else size_in)
        in if size > MEM_SIZE_ALIGNED \<or> size < size_in then Some (None, h)
           else do {
             found \<leftarrow> mem_scan (h_ram h) size (h_lfree h);
             case found of
               None \<Rightarrow> Some (None, h)
             | Some ptr \<Rightarrow> do {
                 r \<leftarrow> mem_take (h_ram h) ptr size;
                 lf \<leftarrow> (if ptr = h_lfree h then adjust_lfree r ptr else Some (h_lfree h));
                 Some (Some (ptr + SIZEOF_STRUCT_MEM), \<lparr>h_ram = r, h_lfree = lf\<rparr>) } })"

text \<open>\<open>mem_calloc\<close>: the product is computed in 64 bits and must fit in \<open>mem_size_t\<close>; the
  zeroed range is returned with the pointer.\<close>

definition mem_calloc :: "heap \<Rightarrow> u32 \<Rightarrow> u32 \<Rightarrow> (nat option \<times> nat \<times> heap) option" where
  "mem_calloc h count sz =
     (let alloc_size = unat count * unat sz
      in if alloc_size mod 2 ^ 32 \<noteq> alloc_size then Some (None, 0, h)
         else do {
           (p, h) \<leftarrow> mem_malloc h alloc_size;
           Some (p, (if p = None then 0 else alloc_size), h) })"

lemmas mem_consts = MEM_SIZE_ALIGNED_def MIN_SIZE_ALIGNED_def SIZEOF_STRUCT_MEM_def

section \<open>Blocks\<close>

text \<open>
  A block is its header offset and whether it is used; it extends to the next block.
  \<open>nxt bs e\<close> is where the list starts when \<open>e\<close> is where it ends.
\<close>

type_synonym blocks = "(nat \<times> bool) list"

fun nxt :: "blocks \<Rightarrow> nat \<Rightarrow> nat" where
  "nxt [] e = e"
| "nxt ((k, u) # bs) e = k"

fun lastoff :: "nat \<Rightarrow> blocks \<Rightarrow> nat" where
  "lastoff p [] = p"
| "lastoff p ((k, u) # bs) = lastoff k bs"

fun linked :: "ram \<Rightarrow> nat \<Rightarrow> blocks \<Rightarrow> nat \<Rightarrow> bool" where
  "linked r p [] e \<longleftrightarrow> True"
| "linked r p ((k, u) # bs) e \<longleftrightarrow>
     r k = Some \<lparr>m_next = nxt bs e, m_prev = p, m_used = u\<rparr> \<and> k + 24 \<le> nxt bs e \<and> linked r k bs e"

lemma nxt_append [simp]: "nxt (xs @ ys) e = nxt xs (nxt ys e)"
  by (cases xs) auto

lemma lastoff_append [simp]: "lastoff p (xs @ ys) = lastoff (lastoff p xs) ys"
  by (induction p xs rule: lastoff.induct) auto

lemma linked_append [simp]:
  "linked r p (xs @ ys) e \<longleftrightarrow> linked r p xs (nxt ys e) \<and> linked r (lastoff p xs) ys e"
  by (induction r p xs e rule: linked.induct) auto

lemma linked_start_le: "linked r p bs e \<Longrightarrow> nxt bs e \<le> e"
  by (induction r p bs e rule: linked.induct) auto

lemma linked_bounds:
  "linked r p bs e \<Longrightarrow> (k, u) \<in> set bs \<Longrightarrow> nxt bs e \<le> k \<and> k + 24 \<le> e"
proof (induction r p bs e rule: linked.induct)
  case (2 r p k' u' bs e)
  then have IH: "(k, u) \<in> set bs \<Longrightarrow> nxt bs e \<le> k \<and> k + 24 \<le> e" by simp
  show ?case
    using 2(2,3) linked_start_le [of r k' bs e] IH by fastforce
qed simp

lemma linked_cong:
  assumes "\<And>k. k \<in> fst ` set bs \<Longrightarrow> r' k = r k"
  shows "linked r' p bs e = linked r p bs e"
  using assms by (induction r p bs e rule: linked.induct) simp_all

text \<open>Changing the \<open>prev\<close> link of the first block.\<close>

lemma linked_set_prev:
  assumes "linked r p ((k, u) # bs) e" "r' k = map_option (\<lambda>m. m\<lparr>m_prev := p'\<rparr>) (r k)"
    "\<And>j. j \<in> fst ` set bs \<Longrightarrow> r' j = r j"
  shows "linked r' p' ((k, u) # bs) e"
  using assms linked_cong [of bs r' r k e] by simp

definition end_hdr :: mem_hdr where
  "end_hdr = \<lparr>m_next = MEM_SIZE_ALIGNED, m_prev = MEM_SIZE_ALIGNED, m_used = True\<rparr>"

definition links :: "ram \<Rightarrow> blocks \<Rightarrow> bool" where
  "links r bs \<longleftrightarrow> linked r 0 bs MEM_SIZE_ALIGNED \<and> nxt bs MEM_SIZE_ALIGNED = 0
     \<and> r MEM_SIZE_ALIGNED = Some end_hdr"

lemma links_nonempty: "links r bs \<Longrightarrow> bs \<noteq> []"
  by (auto simp: links_def mem_consts)

text \<open>
  The one lemma behind every relinking operation: a run \<open>mid\<close> of blocks is replaced by
  \<open>mid'\<close> between the same bounds, only headers between these bounds change, and the block
  that follows gets a new \<open>prev\<close> link.
\<close>

lemma links_replace:
  assumes l: "links r (xs @ mid @ ys)" and ne: "mid \<noteq> []" "mid' \<noteq> []"
    and start: "nxt mid' 0 = nxt mid 0"
    and frame: "\<And>k. k < nxt mid 0 \<or> nxt ys MEM_SIZE_ALIGNED \<le> k \<Longrightarrow> r0 k = r k"
    and mid': "linked r0 (lastoff 0 xs) mid' (nxt ys MEM_SIZE_ALIGNED)"
  shows "\<exists>r'. set_prev r0 (nxt ys MEM_SIZE_ALIGNED) (lastoff 0 mid') = Some r' \<and> links r' (xs @ mid' @ ys)"
proof -
  let ?E = MEM_SIZE_ALIGNED and ?y = "nxt ys MEM_SIZE_ALIGNED"
  obtain k u ms where m: "mid = (k, u) # ms" using ne(1) by (cases mid) auto
  obtain u' ms' where m': "mid' = (k, u') # ms'" using ne(2) start m by (cases mid') auto
  have lx: "linked r 0 xs k" and lm: "linked r (lastoff 0 xs) mid ?y"
    and ly: "linked r (lastoff 0 mid) ys ?E" and z: "nxt xs k = 0" and e: "r ?E = Some end_hdr"
    using l unfolding links_def by (auto simp: m)
  have ky: "k < ?y" using linked_bounds [OF lm, of k u] by (simp add: m)
  have yE: "?y \<le> ?E" by (rule linked_start_le [OF ly])
  have xs: "j < k" if "j \<in> fst ` set xs" for j
  proof -
    from that obtain v where "(j, v) \<in> set xs" by auto
    from linked_bounds [OF lx this] show ?thesis by simp
  qed
  have ms': "k \<le> j \<and> j < ?y" if "j \<in> fst ` set mid'" for j
  proof -
    from that obtain v where "(j, v) \<in> set mid'" by auto
    from linked_bounds [OF mid' this] show ?thesis by (simp add: m')
  qed
  show ?thesis
  proof (cases ys)
    case Nil
    have "links r0 (xs @ mid')"
      using lx mid' e z linked_cong [of xs r0 r 0 k] xs frame
      by (auto simp: links_def m m' Nil)
    then show ?thesis by (simp add: Nil set_prev_def)
  next
    case (Cons yb ys')
    obtain y v where y: "yb = (y, v)" by (cases yb)
    have yb: "?y = y" "y < ?E" using ly by (auto simp: Cons y dest: linked_start_le)
    have ys': "y < j \<and> j < ?E" if "j \<in> fst ` set ys'" for j
    proof -
      from that obtain v where "(j, v) \<in> set ys'" by auto
      moreover have "linked r y ys' ?E" "y + 24 \<le> nxt ys' ?E" using ly by (simp_all add: Cons y)
      ultimately show ?thesis using linked_bounds [of r y ys' ?E j v] by simp
    qed
    define r1 where "r1 = r0(y \<mapsto> (the (r0 y))\<lparr>m_prev := lastoff 0 mid'\<rparr>)"
    have r1: "r1 j = r0 j" if "j \<noteq> y" for j using that by (simp add: r1_def)
    have ry: "r0 y = r y" "r y \<noteq> None" using frame [of y] ly by (auto simp: Cons y)
    have "r1 y = map_option (\<lambda>m. m\<lparr>m_prev := lastoff 0 mid'\<rparr>) (r y)"
      using ry by (auto simp: r1_def)
    then have "linked r1 (lastoff 0 mid') ys ?E"
      unfolding Cons y using ys' frame yb r1
      by (intro linked_set_prev [OF ly [unfolded Cons y]]) force+
    moreover have "linked r1 0 xs k"
    proof -
      have "r1 j = r j" if "j \<in> fst ` set xs" for j
        using xs [OF that] ky yb r1 [of j] frame [of j] by (simp add: m)
      with lx linked_cong [of xs r1 r 0 k] show ?thesis by blast
    qed
    moreover have "linked r1 (lastoff 0 xs) mid' y"
    proof -
      have "r1 j = r0 j" if "j \<in> fst ` set mid'" for j
        using ms' [OF that] yb r1 [of j] by simp
      with mid' yb linked_cong [of mid' r1 r0 "lastoff 0 xs" y] show ?thesis by simp
    qed
    moreover have "r1 ?E = Some end_hdr"
      using e yb r1 [of ?E] frame [of ?E] by simp
    ultimately have "links r1 (xs @ mid' @ ys)"
      using z yb by (simp only: links_def nxt_append linked_append lastoff_append simp_thms)
        (simp add: m' Cons y)
    moreover have "set_prev r0 ?y (lastoff 0 mid') = Some r1"
      using ry yb by (auto simp: set_prev_def r1_def)
    ultimately show ?thesis by blast
  qed
qed

section \<open>The invariant and the allocations\<close>

fun no_adj_free :: "blocks \<Rightarrow> bool" where
  "no_adj_free ((k, u) # (j, v) # bs) \<longleftrightarrow> (u \<or> v) \<and> no_adj_free ((j, v) # bs)"
| "no_adj_free bs \<longleftrightarrow> True"

fun lowest :: "blocks \<Rightarrow> nat" where
  "lowest [] = MEM_SIZE_ALIGNED"
| "lowest ((k, u) # bs) = (if u then lowest bs else k)"

definition heap_inv :: "heap \<Rightarrow> blocks \<Rightarrow> bool" where
  "heap_inv h bs \<longleftrightarrow> links (h_ram h) bs \<and> no_adj_free bs \<and> h_lfree h = lowest bs"

text \<open>The used blocks, as the ranges handed out: from behind the header to the next one.\<close>

fun allocs :: "blocks \<Rightarrow> nat \<Rightarrow> (nat \<times> nat) set" where
  "allocs [] e = {}"
| "allocs ((k, u) # bs) e = (if u then {(k + SIZEOF_STRUCT_MEM, nxt bs e)} else {}) \<union> allocs bs e"

abbreviation heap_allocs :: "blocks \<Rightarrow> (nat \<times> nat) set" where
  "heap_allocs bs \<equiv> allocs bs MEM_SIZE_ALIGNED"

lemma allocs_append [simp]: "allocs (xs @ ys) e = allocs xs (nxt ys e) \<union> allocs ys e"
  by (induction xs) auto

lemma no_adj_free_Cons:
  "no_adj_free ((k, u) # bs) \<longleftrightarrow> no_adj_free bs \<and> (bs = [] \<or> u \<or> snd (hd bs))"
  by (cases bs) auto

lemma no_adj_free_append:
  "no_adj_free (xs @ ys) \<longleftrightarrow> no_adj_free xs \<and> no_adj_free ys
     \<and> (xs = [] \<or> ys = [] \<or> snd (last xs) \<or> snd (hd ys))"
proof (induction xs)
  case (Cons b xs)
  then show ?case by (cases b; cases xs) (auto simp: no_adj_free_Cons)
qed simp

lemma lowest_append: "lowest (xs @ ys) = (if list_all snd xs then lowest ys else lowest xs)"
  by (induction xs) auto

lemma lowest_in: "\<not> list_all snd bs \<Longrightarrow> (lowest bs, False) \<in> set bs"
  by (induction bs) auto

lemma lowest_used: "list_all snd bs \<Longrightarrow> lowest bs = MEM_SIZE_ALIGNED"
  by (induction bs) auto

lemma sub32_le: "b \<le> a \<Longrightarrow> a < 4294967296 \<Longrightarrow> sub32 a b = a - b"
proof -
  assume ab: "b \<le> a" "a < 4294967296"
  then have eq: "a + 4294967296 - b = (a - b) + 4294967296" by simp
  have p: "(2 :: nat) ^ 32 = 4294967296" by simp
  show ?thesis
    by (simp only: sub32_def p eq mod_add_self2) (use ab in simp)
qed

lemma links_before:
  assumes "links r (xs @ (k, u) # ys)" "(j, v) \<in> set xs" shows "j + 24 \<le> k"
  using assms linked_bounds [of r 0 xs k] by (auto simp: links_def)

lemma links_after:
  assumes "links r (xs @ (k, u) # ys)"
  shows "k + 24 \<le> nxt ys MEM_SIZE_ALIGNED" "nxt ys MEM_SIZE_ALIGNED \<le> MEM_SIZE_ALIGNED"
    "\<And>j v. (j, v) \<in> set ys \<Longrightarrow> k + 24 \<le> j \<and> j + 24 \<le> MEM_SIZE_ALIGNED"
proof -
  have l: "linked r k ys MEM_SIZE_ALIGNED" "k + 24 \<le> nxt ys MEM_SIZE_ALIGNED"
    using assms by (auto simp: links_def)
  from l show "k + 24 \<le> nxt ys MEM_SIZE_ALIGNED" "nxt ys MEM_SIZE_ALIGNED \<le> MEM_SIZE_ALIGNED"
    using linked_start_le by auto
  fix j v assume "(j, v) \<in> set ys"
  with linked_bounds [OF l(1)] l(2) show "k + 24 \<le> j \<and> j + 24 \<le> MEM_SIZE_ALIGNED" by fastforce
qed

lemma links_hdr:
  "links r (xs @ (k, u) # ys) \<Longrightarrow>
     r k = Some \<lparr>m_next = nxt ys MEM_SIZE_ALIGNED, m_prev = lastoff 0 xs, m_used = u\<rparr>"
  by (simp add: links_def)

lemma links_next_hdr:
  assumes "links r (xs @ (k, u) # ys)"
  shows "r (nxt ys MEM_SIZE_ALIGNED) = (case ys of [] \<Rightarrow> Some end_hdr
    | (j, v) # zs \<Rightarrow> Some \<lparr>m_next = nxt zs MEM_SIZE_ALIGNED, m_prev = k, m_used = v\<rparr>)"
  using assms by (cases ys) (auto simp: links_def)

text \<open>Only the used flag of a block changes.\<close>

lemma links_set_used:
  assumes "links r (xs @ (k, u) # ys)" "r k = Some m"
  shows "links (r(k \<mapsto> m\<lparr>m_used := u'\<rparr>)) (xs @ (k, u') # ys)"
proof -
  let ?r0 = "r(k \<mapsto> m\<lparr>m_used := u'\<rparr>)"
  have m: "m = \<lparr>m_next = nxt ys MEM_SIZE_ALIGNED, m_prev = lastoff 0 xs, m_used = u\<rparr>"
    using links_hdr [OF assms(1)] assms(2) by simp
  note after = links_after [OF assms(1)]
  have "\<exists>r'. set_prev ?r0 (nxt ys MEM_SIZE_ALIGNED) (lastoff 0 [(k, u')]) = Some r'
      \<and> links r' (xs @ [(k, u')] @ ys)"
    by (rule links_replace [where mid = "[(k, u)]" and r = r])
      (use assms m after in \<open>auto\<close>)
  moreover have "set_prev ?r0 (nxt ys MEM_SIZE_ALIGNED) k = Some ?r0"
  proof (cases ys)
    case (Cons y zs)
    then show ?thesis
      using links_next_hdr [OF assms(1)] after
      by (cases y) (auto simp: set_prev_def fun_upd_idem_iff)
  qed (simp add: set_prev_def)
  ultimately show ?thesis by simp
qed

section \<open>Allocation\<close>

fun first_fit :: "nat \<Rightarrow> blocks \<Rightarrow> nat option" where
  "first_fit sz [] = None"
| "first_fit sz ((k, u) # bs) =
     (if \<not> u \<and> sz \<le> nxt bs MEM_SIZE_ALIGNED - (k + SIZEOF_STRUCT_MEM) then Some k else first_fit sz bs)"

lemma first_fit_used: "list_all snd xs \<Longrightarrow> first_fit sz (xs @ ys) = first_fit sz ys"
  by (induction xs) auto

lemma first_fit_late:
  assumes "linked r p bs MEM_SIZE_ALIGNED" "MEM_SIZE_ALIGNED - sz \<le> nxt bs MEM_SIZE_ALIGNED"
    "sz \<le> MEM_SIZE_ALIGNED" "0 < sz"
  shows "first_fit sz bs = None"
  using assms(1,2)
proof (induction bs arbitrary: p)
  case (Cons b bs)
  obtain k u where b: "b = (k, u)" by (cases b)
  have "linked r k bs MEM_SIZE_ALIGNED" "k + 24 \<le> nxt bs MEM_SIZE_ALIGNED"
    "nxt bs MEM_SIZE_ALIGNED \<le> MEM_SIZE_ALIGNED"
    using Cons.prems(1) linked_start_le by (auto simp: b)
  moreover have "MEM_SIZE_ALIGNED - sz \<le> k" using Cons.prems(2) by (simp add: b)
  ultimately show ?case
    using Cons.IH [of k] assms(3,4) by (auto simp: b mem_consts)
qed simp

lemma mem_scan_first_fit:
  assumes "linked r p bs MEM_SIZE_ALIGNED" "sz \<le> MEM_SIZE_ALIGNED" "0 < sz"
  shows "mem_scan r sz (nxt bs MEM_SIZE_ALIGNED) = Some (first_fit sz bs)"
  using assms(1)
proof (induction bs arbitrary: p)
  case Nil
  then show ?case using assms(3) by (subst mem_scan.simps) (auto simp: mem_consts)
next
  case (Cons b bs)
  obtain k u where b: "b = (k, u)" by (cases b)
  have h: "r k = Some \<lparr>m_next = nxt bs MEM_SIZE_ALIGNED, m_prev = p, m_used = u\<rparr>"
    "linked r k bs MEM_SIZE_ALIGNED" "k + 24 \<le> nxt bs MEM_SIZE_ALIGNED"
    "nxt bs MEM_SIZE_ALIGNED \<le> MEM_SIZE_ALIGNED"
    using Cons.prems linked_start_le by (auto simp: b)
  have sub: "sub32 (nxt bs MEM_SIZE_ALIGNED) (k + SIZEOF_STRUCT_MEM) = nxt bs MEM_SIZE_ALIGNED - (k + SIZEOF_STRUCT_MEM)"
    using h by (intro sub32_le) (auto simp: mem_consts)
  show ?case
  proof (cases "k < MEM_SIZE_ALIGNED - sz")
    case True
    then show ?thesis
      using Cons.IH [OF h(2)] by (subst mem_scan.simps) (simp add: b h(1) sub)
  next
    case False
    then have "first_fit sz (b # bs) = None"
      using first_fit_late [OF Cons.prems _ assms(2,3)] by (simp add: b)
    with False show ?thesis by (subst mem_scan.simps) (simp add: b)
  qed
qed

lemma mem_scan_lowest:
  assumes "links r bs" "sz \<le> MEM_SIZE_ALIGNED" "0 < sz"
  shows "mem_scan r sz (lowest bs) = Some (first_fit sz bs)"
proof (cases "list_all snd bs")
  case True
  then show ?thesis
    using mem_scan_first_fit [of r 0 "[]" sz] assms(2,3) first_fit_used [OF True, of sz "[]"]
    by (simp add: lowest_used)
next
  case False
  then have "\<exists>b \<in> set bs. \<not> snd b" by (auto simp: list_all_iff)
  from split_list_first_prop [OF this] obtain k us ys where
    bs: "bs = us @ (k, False) # ys" "list_all snd us"
    by (auto simp: list_all_iff)
  have "linked r (lastoff 0 us) ((k, False) # ys) MEM_SIZE_ALIGNED"
    using assms(1) unfolding links_def bs(1) linked_append by blast
  from mem_scan_first_fit [OF this assms(2,3)] bs(2) show ?thesis
    by (simp add: bs(1) lowest_append first_fit_used)
qed

lemma adjust_lfree_lowest:
  assumes "linked r p bs MEM_SIZE_ALIGNED" "r MEM_SIZE_ALIGNED = Some end_hdr"
  shows "adjust_lfree r (nxt bs MEM_SIZE_ALIGNED) = Some (lowest bs)"
  using assms(1)
proof (induction bs arbitrary: p)
  case Nil
  then show ?case using assms(2) by (subst adjust_lfree.simps) simp
next
  case (Cons b bs)
  obtain k u where b: "b = (k, u)" by (cases b)
  have "k < MEM_SIZE_ALIGNED" "linked r k bs MEM_SIZE_ALIGNED"
    using linked_bounds [OF Cons.prems, of k u] Cons.prems by (auto simp: b)
  then show ?case
    using Cons by (subst adjust_lfree.simps) (simp add: b)
qed

lemma first_fit_split:
  "first_fit sz bs = Some k \<Longrightarrow> \<exists>xs ys. bs = xs @ (k, False) # ys
     \<and> sz \<le> nxt ys MEM_SIZE_ALIGNED - (k + SIZEOF_STRUCT_MEM)"
proof (induction bs)
  case (Cons b bs)
  show ?case
  proof (cases "\<not> snd b \<and> sz \<le> nxt bs MEM_SIZE_ALIGNED - (fst b + SIZEOF_STRUCT_MEM)")
    case True
    then have "b = (k, False)" using Cons.prems by (cases b) auto
    with True show ?thesis by (intro exI [of _ "[]"] exI [of _ bs]) auto
  next
    case False
    then have "first_fit sz bs = Some k" using Cons.prems by (cases b) (auto split: if_splits)
    from Cons.IH [OF this] show ?thesis by (metis append_Cons)
  qed
qed simp

lemma first_fit_None:
  "first_fit sz (xs @ (k, False) # ys) = None \<Longrightarrow> nxt ys MEM_SIZE_ALIGNED - (k + SIZEOF_STRUCT_MEM) < sz"
  by (induction xs) (auto split: if_splits)

text \<open>Splitting a block at \<open>p2\<close>: the rewriting of \<open>mem_malloc\<close> and of \<open>mem_trim\<close>.\<close>

lemma links_split:
  assumes l: "links r (xs @ (k, u) # ys)" and p2: "k + 24 \<le> p2" "p2 + 24 \<le> nxt ys MEM_SIZE_ALIGNED"
  shows "\<exists>r'. set_prev (r(p2 \<mapsto> \<lparr>m_next = nxt ys MEM_SIZE_ALIGNED, m_prev = k, m_used = v\<rparr>,
        k \<mapsto> \<lparr>m_next = p2, m_prev = lastoff 0 xs, m_used = u'\<rparr>)) (nxt ys MEM_SIZE_ALIGNED) p2 = Some r'
    \<and> links r' (xs @ (k, u') # (p2, v) # ys)"
proof -
  let ?r0 = "r(p2 \<mapsto> \<lparr>m_next = nxt ys MEM_SIZE_ALIGNED, m_prev = k, m_used = v\<rparr>,
        k \<mapsto> \<lparr>m_next = p2, m_prev = lastoff 0 xs, m_used = u'\<rparr>)"
  have "\<exists>r'. set_prev ?r0 (nxt ys MEM_SIZE_ALIGNED) (lastoff 0 [(k, u'), (p2, v)]) = Some r'
      \<and> links r' (xs @ [(k, u'), (p2, v)] @ ys)"
    by (rule links_replace [where mid = "[(k, u)]" and r = r]) (use l p2 in \<open>auto\<close>)
  then show ?thesis by simp
qed

definition taken :: "nat \<Rightarrow> nat \<Rightarrow> nat \<Rightarrow> blocks" where
  "taken k sz n = (if sz + 24 \<le> n - (k + 12) then [(k, True), (k + 12 + sz, False)] else [(k, True)])"

lemma mem_take_links:
  assumes l: "links r (xs @ (k, False) # ys)"
    and sz: "sz \<le> nxt ys MEM_SIZE_ALIGNED - (k + SIZEOF_STRUCT_MEM)" "MIN_SIZE_ALIGNED \<le> sz"
  shows "\<exists>r'. mem_take r k sz = Some r' \<and> links r' (xs @ taken k sz (nxt ys MEM_SIZE_ALIGNED) @ ys)"
proof -
  let ?n = "nxt ys MEM_SIZE_ALIGNED"
  note after = links_after [OF l] and hdr = links_hdr [OF l]
  have sub: "sub32 ?n (k + SIZEOF_STRUCT_MEM) = ?n - (k + SIZEOF_STRUCT_MEM)"
    using after by (intro sub32_le) (auto simp: mem_consts)
  show ?thesis
  proof (cases "sz + 24 \<le> ?n - (k + 12)")
    case True
    then have "k + 24 \<le> k + 12 + sz" "k + 12 + sz + 24 \<le> ?n" using sz after by (auto simp: mem_consts)
    from links_split [OF l this, of False True] True sub show ?thesis
      by (auto simp: mem_take_def hdr taken_def SIZEOF_STRUCT_MEM_def
          MIN_SIZE_ALIGNED_def Let_def)
  next
    case False
    then show ?thesis
      using links_set_used [OF l hdr, of True] sub
      by (simp add: mem_take_def hdr taken_def SIZEOF_STRUCT_MEM_def MIN_SIZE_ALIGNED_def)
  qed
qed

lemma allocs_bounds:
  "linked r p bs e \<Longrightarrow> (a, b) \<in> allocs bs e \<Longrightarrow> nxt bs e + 12 \<le> a \<and> a + 12 \<le> b \<and> b \<le> e"
proof (induction r p bs e rule: linked.induct)
  case (2 r p k u bs e)
  then have "(a, b) \<in> allocs bs e \<Longrightarrow> nxt bs e + 12 \<le> a \<and> a + 12 \<le> b \<and> b \<le> e" by simp
  moreover have "k + 24 \<le> nxt bs e" "nxt bs e \<le> e" using 2(2) linked_start_le by auto
  ultimately show ?case
    using 2(3) by (auto simp: SIZEOF_STRUCT_MEM_def split: if_splits)
qed simp

text \<open>All ranges handed out besides the one of block \<open>k\<close> keep clear of it, headers included.\<close>

lemma allocs_apart:
  assumes "links r (xs @ (k, u) # ys)"
    and "(a, b) \<in> allocs xs k \<or> (a, b) \<in> heap_allocs ys"
  shows "b + 12 \<le> k + 12 \<or> nxt ys MEM_SIZE_ALIGNED + 12 \<le> a"
proof -
  have "linked r 0 xs k" "linked r k ys MEM_SIZE_ALIGNED" using assms(1) by (simp_all add: links_def)
  then show ?thesis using assms(2) allocs_bounds by fastforce
qed

lemma taken_facts:
  "nxt (taken k sz n) e = k" "taken k sz n \<noteq> []" "snd (hd (taken k sz n))"
  "no_adj_free (taken k sz n)"
  "\<exists>e \<in> {k + 12 + sz, n}. \<forall>z. z = n \<longrightarrow> allocs (taken k sz n) z = {(k + 12, e)}"
  by (auto simp: taken_def SIZEOF_STRUCT_MEM_def)

lemma taken_no_adj:
  assumes "no_adj_free (xs @ (k, False) # ys)"
  shows "no_adj_free (xs @ taken k sz n @ ys)"
  using assms by (auto simp: no_adj_free_append no_adj_free_Cons taken_facts taken_def)

lemma mem_malloc_unfold:
  assumes "0 < n" "sz = max n 12"
  shows "mem_malloc h n = (if sz > MEM_SIZE_ALIGNED then Some (None, h)
    else do {
      found \<leftarrow> mem_scan (h_ram h) sz (h_lfree h);
      case found of
        None \<Rightarrow> Some (None, h)
      | Some ptr \<Rightarrow> do {
          r \<leftarrow> mem_take (h_ram h) ptr sz;
          lf \<leftarrow> (if ptr = h_lfree h then adjust_lfree r ptr else Some (h_lfree h));
          Some (Some (ptr + SIZEOF_STRUCT_MEM), \<lparr>h_ram = r, h_lfree = lf\<rparr>) } })"
proof -
  have sz: "(if n < MIN_SIZE_ALIGNED then MIN_SIZE_ALIGNED else n) = sz" "\<not> sz < n"
    using assms by (simp_all add: mem_consts max_def)
  show ?thesis using assms(1) sz(2) unfolding mem_malloc_def sz(1) Let_def by simp
qed

lemma mem_malloc_found:
  assumes inv: "heap_inv h bs" and n: "0 < n" "sz = max n 12" "sz \<le> MEM_SIZE_ALIGNED"
    and fit: "first_fit sz bs = Some k"
  shows "\<exists>xs ys h'. bs = xs @ (k, False) # ys \<and> sz \<le> nxt ys MEM_SIZE_ALIGNED - (k + 12)
    \<and> mem_malloc h n = Some (Some (k + 12), h')
    \<and> heap_inv h' (xs @ taken k sz (nxt ys MEM_SIZE_ALIGNED) @ ys)"
proof -
  obtain xs ys where bs: "bs = xs @ (k, False) # ys"
    and room: "sz \<le> nxt ys MEM_SIZE_ALIGNED - (k + SIZEOF_STRUCT_MEM)"
    using first_fit_split [OF fit] by blast
  let ?new = "xs @ taken k sz (nxt ys MEM_SIZE_ALIGNED) @ ys"
  have l: "links (h_ram h) (xs @ (k, False) # ys)" and na: "no_adj_free bs" and lf: "h_lfree h = lowest bs"
    using inv bs by (auto simp: heap_inv_def)
  have "MIN_SIZE_ALIGNED \<le> sz" using n by (simp add: mem_consts)
  from mem_take_links [OF l room this]
  obtain r' where r': "mem_take (h_ram h) k sz = Some r'" "links r' ?new" by blast
  have scan: "mem_scan (h_ram h) sz (h_lfree h) = Some (Some k)"
    using inv mem_scan_lowest [of "h_ram h" bs sz] n fit by (simp add: heap_inv_def)
  have lf': "(if k = h_lfree h then adjust_lfree r' k else Some (h_lfree h)) = Some (lowest ?new)"
  proof (cases "list_all snd xs")
    case True
    have "linked r' (lastoff 0 xs) (taken k sz (nxt ys MEM_SIZE_ALIGNED) @ ys) MEM_SIZE_ALIGNED"
      "r' MEM_SIZE_ALIGNED = Some end_hdr"
      using r'(2) by (simp_all add: links_def)
    from adjust_lfree_lowest [OF this] True show ?thesis
      by (simp add: lf bs lowest_append taken_facts)
  next
    case False
    then have "lowest xs \<noteq> k"
      using lowest_in [OF False] links_before [OF l] by fastforce
    with False show ?thesis by (simp add: lf bs lowest_append)
  qed
  have "mem_malloc h n = Some (Some (k + SIZEOF_STRUCT_MEM), \<lparr>h_ram = r', h_lfree = lowest ?new\<rparr>)"
    unfolding mem_malloc_unfold [OF n(1,2)] using n(3) scan r'(1) lf' by (simp split: if_splits)
  moreover have "heap_inv \<lparr>h_ram = r', h_lfree = lowest ?new\<rparr> ?new"
    using r'(2) taken_no_adj na by (simp add: heap_inv_def bs)
  ultimately show ?thesis using bs room by (auto simp: SIZEOF_STRUCT_MEM_def)
qed

lemma mem_malloc_not_found:
  assumes inv: "heap_inv h bs" and n: "0 < n" "sz = max n 12"
    and fit: "sz > MEM_SIZE_ALIGNED \<or> first_fit sz bs = None"
  shows "mem_malloc h n = Some (None, h)"
proof -
  have "0 < sz" using n by simp
  then have "sz \<le> MEM_SIZE_ALIGNED \<Longrightarrow> mem_scan (h_ram h) sz (h_lfree h) = Some None"
    using inv mem_scan_lowest [of "h_ram h" bs sz] fit by (auto simp: heap_inv_def)
  then show ?thesis
    unfolding mem_malloc_unfold [OF n] by auto
qed

lemma mem_malloc_spec:
  assumes "heap_inv h bs" "0 < n"
  shows "\<exists>p h' bs'. mem_malloc h n = Some (p, h') \<and> heap_inv h' bs' \<and>
    (case p of
       None \<Rightarrow> h' = h \<and> bs' = bs \<and> (\<forall>xs k ys. bs = xs @ (k, False) # ys
                 \<longrightarrow> nxt ys MEM_SIZE_ALIGNED < k + SIZEOF_STRUCT_MEM + max n MIN_SIZE_ALIGNED)
     | Some a \<Rightarrow> \<exists>e. a + n \<le> e \<and> e \<le> MEM_SIZE_ALIGNED
                 \<and> heap_allocs bs' = insert (a, e) (heap_allocs bs)
                 \<and> (\<forall>(s, t) \<in> heap_allocs bs. t + SIZEOF_STRUCT_MEM \<le> a \<or> e + SIZEOF_STRUCT_MEM \<le> s))"
proof (cases "max n 12 \<le> MEM_SIZE_ALIGNED \<and> first_fit (max n 12) bs \<noteq> None")
  case False
  then have "mem_malloc h n = Some (None, h)"
    using mem_malloc_not_found [OF assms refl] by (metis not_le)
  moreover have "nxt ys MEM_SIZE_ALIGNED < k + SIZEOF_STRUCT_MEM + max n MIN_SIZE_ALIGNED"
    if bs: "bs = xs @ (k, False) # ys" for xs k ys
  proof (cases "max n 12 \<le> MEM_SIZE_ALIGNED")
    case True
    with False have "first_fit (max n 12) (xs @ (k, False) # ys) = None" by (simp add: bs)
    from first_fit_None [OF this] show ?thesis by (auto simp: mem_consts)
  next
    case 1: False
    have "nxt ys MEM_SIZE_ALIGNED \<le> MEM_SIZE_ALIGNED"
      using assms(1) links_after(2) [of "h_ram h" xs k False ys] by (simp add: heap_inv_def bs)
    with 1 show ?thesis by (auto simp: mem_consts)
  qed
  ultimately show ?thesis using assms(1) by auto
next
  case True
  then obtain k where k: "first_fit (max n 12) bs = Some k" by auto
  obtain xs ys h' where *: "bs = xs @ (k, False) # ys" "max n 12 \<le> nxt ys MEM_SIZE_ALIGNED - (k + 12)"
      "mem_malloc h n = Some (Some (k + 12), h')"
      "heap_inv h' (xs @ taken k (max n 12) (nxt ys MEM_SIZE_ALIGNED) @ ys)"
    using mem_malloc_found [OF assms refl _ k] True by blast
  let ?n = "nxt ys MEM_SIZE_ALIGNED"
  obtain e where e: "allocs (taken k (max n 12) ?n) ?n = {(k + 12, e)}" "e = k + 12 + max n 12 \<or> e = ?n"
    using taken_facts(5) [of k "max n 12" ?n] by auto
  have l: "links (h_ram h) (xs @ (k, False) # ys)" using assms(1) *(1) by (simp add: heap_inv_def)
  have "e \<le> ?n" "k + 12 + n \<le> e" "?n \<le> MEM_SIZE_ALIGNED"
    using e(2) *(2) links_after [OF l] by auto
  moreover have "heap_allocs (xs @ taken k (max n 12) ?n @ ys) = insert (k + 12, e) (heap_allocs bs)"
    using e(1) by (auto simp: *(1) taken_facts)
  moreover have "t + 12 \<le> k + 12 \<or> e + 12 \<le> s" if "(s, t) \<in> heap_allocs bs" for s t
    using allocs_apart [OF l, of s t] that \<open>e \<le> ?n\<close> by (auto simp: *(1))
  ultimately have "\<exists>e. k + 12 + n \<le> e \<and> e \<le> MEM_SIZE_ALIGNED
      \<and> heap_allocs (xs @ taken k (max n 12) ?n @ ys) = insert (k + 12, e) (heap_allocs bs)
      \<and> (\<forall>(s, t) \<in> heap_allocs bs. t + SIZEOF_STRUCT_MEM \<le> k + 12 \<or> e + SIZEOF_STRUCT_MEM \<le> s)"
    unfolding SIZEOF_STRUCT_MEM_def by (intro exI [of _ e] conjI) auto
  then show ?thesis
    using *(3,4) by (intro exI [of _ "Some (k + 12)"] exI [of _ h']
        exI [of _ "xs @ taken k (max n 12) ?n @ ys"] conjI) (simp_all only: option.case)
qed

text \<open>
  C24: \<open>mem_malloc\<close> is a correct allocator in every well-formed heap: it returns; a returned
  range has room for the request, lies inside the array and overlaps neither another range
  nor any block header; all other allocations stay as they are; the heap stays well formed
  (no two free blocks adjacent, \<open>lfree\<close> the lowest free block). \<open>NULL\<close> means that no free
  block is large enough, and then nothing changes.
\<close>

theorem mem_malloc_correct:
  assumes "heap_inv h bs" "0 < n"
  shows "\<exists>p h' bs'. mem_malloc h n = Some (p, h') \<and> heap_inv h' bs' \<and>
    (case p of
       None \<Rightarrow> h' = h \<and> bs' = bs \<and> (\<forall>xs k ys. bs = xs @ (k, False) # ys
                 \<longrightarrow> nxt ys MEM_SIZE_ALIGNED < k + SIZEOF_STRUCT_MEM + max n MIN_SIZE_ALIGNED)
     | Some a \<Rightarrow> \<exists>e. a + n \<le> e \<and> e \<le> MEM_SIZE_ALIGNED
                 \<and> heap_allocs bs' = insert (a, e) (heap_allocs bs)
                 \<and> (\<forall>(s, t) \<in> heap_allocs bs. t + SIZEOF_STRUCT_MEM \<le> a \<or> e + SIZEOF_STRUCT_MEM \<le> s))"
  by (rule mem_malloc_spec [OF assms])

definition demo_heap :: heap where
  "demo_heap = mem_init \<lparr>h_ram = Map.empty, h_lfree = 0\<rparr>"

lemma demo_heap_inv: "heap_inv demo_heap [(0, False)]"
  by (simp add: demo_heap_def mem_init_def heap_inv_def links_def end_hdr_def mem_consts)

theorem mem_malloc_correct_witness:
  "\<exists>h'. mem_malloc demo_heap 1500 = Some (Some 12, h')"
proof -
  from mem_malloc_correct [OF demo_heap_inv, of 1500]
  obtain p h' where "mem_malloc demo_heap 1500 = Some (p, h')"
    "p = None \<Longrightarrow> nxt [] MEM_SIZE_ALIGNED < 0 + SIZEOF_STRUCT_MEM + max 1500 MIN_SIZE_ALIGNED"
    by (fastforce split: option.splits)
  then have "mem_malloc demo_heap 1500 = Some (p, h')" "p \<noteq> None" by (auto simp: mem_consts)
  moreover have "p = None \<or> p = Some 12"
    using calculation(1) unfolding mem_malloc_unfold [OF _ refl, of 1500 demo_heap, simplified]
    by (subst (asm) mem_scan.simps) (auto simp: demo_heap_def mem_init_def mem_consts sub32_def
        bind_eq_Some_conv split: if_splits)
  ultimately show ?thesis by blast
qed

section \<open>Freeing\<close>

text \<open>Merging two neighbouring blocks, the work of both halves of \<open>plug_holes\<close>.\<close>

lemma plug_combine_links:
  assumes l: "links (h_ram h) (xs @ (a, u) # (b, v) # ys)"
  shows "\<exists>r'. plug_combine h a b = Some \<lparr>h_ram = r', h_lfree = (if h_lfree h = b then a else h_lfree h)\<rparr>
    \<and> links r' (xs @ (a, u) # ys)"
proof -
  let ?n = "nxt ys MEM_SIZE_ALIGNED"
  let ?r0 = "(h_ram h)(a \<mapsto> \<lparr>m_next = ?n, m_prev = lastoff 0 xs, m_used = u\<rparr>)"
  have l2: "links (h_ram h) ((xs @ [(a, u)]) @ (b, v) # ys)" using l by simp
  have ab: "a + 24 \<le> b" "b + 24 \<le> ?n"
    using links_after(1) [OF l] links_after(1) [OF l2] by simp_all
  have "\<exists>r'. set_prev ?r0 ?n (lastoff 0 [(a, u)]) = Some r' \<and> links r' (xs @ [(a, u)] @ ys)"
    by (rule links_replace [where mid = "[(a, u), (b, v)]" and r = "h_ram h"])
      (use l ab in \<open>auto\<close>)
  then show ?thesis
    using links_hdr [OF l] links_hdr [OF l2] by (auto simp: plug_combine_def Let_def)
qed

text \<open>What \<open>plug_holes\<close> makes of the blocks around a free one.\<close>

definition plugged :: "blocks \<Rightarrow> nat \<Rightarrow> blocks \<Rightarrow> blocks" where
  "plugged xs k ys =
     (if xs \<noteq> [] \<and> \<not> snd (last xs) then xs else xs @ [(k, False)])
     @ (if ys \<noteq> [] \<and> \<not> snd (hd ys) then tl ys else ys)"

lemma lastoff_last: "xs \<noteq> [] \<Longrightarrow> lastoff p xs = fst (last xs)"
  by (induction xs arbitrary: p) (auto split: prod.splits)

text \<open>The forward half.\<close>

lemma plug_forward:
  assumes l: "links (h_ram h) (xs @ (k, False) # ys)" and lf: "h_lfree h \<le> k"
    and m: "h_ram h k = Some m" "h_ram h (m_next m) = Some nm"
  shows "\<exists>r'. (if k \<noteq> m_next m \<and> \<not> m_used nm \<and> m_next m \<noteq> MEM_SIZE_ALIGNED
        then plug_combine h k (m_next m) else Some h) = Some \<lparr>h_ram = r', h_lfree = h_lfree h\<rparr>
    \<and> links r' (xs @ (k, False) # (if ys \<noteq> [] \<and> \<not> snd (hd ys) then tl ys else ys))"
proof -
  have next_m: "m_next m = nxt ys MEM_SIZE_ALIGNED"
    using links_hdr [OF l] m(1) by simp
  note nm = links_next_hdr [OF l]
  show ?thesis
  proof (cases ys)
    case Nil
    then show ?thesis using l next_m by (intro exI [of _ "h_ram h"]) simp
  next
    case (Cons y ys')
    obtain j v where y: "y = (j, v)" by (cases y)
    have j: "k + 24 \<le> j" "j + 24 \<le> MEM_SIZE_ALIGNED"
      using links_after(3) [OF l, of j v] by (simp_all add: Cons y)
    have v: "m_used nm = v" using nm m(2) next_m by (auto simp: Cons y)
    show ?thesis
    proof (cases v)
      case True
      then show ?thesis using l next_m v by (intro exI [of _ "h_ram h"]) (simp add: Cons y)
    next
      case False
      have "h_lfree h \<noteq> j" using lf j by simp
      with plug_combine_links [of h xs k False j v ys'] l j next_m v False show ?thesis
        by (simp add: Cons y)
    qed
  qed
qed

text \<open>The backward half.\<close>

lemma plug_backward:
  assumes l: "links r (xs @ (k, False) # ys)" and lf: "lf = lowest (xs @ (k, False) # ys)"
  shows "\<exists>r'. do { m \<leftarrow> r k; pm \<leftarrow> r (m_prev m);
        if m_prev m \<noteq> k \<and> \<not> m_used pm then plug_combine \<lparr>h_ram = r, h_lfree = lf\<rparr> (m_prev m) k
        else Some \<lparr>h_ram = r, h_lfree = lf\<rparr> } = Some \<lparr>h_ram = r', h_lfree = lf\<rparr>
    \<and> links r' ((if xs \<noteq> [] \<and> \<not> snd (last xs) then xs else xs @ [(k, False)]) @ ys)"
proof (cases xs rule: rev_cases)
  case Nil
  then have "k = 0" using l by (simp add: links_def)
  then show ?thesis using links_hdr [OF l] l by (auto simp: Nil)
next
  case (snoc zs z)
  obtain j v where z: "z = (j, v)" by (cases z)
  have l': "links r (zs @ (j, v) # (k, False) # ys)" using l by (simp add: snoc z)
  have j: "j \<noteq> k" using links_after(3) [OF l', of k False] by simp
  have hd: "r k = Some \<lparr>m_next = nxt ys MEM_SIZE_ALIGNED, m_prev = j, m_used = False\<rparr>"
    "r j = Some \<lparr>m_next = k, m_prev = lastoff 0 zs, m_used = v\<rparr>"
    using links_hdr [OF l] links_hdr [OF l'] by (simp_all add: snoc z)
  show ?thesis
  proof (cases v)
    case True
    then show ?thesis using l hd by (auto simp: snoc z)
  next
    case False
    have "lf \<noteq> k"
    proof
      assume "lf = k"
      moreover have "\<not> list_all snd xs" using False by (auto simp: snoc z)
      ultimately have "(k, False) \<in> set xs"
        using lowest_in [of xs] lf by (simp add: lowest_append)
      then show False using links_before [OF l] by fastforce
    qed
    with plug_combine_links [of "\<lparr>h_ram = r, h_lfree = lf\<rparr>" zs j v k False ys] l' hd False j
    show ?thesis by (auto simp: snoc z)
  qed
qed

lemma lowest_plugged:
  "lowest (plugged xs k ys) = lowest (xs @ (k, False) # ys)"
proof (cases "xs \<noteq> [] \<and> \<not> snd (last xs)")
  case True
  then have "\<not> list_all snd xs" using last_in_set by (auto simp: list_all_iff)
  with True show ?thesis by (simp add: plugged_def lowest_append)
next
  case False
  then show ?thesis by (auto simp: plugged_def lowest_append)
qed

lemma plug_holes_spec:
  assumes l: "links (h_ram h) (xs @ (k, False) # ys)" and lf: "h_lfree h = lowest (xs @ (k, False) # ys)"
  shows "\<exists>r'. plug_holes h k = Some \<lparr>h_ram = r', h_lfree = h_lfree h\<rparr> \<and> links r' (plugged xs k ys)"
proof -
  let ?m = "\<lparr>m_next = nxt ys MEM_SIZE_ALIGNED, m_prev = lastoff 0 xs, m_used = False\<rparr>"
  let ?ys = "if ys \<noteq> [] \<and> \<not> snd (hd ys) then tl ys else ys"
  obtain nm where nm: "h_ram h (nxt ys MEM_SIZE_ALIGNED) = Some nm"
    using links_next_hdr [OF l] by (cases ys) auto
  have "h_lfree h \<le> k"
    using lowest_in [of xs] links_before [OF l, of "lowest xs" False] lf by (auto simp: lowest_append)
  note plug_forward [OF l this links_hdr [OF l], unfolded mem_hdr.select_convs, OF nm]
  then obtain r1 where r1: "(if k \<noteq> nxt ys MEM_SIZE_ALIGNED \<and> \<not> m_used nm \<and> nxt ys MEM_SIZE_ALIGNED \<noteq> MEM_SIZE_ALIGNED
        then plug_combine h k (nxt ys MEM_SIZE_ALIGNED) else Some h) = Some \<lparr>h_ram = r1, h_lfree = h_lfree h\<rparr>"
      "links r1 (xs @ (k, False) # ?ys)" by auto
  have "h_lfree h = lowest (xs @ (k, False) # ?ys)" using lf by (simp add: lowest_append)
  from plug_backward [OF r1(2) this] obtain r2 where
    r2: "do { m \<leftarrow> r1 k; pm \<leftarrow> r1 (m_prev m);
        if m_prev m \<noteq> k \<and> \<not> m_used pm
        then plug_combine \<lparr>h_ram = r1, h_lfree = h_lfree h\<rparr> (m_prev m) k
        else Some \<lparr>h_ram = r1, h_lfree = h_lfree h\<rparr> } = Some \<lparr>h_ram = r2, h_lfree = h_lfree h\<rparr>"
      "links r2 (plugged xs k ys)" by (auto simp: plugged_def)
  have "plug_holes h k = Some \<lparr>h_ram = r2, h_lfree = h_lfree h\<rparr>"
    unfolding plug_holes_def
    by (simp only: links_hdr [OF l] nm Let_def Option.bind_lunit mem_hdr.select_convs r1(1)
        heap.select_convs r2(1))
  with r2(2) show ?thesis by blast
qed

lemma link_valid_block:
  assumes l: "links (h_ram h) (xs @ (k, u) # ys)"
  shows "mem_link_valid h k = Some True"
proof -
  have b: "nxt ys MEM_SIZE_ALIGNED \<le> MEM_SIZE_ALIGNED" "lastoff 0 xs \<le> MEM_SIZE_ALIGNED"
    using links_after [OF l] links_before [OF l, of "fst (last xs)" "snd (last xs)"]
    by (cases "xs = []"; simp add: lastoff_last)+
  show ?thesis
  proof (cases xs rule: rev_cases)
    case Nil
    then have "k = 0" using l by (simp add: links_def)
    then show ?thesis
      using links_hdr [OF l] links_next_hdr [OF l] b
      by (cases ys) (auto simp: mem_link_valid_def Nil)
  next
    case (snoc zs z)
    obtain j v where z: "z = (j, v)" by (cases z)
    have "links (h_ram h) (zs @ (j, v) # (k, u) # ys)" using l by (simp add: snoc z)
    from links_hdr [OF this] show ?thesis
      using links_hdr [OF l] links_next_hdr [OF l] b
      by (cases ys) (auto simp: mem_link_valid_def snoc z)
  qed
qed

lemma plugged_no_adj:
  assumes "no_adj_free (xs @ (k, True) # ys)" shows "no_adj_free (plugged xs k ys)"
proof -
  have "no_adj_free xs" "no_adj_free ys" using assms by (auto simp: no_adj_free_append no_adj_free_Cons)
  moreover have "no_adj_free (tl ys)" "tl ys = [] \<or> snd (hd ys) \<or> snd (hd (tl ys))"
    using \<open>no_adj_free ys\<close> by (cases ys; auto simp: no_adj_free_Cons)+
  ultimately show ?thesis
    by (auto simp: plugged_def no_adj_free_append no_adj_free_Cons)
qed

lemma plugged_allocs:
  assumes "links r (xs @ (k, u) # ys)"
  shows "heap_allocs (plugged xs k ys) = allocs xs k \<union> heap_allocs ys"
proof -
  have ys: "heap_allocs (if ys \<noteq> [] \<and> \<not> snd (hd ys) then tl ys else ys) = heap_allocs ys"
    by (cases ys) auto
  have xs: "allocs (if xs \<noteq> [] \<and> \<not> snd (last xs) then xs else xs @ [(k, False)]) n = allocs xs k" for n
    by (cases xs rule: rev_cases) auto
  show ?thesis unfolding plugged_def allocs_append ys xs ..
qed

lemma allocs_split:
  "(a, b) \<in> allocs bs e \<Longrightarrow> \<exists>xs k ys. bs = xs @ (k, True) # ys \<and> a = k + SIZEOF_STRUCT_MEM \<and> b = nxt ys e"
proof (induction bs)
  case (Cons c bs)
  show ?case
  proof (cases "(a, b) \<in> allocs bs e")
    case True
    from Cons.IH [OF this] show ?thesis by (metis append_Cons)
  next
    case False
    then have "c = (fst c, True) \<and> a = fst c + SIZEOF_STRUCT_MEM \<and> b = nxt bs e"
      using Cons.prems by (cases c) (auto split: if_splits)
    then show ?thesis by (metis append_Nil)
  qed
qed simp

lemma all_free_single:
  assumes "heap_inv h bs" "heap_allocs bs = {}" shows "bs = [(0, False)]"
proof -
  have "list_all (\<lambda>b. \<not> snd b) bs" using assms(2) by (induction bs) (auto split: if_splits)
  moreover have "no_adj_free bs" "bs \<noteq> []" "nxt bs MEM_SIZE_ALIGNED = 0"
    using assms(1) links_nonempty by (auto simp: heap_inv_def links_def)
  ultimately show ?thesis by (cases bs rule: no_adj_free.cases) auto
qed

lemma mem_free_block:
  assumes inv: "heap_inv h (xs @ (k, True) # ys)"
  shows "\<exists>h'. mem_free h (Some (k + 12)) = Some h' \<and> heap_inv h' (plugged xs k ys)"
proof -
  have l: "links (h_ram h) (xs @ (k, True) # ys)" using inv by (simp add: heap_inv_def)
  let ?m = "\<lparr>m_next = nxt ys MEM_SIZE_ALIGNED, m_prev = lastoff 0 xs, m_used = True\<rparr>"
  let ?h = "\<lparr>h_ram = (h_ram h)(k \<mapsto> ?m\<lparr>m_used := False\<rparr>),
      h_lfree = (if k < h_lfree h then k else h_lfree h)\<rparr>"
  have l': "links (h_ram ?h) (xs @ (k, False) # ys)"
    using links_set_used [OF l links_hdr [OF l], of False] by simp
  have "h_lfree ?h = lowest (xs @ (k, False) # ys)"
  proof (cases "list_all snd xs")
    case True
    have "k < lowest ys"
      using links_after [OF l] lowest_in [of ys] lowest_used [of ys] by (cases "list_all snd ys") fastforce+
    with True show ?thesis using inv by (simp add: heap_inv_def lowest_append)
  next
    case False
    have "lowest xs + 24 \<le> k" using links_before [OF l lowest_in [OF False]] .
    with False show ?thesis using inv by (simp add: heap_inv_def lowest_append)
  qed
  from plug_holes_spec [OF l' this] obtain r' where
    r': "plug_holes ?h k = Some \<lparr>h_ram = r', h_lfree = h_lfree ?h\<rparr>" "links r' (plugged xs k ys)" by blast
  have "mem_free h (Some (k + 12)) = Some \<lparr>h_ram = r', h_lfree = h_lfree ?h\<rparr>"
    using links_after [OF l] r'(1) links_hdr [OF l] link_valid_block [OF l]
    by (simp add: mem_free_def mem_consts)
  moreover have "heap_inv \<lparr>h_ram = r', h_lfree = h_lfree ?h\<rparr> (plugged xs k ys)"
    using r'(2) plugged_no_adj inv lowest_plugged [of xs k ys] \<open>h_lfree ?h = _\<close> by (simp add: heap_inv_def)
  ultimately show ?thesis by blast
qed

lemma mem_free_spec:
  assumes "heap_inv h bs" "(a, e) \<in> heap_allocs bs"
  shows "\<exists>h' bs'. mem_free h (Some a) = Some h' \<and> heap_inv h' bs'
    \<and> heap_allocs bs' = heap_allocs bs - {(a, e)}
    \<and> (heap_allocs bs' = {} \<longrightarrow> bs' = [(0, False)])"
proof -
  obtain xs k ys where bs: "bs = xs @ (k, True) # ys" and a: "a = k + SIZEOF_STRUCT_MEM"
    and e: "e = nxt ys MEM_SIZE_ALIGNED"
    using allocs_split [OF assms(2)] by blast
  have l: "links (h_ram h) (xs @ (k, True) # ys)" using assms(1) by (simp add: heap_inv_def bs)
  obtain h' where h': "mem_free h (Some (k + 12)) = Some h'" "heap_inv h' (plugged xs k ys)"
    using mem_free_block assms(1) bs by blast
  have "(a, e) \<notin> allocs xs k" "(a, e) \<notin> heap_allocs ys"
    using allocs_apart [OF l, of a e] links_after [OF l] by (auto simp: a e SIZEOF_STRUCT_MEM_def)
  then have "heap_allocs (plugged xs k ys) = heap_allocs bs - {(a, e)}"
    by (auto simp: plugged_allocs [OF l] bs a e)
  moreover have "heap_allocs (plugged xs k ys) = {} \<longrightarrow> plugged xs k ys = [(0, False)]"
    using all_free_single [OF h'(2)] by blast
  ultimately show ?thesis using h' by (auto simp: a SIZEOF_STRUCT_MEM_def)
qed

text \<open>
  C25: \<open>mem_free\<close> gives back exactly the range it is passed: for every range handed out, it
  returns, the other ranges stay handed out unchanged, and the freed block has been
  merged with free neighbours on both sides (the invariant holds again). Once everything
  is freed the heap is the single block it was at the start: nothing is lost to
  fragmentation.
\<close>

theorem mem_free_correct:
  assumes "heap_inv h bs" "(a, e) \<in> heap_allocs bs"
  shows "\<exists>h' bs'. mem_free h (Some a) = Some h' \<and> heap_inv h' bs'
    \<and> heap_allocs bs' = heap_allocs bs - {(a, e)}
    \<and> (heap_allocs bs' = {} \<longrightarrow> bs' = [(0, False)])"
  by (rule mem_free_spec [OF assms])

theorem mem_free_correct_witness:
  "\<exists>h h'. mem_malloc demo_heap 100 = Some (Some 12, h) \<and> mem_free h (Some 12) = Some h' \<and> heap_inv h' [(0, False)]"
proof -
  have "first_fit (max 100 12) [(0, False)] = Some 0" by (simp add: mem_consts)
  from mem_malloc_found [OF demo_heap_inv _ refl _ this] obtain h where
    h: "mem_malloc demo_heap 100 = Some (Some 12, h)" "heap_inv h [(0, True), (112, False)]"
    by (auto simp: taken_def mem_consts Cons_eq_append_conv)
  from mem_free_correct [OF h(2), of 12 112] obtain h' bs' where
    "mem_free h (Some 12) = Some h'" "heap_inv h' bs'" "bs' = [(0, False)]"
    by (auto simp: mem_consts)
  with h(1) show ?thesis by auto
qed

section \<open>Trimming\<close>

lemma lowest_after:
  "links r (xs @ (k, u) # ys) \<Longrightarrow> k < lowest ys"
  using links_after [of r xs k u ys] lowest_in [of ys] lowest_used [of ys]
  by (cases "list_all snd ys") fastforce+

lemma trim_move:
  assumes inv: "heap_inv h (xs @ (k, True) # (j, False) # zs)" and p2: "k + 24 \<le> p2" "p2 \<le> j"
  shows "\<exists>r'. mem_trim_relink (h_ram h) k p2 (nxt zs MEM_SIZE_ALIGNED) = Some r'
    \<and> heap_inv \<lparr>h_ram = r', h_lfree = (if h_lfree h = j then p2 else h_lfree h)\<rparr>
        (xs @ (k, True) # (p2, False) # zs)"
proof -
  let ?n = "nxt zs MEM_SIZE_ALIGNED"
  have l: "links (h_ram h) (xs @ (k, True) # (j, False) # zs)" using inv by (simp add: heap_inv_def)
  have l2: "links (h_ram h) ((xs @ [(k, True)]) @ (j, False) # zs)" using l by simp
  have jn: "j + 24 \<le> ?n" using links_after(1) [OF l2] .
  let ?r0 = "(h_ram h)(p2 \<mapsto> \<lparr>m_next = ?n, m_prev = k, m_used = False\<rparr>,
        k \<mapsto> \<lparr>m_next = p2, m_prev = lastoff 0 xs, m_used = True\<rparr>)"
  have "\<exists>r'. set_prev ?r0 ?n (lastoff 0 [(k, True), (p2, False)]) = Some r'
      \<and> links r' (xs @ [(k, True), (p2, False)] @ zs)"
    by (rule links_replace [where mid = "[(k, True), (j, False)]" and r = "h_ram h"])
      (use l p2 jn in \<open>auto\<close>)
  then obtain r' where r': "set_prev ?r0 ?n p2 = Some r'" "links r' (xs @ (k, True) # (p2, False) # zs)"
    by auto
  have lf: "(if h_lfree h = j then p2 else h_lfree h) = lowest (xs @ (k, True) # (p2, False) # zs)"
  proof (cases "list_all snd xs")
    case True
    then show ?thesis using inv by (simp add: heap_inv_def lowest_append)
  next
    case False
    have "lowest xs < j" using links_before [OF l lowest_in [OF False]] links_after(1) [OF l] by simp
    with False show ?thesis using inv by (simp add: heap_inv_def lowest_append)
  qed
  have "mem_trim_relink (h_ram h) k p2 ?n = Some r'"
    using r'(1) p2 links_hdr [OF l] by (simp add: mem_trim_relink_def Let_def)
  moreover have "no_adj_free (xs @ (k, True) # (p2, False) # zs)"
    using inv by (auto simp: heap_inv_def no_adj_free_append no_adj_free_Cons)
  ultimately show ?thesis using r'(2) lf by (simp add: heap_inv_def)
qed

lemma trim_split:
  assumes inv: "heap_inv h (xs @ (k, True) # ys)" and ys: "ys = [] \<or> snd (hd ys)"
    and p2: "k + 24 \<le> p2" "p2 + 24 \<le> nxt ys MEM_SIZE_ALIGNED"
  shows "\<exists>r'. mem_trim_relink (h_ram h) k p2 (nxt ys MEM_SIZE_ALIGNED) = Some r'
    \<and> heap_inv \<lparr>h_ram = r', h_lfree = (if p2 < h_lfree h then p2 else h_lfree h)\<rparr>
        (xs @ (k, True) # (p2, False) # ys)"
proof -
  have l: "links (h_ram h) (xs @ (k, True) # ys)" using inv by (simp add: heap_inv_def)
  from links_split [OF l p2, of False True] obtain r' where
    r': "set_prev ((h_ram h)(p2 \<mapsto> \<lparr>m_next = nxt ys MEM_SIZE_ALIGNED, m_prev = k, m_used = False\<rparr>,
        k \<mapsto> \<lparr>m_next = p2, m_prev = lastoff 0 xs, m_used = True\<rparr>)) (nxt ys MEM_SIZE_ALIGNED) p2 = Some r'"
      "links r' (xs @ (k, True) # (p2, False) # ys)" by blast
  have "links r' ((xs @ [(k, True)]) @ (p2, False) # ys)" using r'(2) by simp
  note low = lowest_after [OF this]
  have lf: "(if p2 < h_lfree h then p2 else h_lfree h) = lowest (xs @ (k, True) # (p2, False) # ys)"
  proof (cases "list_all snd xs")
    case True
    then show ?thesis using inv low by (simp add: heap_inv_def lowest_append)
  next
    case False
    have "lowest xs < p2" using links_before [OF l lowest_in [OF False]] p2 by simp
    with False show ?thesis using inv by (simp add: heap_inv_def lowest_append)
  qed
  have "mem_trim_relink (h_ram h) k p2 (nxt ys MEM_SIZE_ALIGNED) = Some r'"
    using r'(1) p2 links_hdr [OF l] by (simp add: mem_trim_relink_def Let_def)
  moreover have "no_adj_free (xs @ (k, True) # (p2, False) # ys)"
    using inv ys by (auto simp: heap_inv_def no_adj_free_append no_adj_free_Cons)
  ultimately show ?thesis using r'(2) lf by (simp add: heap_inv_def)
qed

lemma mem_trim_unfold:
  assumes "links (h_ram h) (xs @ (k, True) # ys)" "sz = max n 12" "k + 12 + sz \<le> nxt ys MEM_SIZE_ALIGNED"
  shows "mem_trim h (k + 12) n =
    (if k + 12 + sz = nxt ys MEM_SIZE_ALIGNED then Some (Some (k + 12), h)
     else do {
       m2 \<leftarrow> h_ram h (nxt ys MEM_SIZE_ALIGNED);
       if \<not> m_used m2 then do {
         r \<leftarrow> mem_trim_relink (h_ram h) k (k + 12 + sz) (m_next m2);
         Some (Some (k + 12), \<lparr>h_ram = r,
           h_lfree = (if h_lfree h = nxt ys MEM_SIZE_ALIGNED then k + 12 + sz else h_lfree h)\<rparr>) }
       else if k + 12 + sz + 24 \<le> nxt ys MEM_SIZE_ALIGNED then do {
         r \<leftarrow> mem_trim_relink (h_ram h) k (k + 12 + sz) (nxt ys MEM_SIZE_ALIGNED);
         Some (Some (k + 12), \<lparr>h_ram = r,
           h_lfree = (if k + 12 + sz < h_lfree h then k + 12 + sz else h_lfree h)\<rparr>) }
       else Some (Some (k + 12), h) })"
proof -
  let ?n = "nxt ys MEM_SIZE_ALIGNED"
  note after = links_after [OF assms(1)]
  have sz: "(if n < MIN_SIZE_ALIGNED then MIN_SIZE_ALIGNED else n) = sz" "\<not> sz < n" "12 \<le> sz"
    using assms(2) by (simp_all add: mem_consts max_def)
  have s1: "sub32 ?n k = ?n - k" using after by (intro sub32_le) (auto simp: mem_consts)
  have s2: "sub32 (?n - k) SIZEOF_STRUCT_MEM = ?n - k - 12"
    using after by (subst sub32_le) (auto simp: mem_consts)
  have "\<not> sz > MEM_SIZE_ALIGNED" "\<not> k + 12 \<ge> MEM_SIZE_ALIGNED" "\<not> k + 12 < SIZEOF_STRUCT_MEM"
    "k + 12 - SIZEOF_STRUCT_MEM = k" "\<not> sz > ?n - k - 12"
    "sz = ?n - k - 12 \<longleftrightarrow> k + 12 + sz = ?n"
    "sz + SIZEOF_STRUCT_MEM + MIN_SIZE_ALIGNED \<le> ?n - k - 12 \<longleftrightarrow> k + 12 + sz + 24 \<le> ?n"
    "k + SIZEOF_STRUCT_MEM + sz = k + 12 + sz"
    using after assms(3) sz(3) by (auto simp: mem_consts)
  then show ?thesis
    unfolding mem_trim_def sz(1) Let_def
    by (simp only: sz(2) links_hdr [OF assms(1)] mem_hdr.select_convs s1 s2 Option.bind_lunit
        simp_thms if_False)
qed

text \<open>The blocks after trimming block \<open>k\<close> so that it ends at \<open>p\<close>.\<close>

definition trimmed :: "blocks \<Rightarrow> nat \<Rightarrow> nat \<Rightarrow> blocks \<Rightarrow> blocks" where
  "trimmed xs k p ys =
     (if p = nxt ys MEM_SIZE_ALIGNED then xs @ (k, True) # ys
      else if ys \<noteq> [] \<and> \<not> snd (hd ys) then xs @ (k, True) # (p, False) # tl ys
      else if p + 24 \<le> nxt ys MEM_SIZE_ALIGNED then xs @ (k, True) # (p, False) # ys
      else xs @ (k, True) # ys)"

lemma next_free_or_used:
  assumes "links r (xs @ (k, u) # ys)"
  shows "(\<exists>j zs. ys = (j, False) # zs) \<or> (ys = [] \<or> snd (hd ys))
    \<and> (\<exists>m2. r (nxt ys MEM_SIZE_ALIGNED) = Some m2 \<and> m_used m2)"
  using links_next_hdr [OF assms] by (cases ys) (auto simp: end_hdr_def)

lemma mem_trim_block:
  assumes inv: "heap_inv h (xs @ (k, True) # ys)" and p: "k + 12 + max n 12 \<le> nxt ys MEM_SIZE_ALIGNED"
  shows "\<exists>h'. mem_trim h (k + 12) n = Some (Some (k + 12), h') \<and> heap_inv h' (trimmed xs k (k + 12 + max n 12) ys)"
proof -
  let ?p = "k + 12 + max n 12"
  have l: "links (h_ram h) (xs @ (k, True) # ys)" using inv by (simp add: heap_inv_def)
  note u = mem_trim_unfold [OF l refl p]
  consider (same) "?p = nxt ys MEM_SIZE_ALIGNED" | (move) j zs where "ys = (j, False) # zs" "?p < j"
    | (used) m2 where "ys = [] \<or> snd (hd ys)" "h_ram h (nxt ys MEM_SIZE_ALIGNED) = Some m2" "m_used m2"
        "?p \<noteq> nxt ys MEM_SIZE_ALIGNED"
    using next_free_or_used [OF l] p le_neq_implies_less by fastforce
  then show ?thesis
  proof cases
    case same
    then show ?thesis using u inv by (simp add: trimmed_def)
  next
    case move
    have "k + 24 \<le> ?p" by simp
    from trim_move [OF inv [unfolded move(1)] this less_imp_le [OF move(2)]] show ?thesis
      using u links_next_hdr [OF l] move by (auto simp: trimmed_def)
  next
    case used
    have "k + 24 \<le> ?p" by simp
    from trim_split [OF inv used(1) this] show ?thesis
      using u used inv by (cases "?p + 24 \<le> nxt ys MEM_SIZE_ALIGNED") (auto simp: trimmed_def)
  qed
qed

lemma trimmed_allocs:
  assumes l: "links r (xs @ (k, True) # ys)" and p: "p \<le> nxt ys MEM_SIZE_ALIGNED"
  shows "\<exists>e'. (e' = p \<or> e' = nxt ys MEM_SIZE_ALIGNED) \<and> heap_allocs (trimmed xs k p ys)
    = insert (k + 12, e') (heap_allocs (xs @ (k, True) # ys) - {(k + 12, nxt ys MEM_SIZE_ALIGNED)})"
proof -
  let ?n = "nxt ys MEM_SIZE_ALIGNED"
  have out: "(k + 12, ?n) \<notin> allocs xs k" "(k + 12, ?n) \<notin> heap_allocs ys"
    using allocs_apart [OF l, of "k + 12" ?n] links_after [OF l] by auto
  have tl: "heap_allocs (tl ys) = heap_allocs ys" if "ys \<noteq> []" "\<not> snd (hd ys)"
    using that by (cases ys) auto
  have old: "heap_allocs (xs @ (k, True) # ys) - {(k + 12, ?n)} = allocs xs k \<union> heap_allocs ys"
    using out by (auto simp: SIZEOF_STRUCT_MEM_def)
  have "heap_allocs (trimmed xs k p ys) = insert (k + 12, p) (allocs xs k \<union> heap_allocs ys)
      \<or> heap_allocs (trimmed xs k p ys) = insert (k + 12, ?n) (allocs xs k \<union> heap_allocs ys)"
    using tl by (simp add: trimmed_def SIZEOF_STRUCT_MEM_def)
  then show ?thesis unfolding old by blast
qed

lemma mem_trim_spec:
  assumes inv: "heap_inv h bs" and a: "(a, e) \<in> heap_allocs bs" and n: "a + n \<le> e"
  shows "\<exists>h' bs' e'. mem_trim h a n = Some (Some a, h') \<and> heap_inv h' bs' \<and> a + n \<le> e' \<and> e' \<le> e
    \<and> heap_allocs bs' = insert (a, e') (heap_allocs bs - {(a, e)})"
proof -
  obtain xs k ys where bs: "bs = xs @ (k, True) # ys" and ak: "a = k + 12" and e: "e = nxt ys MEM_SIZE_ALIGNED"
    using allocs_split [OF a] by (auto simp: SIZEOF_STRUCT_MEM_def)
  have l: "links (h_ram h) (xs @ (k, True) # ys)" using inv by (simp add: heap_inv_def bs)
  let ?p = "k + 12 + max n 12"
  have p: "?p \<le> nxt ys MEM_SIZE_ALIGNED" "a + n \<le> ?p" using n links_after [OF l] by (auto simp: ak e)
  obtain h' where "mem_trim h a n = Some (Some a, h')" "heap_inv h' (trimmed xs k ?p ys)"
    using mem_trim_block [OF inv [unfolded bs] p(1)] ak by blast
  moreover obtain e' where "e' = ?p \<or> e' = e"
    "heap_allocs (trimmed xs k ?p ys) = insert (a, e') (heap_allocs bs - {(a, e)})"
    using trimmed_allocs [OF l p(1)] unfolding bs ak e by blast
  moreover from this(1) have "a + n \<le> e'" "e' \<le> e" using p n by (auto simp: e)
  ultimately show ?thesis by blast
qed

text \<open>
  \<open>mem_trim\<close> shrinks an allocation in place: for every range handed out and every smaller
  size it returns the same pointer, the range keeps its start and at least the requested
  size, every other range is untouched, and the heap is well formed with the released
  tail merged into the free block behind it, if there is one.
\<close>

theorem mem_trim_correct:
  assumes inv: "heap_inv h bs" and a: "(a, e) \<in> heap_allocs bs" and n: "a + n \<le> e"
  shows "\<exists>h' bs' e'. mem_trim h a n = Some (Some a, h') \<and> heap_inv h' bs' \<and> a + n \<le> e' \<and> e' \<le> e
    \<and> heap_allocs bs' = insert (a, e') (heap_allocs bs - {(a, e)})"
  by (rule mem_trim_spec [OF assms])

theorem mem_trim_correct_witness:
  "\<exists>h h' e'. mem_malloc demo_heap 100 = Some (Some 12, h) \<and> mem_trim h 12 40 = Some (Some 12, h')
     \<and> 52 \<le> e' \<and> e' \<le> (112 :: nat)"
proof -
  have "first_fit (max 100 12) [(0, False)] = Some 0" by (simp add: mem_consts)
  from mem_malloc_found [OF demo_heap_inv _ refl _ this] obtain h where
    h: "mem_malloc demo_heap 100 = Some (Some 12, h)" "heap_inv h [(0, True), (112, False)]"
    by (auto simp: taken_def mem_consts Cons_eq_append_conv)
  from mem_trim_correct [OF h(2), of 12 112 40] show ?thesis
    using h(1) by (auto simp: mem_consts)
qed

section \<open>Histories of the heap\<close>

text \<open>
  Users of the heap allocate, free and trim what they hold, and write anything into the
  ranges they hold, possibly forging block headers there.
\<close>

inductive heap_reach :: "heap \<Rightarrow> (nat \<times> nat) set \<Rightarrow> bool" where
  init: "heap_reach (mem_init h) {}"
| malloc: "heap_reach h A \<Longrightarrow> 0 < n \<Longrightarrow> mem_malloc h n = Some (Some a, h')
    \<Longrightarrow> h_ram h' (a - SIZEOF_STRUCT_MEM) = Some m \<Longrightarrow> heap_reach h' (insert (a, m_next m) A)"
| malloc_fail: "heap_reach h A \<Longrightarrow> 0 < n \<Longrightarrow> mem_malloc h n = Some (None, h') \<Longrightarrow> heap_reach h' A"
| free: "heap_reach h A \<Longrightarrow> (a, e) \<in> A \<Longrightarrow> mem_free h (Some a) = Some h' \<Longrightarrow> heap_reach h' (A - {(a, e)})"
| trim: "heap_reach h A \<Longrightarrow> (a, e) \<in> A \<Longrightarrow> a + n \<le> e \<Longrightarrow> mem_trim h a n = Some (Some a, h')
    \<Longrightarrow> h_ram h' (a - SIZEOF_STRUCT_MEM) = Some m \<Longrightarrow> heap_reach h' (insert (a, m_next m) (A - {(a, e)}))"
| use: "heap_reach h A \<Longrightarrow> (a, e) \<in> A \<Longrightarrow> (\<And>k. k < a \<or> e \<le> k \<Longrightarrow> r k = h_ram h k)
    \<Longrightarrow> heap_reach (h\<lparr>h_ram := r\<rparr>) A"

lemma alloc_end:
  assumes "heap_inv h bs" "(a, e) \<in> heap_allocs bs"
  shows "\<exists>m. h_ram h (a - SIZEOF_STRUCT_MEM) = Some m \<and> m_next m = e"
proof -
  obtain xs k ys where "bs = xs @ (k, True) # ys" "a = k + SIZEOF_STRUCT_MEM" "e = nxt ys MEM_SIZE_ALIGNED"
    using allocs_split [OF assms(2)] by blast
  then show ?thesis using assms(1) links_hdr [of "h_ram h" xs k True ys] by (simp add: heap_inv_def)
qed

text \<open>Whatever is written into a range handed out, the headers are elsewhere.\<close>

lemma heap_inv_use:
  assumes inv: "heap_inv h bs" and a: "(a, e) \<in> heap_allocs bs"
    and r: "\<And>k. k < a \<or> e \<le> k \<Longrightarrow> r k = h_ram h k"
  shows "heap_inv (h\<lparr>h_ram := r\<rparr>) bs"
proof -
  obtain xs k ys where bs: "bs = xs @ (k, True) # ys" and ae: "a = k + SIZEOF_STRUCT_MEM" "e = nxt ys MEM_SIZE_ALIGNED"
    using allocs_split [OF a] by blast
  have l: "links (h_ram h) (xs @ (k, True) # ys)" using inv by (simp add: heap_inv_def bs)
  note after = links_after [OF l]
  have ys: "e \<le> j" if "(j, v) \<in> set ys" for j v
    using linked_bounds [of "h_ram h" k ys MEM_SIZE_ALIGNED j v] l that ae by (simp add: links_def)
  have "r j = h_ram h j" if "j \<in> fst ` set bs" for j
  proof -
    from that obtain v where "(j, v) \<in> set bs" by auto
    then have "(j, v) \<in> set xs \<or> j = k \<or> (j, v) \<in> set ys" by (auto simp: bs)
    then have "j < a \<or> e \<le> j"
      using links_before [OF l, of j v] ys [of j v] by (auto simp: ae SIZEOF_STRUCT_MEM_def)
    then show ?thesis by (rule r)
  qed
  moreover have "r MEM_SIZE_ALIGNED = h_ram h MEM_SIZE_ALIGNED"
    using r [of MEM_SIZE_ALIGNED] after ae by simp
  ultimately show ?thesis
    using inv linked_cong [of bs r "h_ram h" 0 MEM_SIZE_ALIGNED] by (simp add: heap_inv_def links_def)
qed

lemma heap_reach_inv: "heap_reach h A \<Longrightarrow> \<exists>bs. heap_inv h bs \<and> heap_allocs bs = A"
proof (induction rule: heap_reach.induct)
  case (init h)
  show ?case
    by (intro exI [of _ "[(0, False)]"])
      (simp add: mem_init_def heap_inv_def links_def end_hdr_def mem_consts)
next
  case (malloc h A n a h' m)
  then obtain bs where bs: "heap_inv h bs" "heap_allocs bs = A" by blast
  from mem_malloc_spec [OF bs(1) malloc.hyps(2)] malloc.hyps(3)
  obtain bs' e where "heap_inv h' bs'" "heap_allocs bs' = insert (a, e) A" by (auto simp: bs)
  with alloc_end [of h' bs' a e] malloc.hyps(4) show ?case by auto
next
  case (malloc_fail h A n h')
  then obtain bs where bs: "heap_inv h bs" "heap_allocs bs = A" by blast
  from mem_malloc_spec [OF bs(1) malloc_fail.hyps(2)] malloc_fail.hyps(3) have "h' = h" by auto
  with bs show ?case by blast
next
  case (free h A a e h')
  then obtain bs where bs: "heap_inv h bs" "heap_allocs bs = A" by blast
  from mem_free_spec [OF bs(1), of a e] free.hyps bs show ?case by auto
next
  case (trim h A a e n h' m)
  then obtain bs where bs: "heap_inv h bs" "heap_allocs bs = A" by blast
  from mem_trim_spec [OF bs(1), of a e n] trim.hyps bs
  obtain bs' e' where "heap_inv h' bs'" "heap_allocs bs' = insert (a, e') (A - {(a, e)})" by auto
  with alloc_end [of h' bs' a e'] trim.hyps(5) show ?case by auto
next
  case (use h A a e r)
  then obtain bs where bs: "heap_inv h bs" "heap_allocs bs = A" by blast
  with heap_inv_use [OF bs(1), of a e r] use.hyps show ?case by auto
qed

lemma allocs_disjoint:
  assumes "links r bs" "(a, e) \<in> heap_allocs bs" "(s, t) \<in> heap_allocs bs" "(a, e) \<noteq> (s, t)"
  shows "t + SIZEOF_STRUCT_MEM \<le> a \<or> e + SIZEOF_STRUCT_MEM \<le> s"
proof -
  obtain xs k ys where bs: "bs = xs @ (k, True) # ys" and ae: "a = k + SIZEOF_STRUCT_MEM" "e = nxt ys MEM_SIZE_ALIGNED"
    using allocs_split [OF assms(2)] by blast
  have "(s, t) \<in> allocs xs k \<or> (s, t) \<in> heap_allocs ys"
    using assms(3,4) by (auto simp: bs ae)
  from allocs_apart [OF assms(1) [unfolded bs] this] show ?thesis
    by (auto simp: ae SIZEOF_STRUCT_MEM_def)
qed

text \<open>
  C19: The heap is safe in every history of mallocs, frees and trims of what is held, and
  arbitrary writes into what is held: all ranges held lie inside the array, are disjoint
  from one another and from the headers between them, and every further operation on the
  heap returns instead of following a wild offset.
\<close>

theorem heap_history_safe:
  assumes "heap_reach h A"
  shows "(\<forall>(a, e) \<in> A. SIZEOF_STRUCT_MEM \<le> a \<and> a < e \<and> e \<le> MEM_SIZE_ALIGNED
           \<and> (\<forall>(s, t) \<in> A. (a, e) \<noteq> (s, t) \<longrightarrow> t + SIZEOF_STRUCT_MEM \<le> a \<or> e + SIZEOF_STRUCT_MEM \<le> s)
           \<and> mem_free h (Some a) \<noteq> None
           \<and> (\<forall>n. a + n \<le> e \<longrightarrow> mem_trim h a n \<noteq> None))
    \<and> (\<forall>n. mem_malloc h n \<noteq> None)"
proof -
  obtain bs where bs: "heap_inv h bs" "heap_allocs bs = A" using heap_reach_inv [OF assms] by blast
  then have l: "links (h_ram h) bs" "linked (h_ram h) 0 bs MEM_SIZE_ALIGNED"
    by (simp_all add: heap_inv_def links_def)
  have "mem_malloc h n \<noteq> None" for n
    using mem_malloc_spec [OF bs(1), of n] by (cases "n = 0") (auto simp: mem_malloc_def)
  moreover have "SIZEOF_STRUCT_MEM \<le> a \<and> a < e \<and> e \<le> MEM_SIZE_ALIGNED" if "(a, e) \<in> A" for a e
    using allocs_bounds [OF l(2), of a e] that bs(2) by (simp add: SIZEOF_STRUCT_MEM_def)
  moreover have "t + SIZEOF_STRUCT_MEM \<le> a \<or> e + SIZEOF_STRUCT_MEM \<le> s"
    if "(a, e) \<in> A" "(s, t) \<in> A" "(a, e) \<noteq> (s, t)" for a e s t
    using allocs_disjoint [OF l(1)] that bs(2) by blast
  moreover have "mem_free h (Some a) \<noteq> None" if "(a, e) \<in> A" for a e
    using mem_free_spec [OF bs(1)] that bs(2) by fastforce
  moreover have "mem_trim h a n \<noteq> None" if "(a, e) \<in> A" "a + n \<le> e" for a e n
    using mem_trim_spec [OF bs(1) _ that(2)] that(1) bs(2) by fastforce
  ultimately show ?thesis by blast
qed

theorem heap_history_safe_witness:
  "mem_malloc demo_heap 65535 \<noteq> None"
  using heap_history_safe [OF heap_reach.init [of "\<lparr>h_ram = Map.empty, h_lfree = 0\<rparr>"]]
  by (simp add: demo_heap_def)

text \<open>A second free of a block that is free and still has its header is refused.\<close>

lemma mem_malloc_cases:
  assumes "heap_inv h bs" "0 < n"
  obtains (none) "mem_malloc h n = Some (None, h)"
  | (some) k e h' bs' where "mem_malloc h n = Some (Some k, h')" "heap_inv h' bs'" "k + n \<le> e"
      "e \<le> MEM_SIZE_ALIGNED" "heap_allocs bs' = insert (k, e) (heap_allocs bs)"
      "\<forall>(s, t) \<in> heap_allocs bs. t + SIZEOF_STRUCT_MEM \<le> k \<or> e + SIZEOF_STRUCT_MEM \<le> s"
proof -
  obtain p h' bs' where m: "mem_malloc h n = Some (p, h')" "heap_inv h' bs'"
    "case p of None \<Rightarrow> h' = h \<and> bs' = bs \<and> (\<forall>xs k ys. bs = xs @ (k, False) # ys
                 \<longrightarrow> nxt ys MEM_SIZE_ALIGNED < k + SIZEOF_STRUCT_MEM + max n MIN_SIZE_ALIGNED)
     | Some a \<Rightarrow> \<exists>e. a + n \<le> e \<and> e \<le> MEM_SIZE_ALIGNED
                 \<and> heap_allocs bs' = insert (a, e) (heap_allocs bs)
                 \<and> (\<forall>(s, t) \<in> heap_allocs bs. t + SIZEOF_STRUCT_MEM \<le> a \<or> e + SIZEOF_STRUCT_MEM \<le> s)"
    using mem_malloc_spec [OF assms] by blast
  show ?thesis
  proof (cases p)
    case None
    then show ?thesis using m none by simp
  next
    case (Some k)
    then show ?thesis using m some by (simp only: option.case) blast
  qed
qed

lemma mem_free_double:
  assumes "heap_inv h bs" "(k, False) \<in> set bs"
  shows "mem_free h (Some (k + SIZEOF_STRUCT_MEM)) = Some h"
proof -
  obtain xs ys where "bs = xs @ (k, False) # ys" using split_list [OF assms(2)] by blast
  then show ?thesis
    using assms(1) links_hdr [of "h_ram h" xs k False ys] by (simp add: heap_inv_def mem_free_def)
qed

text \<open>\<open>mem_calloc\<close> refuses a product that does not fit in 32 bits.\<close>

lemma mem_calloc_overflow:
  "2 ^ 32 \<le> unat count * unat sz \<Longrightarrow> mem_calloc h count sz = Some (None, 0, h)"
proof -
  assume a: "2 ^ 32 \<le> unat count * unat sz"
  have "unat count * unat sz mod 2 ^ 32 < 2 ^ 32" by simp
  with a have "unat count * unat sz mod 2 ^ 32 \<noteq> unat count * unat sz" by linarith
  then show ?thesis by (simp add: mem_calloc_def)
qed

end
