(* ===== verification/Memp.thy ===== *)
theory Memp
  imports Prelude
begin

text \<open>
  The fixed-size pools of lwIP (\<open>Tunnel/lwip/core/memp.c\<close>), from which the tunnel takes
  its TCP control blocks, segments, timeouts and pbufs. A pool is a linked list threaded
  through the free elements themselves (\<open>MEMP_SIZE\<close> is 0), so whoever holds an element
  overwrites its \<open>next\<close> field; the theorems allow for that. \<open>element_pool\<close> is the
  interface the other components rely on.
\<close>

section \<open>The interface: a stack of free elements\<close>

locale element_pool =
  fixes alloc :: "'s \<Rightarrow> 'a option \<times> 's"
    and release :: "'s \<Rightarrow> 'a \<Rightarrow> 's"
    and scribble :: "'s \<Rightarrow> 'a \<Rightarrow> 'v \<Rightarrow> 's"
    and free_list :: "'s \<Rightarrow> 'a list \<Rightarrow> bool"
  assumes alloc_Nil: "free_list s [] \<Longrightarrow> alloc s = (None, s)"
    and alloc_Cons: "free_list s (x # xs) \<Longrightarrow> fst (alloc s) = Some x \<and> free_list (snd (alloc s)) xs"
    and release: "free_list s xs \<Longrightarrow> x \<notin> set xs \<Longrightarrow> free_list (release s x) (x # xs)"
    and scribble: "free_list s xs \<Longrightarrow> x \<notin> set xs \<Longrightarrow> free_list (scribble s x v) xs"
begin

text \<open>The free elements and the \<open>held\<close> ones are together the elements \<open>E\<close> of the pool.\<close>

definition pool_inv :: "'a list \<Rightarrow> 's \<Rightarrow> 'a list \<Rightarrow> bool" where
  "pool_inv E s held \<longleftrightarrow> (\<exists>xs. free_list s xs \<and> distinct (held @ xs) \<and> set (held @ xs) = set E)"

lemma pool_invI: "free_list s xs \<Longrightarrow> distinct (held @ xs) \<Longrightarrow> set (held @ xs) = set E \<Longrightarrow> pool_inv E s held"
  unfolding pool_inv_def by blast

lemma pool_inv_perm:
  "pool_inv E s held \<Longrightarrow> distinct held' \<Longrightarrow> set held' = set held \<Longrightarrow> pool_inv E s held'"
  unfolding pool_inv_def by auto

lemma pool_inv_distinct: "pool_inv E s held \<Longrightarrow> distinct held"
  unfolding pool_inv_def by auto

lemma alloc_inv:
  assumes "pool_inv E s held" "alloc s = (Some x, s')"
  shows "pool_inv E s' (x # held)" "x \<in> set E" "x \<notin> set held"
proof -
  obtain xs where xs: "free_list s xs" "distinct (held @ xs)" "set (held @ xs) = set E"
    using assms(1) unfolding pool_inv_def by blast
  obtain ys where "xs = x # ys" "free_list s' ys"
  proof (cases xs)
    case Nil
    then show thesis using xs(1) alloc_Nil assms(2) by simp
  next
    case (Cons y ys)
    then show thesis using xs(1) alloc_Cons [of s y ys] assms(2) that by simp
  qed
  with xs show "pool_inv E s' (x # held)" "x \<in> set E" "x \<notin> set held"
    by (auto intro!: pool_invI [of s' ys])
qed

lemma alloc_None_iff:
  assumes "pool_inv E s held" "distinct E"
  shows "fst (alloc s) = None \<longleftrightarrow> length held = length E"
proof -
  obtain xs where xs: "free_list s xs" "distinct (held @ xs)" "set (held @ xs) = set E"
    using assms(1) unfolding pool_inv_def by blast
  have "length (held @ xs) = length E"
    using distinct_card [OF xs(2)] distinct_card [OF assms(2)] xs(3) by simp
  moreover have "fst (alloc s) = None \<longleftrightarrow> xs = []"
    using xs(1) alloc_Nil [of s] alloc_Cons [of s] by (cases xs) auto
  ultimately show ?thesis by auto
qed

lemma alloc_None_all:
  assumes "pool_inv E s held" "fst (alloc s) = None" shows "set held = set E"
  using assms alloc_Cons unfolding pool_inv_def
  by (metis append_Nil2 list.exhaust option.distinct(1))

lemma alloc_None_same: "pool_inv E s held \<Longrightarrow> alloc s = (None, s') \<Longrightarrow> s' = s"
  unfolding pool_inv_def using alloc_Nil alloc_Cons
  by (metis fst_conv list.exhaust option.distinct(1) snd_conv)

lemma release_inv:
  assumes "pool_inv E s held" "x \<in> set held"
  shows "pool_inv E (release s x) (remove1 x held)"
proof -
  obtain xs where xs: "free_list s xs" "distinct (held @ xs)" "set (held @ xs) = set E"
    using assms(1) unfolding pool_inv_def by blast
  then have "x \<notin> set xs" using assms(2) by auto
  from release [OF xs(1) this] show ?thesis
    using xs assms(2) by (intro pool_invI [of _ "x # xs"]) auto
qed

lemma scribble_inv:
  assumes "pool_inv E s held" "x \<in> set held"
  shows "pool_inv E (scribble s x v) held"
proof -
  obtain xs where xs: "free_list s xs" "distinct (held @ xs)" "set (held @ xs) = set E"
    using assms(1) unfolding pool_inv_def by blast
  then have "x \<notin> set xs" using assms(2) by auto
  from scribble [OF xs(1) this] show ?thesis
    using xs by (intro pool_invI)
qed

text \<open>The element freed last is the one allocated next.\<close>

lemma alloc_release:
  assumes "pool_inv E s held" "x \<in> set held"
  shows "fst (alloc (release s x)) = Some x"
proof -
  obtain xs where "free_list s xs" "distinct (held @ xs)"
    using assms(1) unfolding pool_inv_def by blast
  then show ?thesis using release [of s xs x] alloc_Cons assms(2) by auto
qed

end

section \<open>Pools\<close>

text \<open>\<open>struct memp_desc\<close>: the addresses of the pool are offsets.\<close>

record memp_desc =
  desc_size :: nat
  desc_num :: nat
  desc_base :: nat

text \<open>The list head \<open>*desc->tab\<close> and the \<open>next\<close> fields found at the element addresses.\<close>

record memp_pool =
  mp_tab :: "nat option"
  mp_next :: "nat \<Rightarrow> nat option"

text \<open>The loop of \<open>memp_init_pool\<close>, with \<open>k\<close> elements still to be linked.\<close>

fun memp_init_loop :: "memp_desc \<Rightarrow> nat \<Rightarrow> nat \<Rightarrow> memp_pool \<Rightarrow> memp_pool" where
  "memp_init_loop desc 0 memp p = p"
| "memp_init_loop desc (Suc k) memp p =
     memp_init_loop desc k (memp + desc_size desc)
       (p\<lparr>mp_next := (mp_next p)(memp := mp_tab p), mp_tab := Some memp\<rparr>)"

definition memp_init_pool :: "memp_desc \<Rightarrow> memp_pool \<Rightarrow> memp_pool" where
  "memp_init_pool desc p = memp_init_loop desc (desc_num desc) (desc_base desc) (p\<lparr>mp_tab := None\<rparr>)"

definition do_memp_malloc_pool :: "memp_pool \<Rightarrow> nat option \<times> memp_pool" where
  "do_memp_malloc_pool p =
     (case mp_tab p of
        Some memp \<Rightarrow> (Some memp, p\<lparr>mp_tab := mp_next p memp\<rparr>)
      | None \<Rightarrow> (None, p))"

definition do_memp_free_pool :: "memp_pool \<Rightarrow> nat \<Rightarrow> memp_pool" where
  "do_memp_free_pool p memp = p\<lparr>mp_next := (mp_next p)(memp := mp_tab p), mp_tab := Some memp\<rparr>"

text \<open>The public functions, with their \<open>NULL\<close> checks.\<close>

definition memp_malloc_pool :: "memp_pool option \<Rightarrow> nat option \<times> memp_pool option" where
  "memp_malloc_pool desc =
     (case desc of None \<Rightarrow> (None, None)
      | Some p \<Rightarrow> (let (m, p') = do_memp_malloc_pool p in (m, Some p')))"

definition memp_free_pool :: "memp_pool option \<Rightarrow> nat option \<Rightarrow> memp_pool option" where
  "memp_free_pool desc mem =
     (case (desc, mem) of (Some p, Some m) \<Rightarrow> Some (do_memp_free_pool p m) | _ \<Rightarrow> desc)"

text \<open>
  The array \<open>memp_pools\<close>, with the pools of the tunnel's configuration in the order of
  \<open>memp_std.h\<close>: TCP_PCB, TCP_PCB_LISTEN, TCP_SEG, REASSDATA, SYS_TIMEOUT, PBUF and
  PBUF_POOL.
\<close>

type_synonym memp_state = "(memp_desc \<times> memp_pool) list"

definition memp_nums :: "nat list" where
  "memp_nums = [32, 8, 256, 5, 2, 32, 64]"

definition memp_init :: "memp_state \<Rightarrow> memp_state" where
  "memp_init st = map (\<lambda>(desc, p). (desc, memp_init_pool desc p)) st"

definition memp_malloc :: "nat \<Rightarrow> memp_state \<Rightarrow> nat option \<times> memp_state" where
  "memp_malloc ty st =
     (if \<not> ty < length st then (None, st)
      else let (m, p) = do_memp_malloc_pool (snd (st ! ty))
           in (m, st[ty := (fst (st ! ty), p)]))"

definition memp_free :: "nat \<Rightarrow> nat option \<Rightarrow> memp_state \<Rightarrow> memp_state" where
  "memp_free ty mem st =
     (if \<not> ty < length st then st
      else case mem of None \<Rightarrow> st
        | Some m \<Rightarrow> st[ty := (fst (st ! ty), do_memp_free_pool (snd (st ! ty)) m)])"

text \<open>A holder of an element writes over its first word.\<close>

definition memp_write :: "memp_pool \<Rightarrow> nat \<Rightarrow> nat option \<Rightarrow> memp_pool" where
  "memp_write p memp v = p\<lparr>mp_next := (mp_next p)(memp := v)\<rparr>"

section \<open>The free list\<close>

fun path :: "(nat \<Rightarrow> nat option) \<Rightarrow> nat option \<Rightarrow> nat list \<Rightarrow> bool" where
  "path nx t [] \<longleftrightarrow> t = None"
| "path nx t (x # xs) \<longleftrightarrow> t = Some x \<and> path nx (nx x) xs"

lemma path_upd [simp]: "x \<notin> set xs \<Longrightarrow> path (nx(x := v)) t xs = path nx t xs"
  by (induction xs arbitrary: t) auto

definition memp_free_list :: "memp_pool \<Rightarrow> nat list \<Rightarrow> bool" where
  "memp_free_list p xs \<longleftrightarrow> path (mp_next p) (mp_tab p) xs"

interpretation memp: element_pool do_memp_malloc_pool do_memp_free_pool memp_write memp_free_list
proof unfold_locales
  fix s assume "memp_free_list s []"
  then show "do_memp_malloc_pool s = (None, s)"
    by (simp add: memp_free_list_def do_memp_malloc_pool_def)
next
  fix s x xs assume "memp_free_list s (x # xs)"
  then show "fst (do_memp_malloc_pool s) = Some x \<and> memp_free_list (snd (do_memp_malloc_pool s)) xs"
    by (simp add: memp_free_list_def do_memp_malloc_pool_def)
next
  fix s xs x assume "memp_free_list s xs" "x \<notin> set xs"
  then show "memp_free_list (do_memp_free_pool s x) (x # xs)"
    by (simp add: memp_free_list_def do_memp_free_pool_def)
next
  fix s xs x v assume "memp_free_list s xs" "x \<notin> set xs"
  then show "memp_free_list (memp_write s x v) xs"
    by (simp add: memp_free_list_def memp_write_def)
qed

definition memp_elems :: "memp_desc \<Rightarrow> nat list" where
  "memp_elems desc = map (\<lambda>i. desc_base desc + i * desc_size desc) [0..<desc_num desc]"

lemma memp_init_loop_free_list:
  assumes "memp_free_list p xs" "\<forall>x \<in> set xs. x < memp" "0 < desc_size desc"
  shows "memp_free_list (memp_init_loop desc k memp p)
    (rev (map (\<lambda>i. memp + i * desc_size desc) [0..<k]) @ xs)"
  using assms(1,2)
proof (induction k arbitrary: memp p xs)
  case 0
  then show ?case by simp
next
  case (Suc k)
  let ?p = "p\<lparr>mp_next := (mp_next p)(memp := mp_tab p), mp_tab := Some memp\<rparr>"
  have "memp \<notin> set xs" using Suc.prems(2) by auto
  then have p: "memp_free_list ?p (memp # xs)"
    using Suc.prems(1) by (simp add: memp_free_list_def)
  have "\<forall>x \<in> set (memp # xs). x < memp + desc_size desc"
    using Suc.prems(2) assms(3) by auto
  from Suc.IH [OF p this] show ?case
    by (simp add: upt_conv_Cons map_Suc_upt [symmetric] comp_def add.assoc del: upt_Suc)
qed

lemma memp_init_pool_free_list:
  "0 < desc_size desc \<Longrightarrow> memp_free_list (memp_init_pool desc p) (rev (memp_elems desc))"
  using memp_init_loop_free_list [of "p\<lparr>mp_tab := None\<rparr>" "[]" "desc_base desc" desc "desc_num desc"]
  by (simp add: memp_init_pool_def memp_elems_def memp_free_list_def)

lemma distinct_memp_elems: "0 < desc_size desc \<Longrightarrow> distinct (memp_elems desc)"
  by (simp add: memp_elems_def distinct_map inj_on_def)

lemma memp_elems_apart:
  assumes "x \<in> set (memp_elems desc)" "y \<in> set (memp_elems desc)" "x \<noteq> y"
  shows "x + desc_size desc \<le> y \<or> y + desc_size desc \<le> x"
proof -
  obtain i j where ij: "x = desc_base desc + i * desc_size desc" "y = desc_base desc + j * desc_size desc"
    using assms(1,2) by (auto simp: memp_elems_def)
  with assms(3) have "i \<noteq> j" by auto
  then consider "Suc i \<le> j" | "Suc j \<le> i" by linarith
  then show ?thesis
    using ij by cases (auto dest: mult_le_mono1 [where k = "desc_size desc"])
qed

section \<open>Histories of a pool\<close>

text \<open>
  The states a pool reaches when its users allocate, free what they hold and write to what
  they hold; \<open>held\<close> lists the elements handed out and not yet given back.
\<close>

inductive memp_reach :: "memp_desc \<Rightarrow> memp_pool \<Rightarrow> nat list \<Rightarrow> bool" for desc where
  init: "memp_reach desc (memp_init_pool desc p) []"
| malloc: "memp_reach desc p held \<Longrightarrow> do_memp_malloc_pool p = (Some m, p')
    \<Longrightarrow> memp_reach desc p' (m # held)"
| malloc_fail: "memp_reach desc p held \<Longrightarrow> do_memp_malloc_pool p = (None, p')
    \<Longrightarrow> memp_reach desc p' held"
| free: "memp_reach desc p held \<Longrightarrow> m \<in> set held
    \<Longrightarrow> memp_reach desc (do_memp_free_pool p m) (remove1 m held)"
| use: "memp_reach desc p held \<Longrightarrow> m \<in> set held \<Longrightarrow> memp_reach desc (memp_write p m v) held"

lemma memp_reach_inv:
  assumes "memp_reach desc p held" "0 < desc_size desc"
  shows "memp.pool_inv (memp_elems desc) p held"
  using assms
proof (induction rule: memp_reach.induct)
  case (init p)
  then show ?case
    by (intro memp.pool_invI [OF memp_init_pool_free_list]) (simp_all add: distinct_memp_elems)
next
  case (malloc_fail p held p')
  then show ?case using memp.alloc_None_same by blast
qed (auto intro: memp.alloc_inv memp.release_inv memp.scribble_inv)

text \<open>
  C26: Allocation from a pool is safe in every history of mallocs, frees of held elements and
  writes into held elements: a returned element is one of the pool, overlaps no element
  that is still held, and \<open>NULL\<close> is returned exactly when all \<open>num\<close> elements are held;
  freeing puts the element on top, so the next allocation returns it.
\<close>

theorem memp_malloc_safe:
  assumes "memp_reach desc p held" "0 < desc_size desc"
  shows "(fst (do_memp_malloc_pool p) = None \<longleftrightarrow> length held = desc_num desc)
    \<and> (\<forall>m. fst (do_memp_malloc_pool p) = Some m \<longrightarrow> m \<in> set (memp_elems desc)
         \<and> (\<forall>h \<in> set held. m + desc_size desc \<le> h \<or> h + desc_size desc \<le> m))
    \<and> (\<forall>h \<in> set held. fst (do_memp_malloc_pool (do_memp_free_pool p h)) = Some h)"
proof (intro conjI allI impI ballI)
  note inv = memp_reach_inv [OF assms]
  show "fst (do_memp_malloc_pool p) = None \<longleftrightarrow> length held = desc_num desc"
    using memp.alloc_None_iff [OF inv distinct_memp_elems [OF assms(2)]] by (simp add: memp_elems_def)
  fix m assume m: "fst (do_memp_malloc_pool p) = Some m"
  then have a: "do_memp_malloc_pool p = (Some m, snd (do_memp_malloc_pool p))"
    by (cases "do_memp_malloc_pool p") simp
  note alloc = memp.alloc_inv [OF inv a]
  show "m \<in> set (memp_elems desc)" by (fact alloc(2))
  fix h assume h: "h \<in> set held"
  have "h \<in> set (memp_elems desc)" using inv h by (auto simp: memp.pool_inv_def)
  then show "m + desc_size desc \<le> h \<or> h + desc_size desc \<le> m"
    using memp_elems_apart alloc(2,3) h by metis
next
  fix h assume "h \<in> set held"
  then show "fst (do_memp_malloc_pool (do_memp_free_pool p h)) = Some h"
    using memp.alloc_release memp_reach_inv [OF assms] by blast
qed

definition demo_pool :: memp_pool where
  "demo_pool = memp_init_pool \<lparr>desc_size = 8, desc_num = 2, desc_base = 100\<rparr>
     \<lparr>mp_tab = None, mp_next = \<lambda>_. None\<rparr>"

theorem memp_malloc_safe_witness:
  "fst (do_memp_malloc_pool (snd (do_memp_malloc_pool demo_pool))) = Some 100"
proof -
  let ?d = "\<lparr>desc_size = 8, desc_num = 2, desc_base = 100\<rparr> :: memp_desc"
  have d: "do_memp_malloc_pool demo_pool = (Some 108, snd (do_memp_malloc_pool demo_pool))"
    by (simp add: demo_pool_def memp_init_pool_def do_memp_malloc_pool_def numeral_2_eq_2)
  have "memp_reach ?d (snd (do_memp_malloc_pool demo_pool)) [108]"
    using memp_reach.malloc [OF _ d] memp_reach.init [of ?d] unfolding demo_pool_def by blast
  from memp_malloc_safe [OF this]
  have "fst (do_memp_malloc_pool (snd (do_memp_malloc_pool demo_pool))) \<noteq> None" by simp
  then show ?thesis
    by (simp add: demo_pool_def memp_init_pool_def do_memp_malloc_pool_def numeral_2_eq_2)
qed

text \<open>The array of pools: an operation on one pool does not touch the others.\<close>

lemma memp_malloc_other: "ty' \<noteq> ty \<Longrightarrow> snd (memp_malloc ty st) ! ty' = st ! ty'"
  by (simp add: memp_malloc_def Let_def split_beta)

lemma memp_free_other: "ty' \<noteq> ty \<Longrightarrow> memp_free ty m st ! ty' = st ! ty'"
  by (simp add: memp_free_def split: option.split)

lemma memp_malloc_same:
  "ty < length st \<Longrightarrow> memp_malloc ty st = (fst (do_memp_malloc_pool (snd (st ! ty))),
     st[ty := (fst (st ! ty), snd (do_memp_malloc_pool (snd (st ! ty))))])"
  by (simp add: memp_malloc_def Let_def split_beta)

end
