(* ===== verification/Pbuf.thy ===== *)
theory Pbuf
  imports Mem Memp
begin

text \<open>
  Packet buffers (\<open>Tunnel/lwip/core/pbuf.c\<close>): reference counted structures linked into
  chains, allocated from the heap (PBUF_RAM) or from the pools (PBUF_ROM, PBUF_REF,
  PBUF_POOL). Memory is explicit: \<open>ps_bufs\<close> holds the structures by address, \<open>ps_mem\<close>
  the payload bytes, and the heap and the pools are those of the theories Mem and Memp.
  An address without a live structure (a \<open>NULL\<close>, wild or freed pointer) and a loop that
  does not end both give \<open>None\<close>. This theory holds allocation, reference counting and
  chain surgery.
\<close>

section \<open>Data\<close>

datatype pbuf_layer = PBUF_TRANSPORT | PBUF_IP | PBUF_LINK | PBUF_RAW_TX | PBUF_RAW

fun pbuf_layer_offset :: "pbuf_layer \<Rightarrow> nat" where
  "pbuf_layer_offset PBUF_TRANSPORT = 0 + 14 + 20 + 20"
| "pbuf_layer_offset PBUF_IP = 0 + 14 + 20"
| "pbuf_layer_offset PBUF_LINK = 0 + 14"
| "pbuf_layer_offset PBUF_RAW_TX = 0"
| "pbuf_layer_offset PBUF_RAW = 0"

datatype pbuf_type = PBUF_RAM | PBUF_ROM | PBUF_REF | PBUF_POOL

definition PBUF_TYPE_FLAG_STRUCT_DATA_CONTIGUOUS :: u8 where
  "PBUF_TYPE_FLAG_STRUCT_DATA_CONTIGUOUS = 0x80"

definition PBUF_TYPE_ALLOC_SRC_MASK :: u8 where
  "PBUF_TYPE_ALLOC_SRC_MASK = 0x0F"

text \<open>The low byte of the type, as stored in \<open>type_internal\<close>.\<close>

fun pbuf_type_internal :: "pbuf_type \<Rightarrow> u8" where
  "pbuf_type_internal PBUF_RAM = 0x80"
| "pbuf_type_internal PBUF_ROM = 0x01"
| "pbuf_type_internal PBUF_REF = 0x40 OR 0x01"
| "pbuf_type_internal PBUF_POOL = 0x80 OR 0x02"

record pbuf =
  p_next :: "nat option"
  p_payload :: nat
  p_tot_len :: u16
  p_len :: u16
  p_type_internal :: u8
  p_flags :: u8
  p_ref :: u8
  p_if_idx :: u8

record pbuf_state =
  ps_bufs :: "nat \<rightharpoonup> pbuf"
  ps_mem :: "nat \<Rightarrow> u8"
  ps_heap :: heap
  ps_ram :: nat
  ps_pools :: memp_state
  ps_free_ooseq_pending :: bool

definition SIZEOF_STRUCT_PBUF :: nat where
  "SIZEOF_STRUCT_PBUF = 24"

definition PBUF_POOL_BUFSIZE :: nat where
  "PBUF_POOL_BUFSIZE = 1600"

text \<open>Indices into \<open>memp_pools\<close>.\<close>

definition MEMP_PBUF :: nat where
  "MEMP_PBUF = 5"

definition MEMP_PBUF_POOL :: nat where
  "MEMP_PBUF_POOL = 6"

definition pbuf_get_allocsrc :: "pbuf \<Rightarrow> u8" where
  "pbuf_get_allocsrc b = p_type_internal b AND PBUF_TYPE_ALLOC_SRC_MASK"

text \<open>Changing a field of the structure a pointer points to.\<close>

definition pbuf_upd :: "nat \<Rightarrow> (pbuf \<Rightarrow> pbuf) \<Rightarrow> pbuf_state \<Rightarrow> pbuf_state option" where
  "pbuf_upd a f s = map_option (\<lambda>b. s\<lparr>ps_bufs := (ps_bufs s)(a \<mapsto> f b)\<rparr>) (ps_bufs s a)"

definition pbuf_init_alloced_pbuf ::
    "nat \<Rightarrow> nat \<Rightarrow> u16 \<Rightarrow> u16 \<Rightarrow> pbuf_type \<Rightarrow> u8 \<Rightarrow> pbuf_state \<Rightarrow> pbuf_state" where
  "pbuf_init_alloced_pbuf p payload tot_len len type flags s =
     s\<lparr>ps_bufs := (ps_bufs s)(p \<mapsto>
       \<lparr>p_next = None, p_payload = payload, p_tot_len = tot_len, p_len = len,
        p_type_internal = pbuf_type_internal type, p_flags = flags, p_ref = 1, p_if_idx = 0\<rparr>)\<rparr>"

section \<open>Freeing\<close>

text \<open>Handing the memory of an unreferenced pbuf back to where it came from.\<close>

definition pbuf_release :: "nat \<Rightarrow> u8 \<Rightarrow> pbuf_state \<Rightarrow> pbuf_state option" where
  "pbuf_release p alloc_src s =
     (let s = s\<lparr>ps_bufs := (ps_bufs s)(p := None)\<rparr>
      in if alloc_src = 0x02 then Some (s\<lparr>ps_pools := memp_free MEMP_PBUF_POOL (Some p) (ps_pools s)\<rparr>)
         else if alloc_src = 0x01 then Some (s\<lparr>ps_pools := memp_free MEMP_PBUF (Some p) (ps_pools s)\<rparr>)
         else if alloc_src = 0x00 then
           map_option (\<lambda>h. s\<lparr>ps_heap := h\<rparr>) (mem_free (ps_heap s) (Some (p - ps_ram s)))
         else Some s)"

partial_function (option) pbuf_free_loop :: "nat option \<Rightarrow> u8 \<Rightarrow> pbuf_state \<Rightarrow> (u8 \<times> pbuf_state) option" where
  "pbuf_free_loop p count s =
     (case p of
        None \<Rightarrow> Some (count, s)
      | Some a \<Rightarrow>
          Option.bind (ps_bufs s a) (\<lambda>b.
            let ref = p_ref b - 1; s = s\<lparr>ps_bufs := (ps_bufs s)(a \<mapsto> b\<lparr>p_ref := ref\<rparr>)\<rparr>
            in if ref = 0 then
                 Option.bind (pbuf_release a (pbuf_get_allocsrc b) s)
                   (\<lambda>s. pbuf_free_loop (p_next b) (count + 1) s)
               else Some (count, s)))"

definition pbuf_free :: "nat option \<Rightarrow> pbuf_state \<Rightarrow> (u8 \<times> pbuf_state) option" where
  "pbuf_free p s = (if p = None then Some (0, s) else pbuf_free_loop p 0 s)"

section \<open>Allocating\<close>

definition pbuf_pool_is_empty :: "pbuf_state \<Rightarrow> pbuf_state" where
  "pbuf_pool_is_empty s = s\<lparr>ps_free_ooseq_pending := True\<rparr>"

definition pbuf_alloc_reference :: "nat \<Rightarrow> u16 \<Rightarrow> pbuf_type \<Rightarrow> pbuf_state \<Rightarrow> nat option \<times> pbuf_state" where
  "pbuf_alloc_reference payload len type s =
     (let (p, pools) = memp_malloc MEMP_PBUF (ps_pools s); s = s\<lparr>ps_pools := pools\<rparr>
      in case p of None \<Rightarrow> (None, s)
         | Some q \<Rightarrow> (Some q, pbuf_init_alloced_pbuf q payload len len type 0 s))"

text \<open>The \<open>do ... while (rem_len > 0)\<close> loop of PBUF_POOL: \<open>p\<close> is the head, \<open>lst\<close> the last pbuf.\<close>

partial_function (option) pbuf_alloc_pool ::
    "nat option \<Rightarrow> nat option \<Rightarrow> u16 \<Rightarrow> nat \<Rightarrow> pbuf_state \<Rightarrow> (nat option \<times> pbuf_state) option" where
  "pbuf_alloc_pool p lst rem_len offset s =
     (let r = memp_malloc MEMP_PBUF_POOL (ps_pools s); pools = snd r
      in case fst r of
        None \<Rightarrow>
          (let s = pbuf_pool_is_empty (s\<lparr>ps_pools := pools\<rparr>)
           in Option.bind (pbuf_free p s) (\<lambda>(_, s). Some (None, s)))
      | Some q \<Rightarrow>
          (let qlen = min rem_len (of_nat (PBUF_POOL_BUFSIZE - offset));
               s = pbuf_init_alloced_pbuf q (q + SIZEOF_STRUCT_PBUF + offset) rem_len qlen PBUF_POOL 0
                     (s\<lparr>ps_pools := pools\<rparr>)
           in Option.bind
                (case lst of None \<Rightarrow> Some s | Some l \<Rightarrow> pbuf_upd l (\<lambda>b. b\<lparr>p_next := Some q\<rparr>) s)
                (\<lambda>s. let p = (if p = None then Some q else p)
                     in if rem_len - qlen > 0 then pbuf_alloc_pool p (Some q) (rem_len - qlen) 0 s
                        else Some (p, s))))"

definition pbuf_alloc :: "pbuf_layer \<Rightarrow> u16 \<Rightarrow> pbuf_type \<Rightarrow> pbuf_state \<Rightarrow> (nat option \<times> pbuf_state) option" where
  "pbuf_alloc layer len type s =
     (let offset = pbuf_layer_offset layer
      in case type of
           PBUF_REF \<Rightarrow> Some (pbuf_alloc_reference 0 len type s)
         | PBUF_ROM \<Rightarrow> Some (pbuf_alloc_reference 0 len type s)
         | PBUF_POOL \<Rightarrow> pbuf_alloc_pool None None len offset s
         | PBUF_RAM \<Rightarrow>
             (let payload_len = (offset + unat len) mod 2 ^ 32;
                  alloc_len = (SIZEOF_STRUCT_PBUF + payload_len) mod 2 ^ 32
              in if payload_len < unat len \<or> alloc_len < unat len then Some (None, s)
                 else do {
                   (p, h) \<leftarrow> mem_malloc (ps_heap s) alloc_len;
                   let s = s\<lparr>ps_heap := h\<rparr>;
                   case p of
                     None \<Rightarrow> Some (None, s)
                   | Some k \<Rightarrow>
                       (let q = ps_ram s + k
                        in Some (Some q, pbuf_init_alloced_pbuf q (q + SIZEOF_STRUCT_PBUF + offset) len len type 0 s)) }))"

section \<open>Header space\<close>

definition pbuf_add_header_impl :: "nat option \<Rightarrow> nat \<Rightarrow> bool \<Rightarrow> pbuf_state \<Rightarrow> (bool \<times> pbuf_state) option" where
  "pbuf_add_header_impl p header_size_increment force s =
     (case p of None \<Rightarrow> Some (True, s)
      | Some a \<Rightarrow>
          if header_size_increment > 0xFFFF then Some (True, s)
          else if header_size_increment = 0 then Some (False, s)
          else do {
            b \<leftarrow> ps_bufs s a;
            let increment_magnitude = (of_nat header_size_increment :: u16);
            if increment_magnitude + p_tot_len b < increment_magnitude then Some (True, s)
            else if p_type_internal b AND PBUF_TYPE_FLAG_STRUCT_DATA_CONTIGUOUS \<noteq> 0
                 then (if p_payload b < a + SIZEOF_STRUCT_PBUF + header_size_increment then Some (True, s)
                       else Some (False, s\<lparr>ps_bufs := (ps_bufs s)(a \<mapsto>
                         b\<lparr>p_payload := p_payload b - header_size_increment,
                           p_len := p_len b + increment_magnitude,
                           p_tot_len := p_tot_len b + increment_magnitude\<rparr>)\<rparr>))
                 else (if force
                       then Some (False, s\<lparr>ps_bufs := (ps_bufs s)(a \<mapsto>
                         b\<lparr>p_payload := p_payload b - header_size_increment,
                           p_len := p_len b + increment_magnitude,
                           p_tot_len := p_tot_len b + increment_magnitude\<rparr>)\<rparr>)
                       else Some (True, s)) })"

definition pbuf_add_header :: "nat option \<Rightarrow> nat \<Rightarrow> pbuf_state \<Rightarrow> (bool \<times> pbuf_state) option" where
  "pbuf_add_header p n s = pbuf_add_header_impl p n False s"

definition pbuf_add_header_force :: "nat option \<Rightarrow> nat \<Rightarrow> pbuf_state \<Rightarrow> (bool \<times> pbuf_state) option" where
  "pbuf_add_header_force p n s = pbuf_add_header_impl p n True s"

definition pbuf_remove_header :: "nat option \<Rightarrow> nat \<Rightarrow> pbuf_state \<Rightarrow> (bool \<times> pbuf_state) option" where
  "pbuf_remove_header p header_size_decrement s =
     (case p of None \<Rightarrow> Some (True, s)
      | Some a \<Rightarrow>
          if header_size_decrement > 0xFFFF then Some (True, s)
          else if header_size_decrement = 0 then Some (False, s)
          else do {
            b \<leftarrow> ps_bufs s a;
            let increment_magnitude = (of_nat header_size_decrement :: u16);
            if \<not> increment_magnitude \<le> p_len b then Some (True, s)
            else Some (False, s\<lparr>ps_bufs := (ps_bufs s)(a \<mapsto>
              b\<lparr>p_payload := p_payload b + header_size_decrement,
                p_len := p_len b - increment_magnitude,
                p_tot_len := p_tot_len b - increment_magnitude\<rparr>)\<rparr>) })"

text \<open>The argument of \<open>pbuf_header\<close> is a signed 16-bit number.\<close>

definition pbuf_header_impl :: "nat option \<Rightarrow> int \<Rightarrow> bool \<Rightarrow> pbuf_state \<Rightarrow> (bool \<times> pbuf_state) option" where
  "pbuf_header_impl p header_size_increment force s =
     (if header_size_increment < 0 then pbuf_remove_header p (nat (- header_size_increment)) s
      else pbuf_add_header_impl p (nat header_size_increment) force s)"

definition pbuf_header :: "nat option \<Rightarrow> int \<Rightarrow> pbuf_state \<Rightarrow> (bool \<times> pbuf_state) option" where
  "pbuf_header p n s = pbuf_header_impl p n False s"

definition pbuf_header_force :: "nat option \<Rightarrow> int \<Rightarrow> pbuf_state \<Rightarrow> (bool \<times> pbuf_state) option" where
  "pbuf_header_force p n s = pbuf_header_impl p n True s"

partial_function (option) pbuf_free_header_loop ::
    "nat option \<Rightarrow> u16 \<Rightarrow> pbuf_state \<Rightarrow> (nat option \<times> pbuf_state) option" where
  "pbuf_free_header_loop p free_left s =
     (case p of
        None \<Rightarrow> Some (None, s)
      | Some a \<Rightarrow>
          if free_left = 0 then Some (p, s)
          else Option.bind (ps_bufs s a) (\<lambda>b.
            if free_left \<ge> p_len b then
              Option.bind (pbuf_upd a (\<lambda>b. b\<lparr>p_next := None\<rparr>) s) (\<lambda>s.
              Option.bind (pbuf_free (Some a) s) (\<lambda>(_, s).
                pbuf_free_header_loop (p_next b) (free_left - p_len b) s))
            else Option.bind (pbuf_remove_header p (unat free_left) s) (\<lambda>(_, s).
                pbuf_free_header_loop p 0 s)))"

definition pbuf_free_header :: "nat option \<Rightarrow> u16 \<Rightarrow> pbuf_state \<Rightarrow> (nat option \<times> pbuf_state) option" where
  "pbuf_free_header q n s = pbuf_free_header_loop q n s"

section \<open>Chains\<close>

partial_function (option) pbuf_clen_loop :: "nat option \<Rightarrow> u16 \<Rightarrow> pbuf_state \<Rightarrow> u16 option" where
  "pbuf_clen_loop p len s =
     (case p of None \<Rightarrow> Some len
      | Some a \<Rightarrow> Option.bind (ps_bufs s a) (\<lambda>b. pbuf_clen_loop (p_next b) (len + 1) s))"

definition pbuf_clen :: "nat option \<Rightarrow> pbuf_state \<Rightarrow> u16 option" where
  "pbuf_clen p s = pbuf_clen_loop p 0 s"

definition pbuf_ref :: "nat option \<Rightarrow> pbuf_state \<Rightarrow> pbuf_state option" where
  "pbuf_ref p s = (case p of None \<Rightarrow> Some s | Some a \<Rightarrow> pbuf_upd a (\<lambda>b. b\<lparr>p_ref := p_ref b + 1\<rparr>) s)"

text \<open>The loop to the last pbuf of \<open>h\<close>, adding the length of \<open>t\<close> on the way, and the link.\<close>

partial_function (option) pbuf_cat_loop :: "nat \<Rightarrow> nat \<Rightarrow> pbuf_state \<Rightarrow> pbuf_state option" where
  "pbuf_cat_loop a t s =
     Option.bind (ps_bufs s a) (\<lambda>b. Option.bind (ps_bufs s t) (\<lambda>bt.
       let s' = s\<lparr>ps_bufs := (ps_bufs s)(a \<mapsto> b\<lparr>p_tot_len := p_tot_len b + p_tot_len bt\<rparr>)\<rparr>
       in case p_next b of
            Some a' \<Rightarrow> pbuf_cat_loop a' t s'
          | None \<Rightarrow> pbuf_upd a (\<lambda>b. b\<lparr>p_next := Some t\<rparr>) s'))"

definition pbuf_cat :: "nat option \<Rightarrow> nat option \<Rightarrow> pbuf_state \<Rightarrow> pbuf_state option" where
  "pbuf_cat h t s =
     (case (h, t) of
        (Some ah, Some at) \<Rightarrow> pbuf_cat_loop ah at s
      | _ \<Rightarrow> Some s)"

definition pbuf_chain :: "nat option \<Rightarrow> nat option \<Rightarrow> pbuf_state \<Rightarrow> pbuf_state option" where
  "pbuf_chain h t s = do { s \<leftarrow> pbuf_cat h t s; pbuf_ref t s }"

definition pbuf_dechain :: "nat \<Rightarrow> pbuf_state \<Rightarrow> (nat option \<times> pbuf_state) option" where
  "pbuf_dechain p s =
     do { b \<leftarrow> ps_bufs s p;
          case p_next b of
            None \<Rightarrow> Some (None, s)
          | Some q \<Rightarrow> do {
              s \<leftarrow> pbuf_upd q (\<lambda>bq. bq\<lparr>p_tot_len := p_tot_len b - p_len b\<rparr>) s;
              s \<leftarrow> pbuf_upd p (\<lambda>b. b\<lparr>p_next := None, p_tot_len := p_len b\<rparr>) s;
              (tail_gone, s) \<leftarrow> pbuf_free (Some q) s;
              Some (if tail_gone > 0 then None else Some q, s) } }"

text \<open>\<open>pbuf_realloc\<close>: the loop over the pbufs that stay, then the cut in the last one.\<close>

partial_function (option) pbuf_realloc_walk ::
    "nat \<Rightarrow> u16 \<Rightarrow> u16 \<Rightarrow> pbuf_state \<Rightarrow> (nat \<times> u16 \<times> pbuf_state) option" where
  "pbuf_realloc_walk q rem_len shrink s =
     Option.bind (ps_bufs s q) (\<lambda>b.
       if rem_len > p_len b then
         Option.bind (p_next b) (\<lambda>q'.
           pbuf_realloc_walk q' (rem_len - p_len b) shrink
             (s\<lparr>ps_bufs := (ps_bufs s)(q \<mapsto> b\<lparr>p_tot_len := p_tot_len b - shrink\<rparr>)\<rparr>))
       else Some (q, rem_len, s))"

definition pbuf_realloc :: "nat \<Rightarrow> u16 \<Rightarrow> pbuf_state \<Rightarrow> pbuf_state option" where
  "pbuf_realloc p new_len s =
     do { b \<leftarrow> ps_bufs s p;
          if new_len \<ge> p_tot_len b then Some s
          else do {
            (q, rem_len, s) \<leftarrow> pbuf_realloc_walk p new_len (p_tot_len b - new_len) s;
            bq \<leftarrow> ps_bufs s q;
            s \<leftarrow> (if pbuf_get_allocsrc bq = 0x00 \<and> rem_len \<noteq> p_len bq
                  then map_option (\<lambda>(_, h). s\<lparr>ps_heap := h\<rparr>)
                    (mem_trim (ps_heap s) (q - ps_ram s) (p_payload bq - q + unat rem_len))
                  else Some s);
            s \<leftarrow> pbuf_upd q (\<lambda>b. b\<lparr>p_len := rem_len, p_tot_len := rem_len\<rparr>) s;
            s \<leftarrow> (if p_next bq \<noteq> None
                  then map_option snd (pbuf_free (p_next bq) s) else Some s);
            pbuf_upd q (\<lambda>b. b\<lparr>p_next := None\<rparr>) s } }"

section \<open>Chains as lists\<close>

fun pchain :: "(nat \<rightharpoonup> pbuf) \<Rightarrow> nat option \<Rightarrow> nat list \<Rightarrow> bool" where
  "pchain B p [] \<longleftrightarrow> p = None"
| "pchain B p (a # as) \<longleftrightarrow> p = Some a \<and> (\<exists>b. B a = Some b \<and> pchain B (p_next b) as)"

lemma pchain_unique: "pchain B p as \<Longrightarrow> pchain B p bs \<Longrightarrow> as = bs"
proof (induction as arbitrary: p bs)
  case Nil
  then show ?case by (cases bs) auto
next
  case (Cons a as)
  then show ?case by (cases bs) auto
qed

lemma pchain_append:
  "pchain B p (xs @ ys) \<Longrightarrow> \<exists>q. pchain B q ys \<and> (xs = [] \<longrightarrow> q = p)"
  by (induction xs arbitrary: p) auto

lemma pchain_distinct: "pchain B p as \<Longrightarrow> distinct as"
proof (induction as arbitrary: p)
  case (Cons a as)
  have "a \<notin> set as"
  proof
    assume "a \<in> set as"
    then obtain xs ys where as: "as = xs @ a # ys" by (metis split_list)
    obtain q where "pchain B q (a # ys)"
      using Cons.prems pchain_append [of B p "a # xs" "a # ys"] as by auto
    then have "pchain B (Some a) (a # ys)" by simp
    moreover have "pchain B (Some a) (a # as)" using Cons.prems by simp
    ultimately have "a # ys = a # as" by (rule pchain_unique)
    then show False using as by simp
  qed
  with Cons show ?case by auto
qed simp

lemma pchain_upd [simp]: "a \<notin> set as \<Longrightarrow> pchain (B(a := x)) p as = pchain B p as"
  by (induction as arbitrary: p) auto

lemma pchain_cong: "(\<And>a. a \<in> set as \<Longrightarrow> B' a = B a) \<Longrightarrow> pchain B' p as = pchain B p as"
  by (induction as arbitrary: p) auto

section \<open>Where pbufs live\<close>

text \<open>
  The pbufs are backed by the allocators: a PBUF_RAM by a range of the heap, the others by
  elements held from their pools; a payload kept with its structure lies within that memory.
  \<open>bs\<close>, \<open>hp\<close> and \<open>hq\<close> are the blocks of the heap and the elements handed out by the pools.
\<close>

definition placed :: "pbuf_state \<Rightarrow> blocks \<Rightarrow> nat list \<Rightarrow> nat list \<Rightarrow> nat \<Rightarrow> pbuf \<Rightarrow> bool" where
  "placed s bs hp hq a b \<longleftrightarrow>
     (if pbuf_get_allocsrc b = 0x00 then
        \<exists>k e. a = ps_ram s + k \<and> (k, e) \<in> heap_allocs bs \<and> a + SIZEOF_STRUCT_PBUF \<le> p_payload b
          \<and> p_payload b + unat (p_len b) \<le> ps_ram s + e
      else if pbuf_get_allocsrc b = 0x01 then a \<in> set hp
      else pbuf_get_allocsrc b = 0x02 \<and> a \<in> set hq \<and> a + SIZEOF_STRUCT_PBUF \<le> p_payload b
        \<and> p_payload b + unat (p_len b) \<le> a + SIZEOF_STRUCT_PBUF + PBUF_POOL_BUFSIZE)"

text \<open>The memory map: heap and pools do not overlap, the elements are large enough.\<close>

definition layout_ok :: "nat \<Rightarrow> memp_desc \<Rightarrow> memp_desc \<Rightarrow> bool" where
  "layout_ok ram dp dq \<longleftrightarrow> SIZEOF_STRUCT_PBUF \<le> desc_size dp
     \<and> SIZEOF_STRUCT_PBUF + PBUF_POOL_BUFSIZE \<le> desc_size dq
     \<and> (\<forall>a \<in> set (memp_elems dp). (a + desc_size dp \<le> ram \<or> ram + MEM_SIZE_ALIGNED \<le> a)
          \<and> (\<forall>b \<in> set (memp_elems dq). a + desc_size dp \<le> b \<or> b + desc_size dq \<le> a))
     \<and> (\<forall>b \<in> set (memp_elems dq). b + desc_size dq \<le> ram \<or> ram + MEM_SIZE_ALIGNED \<le> b)"

text \<open>
  Nothing leaks: every range the heap has handed out and every element the two pools have handed
  out is the memory of a live pbuf of the matching kind. (The heap and these pools serve nothing
  but pbufs in this configuration.)
\<close>

definition src_of :: "(nat \<rightharpoonup> pbuf) \<Rightarrow> nat \<Rightarrow> u8 option" where
  "src_of B a = map_option pbuf_get_allocsrc (B a)"

definition accounted :: "nat \<Rightarrow> (nat \<rightharpoonup> pbuf) \<Rightarrow> blocks \<Rightarrow> nat list \<Rightarrow> nat list \<Rightarrow> bool" where
  "accounted ram B bs hp hq \<longleftrightarrow> (\<forall>k e. (k, e) \<in> heap_allocs bs \<longrightarrow> src_of B (ram + k) = Some 0x00)
     \<and> (\<forall>a \<in> set hp. src_of B a = Some 0x01) \<and> (\<forall>a \<in> set hq. src_of B a = Some 0x02)"

lemma src_of_upd [simp]: "src_of (B(a := x)) = (src_of B)(a := map_option pbuf_get_allocsrc x)"
  by (auto simp: src_of_def)

lemma accounted_cong: "src_of B' = src_of B \<Longrightarrow> accounted ram B' bs hp hq = accounted ram B bs hp hq"
  by (simp add: accounted_def)

lemma accounted_same:
  "B a = Some b \<Longrightarrow> pbuf_get_allocsrc b' = pbuf_get_allocsrc b \<Longrightarrow> accounted ram (B(a \<mapsto> b')) bs hp hq = accounted ram B bs hp hq"
  by (rule accounted_cong) (auto simp: src_of_def)

text \<open>The accounts after handing out a range or an element, and after taking one back.\<close>

lemma accounted_new:
  assumes "accounted ram B bs hp hq" "B q = None"
  shows "pbuf_get_allocsrc b = 0x00 \<Longrightarrow> q = ram + k \<Longrightarrow> heap_allocs bs' = insert (k, e) (heap_allocs bs)
      \<Longrightarrow> accounted ram (B(q \<mapsto> b)) bs' hp hq"
    and "pbuf_get_allocsrc b = 0x01 \<Longrightarrow> accounted ram (B(q \<mapsto> b)) bs (q # hp) hq"
    and "pbuf_get_allocsrc b = 0x02 \<Longrightarrow> accounted ram (B(q \<mapsto> b)) bs hp (q # hq)"
  using assms by (fastforce simp: accounted_def src_of_def)+

lemma accounted_release_heap:
  assumes "accounted ram B bs hp hq" "B a = Some b" "pbuf_get_allocsrc b = 0x00" "a = ram + k"
    and "links r bs" "(k, e) \<in> heap_allocs bs" "heap_allocs bs' = heap_allocs bs - {(k, e)}"
  shows "accounted ram (B(a := None)) bs' hp hq"
proof -
  have "e' = e" if "(k, e') \<in> heap_allocs bs" for e'
    using allocs_disjoint [OF assms(5,6) that] allocs_bounds [of r 0 bs MEM_SIZE_ALIGNED k] assms(5,6) that
    by (fastforce simp: links_def)
  then show ?thesis using assms(1-4,7) by (fastforce simp: accounted_def src_of_def)
qed

lemma accounted_trim:
  assumes "accounted ram B bs hp hq" "(k, e) \<in> heap_allocs bs" "heap_allocs bs' = insert (k, e') (heap_allocs bs - {(k, e)})"
  shows "accounted ram B bs' hp hq"
  using assms by (auto simp: accounted_def)

lemma accounted_release_pool:
  assumes "accounted ram B bs hp hq" "B a = Some b" "distinct hp" "distinct hq"
  shows "pbuf_get_allocsrc b = 0x01 \<Longrightarrow> accounted ram (B(a := None)) bs (remove1 a hp) hq"
    and "pbuf_get_allocsrc b = 0x02 \<Longrightarrow> accounted ram (B(a := None)) bs hp (remove1 a hq)"
  using assms by (fastforce simp: accounted_def src_of_def)+

definition pinv_at :: "pbuf_state \<Rightarrow> blocks \<Rightarrow> nat list \<Rightarrow> nat list \<Rightarrow> bool" where
  "pinv_at s bs hp hq \<longleftrightarrow> heap_inv (ps_heap s) bs
     \<and> length (ps_pools s) = 7
     \<and> layout_ok (ps_ram s) (fst (ps_pools s ! MEMP_PBUF)) (fst (ps_pools s ! MEMP_PBUF_POOL))
     \<and> memp.pool_inv (memp_elems (fst (ps_pools s ! MEMP_PBUF))) (snd (ps_pools s ! MEMP_PBUF)) hp
     \<and> memp.pool_inv (memp_elems (fst (ps_pools s ! MEMP_PBUF_POOL))) (snd (ps_pools s ! MEMP_PBUF_POOL)) hq
     \<and> (\<forall>a b. ps_bufs s a = Some b \<longrightarrow> placed s bs hp hq a b)
     \<and> accounted (ps_ram s) (ps_bufs s) bs hp hq"

definition pinv :: "pbuf_state \<Rightarrow> bool" where
  "pinv s \<longleftrightarrow> (\<exists>bs hp hq. pinv_at s bs hp hq)"

lemmas memp_idx = MEMP_PBUF_def MEMP_PBUF_POOL_def

lemma pinv_atI: "pinv_at s bs hp hq \<Longrightarrow> pinv s"
  unfolding pinv_def by blast

text \<open>
  The addresses the heap and the two pbuf pools have handed out and not got back, read off the
  block list of the heap and the free lists of the pools. With the invariant these are exactly
  the addresses of the live pbufs.
\<close>

definition handed_out :: "pbuf_state \<Rightarrow> nat set \<Rightarrow> bool" where
  "handed_out s A \<longleftrightarrow> (\<exists>bs hp hq. heap_inv (ps_heap s) bs
     \<and> memp.pool_inv (memp_elems (fst (ps_pools s ! MEMP_PBUF))) (snd (ps_pools s ! MEMP_PBUF)) hp
     \<and> memp.pool_inv (memp_elems (fst (ps_pools s ! MEMP_PBUF_POOL))) (snd (ps_pools s ! MEMP_PBUF_POOL)) hq
     \<and> A = (\<lambda>(k, e). ps_ram s + k) ` heap_allocs bs \<union> set hp \<union> set hq)"

lemma pinv_handed_out:
  assumes "pinv s" shows "handed_out s (dom (ps_bufs s))"
proof -
  obtain bs hp hq where i: "pinv_at s bs hp hq" using assms by (auto simp: pinv_def)
  then have "accounted (ps_ram s) (ps_bufs s) bs hp hq" "\<And>a b. ps_bufs s a = Some b \<Longrightarrow> placed s bs hp hq a b"
    by (auto simp: pinv_at_def)
  then have "dom (ps_bufs s) = (\<lambda>(k, e). ps_ram s + k) ` heap_allocs bs \<union> set hp \<union> set hq"
    by (fastforce simp: accounted_def src_of_def placed_def split: if_splits)
  then show ?thesis using i unfolding handed_out_def pinv_at_def by blast
qed

text \<open>Fields that say nothing about memory may change freely.\<close>

lemma placed_fields:
  "p_payload b' = p_payload b \<Longrightarrow> unat (p_len b') \<le> unat (p_len b) \<Longrightarrow> p_type_internal b' = p_type_internal b
    \<Longrightarrow> placed s bs hp hq a b \<Longrightarrow> placed s bs hp hq a b'"
  by (auto simp: placed_def pbuf_get_allocsrc_def) (meson add_le_cancel_left le_trans)

lemma placed_mono:
  "placed s bs hp hq a b \<Longrightarrow> (a \<in> set hp \<Longrightarrow> a \<in> set hp') \<Longrightarrow> (a \<in> set hq \<Longrightarrow> a \<in> set hq')
    \<Longrightarrow> heap_allocs bs \<subseteq> heap_allocs bs' \<Longrightarrow> placed s bs' hp' hq' a b"
  unfolding placed_def by (auto split: if_splits)

lemma placed_state: "ps_ram s' = ps_ram s \<Longrightarrow> placed s' bs hp hq a b = placed s bs hp hq a b"
  by (simp add: placed_def)

lemma pinv_at_refield:
  assumes "pinv_at s bs hp hq" "ps_bufs s a = Some b" "pbuf_get_allocsrc b' = pbuf_get_allocsrc b" "placed s bs hp hq a b'"
  shows "pinv_at (s\<lparr>ps_bufs := (ps_bufs s)(a \<mapsto> b')\<rparr>) bs hp hq"
proof -
  have "accounted (ps_ram s) ((ps_bufs s)(a \<mapsto> b')) bs hp hq"
    using assms(1-3) by (simp only: pinv_at_def accounted_same [where B = "ps_bufs s" and b = b])
  then show ?thesis
    using assms by (auto simp: pinv_at_def placed_state [of "s\<lparr>ps_bufs := (ps_bufs s)(a \<mapsto> b')\<rparr>" s])
qed

lemma pinv_refield_placed:
  assumes "pinv s" "ps_bufs s a = Some b" "pbuf_get_allocsrc b' = pbuf_get_allocsrc b"
    "\<And>bs hp hq. placed s bs hp hq a b \<Longrightarrow> placed s bs hp hq a b'"
  shows "pinv (s\<lparr>ps_bufs := (ps_bufs s)(a \<mapsto> b')\<rparr>)"
proof -
  obtain bs hp hq where i: "pinv_at s bs hp hq" using assms(1) by (auto simp: pinv_def)
  then have "placed s bs hp hq a b'" using assms(2) by (intro assms(4)) (simp add: pinv_at_def)
  from pinv_at_refield [OF i assms(2,3) this] show ?thesis by (rule pinv_atI)
qed

lemma pinv_fields:
  assumes "pinv s" "ps_bufs s a = Some b" "p_payload b' = p_payload b" "unat (p_len b') \<le> unat (p_len b)"
    "p_type_internal b' = p_type_internal b"
  shows "pinv (s\<lparr>ps_bufs := (ps_bufs s)(a \<mapsto> b')\<rparr>)"
  by (rule pinv_refield_placed [OF assms(1,2)]) (use assms placed_fields [of b' b] in \<open>simp_all add: pbuf_get_allocsrc_def\<close>)

lemma memp_free_pools:
  "ty < length st \<Longrightarrow> memp_free ty (Some m) st = st[ty := (fst (st ! ty), do_memp_free_pool (snd (st ! ty)) m)]"
  by (simp add: memp_free_def)

lemma pinv_bufs:
  assumes "pinv_at s bs hp hq" "heap_inv h bs'" "length pools = 7"
    "fst (pools ! MEMP_PBUF) = fst (ps_pools s ! MEMP_PBUF)"
    "fst (pools ! MEMP_PBUF_POOL) = fst (ps_pools s ! MEMP_PBUF_POOL)"
    "memp.pool_inv (memp_elems (fst (ps_pools s ! MEMP_PBUF))) (snd (pools ! MEMP_PBUF)) hp'"
    "memp.pool_inv (memp_elems (fst (ps_pools s ! MEMP_PBUF_POOL))) (snd (pools ! MEMP_PBUF_POOL)) hq'"
    "\<And>a b. B a = Some b \<Longrightarrow> placed s bs' hp' hq' a b" "accounted (ps_ram s) B bs' hp' hq'"
  shows "pinv_at (s\<lparr>ps_bufs := B, ps_heap := h, ps_pools := pools\<rparr>) bs' hp' hq'"
  using assms unfolding pinv_at_def
  by (simp add: placed_state [of "s\<lparr>ps_bufs := B, ps_heap := h, ps_pools := pools\<rparr>" s])

text \<open>Releasing a live pbuf succeeds and only that pbuf disappears.\<close>

lemma release_heap:
  assumes i: "pinv_at s bs hp hq" and b: "ps_bufs s a = Some b" and src: "pbuf_get_allocsrc b = 0x00"
  shows "\<exists>s'. pbuf_release a (pbuf_get_allocsrc b) s = Some s' \<and> pinv s'
    \<and> ps_bufs s' = (ps_bufs s)(a := None) \<and> ps_mem s' = ps_mem s"
proof -
  have "placed s bs hp hq a b" using i b by (auto simp: pinv_at_def)
  then obtain k e where ke: "a = ps_ram s + k" "(k, e) \<in> heap_allocs bs"
    using src by (auto simp: placed_def)
  have "heap_inv (ps_heap s) bs" using i by (simp add: pinv_at_def)
  from mem_free_spec [OF this ke(2)] obtain h' bs' where h':
    "mem_free (ps_heap s) (Some k) = Some h'" "heap_inv h' bs'" "heap_allocs bs' = heap_allocs bs - {(k, e)}"
    by blast
  let ?B = "(ps_bufs s)(a := None)"
  have pl: "placed s bs' hp hq a' b'" if "?B a' = Some b'" for a' b'
  proof -
    have "a' \<noteq> a" "placed s bs hp hq a' b'" using that i by (auto simp: pinv_at_def split: if_splits)
    then show ?thesis using ke h'(3) by (auto simp: placed_def split: if_splits)
  qed
  have "pinv_at (s\<lparr>ps_bufs := ?B, ps_heap := h', ps_pools := ps_pools s\<rparr>) bs' hp hq"
    by (rule pinv_bufs [OF i h'(2)])
      (use i pl accounted_release_heap [where B = "ps_bufs s" and a = a and b = b and k = k and e = e and bs = bs and bs' = bs'] b src ke h'(3) in \<open>auto simp: pinv_at_def heap_inv_def\<close>)
  then have "pinv (s\<lparr>ps_bufs := ?B, ps_heap := h'\<rparr>)" by (intro pinv_atI) simp
  then show ?thesis using src h'(1) ke(1) by (simp add: pbuf_release_def Let_def)
qed

lemma release_pool:
  assumes i: "pinv_at s bs hp hq" and b: "ps_bufs s a = Some b" and src: "pbuf_get_allocsrc b \<noteq> 0x00"
  shows "\<exists>s'. pbuf_release a (pbuf_get_allocsrc b) s = Some s' \<and> pinv s'
    \<and> ps_bufs s' = (ps_bufs s)(a := None) \<and> ps_mem s' = ps_mem s"
proof -
  let ?B = "(ps_bufs s)(a := None)" and ?st = "ps_pools s"
  have plc: "placed s bs hp hq a b" using i b by (auto simp: pinv_at_def)
  have pl: "a' \<noteq> a \<and> placed s bs hp hq a' b'" if "?B a' = Some b'" for a' b'
    using that i by (auto simp: pinv_at_def split: if_splits)
  have len: "MEMP_PBUF < length ?st" "MEMP_PBUF_POOL < length ?st" and ln: "length ?st = 7" and hi: "heap_inv (ps_heap s) bs"
    and ip: "memp.pool_inv (memp_elems (fst (?st ! MEMP_PBUF))) (snd (?st ! MEMP_PBUF)) hp"
    and iq: "memp.pool_inv (memp_elems (fst (?st ! MEMP_PBUF_POOL))) (snd (?st ! MEMP_PBUF_POOL)) hq"
    and acc: "accounted (ps_ram s) (ps_bufs s) bs hp hq"
    using i by (auto simp: pinv_at_def memp_idx)
  note returned = accounted_release_pool [OF acc b memp.pool_inv_distinct [OF ip] memp.pool_inv_distinct [OF iq]]
  show ?thesis
  proof (cases "pbuf_get_allocsrc b = 0x01")
    case True
    have a: "a \<in> set hp" using plc True by (simp add: placed_def)
    let ?pools = "memp_free MEMP_PBUF (Some a) ?st"
    have pools: "?pools ! MEMP_PBUF = (fst (?st ! MEMP_PBUF), do_memp_free_pool (snd (?st ! MEMP_PBUF)) a)"
      "?pools ! MEMP_PBUF_POOL = ?st ! MEMP_PBUF_POOL" "length ?pools = 7"
      using len ln by (simp_all add: memp_free_pools memp_idx)
    have "placed s bs (remove1 a hp) hq a' b'" if "?B a' = Some b'" for a' b'
      using pl [OF that] placed_mono [of s bs hp hq a' b'] by auto
    then have "pinv_at (s\<lparr>ps_bufs := ?B, ps_heap := ps_heap s, ps_pools := ?pools\<rparr>) bs (remove1 a hp) hq"
      using memp.release_inv [OF ip a] iq pools returned(1) True by (intro pinv_bufs [OF i hi]) simp_all
    then have "pinv (s\<lparr>ps_bufs := ?B, ps_pools := ?pools\<rparr>)" by (intro pinv_atI) simp
    then show ?thesis using True by (simp add: pbuf_release_def Let_def)
  next
    case False
    then have q: "pbuf_get_allocsrc b = 0x02" "a \<in> set hq" using plc src by (auto simp: placed_def)
    let ?pools = "memp_free MEMP_PBUF_POOL (Some a) ?st"
    have pools: "?pools ! MEMP_PBUF_POOL = (fst (?st ! MEMP_PBUF_POOL), do_memp_free_pool (snd (?st ! MEMP_PBUF_POOL)) a)"
      "?pools ! MEMP_PBUF = ?st ! MEMP_PBUF" "length ?pools = 7"
      using len ln by (simp_all add: memp_free_pools memp_idx)
    have "placed s bs hp (remove1 a hq) a' b'" if "?B a' = Some b'" for a' b'
      using pl [OF that] placed_mono [of s bs hp hq a' b'] by auto
    then have "pinv_at (s\<lparr>ps_bufs := ?B, ps_heap := ps_heap s, ps_pools := ?pools\<rparr>) bs hp (remove1 a hq)"
      using memp.release_inv [OF iq q(2)] ip pools returned(2) q(1) by (intro pinv_bufs [OF i hi]) simp_all
    then have "pinv (s\<lparr>ps_bufs := ?B, ps_pools := ?pools\<rparr>)" by (intro pinv_atI) simp
    then show ?thesis using q by (simp add: pbuf_release_def Let_def)
  qed
qed

lemma release_ok:
  assumes "pinv s" "ps_bufs s a = Some b"
  shows "\<exists>s'. pbuf_release a (pbuf_get_allocsrc b) s = Some s' \<and> pinv s'
    \<and> ps_bufs s' = (ps_bufs s)(a := None) \<and> ps_mem s' = ps_mem s"
  using assms release_heap release_pool unfolding pinv_def by (metis (no_types, lifting))

section \<open>Reference counting\<close>

text \<open>The pbufs a free deallocates: the leading ones with a single reference.\<close>

definition doomed :: "(nat \<rightharpoonup> pbuf) \<Rightarrow> nat list \<Rightarrow> nat list" where
  "doomed B as = takeWhile (\<lambda>a. p_ref (the (B a)) = 1) as"

definition after_free :: "(nat \<rightharpoonup> pbuf) \<Rightarrow> nat list \<Rightarrow> nat \<rightharpoonup> pbuf" where
  "after_free B as a =
     (if a \<in> set (doomed B as) then None
      else if drop (length (doomed B as)) as \<noteq> [] \<and> a = as ! length (doomed B as)
           then map_option (\<lambda>b. b\<lparr>p_ref := p_ref b - 1\<rparr>) (B a) else B a)"

lemma doomed_Cons: "doomed B (a # as) = (if p_ref (the (B a)) = 1 then a # doomed B as else [])"
  by (simp add: doomed_def)

lemma doomed_upd: "a \<notin> set as \<Longrightarrow> doomed (B(a := x)) as = doomed B as"
  unfolding doomed_def by (rule takeWhile_cong) auto

lemma set_doomed: "set (doomed B as) \<subseteq> set as"
  unfolding doomed_def by (auto dest: set_takeWhileD)

lemma after_free_Cons:
  assumes "a \<notin> set as" "B a = Some b"
  shows "after_free B (a # as) = (if p_ref b = 1 then after_free (B(a := None)) as
    else B(a \<mapsto> b\<lparr>p_ref := p_ref b - 1\<rparr>))"
proof (rule ext)
  fix x
  show "after_free B (a # as) x = (if p_ref b = 1 then after_free (B(a := None)) as
    else B(a \<mapsto> b\<lparr>p_ref := p_ref b - 1\<rparr>)) x"
  proof (cases "p_ref b = 1")
    case True
    have "doomed (B(a := None)) as = doomed B as" by (rule doomed_upd [OF assms(1)])
    moreover have "x = a \<Longrightarrow> drop (length (doomed B as)) as \<noteq> [] \<Longrightarrow> as ! length (doomed B as) \<noteq> a"
      using assms(1) by (metis drop_eq_Nil linorder_not_le nth_mem)
    ultimately show ?thesis
      using True assms set_doomed [of B as] by (auto simp: after_free_def doomed_Cons)
  next
    case False
    then show ?thesis using assms by (auto simp: after_free_def doomed_Cons)
  qed
qed

lemma pbuf_free_loop_spec:
  assumes "pinv s" "pchain (ps_bufs s) p as" "\<forall>a \<in> set as. p_ref (the (ps_bufs s a)) \<noteq> 0"
  shows "\<exists>s'. pbuf_free_loop p count s = Some (count + of_nat (length (doomed (ps_bufs s) as)), s')
    \<and> pinv s' \<and> ps_bufs s' = after_free (ps_bufs s) as \<and> ps_mem s' = ps_mem s"
  using assms
proof (induction as arbitrary: p count s)
  case Nil
  then show ?case by (subst pbuf_free_loop.simps) (auto simp: doomed_def after_free_def)
next
  case (Cons a as)
  let ?B = "ps_bufs s"
  obtain b where p: "p = Some a" and b: "?B a = Some b" and ch: "pchain ?B (p_next b) as"
    using Cons.prems(2) by auto
  have na: "a \<notin> set as" using pchain_distinct [OF Cons.prems(2)] by simp
  let ?s = "s\<lparr>ps_bufs := ?B(a \<mapsto> b\<lparr>p_ref := p_ref b - 1\<rparr>)\<rparr>"
  have pi: "pinv ?s" by (rule pinv_fields [OF Cons.prems(1) b]) simp_all
  show ?case
  proof (cases "p_ref b = 1")
    case True
    have sb: "ps_bufs ?s a = Some (b\<lparr>p_ref := p_ref b - 1\<rparr>)" by simp
    from release_ok [OF pi sb] obtain s' where s':
      "pbuf_release a (pbuf_get_allocsrc b) ?s = Some s'" "pinv s'" "ps_bufs s' = ?B(a := None)"
      "ps_mem s' = ps_mem s" by (auto simp: pbuf_get_allocsrc_def)
    have "pchain (ps_bufs s') (p_next b) as" using ch na s'(3) by simp
    moreover have "\<forall>x \<in> set as. p_ref (the (ps_bufs s' x)) \<noteq> 0"
      using Cons.prems(3) na s'(3) by auto
    ultimately obtain s'' where "pbuf_free_loop (p_next b) (count + 1) s'
        = Some (count + 1 + of_nat (length (doomed (ps_bufs s') as)), s'')"
      "pinv s''" "ps_bufs s'' = after_free (ps_bufs s') as" "ps_mem s'' = ps_mem s"
      using Cons.IH [OF s'(2), of "p_next b" "count + 1"] s'(4) by auto
    then show ?thesis
      using True b s' na
      by (subst pbuf_free_loop.simps)
        (simp add: p Let_def doomed_Cons doomed_upd after_free_Cons algebra_simps)
  next
    case False
    then have "p_ref b - 1 \<noteq> 0" by simp
    with False pi b na show ?thesis
      by (subst pbuf_free_loop.simps) (simp add: p Let_def doomed_Cons after_free_Cons)
  qed
qed

section \<open>Allocation gives fresh pbufs\<close>

definition new_pbuf :: "nat \<Rightarrow> u16 \<Rightarrow> u16 \<Rightarrow> pbuf_type \<Rightarrow> pbuf" where
  "new_pbuf payload tot_len len type =
     \<lparr>p_next = None, p_payload = payload, p_tot_len = tot_len, p_len = len,
      p_type_internal = pbuf_type_internal type, p_flags = 0, p_ref = 1, p_if_idx = 0\<rparr>"

lemma init_alloced_eq:
  "pbuf_init_alloced_pbuf q payload tot len type 0 s = s\<lparr>ps_bufs := (ps_bufs s)(q \<mapsto> new_pbuf payload tot len type)\<rparr>"
  by (simp add: pbuf_init_alloced_pbuf_def new_pbuf_def)

lemma new_pbuf_allocsrc:
  "pbuf_get_allocsrc (new_pbuf payload tot len type)
    = (case type of PBUF_RAM \<Rightarrow> 0x00 | PBUF_ROM \<Rightarrow> 0x01 | PBUF_REF \<Rightarrow> 0x01 | PBUF_POOL \<Rightarrow> 0x02)"
  by (cases type) (simp_all add: pbuf_get_allocsrc_def new_pbuf_def PBUF_TYPE_ALLOC_SRC_MASK_def)

lemma pinv_at_facts:
  assumes "pinv_at s bs hp hq"
  shows "heap_inv (ps_heap s) bs" "length (ps_pools s) = 7"
    "layout_ok (ps_ram s) (fst (ps_pools s ! MEMP_PBUF)) (fst (ps_pools s ! MEMP_PBUF_POOL))"
    "memp.pool_inv (memp_elems (fst (ps_pools s ! MEMP_PBUF))) (snd (ps_pools s ! MEMP_PBUF)) hp"
    "memp.pool_inv (memp_elems (fst (ps_pools s ! MEMP_PBUF_POOL))) (snd (ps_pools s ! MEMP_PBUF_POOL)) hq"
    "set hp \<subseteq> set (memp_elems (fst (ps_pools s ! MEMP_PBUF)))"
    "set hq \<subseteq> set (memp_elems (fst (ps_pools s ! MEMP_PBUF_POOL)))"
    "accounted (ps_ram s) (ps_bufs s) bs hp hq"
  using assms by (auto simp: pinv_at_def memp.pool_inv_def)

text \<open>An address the allocators have not handed out carries no pbuf.\<close>

lemma fresh_ref:
  assumes i: "pinv_at s bs hp hq" and q: "q \<in> set (memp_elems (fst (ps_pools s ! MEMP_PBUF)))" "q \<notin> set hp"
  shows "ps_bufs s q = None"
proof (rule ccontr)
  assume "ps_bufs s q \<noteq> None"
  then obtain b where "placed s bs hp hq q b" using i by (auto simp: pinv_at_def)
  moreover have "linked (h_ram (ps_heap s)) 0 bs MEM_SIZE_ALIGNED"
    using pinv_at_facts(1) [OF i] by (simp add: heap_inv_def links_def)
  ultimately show False
    using q pinv_at_facts(3,7) [OF i] allocs_bounds [of "h_ram (ps_heap s)" 0 bs MEM_SIZE_ALIGNED]
    unfolding placed_def layout_ok_def SIZEOF_STRUCT_PBUF_def by (fastforce split: if_splits)
qed

lemma fresh_pool:
  assumes i: "pinv_at s bs hp hq" and q: "q \<in> set (memp_elems (fst (ps_pools s ! MEMP_PBUF_POOL)))" "q \<notin> set hq"
  shows "ps_bufs s q = None"
proof (rule ccontr)
  assume "ps_bufs s q \<noteq> None"
  then obtain b where "placed s bs hp hq q b" using i by (auto simp: pinv_at_def)
  moreover have "linked (h_ram (ps_heap s)) 0 bs MEM_SIZE_ALIGNED"
    using pinv_at_facts(1) [OF i] by (simp add: heap_inv_def links_def)
  ultimately show False
    using q pinv_at_facts(3,6) [OF i] allocs_bounds [of "h_ram (ps_heap s)" 0 bs MEM_SIZE_ALIGNED]
    unfolding placed_def layout_ok_def SIZEOF_STRUCT_PBUF_def by (fastforce split: if_splits)
qed

lemma fresh_ram:
  assumes i: "pinv_at s bs hp hq" and k: "\<forall>e. (k, e) \<notin> heap_allocs bs" "k < MEM_SIZE_ALIGNED"
  shows "ps_bufs s (ps_ram s + k) = None"
proof (rule ccontr)
  assume "ps_bufs s (ps_ram s + k) \<noteq> None"
  then obtain b where "placed s bs hp hq (ps_ram s + k) b" using i by (auto simp: pinv_at_def)
  then show False
    using k pinv_at_facts(3,6,7) [OF i]
    unfolding placed_def layout_ok_def SIZEOF_STRUCT_PBUF_def by (fastforce split: if_splits)
qed

lemma placed_upd:
  assumes "pinv_at s bs hp hq" "placed s bs' hp' hq' q b" "heap_allocs bs \<subseteq> heap_allocs bs'"
    "set hp \<subseteq> set hp'" "set hq \<subseteq> set hq'" "((ps_bufs s)(q \<mapsto> b)) a' = Some b'"
  shows "placed s bs' hp' hq' a' b'"
  using assms placed_mono [of s bs hp hq a' b' hp' hq' bs'] by (auto simp: pinv_at_def split: if_splits)

text \<open>Taking an element from one of the two pbuf pools.\<close>

lemma pool_take:
  assumes i: "pinv_at s bs hp hq" and ty: "ty = MEMP_PBUF \<or> ty = MEMP_PBUF_POOL"
  shows "case memp_malloc ty (ps_pools s) of
      (None, pools) \<Rightarrow> pools = ps_pools s
    | (Some q, pools) \<Rightarrow> ps_bufs s q = None \<and> length pools = 7
        \<and> (\<forall>j. fst (pools ! j) = fst (ps_pools s ! j))
        \<and> memp.pool_inv (memp_elems (fst (ps_pools s ! MEMP_PBUF))) (snd (pools ! MEMP_PBUF))
            (if ty = MEMP_PBUF then q # hp else hp)
        \<and> memp.pool_inv (memp_elems (fst (ps_pools s ! MEMP_PBUF_POOL))) (snd (pools ! MEMP_PBUF_POOL))
            (if ty = MEMP_PBUF then hq else q # hq)"
proof -
  let ?st = "ps_pools s"
  note f = pinv_at_facts [OF i]
  have t: "ty < length ?st" using f(2) ty by (auto simp: memp_idx)
  obtain m p' where mp: "do_memp_malloc_pool (snd (?st ! ty)) = (m, p')" by fastforce
  show ?thesis
  proof (cases m)
    case None
    have "p' = snd (?st ! ty)"
      using memp.alloc_None_same [OF f(4)] memp.alloc_None_same [OF f(5)] mp None ty by blast
    then show ?thesis
      using None mp by (simp add: memp_malloc_same [OF t] list_update_same_conv t)
  next
    case (Some q)
    from ty show ?thesis
    proof
      assume ty: "ty = MEMP_PBUF"
      note a = memp.alloc_inv [OF f(4) mp [unfolded Some ty]]
      show ?thesis
        using fresh_ref [OF i a(2,3)] a(1) f(2,5) mp Some t
        unfolding ty by (simp add: memp_malloc_same nth_list_update memp_idx)
    next
      assume ty: "ty = MEMP_PBUF_POOL"
      note a = memp.alloc_inv [OF f(5) mp [unfolded Some ty]]
      show ?thesis
        using fresh_pool [OF i a(2,3)] a(1) f(2,4) mp Some t
        unfolding ty by (simp add: memp_malloc_same nth_list_update memp_idx)
    qed
  qed
qed

lemma alloc_reference_spec:
  assumes "pinv s" "type = PBUF_ROM \<or> type = PBUF_REF"
  shows "case pbuf_alloc_reference payload len type s of
      (None, s') \<Rightarrow> s' = s
    | (Some q, s') \<Rightarrow> pinv s' \<and> ps_bufs s q = None \<and> ps_mem s' = ps_mem s
        \<and> ps_bufs s' = (ps_bufs s)(q \<mapsto> new_pbuf payload len len type)"
proof -
  obtain bs hp hq where i: "pinv_at s bs hp hq" using assms(1) by (auto simp: pinv_def)
  obtain m pools where mp: "memp_malloc MEMP_PBUF (ps_pools s) = (m, pools)" by fastforce
  note pt = pool_take [OF i disjI1 [OF refl]]
  show ?thesis
  proof (cases m)
    case None
    then show ?thesis using pt mp by (simp add: pbuf_alloc_reference_def)
  next
    case (Some q)
    let ?b = "new_pbuf payload len len type"
    have "placed s bs (q # hp) hq q ?b"
      using assms(2) by (auto simp: placed_def new_pbuf_allocsrc)
    have acc: "ps_bufs s q = None \<Longrightarrow> accounted (ps_ram s) ((ps_bufs s)(q \<mapsto> ?b)) bs (q # hp) hq"
      using accounted_new(2) [OF pinv_at_facts(8) [OF i]] assms(2) by (auto simp: new_pbuf_allocsrc)
    from \<open>placed s bs (q # hp) hq q ?b\<close>
    have pl: "placed s bs (q # hp) hq a' b'" if "((ps_bufs s)(q \<mapsto> ?b)) a' = Some b'" for a' b'
      by (rule placed_upd [OF i _ _ _ _ that]) auto
    have "pinv_at (s\<lparr>ps_bufs := (ps_bufs s)(q \<mapsto> ?b), ps_heap := ps_heap s, ps_pools := pools\<rparr>) bs (q # hp) hq"
      by (rule pinv_bufs [OF i pinv_at_facts(1) [OF i]]) (use pt mp Some pl acc in \<open>auto\<close>)
    then have "pinv (s\<lparr>ps_pools := pools, ps_bufs := (ps_bufs s)(q \<mapsto> ?b)\<rparr>)"
      by (intro pinv_atI) (cases s, simp)
    then show ?thesis
      using pt mp Some by (simp add: pbuf_alloc_reference_def init_alloced_eq)
  qed
qed

lemma alloc_ram_spec:
  assumes "pinv s" and off: "off = pbuf_layer_offset layer"
  shows "\<exists>p s'. pbuf_alloc layer len PBUF_RAM s = Some (p, s') \<and> pinv s' \<and> ps_mem s' = ps_mem s
    \<and> (case p of None \<Rightarrow> ps_bufs s' = ps_bufs s
       | Some q \<Rightarrow> ps_bufs s q = None
           \<and> ps_bufs s' = (ps_bufs s)(q \<mapsto> new_pbuf (q + SIZEOF_STRUCT_PBUF + off) len len PBUF_RAM))"
proof -
  obtain bs hp hq where i: "pinv_at s bs hp hq" using assms(1) by (auto simp: pinv_def)
  note f = pinv_at_facts [OF i]
  have o54: "off \<le> 54" unfolding off by (cases layer) simp_all
  let ?n = "SIZEOF_STRUCT_PBUF + (off + unat len)"
  have u: "unat len < 65536" by (rule unat_u16_less)
  have al: "pbuf_alloc layer len PBUF_RAM s = do {
      (p, h) \<leftarrow> mem_malloc (ps_heap s) ?n;
      let s = s\<lparr>ps_heap := h\<rparr>;
      case p of None \<Rightarrow> Some (None, s)
      | Some k \<Rightarrow> (let q = ps_ram s + k
          in Some (Some q, pbuf_init_alloced_pbuf q (q + SIZEOF_STRUCT_PBUF + off) len len PBUF_RAM 0 s)) }"
    using o54 u unfolding pbuf_alloc_def Let_def off [symmetric] by (simp add: SIZEOF_STRUCT_PBUF_def)
  have "0 < ?n" by (simp add: SIZEOF_STRUCT_PBUF_def)
  from f(1) this show ?thesis
  proof (cases rule: mem_malloc_cases)
    case none
    then show ?thesis using al assms(1) by simp
  next
    case (some k e h' bs')
    note e = some(3-6)
    let ?q = "ps_ram s + k" let ?b = "new_pbuf (?q + SIZEOF_STRUCT_PBUF + off) len len PBUF_RAM"
    have "\<forall>e'. (k, e') \<notin> heap_allocs bs"
    proof (intro allI notI)
      fix e' assume a: "(k, e') \<in> heap_allocs bs"
      with e(4) have "e' + SIZEOF_STRUCT_MEM \<le> k \<or> e + SIZEOF_STRUCT_MEM \<le> k" by blast
      moreover have "k + 12 \<le> e'"
        using allocs_bounds [of "h_ram (ps_heap s)" 0 bs MEM_SIZE_ALIGNED k e'] f(1) a
        by (simp add: heap_inv_def links_def)
      ultimately show False using e(1) by (auto simp: SIZEOF_STRUCT_PBUF_def)
    qed
    then have fresh: "ps_bufs s ?q = None"
      using fresh_ram [OF i] e(1,2) by (simp add: SIZEOF_STRUCT_PBUF_def)
    have "placed s bs' hp hq ?q ?b"
      unfolding placed_def new_pbuf_allocsrc using e by (auto simp: new_pbuf_def)
    then have pl: "placed s bs' hp hq a' b'" if "((ps_bufs s)(?q \<mapsto> ?b)) a' = Some b'" for a' b'
      by (rule placed_upd [OF i _ _ _ _ that]) (use e(3) in auto)
    have "pinv_at (s\<lparr>ps_bufs := (ps_bufs s)(?q \<mapsto> ?b), ps_heap := h', ps_pools := ps_pools s\<rparr>) bs' hp hq"
      by (rule pinv_bufs [OF i some(2)])
        (use f pl accounted_new(1) [OF f(8) fresh _ refl e(3)] in \<open>simp_all add: new_pbuf_allocsrc\<close>)
    then have "pinv (s\<lparr>ps_heap := h', ps_bufs := (ps_bufs s)(?q \<mapsto> ?b)\<rparr>)"
      by (intro pinv_atI) (cases s, simp)
    then show ?thesis
      using some(1) al fresh by (simp add: init_alloced_eq Let_def)
  qed
qed

section \<open>Total lengths\<close>

text \<open>
  The \<open>tot_len\<close> invariant of \<open>pbuf.h\<close> along a stretch of a chain: every total is what is left
  of \<open>n\<close> bytes, and \<open>m\<close> bytes are left behind it.
\<close>

fun tots :: "(nat \<rightharpoonup> pbuf) \<Rightarrow> nat list \<Rightarrow> nat \<Rightarrow> nat \<Rightarrow> bool" where
  "tots B [] n m \<longleftrightarrow> n = m"
| "tots B (a # as) n m \<longleftrightarrow> (\<exists>b. B a = Some b \<and> unat (p_tot_len b) = n \<and> unat (p_len b) \<le> n
     \<and> tots B as (n - unat (p_len b)) m)"

lemma tots_append: "tots B (xs @ ys) n m \<longleftrightarrow> (\<exists>k. tots B xs n k \<and> tots B ys k m)"
  by (induction xs arbitrary: n) auto

lemma tots_upd [simp]: "a \<notin> set as \<Longrightarrow> tots (B(a := x)) as n m = tots B as n m"
  by (induction as arbitrary: n) auto

lemma tots_same:
  assumes "\<And>a. a \<in> set as \<Longrightarrow> map_option (\<lambda>b. (p_tot_len b, p_len b)) (B' a)
    = map_option (\<lambda>b. (p_tot_len b, p_len b)) (B a)"
  shows "tots B' as n m = tots B as n m"
  using assms
proof (induction as arbitrary: n)
  case (Cons a as)
  have a: "map_option (\<lambda>b. (p_tot_len b, p_len b)) (B' a) = map_option (\<lambda>b. (p_tot_len b, p_len b)) (B a)"
    and IH: "tots B' as k m = tots B as k m" for k
    using Cons by simp_all
  show ?case using a by (cases "B a"; cases "B' a") (simp_all add: IH)
qed simp

lemma tots_sum: "tots B as n m \<Longrightarrow> n = m + sum_list (map (\<lambda>a. unat (p_len (the (B a)))) as)"
proof (induction as arbitrary: n)
  case (Cons a as)
  then obtain b where b: "B a = Some b" "unat (p_len b) \<le> n" "tots B as (n - unat (p_len b)) m" by auto
  from Cons.IH [OF b(3)] b(1,2) show ?case by simp
qed simp

section \<open>Pool chains\<close>

definition pool_part ::
    "(nat \<rightharpoonup> pbuf) \<Rightarrow> nat option \<Rightarrow> nat option \<Rightarrow> nat list \<Rightarrow> nat \<Rightarrow> nat \<Rightarrow> bool" where
  "pool_part B p lst as n m \<longleftrightarrow>
     (if as = [] then p = None \<and> lst = None else p = Some (hd as) \<and> lst = Some (last as) \<and> pchain B p as)
     \<and> (\<forall>a \<in> set as. p_ref (the (B a)) = 1) \<and> tots B as n m"

lemma pchain_in: "pchain B p as \<Longrightarrow> a \<in> set as \<Longrightarrow> B a \<noteq> None"
  by (induction as arbitrary: p) auto

lemma pchain_snoc:
  assumes "pchain B p as" "as \<noteq> []" "q \<notin> set as" "p_next bq = None"
  shows "pchain (B(q \<mapsto> bq, last as \<mapsto> (the (B (last as)))\<lparr>p_next := Some q\<rparr>)) p (as @ [q])"
  using assms
proof (induction as arbitrary: p)
  case (Cons a as)
  have na: "a \<notin> set as" using pchain_distinct [OF Cons.prems(1)] by simp
  obtain b where b: "p = Some a" "B a = Some b" "pchain B (p_next b) as" using Cons.prems(1) by auto
  show ?case
  proof (cases "as = []")
    case True
    then show ?thesis using b Cons.prems by auto
  next
    case False
    have "last as \<noteq> a" using False na last_in_set by metis
    then show ?thesis using False b Cons.IH [OF b(3)] Cons.prems by auto
  qed
qed simp

lemma pool_part_step:
  assumes pp: "pool_part B p lst as n m" and q: "B q = None"
    and bq: "p_next bq = None" "p_ref bq = 1" "unat (p_tot_len bq) = m" "unat (p_len bq) \<le> m"
    and B': "B' = (case lst of None \<Rightarrow> B(q \<mapsto> bq) | Some l \<Rightarrow> B(q \<mapsto> bq, l \<mapsto> (the (B l))\<lparr>p_next := Some q\<rparr>))"
  shows "pool_part B' (if p = None then Some q else p) (Some q) (as @ [q]) n (m - unat (p_len bq))"
proof (cases "as = []")
  case True
  then show ?thesis using assms by (auto simp: pool_part_def)
next
  case False
  have ch: "p = Some (hd as)" "lst = Some (last as)" "pchain B p as"
    and refs: "\<forall>a \<in> set as. p_ref (the (B a)) = 1" and t: "tots B as n m"
    using pp False by (auto simp: pool_part_def)
  have nq: "q \<notin> set as" using pchain_in [OF ch(3)] q by metis
  have l: "last as \<in> set as" "last as \<noteq> q" "B (last as) \<noteq> None"
    using False nq pchain_in [OF ch(3)] last_in_set by metis+
  have B2: "B' = B(q \<mapsto> bq, last as \<mapsto> (the (B (last as)))\<lparr>p_next := Some q\<rparr>)" using B' ch(2) by simp
  have "pchain B' p (as @ [q])" unfolding B2 by (rule pchain_snoc [OF ch(3) False nq bq(1)])
  moreover have "tots B' as n m"
  proof -
    have "map_option (\<lambda>b. (p_tot_len b, p_len b)) (B' a) = map_option (\<lambda>b. (p_tot_len b, p_len b)) (B a)"
      if "a \<in> set as" for a using that nq l by (auto simp: B2)
    with t show ?thesis using tots_same by blast
  qed
  ultimately show ?thesis
    using False ch(1) refs bq l nq by (auto simp: pool_part_def tots_append B2)
qed

text \<open>The outcome of the loop, relative to the pbufs \<open>B\<close> at its start and the part \<open>as\<close> built so far.\<close>

definition pool_result ::
    "(nat \<rightharpoonup> pbuf) \<Rightarrow> nat list \<Rightarrow> nat \<Rightarrow> nat option \<Rightarrow> pbuf_state \<Rightarrow> bool" where
  "pool_result B as n r s' \<longleftrightarrow>
     (case r of
        None \<Rightarrow> ps_bufs s' = (\<lambda>a. if a \<in> set as then None else B a)
      | Some h \<Rightarrow> (\<exists>as'. as' \<noteq> [] \<and> h = hd (as @ as') \<and> pchain (ps_bufs s') (Some h) (as @ as')
          \<and> (\<forall>a \<in> set (as @ as'). p_ref (the (ps_bufs s' a)) = 1) \<and> tots (ps_bufs s') (as @ as') n 0
          \<and> (\<forall>a \<in> set as'. B a = None) \<and> (\<forall>a. a \<notin> set (as @ as') \<longrightarrow> ps_bufs s' a = B a)))"

lemma pool_exhausted:
  assumes "pinv s" "pool_part (ps_bufs s) p lst as n m"
  shows "\<exists>c s'. pbuf_free p (pbuf_pool_is_empty s) = Some (c, s') \<and> pinv s' \<and> ps_mem s' = ps_mem s
    \<and> ps_bufs s' = (\<lambda>a. if a \<in> set as then None else ps_bufs s a)"
proof -
  let ?s = "pbuf_pool_is_empty s"
  have pi: "pinv ?s"
    using assms(1) unfolding pinv_def pinv_at_def
    by (simp add: pbuf_pool_is_empty_def placed_state [of "s\<lparr>ps_free_ooseq_pending := True\<rparr>" s])
  show ?thesis
  proof (cases "as = []")
    case True
    then have "p = None" using assms(2) by (simp add: pool_part_def)
    then show ?thesis using pi True by (auto simp: pbuf_free_def pbuf_pool_is_empty_def)
  next
    case False
    then have ch: "p = Some (hd as)" "pchain (ps_bufs s) p as" "\<forall>a \<in> set as. p_ref (the (ps_bufs s a)) = 1"
      using assms(2) by (auto simp: pool_part_def)
    have d: "doomed (ps_bufs s) as = as" using ch(3) by (simp add: doomed_def)
    have "pchain (ps_bufs ?s) p as" "\<forall>a \<in> set as. p_ref (the (ps_bufs ?s a)) \<noteq> 0"
      using ch by (simp_all add: pbuf_pool_is_empty_def)
    from pbuf_free_loop_spec [OF pi this, of 0] show ?thesis
      using ch(1) d by (auto simp: pbuf_free_def after_free_def pbuf_pool_is_empty_def fun_eq_iff)
  qed
qed

lemma pool_result_extend:
  assumes "pool_result B' (as @ [q]) n r s'" "B q = None" "q \<notin> set as"
    "\<And>a. a \<notin> set as \<Longrightarrow> a \<noteq> q \<Longrightarrow> B' a = B a"
  shows "pool_result B as n r s'"
proof (cases r)
  case None
  then show ?thesis using assms by (auto simp: pool_result_def fun_eq_iff)
next
  case (Some h)
  from assms(1) obtain as' where *: "as' \<noteq> []" "h = hd (as @ q # as')" "pchain (ps_bufs s') (Some h) (as @ q # as')"
    "\<forall>a \<in> set (as @ q # as'). p_ref (the (ps_bufs s' a)) = 1" "tots (ps_bufs s') (as @ q # as') n 0"
    "\<forall>a \<in> set as'. B' a = None" "\<forall>a. a \<notin> set (as @ q # as') \<longrightarrow> ps_bufs s' a = B' a"
    by (auto simp: pool_result_def Some)
  have "distinct (as @ q # as')" by (rule pchain_distinct [OF *(3)])
  then have "\<forall>a \<in> set (q # as'). B a = None"
    using *(6) assms(2,4) by (metis distinct_append disjoint_iff set_ConsD)
  then show ?thesis
    using * assms(4) unfolding pool_result_def Some option.case by (intro exI [of _ "q # as'"]) auto
qed

lemma pool_qlen:
  fixes rem_len :: u16
  assumes "off \<le> 54"
  shows "unat (min rem_len (of_nat (PBUF_POOL_BUFSIZE - off))) = min (unat rem_len) (1600 - off)"
proof -
  have "unat (of_nat (1600 - off) :: u16) = 1600 - off"
    by (simp add: unat_of_nat take_bit_eq_mod)
  then show ?thesis by (auto simp: PBUF_POOL_BUFSIZE_def min_def word_le_nat_alt)
qed

text \<open>The elements of a pool that no live pbuf occupies, and when a request exceeds the memory at hand.\<close>

definition unused :: "nat \<Rightarrow> pbuf_state \<Rightarrow> nat set" where
  "unused ty s = {a \<in> set (memp_elems (fst (ps_pools s ! ty))). ps_bufs s a = None}"

definition out_of_memory :: "pbuf_layer \<Rightarrow> u16 \<Rightarrow> pbuf_type \<Rightarrow> pbuf_state \<Rightarrow> bool" where
  "out_of_memory layer len type s \<longleftrightarrow>
     (case type of
        PBUF_RAM \<Rightarrow> fst (the (mem_malloc (ps_heap s) (SIZEOF_STRUCT_PBUF + (pbuf_layer_offset layer + unat len)))) = None
      | PBUF_POOL \<Rightarrow> PBUF_POOL_BUFSIZE * card (unused MEMP_PBUF_POOL s) < max 1 (pbuf_layer_offset layer + unat len)
      | _ \<Rightarrow> unused MEMP_PBUF s = {})"

lemma pool_empty_unused:
  assumes pi: "pinv s" and ty: "ty = MEMP_PBUF \<or> ty = MEMP_PBUF_POOL" and none: "fst (memp_malloc ty (ps_pools s)) = None"
  shows "unused ty s = {}"
proof -
  obtain bs hp hq where i: "pinv_at s bs hp hq" using pi by (auto simp: pinv_def)
  note f = pinv_at_facts [OF i]
  have t: "ty < length (ps_pools s)" using f(2) ty by (auto simp: memp_idx)
  then have "fst (do_memp_malloc_pool (snd (ps_pools s ! ty))) = None" using none by (simp add: memp_malloc_same)
  then have "set (memp_elems (fst (ps_pools s ! ty))) = (if ty = MEMP_PBUF then set hp else set hq)"
    using memp.alloc_None_all [OF f(4)] memp.alloc_None_all [OF f(5)] ty by (auto simp: memp_idx)
  then show ?thesis using f(8) by (auto simp: unused_def accounted_def src_of_def split: if_splits)
qed

lemma unused_less:
  assumes "ps_bufs s q = None" "q \<in> set (memp_elems (fst (ps_pools s ! ty)))"
    and "fst (ps_pools s' ! ty) = fst (ps_pools s ! ty)" "ps_bufs s' q \<noteq> None"
    and "\<And>a. a \<noteq> q \<Longrightarrow> ps_bufs s' a = None \<longleftrightarrow> ps_bufs s a = None"
  shows "card (unused ty s) = Suc (card (unused ty s'))"
proof -
  have "unused ty s = insert q (unused ty s')" "q \<notin> unused ty s'"
    using assms unfolding unused_def by (auto, metis)
  moreover have "finite (unused ty s')" by (simp add: unused_def)
  ultimately show ?thesis by simp
qed

text \<open>One turn of the loop with an element at hand.\<close>

lemma pool_turn:
  assumes pi: "pinv s" and pp: "pool_part (ps_bufs s) p lst as n (unat rem_len)" and off: "off \<le> 54"
    and mm: "memp_malloc MEMP_PBUF_POOL (ps_pools s) = (Some q, pools)"
    and qlen: "qlen = min rem_len (of_nat (PBUF_POOL_BUFSIZE - off))"
  shows "\<exists>s'. (case lst of None \<Rightarrow> Some | Some l \<Rightarrow> pbuf_upd l (\<lambda>b. b\<lparr>p_next := Some q\<rparr>))
      (pbuf_init_alloced_pbuf q (q + SIZEOF_STRUCT_PBUF + off) rem_len qlen PBUF_POOL 0 (s\<lparr>ps_pools := pools\<rparr>)) = Some s'
    \<and> pinv s' \<and> ps_mem s' = ps_mem s \<and> ps_bufs s q = None
    \<and> pool_part (ps_bufs s') (if p = None then Some q else p) (Some q) (as @ [q]) n (unat (rem_len - qlen))
    \<and> (\<forall>a. a \<notin> set as \<longrightarrow> a \<noteq> q \<longrightarrow> ps_bufs s' a = ps_bufs s a)
    \<and> map_option p_payload \<circ> ps_bufs s' = (map_option p_payload \<circ> ps_bufs s)(q \<mapsto> q + SIZEOF_STRUCT_PBUF + off)
    \<and> card (unused MEMP_PBUF_POOL s) = Suc (card (unused MEMP_PBUF_POOL s'))"
proof -
  obtain bs hp hq where i: "pinv_at s bs hp hq" using pi by (auto simp: pinv_def)
  let ?b = "new_pbuf (q + SIZEOF_STRUCT_PBUF + off) rem_len qlen PBUF_POOL"
  note pt = pool_take [OF i disjI2 [OF refl], unfolded mm, simplified]
  have ql: "unat qlen = min (unat rem_len) (1600 - off)" unfolding qlen by (rule pool_qlen [OF off])
  then have le: "qlen \<le> rem_len" by (simp add: word_le_nat_alt)
  have "placed s bs hp (q # hq) q ?b"
    unfolding placed_def new_pbuf_allocsrc using ql off by (simp add: new_pbuf_def PBUF_POOL_BUFSIZE_def)
  then have pl: "placed s bs hp (q # hq) a' b'" if "((ps_bufs s)(q \<mapsto> ?b)) a' = Some b'" for a' b'
    by (rule placed_upd [OF i _ _ _ _ that]) auto
  let ?s1 = "s\<lparr>ps_pools := pools, ps_bufs := (ps_bufs s)(q \<mapsto> ?b)\<rparr>"
  have "pinv_at (s\<lparr>ps_bufs := (ps_bufs s)(q \<mapsto> ?b), ps_heap := ps_heap s, ps_pools := pools\<rparr>) bs hp (q # hq)"
    by (rule pinv_bufs [OF i pinv_at_facts(1) [OF i]])
      (use pt pl accounted_new(3) [OF pinv_at_facts(8) [OF i]] in \<open>auto simp: memp_idx new_pbuf_allocsrc\<close>)
  then have p1: "pinv ?s1" by (intro pinv_atI) (cases s, simp)
  have q: "ps_bufs s q = None" using pt by simp
  have pb: "p_payload ?b = q + SIZEOF_STRUCT_PBUF + off" by (simp add: new_pbuf_def)
  have "q \<in> set (memp_elems (fst (ps_pools s ! MEMP_PBUF_POOL)))"
    using pt by (auto simp: memp.pool_inv_def memp_idx)
  then have fewer: "card (unused MEMP_PBUF_POOL s) = Suc (card (unused MEMP_PBUF_POOL s'))"
    if "ps_pools s' = pools" "ps_bufs s' q \<noteq> None" "\<And>a. a \<noteq> q \<Longrightarrow> ps_bufs s' a = None \<longleftrightarrow> ps_bufs s a = None" for s'
    using unused_less [of s q MEMP_PBUF_POOL s'] pt that by simp
  have step: "pool_part B' (if p = None then Some q else p) (Some q) (as @ [q]) n (unat (rem_len - qlen))"
    if "B' = (case lst of None \<Rightarrow> (ps_bufs s)(q \<mapsto> ?b)
        | Some l \<Rightarrow> (ps_bufs s)(q \<mapsto> ?b, l \<mapsto> (the (ps_bufs s l))\<lparr>p_next := Some q\<rparr>))" for B'
    using pool_part_step [OF pp q, of ?b B'] that ql le by (simp add: new_pbuf_def unat_sub)
  show ?thesis
  proof (cases lst)
    case None
    then show ?thesis using p1 q step pb fewer [of ?s1] by (auto simp: init_alloced_eq fun_eq_iff)
  next
    case (Some l)
    then have "as \<noteq> []" "l = last as" "pchain (ps_bufs s) p as" using pp by (auto simp: pool_part_def split: if_splits)
    then have l: "l \<in> set as" "ps_bufs s l \<noteq> None" using pchain_in [of "ps_bufs s" p as l] by auto
    then obtain bl where bl: "ps_bufs s l = Some bl" by auto
    have lq: "l \<noteq> q" using l(2) q by auto
    let ?s2 = "?s1\<lparr>ps_bufs := (ps_bufs ?s1)(l \<mapsto> bl\<lparr>p_next := Some q\<rparr>)\<rparr>"
    have "pinv ?s2" by (rule pinv_fields [OF p1, of l bl]) (use bl lq in simp_all)
    moreover have "pbuf_upd l (\<lambda>b. b\<lparr>p_next := Some q\<rparr>) ?s1 = Some ?s2" using bl lq by (simp add: pbuf_upd_def)
    ultimately show ?thesis
      using step [of "ps_bufs ?s2"] q Some bl lq l(1) pb fewer [of ?s2] by (auto simp: init_alloced_eq fun_eq_iff)
  qed
qed

text \<open>The loop fails only when the free elements cannot hold the rest; the first pbuf has the headroom asked for.\<close>

definition pool_room :: "nat option \<Rightarrow> nat \<Rightarrow> nat \<Rightarrow> nat option \<Rightarrow> pbuf_state \<Rightarrow> pbuf_state \<Rightarrow> bool" where
  "pool_room p off n r s s' \<longleftrightarrow>
     (case r of
        None \<Rightarrow> PBUF_POOL_BUFSIZE * card (unused MEMP_PBUF_POOL s) < max 1 (off + n)
      | Some h \<Rightarrow> map_option p_payload (ps_bufs s' h) =
          (if p = None then Some (h + SIZEOF_STRUCT_PBUF + off) else map_option p_payload (ps_bufs s h)))"

lemma pool_room_step:
  assumes pp: "pool_part (ps_bufs s) p lst as n m" and q: "ps_bufs s q = None"
    and pay: "map_option p_payload \<circ> ps_bufs s1 = (map_option p_payload \<circ> ps_bufs s)(q \<mapsto> q + SIZEOF_STRUCT_PBUF + off)"
    and fewer: "card (unused MEMP_PBUF_POOL s) = Suc (card (unused MEMP_PBUF_POOL s1))"
    and rest: "k' < k" "k - k' = 1600 - off" "0 < k'" "off \<le> 54"
    and room: "pool_room (if p = None then Some q else p) 0 k' r s1 s'" and res: "pool_result B (as @ [q]) n' r s'"
  shows "pool_room p off k r s s'"
proof (cases r)
  case None
  then show ?thesis using room fewer rest by (auto simp: pool_room_def PBUF_POOL_BUFSIZE_def)
next
  case (Some h)
  have "h = hd (as @ [q])" using res Some by (auto simp: pool_result_def hd_append)
  moreover have "p = None \<longleftrightarrow> as = []" "as \<noteq> [] \<Longrightarrow> ps_bufs s (hd as) \<noteq> None"
    using pp pchain_in [of "ps_bufs s" p as "hd as"] by (auto simp: pool_part_def split: if_splits)
  ultimately show ?thesis using room q fun_cong [OF pay, of h] Some by (auto simp: pool_room_def split: if_splits)
qed

lemma alloc_pool_spec:
  assumes "pinv s" "pool_part (ps_bufs s) p lst as n (unat rem_len)" "off \<le> 54"
  shows "\<exists>r s'. pbuf_alloc_pool p lst rem_len off s = Some (r, s') \<and> pinv s' \<and> ps_mem s' = ps_mem s
    \<and> pool_result (ps_bufs s) as n r s'
    \<and> pool_room p off (unat rem_len) r s s'"
  using assms
proof (induction "unat rem_len" arbitrary: p lst rem_len off s as rule: less_induct)
  case less
  obtain m pools where mm: "memp_malloc MEMP_PBUF_POOL (ps_pools s) = (m, pools)" by fastforce
  show ?case
  proof (cases m)
    case None
    obtain bs hp hq where "pinv_at s bs hp hq" using less.prems(1) by (auto simp: pinv_def)
    from pool_take [OF this disjI2 [OF refl]] have "pools = ps_pools s" using mm None by simp
    moreover have "unused MEMP_PBUF_POOL s = {}" using mm None by (intro pool_empty_unused [OF less.prems(1)]) simp_all
    ultimately show ?thesis using pool_exhausted [OF less.prems(1,2)]
      by (subst pbuf_alloc_pool.simps) (auto simp: mm None Let_def pool_result_def pool_room_def)
  next
    case (Some q)
    let ?qlen = "min rem_len (of_nat (PBUF_POOL_BUFSIZE - off))"
    obtain s' where s': "(case lst of None \<Rightarrow> Some | Some l \<Rightarrow> pbuf_upd l (\<lambda>b. b\<lparr>p_next := Some q\<rparr>))
        (pbuf_init_alloced_pbuf q (q + SIZEOF_STRUCT_PBUF + off) rem_len ?qlen PBUF_POOL 0 (s\<lparr>ps_pools := pools\<rparr>)) = Some s'"
      "pinv s'" "ps_mem s' = ps_mem s" "ps_bufs s q = None"
      "pool_part (ps_bufs s') (if p = None then Some q else p) (Some q) (as @ [q]) n (unat (rem_len - ?qlen))"
      "\<And>a. a \<notin> set as \<Longrightarrow> a \<noteq> q \<Longrightarrow> ps_bufs s' a = ps_bufs s a"
      "map_option p_payload \<circ> ps_bufs s' = (map_option p_payload \<circ> ps_bufs s)(q \<mapsto> q + SIZEOF_STRUCT_PBUF + off)"
      "card (unused MEMP_PBUF_POOL s) = Suc (card (unused MEMP_PBUF_POOL s'))"
      using pool_turn [OF less.prems mm [unfolded Some] refl] by blast
    have nq: "q \<notin> set as" using less.prems(2) s'(4) pchain_in
      unfolding pool_part_def by (metis empty_iff list.set(1))
    note unfold = pbuf_alloc_pool.simps [of p lst rem_len off s]
    have eq: "pbuf_alloc_pool p lst rem_len off s =
      (if rem_len - ?qlen > 0 then pbuf_alloc_pool (if p = None then Some q else p) (Some q) (rem_len - ?qlen) 0 s'
       else Some (if p = None then Some q else p, s'))"
      using s'(1) by (subst unfold) (cases lst; simp add: mm Some Let_def)
    show ?thesis
    proof (cases "rem_len - ?qlen > 0")
      case True
      have ql: "unat ?qlen = min (unat rem_len) (1600 - off)" by (rule pool_qlen [OF less.prems(3)])
      have "unat (rem_len - ?qlen) = unat rem_len - unat ?qlen" by (rule unat_sub) simp
      then have rest: "unat (rem_len - ?qlen) < unat rem_len" "unat rem_len - unat (rem_len - ?qlen) = 1600 - off" "0 < unat (rem_len - ?qlen)"
        using True ql less.prems(3) by (simp_all add: word_less_nat_alt)
      from less.hyps [OF rest(1) s'(2,5), of 0] obtain r s'' where "pbuf_alloc_pool (if p = None then Some q else p) (Some q) (rem_len - ?qlen) 0 s' = Some (r, s'')"
        "pinv s''" "ps_mem s'' = ps_mem s'" "pool_result (ps_bufs s') (as @ [q]) n r s''"
        "pool_room (if p = None then Some q else p) 0 (unat (rem_len - ?qlen)) r s' s''" by auto
      moreover have "pool_room p off (unat rem_len) r s s''"
        by (rule pool_room_step [OF less.prems(2) s'(4,7,8) rest less.prems(3) calculation(5,4)])
      ultimately show ?thesis using pool_result_extend [of "ps_bufs s'" as q n r s'' "ps_bufs s"] s'(4) nq s'(6)
          eq True s'(3) by auto
    next
      case False
      then have z: "rem_len - ?qlen = 0" by (simp add: word_gt_0)
      have hd: "(if p = None then Some q else p) = Some (hd (as @ [q]))"
        and ch: "pchain (ps_bufs s') (Some (hd (as @ [q]))) (as @ [q])"
        using s'(5) by (auto simp: pool_part_def split: if_splits)
      have "pool_result (ps_bufs s) as n (Some (hd (as @ [q]))) s'"
        unfolding pool_result_def option.case using s'(4,5,6) ch z
        by (intro exI [of _ "[q]"]) (auto simp: pool_part_def)
      moreover have "pool_room p off (unat rem_len) (Some (hd (as @ [q]))) s s'"
        using hd fun_cong [OF s'(7), of "hd (as @ [q])"] less.prems(2) s'(4) nq
        by (auto simp: pool_room_def pool_part_def split: if_splits)
      ultimately show ?thesis using eq False hd s'(2,3) by auto
    qed
  qed
qed

lemma pbuf_alloc_spec:
  assumes "pinv s"
  shows "\<exists>r s'. pbuf_alloc layer len type s = Some (r, s') \<and> pinv s' \<and> ps_mem s' = ps_mem s
    \<and> (case r of
         None \<Rightarrow> ps_bufs s' = ps_bufs s
       | Some h \<Rightarrow> \<exists>as. pchain (ps_bufs s') (Some h) as \<and> tots (ps_bufs s') as (unat len) 0
           \<and> (\<forall>a \<in> set as. ps_bufs s a = None \<and> p_ref (the (ps_bufs s' a)) = 1)
           \<and> (\<forall>a. a \<notin> set as \<longrightarrow> ps_bufs s' a = ps_bufs s a))"
proof -
  have single: "\<exists>as. pchain ((ps_bufs s)(q \<mapsto> new_pbuf pl len len type)) (Some q) as
      \<and> tots ((ps_bufs s)(q \<mapsto> new_pbuf pl len len type)) as (unat len) 0
      \<and> (\<forall>a \<in> set as. ps_bufs s a = None \<and> p_ref (the (((ps_bufs s)(q \<mapsto> new_pbuf pl len len type)) a)) = 1)
      \<and> (\<forall>a. a \<notin> set as \<longrightarrow> ((ps_bufs s)(q \<mapsto> new_pbuf pl len len type)) a = ps_bufs s a)"
    if "ps_bufs s q = None" for q pl type
    using that by (intro exI [of _ "[q]"]) (auto simp: new_pbuf_def)
  consider (ref) "type = PBUF_ROM \<or> type = PBUF_REF" | (ram) "type = PBUF_RAM" | (pool) "type = PBUF_POOL"
    by (cases type) auto
  then show ?thesis
  proof cases
    case ref
    obtain r s' where rs: "pbuf_alloc_reference 0 len type s = (r, s')" by fastforce
    have "pbuf_alloc layer len type s = Some (r, s')" using ref rs by (auto simp: pbuf_alloc_def Let_def)
    moreover have "pinv s' \<and> ps_mem s' = ps_mem s" "r = None \<Longrightarrow> s' = s"
      "\<And>q. r = Some q \<Longrightarrow> ps_bufs s q = None \<and> ps_bufs s' = (ps_bufs s)(q \<mapsto> new_pbuf 0 len len type)"
      using alloc_reference_spec [OF assms ref, of 0 len] assms rs by (auto split: option.splits)
    ultimately show ?thesis using single [of _ 0 type] by (cases r) auto
  next
    case ram
    from alloc_ram_spec [OF assms refl, of layer len] obtain r s' where
      *: "pbuf_alloc layer len type s = Some (r, s')" "pinv s'" "ps_mem s' = ps_mem s"
        "case r of None \<Rightarrow> ps_bufs s' = ps_bufs s | Some q \<Rightarrow> ps_bufs s q = None
          \<and> ps_bufs s' = (ps_bufs s)(q \<mapsto> new_pbuf (q + SIZEOF_STRUCT_PBUF + pbuf_layer_offset layer) len len PBUF_RAM)"
      unfolding ram by blast
    then show ?thesis using single [of _ _ PBUF_RAM] by (cases r) auto
  next
    case pool
    have "pbuf_layer_offset layer \<le> 54" by (cases layer) simp_all
    moreover have "pool_part (ps_bufs s) None None [] (unat len) (unat len)" by (simp add: pool_part_def)
    ultimately obtain r s' where "pbuf_alloc layer len type s = Some (r, s')" "pinv s'" "ps_mem s' = ps_mem s"
      "pool_result (ps_bufs s) [] (unat len) r s'"
      using alloc_pool_spec [OF assms] pool by (fastforce simp: pbuf_alloc_def)
    then show ?thesis by (cases r) (auto simp: pool_result_def)
  qed
qed

lemma pbuf_alloc_room:
  assumes pi: "pinv s" and al: "pbuf_alloc layer len type s = Some (r, s')"
  shows "case r of None \<Rightarrow> out_of_memory layer len type s
    | Some h \<Rightarrow> map_option p_payload (ps_bufs s' h) =
        Some (if type = PBUF_ROM \<or> type = PBUF_REF then 0 else h + SIZEOF_STRUCT_PBUF + pbuf_layer_offset layer)"
proof (cases "type = PBUF_ROM \<or> type = PBUF_REF")
  case True
  then have "pbuf_alloc_reference 0 len type s = (r, s')" using al by (auto simp: pbuf_alloc_def Let_def)
  moreover have "fst (memp_malloc MEMP_PBUF (ps_pools s)) = None \<Longrightarrow> unused MEMP_PBUF s = {}"
    by (rule pool_empty_unused [OF pi]) simp_all
  ultimately show ?thesis using True
    by (auto simp: pbuf_alloc_reference_def pbuf_init_alloced_pbuf_def out_of_memory_def Let_def split: option.splits prod.splits)
next
  case False
  then consider (ram) "type = PBUF_RAM" | (pool) "type = PBUF_POOL" by (cases type) auto
  then show ?thesis
  proof cases
    case ram
    have "pbuf_layer_offset layer \<le> 54" "unat len < 65536" by (cases layer; simp) (rule unat_u16_less)
    then show ?thesis using al ram
      by (auto simp: pbuf_alloc_def Let_def SIZEOF_STRUCT_PBUF_def pbuf_init_alloced_pbuf_def out_of_memory_def bind_eq_Some_conv
          split: option.splits if_splits)
  next
    case pool
    have "pool_part (ps_bufs s) None None [] (unat len) (unat len)" by (simp add: pool_part_def)
    moreover have "pbuf_layer_offset layer \<le> 54" by (cases layer) simp_all
    ultimately show ?thesis using alloc_pool_spec [OF pi] al pool False
      by (fastforce simp: pbuf_alloc_def pool_room_def out_of_memory_def split: option.splits)
  qed
qed

text \<open>
  C31: \<open>pbuf_alloc\<close> is sound for every layer, length and type, in every state where the pbufs are
  backed by the allocators: it returns; on success the result is a chain of pbufs none of
  which was live before, each with one reference, whose lengths add up to the request
  (the \<open>tot_len\<close> invariant holds), and the payload of the first leaves the headroom of the layer
  (a ROM or REF pbuf has none yet); every other pbuf and all payload bytes are as before. It fails only when
  the memory at hand is too small (\<open>out_of_memory\<close>: \<open>mem_malloc\<close> refuses the size, no element of the pool of headers is free,
  or the free elements of the pbuf pool cannot hold headroom and data), and then it
  leaves no pbuf behind and keeps no memory, also when the pool runs dry half way:
  in either case what the heap and the pools have handed out afterwards is the memory of the
  live pbufs and nothing else.
\<close>

theorem pbuf_alloc_correct:
  assumes "pinv s"
  shows "\<exists>r s'. pbuf_alloc layer len type s = Some (r, s') \<and> pinv s' \<and> ps_mem s' = ps_mem s
    \<and> handed_out s' (dom (ps_bufs s'))
    \<and> (case r of
         None \<Rightarrow> ps_bufs s' = ps_bufs s \<and> out_of_memory layer len type s
       | Some h \<Rightarrow> \<exists>as. pchain (ps_bufs s') (Some h) as \<and> tots (ps_bufs s') as (unat len) 0
           \<and> (\<forall>a \<in> set as. ps_bufs s a = None \<and> p_ref (the (ps_bufs s' a)) = 1)
           \<and> (\<forall>a. a \<notin> set as \<longrightarrow> ps_bufs s' a = ps_bufs s a)
           \<and> map_option p_payload (ps_bufs s' h) =
               Some (if type = PBUF_ROM \<or> type = PBUF_REF then 0 else h + SIZEOF_STRUCT_PBUF + pbuf_layer_offset layer))"
proof -
  from pbuf_alloc_spec [OF assms, of layer len type] obtain r s' where
    "pbuf_alloc layer len type s = Some (r, s')" "pinv s'" "ps_mem s' = ps_mem s" and
    "case r of None \<Rightarrow> ps_bufs s' = ps_bufs s
       | Some h \<Rightarrow> \<exists>as. pchain (ps_bufs s') (Some h) as \<and> tots (ps_bufs s') as (unat len) 0
           \<and> (\<forall>a \<in> set as. ps_bufs s a = None \<and> p_ref (the (ps_bufs s' a)) = 1)
           \<and> (\<forall>a. a \<notin> set as \<longrightarrow> ps_bufs s' a = ps_bufs s a)" by blast
  with pbuf_alloc_room [OF assms this(1)] pinv_handed_out [OF this(2)] show ?thesis
    by (intro exI [of _ r] exI [of _ s']) (cases r; simp; blast)
qed

text \<open>A state with nothing allocated yet, as after \<open>lwip_init\<close>.\<close>

definition demo_pools :: memp_state where
  "demo_pools = (let d = \<lambda>sz n base. \<lparr>desc_size = sz, desc_num = n, desc_base = base\<rparr>;
       p = \<lparr>mp_tab = None, mp_next = \<lambda>_. None\<rparr>
     in memp_init [(d 1 0 0, p), (d 1 0 0, p), (d 1 0 0, p), (d 1 0 0, p), (d 1 0 0, p),
       (d 24 32 2000000, p), (d 1624 64 3000000, p)])"

definition demo_state :: pbuf_state where
  "demo_state = \<lparr>ps_bufs = Map.empty, ps_mem = (\<lambda>_. 0), ps_heap = demo_heap, ps_ram = 0,
     ps_pools = demo_pools, ps_free_ooseq_pending = False\<rparr>"

lemma demo_state_pinv: "pinv demo_state"
proof -
  let ?p = "\<lparr>mp_tab = None, mp_next = \<lambda>_. None\<rparr> :: memp_pool"
  let ?dp = "\<lparr>desc_size = 24, desc_num = 32, desc_base = 2000000\<rparr> :: memp_desc"
  let ?dq = "\<lparr>desc_size = 1624, desc_num = 64, desc_base = 3000000\<rparr> :: memp_desc"
  have pools: "demo_pools ! MEMP_PBUF = (?dp, memp_init_pool ?dp ?p)"
    "demo_pools ! MEMP_PBUF_POOL = (?dq, memp_init_pool ?dq ?p)" "length demo_pools = 7"
    by (simp_all add: demo_pools_def memp_init_def memp_idx Let_def)
  have "layout_ok 0 ?dp ?dq"
    by (auto simp: layout_ok_def memp_elems_def SIZEOF_STRUCT_PBUF_def PBUF_POOL_BUFSIZE_def MEM_SIZE_ALIGNED_def)
  moreover have "memp.pool_inv (memp_elems ?dp) (memp_init_pool ?dp ?p) []"
    "memp.pool_inv (memp_elems ?dq) (memp_init_pool ?dq ?p) []"
    by (rule memp_reach_inv [OF memp_reach.init]; simp)+
  ultimately have "pinv_at demo_state [(0, False)] [] []"
    using demo_heap_inv pools by (simp add: pinv_at_def demo_state_def accounted_def)
  then show ?thesis by (rule pinv_atI)
qed

theorem pbuf_alloc_correct_witness:
  "\<exists>h s'. pbuf_alloc PBUF_RAW 3000 PBUF_POOL demo_state = Some (Some h, s') \<and> pinv s' \<and> handed_out s' (dom (ps_bufs s'))"
proof -
  have "fst (demo_pools ! MEMP_PBUF_POOL) = \<lparr>desc_size = 1624, desc_num = 64, desc_base = 3000000\<rparr>"
    by (simp add: demo_pools_def memp_init_def memp_idx Let_def)
  moreover have "card (set (memp_elems \<lparr>desc_size = 1624, desc_num = 64, desc_base = 3000000\<rparr>)) = 64"
    by (subst distinct_card [OF distinct_memp_elems]) (simp_all add: memp_elems_def)
  ultimately have "card (unused MEMP_PBUF_POOL demo_state) = 64" by (simp add: unused_def demo_state_def)
  then have "\<not> out_of_memory PBUF_RAW 3000 PBUF_POOL demo_state" by (simp add: out_of_memory_def PBUF_POOL_BUFSIZE_def)
  then show ?thesis using pbuf_alloc_correct [OF demo_state_pinv, of PBUF_RAW 3000 PBUF_POOL] by (auto split: option.splits)
qed

lemma demo_ram:
  "\<exists>k s. pbuf_alloc PBUF_RAW 100 PBUF_RAM demo_state = Some (Some k, s) \<and> pinv s
     \<and> ps_bufs s = [k \<mapsto> new_pbuf (k + 24) 100 100 PBUF_RAM]"
proof -
  have "mem_malloc demo_heap 124 \<noteq> Some (None, demo_heap)"
  proof -
    have "first_fit (max 124 12) [(0, False)] = Some 0" by (simp add: mem_consts)
    from mem_malloc_found [OF demo_heap_inv _ refl _ this] show ?thesis by (auto simp: mem_consts)
  qed
  moreover have "(0 :: nat) < 124" by simp
  ultimately obtain k h' where k: "mem_malloc demo_heap 124 = Some (Some k, h')"
    using mem_malloc_spec [OF demo_heap_inv, of 124] by (auto split: option.splits)
  let ?s = "demo_state\<lparr>ps_heap := h', ps_bufs := [k \<mapsto> new_pbuf (k + 24) 100 100 PBUF_RAM]\<rparr>"
  have al: "pbuf_alloc PBUF_RAW 100 PBUF_RAM demo_state = Some (Some k, ?s)"
    using k by (simp add: pbuf_alloc_def demo_state_def SIZEOF_STRUCT_PBUF_def init_alloced_eq Let_def)
  have "pinv ?s" using pbuf_alloc_spec [OF demo_state_pinv, of PBUF_RAW 100 PBUF_RAM] al by auto
  with al show ?thesis by fastforce
qed

text \<open>
  C32: \<open>pbuf_free\<close> implements reference counting on chains: it drops one reference of the first
  pbuf, deallocates exactly the leading pbufs that had a single reference, drops one
  reference of the first pbuf that survives, and leaves every other pbuf and all payload
  bytes alone; it returns the number deallocated (modulo 256). The memory of the
  deallocated pbufs is back with the allocators: what the heap and the pools still have handed
  out is the memory of the pbufs that were live before, less the deallocated ones.
\<close>

theorem pbuf_free_correct:
  assumes "pinv s" "pchain (ps_bufs s) (Some p) as" "\<forall>a \<in> set as. p_ref (the (ps_bufs s a)) \<noteq> 0"
  shows "\<exists>s'. pbuf_free (Some p) s = Some (of_nat (length (doomed (ps_bufs s) as)), s') \<and> pinv s'
    \<and> handed_out s (dom (ps_bufs s)) \<and> handed_out s' (dom (ps_bufs s) - set (doomed (ps_bufs s) as))
    \<and> (\<forall>a. ps_bufs s' a =
          (if a \<in> set (doomed (ps_bufs s) as) then None
           else if length (doomed (ps_bufs s) as) < length as \<and> a = as ! length (doomed (ps_bufs s) as)
           then map_option (\<lambda>b. b\<lparr>p_ref := p_ref b - 1\<rparr>) (ps_bufs s a) else ps_bufs s a))
    \<and> ps_mem s' = ps_mem s"
proof -
  obtain s' where s': "pbuf_free (Some p) s = Some (of_nat (length (doomed (ps_bufs s) as)), s')" "pinv s'"
    "ps_bufs s' = after_free (ps_bufs s) as" "ps_mem s' = ps_mem s"
    using pbuf_free_loop_spec [OF assms, of 0] by (auto simp: pbuf_free_def)
  have "dom (ps_bufs s') = dom (ps_bufs s) - set (doomed (ps_bufs s) as)"
    by (auto simp: s'(3) after_free_def split: if_splits)
  with s' pinv_handed_out [OF assms(1)] pinv_handed_out [OF s'(2)] show ?thesis
    by (auto simp: after_free_def not_le)
qed

theorem pbuf_free_correct_witness:
  "\<exists>p s s'. pbuf_alloc PBUF_RAW 100 PBUF_RAM demo_state = Some (Some p, s)
     \<and> pbuf_free (Some p) s = Some (1, s') \<and> ps_bufs s' p = None \<and> handed_out s {p} \<and> handed_out s' {}"
proof -
  obtain k s where s: "pbuf_alloc PBUF_RAW 100 PBUF_RAM demo_state = Some (Some k, s)" "pinv s"
    "ps_bufs s = [k \<mapsto> new_pbuf (k + 24) 100 100 PBUF_RAM]" using demo_ram by blast
  have "pchain (ps_bufs s) (Some k) [k]" "\<forall>a \<in> set [k]. p_ref (the (ps_bufs s a)) \<noteq> 0" "doomed (ps_bufs s) [k] = [k]"
    using s(3) by (simp_all add: new_pbuf_def doomed_def)
  with pbuf_free_correct [OF s(2), of k "[k]"] obtain s' where
    "pbuf_free (Some k) s = Some (1, s')" "ps_bufs s' k = None" "handed_out s (dom (ps_bufs s))" "handed_out s' (dom (ps_bufs s) - {k})"
    by auto
  moreover have "dom (ps_bufs s) = {k}" by (simp add: s(3))
  ultimately show ?thesis using s(1) by (intro exI [of _ k] exI [of _ s] exI [of _ s']) simp
qed

end
