(* ===== verification/Pbuf_Data.thy ===== *)
theory Pbuf_Data
  imports Pbuf
begin

text \<open>
  The functions of \<open>Tunnel/lwip/core/pbuf.c\<close> that read and write the data of a chain, and what
  chain surgery means for the data. The reference is the flattened data of the chain: the
  bytes of its pbufs one after the other. Buffers outside the pbufs (\<open>dataptr\<close>) are byte
  lists: what a function reads from them is an argument, what it writes there is returned.
\<close>

section \<open>Operations\<close>

definition rd_bytes :: "(nat \<Rightarrow> u8) \<Rightarrow> nat \<Rightarrow> nat \<Rightarrow> u8 list" where
  "rd_bytes m a n = map m [a..<a + n]"

definition wr_bytes :: "(nat \<Rightarrow> u8) \<Rightarrow> nat \<Rightarrow> u8 list \<Rightarrow> nat \<Rightarrow> u8" where
  "wr_bytes m a xs = (\<lambda>x. if a \<le> x \<and> x < a + length xs then xs ! (x - a) else m x)"

text \<open>\<open>while ((q != NULL) && (q->len <= offset_left))\<close>\<close>

partial_function (option) pbuf_skip_const :: "pbuf_state \<Rightarrow> nat option \<Rightarrow> u16 \<Rightarrow> (nat option \<times> u16) option" where
  "pbuf_skip_const s q offset_left =
     (case q of
        None \<Rightarrow> Some (None, offset_left)
      | Some a \<Rightarrow> Option.bind (ps_bufs s a) (\<lambda>b.
          if p_len b \<le> offset_left then pbuf_skip_const s (p_next b) (offset_left - p_len b)
          else Some (q, offset_left)))"

definition pbuf_skip :: "pbuf_state \<Rightarrow> nat option \<Rightarrow> u16 \<Rightarrow> (nat option \<times> u16) option" where
  "pbuf_skip s q in_offset = pbuf_skip_const s q in_offset"

text \<open>The loop of \<open>pbuf_copy_partial\<close>; the bytes written so far are \<open>acc\<close>.\<close>

partial_function (option) pbuf_copy_loop ::
    "pbuf_state \<Rightarrow> nat option \<Rightarrow> u16 \<Rightarrow> u16 \<Rightarrow> u16 \<Rightarrow> u8 list \<Rightarrow> (u16 \<times> u8 list) option" where
  "pbuf_copy_loop s p len offset copied_total acc =
     (if len = 0 then Some (copied_total, acc)
      else case p of
        None \<Rightarrow> Some (copied_total, acc)
      | Some a \<Rightarrow> Option.bind (ps_bufs s a) (\<lambda>b.
          if offset \<noteq> 0 \<and> offset \<ge> p_len b
          then pbuf_copy_loop s (p_next b) len (offset - p_len b) copied_total acc
          else let buf_copy_len = (if p_len b - offset > len then len else p_len b - offset)
               in pbuf_copy_loop s (p_next b) (len - buf_copy_len) 0 (copied_total + buf_copy_len)
                    (acc @ rd_bytes (ps_mem s) (p_payload b + unat offset) (unat buf_copy_len))))"

definition pbuf_copy_partial :: "pbuf_state \<Rightarrow> nat option \<Rightarrow> u16 \<Rightarrow> u16 \<Rightarrow> (u16 \<times> u8 list) option" where
  "pbuf_copy_partial s buf len offset =
     (if buf = None then Some (0, []) else pbuf_copy_loop s buf len offset 0 [])"

text \<open>\<open>pbuf_get_contiguous\<close>: a pointer into the pbuf, or the bytes copied to the caller's buffer.\<close>

datatype contiguous = In_Pbuf nat | In_Buffer "u8 list"

definition pbuf_get_contiguous ::
    "pbuf_state \<Rightarrow> nat option \<Rightarrow> nat \<Rightarrow> u16 \<Rightarrow> u16 \<Rightarrow> contiguous option option" where
  "pbuf_get_contiguous s p bufsize len offset =
     (if p = None \<or> \<not> bufsize \<ge> unat len then Some None
      else do {
        (q, out_offset) \<leftarrow> pbuf_skip_const s p offset;
        case q of
          None \<Rightarrow> Some None
        | Some a \<Rightarrow> do {
            b \<leftarrow> ps_bufs s a;
            if unat (p_len b) \<ge> unat out_offset + unat len
            then Some (Some (In_Pbuf (p_payload b + unat out_offset)))
            else do {
              (n, xs) \<leftarrow> pbuf_copy_partial s q len out_offset;
              if n \<noteq> len then Some None else Some (Some (In_Buffer xs)) } } })"

text \<open>\<open>-1\<close> is \<open>None\<close>.\<close>

definition pbuf_try_get_at :: "pbuf_state \<Rightarrow> nat option \<Rightarrow> u16 \<Rightarrow> u8 option option" where
  "pbuf_try_get_at s p offset =
     do { (q, q_idx) \<leftarrow> pbuf_skip_const s p offset;
          case q of
            None \<Rightarrow> Some None
          | Some a \<Rightarrow> do {
              b \<leftarrow> ps_bufs s a;
              Some (if p_len b > q_idx then Some (ps_mem s (p_payload b + unat q_idx)) else None) } }"

definition pbuf_get_at :: "pbuf_state \<Rightarrow> nat option \<Rightarrow> u16 \<Rightarrow> u8 option" where
  "pbuf_get_at s p offset =
     do { ret \<leftarrow> pbuf_try_get_at s p offset;
          Some (case ret of Some x \<Rightarrow> x | None \<Rightarrow> 0) }"

definition pbuf_put_at :: "nat option \<Rightarrow> u16 \<Rightarrow> u8 \<Rightarrow> pbuf_state \<Rightarrow> pbuf_state option" where
  "pbuf_put_at p offset d s =
     do { (q, q_idx) \<leftarrow> pbuf_skip s p offset;
          case q of
            None \<Rightarrow> Some s
          | Some a \<Rightarrow> do {
              b \<leftarrow> ps_bufs s a;
              Some (if p_len b > q_idx
                    then s\<lparr>ps_mem := (ps_mem s)(p_payload b + unat q_idx := d)\<rparr> else s) } }"

text \<open>The comparison loop, with the bytes of \<open>s2\<close> still to compare.\<close>

fun pbuf_memcmp_loop :: "pbuf_state \<Rightarrow> nat option \<Rightarrow> u16 \<Rightarrow> nat \<Rightarrow> u8 list \<Rightarrow> u16 option" where
  "pbuf_memcmp_loop s q start i [] = Some 0"
| "pbuf_memcmp_loop s q start i (y # ys) =
     Option.bind (pbuf_get_at s q (start + of_nat i)) (\<lambda>x.
       if x \<noteq> y then Some (of_nat (min (i + 1) 0xFFFF))
       else pbuf_memcmp_loop s q start (i + 1) ys)"

definition pbuf_memcmp :: "pbuf_state \<Rightarrow> nat \<Rightarrow> u16 \<Rightarrow> u8 list \<Rightarrow> u16 option" where
  "pbuf_memcmp s p offset s2 =
     do { b \<leftarrow> ps_bufs s p;
          if unat (p_tot_len b) < unat offset + length s2 then Some 0xffff
          else do {
            (q, start) \<leftarrow> pbuf_skip_const s (Some p) offset;
            pbuf_memcmp_loop s q start 0 s2 } }"

partial_function (option) pbuf_memfind_loop :: "pbuf_state \<Rightarrow> nat \<Rightarrow> u8 list \<Rightarrow> u16 \<Rightarrow> u16 \<Rightarrow> u16 option" where
  "pbuf_memfind_loop s p mem max_cmp_start i =
     (if i \<le> max_cmp_start then
        Option.bind (pbuf_memcmp s p i mem) (\<lambda>plus.
          if plus = 0 then Some i else pbuf_memfind_loop s p mem max_cmp_start (i + 1))
      else Some 0xFFFF)"

definition pbuf_memfind :: "pbuf_state \<Rightarrow> nat \<Rightarrow> u8 list \<Rightarrow> u16 \<Rightarrow> u16 option" where
  "pbuf_memfind s p mem start_offset =
     do { b \<leftarrow> ps_bufs s p;
          let max_cmp_start = p_tot_len b - of_nat (length mem);
          if unat (p_tot_len b) \<ge> length mem + unat start_offset
          then pbuf_memfind_loop s p mem max_cmp_start start_offset
          else Some 0xFFFF }"

definition pbuf_strstr :: "pbuf_state \<Rightarrow> nat \<Rightarrow> u8 list option \<Rightarrow> u16 option" where
  "pbuf_strstr s p substr =
     do { b \<leftarrow> ps_bufs s p;
          case substr of
            None \<Rightarrow> Some 0xFFFF
          | Some str \<Rightarrow>
              (if str = [] \<or> p_tot_len b = 0xFFFF then Some 0xFFFF
               else if length str \<ge> 0xFFFF then Some 0xFFFF
               else pbuf_memfind s p str 0) }"

text \<open>\<open>err_t\<close>, the values these functions return.\<close>

datatype err_t = ERR_OK | ERR_MEM | ERR_BUF | ERR_TIMEOUT | ERR_RTE | ERR_INPROGRESS | ERR_VAL
  | ERR_WOULDBLOCK | ERR_USE | ERR_ALREADY | ERR_ISCONN | ERR_CONN | ERR_IF | ERR_ABRT | ERR_RST
  | ERR_CLSD | ERR_ARG

text \<open>The loop of \<open>pbuf_take\<close>: \<open>xs\<close> is what is left of the data.\<close>

partial_function (option) pbuf_take_loop :: "nat option \<Rightarrow> u8 list \<Rightarrow> pbuf_state \<Rightarrow> pbuf_state option" where
  "pbuf_take_loop p xs s =
     (if xs = [] then Some s
      else Option.bind p (\<lambda>a. Option.bind (ps_bufs s a) (\<lambda>b.
        let buf_copy_len = (if length xs > unat (p_len b) then unat (p_len b) else length xs)
        in pbuf_take_loop (p_next b) (drop buf_copy_len xs)
             (s\<lparr>ps_mem := wr_bytes (ps_mem s) (p_payload b) (take buf_copy_len xs)\<rparr>))))"

definition pbuf_take :: "nat option \<Rightarrow> u8 list \<Rightarrow> pbuf_state \<Rightarrow> (err_t \<times> pbuf_state) option" where
  "pbuf_take buf xs s =
     (case buf of
        None \<Rightarrow> Some (ERR_ARG, s)
      | Some a \<Rightarrow> do {
          b \<leftarrow> ps_bufs s a;
          if \<not> unat (p_tot_len b) \<ge> length xs then Some (ERR_MEM, s)
          else do { s \<leftarrow> pbuf_take_loop buf xs s; Some (ERR_OK, s) } })"

definition pbuf_take_at :: "nat option \<Rightarrow> u8 list \<Rightarrow> u16 \<Rightarrow> pbuf_state \<Rightarrow> (err_t \<times> pbuf_state) option" where
  "pbuf_take_at buf xs offset s =
     do { (q, target_offset) \<leftarrow> pbuf_skip s buf offset;
          case q of
            None \<Rightarrow> Some (ERR_MEM, s)
          | Some a \<Rightarrow> do {
              b \<leftarrow> ps_bufs s a;
              if unat (p_tot_len b) \<ge> unat target_offset + length xs then (
                let first_copy_len = min (unat (p_len b) - unat target_offset) (length xs);
                    s = s\<lparr>ps_mem := wr_bytes (ps_mem s) (p_payload b + unat target_offset) (take first_copy_len xs)\<rparr>
                in if drop first_copy_len xs \<noteq> [] then pbuf_take (p_next b) (drop first_copy_len xs) s
                   else Some (ERR_OK, s))
              else Some (ERR_MEM, s) } }"

text \<open>Subtraction of \<open>size_t\<close> (64 bits) values, and the test for a packet queue.\<close>

definition sub64 :: "nat \<Rightarrow> nat \<Rightarrow> nat" where
  "sub64 a b = (a + 2 ^ 64 - b) mod 2 ^ 64"

definition pbuf_is_queue :: "pbuf_state \<Rightarrow> nat option \<Rightarrow> bool option" where
  "pbuf_is_queue s p =
     (case p of None \<Rightarrow> Some False
      | Some a \<Rightarrow> map_option (\<lambda>b. p_len b = p_tot_len b \<and> p_next b \<noteq> None) (ps_bufs s a))"

text \<open>\<open>pbuf_copy_partial_pbuf\<close>: the \<open>do ... while (copy_len)\<close> loop over two chains.\<close>

partial_function (option) pbuf_copy_pbuf_loop ::
    "nat option \<Rightarrow> nat \<Rightarrow> nat option \<Rightarrow> nat \<Rightarrow> nat \<Rightarrow> pbuf_state \<Rightarrow> (err_t \<times> pbuf_state) option" where
  "pbuf_copy_pbuf_loop p_to offset_to p_from offset_from copy_len s =
     Option.bind p_to (\<lambda>at. Option.bind (ps_bufs s at) (\<lambda>bt.
     Option.bind p_from (\<lambda>af. Option.bind (ps_bufs s af) (\<lambda>bf.
       let len = min copy_len (if sub64 (unat (p_len bt)) offset_to \<ge> sub64 (unat (p_len bf)) offset_from
                               then sub64 (unat (p_len bf)) offset_from else sub64 (unat (p_len bt)) offset_to);
           s = s\<lparr>ps_mem := wr_bytes (ps_mem s) (p_payload bt + offset_to)
                   (rd_bytes (ps_mem s) (p_payload bf + offset_from) len)\<rparr>;
           copy_len = copy_len - len;
           (p_from', offset_from') = (if offset_from + len \<ge> unat (p_len bf) then (p_next bf, 0)
                                      else (p_from, offset_from + len));
           (p_to', offset_to') = (if offset_to + len = unat (p_len bt) then (p_next bt, 0)
                                  else (p_to, offset_to + len))
       in if p_from' = None \<and> copy_len \<noteq> 0 then Some (ERR_ARG, s)
          else if p_to' = None \<and> copy_len \<noteq> 0 then Some (ERR_ARG, s)
          else Option.bind (pbuf_is_queue s p_from') (\<lambda>from_queue.
            if from_queue then Some (ERR_VAL, s)
            else Option.bind (pbuf_is_queue s p_to') (\<lambda>to_queue.
              if to_queue then Some (ERR_VAL, s)
              else if copy_len \<noteq> 0 then pbuf_copy_pbuf_loop p_to' offset_to' p_from' offset_from' copy_len s
              else Some (ERR_OK, s)))))))"

definition pbuf_copy_partial_pbuf ::
    "nat option \<Rightarrow> nat option \<Rightarrow> u16 \<Rightarrow> u16 \<Rightarrow> pbuf_state \<Rightarrow> (err_t \<times> pbuf_state) option" where
  "pbuf_copy_partial_pbuf p_to p_from copy_len offset s =
     (case p_from of
        None \<Rightarrow> Some (ERR_ARG, s)
      | Some af \<Rightarrow> do {
          bf \<leftarrow> ps_bufs s af;
          if \<not> p_tot_len bf \<ge> copy_len then Some (ERR_ARG, s)
          else case p_to of
            None \<Rightarrow> Some (ERR_ARG, s)
          | Some at \<Rightarrow> do {
              bt \<leftarrow> ps_bufs s at;
              if \<not> unat (p_tot_len bt) \<ge> unat offset + unat copy_len then Some (ERR_ARG, s)
              else pbuf_copy_pbuf_loop p_to (unat offset) p_from 0 (unat copy_len) s } })"

definition pbuf_copy :: "nat option \<Rightarrow> nat option \<Rightarrow> pbuf_state \<Rightarrow> (err_t \<times> pbuf_state) option" where
  "pbuf_copy p_to p_from s =
     (case p_from of
        None \<Rightarrow> Some (ERR_ARG, s)
      | Some af \<Rightarrow> do { bf \<leftarrow> ps_bufs s af; pbuf_copy_partial_pbuf p_to p_from (p_tot_len bf) 0 s })"

definition pbuf_clone :: "pbuf_layer \<Rightarrow> pbuf_type \<Rightarrow> nat \<Rightarrow> pbuf_state \<Rightarrow> (nat option \<times> pbuf_state) option" where
  "pbuf_clone layer type p s =
     do { b \<leftarrow> ps_bufs s p;
          (q, s) \<leftarrow> pbuf_alloc layer (p_tot_len b) type s;
          if q = None then Some (None, s)
          else do { (_, s) \<leftarrow> pbuf_copy q (Some p) s; Some (q, s) } }"

definition pbuf_coalesce :: "nat \<Rightarrow> pbuf_layer \<Rightarrow> pbuf_state \<Rightarrow> (nat \<times> pbuf_state) option" where
  "pbuf_coalesce p layer s =
     do { b \<leftarrow> ps_bufs s p;
          if p_next b = None then Some (p, s)
          else do {
            (q, s) \<leftarrow> pbuf_clone layer PBUF_RAM p s;
            case q of
              None \<Rightarrow> Some (p, s)
            | Some q \<Rightarrow> do { (_, s) \<leftarrow> pbuf_free (Some p) s; Some (q, s) } } }"

section \<open>The data of a chain\<close>

abbreviation buf_bytes :: "pbuf_state \<Rightarrow> nat \<Rightarrow> u8 list" where
  "buf_bytes s a \<equiv> rd_bytes (ps_mem s) (p_payload (the (ps_bufs s a))) (unat (p_len (the (ps_bufs s a))))"

definition flat :: "pbuf_state \<Rightarrow> nat list \<Rightarrow> u8 list" where
  "flat s as = concat (map (buf_bytes s) as)"

lemma length_rd_bytes [simp]: "length (rd_bytes m a n) = n"
  by (simp add: rd_bytes_def)

lemma nth_rd_bytes [simp]: "i < n \<Longrightarrow> rd_bytes m a n ! i = m (a + i)"
  by (simp add: rd_bytes_def)

lemma rd_bytes_drop: "k \<le> n \<Longrightarrow> drop k (rd_bytes m a n) = rd_bytes m (a + k) (n - k)"
  by (simp add: rd_bytes_def drop_map)

lemma rd_bytes_take: "take k (rd_bytes m a n) = rd_bytes m a (min k n)"
  by (rule nth_equalityI) simp_all

lemma flat_Cons: "ps_bufs s a = Some b \<Longrightarrow>
    flat s (a # as) = rd_bytes (ps_mem s) (p_payload b) (unat (p_len b)) @ flat s as"
  by (simp add: flat_def)

lemma flat_Nil [simp]: "flat s [] = []"
  by (simp add: flat_def)

lemma flat_append: "flat s (xs @ ys) = flat s xs @ flat s ys"
  by (simp add: flat_def)

lemma flat_cong:
  assumes "\<And>a. a \<in> set as \<Longrightarrow> buf_bytes s' a = buf_bytes s a"
  shows "flat s' as = flat s as"
  unfolding flat_def using assms by (metis (mono_tags, lifting) map_eq_conv)

lemma tots_flat: "tots (ps_bufs s) as n 0 \<Longrightarrow> length (flat s as) = n"
  by (induction as arbitrary: n) (auto simp: flat_Cons)

text \<open>Skipping: the pbuf that holds the byte at the offset, and the offset within it.\<close>

definition skip_result :: "pbuf_state \<Rightarrow> nat list \<Rightarrow> u16 \<Rightarrow> nat option \<Rightarrow> u16 \<Rightarrow> bool" where
  "skip_result s as off q k \<longleftrightarrow>
    (case q of
       None \<Rightarrow> unat off = length (flat s as) + unat k
     | Some a \<Rightarrow> \<exists>xs ys b. as = xs @ a # ys \<and> ps_bufs s a = Some b \<and> pchain (ps_bufs s) (Some a) (a # ys)
         \<and> unat off = length (flat s xs) + unat k \<and> k < p_len b)"

lemma skip_resultI:
  "as = xs @ a # ys \<Longrightarrow> ps_bufs s a = Some b \<Longrightarrow> pchain (ps_bufs s) (p_next b) ys
    \<Longrightarrow> unat off = length (flat s xs) + unat k \<Longrightarrow> k < p_len b \<Longrightarrow> skip_result s as off (Some a) k"
  unfolding skip_result_def by auto

lemma skip_result_Cons:
  assumes "ps_bufs s a = Some b" "unat off = unat (p_len b) + unat off'" "skip_result s as off' q k"
  shows "skip_result s (a # as) off q k"
proof (cases q)
  case None
  then show ?thesis using assms by (simp add: skip_result_def flat_Cons)
next
  case (Some a')
  then obtain xs ys b' where *: "as = xs @ a' # ys" "ps_bufs s a' = Some b'" "pchain (ps_bufs s) (p_next b') ys"
    "unat off' = length (flat s xs) + unat k" "k < p_len b'" using assms(3) by (auto simp: skip_result_def)
  show ?thesis
    unfolding Some by (rule skip_resultI [of _ "a # xs" _ ys]) (use * assms in \<open>simp_all add: flat_Cons\<close>)
qed

lemma pbuf_skip_const_spec:
  assumes "pchain (ps_bufs s) p as"
  shows "\<exists>q k. pbuf_skip_const s p off = Some (q, k) \<and> skip_result s as off q k"
  using assms
proof (induction as arbitrary: p off)
  case Nil
  then show ?case by (subst pbuf_skip_const.simps) (simp add: skip_result_def)
next
  case (Cons a as)
  obtain b where b: "p = Some a" "ps_bufs s a = Some b" "pchain (ps_bufs s) (p_next b) as"
    using Cons.prems by auto
  show ?case
  proof (cases "p_len b \<le> off")
    case True
    then have off: "unat off = unat (p_len b) + unat (off - p_len b)"
      by (simp add: unat_sub word_le_nat_alt)
    obtain q k where q: "pbuf_skip_const s (p_next b) (off - p_len b) = Some (q, k)"
      "skip_result s as (off - p_len b) q k"
      using Cons.IH [OF b(3)] by blast
    have "pbuf_skip_const s p off = Some (q, k)"
      using q(1) True b by (subst pbuf_skip_const.simps) simp
    with skip_result_Cons [OF b(2) off q(2)] show ?thesis by blast
  next
    case False
    then have "pbuf_skip_const s p off = Some (p, off)"
      using b by (subst pbuf_skip_const.simps) simp
    moreover have "skip_result s (a # as) off (Some a) off"
      by (rule skip_resultI [of _ "[]"]) (use b False in \<open>simp_all add: not_le\<close>)
    ultimately show ?thesis using b(1) by auto
  qed
qed

section \<open>Reading\<close>

lemma try_get_at_spec:
  assumes "pchain (ps_bufs s) p as"
  shows "pbuf_try_get_at s p off = Some (if unat off < length (flat s as) then Some (flat s as ! unat off) else None)"
proof -
  obtain q k where q: "pbuf_skip_const s p off = Some (q, k)" "skip_result s as off q k"
    using pbuf_skip_const_spec [OF assms] by blast
  show ?thesis
  proof (cases q)
    case None
    then show ?thesis using q by (simp add: pbuf_try_get_at_def skip_result_def)
  next
    case (Some a)
    then obtain xs ys b where *: "as = xs @ a # ys" "ps_bufs s a = Some b"
      "unat off = length (flat s xs) + unat k" "k < p_len b" using q(2) by (auto simp: skip_result_def)
    have "unat k < unat (p_len b)" using *(4) by (simp add: word_less_nat_alt)
    then show ?thesis
      using q(1) Some * by (simp add: pbuf_try_get_at_def flat_append flat_Cons nth_append)
  qed
qed

lemma get_at_spec:
  "pchain (ps_bufs s) p as \<Longrightarrow> unat off < length (flat s as) \<Longrightarrow> pbuf_get_at s p off = Some (flat s as ! unat off)"
  by (simp add: pbuf_get_at_def try_get_at_spec)

text \<open>The copy loop appends the requested slice.\<close>

lemma pbuf_copy_loop_spec:
  assumes "pchain (ps_bufs s) p as"
  shows "pbuf_copy_loop s p len off n acc =
    (let r = take (unat len) (drop (unat off) (flat s as)) in Some (n + of_nat (length r), acc @ r))"
  using assms
proof (induction as arbitrary: p len off n acc)
  case Nil
  then show ?case by (subst pbuf_copy_loop.simps) simp
next
  case (Cons a as)
  obtain b where b: "p = Some a" "ps_bufs s a = Some b" "pchain (ps_bufs s) (p_next b) as"
    using Cons.prems by auto
  let ?bytes = "rd_bytes (ps_mem s) (p_payload b) (unat (p_len b))"
  note IH = Cons.IH [OF b(3)]
  show ?case
  proof (cases "len = 0")
    case True
    then show ?thesis by (subst pbuf_copy_loop.simps) simp
  next
    case len: False
    show ?thesis
    proof (cases "off \<noteq> 0 \<and> off \<ge> p_len b")
      case True
      then have "unat off = unat (p_len b) + unat (off - p_len b)" by (simp add: unat_sub word_le_nat_alt)
      then show ?thesis
        using True len b IH [of len "off - p_len b" n acc]
        by (subst pbuf_copy_loop.simps) (simp add: flat_Cons Let_def)
    next
      case False
      then have o: "off \<le> p_len b" by auto
      let ?c = "if p_len b - off > len then len else p_len b - off"
      have c: "unat ?c = min (unat len) (unat (p_len b) - unat off)"
        using o by (auto simp: unat_sub word_less_nat_alt)
      have cl: "?c \<le> len" using c by (simp add: word_le_nat_alt)
      have r: "rd_bytes (ps_mem s) (p_payload b + unat off) (unat ?c) = take (unat len) (drop (unat off) ?bytes)"
        using o by (simp add: rd_bytes_drop word_le_nat_alt c rd_bytes_take)
      have d: "unat off \<le> length ?bytes" using o by (simp add: word_le_nat_alt)
      have "pbuf_copy_loop s p len off n acc = pbuf_copy_loop s (p_next b) (len - ?c) 0 (n + ?c)
          (acc @ take (unat len) (drop (unat off) ?bytes))"
        by (subst pbuf_copy_loop.simps)
          (simp only: b(1,2) option.case Option.bind_lunit if_not_P [OF len] if_not_P [OF False] Let_def r)
      also have "\<dots> = Some (n + ?c + of_nat (length (take (unat (len - ?c)) (flat s as))),
          (acc @ take (unat len) (drop (unat off) ?bytes)) @ take (unat (len - ?c)) (flat s as))"
        by (simp add: IH Let_def)
      also have "take (unat (len - ?c)) (flat s as) = take (unat len - length (drop (unat off) ?bytes)) (flat s as)"
        using cl c by (simp add: unat_sub min_def)
      finally have eq: "pbuf_copy_loop s p len off n acc =
          Some (n + ?c + of_nat (length (take (unat len - length (drop (unat off) ?bytes)) (flat s as))),
          (acc @ take (unat len) (drop (unat off) ?bytes)) @ take (unat len - length (drop (unat off) ?bytes)) (flat s as))" .
      have "?c = of_nat (unat ?c)" by simp
      also have "unat ?c = length (take (unat len) (drop (unat off) ?bytes))" by (simp add: c min.commute)
      finally have cc: "?c = of_nat (length (take (unat len) (drop (unat off) ?bytes)))" .
      have whole: "take (unat len) (drop (unat off) (flat s (a # as))) = take (unat len) (drop (unat off) ?bytes)
          @ take (unat len - length (drop (unat off) ?bytes)) (flat s as)"
        using b(2) d by (simp add: flat_Cons)
      show ?thesis
        unfolding eq Let_def whole by (subst cc) (simp only: length_append of_nat_add append_assoc add.assoc)
    qed
  qed
qed

text \<open>
  \<open>pbuf_copy_partial\<close> copies a slice of the data: for every chain, however it is cut into
  pbufs, the bytes written are the \<open>len\<close> bytes from \<open>offset\<close> of the flattened data (fewer
  if the chain ends before), and the return value is their number.
\<close>

theorem pbuf_copy_partial_slice:
  assumes "pchain (ps_bufs s) (Some p) as"
  shows "pbuf_copy_partial s (Some p) len offset
    = Some (of_nat (length (take (unat len) (drop (unat offset) (flat s as)))),
            take (unat len) (drop (unat offset) (flat s as)))"
  using pbuf_copy_loop_spec [OF assms, of len offset 0 "[]"]
  by (simp add: pbuf_copy_partial_def Let_def)

definition demo_chain :: pbuf_state where
  "demo_chain = demo_state\<lparr>ps_mem := (\<lambda>x. of_nat x),
     ps_bufs := [100 \<mapsto> (new_pbuf 10 5 3 PBUF_ROM)\<lparr>p_next := Some 200\<rparr>, 200 \<mapsto> new_pbuf 40 2 2 PBUF_ROM]\<rparr>"

lemma demo_chain_facts:
  "pchain (ps_bufs demo_chain) (Some 100) [100, 200]" "flat demo_chain [100, 200] = [10, 11, 12, 40, 41]"
  "tots (ps_bufs demo_chain) [100, 200] 5 0"
  by (simp_all add: demo_chain_def new_pbuf_def flat_def rd_bytes_def upt_rec)

theorem pbuf_copy_partial_slice_witness:
  "pbuf_copy_partial demo_chain (Some 100) 3 1 = Some (3, [11, 12, 40])"
  using pbuf_copy_partial_slice [OF demo_chain_facts(1), of 3 1] by (simp add: demo_chain_facts(2))

section \<open>Comparing and searching\<close>

lemma memcmp_loop_spec:
  assumes ch: "pchain (ps_bufs s) q as" and len: "unat start + i + length ys \<le> length (flat s as)"
    and small: "length (flat s as) < 65536"
  shows "pbuf_memcmp_loop s q start i ys =
    (case first_index (\<lambda>(x, y). x \<noteq> y) (zip (drop (unat start + i) (flat s as)) ys) of
       None \<Rightarrow> Some 0 | Some j \<Rightarrow> Some (of_nat (min (i + j + 1) 0xFFFF)))"
  using len
proof (induction ys arbitrary: i)
  case (Cons y ys)
  have lt: "unat start + i < length (flat s as)" using Cons.prems by simp
  have "unat (start + of_nat i) = unat start + i"
    using lt small by (simp add: unat_word_ariths unat_of_nat take_bit_eq_mod)
  then have get: "pbuf_get_at s q (start + of_nat i) = Some (flat s as ! (unat start + i))"
    using get_at_spec [OF ch, of "start + of_nat i"] lt by simp
  have dr: "drop (unat start + i) (flat s as) = flat s as ! (unat start + i) # drop (unat start + (i + 1)) (flat s as)"
    using lt by (simp add: Cons_nth_drop_Suc)
  show ?case
    using Cons.IH [of "i + 1"] Cons.prems get by (auto simp: dr split: option.split)
qed simp

lemma tots_head: "tots B (a # as) n m \<Longrightarrow> B a = Some b \<Longrightarrow> unat (p_tot_len b) = n"
  by simp

lemma skip_result_flat:
  assumes "skip_result s as off (Some a) k"
  obtains ys where "pchain (ps_bufs s) (Some a) (a # ys)"
    "drop (unat k) (flat s (a # ys)) = drop (unat off) (flat s as)"
    "unat k + length (flat s as) = unat off + length (flat s (a # ys))" "unat k \<le> unat off"
  using assms that unfolding skip_result_def by (auto simp: flat_append)

lemma memcmp_spec:
  assumes ch: "pchain (ps_bufs s) (Some p) as" and t: "tots (ps_bufs s) as n 0" and n: "n < 65536"
  shows "pbuf_memcmp s p off ys =
    (if n < unat off + length ys then Some 0xffff
     else case first_index (\<lambda>(x, y). x \<noteq> y) (zip (drop (unat off) (flat s as)) ys) of
       None \<Rightarrow> Some 0 | Some j \<Rightarrow> Some (of_nat (min (j + 1) 0xFFFF)))"
proof -
  obtain b where b: "ps_bufs s p = Some b" "unat (p_tot_len b) = n"
    using ch t by (cases as) auto
  have fl: "length (flat s as) = n" by (rule tots_flat [OF t])
  show ?thesis
  proof (cases "n < unat off + length ys")
    case True
    then show ?thesis using b by (simp add: pbuf_memcmp_def)
  next
    case False
    obtain q k where q: "pbuf_skip_const s (Some p) off = Some (q, k)" "skip_result s as off q k"
      using pbuf_skip_const_spec [OF ch] by blast
    have eq: "pbuf_memcmp s p off ys = pbuf_memcmp_loop s q k 0 ys"
      using b q(1) False by (simp add: pbuf_memcmp_def)
    show ?thesis
    proof (cases q)
      case None
      then have "ys = []" using q(2) False fl by (simp add: skip_result_def)
      then show ?thesis using eq False by simp
    next
      case (Some a)
      from skip_result_flat [OF q(2) [unfolded Some]] obtain zs where
        z: "pchain (ps_bufs s) (Some a) (a # zs)" "drop (unat k) (flat s (a # zs)) = drop (unat off) (flat s as)"
          "unat k + length (flat s as) = unat off + length (flat s (a # zs))" "unat k \<le> unat off" by blast
      have "length (flat s (a # zs)) \<le> n" using z(3,4) fl by simp
      then show ?thesis
        using memcmp_loop_spec [OF z(1), of k 0 ys] eq z(2,3) fl False Some n
        by (simp split: option.split)
    qed
  qed
qed

lemma first_mismatch_None:
  assumes "length ys \<le> length xs"
  shows "first_index (\<lambda>(x, y). x \<noteq> y) (zip xs ys) = None \<longleftrightarrow> take (length ys) xs = ys"
  using assms
proof (induction ys arbitrary: xs)
  case (Cons y ys)
  then show ?case by (cases xs) auto
qed simp

lemma memcmp_0_iff:
  assumes "pchain (ps_bufs s) (Some p) as" "tots (ps_bufs s) as n 0" "n < 65536" "unat off + length ys \<le> n"
  shows "\<exists>r. pbuf_memcmp s p off ys = Some r \<and> (r = 0 \<longleftrightarrow> take (length ys) (drop (unat off) (flat s as)) = ys)"
proof -
  have "length ys \<le> length (drop (unat off) (flat s as))" using tots_flat [OF assms(2)] assms(4) by simp
  note fm = first_mismatch_None [OF this]
  have "(of_nat (min (j + 1) 0xFFFF) :: u16) \<noteq> 0" for j :: nat
  proof -
    define m where "m = min (j + 1) 0xFFFF"
    have m: "m < 65536" "0 < m" by (simp_all add: m_def)
    then have "unat (of_nat m :: u16) = m" by (simp add: unat_of_nat take_bit_eq_mod)
    with m(2) have "(of_nat m :: u16) \<noteq> 0" by (metis unat_0 less_irrefl)
    then show ?thesis unfolding m_def .
  qed
  with fm show ?thesis
    using memcmp_spec [OF assms(1-3), of off ys] assms(4) by (auto split: option.splits)
qed

text \<open>Where \<open>mem\<close> occurs in the data.\<close>

definition occurs_at :: "u8 list \<Rightarrow> u8 list \<Rightarrow> nat \<Rightarrow> bool" where
  "occurs_at xs mem i \<longleftrightarrow> i + length mem \<le> length xs \<and> take (length mem) (drop i xs) = mem"

lemma memfind_loop_spec:
  assumes ch: "pchain (ps_bufs s) (Some p) as" and t: "tots (ps_bufs s) as n 0" and n: "n < 65536"
    and mx: "unat mx + length mem = n" "unat i \<le> Suc (unat mx)"
    and i: "\<And>j. start \<le> j \<Longrightarrow> j < unat i \<Longrightarrow> \<not> occurs_at (flat s as) mem j" "start \<le> unat i"
  shows "\<exists>r. pbuf_memfind_loop s p mem mx i = Some r \<and>
    (r = 0xFFFF \<and> (\<forall>j \<ge> start. \<not> occurs_at (flat s as) mem j)
     \<or> start \<le> unat r \<and> occurs_at (flat s as) mem (unat r) \<and> (\<forall>j. start \<le> j \<longrightarrow> j < unat r \<longrightarrow> \<not> occurs_at (flat s as) mem j))"
  using mx(2) i
proof (induction "Suc (unat mx) - unat i" arbitrary: i)
  case 0
  then have gt: "\<not> i \<le> mx" by (simp add: word_le_nat_alt)
  have "\<not> occurs_at (flat s as) mem j" if "start \<le> j" for j
    using 0 that mx(1) tots_flat [OF t] by (cases "j < unat i") (auto simp: occurs_at_def)
  then show ?case using gt by (subst pbuf_memfind_loop.simps) simp
next
  case (Suc d)
  then have le: "i \<le> mx" by (simp add: word_le_nat_alt)
  then have off: "unat i + length mem \<le> n" using mx(1) by (simp add: word_le_nat_alt)
  obtain r where r: "pbuf_memcmp s p i mem = Some r" "r = 0 \<longleftrightarrow> take (length mem) (drop (unat i) (flat s as)) = mem"
    using memcmp_0_iff [OF ch t n off] by blast
  have occ: "occurs_at (flat s as) mem (unat i) \<longleftrightarrow> r = 0"
    using r(2) off tots_flat [OF t] by (simp add: occurs_at_def)
  show ?case
  proof (cases "r = 0")
    case True
    then show ?thesis using r(1) le occ Suc.prems
      by (subst pbuf_memfind_loop.simps) auto
  next
    case False
    have "mem \<noteq> []" using False r(2) by auto
    then have "unat mx < 65535" using mx(1) n by (cases mem) auto
    then have i1: "unat (i + 1) = Suc (unat i)"
      using le by (simp add: unat_word_ariths word_le_nat_alt)
    have "\<not> occurs_at (flat s as) mem j" if "start \<le> j" "j < unat (i + 1)" for j
      using that occ False Suc.prems(2) by (cases "j = unat i") (auto simp: i1)
    moreover have "d = Suc (unat mx) - unat (i + 1)" "unat (i + 1) \<le> Suc (unat mx)" "start \<le> unat (i + 1)"
      using Suc.hyps(2) le Suc.prems(3) by (auto simp: i1 word_le_nat_alt)
    ultimately obtain r' where "pbuf_memfind_loop s p mem mx (i + 1) = Some r' \<and>
      (r' = 0xFFFF \<and> (\<forall>j \<ge> start. \<not> occurs_at (flat s as) mem j)
       \<or> start \<le> unat r' \<and> occurs_at (flat s as) mem (unat r') \<and> (\<forall>j. start \<le> j \<longrightarrow> j < unat r' \<longrightarrow> \<not> occurs_at (flat s as) mem j))"
      using Suc.hyps(1) [of "i + 1"] by blast
    then show ?thesis using r(1) le False by (subst pbuf_memfind_loop.simps) auto
  qed
qed

text \<open>
  \<open>pbuf_memfind\<close> is a correct search: it returns; if the pattern occurs in the data of the
  chain at or after \<open>start_offset\<close>, the result is the offset of the first such occurrence,
  wherever pbuf boundaries fall, and otherwise it is \<open>0xFFFF\<close>.
\<close>

theorem pbuf_memfind_correct:
  assumes "pchain (ps_bufs s) (Some p) as" "tots (ps_bufs s) as n 0"
  shows "\<exists>r. pbuf_memfind s p mem start = Some r \<and>
    (r = 0xFFFF \<and> (\<forall>j \<ge> unat start. \<not> occurs_at (flat s as) mem j)
     \<or> unat start \<le> unat r \<and> occurs_at (flat s as) mem (unat r)
       \<and> (\<forall>j. unat start \<le> j \<longrightarrow> j < unat r \<longrightarrow> \<not> occurs_at (flat s as) mem j))"
proof -
  obtain b where b: "ps_bufs s p = Some b" "unat (p_tot_len b) = n" using assms by (cases as) auto
  have n: "n < 65536" using b(2) unat_u16_less [of "p_tot_len b"] by simp
  show ?thesis
  proof (cases "length mem + unat start \<le> n")
    case True
    have "unat (p_tot_len b - of_nat (length mem)) = n - length mem"
      using True b(2) n by (simp add: unat_sub word_le_nat_alt unat_of_nat take_bit_eq_mod)
    then have "unat (p_tot_len b - of_nat (length mem)) + length mem = n"
      "unat start \<le> Suc (unat (p_tot_len b - of_nat (length mem)))" using True by auto
    from memfind_loop_spec [OF assms n this, of "unat start"] show ?thesis
      using b True by (simp add: pbuf_memfind_def)
  next
    case False
    then show ?thesis
      using b tots_flat [OF assms(2)] by (auto simp: pbuf_memfind_def occurs_at_def)
  qed
qed

theorem pbuf_memfind_correct_witness:
  "\<exists>r. pbuf_memfind demo_chain 100 [12, 40] 0 = Some r \<and> (r = 0xFFFF \<or> occurs_at [10, 11, 12, 40, 41] [12, 40] (unat r))"
  using pbuf_memfind_correct [OF demo_chain_facts(1,3), of "[12, 40]" 0] by (auto simp: demo_chain_facts(2))

section \<open>Writing\<close>

text \<open>The payloads of the pbufs of a chain do not overlap.\<close>

definition apart :: "pbuf_state \<Rightarrow> nat list \<Rightarrow> bool" where
  "apart s as \<longleftrightarrow> (\<forall>a \<in> set as. \<forall>b \<in> set as. a \<noteq> b \<longrightarrow>
     (let x = the (ps_bufs s a); y = the (ps_bufs s b)
      in p_payload x + unat (p_len x) \<le> p_payload y \<or> p_payload y + unat (p_len y) \<le> p_payload x))"

definition in_payload :: "pbuf_state \<Rightarrow> nat list \<Rightarrow> nat \<Rightarrow> bool" where
  "in_payload s as x \<longleftrightarrow> (\<exists>a \<in> set as. p_payload (the (ps_bufs s a)) \<le> x
     \<and> x < p_payload (the (ps_bufs s a)) + unat (p_len (the (ps_bufs s a))))"

lemma rd_bytes_cong: "(\<And>x. a \<le> x \<Longrightarrow> x < a + n \<Longrightarrow> m' x = m x) \<Longrightarrow> rd_bytes m' a n = rd_bytes m a n"
  by (auto simp: rd_bytes_def)

lemma rd_wr_same:
  assumes "length xs \<le> n"
  shows "rd_bytes (wr_bytes m a xs) a n = xs @ drop (length xs) (rd_bytes m a n)"
  by (rule nth_equalityI) (use assms in \<open>auto simp: wr_bytes_def nth_append\<close>)

lemma flat_mem_cong:
  assumes "ps_bufs s' = ps_bufs s" "\<And>x. in_payload s as x \<Longrightarrow> ps_mem s' x = ps_mem s x"
  shows "flat s' as = flat s as"
proof (rule flat_cong)
  fix a assume "a \<in> set as"
  then show "buf_bytes s' a = buf_bytes s a"
    unfolding assms(1) by (intro rd_bytes_cong assms(2)) (auto simp: in_payload_def)
qed

lemma take_loop_spec:
  assumes "pchain (ps_bufs s) p as" "apart s as" "length xs \<le> length (flat s as)"
  shows "\<exists>m. pbuf_take_loop p xs s = Some (s\<lparr>ps_mem := m\<rparr>)
    \<and> flat (s\<lparr>ps_mem := m\<rparr>) as = xs @ drop (length xs) (flat s as)
    \<and> (\<forall>x. \<not> in_payload s as x \<longrightarrow> m x = ps_mem s x)"
  using assms
proof (induction as arbitrary: p xs s)
  case Nil
  then show ?case by (subst pbuf_take_loop.simps) (auto intro!: exI [of _ "ps_mem s"])
next
  case (Cons a as)
  obtain b where b: "p = Some a" "ps_bufs s a = Some b" "pchain (ps_bufs s) (p_next b) as"
    using Cons.prems(1) by auto
  have na: "a \<notin> set as" using pchain_distinct [OF Cons.prems(1)] by simp
  show ?case
  proof (cases "xs = []")
    case True
    then show ?thesis by (subst pbuf_take_loop.simps) (auto intro!: exI [of _ "ps_mem s"])
  next
    case False
    let ?n = "if length xs > unat (p_len b) then unat (p_len b) else length xs"
    let ?m = "wr_bytes (ps_mem s) (p_payload b) (take ?n xs)"
    let ?s = "s\<lparr>ps_mem := ?m\<rparr>"
    have out: "\<not> (p_payload b \<le> x \<and> x < p_payload b + unat (p_len b))" if "in_payload s as x" for x
      using that Cons.prems(2) na b(2) unfolding in_payload_def apart_def Let_def by fastforce
    have fs: "flat ?s as = flat s as"
    proof (rule flat_mem_cong)
      fix x assume "in_payload s as x"
      then show "ps_mem ?s x = ps_mem s x" using out [of x] by (auto simp: wr_bytes_def)
    qed simp
    have "length (drop ?n xs) \<le> length (flat ?s as)"
      using Cons.prems(3) b(2) fs by (auto simp: flat_Cons)
    moreover have "apart ?s as" using Cons.prems(2) by (auto simp: apart_def)
    ultimately obtain m where m: "pbuf_take_loop (p_next b) (drop ?n xs) ?s = Some (?s\<lparr>ps_mem := m\<rparr>)"
      "flat (?s\<lparr>ps_mem := m\<rparr>) as = drop ?n xs @ drop (length (drop ?n xs)) (flat ?s as)"
      "\<And>x. \<not> in_payload ?s as x \<Longrightarrow> m x = ?m x"
      using Cons.IH [of ?s "p_next b" "drop ?n xs"] b(3) by auto
    have ip: "in_payload ?s as x = in_payload s as x" for x by (simp add: in_payload_def)
    have "pbuf_take_loop p xs s = Some (s\<lparr>ps_mem := m\<rparr>)"
      using m(1) b False by (subst pbuf_take_loop.simps) (simp add: Let_def)
    moreover have "flat (s\<lparr>ps_mem := m\<rparr>) (a # as) = xs @ drop (length xs) (flat s (a # as))"
    proof -
      have "rd_bytes m (p_payload b) (unat (p_len b)) = rd_bytes ?m (p_payload b) (unat (p_len b))"
        by (rule rd_bytes_cong) (use m(3) ip out in blast)
      also have "\<dots> = take ?n xs @ drop ?n (rd_bytes (ps_mem s) (p_payload b) (unat (p_len b)))"
        by (subst rd_wr_same) simp_all
      finally show ?thesis using m(2) fs b(2) by (auto simp: flat_Cons)
    qed
    moreover have "m x = ps_mem s x" if "\<not> in_payload s (a # as) x" for x
    proof -
      have "\<not> in_payload s as x" "\<not> (p_payload b \<le> x \<and> x < p_payload b + unat (p_len b))"
        using that b(2) by (auto simp: in_payload_def)
      then show ?thesis using m(3) [of x] ip by (auto simp: wr_bytes_def)
    qed
    ultimately show ?thesis by blast
  qed
qed

lemma pbuf_take_spec:
  assumes "pchain (ps_bufs s) (Some p) as" "apart s as" "tots (ps_bufs s) as n 0"
  shows "if length xs \<le> n
    then \<exists>m. pbuf_take (Some p) xs s = Some (ERR_OK, s\<lparr>ps_mem := m\<rparr>)
      \<and> flat (s\<lparr>ps_mem := m\<rparr>) as = xs @ drop (length xs) (flat s as)
      \<and> (\<forall>x. \<not> in_payload s as x \<longrightarrow> m x = ps_mem s x)
    else pbuf_take (Some p) xs s = Some (ERR_MEM, s)"
proof -
  obtain b where b: "ps_bufs s p = Some b" "unat (p_tot_len b) = n"
    using assms(1,3) by (cases as) auto
  show ?thesis
  proof (cases "length xs \<le> n")
    case True
    then have "length xs \<le> length (flat s as)" using tots_flat [OF assms(3)] by simp
    from take_loop_spec [OF assms(1,2) this] True b show ?thesis by (auto simp: pbuf_take_def)
  next
    case False
    then show ?thesis using b by (simp add: pbuf_take_def)
  qed
qed

text \<open>Writing inside one pbuf of the chain.\<close>

lemma rd_wr_mid:
  assumes "k + length xs \<le> n"
  shows "rd_bytes (wr_bytes m (a + k) xs) a n
    = take k (rd_bytes m a n) @ xs @ drop (k + length xs) (rd_bytes m a n)"
  by (rule nth_equalityI) (use assms in \<open>auto simp: wr_bytes_def nth_append min_def\<close>)

lemma flat_write_first:
  assumes "pchain (ps_bufs s) (Some a) (a # ys)" "apart s (a # ys)" "ps_bufs s a = Some b"
    "k + length xs \<le> unat (p_len b)"
  shows "flat (s\<lparr>ps_mem := wr_bytes (ps_mem s) (p_payload b + k) xs\<rparr>) [a]
      = take k (flat s [a]) @ xs @ drop (k + length xs) (flat s [a])"
    and "flat (s\<lparr>ps_mem := wr_bytes (ps_mem s) (p_payload b + k) xs\<rparr>) ys = flat s ys"
proof -
  show "flat (s\<lparr>ps_mem := wr_bytes (ps_mem s) (p_payload b + k) xs\<rparr>) [a]
      = take k (flat s [a]) @ xs @ drop (k + length xs) (flat s [a])"
    using assms(3,4) by (simp add: flat_Cons rd_wr_mid)
  have na: "a \<notin> set ys" using pchain_distinct [OF assms(1)] by simp
  show "flat (s\<lparr>ps_mem := wr_bytes (ps_mem s) (p_payload b + k) xs\<rparr>) ys = flat s ys"
  proof (rule flat_mem_cong)
    fix x assume "in_payload s ys x"
    then have "\<not> (p_payload b \<le> x \<and> x < p_payload b + unat (p_len b))"
      using assms(2,3) na unfolding in_payload_def apart_def Let_def by fastforce
    then show "ps_mem (s\<lparr>ps_mem := wr_bytes (ps_mem s) (p_payload b + k) xs\<rparr>) x = ps_mem s x"
      using assms(4) by (auto simp: wr_bytes_def)
  qed simp
qed

lemma apart_append:
  assumes "apart s (xs @ ys)" "distinct (xs @ ys)" "in_payload s xs x"
  shows "\<not> in_payload s ys x"
proof
  assume "in_payload s ys x"
  then obtain b where b: "b \<in> set ys" "p_payload (the (ps_bufs s b)) \<le> x"
    "x < p_payload (the (ps_bufs s b)) + unat (p_len (the (ps_bufs s b)))" by (auto simp: in_payload_def)
  obtain a where a: "a \<in> set xs" "p_payload (the (ps_bufs s a)) \<le> x"
    "x < p_payload (the (ps_bufs s a)) + unat (p_len (the (ps_bufs s a)))"
    using assms(3) by (auto simp: in_payload_def)
  have "a \<noteq> b" using a(1) b(1) assms(2) by auto
  then have "p_payload (the (ps_bufs s a)) + unat (p_len (the (ps_bufs s a))) \<le> p_payload (the (ps_bufs s b))
     \<or> p_payload (the (ps_bufs s b)) + unat (p_len (the (ps_bufs s b))) \<le> p_payload (the (ps_bufs s a))"
    using assms(1) a(1) b(1) unfolding apart_def Let_def by simp
  with a b show False by linarith
qed

text \<open>The part of \<open>pbuf_take_at\<close> after the skip: the write begins inside the pbuf \<open>a\<close>.\<close>

definition take_at_here :: "nat \<Rightarrow> pbuf \<Rightarrow> nat \<Rightarrow> u8 list \<Rightarrow> pbuf_state \<Rightarrow> (err_t \<times> pbuf_state) option" where
  "take_at_here a b k xs s =
    (let n = min (unat (p_len b) - k) (length xs);
         s = s\<lparr>ps_mem := wr_bytes (ps_mem s) (p_payload b + k) (take n xs)\<rparr>
     in if drop n xs \<noteq> [] then pbuf_take (p_next b) (drop n xs) s else Some (ERR_OK, s))"

lemma take_drop_append: "take n xs @ drop n xs @ ys = xs @ ys"
  by (simp flip: append_assoc)

lemma take_at_here_spec:
  assumes ch: "pchain (ps_bufs s) (Some a) (a # ys)" and ap: "apart s (a # ys)"
    and t: "tots (ps_bufs s) (a # ys) n 0" and b: "ps_bufs s a = Some b"
    and k: "k < unat (p_len b)" "k + length xs \<le> n"
  shows "\<exists>m. take_at_here a b k xs s = Some (ERR_OK, s\<lparr>ps_mem := m\<rparr>)
    \<and> flat (s\<lparr>ps_mem := m\<rparr>) (a # ys) = take k (flat s (a # ys)) @ xs @ drop (k + length xs) (flat s (a # ys))
    \<and> (\<forall>x. \<not> in_payload s (a # ys) x \<longrightarrow> m x = ps_mem s x)"
proof -
  let ?n = "min (unat (p_len b) - k) (length xs)"
  let ?m = "wr_bytes (ps_mem s) (p_payload b + k) (take ?n xs)"
  let ?s = "s\<lparr>ps_mem := ?m\<rparr>"
  have le: "k + length (take ?n xs) \<le> unat (p_len b)" using k by simp
  note f = flat_write_first [OF ch ap b le]
  have ly: "length (flat s ys) = n - unat (p_len b)" and t': "tots (ps_bufs s) ys (n - unat (p_len b)) 0"
    and ln: "unat (p_len b) \<le> n"
    using t b tots_flat [of s ys] by auto
  have fr: "?m x = ps_mem s x" if "\<not> in_payload s (a # ys) x" for x
    using that b le by (auto simp: in_payload_def wr_bytes_def)
  have one: "flat s [a] = rd_bytes (ps_mem s) (p_payload b) (unat (p_len b))" using b by (simp add: flat_Cons)
  have sp: "flat s' (a # ys) = flat s' [a] @ flat s' ys" for s' using flat_append [of s' "[a]" ys] by simp
  show ?thesis
  proof (cases "drop ?n xs = []")
    case True
    then have xs: "take ?n xs = xs" "length xs \<le> unat (p_len b) - k" by auto
    have "flat ?s (a # ys) = take k (flat s (a # ys)) @ xs @ drop (k + length xs) (flat s (a # ys))"
      using f k xs unfolding sp [of ?s] sp [of s] by (simp add: one)
    then show ?thesis using True fr by (intro exI [of _ ?m]) (simp add: take_at_here_def Let_def)
  next
    case False
    then have n: "?n = unat (p_len b) - k" by auto
    have ne: "ys \<noteq> []" using False ly k n ln t' by auto
    then obtain q where q: "p_next b = Some q" using ch b by (cases ys) auto
    have l: "length (drop ?n xs) \<le> n - unat (p_len b)" using k n by simp
    have "apart ?s ys" "tots (ps_bufs ?s) ys (n - unat (p_len b)) 0" "pchain (ps_bufs ?s) (Some q) ys"
      using ap t' ch b q by (auto simp: apart_def)
    from pbuf_take_spec [OF this(3,1,2), of "drop ?n xs"] l obtain m where
      m: "pbuf_take (Some q) (drop ?n xs) ?s = Some (ERR_OK, ?s\<lparr>ps_mem := m\<rparr>)"
      "flat (?s\<lparr>ps_mem := m\<rparr>) ys = drop ?n xs @ drop (length (drop ?n xs)) (flat ?s ys)"
      "\<And>x. \<not> in_payload ?s ys x \<Longrightarrow> m x = ?m x" by (auto split: if_splits)
    have ip: "in_payload ?s zs x = in_payload s zs x" for zs x by (simp add: in_payload_def)
    have di: "distinct ([a] @ ys)" using pchain_distinct [OF ch] by simp
    have "flat (s\<lparr>ps_mem := m\<rparr>) [a] = flat ?s [a]"
    proof (rule flat_mem_cong)
      fix x assume "in_payload ?s [a] x"
      then have "\<not> in_payload ?s ys x" using apart_append [of s "[a]" ys] ap di by (simp add: ip)
      then show "ps_mem (s\<lparr>ps_mem := m\<rparr>) x = ps_mem ?s x" using m(3) by simp
    qed simp
    then have "flat (s\<lparr>ps_mem := m\<rparr>) (a # ys) = take k (flat s (a # ys)) @ xs @ drop (k + length xs) (flat s (a # ys))"
      using m(2) f k n unfolding sp [of "s\<lparr>ps_mem := m\<rparr>"] sp [of s]
      by (simp add: one add.commute [of k] take_drop_append)
    moreover have "m x = ps_mem s x" if "\<not> in_payload s (a # ys) x" for x
      using that m(3) [of x] fr [of x] ip by (auto simp: in_payload_def)
    ultimately show ?thesis using m(1) False q by (intro exI [of _ m]) (simp add: take_at_here_def Let_def)
  qed
qed

text \<open>
  \<open>pbuf_take_at\<close> writes into a chain in place: with enough room after \<open>offset\<close> the call
  succeeds, the flattened data has the new bytes at \<open>offset\<close> and is otherwise as before,
  whatever way the range is cut into pbufs, and no byte outside the payloads of the chain
  changes. Without room it fails with \<open>ERR_MEM\<close> and changes nothing; an offset at the end of
  the data is such a failure even for an empty write.
\<close>

theorem pbuf_take_at_writes:
  assumes ch: "pchain (ps_bufs s) (Some p) as" and ap: "apart s as" and t: "tots (ps_bufs s) as n 0"
  shows "if unat offset < n \<and> unat offset + length xs \<le> n
    then \<exists>m. pbuf_take_at (Some p) xs offset s = Some (ERR_OK, s\<lparr>ps_mem := m\<rparr>)
      \<and> flat (s\<lparr>ps_mem := m\<rparr>) as
          = take (unat offset) (flat s as) @ xs @ drop (unat offset + length xs) (flat s as)
      \<and> (\<forall>x. \<not> in_payload s as x \<longrightarrow> m x = ps_mem s x)
    else pbuf_take_at (Some p) xs offset s = Some (ERR_MEM, s)"
proof -
  obtain q k where q: "pbuf_skip_const s (Some p) offset = Some (q, k)" "skip_result s as offset q k"
    using pbuf_skip_const_spec [OF ch] by blast
  have n: "length (flat s as) = n" using tots_flat [OF t] .
  show ?thesis
  proof (cases q)
    case None
    then show ?thesis using q n by (simp add: pbuf_take_at_def pbuf_skip_def skip_result_def)
  next
    case (Some a)
    then obtain us ys b where *: "as = us @ a # ys" "ps_bufs s a = Some b" "pchain (ps_bufs s) (Some a) (a # ys)"
      "unat offset = length (flat s us) + unat k" "k < p_len b" using q(2) by (auto simp: skip_result_def)
    have k: "unat k < unat (p_len b)" using *(5) by (simp add: word_less_nat_alt)
    obtain j where j: "tots (ps_bufs s) us n j" "tots (ps_bufs s) (a # ys) j 0"
      using t unfolding *(1) tots_append by blast
    have lj: "length (flat s (a # ys)) = j" using tots_flat [OF j(2)] .
    have nj: "n = length (flat s us) + j" using n lj *(1) by (simp add: flat_append)
    have tl: "unat (p_tot_len b) = j" "unat (p_len b) \<le> j" using j(2) *(2) by auto
    have run: "pbuf_take_at (Some p) xs offset s
        = (if unat k + length xs \<le> j then take_at_here a b (unat k) xs s else Some (ERR_MEM, s))"
      using q(1) Some *(2) tl by (simp add: pbuf_take_at_def pbuf_skip_def take_at_here_def Let_def)
    show ?thesis
    proof (cases "unat k + length xs \<le> j")
      case True
      have ap': "apart s (a # ys)" using ap *(1) by (auto simp: apart_def)
      from take_at_here_spec [OF *(3) ap' j(2) *(2) k True] obtain m where
        m: "take_at_here a b (unat k) xs s = Some (ERR_OK, s\<lparr>ps_mem := m\<rparr>)"
        "flat (s\<lparr>ps_mem := m\<rparr>) (a # ys)
          = take (unat k) (flat s (a # ys)) @ xs @ drop (unat k + length xs) (flat s (a # ys))"
        "\<And>x. \<not> in_payload s (a # ys) x \<Longrightarrow> m x = ps_mem s x" by blast
      have "flat (s\<lparr>ps_mem := m\<rparr>) us = flat s us"
        by (rule flat_mem_cong) (use m(3) apart_append [OF ap [unfolded *(1)]] pchain_distinct [OF ch] *(1) in auto)
      then have "flat (s\<lparr>ps_mem := m\<rparr>) as
          = take (unat offset) (flat s as) @ xs @ drop (unat offset + length xs) (flat s as)"
        using m(2) *(4) unfolding *(1) flat_append by simp
      moreover have "m x = ps_mem s x" if "\<not> in_payload s as x" for x
        using that m(3) [of x] *(1) by (auto simp: in_payload_def)
      ultimately show ?thesis using run True m(1) nj *(4) k tl by auto
    next
      case False
      then show ?thesis using run nj *(4) by simp
    qed
  qed
qed

lemma demo_chain_apart: "apart demo_chain [100, 200]"
  by (simp add: apart_def demo_chain_def new_pbuf_def)

theorem pbuf_take_at_writes_witness:
  "\<exists>m. pbuf_take_at (Some 100) [1, 2, 3] 1 demo_chain = Some (ERR_OK, demo_chain\<lparr>ps_mem := m\<rparr>)
    \<and> flat (demo_chain\<lparr>ps_mem := m\<rparr>) [100, 200] = [10, 1, 2, 3, 41]"
  using pbuf_take_at_writes [OF demo_chain_facts(1) demo_chain_apart demo_chain_facts(3), of 1 "[1, 2, 3]"]
  by (auto simp: demo_chain_facts(2))

section \<open>Joining, cutting and headers\<close>

text \<open>The new table differs from the old one in links and total lengths of \<open>as\<close> only.\<close>

definition relinked :: "(nat \<rightharpoonup> pbuf) \<Rightarrow> (nat \<rightharpoonup> pbuf) \<Rightarrow> nat list \<Rightarrow> bool" where
  "relinked B B' as \<longleftrightarrow> (\<forall>x. x \<notin> set as \<longrightarrow> B' x = B x)
    \<and> (\<forall>x \<in> set as. \<exists>b nx t. B x = Some b \<and> B' x = Some (b\<lparr>p_next := nx, p_tot_len := t\<rparr>))"

lemma relinked_flat: "relinked (ps_bufs s) B as \<Longrightarrow> flat (s\<lparr>ps_bufs := B\<rparr>) xs = flat s xs"
proof (rule flat_cong)
  fix a assume "relinked (ps_bufs s) B as"
  then show "buf_bytes (s\<lparr>ps_bufs := B\<rparr>) a = buf_bytes s a"
    by (cases "a \<in> set as") (auto simp: relinked_def)
qed

lemma relinked_Cons:
  assumes "relinked (B(a \<mapsto> b\<lparr>p_tot_len := t\<rparr>)) B' as" "a \<notin> set as" "B a = Some b"
  shows "relinked B B' (a # as)"
proof -
  have "\<exists>b nx t. B x = Some b \<and> B' x = Some (b\<lparr>p_next := nx, p_tot_len := t\<rparr>)" if x: "x \<in> set (a # as)" for x
  proof (cases "x = a")
    case True
    have "B' a = Some (b\<lparr>p_next := p_next b, p_tot_len := t\<rparr>)" using assms(1,2) by (simp add: relinked_def)
    then show ?thesis using True assms(3) by blast
  next
    case False
    then show ?thesis using assms(1) x unfolding relinked_def by fastforce
  qed
  then show ?thesis using assms(1) unfolding relinked_def by auto
qed

lemma pbuf_cat_loop_spec:
  assumes "pchain (ps_bufs s) (Some h) hs" "pchain (ps_bufs s) (Some t) ts" "set hs \<inter> set ts = {}"
    "tots (ps_bufs s) hs n 0" "tots (ps_bufs s) ts (unat k) 0" "n + unat k < 65536"
    "ps_bufs s t = Some bt" "p_tot_len bt = k"
  shows "\<exists>B. pbuf_cat_loop h t s = Some (s\<lparr>ps_bufs := B\<rparr>) \<and> relinked (ps_bufs s) B hs
    \<and> pchain B (Some h) (hs @ ts) \<and> tots B (hs @ ts) (n + unat k) 0"
  using assms
proof (induction hs arbitrary: h s n)
  case (Cons a as)
  obtain b where b: "h = a" "ps_bufs s a = Some b" "pchain (ps_bufs s) (p_next b) as"
    "unat (p_tot_len b) = n" "unat (p_len b) \<le> n" "tots (ps_bufs s) as (n - unat (p_len b)) 0"
    using Cons.prems(1,4) by auto
  have na: "a \<notin> set as" "a \<notin> set ts" using pchain_distinct [OF Cons.prems(1)] Cons.prems(3) by auto
  have nt: "a \<noteq> t" using na(2) Cons.prems(2) by (cases ts) auto
  have tl: "unat (p_tot_len b + k) = n + unat k" using b(4) Cons.prems(6) by (simp add: unat_word_ariths)
  let ?B = "(ps_bufs s)(a \<mapsto> b\<lparr>p_tot_len := p_tot_len b + k\<rparr>)"
  show ?case
  proof (cases "p_next b")
    case None
    then have as: "as = []" using b(3) by (cases as) auto
    let ?B' = "(ps_bufs s)(a \<mapsto> b\<lparr>p_next := Some t, p_tot_len := p_tot_len b + k\<rparr>)"
    have "pbuf_cat_loop h t s = Some (s\<lparr>ps_bufs := ?B'\<rparr>)"
      using None b Cons.prems(7,8) by (subst pbuf_cat_loop.simps, cases b) (simp add: pbuf_upd_def Let_def)
    moreover have "relinked (ps_bufs s) ?B' (a # as)" using b(2) as unfolding relinked_def by auto
    moreover have "pchain ?B' (Some h) ((a # as) @ ts)" using Cons.prems(2) b as na by simp
    moreover have "tots ?B' ((a # as) @ ts) (n + unat k) 0" using Cons.prems(5) na(2) as b(5,6) tl by simp
    ultimately show ?thesis by blast
  next
    case (Some a')
    define s1 where "s1 = s\<lparr>ps_bufs := ?B\<rparr>"
    have s1: "ps_bufs s1 = ?B" "s1\<lparr>ps_bufs := B'\<rparr> = s\<lparr>ps_bufs := B'\<rparr>" for B' by (simp_all add: s1_def)
    have "pchain (ps_bufs s1) (Some a') as" "pchain (ps_bufs s1) (Some t) ts" "set as \<inter> set ts = {}"
      "tots (ps_bufs s1) as (n - unat (p_len b)) 0" "tots (ps_bufs s1) ts (unat k) 0"
      "n - unat (p_len b) + unat k < 65536" "ps_bufs s1 t = Some bt"
      unfolding s1 using b Some na nt Cons.prems by auto
    from Cons.IH [OF this Cons.prems(8)] obtain B' where
      B': "pbuf_cat_loop a' t s1 = Some (s\<lparr>ps_bufs := B'\<rparr>)" "relinked ?B B' as"
      "pchain B' (Some a') (as @ ts)" "tots B' (as @ ts) (n - unat (p_len b) + unat k) 0"
      unfolding s1 by blast
    have "B' a = Some (b\<lparr>p_tot_len := p_tot_len b + k\<rparr>)" using B'(2) na by (simp add: relinked_def)
    moreover have "pbuf_cat_loop h t s = Some (s\<lparr>ps_bufs := B'\<rparr>)"
      using B'(1) Some b Cons.prems(7,8) by (subst pbuf_cat_loop.simps) (simp add: Let_def s1_def)
    moreover have "n + unat k - unat (p_len b) = n - unat (p_len b) + unat k" using b(5) by simp
    ultimately show ?thesis
      using B'(3,4) Some b tl relinked_Cons [OF B'(2) na(1) b(2)] by (intro exI [of _ B']) simp
  qed
qed simp

text \<open>
  \<open>pbuf_cat\<close> joins two chains: the result is the chain of the pbufs of the first
  followed by those of the second, with the total lengths of a well-formed chain, and its
  data is the concatenation. Only links and total lengths of the first chain are written.
  The sum of the lengths has to fit 16 bits.
\<close>

theorem pbuf_cat_joins:
  assumes "pchain (ps_bufs s) (Some h) hs" "pchain (ps_bufs s) (Some t) ts" "set hs \<inter> set ts = {}"
    "tots (ps_bufs s) hs n 0" "tots (ps_bufs s) ts m 0" "n + m < 65536"
  shows "\<exists>B. pbuf_cat (Some h) (Some t) s = Some (s\<lparr>ps_bufs := B\<rparr>)
    \<and> pchain B (Some h) (hs @ ts) \<and> tots B (hs @ ts) (n + m) 0
    \<and> flat (s\<lparr>ps_bufs := B\<rparr>) (hs @ ts) = flat s hs @ flat s ts \<and> relinked (ps_bufs s) B hs"
proof -
  obtain b where b: "ps_bufs s t = Some b" "unat (p_tot_len b) = m" using assms(2,5) by (cases ts) auto
  have k: "tots (ps_bufs s) ts (unat (p_tot_len b)) 0" "n + unat (p_tot_len b) < 65536"
    using assms(5,6) b by simp_all
  from pbuf_cat_loop_spec [OF assms(1-4) k b(1) refl] obtain B where
    B: "pbuf_cat_loop h t s = Some (s\<lparr>ps_bufs := B\<rparr>)" "relinked (ps_bufs s) B hs"
    "pchain B (Some h) (hs @ ts)" "tots B (hs @ ts) (n + m) 0" using b by auto
  show ?thesis using B b relinked_flat [OF B(2)] by (intro exI [of _ B]) (simp add: pbuf_cat_def flat_append)
qed

definition demo_two :: pbuf_state where
  "demo_two = demo_state\<lparr>ps_mem := (\<lambda>x. of_nat x),
     ps_bufs := [100 \<mapsto> new_pbuf 10 3 3 PBUF_ROM, 200 \<mapsto> new_pbuf 40 2 2 PBUF_ROM]\<rparr>"

lemma demo_two_facts:
  "pchain (ps_bufs demo_two) (Some 100) [100]" "pchain (ps_bufs demo_two) (Some 200) [200]"
  "tots (ps_bufs demo_two) [100] 3 0" "tots (ps_bufs demo_two) [200] 2 0"
  "flat demo_two [100] @ flat demo_two [200] = [10, 11, 12, 40, 41]"
  by (simp_all add: demo_two_def new_pbuf_def flat_def rd_bytes_def upt_rec)

theorem pbuf_cat_joins_witness:
  "\<exists>B. pbuf_cat (Some 100) (Some 200) demo_two = Some (demo_two\<lparr>ps_bufs := B\<rparr>)
    \<and> pchain B (Some 100) [100, 200] \<and> tots B [100, 200] 5 0
    \<and> flat (demo_two\<lparr>ps_bufs := B\<rparr>) [100, 200] = [10, 11, 12, 40, 41]"
  using pbuf_cat_joins [OF demo_two_facts(1,2) _ demo_two_facts(3,4)] demo_two_facts(5) by auto

text \<open>Truncation: the walk to the pbuf with the last byte that stays.\<close>

lemma pbuf_realloc_walk_spec:
  assumes "pchain (ps_bufs s) (Some p) as" "tots (ps_bufs s) as n 0" "unat rem \<le> n" "unat shrink = n - unat rem"
  shows "\<exists>us q vs bq r B. as = us @ q # vs \<and> pbuf_realloc_walk p rem shrink s = Some (q, r, s\<lparr>ps_bufs := B\<rparr>)
    \<and> relinked (ps_bufs s) B us \<and> tots B us (unat rem) (unat r) \<and> ps_bufs s q = Some bq \<and> r \<le> p_len bq
    \<and> pchain (ps_bufs s) (p_next bq) vs \<and> (us \<noteq> [] \<longrightarrow> pchain (B(q \<mapsto> bq\<lparr>p_next := None\<rparr>)) (Some p) (us @ [q]))
    \<and> (us = [] \<longrightarrow> q = p)"
  using assms
proof (induction as arbitrary: p s n rem)
  case (Cons a as)
  obtain b where b: "p = a" "ps_bufs s a = Some b" "pchain (ps_bufs s) (p_next b) as"
    "unat (p_tot_len b) = n" "unat (p_len b) \<le> n" "tots (ps_bufs s) as (n - unat (p_len b)) 0"
    using Cons.prems(1,2) by auto
  have na: "a \<notin> set as" using pchain_distinct [OF Cons.prems(1)] by simp
  show ?case
  proof (cases "rem > p_len b")
    case False
    then have "pbuf_realloc_walk p rem shrink s = Some (a, rem, s\<lparr>ps_bufs := ps_bufs s\<rparr>)"
      using b by (subst pbuf_realloc_walk.simps) simp
    then show ?thesis using b False
      by (intro exI [of _ "[]"] exI [of _ a] exI [of _ as] exI [of _ b] exI [of _ rem] exI [of _ "ps_bufs s"])
        (auto simp: relinked_def)
  next
    case True
    then have rl: "unat (rem - p_len b) = unat rem - unat (p_len b)" "unat (p_len b) < unat rem"
      by (simp_all add: unat_sub word_le_nat_alt word_less_nat_alt)
    have "as \<noteq> []" using b(5,6) rl(2) Cons.prems(3) by auto
    then obtain a' where a': "p_next b = Some a'" using b(3) by (cases as) auto
    let ?b = "b\<lparr>p_tot_len := p_tot_len b - shrink\<rparr>"
    define s1 where "s1 = s\<lparr>ps_bufs := (ps_bufs s)(a \<mapsto> ?b)\<rparr>"
    have s1: "ps_bufs s1 = (ps_bufs s)(a \<mapsto> ?b)" "s1\<lparr>ps_bufs := B'\<rparr> = s\<lparr>ps_bufs := B'\<rparr>" for B'
      by (simp_all add: s1_def)
    have "pchain (ps_bufs s1) (Some a') as" "tots (ps_bufs s1) as (n - unat (p_len b)) 0"
      "unat (rem - p_len b) \<le> n - unat (p_len b)" "unat shrink = n - unat (p_len b) - unat (rem - p_len b)"
      unfolding s1 using b a' na Cons.prems(3,4) rl by auto
    from Cons.IH [OF this] obtain us q vs bq r B where IH: "as = us @ q # vs"
      "pbuf_realloc_walk a' (rem - p_len b) shrink s1 = Some (q, r, s\<lparr>ps_bufs := B\<rparr>)"
      "relinked (ps_bufs s1) B us" "tots B us (unat (rem - p_len b)) (unat r)" "ps_bufs s1 q = Some bq"
      "r \<le> p_len bq" "pchain (ps_bufs s1) (p_next bq) vs"
      "us \<noteq> [] \<longrightarrow> pchain (B(q \<mapsto> bq\<lparr>p_next := None\<rparr>)) (Some a') (us @ [q])" "us = [] \<longrightarrow> q = a'"
      unfolding s1(2) by blast
    have nq: "q \<noteq> a" "a \<notin> set us" "a \<notin> set vs" using na IH(1) by auto
    have Ba: "B a = Some ?b" using IH(3) nq by (simp add: relinked_def s1)
    have "unat (p_tot_len b - shrink) = unat rem"
      using b(4) Cons.prems(3,4) by (simp add: unat_sub word_le_nat_alt)
    then have "tots B (a # us) (unat rem) (unat r)" using Ba IH(4) rl by simp
    moreover have "pbuf_realloc_walk p rem shrink s = Some (q, r, s\<lparr>ps_bufs := B\<rparr>)"
      using b True a' IH(2) by (subst pbuf_realloc_walk.simps) (simp add: s1_def)
    moreover have "relinked (ps_bufs s) B (a # us)"
      by (rule relinked_Cons [OF IH(3) [unfolded s1] nq(2) b(2)])
    moreover have "pchain (B(q \<mapsto> bq\<lparr>p_next := None\<rparr>)) (Some p) ((a # us) @ [q])"
      using IH(8,9) Ba nq b(1) a' by (cases "us = []") auto
    moreover have "ps_bufs s q = Some bq" "pchain (ps_bufs s) (p_next bq) vs"
      using IH(5,7) nq unfolding s1 by auto
    moreover have "a # as = (a # us) @ q # vs" using IH(1) by simp
    ultimately show ?thesis using IH(6) by blast
  qed
qed simp

lemma relinked_pinv:
  assumes "pinv s" "relinked (ps_bufs s) B as"
  shows "pinv (s\<lparr>ps_bufs := B\<rparr>)"
proof -
  obtain bs hp hq where i: "pinv_at s bs hp hq" using assms(1) by (auto simp: pinv_def)
  have "placed s bs hp hq x b'" if b': "B x = Some b'" for x b'
  proof (cases "x \<in> set as")
    case True
    then obtain b nx tl where b: "ps_bufs s x = Some b" "b' = b\<lparr>p_next := nx, p_tot_len := tl\<rparr>"
      using assms(2) b' unfolding relinked_def by fastforce
    show ?thesis by (rule placed_fields [of _ b]) (use i b in \<open>auto simp: pinv_at_def\<close>)
  next
    case False
    then have "ps_bufs s x = Some b'" using assms(2) b' by (simp add: relinked_def)
    then show ?thesis using i by (simp add: pinv_at_def)
  qed
  moreover have "src_of B x = src_of (ps_bufs s) x" for x
    using assms(2) by (cases "x \<in> set as") (force simp: relinked_def src_of_def pbuf_get_allocsrc_def)+
  then have "src_of B = src_of (ps_bufs s)" by (rule ext)
  then have "accounted (ps_ram s) B bs hp hq"
    using i by (simp add: pinv_at_def accounted_def)
  ultimately have "pinv_at (s\<lparr>ps_bufs := B\<rparr>) bs hp hq"
    using i by (simp add: pinv_at_def placed_state [of "s\<lparr>ps_bufs := B\<rparr>" s])
  then show ?thesis by (rule pinv_atI)
qed

text \<open>Cutting the last pbuf, the memory of a PBUF_RAM included.\<close>

lemma realloc_trim:
  assumes pi: "pinv s" and b: "ps_bufs s q = Some b" and r: "r \<le> p_len b"
  shows "\<exists>h. (if pbuf_get_allocsrc b = 0x00 \<and> r \<noteq> p_len b
      then map_option (\<lambda>(_, h). s\<lparr>ps_heap := h\<rparr>) (mem_trim (ps_heap s) (q - ps_ram s) (p_payload b - q + unat r))
      else Some s) = Some (s\<lparr>ps_heap := h\<rparr>)
    \<and> pinv (s\<lparr>ps_heap := h, ps_bufs := (ps_bufs s)(q \<mapsto> b\<lparr>p_len := r, p_tot_len := r\<rparr>)\<rparr>)"
    (is "\<exists>h. ?run = _ \<and> pinv (?s h)")
proof -
  have r': "unat r \<le> unat (p_len b)" using r by (simp add: word_le_nat_alt)
  show ?thesis
  proof (cases "pbuf_get_allocsrc b = 0x00 \<and> r \<noteq> p_len b")
    case False
    have "pinv (?s (ps_heap s))"
      using pinv_fields [OF pi b, of "b\<lparr>p_len := r, p_tot_len := r\<rparr>"] r' by simp
    then show ?thesis using False by (intro exI [of _ "ps_heap s"]) auto
  next
    case True
    obtain bs hp hq where i: "pinv_at s bs hp hq" using pi by (auto simp: pinv_def)
    have "placed s bs hp hq q b" using i b by (simp add: pinv_at_def)
    then obtain k e where ke: "q = ps_ram s + k" "(k, e) \<in> heap_allocs bs"
      "q + SIZEOF_STRUCT_PBUF \<le> p_payload b" "p_payload b + unat (p_len b) \<le> ps_ram s + e"
      using True by (auto simp: placed_def)
    have hi: "heap_inv (ps_heap s) bs" using i by (simp add: pinv_at_def)
    have le: "k + (p_payload b - q + unat r) \<le> e" using ke r' by linarith
    from mem_trim_spec [OF hi ke(2) le] obtain h bs' e' where
      h: "mem_trim (ps_heap s) k (p_payload b - q + unat r) = Some (Some k, h)" "heap_inv h bs'"
      "k + (p_payload b - q + unat r) \<le> e'" "heap_allocs bs' = insert (k, e') (heap_allocs bs - {(k, e)})" by blast
    let ?B = "(ps_bufs s)(q \<mapsto> b\<lparr>p_len := r, p_tot_len := r\<rparr>)"
    have "placed s bs' hp hq x b'" if "?B x = Some b'" for x b'
    proof (cases "x = q")
      case True
      have "b' = b\<lparr>p_len := r, p_tot_len := r\<rparr>" using that True by simp
      moreover have "p_payload b + unat r \<le> ps_ram s + e'" using h(3) ke by linarith
      ultimately show ?thesis
        using True \<open>pbuf_get_allocsrc b = 0x00 \<and> r \<noteq> p_len b\<close> ke h(4)
        by (auto simp: placed_def pbuf_get_allocsrc_def)
    next
      case False
      then have "placed s bs hp hq x b'" using i that by (simp add: pinv_at_def)
      then show ?thesis using False ke(1) h(4) by (auto simp: placed_def split: if_splits)
    qed
    moreover have "accounted (ps_ram s) ?B bs hp hq"
      using i by (subst accounted_same [where B = "ps_bufs s" and b = b]) (simp_all add: b pbuf_get_allocsrc_def pinv_at_def)
    then have "accounted (ps_ram s) ?B bs' hp hq" by (rule accounted_trim [OF _ ke(2) h(4)])
    ultimately have "pinv_at (s\<lparr>ps_bufs := ?B, ps_heap := h, ps_pools := ps_pools s\<rparr>) bs' hp hq"
      using i by (intro pinv_bufs [OF i h(2)]) (auto simp: pinv_at_def)
    then have "pinv_at (?s h) bs' hp hq" by (cases s) simp
    then have "pinv (?s h)" by (rule pinv_atI)
    then show ?thesis using True h(1) ke(1) by (intro exI [of _ h]) simp
  qed
qed

lemma after_free_cong:
  "(\<And>a. a \<in> set as \<Longrightarrow> B' a = B a) \<Longrightarrow> B' x = B x \<Longrightarrow> after_free B' as x = after_free B as x"
proof -
  assume *: "\<And>a. a \<in> set as \<Longrightarrow> B' a = B a" and x: "B' x = B x"
  have "doomed B' as = doomed B as" unfolding doomed_def by (rule takeWhile_cong) (simp_all add: *)
  then show ?thesis using x by (auto simp: after_free_def)
qed

lemma after_free_other: "x \<notin> set as \<Longrightarrow> after_free B as x = B x"
  using set_doomed [of B as] nth_mem [of "length (doomed B as)" as] by (auto simp: after_free_def not_le)

lemma pbuf_free_spec:
  assumes "pinv s" "pchain (ps_bufs s) p as" "\<forall>a \<in> set as. p_ref (the (ps_bufs s a)) \<noteq> 0"
  shows "\<exists>c s'. pbuf_free p s = Some (c, s') \<and> pinv s' \<and> ps_bufs s' = after_free (ps_bufs s) as \<and> ps_mem s' = ps_mem s"
proof (cases p)
  case None
  then have "as = []" using assms(2) by (cases as) auto
  then show ?thesis using None assms(1) by (auto simp: pbuf_free_def after_free_def doomed_def)
next
  case (Some a)
  then show ?thesis using pbuf_free_loop_spec [OF assms, of 0] by (auto simp: pbuf_free_def)
qed

text \<open>The end of \<open>pbuf_realloc\<close>: the last pbuf is cut, the tail freed.\<close>

lemma realloc_tail:
  assumes "pinv s" "ps_bufs s q = Some bq" "r \<le> p_len bq" "pchain (ps_bufs s) (p_next bq) vs" "q \<notin> set vs"
    "\<forall>a \<in> set vs. p_ref (the (ps_bufs s a)) \<noteq> 0"
  shows "\<exists>s'. do { s \<leftarrow> (if pbuf_get_allocsrc bq = 0x00 \<and> r \<noteq> p_len bq
                  then map_option (\<lambda>(_, h). s\<lparr>ps_heap := h\<rparr>)
                    (mem_trim (ps_heap s) (q - ps_ram s) (p_payload bq - q + unat r))
                  else Some s);
            s \<leftarrow> pbuf_upd q (\<lambda>b. b\<lparr>p_len := r, p_tot_len := r\<rparr>) s;
            s \<leftarrow> (if p_next bq \<noteq> None then map_option snd (pbuf_free (p_next bq) s) else Some s);
            pbuf_upd q (\<lambda>b. b\<lparr>p_next := None\<rparr>) s } = Some s'
    \<and> pinv s' \<and> ps_mem s' = ps_mem s
    \<and> ps_bufs s' = (after_free (ps_bufs s) vs)(q \<mapsto> bq\<lparr>p_next := None, p_tot_len := r, p_len := r\<rparr>)"
proof -
  let ?b = "bq\<lparr>p_len := r, p_tot_len := r\<rparr>"
  obtain h where h: "(if pbuf_get_allocsrc bq = 0x00 \<and> r \<noteq> p_len bq
      then map_option (\<lambda>(_, h). s\<lparr>ps_heap := h\<rparr>) (mem_trim (ps_heap s) (q - ps_ram s) (p_payload bq - q + unat r))
      else Some s) = Some (s\<lparr>ps_heap := h\<rparr>)" "pinv (s\<lparr>ps_heap := h, ps_bufs := (ps_bufs s)(q \<mapsto> ?b)\<rparr>)"
    using realloc_trim [OF assms(1-3)] by blast
  define s2 where "s2 = s\<lparr>ps_heap := h, ps_bufs := (ps_bufs s)(q \<mapsto> ?b)\<rparr>"
  have s2: "pinv s2" "ps_bufs s2 = (ps_bufs s)(q \<mapsto> ?b)" "ps_mem s2 = ps_mem s" using h(2) by (simp_all add: s2_def)
  have upd: "pbuf_upd q (\<lambda>b. b\<lparr>p_len := r, p_tot_len := r\<rparr>) (s\<lparr>ps_heap := h\<rparr>) = Some s2"
    using assms(2) by (simp add: pbuf_upd_def s2_def)
  have "pchain (ps_bufs s2) (p_next bq) vs" "\<forall>a \<in> set vs. p_ref (the (ps_bufs s2 a)) \<noteq> 0"
    using assms(4-6) by (auto simp: s2)
  from pbuf_free_spec [OF s2(1) this] obtain c s3 where s3: "pbuf_free (p_next bq) s2 = Some (c, s3)" "pinv s3"
    "ps_bufs s3 = after_free (ps_bufs s2) vs" "ps_mem s3 = ps_mem s" using s2(3) by auto
  have q3: "ps_bufs s3 q = Some ?b" using assms(5) by (simp add: s3 s2 after_free_other)
  let ?s4 = "s3\<lparr>ps_bufs := (ps_bufs s3)(q \<mapsto> ?b\<lparr>p_next := None\<rparr>)\<rparr>"
  have fr: "(if p_next bq \<noteq> None then map_option snd (pbuf_free (p_next bq) s2) else Some s2) = Some s3"
    using s3(1) by (cases "p_next bq") (auto simp: pbuf_free_def)
  have "pinv ?s4" by (rule pinv_fields [OF s3(2) q3]) simp_all
  moreover have "ps_bufs ?s4 = (after_free (ps_bufs s) vs)(q \<mapsto> bq\<lparr>p_next := None, p_tot_len := r, p_len := r\<rparr>)"
  proof (rule ext)
    fix x
    have "x \<noteq> q \<Longrightarrow> after_free (ps_bufs s2) vs x = after_free (ps_bufs s) vs x"
      using assms(5) by (intro after_free_cong) (auto simp: s2)
    then show "ps_bufs ?s4 x
        = ((after_free (ps_bufs s) vs)(q \<mapsto> bq\<lparr>p_next := None, p_tot_len := r, p_len := r\<rparr>)) x"
      by (cases bq) (simp add: s3(3))
  qed
  moreover have "pbuf_upd q (\<lambda>b. b\<lparr>p_next := None\<rparr>) s3 = Some ?s4" using q3 by (simp add: pbuf_upd_def)
  ultimately show ?thesis
    unfolding h(1) Option.bind_lunit upd fr using s3(4) by (intro exI [of _ ?s4]) simp
qed

lemma pchain_next:
  "(\<And>a. a \<in> set as \<Longrightarrow> map_option p_next (B' a) = map_option p_next (B a)) \<Longrightarrow> pchain B p as \<Longrightarrow> pchain B' p as"
proof (induction as arbitrary: p)
  case (Cons a as)
  obtain b where b: "p = Some a" "B a = Some b" "pchain B (p_next b) as" using Cons.prems(2) by auto
  then obtain b' where "B' a = Some b'" "p_next b' = p_next b"
    using Cons.prems(1) [of a] by (cases "B' a") auto
  then show ?case using b Cons.IH [of "p_next b"] Cons.prems(1) by auto
qed simp

lemma tots_length: "tots (ps_bufs s) as n m \<Longrightarrow> n = m + length (flat s as)"
  by (induction as arbitrary: n) (fastforce simp: flat_Cons)+

text \<open>What is left after the cut, given the first part relinked by the walk.\<close>

lemma realloc_result:
  assumes as: "as = us @ q # vs" "distinct as" and w: "relinked (ps_bufs s) B us" "tots B us n (unat r)"
    "ps_bufs s q = Some bq" "r \<le> p_len bq"
    and ch: "us \<noteq> [] \<longrightarrow> pchain (B(q \<mapsto> bq\<lparr>p_next := None\<rparr>)) (Some p) (us @ [q])" "us = [] \<longrightarrow> q = p"
    and s': "ps_mem s' = ps_mem s"
    "ps_bufs s' = (after_free B vs)(q \<mapsto> bq\<lparr>p_next := None, p_tot_len := r, p_len := r\<rparr>)"
  shows "pchain (ps_bufs s') (Some p) (us @ [q])" "tots (ps_bufs s') (us @ [q]) n 0"
    "flat s' (us @ [q]) = take n (flat s as)"
    "x \<notin> set (us @ [q]) \<Longrightarrow> ps_bufs s' x = after_free (ps_bufs s) vs x"
proof -
  have us: "ps_bufs s' x = B x" if "x \<in> set us" for x
    using that as by (simp add: s' after_free_other disjoint_iff)
  show "pchain (ps_bufs s') (Some p) (us @ [q])"
  proof (cases "us = []")
    case False
    have "pchain (B(q \<mapsto> bq\<lparr>p_next := None\<rparr>)) (Some p) (us @ [q])" using ch False by blast
    moreover have "map_option p_next (ps_bufs s' a) = map_option p_next ((B(q \<mapsto> bq\<lparr>p_next := None\<rparr>)) a)"
      if "a \<in> set (us @ [q])" for a
      using that us [of a] as by (cases "a = q") (simp_all add: s')
    ultimately show ?thesis by (rule pchain_next [rotated])
  qed (use ch s' in auto)
  have tu: "tots (ps_bufs s') us n (unat r)" using tots_same [of us "ps_bufs s'" B] w(2) us by auto
  then show "tots (ps_bufs s') (us @ [q]) n 0" unfolding tots_append using s' by auto
  have fu: "flat s' us = flat s us"
  proof -
    have "flat s' us = flat (s\<lparr>ps_bufs := B\<rparr>) us" by (rule flat_cong) (simp add: us s'(1))
    then show ?thesis by (simp add: relinked_flat [OF w(1)])
  qed
  have n: "n = unat r + length (flat s us)" using tots_length [OF tu] fu by simp
  have "flat s' [q] = take (unat r) (rd_bytes (ps_mem s) (p_payload bq) (unat (p_len bq)))"
    using w(4) by (simp add: flat_def s' rd_bytes_take word_le_nat_alt min_def)
  then show "flat s' (us @ [q]) = take n (flat s as)"
    using w(3,4) n as(1) by (simp add: flat_append fu flat_Cons word_le_nat_alt)
  show "ps_bufs s' x = after_free (ps_bufs s) vs x" if x: "x \<notin> set (us @ [q])"
  proof -
    have "after_free B vs x = after_free (ps_bufs s) vs x"
      by (rule after_free_cong) (use w(1) as x in \<open>auto simp: relinked_def\<close>)
    then show ?thesis using x by (simp add: s')
  qed
qed

lemma realloc_cut:
  assumes "pinv s" and ch: "pchain (ps_bufs s) (Some p) as" and t: "tots (ps_bufs s) as n 0"
    and refs: "\<forall>a \<in> set as. p_ref (the (ps_bufs s a)) \<noteq> 0"
    and b: "ps_bufs s p = Some b" "unat (p_tot_len b) = n" and less: "unat new_len < n"
  shows "\<exists>us vs s'. as = us @ vs \<and> us \<noteq> [] \<and> pbuf_realloc p new_len s = Some s' \<and> pinv s'
      \<and> pchain (ps_bufs s') (Some p) us \<and> tots (ps_bufs s') us (unat new_len) 0
      \<and> flat s' us = take (unat new_len) (flat s as)
      \<and> (\<forall>x. x \<notin> set us \<longrightarrow> ps_bufs s' x = after_free (ps_bufs s) vs x)"
proof -
  let ?k = "p_tot_len b - new_len"
  have "unat ?k = n - unat new_len" using b less by (simp add: unat_sub word_le_nat_alt)
  from pbuf_realloc_walk_spec [OF ch t less_imp_le [OF less] this] obtain us q vs bq r B where
    w: "as = us @ q # vs" "pbuf_realloc_walk p new_len ?k s = Some (q, r, s\<lparr>ps_bufs := B\<rparr>)"
    "relinked (ps_bufs s) B us" "tots B us (unat new_len) (unat r)" "ps_bufs s q = Some bq" "r \<le> p_len bq"
    "pchain (ps_bufs s) (p_next bq) vs"
    "us \<noteq> [] \<longrightarrow> pchain (B(q \<mapsto> bq\<lparr>p_next := None\<rparr>)) (Some p) (us @ [q])" "us = [] \<longrightarrow> q = p"
    by blast
  have d: "distinct (us @ q # vs)" using pchain_distinct [OF ch] w(1) by simp
  define s1 where "s1 = s\<lparr>ps_bufs := B\<rparr>"
  have s1: "pinv s1" "ps_bufs s1 = B" "ps_mem s1 = ps_mem s"
    using relinked_pinv [OF assms(1) w(3)] by (simp_all add: s1_def)
  have out: "B x = ps_bufs s x" if "x \<notin> set us" for x using w(3) that by (simp add: relinked_def)
  have vs: "x \<notin> set us" if "x \<in> set (q # vs)" for x using d that by auto
  have q: "ps_bufs s1 q = Some bq" "pchain (ps_bufs s1) (p_next bq) vs" "q \<notin> set vs"
    "\<forall>a \<in> set vs. p_ref (the (ps_bufs s1 a)) \<noteq> 0"
    using w(1,5,7) d refs out vs pchain_cong [of vs B "ps_bufs s"] unfolding s1 by auto
  note tail = realloc_tail [OF s1(1) q(1) w(6) q(2-4)]
  obtain s' where run: "pbuf_realloc p new_len s = Some s'" and s': "pinv s'" "ps_mem s' = ps_mem s"
    "ps_bufs s' = (after_free B vs)(q \<mapsto> bq\<lparr>p_next := None, p_tot_len := r, p_len := r\<rparr>)"
  proof -
    have "pbuf_realloc_walk p new_len ?k s = Some (q, r, s1)" unfolding s1_def by (rule w(2))
    moreover have "\<not> new_len \<ge> p_tot_len b" using b less by (simp add: word_le_nat_alt)
    ultimately show ?thesis
      using tail that unfolding s1(2,3) by (elim exE conjE) (simp add: pbuf_realloc_def b(1) q(1))
  qed
  note res = realloc_result [OF w(1) pchain_distinct [OF ch] w(3-6,8,9) s'(2,3)]
  have "as = (us @ [q]) @ vs" "us @ [q] \<noteq> []" using w(1) by simp_all
  then show ?thesis using run s'(1) res by blast
qed


text \<open>
  C33: \<open>pbuf_realloc\<close> truncates a chain: for every shorter length the call returns, the chain
  that is left holds exactly the first \<open>new_len\<close> bytes of the data with the total lengths
  of a well-formed chain, the pbufs behind it lost one reference from the head of that
  tail on (those with no other reference are gone, their memory back with the
  allocators), nothing else changed, and every pbuf left is still backed by memory of its
  own. A chain that is not longer stays as it is.
\<close>

theorem pbuf_realloc_truncates:
  assumes "pinv s" and "pchain (ps_bufs s) (Some p) as" and "tots (ps_bufs s) as n 0"
    and "\<forall>a \<in> set as. p_ref (the (ps_bufs s a)) \<noteq> 0"
  shows "if n \<le> unat new_len then pbuf_realloc p new_len s = Some s
    else \<exists>us vs s'. as = us @ vs \<and> us \<noteq> [] \<and> pbuf_realloc p new_len s = Some s' \<and> pinv s'
      \<and> pchain (ps_bufs s') (Some p) us \<and> tots (ps_bufs s') us (unat new_len) 0
      \<and> flat s' us = take (unat new_len) (flat s as)
      \<and> (\<forall>x. x \<notin> set us \<longrightarrow> ps_bufs s' x = after_free (ps_bufs s) vs x)"
proof -
  obtain b where b: "ps_bufs s p = Some b" "unat (p_tot_len b) = n" using assms(2,3) by (cases as) auto
  show ?thesis
  proof (cases "n \<le> unat new_len")
    case True
    then show ?thesis using b by (simp add: pbuf_realloc_def word_le_nat_alt)
  next
    case False
    then show ?thesis using realloc_cut [OF assms b, of new_len] by (simp add: not_le)
  qed
qed

theorem pbuf_realloc_truncates_witness:
  "\<exists>p s s'. pbuf_alloc PBUF_RAW 100 PBUF_RAM demo_state = Some (Some p, s) \<and> pbuf_realloc p 60 s = Some s'
     \<and> pinv s' \<and> flat s' [p] = take 60 (flat s [p])"
proof -
  obtain p s where s: "pbuf_alloc PBUF_RAW 100 PBUF_RAM demo_state = Some (Some p, s)" "pinv s"
    "ps_bufs s = [p \<mapsto> new_pbuf (p + 24) 100 100 PBUF_RAM]" using demo_ram by blast
  have "pchain (ps_bufs s) (Some p) [p]" "tots (ps_bufs s) [p] 100 0"
    "\<forall>a \<in> set [p]. p_ref (the (ps_bufs s a)) \<noteq> 0" using s(3) by (simp_all add: new_pbuf_def)
  from pbuf_realloc_truncates [OF s(2) this, of 60] obtain us vs s' where
    s': "[p] = us @ vs" "us \<noteq> []" "pbuf_realloc p 60 s = Some s'" "pinv s'" "flat s' us = take 60 (flat s [p])" by auto
  moreover from s'(1,2) have "us = [p]" by (cases us) auto
  ultimately show ?thesis using s(1) by blast
qed

text \<open>Making room for a header moves the payload pointer back within the memory of the pbuf.\<close>

lemma add_header_cases:
  assumes "pbuf_add_header (Some a) k s = Some (False, s')" "k \<noteq> 0"
  obtains b where "ps_bufs s a = Some b" "k \<le> 0xFFFF" "unat (p_tot_len b) + k < 65536"
    "a + SIZEOF_STRUCT_PBUF + k \<le> p_payload b" "p_type_internal b AND 0x80 \<noteq> 0"
    "s' = s\<lparr>ps_bufs := (ps_bufs s)(a \<mapsto> b\<lparr>p_payload := p_payload b - k,
        p_len := p_len b + of_nat k, p_tot_len := p_tot_len b + of_nat k\<rparr>)\<rparr>"
proof -
  obtain b where b: "ps_bufs s a = Some b" "k \<le> 0xFFFF" "\<not> (of_nat k :: u16) + p_tot_len b < of_nat k"
    "a + SIZEOF_STRUCT_PBUF + k \<le> p_payload b" "p_type_internal b AND 0x80 \<noteq> 0"
    "s' = s\<lparr>ps_bufs := (ps_bufs s)(a \<mapsto> b\<lparr>p_payload := p_payload b - k,
        p_len := p_len b + of_nat k, p_tot_len := p_tot_len b + of_nat k\<rparr>)\<rparr>"
    using assms by (cases "ps_bufs s a")
      (auto simp: pbuf_add_header_def pbuf_add_header_impl_def PBUF_TYPE_FLAG_STRUCT_DATA_CONTIGUOUS_def
        Let_def not_less split: if_splits)
  have k: "unat (of_nat k :: u16) = k" using b(2) by (simp add: unat_of_nat)
  have "unat (of_nat k + p_tot_len b) = (k + unat (p_tot_len b)) mod 65536"
    by (simp add: unat_word_ariths k)
  then have "unat (p_tot_len b) + k < 65536"
    using b(2,3) k unat_u16_less [of "p_tot_len b"]
    by (cases "k + unat (p_tot_len b) < 65536") (simp_all add: word_less_nat_alt le_mod_geq)
  with b that show ?thesis by blast
qed

text \<open>
  \<open>pbuf_add_header\<close> and \<open>pbuf_remove_header\<close> are inverse: when room for \<open>k\<close> bytes was made
  in front of the data, the chain is well formed with \<open>k\<close> more bytes, its data is the old
  data behind the \<open>k\<close> bytes in front of it, the payload still lies in the memory of the
  pbuf, and removing the header gives back the state before.
\<close>

theorem pbuf_header_round_trip:
  assumes pi: "pinv s" and ch: "pchain (ps_bufs s) (Some p) as" and t: "tots (ps_bufs s) as n 0"
    and add: "pbuf_add_header (Some p) k s = Some (False, s')"
  shows "pbuf_remove_header (Some p) k s' = Some (False, s) \<and> pinv s'
    \<and> pchain (ps_bufs s') (Some p) as \<and> tots (ps_bufs s') as (n + k) 0
    \<and> flat s' as = rd_bytes (ps_mem s) (p_payload (the (ps_bufs s' p))) k @ flat s as"
proof (cases "k = 0")
  case True
  then have "s' = s" using add by (simp add: pbuf_add_header_def pbuf_add_header_impl_def)
  then show ?thesis using True assms by (simp add: pbuf_remove_header_def rd_bytes_def)
next
  case False
  obtain b where b: "ps_bufs s p = Some b" "k \<le> 0xFFFF" "unat (p_tot_len b) + k < 65536"
    "p + SIZEOF_STRUCT_PBUF + k \<le> p_payload b" "p_type_internal b AND 0x80 \<noteq> 0"
    and s': "s' = s\<lparr>ps_bufs := (ps_bufs s)(p \<mapsto> b\<lparr>p_payload := p_payload b - k,
        p_len := p_len b + of_nat k, p_tot_len := p_tot_len b + of_nat k\<rparr>)\<rparr>"
    using add_header_cases [OF add False] by blast
  obtain ys where as: "as = p # ys" using ch by (cases as) auto
  have na: "p \<notin> set ys" using pchain_distinct [OF ch] as by simp
  have tb: "unat (p_tot_len b) = n" "unat (p_len b) \<le> n" "tots (ps_bufs s) ys (n - unat (p_len b)) 0"
    using t b(1) as by auto
  have k: "unat (of_nat k :: u16) = k" using b(2) by (simp add: unat_of_nat)
  have l: "unat (p_len b + of_nat k) = unat (p_len b) + k" "unat (p_tot_len b + of_nat k) = n + k"
    using b(3) tb(1,2) by (simp_all add: unat_word_ariths k)
  have "pbuf_remove_header (Some p) k s' = Some (False, s)"
  proof -
    have "of_nat k \<le> p_len b + of_nat k" using l k by (simp add: word_le_nat_alt)
    then show ?thesis using False b(1,2,4) unfolding s' by (simp add: pbuf_remove_header_def fun_upd_idem)
  qed
  moreover have "pinv s'"
    unfolding s' by (rule pinv_refield_placed [OF pi b(1)])
      (use b(4) l in \<open>auto simp: placed_def pbuf_get_allocsrc_def le_diff_conv2 split: if_splits\<close>)
  moreover have "flat s' as = rd_bytes (ps_mem s) (p_payload (the (ps_bufs s' p))) k @ flat s as"
  proof -
    have "flat s' ys = flat s ys" using na by (intro flat_cong) (auto simp: s')
    moreover have "rd_bytes (ps_mem s) (p_payload b - k) (unat (p_len b) + k)
        = rd_bytes (ps_mem s) (p_payload b - k) k @ rd_bytes (ps_mem s) (p_payload b) (unat (p_len b))"
      using b(4) by (intro nth_equalityI) (auto simp: nth_append)
    ultimately show ?thesis using b(1) l unfolding as by (simp add: flat_def s')
  qed
  ultimately show ?thesis using ch b(1) na tb l unfolding as s' by simp
qed

theorem pbuf_header_round_trip_witness:
  "\<exists>p s s1 s2. pbuf_alloc PBUF_RAW 100 PBUF_RAM demo_state = Some (Some p, s)
     \<and> pbuf_remove_header (Some p) 20 s = Some (False, s1) \<and> pbuf_add_header (Some p) 8 s1 = Some (False, s2)
     \<and> pbuf_remove_header (Some p) 8 s2 = Some (False, s1)"
proof -
  obtain p s where s: "pbuf_alloc PBUF_RAW 100 PBUF_RAM demo_state = Some (Some p, s)" "pinv s"
    "ps_bufs s = [p \<mapsto> new_pbuf (p + 24) 100 100 PBUF_RAM]" using demo_ram by blast
  let ?b = "(new_pbuf (p + 24) 100 100 PBUF_RAM)\<lparr>p_payload := p + 44, p_len := 80, p_tot_len := 80\<rparr>"
  let ?s1 = "s\<lparr>ps_bufs := [p \<mapsto> ?b]\<rparr>"
  have r: "pbuf_remove_header (Some p) 20 s = Some (False, ?s1)"
    using s(3) by (simp add: pbuf_remove_header_def new_pbuf_def add.commute [of _ p])
  have "pinv (s\<lparr>ps_bufs := (ps_bufs s)(p \<mapsto> ?b)\<rparr>)"
    by (rule pinv_refield_placed [OF s(2), of p "new_pbuf (p + 24) 100 100 PBUF_RAM"])
      (auto simp: s(3) placed_def new_pbuf_def pbuf_get_allocsrc_def SIZEOF_STRUCT_PBUF_def split: if_splits)
  then have "pinv ?s1" by (simp add: s(3))
  moreover obtain s2 where a: "pbuf_add_header (Some p) 8 ?s1 = Some (False, s2)"
    by (simp add: pbuf_add_header_def pbuf_add_header_impl_def new_pbuf_def SIZEOF_STRUCT_PBUF_def
        PBUF_TYPE_FLAG_STRUCT_DATA_CONTIGUOUS_def)
  moreover have "pchain (ps_bufs ?s1) (Some p) [p]" "tots (ps_bufs ?s1) [p] 80 0" by (simp_all add: new_pbuf_def)
  ultimately have "pbuf_remove_header (Some p) 8 s2 = Some (False, ?s1)"
    using pbuf_header_round_trip [of ?s1 p "[p]" 80 8 s2] by blast
  with s(1) r a show ?thesis by blast
qed

end
