(* ===== verification/Pbuf_Own.thy ===== *)
theory Pbuf_Own
  imports Pbuf_Data "HOL-Library.Multiset"
begin

text \<open>
  Ownership of packet buffers. Every reference to a pbuf is either a \<open>next\<close> pointer of a live
  pbuf or held by a client (a queue, a local variable); the reference count of a pbuf is the
  number of both. The operations of \<open>pbuf.c\<close> keep this accounting, so that no reference ever
  dangles and nothing leaks.
\<close>

section \<open>The accounting\<close>

definition in_links :: "(nat \<rightharpoonup> pbuf) \<Rightarrow> nat \<Rightarrow> nat set" where
  "in_links B a = {c. \<exists>b. B c = Some b \<and> p_next b = Some a}"

text \<open>\<open>R\<close> is the multiset of references held by clients.\<close>

definition owned :: "(nat \<rightharpoonup> pbuf) \<Rightarrow> nat multiset \<Rightarrow> bool" where
  "owned B R \<longleftrightarrow> finite (dom B)
     \<and> (\<forall>a b. B a = Some b \<longrightarrow> unat (p_ref b) = count R a + card (in_links B a) \<and> p_ref b \<noteq> 0)
     \<and> (\<forall>a \<in># R. B a \<noteq> None)
     \<and> (\<forall>a. B a \<noteq> None \<longrightarrow> (\<exists>as. pchain B (Some a) as))"

lemma in_links_dom: "in_links B a \<subseteq> dom B"
  by (auto simp: in_links_def)

lemma ownedD:
  assumes "owned B R"
  shows owned_finite: "finite (dom B)"
    and owned_ref: "\<And>a b. B a = Some b \<Longrightarrow> unat (p_ref b) = count R a + card (in_links B a)"
    and owned_pos: "\<And>a b. B a = Some b \<Longrightarrow> p_ref b \<noteq> 0"
    and owned_live: "\<And>a. a \<in># R \<Longrightarrow> B a \<noteq> None"
    and owned_chain: "\<And>a. B a \<noteq> None \<Longrightarrow> \<exists>as. pchain B (Some a) as"
  using assms unfolding owned_def by blast+

lemma pchain_self_next: "pchain B (Some a) as \<Longrightarrow> B a = Some b \<Longrightarrow> p_next b \<noteq> Some a"
proof
  assume "pchain B (Some a) as" "B a = Some b" "p_next b = Some a"
  then obtain bs where "as = a # bs" "pchain B (Some a) bs" by (cases as) auto
  then show False using pchain_unique [of B "Some a" as bs] \<open>pchain B (Some a) as\<close> by simp
qed

text \<open>Changing fields other than \<open>next\<close> and the count.\<close>

lemma in_links_upd:
  assumes "B a = Some b"
  shows "in_links (B(a \<mapsto> b')) x = (if p_next b' = Some x then insert a (in_links B x)
    else in_links B x - (if p_next b = Some x then {a} else {}))"
  using assms by (auto simp: in_links_def)

lemma in_links_same_next:
  "B a = Some b \<Longrightarrow> p_next b' = p_next b \<Longrightarrow> in_links (B(a \<mapsto> b')) x = in_links B x"
  by (auto simp: in_links_def)

lemma pchain_same_next:
  assumes "B a = Some b" "p_next b' = p_next b" "pchain B p as"
  shows "pchain (B(a \<mapsto> b')) p as"
  by (rule pchain_next [OF _ assms(3)]) (simp add: assms)

lemma owned_fields:
  assumes "owned B R" "B a = Some b" "p_next b' = p_next b" "p_ref b' = p_ref b"
  shows "owned (B(a \<mapsto> b')) R"
proof -
  have il: "in_links (B(a \<mapsto> b')) x = in_links B x" for x
    using in_links_same_next [of B a b] assms(2,3) by simp
  have "\<exists>as. pchain (B(a \<mapsto> b')) (Some x) as" if "(B(a \<mapsto> b')) x \<noteq> None" for x
  proof -
    have "B x \<noteq> None" using that assms(2) by (auto split: if_splits)
    then obtain as where "pchain B (Some x) as" using owned_chain [OF assms(1)] by blast
    then show ?thesis using pchain_same_next [of B a b b'] assms(2,3) by blast
  qed
  moreover have "unat (p_ref c) = count R x + card (in_links B x) \<and> p_ref c \<noteq> 0" if "(B(a \<mapsto> b')) x = Some c" for x c
    using that assms owned_ref [OF assms(1)] owned_pos [OF assms(1)] by (auto split: if_splits)
  moreover have "finite (dom (B(a \<mapsto> b')))" "\<forall>x \<in># R. (B(a \<mapsto> b')) x \<noteq> None"
    using owned_finite [OF assms(1)] owned_live [OF assms(1)] by auto
  ultimately show ?thesis unfolding owned_def il by blast
qed

section \<open>References\<close>

lemma unat_eq_numeral_255: "unat (x :: u8) = 255 \<Longrightarrow> x = 255"
  by (simp add: word_unat_eq_iff)

text \<open>Taking and dropping a reference that is not the last.\<close>

lemma owned_take:
  assumes o: "owned B R" and b: "B a = Some b" and r: "p_ref b \<noteq> 255"
  shows "owned (B(a \<mapsto> b\<lparr>p_ref := p_ref b + 1\<rparr>)) (add_mset a R)"
proof -
  let ?B = "B(a \<mapsto> b\<lparr>p_ref := p_ref b + 1\<rparr>)"
  have il: "in_links ?B x = in_links B x" for x using in_links_same_next [of B a b] b by simp
  have "unat (p_ref b) \<noteq> 255" using r by (metis unat_eq_numeral_255)
  then have u: "unat (p_ref b + 1) = Suc (unat (p_ref b))" and "p_ref b + 1 \<noteq> 0"
    using unat_u8_less [of "p_ref b"] by (auto simp: unat_word_ariths word_unat_eq_iff)
  have "\<exists>as. pchain ?B (Some x) as" if "?B x \<noteq> None" for x
  proof -
    have "B x \<noteq> None" using that b by (auto split: if_splits)
    then obtain as where "pchain B (Some x) as" using owned_chain [OF o] by blast
    then show ?thesis using pchain_same_next [of B a b "b\<lparr>p_ref := p_ref b + 1\<rparr>"] b by auto
  qed
  moreover have "unat (p_ref c) = count (add_mset a R) x + card (in_links B x) \<and> p_ref c \<noteq> 0"
    if "?B x = Some c" for x c
    using that u \<open>p_ref b + 1 \<noteq> 0\<close> owned_ref [OF o] owned_pos [OF o] b by (auto split: if_splits)
  moreover have "finite (dom ?B)" "\<forall>x \<in># add_mset a R. ?B x \<noteq> None"
    using owned_finite [OF o] owned_live [OF o] by auto
  ultimately show ?thesis unfolding owned_def il by blast
qed

lemma owned_drop:
  assumes o: "owned B (add_mset a R)" and b: "B a = Some b" and r: "p_ref b \<noteq> 1"
  shows "owned (B(a \<mapsto> b\<lparr>p_ref := p_ref b - 1\<rparr>)) R"
proof -
  let ?B = "B(a \<mapsto> b\<lparr>p_ref := p_ref b - 1\<rparr>)"
  have il: "in_links ?B x = in_links B x" for x using in_links_same_next [of B a b] b by simp
  have "unat (p_ref b) \<noteq> 1" "unat (p_ref b) \<noteq> 0"
    using r owned_pos [OF o b] by (auto simp: word_unat_eq_iff)
  then have u: "unat (p_ref b - 1) = unat (p_ref b) - 1" and "p_ref b - 1 \<noteq> 0"
    using r by (auto simp: unat_sub word_le_nat_alt)
  have "\<exists>as. pchain ?B (Some x) as" if "?B x \<noteq> None" for x
  proof -
    have "B x \<noteq> None" using that b by (auto split: if_splits)
    then obtain as where "pchain B (Some x) as" using owned_chain [OF o] by blast
    then show ?thesis using pchain_same_next [of B a b "b\<lparr>p_ref := p_ref b - 1\<rparr>"] b by auto
  qed
  moreover have "unat (p_ref c) = count R x + card (in_links B x) \<and> p_ref c \<noteq> 0" if "?B x = Some c" for x c
    using that u \<open>p_ref b - 1 \<noteq> 0\<close> owned_ref [OF o] owned_pos [OF o] b by (fastforce split: if_splits)
  moreover have "finite (dom ?B)" "\<forall>x \<in># R. ?B x \<noteq> None"
    using owned_finite [OF o] owned_live [OF o] by auto
  ultimately show ?thesis unfolding owned_def il by blast
qed

lemma pchain_in_links:
  assumes "pchain B p as" "a \<in> set as" "p \<noteq> Some a"
  shows "in_links B a \<noteq> {}"
  using assms
proof (induction as arbitrary: p)
  case (Cons x xs)
  obtain b where b: "p = Some x" "B x = Some b" "pchain B (p_next b) xs" using Cons.prems(1) by auto
  have "a \<in> set xs" using Cons.prems(2,3) b(1) by auto
  show ?case
  proof (cases "p_next b = Some a")
    case True
    then show ?thesis using b(2) by (auto simp: in_links_def)
  next
    case False
    then show ?thesis using Cons.IH [OF b(3) \<open>a \<in> set xs\<close>] by simp
  qed
qed simp

definition own_next :: "nat option \<Rightarrow> nat multiset \<Rightarrow> nat multiset" where
  "own_next p R = (case p of None \<Rightarrow> R | Some n \<Rightarrow> add_mset n R)"

text \<open>Dropping the last reference: the \<open>next\<close> pointer of the dead pbuf passes to its releaser.\<close>

lemma owned_release:
  assumes o: "owned B (add_mset a R)" and b: "B a = Some b" and r: "p_ref b = 1"
  shows "owned (B(a := None)) (own_next (p_next b) R)"
proof -
  let ?B = "B(a := None)"
  have fin: "finite (in_links B x)" for x using finite_subset [OF in_links_dom owned_finite [OF o]] .
  have "count (add_mset a R) a + card (in_links B a) = 1" using owned_ref [OF o b] r by simp
  then have na: "a \<notin># R" "in_links B a = {}" using fin [of a] by (auto simp: not_in_iff)
  have il: "in_links ?B x = in_links B x - {a}" for x by (auto simp: in_links_def)
  have ia: "a \<in> in_links B x \<longleftrightarrow> p_next b = Some x" for x using b by (auto simp: in_links_def)
  have "\<exists>as. pchain ?B (Some x) as" if "?B x \<noteq> None" for x
  proof -
    have x: "B x \<noteq> None" "x \<noteq> a" using that by (auto split: if_splits)
    then obtain as where as: "pchain B (Some x) as" using owned_chain [OF o] by blast
    have "a \<notin> set as" using pchain_in_links [OF as] na(2) x(2) by auto
    then have "pchain ?B (Some x) as" using as by simp
    then show ?thesis by blast
  qed
  moreover have "unat (p_ref c) = count (own_next (p_next b) R) x + card (in_links ?B x) \<and> p_ref c \<noteq> 0"
    if "?B x = Some c" for x c
  proof -
    have x: "B x = Some c" "x \<noteq> a" using that by (auto split: if_splits)
    have "unat (p_ref c) = count R x + card (in_links B x)" using owned_ref [OF o x(1)] x(2) by simp
    also have "\<dots> = count (own_next (p_next b) R) x + card (in_links ?B x)"
    proof (cases "p_next b = Some x")
      case True
      then have "card (in_links B x) = Suc (card (in_links B x - {a}))"
        using fin ia by (metis card.remove)
      then show ?thesis using True by (simp add: own_next_def il)
    next
      case False
      then show ?thesis using ia by (auto simp: own_next_def il split: option.split)
    qed
    finally show ?thesis using owned_pos [OF o x(1)] by simp
  qed
  moreover have "?B x \<noteq> None" if "x \<in># own_next (p_next b) R" for x
  proof (cases "x \<in># R")
    case True
    then show ?thesis using owned_live [OF o, of x] na(1) by auto
  next
    case False
    then have n: "p_next b = Some x" using that by (auto simp: own_next_def split: option.splits)
    obtain as where "pchain B (Some a) as" using owned_chain [OF o] b by blast
    then have "B x \<noteq> None" "x \<noteq> a"
      using n b pchain_self_next [of B a as b] by (cases as; cases "tl as"; auto)+
    then show ?thesis by simp
  qed
  moreover have "finite (dom ?B)" using owned_finite [OF o] by auto
  ultimately show ?thesis unfolding owned_def by blast
qed

lemma owned_after_free:
  assumes "owned B (own_next p R)" "pchain B p as"
  shows "owned (after_free B as) R"
  using assms
proof (induction as arbitrary: B p)
  case Nil
  have "after_free B [] = B" by (simp add: after_free_def doomed_def fun_eq_iff)
  then show ?case using Nil by (simp add: own_next_def)
next
  case (Cons a as)
  obtain b where b: "p = Some a" "B a = Some b" "pchain B (p_next b) as" using Cons.prems(2) by auto
  have na: "a \<notin> set as" using pchain_distinct [OF Cons.prems(2)] by simp
  have o: "owned B (add_mset a R)" using Cons.prems(1) b(1) by (simp add: own_next_def)
  show ?case
  proof (cases "p_ref b = 1")
    case True
    have "owned (B(a := None)) (own_next (p_next b) R)" by (rule owned_release [OF o b(2) True])
    moreover have "pchain (B(a := None)) (p_next b) as" using b(3) na by simp
    ultimately have "owned (after_free (B(a := None)) as) R" by (rule Cons.IH)
    then show ?thesis using after_free_Cons [of a as B b] na b(2) True by simp
  next
    case False
    then have eq: "after_free B (a # as) = B(a \<mapsto> b\<lparr>p_ref := p_ref b - 1\<rparr>)"
      using after_free_Cons [of a as B b] na b(2) by simp
    show ?thesis unfolding eq by (rule owned_drop [OF o b(2) False])
  qed
qed

lemma pchain_refs: "owned B R \<Longrightarrow> pchain B p as \<Longrightarrow> \<forall>a \<in> set as. p_ref (the (B a)) \<noteq> 0"
  by (induction as arbitrary: p) (auto dest: owned_pos)

lemma owned_chain_opt: "owned B (own_next p R) \<Longrightarrow> \<exists>as. pchain B p as"
proof (cases p)
  case None
  then have "pchain B p []" by simp
  then show ?thesis by blast
next
  case (Some a)
  assume "owned B (own_next p R)"
  then show ?thesis using owned_live [of B "own_next p R" a] owned_chain [of B "own_next p R" a] Some
    by (simp add: own_next_def)
qed

lemma pbuf_free_owned:
  assumes "pinv s" "owned (ps_bufs s) (own_next p R)"
  shows "\<exists>c s'. pbuf_free p s = Some (c, s') \<and> pinv s' \<and> owned (ps_bufs s') R \<and> ps_mem s' = ps_mem s"
proof -
  obtain as where as: "pchain (ps_bufs s) p as" using owned_chain_opt [OF assms(2)] by blast
  from pbuf_free_spec [OF assms(1) as pchain_refs [OF assms(2) as]] show ?thesis
    using owned_after_free [OF assms(2) as] by auto
qed

text \<open>With no reference held there is no pbuf left.\<close>

lemma owned_empty:
  assumes "owned B {#}"
  shows "B = Map.empty"
proof (rule ccontr)
  assume "B \<noteq> Map.empty"
  then obtain a where a: "B a \<noteq> None" by (meson ext)
  have pred: "\<exists>c. c \<in> in_links B x" if x: "B x \<noteq> None" for x
  proof -
    obtain b where b: "B x = Some b" using x by blast
    have "unat (p_ref b) \<noteq> 0" using owned_pos [OF assms b] by (simp add: word_unat_eq_iff)
    then have "card (in_links B x) \<noteq> 0" using owned_ref [OF assms b] by simp
    then show ?thesis by (metis all_not_in_conv card.empty)
  qed
  have long: "\<exists>c as. pchain B (Some c) as \<and> n \<le> length as" for n
  proof (induction n)
    case 0
    then show ?case using owned_chain [OF assms a] by blast
  next
    case (Suc n)
    then obtain c as where c: "pchain B (Some c) as" "n \<le> length as" by blast
    then have "B c \<noteq> None" by (cases as) auto
    then obtain d where "d \<in> in_links B c" using pred by blast
    then obtain e where "B d = Some e" "p_next e = Some c" by (auto simp: in_links_def)
    then have "pchain B (Some d) (d # as)" using c(1) by simp
    moreover have "Suc n \<le> length (d # as)" using c(2) by simp
    ultimately show ?case by blast
  qed
  obtain c as where c: "pchain B (Some c) as" "Suc (card (dom B)) \<le> length as" using long by blast
  have "set as \<subseteq> dom B" using pchain_in [OF c(1)] by auto
  then have "length as \<le> card (dom B)"
    using pchain_distinct [OF c(1)] owned_finite [OF assms] by (metis card_mono distinct_card)
  with c(2) show False by simp
qed

section \<open>Allocating, joining and cutting\<close>

text \<open>Within a chain every pbuf but the first has exactly one predecessor.\<close>

lemma pchain_closed: "pchain B p as \<Longrightarrow> c \<in> set as \<Longrightarrow> B c = Some b \<Longrightarrow> p_next b = Some y \<Longrightarrow> y \<in> set as"
proof (induction as arbitrary: p)
  case (Cons x xs)
  then show ?case by (cases "c = x"; cases xs) auto
qed simp

lemma chain_in_links:
  assumes "pchain B p as" "a \<in> set as"
  shows "card (in_links B a \<inter> set as) = (if p = Some a then 0 else 1)"
  using assms
proof (induction as arbitrary: p)
  case (Cons x xs)
  obtain b where b: "p = Some x" "B x = Some b" "pchain B (p_next b) xs" using Cons.prems(1) by auto
  have d: "x \<notin> set xs" using pchain_distinct [OF Cons.prems(1)] by simp
  have split: "in_links B a \<inter> set (x # xs) = (if p_next b = Some a then {x} else {}) \<union> (in_links B a \<inter> set xs)"
    using b(2) by (auto simp: in_links_def)
  show ?case
  proof (cases "a = x")
    case True
    have "p_next b \<noteq> Some x" using pchain_self_next [of B x "x # xs" b] Cons.prems(1) b by auto
    moreover have "in_links B x \<inter> set xs = {}"
      using pchain_closed [OF b(3)] d by (auto simp: in_links_def)
    ultimately show ?thesis using True split b(1) by simp
  next
    case False
    then have a: "a \<in> set xs" using Cons.prems(2) by simp
    have f: "finite (in_links B a \<inter> set xs)" by simp
    show ?thesis
    proof (cases "p_next b = Some a")
      case True
      then have "in_links B a \<inter> set xs = {}" using Cons.IH [OF b(3) a] f by simp
      then show ?thesis using True False split b(1) by simp
    next
      case nx: False
      then show ?thesis using Cons.IH [OF b(3) a] False split b(1) by simp
    qed
  qed
qed simp

text \<open>A chain of fresh pbufs with one reference each belongs to whoever holds its head.\<close>

lemma owned_new_chain:
  assumes o: "owned B R" and ch: "pchain B' (Some h) as" and new: "\<forall>a \<in> set as. B a = None \<and> p_ref (the (B' a)) = 1"
    and rest: "\<forall>a. a \<notin> set as \<longrightarrow> B' a = B a"
  shows "owned B' (add_mset h R)"
proof -
  have live: "B' a \<noteq> None" if "a \<in> set as" for a using pchain_in [OF ch that] .
  have inl: "in_links B' x = in_links B x" if "x \<notin> set as" for x
  proof -
    have "c \<notin> set as" if "B' c = Some b" "p_next b = Some x" for c b
    proof
      assume "c \<in> set as"
      then obtain us vs where as: "as = us @ c # vs" by (metis split_list)
      then have "pchain B' (Some c) (c # vs)" using pchain_append [of B' "Some h" us "c # vs"] ch by auto
      then show False using that as \<open>x \<notin> set as\<close> by (cases vs) auto
    qed
    moreover have "c \<notin> set as" if "B c = Some b" for c b using that new by auto
    ultimately show ?thesis using rest by (auto simp: in_links_def) (metis)+
  qed
  have nolink: "in_links B x = {}" if "x \<in> set as" for x
  proof -
    have False if c: "B c = Some b" "p_next b = Some x" for c b
    proof -
      obtain cs where "pchain B (Some c) cs" using owned_chain [OF o] c(1) by blast
      then have "B x \<noteq> None" using c by (cases cs; cases "tl cs") auto
      then show False using new \<open>x \<in> set as\<close> by auto
    qed
    then show ?thesis by (auto simp: in_links_def)
  qed
  have chains: "\<exists>xs. pchain B' (Some a) xs" if live_a: "B' a \<noteq> None" for a
  proof (cases "a \<in> set as")
    case True
    then obtain us vs where as: "as = us @ a # vs" by (metis split_list)
    then have "pchain B' (Some a) (a # vs)" using pchain_append [of B' "Some h" us "a # vs"] ch by auto
    then show ?thesis by blast
  next
    case False
    then obtain xs where xs: "pchain B (Some a) xs" using owned_chain [OF o, of a] live_a rest by auto
    have "B' y = B y" if "y \<in> set xs" for y
      using pchain_in [OF xs that] new rest by (cases "y \<in> set as") auto
    then have "pchain B' (Some a) xs" using pchain_cong [of xs B' B] xs by simp
    then show ?thesis by blast
  qed
  have refs: "unat (p_ref b) = count (add_mset h R) a + card (in_links B' a) \<and> p_ref b \<noteq> 0" if b: "B' a = Some b" for a b
  proof (cases "a \<in> set as")
    case True
    have "in_links B' a \<subseteq> set as"
    proof
      fix c assume "c \<in> in_links B' a"
      then show "c \<in> set as" using rest nolink [OF True] by (cases "c \<in> set as") (auto simp: in_links_def)
    qed
    then have "card (in_links B' a) = (if h = a then 0 else 1)"
      using chain_in_links [OF ch True] by (simp add: Int_absorb2)
    moreover have "count R a = 0" using owned_live [OF o, of a] new True by (auto intro: count_inI)
    moreover have "p_ref b = 1" using new True b by auto
    ultimately show ?thesis by simp
  next
    case False
    then have "B a = Some b" "h \<noteq> a" using rest b ch by (auto elim: pchain.elims)
    then show ?thesis using owned_ref [OF o] owned_pos [OF o] inl [OF False] by auto
  qed
  have "dom B' \<subseteq> dom B \<union> set as" using rest by (auto simp: domIff)
  then have "finite (dom B')" using owned_finite [OF o] by (meson finite_UnI finite_set finite_subset)
  moreover have "\<forall>a \<in># add_mset h R. B' a \<noteq> None"
  proof
    fix a assume "a \<in># add_mset h R"
    then show "B' a \<noteq> None"
      using ch rest live owned_live [OF o, of a] by (cases "a \<in> set as") (auto elim: pchain.elims)
  qed
  ultimately show ?thesis using refs chains unfolding owned_def by blast
qed

text \<open>Only links and counts matter.\<close>

definition links_refs :: "(nat \<rightharpoonup> pbuf) \<Rightarrow> nat \<Rightarrow> (nat option \<times> u8) option" where
  "links_refs B x = map_option (\<lambda>b. (p_next b, p_ref b)) (B x)"

lemma owned_cong:
  assumes eq: "links_refs B' = links_refs B" and o: "owned B R"
  shows "owned B' R"
proof -
  have e: "map_option (\<lambda>b. (p_next b, p_ref b)) (B' x) = map_option (\<lambda>b. (p_next b, p_ref b)) (B x)" for x
    using fun_cong [OF eq, of x] by (simp add: links_refs_def)
  have live: "B' x \<noteq> None \<longleftrightarrow> B x \<noteq> None" for x using e [of x] by (cases "B x"; cases "B' x") auto
  have nx: "map_option p_next (B' x) = map_option p_next (B x)" for x
    using e [of x] by (cases "B x"; cases "B' x") auto
  have il: "in_links B' x = in_links B x" for x
  proof -
    have i: "c \<in> in_links A x \<longleftrightarrow> map_option p_next (A c) = Some (Some x)" for A :: "nat \<rightharpoonup> pbuf" and c
      by (auto simp: in_links_def)
    show ?thesis by (rule set_eqI) (simp only: i nx)
  qed
  have "unat (p_ref b) = count R x + card (in_links B x) \<and> p_ref b \<noteq> 0" if x: "B' x = Some b" for x b
  proof -
    obtain b' where b': "B x = Some b'" "p_ref b' = p_ref b" using e [of x] x by (cases "B x") auto
    show ?thesis using owned_ref [OF o b'(1)] owned_pos [OF o b'(1)] b'(2) by simp
  qed
  moreover have "dom B' = dom B" unfolding dom_def using live by blast
  moreover have "\<exists>as. pchain B' (Some x) as" if x: "B' x \<noteq> None" for x
  proof -
    have "B x \<noteq> None" using x live [of x] by simp
    then obtain as where "pchain B (Some x) as" using owned_chain [OF o, of x] by blast
    then have "pchain B' (Some x) as" by (rule pchain_next [OF nx])
    then show ?thesis by blast
  qed
  moreover have "\<forall>x \<in># R. B' x \<noteq> None" using owned_live [OF o] unfolding live by blast
  moreover have "finite (dom B)" by (rule owned_finite [OF o])
  ultimately show ?thesis unfolding owned_def il by metis
qed

text \<open>Moving a held reference into a \<open>next\<close> pointer, and back.\<close>

lemma owned_link:
  assumes o: "owned B (add_mset t R)" and b: "B l = Some b" "p_next b = None"
    and ts: "pchain B (Some t) ts" "l \<notin> set ts"
  shows "owned (B(l \<mapsto> b\<lparr>p_next := Some t\<rparr>)) R"
proof -
  let ?B = "B(l \<mapsto> b\<lparr>p_next := Some t\<rparr>)"
  have fin: "finite (in_links B x)" for x using finite_subset [OF in_links_dom owned_finite [OF o]] .
  have il: "in_links ?B x = (if x = t then insert l (in_links B x) else in_links B x)" for x
    using b by (auto simp: in_links_def)
  have lt: "l \<notin> in_links B t" using b by (auto simp: in_links_def)
  have ext: "\<exists>as. pchain ?B p as" if "pchain B p as" for p as
    using that
  proof (induction as arbitrary: p)
    case (Cons x xs)
    obtain c where c: "p = Some x" "B x = Some c" "pchain B (p_next c) xs" using Cons.prems by auto
    show ?case
    proof (cases "x = l")
      case True
      then have "pchain ?B p (l # ts)" using c ts by simp
      then show ?thesis by blast
    next
      case False
      obtain as where "pchain ?B (p_next c) as" using Cons.IH [OF c(3)] by blast
      then have "pchain ?B p (x # as)" using False c by simp
      then show ?thesis by blast
    qed
  qed (auto intro: exI [of _ "[]"])
  have "\<exists>as. pchain ?B (Some x) as" if x: "?B x \<noteq> None" for x
  proof -
    have "B x \<noteq> None" using x b by (auto split: if_splits)
    then obtain as where "pchain B (Some x) as" using owned_chain [OF o] by blast
    then show ?thesis by (rule ext)
  qed
  moreover have "unat (p_ref c) = count R x + card (in_links ?B x) \<and> p_ref c \<noteq> 0" if x: "?B x = Some c" for x c
  proof -
    obtain c' where c': "B x = Some c'" "p_ref c' = p_ref c" using x b by (auto split: if_splits)
    have "card (in_links ?B x) = (if x = t then Suc (card (in_links B x)) else card (in_links B x))"
      using fin lt by (simp add: il)
    then show ?thesis using owned_ref [OF o c'(1)] owned_pos [OF o c'(1)] c'(2) by simp
  qed
  moreover have "finite (dom ?B)" "\<forall>x \<in># R. ?B x \<noteq> None" using owned_finite [OF o] owned_live [OF o] by auto
  ultimately show ?thesis unfolding owned_def by blast
qed

lemma owned_unlink:
  assumes o: "owned B R" and b: "B l = Some b"
  shows "owned (B(l \<mapsto> b\<lparr>p_next := None\<rparr>)) (own_next (p_next b) R)"
proof -
  let ?B = "B(l \<mapsto> b\<lparr>p_next := None\<rparr>)"
  have fin: "finite (in_links B x)" for x using finite_subset [OF in_links_dom owned_finite [OF o]] .
  have il: "in_links ?B x = in_links B x - {l}" for x using b by (auto simp: in_links_def)
  have ll: "l \<in> in_links B x \<longleftrightarrow> p_next b = Some x" for x using b by (auto simp: in_links_def)
  have ext: "\<exists>as. pchain ?B p as" if "pchain B p as" for p as
    using that
  proof (induction as arbitrary: p)
    case (Cons x xs)
    obtain c where c: "p = Some x" "B x = Some c" "pchain B (p_next c) xs" using Cons.prems by auto
    show ?case
    proof (cases "x = l")
      case True
      then have "pchain ?B p [l]" using c by simp
      then show ?thesis by blast
    next
      case False
      obtain as where "pchain ?B (p_next c) as" using Cons.IH [OF c(3)] by blast
      then have "pchain ?B p (x # as)" using False c by simp
      then show ?thesis by blast
    qed
  qed (auto intro: exI [of _ "[]"])
  have "\<exists>as. pchain ?B (Some x) as" if x: "?B x \<noteq> None" for x
  proof -
    have "B x \<noteq> None" using x b by (auto split: if_splits)
    then obtain as where "pchain B (Some x) as" using owned_chain [OF o] by blast
    then show ?thesis by (rule ext)
  qed
  moreover have "unat (p_ref c) = count (own_next (p_next b) R) x + card (in_links ?B x) \<and> p_ref c \<noteq> 0"
    if x: "?B x = Some c" for x c
  proof -
    obtain c' where c': "B x = Some c'" "p_ref c' = p_ref c" using x b by (auto split: if_splits)
    have "count R x + card (in_links B x) = count (own_next (p_next b) R) x + card (in_links ?B x)"
      using ll [of x] fin [of x] card.remove [of "in_links B x" l]
      by (auto simp: il own_next_def split: option.split)
    then show ?thesis using owned_ref [OF o c'(1)] owned_pos [OF o c'(1)] c'(2) by simp
  qed
  moreover have "?B x \<noteq> None" if "x \<in># own_next (p_next b) R" for x
  proof (cases "x \<in># R")
    case True
    then show ?thesis using owned_live [OF o, of x] by auto
  next
    case False
    then have n: "p_next b = Some x" using that by (auto simp: own_next_def split: option.splits)
    obtain as where "pchain B (Some l) as" using owned_chain [OF o] b by blast
    then show ?thesis using n b by (cases as; cases "tl as") auto
  qed
  moreover have "finite (dom ?B)" using owned_finite [OF o] by auto
  ultimately show ?thesis unfolding owned_def by blast
qed

lemma pbuf_cat_loop_links:
  assumes "pchain (ps_bufs s) (Some h) hs" "ps_bufs s t \<noteq> None" "t \<notin> set hs"
  shows "\<exists>B. pbuf_cat_loop h t s = Some (s\<lparr>ps_bufs := B\<rparr>) \<and> relinked (ps_bufs s) B hs
    \<and> links_refs B = links_refs ((ps_bufs s)(last hs \<mapsto> (the (ps_bufs s (last hs)))\<lparr>p_next := Some t\<rparr>))"
  using assms
proof (induction hs arbitrary: h s)
  case (Cons a as)
  obtain b bt where b: "h = a" "ps_bufs s a = Some b" "pchain (ps_bufs s) (p_next b) as" "ps_bufs s t = Some bt"
    using Cons.prems(1,2) by auto
  have na: "a \<notin> set as" using pchain_distinct [OF Cons.prems(1)] by simp
  let ?b = "b\<lparr>p_tot_len := p_tot_len b + p_tot_len bt\<rparr>"
  show ?case
  proof (cases "p_next b")
    case None
    then have as: "as = []" using b(3) by (cases as) auto
    let ?B' = "(ps_bufs s)(a \<mapsto> b\<lparr>p_next := Some t, p_tot_len := p_tot_len b + p_tot_len bt\<rparr>)"
    have "pbuf_cat_loop h t s = Some (s\<lparr>ps_bufs := ?B'\<rparr>)"
      using None b by (subst pbuf_cat_loop.simps, cases b) (simp add: pbuf_upd_def Let_def)
    moreover have "relinked (ps_bufs s) ?B' (a # as)" using b(2) as unfolding relinked_def by auto
    moreover have "links_refs ?B' = links_refs ((ps_bufs s)(last (a # as) \<mapsto> (the (ps_bufs s (last (a # as))))\<lparr>p_next := Some t\<rparr>))"
      using b(2) as by (simp add: links_refs_def fun_eq_iff)
    ultimately show ?thesis by blast
  next
    case (Some a')
    define s1 where "s1 = s\<lparr>ps_bufs := (ps_bufs s)(a \<mapsto> ?b)\<rparr>"
    have s1: "ps_bufs s1 = (ps_bufs s)(a \<mapsto> ?b)" "s1\<lparr>ps_bufs := B'\<rparr> = s\<lparr>ps_bufs := B'\<rparr>" for B' by (simp_all add: s1_def)
    have ne: "as \<noteq> []" using b(3) Some by auto
    have "pchain (ps_bufs s1) (Some a') as" "ps_bufs s1 t \<noteq> None" "t \<notin> set as"
      using b Some na Cons.prems(3) by (auto simp: s1)
    from Cons.IH [OF this] obtain B' where
      B': "pbuf_cat_loop a' t s1 = Some (s\<lparr>ps_bufs := B'\<rparr>)" "relinked ((ps_bufs s)(a \<mapsto> ?b)) B' as"
      "links_refs B' = links_refs ((ps_bufs s1)(last as \<mapsto> (the (ps_bufs s1 (last as)))\<lparr>p_next := Some t\<rparr>))"
      unfolding s1(1) [symmetric] s1(2) by blast
    have la: "last as \<noteq> a" using na ne by auto
    have "links_refs B' = links_refs ((ps_bufs s)(last (a # as) \<mapsto> (the (ps_bufs s (last (a # as))))\<lparr>p_next := Some t\<rparr>))"
      unfolding B'(3) s1(1) using ne la b(2) by (auto simp: links_refs_def fun_eq_iff)
    moreover have "pbuf_cat_loop h t s = Some (s\<lparr>ps_bufs := B'\<rparr>)"
      using B'(1) Some b by (subst pbuf_cat_loop.simps) (simp add: Let_def s1_def)
    moreover have "relinked (ps_bufs s) B' (a # as)" by (rule relinked_Cons [OF B'(2) na b(2)])
    ultimately show ?thesis by blast
  qed
qed simp

lemma pchain_last: "pchain B p as \<Longrightarrow> as \<noteq> [] \<Longrightarrow> \<exists>b. B (last as) = Some b \<and> p_next b = None"
  by (induction as arbitrary: p) (auto split: if_splits)

lemma pbuf_cat_owned:
  assumes "pinv s" "owned (ps_bufs s) (add_mset h (add_mset t R))"
    "pchain (ps_bufs s) (Some h) hs" "pchain (ps_bufs s) (Some t) ts" "set hs \<inter> set ts = {}"
  shows "\<exists>s'. pbuf_cat (Some h) (Some t) s = Some s' \<and> pinv s' \<and> owned (ps_bufs s') (add_mset h R)"
proof -
  have ne: "hs \<noteq> []" "ts \<noteq> []" and t: "ps_bufs s t \<noteq> None" "t \<notin> set hs"
    using assms(3-5) by (cases hs; cases ts; auto)+
  from pbuf_cat_loop_links [OF assms(3) t] obtain B where
    B: "pbuf_cat_loop h t s = Some (s\<lparr>ps_bufs := B\<rparr>)" "relinked (ps_bufs s) B hs"
    "links_refs B = links_refs ((ps_bufs s)(last hs \<mapsto> (the (ps_bufs s (last hs)))\<lparr>p_next := Some t\<rparr>))" by blast
  obtain b where b: "ps_bufs s (last hs) = Some b" "p_next b = None" using pchain_last [OF assms(3) ne(1)] by blast
  have l: "last hs \<notin> set ts" using ne(1) assms(5) by (auto simp: disjoint_iff)
  have "owned (ps_bufs s) (add_mset t (add_mset h R))" using assms(2) by (simp add: add_mset_commute)
  from owned_link [OF this b assms(4) l] have "owned B (add_mset h R)"
    by (rule owned_cong [rotated]) (simp only: B(3) b(1) option.sel)
  then show ?thesis using B(1) relinked_pinv [OF assms(1) B(2)] by (simp add: pbuf_cat_def)
qed

lemma pbuf_alloc_owned:
  assumes "pinv s" "owned (ps_bufs s) R"
  shows "\<exists>r s'. pbuf_alloc layer len type s = Some (r, s') \<and> pinv s' \<and> owned (ps_bufs s') (own_next r R)"
proof -
  from pbuf_alloc_spec [OF assms(1), of layer len type] obtain r s' where
    *: "pbuf_alloc layer len type s = Some (r, s')" "pinv s'"
    "case r of None \<Rightarrow> ps_bufs s' = ps_bufs s
     | Some h \<Rightarrow> \<exists>as. pchain (ps_bufs s') (Some h) as \<and> tots (ps_bufs s') as (unat len) 0
           \<and> (\<forall>a \<in> set as. ps_bufs s a = None \<and> p_ref (the (ps_bufs s' a)) = 1)
           \<and> (\<forall>a. a \<notin> set as \<longrightarrow> ps_bufs s' a = ps_bufs s a)" by blast
  have "owned (ps_bufs s') (own_next r R)"
  proof (cases r)
    case None
    then show ?thesis using *(3) assms(2) by (simp add: own_next_def)
  next
    case (Some h)
    then show ?thesis using *(3) owned_new_chain [OF assms(2)] by (auto simp: own_next_def)
  qed
  with * show ?thesis by blast
qed

lemma pbuf_ref_owned:
  assumes "pinv s" "owned (ps_bufs s) R" "ps_bufs s a = Some b" "p_ref b \<noteq> 255"
  shows "\<exists>s'. pbuf_ref (Some a) s = Some s' \<and> pinv s' \<and> owned (ps_bufs s') (add_mset a R)"
proof -
  let ?s = "s\<lparr>ps_bufs := (ps_bufs s)(a \<mapsto> b\<lparr>p_ref := p_ref b + 1\<rparr>)\<rparr>"
  have "pinv ?s" by (rule pinv_fields [OF assms(1,3)]) simp_all
  moreover have "owned (ps_bufs ?s) (add_mset a R)" using owned_take [OF assms(2-4)] by simp
  ultimately show ?thesis using assms(3) by (simp add: pbuf_ref_def pbuf_upd_def)
qed

section \<open>Histories\<close>

text \<open>
  The states clients can bring about, with the references they hold: allocation, further
  references, joining, cutting and release of what they hold.
\<close>

inductive pbuf_history :: "pbuf_state \<Rightarrow> nat multiset \<Rightarrow> bool" where
  start: "pinv s \<Longrightarrow> ps_bufs s = Map.empty \<Longrightarrow> pbuf_history s {#}"
| alloc: "pbuf_history s R \<Longrightarrow> pbuf_alloc layer len type s = Some (r, s') \<Longrightarrow> pbuf_history s' (own_next r R)"
| ref: "pbuf_history s R \<Longrightarrow> a \<in># R \<Longrightarrow> p_ref (the (ps_bufs s a)) \<noteq> 255 \<Longrightarrow> pbuf_ref (Some a) s = Some s'
    \<Longrightarrow> pbuf_history s' (add_mset a R)"
| cat: "pbuf_history s (add_mset h (add_mset t R)) \<Longrightarrow> pchain (ps_bufs s) (Some h) hs
    \<Longrightarrow> pchain (ps_bufs s) (Some t) ts \<Longrightarrow> set hs \<inter> set ts = {} \<Longrightarrow> pbuf_cat (Some h) (Some t) s = Some s'
    \<Longrightarrow> pbuf_history s' (add_mset h R)"
| free: "pbuf_history s (add_mset a R) \<Longrightarrow> pbuf_free (Some a) s = Some (c, s') \<Longrightarrow> pbuf_history s' R"

lemma pbuf_history_inv: "pbuf_history s R \<Longrightarrow> pinv s \<and> owned (ps_bufs s) R"
proof (induction rule: pbuf_history.induct)
  case (start s)
  then show ?case by (simp add: owned_def)
next
  case (alloc s R layer len type r s')
  then show ?case using pbuf_alloc_owned [of s R layer len type] by auto
next
  case (ref s R a s')
  obtain b where "ps_bufs s a = Some b" using ref(2,5) owned_live by (metis not_None_eq)
  then show ?case using ref pbuf_ref_owned [of s R a b] by auto
next
  case (cat s h t R hs ts s')
  then show ?case using pbuf_cat_owned [of s h t R hs ts] by auto
next
  case (free s a R c s')
  then show ?case using pbuf_free_owned [of s "Some a" R] by (auto simp: own_next_def)
qed

text \<open>
  C20: Reference counting of packet buffers is sound: in every history of allocations, further
  references, joins and releases, starting with no pbuf, every reference still held points to
  a live pbuf and can be released (the release returns, it never touches freed memory); the
  count of a pbuf is the number of references held plus the \<open>next\<close> pointers to it; the
  allocators stay well formed and what the heap and the pools have handed out is the memory of the
  live pbufs and nothing else; and once no reference is held, no pbuf is left and all memory is
  back with the heap and the pools: nothing leaks.
\<close>

theorem pbuf_references_sound:
  assumes "pbuf_history s R"
  shows "pinv s
    \<and> (\<forall>a \<in># R. ps_bufs s a \<noteq> None \<and> (\<exists>c s'. pbuf_free (Some a) s = Some (c, s')))
    \<and> (\<forall>a b. ps_bufs s a = Some b \<longrightarrow> unat (p_ref b) = count R a + card {c. \<exists>b'. ps_bufs s c = Some b' \<and> p_next b' = Some a})
    \<and> handed_out s (dom (ps_bufs s))
    \<and> (R = {#} \<longrightarrow> ps_bufs s = Map.empty \<and> handed_out s {})"
proof -
  have i: "pinv s" "owned (ps_bufs s) R" using pbuf_history_inv [OF assms] by auto
  have "\<exists>c s'. pbuf_free (Some a) s = Some (c, s')" if "a \<in># R" for a
  proof -
    have "owned (ps_bufs s) (own_next (Some a) (R - {#a#}))" using i(2) that by (simp add: own_next_def)
    from pbuf_free_owned [OF i(1) this] show ?thesis by blast
  qed
  moreover note out = pinv_handed_out [OF i(1)]
  moreover have "ps_bufs s = Map.empty \<and> handed_out s {}" if "R = {#}"
    using i(2) that owned_empty [of "ps_bufs s"] out by simp
  ultimately show ?thesis
    using i owned_live [OF i(2)] owned_ref [OF i(2)] by (simp add: in_links_def)
qed

theorem pbuf_references_sound_witness:
  "\<exists>p s c s'. pbuf_alloc PBUF_RAW 100 PBUF_RAM demo_state = Some (Some p, s) \<and> pbuf_free (Some p) s = Some (c, s')
     \<and> ps_bufs s' = Map.empty \<and> handed_out s' {}"
proof -
  have "pbuf_history demo_state {#}"
    by (rule pbuf_history.start [OF demo_state_pinv]) (simp add: demo_state_def)
  moreover obtain p s where s: "pbuf_alloc PBUF_RAW 100 PBUF_RAM demo_state = Some (Some p, s)" using demo_ram by blast
  ultimately have h: "pbuf_history s {#p#}"
    using pbuf_history.alloc [of demo_state "{#}" PBUF_RAW 100 PBUF_RAM "Some p" s] by (simp add: own_next_def)
  obtain c s' where f: "pbuf_free (Some p) s = Some (c, s')"
    using pbuf_references_sound [OF h] by (auto simp: Bex_def)
  have "pbuf_history s' {#}" by (rule pbuf_history.free [OF _ f]) (use h in simp)
  then have "ps_bufs s' = Map.empty" "handed_out s' {}" using pbuf_references_sound [of s' "{#}"] by simp_all
  with s f show ?thesis by blast
qed

end
