(* ===== verification/Timeouts.thy ===== *)
theory Timeouts
  imports Memp "HOL-Library.Multiset"
begin

text \<open>
  The timer queue of lwIP (\<open>Tunnel/lwip/core/timeouts.c\<close>), driven by
  \<open>lwip_bridge_poll\<close>. Times are 32-bit millisecond counters that wrap around; the queue
  is a list sorted by due time whose entries live in the pool MEMP_SYS_TIMEOUT. The value
  \<open>sys_now()\<close> returns is an argument of the operations that read the clock.
\<close>

section \<open>Wrap-around time\<close>

definition LWIP_MAX_TIMEOUT :: u32 where
  "LWIP_MAX_TIMEOUT = 0x7fffffff"

definition TIME_LESS_THAN :: "u32 \<Rightarrow> u32 \<Rightarrow> bool" where
  "TIME_LESS_THAN t compare_to \<longleftrightarrow> t - compare_to > LWIP_MAX_TIMEOUT"

text \<open>How far \<open>t\<close> lies after \<open>base\<close>; the comparison is a true order within half the range.\<close>

definition since :: "u32 \<Rightarrow> u32 \<Rightarrow> nat" where
  "since base t = unat (t - base)"

definition in_window :: "u32 \<Rightarrow> u32 \<Rightarrow> bool" where
  "in_window base t \<longleftrightarrow> since base t \<le> 0x7fffffff"

lemma unat_minus_cases:
  fixes x y :: u32
  shows "unat (x - y) = (if unat y \<le> unat x then unat x - unat y else unat x + 4294967296 - unat y)"
  using unat_sub_if_size [of x y] by (simp add: word_size)

lemma TIME_LESS_THAN_window:
  assumes "in_window base a" "in_window base b"
  shows "TIME_LESS_THAN a b \<longleftrightarrow> since base a < since base b"
proof -
  have "a - b = (a - base) - (b - base)" by simp
  then have "unat (a - b) = (if since base b \<le> since base a then since base a - since base b
      else since base a + 4294967296 - since base b)"
    unfolding since_def by (metis unat_minus_cases)
  then show ?thesis
    using assms by (auto simp: TIME_LESS_THAN_def LWIP_MAX_TIMEOUT_def in_window_def word_less_nat_alt)
qed

section \<open>State\<close>

text \<open>The timer callbacks of this configuration, and \<open>lwip_cyclic_timers\<close>.\<close>

datatype sys_timeout_handler = tcpip_tcp_timer_h | lwip_cyclic_timer_h

definition TCP_TMR_INTERVAL :: u32 where
  "TCP_TMR_INTERVAL = 250"

definition IP_TMR_INTERVAL :: u32 where
  "IP_TMR_INTERVAL = 1000"

datatype cyclic_handler = tcp_tmr_c | ip_reass_tmr_c

definition lwip_cyclic_timers :: "(u32 \<times> cyclic_handler) list" where
  "lwip_cyclic_timers = [(TCP_TMR_INTERVAL, tcp_tmr_c), (IP_TMR_INTERVAL, ip_reass_tmr_c)]"

text \<open>\<open>struct sys_timeo\<close>: \<open>to_arg\<close> is \<open>NULL\<close> or an index into the cyclic timers;
  \<open>to_elem\<close> is the pool element the entry occupies.\<close>

record sys_timeo =
  to_elem :: nat
  to_time :: u32
  to_h :: "sys_timeout_handler option"
  to_arg :: "nat option"

record timeouts =
  next_timeout :: "sys_timeo list"
  current_timeout_due_time :: u32
  tcpip_tcp_timer_active :: bool
  to_pool :: memp_pool

section \<open>Operations\<close>

text \<open>The \<open>for\<close> loop of \<open>sys_timeout_abs\<close>, at \<open>t->next\<close>.\<close>

fun timeout_insert :: "sys_timeo \<Rightarrow> sys_timeo list \<Rightarrow> sys_timeo list" where
  "timeout_insert timeout [] = [timeout]"
| "timeout_insert timeout (t # ts) =
     (if TIME_LESS_THAN (to_time timeout) (to_time t) then timeout # t # ts
      else t # timeout_insert timeout ts)"

definition sys_timeout_abs ::
    "u32 \<Rightarrow> sys_timeout_handler option \<Rightarrow> nat option \<Rightarrow> timeouts \<Rightarrow> timeouts" where
  "sys_timeout_abs abs_time handler arg s =
     (case do_memp_malloc_pool (to_pool s) of
        (None, p) \<Rightarrow> s\<lparr>to_pool := p\<rparr>
      | (Some e, p) \<Rightarrow>
          (let timeout = \<lparr>to_elem = e, to_time = abs_time, to_h = handler, to_arg = arg\<rparr>;
               s = s\<lparr>to_pool := p\<rparr>
           in case next_timeout s of
                [] \<Rightarrow> s\<lparr>next_timeout := [timeout]\<rparr>
              | t # ts \<Rightarrow>
                  (if TIME_LESS_THAN (to_time timeout) (to_time t)
                   then s\<lparr>next_timeout := timeout # t # ts\<rparr>
                   else s\<lparr>next_timeout := t # timeout_insert timeout ts\<rparr>)))"

definition sys_timeout ::
    "u32 \<Rightarrow> u32 \<Rightarrow> sys_timeout_handler option \<Rightarrow> nat option \<Rightarrow> timeouts \<Rightarrow> timeouts" where
  "sys_timeout now msecs handler arg s =
     (let next_timeout_time = now + msecs in sys_timeout_abs next_timeout_time handler arg s)"

text \<open>The loop of \<open>sys_untimeout\<close>: the matching entry and the list without it.\<close>

fun untimeout_loop ::
    "sys_timeout_handler option \<Rightarrow> nat option \<Rightarrow> sys_timeo list \<Rightarrow> (nat \<times> sys_timeo list) option" where
  "untimeout_loop handler arg [] = None"
| "untimeout_loop handler arg (t # ts) =
     (if to_h t = handler \<and> to_arg t = arg then Some (to_elem t, ts)
      else map_option (\<lambda>(e, ts'). (e, t # ts')) (untimeout_loop handler arg ts))"

definition sys_untimeout ::
    "sys_timeout_handler option \<Rightarrow> nat option \<Rightarrow> timeouts \<Rightarrow> timeouts" where
  "sys_untimeout handler arg s =
     (case untimeout_loop handler arg (next_timeout s) of
        None \<Rightarrow> s
      | Some (e, ts) \<Rightarrow> s\<lparr>next_timeout := ts, to_pool := do_memp_free_pool (to_pool s) e\<rparr>)"

text \<open>
  The callbacks. \<open>'g\<close> is the rest of the stack's state; \<open>tcp_tmr\<close>, \<open>ip_reass_tmr\<close>, the
  test for control blocks (\<open>tcp_active_pcbs || tcp_tw_pcbs\<close>) and \<open>PBUF_CHECK_FREE_OOSEQ\<close> belong to
  other components.
\<close>

record 'g timer_env =
  env_tcp_tmr :: "'g \<Rightarrow> 'g"
  env_ip_reass_tmr :: "'g \<Rightarrow> 'g"
  env_pcbs_exist :: "'g \<Rightarrow> bool"
  env_check_free_ooseq :: "'g \<Rightarrow> 'g"

definition tcpip_tcp_timer :: "'g timer_env \<Rightarrow> u32 \<Rightarrow> timeouts \<times> 'g \<Rightarrow> timeouts \<times> 'g" where
  "tcpip_tcp_timer env now sg =
     (let (s, g) = sg; g = env_tcp_tmr env g
      in if env_pcbs_exist env g
         then (sys_timeout now TCP_TMR_INTERVAL (Some tcpip_tcp_timer_h) None s, g)
         else (s\<lparr>tcpip_tcp_timer_active := False\<rparr>, g))"

definition tcp_timer_needed :: "'g timer_env \<Rightarrow> u32 \<Rightarrow> timeouts \<times> 'g \<Rightarrow> timeouts \<times> 'g" where
  "tcp_timer_needed env now sg =
     (let (s, g) = sg
      in if \<not> tcpip_tcp_timer_active s \<and> env_pcbs_exist env g
         then (sys_timeout now TCP_TMR_INTERVAL (Some tcpip_tcp_timer_h) None
                 (s\<lparr>tcpip_tcp_timer_active := True\<rparr>), g)
         else (s, g))"

definition run_cyclic :: "'g timer_env \<Rightarrow> cyclic_handler \<Rightarrow> 'g \<Rightarrow> 'g" where
  "run_cyclic env h g = (case h of tcp_tmr_c \<Rightarrow> env_tcp_tmr env g | ip_reass_tmr_c \<Rightarrow> env_ip_reass_tmr env g)"

definition lwip_cyclic_timer :: "'g timer_env \<Rightarrow> u32 \<Rightarrow> nat \<Rightarrow> timeouts \<times> 'g \<Rightarrow> timeouts \<times> 'g" where
  "lwip_cyclic_timer env now arg sg =
     (let (s, g) = sg;
          (interval_ms, handler) = lwip_cyclic_timers ! arg;
          g = run_cyclic env handler g;
          next_timeout_time = current_timeout_due_time s + interval_ms
      in if TIME_LESS_THAN next_timeout_time now
         then (sys_timeout_abs (now + interval_ms) (Some lwip_cyclic_timer_h) (Some arg) s, g)
         else (sys_timeout_abs next_timeout_time (Some lwip_cyclic_timer_h) (Some arg) s, g))"

text \<open>The indirect call \<open>handler(arg)\<close>. \<open>lwip_cyclic_timer\<close> is only registered with a pointer
  to one of the cyclic timers; other arguments would be a wild read and are given no effect.\<close>

definition call_handler ::
    "'g timer_env \<Rightarrow> u32 \<Rightarrow> sys_timeout_handler \<Rightarrow> nat option \<Rightarrow> timeouts \<times> 'g \<Rightarrow> timeouts \<times> 'g" where
  "call_handler env now h arg sg =
     (case h of
        tcpip_tcp_timer_h \<Rightarrow> tcpip_tcp_timer env now sg
      | lwip_cyclic_timer_h \<Rightarrow> (case arg of
            Some i \<Rightarrow> (if i < length lwip_cyclic_timers then lwip_cyclic_timer env now i sg else sg)
          | None \<Rightarrow> sg))"

definition sys_timeouts_init :: "u32 \<Rightarrow> timeouts \<Rightarrow> timeouts" where
  "sys_timeouts_init now s =
     fold (\<lambda>i. sys_timeout now (fst (lwip_cyclic_timers ! i)) (Some lwip_cyclic_timer_h) (Some i))
       [1..<length lwip_cyclic_timers] s"

text \<open>
  The body of \<open>sys_check_timeouts\<close>; the \<open>do ... while (1)\<close> loop takes
  fuel, and \<open>None\<close> means that it did not return within that many turns. \<open>check\<close> is
  \<open>PBUF_CHECK_FREE_OOSEQ\<close>, \<open>call n\<close> calls a callback when \<open>n\<close> turns are left: the callbacks read the
  clock for themselves, \<open>clock n\<close> is what they see then.
\<close>

definition fire ::
    "(sys_timeout_handler \<Rightarrow> nat option \<Rightarrow> timeouts \<times> 'g \<Rightarrow> timeouts \<times> 'g) \<Rightarrow>
     sys_timeo \<Rightarrow> sys_timeo list \<Rightarrow> timeouts \<times> 'g \<Rightarrow> timeouts \<times> 'g" where
  "fire call tmptimeout ts sg =
     (let s = (fst sg)\<lparr>next_timeout := ts, current_timeout_due_time := to_time tmptimeout,
                to_pool := do_memp_free_pool (to_pool (fst sg)) (to_elem tmptimeout)\<rparr>
      in case to_h tmptimeout of
           None \<Rightarrow> (s, snd sg)
         | Some handler \<Rightarrow> call handler (to_arg tmptimeout) (s, snd sg))"

fun check_loop ::
    "('g \<Rightarrow> 'g) \<Rightarrow> (nat \<Rightarrow> sys_timeout_handler \<Rightarrow> nat option \<Rightarrow> timeouts \<times> 'g \<Rightarrow> timeouts \<times> 'g) \<Rightarrow>
     u32 \<Rightarrow> nat \<Rightarrow> timeouts \<times> 'g \<Rightarrow> (timeouts \<times> 'g) option" where
  "check_loop check call now 0 sg = None"
| "check_loop check call now (Suc fuel) sg =
     (let sg = (fst sg, check (snd sg))
      in case next_timeout (fst sg) of
        [] \<Rightarrow> Some sg
      | tmptimeout # ts \<Rightarrow>
          (if TIME_LESS_THAN now (to_time tmptimeout) then Some sg
           else check_loop check call now fuel (fire (call fuel) tmptimeout ts sg)))"

definition sys_check_timeouts ::
    "'g timer_env \<Rightarrow> u32 \<Rightarrow> (nat \<Rightarrow> u32) \<Rightarrow> nat \<Rightarrow> timeouts \<times> 'g \<Rightarrow> (timeouts \<times> 'g) option" where
  "sys_check_timeouts env now clock fuel sg =
     check_loop (env_check_free_ooseq env) (\<lambda>n. call_handler env (clock n)) now fuel sg"

definition sys_restart_timeouts :: "u32 \<Rightarrow> timeouts \<Rightarrow> timeouts" where
  "sys_restart_timeouts now s =
     (case next_timeout s of
        [] \<Rightarrow> s
      | t # ts \<Rightarrow>
          (let base = to_time t
           in s\<lparr>next_timeout := map (\<lambda>t. t\<lparr>to_time := (to_time t - base) + now\<rparr>) (t # ts)\<rparr>))"

definition sys_timeouts_sleeptime :: "u32 \<Rightarrow> timeouts \<Rightarrow> u32" where
  "sys_timeouts_sleeptime now s =
     (case next_timeout s of
        [] \<Rightarrow> 0xFFFFFFFF
      | t # ts \<Rightarrow> (if TIME_LESS_THAN (to_time t) now then 0 else to_time t - now))"

section \<open>The order of the queue\<close>

text \<open>All due times lie in one half of the number circle and ascend.\<close>

definition tq_wf :: "u32 \<Rightarrow> sys_timeo list \<Rightarrow> bool" where
  "tq_wf base ts \<longleftrightarrow> (\<forall>t \<in> set ts. in_window base (to_time t))
     \<and> sorted (map (\<lambda>t. since base (to_time t)) ts)"

lemma set_timeout_insert [simp]: "set (timeout_insert t ts) = insert t (set ts)"
  by (induction ts) auto

lemma mset_timeout_insert [simp]: "mset (timeout_insert t ts) = add_mset t (mset ts)"
  by (induction ts) auto

lemma timeout_insert_split:
  assumes "tq_wf base ts" "in_window base (to_time t)"
  shows "timeout_insert t ts =
    takeWhile (\<lambda>u. since base (to_time u) \<le> since base (to_time t)) ts
    @ t # dropWhile (\<lambda>u. since base (to_time u) \<le> since base (to_time t)) ts"
  using assms by (induction ts) (auto simp: tq_wf_def TIME_LESS_THAN_window)

lemma timeout_insert_wf:
  assumes "tq_wf base ts" "in_window base (to_time t)"
  shows "tq_wf base (timeout_insert t ts)"
  using assms by (induction ts) (auto simp: tq_wf_def TIME_LESS_THAN_window)

lemma sys_timeout_abs_next:
  "next_timeout (sys_timeout_abs abs_time h a s) =
    (case do_memp_malloc_pool (to_pool s) of
       (None, _) \<Rightarrow> next_timeout s
     | (Some e, _) \<Rightarrow> timeout_insert \<lparr>to_elem = e, to_time = abs_time, to_h = h, to_arg = a\<rparr> (next_timeout s))"
  by (auto simp: sys_timeout_abs_def Let_def split: option.split prod.split list.split)

lemma sys_timeout_abs_pool:
  "to_pool (sys_timeout_abs abs_time h a s) = snd (do_memp_malloc_pool (to_pool s))"
  by (auto simp: sys_timeout_abs_def Let_def split: option.split prod.split list.split)

lemma sys_timeout_abs_rest [simp]:
  "current_timeout_due_time (sys_timeout_abs abs_time h a s) = current_timeout_due_time s"
  "tcpip_tcp_timer_active (sys_timeout_abs abs_time h a s) = tcpip_tcp_timer_active s"
  by (auto simp: sys_timeout_abs_def Let_def split: option.split prod.split list.split)

lemma sys_timeout_abs_wf:
  "tq_wf base (next_timeout s) \<Longrightarrow> in_window base abs_time
    \<Longrightarrow> tq_wf base (next_timeout (sys_timeout_abs abs_time h a s))"
  by (auto simp: sys_timeout_abs_next timeout_insert_wf split: prod.split option.split)

text \<open>
  C30: Scheduling keeps the queue in due-time order across the wrap-around of the 32-bit
  clock: as long as all due times lie within half the number circle from some base, a new
  timer goes behind every timer that is due no later and before every later one (timers
  due at the same time keep their order), and the queue stays well formed. When the pool
  is empty the queue is left as it was.
\<close>

theorem sys_timeout_abs_ordered:
  assumes "tq_wf base (next_timeout s)" "in_window base abs_time"
  shows "tq_wf base (next_timeout (sys_timeout_abs abs_time h a s))
    \<and> (fst (do_memp_malloc_pool (to_pool s)) = None
        \<longrightarrow> next_timeout (sys_timeout_abs abs_time h a s) = next_timeout s)
    \<and> (\<forall>e. fst (do_memp_malloc_pool (to_pool s)) = Some e \<longrightarrow>
        next_timeout (sys_timeout_abs abs_time h a s) =
          takeWhile (\<lambda>u. since base (to_time u) \<le> since base abs_time) (next_timeout s)
          @ \<lparr>to_elem = e, to_time = abs_time, to_h = h, to_arg = a\<rparr>
          # dropWhile (\<lambda>u. since base (to_time u) \<le> since base abs_time) (next_timeout s))"
proof (intro conjI)
  show "tq_wf base (next_timeout (sys_timeout_abs abs_time h a s))"
    by (rule sys_timeout_abs_wf [OF assms])
qed (use assms in \<open>auto simp: sys_timeout_abs_next timeout_insert_split split: prod.split\<close>)

definition demo_timeouts :: timeouts where
  "demo_timeouts = \<lparr>next_timeout = [\<lparr>to_elem = 0, to_time = 0xFFFFFFF0, to_h = None, to_arg = None\<rparr>],
     current_timeout_due_time = 0, tcpip_tcp_timer_active = False,
     to_pool = \<lparr>mp_tab = Some 8, mp_next = \<lambda>_. None\<rparr>\<rparr>"

theorem sys_timeout_abs_ordered_witness:
  "map to_time (next_timeout (sys_timeout_abs 0x10 None None demo_timeouts)) = [0xFFFFFFF0, 0x10]"
proof -
  have "tq_wf 0xFFFFFF00 (next_timeout demo_timeouts)"
    by (simp add: demo_timeouts_def tq_wf_def in_window_def since_def)
  moreover have "in_window 0xFFFFFF00 0x10" by (simp add: in_window_def since_def)
  ultimately show ?thesis
    using sys_timeout_abs_ordered [of "0xFFFFFF00" demo_timeouts "0x10" None None]
    by (simp add: demo_timeouts_def do_memp_malloc_pool_def since_def)
qed

section \<open>Firing\<close>

text \<open>
  The work a queue still means for a check at \<open>now\<close>. A timer that is overdue may come
  back due exactly \<open>now\<close>, once; one that is due at \<open>now\<close> comes back later.
\<close>

definition weight :: "u32 \<Rightarrow> sys_timeo \<Rightarrow> nat" where
  "weight now t = (if TIME_LESS_THAN now (to_time t) then 0 else if to_time t = now then 1 else 2)"

definition work :: "u32 \<Rightarrow> sys_timeo list \<Rightarrow> nat" where
  "work now ts = sum_list (map (weight now) ts)"

lemma work_le: "work now ts \<le> 2 * length ts"
  by (induction ts) (auto simp: work_def weight_def)

lemma work_insert [simp]: "work now (timeout_insert t ts) = weight now t + work now ts"
  by (induction ts) (auto simp: work_def)

lemma sys_timeout_abs_work:
  "work now (next_timeout (sys_timeout_abs abs_time h a s))
    \<le> work now (next_timeout s)
      + (if TIME_LESS_THAN now abs_time then 0 else if abs_time = now then 1 else 2)"
  by (auto simp: sys_timeout_abs_next weight_def split: prod.split option.split)

locale timer_callbacks =
  fixes call :: "nat \<Rightarrow> sys_timeout_handler \<Rightarrow> nat option \<Rightarrow> timeouts \<times> 'g \<Rightarrow> timeouts \<times> 'g"
    and now base :: u32
  assumes now_in_window: "in_window base now"
    and call_wf: "tq_wf base (next_timeout s) \<Longrightarrow> in_window base (current_timeout_due_time s)
      \<Longrightarrow> \<not> TIME_LESS_THAN now (current_timeout_due_time s)
      \<Longrightarrow> tq_wf base (next_timeout (fst (call n h a (s, g))))"
    and call_work: "tq_wf base (next_timeout s) \<Longrightarrow> in_window base (current_timeout_due_time s)
      \<Longrightarrow> \<not> TIME_LESS_THAN now (current_timeout_due_time s)
      \<Longrightarrow> work now (next_timeout (fst (call n h a (s, g)))) \<le> work now (next_timeout s)
        + (if current_timeout_due_time s = now then 0 else 1)"
begin

lemma fire_wf_work:
  assumes "next_timeout (fst sg) = t # ts" "tq_wf base (t # ts)" "\<not> TIME_LESS_THAN now (to_time t)"
  shows "tq_wf base (next_timeout (fst (fire (call n) t ts sg)))"
    and "work now (next_timeout (fst (fire (call n) t ts sg))) < work now (t # ts)"
proof -
  have ts: "tq_wf base ts" and t: "in_window base (to_time t)"
    using assms(2) by (auto simp: tq_wf_def)
  let ?s = "(fst sg)\<lparr>next_timeout := ts, current_timeout_due_time := to_time t,
    to_pool := do_memp_free_pool (to_pool (fst sg)) (to_elem t)\<rparr>"
  show "tq_wf base (next_timeout (fst (fire (call n) t ts sg)))"
    using call_wf [of ?s n] ts t assms(3) by (auto simp: fire_def Let_def split: option.split)
  have "work now (next_timeout (fst (fire (call n) t ts sg)))
      \<le> work now ts + (if to_time t = now then 0 else 1)"
    using call_work [of ?s n] ts t assms(3) by (auto simp: fire_def Let_def split: option.split)
  also have "\<dots> < work now (t # ts)"
    using assms(3) by (simp add: work_def weight_def)
  finally show "work now (next_timeout (fst (fire (call n) t ts sg))) < work now (t # ts)" .
qed

lemma not_due_sorted:
  assumes "tq_wf base (t # ts)" "TIME_LESS_THAN now (to_time t)" "u \<in> set (t # ts)"
  shows "TIME_LESS_THAN now (to_time u)"
  using assms now_in_window by (auto simp: tq_wf_def TIME_LESS_THAN_window)

lemma check_loop_returns:
  assumes "tq_wf base (next_timeout (fst sg))" "work now (next_timeout (fst sg)) < fuel"
  shows "\<exists>sg'. check_loop check call now fuel sg = Some sg' \<and> tq_wf base (next_timeout (fst sg'))
    \<and> (\<forall>t \<in> set (next_timeout (fst sg')). TIME_LESS_THAN now (to_time t))"
  using assms
proof (induction fuel arbitrary: sg)
  case (Suc fuel)
  show ?case
  proof (cases "next_timeout (fst sg)")
    case Nil
    then show ?thesis by (simp add: tq_wf_def)
  next
    case (Cons t ts)
    show ?thesis
    proof (cases "TIME_LESS_THAN now (to_time t)")
      case True
      then show ?thesis
        using Suc.prems Cons not_due_sorted [of t ts] by (auto simp: Cons)
    next
      case False
      let ?sg = "(fst sg, check (snd sg))"
      have "next_timeout (fst ?sg) = t # ts" using Cons by simp
      note f = fire_wf_work [OF this _ False, of fuel]
      have "work now (next_timeout (fst (fire (call fuel) t ts ?sg))) < fuel"
        using f(2) Suc.prems Cons by simp
      then show ?thesis using Suc.IH f(1) Suc.prems(1) Cons False by simp
    qed
  qed
qed simp

end

text \<open>
  The callbacks of the stack meet the contract when the clock has moved on by at most
  \<open>0xFFFF\<close> milliseconds between the start of the check and the callback.
\<close>

definition check_base :: "u32 \<Rightarrow> u32" where
  "check_base now = now - 0x3fffffff"

lemma since_add:
  assumes "since base t + unat d < 4294967296"
  shows "since base (t + d) = since base t + unat d"
proof -
  have "t + d - base = (t - base) + d" by simp
  moreover have "unat ((t - base) + d) = since base t + unat d"
    using assms unfolding since_def by (subst unat_word_ariths(1)) simp
  ultimately show ?thesis unfolding since_def by metis
qed

lemma since_check_base [simp]: "since (check_base now) now = 0x3fffffff"
  by (simp add: since_def check_base_def)

lemma since_eq_iff: "since base a = since base b \<longleftrightarrow> a = b"
  by (metis since_def word_unat_eq_iff diff_add_cancel)

text \<open>Scheduling at a time no earlier than \<open>now\<close> from a callback.\<close>

lemma sys_timeout_abs_callback:
  assumes "tq_wf (check_base now) (next_timeout s)"
    and "since (check_base now) now \<le> since (check_base now) abs_time"
    and "since (check_base now) abs_time \<le> 0x7fffffff"
    and "abs_time = now \<Longrightarrow> current_timeout_due_time s \<noteq> now"
  shows "tq_wf (check_base now) (next_timeout (sys_timeout_abs abs_time h a s))
    \<and> work now (next_timeout (sys_timeout_abs abs_time h a s)) \<le> work now (next_timeout s)
        + (if current_timeout_due_time s = now then 0 else 1)"
proof
  have w: "in_window (check_base now) abs_time" "in_window (check_base now) now"
    using assms(2,3) by (simp_all add: in_window_def)
  show "tq_wf (check_base now) (next_timeout (sys_timeout_abs abs_time h a s))"
    by (rule sys_timeout_abs_wf [OF assms(1) w(1)])
  have "TIME_LESS_THAN now abs_time \<or> abs_time = now"
    using assms(2) TIME_LESS_THAN_window [OF w(2,1)] since_eq_iff [of "check_base now" abs_time now]
    by auto
  then show "work now (next_timeout (sys_timeout_abs abs_time h a s)) \<le> work now (next_timeout s)
        + (if current_timeout_due_time s = now then 0 else 1)"
    using sys_timeout_abs_work [of now abs_time h a s] assms(4) by (auto split: if_splits)
qed

lemma tcpip_tcp_timer_callback:
  assumes "tq_wf (check_base now) (next_timeout s)"
  shows "tq_wf (check_base now) (next_timeout (fst (tcpip_tcp_timer env (now + ucast (d :: u16)) (s, g))))
    \<and> work now (next_timeout (fst (tcpip_tcp_timer env (now + ucast d) (s, g)))) \<le> work now (next_timeout s)
        + (if current_timeout_due_time s = now then 0 else 1)"
proof -
  have d: "unat (ucast d :: u32) < 65536" using unat_u16_less [of d] by (simp add: byte_simps)
  have a: "since (check_base now) (now + ucast d) = 0x3fffffff + unat (ucast d :: u32)"
    using since_add [of "check_base now" now "ucast d"] d by simp
  have b: "since (check_base now) (now + ucast d + TCP_TMR_INTERVAL) = 0x3fffffff + unat (ucast d :: u32) + 250"
    using since_add [of "check_base now" "now + ucast d" TCP_TMR_INTERVAL] a d
    by (simp add: TCP_TMR_INTERVAL_def)
  have ne: "now + ucast d + TCP_TMR_INTERVAL \<noteq> now"
  proof
    assume "now + ucast d + TCP_TMR_INTERVAL = now"
    with b show False by simp
  qed
  show ?thesis
    using sys_timeout_abs_callback [OF assms, of "now + ucast d + TCP_TMR_INTERVAL" "Some tcpip_tcp_timer_h" None]
      b d ne assms
    by (auto simp: tcpip_tcp_timer_def sys_timeout_def Let_def)
qed

lemma lwip_cyclic_timer_callback:
  assumes "tq_wf (check_base now) (next_timeout s)" "i < length lwip_cyclic_timers"
    "in_window (check_base now) (current_timeout_due_time s)"
    "\<not> TIME_LESS_THAN now (current_timeout_due_time s)"
  shows "tq_wf (check_base now) (next_timeout (fst (lwip_cyclic_timer env (now + ucast (d :: u16)) i (s, g))))
    \<and> work now (next_timeout (fst (lwip_cyclic_timer env (now + ucast d) i (s, g)))) \<le> work now (next_timeout s)
        + (if current_timeout_due_time s = now then 0 else 1)"
proof -
  obtain ms hd where i: "lwip_cyclic_timers ! i = (ms, hd)" "0 < unat ms" "unat ms \<le> 1000"
    using assms(2) by (cases "i = 0")
      (auto simp: lwip_cyclic_timers_def TCP_TMR_INTERVAL_def IP_TMR_INTERVAL_def less_Suc_eq)
  let ?b = "check_base now" and ?due = "current_timeout_due_time s" and ?now' = "now + ucast d"
  have d: "unat (ucast d :: u32) < 65536" using unat_u16_less [of d] by (simp add: byte_simps)
  have wn: "in_window ?b now" by (simp add: in_window_def)
  have due: "since ?b ?due \<le> since ?b now"
    using assms(4) TIME_LESS_THAN_window [OF wn assms(3)] by simp
  have n: "since ?b ?now' = 0x3fffffff + unat (ucast d :: u32)"
    using since_add [of ?b now "ucast d"] d by simp
  have nxt: "since ?b (?due + ms) = since ?b ?due + unat ms"
    using since_add [of ?b ?due ms] due i by simp
  have late: "since ?b (?now' + ms) = 0x3fffffff + unat (ucast d :: u32) + unat ms"
    using since_add [of ?b ?now' ms] n i d by simp
  have w: "in_window ?b (?due + ms)" "in_window ?b ?now'"
    using nxt due i n d by (simp_all add: in_window_def)
  show ?thesis
  proof (cases "TIME_LESS_THAN (?due + ms) ?now'")
    case True
    have "?now' + ms \<noteq> now"
    proof
      assume "?now' + ms = now"
      with late i show False by simp
    qed
    then show ?thesis
      using sys_timeout_abs_callback [OF assms(1), of "?now' + ms"] late i d True
      by (simp add: lwip_cyclic_timer_def Let_def)
  next
    case False
    then have "since ?b now \<le> since ?b (?due + ms)"
      using TIME_LESS_THAN_window [OF w] n by simp
    moreover have "?due + ms = now \<Longrightarrow> ?due \<noteq> now" using i by auto
    ultimately show ?thesis
      using sys_timeout_abs_callback [OF assms(1), of "?due + ms"] nxt due i False
      by (simp add: lwip_cyclic_timer_def Let_def)
  qed
qed

lemma call_handler_callback:
  assumes "tq_wf (check_base now) (next_timeout s)"
    "in_window (check_base now) (current_timeout_due_time s)"
    "\<not> TIME_LESS_THAN now (current_timeout_due_time s)"
  shows "tq_wf (check_base now) (next_timeout (fst (call_handler env (now + ucast (d :: u16)) h a (s, g))))
    \<and> work now (next_timeout (fst (call_handler env (now + ucast d) h a (s, g)))) \<le> work now (next_timeout s)
        + (if current_timeout_due_time s = now then 0 else 1)"
proof (cases h)
  case tcpip_tcp_timer_h
  then show ?thesis using tcpip_tcp_timer_callback [OF assms(1)] by (simp only: call_handler_def sys_timeout_handler.case)
next
  case lwip_cyclic_timer_h
  show ?thesis
  proof (cases "\<exists>i < length lwip_cyclic_timers. a = Some i")
    case True
    then obtain i where "a = Some i" and i: "i < length lwip_cyclic_timers" by blast
    then show ?thesis
      using lwip_cyclic_timer_callback [OF assms(1) i assms(2,3)] lwip_cyclic_timer_h
      by (simp only: call_handler_def sys_timeout_handler.case option.case if_True)
  next
    case False
    then show ?thesis
      using assms(1) by (auto simp: call_handler_def lwip_cyclic_timer_h split: option.split)
  qed
qed

interpretation stack_timers: timer_callbacks "\<lambda>n. call_handler env (now + ucast (d n :: u16))" now "check_base now"
  for env :: "'g timer_env" and now d
proof
  show "in_window (check_base now) now" by (simp add: in_window_def)
next
  fix s :: timeouts and n h a and g :: 'g
  assume *: "tq_wf (check_base now) (next_timeout s)" "in_window (check_base now) (current_timeout_due_time s)"
    "\<not> TIME_LESS_THAN now (current_timeout_due_time s)"
  show "tq_wf (check_base now) (next_timeout (fst (call_handler env (now + ucast (d n)) h a (s, g))))"
    by (rule conjunct1 [OF call_handler_callback [OF *]])
  show "work now (next_timeout (fst (call_handler env (now + ucast (d n)) h a (s, g))))
    \<le> work now (next_timeout s) + (if current_timeout_due_time s = now then 0 else 1)"
    by (rule conjunct2 [OF call_handler_callback [OF *]])
qed

text \<open>
  C29: \<open>sys_check_timeouts\<close> returns and leaves no timer due: with the queue well formed around
  \<open>now\<close>, the loop ends after at most two turns per queued timer, although the callbacks
  reschedule themselves, and every timer left in the queue is due after \<open>now\<close>. Each callback
  reads the clock for itself, up to \<open>0xFFFF\<close> ms later than \<open>now\<close>.
\<close>

theorem sys_check_timeouts_returns:
  assumes "tq_wf (check_base now) (next_timeout s)" "2 * length (next_timeout s) < fuel"
  shows "\<exists>s' g'. sys_check_timeouts env now (\<lambda>n. now + ucast (d n :: u16)) fuel (s, g) = Some (s', g')
    \<and> tq_wf (check_base now) (next_timeout s')
    \<and> (\<forall>t \<in> set (next_timeout s'). TIME_LESS_THAN now (to_time t))"
proof -
  have "work now (next_timeout s) < fuel"
    using work_le [of now "next_timeout s"] assms(2) by linarith
  then show ?thesis
    using stack_timers.check_loop_returns [of now "(s, g)" fuel "env_check_free_ooseq env" env d] assms(1)
    by (auto simp: sys_check_timeouts_def)
qed

definition demo_due :: timeouts where
  "demo_due = \<lparr>next_timeout = [\<lparr>to_elem = 0, to_time = 5, to_h = Some lwip_cyclic_timer_h, to_arg = Some 1\<rparr>],
     current_timeout_due_time = 0, tcpip_tcp_timer_active = False,
     to_pool = \<lparr>mp_tab = None, mp_next = \<lambda>_. None\<rparr>\<rparr>"

theorem sys_check_timeouts_returns_witness:
  "\<exists>s' g'. sys_check_timeouts \<lparr>env_tcp_tmr = id, env_ip_reass_tmr = Suc, env_pcbs_exist = \<lambda>_. False, env_check_free_ooseq = id\<rparr>
     1005 (\<lambda>n. 1005 + ucast (of_nat (7 - n) :: u16)) 3 (demo_due, 0) = Some (s', g')
     \<and> tq_wf (check_base 1005) (next_timeout s')
     \<and> (\<forall>t \<in> set (next_timeout s'). TIME_LESS_THAN 1005 (to_time t))"
proof (rule sys_check_timeouts_returns)
  show "tq_wf (check_base 1005) (next_timeout demo_due)"
    by (simp add: demo_due_def tq_wf_def in_window_def since_def check_base_def)
qed (simp add: demo_due_def)

section \<open>Cancelling, restarting, sleeping\<close>

lemma untimeout_loop_None:
  "untimeout_loop h a ts = None \<longleftrightarrow> (\<forall>t \<in> set ts. \<not> (to_h t = h \<and> to_arg t = a))"
  by (induction ts) auto

lemma untimeout_loop_Some:
  "untimeout_loop h a ts = Some (e, ts') \<Longrightarrow> \<exists>us t vs. ts = us @ t # vs \<and> ts' = us @ vs
     \<and> to_elem t = e \<and> to_h t = h \<and> to_arg t = a \<and> (\<forall>u \<in> set us. \<not> (to_h u = h \<and> to_arg u = a))"
proof (induction ts arbitrary: ts')
  case (Cons t ts)
  show ?case
  proof (cases "to_h t = h \<and> to_arg t = a")
    case True
    with Cons.prems show ?thesis by (intro exI [of _ "[]"]) auto
  next
    case False
    with Cons.prems obtain ts'' where r: "untimeout_loop h a ts = Some (e, ts'')" "ts' = t # ts''"
      by (auto split: if_splits)
    from Cons.IH [OF r(1)] obtain us v vs where
      "ts = us @ v # vs" "ts'' = us @ vs" "to_elem v = e" "to_h v = h" "to_arg v = a"
      "\<forall>u \<in> set us. \<not> (to_h u = h \<and> to_arg u = a)" by blast
    with False r(2) show ?thesis by (intro exI [of _ "t # us"]) auto
  qed
qed simp

text \<open>
  \<open>sys_untimeout\<close> removes exactly the first entry with the given handler and argument and
  gives its element back to the pool; later matches and all other entries stay, and without
  a match nothing changes.
\<close>

theorem sys_untimeout_first:
  "(\<forall>t \<in> set (next_timeout s). \<not> (to_h t = h \<and> to_arg t = a)) \<and> sys_untimeout h a s = s
   \<or> (\<exists>us t vs. next_timeout s = us @ t # vs \<and> to_h t = h \<and> to_arg t = a
        \<and> (\<forall>u \<in> set us. \<not> (to_h u = h \<and> to_arg u = a))
        \<and> sys_untimeout h a s = s\<lparr>next_timeout := us @ vs,
            to_pool := do_memp_free_pool (to_pool s) (to_elem t)\<rparr>)"
proof (cases "untimeout_loop h a (next_timeout s)")
  case None
  then have "sys_untimeout h a s = s" by (simp add: sys_untimeout_def)
  with None show ?thesis by (auto simp: untimeout_loop_None)
next
  case (Some r)
  then obtain e ts where r: "untimeout_loop h a (next_timeout s) = Some (e, ts)" by (cases r) auto
  from untimeout_loop_Some [OF r] show ?thesis
    by (auto simp: sys_untimeout_def r)
qed

theorem sys_untimeout_first_witness:
  "\<not> (\<exists>t \<in> set (next_timeout (sys_untimeout (Some lwip_cyclic_timer_h) (Some 1) demo_due)).
     to_h t = Some lwip_cyclic_timer_h)"
  using sys_untimeout_first [of demo_due "Some lwip_cyclic_timer_h" "Some 1"]
  by (auto simp: demo_due_def Cons_eq_append_conv)

lemma untimeout_sorted: "tq_wf base (next_timeout s) \<Longrightarrow> tq_wf base (next_timeout (sys_untimeout h a s))"
  using untimeout_loop_Some [of h a "next_timeout s"]
  by (auto simp: sys_untimeout_def tq_wf_def sorted_append split: option.split)

text \<open>
  The time \<open>sys_timeouts_sleeptime\<close> returns is exact: sleeping that long makes the first
  timer due, sleeping any less does not, and 0 is returned for a timer that is already due.
\<close>

theorem sleeptime_exact:
  assumes "next_timeout s = t # ts" "in_window (check_base now) (to_time t)"
  shows "\<not> TIME_LESS_THAN (now + sys_timeouts_sleeptime now s) (to_time t)
    \<and> (\<forall>d < sys_timeouts_sleeptime now s. TIME_LESS_THAN (now + d) (to_time t))"
proof (cases "TIME_LESS_THAN (to_time t) now")
  case True
  have "in_window (check_base now) now" by (simp add: in_window_def)
  with True have "\<not> TIME_LESS_THAN now (to_time t)"
    using assms(2) by (simp add: TIME_LESS_THAN_window [of "check_base now"])
  then show ?thesis using True assms(1) by (simp add: sys_timeouts_sleeptime_def)
next
  case False
  let ?b = "check_base now" and ?z = "to_time t - now"
  have w: "in_window ?b now" by (simp add: in_window_def)
  have le: "since ?b now \<le> since ?b (to_time t)"
    using False assms(2) w by (simp add: TIME_LESS_THAN_window [of ?b])
  have z: "unat ?z = since ?b (to_time t) - since ?b now"
  proof -
    have "?z = (to_time t - ?b) - (now - ?b)" by simp
    then show ?thesis using le unfolding since_def by (metis unat_minus_cases)
  qed
  have "TIME_LESS_THAN (now + d) (to_time t)" if "d < ?z" for d
  proof -
    have "unat d < unat ?z" using that by (simp add: word_less_nat_alt)
    then have "since ?b now + unat d < since ?b (to_time t)" using z le by simp
    moreover have "since ?b (to_time t) \<le> 0x7fffffff" using assms(2) by (simp add: in_window_def)
    moreover have "since ?b (now + d) = since ?b now + unat d"
      using calculation by (intro since_add) simp
    ultimately show ?thesis
      using assms(2) by (subst TIME_LESS_THAN_window [of ?b]) (simp_all add: in_window_def)
  qed
  then show ?thesis
    using False assms(1)
    by (simp add: sys_timeouts_sleeptime_def TIME_LESS_THAN_def LWIP_MAX_TIMEOUT_def)
qed

theorem sleeptime_exact_witness:
  "\<not> TIME_LESS_THAN (2 + sys_timeouts_sleeptime 2 demo_due) 5 \<and> TIME_LESS_THAN (2 + 2) 5"
proof -
  have "in_window (check_base 2) (to_time (hd (next_timeout demo_due)))"
    by (simp add: demo_due_def in_window_def since_def check_base_def)
  then show ?thesis
    using sleeptime_exact [of demo_due "hd (next_timeout demo_due)" "[]" 2]
    by (simp add: demo_due_def sys_timeouts_sleeptime_def TIME_LESS_THAN_def LWIP_MAX_TIMEOUT_def)
qed

text \<open>Restarting moves the first timer to \<open>now\<close> and keeps all distances.\<close>

lemma restart_wf:
  assumes "tq_wf (to_time (hd (next_timeout s))) (next_timeout s)"
  shows "tq_wf now (next_timeout (sys_restart_timeouts now s))"
  using assms
  by (cases "next_timeout s")
    (auto simp: sys_restart_timeouts_def tq_wf_def in_window_def since_def comp_def)

section \<open>No timer of the stack is lost\<close>

text \<open>
  \<open>sys_timeout\<close> silently drops a timer when its pool is empty. The pool has exactly one
  element for each timer of the stack, so it must never be empty when one is started.
\<close>

definition timer_keys :: "timeouts \<Rightarrow> (sys_timeout_handler option \<times> nat option) multiset" where
  "timer_keys s = image_mset (\<lambda>t. (to_h t, to_arg t)) (mset (next_timeout s))"

definition timer_pool_ok :: "memp_desc \<Rightarrow> timeouts \<Rightarrow> bool" where
  "timer_pool_ok desc s \<longleftrightarrow> memp.pool_inv (memp_elems desc) (to_pool s) (map to_elem (next_timeout s))"

definition stack_keys :: "bool \<Rightarrow> (sys_timeout_handler option \<times> nat option) multiset" where
  "stack_keys active = add_mset (Some lwip_cyclic_timer_h, Some 1)
     (if active then {#(Some tcpip_tcp_timer_h, None)#} else {#})"

lemma sys_timeout_abs_scheduled:
  assumes "timer_pool_ok desc s" "0 < desc_size desc" "length (next_timeout s) < desc_num desc"
  shows "timer_pool_ok desc (sys_timeout_abs t h a s)
    \<and> timer_keys (sys_timeout_abs t h a s) = add_mset (h, a) (timer_keys s)"
proof -
  note inv = assms(1) [unfolded timer_pool_ok_def]
  have "fst (do_memp_malloc_pool (to_pool s)) \<noteq> None"
    using memp.alloc_None_iff [OF inv distinct_memp_elems [OF assms(2)]] assms(3)
    by (simp add: memp_elems_def)
  then obtain e p where e: "do_memp_malloc_pool (to_pool s) = (Some e, p)"
    by (cases "do_memp_malloc_pool (to_pool s)") auto
  let ?t = "\<lparr>to_elem = e, to_time = t, to_h = h, to_arg = a\<rparr>"
  have n: "next_timeout (sys_timeout_abs t h a s) = timeout_insert ?t (next_timeout s)"
    by (simp add: sys_timeout_abs_next e)
  have "mset (map to_elem (timeout_insert ?t (next_timeout s))) = mset (e # map to_elem (next_timeout s))"
    by simp
  then have "distinct (map to_elem (timeout_insert ?t (next_timeout s)))
      \<and> set (map to_elem (timeout_insert ?t (next_timeout s))) = set (e # map to_elem (next_timeout s))"
    using memp.pool_inv_distinct [OF memp.alloc_inv(1) [OF inv e]]
    by (metis mset_eq_imp_distinct_iff mset_eq_setD)
  then show ?thesis
    using memp.pool_inv_perm [OF memp.alloc_inv(1) [OF inv e]]
    by (simp add: timer_pool_ok_def n sys_timeout_abs_pool e timer_keys_def)
qed

lemma timer_pop:
  assumes "timer_pool_ok desc s" "next_timeout s = t # ts"
  shows "timer_pool_ok desc (s\<lparr>next_timeout := ts, current_timeout_due_time := d,
    to_pool := do_memp_free_pool (to_pool s) (to_elem t)\<rparr>)"
  using memp.release_inv [of "memp_elems desc" "to_pool s" "to_elem t # map to_elem ts" "to_elem t"] assms
  by (simp add: timer_pool_ok_def)

inductive timers_reach :: "memp_desc \<Rightarrow> 'g timer_env \<Rightarrow> timeouts \<Rightarrow> 'g \<Rightarrow> bool" for desc env where
  init: "timers_reach desc env (sys_timeouts_init now
    \<lparr>next_timeout = [], current_timeout_due_time = 0, tcpip_tcp_timer_active = False,
     to_pool = memp_init_pool desc p\<rparr>) g"
| needed: "timers_reach desc env s g \<Longrightarrow> tcp_timer_needed env now (s, g) = (s', g')
    \<Longrightarrow> timers_reach desc env s' g'"
| fired: "timers_reach desc env s g \<Longrightarrow> next_timeout s = t # ts
    \<Longrightarrow> fire (call_handler env now) t ts (s, g) = (s', g') \<Longrightarrow> timers_reach desc env s' g'"
| elsewhere: "timers_reach desc env s g \<Longrightarrow> timers_reach desc env s g'"

definition stack_timers_ok :: "memp_desc \<Rightarrow> timeouts \<Rightarrow> bool" where
  "stack_timers_ok desc s \<longleftrightarrow> timer_pool_ok desc s
     \<and> timer_keys s = stack_keys (tcpip_tcp_timer_active s)"

lemma length_timer_keys: "size (timer_keys s) = length (next_timeout s)"
  by (simp add: timer_keys_def)

lemma init_timers_ok:
  assumes "0 < desc_size desc" "desc_num desc = 2"
  shows "stack_timers_ok desc (sys_timeouts_init now
    \<lparr>next_timeout = [], current_timeout_due_time = 0, tcpip_tcp_timer_active = False,
     to_pool = memp_init_pool desc p\<rparr>)"
proof -
  let ?s = "\<lparr>next_timeout = [], current_timeout_due_time = 0, tcpip_tcp_timer_active = False,
     to_pool = memp_init_pool desc p\<rparr>"
  have "timer_pool_ok desc ?s"
    using memp_reach_inv [OF memp_reach.init assms(1), of p] by (simp add: timer_pool_ok_def)
  note * = sys_timeout_abs_scheduled [OF this assms(1), of "now + 1000" "Some lwip_cyclic_timer_h" "Some 1"]
  have "sys_timeouts_init now ?s = sys_timeout_abs (now + 1000) (Some lwip_cyclic_timer_h) (Some 1) ?s"
    by (simp add: sys_timeouts_init_def lwip_cyclic_timers_def sys_timeout_def IP_TMR_INTERVAL_def)
  with * assms(2) show ?thesis
    by (simp add: stack_timers_ok_def stack_keys_def timer_keys_def)
qed

lemma needed_timers_ok:
  assumes "stack_timers_ok desc s" "0 < desc_size desc" "desc_num desc = 2"
    "tcp_timer_needed env now (s, g) = (s', g')"
  shows "stack_timers_ok desc s'"
proof (cases "\<not> tcpip_tcp_timer_active s \<and> env_pcbs_exist env g")
  case True
  let ?s = "s\<lparr>tcpip_tcp_timer_active := True\<rparr>"
  have k: "timer_keys s = stack_keys False" "timer_keys ?s = timer_keys s"
    using assms(1) True by (simp_all add: stack_timers_ok_def timer_keys_def)
  have "length (next_timeout s) = 1"
    using k(1) length_timer_keys [of s] by (simp add: stack_keys_def)
  moreover have "timer_pool_ok desc ?s"
    using assms(1) by (simp add: stack_timers_ok_def timer_pool_ok_def)
  ultimately show ?thesis
    using sys_timeout_abs_scheduled [of desc ?s "now + TCP_TMR_INTERVAL" "Some tcpip_tcp_timer_h" None]
      assms(2-4) True k
    by (auto simp: tcp_timer_needed_def sys_timeout_def stack_timers_ok_def stack_keys_def)
next
  case False
  then show ?thesis using assms(1,4) by (auto simp: tcp_timer_needed_def)
qed

lemma fired_timers_ok:
  assumes "stack_timers_ok desc s" "0 < desc_size desc" "desc_num desc = 2"
    "next_timeout s = t # ts" "fire (call_handler env now) t ts (s, g) = (s', g')"
  shows "stack_timers_ok desc s'"
proof -
  let ?s = "s\<lparr>next_timeout := ts, current_timeout_due_time := to_time t,
    to_pool := do_memp_free_pool (to_pool s) (to_elem t)\<rparr>"
  have keys: "add_mset (to_h t, to_arg t) (timer_keys ?s) = stack_keys (tcpip_tcp_timer_active s)"
    using assms(1,4) by (simp add: stack_timers_ok_def timer_keys_def)
  have pool: "timer_pool_ok desc ?s"
    using timer_pop [OF _ assms(4)] assms(1) by (simp add: stack_timers_ok_def)
  have "size (timer_keys ?s) < 2"
    using arg_cong [OF keys, of size] by (auto simp: stack_keys_def split: if_splits)
  then have len: "length (next_timeout ?s) < desc_num desc"
    using assms(3) by (simp only: length_timer_keys)
  note sched = sys_timeout_abs_scheduled [OF pool assms(2) len]
  have active: "tcpip_tcp_timer_active ?s = tcpip_tcp_timer_active s" by simp
  have "(to_h t, to_arg t) \<in># stack_keys (tcpip_tcp_timer_active s)"
    using keys by (metis union_single_eq_member)
  then consider "to_h t = Some lwip_cyclic_timer_h" "to_arg t = Some 1"
    | "to_h t = Some tcpip_tcp_timer_h" "to_arg t = None" "tcpip_tcp_timer_active s"
    by (auto simp: stack_keys_def split: if_splits)
  then show ?thesis
  proof cases
    case 1
    then have "\<exists>at. s' = sys_timeout_abs at (Some lwip_cyclic_timer_h) (Some 1) ?s"
      using assms(5)
      by (auto simp: fire_def call_handler_def lwip_cyclic_timers_def lwip_cyclic_timer_def Let_def
          split: if_splits)
    then show ?thesis using sched keys 1 by (auto simp: stack_timers_ok_def)
  next
    case 2
    then have "s' = sys_timeout_abs (now + TCP_TMR_INTERVAL) (Some tcpip_tcp_timer_h) None ?s
        \<or> s' = ?s\<lparr>tcpip_tcp_timer_active := False\<rparr>"
      using assms(5)
      by (auto simp: fire_def call_handler_def tcpip_tcp_timer_def sys_timeout_def Let_def
          split: if_splits)
    then show ?thesis
    proof
      assume "s' = sys_timeout_abs (now + TCP_TMR_INTERVAL) (Some tcpip_tcp_timer_h) None ?s"
      then show ?thesis using sched keys 2 by (auto simp: stack_timers_ok_def)
    next
      assume "s' = ?s\<lparr>tcpip_tcp_timer_active := False\<rparr>"
      then show ?thesis using keys pool 2
        by (auto simp: stack_timers_ok_def stack_keys_def timer_keys_def timer_pool_ok_def add_mset_commute)
    qed
  qed
qed

text \<open>
  C22: The stack never loses one of its timers. With the two pool elements the configuration
  gives MEMP_SYS_TIMEOUT, in every state reached by initialising, starting the TCP timer on
  demand and firing timers at any clock values, the queue holds the reassembly timer exactly
  once and the TCP timer exactly when \<open>tcpip_tcp_timer_active\<close> is set, whatever the rest of
  the stack does in between.
\<close>

theorem stack_timers_never_lost:
  assumes "timers_reach desc env s g" "0 < desc_size desc" "desc_num desc = memp_nums ! 4"
  shows "timer_keys s = stack_keys (tcpip_tcp_timer_active s)"
proof -
  from assms(3) have n: "desc_num desc = 2" by (simp add: memp_nums_def)
  from assms(1) have "stack_timers_ok desc s"
    by (induction rule: timers_reach.induct)
      (auto intro: init_timers_ok needed_timers_ok fired_timers_ok assms(2) n)
  then show ?thesis by (simp add: stack_timers_ok_def)
qed

theorem stack_timers_never_lost_witness:
  "timer_keys (fst (tcp_timer_needed \<lparr>env_tcp_tmr = id, env_ip_reass_tmr = id, env_pcbs_exist = id, env_check_free_ooseq = id\<rparr> 7
     (sys_timeouts_init 3 \<lparr>next_timeout = [], current_timeout_due_time = 0, tcpip_tcp_timer_active = False,
        to_pool = memp_init_pool \<lparr>desc_size = 32, desc_num = 2, desc_base = 0\<rparr>
          \<lparr>mp_tab = None, mp_next = \<lambda>_. None\<rparr>\<rparr>, True))) = stack_keys True"
proof -
  let ?d = "\<lparr>desc_size = 32, desc_num = 2, desc_base = 0\<rparr> :: memp_desc"
  let ?env = "\<lparr>env_tcp_tmr = id, env_ip_reass_tmr = id, env_pcbs_exist = id, env_check_free_ooseq = id\<rparr> :: bool timer_env"
  let ?s = "sys_timeouts_init 3 \<lparr>next_timeout = [], current_timeout_due_time = 0, tcpip_tcp_timer_active = False,
        to_pool = memp_init_pool ?d \<lparr>mp_tab = None, mp_next = \<lambda>_. None\<rparr>\<rparr>"
  let ?r = "tcp_timer_needed ?env 7 (?s, True)"
  have "timers_reach ?d ?env (fst ?r) (snd ?r)"
    by (rule timers_reach.needed [OF timers_reach.init]) simp
  from stack_timers_never_lost [OF this]
  have "timer_keys (fst ?r) = stack_keys (tcpip_tcp_timer_active (fst ?r))"
    by (simp add: memp_nums_def)
  moreover have "tcpip_tcp_timer_active (fst ?r)"
    by (simp add: tcp_timer_needed_def sys_timeout_def sys_timeouts_init_def lwip_cyclic_timers_def)
  ultimately show ?thesis by simp
qed

end
