(* ===== verification/Tcp_Base.thy ===== *)
theory Tcp_Base
  imports Pbuf_Own Timeouts
begin

text \<open>
  The data of TCP (\<open>Tunnel/lwip/include/lwip/tcp.h\<close>, \<open>priv/tcp_priv.h\<close>, and the globals and
  small helpers of \<open>core/tcp.c\<close>). The control blocks live at addresses (elements of the pools
  MEMP_TCP_PCB and MEMP_TCP_PCB_LISTEN); the lists linked through \<open>next\<close> are lists of addresses
  and the segment queues lists of segments. A function that follows a pointer to a freed
  structure gives \<open>None\<close>. The functions that the stack calls through pointers are parameters
  (\<open>tcp_env\<close>).
\<close>

section \<open>Sequence numbers\<close>

definition TCP_SEQ_LT :: "u32 \<Rightarrow> u32 \<Rightarrow> bool" where
  "TCP_SEQ_LT a b \<longleftrightarrow> (a - b) AND 0x80000000 \<noteq> 0"

definition TCP_SEQ_LEQ :: "u32 \<Rightarrow> u32 \<Rightarrow> bool" where
  "TCP_SEQ_LEQ a b \<longleftrightarrow> \<not> TCP_SEQ_LT b a"

definition TCP_SEQ_GT :: "u32 \<Rightarrow> u32 \<Rightarrow> bool" where
  "TCP_SEQ_GT a b \<longleftrightarrow> TCP_SEQ_LT b a"

definition TCP_SEQ_GEQ :: "u32 \<Rightarrow> u32 \<Rightarrow> bool" where
  "TCP_SEQ_GEQ a b \<longleftrightarrow> TCP_SEQ_LEQ b a"

definition TCP_SEQ_BETWEEN :: "u32 \<Rightarrow> u32 \<Rightarrow> u32 \<Rightarrow> bool" where
  "TCP_SEQ_BETWEEN a b c \<longleftrightarrow> TCP_SEQ_GEQ a b \<and> TCP_SEQ_LEQ a c"

section \<open>Data\<close>

datatype tcp_state = CLOSED | LISTEN | SYN_SENT | SYN_RCVD | ESTABLISHED | FIN_WAIT_1 | FIN_WAIT_2
  | CLOSE_WAIT | CLOSING | LAST_ACK | TIME_WAIT

definition TF_ACK_DELAY :: u16 where "TF_ACK_DELAY = 0x01"

definition TF_ACK_NOW :: u16 where "TF_ACK_NOW = 0x02"

definition TF_CLOSEPEND :: u16 where "TF_CLOSEPEND = 0x08"

definition TF_RXCLOSED :: u16 where "TF_RXCLOSED = 0x10"

definition TF_NODELAY :: u16 where "TF_NODELAY = 0x40"

definition TF_NAGLEMEMERR :: u16 where "TF_NAGLEMEMERR = 0x80"

text \<open>The flag of \<open>recv_flags\<close> that asks \<open>tcp_input\<close> to free the PCB it is working on.\<close>

definition TF_CLOSED :: u8 where "TF_CLOSED = 0x10"

definition SOF_KEEPALIVE :: u8 where "SOF_KEEPALIVE = 0x08"

text \<open>The configuration (\<open>lwipopts.h\<close>, \<open>opt.h\<close>).\<close>

definition TCP_WND :: u16 where "TCP_WND = 65535"

definition TCP_SND_BUF :: u16 where "TCP_SND_BUF = 65535"

definition TCP_MSS :: u16 where "TCP_MSS = 1460"

definition INITIAL_MSS :: u16 where "INITIAL_MSS = 536"

definition TCP_TTL :: u8 where "TCP_TTL = 255"

definition TCP_WND_UPDATE_THRESHOLD :: u32 where
  "TCP_WND_UPDATE_THRESHOLD = min (65535 div 4) (1460 * 4)"

definition TCP_SLOW_INTERVAL :: nat where "TCP_SLOW_INTERVAL = 500"

definition LWIP_TCP_RTO_TIME :: nat where "LWIP_TCP_RTO_TIME = 3000"

definition TCP_KEEPIDLE_DEFAULT :: u32 where "TCP_KEEPIDLE_DEFAULT = 7200000"

definition TCP_PRIO_NORMAL :: u8 where "TCP_PRIO_NORMAL = 64"

definition TCP_PRIO_MAX :: u8 where "TCP_PRIO_MAX = 127"

definition TCP_LOCAL_PORT_RANGE_START :: u16 where "TCP_LOCAL_PORT_RANGE_START = 0xc000"

definition TCP_LOCAL_PORT_RANGE_END :: u16 where "TCP_LOCAL_PORT_RANGE_END = 0xffff"

definition MEMP_TCP_PCB :: nat where "MEMP_TCP_PCB = 0"

definition MEMP_TCP_PCB_LISTEN :: nat where "MEMP_TCP_PCB_LISTEN = 1"

definition MEMP_TCP_SEG :: nat where "MEMP_TCP_SEG = 2"

text \<open>A segment: \<open>sg_elem\<close> is its pool element, \<open>sg_tcphdr\<close> the address of its header.\<close>

record tcp_seg =
  sg_elem :: nat
  sg_p :: "nat option"
  sg_len :: u16
  sg_flags :: u8
  sg_tcphdr :: nat

text \<open>Function pointers: the functions the program stores in a PCB. No poll and no connected
  callback is ever stored by this program, so those are left to the environment.\<close>

datatype tcp_recv_fn = tcp_recv_null_fn | tcp_recv_cb_fn

datatype tcp_sent_fn = tcp_sent_cb_fn

datatype tcp_err_fn = tcp_err_cb_fn

datatype tcp_accept_fn = tcp_accept_null_fn | tcp_accept_cb_fn

datatype tcp_poll_fn = Poll_Fn nat

record tcp_pcb =
  t_local_ip :: u32
  t_remote_ip :: u32
  t_netif_idx :: u8
  t_so_options :: u8
  t_tos :: u8
  t_ttl :: u8
  t_callback_arg :: nat
  t_state :: tcp_state
  t_prio :: u8
  t_local_port :: u16
  t_remote_port :: u16
  t_flags :: u16
  t_polltmr :: u8
  t_pollinterval :: u8
  t_last_timer :: u8
  t_tmr :: u32
  t_rcv_nxt :: u32
  t_rcv_wnd :: u16
  t_rcv_ann_wnd :: u16
  t_rcv_ann_right_edge :: u32
  t_rtime :: int
  t_mss :: u16
  t_rttest :: u32
  t_rtseq :: u32
  t_sa :: int
  t_sv :: int
  t_rto :: int
  t_nrtx :: u8
  t_dupacks :: u8
  t_lastack :: u32
  t_cwnd :: u16
  t_ssthresh :: u16
  t_rto_end :: u32
  t_snd_nxt :: u32
  t_snd_wl1 :: u32
  t_snd_wl2 :: u32
  t_snd_lbb :: u32
  t_snd_wnd :: u16
  t_snd_wnd_max :: u16
  t_snd_buf :: u16
  t_snd_queuelen :: u16
  t_unsent_oversize :: u16
  t_bytes_acked :: u16
  t_unsent :: "tcp_seg list"
  t_unacked :: "tcp_seg list"
  t_ooseq :: "tcp_seg list"
  t_refused_data :: "nat option"
  t_listener :: "nat option"
  t_sent :: "tcp_sent_fn option"
  t_recv :: "tcp_recv_fn option"
  t_poll :: "tcp_poll_fn option"
  t_errf :: "tcp_err_fn option"
  t_keep_idle :: u32
  t_persist_cnt :: u8
  t_persist_backoff :: u8
  t_persist_probe :: u8
  t_keep_cnt_sent :: u8

text \<open>
  A network interface; \<open>nif_output\<close> is its output function. IP addresses are kept as numbers whose
  big-endian bytes are the bytes of the address, so \<open>lwip_ntohl\<close> of an address is the identity.
\<close>

datatype netif_output_fn = netif_null_output_ip4_fn | netif_output_fn

record netif =
  nif_ip_addr :: u32
  nif_netmask :: u32
  nif_gw :: u32
  nif_output :: netif_output_fn
  nif_mtu :: u16
  nif_flags :: u8
  nif_name :: string
  nif_num :: u8

record tcp_pcb_listen =
  l_local_ip :: u32
  l_netif_idx :: u8
  l_so_options :: u8
  l_tos :: u8
  l_ttl :: u8
  l_callback_arg :: nat
  l_state :: tcp_state
  l_prio :: u8
  l_local_port :: u16
  l_accept :: "tcp_accept_fn option"

text \<open>
  What \<open>ip_data\<close> holds about the packet being received, the static variables of \<open>tcp_in.c\<close> about
  the segment being received (\<open>in_seg\<close> is the static \<open>inseg\<close>), and the datagrams being reassembled.
  The fragments of a datagram are linked through helper structures that overwrite the IP headers
  of the fragments; they are kept here as a list of pbufs with the start and end they hold.
\<close>

record ip_globals =
  current_netif :: "nat option"
  current_input_netif :: "nat option"
  current_ip4_header :: "nat option"
  current_ip_header_tot_len :: u16
  current_iphdr_src :: u32
  current_iphdr_dest :: u32

record tcp_in_vars =
  in_seg :: tcp_seg
  in_hdr :: nat
  in_optlen :: u16
  in_opt1len :: u16
  in_opt2 :: "nat option"
  in_optidx :: u16
  in_seqno :: u32
  in_ackno :: u32
  in_recv_acked :: u16
  in_tcplen :: u16
  in_flags :: u8
  in_recv_data :: "nat option"

record ip_reassdata =
  ir_elem :: nat
  ir_frags :: "(nat \<times> u16 \<times> u16) list"
  ir_iphdr :: "u8 list"
  ir_datagram_len :: u16
  ir_flags :: u8
  ir_timer :: u8

text \<open>
  The globals of the TCP module, the memory they live in, the timer queue with the value
  of the clock, and the state \<open>'a\<close> of the application.
\<close>

record 'a tcp_stack =
  ts_pb :: pbuf_state
  ts_pcbs :: "nat \<rightharpoonup> tcp_pcb"
  ts_lpcbs :: "nat \<rightharpoonup> tcp_pcb_listen"
  tcp_listen_pcbs :: "nat list"
  tcp_bound_pcbs :: "nat list"
  tcp_active_pcbs :: "nat list"
  tcp_tw_pcbs :: "nat list"
  tcp_active_pcbs_changed :: bool
  tcp_port :: u16
  tcp_iss :: u32
  tcp_ticks :: u32
  tcp_timer :: u8
  tcp_timer_ctr :: u8
  tcp_input_pcb :: "nat option"
  recv_flags :: u8
  ts_netifs :: "nat \<rightharpoonup> netif"
  netif_list :: "nat list"
  netif_default :: "nat option"
  netif_num :: u8
  ip_id :: u16
  ip_data :: ip_globals
  ts_in :: tcp_in_vars
  reassdatagrams :: "ip_reassdata list"
  ip_reass_pbufcount :: u16
  ts_timeouts :: timeouts
  ts_now :: u32
  ts_app :: 'a

text \<open>
  Function pointers of the stack: the output function of a network interface and the callbacks
  stored in PCBs. The functions themselves belong to the users of the stack.
\<close>

record 'a tcp_env =
  env_netif_output :: "nat \<Rightarrow> nat \<Rightarrow> u32 \<Rightarrow> 'a tcp_stack \<Rightarrow> (err_t \<times> 'a tcp_stack) option"
  env_err_cb :: "tcp_err_fn \<Rightarrow> nat \<Rightarrow> err_t \<Rightarrow> 'a tcp_stack \<Rightarrow> 'a tcp_stack option"
  env_recv_cb :: "nat \<Rightarrow> nat \<Rightarrow> nat option \<Rightarrow> err_t \<Rightarrow> 'a tcp_stack \<Rightarrow> (err_t \<times> 'a tcp_stack) option"
  env_sent_cb :: "nat \<Rightarrow> nat \<Rightarrow> u16 \<Rightarrow> 'a tcp_stack \<Rightarrow> (err_t \<times> 'a tcp_stack) option"
  env_accept_cb :: "nat \<Rightarrow> nat option \<Rightarrow> err_t \<Rightarrow> 'a tcp_stack \<Rightarrow> (err_t \<times> 'a tcp_stack) option"
  env_poll_cb :: "tcp_poll_fn \<Rightarrow> nat \<Rightarrow> nat \<Rightarrow> 'a tcp_stack \<Rightarrow> (err_t \<times> 'a tcp_stack) option"

section \<open>Memory and lists\<close>

definition pcb_upd :: "nat \<Rightarrow> (tcp_pcb \<Rightarrow> tcp_pcb) \<Rightarrow> 'a tcp_stack \<Rightarrow> 'a tcp_stack option" where
  "pcb_upd a f w = map_option (\<lambda>b. w\<lparr>ts_pcbs := (ts_pcbs w)(a \<mapsto> f b)\<rparr>) (ts_pcbs w a)"

definition tcp_set_flags :: "nat \<Rightarrow> u16 \<Rightarrow> 'a tcp_stack \<Rightarrow> 'a tcp_stack option" where
  "tcp_set_flags a f w = pcb_upd a (\<lambda>b. b\<lparr>t_flags := t_flags b OR f\<rparr>) w"

definition tcp_clear_flags :: "nat \<Rightarrow> u16 \<Rightarrow> 'a tcp_stack \<Rightarrow> 'a tcp_stack option" where
  "tcp_clear_flags a f w = pcb_upd a (\<lambda>b. b\<lparr>t_flags := t_flags b AND (NOT f)\<rparr>) w"

definition tcp_nagle_disable :: "nat \<Rightarrow> 'a tcp_stack \<Rightarrow> 'a tcp_stack option" where
  "tcp_nagle_disable a w = tcp_set_flags a TF_NODELAY w"

definition tcp_ack_now :: "nat \<Rightarrow> 'a tcp_stack \<Rightarrow> 'a tcp_stack option" where
  "tcp_ack_now a w = tcp_set_flags a TF_ACK_NOW w"

text \<open>The pools, and operations on packet buffers.\<close>

definition stack_pb :: "(pbuf_state \<Rightarrow> ('r \<times> pbuf_state) option) \<Rightarrow> 'a tcp_stack \<Rightarrow> ('r \<times> 'a tcp_stack) option" where
  "stack_pb f w = map_option (\<lambda>(r, pb). (r, w\<lparr>ts_pb := pb\<rparr>)) (f (ts_pb w))"

definition stack_malloc :: "nat \<Rightarrow> 'a tcp_stack \<Rightarrow> nat option \<times> 'a tcp_stack" where
  "stack_malloc ty w =
     (let (m, pools) = memp_malloc ty (ps_pools (ts_pb w))
      in (m, w\<lparr>ts_pb := (ts_pb w)\<lparr>ps_pools := pools\<rparr>\<rparr>))"

definition stack_free :: "nat \<Rightarrow> nat \<Rightarrow> 'a tcp_stack \<Rightarrow> 'a tcp_stack" where
  "stack_free ty a w = w\<lparr>ts_pb := (ts_pb w)\<lparr>ps_pools := memp_free ty (Some a) (ps_pools (ts_pb w))\<rparr>\<rparr>"

definition tcp_free :: "nat \<Rightarrow> 'a tcp_stack \<Rightarrow> 'a tcp_stack" where
  "tcp_free pcb w = (stack_free MEMP_TCP_PCB pcb w)\<lparr>ts_pcbs := (ts_pcbs w)(pcb := None)\<rparr>"

definition tcp_free_listen :: "nat \<Rightarrow> 'a tcp_stack \<Rightarrow> 'a tcp_stack" where
  "tcp_free_listen pcb w = (stack_free MEMP_TCP_PCB_LISTEN pcb w)\<lparr>ts_lpcbs := (ts_lpcbs w)(pcb := None)\<rparr>"

definition tcp_seg_free :: "tcp_seg \<Rightarrow> 'a tcp_stack \<Rightarrow> 'a tcp_stack option" where
  "tcp_seg_free seg w =
     do { w \<leftarrow> (case sg_p seg of
                 None \<Rightarrow> Some w
               | Some p \<Rightarrow> map_option snd (stack_pb (pbuf_free (Some p)) w));
          Some (stack_free MEMP_TCP_SEG (sg_elem seg) w) }"

fun tcp_segs_free :: "tcp_seg list \<Rightarrow> 'a tcp_stack \<Rightarrow> 'a tcp_stack option" where
  "tcp_segs_free [] w = Some w"
| "tcp_segs_free (seg # segs) w = Option.bind (tcp_seg_free seg w) (tcp_segs_free segs)"

definition tcp_seg_copy :: "tcp_seg \<Rightarrow> 'a tcp_stack \<Rightarrow> (tcp_seg option \<times> 'a tcp_stack) option" where
  "tcp_seg_copy seg w =
     (case stack_malloc MEMP_TCP_SEG w of
        (None, w) \<Rightarrow> Some (None, w)
      | (Some c, w) \<Rightarrow> do {
          (_, w) \<leftarrow> stack_pb (\<lambda>s. map_option (\<lambda>s. ((), s)) (pbuf_ref (sg_p seg) s)) w;
          Some (Some (seg\<lparr>sg_elem := c\<rparr>), w) })"

definition tcp_free_ooseq :: "nat \<Rightarrow> 'a tcp_stack \<Rightarrow> 'a tcp_stack option" where
  "tcp_free_ooseq pcb w =
     do { b \<leftarrow> ts_pcbs w pcb;
          if t_ooseq b \<noteq> [] then do {
            w \<leftarrow> tcp_segs_free (t_ooseq b) w;
            pcb_upd pcb (\<lambda>b. b\<lparr>t_ooseq := []\<rparr>) w }
          else Some w }"

text \<open>The out-of-sequence data of one PCB is freed when the pool of pbufs has run empty.\<close>

fun free_ooseq_loop :: "nat list \<Rightarrow> 'a tcp_stack \<Rightarrow> 'a tcp_stack option" where
  "free_ooseq_loop [] w = Some w"
| "free_ooseq_loop (pcb # pcbs) w =
     Option.bind (ts_pcbs w pcb) (\<lambda>b. if t_ooseq b \<noteq> [] then tcp_free_ooseq pcb w else free_ooseq_loop pcbs w)"

definition pbuf_free_ooseq :: "'a tcp_stack \<Rightarrow> 'a tcp_stack option" where
  "pbuf_free_ooseq w = free_ooseq_loop (tcp_active_pcbs w) (w\<lparr>ts_pb := (ts_pb w)\<lparr>ps_free_ooseq_pending := False\<rparr>\<rparr>)"

definition PBUF_CHECK_FREE_OOSEQ :: "'a tcp_stack \<Rightarrow> 'a tcp_stack option" where
  "PBUF_CHECK_FREE_OOSEQ w = (if ps_free_ooseq_pending (ts_pb w) then pbuf_free_ooseq w else Some w)"

text \<open>\<open>tcp_timer_needed()\<close>, called when a PCB is put on a list.\<close>

definition stack_timer_env :: "'a tcp_stack timer_env" where
  "stack_timer_env = \<lparr>env_tcp_tmr = (\<lambda>g. g), env_ip_reass_tmr = (\<lambda>g. g),
     env_pcbs_exist = (\<lambda>g. tcp_active_pcbs g \<noteq> [] \<or> tcp_tw_pcbs g \<noteq> []), env_check_free_ooseq = (\<lambda>g. g)\<rparr>"

definition stack_timer_needed :: "'a tcp_stack \<Rightarrow> 'a tcp_stack" where
  "stack_timer_needed w = w\<lparr>ts_timeouts := fst (tcp_timer_needed stack_timer_env (ts_now w) (ts_timeouts w, w))\<rparr>"

datatype pcb_list = L_listen | L_bound | L_active | L_tw

fun list_of :: "pcb_list \<Rightarrow> 'a tcp_stack \<Rightarrow> nat list" where
  "list_of L_listen w = tcp_listen_pcbs w"
| "list_of L_bound w = tcp_bound_pcbs w"
| "list_of L_active w = tcp_active_pcbs w"
| "list_of L_tw w = tcp_tw_pcbs w"

fun set_list :: "pcb_list \<Rightarrow> nat list \<Rightarrow> 'a tcp_stack \<Rightarrow> 'a tcp_stack" where
  "set_list L_listen xs w = w\<lparr>tcp_listen_pcbs := xs\<rparr>"
| "set_list L_bound xs w = w\<lparr>tcp_bound_pcbs := xs\<rparr>"
| "set_list L_active xs w = w\<lparr>tcp_active_pcbs := xs\<rparr>"
| "set_list L_tw xs w = w\<lparr>tcp_tw_pcbs := xs\<rparr>"

definition TCP_REG :: "pcb_list \<Rightarrow> nat \<Rightarrow> 'a tcp_stack \<Rightarrow> 'a tcp_stack" where
  "TCP_REG l npcb w = stack_timer_needed (set_list l (npcb # list_of l w) w)"

definition TCP_RMV :: "pcb_list \<Rightarrow> nat \<Rightarrow> 'a tcp_stack \<Rightarrow> 'a tcp_stack" where
  "TCP_RMV l npcb w = set_list l (remove1 npcb (list_of l w)) w"

definition TCP_REG_ACTIVE :: "nat \<Rightarrow> 'a tcp_stack \<Rightarrow> 'a tcp_stack" where
  "TCP_REG_ACTIVE npcb w = (TCP_REG L_active npcb w)\<lparr>tcp_active_pcbs_changed := True\<rparr>"

definition TCP_RMV_ACTIVE :: "nat \<Rightarrow> 'a tcp_stack \<Rightarrow> 'a tcp_stack" where
  "TCP_RMV_ACTIVE npcb w = (TCP_RMV L_active npcb w)\<lparr>tcp_active_pcbs_changed := True\<rparr>"

section \<open>The effective MSS\<close>

definition tcp_eff_send_mss_netif :: "u16 \<Rightarrow> u16 option \<Rightarrow> u16" where
  "tcp_eff_send_mss_netif sendmss mtu =
     (case mtu of None \<Rightarrow> sendmss
      | Some mtu \<Rightarrow> if mtu \<noteq> 0 then min sendmss (if mtu > 20 + 20 then mtu - (20 + 20) else 0) else sendmss)"

end
