(* ===== verification/Ip4_Out.thy ===== *)
theory Ip4_Out
  imports Tcp_Base
begin

text \<open>
  The output side of IP (\<open>Tunnel/lwip/core/ipv4/ip4.c\<close>, \<open>ip4_frag.c\<close>): routing, the IP header
  and fragmentation. Headers are written to and read from the payload memory; a field that the
  code stores with \<open>lwip_htons\<close> or \<open>lwip_htonl\<close> is stored with its bytes in big-endian order.
\<close>

section \<open>Headers in memory\<close>

definition st_u8 :: "nat \<Rightarrow> u8 \<Rightarrow> 'a tcp_stack \<Rightarrow> 'a tcp_stack" where
  "st_u8 a x w = w\<lparr>ts_pb := (ts_pb w)\<lparr>ps_mem := wr_bytes (ps_mem (ts_pb w)) a [x]\<rparr>\<rparr>"

definition st_u16 :: "nat \<Rightarrow> u16 \<Rightarrow> 'a tcp_stack \<Rightarrow> 'a tcp_stack" where
  "st_u16 a x w = w\<lparr>ts_pb := (ts_pb w)\<lparr>ps_mem := wr_bytes (ps_mem (ts_pb w)) a [byte_of 1 x, byte_of 0 x]\<rparr>\<rparr>"

definition st_u32 :: "nat \<Rightarrow> u32 \<Rightarrow> 'a tcp_stack \<Rightarrow> 'a tcp_stack" where
  "st_u32 a x w = w\<lparr>ts_pb := (ts_pb w)\<lparr>ps_mem := wr_bytes (ps_mem (ts_pb w)) a
     [byte_of 3 x, byte_of 2 x, byte_of 1 x, byte_of 0 x]\<rparr>\<rparr>"

definition st_bytes :: "nat \<Rightarrow> u8 list \<Rightarrow> 'a tcp_stack \<Rightarrow> 'a tcp_stack" where
  "st_bytes a bs w = w\<lparr>ts_pb := (ts_pb w)\<lparr>ps_mem := wr_bytes (ps_mem (ts_pb w)) a bs\<rparr>\<rparr>"

definition ld_u8 :: "'a tcp_stack \<Rightarrow> nat \<Rightarrow> u8" where
  "ld_u8 w a = ps_mem (ts_pb w) a"

definition ld_u16 :: "'a tcp_stack \<Rightarrow> nat \<Rightarrow> u16" where
  "ld_u16 w a = rd16 (rd_bytes (ps_mem (ts_pb w)) a 2) 0"

definition ld_u32 :: "'a tcp_stack \<Rightarrow> nat \<Rightarrow> u32" where
  "ld_u32 w a = rd32 (rd_bytes (ps_mem (ts_pb w)) a 4) 0"

definition stack_buf :: "'a tcp_stack \<Rightarrow> nat \<Rightarrow> pbuf option" where
  "stack_buf w p = ps_bufs (ts_pb w) p"

definition stack_buf_upd :: "nat \<Rightarrow> (pbuf \<Rightarrow> pbuf) \<Rightarrow> 'a tcp_stack \<Rightarrow> 'a tcp_stack option" where
  "stack_buf_upd p f w = map_option (\<lambda>pb. w\<lparr>ts_pb := pb\<rparr>) (pbuf_upd p f (ts_pb w))"

definition IP_HLEN :: nat where "IP_HLEN = 20"

definition IP_PROTO_ICMP :: u8 where "IP_PROTO_ICMP = 1"

definition IP_PROTO_TCP :: u8 where "IP_PROTO_TCP = 6"

definition IP_MF :: u16 where "IP_MF = 0x2000"

definition IP_OFFMASK :: u16 where "IP_OFFMASK = 0x1fff"

section \<open>Routing\<close>

definition NETIF_FLAG_UP :: u8 where "NETIF_FLAG_UP = 0x01"

definition NETIF_FLAG_BROADCAST :: u8 where "NETIF_FLAG_BROADCAST = 0x02"

definition NETIF_FLAG_LINK_UP :: u8 where "NETIF_FLAG_LINK_UP = 0x04"

definition netif_is_up :: "netif \<Rightarrow> bool" where
  "netif_is_up n \<longleftrightarrow> nif_flags n AND NETIF_FLAG_UP \<noteq> 0"

definition netif_is_link_up :: "netif \<Rightarrow> bool" where
  "netif_is_link_up n \<longleftrightarrow> nif_flags n AND NETIF_FLAG_LINK_UP \<noteq> 0"

definition ip4_addr_net_eq :: "u32 \<Rightarrow> u32 \<Rightarrow> u32 \<Rightarrow> bool" where
  "ip4_addr_net_eq addr1 addr2 nm \<longleftrightarrow> addr1 AND nm = addr2 AND nm"

definition ip4_addr_isloopback :: "u32 \<Rightarrow> bool" where
  "ip4_addr_isloopback addr \<longleftrightarrow> addr AND 0xff000000 = 0x7f000000"

text \<open>The test of the loop over the interfaces, and the loop.\<close>

definition route_match :: "u32 \<Rightarrow> netif \<Rightarrow> bool" where
  "route_match dest n \<longleftrightarrow> netif_is_up n \<and> netif_is_link_up n \<and> nif_ip_addr n \<noteq> 0
     \<and> (ip4_addr_net_eq dest (nif_ip_addr n) (nif_netmask n)
        \<or> nif_flags n AND NETIF_FLAG_BROADCAST = 0 \<and> dest = nif_gw n)"

fun route_loop :: "(nat \<rightharpoonup> netif) \<Rightarrow> u32 \<Rightarrow> nat list \<Rightarrow> nat option option" where
  "route_loop N dest [] = Some None"
| "route_loop N dest (a # as) =
     Option.bind (N a) (\<lambda>n. if route_match dest n then Some (Some a) else route_loop N dest as)"

definition ip4_route :: "'a tcp_stack \<Rightarrow> u32 \<Rightarrow> nat option option" where
  "ip4_route w dest =
     do { r \<leftarrow> route_loop (ts_netifs w) dest (netif_list w);
          case r of Some a \<Rightarrow> Some (Some a)
          | None \<Rightarrow> (case netif_default w of None \<Rightarrow> Some None
              | Some d \<Rightarrow> do {
                  n \<leftarrow> ts_netifs w d;
                  Some (if \<not> netif_is_up n \<or> \<not> netif_is_link_up n \<or> nif_ip_addr n = 0 \<or> ip4_addr_isloopback dest
                        then None else Some d) }) }"

section \<open>Sending\<close>

definition netif_do_output :: "'a tcp_env \<Rightarrow> nat \<Rightarrow> nat \<Rightarrow> u32 \<Rightarrow> 'a tcp_stack \<Rightarrow> (err_t \<times> 'a tcp_stack) option" where
  "netif_do_output env nif p dest w =
     do { n \<leftarrow> ts_netifs w nif;
          case nif_output n of
            netif_null_output_ip4_fn \<Rightarrow> Some (ERR_IF, w)
          | netif_output_fn \<Rightarrow> env_netif_output env nif p dest w }"

text \<open>
  \<open>ip4_frag\<close> for LWIP_NETIF_TX_SINGLE_PBUF: each fragment is copied to a pbuf of its own. The
  fragment size is a multiple of 8 and, in this program, positive, so the loop ends.
\<close>

definition frag_send ::
    "'a tcp_env \<Rightarrow> nat \<Rightarrow> nat \<Rightarrow> u32 \<Rightarrow> nat \<Rightarrow> u16 \<Rightarrow> u16 \<Rightarrow> u16 \<Rightarrow> 'a tcp_stack \<Rightarrow> (u16 option \<times> 'a tcp_stack) option" where
  "frag_send env nif p dest original_iphdr fragsize poff off w =
     do { (r, w) \<leftarrow> stack_pb (pbuf_alloc PBUF_IP fragsize PBUF_RAM) w;
          case r of None \<Rightarrow> Some (None, w)
          | Some rambuf \<Rightarrow> do {
              (copied, bs) \<leftarrow> pbuf_copy_partial (ts_pb w) (Some p) fragsize poff;
              b \<leftarrow> stack_buf w rambuf;
              let w = st_bytes (p_payload b) bs w;
              (fail, w) \<leftarrow> stack_pb (pbuf_add_header (Some rambuf) IP_HLEN) w;
              if fail then do {
                (_, w) \<leftarrow> stack_pb (pbuf_free (Some rambuf)) w;
                Some (None, w) }
              else do {
                b \<leftarrow> stack_buf w rambuf;
                let iphdr = p_payload b;
                let w = st_bytes iphdr (rd_bytes (ps_mem (ts_pb w)) original_iphdr IP_HLEN) w;
                let w = st_u16 (iphdr + 6) off w;
                let w = st_u16 (iphdr + 2) (fragsize + of_nat IP_HLEN) w;
                let w = st_u16 (iphdr + 10) 0 w;
                (_, w) \<leftarrow> netif_do_output env nif rambuf dest w;
                (_, w) \<leftarrow> stack_pb (pbuf_free (Some rambuf)) w;
                Some (Some copied, w) } } }"

partial_function (option) frag_loop ::
    "'a tcp_env \<Rightarrow> nat \<Rightarrow> nat \<Rightarrow> u32 \<Rightarrow> nat \<Rightarrow> u16 \<Rightarrow> u16 \<Rightarrow> bool \<Rightarrow> u16 \<Rightarrow> u16 \<Rightarrow> u16
      \<Rightarrow> 'a tcp_stack \<Rightarrow> (err_t \<times> 'a tcp_stack) option" where
  "frag_loop env nif p dest original_iphdr mtu nfb mf_set left poff ofo w =
     (if left = 0 then Some (ERR_OK, w)
      else let fragsize = min left (nfb * 8);
               lastf = (uint left \<le> uint mtu - int IP_HLEN);
               tmp = IP_OFFMASK AND ofo;
               tmp = (if \<not> lastf \<or> mf_set then tmp OR IP_MF else tmp)
           in Option.bind (frag_send env nif p dest original_iphdr fragsize poff tmp w) (\<lambda>(r, w).
                case r of None \<Rightarrow> Some (ERR_MEM, w)
                | Some copied \<Rightarrow>
                    frag_loop env nif p dest original_iphdr mtu nfb mf_set (left - fragsize) (poff + copied) (ofo + nfb) w))"

definition ip4_frag :: "'a tcp_env \<Rightarrow> nat \<Rightarrow> nat \<Rightarrow> u32 \<Rightarrow> 'a tcp_stack \<Rightarrow> (err_t \<times> 'a tcp_stack) option" where
  "ip4_frag env p nif dest w =
     do { n \<leftarrow> ts_netifs w nif;
          b \<leftarrow> stack_buf w p;
          let iphdr = p_payload b;
          if ld_u8 w iphdr AND 0x0f \<noteq> 5 then Some (ERR_VAL, w)
          else if p_len b < of_nat IP_HLEN then Some (ERR_VAL, w)
          else do {
            let tmp = ld_u16 w (iphdr + 6);
            let nfb = (if nif_mtu n < of_nat IP_HLEN then 0 - (of_nat IP_HLEN - nif_mtu n) div 8
                       else (nif_mtu n - of_nat IP_HLEN) div 8);
            frag_loop env nif p dest iphdr (nif_mtu n) nfb
              (tmp AND IP_MF \<noteq> 0) (p_tot_len b - of_nat IP_HLEN) (of_nat IP_HLEN) (tmp AND IP_OFFMASK) w } }"

text \<open>\<open>ip4_output_if\<close> and \<open>ip4_output_if_src\<close>; \<open>dest = None\<close> is LWIP_IP_HDRINCL.\<close>

definition ip4_header :: "nat \<Rightarrow> u32 \<Rightarrow> u32 \<Rightarrow> u8 \<Rightarrow> u8 \<Rightarrow> u8 \<Rightarrow> u16 \<Rightarrow> 'a tcp_stack \<Rightarrow> 'a tcp_stack" where
  "ip4_header iphdr src dest ttl tos proto tot_len w =
     (let w = st_u8 (iphdr + 8) ttl w;
          w = st_u8 (iphdr + 9) proto w;
          w = st_u32 (iphdr + 16) dest w;
          w = st_u8 iphdr 0x45 w;
          w = st_u8 (iphdr + 1) tos w;
          w = st_u16 (iphdr + 2) tot_len w;
          w = st_u16 (iphdr + 6) 0 w;
          w = st_u16 (iphdr + 4) (ip_id w) w;
          w = w\<lparr>ip_id := ip_id w + 1\<rparr>;
          w = st_u32 (iphdr + 12) src w
      in st_u16 (iphdr + 10) 0 w)"

definition ip4_output_if_src ::
    "'a tcp_env \<Rightarrow> nat \<Rightarrow> u32 \<Rightarrow> u32 option \<Rightarrow> u8 \<Rightarrow> u8 \<Rightarrow> u8 \<Rightarrow> nat \<Rightarrow> 'a tcp_stack \<Rightarrow> (err_t \<times> 'a tcp_stack) option" where
  "ip4_output_if_src env p src dest ttl tos proto nif w =
     do { (r, w) \<leftarrow>
            (case dest of
               Some d \<Rightarrow> do {
                 (fail, w) \<leftarrow> stack_pb (pbuf_add_header (Some p) IP_HLEN) w;
                 if fail then Some (None, w)
                 else do {
                   b \<leftarrow> stack_buf w p;
                   Some (Some d, ip4_header (p_payload b) src d ttl tos proto (p_tot_len b) w) } }
             | None \<Rightarrow> do {
                 b \<leftarrow> stack_buf w p;
                 Some (if p_len b < of_nat IP_HLEN then None else Some (ld_u32 w (p_payload b + 16)), w) });
          case r of None \<Rightarrow> Some (ERR_BUF, w)
          | Some d \<Rightarrow> do {
              n \<leftarrow> ts_netifs w nif;
              b \<leftarrow> stack_buf w p;
              if nif_mtu n \<noteq> 0 \<and> p_tot_len b > nif_mtu n then ip4_frag env p nif d w
              else netif_do_output env nif p d w } }"

definition ip4_output_if ::
    "'a tcp_env \<Rightarrow> nat \<Rightarrow> u32 \<Rightarrow> u32 option \<Rightarrow> u8 \<Rightarrow> u8 \<Rightarrow> u8 \<Rightarrow> nat \<Rightarrow> 'a tcp_stack \<Rightarrow> (err_t \<times> 'a tcp_stack) option" where
  "ip4_output_if env p src dest ttl tos proto nif w =
     do { n \<leftarrow> ts_netifs w nif;
          ip4_output_if_src env p (if dest \<noteq> None \<and> src = 0 then nif_ip_addr n else src) dest ttl tos proto nif w }"

definition ip4_output ::
    "'a tcp_env \<Rightarrow> nat \<Rightarrow> u32 \<Rightarrow> u32 \<Rightarrow> u8 \<Rightarrow> u8 \<Rightarrow> u8 \<Rightarrow> 'a tcp_stack \<Rightarrow> (err_t \<times> 'a tcp_stack) option" where
  "ip4_output env p src dest ttl tos proto w =
     do { r \<leftarrow> ip4_route w dest;
          case r of None \<Rightarrow> Some (ERR_RTE, w)
          | Some nif \<Rightarrow> ip4_output_if env p src (Some dest) ttl tos proto nif w }"

end
