(* ===== verification/Tcp_Out.thy ===== *)
theory Tcp_Out
  imports Ip4_Out
begin

text \<open>
  The output side of TCP (\<open>Tunnel/lwip/core/tcp_out.c\<close>): queueing data and flags, sending
  what the windows allow, retransmission, and control segments. A segment queue is a list of
  segments whose headers are in the payload memory; a pointer into a queue is the position of
  the segment. The configuration has LWIP_NETIF_TX_SINGLE_PBUF and TCP_OVERSIZE, no checksum
  on copy, and of the TCP options only MSS.
\<close>

section \<open>TCP headers\<close>

definition TCP_FIN :: u8 where "TCP_FIN = 0x01"

definition TCP_SYN :: u8 where "TCP_SYN = 0x02"

definition TCP_RST :: u8 where "TCP_RST = 0x04"

definition TCP_PSH :: u8 where "TCP_PSH = 0x08"

definition TCP_ACK :: u8 where "TCP_ACK = 0x10"

definition TCP_FLAGS :: u16 where "TCP_FLAGS = 0x3f"

definition TCP_HLEN :: nat where "TCP_HLEN = 20"

definition TF_INFR :: u16 where "TF_INFR = 0x04"

definition TF_FIN :: u16 where "TF_FIN = 0x20"

definition TF_RTO :: u16 where "TF_RTO = 0x0800"

definition TF_SEG_OPTS_MSS :: u8 where "TF_SEG_OPTS_MSS = 0x01"

definition TCP_SND_QUEUELEN :: u16 where "TCP_SND_QUEUELEN = 180"

definition TCPH_FLAGS :: "'a tcp_stack \<Rightarrow> nat \<Rightarrow> u8" where
  "TCPH_FLAGS w phdr = ucast (ld_u16 w (phdr + 12) AND TCP_FLAGS)"

definition TCPH_FLAGS_SET :: "nat \<Rightarrow> u8 \<Rightarrow> 'a tcp_stack \<Rightarrow> 'a tcp_stack" where
  "TCPH_FLAGS_SET phdr flags w = st_u16 (phdr + 12) ((ld_u16 w (phdr + 12) AND NOT TCP_FLAGS) OR ucast flags) w"

definition TCPH_HDRLEN_FLAGS_SET :: "nat \<Rightarrow> u16 \<Rightarrow> u8 \<Rightarrow> 'a tcp_stack \<Rightarrow> 'a tcp_stack" where
  "TCPH_HDRLEN_FLAGS_SET phdr len flags w = st_u16 (phdr + 12) (push_bit 12 len OR ucast flags) w"

definition TCPH_SET_FLAG :: "nat \<Rightarrow> u8 \<Rightarrow> 'a tcp_stack \<Rightarrow> 'a tcp_stack" where
  "TCPH_SET_FLAG phdr flags w = st_u16 (phdr + 12) (ld_u16 w (phdr + 12) OR ucast flags) w"

definition seg_seqno :: "'a tcp_stack \<Rightarrow> tcp_seg \<Rightarrow> u32" where
  "seg_seqno w seg = ld_u32 w (sg_tcphdr seg + 4)"

definition TCP_TCPLEN :: "'a tcp_stack \<Rightarrow> tcp_seg \<Rightarrow> u32" where
  "TCP_TCPLEN w seg = ucast (sg_len seg) + (if TCPH_FLAGS w (sg_tcphdr seg) AND (TCP_FIN OR TCP_SYN) \<noteq> 0 then 1 else 0)"

definition LWIP_TCP_OPT_LENGTH :: "u8 \<Rightarrow> nat" where
  "LWIP_TCP_OPT_LENGTH flags = (if flags AND TF_SEG_OPTS_MSS \<noteq> 0 then 4 else 0)"

definition TCP_BUILD_MSS_OPTION :: "u16 \<Rightarrow> u32" where
  "TCP_BUILD_MSS_OPTION mss = 0x02040000 OR ucast mss"

definition tcp_do_output_nagle :: "tcp_pcb \<Rightarrow> bool" where
  "tcp_do_output_nagle b \<longleftrightarrow> t_unacked b = [] \<or> t_flags b AND (TF_NODELAY OR TF_INFR) \<noteq> 0
     \<or> (case t_unsent b of [] \<Rightarrow> False | [seg] \<Rightarrow> sg_len seg \<ge> t_mss b | _ \<Rightarrow> True)
     \<or> t_snd_buf b = 0 \<or> t_snd_queuelen b \<ge> TCP_SND_QUEUELEN"

section \<open>Routes and segments\<close>

text \<open>\<open>tcp_route\<close>; \<open>netif_get_by_index\<close> searches the list for the interface number.\<close>

fun netif_by_num :: "(nat \<rightharpoonup> netif) \<Rightarrow> u8 \<Rightarrow> nat list \<Rightarrow> nat option option" where
  "netif_by_num N idx [] = Some None"
| "netif_by_num N idx (a # as) = Option.bind (N a) (\<lambda>n. if idx = nif_num n + 1 then Some (Some a) else netif_by_num N idx as)"

definition netif_get_by_index :: "'a tcp_stack \<Rightarrow> u8 \<Rightarrow> nat option option" where
  "netif_get_by_index w idx = (if idx \<noteq> 0 then netif_by_num (ts_netifs w) idx (netif_list w) else Some None)"

definition tcp_route :: "'a tcp_stack \<Rightarrow> nat option \<Rightarrow> u32 \<Rightarrow> u32 \<Rightarrow> nat option option" where
  "tcp_route w p src dst =
     (case p of None \<Rightarrow> ip4_route w dst
      | Some pcb \<Rightarrow> do {
          b \<leftarrow> ts_pcbs w pcb;
          if t_netif_idx b \<noteq> 0 then netif_get_by_index w (t_netif_idx b) else ip4_route w dst })"

definition tcp_create_segment ::
    "nat \<Rightarrow> nat \<Rightarrow> u8 \<Rightarrow> u32 \<Rightarrow> u8 \<Rightarrow> 'a tcp_stack \<Rightarrow> (tcp_seg option \<times> 'a tcp_stack) option" where
  "tcp_create_segment pcb p hdrflags seqno optflags w =
     do { b \<leftarrow> ts_pcbs w pcb;
          let optlen = LWIP_TCP_OPT_LENGTH optflags;
          case stack_malloc MEMP_TCP_SEG w of
            (None, w) \<Rightarrow> do {
              (_, w) \<leftarrow> stack_pb (pbuf_free (Some p)) w;
              Some (None, w) }
          | (Some c, w) \<Rightarrow> do {
              q \<leftarrow> stack_buf w p;
              let seg = \<lparr>sg_elem = c, sg_p = Some p, sg_len = p_tot_len q - of_nat optlen, sg_flags = optflags, sg_tcphdr = 0\<rparr>;
              (fail, w) \<leftarrow> stack_pb (pbuf_add_header (Some p) TCP_HLEN) w;
              if fail then do {
                w \<leftarrow> tcp_seg_free seg w;
                Some (None, w) }
              else do {
                q \<leftarrow> stack_buf w p;
                let h = p_payload q;
                let w = st_u16 h (t_local_port b) w;
                let w = st_u16 (h + 2) (t_remote_port b) w;
                let w = st_u32 (h + 4) seqno w;
                let w = TCPH_HDRLEN_FLAGS_SET h (of_nat (5 + optlen div 4)) hdrflags w;
                let w = st_u16 (h + 18) 0 w;
                Some (Some (seg\<lparr>sg_tcphdr := h\<rparr>), w) } } }"

text \<open>The result is the pbuf and the number of unused bytes at its end.\<close>

definition tcp_pbuf_prealloc ::
    "pbuf_layer \<Rightarrow> u16 \<Rightarrow> u16 \<Rightarrow> 'a tcp_stack \<Rightarrow> ((nat \<times> u16) option \<times> 'a tcp_stack) option" where
  "tcp_pbuf_prealloc layer len max_length w =
     do { (r, w) \<leftarrow> stack_pb (pbuf_alloc layer max_length PBUF_RAM) w;
          case r of None \<Rightarrow> Some (None, w)
          | Some p \<Rightarrow> do {
              q \<leftarrow> stack_buf w p;
              w \<leftarrow> stack_buf_upd p (\<lambda>q. q\<lparr>p_len := len, p_tot_len := len\<rparr>) w;
              Some (Some (p, p_len q - len), w) } }"

section \<open>Queueing data\<close>

definition tcp_write_checks :: "nat \<Rightarrow> u16 \<Rightarrow> 'a tcp_stack \<Rightarrow> (err_t \<times> 'a tcp_stack) option" where
  "tcp_write_checks pcb len w =
     do { b \<leftarrow> ts_pcbs w pcb;
          if t_state b \<notin> {ESTABLISHED, CLOSE_WAIT, SYN_SENT, SYN_RCVD} then Some (ERR_CONN, w)
          else if len = 0 then Some (ERR_OK, w)
          else if len > t_snd_buf b \<or> t_snd_queuelen b \<ge> TCP_SND_QUEUELEN then do {
            w \<leftarrow> tcp_set_flags pcb TF_NAGLEMEMERR w;
            Some (ERR_MEM, w) }
          else Some (ERR_OK, w) }"

text \<open>
  Phase 3 of \<open>tcp_write\<close>: the loop that makes new segments. Its variables are the position in
  the data, the queue length, the unused bytes of the last segment and the segments made so
  far. The result says whether memory ran out.
\<close>

partial_function (option) write_loop ::
    "nat \<Rightarrow> u8 list \<Rightarrow> u16 \<Rightarrow> u16 \<Rightarrow> u16 \<Rightarrow> u16 \<Rightarrow> tcp_seg list \<Rightarrow> 'a tcp_stack
      \<Rightarrow> (bool \<times> u16 \<times> u16 \<times> tcp_seg list \<times> 'a tcp_stack) option" where
  "write_loop pcb data mss_local pos queuelen oversize queue w =
     (let len = of_nat (length data) :: u16
      in if pos < len then
           let seglen = min (len - pos) mss_local
           in Option.bind (tcp_pbuf_prealloc PBUF_TRANSPORT seglen mss_local w) (\<lambda>(r, w).
              case r of None \<Rightarrow> Some (True, queuelen, oversize, queue, w)
              | Some (p, oversize) \<Rightarrow>
                  Option.bind (stack_buf w p) (\<lambda>q.
                  let w = st_bytes (p_payload q) (take (unat seglen) (drop (unat pos) data)) w
                  in Option.bind (pbuf_clen (Some p) (ts_pb w)) (\<lambda>n.
                  let queuelen = queuelen + n
                  in if queuelen > TCP_SND_QUEUELEN
                     then Option.bind (stack_pb (pbuf_free (Some p)) w) (\<lambda>(_, w). Some (True, queuelen, oversize, queue, w))
                     else Option.bind (ts_pcbs w pcb) (\<lambda>b.
                          Option.bind (tcp_create_segment pcb p 0 (t_snd_lbb b + ucast pos) 0 w) (\<lambda>(seg, w).
                          case seg of None \<Rightarrow> Some (True, queuelen, oversize, queue, w)
                          | Some seg \<Rightarrow> write_loop pcb data mss_local (pos + seglen) queuelen oversize (queue @ [seg]) w)))))
         else Some (False, queuelen, oversize, queue, w))"

text \<open>Phase 1: data appended to the oversized tail of the last unsent segment.\<close>

partial_function (option) extend_tail :: "nat option \<Rightarrow> u16 \<Rightarrow> u8 list \<Rightarrow> 'a tcp_stack \<Rightarrow> 'a tcp_stack option" where
  "extend_tail p n bs w =
     (case p of None \<Rightarrow> Some w
      | Some a \<Rightarrow>
          Option.bind (stack_buf w a) (\<lambda>q.
          Option.bind (stack_buf_upd a (\<lambda>q. q\<lparr>p_tot_len := p_tot_len q + n\<rparr>) w) (\<lambda>w.
            if p_next q = None
            then stack_buf_upd a (\<lambda>q. q\<lparr>p_len := p_len q + n\<rparr>) (st_bytes (p_payload q + unat (p_len q)) bs w)
            else extend_tail (p_next q) n bs w)))"

definition TCP_WRITE_FLAG_MORE :: u8 where "TCP_WRITE_FLAG_MORE = 0x02"

definition write_mss :: "tcp_pcb \<Rightarrow> u16" where
  "write_mss b = (let m = min (t_mss b) (t_snd_wnd_max b div 2) in if m \<noteq> 0 then m else t_mss b)"

text \<open>How many bytes phase 1 can append, and what stays unused.\<close>

definition write_oversize :: "tcp_pcb \<Rightarrow> u16 \<Rightarrow> u16 \<times> u16" where
  "write_oversize b len =
     (if t_unsent b = [] then (0, 0)
      else let l = last (t_unsent b);
               space = write_mss b - (sg_len l + of_nat (LWIP_TCP_OPT_LENGTH (sg_flags l)));
               oversize = t_unsent_oversize b
           in if oversize > 0 then let used = min space (min oversize len) in (used, oversize - used)
              else (0, oversize))"

definition tcp_write :: "nat option \<Rightarrow> u8 list option \<Rightarrow> u8 \<Rightarrow> 'a tcp_stack \<Rightarrow> (err_t \<times> 'a tcp_stack) option" where
  "tcp_write p arg apiflags w =
     (case (p, arg) of
        (Some pcb, Some data) \<Rightarrow> do {
          let len = (of_nat (length data) :: u16);
          (err, w) \<leftarrow> tcp_write_checks pcb len w;
          if err \<noteq> ERR_OK then Some (err, w)
          else do {
            b \<leftarrow> ts_pcbs w pcb;
            let (used, oversize) = write_oversize b len;
            (memerr, queuelen, oversize, queue, w) \<leftarrow>
              write_loop pcb data (write_mss b) used (t_snd_queuelen b) oversize [] w;
            if memerr then do {
              w \<leftarrow> tcp_set_flags pcb TF_NAGLEMEMERR w;
              w \<leftarrow> tcp_segs_free queue w;
              Some (ERR_MEM, w) }
            else do {
              let l = last (t_unsent b);
              w \<leftarrow> (if used > 0 then extend_tail (sg_p l) used (take (unat used) data) w else Some w);
              let unsent = (if used > 0 then butlast (t_unsent b) @ [l\<lparr>sg_len := sg_len l + used\<rparr>] else t_unsent b) @ queue;
              w \<leftarrow> pcb_upd pcb (\<lambda>b. b\<lparr>t_unsent_oversize := oversize, t_unsent := unsent,
                     t_snd_lbb := t_snd_lbb b + ucast len, t_snd_buf := t_snd_buf b - len, t_snd_queuelen := queuelen\<rparr>) w;
              Some (ERR_OK,
                if (t_unsent b \<noteq> [] \<and> t_unsent_oversize b > 0 \<or> queue \<noteq> []) \<and> sg_tcphdr (last unsent) \<noteq> 0
                  \<and> apiflags AND TCP_WRITE_FLAG_MORE = 0
                then TCPH_SET_FLAG (sg_tcphdr (last unsent)) TCP_PSH w else w) } } }
      | _ \<Rightarrow> Some (ERR_ARG, w))"

section \<open>Splitting, flags\<close>

text \<open>Splitting the head of the unsent queue; the remainder gets a segment of its own.\<close>

definition split_head :: "nat \<Rightarrow> tcp_seg \<Rightarrow> nat \<Rightarrow> tcp_seg \<Rightarrow> u8 \<Rightarrow> u16 \<Rightarrow> 'a tcp_stack \<Rightarrow> (err_t \<times> 'a tcp_stack) option" where
  "split_head pcb useg up seg split_flags remainder w =
     do { n0 \<leftarrow> pbuf_clen (Some up) (ts_pb w);
          q \<leftarrow> stack_buf w up;
          w \<leftarrow> map_option (\<lambda>pb. w\<lparr>ts_pb := pb\<rparr>) (pbuf_realloc up (p_tot_len q - remainder) (ts_pb w));
          let w = TCPH_SET_FLAG (sg_tcphdr useg) split_flags w;
          n1 \<leftarrow> pbuf_clen (Some up) (ts_pb w);
          n2 \<leftarrow> pbuf_clen (sg_p seg) (ts_pb w);
          w \<leftarrow> pcb_upd pcb (\<lambda>b. b\<lparr>t_snd_queuelen := t_snd_queuelen b - n0 + n1 + n2,
                 t_unsent := useg\<lparr>sg_len := sg_len useg - remainder\<rparr> # seg # tl (t_unsent b),
                 t_unsent_oversize := (if tl (t_unsent b) = [] then 0 else t_unsent_oversize b)\<rparr>) w;
          Some (ERR_OK, w) }"

definition tcp_split_unsent_seg :: "nat \<Rightarrow> u16 \<Rightarrow> 'a tcp_stack \<Rightarrow> (err_t \<times> 'a tcp_stack) option" where
  "tcp_split_unsent_seg pcb split w =
     do { b \<leftarrow> ts_pcbs w pcb;
          case t_unsent b of [] \<Rightarrow> Some (ERR_MEM, w)
          | useg # _ \<Rightarrow>
              if split = 0 then Some (ERR_VAL, w)
              else if sg_len useg \<le> split then Some (ERR_OK, w)
              else do {
                let optlen = LWIP_TCP_OPT_LENGTH (sg_flags useg);
                let remainder = sg_len useg - split;
                (r, w) \<leftarrow> stack_pb (pbuf_alloc PBUF_TRANSPORT (remainder + of_nat optlen) PBUF_RAM) w;
                case r of None \<Rightarrow> Some (ERR_MEM, w)
                | Some p \<Rightarrow> do {
                    up \<leftarrow> sg_p useg;
                    uq \<leftarrow> stack_buf w up;
                    q \<leftarrow> stack_buf w p;
                    (copied, bs) \<leftarrow> pbuf_copy_partial (ts_pb w) (Some up) remainder (p_tot_len uq - sg_len useg + split);
                    let w = st_bytes (p_payload q + optlen) bs w;
                    if copied \<noteq> remainder then do {
                      (_, w) \<leftarrow> stack_pb (pbuf_free (Some p)) w;
                      Some (ERR_MEM, w) }
                    else do {
                      let flags = TCPH_FLAGS w (sg_tcphdr useg);
                      let split_flags = flags AND NOT (TCP_PSH OR TCP_FIN);
                      let remainder_flags = flags AND (TCP_PSH OR TCP_FIN);
                      (seg, w) \<leftarrow> tcp_create_segment pcb p remainder_flags (seg_seqno w useg + ucast split) (sg_flags useg) w;
                      case seg of None \<Rightarrow> Some (ERR_MEM, w)
                      | Some seg \<Rightarrow> split_head pcb useg up seg split_flags remainder w } } } }"

definition tcp_enqueue_flags :: "nat \<Rightarrow> u8 \<Rightarrow> 'a tcp_stack \<Rightarrow> (err_t \<times> 'a tcp_stack) option" where
  "tcp_enqueue_flags pcb flags w =
     do { b \<leftarrow> ts_pcbs w pcb;
          let optflags = (if flags AND TCP_SYN \<noteq> 0 then TF_SEG_OPTS_MSS else 0);
          (r, w) \<leftarrow> stack_pb (pbuf_alloc PBUF_TRANSPORT (of_nat (LWIP_TCP_OPT_LENGTH optflags)) PBUF_RAM) w;
          case r of None \<Rightarrow> do {
              w \<leftarrow> tcp_set_flags pcb TF_NAGLEMEMERR w;
              Some (ERR_MEM, w) }
          | Some p \<Rightarrow> do {
              (seg, w) \<leftarrow> tcp_create_segment pcb p flags (t_snd_lbb b) optflags w;
              case seg of None \<Rightarrow> do {
                  w \<leftarrow> tcp_set_flags pcb TF_NAGLEMEMERR w;
                  Some (ERR_MEM, w) }
              | Some seg \<Rightarrow> do {
                  n \<leftarrow> pbuf_clen (sg_p seg) (ts_pb w);
                  w \<leftarrow> pcb_upd pcb (\<lambda>b. b\<lparr>t_unsent := t_unsent b @ [seg], t_unsent_oversize := 0,
                         t_snd_lbb := (if flags AND (TCP_SYN OR TCP_FIN) \<noteq> 0 then t_snd_lbb b + 1 else t_snd_lbb b),
                         t_flags := (if flags AND TCP_FIN \<noteq> 0 then t_flags b OR TF_FIN else t_flags b),
                         t_snd_queuelen := t_snd_queuelen b + n\<rparr>) w;
                  Some (ERR_OK, w) } } }"

definition tcp_send_fin :: "nat \<Rightarrow> 'a tcp_stack \<Rightarrow> (err_t \<times> 'a tcp_stack) option" where
  "tcp_send_fin pcb w =
     do { b \<leftarrow> ts_pcbs w pcb;
          if t_unsent b \<noteq> [] \<and> TCPH_FLAGS w (sg_tcphdr (last (t_unsent b))) AND (TCP_SYN OR TCP_FIN OR TCP_RST) = 0
          then do {
            w \<leftarrow> tcp_set_flags pcb TF_FIN (TCPH_SET_FLAG (sg_tcphdr (last (t_unsent b))) TCP_FIN w);
            Some (ERR_OK, w) }
          else tcp_enqueue_flags pcb TCP_FIN w }"

section \<open>Control segments\<close>

definition tcp_output_alloc_header_common ::
    "u32 \<Rightarrow> nat \<Rightarrow> nat \<Rightarrow> u32 \<Rightarrow> u16 \<Rightarrow> u16 \<Rightarrow> u8 \<Rightarrow> u16 \<Rightarrow> 'a tcp_stack \<Rightarrow> (nat option \<times> 'a tcp_stack) option" where
  "tcp_output_alloc_header_common ackno optlen datalen seqno src_port dst_port flags wnd w =
     do { (r, w) \<leftarrow> stack_pb (pbuf_alloc PBUF_IP (of_nat (TCP_HLEN + optlen + datalen)) PBUF_RAM) w;
          case r of None \<Rightarrow> Some (None, w)
          | Some p \<Rightarrow> do {
              q \<leftarrow> stack_buf w p;
              let h = p_payload q;
              let w = st_u16 h src_port w;
              let w = st_u16 (h + 2) dst_port w;
              let w = st_u32 (h + 4) seqno w;
              let w = st_u32 (h + 8) ackno w;
              let w = TCPH_HDRLEN_FLAGS_SET h (of_nat (5 + optlen div 4)) flags w;
              let w = st_u16 (h + 14) wnd w;
              let w = st_u16 (h + 16) 0 w;
              let w = st_u16 (h + 18) 0 w;
              Some (Some p, w) } }"

definition tcp_output_alloc_header ::
    "nat \<Rightarrow> nat \<Rightarrow> nat \<Rightarrow> u32 \<Rightarrow> 'a tcp_stack \<Rightarrow> (nat option \<times> 'a tcp_stack) option" where
  "tcp_output_alloc_header pcb optlen datalen seqno w =
     do { b \<leftarrow> ts_pcbs w pcb;
          (p, w) \<leftarrow> tcp_output_alloc_header_common (t_rcv_nxt b) optlen datalen seqno
                      (t_local_port b) (t_remote_port b) TCP_ACK (t_rcv_ann_wnd b) w;
          if p \<noteq> None then do {
            w \<leftarrow> pcb_upd pcb (\<lambda>b. b\<lparr>t_rcv_ann_right_edge := t_rcv_nxt b + ucast (t_rcv_ann_wnd b)\<rparr>) w;
            Some (p, w) }
          else Some (p, w) }"

definition tcp_output_control_segment_netif ::
    "'a tcp_env \<Rightarrow> nat option \<Rightarrow> nat \<Rightarrow> u32 \<Rightarrow> u32 \<Rightarrow> nat \<Rightarrow> 'a tcp_stack \<Rightarrow> (err_t \<times> 'a tcp_stack) option" where
  "tcp_output_control_segment_netif env pcb p src dst nif w =
     do { (ttl, tos) \<leftarrow> (case pcb of None \<Rightarrow> Some (TCP_TTL, 0) | Some a \<Rightarrow> map_option (\<lambda>b. (t_ttl b, t_tos b)) (ts_pcbs w a));
          (err, w) \<leftarrow> ip4_output_if env p src (Some dst) ttl tos IP_PROTO_TCP nif w;
          (_, w) \<leftarrow> stack_pb (pbuf_free (Some p)) w;
          Some (err, w) }"

definition tcp_output_control_segment ::
    "'a tcp_env \<Rightarrow> nat option \<Rightarrow> nat \<Rightarrow> u32 \<Rightarrow> u32 \<Rightarrow> 'a tcp_stack \<Rightarrow> (err_t \<times> 'a tcp_stack) option" where
  "tcp_output_control_segment env pcb p src dst w =
     do { nif \<leftarrow> tcp_route w pcb src dst;
          case nif of None \<Rightarrow> do {
              (_, w) \<leftarrow> stack_pb (pbuf_free (Some p)) w;
              Some (ERR_RTE, w) }
          | Some nif \<Rightarrow> tcp_output_control_segment_netif env pcb p src dst nif w }"

text \<open>The window field of a reset is \<open>PP_HTONS(TCP_WND)\<close>, swapped once more when it is stored.\<close>

definition swap16 :: "u16 \<Rightarrow> u16" where
  "swap16 x = push_bit 8 x OR drop_bit 8 x"

definition tcp_rst_common ::
    "u32 \<Rightarrow> u32 \<Rightarrow> u16 \<Rightarrow> u16 \<Rightarrow> 'a tcp_stack \<Rightarrow> (nat option \<times> 'a tcp_stack) option" where
  "tcp_rst_common seqno ackno local_port remote_port w =
     tcp_output_alloc_header_common ackno (LWIP_TCP_OPT_LENGTH 0) 0 seqno local_port remote_port
       (TCP_RST OR TCP_ACK) (swap16 TCP_WND) w"

definition tcp_rst ::
    "'a tcp_env \<Rightarrow> nat option \<Rightarrow> u32 \<Rightarrow> u32 \<Rightarrow> u32 \<Rightarrow> u32 \<Rightarrow> u16 \<Rightarrow> u16 \<Rightarrow> 'a tcp_stack \<Rightarrow> 'a tcp_stack option" where
  "tcp_rst env pcb seqno ackno local_ip remote_ip local_port remote_port w =
     do { (p, w) \<leftarrow> tcp_rst_common seqno ackno local_port remote_port w;
          case p of None \<Rightarrow> Some w
          | Some p \<Rightarrow> map_option snd (tcp_output_control_segment env pcb p local_ip remote_ip w) }"

definition tcp_rst_netif ::
    "'a tcp_env \<Rightarrow> nat option \<Rightarrow> u32 \<Rightarrow> u32 \<Rightarrow> u32 \<Rightarrow> u32 \<Rightarrow> u16 \<Rightarrow> u16 \<Rightarrow> 'a tcp_stack \<Rightarrow> 'a tcp_stack option" where
  "tcp_rst_netif env nif seqno ackno local_ip remote_ip local_port remote_port w =
     (case nif of None \<Rightarrow> Some w
      | Some nif \<Rightarrow> do {
          (p, w) \<leftarrow> tcp_rst_common seqno ackno local_port remote_port w;
          case p of None \<Rightarrow> Some w
          | Some p \<Rightarrow> map_option snd (tcp_output_control_segment_netif env None p local_ip remote_ip nif w) })"

definition tcp_send_empty_ack :: "'a tcp_env \<Rightarrow> nat \<Rightarrow> 'a tcp_stack \<Rightarrow> (err_t \<times> 'a tcp_stack) option" where
  "tcp_send_empty_ack env pcb w =
     do { b \<leftarrow> ts_pcbs w pcb;
          (p, w) \<leftarrow> tcp_output_alloc_header pcb (LWIP_TCP_OPT_LENGTH 0) 0 (t_snd_nxt b) w;
          case p of None \<Rightarrow> do {
              w \<leftarrow> tcp_set_flags pcb (TF_ACK_DELAY OR TF_ACK_NOW) w;
              Some (ERR_BUF, w) }
          | Some p \<Rightarrow> do {
              (err, w) \<leftarrow> tcp_output_control_segment env (Some pcb) p (t_local_ip b) (t_remote_ip b) w;
              w \<leftarrow> (if err \<noteq> ERR_OK then tcp_set_flags pcb (TF_ACK_DELAY OR TF_ACK_NOW) w
                     else tcp_clear_flags pcb (TF_ACK_DELAY OR TF_ACK_NOW) w);
              Some (err, w) } }"

definition tcp_keepalive :: "'a tcp_env \<Rightarrow> nat \<Rightarrow> 'a tcp_stack \<Rightarrow> (err_t \<times> 'a tcp_stack) option" where
  "tcp_keepalive env pcb w =
     do { b \<leftarrow> ts_pcbs w pcb;
          (p, w) \<leftarrow> tcp_output_alloc_header pcb (LWIP_TCP_OPT_LENGTH 0) 0 (t_snd_nxt b - 1) w;
          case p of None \<Rightarrow> Some (ERR_MEM, w)
          | Some p \<Rightarrow> tcp_output_control_segment env (Some pcb) p (t_local_ip b) (t_remote_ip b) w }"

definition tcp_zero_window_probe :: "'a tcp_env \<Rightarrow> nat \<Rightarrow> 'a tcp_stack \<Rightarrow> (err_t \<times> 'a tcp_stack) option" where
  "tcp_zero_window_probe env pcb w =
     do { b \<leftarrow> ts_pcbs w pcb;
          case t_unsent b of [] \<Rightarrow> Some (ERR_OK, w)
          | seg # _ \<Rightarrow> do {
              w \<leftarrow> (if t_persist_probe b < 0xFF then pcb_upd pcb (\<lambda>b. b\<lparr>t_persist_probe := t_persist_probe b + 1\<rparr>) w else Some w);
              let is_fin = (TCPH_FLAGS w (sg_tcphdr seg) AND TCP_FIN \<noteq> 0 \<and> sg_len seg = 0);
              (p, w) \<leftarrow> tcp_output_alloc_header pcb (LWIP_TCP_OPT_LENGTH 0) (if is_fin then 0 else 1) (seg_seqno w seg) w;
              case p of None \<Rightarrow> Some (ERR_MEM, w)
              | Some p \<Rightarrow> do {
                  q \<leftarrow> stack_buf w p;
                  w \<leftarrow> (if is_fin then Some (TCPH_FLAGS_SET (p_payload q) (TCP_ACK OR TCP_FIN) w)
                         else do {
                           sp \<leftarrow> sg_p seg;
                           sq \<leftarrow> stack_buf w sp;
                           (_, bs) \<leftarrow> pbuf_copy_partial (ts_pb w) (Some sp) 1 (p_tot_len sq - sg_len seg);
                           Some (st_bytes (p_payload q + TCP_HLEN) bs w) });
                  let snd_nxt = seg_seqno w seg + 1;
                  w \<leftarrow> pcb_upd pcb (\<lambda>b. b\<lparr>t_snd_nxt := (if TCP_SEQ_LT (t_snd_nxt b) snd_nxt then snd_nxt else t_snd_nxt b)\<rparr>) w;
                  tcp_output_control_segment env (Some pcb) p (t_local_ip b) (t_remote_ip b) w } } }"

section \<open>Sending what the windows allow\<close>

definition tcp_output_segment_busy :: "'a tcp_stack \<Rightarrow> tcp_seg \<Rightarrow> bool option" where
  "tcp_output_segment_busy w seg = do { p \<leftarrow> sg_p seg; q \<leftarrow> stack_buf w p; Some (p_ref q \<noteq> 1) }"

definition tcp_output_segment :: "'a tcp_env \<Rightarrow> tcp_seg \<Rightarrow> nat \<Rightarrow> nat \<Rightarrow> 'a tcp_stack \<Rightarrow> (err_t \<times> 'a tcp_stack) option" where
  "tcp_output_segment env seg pcb nif w =
     do { busy \<leftarrow> tcp_output_segment_busy w seg;
          if busy then Some (ERR_OK, w)
          else do {
            b \<leftarrow> ts_pcbs w pcb;
            n \<leftarrow> ts_netifs w nif;
            let h = sg_tcphdr seg;
            let w = st_u32 (h + 8) (t_rcv_nxt b) w;
            let w = st_u16 (h + 14) (t_rcv_ann_wnd b) w;
            let w = (if sg_flags seg AND TF_SEG_OPTS_MSS \<noteq> 0
                     then st_u32 (h + TCP_HLEN) (TCP_BUILD_MSS_OPTION (tcp_eff_send_mss_netif TCP_MSS (Some (nif_mtu n)))) w
                     else w);
            let seqno = seg_seqno w seg;
            w \<leftarrow> pcb_upd pcb (\<lambda>b. b\<lparr>t_rcv_ann_right_edge := t_rcv_nxt b + ucast (t_rcv_ann_wnd b),
                   t_rtime := (if t_rtime b < 0 then 0 else t_rtime b),
                   t_rttest := (if t_rttest b = 0 then tcp_ticks w else t_rttest b),
                   t_rtseq := (if t_rttest b = 0 then seqno else t_rtseq b)\<rparr>) w;
            p \<leftarrow> sg_p seg;
            w \<leftarrow> stack_buf_upd p (\<lambda>q. let len = of_nat (h - p_payload q) in
                   q\<lparr>p_payload := h, p_tot_len := p_tot_len q - len, p_len := p_len q - len\<rparr>) w;
            let w = st_u16 (h + 16) 0 w;
            ip4_output_if env p (t_local_ip b) (Some (t_remote_ip b)) (t_ttl b) (t_tos b) IP_PROTO_TCP nif w } }"

text \<open>Putting a sent segment on the unacked queue, before the first segment that is not older.\<close>

fun insert_unacked :: "'a tcp_stack \<Rightarrow> tcp_seg \<Rightarrow> tcp_seg list \<Rightarrow> tcp_seg list" where
  "insert_unacked w seg [] = [seg]"
| "insert_unacked w seg (g # gs) =
     (if TCP_SEQ_LT (seg_seqno w g) (seg_seqno w seg) then g # insert_unacked w seg gs else seg # g # gs)"

definition queue_unacked :: "'a tcp_stack \<Rightarrow> tcp_seg \<Rightarrow> tcp_seg list \<Rightarrow> tcp_seg list" where
  "queue_unacked w seg unacked =
     (if unacked = [] then [seg]
      else if TCP_SEQ_LT (seg_seqno w seg) (seg_seqno w (last unacked)) then insert_unacked w seg unacked
      else unacked @ [seg])"

text \<open>The bookkeeping after a segment has been sent.\<close>

definition sent_segment :: "nat \<Rightarrow> tcp_seg \<Rightarrow> tcp_seg list \<Rightarrow> 'a tcp_stack \<Rightarrow> 'a tcp_stack option" where
  "sent_segment pcb seg rest w =
     do { let snd_nxt = seg_seqno w seg + TCP_TCPLEN w seg;
          let keep = (TCP_TCPLEN w seg > 0);
          w \<leftarrow> pcb_upd pcb (\<lambda>b. b\<lparr>t_unsent := rest,
                 t_flags := (if t_state b \<noteq> SYN_SENT then t_flags b AND NOT (TF_ACK_DELAY OR TF_ACK_NOW) else t_flags b),
                 t_snd_nxt := (if TCP_SEQ_LT (t_snd_nxt b) snd_nxt then snd_nxt else t_snd_nxt b),
                 t_unacked := (if keep then queue_unacked w seg (t_unacked b) else t_unacked b)\<rparr>) w;
          if keep then Some w else tcp_seg_free seg w }"

text \<open>Does the segment end inside the window?\<close>

definition seg_fits :: "'a tcp_stack \<Rightarrow> u32 \<Rightarrow> u32 \<Rightarrow> tcp_seg \<Rightarrow> bool" where
  "seg_fits w lastack wnd seg \<longleftrightarrow> seg_seqno w seg - lastack + ucast (sg_len seg) \<le> wnd"

text \<open>The loop; the first result is an error that ends \<open>tcp_output\<close>.\<close>

fun output_loop ::
    "'a tcp_env \<Rightarrow> nat \<Rightarrow> nat \<Rightarrow> u32 \<Rightarrow> tcp_seg list \<Rightarrow> 'a tcp_stack \<Rightarrow> (err_t option \<times> 'a tcp_stack) option" where
  "output_loop env pcb nif wnd [] w = Some (None, w)"
| "output_loop env pcb nif wnd (seg # rest) w =
     Option.bind (ts_pcbs w pcb) (\<lambda>b.
       if \<not> seg_fits w (t_lastack b) wnd seg
          \<or> \<not> tcp_do_output_nagle b \<and> t_flags b AND (TF_NAGLEMEMERR OR TF_FIN) = 0
       then Some (None, w)
       else Option.bind (tcp_output_segment env seg pcb nif
              (if t_state b \<noteq> SYN_SENT then TCPH_SET_FLAG (sg_tcphdr seg) TCP_ACK w else w)) (\<lambda>(err, w).
            if err \<noteq> ERR_OK
            then map_option (\<lambda>w. (Some err, w)) (tcp_set_flags pcb TF_NAGLEMEMERR w)
            else Option.bind (sent_segment pcb seg rest w) (output_loop env pcb nif wnd rest)))"

definition output_done :: "nat \<Rightarrow> 'a tcp_stack \<Rightarrow> (err_t \<times> 'a tcp_stack) option" where
  "output_done pcb w = map_option (\<lambda>w. (ERR_OK, w)) (tcp_clear_flags pcb TF_NAGLEMEMERR w)"

text \<open>
  \<open>tcp_output\<close> from the point where a route is known: the persist timer and the loop.
\<close>

definition output_on :: "'a tcp_env \<Rightarrow> nat \<Rightarrow> nat \<Rightarrow> tcp_seg \<Rightarrow> u32 \<Rightarrow> 'a tcp_stack \<Rightarrow> (err_t \<times> 'a tcp_stack) option" where
  "output_on env pcb nif seg wnd w =
     do { b \<leftarrow> ts_pcbs w pcb;
          if \<not> seg_fits w (t_lastack b) wnd seg then do {
            w \<leftarrow> (if wnd = ucast (t_snd_wnd b) \<and> t_unacked b = [] \<and> t_persist_backoff b = 0
                   then pcb_upd pcb (\<lambda>b. b\<lparr>t_persist_cnt := 0, t_persist_backoff := 1, t_persist_probe := 0\<rparr>) w
                   else Some w);
            if t_flags b AND TF_ACK_NOW \<noteq> 0 then tcp_send_empty_ack env pcb w else output_done pcb w }
          else do {
            w \<leftarrow> pcb_upd pcb (\<lambda>b. b\<lparr>t_persist_backoff := 0\<rparr>) w;
            (r, w) \<leftarrow> output_loop env pcb nif wnd (t_unsent b) w;
            case r of Some err \<Rightarrow> Some (err, w)
            | None \<Rightarrow> do {
                w \<leftarrow> pcb_upd pcb (\<lambda>b. if t_unsent b = [] then b\<lparr>t_unsent_oversize := 0\<rparr> else b) w;
                output_done pcb w } } }"

definition tcp_output :: "'a tcp_env \<Rightarrow> nat \<Rightarrow> 'a tcp_stack \<Rightarrow> (err_t \<times> 'a tcp_stack) option" where
  "tcp_output env pcb w =
     (if tcp_input_pcb w = Some pcb then Some (ERR_OK, w)
      else do {
        b \<leftarrow> ts_pcbs w pcb;
        let wnd = (ucast (min (t_snd_wnd b) (t_cwnd b)) :: u32);
        case t_unsent b of
          [] \<Rightarrow> if t_flags b AND TF_ACK_NOW \<noteq> 0 then tcp_send_empty_ack env pcb w else output_done pcb w
        | seg # _ \<Rightarrow> do {
            r \<leftarrow> tcp_route w (Some pcb) (t_local_ip b) (t_remote_ip b);
            case r of None \<Rightarrow> Some (ERR_RTE, w)
            | Some nif \<Rightarrow> do {
                n \<leftarrow> ts_netifs w nif;
                w \<leftarrow> pcb_upd pcb (\<lambda>b. b\<lparr>t_local_ip := (if t_local_ip b = 0 then nif_ip_addr n else t_local_ip b)\<rparr>) w;
                output_on env pcb nif seg wnd w } } })"

section \<open>Retransmission\<close>

fun any_busy :: "'a tcp_stack \<Rightarrow> tcp_seg list \<Rightarrow> bool option" where
  "any_busy w [] = Some False"
| "any_busy w (seg # segs) = Option.bind (tcp_output_segment_busy w seg) (\<lambda>busy. if busy then Some True else any_busy w segs)"

definition tcp_rexmit_rto_prepare :: "nat \<Rightarrow> 'a tcp_stack \<Rightarrow> (err_t \<times> 'a tcp_stack) option" where
  "tcp_rexmit_rto_prepare pcb w =
     do { b \<leftarrow> ts_pcbs w pcb;
          if t_unacked b = [] then Some (ERR_VAL, w)
          else do {
            busy \<leftarrow> any_busy w (t_unacked b);
            if busy then Some (ERR_VAL, w)
            else do {
              let seg = last (t_unacked b);
              w \<leftarrow> pcb_upd pcb (\<lambda>b. b\<lparr>t_unsent := t_unacked b @ t_unsent b, t_unacked := [],
                     t_flags := t_flags b OR TF_RTO, t_rto_end := seg_seqno w seg + TCP_TCPLEN w seg, t_rttest := 0\<rparr>) w;
              Some (ERR_OK, w) } } }"

definition tcp_rexmit_rto_commit :: "'a tcp_env \<Rightarrow> nat \<Rightarrow> 'a tcp_stack \<Rightarrow> 'a tcp_stack option" where
  "tcp_rexmit_rto_commit env pcb w =
     do { w \<leftarrow> pcb_upd pcb (\<lambda>b. b\<lparr>t_nrtx := (if t_nrtx b < 0xFF then t_nrtx b + 1 else t_nrtx b)\<rparr>) w;
          map_option snd (tcp_output env pcb w) }"

definition tcp_rexmit_rto :: "'a tcp_env \<Rightarrow> nat \<Rightarrow> 'a tcp_stack \<Rightarrow> 'a tcp_stack option" where
  "tcp_rexmit_rto env pcb w =
     do { (err, w) \<leftarrow> tcp_rexmit_rto_prepare pcb w;
          if err = ERR_OK then tcp_rexmit_rto_commit env pcb w else Some w }"

definition tcp_rexmit :: "nat \<Rightarrow> 'a tcp_stack \<Rightarrow> (err_t \<times> 'a tcp_stack) option" where
  "tcp_rexmit pcb w =
     do { b \<leftarrow> ts_pcbs w pcb;
          case t_unacked b of [] \<Rightarrow> Some (ERR_VAL, w)
          | seg # rest \<Rightarrow> do {
              busy \<leftarrow> tcp_output_segment_busy w seg;
              if busy then Some (ERR_VAL, w)
              else do {
                let unsent = insert_unacked w seg (t_unsent b);
                w \<leftarrow> pcb_upd pcb (\<lambda>b. b\<lparr>t_unacked := rest, t_unsent := unsent,
                       t_unsent_oversize := (if last unsent = seg then 0 else t_unsent_oversize b),
                       t_nrtx := (if t_nrtx b < 0xFF then t_nrtx b + 1 else t_nrtx b), t_rttest := 0\<rparr>) w;
                Some (ERR_OK, w) } } }"

definition tcp_rexmit_fast :: "nat \<Rightarrow> 'a tcp_stack \<Rightarrow> 'a tcp_stack option" where
  "tcp_rexmit_fast pcb w =
     do { b \<leftarrow> ts_pcbs w pcb;
          if t_unacked b \<noteq> [] \<and> t_flags b AND TF_INFR = 0 then do {
            (err, w) \<leftarrow> tcp_rexmit pcb w;
            if err = ERR_OK then
              pcb_upd pcb (\<lambda>b. let half = min (t_cwnd b) (t_snd_wnd b) div 2;
                                   ssthresh = (if unat half < 2 * unat (t_mss b) then 2 * t_mss b else half)
                               in b\<lparr>t_ssthresh := ssthresh, t_cwnd := ssthresh + 3 * t_mss b,
                                    t_flags := t_flags b OR TF_INFR, t_rtime := 0\<rparr>) w
            else Some w }
          else Some w }"

end
