(* ===== verification/Tcp.thy ===== *)
theory Tcp
  imports Tcp_Out
begin

text \<open>
  The control blocks of TCP (\<open>Tunnel/lwip/core/tcp.c\<close>): allocation, binding and listening, the
  receive window, closing and aborting.
\<close>

section \<open>Purging and removing\<close>

text \<open>Purging frees everything queued; removing also takes the PCB off its list.\<close>

definition tcp_pcb_purge :: "nat \<Rightarrow> 'a tcp_stack \<Rightarrow> 'a tcp_stack option" where
  "tcp_pcb_purge pcb w =
     do { b \<leftarrow> ts_pcbs w pcb;
          if t_state b \<noteq> CLOSED \<and> t_state b \<noteq> TIME_WAIT \<and> t_state b \<noteq> LISTEN then do {
            w \<leftarrow> (if t_refused_data b \<noteq> None then do {
                     w \<leftarrow> map_option snd (stack_pb (pbuf_free (t_refused_data b)) w);
                     pcb_upd pcb (\<lambda>b. b\<lparr>t_refused_data := None\<rparr>) w }
                   else Some w);
            w \<leftarrow> tcp_free_ooseq pcb w;
            w \<leftarrow> pcb_upd pcb (\<lambda>b. b\<lparr>t_rtime := -1\<rparr>) w;
            w \<leftarrow> tcp_segs_free (t_unsent b) w;
            w \<leftarrow> tcp_segs_free (t_unacked b) w;
            pcb_upd pcb (\<lambda>b. b\<lparr>t_unsent := [], t_unacked := [], t_unsent_oversize := 0\<rparr>) w }
          else Some w }"

definition tcp_pcb_remove :: "'a tcp_env \<Rightarrow> pcb_list \<Rightarrow> nat \<Rightarrow> 'a tcp_stack \<Rightarrow> 'a tcp_stack option" where
  "tcp_pcb_remove env pcblist pcb w =
     do { let w = TCP_RMV pcblist pcb w;
          w \<leftarrow> tcp_pcb_purge pcb w;
          b \<leftarrow> ts_pcbs w pcb;
          w \<leftarrow> (if t_state b \<noteq> TIME_WAIT \<and> t_state b \<noteq> LISTEN \<and> t_flags b AND TF_ACK_DELAY \<noteq> 0
                then do { w \<leftarrow> tcp_ack_now pcb w; map_option snd (tcp_output env pcb w) }
                else Some w);
          pcb_upd pcb (\<lambda>b. b\<lparr>t_state := CLOSED, t_local_port := 0\<rparr>) w }"

definition TCP_PCB_REMOVE_ACTIVE :: "'a tcp_env \<Rightarrow> nat \<Rightarrow> 'a tcp_stack \<Rightarrow> 'a tcp_stack option" where
  "TCP_PCB_REMOVE_ACTIVE env pcb w =
     map_option (\<lambda>w. w\<lparr>tcp_active_pcbs_changed := True\<rparr>) (tcp_pcb_remove env L_active pcb w)"

section \<open>Aborting\<close>

definition TCP_EVENT_ERR :: "'a tcp_env \<Rightarrow> tcp_err_fn option \<Rightarrow> nat \<Rightarrow> err_t \<Rightarrow> 'a tcp_stack \<Rightarrow> 'a tcp_stack option" where
  "TCP_EVENT_ERR env errf arg err w = (case errf of None \<Rightarrow> Some w | Some f \<Rightarrow> env_err_cb env f arg err w)"

definition tcp_abandon :: "'a tcp_env \<Rightarrow> nat option \<Rightarrow> bool \<Rightarrow> 'a tcp_stack \<Rightarrow> 'a tcp_stack option" where
  "tcp_abandon env p reset w =
     (case p of None \<Rightarrow> Some w
      | Some pcb \<Rightarrow> do {
          b \<leftarrow> ts_pcbs w pcb;
          if t_state b = TIME_WAIT then do {
            w \<leftarrow> tcp_pcb_remove env L_tw pcb w;
            Some (tcp_free pcb w) }
          else do {
            let seqno = t_snd_nxt b;
            let ackno = t_rcv_nxt b;
            let errf = t_errf b;
            let errf_arg = t_callback_arg b;
            (send_rst, local_port, w) \<leftarrow>
              (if t_state b = CLOSED
               then Some (False, 0, if t_local_port b \<noteq> 0 then TCP_RMV L_bound pcb w else w)
               else map_option (\<lambda>w. (reset, t_local_port b, w)) (TCP_PCB_REMOVE_ACTIVE env pcb w));
            b \<leftarrow> ts_pcbs w pcb;
            w \<leftarrow> tcp_segs_free (t_unacked b) w;
            w \<leftarrow> tcp_segs_free (t_unsent b) w;
            w \<leftarrow> tcp_segs_free (t_ooseq b) w;
            w \<leftarrow> (if send_rst
                   then tcp_rst env (Some pcb) seqno ackno (t_local_ip b) (t_remote_ip b) local_port (t_remote_port b) w
                   else Some w);
            TCP_EVENT_ERR env errf errf_arg ERR_ABRT (tcp_free pcb w) } })"

definition tcp_abort :: "'a tcp_env \<Rightarrow> nat option \<Rightarrow> 'a tcp_stack \<Rightarrow> 'a tcp_stack option" where
  "tcp_abort env pcb w = tcp_abandon env pcb True w"

section \<open>Closing\<close>

definition tcp_remove_listener :: "nat list \<Rightarrow> nat \<Rightarrow> 'a tcp_stack \<Rightarrow> 'a tcp_stack option" where
  "tcp_remove_listener lst lpcb w =
     foldr (\<lambda>pcb k w. Option.bind (ts_pcbs w pcb) (\<lambda>b.
         if t_listener b = Some lpcb then Option.bind (pcb_upd pcb (\<lambda>b. b\<lparr>t_listener := None\<rparr>) w) k else k w))
       lst Some w"

definition tcp_listen_closed :: "nat \<Rightarrow> 'a tcp_stack \<Rightarrow> 'a tcp_stack option" where
  "tcp_listen_closed pcb w =
     do { w \<leftarrow> tcp_remove_listener (tcp_bound_pcbs w) pcb w;
          w \<leftarrow> tcp_remove_listener (tcp_active_pcbs w) pcb w;
          tcp_remove_listener (tcp_tw_pcbs w) pcb w }"

definition tcp_trigger_input_pcb_close :: "'a tcp_stack \<Rightarrow> 'a tcp_stack" where
  "tcp_trigger_input_pcb_close w = w\<lparr>recv_flags := recv_flags w OR TF_CLOSED\<rparr>"

definition tcp_close_shutdown_fin :: "'a tcp_env \<Rightarrow> nat \<Rightarrow> 'a tcp_stack \<Rightarrow> (err_t \<times> 'a tcp_stack) option" where
  "tcp_close_shutdown_fin env pcb w =
     do { b \<leftarrow> ts_pcbs w pcb;
          if t_state b \<notin> {SYN_RCVD, ESTABLISHED, CLOSE_WAIT} then Some (ERR_OK, w)
          else do {
            (err, w) \<leftarrow> tcp_send_fin pcb w;
            if err = ERR_OK then do {
              w \<leftarrow> pcb_upd pcb (\<lambda>b'. b'\<lparr>t_state := (if t_state b = CLOSE_WAIT then LAST_ACK else FIN_WAIT_1)\<rparr>) w;
              (_, w) \<leftarrow> tcp_output env pcb w;
              Some (ERR_OK, w) }
            else if err = ERR_MEM then do {
              w \<leftarrow> tcp_set_flags pcb TF_CLOSEPEND w;
              Some (ERR_OK, w) }
            else Some (err, w) } }"

text \<open>\<open>tcp_close_shutdown\<close>; the pointer is to a connection PCB or to a listening one.\<close>

definition tcp_close_shutdown_listen :: "nat \<Rightarrow> 'a tcp_stack \<Rightarrow> (err_t \<times> 'a tcp_stack) option" where
  "tcp_close_shutdown_listen pcb w =
     do { w \<leftarrow> tcp_listen_closed pcb w;
          Some (ERR_OK, tcp_free_listen pcb (TCP_RMV L_listen pcb w)) }"

definition tcp_close_shutdown :: "'a tcp_env \<Rightarrow> nat \<Rightarrow> bool \<Rightarrow> 'a tcp_stack \<Rightarrow> (err_t \<times> 'a tcp_stack) option" where
  "tcp_close_shutdown env pcb rst_on_unacked_data w =
     (case ts_lpcbs w pcb of
        Some _ \<Rightarrow> tcp_close_shutdown_listen pcb w
      | None \<Rightarrow> do {
          b \<leftarrow> ts_pcbs w pcb;
          if rst_on_unacked_data \<and> (t_state b = ESTABLISHED \<or> t_state b = CLOSE_WAIT)
              \<and> (t_refused_data b \<noteq> None \<or> t_rcv_wnd b \<noteq> TCP_WND)
          then do {
            w \<leftarrow> tcp_rst env (Some pcb) (t_snd_nxt b) (t_rcv_nxt b) (t_local_ip b) (t_remote_ip b)
                   (t_local_port b) (t_remote_port b) w;
            w \<leftarrow> tcp_pcb_purge pcb w;
            let w = TCP_RMV_ACTIVE pcb w;
            Some (ERR_OK, if tcp_input_pcb w = Some pcb then tcp_trigger_input_pcb_close w else tcp_free pcb w) }
          else if t_state b = CLOSED then
            Some (ERR_OK, tcp_free pcb (if t_local_port b \<noteq> 0 then TCP_RMV L_bound pcb w else w))
          else if t_state b = SYN_SENT then do {
            w \<leftarrow> TCP_PCB_REMOVE_ACTIVE env pcb w;
            Some (ERR_OK, tcp_free pcb w) }
          else tcp_close_shutdown_fin env pcb w })"

definition tcp_close :: "'a tcp_env \<Rightarrow> nat option \<Rightarrow> 'a tcp_stack \<Rightarrow> (err_t \<times> 'a tcp_stack) option" where
  "tcp_close env p w =
     (case p of None \<Rightarrow> Some (ERR_ARG, w)
      | Some pcb \<Rightarrow> do {
          w \<leftarrow> (if ts_lpcbs w pcb = None then tcp_set_flags pcb TF_RXCLOSED w else Some w);
          tcp_close_shutdown env pcb True w })"

definition tcp_shutdown :: "'a tcp_env \<Rightarrow> nat option \<Rightarrow> bool \<Rightarrow> bool \<Rightarrow> 'a tcp_stack \<Rightarrow> (err_t \<times> 'a tcp_stack) option" where
  "tcp_shutdown env p shut_rx shut_tx w =
     (case p of None \<Rightarrow> Some (ERR_ARG, w)
      | Some pcb \<Rightarrow>
          if ts_lpcbs w pcb \<noteq> None then Some (ERR_CONN, w)
          else if shut_rx \<and> shut_tx then do {
            w \<leftarrow> tcp_set_flags pcb TF_RXCLOSED w;
            tcp_close_shutdown env pcb True w }
          else do {
            w \<leftarrow> (if shut_rx then do {
                     w \<leftarrow> tcp_set_flags pcb TF_RXCLOSED w;
                     b \<leftarrow> ts_pcbs w pcb;
                     if t_refused_data b \<noteq> None then do {
                       w \<leftarrow> map_option snd (stack_pb (pbuf_free (t_refused_data b)) w);
                       pcb_upd pcb (\<lambda>b. b\<lparr>t_refused_data := None\<rparr>) w }
                     else Some w }
                   else Some w);
            if shut_tx then do {
              b \<leftarrow> ts_pcbs w pcb;
              if t_state b \<in> {SYN_RCVD, ESTABLISHED, CLOSE_WAIT} then tcp_close_shutdown env pcb shut_rx w
              else Some (ERR_CONN, w) }
            else Some (ERR_OK, w) })"

section \<open>Allocating\<close>

text \<open>A zeroed PCB with the initial values \<open>tcp_alloc\<close> gives it.\<close>

definition new_pcb :: "u8 \<Rightarrow> u32 \<Rightarrow> u8 \<Rightarrow> tcp_pcb" where
  "new_pcb prio ticks ctr =
     \<lparr>t_local_ip = 0, t_remote_ip = 0, t_netif_idx = 0, t_so_options = 0, t_tos = 0, t_ttl = TCP_TTL,
      t_callback_arg = 0, t_state = CLOSED, t_prio = prio, t_local_port = 0, t_remote_port = 0, t_flags = 0,
      t_polltmr = 0, t_pollinterval = 0, t_last_timer = ctr, t_tmr = ticks, t_rcv_nxt = 0,
      t_rcv_wnd = TCP_WND, t_rcv_ann_wnd = TCP_WND, t_rcv_ann_right_edge = 0, t_rtime = -1,
      t_mss = INITIAL_MSS, t_rttest = 0, t_rtseq = 0, t_sa = 0,
      t_sv = int (LWIP_TCP_RTO_TIME div TCP_SLOW_INTERVAL), t_rto = int (LWIP_TCP_RTO_TIME div TCP_SLOW_INTERVAL),
      t_nrtx = 0, t_dupacks = 0, t_lastack = 0, t_cwnd = 1, t_ssthresh = TCP_SND_BUF, t_rto_end = 0,
      t_snd_nxt = 0, t_snd_wl1 = 0, t_snd_wl2 = 0, t_snd_lbb = 0, t_snd_wnd = 0, t_snd_wnd_max = 0,
      t_snd_buf = TCP_SND_BUF, t_snd_queuelen = 0, t_unsent_oversize = 0, t_bytes_acked = 0,
      t_unsent = [], t_unacked = [], t_ooseq = [], t_refused_data = None, t_listener = None,
      t_sent = None, t_recv = Some tcp_recv_null_fn, t_poll = None, t_errf = None,
      t_keep_idle = TCP_KEEPIDLE_DEFAULT, t_persist_cnt = 0, t_persist_backoff = 0, t_persist_probe = 0,
      t_keep_cnt_sent = 0\<rparr>"

text \<open>The loop of \<open>tcp_kill_prio\<close>, with \<open>mprio\<close>, \<open>inactivity\<close> and \<open>inactive\<close>.\<close>

fun kill_prio_loop :: "(nat \<rightharpoonup> tcp_pcb) \<Rightarrow> u32 \<Rightarrow> nat list \<Rightarrow> u8 \<times> u32 \<times> nat option \<Rightarrow> nat option option" where
  "kill_prio_loop P ticks [] (mprio, inactivity, inactive) = Some inactive"
| "kill_prio_loop P ticks (a # as) (mprio, inactivity, inactive) =
     Option.bind (P a) (\<lambda>b.
       if t_prio b < mprio \<or> (t_prio b = mprio \<and> ticks - t_tmr b \<ge> inactivity)
       then kill_prio_loop P ticks as (t_prio b, ticks - t_tmr b, Some a)
       else kill_prio_loop P ticks as (mprio, inactivity, inactive))"

definition tcp_kill_prio :: "'a tcp_env \<Rightarrow> u8 \<Rightarrow> 'a tcp_stack \<Rightarrow> 'a tcp_stack option" where
  "tcp_kill_prio env prio w =
     (let mprio = min TCP_PRIO_MAX prio
      in if mprio = 0 then Some w
         else do {
           inactive \<leftarrow> kill_prio_loop (ts_pcbs w) (tcp_ticks w) (tcp_active_pcbs w) (mprio - 1, 0, None);
           if inactive \<noteq> None then tcp_abort env inactive w else Some w })"

text \<open>The search for the longest inactive PCB that satisfies \<open>Q\<close>.\<close>

fun oldest_loop :: "(nat \<rightharpoonup> tcp_pcb) \<Rightarrow> u32 \<Rightarrow> (tcp_pcb \<Rightarrow> bool) \<Rightarrow> nat list \<Rightarrow> u32 \<times> nat option \<Rightarrow> nat option option" where
  "oldest_loop P ticks Q [] (inactivity, inactive) = Some inactive"
| "oldest_loop P ticks Q (a # as) (inactivity, inactive) =
     Option.bind (P a) (\<lambda>b.
       if Q b \<and> ticks - t_tmr b \<ge> inactivity
       then oldest_loop P ticks Q as (ticks - t_tmr b, Some a)
       else oldest_loop P ticks Q as (inactivity, inactive))"

definition tcp_kill_state :: "'a tcp_env \<Rightarrow> tcp_state \<Rightarrow> 'a tcp_stack \<Rightarrow> 'a tcp_stack option" where
  "tcp_kill_state env st w =
     do { inactive \<leftarrow> oldest_loop (ts_pcbs w) (tcp_ticks w) (\<lambda>b. t_state b = st) (tcp_active_pcbs w) (0, None);
          if inactive \<noteq> None then tcp_abandon env inactive False w else Some w }"

definition tcp_kill_timewait :: "'a tcp_env \<Rightarrow> 'a tcp_stack \<Rightarrow> 'a tcp_stack option" where
  "tcp_kill_timewait env w =
     do { inactive \<leftarrow> oldest_loop (ts_pcbs w) (tcp_ticks w) (\<lambda>b. True) (tcp_tw_pcbs w) (0, None);
          if inactive \<noteq> None then tcp_abort env inactive w else Some w }"

text \<open>Retrying the FINs that could not be sent, in list order.\<close>

fun closepend_loop :: "'a tcp_env \<Rightarrow> nat list \<Rightarrow> 'a tcp_stack \<Rightarrow> 'a tcp_stack option" where
  "closepend_loop env [] w = Some w"
| "closepend_loop env (pcb # pcbs) w =
     Option.bind (ts_pcbs w pcb) (\<lambda>b.
       if t_flags b AND TF_CLOSEPEND \<noteq> 0
       then Option.bind (tcp_clear_flags pcb TF_CLOSEPEND w) (\<lambda>w.
            Option.bind (tcp_close_shutdown_fin env pcb w) (\<lambda>(_, w). closepend_loop env pcbs w))
       else closepend_loop env pcbs w)"

definition tcp_handle_closepend :: "'a tcp_env \<Rightarrow> 'a tcp_stack \<Rightarrow> 'a tcp_stack option" where
  "tcp_handle_closepend env w = closepend_loop env (tcp_active_pcbs w) w"

definition init_pcb :: "nat \<Rightarrow> u8 \<Rightarrow> 'a tcp_stack \<Rightarrow> 'a tcp_stack" where
  "init_pcb a prio w = w\<lparr>ts_pcbs := (ts_pcbs w)(a \<mapsto> new_pcb prio (tcp_ticks w) (tcp_timer_ctr w))\<rparr>"

text \<open>\<open>memp_malloc\<close>, and on failure the next way to free a PCB.\<close>

definition or_else ::
    "('a tcp_stack \<Rightarrow> (nat option \<times> 'a tcp_stack) option) \<Rightarrow> nat option \<times> 'a tcp_stack
      \<Rightarrow> (nat option \<times> 'a tcp_stack) option" where
  "or_else f r = (case r of (Some a, w) \<Rightarrow> Some (Some a, w) | (None, w) \<Rightarrow> f w)"

definition tcp_alloc :: "'a tcp_env \<Rightarrow> u8 \<Rightarrow> 'a tcp_stack \<Rightarrow> (nat option \<times> 'a tcp_stack) option" where
  "tcp_alloc env prio w =
     do { r \<leftarrow> or_else (\<lambda>w. do {
                  w \<leftarrow> tcp_handle_closepend env w;
                  w \<leftarrow> tcp_kill_timewait env w;
                  Some (stack_malloc MEMP_TCP_PCB w) }) (stack_malloc MEMP_TCP_PCB w);
          r \<leftarrow> or_else (\<lambda>w. do { w \<leftarrow> tcp_kill_state env LAST_ACK w; Some (stack_malloc MEMP_TCP_PCB w) }) r;
          r \<leftarrow> or_else (\<lambda>w. do { w \<leftarrow> tcp_kill_state env CLOSING w; Some (stack_malloc MEMP_TCP_PCB w) }) r;
          r \<leftarrow> or_else (\<lambda>w. do { w \<leftarrow> tcp_kill_prio env prio w; Some (stack_malloc MEMP_TCP_PCB w) }) r;
          case r of (None, w) \<Rightarrow> Some (None, w) | (Some a, w) \<Rightarrow> Some (Some a, init_pcb a prio w) }"

definition tcp_new :: "'a tcp_env \<Rightarrow> 'a tcp_stack \<Rightarrow> (nat option \<times> 'a tcp_stack) option" where
  "tcp_new env w = tcp_alloc env TCP_PRIO_NORMAL w"

definition tcp_init :: "u32 \<Rightarrow> 'a tcp_stack \<Rightarrow> 'a tcp_stack" where
  "tcp_init rnd w =
     w\<lparr>tcp_port := (ucast rnd AND NOT TCP_LOCAL_PORT_RANGE_START) + TCP_LOCAL_PORT_RANGE_START\<rparr>"

definition tcp_next_iss :: "'a tcp_stack \<Rightarrow> u32 \<times> 'a tcp_stack" where
  "tcp_next_iss w = (let iss = tcp_iss w + tcp_ticks w in (iss, w\<lparr>tcp_iss := iss\<rparr>))"

section \<open>Ports and listeners\<close>

text \<open>Local port and address of a PCB of either kind; the lists in the order of \<open>tcp_pcb_lists\<close>.\<close>

definition local_port_of :: "'a tcp_stack \<Rightarrow> nat \<Rightarrow> u16 option" where
  "local_port_of w a = (case ts_lpcbs w a of Some l \<Rightarrow> Some (l_local_port l) | None \<Rightarrow> map_option t_local_port (ts_pcbs w a))"

definition local_ip_of :: "'a tcp_stack \<Rightarrow> nat \<Rightarrow> u32 option" where
  "local_ip_of w a = (case ts_lpcbs w a of Some l \<Rightarrow> Some (l_local_ip l) | None \<Rightarrow> map_option t_local_ip (ts_pcbs w a))"

definition tcp_pcb_lists :: "'a tcp_stack \<Rightarrow> nat list" where
  "tcp_pcb_lists w = tcp_listen_pcbs w @ tcp_bound_pcbs w @ tcp_active_pcbs w @ tcp_tw_pcbs w"

definition port_in_use :: "'a tcp_stack \<Rightarrow> u16 \<Rightarrow> bool" where
  "port_in_use w port \<longleftrightarrow> (\<exists>a \<in> set (tcp_pcb_lists w). local_port_of w a = Some port)"

text \<open>The \<open>goto again\<close> loop of \<open>tcp_new_port\<close>; the result is the port and the new \<open>tcp_port\<close>.\<close>

definition next_port :: "u16 \<Rightarrow> u16" where
  "next_port p = (if p + 1 = TCP_LOCAL_PORT_RANGE_END then TCP_LOCAL_PORT_RANGE_START else p + 1)"

function new_port_loop :: "(u16 \<Rightarrow> bool) \<Rightarrow> nat \<Rightarrow> u16 \<Rightarrow> u16 \<times> u16" where
  "new_port_loop used n port =
     (let port = next_port port
      in if used port
         then (if n + 1 > 0x3fff then (0, port) else new_port_loop used (n + 1) port)
         else (port, port))"
  by pat_completeness auto
termination by (relation "measure (\<lambda>(_, n, _). 0x4000 - n)") auto

definition tcp_new_port :: "'a tcp_stack \<Rightarrow> u16 \<times> 'a tcp_stack" where
  "tcp_new_port w = (let (r, port) = new_port_loop (port_in_use w) 0 (tcp_port w) in (r, w\<lparr>tcp_port := port\<rparr>))"

text \<open>The conflict test of \<open>tcp_bind\<close>; address 0 is \<open>IP_ADDR_ANY\<close>.\<close>

definition bind_conflict :: "'a tcp_stack \<Rightarrow> u32 \<Rightarrow> u16 \<Rightarrow> bool" where
  "bind_conflict w ipaddr port \<longleftrightarrow>
     (\<exists>a \<in> set (tcp_pcb_lists w). local_port_of w a = Some port
       \<and> (local_ip_of w a = Some 0 \<or> ipaddr = 0 \<or> local_ip_of w a = Some ipaddr))"

definition tcp_bind :: "nat option \<Rightarrow> u32 \<Rightarrow> u16 \<Rightarrow> 'a tcp_stack \<Rightarrow> (err_t \<times> 'a tcp_stack) option" where
  "tcp_bind p ipaddr port w =
     (case p of None \<Rightarrow> Some (ERR_ARG, w)
      | Some pcb \<Rightarrow>
          if ts_lpcbs w pcb \<noteq> None then Some (ERR_VAL, w)
          else do {
            b \<leftarrow> ts_pcbs w pcb;
            if t_state b \<noteq> CLOSED then Some (ERR_VAL, w)
            else do {
              let (port', w) = (if port = 0 then tcp_new_port w else (port, w));
              if port = 0 \<and> port' = 0 then Some (ERR_BUF, w)
              else if port \<noteq> 0 \<and> bind_conflict w ipaddr port then Some (ERR_USE, w)
              else do {
                w \<leftarrow> pcb_upd pcb (\<lambda>b. b\<lparr>t_local_ip := (if ipaddr \<noteq> 0 then ipaddr else t_local_ip b),
                                        t_local_port := port'\<rparr>) w;
                Some (ERR_OK, TCP_REG L_bound pcb w) } } })"

definition tcp_listen_with_backlog_and_err ::
    "nat option \<Rightarrow> 'a tcp_stack \<Rightarrow> (nat option \<times> err_t \<times> 'a tcp_stack) option" where
  "tcp_listen_with_backlog_and_err p w =
     (case p of None \<Rightarrow> Some (None, ERR_ARG, w)
      | Some pcb \<Rightarrow>
          if ts_lpcbs w pcb \<noteq> None then Some (None, ERR_CLSD, w)
          else do {
            b \<leftarrow> ts_pcbs w pcb;
            if t_state b \<noteq> CLOSED then Some (None, ERR_CLSD, w)
            else case stack_malloc MEMP_TCP_PCB_LISTEN w of
                (None, w) \<Rightarrow> Some (None, ERR_MEM, w)
              | (Some lpcb, w) \<Rightarrow>
                  (let w = w\<lparr>ts_lpcbs := (ts_lpcbs w)(lpcb \<mapsto>
                         \<lparr>l_local_ip = t_local_ip b, l_netif_idx = t_netif_idx b, l_so_options = t_so_options b,
                          l_tos = t_tos b, l_ttl = t_ttl b, l_callback_arg = t_callback_arg b, l_state = LISTEN,
                          l_prio = t_prio b, l_local_port = t_local_port b, l_accept = Some tcp_accept_null_fn\<rparr>)\<rparr>;
                       w = (if t_local_port b \<noteq> 0 then TCP_RMV L_bound pcb w else w);
                       w = tcp_free pcb w
                   in Some (Some lpcb, ERR_OK, TCP_REG L_listen lpcb w)) })"

definition tcp_listen :: "nat option \<Rightarrow> 'a tcp_stack \<Rightarrow> (nat option \<times> 'a tcp_stack) option" where
  "tcp_listen p w = map_option (\<lambda>(r, _, w). (r, w)) (tcp_listen_with_backlog_and_err p w)"

section \<open>Callbacks and options\<close>

definition tcp_arg :: "nat option \<Rightarrow> nat \<Rightarrow> 'a tcp_stack \<Rightarrow> 'a tcp_stack option" where
  "tcp_arg p arg w =
     (case p of None \<Rightarrow> Some w
      | Some pcb \<Rightarrow> (case ts_lpcbs w pcb of
            Some l \<Rightarrow> Some (w\<lparr>ts_lpcbs := (ts_lpcbs w)(pcb \<mapsto> l\<lparr>l_callback_arg := arg\<rparr>)\<rparr>)
          | None \<Rightarrow> pcb_upd pcb (\<lambda>b. b\<lparr>t_callback_arg := arg\<rparr>) w))"

definition tcp_recv :: "nat option \<Rightarrow> tcp_recv_fn option \<Rightarrow> 'a tcp_stack \<Rightarrow> 'a tcp_stack option" where
  "tcp_recv p f w = (case p of None \<Rightarrow> Some w | Some pcb \<Rightarrow> pcb_upd pcb (\<lambda>b. b\<lparr>t_recv := f\<rparr>) w)"

definition tcp_sent :: "nat option \<Rightarrow> tcp_sent_fn option \<Rightarrow> 'a tcp_stack \<Rightarrow> 'a tcp_stack option" where
  "tcp_sent p f w = (case p of None \<Rightarrow> Some w | Some pcb \<Rightarrow> pcb_upd pcb (\<lambda>b. b\<lparr>t_sent := f\<rparr>) w)"

definition tcp_err :: "nat option \<Rightarrow> tcp_err_fn option \<Rightarrow> 'a tcp_stack \<Rightarrow> 'a tcp_stack option" where
  "tcp_err p f w = (case p of None \<Rightarrow> Some w | Some pcb \<Rightarrow> pcb_upd pcb (\<lambda>b. b\<lparr>t_errf := f\<rparr>) w)"

definition tcp_accept :: "nat option \<Rightarrow> tcp_accept_fn option \<Rightarrow> 'a tcp_stack \<Rightarrow> 'a tcp_stack option" where
  "tcp_accept p f w =
     (case p of None \<Rightarrow> Some w
      | Some pcb \<Rightarrow> (case ts_lpcbs w pcb of
            Some l \<Rightarrow> Some (if l_state l = LISTEN
                            then w\<lparr>ts_lpcbs := (ts_lpcbs w)(pcb \<mapsto> l\<lparr>l_accept := f\<rparr>)\<rparr> else w)
          | None \<Rightarrow> map_option (\<lambda>_. w) (ts_pcbs w pcb)))"

definition tcp_poll :: "nat option \<Rightarrow> tcp_poll_fn option \<Rightarrow> u8 \<Rightarrow> 'a tcp_stack \<Rightarrow> 'a tcp_stack option" where
  "tcp_poll p f interval w =
     (case p of None \<Rightarrow> Some w
      | Some pcb \<Rightarrow> pcb_upd pcb (\<lambda>b. b\<lparr>t_poll := f, t_pollinterval := interval\<rparr>) w)"

definition tcp_setprio :: "nat option \<Rightarrow> u8 \<Rightarrow> 'a tcp_stack \<Rightarrow> 'a tcp_stack option" where
  "tcp_setprio p prio w = (case p of None \<Rightarrow> Some w | Some pcb \<Rightarrow> pcb_upd pcb (\<lambda>b. b\<lparr>t_prio := prio\<rparr>) w)"

section \<open>The receive window\<close>

text \<open>The update of one PCB; the result is how much the announced window would grow.\<close>

definition update_rcv_ann_wnd :: "tcp_pcb \<Rightarrow> u32 \<times> tcp_pcb" where
  "update_rcv_ann_wnd b =
     (let new_right_edge = t_rcv_nxt b + ucast (t_rcv_wnd b)
      in if TCP_SEQ_GEQ new_right_edge (t_rcv_ann_right_edge b + min (65535 div 2) (ucast (t_mss b)))
         then (new_right_edge - t_rcv_ann_right_edge b, b\<lparr>t_rcv_ann_wnd := t_rcv_wnd b\<rparr>)
         else (0, if TCP_SEQ_GT (t_rcv_nxt b) (t_rcv_ann_right_edge b)
                  then b\<lparr>t_rcv_ann_wnd := 0\<rparr>
                  else b\<lparr>t_rcv_ann_wnd := ucast (t_rcv_ann_right_edge b - t_rcv_nxt b)\<rparr>))"

definition tcp_update_rcv_ann_wnd :: "nat \<Rightarrow> 'a tcp_stack \<Rightarrow> (u32 \<times> 'a tcp_stack) option" where
  "tcp_update_rcv_ann_wnd pcb w =
     do { b \<leftarrow> ts_pcbs w pcb;
          w \<leftarrow> pcb_upd pcb (snd \<circ> update_rcv_ann_wnd) w;
          Some (fst (update_rcv_ann_wnd b), w) }"

definition grow_rcv_wnd :: "u16 \<Rightarrow> tcp_pcb \<Rightarrow> tcp_pcb" where
  "grow_rcv_wnd len b =
     (let rcv_wnd = t_rcv_wnd b + len
      in b\<lparr>t_rcv_wnd := (if rcv_wnd > TCP_WND \<or> rcv_wnd < t_rcv_wnd b then TCP_WND else rcv_wnd)\<rparr>)"

definition tcp_recved :: "'a tcp_env \<Rightarrow> nat option \<Rightarrow> u16 \<Rightarrow> 'a tcp_stack \<Rightarrow> 'a tcp_stack option" where
  "tcp_recved env p len w =
     (case p of None \<Rightarrow> Some w
      | Some pcb \<Rightarrow> do {
          w \<leftarrow> pcb_upd pcb (grow_rcv_wnd len) w;
          (wnd_inflation, w) \<leftarrow> tcp_update_rcv_ann_wnd pcb w;
          if wnd_inflation \<ge> TCP_WND_UPDATE_THRESHOLD then do {
            w \<leftarrow> tcp_ack_now pcb w;
            map_option snd (tcp_output env pcb w) }
          else Some w })"

text \<open>The default receive callback.\<close>

definition tcp_recv_null ::
    "'a tcp_env \<Rightarrow> nat option \<Rightarrow> nat option \<Rightarrow> err_t \<Rightarrow> 'a tcp_stack \<Rightarrow> (err_t \<times> 'a tcp_stack) option" where
  "tcp_recv_null env pcb p err w =
     (if pcb = None then Some (ERR_ARG, w)
      else case p of
        Some a \<Rightarrow> do {
          q \<leftarrow> ps_bufs (ts_pb w) a;
          w \<leftarrow> tcp_recved env pcb (p_tot_len q) w;
          (_, w) \<leftarrow> stack_pb (pbuf_free p) w;
          Some (ERR_OK, w) }
      | None \<Rightarrow> if err = ERR_OK then tcp_close env pcb w else Some (ERR_OK, w))"

end
