(* ===== verification/Tcp_Timer.thy ===== *)
theory Tcp_Timer
  imports Tcp
begin

text \<open>
  The timers of TCP (\<open>Tunnel/lwip/core/tcp.c\<close>): retransmission, persist and keepalive timers,
  the timeouts of the closing states, delayed acknowledgements and refused data; opening a
  connection actively; and the reaction to a changed interface address.
\<close>

section \<open>Callbacks\<close>

definition TCP_EVENT_RECV :: "'a tcp_env \<Rightarrow> nat \<Rightarrow> nat option \<Rightarrow> err_t \<Rightarrow> 'a tcp_stack \<Rightarrow> (err_t \<times> 'a tcp_stack) option" where
  "TCP_EVENT_RECV env pcb p err w =
     do { b \<leftarrow> ts_pcbs w pcb;
          case t_recv b of
            Some tcp_recv_cb_fn \<Rightarrow> env_recv_cb env (t_callback_arg b) pcb p err w
          | _ \<Rightarrow> tcp_recv_null env (Some pcb) p err w }"

definition TCP_EVENT_CLOSED :: "'a tcp_env \<Rightarrow> nat \<Rightarrow> 'a tcp_stack \<Rightarrow> (err_t \<times> 'a tcp_stack) option" where
  "TCP_EVENT_CLOSED env pcb w =
     do { b \<leftarrow> ts_pcbs w pcb;
          if t_recv b = None then Some (ERR_OK, w) else TCP_EVENT_RECV env pcb None ERR_OK w }"

definition TCP_EVENT_POLL :: "'a tcp_env \<Rightarrow> nat \<Rightarrow> 'a tcp_stack \<Rightarrow> (err_t \<times> 'a tcp_stack) option" where
  "TCP_EVENT_POLL env pcb w =
     do { b \<leftarrow> ts_pcbs w pcb;
          case t_poll b of None \<Rightarrow> Some (ERR_OK, w) | Some f \<Rightarrow> env_poll_cb env f (t_callback_arg b) pcb w }"

definition PBUF_FLAG_TCP_FIN :: u8 where "PBUF_FLAG_TCP_FIN = 0x20"

definition tcp_process_refused_data :: "'a tcp_env \<Rightarrow> nat \<Rightarrow> 'a tcp_stack \<Rightarrow> (err_t \<times> 'a tcp_stack) option" where
  "tcp_process_refused_data env pcb w =
     do { b \<leftarrow> ts_pcbs w pcb;
          refused_data \<leftarrow> t_refused_data b;
          q \<leftarrow> stack_buf w refused_data;
          w \<leftarrow> pcb_upd pcb (\<lambda>b. b\<lparr>t_refused_data := None\<rparr>) w;
          (err, w) \<leftarrow> TCP_EVENT_RECV env pcb (Some refused_data) ERR_OK w;
          if err = ERR_OK then
            if p_flags q AND PBUF_FLAG_TCP_FIN \<noteq> 0 then do {
              w \<leftarrow> pcb_upd pcb (\<lambda>b. if t_rcv_wnd b \<noteq> TCP_WND then b\<lparr>t_rcv_wnd := t_rcv_wnd b + 1\<rparr> else b) w;
              (err, w) \<leftarrow> TCP_EVENT_CLOSED env pcb w;
              Some (if err = ERR_ABRT then ERR_ABRT else ERR_OK, w) }
            else Some (ERR_OK, w)
          else if err = ERR_ABRT then Some (ERR_ABRT, w)
          else do {
            w \<leftarrow> pcb_upd pcb (\<lambda>b. b\<lparr>t_refused_data := Some refused_data\<rparr>) w;
            Some (ERR_INPROGRESS, w) } }"

section \<open>The slow timer\<close>

definition tcp_backoff :: "nat list" where
  "tcp_backoff = [1, 2, 3, 4, 5, 6, 7, 7, 7, 7, 7, 7, 7]"

definition tcp_persist_backoff :: "u8 list" where
  "tcp_persist_backoff = [3, 6, 12, 24, 48, 96, 120]"

definition TCP_MAXRTX :: u8 where "TCP_MAXRTX = 12"

definition TCP_SYNMAXRTX :: u8 where "TCP_SYNMAXRTX = 6"

definition TCP_MSL :: nat where "TCP_MSL = 60000"

definition TCP_FIN_WAIT_TIMEOUT :: nat where "TCP_FIN_WAIT_TIMEOUT = 20000"

definition TCP_SYN_RCVD_TIMEOUT :: nat where "TCP_SYN_RCVD_TIMEOUT = 20000"

definition TCP_KEEPINTVL_DEFAULT :: nat where "TCP_KEEPINTVL_DEFAULT = 75000"

definition TCP_KEEPCNT_DEFAULT :: nat where "TCP_KEEPCNT_DEFAULT = 9"

definition s16_of :: "int \<Rightarrow> int" where
  "s16_of x = sint (of_int x :: 16 word)"

text \<open>The persist timer; the result says whether the PCB is to be removed.\<close>

definition slow_persist :: "'a tcp_env \<Rightarrow> nat \<Rightarrow> 'a tcp_stack \<Rightarrow> (bool \<times> 'a tcp_stack) option" where
  "slow_persist env pcb w =
     do { b \<leftarrow> ts_pcbs w pcb;
          if t_persist_probe b \<ge> TCP_MAXRTX then Some (True, w)
          else if unat (t_persist_backoff b) - 1 \<ge> length tcp_persist_backoff then None
          else do {
            let backoff_cnt = tcp_persist_backoff ! (unat (t_persist_backoff b) - 1);
            let cnt = (if t_persist_cnt b < backoff_cnt then t_persist_cnt b + 1 else t_persist_cnt b);
            w \<leftarrow> pcb_upd pcb (\<lambda>b. b\<lparr>t_persist_cnt := cnt\<rparr>) w;
            if cnt \<ge> backoff_cnt then do {
              (next_slot, w) \<leftarrow>
                (if t_snd_wnd b = 0 then do {
                   (err, w) \<leftarrow> tcp_zero_window_probe env pcb w;
                   Some (err = ERR_OK, w) }
                 else do {
                   (err, w) \<leftarrow> tcp_split_unsent_seg pcb (t_snd_wnd b) w;
                   if err = ERR_OK then do {
                     (err, w) \<leftarrow> tcp_output env pcb w;
                     Some (err \<noteq> ERR_OK, w) }
                   else Some (True, w) });
              w \<leftarrow> (if next_slot
                    then pcb_upd pcb (\<lambda>b. b\<lparr>t_persist_cnt := 0,
                      t_persist_backoff := (if unat (t_persist_backoff b) < length tcp_persist_backoff
                                            then t_persist_backoff b + 1 else t_persist_backoff b)\<rparr>) w
                    else Some w);
              Some (False, w) }
            else Some (False, w) } }"

text \<open>The retransmission timer: back off, shrink the congestion window, send again.\<close>

definition rto_backoff :: "tcp_pcb \<Rightarrow> tcp_pcb" where
  "rto_backoff b =
     (let rto = (if t_state b \<noteq> SYN_SENT
                 then s16_of (min ((t_sa b div 8 + t_sv b) * 2 ^ (tcp_backoff ! min (unat (t_nrtx b)) 12)) 0x7FFF)
                 else t_rto b);
          half = drop_bit 1 (min (t_cwnd b) (t_snd_wnd b))
      in b\<lparr>t_rto := rto, t_rtime := 0, t_ssthresh := max half (push_bit 1 (t_mss b)), t_cwnd := t_mss b, t_bytes_acked := 0\<rparr>)"

definition slow_rexmit :: "'a tcp_env \<Rightarrow> nat \<Rightarrow> 'a tcp_stack \<Rightarrow> 'a tcp_stack option" where
  "slow_rexmit env pcb w =
     do { w \<leftarrow> pcb_upd pcb (\<lambda>b. if t_rtime b \<ge> 0 \<and> t_rtime b < 0x7FFF then b\<lparr>t_rtime := t_rtime b + 1\<rparr> else b) w;
          b \<leftarrow> ts_pcbs w pcb;
          if t_rtime b \<ge> t_rto b then do {
            (err, w) \<leftarrow> tcp_rexmit_rto_prepare pcb w;
            b \<leftarrow> ts_pcbs w pcb;
            if err = ERR_OK \<or> t_unacked b = [] \<and> t_unsent b \<noteq> [] then do {
              w \<leftarrow> pcb_upd pcb rto_backoff w;
              tcp_rexmit_rto_commit env pcb w }
            else Some w }
          else Some w }"

text \<open>Timeouts of the states; the age of a PCB is the number of ticks since its \<open>tmr\<close>.\<close>

definition pcb_age :: "'a tcp_stack \<Rightarrow> tcp_pcb \<Rightarrow> nat" where
  "pcb_age w b = unat (tcp_ticks w - t_tmr b)"

definition slow_expired :: "'a tcp_stack \<Rightarrow> tcp_pcb \<Rightarrow> bool" where
  "slow_expired w b \<longleftrightarrow>
     t_state b = FIN_WAIT_2 \<and> t_flags b AND TF_RXCLOSED \<noteq> 0 \<and> pcb_age w b > TCP_FIN_WAIT_TIMEOUT div TCP_SLOW_INTERVAL
   \<or> t_state b = SYN_RCVD \<and> pcb_age w b > TCP_SYN_RCVD_TIMEOUT div TCP_SLOW_INTERVAL
   \<or> t_state b = LAST_ACK \<and> pcb_age w b > 2 * TCP_MSL div TCP_SLOW_INTERVAL"

text \<open>The keepalive timer; the result says whether the PCB is to be removed with a reset.\<close>

definition slow_keepalive :: "'a tcp_env \<Rightarrow> nat \<Rightarrow> 'a tcp_stack \<Rightarrow> (bool \<times> 'a tcp_stack) option" where
  "slow_keepalive env pcb w =
     do { b \<leftarrow> ts_pcbs w pcb;
          if t_so_options b AND SOF_KEEPALIVE \<noteq> 0 \<and> (t_state b = ESTABLISHED \<or> t_state b = CLOSE_WAIT) then
            if pcb_age w b > (unat (t_keep_idle b) + TCP_KEEPCNT_DEFAULT * TCP_KEEPINTVL_DEFAULT) div TCP_SLOW_INTERVAL
            then Some (True, w)
            else if pcb_age w b > (unat (t_keep_idle b) + unat (t_keep_cnt_sent b) * TCP_KEEPINTVL_DEFAULT) div TCP_SLOW_INTERVAL
            then do {
              (err, w) \<leftarrow> tcp_keepalive env pcb w;
              if err = ERR_OK then do {
                w \<leftarrow> pcb_upd pcb (\<lambda>b. b\<lparr>t_keep_cnt_sent := t_keep_cnt_sent b + 1\<rparr>) w;
                Some (False, w) }
              else Some (False, w) }
            else Some (False, w)
          else Some (False, w) }"

text \<open>All checks on one active PCB: is it to be removed, and with a reset?\<close>

definition slow_pcb :: "'a tcp_env \<Rightarrow> nat \<Rightarrow> 'a tcp_stack \<Rightarrow> (bool \<times> bool \<times> 'a tcp_stack) option" where
  "slow_pcb env pcb w =
     do { w \<leftarrow> pcb_upd pcb (\<lambda>b. b\<lparr>t_last_timer := tcp_timer_ctr w\<rparr>) w;
          b \<leftarrow> ts_pcbs w pcb;
          (rem1, w) \<leftarrow>
            (if t_state b = SYN_SENT \<and> t_nrtx b \<ge> TCP_SYNMAXRTX then Some (True, w)
             else if t_nrtx b \<ge> TCP_MAXRTX then Some (True, w)
             else if t_persist_backoff b > 0 then slow_persist env pcb w
             else map_option (\<lambda>w. (False, w)) (slow_rexmit env pcb w));
          b1 \<leftarrow> ts_pcbs w pcb;
          let rem2 = slow_expired w b1;
          (reset, w) \<leftarrow> slow_keepalive env pcb w;
          b \<leftarrow> ts_pcbs w pcb;
          w \<leftarrow> (if t_ooseq b \<noteq> [] \<and> tcp_ticks w - t_tmr b \<ge> of_int (t_rto b) * 6 then tcp_free_ooseq pcb w else Some w);
          Some (rem1 \<or> rem2 \<or> reset, reset, w) }"

definition slow_remove :: "'a tcp_env \<Rightarrow> nat \<Rightarrow> bool \<Rightarrow> 'a tcp_stack \<Rightarrow> 'a tcp_stack option" where
  "slow_remove env pcb pcb_reset w =
     do { b0 \<leftarrow> ts_pcbs w pcb;
          w \<leftarrow> tcp_pcb_purge pcb w;
          let w = TCP_RMV L_active pcb w;
          b \<leftarrow> ts_pcbs w pcb;
          w \<leftarrow> (if pcb_reset
                then tcp_rst env (Some pcb) (t_snd_nxt b) (t_rcv_nxt b) (t_local_ip b) (t_remote_ip b)
                       (t_local_port b) (t_remote_port b) w
                else Some w);
          TCP_EVENT_ERR env (t_errf b0) (t_callback_arg b) ERR_ABRT ((tcp_free pcb w)\<lparr>tcp_active_pcbs_changed := False\<rparr>) }"

text \<open>The poll callback; the result says whether the list changed.\<close>

definition slow_poll :: "'a tcp_env \<Rightarrow> nat \<Rightarrow> 'a tcp_stack \<Rightarrow> (bool \<times> 'a tcp_stack) option" where
  "slow_poll env pcb w =
     do { w \<leftarrow> pcb_upd pcb (\<lambda>b. b\<lparr>t_polltmr := t_polltmr b + 1\<rparr>) w;
          b \<leftarrow> ts_pcbs w pcb;
          if t_polltmr b \<ge> t_pollinterval b then do {
            w \<leftarrow> pcb_upd pcb (\<lambda>b. b\<lparr>t_polltmr := 0\<rparr>) w;
            (err, w) \<leftarrow> TCP_EVENT_POLL env pcb (w\<lparr>tcp_active_pcbs_changed := False\<rparr>);
            if tcp_active_pcbs_changed w then Some (True, w)
            else if err = ERR_OK then do {
              (_, w) \<leftarrow> tcp_output env pcb w;
              Some (False, w) }
            else Some (False, w) }
          else Some (False, w) }"

partial_function (option) slow_loop :: "'a tcp_env \<Rightarrow> nat list \<Rightarrow> 'a tcp_stack \<Rightarrow> 'a tcp_stack option" where
  "slow_loop env pcbs w =
     (case pcbs of [] \<Rightarrow> Some w
      | pcb # rest \<Rightarrow>
          Option.bind (ts_pcbs w pcb) (\<lambda>b.
            if t_last_timer b = tcp_timer_ctr w then slow_loop env rest w
            else Option.bind (slow_pcb env pcb w) (\<lambda>(pcb_remove, pcb_reset, w).
              if pcb_remove
              then Option.bind (slow_remove env pcb pcb_reset w) (\<lambda>w.
                     if tcp_active_pcbs_changed w then slow_loop env (tcp_active_pcbs w) w else slow_loop env rest w)
              else Option.bind (slow_poll env pcb w) (\<lambda>(changed, w).
                     if changed then slow_loop env (tcp_active_pcbs w) w else slow_loop env rest w))))"

text \<open>The pass over the PCBs in TIME-WAIT.\<close>

definition tw_expired :: "'a tcp_stack \<Rightarrow> tcp_pcb \<Rightarrow> bool" where
  "tw_expired w b \<longleftrightarrow> pcb_age w b > 2 * TCP_MSL div TCP_SLOW_INTERVAL"

fun tw_loop :: "nat list \<Rightarrow> 'a tcp_stack \<Rightarrow> 'a tcp_stack option" where
  "tw_loop [] w = Some w"
| "tw_loop (pcb # rest) w =
     Option.bind (ts_pcbs w pcb) (\<lambda>b.
       if tw_expired w b
       then Option.bind (tcp_pcb_purge pcb w) (\<lambda>w. tw_loop rest (tcp_free pcb (TCP_RMV L_tw pcb w)))
       else tw_loop rest w)"

definition tcp_slowtmr :: "'a tcp_env \<Rightarrow> 'a tcp_stack \<Rightarrow> 'a tcp_stack option" where
  "tcp_slowtmr env w =
     do { let w = w\<lparr>tcp_ticks := tcp_ticks w + 1, tcp_timer_ctr := tcp_timer_ctr w + 1\<rparr>;
          w \<leftarrow> slow_loop env (tcp_active_pcbs w) w;
          tw_loop (tcp_tw_pcbs w) w }"

section \<open>The fast timer\<close>

definition fast_pcb :: "'a tcp_env \<Rightarrow> nat \<Rightarrow> 'a tcp_stack \<Rightarrow> 'a tcp_stack option" where
  "fast_pcb env pcb w =
     do { w \<leftarrow> pcb_upd pcb (\<lambda>b. b\<lparr>t_last_timer := tcp_timer_ctr w\<rparr>) w;
          b \<leftarrow> ts_pcbs w pcb;
          w \<leftarrow> (if t_flags b AND TF_ACK_DELAY \<noteq> 0 then do {
                  w \<leftarrow> tcp_ack_now pcb w;
                  (_, w) \<leftarrow> tcp_output env pcb w;
                  tcp_clear_flags pcb (TF_ACK_DELAY OR TF_ACK_NOW) w }
                else Some w);
          b \<leftarrow> ts_pcbs w pcb;
          if t_flags b AND TF_CLOSEPEND \<noteq> 0 then do {
            w \<leftarrow> tcp_clear_flags pcb TF_CLOSEPEND w;
            map_option snd (tcp_close_shutdown_fin env pcb w) }
          else Some w }"

partial_function (option) fast_loop :: "'a tcp_env \<Rightarrow> nat list \<Rightarrow> 'a tcp_stack \<Rightarrow> 'a tcp_stack option" where
  "fast_loop env pcbs w =
     (case pcbs of [] \<Rightarrow> Some w
      | pcb # rest \<Rightarrow>
          Option.bind (ts_pcbs w pcb) (\<lambda>b.
            if t_last_timer b = tcp_timer_ctr w then fast_loop env rest w
            else Option.bind (fast_pcb env pcb w) (\<lambda>w.
              Option.bind (ts_pcbs w pcb) (\<lambda>b.
                if t_refused_data b = None then fast_loop env rest w
                else Option.bind (tcp_process_refused_data env pcb (w\<lparr>tcp_active_pcbs_changed := False\<rparr>)) (\<lambda>(_, w).
                       if tcp_active_pcbs_changed w then fast_loop env (tcp_active_pcbs w) w else fast_loop env rest w)))))"

definition tcp_fasttmr :: "'a tcp_env \<Rightarrow> 'a tcp_stack \<Rightarrow> 'a tcp_stack option" where
  "tcp_fasttmr env w =
     (let w = w\<lparr>tcp_timer_ctr := tcp_timer_ctr w + 1\<rparr> in fast_loop env (tcp_active_pcbs w) w)"

definition tcp_tmr :: "'a tcp_env \<Rightarrow> 'a tcp_stack \<Rightarrow> 'a tcp_stack option" where
  "tcp_tmr env w =
     do { w \<leftarrow> tcp_fasttmr env w;
          let w = w\<lparr>tcp_timer := tcp_timer w + 1\<rparr>;
          if tcp_timer w AND 1 \<noteq> 0 then tcp_slowtmr env w else Some w }"

fun txnow_loop :: "'a tcp_env \<Rightarrow> nat list \<Rightarrow> 'a tcp_stack \<Rightarrow> 'a tcp_stack option" where
  "txnow_loop env [] w = Some w"
| "txnow_loop env (pcb # rest) w =
     Option.bind (ts_pcbs w pcb) (\<lambda>b.
       if t_flags b AND TF_NAGLEMEMERR \<noteq> 0
       then Option.bind (tcp_output env pcb w) (\<lambda>(_, w). txnow_loop env rest w)
       else txnow_loop env rest w)"

definition tcp_txnow :: "'a tcp_env \<Rightarrow> 'a tcp_stack \<Rightarrow> 'a tcp_stack option" where
  "tcp_txnow env w = txnow_loop env (tcp_active_pcbs w) w"

section \<open>Active open\<close>

definition connect_init :: "u32 \<Rightarrow> u16 \<Rightarrow> tcp_pcb \<Rightarrow> tcp_pcb" where
  "connect_init iss mtu b = b\<lparr>t_rcv_nxt := 0, t_snd_nxt := iss, t_lastack := iss - 1, t_snd_wl2 := iss - 1, t_snd_lbb := iss - 1,
     t_rcv_wnd := TCP_WND, t_rcv_ann_wnd := TCP_WND, t_rcv_ann_right_edge := 0, t_snd_wnd := TCP_WND,
     t_mss := tcp_eff_send_mss_netif INITIAL_MSS (Some mtu), t_cwnd := 1\<rparr>"

text \<open>No connected callback is stored by this program, so it is left out.\<close>

definition tcp_connect :: "'a tcp_env \<Rightarrow> nat option \<Rightarrow> u32 option \<Rightarrow> u16 \<Rightarrow> 'a tcp_stack \<Rightarrow> (err_t \<times> 'a tcp_stack) option" where
  "tcp_connect env p addr port w =
     (case (p, addr) of
        (Some pcb, Some ipaddr) \<Rightarrow> do {
          b \<leftarrow> ts_pcbs w pcb;
          if t_state b \<noteq> CLOSED then Some (ERR_ISCONN, w)
          else do {
            w \<leftarrow> pcb_upd pcb (\<lambda>b. b\<lparr>t_remote_ip := ipaddr, t_remote_port := port\<rparr>) w;
            r \<leftarrow> tcp_route w (Some pcb) (t_local_ip b) ipaddr;
            case r of None \<Rightarrow> Some (ERR_RTE, w)
            | Some nif \<Rightarrow> do {
                n \<leftarrow> ts_netifs w nif;
                w \<leftarrow> pcb_upd pcb (\<lambda>b. b\<lparr>t_local_ip := (if t_local_ip b = 0 then nif_ip_addr n else t_local_ip b)\<rparr>) w;
                let old_local_port = t_local_port b;
                let (lport, w) = (if old_local_port = 0 then tcp_new_port w else (old_local_port, w));
                w \<leftarrow> pcb_upd pcb (\<lambda>b. b\<lparr>t_local_port := lport\<rparr>) w;
                if lport = 0 then Some (ERR_BUF, w)
                else do {
                  let (iss, w) = tcp_next_iss w;
                  w \<leftarrow> pcb_upd pcb (connect_init iss (nif_mtu n)) w;
                  (ret, w) \<leftarrow> tcp_enqueue_flags pcb TCP_SYN w;
                  if ret = ERR_OK then do {
                    w \<leftarrow> pcb_upd pcb (\<lambda>b. b\<lparr>t_state := SYN_SENT\<rparr>) w;
                    let w = (if old_local_port \<noteq> 0 then TCP_RMV L_bound pcb w else w);
                    let w = TCP_REG_ACTIVE pcb w;
                    (_, w) \<leftarrow> tcp_output env pcb w;
                    Some (ret, w) }
                  else Some (ret, w) } } } }
      | _ \<Rightarrow> Some (ERR_ARG, w))"

section \<open>A changed address\<close>

fun tcp_netif_ip_addr_changed_pcblist :: "'a tcp_env \<Rightarrow> u32 \<Rightarrow> nat list \<Rightarrow> 'a tcp_stack \<Rightarrow> 'a tcp_stack option" where
  "tcp_netif_ip_addr_changed_pcblist env old_addr [] w = Some w"
| "tcp_netif_ip_addr_changed_pcblist env old_addr (pcb # rest) w =
     Option.bind (ts_pcbs w pcb) (\<lambda>b.
       if t_local_ip b = old_addr
       then Option.bind (tcp_abort env (Some pcb) w) (tcp_netif_ip_addr_changed_pcblist env old_addr rest)
       else tcp_netif_ip_addr_changed_pcblist env old_addr rest w)"

text \<open>\<open>new_addr = None\<close> when the interface was removed.\<close>

definition tcp_netif_ip_addr_changed :: "'a tcp_env \<Rightarrow> u32 \<Rightarrow> u32 option \<Rightarrow> 'a tcp_stack \<Rightarrow> 'a tcp_stack option" where
  "tcp_netif_ip_addr_changed env old_addr new_addr w =
     (if old_addr = 0 then Some w
      else do {
        w \<leftarrow> tcp_netif_ip_addr_changed_pcblist env old_addr (tcp_active_pcbs w) w;
        w \<leftarrow> tcp_netif_ip_addr_changed_pcblist env old_addr (tcp_bound_pcbs w) w;
        case new_addr of
          None \<Rightarrow> Some w
        | Some a \<Rightarrow> if a = 0 then Some w
            else Some (w\<lparr>ts_lpcbs := (\<lambda>x. if x \<in> set (tcp_listen_pcbs w)
                   then map_option (\<lambda>l. if l_local_ip l = old_addr then l\<lparr>l_local_ip := a\<rparr> else l) (ts_lpcbs w x)
                   else ts_lpcbs w x)\<rparr>) })"

end
