(* ===== verification/Inet_Chksum.thy ===== *)
theory Inet_Chksum
  imports Prelude
begin

text \<open>
  The checksum module of lwIP (\<open>Tunnel/lwip/core/inet_chksum.c\<close>, with the byte-order
  functions of \<open>core/def.c\<close>) in the configuration of the tunnel: little-endian loads,
  \<open>LWIP_CHKSUM_ALGORITHM 2\<close>, IPv4 only. A buffer is its bytes together with the parity
  of its address, because the routine takes a different path for odd addresses; a pbuf
  chain is the list of its buffers. The reference is RFC 1071 over the concatenated
  bytes: neither the addresses nor the way the data is cut into pbufs may matter.
\<close>

section \<open>Byte order\<close>

definition lwip_htons :: "u16 \<Rightarrow> u16" where
  "lwip_htons n = push_bit 8 (n AND 0x00FF) OR drop_bit 8 (n AND 0xFF00)"

definition lwip_htonl :: "u32 \<Rightarrow> u32" where
  "lwip_htonl n = push_bit 24 (n AND 0x000000FF) OR push_bit 8 (n AND 0x0000FF00)
     OR drop_bit 8 (n AND 0x00FF0000) OR drop_bit 24 (n AND 0xFF000000)"

section \<open>The sum over one buffer\<close>

definition SWAP_BYTES_IN_WORD :: "u32 \<Rightarrow> u32" where
  "SWAP_BYTES_IN_WORD w = push_bit 8 (w AND 0xFF) OR drop_bit 8 (w AND 0xFF00)"

definition FOLD_U32T :: "u32 \<Rightarrow> u32" where
  "FOLD_U32T u = drop_bit 16 u + (u AND 0x0000FFFF)"

text \<open>A \<open>u16_t\<close> load on the little-endian target.\<close>

definition le16 :: "u8 \<Rightarrow> u8 \<Rightarrow> u16" where
  "le16 x y = ucast x OR push_bit 8 (ucast y)"

text \<open>\<open>while (len > 1) { sum += *ps++; len -= 2; }\<close>, with what is left over.\<close>

fun chksum_bulk :: "u8 list \<Rightarrow> u32 \<Rightarrow> u32 \<times> u8 list" where
  "chksum_bulk (x # y # ps) acc = chksum_bulk ps (acc + ucast (le16 x y))"
| "chksum_bulk ps acc = (acc, ps)"

definition lwip_standard_chksum :: "bool \<Rightarrow> u8 list \<Rightarrow> u16" where
  "lwip_standard_chksum is_odd data =
     (let (t, pb) = (if is_odd \<and> data \<noteq> [] then (le16 0 (hd data), tl data) else (0, data));
          (acc, rest) = chksum_bulk pb 0;
          t = (if rest \<noteq> [] then (t AND 0xFF00) OR ucast (hd rest) else t);
          acc = acc + ucast t;
          acc = FOLD_U32T acc;
          acc = FOLD_U32T acc;
          acc = (if is_odd then SWAP_BYTES_IN_WORD acc else acc)
      in ucast acc)"

section \<open>Chains and pseudo headers\<close>

text \<open>One buffer of a chain: the parity of \<open>q->payload\<close> and the \<open>q->len\<close> bytes there.\<close>

type_synonym chk_seg = "bool \<times> u8 list"

text \<open>The loop over the chain, shared by the checksum functions.\<close>

fun chain_loop :: "chk_seg list \<Rightarrow> u32 \<Rightarrow> bool \<Rightarrow> u32 \<times> bool" where
  "chain_loop [] acc swapped = (acc, swapped)"
| "chain_loop ((is_odd, data) # q) acc swapped =
     (let acc = acc + ucast (lwip_standard_chksum is_odd data);
          acc = FOLD_U32T acc
      in if length data mod 2 \<noteq> 0
         then chain_loop q (SWAP_BYTES_IN_WORD acc) (\<not> swapped)
         else chain_loop q acc swapped)"

definition inet_chksum :: "bool \<Rightarrow> u8 list \<Rightarrow> u16" where
  "inet_chksum is_odd data = NOT (lwip_standard_chksum is_odd data)"

definition inet_chksum_pbuf :: "chk_seg list \<Rightarrow> u16" where
  "inet_chksum_pbuf p =
     (let (acc, swapped) = chain_loop p 0 False;
          acc = (if swapped then SWAP_BYTES_IN_WORD acc else acc)
      in ucast (NOT (acc AND 0xFFFF)))"

definition inet_cksum_pseudo_base :: "chk_seg list \<Rightarrow> u8 \<Rightarrow> u16 \<Rightarrow> u32 \<Rightarrow> u16" where
  "inet_cksum_pseudo_base p proto proto_len acc =
     (let (acc, swapped) = chain_loop p acc False;
          acc = (if swapped then SWAP_BYTES_IN_WORD acc else acc);
          acc = acc + ucast (lwip_htons (ucast proto));
          acc = acc + ucast (lwip_htons proto_len);
          acc = FOLD_U32T acc;
          acc = FOLD_U32T acc
      in ucast (NOT (acc AND 0xFFFF)))"

text \<open>The two addresses, in network byte order, as they stand in memory.\<close>

definition addr_acc :: "u32 \<Rightarrow> u32 \<Rightarrow> u32" where
  "addr_acc src dest =
     (let acc = src AND 0xFFFF;
          acc = acc + (drop_bit 16 src AND 0xFFFF);
          acc = acc + (dest AND 0xFFFF);
          acc = acc + (drop_bit 16 dest AND 0xFFFF);
          acc = FOLD_U32T acc
      in FOLD_U32T acc)"

definition inet_chksum_pseudo :: "chk_seg list \<Rightarrow> u8 \<Rightarrow> u16 \<Rightarrow> u32 \<Rightarrow> u32 \<Rightarrow> u16" where
  "inet_chksum_pseudo p proto proto_len src dest =
     inet_cksum_pseudo_base p proto proto_len (addr_acc src dest)"

definition ip_chksum_pseudo :: "chk_seg list \<Rightarrow> u8 \<Rightarrow> u16 \<Rightarrow> u32 \<Rightarrow> u32 \<Rightarrow> u16" where
  "ip_chksum_pseudo p proto proto_len src dest = inet_chksum_pseudo p proto proto_len src dest"

text \<open>The partial version stops after \<open>chksum_len\<close> bytes of the chain.\<close>

fun chain_partial_loop :: "chk_seg list \<Rightarrow> u16 \<Rightarrow> u32 \<Rightarrow> bool \<Rightarrow> u32 \<times> bool" where
  "chain_partial_loop [] chksum_len acc swapped = (acc, swapped)"
| "chain_partial_loop ((is_odd, data) # q) chksum_len acc swapped =
     (if chksum_len > 0 then
        (let chklen = (if unat chksum_len < length data then unat chksum_len else length data);
             acc = acc + ucast (lwip_standard_chksum is_odd (take chklen data));
             chksum_len = chksum_len - word_of_nat chklen;
             acc = FOLD_U32T acc
         in if length data mod 2 \<noteq> 0
            then chain_partial_loop q chksum_len (SWAP_BYTES_IN_WORD acc) (\<not> swapped)
            else chain_partial_loop q chksum_len acc swapped)
      else (acc, swapped))"

definition inet_cksum_pseudo_partial_base ::
    "chk_seg list \<Rightarrow> u8 \<Rightarrow> u16 \<Rightarrow> u16 \<Rightarrow> u32 \<Rightarrow> u16" where
  "inet_cksum_pseudo_partial_base p proto proto_len chksum_len acc =
     (let (acc, swapped) = chain_partial_loop p chksum_len acc False;
          acc = (if swapped then SWAP_BYTES_IN_WORD acc else acc);
          acc = acc + ucast (lwip_htons (ucast proto));
          acc = acc + ucast (lwip_htons proto_len);
          acc = FOLD_U32T acc;
          acc = FOLD_U32T acc
      in ucast (NOT (acc AND 0xFFFF)))"

definition inet_chksum_pseudo_partial ::
    "chk_seg list \<Rightarrow> u8 \<Rightarrow> u16 \<Rightarrow> u16 \<Rightarrow> u32 \<Rightarrow> u32 \<Rightarrow> u16" where
  "inet_chksum_pseudo_partial p proto proto_len chksum_len src dest =
     inet_cksum_pseudo_partial_base p proto proto_len chksum_len (addr_acc src dest)"

section \<open>The reference sum in memory order\<close>

text \<open>The sum of the 16-bit little-endian words of the data.\<close>

fun le_sum :: "u8 list \<Rightarrow> nat" where
  "le_sum [] = 0"
| "le_sum [x] = unat x"
| "le_sum (x # y # xs) = unat x + 256 * unat y + le_sum xs"

lemma le_sum_append [csum_simps]: "even (length xs) \<Longrightarrow> le_sum (xs @ ys) = le_sum xs + le_sum ys"
  by (induction xs rule: le_sum.induct) auto

lemma le_sum_bound: "le_sum xs \<le> 65535 * ((length xs + 1) div 2)"
proof (induction xs rule: le_sum.induct)
  case (2 x)
  then show ?case using unat_u8_less [of x] by simp
next
  case (3 x y xs)
  then show ?case using unat_u8_less [of x] unat_u8_less [of y] by simp
qed simp

lemma le16_nat [byte_simps]: "unat (le16 x y) = unat x + 256 * unat y"
proof -
  have "rd16 [y, x] 0 = le16 x y" by (simp add: rd16_def le16_def or.commute)
  then show ?thesis using rd16_nat [of "[y, x]" 0] by simp
qed

lemma FOLD_nat [csum_simps]: "unat (FOLD_U32T u) = unat u div 65536 + unat u mod 65536"
  using unat_fold_step [of u] by (simp add: FOLD_U32T_def add.commute)

lemma FOLD_fold16: "fold16 (unat (FOLD_U32T u)) = fold16 (unat u)"
  using fold16_step [of "unat u"] by (simp add: csum_simps add.commute)

text \<open>Two folds always reach 16 bits; one does when the sum is below \<open>0x1FFFF\<close>.\<close>

lemma FOLD_small: "unat u \<le> 131070 \<Longrightarrow> unat (FOLD_U32T u) = fold16 (unat u)"
proof -
  assume u: "unat u \<le> 131070"
  have "n div 65536 + n mod 65536 \<le> 65535" if n: "n \<le> 131070" for n :: nat
  proof (cases "n < 65536")
    case False
    define m where "m = n - 65536"
    with False n have "n = 65536 + m" "m < 65535" by simp_all
    then show ?thesis by simp
  qed simp
  with u have "unat (FOLD_U32T u) \<le> 65535" by (simp add: csum_simps)
  then show ?thesis using FOLD_fold16 [of u] by (simp add: fold16_id)
qed

lemma FOLD_twice: "unat (FOLD_U32T (FOLD_U32T u)) = fold16 (unat u)"
proof -
  have "unat u div 65536 \<le> 65535" using unat_u32_less [of u] by simp
  then have "unat (FOLD_U32T u) \<le> 131070" by (simp add: csum_simps)
  then show ?thesis by (simp add: FOLD_small FOLD_fold16)
qed

lemma swap_bits:
  fixes w :: "'a::len word"
  shows "push_bit 8 (w AND 0xFF) OR drop_bit 8 (w AND 0xFF00)
    = push_bit 8 (take_bit 8 w) OR take_bit 8 (drop_bit 8 w)"
proof -
  have m: "(0xFF :: 'a word) = mask 8" "(0xFF00 :: 'a word) = push_bit 8 (mask 8)"
    by (simp_all add: mask_eq_exp_minus_1 push_bit_eq_mult)
  show ?thesis
    unfolding m by (rule bit_word_eqI) (auto simp: bit_simps dest: bit_imp_le_length)
qed

lemma swap_nat_aux:
  fixes w :: "'a::len word"
  assumes "LENGTH('a) \<ge> 16"
  shows "unat (push_bit 8 (take_bit 8 w) OR take_bit 8 (drop_bit 8 w))
    = 256 * (unat w mod 256) + unat w div 256 mod 256"
proof -
  have "push_bit 8 (take_bit 8 w) AND take_bit 8 (drop_bit 8 w) = 0"
    by (rule bit_word_eqI) (auto simp: bit_simps)
  moreover have "unat (take_bit 8 w) = unat w mod 256"
    by (simp only: unsigned_take_bit_eq) (simp add: take_bit_eq_mod)
  moreover have "unat (take_bit 8 (drop_bit 8 w)) = unat w div 256 mod 256"
    by (simp only: unsigned_take_bit_eq unat_drop_bit_eq) (simp add: take_bit_eq_mod drop_bit_eq_div)
  moreover have p: "(65536 :: nat) \<le> 2 ^ LENGTH('a)"
    using power_increasing [OF assms, of "2 :: nat"] by simp
  moreover have "unat (push_bit 8 (take_bit 8 w)) = 256 * (unat w mod 256)"
  proof -
    have "256 * (unat w mod 256) < 65536" by simp
    then have "256 * (unat w mod 256) < 2 ^ LENGTH('a)" using p by linarith
    then show ?thesis
      by (simp only: unsigned_push_bit_eq unsigned_take_bit_eq)
        (simp add: push_bit_eq_mult take_bit_eq_mod mult.commute)
  qed
  moreover have "256 * (unat w mod 256) + unat w div 256 mod 256 < 65536"
  proof -
    have "unat w mod 256 \<le> 255" "unat w div 256 mod 256 \<le> 255"
      using mod_less_divisor [of 256 "unat w"] mod_less_divisor [of 256 "unat w div 256"] by simp_all
    then show ?thesis by linarith
  qed
  ultimately show ?thesis
    by (simp add: or_disjoint_add unat_word_ariths)
qed

lemma SWAP_nat:
  assumes "unat w \<le> 65535"
  shows "unat (SWAP_BYTES_IN_WORD w) = 256 * (unat w mod 256) + unat w div 256"
  unfolding SWAP_BYTES_IN_WORD_def swap_bits using assms by (subst swap_nat_aux) simp_all

lemma htons_nat: "unat (lwip_htons n) = 256 * (unat n mod 256) + unat n div 256"
  unfolding lwip_htons_def swap_bits using unat_u16_less [of n] by (subst swap_nat_aux) simp_all

text \<open>Swapping the bytes multiplies by 256 in one's complement.\<close>

lemma swap_fold16:
  assumes "n \<le> 65535" shows "256 * (n mod 256) + n div 256 = fold16 (256 * n)"
proof (rule fold16_unique [symmetric])
  have n: "n = 256 * (n div 256) + n mod 256" by simp
  have "n div 256 \<le> 255" "n mod 256 \<le> 255"
    using assms mod_less_divisor [of 256 n] by simp_all
  then show "256 * (n mod 256) + n div 256 \<le> 65535" by linarith
  have "256 * n = (256 * (n mod 256) + n div 256) + 65535 * (n div 256)"
    using n by linarith
  then show "(256 * (n mod 256) + n div 256) mod 65535 = 256 * n mod 65535"
    by (metis mod_mult_self2)
  show "(256 * (n mod 256) + n div 256 = 0) = (256 * n = 0)"
    using n by (metis add_is_0 mult_0_right mult_is_0 zero_neq_numeral)
qed

lemma fold16_mult [csum_simps]: "0 < k \<Longrightarrow> fold16 (k * fold16 n) = fold16 (k * n)"
proof (rule fold16_eqI)
  show "k * fold16 n mod 65535 = k * n mod 65535"
    by (metis fold16_mod mod_mult_right_eq)
qed (simp add: fold16_0_iff)

lemma fold16_mult_cong: "fold16 m = fold16 n \<Longrightarrow> fold16 (256 * m) = fold16 (256 * n)"
  using fold16_mult [of 256 m] fold16_mult [of 256 n] by simp

lemma fold16_65536: "fold16 (65536 * n + m) = fold16 (n + m)"
proof (rule fold16_eqI)
  have "65536 * n + m = (n + m) + 65535 * n" by simp
  then show "(65536 * n + m) mod 65535 = (n + m) mod 65535" by (metis mod_mult_self2)
qed simp

text \<open>Shifting the data by one byte multiplies the sum by 256.\<close>

lemma le_sum_Cons: "fold16 (le_sum (d # ds)) = fold16 (unat d + 256 * le_sum ds)"
proof (induction ds arbitrary: d rule: le_sum.induct)
  case (3 x y xs)
  have "fold16 (le_sum (d # x # y # xs)) = fold16 (unat d + 256 * unat x + fold16 (le_sum (y # xs)))"
    by (simp add: csum_simps)
  also have "\<dots> = fold16 (unat d + 256 * unat x + (unat y + 256 * le_sum xs))"
    by (simp add: 3 fold16_add_right)
  also have "\<dots> = fold16 (65536 * unat y + (unat d + 256 * unat x + 256 * le_sum xs))"
    unfolding fold16_65536 by (simp only: ac_simps)
  finally show ?case by (simp add: algebra_simps)
qed simp_all

lemma le_sum_append_odd:
  assumes "odd (length xs)" shows "fold16 (le_sum (xs @ ys)) = fold16 (le_sum xs + 256 * le_sum ys)"
proof -
  from assms obtain as x where xs: "xs = as @ [x]" "even (length as)"
    by (cases xs rule: rev_cases) auto
  have "fold16 (le_sum (xs @ ys)) = fold16 (le_sum as + fold16 (le_sum (x # ys)))"
    by (simp add: xs csum_simps)
  also have "\<dots> = fold16 (le_sum as + (unat x + 256 * le_sum ys))"
    by (simp only: le_sum_Cons fold16_add_right)
  finally show ?thesis using xs(2) by (simp add: xs csum_simps algebra_simps)
qed

text \<open>Network order and memory order differ by a byte swap.\<close>

lemma fold16_be_le: "fold16 (be_sum xs) = fold16 (256 * le_sum xs)"
proof (induction xs rule: be_sum.induct)
  case (3 x y xs)
  have "fold16 (be_sum (x # y # xs)) = fold16 (256 * unat x + unat y + fold16 (be_sum xs))"
    by (simp add: csum_simps)
  also have "\<dots> = fold16 (256 * unat x + unat y + 256 * le_sum xs)"
    by (simp only: 3 fold16_add_right)
  also have "\<dots> = fold16 (65536 * unat y + (256 * unat x + 256 * le_sum xs))"
    unfolding fold16_65536 by (simp only: ac_simps)
  finally show ?case by (simp add: algebra_simps)
qed simp_all

section \<open>The sum over one buffer is the reference sum\<close>

lemma chksum_bulk_sum:
  assumes "chksum_bulk ps acc = (a, r)" "unat acc + le_sum ps < 4294967296"
  shows "unat a + le_sum r = unat acc + le_sum ps \<and> length r = length ps mod 2"
  using assms
proof (induction ps acc rule: chksum_bulk.induct)
  case (1 x y ps acc)
  have "unat (acc + ucast (le16 x y)) = unat acc + unat x + 256 * unat y"
    using "1.prems"(2) by (simp add: unat_word_ariths byte_simps)
  with 1 show ?case by simp
qed auto

lemma low_byte: "unat ((le16 0 x AND 0xFF00) OR ucast (y :: u8)) = 256 * unat x + unat y"
proof -
  have m: "(0xFF00 :: u16) = push_bit 8 (mask 8)"
    by (simp add: mask_eq_exp_minus_1 push_bit_eq_mult)
  have "(le16 0 x AND 0xFF00) OR ucast y = le16 y x"
    unfolding m le16_def
    by (rule bit_word_eqI) (auto simp: bit_simps dest: bit_imp_le_length)
  then show ?thesis by (simp add: byte_simps)
qed

lemma ucast_u32_u16: "unat w \<le> 65535 \<Longrightarrow> unat (ucast (w :: u32) :: u16) = unat w"
  by (simp add: unsigned_ucast_eq take_bit_eq_mod)

lemma standard_chksum_even:
  assumes "length data \<le> 0x20000"
  shows "unat (lwip_standard_chksum False data) = fold16 (le_sum data)"
proof -
  obtain a r where ar: "chksum_bulk data 0 = (a, r)" by fastforce
  have b: "le_sum data < 4294967296"
    using le_sum_bound [of data] assms by simp
  then have sum: "unat a + le_sum r = le_sum data" "length r < 2"
    using chksum_bulk_sum [OF ar] by simp_all
  let ?t = "if r \<noteq> [] then (0 AND 0xFF00) OR ucast (hd r) else 0 :: u16"
  have "unat ?t = le_sum r"
    using sum(2) by (cases r) (auto simp: byte_simps)
  then have "unat (a + ucast ?t) = le_sum data"
    using sum b by (simp only: unat_word_ariths unat_u16_ucast) simp
  moreover have "lwip_standard_chksum False data = ucast (FOLD_U32T (FOLD_U32T (a + ucast ?t)))"
    by (simp add: lwip_standard_chksum_def ar)
  ultimately show ?thesis
    using FOLD_twice [of "a + ucast ?t"] fold16_le [of "le_sum data"] by (simp only: ucast_u32_u16)
qed

lemma standard_chksum_odd:
  assumes "length data \<le> 0x20000"
  shows "unat (lwip_standard_chksum True data) = fold16 (le_sum data)"
proof (cases data)
  case Nil
  then show ?thesis
    by (simp add: lwip_standard_chksum_def FOLD_U32T_def SWAP_BYTES_IN_WORD_def csum_simps)
next
  case (Cons d ds)
  obtain a r where ar: "chksum_bulk ds 0 = (a, r)" by fastforce
  have b: "256 * unat d + le_sum ds < 4294967296"
    using le_sum_bound [of ds] assms unat_u8_less [of d] by (simp add: Cons)
  then have sum: "unat a + le_sum r = le_sum ds" "length r < 2"
    using chksum_bulk_sum [OF ar] by simp_all
  let ?t = "if r \<noteq> [] then (le16 0 d AND 0xFF00) OR ucast (hd r) else le16 0 d"
  let ?s = "FOLD_U32T (FOLD_U32T (a + ucast ?t))"
  have "unat ?t = 256 * unat d + le_sum r"
    using sum(2) by (cases r) (auto simp: byte_simps low_byte)
  then have "unat (a + ucast ?t) = 256 * unat d + le_sum ds"
    using sum b by (simp only: unat_word_ariths unat_u16_ucast) simp
  then have s: "unat ?s = fold16 (256 * unat d + le_sum ds)"
    by (simp only: FOLD_twice)
  have "unat (SWAP_BYTES_IN_WORD ?s) = fold16 (256 * unat ?s)"
    using s fold16_le by (simp only: SWAP_nat swap_fold16)
  also have "\<dots> = fold16 (256 * (256 * unat d + le_sum ds))"
    unfolding s by (simp add: csum_simps)
  also have "\<dots> = fold16 (65536 * unat d + 256 * le_sum ds)" by (simp add: algebra_simps)
  also have "\<dots> = fold16 (le_sum data)"
    by (simp only: fold16_65536 le_sum_Cons Cons)
  finally have "unat (SWAP_BYTES_IN_WORD ?s) = fold16 (le_sum data)" .
  moreover have "lwip_standard_chksum True data = ucast (SWAP_BYTES_IN_WORD ?s)"
    by (simp add: lwip_standard_chksum_def ar Cons)
  ultimately show ?thesis
    using fold16_le [of "le_sum data"] by (simp only: ucast_u32_u16)
qed

lemma standard_chksum_nat:
  "length data \<le> 0x20000 \<Longrightarrow> unat (lwip_standard_chksum is_odd data) = fold16 (le_sum data)"
  by (cases is_odd) (simp_all add: standard_chksum_even standard_chksum_odd)

section \<open>Chains\<close>

definition chain_bytes :: "chk_seg list \<Rightarrow> u8 list" where
  "chain_bytes p = concat (map snd p)"

text \<open>Every \<open>len\<close> is a \<open>u16_t\<close>.\<close>

definition chain_ok :: "chk_seg list \<Rightarrow> bool" where
  "chain_ok p \<longleftrightarrow> list_all (\<lambda>(_, d). length d < 65536) p"

text \<open>
  The accumulator after the bytes \<open>D\<close>, started from \<open>b\<close>: it stands swapped
  after an odd number of bytes.
\<close>

definition acc_after :: "nat \<Rightarrow> u8 list \<Rightarrow> nat" where
  "acc_after b D = fold16 ((if odd (length D) then 256 else 1) * (b + le_sum D))"

lemma fold16_256_256: "fold16 (256 * fold16 (256 * n)) = fold16 n"
  using fold16_65536 [of n 0] by (simp add: csum_simps)

lemma acc_after_le: "acc_after b D \<le> 65535"
  by (simp add: acc_after_def fold16_le)

lemma fold16_256_shift: "fold16 (256 * a + c) = fold16 (256 * (a + 256 * c))"
  using fold16_65536 [of c "256 * a"] by (simp add: algebra_simps)

lemma acc_after_add:
  "fold16 (acc_after b D + le_sum d) =
     fold16 ((if odd (length D) then 256 else 1) * (b + le_sum (D @ d)))"
proof (cases "odd (length D)")
  case True
  have "fold16 (b + le_sum (D @ d)) = fold16 (b + (le_sum D + 256 * le_sum d))"
    using fold16_add_right [of b "le_sum (D @ d)"] fold16_add_right [of b "le_sum D + 256 * le_sum d"]
    by (simp only: le_sum_append_odd [OF True])
  then have "fold16 (256 * (b + le_sum (D @ d))) = fold16 (256 * (b + (le_sum D + 256 * le_sum d)))"
    by (rule fold16_mult_cong)
  then show ?thesis
    using True fold16_256_shift [of "b + le_sum D" "le_sum d"]
      fold16_add_left [of "256 * (b + le_sum D)" "le_sum d"]
    by (simp only: acc_after_def simp_thms if_True add.assoc)
next
  case False
  then show ?thesis by (simp add: acc_after_def csum_simps add.assoc)
qed

lemma acc_after_append:
  "acc_after b (D @ d) =
     (if odd (length d) then fold16 (256 * fold16 (acc_after b D + le_sum d))
      else fold16 (acc_after b D + le_sum d))"
  unfolding acc_after_add
  by (cases "odd (length D)"; cases "odd (length d)")
    (simp_all only: acc_after_def length_append even_add simp_thms if_True if_False mult_1
      fold16_256_256 fold16_mult zero_less_numeral)

lemma chain_step_nat:
  assumes "unat acc \<le> 65535" "length data < 65536"
  shows "unat (FOLD_U32T (acc + ucast (lwip_standard_chksum is_odd data)))
    = fold16 (unat acc + le_sum data)"
proof -
  have c: "unat (lwip_standard_chksum is_odd data) = fold16 (le_sum data)"
    using assms(2) by (simp add: standard_chksum_nat)
  have "unat (acc + ucast (lwip_standard_chksum is_odd data)) = unat acc + fold16 (le_sum data)"
    using assms(1) fold16_le [of "le_sum data"]
    by (simp only: unat_word_ariths unat_u16_ucast c) simp
  then show ?thesis
    using assms(1) fold16_le [of "le_sum data"] by (simp only: FOLD_small fold16_add_right)
qed

lemma chain_loop_acc:
  assumes "chain_ok p" "unat acc = acc_after b D" "swapped = odd (length D)"
  shows "\<exists>a. chain_loop p acc swapped = (a, odd (length (D @ chain_bytes p)))
           \<and> unat a = acc_after b (D @ chain_bytes p)"
  using assms
proof (induction p arbitrary: acc swapped D)
  case Nil
  then show ?case by (simp add: chain_bytes_def)
next
  case (Cons seg p)
  obtain is_odd data where seg: "seg = (is_odd, data)" by force
  let ?acc = "FOLD_U32T (acc + ucast (lwip_standard_chksum is_odd data))"
  have len: "length data < 65536" and p: "chain_ok p"
    using Cons.prems(1) by (simp_all add: chain_ok_def seg)
  have a: "unat ?acc = fold16 (acc_after b D + le_sum data)"
    using chain_step_nat [OF _ len] Cons.prems(2) acc_after_le [of b D] by metis
  define acc' where "acc' = (if odd (length data) then SWAP_BYTES_IN_WORD ?acc else ?acc)"
  have "unat acc' = acc_after b (D @ data)"
    unfolding acc_after_append acc'_def using a
    by (simp add: SWAP_nat swap_fold16 fold16_le)
  from Cons.IH [OF p this refl] show ?case
    using Cons.prems(3)
    by (cases "even (length data)")
      (auto simp: seg acc'_def chain_bytes_def Let_def mod2_eq_if)
qed

text \<open>Started at the beginning of the data, the loop and the final swap give the plain sum.\<close>

lemma chain_sum:
  assumes "chain_ok p" "unat acc \<le> 65535"
  shows "\<exists>a sw. chain_loop p acc False = (a, sw) \<and>
    unat (if sw then SWAP_BYTES_IN_WORD a else a) = fold16 (unat acc + le_sum (chain_bytes p))"
proof -
  have "unat acc = acc_after (unat acc) []"
    using assms(2) by (simp add: acc_after_def csum_simps)
  then obtain a where a: "chain_loop p acc False = (a, odd (length (chain_bytes p)))"
      "unat a = acc_after (unat acc) (chain_bytes p)"
    using chain_loop_acc [OF assms(1), of acc "unat acc" "[]" False] by auto
  have "unat (if odd (length (chain_bytes p)) then SWAP_BYTES_IN_WORD a else a)
    = fold16 (unat acc + le_sum (chain_bytes p))"
    using a(2) acc_after_le [of "unat acc" "chain_bytes p"]
    by (cases "odd (length (chain_bytes p))")
      (simp_all only: SWAP_nat swap_fold16 acc_after_def simp_thms if_True if_False mult_1 fold16_256_256)
  with a(1) show ?thesis by blast
qed

lemma ucast_not_low16:
  assumes "unat (a :: u32) \<le> 65535"
  shows "unat (ucast (NOT (a AND 0xFFFF)) :: u16) = 65535 - unat a"
proof -
  have "a AND 0xFFFF = a"
    using assms u32_low_high(1) [of a] by (intro word_unat_eq_iff [THEN iffD2]) simp
  moreover have "4294967295 - unat a = (65535 - unat a) + 65536 * 65535"
    using assms by simp
  then have "(4294967295 - unat a) mod 65536 = 65535 - unat a"
    using assms mod_mult_self2 [of "65535 - unat a" 65536 65535] by simp
  ultimately show ?thesis
    by (simp add: unsigned_ucast_eq take_bit_eq_mod unat_not_u32)
qed

lemma swap_complement:
  "n \<le> 65535 \<Longrightarrow> 256 * ((65535 - n) mod 256) + (65535 - n) div 256
     = 65535 - (256 * (n mod 256) + n div (256 :: nat))"
proof -
  assume n: "n \<le> 65535"
  define h l where "h = n div 256" and "l = n mod 256"
  have nd: "n = 256 * h + l" by (simp add: h_def l_def)
  have "l \<le> 255" "h \<le> 255" using n by (simp_all add: h_def l_def)
  then have "65535 - n = 256 * (255 - h) + (255 - l)" "255 - l < 256" by (simp_all add: nd)
  then have "(65535 - n) mod 256 = 255 - l" "(65535 - n) div 256 = 255 - h"
    by simp_all
  with \<open>l \<le> 255\<close> \<open>h \<le> 255\<close> show ?thesis unfolding h_def [symmetric] l_def [symmetric] by simp
qed

text \<open>From the complemented sum in memory order to the checksum in network order.\<close>

lemma htons_checksum:
  assumes "unat c = 65535 - fold16 (le_sum xs)"
  shows "unat (lwip_htons c) = 65535 - fold16 (be_sum xs)"
proof -
  have "256 * (fold16 (le_sum xs) mod 256) + fold16 (le_sum xs) div 256 = fold16 (be_sum xs)"
    by (simp only: swap_fold16 [OF fold16_le] fold16_mult fold16_be_le zero_less_numeral)
  then show ?thesis
    by (simp only: htons_nat assms swap_complement [OF fold16_le])
qed

text \<open>
  C27: The checksum of a pbuf chain, put into the header as \<open>inet_chksum_pbuf\<close> returns it
  (so read back in network order), is the RFC 1071 checksum of the concatenated bytes:
  the complement of the one's complement sum of the big-endian 16-bit words. The
  alignment of each buffer and the way the bytes are cut into pbufs, odd lengths
  included, do not matter.
\<close>

theorem inet_chksum_pbuf_correct:
  assumes "chain_ok p"
  shows "unat (lwip_htons (inet_chksum_pbuf p)) = 65535 - fold16 (be_sum (chain_bytes p))"
proof (rule htons_checksum)
  obtain a sw where "chain_loop p 0 False = (a, sw)"
    "unat (if sw then SWAP_BYTES_IN_WORD a else a) = fold16 (le_sum (chain_bytes p))"
    using chain_sum [OF assms, of 0] by auto
  then show "unat (inet_chksum_pbuf p) = 65535 - fold16 (le_sum (chain_bytes p))"
    unfolding inet_chksum_pbuf_def
    using ucast_not_low16 [of "if sw then SWAP_BYTES_IN_WORD a else a"] fold16_le
    by (simp only: Let_def prod.case)
qed

theorem inet_chksum_pbuf_correct_witness:
  "unat (lwip_htons (inet_chksum_pbuf [(True, [0x45, 0x00, 0x01]), (False, [0x73, 0xFF])]))
     = 65535 - fold16 (be_sum [0x45, 0x00, 0x01, 0x73, 0xFF])"
  using inet_chksum_pbuf_correct [of "[(True, [0x45, 0x00, 0x01]), (False, [0x73, 0xFF])]"]
  by (simp add: chain_ok_def chain_bytes_def)

lemma inet_chksum_correct:
  assumes "length data < 65536"
  shows "unat (lwip_htons (inet_chksum is_odd data)) = 65535 - fold16 (be_sum data)"
proof (rule htons_checksum)
  have "unat (NOT c) = 65535 - unat c" for c :: u16
  proof -
    have "NOT c = -1 - c" by (simp add: not_eq_complement)
    moreover have "unat (-1 - c) = unat (-1 :: u16) - unat c"
      by (rule unat_sub) simp
    moreover have "unat (-1 :: u16) = 65535"
      by (simp add: unsigned_minus_1_eq_mask mask_eq_exp_minus_1)
    ultimately show ?thesis by simp
  qed
  then show "unat (inet_chksum is_odd data) = 65535 - fold16 (le_sum data)"
    using assms by (simp add: inet_chksum_def standard_chksum_nat)
qed

section \<open>Pseudo headers\<close>

text \<open>The pseudo header of RFC 793, for addresses given as they stand in memory.\<close>

definition pseudo_header :: "u32 \<Rightarrow> u32 \<Rightarrow> u8 \<Rightarrow> u16 \<Rightarrow> u8 list" where
  "pseudo_header src dest proto proto_len =
     map (\<lambda>k. byte_of k src) [0, 1, 2, 3] @ map (\<lambda>k. byte_of k dest) [0, 1, 2, 3]
     @ [0, proto, byte_of 1 proto_len, byte_of 0 proto_len]"

lemma half_bytes: "n mod 256 + 256 * (n div 256 mod 256) = n mod (65536 :: nat)"
  using mod_mult2_eq [of n 256 256] by simp

lemma half_sum:
  "unat ((w :: u32) AND 0xFFFF) + unat (drop_bit 16 w AND 0xFFFF)
    = le_sum (map (\<lambda>k. byte_of k w) [0, 1, 2, 3])"
proof -
  have "unat w div 65536 mod 256 + 256 * (unat w div 16777216 mod 256) = unat w div 65536 mod 65536"
    using half_bytes [of "unat w div 65536"] by (simp add: div_mult2_eq [symmetric])
  with half_bytes [of "unat w"] show ?thesis by (simp add: byte_simps)
qed

lemma addr_acc_nat:
  "unat (addr_acc src dest) = fold16 (le_sum (map (\<lambda>k. byte_of k src) [0, 1, 2, 3])
     + le_sum (map (\<lambda>k. byte_of k dest) [0, 1, 2, 3]))"
proof -
  have "unat (w AND 0xFFFF) < 65536" for w :: u32
    by (simp add: byte_simps)
  then have "unat ((src AND 0xFFFF) + (drop_bit 16 src AND 0xFFFF) + (dest AND 0xFFFF)
      + (drop_bit 16 dest AND 0xFFFF))
    = unat (src AND 0xFFFF) + unat (drop_bit 16 src AND 0xFFFF)
      + (unat (dest AND 0xFFFF) + unat (drop_bit 16 dest AND 0xFFFF))"
    by (simp add: unat_word_ariths byte_simps)
  then show ?thesis
    by (simp only: addr_acc_def Let_def FOLD_twice half_sum)
qed

text \<open>What both pseudo-header functions do after the loop.\<close>

lemma pseudo_tail:
  assumes "unat a = fold16 (unat (addr_acc src dest) + le_sum xs)"
  shows "unat (lwip_htons (ucast (NOT (FOLD_U32T (FOLD_U32T
      (a + ucast (lwip_htons (ucast proto)) + ucast (lwip_htons proto_len))) AND 0xFFFF))))
    = 65535 - fold16 (be_sum (pseudo_header src dest proto proto_len @ xs))"
proof (rule htons_checksum)
  let ?addrs = "le_sum (map (\<lambda>k. byte_of k src) [0, 1, 2, 3])
    + le_sum (map (\<lambda>k. byte_of k dest) [0, 1, 2, 3])"
  let ?rest = "unat (lwip_htons (ucast proto)) + unat (lwip_htons proto_len)"
  let ?s = "a + ucast (lwip_htons (ucast proto)) + ucast (lwip_htons proto_len)"
  have "unat ?s = unat a + ?rest"
    using assms fold16_le [of "unat (addr_acc src dest) + le_sum xs"]
      unat_u16_less [of "lwip_htons (ucast proto)"] unat_u16_less [of "lwip_htons proto_len"]
    by (simp add: unat_word_ariths unat_u16_ucast)
  moreover have "le_sum (pseudo_header src dest proto proto_len @ xs) = ?addrs + le_sum xs + ?rest"
    using half_bytes [of "unat proto_len"] unat_u16_less [of proto_len] unat_u8_less [of proto]
    by (simp add: pseudo_header_def htons_nat byte_simps unsigned_ucast_eq take_bit_eq_mod)
  ultimately have "fold16 (unat ?s) = fold16 (le_sum (pseudo_header src dest proto proto_len @ xs))"
    by (simp only: assms addr_acc_nat fold16_add_left)
  then show "unat (ucast (NOT (FOLD_U32T (FOLD_U32T ?s) AND 0xFFFF)) :: u16)
    = 65535 - fold16 (le_sum (pseudo_header src dest proto proto_len @ xs))"
    by (simp only: ucast_not_low16 FOLD_twice fold16_le)
qed

lemma addr_acc_le: "unat (addr_acc src dest) \<le> 65535"
  by (simp only: addr_acc_nat fold16_le)

text \<open>
  C28: The pseudo-header checksum of TCP: for every chain, \<open>ip_chksum_pseudo\<close> is, in
  network order, the RFC 1071 checksum of the 12-byte pseudo header (addresses, zero,
  protocol, length) followed by the bytes of the chain.
\<close>

theorem ip_chksum_pseudo_correct:
  assumes "chain_ok p"
  shows "unat (lwip_htons (ip_chksum_pseudo p proto proto_len src dest))
    = 65535 - fold16 (be_sum (pseudo_header src dest proto proto_len @ chain_bytes p))"
proof -
  obtain a sw where "chain_loop p (addr_acc src dest) False = (a, sw)"
    "unat (if sw then SWAP_BYTES_IN_WORD a else a)
      = fold16 (unat (addr_acc src dest) + le_sum (chain_bytes p))"
    using chain_sum [OF assms addr_acc_le] by blast
  then show ?thesis
    using pseudo_tail [of "if sw then SWAP_BYTES_IN_WORD a else a" src dest "chain_bytes p"]
    by (simp only: ip_chksum_pseudo_def inet_chksum_pseudo_def inet_cksum_pseudo_base_def
        Let_def prod.case)
qed

theorem ip_chksum_pseudo_correct_witness:
  "unat (lwip_htons (ip_chksum_pseudo [(False, [0, 80, 1])] 6 3 0x020012C6 0x05000A0A))
    = 65535 - fold16 (be_sum (pseudo_header 0x020012C6 0x05000A0A 6 3 @ [0, 80, 1]))"
  using ip_chksum_pseudo_correct [of "[(False, [0, 80, 1])]" 6 3 "0x020012C6" "0x05000A0A"]
  by (simp add: chain_ok_def chain_bytes_def)

section \<open>The partial checksum\<close>

definition unswap :: "u32 \<times> bool \<Rightarrow> u32" where
  "unswap r = (if snd r then SWAP_BYTES_IN_WORD (fst r) else fst r)"

lemma unswap_swap:
  "unat a \<le> 65535 \<Longrightarrow> unat (unswap (SWAP_BYTES_IN_WORD a, \<not> sw)) = unat (unswap (a, sw))"
proof -
  assume a: "unat a \<le> 65535"
  have s: "unat (SWAP_BYTES_IN_WORD a) = fold16 (256 * unat a)"
    by (simp only: SWAP_nat swap_fold16 a)
  have "unat (SWAP_BYTES_IN_WORD (SWAP_BYTES_IN_WORD a)) = unat a"
    by (simp only: SWAP_nat swap_fold16 s fold16_le fold16_256_256 fold16_id a)
  then show ?thesis by (simp add: unswap_def)
qed

lemma unswap_acc_after:
  assumes "unat a = fold16 ((if sw then 256 else 1) * n)"
  shows "unat (unswap (a, sw)) = fold16 n"
  using assms by (cases sw)
    (simp_all only: unswap_def fst_conv snd_conv if_True if_False SWAP_nat swap_fold16 fold16_le
      fold16_256_256 mult_1)

lemma chain_partial_done [simp]: "chain_partial_loop p 0 acc sw = (acc, sw)"
  by (cases p) auto

text \<open>A buffer that is only summed in part is the last one, so its parity flag is harmless.\<close>

lemma chain_partial_last:
  assumes "0 < n" "unat n < length data" "length data < 65536"
    "unat acc = acc_after b D" "sw = odd (length D)"
  shows "unat (unswap (chain_partial_loop ((is_odd, data) # p) n acc sw))
    = fold16 (b + le_sum (D @ take (unat n) data))"
proof -
  let ?acc = "FOLD_U32T (acc + ucast (lwip_standard_chksum is_odd (take (unat n) data)))"
  have "unat ?acc = fold16 (unat acc + le_sum (take (unat n) data))"
    using chain_step_nat [of acc "take (unat n) data"] assms(3,4) acc_after_le [of b D] by simp
  then have a: "unat ?acc = fold16 ((if sw then 256 else 1) * (b + le_sum (D @ take (unat n) data)))"
    using acc_after_add [of b D "take (unat n) data"] assms(4,5) by simp
  have "unat ?acc \<le> 65535" by (simp only: a fold16_le)
  then have "unat (unswap (chain_partial_loop ((is_odd, data) # p) n acc sw)) = unat (unswap (?acc, sw))"
    using assms(1,2) by (simp add: Let_def unswap_swap)
  with unswap_acc_after [OF a] show ?thesis by simp
qed

lemma chain_partial_sum:
  assumes "chain_ok p" "unat acc = acc_after b D" "sw = odd (length D)"
  shows "unat (unswap (chain_partial_loop p n acc sw))
    = fold16 (b + le_sum (D @ take (unat n) (chain_bytes p)))"
  using assms
proof (induction p arbitrary: n acc sw D)
  case Nil
  then have "unat acc = fold16 ((if sw then 256 else 1) * (b + le_sum D))"
    by (simp add: acc_after_def)
  from unswap_acc_after [OF this] show ?case by (simp add: chain_bytes_def)
next
  case (Cons seg p)
  obtain is_odd data where seg: "seg = (is_odd, data)" by force
  have len: "length data < 65536" and p: "chain_ok p"
    using Cons.prems(1) by (simp_all add: chain_ok_def seg)
  consider "n = 0" | "0 < n" "unat n < length data" | "0 < n" "length data \<le> unat n"
    by (meson not_less word_neq_0_conv)
  then show ?case
  proof cases
    case 1
    have "unat acc = fold16 ((if sw then 256 else 1) * (b + le_sum D))"
      using Cons.prems(2,3) by (simp add: acc_after_def)
    from unswap_acc_after [OF this] show ?thesis by (simp add: 1)
  next
    case 2
    from chain_partial_last [OF 2 len Cons.prems(2,3)] 2 show ?thesis
      by (simp add: seg chain_bytes_def)
  next
    case 3
    let ?acc = "FOLD_U32T (acc + ucast (lwip_standard_chksum is_odd data))"
    define acc' where "acc' = (if odd (length data) then SWAP_BYTES_IN_WORD ?acc else ?acc)"
    have a: "unat ?acc = fold16 (acc_after b D + le_sum data)"
      using chain_step_nat [OF _ len] Cons.prems(2) acc_after_le [of b D] by metis
    then have "unat acc' = acc_after b (D @ data)"
      unfolding acc_after_append acc'_def by (simp add: SWAP_nat swap_fold16 fold16_le)
    note IH = Cons.IH [OF p this refl, of "n - word_of_nat (length data)"]
    have "unat (n - word_of_nat (length data)) = unat n - length data"
      using 3 len by (simp add: unat_sub word_le_nat_alt unat_of_nat take_bit_eq_mod)
    with IH 3 Cons.prems(3) show ?thesis
      by (cases "even (length data)")
        (auto simp: seg acc'_def chain_bytes_def Let_def mod2_eq_if)
  qed
qed

lemma inet_chksum_pseudo_partial_correct:
  assumes "chain_ok p"
  shows "unat (lwip_htons (inet_chksum_pseudo_partial p proto proto_len chksum_len src dest))
    = 65535 - fold16 (be_sum (pseudo_header src dest proto proto_len
        @ take (unat chksum_len) (chain_bytes p)))"
proof -
  let ?r = "chain_partial_loop p chksum_len (addr_acc src dest) False"
  have "unat (addr_acc src dest) = acc_after (unat (addr_acc src dest)) []"
    using addr_acc_le by (simp add: acc_after_def csum_simps)
  from chain_partial_sum [OF assms this, of False chksum_len]
  have "unat (unswap ?r) = fold16 (unat (addr_acc src dest) + le_sum (take (unat chksum_len) (chain_bytes p)))"
    by simp
  from pseudo_tail [OF this] show ?thesis
    by (simp add: inet_chksum_pseudo_partial_def inet_cksum_pseudo_partial_base_def
        Let_def unswap_def case_prod_beta)
qed

section \<open>Byte order\<close>

lemma htons_involution [simp]: "lwip_htons (lwip_htons n) = n"
proof -
  have n: "unat n \<le> 65535" using unat_u16_less [of n] by simp
  have "unat (lwip_htons (lwip_htons n)) = unat n"
    by (simp only: htons_nat swap_fold16 n fold16_le fold16_256_256 fold16_id)
  then show ?thesis by (simp only: word_unat_eq_iff)
qed

text \<open>\<open>lwip_htonl\<close> reads the four bytes of a word in memory as a big-endian number.\<close>

lemma htonl_rd32: "lwip_htonl n = rd32 (map (\<lambda>k. byte_of k n) [0, 1, 2, 3]) 0"
proof -
  have m: "(0xFF :: u32) = mask 8" "(0x0000FF00 :: u32) = push_bit 8 (mask 8)"
    "(0x00FF0000 :: u32) = push_bit 16 (mask 8)" "(0xFF000000 :: u32) = push_bit 24 (mask 8)"
    by (simp_all add: mask_eq_exp_minus_1 push_bit_eq_mult)
  have b0: "push_bit 24 (n AND 0x000000FF) = push_bit 24 (ucast (byte_of 0 n))"
    unfolding m byte_of_def by (rule bit_word_eqI) (auto simp: bit_simps)
  have b1: "push_bit 8 (n AND 0x0000FF00) = push_bit 16 (ucast (byte_of 1 n))"
    unfolding m byte_of_def by (rule bit_word_eqI) (auto simp: bit_simps)
  have b2: "drop_bit 8 (n AND 0x00FF0000) = push_bit 8 (ucast (byte_of 2 n))"
    unfolding m byte_of_def by (rule bit_word_eqI) (auto simp: bit_simps)
  have b3: "drop_bit 24 (n AND 0xFF000000) = ucast (byte_of 3 n)"
    unfolding m byte_of_def by (rule bit_word_eqI) (auto simp: bit_simps)
  show ?thesis
    unfolding lwip_htonl_def b0 b1 b2 b3 by (simp add: rd32_def)
qed

end
