(* ===== verification/Icmp.thy ===== *)
theory Icmp
  imports Ip4_Out Inet_Chksum
begin

text \<open>
  ICMP (\<open>Tunnel/lwip/core/ipv4/icmp.c\<close>): echo replies, destination unreachable and time
  exceeded. A 16-bit field that the code reads without \<open>lwip_ntohs\<close> has its bytes swapped.
\<close>

section \<open>Fields of the IP header, addresses\<close>

definition IPH_V :: "'a tcp_stack \<Rightarrow> nat \<Rightarrow> u8" where
  "IPH_V w hdr = drop_bit 4 (ld_u8 w hdr)"

definition IPH_HL_BYTES :: "'a tcp_stack \<Rightarrow> nat \<Rightarrow> u8" where
  "IPH_HL_BYTES w hdr = (ld_u8 w hdr AND 0x0f) * 4"

definition IPH_LEN :: "'a tcp_stack \<Rightarrow> nat \<Rightarrow> u16" where
  "IPH_LEN w hdr = ld_u16 w (hdr + 2)"

definition IPH_ID :: "'a tcp_stack \<Rightarrow> nat \<Rightarrow> u16" where
  "IPH_ID w hdr = ld_u16 w (hdr + 4)"

definition IPH_OFFSET :: "'a tcp_stack \<Rightarrow> nat \<Rightarrow> u16" where
  "IPH_OFFSET w hdr = ld_u16 w (hdr + 6)"

definition IPH_OFFSET_BYTES :: "'a tcp_stack \<Rightarrow> nat \<Rightarrow> u16" where
  "IPH_OFFSET_BYTES w hdr = (IPH_OFFSET w hdr AND IP_OFFMASK) * 8"

definition IPH_PROTO :: "'a tcp_stack \<Rightarrow> nat \<Rightarrow> u8" where
  "IPH_PROTO w hdr = ld_u8 w (hdr + 9)"

definition ip4_addr_ismulticast :: "u32 \<Rightarrow> bool" where
  "ip4_addr_ismulticast addr \<longleftrightarrow> addr AND 0xf0000000 = 0xe0000000"

definition ip4_addr_isbroadcast :: "u32 \<Rightarrow> netif \<Rightarrow> bool" where
  "ip4_addr_isbroadcast addr n \<longleftrightarrow>
     (if NOT addr = 0 \<or> addr = 0 then True
      else if nif_flags n AND NETIF_FLAG_BROADCAST = 0 then False
      else if addr = nif_ip_addr n then False
      else ip4_addr_net_eq addr (nif_ip_addr n) (nif_netmask n)
        \<and> addr AND NOT (nif_netmask n) = 0xffffffff AND NOT (nif_netmask n))"

text \<open>The buffers of a chain as the checksum functions see them.\<close>

partial_function (option) chain_segs :: "pbuf_state \<Rightarrow> nat option \<Rightarrow> chk_seg list option" where
  "chain_segs s p =
     (case p of None \<Rightarrow> Some []
      | Some a \<Rightarrow> Option.bind (ps_bufs s a) (\<lambda>b.
          Option.bind (chain_segs s (p_next b)) (\<lambda>segs.
            Some ((odd (p_payload b), rd_bytes (ps_mem s) (p_payload b) (unat (p_len b))) # segs))))"

section \<open>Messages\<close>

definition ICMP_ER :: u8 where "ICMP_ER = 0"

definition ICMP_DUR :: u8 where "ICMP_DUR = 3"

definition ICMP_ECHO :: u8 where "ICMP_ECHO = 8"

definition ICMP_TE :: u8 where "ICMP_TE = 11"

definition ICMP_DUR_PROTO :: u8 where "ICMP_DUR_PROTO = 2"

definition ICMP_TE_FRAG :: u8 where "ICMP_TE_FRAG = 1"

definition ICMP_TTL :: u8 where "ICMP_TTL = 255"

definition ICMP_HLEN :: nat where "ICMP_HLEN = 8"

definition ICMP_DEST_UNREACH_DATASIZE :: nat where "ICMP_DEST_UNREACH_DATASIZE = 8"

definition icmp_send_response :: "'a tcp_env \<Rightarrow> nat \<Rightarrow> u8 \<Rightarrow> u8 \<Rightarrow> 'a tcp_stack \<Rightarrow> 'a tcp_stack option" where
  "icmp_send_response env p type code w =
     do { b \<leftarrow> stack_buf w p;
          let response_pkt_len = min (of_nat (IP_HLEN + ICMP_DEST_UNREACH_DATASIZE)) (p_tot_len b);
          (r, w) \<leftarrow> stack_pb (pbuf_alloc PBUF_IP (of_nat ICMP_HLEN + response_pkt_len) PBUF_RAM) w;
          case r of None \<Rightarrow> Some w
          | Some q \<Rightarrow> do {
              bq \<leftarrow> stack_buf w q;
              let h = p_payload bq;
              let w = st_u32 (h + 4) 0 (st_u8 (h + 1) code (st_u8 h type w));
              (_, w) \<leftarrow> stack_pb (pbuf_copy_partial_pbuf (Some q) (Some p) response_pkt_len (of_nat ICMP_HLEN)) w;
              let src = ld_u32 w (p_payload b + 12);
              nif \<leftarrow> ip4_route w src;
              w \<leftarrow> (case nif of None \<Rightarrow> Some w
                     | Some nif \<Rightarrow> do {
                         let w = st_u16 (h + 2) 0 w;
                         let w = st_u16 (h + 2) (lwip_htons (inet_chksum (odd h) (rd_bytes (ps_mem (ts_pb w)) h (unat (p_len bq))))) w;
                         map_option snd (ip4_output_if env q 0 (Some src) ICMP_TTL 0 IP_PROTO_ICMP nif w) });
              map_option snd (stack_pb (pbuf_free (Some q)) w) } }"

definition icmp_dest_unreach :: "'a tcp_env \<Rightarrow> nat \<Rightarrow> u8 \<Rightarrow> 'a tcp_stack \<Rightarrow> 'a tcp_stack option" where
  "icmp_dest_unreach env p t w = icmp_send_response env p ICMP_DUR t w"

definition icmp_time_exceeded :: "'a tcp_env \<Rightarrow> nat \<Rightarrow> u8 \<Rightarrow> 'a tcp_stack \<Rightarrow> 'a tcp_stack option" where
  "icmp_time_exceeded env p t w = icmp_send_response env p ICMP_TE t w"

section \<open>Echo requests\<close>

text \<open>
  The echo request needs room for the headers: the packet itself when it has it, a copy
  otherwise. \<open>None\<close> in the result is the jump to \<open>icmperr\<close>.
\<close>

definition echo_copy :: "nat \<Rightarrow> nat \<Rightarrow> u16 \<Rightarrow> 'a tcp_stack \<Rightarrow> (nat option \<times> 'a tcp_stack) option" where
  "echo_copy p iphdr_in hlen w =
     do { b \<leftarrow> stack_buf w p;
          let alloc_len = p_tot_len b + hlen;
          if alloc_len < p_tot_len b then Some (None, w)
          else do {
            (r, w) \<leftarrow> stack_pb (pbuf_alloc PBUF_LINK alloc_len PBUF_RAM) w;
            case r of None \<Rightarrow> Some (None, w)
            | Some r \<Rightarrow> do {
                br \<leftarrow> stack_buf w r;
                if unat (p_len br) < unat hlen + ICMP_HLEN then do {
                  (_, w) \<leftarrow> stack_pb (pbuf_free (Some r)) w;
                  Some (None, w) }
                else do {
                  let w = st_bytes (p_payload br) (rd_bytes (ps_mem (ts_pb w)) iphdr_in (unat hlen)) w;
                  (fail, w) \<leftarrow> stack_pb (pbuf_remove_header (Some r) (unat hlen)) w;
                  if fail then do {
                    (_, w) \<leftarrow> stack_pb (pbuf_free (Some r)) w;
                    Some (None, w) }
                  else do {
                    (err, w) \<leftarrow> stack_pb (pbuf_copy (Some r) (Some p)) w;
                    if err \<noteq> ERR_OK then do {
                      (_, w) \<leftarrow> stack_pb (pbuf_free (Some r)) w;
                      Some (None, w) }
                    else do {
                      (_, w) \<leftarrow> stack_pb (pbuf_free (Some p)) w;
                      Some (Some r, w) } } } } } }"

definition echo_room :: "nat \<Rightarrow> nat \<Rightarrow> u16 \<Rightarrow> 'a tcp_stack \<Rightarrow> (nat option \<times> 'a tcp_stack) option" where
  "echo_room p iphdr_in hlen w =
     do { (fail, w) \<leftarrow> stack_pb (pbuf_add_header (Some p) (unat hlen + pbuf_layer_offset PBUF_LINK)) w;
          if fail then echo_copy p iphdr_in hlen w
          else do {
            (fail, w) \<leftarrow> stack_pb (pbuf_remove_header (Some p) (unat hlen + pbuf_layer_offset PBUF_LINK)) w;
            Some (if fail then None else Some p, w) } }"

definition echo_chksum :: "u16 \<Rightarrow> u16" where
  "echo_chksum c =
     (if c > lwip_htons (0xffff - push_bit 8 (ucast ICMP_ECHO)) then c + lwip_htons (push_bit 8 (ucast ICMP_ECHO)) + 1
      else c + lwip_htons (push_bit 8 (ucast ICMP_ECHO)))"

definition echo_reply :: "'a tcp_env \<Rightarrow> nat \<Rightarrow> u16 \<Rightarrow> nat \<Rightarrow> 'a tcp_stack \<Rightarrow> 'a tcp_stack option" where
  "echo_reply env p hlen inp w =
     do { b \<leftarrow> stack_buf w p;
          let iecho = p_payload b;
          let src = current_iphdr_dest (ip_data w);
          (fail, w) \<leftarrow> stack_pb (pbuf_add_header (Some p) (unat hlen)) w;
          if fail then Some w
          else do {
            b \<leftarrow> stack_buf w p;
            let iphdr = p_payload b;
            let w = st_u32 (iphdr + 12) src w;
            let w = st_u32 (iphdr + 16) (current_iphdr_src (ip_data w)) w;
            let w = st_u8 iecho ICMP_ER w;
            let w = st_u16 (iecho + 2) (lwip_htons (echo_chksum (lwip_htons (ld_u16 w (iecho + 2))))) w;
            let w = st_u8 (iphdr + 8) ICMP_TTL w;
            let w = st_u16 (iphdr + 10) 0 w;
            map_option snd (ip4_output_if env p src None ICMP_TTL 0 IP_PROTO_ICMP inp w) } }"

definition icmp_drop :: "nat \<Rightarrow> 'a tcp_stack \<Rightarrow> 'a tcp_stack option" where
  "icmp_drop p w = map_option snd (stack_pb (pbuf_free (Some p)) w)"

definition icmp_echo :: "'a tcp_env \<Rightarrow> nat \<Rightarrow> nat \<Rightarrow> u16 \<Rightarrow> nat \<Rightarrow> 'a tcp_stack \<Rightarrow> 'a tcp_stack option" where
  "icmp_echo env p iphdr_in hlen inp w =
     do { let dest = current_iphdr_dest (ip_data w);
          nif \<leftarrow> current_netif (ip_data w);
          n \<leftarrow> ts_netifs w nif;
          b \<leftarrow> stack_buf w p;
          if ip4_addr_ismulticast dest \<or> ip4_addr_isbroadcast dest n then icmp_drop p w
          else if unat (p_tot_len b) < ICMP_HLEN then icmp_drop p w
          else do {
            segs \<leftarrow> chain_segs (ts_pb w) (Some p);
            if inet_chksum_pbuf segs \<noteq> 0 then icmp_drop p w
            else do {
              (r, w) \<leftarrow> echo_room p iphdr_in hlen w;
              case r of None \<Rightarrow> icmp_drop p w
              | Some p \<Rightarrow> do {
                  w \<leftarrow> echo_reply env p hlen inp w;
                  icmp_drop p w } } } }"

definition icmp_input :: "'a tcp_env \<Rightarrow> nat \<Rightarrow> nat \<Rightarrow> 'a tcp_stack \<Rightarrow> 'a tcp_stack option" where
  "icmp_input env p inp w =
     do { iphdr_in \<leftarrow> current_ip4_header (ip_data w);
          let hlen = (ucast (IPH_HL_BYTES w iphdr_in) :: u16);
          b \<leftarrow> stack_buf w p;
          if hlen < of_nat IP_HLEN \<or> p_len b < 4 then icmp_drop p w
          else if ld_u8 w (p_payload b) = ICMP_ECHO then icmp_echo env p iphdr_in hlen inp w
          else icmp_drop p w }"

end
