(* ===== verification/Tcp_In.thy ===== *)
theory Tcp_In
  imports Tcp_Timer Icmp
begin

text \<open>
  The input side of TCP (\<open>Tunnel/lwip/core/tcp_in.c\<close>): demultiplexing, the state machine,
  acknowledgements, in-sequence and out-of-sequence data, and the calls to the application. The
  static variables about the segment being received are \<open>ts_in\<close>. The fields of a received TCP
  header that \<open>tcp_input\<close> converts in place are read with \<open>ld_u16\<close> and \<open>ld_u32\<close>, which give the
  converted value.
\<close>

section \<open>Numbers\<close>

fun tcp_state_num :: "tcp_state \<Rightarrow> nat" where
  "tcp_state_num CLOSED = 0"
| "tcp_state_num LISTEN = 1"
| "tcp_state_num SYN_SENT = 2"
| "tcp_state_num SYN_RCVD = 3"
| "tcp_state_num ESTABLISHED = 4"
| "tcp_state_num FIN_WAIT_1 = 5"
| "tcp_state_num FIN_WAIT_2 = 6"
| "tcp_state_num CLOSE_WAIT = 7"
| "tcp_state_num CLOSING = 8"
| "tcp_state_num LAST_ACK = 9"
| "tcp_state_num TIME_WAIT = 10"

definition TF_RESET :: u8 where "TF_RESET = 0x08"

definition TF_GOT_FIN :: u8 where "TF_GOT_FIN = 0x20"

definition PBUF_FLAG_PUSH :: u8 where "PBUF_FLAG_PUSH = 0x01"

definition LWIP_TCP_OPT_EOL :: u8 where "LWIP_TCP_OPT_EOL = 0"

definition LWIP_TCP_OPT_NOP :: u8 where "LWIP_TCP_OPT_NOP = 1"

definition LWIP_TCP_OPT_MSS :: u8 where "LWIP_TCP_OPT_MSS = 2"

definition LWIP_TCP_OPT_LEN_MSS :: u8 where "LWIP_TCP_OPT_LEN_MSS = 4"

definition TCP_WND_INC :: "u16 \<Rightarrow> u16 \<Rightarrow> u16" where
  "TCP_WND_INC wnd inc = (if wnd + inc \<ge> wnd then wnd + inc else -1)"

definition LWIP_TCP_CALC_INITIAL_CWND :: "u16 \<Rightarrow> u16" where
  "LWIP_TCP_CALC_INITIAL_CWND mss = of_nat (min (4 * unat mss) (max (2 * unat mss) 4380))"

definition in_upd :: "(tcp_in_vars \<Rightarrow> tcp_in_vars) \<Rightarrow> 'a tcp_stack \<Rightarrow> 'a tcp_stack" where
  "in_upd f w = w\<lparr>ts_in := f (ts_in w)\<rparr>"

definition seg_realloc :: "tcp_seg \<Rightarrow> u16 \<Rightarrow> 'a tcp_stack \<Rightarrow> 'a tcp_stack option" where
  "seg_realloc seg len w =
     do { p \<leftarrow> sg_p seg; map_option (\<lambda>pb. w\<lparr>ts_pb := pb\<rparr>) (pbuf_realloc p len (ts_pb w)) }"

definition seg_has_flag :: "'a tcp_stack \<Rightarrow> tcp_seg \<Rightarrow> u8 \<Rightarrow> bool" where
  "seg_has_flag w seg flg \<longleftrightarrow> TCPH_FLAGS w (sg_tcphdr seg) AND flg \<noteq> 0"

definition clear_fin :: "tcp_seg \<Rightarrow> 'a tcp_stack \<Rightarrow> 'a tcp_stack" where
  "clear_fin seg w =
     (if seg_has_flag w seg TCP_FIN
      then TCPH_FLAGS_SET (sg_tcphdr seg) (TCPH_FLAGS w (sg_tcphdr seg) AND NOT TCP_FIN) w else w)"

definition seg_tcplen :: "'a tcp_stack \<Rightarrow> tcp_seg \<Rightarrow> u16" where
  "seg_tcplen w seg = ucast (TCP_TCPLEN w seg)"

section \<open>Options\<close>

definition optbyte :: "'a tcp_stack \<Rightarrow> u16 \<Rightarrow> u8" where
  "optbyte w optidx =
     (case in_opt2 (ts_in w) of
        None \<Rightarrow> ld_u8 w (in_hdr (ts_in w) + TCP_HLEN + unat optidx)
      | Some opt2 \<Rightarrow>
          if optidx < in_opt1len (ts_in w) then ld_u8 w (in_hdr (ts_in w) + TCP_HLEN + unat optidx)
          else ld_u8 w (opt2 + unat (ucast (optidx - in_opt1len (ts_in w)) :: u8)))"

text \<open>The loop over the options; the results are the MSS and the position reached.\<close>

partial_function (option) parseopt_loop :: "'a tcp_stack \<Rightarrow> u16 \<Rightarrow> u16 \<Rightarrow> (u16 \<times> u16) option" where
  "parseopt_loop w idx mss =
     (if idx < in_optlen (ts_in w) then
        let opt = optbyte w idx;
            data = optbyte w (idx + 1);
            idx = idx + 1
        in if opt = LWIP_TCP_OPT_EOL then Some (mss, idx)
           else if opt = LWIP_TCP_OPT_NOP then parseopt_loop w idx mss
           else if opt = LWIP_TCP_OPT_MSS then
             if data \<noteq> LWIP_TCP_OPT_LEN_MSS \<or> unat idx + 1 - 2 + 4 > unat (in_optlen (ts_in w)) then Some (mss, idx + 1)
             else let m = push_bit 8 (ucast (optbyte w (idx + 1))) OR ucast (optbyte w (idx + 2))
                  in parseopt_loop w (idx + 3) (if m > TCP_MSS \<or> m = 0 then TCP_MSS else m)
           else if data < 2 then Some (mss, idx + 1)
           else parseopt_loop w (idx + 1 + ucast data - 2) mss
      else Some (mss, idx))"

definition tcp_parseopt :: "nat \<Rightarrow> 'a tcp_stack \<Rightarrow> 'a tcp_stack option" where
  "tcp_parseopt pcb w =
     (if in_optlen (ts_in w) \<noteq> 0 then do {
        b \<leftarrow> ts_pcbs w pcb;
        (mss, idx) \<leftarrow> parseopt_loop w 0 (t_mss b);
        pcb_upd pcb (\<lambda>b. b\<lparr>t_mss := mss\<rparr>) (in_upd (\<lambda>v. v\<lparr>in_optidx := idx\<rparr>) w) }
      else Some w)"

section \<open>Acknowledgements\<close>

fun tcp_free_acked_segments :: "nat \<Rightarrow> tcp_seg list \<Rightarrow> 'a tcp_stack \<Rightarrow> (tcp_seg list \<times> 'a tcp_stack) option" where
  "tcp_free_acked_segments pcb [] w = Some ([], w)"
| "tcp_free_acked_segments pcb (seg # segs) w =
     (if TCP_SEQ_LEQ (seg_seqno w seg + TCP_TCPLEN w seg) (in_ackno (ts_in w))
      then Option.bind (pbuf_clen (sg_p seg) (ts_pb w)) (\<lambda>clen.
           Option.bind (pcb_upd pcb (\<lambda>b. b\<lparr>t_snd_queuelen := t_snd_queuelen b - clen\<rparr>) w) (\<lambda>w.
           Option.bind (tcp_seg_free seg (in_upd (\<lambda>v. v\<lparr>in_recv_acked := in_recv_acked v + sg_len seg\<rparr>) w))
             (tcp_free_acked_segments pcb segs)))
      else Some (seg # segs, w))"

definition update_snd_wnd :: "u32 \<Rightarrow> u32 \<Rightarrow> u16 \<Rightarrow> tcp_pcb \<Rightarrow> tcp_pcb" where
  "update_snd_wnd seqno ackno wnd b =
     (if TCP_SEQ_LT (t_snd_wl1 b) seqno
        \<or> t_snd_wl1 b = seqno \<and> TCP_SEQ_LT (t_snd_wl2 b) ackno
        \<or> t_snd_wl2 b = ackno \<and> wnd > t_snd_wnd b
      then b\<lparr>t_snd_wnd := wnd, t_snd_wnd_max := max (t_snd_wnd_max b) wnd, t_snd_wl1 := seqno, t_snd_wl2 := ackno\<rparr>
      else b)"

text \<open>A duplicate acknowledgement; \<open>right_wnd_edge\<close> is the edge before the window update.\<close>

definition rcv_dupack :: "nat \<Rightarrow> u32 \<Rightarrow> 'a tcp_stack \<Rightarrow> 'a tcp_stack option" where
  "rcv_dupack pcb right_wnd_edge w =
     do { b \<leftarrow> ts_pcbs w pcb;
          if in_tcplen (ts_in w) = 0 \<and> t_snd_wl2 b + ucast (t_snd_wnd b) = right_wnd_edge \<and> t_rtime b \<ge> 0
             \<and> t_lastack b = in_ackno (ts_in w)
          then do {
            let dupacks = (if t_dupacks b + 1 > t_dupacks b then t_dupacks b + 1 else t_dupacks b);
            w \<leftarrow> pcb_upd pcb (\<lambda>b. b\<lparr>t_dupacks := dupacks,
                   t_cwnd := (if dupacks > 3 then TCP_WND_INC (t_cwnd b) (t_mss b) else t_cwnd b)\<rparr>) w;
            if dupacks \<ge> 3 then tcp_rexmit_fast pcb w else Some w }
          else Some w }"

text \<open>The congestion window after an acknowledgement of new data.\<close>

definition grow_cwnd :: "u16 \<Rightarrow> tcp_pcb \<Rightarrow> tcp_pcb" where
  "grow_cwnd acked b =
     (if tcp_state_num (t_state b) \<ge> 4 then
        if t_cwnd b < t_ssthresh b then
          b\<lparr>t_cwnd := TCP_WND_INC (t_cwnd b) (min acked ((if t_flags b AND TF_RTO \<noteq> 0 then 1 else 2) * t_mss b))\<rparr>
        else let bytes_acked = TCP_WND_INC (t_bytes_acked b) acked
             in if bytes_acked \<ge> t_cwnd b
                then b\<lparr>t_bytes_acked := bytes_acked - t_cwnd b, t_cwnd := TCP_WND_INC (t_cwnd b) (t_mss b)\<rparr>
                else b\<lparr>t_bytes_acked := bytes_acked\<rparr>
      else b)"

definition new_ack :: "u32 \<Rightarrow> tcp_pcb \<Rightarrow> tcp_pcb" where
  "new_ack ackno b =
     (let acked = ucast (ackno - t_lastack b);
          b = (if t_flags b AND TF_INFR \<noteq> 0
               then b\<lparr>t_flags := t_flags b AND NOT TF_INFR, t_cwnd := t_ssthresh b, t_bytes_acked := 0\<rparr> else b)
      in grow_cwnd acked (b\<lparr>t_nrtx := 0, t_rto := s16_of (t_sa b div 8 + t_sv b), t_dupacks := 0, t_lastack := ackno\<rparr>))"

text \<open>Does the acknowledgement end the retransmission of data in flight?\<close>

definition rto_over :: "'a tcp_stack \<Rightarrow> tcp_pcb \<Rightarrow> bool" where
  "rto_over w b \<longleftrightarrow>
     (case t_unacked b of
        [] \<Rightarrow> (case t_unsent b of [] \<Rightarrow> True | seg # _ \<Rightarrow> TCP_SEQ_LEQ (t_rto_end b) (seg_seqno w seg))
      | seg # _ \<Rightarrow> TCP_SEQ_LEQ (t_rto_end b) (seg_seqno w seg))"

definition rcv_new_ack :: "nat \<Rightarrow> 'a tcp_stack \<Rightarrow> 'a tcp_stack option" where
  "rcv_new_ack pcb w =
     do { w \<leftarrow> pcb_upd pcb (new_ack (in_ackno (ts_in w))) w;
          b \<leftarrow> ts_pcbs w pcb;
          (unacked, w) \<leftarrow> tcp_free_acked_segments pcb (t_unacked b) w;
          w \<leftarrow> pcb_upd pcb (\<lambda>b. b\<lparr>t_unacked := unacked\<rparr>) w;
          (unsent, w) \<leftarrow> tcp_free_acked_segments pcb (t_unsent b) w;
          w \<leftarrow> pcb_upd pcb (\<lambda>b. b\<lparr>t_unsent := unsent, t_rtime := (if unacked = [] then -1 else 0), t_polltmr := 0,
                 t_unsent_oversize := (if unsent = [] then 0 else t_unsent_oversize b),
                 t_snd_buf := t_snd_buf b + in_recv_acked (ts_in w)\<rparr>) w;
          pcb_upd pcb (\<lambda>b. if t_flags b AND TF_RTO \<noteq> 0 \<and> rto_over w b
                           then b\<lparr>t_flags := t_flags b AND NOT TF_RTO\<rparr> else b) w }"

text \<open>The round-trip time, after Van Jacobson.\<close>

definition rtt_update :: "u32 \<Rightarrow> u32 \<Rightarrow> tcp_pcb \<Rightarrow> tcp_pcb" where
  "rtt_update ticks ackno b =
     (if t_rttest b \<noteq> 0 \<and> TCP_SEQ_LT (t_rtseq b) ackno then
        let m = s16_of (uint (ticks - t_rttest b));
            m = s16_of (m - t_sa b div 8);
            sa = s16_of (t_sa b + m);
            m = (if m < 0 then s16_of (- m) else m);
            m = s16_of (m - t_sv b div 4);
            sv = s16_of (t_sv b + m)
        in b\<lparr>t_sa := sa, t_sv := sv, t_rto := s16_of (sa div 8 + sv), t_rttest := 0\<rparr>
      else b)"

definition rcv_ack :: "'a tcp_env \<Rightarrow> nat \<Rightarrow> 'a tcp_stack \<Rightarrow> 'a tcp_stack option" where
  "rcv_ack env pcb w =
     do { let v = ts_in w;
          b \<leftarrow> ts_pcbs w pcb;
          let right_wnd_edge = ucast (t_snd_wnd b) + t_snd_wl2 b;
          w \<leftarrow> pcb_upd pcb (update_snd_wnd (in_seqno v) (in_ackno v) (ld_u16 w (in_hdr v + 14))) w;
          b \<leftarrow> ts_pcbs w pcb;
          w \<leftarrow> (if TCP_SEQ_LEQ (in_ackno v) (t_lastack b) then rcv_dupack pcb right_wnd_edge w
                else if TCP_SEQ_BETWEEN (in_ackno v) (t_lastack b + 1) (t_snd_nxt b) then rcv_new_ack pcb w
                else map_option snd (tcp_send_empty_ack env pcb w));
          pcb_upd pcb (rtt_update (tcp_ticks w) (in_ackno v)) w }"

section \<open>Data\<close>

text \<open>
  Trimming the front of the segment: the loop over the pbufs that are skipped, then the rest.
\<close>

partial_function (option) trim_loop :: "nat \<Rightarrow> u16 \<Rightarrow> u16 \<Rightarrow> 'a tcp_stack \<Rightarrow> (nat \<times> u16 \<times> 'a tcp_stack) option" where
  "trim_loop p off new_tot_len w =
     Option.bind (stack_buf w p) (\<lambda>q.
       if p_len q < off
       then Option.bind (stack_buf_upd p (\<lambda>q. q\<lparr>p_tot_len := new_tot_len, p_len := 0\<rparr>) w) (\<lambda>w.
            Option.bind (p_next q) (\<lambda>p. trim_loop p (off - p_len q) new_tot_len w))
       else Some (p, off, w))"

definition rcv_trim :: "nat \<Rightarrow> 'a tcp_stack \<Rightarrow> 'a tcp_stack option" where
  "rcv_trim pcb w =
     do { b \<leftarrow> ts_pcbs w pcb;
          let v = ts_in w;
          if TCP_SEQ_BETWEEN (t_rcv_nxt b) (in_seqno v + 1) (in_seqno v + ucast (in_tcplen v) - 1) then do {
            p \<leftarrow> sg_p (in_seg v);
            q \<leftarrow> stack_buf w p;
            let off = ucast (t_rcv_nxt b - in_seqno v);
            (p', off', w) \<leftarrow> trim_loop p off (p_tot_len q - off) w;
            (_, w) \<leftarrow> stack_pb (pbuf_remove_header (Some p') (unat off')) w;
            let w = st_u32 (sg_tcphdr (in_seg v) + 4) (t_rcv_nxt b) w;
            Some (in_upd (\<lambda>v. v\<lparr>in_seg := (in_seg v)\<lparr>sg_len := sg_len (in_seg v) - off\<rparr>, in_seqno := t_rcv_nxt b\<rparr>) w) }
          else if TCP_SEQ_LT (in_seqno v) (t_rcv_nxt b) then tcp_ack_now pcb w
          else Some w }"

definition set_inseg :: "tcp_seg \<Rightarrow> u16 \<Rightarrow> 'a tcp_stack \<Rightarrow> 'a tcp_stack" where
  "set_inseg seg tcplen w = in_upd (\<lambda>v. v\<lparr>in_seg := seg, in_tcplen := tcplen\<rparr>) w"

text \<open>Cutting the end of the incoming segment to \<open>len\<close> sequence numbers.\<close>

definition cut_inseg :: "u16 \<Rightarrow> 'a tcp_stack \<Rightarrow> 'a tcp_stack option" where
  "cut_inseg len w =
     do { let seg = in_seg (ts_in w);
          let seg = seg\<lparr>sg_len := (if seg_has_flag w seg TCP_SYN then len - 1 else len)\<rparr>;
          w \<leftarrow> seg_realloc seg (sg_len seg) w;
          Some (set_inseg seg (seg_tcplen w seg) w) }"

definition inseq_window :: "nat \<Rightarrow> 'a tcp_stack \<Rightarrow> 'a tcp_stack option" where
  "inseq_window pcb w =
     do { b \<leftarrow> ts_pcbs w pcb;
          let seg = in_seg (ts_in w);
          let w = set_inseg seg (seg_tcplen w seg) w;
          if in_tcplen (ts_in w) > t_rcv_wnd b then cut_inseg (t_rcv_wnd b) (clear_fin seg w) else Some w }"

text \<open>The queued segments that the incoming one covers are freed; a FIN among them is kept.\<close>

fun inseq_covered :: "tcp_seg list \<Rightarrow> 'a tcp_stack \<Rightarrow> (tcp_seg list \<times> 'a tcp_stack) option" where
  "inseq_covered [] w = Some ([], w)"
| "inseq_covered (g # gs) w =
     (let v = ts_in w
      in if TCP_SEQ_GEQ (in_seqno v + ucast (in_tcplen v)) (seg_seqno w g + ucast (sg_len g))
         then let seg = in_seg v;
                  w = (if seg_has_flag w g TCP_FIN \<and> \<not> seg_has_flag w seg TCP_SYN
                       then let w = TCPH_SET_FLAG (sg_tcphdr seg) TCP_FIN w in set_inseg seg (seg_tcplen w seg) w
                       else w)
              in Option.bind (tcp_seg_free g w) (inseq_covered gs)
         else Some (g # gs, w))"

definition inseq_ooseq :: "nat \<Rightarrow> 'a tcp_stack \<Rightarrow> 'a tcp_stack option" where
  "inseq_ooseq pcb w =
     do { b \<leftarrow> ts_pcbs w pcb;
          if t_ooseq b = [] then Some w
          else if seg_has_flag w (in_seg (ts_in w)) TCP_FIN then do {
            w \<leftarrow> tcp_segs_free (t_ooseq b) w;
            pcb_upd pcb (\<lambda>b. b\<lparr>t_ooseq := []\<rparr>) w }
          else do {
            (rest, w) \<leftarrow> inseq_covered (t_ooseq b) w;
            let v = ts_in w;
            w \<leftarrow> (case rest of [] \<Rightarrow> Some w
                   | g # _ \<Rightarrow> if TCP_SEQ_GT (in_seqno v + ucast (in_tcplen v)) (seg_seqno w g)
                             then cut_inseg (ucast (seg_seqno w g - in_seqno v)) w else Some w);
            pcb_upd pcb (\<lambda>b. b\<lparr>t_ooseq := rest\<rparr>) w } }"

text \<open>The queued segments that are now in sequence go to the application, too.\<close>

definition append_recv_data :: "nat \<Rightarrow> 'a tcp_stack \<Rightarrow> 'a tcp_stack option" where
  "append_recv_data p w =
     (case in_recv_data (ts_in w) of
        Some r \<Rightarrow> map_option (\<lambda>pb. w\<lparr>ts_pb := pb\<rparr>) (pbuf_cat (Some r) (Some p) (ts_pb w))
      | None \<Rightarrow> Some (in_upd (\<lambda>v. v\<lparr>in_recv_data := Some p\<rparr>) w))"

fun ooseq_deliver :: "nat \<Rightarrow> tcp_seg list \<Rightarrow> 'a tcp_stack \<Rightarrow> 'a tcp_stack option" where
  "ooseq_deliver pcb [] w = Some w"
| "ooseq_deliver pcb (cseg # rest) w =
     do { b \<leftarrow> ts_pcbs w pcb;
          if seg_seqno w cseg \<noteq> t_rcv_nxt b then Some w
          else do {
            let w = in_upd (\<lambda>v. v\<lparr>in_seqno := seg_seqno w cseg\<rparr>) w;
            w \<leftarrow> pcb_upd pcb (\<lambda>b. b\<lparr>t_rcv_nxt := t_rcv_nxt b + TCP_TCPLEN w cseg, t_rcv_wnd := t_rcv_wnd b - seg_tcplen w cseg\<rparr>) w;
            (_, w) \<leftarrow> tcp_update_rcv_ann_wnd pcb w;
            p \<leftarrow> sg_p cseg;
            q \<leftarrow> stack_buf w p;
            let fin = seg_has_flag w cseg TCP_FIN;
            w \<leftarrow> (if p_tot_len q > 0 then append_recv_data p w else Some w);
            w \<leftarrow> (if fin
                   then pcb_upd pcb (\<lambda>b. if t_state b = ESTABLISHED then b\<lparr>t_state := CLOSE_WAIT\<rparr> else b)
                          (w\<lparr>recv_flags := recv_flags w OR TF_GOT_FIN\<rparr>)
                   else Some w);
            w \<leftarrow> pcb_upd pcb (\<lambda>b. b\<lparr>t_ooseq := rest\<rparr>) w;
            w \<leftarrow> tcp_seg_free (cseg\<lparr>sg_p := (if p_tot_len q > 0 then None else Some p)\<rparr>) w;
            ooseq_deliver pcb rest w } }"

definition tcp_ack :: "nat \<Rightarrow> 'a tcp_stack \<Rightarrow> 'a tcp_stack option" where
  "tcp_ack pcb w =
     do { b \<leftarrow> ts_pcbs w pcb;
          if t_flags b AND TF_ACK_DELAY \<noteq> 0 then do {
            w \<leftarrow> tcp_clear_flags pcb TF_ACK_DELAY w;
            tcp_ack_now pcb w }
          else tcp_set_flags pcb TF_ACK_DELAY w }"

definition rcv_inseq :: "nat \<Rightarrow> 'a tcp_stack \<Rightarrow> 'a tcp_stack option" where
  "rcv_inseq pcb w =
     do { w \<leftarrow> inseq_window pcb w;
          w \<leftarrow> inseq_ooseq pcb w;
          let v = ts_in w;
          w \<leftarrow> pcb_upd pcb (\<lambda>b. b\<lparr>t_rcv_nxt := in_seqno v + ucast (in_tcplen v), t_rcv_wnd := t_rcv_wnd b - in_tcplen v\<rparr>) w;
          (_, w) \<leftarrow> tcp_update_rcv_ann_wnd pcb w;
          p \<leftarrow> sg_p (in_seg v);
          q \<leftarrow> stack_buf w p;
          let w = (if p_tot_len q > 0
                   then in_upd (\<lambda>v. v\<lparr>in_recv_data := Some p, in_seg := (in_seg v)\<lparr>sg_p := None\<rparr>\<rparr>) w else w);
          let w = (if seg_has_flag w (in_seg v) TCP_FIN then w\<lparr>recv_flags := recv_flags w OR TF_GOT_FIN\<rparr> else w);
          b \<leftarrow> ts_pcbs w pcb;
          w \<leftarrow> ooseq_deliver pcb (t_ooseq b) w;
          tcp_ack pcb w }"

section \<open>Out-of-sequence data\<close>

fun oos_covered :: "tcp_seg \<Rightarrow> tcp_seg list \<Rightarrow> 'a tcp_stack \<Rightarrow> (tcp_seg list \<times> 'a tcp_stack) option" where
  "oos_covered cseg [] w = Some ([], w)"
| "oos_covered cseg (g # gs) w =
     (if TCP_SEQ_GEQ (in_seqno (ts_in w) + ucast (sg_len cseg)) (seg_seqno w g + ucast (sg_len g))
      then Option.bind (tcp_seg_free g (if seg_has_flag w g TCP_FIN then TCPH_SET_FLAG (sg_tcphdr cseg) TCP_FIN w else w))
             (oos_covered cseg gs)
      else Some (g # gs, w))"

definition tcp_oos_insert_segment :: "tcp_seg \<Rightarrow> tcp_seg list \<Rightarrow> 'a tcp_stack \<Rightarrow> (tcp_seg list \<times> 'a tcp_stack) option" where
  "tcp_oos_insert_segment cseg next w =
     (if seg_has_flag w cseg TCP_FIN then map_option (\<lambda>w. ([cseg], w)) (tcp_segs_free next w)
      else do {
        (rest, w) \<leftarrow> oos_covered cseg next w;
        case rest of [] \<Rightarrow> Some ([cseg], w)
        | g # _ \<Rightarrow>
            if TCP_SEQ_GT (in_seqno (ts_in w) + ucast (sg_len cseg)) (seg_seqno w g) then do {
              let cseg = cseg\<lparr>sg_len := ucast (seg_seqno w g - in_seqno (ts_in w))\<rparr>;
              w \<leftarrow> seg_realloc cseg (sg_len cseg) w;
              Some (cseg # rest, w) }
            else Some (cseg # rest, w) })"

text \<open>Cutting a queued segment that reaches beyond \<open>seqno\<close>.\<close>

definition trim_prev :: "tcp_seg \<Rightarrow> 'a tcp_stack \<Rightarrow> (tcp_seg \<times> 'a tcp_stack) option" where
  "trim_prev g w =
     (if TCP_SEQ_GT (seg_seqno w g + ucast (sg_len g)) (in_seqno (ts_in w)) then do {
        let g = g\<lparr>sg_len := ucast (in_seqno (ts_in w) - seg_seqno w g)\<rparr>;
        w \<leftarrow> seg_realloc g (sg_len g) w;
        Some (g, w) }
      else Some (g, w))"

text \<open>The new last segment must not overrun the receive window.\<close>

definition trim_last :: "nat \<Rightarrow> tcp_seg \<Rightarrow> 'a tcp_stack \<Rightarrow> (tcp_seg \<times> 'a tcp_stack) option" where
  "trim_last pcb cseg w =
     do { b \<leftarrow> ts_pcbs w pcb;
          let v = ts_in w;
          let edge = t_rcv_nxt b + ucast (t_rcv_wnd b);
          if TCP_SEQ_GT (ucast (in_tcplen v) + in_seqno v) edge then do {
            let w = clear_fin cseg w;
            let cseg = cseg\<lparr>sg_len := ucast (edge - in_seqno v)\<rparr>;
            w \<leftarrow> seg_realloc cseg (sg_len cseg) w;
            Some (cseg, in_upd (\<lambda>v. v\<lparr>in_tcplen := seg_tcplen w cseg\<rparr>) w) }
          else Some (cseg, w) }"

definition insert_copy ::
    "tcp_seg list \<Rightarrow> tcp_seg list \<Rightarrow> 'a tcp_stack \<Rightarrow> (tcp_seg list \<times> 'a tcp_stack) option" where
  "insert_copy before next w =
     do { (c, w) \<leftarrow> tcp_seg_copy (in_seg (ts_in w)) w;
          case c of None \<Rightarrow> Some (before @ next, w)
          | Some cseg \<Rightarrow> do {
              (before, w) \<leftarrow>
                (if before = [] then Some ([], w)
                 else do { (g, w) \<leftarrow> trim_prev (last before) w; Some (butlast before @ [g], w) });
              (gs, w) \<leftarrow> tcp_oos_insert_segment cseg next w;
              Some (before @ gs, w) } }"

text \<open>A segment with the same sequence number is replaced without trimming the one before it.\<close>

definition replace_copy ::
    "tcp_seg list \<Rightarrow> tcp_seg list \<Rightarrow> 'a tcp_stack \<Rightarrow> (tcp_seg list \<times> 'a tcp_stack) option" where
  "replace_copy before next w =
     do { (c, w) \<leftarrow> tcp_seg_copy (in_seg (ts_in w)) w;
          case c of None \<Rightarrow> Some (before @ next, w)
          | Some cseg \<Rightarrow> do {
              (gs, w) \<leftarrow> tcp_oos_insert_segment cseg next w;
              Some (before @ gs, w) } }"

definition append_copy ::
    "nat \<Rightarrow> tcp_seg list \<Rightarrow> tcp_seg \<Rightarrow> 'a tcp_stack \<Rightarrow> (tcp_seg list \<times> 'a tcp_stack) option" where
  "append_copy pcb before g w =
     (if seg_has_flag w g TCP_FIN then Some (before @ [g], w)
      else do {
        (c, w) \<leftarrow> tcp_seg_copy (in_seg (ts_in w)) w;
        case c of None \<Rightarrow> Some (before @ [g], w)
        | Some cseg \<Rightarrow> do {
            (g, w) \<leftarrow> trim_prev g w;
            (cseg, w) \<leftarrow> trim_last pcb cseg w;
            Some (before @ [g, cseg], w) } })"

text \<open>The walk through the queue: \<open>before\<close> are the segments passed, the last of them is \<open>prev\<close>.\<close>

fun ooseq_place ::
    "nat \<Rightarrow> tcp_seg list \<Rightarrow> tcp_seg list \<Rightarrow> 'a tcp_stack \<Rightarrow> (tcp_seg list \<times> 'a tcp_stack) option" where
  "ooseq_place pcb before [] w = Some (before, w)"
| "ooseq_place pcb before (g # rest) w =
     (let seqno = in_seqno (ts_in w)
      in if seqno = seg_seqno w g then
           if sg_len (in_seg (ts_in w)) > sg_len g then replace_copy before (g # rest) w
           else Some (before @ g # rest, w)
         else if before = [] \<and> TCP_SEQ_LT seqno (seg_seqno w g) then insert_copy [] (g # rest) w
         else if before \<noteq> [] \<and> TCP_SEQ_BETWEEN seqno (seg_seqno w (last before) + 1) (seg_seqno w g - 1)
         then insert_copy before (g # rest) w
         else if rest = [] \<and> TCP_SEQ_GT seqno (seg_seqno w g) then append_copy pcb before g w
         else ooseq_place pcb (before @ [g]) rest w)"

definition rcv_ooseq :: "'a tcp_env \<Rightarrow> nat \<Rightarrow> 'a tcp_stack \<Rightarrow> 'a tcp_stack option" where
  "rcv_ooseq env pcb w =
     do { b \<leftarrow> ts_pcbs w pcb;
          (ooseq, w) \<leftarrow>
            (if t_ooseq b = []
             then map_option (\<lambda>(c, w). (case c of None \<Rightarrow> [] | Some c \<Rightarrow> [c], w)) (tcp_seg_copy (in_seg (ts_in w)) w)
             else ooseq_place pcb [] (t_ooseq b) w);
          w \<leftarrow> pcb_upd pcb (\<lambda>b. b\<lparr>t_ooseq := ooseq\<rparr>) w;
          map_option snd (tcp_send_empty_ack env pcb w) }"

definition tcp_receive :: "'a tcp_env \<Rightarrow> nat \<Rightarrow> 'a tcp_stack \<Rightarrow> 'a tcp_stack option" where
  "tcp_receive env pcb w =
     do { w \<leftarrow> (if in_flags (ts_in w) AND TCP_ACK \<noteq> 0 then rcv_ack env pcb w else Some w);
          b \<leftarrow> ts_pcbs w pcb;
          if in_tcplen (ts_in w) > 0 \<and> tcp_state_num (t_state b) < 7 then do {
            w \<leftarrow> rcv_trim pcb w;
            let seqno = in_seqno (ts_in w);
            if TCP_SEQ_BETWEEN seqno (t_rcv_nxt b) (t_rcv_nxt b + ucast (t_rcv_wnd b) - 1) then
              if t_rcv_nxt b = seqno then rcv_inseq pcb w else rcv_ooseq env pcb w
            else map_option snd (tcp_send_empty_ack env pcb w) }
          else if \<not> TCP_SEQ_BETWEEN (in_seqno (ts_in w)) (t_rcv_nxt b) (t_rcv_nxt b + ucast (t_rcv_wnd b) - 1)
          then tcp_ack_now pcb w
          else Some w }"

end
