(* ===== verification/Tcp_Input.thy ===== *)
theory Tcp_Input
  imports Tcp_In
begin

text \<open>
  \<open>tcp_input\<close> (\<open>Tunnel/lwip/core/tcp_in.c\<close>): the header of a segment, the PCB it belongs to, the
  state machine, and the callbacks after a segment has been processed.
\<close>

section \<open>Events\<close>

definition TCP_EVENT_SENT :: "'a tcp_env \<Rightarrow> nat \<Rightarrow> u16 \<Rightarrow> 'a tcp_stack \<Rightarrow> (err_t \<times> 'a tcp_stack) option" where
  "TCP_EVENT_SENT env pcb space w =
     do { b \<leftarrow> ts_pcbs w pcb;
          case t_sent b of None \<Rightarrow> Some (ERR_OK, w)
          | Some tcp_sent_cb_fn \<Rightarrow> env_sent_cb env (t_callback_arg b) pcb space w }"

definition tcp_accept_null :: "'a tcp_env \<Rightarrow> nat option \<Rightarrow> 'a tcp_stack \<Rightarrow> (err_t \<times> 'a tcp_stack) option" where
  "tcp_accept_null env pcb w = map_option (\<lambda>w. (ERR_ABRT, w)) (tcp_abort env pcb w)"

definition TCP_EVENT_ACCEPT ::
    "'a tcp_env \<Rightarrow> nat \<Rightarrow> nat option \<Rightarrow> nat \<Rightarrow> err_t \<Rightarrow> 'a tcp_stack \<Rightarrow> (err_t \<times> 'a tcp_stack) option" where
  "TCP_EVENT_ACCEPT env lpcb pcb arg err w =
     do { l \<leftarrow> ts_lpcbs w lpcb;
          case l_accept l of None \<Rightarrow> Some (ERR_ARG, w)
          | Some tcp_accept_null_fn \<Rightarrow> tcp_accept_null env pcb w
          | Some tcp_accept_cb_fn \<Rightarrow> env_accept_cb env arg pcb err w }"

section \<open>Listening and TIME-WAIT\<close>

definition SOF_INHERITED :: u8 where "SOF_INHERITED = 0x04 OR 0x08"

definition src_port :: "'a tcp_stack \<Rightarrow> u16" where
  "src_port w = ld_u16 w (in_hdr (ts_in w))"

definition dest_port :: "'a tcp_stack \<Rightarrow> u16" where
  "dest_port w = ld_u16 w (in_hdr (ts_in w) + 2)"

definition seg_end :: "'a tcp_stack \<Rightarrow> u32" where
  "seg_end w = in_seqno (ts_in w) + ucast (in_tcplen (ts_in w))"

definition tcp_eff_send_mss :: "'a tcp_stack \<Rightarrow> u16 \<Rightarrow> u32 \<Rightarrow> u16 option" where
  "tcp_eff_send_mss w sendmss dest =
     do { r \<leftarrow> ip4_route w dest;
          case r of None \<Rightarrow> Some (tcp_eff_send_mss_netif sendmss None)
          | Some nif \<Rightarrow> do { n \<leftarrow> ts_netifs w nif; Some (tcp_eff_send_mss_netif sendmss (Some (nif_mtu n))) } }"

text \<open>The new PCB for a SYN.\<close>

definition listen_pcb :: "tcp_pcb_listen \<Rightarrow> nat \<Rightarrow> u32 \<Rightarrow> 'a tcp_stack \<Rightarrow> tcp_pcb \<Rightarrow> tcp_pcb" where
  "listen_pcb l lpcb iss w b =
     b\<lparr>t_local_ip := current_iphdr_dest (ip_data w), t_remote_ip := current_iphdr_src (ip_data w),
       t_local_port := l_local_port l, t_remote_port := src_port w, t_state := SYN_RCVD,
       t_rcv_nxt := in_seqno (ts_in w) + 1, t_rcv_ann_right_edge := in_seqno (ts_in w) + 1,
       t_snd_wl2 := iss, t_snd_nxt := iss, t_lastack := iss, t_snd_lbb := iss, t_snd_wl1 := in_seqno (ts_in w) - 1,
       t_callback_arg := l_callback_arg l, t_listener := Some lpcb,
       t_so_options := l_so_options l AND SOF_INHERITED, t_netif_idx := l_netif_idx l\<rparr>"

definition listen_syn :: "'a tcp_env \<Rightarrow> nat \<Rightarrow> tcp_pcb_listen \<Rightarrow> 'a tcp_stack \<Rightarrow> 'a tcp_stack option" where
  "listen_syn env lpcb l w =
     do { (r, w) \<leftarrow> tcp_alloc env (l_prio l) w;
          case r of
            None \<Rightarrow> map_option snd (TCP_EVENT_ACCEPT env lpcb None (l_callback_arg l) ERR_MEM w)
          | Some npcb \<Rightarrow> do {
              let (iss, w) = tcp_next_iss w;
              w \<leftarrow> pcb_upd npcb (listen_pcb l lpcb iss w) w;
              let w = TCP_REG_ACTIVE npcb w;
              w \<leftarrow> tcp_parseopt npcb w;
              let wnd = ld_u16 w (in_hdr (ts_in w) + 14);
              b \<leftarrow> ts_pcbs w npcb;
              mss \<leftarrow> tcp_eff_send_mss w (t_mss b) (t_remote_ip b);
              w \<leftarrow> pcb_upd npcb (\<lambda>b. b\<lparr>t_snd_wnd := wnd, t_snd_wnd_max := wnd, t_mss := mss\<rparr>) w;
              (rc, w) \<leftarrow> tcp_enqueue_flags npcb (TCP_SYN OR TCP_ACK) w;
              if rc \<noteq> ERR_OK then tcp_abandon env (Some npcb) False w
              else map_option snd (tcp_output env npcb w) } }"

definition tcp_listen_input :: "'a tcp_env \<Rightarrow> nat \<Rightarrow> 'a tcp_stack \<Rightarrow> 'a tcp_stack option" where
  "tcp_listen_input env lpcb w =
     do { l \<leftarrow> ts_lpcbs w lpcb;
          let v = ts_in w;
          if in_flags v AND TCP_RST \<noteq> 0 then Some w
          else if in_flags v AND TCP_ACK \<noteq> 0 then
            tcp_rst_netif env (current_input_netif (ip_data w)) (in_ackno v) (seg_end w)
              (current_iphdr_dest (ip_data w)) (current_iphdr_src (ip_data w)) (dest_port w) (src_port w) w
          else if in_flags v AND TCP_SYN \<noteq> 0 then listen_syn env lpcb l w
          else Some w }"

definition rst_segment :: "'a tcp_env \<Rightarrow> nat \<Rightarrow> 'a tcp_stack \<Rightarrow> 'a tcp_stack option" where
  "rst_segment env pcb w =
     tcp_rst env (Some pcb) (in_ackno (ts_in w)) (seg_end w)
       (current_iphdr_dest (ip_data w)) (current_iphdr_src (ip_data w)) (dest_port w) (src_port w) w"

definition tcp_timewait_input :: "'a tcp_env \<Rightarrow> nat \<Rightarrow> 'a tcp_stack \<Rightarrow> 'a tcp_stack option" where
  "tcp_timewait_input env pcb w =
     do { b \<leftarrow> ts_pcbs w pcb;
          let v = ts_in w;
          if in_flags v AND TCP_RST \<noteq> 0 then Some w
          else if in_flags v AND TCP_SYN \<noteq> 0
                  \<and> TCP_SEQ_BETWEEN (in_seqno v) (t_rcv_nxt b) (t_rcv_nxt b + ucast (t_rcv_wnd b))
          then rst_segment env pcb w
          else do {
            w \<leftarrow> (if in_flags v AND TCP_SYN = 0 \<and> in_flags v AND TCP_FIN \<noteq> 0
                   then pcb_upd pcb (\<lambda>b. b\<lparr>t_tmr := tcp_ticks w\<rparr>) w else Some w);
            if in_tcplen v > 0 then do {
              w \<leftarrow> tcp_ack_now pcb w;
              map_option snd (tcp_output env pcb w) }
            else Some w } }"

section \<open>The state machine\<close>

definition process_rst :: "nat \<Rightarrow> 'a tcp_stack \<Rightarrow> (err_t \<times> 'a tcp_stack) option" where
  "process_rst pcb w =
     do { b \<leftarrow> ts_pcbs w pcb;
          let v = ts_in w;
          if (if t_state b = SYN_SENT then in_ackno v = t_snd_nxt b else in_seqno v = t_rcv_nxt b) then do {
            w \<leftarrow> tcp_clear_flags pcb TF_ACK_DELAY (w\<lparr>recv_flags := recv_flags w OR TF_RESET\<rparr>);
            Some (ERR_RST, w) }
          else if t_state b \<noteq> SYN_SENT \<and> TCP_SEQ_BETWEEN (in_seqno v) (t_rcv_nxt b) (t_rcv_nxt b + ucast (t_rcv_wnd b))
          then map_option (\<lambda>w. (ERR_OK, w)) (tcp_ack_now pcb w)
          else Some (ERR_OK, w) }"

text \<open>In SYN-SENT: the acknowledged SYN is taken off its queue.\<close>

definition syn_sent_ack :: "nat \<Rightarrow> 'a tcp_stack \<Rightarrow> 'a tcp_stack option" where
  "syn_sent_ack pcb w =
     do { b \<leftarrow> ts_pcbs w pcb;
          let v = ts_in w;
          let wnd = ld_u16 w (in_hdr v + 14);
          mss \<leftarrow> tcp_eff_send_mss w (t_mss b) (t_remote_ip b);
          w \<leftarrow> pcb_upd pcb (\<lambda>b. b\<lparr>t_rcv_nxt := in_seqno v + 1, t_rcv_ann_right_edge := in_seqno v + 1, t_lastack := in_ackno v,
                 t_snd_wnd := wnd, t_snd_wnd_max := wnd, t_snd_wl1 := in_seqno v - 1, t_state := ESTABLISHED,
                 t_mss := mss, t_cwnd := LWIP_TCP_CALC_INITIAL_CWND mss, t_snd_queuelen := t_snd_queuelen b - 1\<rparr>) w;
          (rseg, w) \<leftarrow>
            (case t_unacked b of
               [] \<Rightarrow> (case t_unsent b of [] \<Rightarrow> None
                      | g # gs \<Rightarrow> map_option (Pair g) (pcb_upd pcb (\<lambda>b. b\<lparr>t_unsent := gs\<rparr>) w))
             | g # gs \<Rightarrow> map_option (Pair g) (pcb_upd pcb (\<lambda>b. b\<lparr>t_unacked := gs\<rparr>) w));
          w \<leftarrow> tcp_seg_free rseg w;
          w \<leftarrow> pcb_upd pcb (\<lambda>b. if t_unacked b = [] then b\<lparr>t_rtime := -1\<rparr> else b\<lparr>t_rtime := 0, t_nrtx := 0\<rparr>) w;
          tcp_ack_now pcb w }"

definition process_syn_sent :: "'a tcp_env \<Rightarrow> nat \<Rightarrow> 'a tcp_stack \<Rightarrow> 'a tcp_stack option" where
  "process_syn_sent env pcb w =
     do { b \<leftarrow> ts_pcbs w pcb;
          let v = ts_in w;
          if in_flags v AND TCP_ACK \<noteq> 0 \<and> in_flags v AND TCP_SYN \<noteq> 0 \<and> in_ackno v = t_lastack b + 1 then syn_sent_ack pcb w
          else if in_flags v AND TCP_ACK \<noteq> 0 then do {
            w \<leftarrow> rst_segment env pcb w;
            b \<leftarrow> ts_pcbs w pcb;
            if t_nrtx b < TCP_SYNMAXRTX then do {
              w \<leftarrow> pcb_upd pcb (\<lambda>b. b\<lparr>t_rtime := 0\<rparr>) w;
              tcp_rexmit_rto env pcb w }
            else Some w }
          else Some w }"

text \<open>The passive close after \<open>tcp_receive\<close>.\<close>

definition got_fin :: "nat \<Rightarrow> 'a tcp_stack \<Rightarrow> 'a tcp_stack option" where
  "got_fin pcb w =
     (if recv_flags w AND TF_GOT_FIN \<noteq> 0 then do {
        w \<leftarrow> tcp_ack_now pcb w;
        pcb_upd pcb (\<lambda>b. b\<lparr>t_state := CLOSE_WAIT\<rparr>) w }
      else Some w)"

definition process_syn_rcvd :: "'a tcp_env \<Rightarrow> nat \<Rightarrow> 'a tcp_stack \<Rightarrow> (err_t \<times> 'a tcp_stack) option" where
  "process_syn_rcvd env pcb w =
     do { b \<leftarrow> ts_pcbs w pcb;
          let v = ts_in w;
          if in_flags v AND TCP_SYN \<noteq> 0 then
            if in_seqno v = t_rcv_nxt b - 1 then do { (_, w) \<leftarrow> tcp_rexmit pcb w; Some (ERR_OK, w) }
            else Some (ERR_OK, w)
          else if in_flags v AND TCP_ACK \<noteq> 0 then
            if TCP_SEQ_BETWEEN (in_ackno v) (t_lastack b + 1) (t_snd_nxt b) then do {
              w \<leftarrow> pcb_upd pcb (\<lambda>b. b\<lparr>t_state := ESTABLISHED\<rparr>) w;
              (err, w) \<leftarrow> (case t_listener b of None \<Rightarrow> Some (ERR_VAL, w)
                           | Some l \<Rightarrow> TCP_EVENT_ACCEPT env l (Some pcb) (t_callback_arg b) ERR_OK w);
              if err \<noteq> ERR_OK then do {
                w \<leftarrow> (if err \<noteq> ERR_ABRT then tcp_abort env (Some pcb) w else Some w);
                Some (ERR_ABRT, w) }
              else do {
                w \<leftarrow> tcp_receive env pcb w;
                let w = in_upd (\<lambda>v. v\<lparr>in_recv_acked := (if in_recv_acked v \<noteq> 0 then in_recv_acked v - 1 else 0)\<rparr>) w;
                w \<leftarrow> pcb_upd pcb (\<lambda>b. b\<lparr>t_cwnd := LWIP_TCP_CALC_INITIAL_CWND (t_mss b)\<rparr>) w;
                map_option (Pair ERR_OK) (got_fin pcb w) } }
            else map_option (Pair ERR_OK) (rst_segment env pcb w)
          else Some (ERR_OK, w) }"

text \<open>Everything sent has been acknowledged by this segment.\<close>

definition all_acked :: "nat \<Rightarrow> 'a tcp_stack \<Rightarrow> bool option" where
  "all_acked pcb w =
     map_option (\<lambda>b. in_flags (ts_in w) AND TCP_ACK \<noteq> 0 \<and> in_ackno (ts_in w) = t_snd_nxt b \<and> t_unsent b = []) (ts_pcbs w pcb)"

definition to_time_wait :: "nat \<Rightarrow> 'a tcp_stack \<Rightarrow> 'a tcp_stack option" where
  "to_time_wait pcb w =
     do { w \<leftarrow> tcp_pcb_purge pcb w;
          w \<leftarrow> pcb_upd pcb (\<lambda>b. b\<lparr>t_state := TIME_WAIT\<rparr>) (TCP_RMV_ACTIVE pcb w);
          Some (TCP_REG L_tw pcb w) }"

definition process_fin_wait_1 :: "'a tcp_env \<Rightarrow> nat \<Rightarrow> 'a tcp_stack \<Rightarrow> 'a tcp_stack option" where
  "process_fin_wait_1 env pcb w =
     do { w \<leftarrow> tcp_receive env pcb w;
          acked \<leftarrow> all_acked pcb w;
          if recv_flags w AND TF_GOT_FIN \<noteq> 0 then do {
            w \<leftarrow> tcp_ack_now pcb w;
            if acked then to_time_wait pcb w else pcb_upd pcb (\<lambda>b. b\<lparr>t_state := CLOSING\<rparr>) w }
          else if acked then pcb_upd pcb (\<lambda>b. b\<lparr>t_state := FIN_WAIT_2\<rparr>) w
          else Some w }"

definition process_state :: "'a tcp_env \<Rightarrow> nat \<Rightarrow> tcp_state \<Rightarrow> 'a tcp_stack \<Rightarrow> (err_t \<times> 'a tcp_stack) option" where
  "process_state env pcb st w =
     (case st of
        SYN_SENT \<Rightarrow> map_option (Pair ERR_OK) (process_syn_sent env pcb w)
      | SYN_RCVD \<Rightarrow> process_syn_rcvd env pcb w
      | CLOSE_WAIT \<Rightarrow> do { w \<leftarrow> tcp_receive env pcb w; map_option (Pair ERR_OK) (got_fin pcb w) }
      | ESTABLISHED \<Rightarrow> do { w \<leftarrow> tcp_receive env pcb w; map_option (Pair ERR_OK) (got_fin pcb w) }
      | FIN_WAIT_1 \<Rightarrow> map_option (Pair ERR_OK) (process_fin_wait_1 env pcb w)
      | FIN_WAIT_2 \<Rightarrow> do {
          w \<leftarrow> tcp_receive env pcb w;
          if recv_flags w AND TF_GOT_FIN \<noteq> 0 then do {
            w \<leftarrow> tcp_ack_now pcb w;
            map_option (Pair ERR_OK) (to_time_wait pcb w) }
          else Some (ERR_OK, w) }
      | CLOSING \<Rightarrow> do {
          w \<leftarrow> tcp_receive env pcb w;
          acked \<leftarrow> all_acked pcb w;
          if acked then map_option (Pair ERR_OK) (to_time_wait pcb w) else Some (ERR_OK, w) }
      | LAST_ACK \<Rightarrow> do {
          w \<leftarrow> tcp_receive env pcb w;
          acked \<leftarrow> all_acked pcb w;
          Some (ERR_OK, if acked then w\<lparr>recv_flags := recv_flags w OR TF_CLOSED\<rparr> else w) }
      | _ \<Rightarrow> Some (ERR_OK, w))"

definition tcp_process :: "'a tcp_env \<Rightarrow> nat \<Rightarrow> 'a tcp_stack \<Rightarrow> (err_t \<times> 'a tcp_stack) option" where
  "tcp_process env pcb w =
     (if in_flags (ts_in w) AND TCP_RST \<noteq> 0 then process_rst pcb w
      else do {
        b \<leftarrow> ts_pcbs w pcb;
        if in_flags (ts_in w) AND TCP_SYN \<noteq> 0 \<and> t_state b \<noteq> SYN_SENT \<and> t_state b \<noteq> SYN_RCVD
        then map_option (Pair ERR_OK) (tcp_ack_now pcb w)
        else do {
          w \<leftarrow> pcb_upd pcb (\<lambda>b. b\<lparr>t_tmr := (if t_flags b AND TF_RXCLOSED = 0 then tcp_ticks w else t_tmr b),
                 t_keep_cnt_sent := 0, t_persist_probe := 0\<rparr>) w;
          w \<leftarrow> tcp_parseopt pcb w;
          process_state env pcb (t_state b) w } })"

section \<open>After the segment has been processed\<close>

text \<open>In the results below \<open>True\<close> is the jump to \<open>aborted\<close>.\<close>

definition tcp_input_delayed_close :: "'a tcp_env \<Rightarrow> nat \<Rightarrow> 'a tcp_stack \<Rightarrow> (bool \<times> 'a tcp_stack) option" where
  "tcp_input_delayed_close env pcb w =
     (if recv_flags w AND TF_CLOSED \<noteq> 0 then do {
        b \<leftarrow> ts_pcbs w pcb;
        w \<leftarrow> (if t_flags b AND TF_RXCLOSED = 0 then TCP_EVENT_ERR env (t_errf b) (t_callback_arg b) ERR_CLSD w else Some w);
        w \<leftarrow> tcp_pcb_remove env L_active pcb w;
        Some (True, tcp_free pcb w) }
      else Some (False, w))"

definition input_sent :: "'a tcp_env \<Rightarrow> nat \<Rightarrow> 'a tcp_stack \<Rightarrow> (bool \<times> 'a tcp_stack) option" where
  "input_sent env pcb w =
     (if in_recv_acked (ts_in w) > 0 then do {
        (err, w) \<leftarrow> TCP_EVENT_SENT env pcb (in_recv_acked (ts_in w)) w;
        if err = ERR_ABRT then Some (True, w) else Some (False, in_upd (\<lambda>v. v\<lparr>in_recv_acked := 0\<rparr>) w) }
      else Some (False, w))"

definition input_data :: "'a tcp_env \<Rightarrow> nat \<Rightarrow> 'a tcp_stack \<Rightarrow> (bool \<times> 'a tcp_stack) option" where
  "input_data env pcb w =
     (case in_recv_data (ts_in w) of None \<Rightarrow> Some (False, w)
      | Some d \<Rightarrow> do {
          b \<leftarrow> ts_pcbs w pcb;
          if t_flags b AND TF_RXCLOSED \<noteq> 0 then do {
            (_, w) \<leftarrow> stack_pb (pbuf_free (Some d)) w;
            w \<leftarrow> tcp_abort env (Some pcb) w;
            Some (True, w) }
          else do {
            (err, w) \<leftarrow> TCP_EVENT_RECV env pcb (Some d) ERR_OK w;
            if err = ERR_ABRT then Some (True, w)
            else if err \<noteq> ERR_OK then do {
              w \<leftarrow> pcb_upd pcb (\<lambda>b. b\<lparr>t_refused_data := Some d\<rparr>) w;
              Some (False, w) }
            else Some (False, w) } })"

definition input_fin :: "'a tcp_env \<Rightarrow> nat \<Rightarrow> 'a tcp_stack \<Rightarrow> (bool \<times> 'a tcp_stack) option" where
  "input_fin env pcb w =
     (if recv_flags w AND TF_GOT_FIN \<noteq> 0 then do {
        b \<leftarrow> ts_pcbs w pcb;
        case t_refused_data b of
          Some d \<Rightarrow> do {
            w \<leftarrow> stack_buf_upd d (\<lambda>q. q\<lparr>p_flags := p_flags q OR PBUF_FLAG_TCP_FIN\<rparr>) w;
            Some (False, w) }
        | None \<Rightarrow> do {
            w \<leftarrow> pcb_upd pcb (\<lambda>b. if t_rcv_wnd b \<noteq> TCP_WND then b\<lparr>t_rcv_wnd := t_rcv_wnd b + 1\<rparr> else b) w;
            (err, w) \<leftarrow> TCP_EVENT_CLOSED env pcb w;
            Some (err = ERR_ABRT, w) } }
      else Some (False, w))"

definition unless_aborted ::
    "('a tcp_stack \<Rightarrow> (bool \<times> 'a tcp_stack) option) \<Rightarrow> bool \<times> 'a tcp_stack \<Rightarrow> (bool \<times> 'a tcp_stack) option" where
  "unless_aborted f r = (if fst r then Some r else f (snd r))"

definition input_events :: "'a tcp_env \<Rightarrow> nat \<Rightarrow> 'a tcp_stack \<Rightarrow> 'a tcp_stack option" where
  "input_events env pcb w =
     do { r \<leftarrow> input_sent env pcb w;
          r \<leftarrow> unless_aborted (tcp_input_delayed_close env pcb) r;
          r \<leftarrow> unless_aborted (input_data env pcb) r;
          r \<leftarrow> unless_aborted (input_fin env pcb) r;
          r \<leftarrow> unless_aborted (\<lambda>w. tcp_input_delayed_close env pcb (w\<lparr>tcp_input_pcb := None\<rparr>)) r;
          if fst r then Some (snd r) else map_option snd (tcp_output env pcb (snd r)) }"

text \<open>The label \<open>aborted\<close>.\<close>

definition input_done :: "'a tcp_stack \<Rightarrow> 'a tcp_stack option" where
  "input_done w =
     do { let w = in_upd (\<lambda>v. v\<lparr>in_recv_data := None\<rparr>) (w\<lparr>tcp_input_pcb := None\<rparr>);
          case sg_p (in_seg (ts_in w)) of
            None \<Rightarrow> Some w
          | Some p \<Rightarrow> do {
              (_, w) \<leftarrow> stack_pb (pbuf_free (Some p)) w;
              Some (in_upd (\<lambda>v. v\<lparr>in_seg := (in_seg v)\<lparr>sg_p := None\<rparr>\<rparr>) w) } }"

text \<open>Data the application refused before; \<open>True\<close> is the jump to \<open>aborted\<close>.\<close>

definition input_refused :: "'a tcp_env \<Rightarrow> nat \<Rightarrow> 'a tcp_stack \<Rightarrow> (bool \<times> 'a tcp_stack) option" where
  "input_refused env pcb w =
     do { b \<leftarrow> ts_pcbs w pcb;
          if t_refused_data b = None then Some (False, w)
          else do {
            (err, w) \<leftarrow> tcp_process_refused_data env pcb w;
            b \<leftarrow> ts_pcbs w pcb;
            if err = ERR_ABRT \<or> t_refused_data b \<noteq> None \<and> in_tcplen (ts_in w) > 0 then do {
              w \<leftarrow> (if t_rcv_ann_wnd b = 0 then map_option snd (tcp_send_empty_ack env pcb w) else Some w);
              Some (True, w) }
            else Some (False, w) } }"

definition input_pcb :: "'a tcp_env \<Rightarrow> nat \<Rightarrow> nat \<Rightarrow> 'a tcp_stack \<Rightarrow> 'a tcp_stack option" where
  "input_pcb env pcb p w =
     do { q \<leftarrow> stack_buf w p;
          let w = (in_upd (\<lambda>v. v\<lparr>in_seg := (in_seg v)\<lparr>sg_len := p_tot_len q, sg_p := Some p, sg_tcphdr := in_hdr v\<rparr>,
                     in_recv_data := None, in_recv_acked := 0\<rparr>) w)\<lparr>recv_flags := 0\<rparr>;
          w \<leftarrow> (if in_flags (ts_in w) AND TCP_PSH \<noteq> 0
                 then stack_buf_upd p (\<lambda>q. q\<lparr>p_flags := p_flags q OR PBUF_FLAG_PUSH\<rparr>) w else Some w);
          (abort, w) \<leftarrow> input_refused env pcb w;
          if abort then input_done w
          else do {
            (err, w) \<leftarrow> tcp_process env pcb (w\<lparr>tcp_input_pcb := Some pcb\<rparr>);
            w \<leftarrow> (if err = ERR_ABRT then Some w
                   else if recv_flags w AND TF_RESET \<noteq> 0 then do {
                     b \<leftarrow> ts_pcbs w pcb;
                     w \<leftarrow> TCP_EVENT_ERR env (t_errf b) (t_callback_arg b) ERR_RST w;
                     w \<leftarrow> tcp_pcb_remove env L_active pcb w;
                     Some (tcp_free pcb w) }
                   else input_events env pcb w);
            input_done w } }"

section \<open>Receiving a segment\<close>

text \<open>The header; \<open>None\<close> in the result is the jump to \<open>dropped\<close>.\<close>

definition TCPH_HDRLEN_BYTES :: "'a tcp_stack \<Rightarrow> nat \<Rightarrow> u8" where
  "TCPH_HDRLEN_BYTES w phdr = push_bit 2 (ucast (drop_bit 12 (ld_u16 w (phdr + 12))))"

definition header_split :: "nat \<Rightarrow> u16 \<Rightarrow> 'a tcp_stack \<Rightarrow> (bool \<times> 'a tcp_stack) option" where
  "header_split p optlen w =
     do { (_, w) \<leftarrow> stack_pb (pbuf_remove_header (Some p) TCP_HLEN) w;
          b \<leftarrow> stack_buf w p;
          let opt1len = p_len b;
          let opt2len = optlen - opt1len;
          (_, w) \<leftarrow> stack_pb (pbuf_remove_header (Some p) (unat opt1len)) w;
          q \<leftarrow> p_next b;
          bq \<leftarrow> stack_buf w q;
          let w = in_upd (\<lambda>v. v\<lparr>in_opt1len := opt1len\<rparr>) w;
          if opt2len > p_len bq then Some (False, w)
          else do {
            (_, w) \<leftarrow> stack_pb (pbuf_remove_header (Some q) (unat opt2len)) w;
            w \<leftarrow> stack_buf_upd p (\<lambda>b. b\<lparr>p_tot_len := p_tot_len b - opt2len\<rparr>) w;
            Some (True, in_upd (\<lambda>v. v\<lparr>in_opt2 := Some (p_payload bq)\<rparr>) w) } }"

definition input_header :: "nat \<Rightarrow> 'a tcp_stack \<Rightarrow> (bool \<times> 'a tcp_stack) option" where
  "input_header p w =
     do { b \<leftarrow> stack_buf w p;
          nif \<leftarrow> current_netif (ip_data w);
          n \<leftarrow> ts_netifs w nif;
          let h = p_payload b;
          let w = in_upd (\<lambda>v. v\<lparr>in_hdr := h\<rparr>) w;
          let dest = current_iphdr_dest (ip_data w);
          let hdrlen = (ucast (TCPH_HDRLEN_BYTES w h) :: u16);
          if unat (p_len b) < TCP_HLEN then Some (False, w)
          else if ip4_addr_isbroadcast dest n \<or> ip4_addr_ismulticast dest then Some (False, w)
          else if unat hdrlen < TCP_HLEN \<or> hdrlen > p_tot_len b then Some (False, w)
          else do {
            let optlen = hdrlen - of_nat TCP_HLEN;
            let w = in_upd (\<lambda>v. v\<lparr>in_optlen := optlen, in_opt2 := None\<rparr>) w;
            (ok, w) \<leftarrow>
              (if p_len b \<ge> hdrlen then do {
                 (_, w) \<leftarrow> stack_pb (pbuf_remove_header (Some p) (unat hdrlen)) w;
                 Some (True, in_upd (\<lambda>v. v\<lparr>in_opt1len := optlen\<rparr>) w) }
               else header_split p optlen w);
            if \<not> ok then Some (False, w)
            else do {
              b \<leftarrow> stack_buf w p;
              let flags = TCPH_FLAGS w h;
              let tcplen = (if flags AND (TCP_FIN OR TCP_SYN) \<noteq> 0 then p_tot_len b + 1 else p_tot_len b);
              Some (tcplen \<ge> p_tot_len b,
                in_upd (\<lambda>v. v\<lparr>in_seqno := ld_u32 w (h + 4), in_ackno := ld_u32 w (h + 8), in_flags := flags, in_tcplen := tcplen\<rparr>) w) } } }"

text \<open>The PCB of the segment.\<close>

definition bound_elsewhere :: "'a tcp_stack \<Rightarrow> u8 \<Rightarrow> bool option" where
  "bound_elsewhere w netif_idx =
     (if netif_idx = 0 then Some False
      else do { nif \<leftarrow> current_input_netif (ip_data w); n \<leftarrow> ts_netifs w nif; Some (netif_idx \<noteq> nif_num n + 1) })"

fun find_pcb :: "'a tcp_stack \<Rightarrow> nat list \<Rightarrow> nat option option" where
  "find_pcb w [] = Some None"
| "find_pcb w (a # as) =
     do { b \<leftarrow> ts_pcbs w a;
          elsewhere \<leftarrow> bound_elsewhere w (t_netif_idx b);
          if \<not> elsewhere \<and> t_remote_port b = src_port w \<and> t_local_port b = dest_port w
             \<and> t_remote_ip b = current_iphdr_src (ip_data w) \<and> t_local_ip b = current_iphdr_dest (ip_data w)
          then Some (Some a) else find_pcb w as }"

fun find_listener :: "'a tcp_stack \<Rightarrow> nat list \<Rightarrow> nat option option" where
  "find_listener w [] = Some None"
| "find_listener w (a # as) =
     do { l \<leftarrow> ts_lpcbs w a;
          elsewhere \<leftarrow> bound_elsewhere w (l_netif_idx l);
          if \<not> elsewhere \<and> l_local_port l = dest_port w
             \<and> (l_local_ip l = current_iphdr_dest (ip_data w) \<or> l_local_ip l = 0)
          then Some (Some a) else find_listener w as }"

definition to_front :: "nat \<Rightarrow> nat list \<Rightarrow> nat list" where
  "to_front a as = a # remove1 a as"

definition input_demux :: "'a tcp_env \<Rightarrow> nat \<Rightarrow> 'a tcp_stack \<Rightarrow> 'a tcp_stack option" where
  "input_demux env p w =
     do { r \<leftarrow> find_pcb w (tcp_active_pcbs w);
          case r of Some pcb \<Rightarrow> input_pcb env pcb p (w\<lparr>tcp_active_pcbs := to_front pcb (tcp_active_pcbs w)\<rparr>)
          | None \<Rightarrow> do {
              r \<leftarrow> find_pcb w (tcp_tw_pcbs w);
              w \<leftarrow> (case r of Some pcb \<Rightarrow> tcp_timewait_input env pcb w
                     | None \<Rightarrow> do {
                         r \<leftarrow> find_listener w (tcp_listen_pcbs w);
                         case r of
                           Some l \<Rightarrow> tcp_listen_input env l (w\<lparr>tcp_listen_pcbs := to_front l (tcp_listen_pcbs w)\<rparr>)
                         | None \<Rightarrow>
                             if TCPH_FLAGS w (in_hdr (ts_in w)) AND TCP_RST = 0
                             then tcp_rst_netif env (current_input_netif (ip_data w)) (in_ackno (ts_in w)) (seg_end w)
                                    (current_iphdr_dest (ip_data w)) (current_iphdr_src (ip_data w)) (dest_port w) (src_port w) w
                             else Some w });
              map_option snd (stack_pb (pbuf_free (Some p)) w) } }"

definition tcp_input :: "'a tcp_env \<Rightarrow> nat \<Rightarrow> 'a tcp_stack \<Rightarrow> 'a tcp_stack option" where
  "tcp_input env p w =
     do { (ok, w) \<leftarrow> input_header p w;
          if ok then input_demux env p w else map_option snd (stack_pb (pbuf_free (Some p)) w) }"

end
