(* ===== verification/Tcp_States.thy ===== *)
theory Tcp_States
  imports Tcp_Input
begin

text \<open>
  The state machine of TCP. What happens to the states of the control blocks when a segment
  arrives is the transition relation of RFC 793. Most functions leave the states alone; this is shown
  with a small calculus for partial correctness.
\<close>

section \<open>Results of partial functions\<close>

text \<open>If \<open>m\<close> returns, its result satisfies \<open>Q\<close>.\<close>

definition returns :: "('r \<Rightarrow> bool) \<Rightarrow> 'r option \<Rightarrow> bool" where
  "returns Q m \<longleftrightarrow> (\<forall>x. m = Some x \<longrightarrow> Q x)"

named_theorems wp

lemma returnsD: "returns Q m \<Longrightarrow> m = Some x \<Longrightarrow> Q x"
  by (simp add: returns_def)

lemma returns_weaken: "returns P m \<Longrightarrow> (\<And>x. P x \<Longrightarrow> Q x) \<Longrightarrow> returns Q m"
  by (simp add: returns_def)

lemma returns_any: "(\<And>x. m = Some x \<Longrightarrow> Q x) \<Longrightarrow> returns Q m"
  by (simp add: returns_def)

lemma returns_Some [wp]: "Q x \<Longrightarrow> returns Q (Some x)"
  by (simp add: returns_def)

lemma returns_None [wp]: "returns Q None"
  by (simp add: returns_def)

lemma returns_bind [wp]: "returns (\<lambda>x. returns Q (f x)) m \<Longrightarrow> returns Q (Option.bind m f)"
  by (cases m) (simp_all add: returns_def)

lemma returns_map [wp]: "returns (\<lambda>x. Q (f x)) m \<Longrightarrow> returns Q (map_option f m)"
  by (cases m) (simp_all add: returns_def)

lemma returns_if [wp]: "(c \<Longrightarrow> returns Q a) \<Longrightarrow> (\<not> c \<Longrightarrow> returns Q b) \<Longrightarrow> returns Q (if c then a else b)"
  by simp

lemma returns_Let [wp]: "returns Q (f x) \<Longrightarrow> returns Q (Let x f)"
  by simp

lemma returns_case_option [wp]:
  "(m = None \<Longrightarrow> returns Q a) \<Longrightarrow> (\<And>x. m = Some x \<Longrightarrow> returns Q (f x)) \<Longrightarrow> returns Q (case_option a f m)"
  by (cases m) simp_all

lemma returns_case_prod [wp]: "(\<And>x y. m = (x, y) \<Longrightarrow> returns Q (f x y)) \<Longrightarrow> returns Q (case_prod f m)"
  by (cases m) simp

lemma returns_case_list [wp]:
  "(xs = [] \<Longrightarrow> returns Q a) \<Longrightarrow> (\<And>y ys. xs = y # ys \<Longrightarrow> returns Q (f y ys)) \<Longrightarrow> returns Q (case_list a f xs)"
  by (cases xs) simp_all

text \<open>Functions that only read.\<close>

lemma returns_read [wp]:
  fixes w :: "'a tcp_stack"
  shows "(\<And>b. ts_pcbs w a = Some b \<Longrightarrow> Q b) \<Longrightarrow> returns Q (ts_pcbs w a)"
    "(\<And>n. ts_netifs w a = Some n \<Longrightarrow> Q2 n) \<Longrightarrow> returns Q2 (ts_netifs w a)"
    "(\<And>b. stack_buf w p = Some b \<Longrightarrow> Q3 b) \<Longrightarrow> returns Q3 (stack_buf w p)"
    "(\<And>x. Q4 x) \<Longrightarrow> returns Q4 (sg_p seg)"
    "(\<And>x. Q5 x) \<Longrightarrow> returns Q5 (pbuf_clen q s)"
    "(\<And>x. Q6 x) \<Longrightarrow> returns Q6 (pbuf_copy_partial s q len off)"
    "(\<And>x. Q7 x) \<Longrightarrow> returns Q7 (tcp_route w pcb src dst)"
    "(\<And>x. Q8 x) \<Longrightarrow> returns Q8 (tcp_output_segment_busy w seg)"
    "(\<And>x. Q9 x) \<Longrightarrow> returns Q9 (any_busy w segs)"
    "(\<And>x. Q10 x) \<Longrightarrow> returns Q10 (tcp_eff_send_mss w mss dst)"
    "(\<And>x. Q11 x) \<Longrightarrow> returns Q11 (parseopt_loop w idx mss)"
    "(\<And>x. Q12 x) \<Longrightarrow> returns Q12 (p_next bf)"
    "(\<And>x. Q13 x) \<Longrightarrow> returns Q13 (pbuf_realloc a len s)"
    "(\<And>x. Q14 x) \<Longrightarrow> returns Q14 (pbuf_cat q r s)"
  by (simp_all add: returns_def)

section \<open>What the state machine sees\<close>

text \<open>
  The states of the PCBs with the next sequence number they send, the events noted for the
  application, the flags of the segment and what it acknowledges.
\<close>

type_synonym seen = "(nat \<Rightarrow> (tcp_state \<times> u32) option) \<times> u8 \<times> u8 \<times> u32"

definition view :: "'a tcp_stack \<Rightarrow> seen" where
  "view w = ((\<lambda>a. map_option (\<lambda>b. (t_state b, t_snd_nxt b)) (ts_pcbs w a)), recv_flags w, in_flags (ts_in w), in_ackno (ts_in w))"

text \<open>The segments a PCB has still to send.\<close>

definition unsent_of :: "nat \<Rightarrow> 'a tcp_stack \<Rightarrow> tcp_seg list option" where
  "unsent_of a w = map_option t_unsent (ts_pcbs w a)"

lemma view_upd [simp]:
  "view (w\<lparr>ts_pb := pb\<rparr>) = view w" "view (w\<lparr>ip_id := k\<rparr>) = view w" "view (w\<lparr>ts_app := app\<rparr>) = view w"
  "view (w\<lparr>ts_lpcbs := ls\<rparr>) = view w"
  "view (w\<lparr>tcp_active_pcbs_changed := c\<rparr>) = view w" "view (set_list l as w) = view w"
  "view (w\<lparr>tcp_active_pcbs := as\<rparr>) = view w" "view (stack_timer_needed w) = view w" "view (stack_free ty a w) = view w"
  by (simp_all add: view_def stack_timer_needed_def stack_free_def) (cases l; simp)

lemma view_store [simp]:
  "view (st_u8 a x w) = view w" "view (st_u16 a y w) = view w" "view (st_u32 a z w) = view w" "view (st_bytes a bs w) = view w"
  "view (TCPH_HDRLEN_FLAGS_SET a y x w) = view w" "view (TCPH_SET_FLAG a x w) = view w" "view (TCPH_FLAGS_SET a x w) = view w"
  by (simp_all add: st_u8_def st_u16_def st_u32_def st_bytes_def TCPH_HDRLEN_FLAGS_SET_def TCPH_SET_FLAG_def TCPH_FLAGS_SET_def)

lemma view_in [simp]: "in_flags (f (ts_in w)) = in_flags (ts_in w) \<Longrightarrow> in_ackno (f (ts_in w)) = in_ackno (ts_in w) \<Longrightarrow> view (in_upd f w) = view w"
  by (simp add: view_def in_upd_def)

lemma view_lists [simp]: "view (TCP_RMV l a w) = view w" "view (TCP_REG l a w) = view w" "view (TCP_RMV_ACTIVE a w) = view w"
  "view (TCP_REG_ACTIVE a w) = view w"
  by (simp_all add: TCP_RMV_def TCP_REG_def TCP_RMV_ACTIVE_def TCP_REG_ACTIVE_def)

lemma view_ip4_header [simp]: "view (ip4_header h src dst ttl tos proto n w) = view w"
  by (simp add: ip4_header_def Let_def)

lemma view_pcb: "ts_pcbs w a = Some b \<Longrightarrow> fst (view w) a = Some (t_state b, t_snd_nxt b)"
  by (simp add: view_def)

lemma view_inD: "view w' = view w \<Longrightarrow> in_flags (ts_in w') = in_flags (ts_in w) \<and> recv_flags w' = recv_flags w"
  by (simp add: view_def)

text \<open>The functions below return with the same view.\<close>

lemma pcb_upd_wp [wp]:
  assumes "\<And>b. ts_pcbs w a = Some b \<Longrightarrow> t_state (f b) = t_state b \<and> t_snd_nxt (f b) = t_snd_nxt b" "\<And>w'. view w' = view w \<Longrightarrow> Q w'"
  shows "returns Q (pcb_upd a f w)"
proof -
  have "view (w\<lparr>ts_pcbs := (ts_pcbs w)(a \<mapsto> f b)\<rparr>) = view w" if "ts_pcbs w a = Some b" for b
    using that assms(1) by (auto simp: view_def)
  then show ?thesis using assms(2) by (auto simp: returns_def pcb_upd_def)
qed

lemma flags_wp [wp]:
  assumes "\<And>w'. view w' = view w \<Longrightarrow> Q w'"
  shows "returns Q (tcp_set_flags a f w)" "returns Q (tcp_clear_flags a f w)"
  unfolding tcp_set_flags_def tcp_clear_flags_def by (intro wp; simp add: assms)+

lemma tcp_ack_now_wp [wp]:
  assumes "\<And>w'. view w' = view w \<Longrightarrow> unsent_of a w' = unsent_of a w \<Longrightarrow> Q w'"
  shows "returns Q (tcp_ack_now a w)"
  using assms by (auto simp: returns_def tcp_ack_now_def tcp_set_flags_def pcb_upd_def view_def unsent_of_def fun_eq_iff)

lemma stack_pb_wp [wp]:
  assumes "\<And>r w'. view w' = view w \<Longrightarrow> Q (r, w')"
  shows "returns Q (stack_pb f w)"
  using assms by (auto simp: returns_def stack_pb_def)

lemma stack_buf_upd_wp [wp]:
  assumes "\<And>w'. view w' = view w \<Longrightarrow> Q w'"
  shows "returns Q (stack_buf_upd p f w)"
  using assms by (auto simp: returns_def stack_buf_upd_def)

lemma stack_malloc_view: "stack_malloc ty w = (r, w') \<Longrightarrow> view w' = view w"
  by (auto simp: stack_malloc_def Let_def split: prod.splits)

lemma tcp_seg_free_wp [wp]:
  assumes "\<And>w'. view w' = view w \<Longrightarrow> Q w'"
  shows "returns Q (tcp_seg_free seg w)"
  unfolding tcp_seg_free_def by (intro wp; simp add: assms)

lemma tcp_segs_free_view: "returns (\<lambda>w'. view w' = view w) (tcp_segs_free segs w)"
proof (induction segs arbitrary: w)
  case (Cons seg segs)
  show ?case by (simp, intro wp) (rule returns_weaken [OF Cons], simp)
qed (simp add: returns_Some)

lemmas tcp_segs_free_wp [wp] = returns_weaken [OF tcp_segs_free_view]

lemma tcp_seg_copy_wp [wp]:
  assumes "\<And>r w'. view w' = view w \<Longrightarrow> Q (r, w')"
  shows "returns Q (tcp_seg_copy seg w)"
  unfolding tcp_seg_copy_def by (intro wp; simp add: assms stack_malloc_view)

lemma tcp_free_ooseq_wp [wp]:
  assumes "\<And>w'. view w' = view w \<Longrightarrow> Q w'"
  shows "returns Q (tcp_free_ooseq a w)"
  unfolding tcp_free_ooseq_def by (intro wp; simp add: assms)

lemma tcp_pcb_purge_wp [wp]:
  assumes "\<And>w'. view w' = view w \<Longrightarrow> Q w'"
  shows "returns Q (tcp_pcb_purge a w)"
  unfolding tcp_pcb_purge_def by (intro wp; simp add: assms)

lemma tcp_parseopt_wp [wp]:
  assumes "\<And>w'. view w' = view w \<Longrightarrow> Q w'"
  shows "returns Q (tcp_parseopt a w)"
  unfolding tcp_parseopt_def by (intro wp; simp add: assms)

section \<open>Sending\<close>

lemma tcp_create_segment_wp [wp]:
  assumes "\<And>r w'. view w' = view w \<Longrightarrow> Q (r, w')"
  shows "returns Q (tcp_create_segment pcb p hdrflags seqno optflags w)"
  unfolding tcp_create_segment_def by (intro wp; simp add: assms stack_malloc_view)

lemma alloc_header_common_wp [wp]:
  assumes "\<And>r w'. view w' = view w \<Longrightarrow> Q (r, w')"
  shows "returns Q (tcp_output_alloc_header_common ackno optlen datalen seqno sp dp flags wnd w)"
  unfolding tcp_output_alloc_header_common_def by (intro wp; simp add: assms)

lemma alloc_header_wp [wp]:
  assumes "\<And>r w'. view w' = view w \<Longrightarrow> Q (r, w')"
  shows "returns Q (tcp_output_alloc_header pcb optlen datalen seqno w)"
  unfolding tcp_output_alloc_header_def by (intro wp; simp add: assms)

lemma tcp_rexmit_rto_prepare_wp [wp]:
  assumes "\<And>r w'. view w' = view w \<Longrightarrow> Q (r, w')"
  shows "returns Q (tcp_rexmit_rto_prepare pcb w)"
  unfolding tcp_rexmit_rto_prepare_def by (intro wp; simp add: assms)

lemma tcp_rexmit_wp [wp]:
  assumes "\<And>r w'. view w' = view w \<Longrightarrow> Q (r, w')"
  shows "returns Q (tcp_rexmit pcb w)"
  unfolding tcp_rexmit_def by (intro wp; simp add: assms)

lemma tcp_rexmit_fast_wp [wp]:
  assumes "\<And>w'. view w' = view w \<Longrightarrow> Q w'"
  shows "returns Q (tcp_rexmit_fast pcb w)"
  unfolding tcp_rexmit_fast_def by (intro wp; simp add: assms Let_def)

text \<open>Sending moves the next sequence number and nothing else the state machine sees.\<close>

definition moved :: "seen \<Rightarrow> seen \<Rightarrow> bool" where
  "moved v v' \<longleftrightarrow> snd v' = snd v \<and> (\<forall>a. map_option fst (fst v' a) = map_option fst (fst v a))"

lemma moved_refl [simp]: "moved v v"
  by (simp add: moved_def)

lemma moved_trans: "moved u v \<Longrightarrow> moved v w \<Longrightarrow> moved u w"
  by (simp add: moved_def)

lemma pcb_upd_moved:
  assumes "\<And>b. t_state (f b) = t_state b" "\<And>w'. moved (view w) (view w') \<Longrightarrow> Q w'"
  shows "returns Q (pcb_upd a f w)"
  using assms by (auto simp: returns_def pcb_upd_def moved_def view_def fun_eq_iff option.map_comp)

lemma sent_segment_wp [wp]:
  assumes "\<And>w'. moved (view w) (view w') \<Longrightarrow> Q w'"
  shows "returns Q (sent_segment pcb seg rest w)"
  unfolding sent_segment_def
  by (rule returns_Let, rule returns_Let, rule returns_bind, rule pcb_upd_moved, simp) (intro wp; simp add: assms)

lemma output_done_wp [wp]:
  assumes "\<And>r w'. view w' = view w \<Longrightarrow> Q (r, w')"
  shows "returns Q (output_done pcb w)"
  unfolding output_done_def by (intro wp; simp add: assms)

lemma tcp_pbuf_prealloc_wp [wp]:
  assumes "\<And>r w'. view w' = view w \<Longrightarrow> Q (r, w')"
  shows "returns Q (tcp_pbuf_prealloc layer len max_length w)"
  unfolding tcp_pbuf_prealloc_def by (intro wp; simp add: assms)

lemma write_loop_wp [wp]:
  assumes "\<And>e n o' segs w'. view w' = view w \<Longrightarrow> Q (e, n, o', segs, w')"
  shows "returns Q (write_loop pcb data mss pos n ov segs w)"
proof -
  have "view (snd (snd (snd (snd r)))) = view w" if "write_loop pcb data mss pos n ov segs w = Some r" for r
  proof (rule write_loop.raw_induct [where P = "\<lambda>_ _ _ _ _ _ _ w r. view (snd (snd (snd (snd r)))) = view w", OF _ that], goal_cases)
    case (1 loop pcb data mss pos n ov segs w r)
    have IH: "returns (\<lambda>r. view (snd (snd (snd (snd r)))) = view w) (loop a b c d e f g w')" if "view w' = view w" for a b c d e f g w'
      using 1(1) that by (auto simp: returns_def)
    show ?case by (rule returnsD [OF _ 1(2)]) (intro wp; simp add: IH)
  qed
  then show ?thesis using assms by (auto simp: returns_def)
qed

lemma extend_tail_wp [wp]:
  assumes "\<And>w'. view w' = view w \<Longrightarrow> Q w'"
  shows "returns Q (extend_tail p n bs w)"
proof -
  have "view r = view w" if "extend_tail p n bs w = Some r" for r
  proof (rule extend_tail.raw_induct [where P = "\<lambda>_ _ _ w r. view r = view w", OF _ that], goal_cases)
    case (1 loop p n bs w r)
    have IH: "returns (\<lambda>r. view r = view w) (loop a b c w')" if "view w' = view w" for a b c w'
      using 1(1) that by (auto simp: returns_def)
    show ?case by (rule returnsD [OF _ 1(2)]) (intro wp; simp add: IH)
  qed
  then show ?thesis using assms by (auto simp: returns_def)
qed

lemma tcp_write_checks_wp [wp]:
  assumes "\<And>r w'. view w' = view w \<Longrightarrow> Q (r, w')"
  shows "returns Q (tcp_write_checks pcb len w)"
  unfolding tcp_write_checks_def by (intro wp; simp add: assms)

lemma tcp_write_wp [wp]:
  assumes "\<And>r w'. view w' = view w \<Longrightarrow> Q (r, w')"
  shows "returns Q (tcp_write p data apiflags w)"
  unfolding tcp_write_def by (intro wp; simp add: assms)

text \<open>Setting the callbacks of a PCB.\<close>

lemma tcp_callbacks_wp [wp]:
  assumes "\<And>w'. view w' = view w \<Longrightarrow> Q w'"
  shows "returns Q (tcp_arg p arg w)" "returns Q (tcp_recv p recv w)" "returns Q (tcp_sent p sent w)"
    "returns Q (tcp_err p errf w)" "returns Q (tcp_nagle_disable a w)"
  unfolding tcp_arg_def tcp_recv_def tcp_sent_def tcp_err_def tcp_nagle_disable_def by (intro wp; simp add: assms)+

text \<open>The output function of the interface does not concern the state machine.\<close>

locale still_output =
  fixes env :: "'a tcp_env"
  assumes output_still: "returns (\<lambda>(_, w'). view w' = view w) (env_netif_output env nif p dest w)"
begin

lemma netif_do_output_wp [wp]:
  assumes "\<And>r w'. view w' = view w \<Longrightarrow> Q (r, w')"
  shows "returns Q (netif_do_output env nif p dest w)"
proof -
  have "returns Q (env_netif_output env nif p dest w)"
    by (rule returns_weaken [OF output_still]) (auto simp: assms)
  then show ?thesis unfolding netif_do_output_def
    by (intro wp) (simp add: assms returns_Some split: netif_output_fn.split)
qed

lemma frag_send_wp [wp]:
  assumes "\<And>r w'. view w' = view w \<Longrightarrow> Q (r, w')"
  shows "returns Q (frag_send env nif p dest h fragsize poff off w)"
  unfolding frag_send_def by (intro wp; simp add: assms)

lemma frag_loop_view:
  assumes "frag_loop env nif p dest h mtu nfb mf left poff ofo w = Some r"
  shows "view (snd r) = view w"
proof -
  have "env = env \<longrightarrow> view (snd r) = view w"
  proof (rule frag_loop.raw_induct [where P = "\<lambda>e _ _ _ _ _ _ _ _ _ _ w r. e = env \<longrightarrow> view (snd r) = view w", OF _ assms], goal_cases)
    case (1 loop e nif p dest h mtu nfb mf left poff ofo w r)
    show ?case
    proof
      assume e: "e = env"
      have IH: "returns (\<lambda>r. view (snd r) = view w) (loop e a b c d f g i j k l w')" if "view w' = view w" for a b c d f g i j k l w'
        using 1(1) that e by (auto simp: returns_def)
      show "view (snd r) = view w"
        by (rule returnsD [OF _ 1(2)]) (simp only: e, intro wp; simp add: IH [unfolded e])
    qed
  qed
  then show ?thesis by simp
qed

lemma frag_loop_wp [wp]:
  assumes "\<And>r w'. view w' = view w \<Longrightarrow> Q (r, w')"
  shows "returns Q (frag_loop env nif p dest h mtu nfb mf left poff ofo w)"
  using assms frag_loop_view by (auto simp: returns_def)

lemma ip4_frag_wp [wp]:
  assumes "\<And>r w'. view w' = view w \<Longrightarrow> Q (r, w')"
  shows "returns Q (ip4_frag env p nif dest w)"
  unfolding ip4_frag_def by (intro wp; simp add: assms)

lemma ip4_output_if_wp [wp]:
  assumes "\<And>r w'. view w' = view w \<Longrightarrow> Q (r, w')"
  shows "returns Q (ip4_output_if env p src dest ttl tos proto nif w)"
  unfolding ip4_output_if_def ip4_output_if_src_def by (intro wp; auto simp: assms)

lemma control_segment_wp [wp]:
  assumes "\<And>r w'. view w' = view w \<Longrightarrow> Q (r, w')"
  shows "returns Q (tcp_output_control_segment env pcb p src dst w)"
  unfolding tcp_output_control_segment_def tcp_output_control_segment_netif_def
  by (intro wp; (rule returns_any)?; (intro wp)?; simp add: assms)

lemma tcp_rst_wp [wp]:
  assumes "\<And>w'. view w' = view w \<Longrightarrow> Q w'"
  shows "returns Q (tcp_rst env pcb seqno ackno lip rip lp rp w)"
  unfolding tcp_rst_def tcp_rst_common_def by (intro wp; simp add: assms)

lemma tcp_send_empty_ack_wp [wp]:
  assumes "\<And>r w'. view w' = view w \<Longrightarrow> Q (r, w')"
  shows "returns Q (tcp_send_empty_ack env pcb w)"
  unfolding tcp_send_empty_ack_def by (intro wp; simp add: assms)

lemma tcp_output_segment_wp [wp]:
  assumes "\<And>r w'. view w' = view w \<Longrightarrow> Q (r, w')"
  shows "returns Q (tcp_output_segment env seg pcb nif w)"
  unfolding tcp_output_segment_def by (intro wp; simp add: assms)

lemma output_loop_view: "returns (\<lambda>(_, w'). moved (view w) (view w')) (output_loop env pcb nif wnd segs w)"
proof (induction segs arbitrary: w)
  case (Cons seg segs)
  show ?case by (simp only: output_loop.simps)
    (intro wp; (rule returns_weaken [OF Cons])?; auto split: prod.splits if_splits intro: moved_trans)
qed (simp add: returns_Some)

lemma output_loop_wp [wp]:
  assumes "\<And>r w'. moved (view w) (view w') \<Longrightarrow> Q (r, w')"
  shows "returns Q (output_loop env pcb nif wnd segs w)"
  by (rule returns_weaken [OF output_loop_view]) (auto simp: assms)

lemma output_on_wp [wp]:
  assumes "\<And>r w'. moved (view w) (view w') \<Longrightarrow> Q (r, w')"
  shows "returns Q (output_on env pcb nif seg wnd w)"
  unfolding output_on_def by (intro wp; simp add: assms)

lemma tcp_output_wp [wp]:
  assumes "\<And>r w'. moved (view w) (view w') \<Longrightarrow> Q (r, w')"
  shows "returns Q (tcp_output env pcb w)"
  unfolding tcp_output_def by (intro wp; simp add: assms)

lemma tcp_rexmit_rto_wp [wp]:
  assumes "\<And>w'. moved (view w) (view w') \<Longrightarrow> Q w'"
  shows "returns Q (tcp_rexmit_rto env pcb w)"
  unfolding tcp_rexmit_rto_def tcp_rexmit_rto_commit_def by (intro wp; simp add: assms)

end

section \<open>Receiving\<close>

lemma state_fields [simp]:
  "t_state (update_snd_wnd seqno ackno wnd b) = t_state b" "t_state (grow_cwnd acked b) = t_state b"
  "t_state (new_ack ackno b) = t_state b" "t_state (rtt_update ticks ackno b) = t_state b"
  "t_state (snd (update_rcv_ann_wnd b)) = t_state b"
  "t_snd_nxt (update_snd_wnd seqno ackno wnd b) = t_snd_nxt b" "t_snd_nxt (grow_cwnd acked b) = t_snd_nxt b"
  "t_snd_nxt (new_ack ackno b) = t_snd_nxt b" "t_snd_nxt (rtt_update ticks ackno b) = t_snd_nxt b"
  "t_snd_nxt (snd (update_rcv_ann_wnd b)) = t_snd_nxt b"
  by (simp_all add: update_snd_wnd_def grow_cwnd_def new_ack_def rtt_update_def update_rcv_ann_wnd_def Let_def)

lemma tcp_update_rcv_ann_wnd_wp [wp]:
  assumes "\<And>r w'. view w' = view w \<Longrightarrow> Q (r, w')"
  shows "returns Q (tcp_update_rcv_ann_wnd pcb w)"
  unfolding tcp_update_rcv_ann_wnd_def by (intro wp; simp add: assms)

lemma tcp_free_acked_segments_view: "returns (\<lambda>(_, w'). view w' = view w) (tcp_free_acked_segments pcb segs w)"
proof (induction segs arbitrary: w)
  case (Cons seg segs)
  show ?case by (simp only: tcp_free_acked_segments.simps) (intro wp; (rule returns_weaken [OF Cons])?; simp split: prod.splits)
qed (simp add: returns_Some)

lemma tcp_free_acked_segments_wp [wp]:
  assumes "\<And>r w'. view w' = view w \<Longrightarrow> Q (r, w')"
  shows "returns Q (tcp_free_acked_segments pcb segs w)"
  by (rule returns_weaken [OF tcp_free_acked_segments_view]) (auto simp: assms)

lemma rcv_dupack_wp [wp]:
  assumes "\<And>w'. view w' = view w \<Longrightarrow> Q w'"
  shows "returns Q (rcv_dupack pcb edge w)"
  unfolding rcv_dupack_def by (intro wp; simp add: assms)

lemma rcv_new_ack_wp [wp]:
  assumes "\<And>w'. view w' = view w \<Longrightarrow> Q w'"
  shows "returns Q (rcv_new_ack pcb w)"
  unfolding rcv_new_ack_def by (intro wp; simp add: assms)

lemma trim_loop_wp [wp]:
  assumes "\<And>p off w'. view w' = view w \<Longrightarrow> Q (p, off, w')"
  shows "returns Q (trim_loop p off n w)"
proof -
  have "view (snd (snd r)) = view w" if "trim_loop p off n w = Some r" for r
  proof (rule trim_loop.raw_induct [where P = "\<lambda>_ _ _ w r. view (snd (snd r)) = view w", OF _ that], goal_cases)
    case (1 loop p off n w r)
    have IH: "returns (\<lambda>r. view (snd (snd r)) = view w) (loop a b c w')" if "view w' = view w" for a b c w'
      using 1(1) that by (auto simp: returns_def)
    show ?case by (rule returnsD [OF _ 1(2)]) (intro wp; simp add: IH)
  qed
  then show ?thesis using assms by (auto simp: returns_def)
qed

lemma seg_realloc_wp [wp]:
  assumes "\<And>w'. view w' = view w \<Longrightarrow> Q w'"
  shows "returns Q (seg_realloc seg len w)"
  unfolding seg_realloc_def by (intro wp; simp add: assms)

lemma view_inseg [simp]: "view (set_inseg seg n w) = view w" "view (clear_fin seg w) = view w"
  by (simp_all add: set_inseg_def clear_fin_def)

lemma rcv_trim_wp [wp]:
  assumes "\<And>w'. view w' = view w \<Longrightarrow> Q w'"
  shows "returns Q (rcv_trim pcb w)"
  unfolding rcv_trim_def by (intro wp; simp add: assms)

lemma cut_inseg_wp [wp]:
  assumes "\<And>w'. view w' = view w \<Longrightarrow> Q w'"
  shows "returns Q (cut_inseg len w)"
  unfolding cut_inseg_def by (intro wp; simp add: assms)

lemma inseq_window_wp [wp]:
  assumes "\<And>w'. view w' = view w \<Longrightarrow> Q w'"
  shows "returns Q (inseq_window pcb w)"
  unfolding inseq_window_def by (intro wp; simp add: assms)

lemma inseq_covered_view: "returns (\<lambda>(_, w'). view w' = view w) (inseq_covered gs w)"
proof (induction gs arbitrary: w)
  case (Cons g gs)
  show ?case by (simp only: inseq_covered.simps Let_def) (intro wp; (rule returns_weaken [OF Cons])?; simp split: prod.splits)
qed (simp add: returns_Some)

lemma inseq_covered_wp [wp]:
  assumes "\<And>r w'. view w' = view w \<Longrightarrow> Q (r, w')"
  shows "returns Q (inseq_covered gs w)"
  by (rule returns_weaken [OF inseq_covered_view]) (auto simp: assms)

lemma inseq_ooseq_wp [wp]:
  assumes "\<And>w'. view w' = view w \<Longrightarrow> Q w'"
  shows "returns Q (inseq_ooseq pcb w)"
  unfolding inseq_ooseq_def by (intro wp; simp add: assms)

lemma append_recv_data_wp [wp]:
  assumes "\<And>w'. view w' = view w \<Longrightarrow> Q w'"
  shows "returns Q (append_recv_data p w)"
  unfolding append_recv_data_def by (intro wp; simp add: assms)

lemma tcp_ack_wp [wp]:
  assumes "\<And>w'. view w' = view w \<Longrightarrow> Q w'"
  shows "returns Q (tcp_ack pcb w)"
  unfolding tcp_ack_def by (intro wp; simp add: assms)

lemma oos_covered_view: "returns (\<lambda>(_, w'). view w' = view w) (oos_covered cseg gs w)"
proof (induction gs arbitrary: w)
  case (Cons g gs)
  show ?case by (simp only: oos_covered.simps) (intro wp; (rule returns_weaken [OF Cons])?; simp split: prod.splits)
qed (simp add: returns_Some)

lemma oos_covered_wp [wp]:
  assumes "\<And>r w'. view w' = view w \<Longrightarrow> Q (r, w')"
  shows "returns Q (oos_covered cseg gs w)"
  by (rule returns_weaken [OF oos_covered_view]) (auto simp: assms)

lemma tcp_oos_insert_segment_wp [wp]:
  assumes "\<And>r w'. view w' = view w \<Longrightarrow> Q (r, w')"
  shows "returns Q (tcp_oos_insert_segment cseg next w)"
  unfolding tcp_oos_insert_segment_def by (intro wp; simp add: assms)

lemma trim_wp [wp]:
  assumes "\<And>r w'. view w' = view w \<Longrightarrow> Q (r, w')"
  shows "returns Q (trim_prev g w)" "returns Q (trim_last pcb g w)"
  unfolding trim_prev_def trim_last_def by (intro wp; simp add: assms)+

lemma copy_wp [wp]:
  assumes "\<And>r w'. view w' = view w \<Longrightarrow> Q (r, w')"
  shows "returns Q (insert_copy before next w)" "returns Q (replace_copy before next w)" "returns Q (append_copy pcb before g w)"
  unfolding insert_copy_def replace_copy_def append_copy_def by (intro wp; auto simp: assms)+

lemma ooseq_place_view: "returns (\<lambda>(_, w'). view w' = view w) (ooseq_place pcb before gs w)"
proof (induction gs arbitrary: before)
  case (Cons g gs)
  show ?case by (simp only: ooseq_place.simps Let_def) (intro wp; (rule returns_weaken [OF Cons])?; simp split: prod.splits)
qed (simp add: returns_Some)

lemma ooseq_place_wp [wp]:
  assumes "\<And>r w'. view w' = view w \<Longrightarrow> Q (r, w')"
  shows "returns Q (ooseq_place pcb before gs w)"
  by (rule returns_weaken [OF ooseq_place_view]) (auto simp: assms)

text \<open>
  Receiving data may note a FIN; only then a connection that was established may have been moved to
  CLOSE-WAIT already.
\<close>

definition received :: "nat \<Rightarrow> seen \<Rightarrow> seen \<Rightarrow> bool" where
  "received pcb = (\<lambda>(st, ev, fl) (st', ev', fl'). fl' = fl \<and> (ev' = ev \<or> ev' = ev OR TF_GOT_FIN)
     \<and> (\<forall>a. st' a = st a \<or> a = pcb \<and> ev' AND TF_GOT_FIN \<noteq> 0
          \<and> (\<exists>n. st a = Some (ESTABLISHED, n) \<and> st' a = Some (CLOSE_WAIT, n))))"

lemma received_refl [simp]: "received pcb v v"
  by (auto simp: received_def split: prod.splits)

lemma got_fin_flag: "(x OR TF_GOT_FIN) AND TF_GOT_FIN \<noteq> 0" "(x OR TF_GOT_FIN) OR TF_GOT_FIN = x OR TF_GOT_FIN"
proof -
  have "(x OR TF_GOT_FIN) AND TF_GOT_FIN = TF_GOT_FIN" by (simp add: bit_eq_iff bit_simps)
  then show "(x OR TF_GOT_FIN) AND TF_GOT_FIN \<noteq> 0" by (simp add: TF_GOT_FIN_def)
  show "(x OR TF_GOT_FIN) OR TF_GOT_FIN = x OR TF_GOT_FIN" by (simp add: or.assoc)
qed

lemma received_trans:
  assumes "received pcb v v1" "received pcb v1 v2"
  shows "received pcb v v2"
proof -
  obtain st ev fl st1 ev1 fl1 st2 ev2 fl2 where v: "v = (st, ev, fl)" "v1 = (st1, ev1, fl1)" "v2 = (st2, ev2, fl2)"
    by (metis prod_cases3)
  note r = assms [unfolded v received_def, simplified]
  have f: "ev2 = ev \<or> ev2 = ev OR TF_GOT_FIN" using r got_fin_flag by auto
  have g: "ev1 AND TF_GOT_FIN \<noteq> 0 \<Longrightarrow> ev2 AND TF_GOT_FIN \<noteq> 0" using r(2) got_fin_flag by auto
  have "st2 a = st a \<or> a = pcb \<and> ev2 AND TF_GOT_FIN \<noteq> 0 \<and> (\<exists>n. st a = Some (ESTABLISHED, n) \<and> st2 a = Some (CLOSE_WAIT, n))" for a
    using r(1) [THEN conjunct2, THEN conjunct2, rule_format, of a] r(2) [THEN conjunct2, THEN conjunct2, rule_format, of a] g by auto
  then show ?thesis using r f by (simp add: v received_def)
qed

text \<open>The FIN of a segment that had been queued.\<close>

definition fin_step :: "nat \<Rightarrow> bool \<Rightarrow> 'a tcp_stack \<Rightarrow> 'a tcp_stack option" where
  "fin_step pcb fin w =
     (if fin then pcb_upd pcb (\<lambda>b. if t_state b = ESTABLISHED then b\<lparr>t_state := CLOSE_WAIT\<rparr> else b)
                    (w\<lparr>recv_flags := recv_flags w OR TF_GOT_FIN\<rparr>)
      else Some w)"

lemma fin_step_wp [wp]:
  assumes "\<And>w'. received pcb (view w) (view w') \<Longrightarrow> Q w'"
  shows "returns Q (fin_step pcb fin w)"
proof (rule returns_any)
  fix w' assume run: "fin_step pcb fin w = Some w'"
  have "received pcb (view w) (view w')"
  proof (cases fin)
    case True
    then obtain b where b: "ts_pcbs w pcb = Some b"
      and w': "w' = w\<lparr>recv_flags := recv_flags w OR TF_GOT_FIN,
        ts_pcbs := (ts_pcbs w)(pcb \<mapsto> if t_state b = ESTABLISHED then b\<lparr>t_state := CLOSE_WAIT\<rparr> else b)\<rparr>"
      using run by (auto simp: fin_step_def pcb_upd_def)
    show ?thesis using b got_fin_flag(1) by (cases "t_state b = ESTABLISHED") (auto simp: w' received_def view_def)
  next
    case False
    then show ?thesis using run by (simp add: fin_step_def)
  qed
  then show "Q w'" by (rule assms)
qed

lemma ooseq_deliver_received: "returns (\<lambda>w'. received pcb (view w) (view w')) (ooseq_deliver pcb gs w)"
proof (induction gs arbitrary: w)
  case (Cons g gs)
  show ?case unfolding ooseq_deliver.simps fin_step_def [symmetric]
    by (intro wp; (rule returns_weaken [OF Cons], erule received_trans [rotated])?; simp)
qed (simp add: returns_Some)

lemma ooseq_deliver_wp [wp]:
  assumes "\<And>w'. received pcb (view w) (view w') \<Longrightarrow> Q w'"
  shows "returns Q (ooseq_deliver pcb gs w)"
  by (rule returns_weaken [OF ooseq_deliver_received]) (rule assms)

lemma received_fin: "view w1 = view w \<Longrightarrow> received pcb (view w) (view (w1\<lparr>recv_flags := recv_flags w1 OR TF_GOT_FIN\<rparr>))"
  by (auto simp: received_def view_def)

lemma rcv_inseq_wp [wp]:
  assumes "\<And>w'. received pcb (view w) (view w') \<Longrightarrow> Q w'"
  shows "returns Q (rcv_inseq pcb w)"
  unfolding rcv_inseq_def
  by (intro wp; (rule assms, simp only:, erule received_trans [rotated])?) (simp_all add: received_fin)

context still_output
begin

lemma rcv_ack_wp [wp]:
  assumes "\<And>w'. view w' = view w \<Longrightarrow> Q w'"
  shows "returns Q (rcv_ack env pcb w)"
  unfolding rcv_ack_def by (intro wp; simp add: assms)

lemma rcv_ooseq_wp [wp]:
  assumes "\<And>w'. view w' = view w \<Longrightarrow> Q w'"
  shows "returns Q (rcv_ooseq env pcb w)"
  unfolding rcv_ooseq_def by (intro wp; simp add: assms)

lemma tcp_receive_wp [wp]:
  assumes "\<And>w'. received pcb (view w) (view w') \<Longrightarrow> Q w'"
  shows "returns Q (tcp_receive env pcb w)"
  unfolding tcp_receive_def by (intro wp; simp add: assms)

lemma rst_segment_wp [wp]:
  assumes "\<And>w'. view w' = view w \<Longrightarrow> Q w'"
  shows "returns Q (rst_segment env pcb w)"
  unfolding rst_segment_def by (intro wp; simp add: assms)

end

section \<open>The transitions of RFC 793\<close>

text \<open>
  The transitions when a segment arrives. \<open>opened\<close> says that the segment completes the handshake,
  \<open>fin\<close> that the FIN of the peer has now been received in sequence, \<open>acked\<close> that the FIN sent to
  the peer is now acknowledged. From every state exactly one transition is possible.
\<close>

inductive rfc793 :: "bool \<Rightarrow> bool \<Rightarrow> bool \<Rightarrow> tcp_state \<Rightarrow> tcp_state \<Rightarrow> bool" for opened fin acked where
  unopened: "\<not> opened \<Longrightarrow> s = SYN_SENT \<or> s = SYN_RCVD \<Longrightarrow> rfc793 opened fin acked s s"
| active_open: "opened \<Longrightarrow> rfc793 opened fin acked SYN_SENT ESTABLISHED"
| passive_open: "opened \<Longrightarrow> \<not> fin \<Longrightarrow> rfc793 opened fin acked SYN_RCVD ESTABLISHED"
| open_and_fin: "opened \<Longrightarrow> fin \<Longrightarrow> rfc793 opened fin acked SYN_RCVD CLOSE_WAIT"
| established: "\<not> fin \<Longrightarrow> rfc793 opened fin acked ESTABLISHED ESTABLISHED"
| passive_close: "fin \<Longrightarrow> rfc793 opened fin acked ESTABLISHED CLOSE_WAIT"
| fin_unacked: "\<not> acked \<Longrightarrow> \<not> fin \<Longrightarrow> rfc793 opened fin acked FIN_WAIT_1 FIN_WAIT_1"
| fin_acked: "acked \<Longrightarrow> \<not> fin \<Longrightarrow> rfc793 opened fin acked FIN_WAIT_1 FIN_WAIT_2"
| simultaneous_close: "\<not> acked \<Longrightarrow> fin \<Longrightarrow> rfc793 opened fin acked FIN_WAIT_1 CLOSING"
| fin_and_ack: "acked \<Longrightarrow> fin \<Longrightarrow> rfc793 opened fin acked FIN_WAIT_1 TIME_WAIT"
| half_closed: "\<not> fin \<Longrightarrow> rfc793 opened fin acked FIN_WAIT_2 FIN_WAIT_2"
| active_close: "fin \<Longrightarrow> rfc793 opened fin acked FIN_WAIT_2 TIME_WAIT"
| closing_unacked: "\<not> acked \<Longrightarrow> rfc793 opened fin acked CLOSING CLOSING"
| closing_acked: "acked \<Longrightarrow> rfc793 opened fin acked CLOSING TIME_WAIT"
| other: "s \<in> {CLOSED, LISTEN, CLOSE_WAIT, LAST_ACK, TIME_WAIT} \<Longrightarrow> rfc793 opened fin acked s s"

inductive_simps rfc793_simps [simp]:
  "rfc793 opened fin acked CLOSED s" "rfc793 opened fin acked LISTEN s" "rfc793 opened fin acked SYN_SENT s"
  "rfc793 opened fin acked SYN_RCVD s" "rfc793 opened fin acked ESTABLISHED s" "rfc793 opened fin acked FIN_WAIT_1 s"
  "rfc793 opened fin acked FIN_WAIT_2 s" "rfc793 opened fin acked CLOSE_WAIT s" "rfc793 opened fin acked CLOSING s"
  "rfc793 opened fin acked LAST_ACK s" "rfc793 opened fin acked TIME_WAIT s"

text \<open>
  The conditions in terms of the segment and the PCB \<open>b\<close> before it. The handshake is completed by
  an acknowledgement of the SYN: with the SYN of the peer in SYN-SENT, of something in flight in
  SYN-RECEIVED. The FIN is acknowledged when everything sent is and nothing is left to send.
\<close>

definition handshake_done :: "tcp_in_vars \<Rightarrow> tcp_pcb \<Rightarrow> bool" where
  "handshake_done v b \<longleftrightarrow> in_flags v AND TCP_RST = 0 \<and> in_flags v AND TCP_ACK \<noteq> 0
     \<and> (if t_state b = SYN_SENT then in_flags v AND TCP_SYN \<noteq> 0 \<and> in_ackno v = t_lastack b + 1
        else in_flags v AND TCP_SYN = 0 \<and> TCP_SEQ_BETWEEN (in_ackno v) (t_lastack b + 1) (t_snd_nxt b))"

definition fin_acknowledged :: "tcp_in_vars \<Rightarrow> tcp_pcb \<Rightarrow> tcp_seg list \<Rightarrow> bool" where
  "fin_acknowledged v b unsent \<longleftrightarrow> in_flags v AND TCP_RST = 0 \<and> in_flags v AND TCP_SYN = 0
     \<and> in_flags v AND TCP_ACK \<noteq> 0 \<and> in_ackno v = t_snd_nxt b \<and> unsent = []"

text \<open>A reset is accepted with exactly the expected number: that of the SYN in SYN-SENT, else \<open>rcv_nxt\<close>.\<close>

definition reset_accepted :: "tcp_in_vars \<Rightarrow> tcp_pcb \<Rightarrow> bool" where
  "reset_accepted v b \<longleftrightarrow> in_flags v AND TCP_RST \<noteq> 0
     \<and> (if t_state b = SYN_SENT then in_ackno v = t_snd_nxt b else in_seqno v = t_rcv_nxt b)"

definition others_kept :: "nat \<Rightarrow> seen \<Rightarrow> seen \<Rightarrow> bool" where
  "others_kept pcb v v' \<longleftrightarrow> (\<forall>a. a \<noteq> pcb \<longrightarrow> fst v' a = None \<or> map_option fst (fst v' a) = map_option fst (fst v a))"

text \<open>The transition of the PCB, and the notes that the connection is closed (in LAST-ACK only) or reset.\<close>

definition stepped :: "nat \<Rightarrow> bool \<Rightarrow> bool \<Rightarrow> bool \<Rightarrow> tcp_state \<Rightarrow> seen \<Rightarrow> seen \<Rightarrow> bool" where
  "stepped pcb opened acked reset s v v' \<longleftrightarrow>
     (\<forall>s' n. fst v' pcb = Some (s', n) \<longrightarrow> rfc793 opened (fst (snd v') AND TF_GOT_FIN \<noteq> 0) acked s s'
        \<and> (fst (snd v') AND TF_CLOSED \<noteq> 0 \<longleftrightarrow> fst (snd v) AND TF_CLOSED \<noteq> 0 \<or> s = LAST_ACK \<and> acked)
        \<and> (fst (snd v') AND TF_RESET \<noteq> 0 \<longleftrightarrow> fst (snd v) AND TF_RESET \<noteq> 0 \<or> reset))"

text \<open>Setting the state of a PCB.\<close>

definition in_state :: "nat \<Rightarrow> tcp_state \<Rightarrow> seen \<Rightarrow> seen" where
  "in_state pcb s = (\<lambda>(st, ev). (st(pcb := map_option (\<lambda>(_, n). (s, n)) (st pcb)), ev))"

lemma in_state_sel [simp]: "fst (in_state pcb s v) = (fst v)(pcb := map_option (\<lambda>(_, n). (s, n)) (fst v pcb))" "snd (in_state pcb s v) = snd v"
  by (simp_all add: in_state_def split: prod.splits)

definition set_state :: "nat \<Rightarrow> tcp_state \<Rightarrow> 'a tcp_stack \<Rightarrow> 'a tcp_stack option" where
  "set_state pcb s w = pcb_upd pcb (\<lambda>b. b\<lparr>t_state := s\<rparr>) w"

lemma set_state_wp [wp]:
  assumes "\<And>w'. view w' = in_state pcb s (view w) \<Longrightarrow> unsent_of pcb w' = unsent_of pcb w \<Longrightarrow> Q w'"
  shows "returns Q (set_state pcb s w)"
  using assms by (auto simp: returns_def set_state_def pcb_upd_def view_def in_state_def unsent_of_def fun_eq_iff)

lemma got_fin_wp [wp]:
  assumes "\<And>w'. view w' = (if recv_flags w AND TF_GOT_FIN \<noteq> 0 then in_state pcb CLOSE_WAIT (view w) else view w) \<Longrightarrow> Q w'"
  shows "returns Q (got_fin pcb w)"
  unfolding got_fin_def set_state_def [symmetric] by (intro wp; simp add: assms)

lemma purge_unsent:
  assumes "tcp_pcb_purge pcb w = Some w'" "fst (view w) pcb = Some (s, n)" "s \<notin> {CLOSED, TIME_WAIT, LISTEN}"
  shows "unsent_of pcb w' = Some []"
  using assms by (auto simp: tcp_pcb_purge_def pcb_upd_def unsent_of_def view_def bind_eq_Some_conv)

lemma to_time_wait_wp [wp]:
  assumes "\<And>w'. view w' = in_state pcb TIME_WAIT (view w)
    \<Longrightarrow> (\<And>s n. fst (view w) pcb = Some (s, n) \<Longrightarrow> s \<notin> {CLOSED, TIME_WAIT, LISTEN} \<Longrightarrow> unsent_of pcb w' = Some []) \<Longrightarrow> Q w'"
  shows "returns Q (to_time_wait pcb w)"
proof -
  have u: "unsent_of pcb (TCP_RMV_ACTIVE pcb w') = unsent_of pcb w'" "unsent_of pcb (TCP_REG L_tw pcb w') = unsent_of pcb w'" for w'
    by (simp_all add: unsent_of_def TCP_RMV_ACTIVE_def TCP_REG_def TCP_RMV_def stack_timer_needed_def)
  have purge: "returns (\<lambda>w'. view w' = view w \<and> (\<forall>s n. fst (view w) pcb = Some (s, n) \<longrightarrow> s \<notin> {CLOSED, TIME_WAIT, LISTEN}
      \<longrightarrow> unsent_of pcb w' = Some [])) (tcp_pcb_purge pcb w)"
    using returnsD [OF tcp_pcb_purge_wp [of w "\<lambda>w'. view w' = view w" pcb]] purge_unsent [of pcb w] by (fastforce intro: returns_any)
  show ?thesis unfolding to_time_wait_def set_state_def [symmetric]
    by (rule returns_bind, rule returns_weaken [OF purge]) (intro wp, rule assms, auto simp: u)
qed

lemma all_acked_wp [wp]:
  assumes "\<And>s n u. fst (view w) pcb = Some (s, n) \<Longrightarrow> unsent_of pcb w = Some u
    \<Longrightarrow> Q (fst (snd (snd (view w))) AND TCP_ACK \<noteq> 0 \<and> snd (snd (snd (view w))) = n \<and> u = [])"
  shows "returns Q (all_acked pcb w)"
  using assms by (auto simp: returns_def all_acked_def view_def unsent_of_def)

lemma syn_sent_ack_wp [wp]:
  assumes "\<And>w'. view w' = in_state pcb ESTABLISHED (view w) \<Longrightarrow> Q w'"
  shows "returns Q (syn_sent_ack pcb w)"
proof -
  have upd: "returns Q' (pcb_upd pcb f w)" if "\<And>b. t_state (f b) = ESTABLISHED \<and> t_snd_nxt (f b) = t_snd_nxt b"
      "\<And>w'. view w' = in_state pcb ESTABLISHED (view w) \<Longrightarrow> Q' w'"
    for Q' f using that by (auto simp: returns_def pcb_upd_def view_def in_state_def fun_eq_iff)
  show ?thesis unfolding syn_sent_ack_def Let_def
    by (rule returns_bind, rule returns_read(1), rule returns_bind, rule returns_read(10), rule returns_bind, rule upd, simp)
       (intro wp; simp add: assms)
qed

lemma tcp_parseopt_pcb:
  assumes "tcp_parseopt pcb w = Some w'" "ts_pcbs w pcb = Some b"
  shows "\<exists>m. ts_pcbs w' pcb = Some (b\<lparr>t_mss := m\<rparr>)"
  using assms by (cases b) (auto simp: tcp_parseopt_def pcb_upd_def in_upd_def bind_eq_Some_conv split: if_splits)

lemma view_parts: "recv_flags w = fst (snd (view w))" "in_flags (ts_in w) = fst (snd (snd (view w)))"
    "in_ackno (ts_in w) = snd (snd (snd (view w)))"
  by (simp_all add: view_def)

lemma view_recv: "view (w\<lparr>recv_flags := f\<rparr>) = (fst (view w), f, snd (snd (view w)))"
  by (simp add: view_def)

lemma unsent_of_recv [simp]: "unsent_of pcb (w\<lparr>recv_flags := f\<rparr>) = unsent_of pcb w"
  by (simp add: unsent_of_def)

text \<open>The three events do not disturb each other.\<close>

lemma event_flags [simp]:
  "(x OR TF_GOT_FIN) AND TF_CLOSED = x AND TF_CLOSED" "(x OR TF_RESET) AND TF_CLOSED = x AND TF_CLOSED"
  "(x OR TF_CLOSED) AND TF_GOT_FIN = x AND TF_GOT_FIN" "(x OR TF_RESET) AND TF_GOT_FIN = x AND TF_GOT_FIN"
  "(x OR TF_GOT_FIN) AND TF_RESET = x AND TF_RESET" "(x OR TF_CLOSED) AND TF_RESET = x AND TF_RESET"
  by (simp_all add: bit.conj_disj_distrib2 TF_GOT_FIN_def TF_CLOSED_def TF_RESET_def)

lemma closed_flag: "(x OR TF_CLOSED) AND TF_CLOSED \<noteq> 0" and reset_flag: "(x OR TF_RESET) AND TF_RESET \<noteq> 0"
proof -
  have "(x OR TF_CLOSED) AND TF_CLOSED = TF_CLOSED" "(x OR TF_RESET) AND TF_RESET = TF_RESET" by (simp_all add: bit_eq_iff bit_simps)
  then show "(x OR TF_CLOSED) AND TF_CLOSED \<noteq> 0" "(x OR TF_RESET) AND TF_RESET \<noteq> 0" by (simp_all add: TF_CLOSED_def TF_RESET_def)
qed

text \<open>How receiving acts on the view.\<close>

lemma received_facts:
  assumes "received pcb v v1" "fst v pcb = Some (s, n)"
  shows "\<And>a. a \<noteq> pcb \<Longrightarrow> fst v1 a = fst v a" "snd (snd v1) = snd (snd v)"
    "fst (snd v1) AND TF_CLOSED = fst (snd v) AND TF_CLOSED \<and> fst (snd v1) AND TF_RESET = fst (snd v) AND TF_RESET"
    "fst v1 pcb = Some (s, n) \<or> s = ESTABLISHED \<and> fst v1 pcb = Some (CLOSE_WAIT, n) \<and> fst (snd v1) AND TF_GOT_FIN \<noteq> 0"
proof -
  obtain st ev fl st1 ev1 fl1 where v: "v = (st, ev, fl)" "v1 = (st1, ev1, fl1)" by (metis prod_cases3)
  note r = assms [unfolded v received_def, simplified]
  show "fst v1 a = fst v a" if "a \<noteq> pcb" for a using r that by (auto simp: v)
  show "snd (snd v1) = snd (snd v)" "fst (snd v1) AND TF_CLOSED = fst (snd v) AND TF_CLOSED \<and> fst (snd v1) AND TF_RESET = fst (snd v) AND TF_RESET"
    using r by (auto simp: v)
  show "fst v1 pcb = Some (s, n) \<or> s = ESTABLISHED \<and> fst v1 pcb = Some (CLOSE_WAIT, n) \<and> fst (snd v1) AND TF_GOT_FIN \<noteq> 0"
    using r(1) [THEN conjunct2, THEN conjunct2, rule_format, of pcb] r(2) by (auto simp: v)
qed

text \<open>A callback may free PCBs, but changes neither the state of another nor what is noted about the segment.\<close>

definition kept :: "seen \<Rightarrow> seen \<Rightarrow> bool" where
  "kept v v' \<longleftrightarrow> snd v' = snd v \<and> (\<forall>a. fst v' a = None \<or> map_option fst (fst v' a) = map_option fst (fst v a))"

lemma kept_refl [simp]: "kept v v"
  by (simp add: kept_def)

lemma kept_trans: "kept u v \<Longrightarrow> kept v w \<Longrightarrow> kept u w"
  unfolding kept_def by (metis option.map_disc_iff)

lemma moved_kept: "moved v v' \<Longrightarrow> kept v v'"
  by (simp add: kept_def moved_def)

text \<open>Freeing a PCB.\<close>

lemma view_free: "view (tcp_free pcb w) = ((fst (view w))(pcb := None), snd (view w))"
  by (auto simp: view_def tcp_free_def stack_free_def)

lemma freed_kept:
  "moved v v1 \<Longrightarrow> kept v ((fst v1)(pcb := None), snd v1)" "kept v ((fst v)(pcb := None), snd v)"
  by (auto simp: kept_def moved_def)

locale still_abort = still_output +
  assumes err_still: "returns (\<lambda>w'. view w' = view w) (env_err_cb env f arg err w)"
begin

lemma event_err_wp [wp]:
  assumes "\<And>w'. view w' = view w \<Longrightarrow> Q w'"
  shows "returns Q (TCP_EVENT_ERR env errf arg err w)"
  unfolding TCP_EVENT_ERR_def by (intro wp assms returns_weaken [OF err_still]) simp_all

lemma tcp_pcb_remove_wp [wp]:
  assumes "\<And>w' v. moved (view w) v \<Longrightarrow> view w' = in_state pcb CLOSED v \<Longrightarrow> Q w'"
  shows "returns Q (tcp_pcb_remove env l pcb w)"
proof -
  have upd: "returns Q' (pcb_upd pcb (\<lambda>b. b\<lparr>t_state := CLOSED, t_local_port := 0\<rparr>) w)"
    if "\<And>w'. view w' = in_state pcb CLOSED (view w) \<Longrightarrow> Q' w'" for Q' and w :: "'a tcp_stack"
    using that by (auto simp: returns_def pcb_upd_def view_def in_state_def fun_eq_iff)
  show ?thesis unfolding tcp_pcb_remove_def Let_def
    by (rule returns_bind, rule tcp_pcb_purge_wp, intro wp upd; rule assms; simp)
qed

text \<open>Aborting a connection frees its PCB and no more.\<close>

lemma tcp_abandon_wp [wp]:
  assumes "\<And>w'. kept (view w) (view w') \<Longrightarrow> Q w'"
  shows "returns Q (tcp_abandon env p reset w)"
  unfolding tcp_abandon_def TCP_PCB_REMOVE_ACTIVE_def
  by (intro wp; (rule assms)?; simp add: view_free freed_kept)

lemma tcp_abort_wp [wp]:
  assumes "\<And>w'. kept (view w) (view w') \<Longrightarrow> Q w'"
  shows "returns Q (tcp_abort env p w)"
  unfolding tcp_abort_def by (intro wp assms)

end

text \<open>What the processing of a segment is to achieve.\<close>

definition process_ok :: "nat \<Rightarrow> tcp_pcb \<Rightarrow> 'a tcp_stack \<Rightarrow> err_t \<times> 'a tcp_stack \<Rightarrow> bool" where
  "process_ok pcb b w = (\<lambda>(err, w'). err \<noteq> ERR_ABRT \<longrightarrow> others_kept pcb (view w) (view w')
     \<and> (\<forall>u. unsent_of pcb w' = Some u \<longrightarrow>
          stepped pcb (handshake_done (ts_in w) b) (fin_acknowledged (ts_in w) b u) (reset_accepted (ts_in w) b) (t_state b) (view w) (view w')))"

lemma process_okI:
  assumes "others_kept pcb (view w) (view w')"
    and "\<And>u. unsent_of pcb w' = Some u \<Longrightarrow>
      stepped pcb (handshake_done (ts_in w) b) (fin_acknowledged (ts_in w) b u) (reset_accepted (ts_in w) b) (t_state b) (view w) (view w')"
  shows "process_ok pcb b w (err, w')"
  using assms by (simp add: process_ok_def)

text \<open>Nothing but the PCB's own fields that matter enters.\<close>

lemma process_ok_cong:
  assumes "view w1 = view w" "t_state b1 = t_state b" "t_snd_nxt b1 = t_snd_nxt b" "t_lastack b1 = t_lastack b"
    and "in_flags (ts_in w) AND TCP_RST = 0"
  shows "process_ok pcb b1 w1 = process_ok pcb b w"
proof -
  have "reset_accepted (ts_in w1) b1 = reset_accepted (ts_in w) b"
    using assms(1,5) by (simp add: reset_accepted_def view_parts)
  then show ?thesis
    using assms(1-4) unfolding process_ok_def handshake_done_def fin_acknowledged_def by (simp only: view_parts)
qed

text \<open>Receiving, then perhaps a new state for the PCB.\<close>

lemma received_others:
  assumes "received pcb v v1" "fst v pcb = Some (s, n)"
  shows "others_kept pcb v v1" "others_kept pcb v (in_state pcb s' v1)"
  using received_facts(1) [OF assms] by (simp_all add: others_kept_def)

lemma idle_stepped:
  assumes "fst v' pcb = Some (s, n)" "fst (snd v') AND TF_GOT_FIN = 0" "fst (snd v') AND TF_CLOSED = fst (snd v) AND TF_CLOSED"
    and "fst (snd v') AND TF_RESET \<noteq> 0 \<longleftrightarrow> fst (snd v) AND TF_RESET \<noteq> 0 \<or> reset"
    and "s = SYN_SENT \<or> s = SYN_RCVD \<Longrightarrow> \<not> opened" "s = FIN_WAIT_1 \<or> s = CLOSING \<or> s = LAST_ACK \<Longrightarrow> \<not> acked"
  shows "stepped pcb opened acked reset s v v'"
  using assms by (cases s) (auto simp: stepped_def)

lemma no_reset: "in_flags v AND TCP_RST = 0 \<Longrightarrow> \<not> reset_accepted v b"
  by (simp add: reset_accepted_def)

lemma others_kept_refl [simp]: "others_kept pcb v v"
  by (simp add: others_kept_def)

context still_output
begin

lemma process_established:
  assumes b: "ts_pcbs w pcb = Some b" and s: "t_state b = ESTABLISHED \<or> t_state b = CLOSE_WAIT"
    and fl: "in_flags (ts_in w) AND TCP_RST = 0"
  shows "returns (process_ok pcb b w) (process_state env pcb (t_state b) w)"
proof -
  have e: "process_state env pcb (t_state b) w = Option.bind (tcp_receive env pcb w) (\<lambda>w. map_option (Pair ERR_OK) (got_fin pcb w))"
    using s by (auto simp: process_state_def)
  have "process_ok pcb b w (err, w')" if r: "received pcb (view w) (view w1)"
    and w': "view w' = (if recv_flags w1 AND TF_GOT_FIN \<noteq> 0 then in_state pcb CLOSE_WAIT (view w1) else view w1)" for w1 w' err
  proof (rule process_okI)
    show "others_kept pcb (view w) (view w')" using received_others [OF r view_pcb [OF b]] w' by simp
    show "stepped pcb (handshake_done (ts_in w) b) (fin_acknowledged (ts_in w) b u) (reset_accepted (ts_in w) b) (t_state b) (view w) (view w')" for u
      using received_facts(3,4) [OF r view_pcb [OF b]] s w' no_reset [OF fl] by (auto simp: stepped_def view_parts split: if_splits)
  qed
  then show ?thesis unfolding e by (intro wp) blast
qed

text \<open>With neither RST nor SYN, the code's test is that the FIN is acknowledged.\<close>

lemma all_acked_received:
  assumes r: "received pcb (view w) (view w1)" and b: "ts_pcbs w pcb = Some b" "t_state b \<noteq> ESTABLISHED"
    and fl: "in_flags (ts_in w) AND TCP_RST = 0" "in_flags (ts_in w) AND TCP_SYN = 0"
    and Q: "\<And>u. unsent_of pcb w1 = Some u \<Longrightarrow> Q (fin_acknowledged (ts_in w) b u)"
  shows "returns Q (all_acked pcb w1)"
  using received_facts(2,4) [OF r view_pcb [OF b(1)]] b(2) fl
  by (intro wp) (auto simp: fin_acknowledged_def view_parts dest!: Q)

text \<open>After receiving, the PCB is left in its state or put into another one.\<close>

lemma received_stay:
  assumes r: "received pcb (view w) (view w1)" and b: "ts_pcbs w pcb = Some b" "t_state b \<noteq> ESTABLISHED" and fl: "in_flags (ts_in w) AND TCP_RST = 0"
    and w': "view w' = view w1" "unsent_of pcb w' = unsent_of pcb w1"
    and s: "\<And>u. unsent_of pcb w1 = Some u \<Longrightarrow> rfc793 (handshake_done (ts_in w) b) (recv_flags w1 AND TF_GOT_FIN \<noteq> 0)
      (fin_acknowledged (ts_in w) b u) (t_state b) (t_state b) \<and> \<not> (t_state b = LAST_ACK \<and> fin_acknowledged (ts_in w) b u)"
  shows "process_ok pcb b w (err, w')"
  using received_facts(3,4) [OF r view_pcb [OF b(1)]] b(2) w' s received_others(1) [OF r view_pcb [OF b(1)]] no_reset [OF fl]
  by (intro process_okI) (auto simp: stepped_def view_parts)

lemma received_go:
  assumes r: "received pcb (view w) (view w1)" and b: "ts_pcbs w pcb = Some b" "t_state b \<noteq> LAST_ACK" and fl: "in_flags (ts_in w) AND TCP_RST = 0"
    and w': "view w' = in_state pcb s' (view w1)" "unsent_of pcb w' = Some u'"
    and s: "rfc793 (handshake_done (ts_in w) b) (recv_flags w1 AND TF_GOT_FIN \<noteq> 0) (fin_acknowledged (ts_in w) b u') (t_state b) s'"
  shows "process_ok pcb b w (err, w')"
  using received_facts(3,4) [OF r view_pcb [OF b(1)]] b(2) w' s received_others(2) [OF r view_pcb [OF b(1)]] no_reset [OF fl]
  by (intro process_okI) (auto simp: stepped_def view_parts)

lemma process_fin_wait_1:
  assumes b: "ts_pcbs w pcb = Some b" and s: "t_state b = FIN_WAIT_1"
    and fl: "in_flags (ts_in w) AND TCP_RST = 0" "in_flags (ts_in w) AND TCP_SYN = 0"
  shows "returns (process_ok pcb b w) (process_state env pcb FIN_WAIT_1 w)"
proof -
  have e: "process_state env pcb FIN_WAIT_1 w = map_option (Pair ERR_OK) (process_fin_wait_1 env pcb w)" by (simp add: process_state_def)
  have ne: "t_state b \<noteq> ESTABLISHED" "t_state b \<noteq> LAST_ACK" using s by simp_all
  show ?thesis unfolding e process_fin_wait_1_def set_state_def [symmetric]
  proof (intro returns_map returns_bind tcp_receive_wp all_acked_received [OF _ b ne(1) fl], assumption, goal_cases)
    case (1 w1 u)
    have v1: "fst (view w1) pcb = Some (FIN_WAIT_1, t_snd_nxt b)" using received_facts(4) [OF 1(1) view_pcb [OF b]] s by auto
    note go = received_go [OF 1(1) b ne(2) fl(1)] and stay = received_stay [OF 1(1) b ne(1) fl(1)]
    show ?case
    proof (intro wp, goal_cases)
      case (1 w2 w')
      show ?case by (rule go) (use 1 v1 \<open>unsent_of pcb w1 = Some u\<close> in \<open>auto simp: s fin_acknowledged_def\<close>)
    next
      case (2 w2 w')
      show ?case by (rule go) (use 2 v1 \<open>unsent_of pcb w1 = Some u\<close> in \<open>auto simp: s\<close>)
    next
      case (3 w')
      show ?case by (rule go) (use 3 v1 \<open>unsent_of pcb w1 = Some u\<close> in \<open>auto simp: s\<close>)
    next
      case 4
      show ?case by (rule stay) (use 4 \<open>unsent_of pcb w1 = Some u\<close> in \<open>auto simp: s\<close>)
    qed
  qed
qed

lemma process_fin_wait_2:
  assumes b: "ts_pcbs w pcb = Some b" and s: "t_state b = FIN_WAIT_2" and fl: "in_flags (ts_in w) AND TCP_RST = 0"
  shows "returns (process_ok pcb b w) (process_state env pcb FIN_WAIT_2 w)"
proof -
  have ne: "t_state b \<noteq> ESTABLISHED" "t_state b \<noteq> LAST_ACK" using s by simp_all
  show ?thesis unfolding process_state_def tcp_state.case
  proof (intro wp, goal_cases)
    case (1 w1 w2 w')
    have "fst (view w1) pcb = Some (FIN_WAIT_2, t_snd_nxt b)" using received_facts(4) [OF 1(1) view_pcb [OF b]] s by auto
    then show ?case by (intro received_go [OF 1(1) b ne(2) fl]) (use 1 in \<open>auto simp: s\<close>)
  next
    case (2 w1)
    then show ?case by (intro received_stay [OF 2(1) b ne(1) fl]) (auto simp: s)
  qed
qed

lemma process_closing:
  assumes b: "ts_pcbs w pcb = Some b" and s: "t_state b = CLOSING"
    and fl: "in_flags (ts_in w) AND TCP_RST = 0" "in_flags (ts_in w) AND TCP_SYN = 0"
  shows "returns (process_ok pcb b w) (process_state env pcb CLOSING w)"
proof -
  have ne: "t_state b \<noteq> ESTABLISHED" "t_state b \<noteq> LAST_ACK" using s by simp_all
  show ?thesis unfolding process_state_def tcp_state.case
  proof (intro returns_bind tcp_receive_wp all_acked_received [OF _ b ne(1) fl], assumption, goal_cases)
    case (1 w1 u)
    have v1: "fst (view w1) pcb = Some (CLOSING, t_snd_nxt b)" using received_facts(4) [OF 1(1) view_pcb [OF b]] s by auto
    note go = received_go [OF 1(1) b ne(2) fl(1)] and stay = received_stay [OF 1(1) b ne(1) fl(1)]
    show ?case
    proof (intro wp, goal_cases)
      case (1 w')
      show ?case by (rule go) (use 1 v1 \<open>unsent_of pcb w1 = Some u\<close> in \<open>auto simp: s fin_acknowledged_def\<close>)
    next
      case 2
      show ?case by (rule stay) (use 2 \<open>unsent_of pcb w1 = Some u\<close> in \<open>auto simp: s\<close>)
    qed
  qed
qed

lemma process_last_ack:
  assumes b: "ts_pcbs w pcb = Some b" and s: "t_state b = LAST_ACK"
    and fl: "in_flags (ts_in w) AND TCP_RST = 0" "in_flags (ts_in w) AND TCP_SYN = 0"
  shows "returns (process_ok pcb b w) (process_state env pcb LAST_ACK w)"
proof -
  have ne: "t_state b \<noteq> ESTABLISHED" using s by simp
  show ?thesis unfolding process_state_def tcp_state.case
  proof (intro returns_bind tcp_receive_wp all_acked_received [OF _ b ne fl], assumption, intro wp, goal_cases)
    case (1 w1 u)
    note r = received_facts [OF 1(1) view_pcb [OF b]] received_others [OF 1(1) view_pcb [OF b]]
    show ?case
    proof (cases "fin_acknowledged (ts_in w) b u")
      case True
      then show ?thesis using r 1(2) s closed_flag no_reset [OF fl(1)]
        by (intro process_okI) (auto simp: stepped_def view_recv others_kept_def view_parts)
    next
      case False
      then show ?thesis using 1(2) by (simp, intro received_stay [OF 1(1) b ne fl(1)]) (auto simp: s)
    qed
  qed
qed

lemma process_syn_sent_ok:
  assumes b: "ts_pcbs w pcb = Some b" and s: "t_state b = SYN_SENT" and fl: "in_flags (ts_in w) AND TCP_RST = 0"
    and f: "recv_flags w AND TF_GOT_FIN = 0"
  shows "returns (process_ok pcb b w) (process_state env pcb SYN_SENT w)"
proof -
  note v = view_pcb [OF b] and f' = f [unfolded view_parts]
  have stay: "process_ok pcb b w (err, w')" if "moved (view w) (view w')" "\<not> handshake_done (ts_in w) b" for w' err
    using that v f' s no_reset [OF fl] by (intro process_okI) (auto simp: stepped_def others_kept_def moved_def dest: spec [of _ pcb])
  have go: "process_ok pcb b w (err, w')" if "view w' = in_state pcb ESTABLISHED (view w)" "handshake_done (ts_in w) b" for w' err
    using that v f' s no_reset [OF fl] by (intro process_okI) (auto simp: stepped_def others_kept_def)
  show ?thesis unfolding process_state_def tcp_state.case process_syn_sent_def
  proof (intro wp, goal_cases)
    case (1 b' w')
    then show ?case using b s fl by (intro go) (auto simp: handshake_done_def)
  qed (use b s fl in \<open>auto simp: handshake_done_def intro!: stay\<close>)+
qed

end

locale still_env = still_output +
  assumes accept_still: "returns (\<lambda>(_, w'). kept (view w) (view w')) (env_accept_cb env arg pcb err w)"
begin

lemma event_accept_wp:
  assumes "\<And>err w'. (err = ERR_OK \<longrightarrow> kept (view w) (view w')) \<Longrightarrow> Q (err, w')"
  shows "returns Q (TCP_EVENT_ACCEPT env lpcb pcb arg err w)"
proof -
  have cb: "returns Q (env_accept_cb env arg pcb err w)"
    by (rule returns_weaken [OF accept_still]) (auto simp: assms)
  have null: "returns Q (tcp_accept_null env pcb w)"
    unfolding tcp_accept_null_def by (intro returns_map returns_any assms) simp
  have "returns Q (case l_accept l of None \<Rightarrow> Some (ERR_ARG, w)
      | Some tcp_accept_null_fn \<Rightarrow> tcp_accept_null env pcb w
      | Some tcp_accept_cb_fn \<Rightarrow> env_accept_cb env arg pcb err w)" for l :: tcp_pcb_listen
    using cb null by (simp add: returns_Some assms split: option.split tcp_accept_fn.split)
  then show ?thesis unfolding TCP_EVENT_ACCEPT_def by (intro returns_bind returns_any [of "ts_lpcbs w lpcb"])
qed

text \<open>The last segment of the handshake may come with a FIN, too.\<close>

lemma open_ok:
  assumes b: "ts_pcbs w pcb = Some b" "t_state b = SYN_RCVD" and fl: "in_flags (ts_in w) AND TCP_RST = 0"
    and f: "recv_flags w AND TF_GOT_FIN = 0" and h: "handshake_done (ts_in w) b"
    and k: "kept (in_state pcb ESTABLISHED (view w)) (view w1)" and r: "received pcb (view w1) (view w0)" "view w2 = view w0"
    and w': "view w' = (if recv_flags w2 AND TF_GOT_FIN \<noteq> 0 then in_state pcb CLOSE_WAIT (view w2) else view w2)"
  shows "process_ok pcb b w (err, w')"
proof (cases "fst (view w1) pcb")
  case None
  then have "fst (view w2) pcb = None" "\<And>a. a \<noteq> pcb \<Longrightarrow> fst (view w2) a = fst (view w1) a"
    using r by (auto simp: received_def split: prod.splits dest: spec [of _ pcb])
  then show ?thesis using k w' by (intro process_okI) (auto simp: others_kept_def stepped_def kept_def)
next
  case (Some x)
  then obtain n where v1: "fst (view w1) pcb = Some (ESTABLISHED, n)"
    using k view_pcb [OF b(1)] by (cases x) (auto simp: kept_def dest: spec [of _ pcb])
  have k': "snd (view w1) = snd (view w)" "\<And>a. a \<noteq> pcb \<Longrightarrow> fst (view w1) a = None \<or> map_option fst (fst (view w1) a) = map_option fst (fst (view w) a)"
    using k by (auto simp: kept_def dest: spec)
  show ?thesis using received_facts [OF r(1) v1] r(2) k' h b(2) w' no_reset [OF fl]
    by (intro process_okI) (auto simp: others_kept_def stepped_def view_parts split: if_splits)
qed

lemma process_syn_rcvd_ok:
  assumes b: "ts_pcbs w pcb = Some b" and s: "t_state b = SYN_RCVD" and fl: "in_flags (ts_in w) AND TCP_RST = 0"
    and f: "recv_flags w AND TF_GOT_FIN = 0"
  shows "returns (process_ok pcb b w) (process_state env pcb SYN_RCVD w)"
proof -
  have stay: "process_ok pcb b w (err, w')" if "view w' = view w" "\<not> handshake_done (ts_in w) b" for w' err
    using that f view_pcb [OF b] s no_reset [OF fl] by (intro process_okI) (auto simp: view_parts intro: idle_stepped)
  have aborted: "process_ok pcb b w (ERR_ABRT, w')" for w' by (simp add: process_ok_def)
  note go = open_ok [OF b s fl f]
  show ?thesis unfolding process_state_def tcp_state.case process_syn_rcvd_def set_state_def [symmetric]
    by (intro wp event_accept_wp; (rule returns_any, intro wp)?; (rule aborted)?;
        use b s fl in \<open>auto simp: handshake_done_def intro: stay go\<close>)
qed

lemma process_state_ok:
  assumes b: "ts_pcbs w pcb = Some b" and fl: "in_flags (ts_in w) AND TCP_RST = 0"
    and syn: "in_flags (ts_in w) AND TCP_SYN = 0 \<or> t_state b = SYN_SENT \<or> t_state b = SYN_RCVD"
    and f: "recv_flags w AND TF_GOT_FIN = 0"
  shows "returns (process_ok pcb b w) (process_state env pcb (t_state b) w)"
proof -
  have idle: "returns (process_ok pcb b w) (Some (ERR_OK, w))" if "t_state b = CLOSED \<or> t_state b = LISTEN \<or> t_state b = TIME_WAIT"
    using view_pcb [OF b] f that no_reset [OF fl] by (intro wp process_okI) (auto simp: view_parts intro: idle_stepped)
  note each = process_fin_wait_1 [OF b _ fl] process_fin_wait_2 [OF b _ fl] process_closing [OF b _ fl]
    process_last_ack [OF b _ fl] process_syn_sent_ok [OF b _ fl f] process_syn_rcvd_ok [OF b _ fl f]
  show ?thesis
    using process_established [OF b _ fl] each syn idle by (cases "t_state b") (auto simp: process_state_def)
qed

lemma process_rst_ok:
  assumes b: "ts_pcbs w pcb = Some b" and rst: "in_flags (ts_in w) AND TCP_RST \<noteq> 0" and f: "recv_flags w AND TF_GOT_FIN = 0"
  shows "returns (process_ok pcb b w) (process_rst pcb w)"
proof -
  have n: "\<not> handshake_done (ts_in w) b" "\<not> fin_acknowledged (ts_in w) b u" for u
    using rst by (simp_all add: handshake_done_def fin_acknowledged_def)
  have st: "process_ok pcb b w (err, w')" if "view w' = (fst (view w), x, snd (snd (view w)))" "x = (if reset_accepted (ts_in w) b then recv_flags w OR TF_RESET else recv_flags w)" for w' x err
  proof (rule process_okI)
    show "others_kept pcb (view w) (view w')" by (simp add: that(1) others_kept_def)
    show "stepped pcb (handshake_done (ts_in w) b) (fin_acknowledged (ts_in w) b u) (reset_accepted (ts_in w) b) (t_state b) (view w) (view w')" for u
      using that(2) f view_pcb [OF b] n reset_flag by (intro idle_stepped) (auto simp: that(1) view_parts)
  qed
  show ?thesis unfolding process_rst_def
    by (intro wp; rule st [OF _ refl]; use b rst in \<open>auto simp: reset_accepted_def view_recv view_parts split: if_splits\<close>)
qed

lemma tcp_process_ok:
  assumes b: "ts_pcbs w pcb = Some b" and f: "recv_flags w AND TF_GOT_FIN = 0"
  shows "returns (process_ok pcb b w) (tcp_process env pcb w)"
proof (cases "in_flags (ts_in w) AND TCP_RST \<noteq> 0")
  case True
  then show ?thesis using process_rst_ok [OF b _ f] by (simp add: tcp_process_def)
next
  case rst: False
  show ?thesis
  proof (cases "in_flags (ts_in w) AND TCP_SYN \<noteq> 0 \<and> t_state b \<noteq> SYN_SENT \<and> t_state b \<noteq> SYN_RCVD")
    case True
    have "process_ok pcb b w (ERR_OK, w1)" if "view w1 = view w" for w1
      using view_pcb [OF b] f that True rst
      by (intro process_okI) (auto simp: view_parts fin_acknowledged_def no_reset intro!: idle_stepped)
    then show ?thesis using True rst b unfolding tcp_process_def by (simp, intro wp) blast
  next
    case False
    let ?b = "\<lambda>x. b\<lparr>t_tmr := x, t_keep_cnt_sent := 0, t_persist_probe := 0\<rparr>"
    have run: "returns (process_ok pcb b w) (process_state env pcb (t_state b) w1)"
      if "view w1 = view w" "ts_pcbs w1 pcb = Some (?b x\<lparr>t_mss := m\<rparr>)" for w1 x m
    proof -
      have "returns (process_ok pcb (?b x\<lparr>t_mss := m\<rparr>) w1) (process_state env pcb (t_state (?b x\<lparr>t_mss := m\<rparr>)) w1)"
        by (rule process_state_ok [OF that(2)]) (use that(1) rst False f in \<open>simp_all add: view_parts\<close>)
      then show ?thesis using process_ok_cong [OF that(1), of "?b x\<lparr>t_mss := m\<rparr>" b] rst by simp
    qed
    have opt: "returns (process_ok pcb b w) (Option.bind (tcp_parseopt pcb w1) (process_state env pcb (t_state b)))"
      if "view w1 = view w" "ts_pcbs w1 pcb = Some (?b x)" for w1 x
    proof (rule returns_bind, rule returns_any)
      fix w2
      assume w2: "tcp_parseopt pcb w1 = Some w2"
      have "view w2 = view w" using returnsD [OF tcp_parseopt_wp w2] that(1) by simp
      with tcp_parseopt_pcb [OF w2 that(2)] show "returns (process_ok pcb b w) (process_state env pcb (t_state b) w2)"
        using run by blast
    qed
    let ?x = "if t_flags b AND TF_RXCLOSED = 0 then tcp_ticks w else t_tmr b"
    have "tcp_process env pcb w = Option.bind (tcp_parseopt pcb (w\<lparr>ts_pcbs := (ts_pcbs w)(pcb \<mapsto> ?b ?x)\<rparr>)) (process_state env pcb (t_state b))"
      using rst False b by (auto simp: tcp_process_def pcb_upd_def)
    moreover have "view (w\<lparr>ts_pcbs := (ts_pcbs w)(pcb \<mapsto> ?b ?x)\<rparr>) = view w" using b by (auto simp: view_def)
    ultimately show ?thesis using opt [of "w\<lparr>ts_pcbs := (ts_pcbs w)(pcb \<mapsto> ?b ?x)\<rparr>" ?x] by simp
  qed
qed

end

end
