(* ===== verification/Bridge_Nat.thy ===== *)
theory Bridge_Nat
  imports Prelude
begin

text \<open>
  The NAT table of \<open>Tunnel/lwip_bridge.c\<close> (lines 21-71): a fixed array of
  \<open>NAT_MAX\<close> entries that remembers, for a client address and port, the data centre
  address the client was really talking to. The three C operations are translated
  as they are written, scan loops included, and shown to implement a map of bounded
  capacity; the interface \<open>bounded_map\<close> is what the packet path and the callbacks
  of the bridge rely on.
\<close>

section \<open>The interface: a map of bounded capacity\<close>

locale bounded_map =
  fixes empty :: 't
    and put :: "'t \<Rightarrow> 'k \<Rightarrow> 'v \<Rightarrow> 't"
    and del :: "'t \<Rightarrow> 'k \<Rightarrow> 't"
    and get :: "'t \<Rightarrow> 'k \<rightharpoonup> 'v"
    and invar :: "'t \<Rightarrow> bool"
    and cap :: nat
  assumes get_empty: "get empty = Map.empty"
    and get_put: "invar t \<Longrightarrow> get (put t k v) =
      (if k \<in> dom (get t) \<or> card (dom (get t)) < cap then (get t)(k \<mapsto> v) else get t)"
    and get_del: "invar t \<Longrightarrow> get (del t k) = (get t)(k := None)"
    and invar_empty: "invar empty"
    and invar_put: "invar t \<Longrightarrow> invar (put t k v)"
    and invar_del: "invar t \<Longrightarrow> invar (del t k)"
    and finite_get: "invar t \<Longrightarrow> finite (dom (get t))"
    and card_get: "invar t \<Longrightarrow> card (dom (get t)) \<le> cap"
begin

text \<open>A run of the table: \<open>(k, Some v)\<close> stores, \<open>(k, None)\<close> removes.\<close>

fun run :: "'t \<Rightarrow> ('k \<times> 'v option) list \<Rightarrow> 't" where
  "run t [] = t"
| "run t ((k, Some v) # ops) = run (put t k v) ops"
| "run t ((k, None) # ops) = run (del t k) ops"

lemma invar_run: "invar t \<Longrightarrow> invar (run t ops)"
  by (induction t ops rule: run.induct) (auto intro: invar_put invar_del)

text \<open>A key is touched only by operations on that key: the entry survives all others.\<close>

lemma get_run_other:
  "invar t \<Longrightarrow> k \<notin> fst ` set ops \<Longrightarrow> get (run t ops) k = get t k"
proof (induction t ops rule: run.induct)
  case (2 t k' v ops)
  then have "k' \<noteq> k" by auto
  then have "get (put t k' v) k = get t k"
    using 2 by (simp add: get_put)
  then show ?case using 2 by (auto intro: invar_put)
next
  case (3 t k' ops)
  then have "k' \<noteq> k" by auto
  then have "get (del t k') k = get t k"
    using 3 by (simp add: get_del)
  then show ?case using 3 by (auto intro: invar_del)
qed simp

lemma get_put_same:
  "invar t \<Longrightarrow> k \<in> dom (get t) \<or> card (dom (get t)) < cap \<Longrightarrow> get (put t k v) k = Some v"
  by (simp add: get_put)

text \<open>What was stored is found after any further operations on other keys.\<close>

lemma get_put_run:
  assumes "invar t" "k \<in> dom (get t) \<or> card (dom (get t)) < cap" "k \<notin> fst ` set ops"
  shows "get (run (put t k v) ops) k = Some v"
  using assms by (simp add: get_run_other invar_put get_put_same)

text \<open>A full table drops a new key and nothing else changes.\<close>

lemma get_put_full:
  "invar t \<Longrightarrow> k \<notin> dom (get t) \<Longrightarrow> card (dom (get t)) = cap \<Longrightarrow> get (put t k v) = get t"
  by (auto simp: get_put)

end

section \<open>The table of the bridge\<close>

definition NAT_MAX :: nat where
  "NAT_MAX = 128"

record nat_entry =
  ne_client_ip :: u32
  ne_client_port :: u16
  ne_dc_ip :: u32
  ne_used :: bool

type_synonym nat_table = "nat_entry list"

text \<open>\<open>memset(g_nat, 0, sizeof(g_nat))\<close>\<close>

definition nat_clear :: nat_table where
  "nat_clear = replicate NAT_MAX
     \<lparr>ne_client_ip = 0, ne_client_port = 0, ne_dc_ip = 0, ne_used = False\<rparr>"

text \<open>The guard the three scan loops share.\<close>

definition nat_match :: "u32 \<Rightarrow> u16 \<Rightarrow> nat_entry \<Rightarrow> bool" where
  "nat_match ip port e \<longleftrightarrow> ne_used e \<and> ne_client_ip e = ip \<and> ne_client_port e = port"

definition nat_add :: "nat_table \<Rightarrow> u32 \<Rightarrow> u16 \<Rightarrow> u32 \<Rightarrow> nat_table" where
  "nat_add t client_ip client_port dc_ip =
     (case first_index (nat_match client_ip client_port) t of
        Some i \<Rightarrow> t[i := (t ! i)\<lparr>ne_dc_ip := dc_ip\<rparr>]
      | None \<Rightarrow>
          (case first_index (\<lambda>e. \<not> ne_used e) t of
             Some i \<Rightarrow> t[i := \<lparr>ne_client_ip = client_ip, ne_client_port = client_port,
                             ne_dc_ip = dc_ip, ne_used = True\<rparr>]
           | None \<Rightarrow> t))"

definition nat_lookup :: "nat_table \<Rightarrow> u32 \<Rightarrow> u16 \<Rightarrow> u32" where
  "nat_lookup t client_ip client_port =
     (case first_index (nat_match client_ip client_port) t of
        Some i \<Rightarrow> ne_dc_ip (t ! i)
      | None \<Rightarrow> 0)"

definition nat_remove :: "nat_table \<Rightarrow> u32 \<Rightarrow> u16 \<Rightarrow> nat_table" where
  "nat_remove t client_ip client_port =
     (case first_index (nat_match client_ip client_port) t of
        Some i \<Rightarrow> t[i := (t ! i)\<lparr>ne_used := False\<rparr>]
      | None \<Rightarrow> t)"

section \<open>Abstraction and invariant\<close>

definition nat_key :: "nat_entry \<Rightarrow> u32 \<times> u16" where
  "nat_key e = (ne_client_ip e, ne_client_port e)"

definition nat_abs :: "nat_table \<Rightarrow> (u32 \<times> u16) \<rightharpoonup> u32" where
  "nat_abs t = map_of (map (\<lambda>e. (nat_key e, ne_dc_ip e)) (filter ne_used t))"

definition nat_wf :: "nat_table \<Rightarrow> bool" where
  "nat_wf t \<longleftrightarrow> length t = NAT_MAX \<and> distinct (map nat_key (filter ne_used t))"

lemma nat_match_key: "nat_match ip port e \<longleftrightarrow> ne_used e \<and> nat_key e = (ip, port)"
  by (auto simp: nat_match_def nat_key_def)

text \<open>Lookup is the abstract map, with 0 for a missing key.\<close>

lemma nat_lookup_abs:
  "nat_lookup t ip port = (case nat_abs t (ip, port) of None \<Rightarrow> 0 | Some dc \<Rightarrow> dc)"
proof (induction t)
  case Nil
  then show ?case by (simp add: nat_lookup_def nat_abs_def)
next
  case (Cons e t)
  then show ?case
    by (auto simp: nat_lookup_def nat_abs_def nat_match_key split: option.splits)
qed

lemma nat_abs_dom: "dom (nat_abs t) = nat_key ` set (filter ne_used t)"
  by (simp add: nat_abs_def dom_map_of_conv_image_fst image_image)

lemma nat_abs_dom_match: "(ip, port) \<in> dom (nat_abs t) \<longleftrightarrow> (\<exists>e \<in> set t. nat_match ip port e)"
  unfolding nat_abs_dom nat_match_key image_iff by (simp add: Bex_def eq_commute)

lemma card_nat_abs:
  assumes "nat_wf t" shows "card (dom (nat_abs t)) = length (filter ne_used t)"
proof -
  have "card (set (map nat_key (filter ne_used t))) = length (map nat_key (filter ne_used t))"
    using assms by (intro distinct_card) (simp add: nat_wf_def)
  then show ?thesis by (simp add: nat_abs_dom)
qed

lemma card_nat_abs_le: "nat_wf t \<Longrightarrow> card (dom (nat_abs t)) \<le> NAT_MAX"
  using length_filter_le [of ne_used t] by (simp add: card_nat_abs nat_wf_def)

lemma length_nat_add [simp]: "length (nat_add t ip port dc) = length t"
  by (simp add: nat_add_def split: option.splits)

lemma length_nat_remove [simp]: "length (nat_remove t ip port) = length t"
  by (simp add: nat_remove_def split: option.splits)

section \<open>The table implements the bounded map\<close>

lemma nat_abs_used:
  assumes "ne_used e" "nat_key e \<notin> nat_key ` set (filter ne_used as)"
  shows "nat_abs (as @ e # bs) = (nat_abs (as @ bs))(nat_key e \<mapsto> ne_dc_ip e)"
proof -
  have "nat_key e \<notin> dom (map_of (map (\<lambda>e. (nat_key e, ne_dc_ip e)) (filter ne_used as)))"
    using assms(2) by (simp add: dom_map_of_conv_image_fst image_image)
  with assms(1) show ?thesis
    by (simp add: nat_abs_def map_add_upd_left)
qed

lemma nat_abs_unused: "\<not> ne_used e \<Longrightarrow> nat_abs (as @ e # bs) = nat_abs (as @ bs)"
  by (simp add: nat_abs_def)

lemma nat_wf_split:
  assumes "nat_wf (as @ e # bs)" "ne_used e"
  shows "nat_key e \<notin> nat_key ` set (filter ne_used as)"
    and "nat_key e \<notin> nat_key ` set (filter ne_used bs)"
  using assms by (auto simp: nat_wf_def)

lemma nat_add_abs:
  assumes wf: "nat_wf t"
  shows "nat_abs (nat_add t ip port dc) =
    (if (ip, port) \<in> dom (nat_abs t) \<or> card (dom (nat_abs t)) < NAT_MAX
     then (nat_abs t)((ip, port) \<mapsto> dc) else nat_abs t)"
proof (cases "first_index (nat_match ip port) t")
  case (Some i)
  then obtain as e bs where t: "t = as @ e # bs" "i = length as" "nat_match ip port e"
    "\<forall>a \<in> set as. \<not> nat_match ip port a"
    by (rule first_index_split)
  then have e: "ne_used e" "nat_key e = (ip, port)"
    and as: "(ip, port) \<notin> nat_key ` set (filter ne_used as)"
    by (auto simp: nat_match_key)
  let ?e = "e\<lparr>ne_dc_ip := dc\<rparr>"
  have "nat_add t ip port dc = as @ ?e # bs"
    using Some by (simp add: nat_add_def t)
  moreover have "nat_abs (as @ ?e # bs) = (nat_abs (as @ bs))((ip, port) \<mapsto> dc)"
    using e as nat_abs_used [of ?e as bs] by (simp add: nat_key_def)
  moreover have "nat_abs t = (nat_abs (as @ bs))((ip, port) \<mapsto> ne_dc_ip e)"
    using e as by (simp add: t(1) nat_abs_used)
  ultimately show ?thesis by simp
next
  case None
  then have nin: "(ip, port) \<notin> dom (nat_abs t)"
    by (auto simp: nat_abs_dom scan_simps nat_match_key)
  show ?thesis
  proof (cases "first_index (\<lambda>e. \<not> ne_used e) t")
    case (Some i)
    then obtain as e bs where t: "t = as @ e # bs" "i = length as" "\<not> ne_used e"
      by (rule first_index_split)
    let ?n = "\<lparr>ne_client_ip = ip, ne_client_port = port, ne_dc_ip = dc, ne_used = True\<rparr>"
    have add: "nat_add t ip port dc = as @ ?n # bs"
      using Some None by (simp add: nat_add_def t)
    have "(ip, port) \<notin> nat_key ` set (filter ne_used as)"
      using nin by (auto simp: nat_abs_dom t(1))
    then have "nat_abs (nat_add t ip port dc) = (nat_abs t)((ip, port) \<mapsto> dc)"
      using nat_abs_used [of ?n as bs] nat_abs_unused [OF t(3)]
      by (simp only: add) (simp add: t(1) nat_key_def)
    moreover have "length (filter ne_used t) < length t"
      using t(3) length_filter_le [of ne_used as] length_filter_le [of ne_used bs]
      by (simp add: t(1) le_imp_less_Suc add_mono)
    then have "card (dom (nat_abs t)) < NAT_MAX"
      using wf by (simp add: card_nat_abs) (simp add: nat_wf_def)
    ultimately show ?thesis by simp
  next
    case full: None
    then have "filter ne_used t = t"
      by (simp add: scan_simps)
    then have "card (dom (nat_abs t)) = NAT_MAX"
      using wf by (simp add: card_nat_abs) (simp add: nat_wf_def)
    with full None nin show ?thesis by (simp add: nat_add_def)
  qed
qed

lemma nat_add_wf:
  assumes wf: "nat_wf t" shows "nat_wf (nat_add t ip port dc)"
proof (cases "first_index (nat_match ip port) t")
  case (Some i)
  then obtain as e bs where t: "t = as @ e # bs" "i = length as" "nat_match ip port e"
    by (rule first_index_split)
  then have "nat_add t ip port dc = as @ e\<lparr>ne_dc_ip := dc\<rparr> # bs"
    using Some by (simp add: nat_add_def)
  moreover have "nat_key (e\<lparr>ne_dc_ip := dc\<rparr>) = nat_key e"
    by (simp add: nat_key_def)
  ultimately show ?thesis
    using wf unfolding nat_wf_def t(1) by (simp split: if_splits)
next
  case None
  then have nin: "(ip, port) \<notin> nat_key ` set (filter ne_used t)"
    by (auto simp: scan_simps nat_match_key)
  show ?thesis
  proof (cases "first_index (\<lambda>e. \<not> ne_used e) t")
    case (Some i)
    then obtain as e bs where t: "t = as @ e # bs" "i = length as" "\<not> ne_used e"
      by (rule first_index_split)
    let ?n = "\<lparr>ne_client_ip = ip, ne_client_port = port, ne_dc_ip = dc, ne_used = True\<rparr>"
    have add: "nat_add t ip port dc = as @ ?n # bs"
      using Some None by (simp add: nat_add_def t)
    have "nat_key ?n \<notin> nat_key ` set (filter ne_used as)" "nat_key ?n \<notin> nat_key ` set (filter ne_used bs)"
      using nin by (auto simp: t(1) nat_key_def)
    then show ?thesis
      using wf t(3) unfolding nat_wf_def add unfolding t(1) by simp
  next
    case full: None
    with None wf show ?thesis by (simp add: nat_add_def)
  qed
qed

lemma nat_remove_abs:
  assumes wf: "nat_wf t"
  shows "nat_abs (nat_remove t ip port) = (nat_abs t)((ip, port) := None)"
proof (cases "first_index (nat_match ip port) t")
  case (Some i)
  then obtain as e bs where t: "t = as @ e # bs" "i = length as" "nat_match ip port e"
    by (rule first_index_split)
  then have e: "ne_used e" "nat_key e = (ip, port)"
    by (auto simp: nat_match_key)
  have "nat_remove t ip port = as @ e\<lparr>ne_used := False\<rparr> # bs"
    using Some by (simp add: nat_remove_def t)
  moreover have "(ip, port) \<notin> dom (nat_abs (as @ bs))"
    using nat_wf_split [OF wf [unfolded t(1)] e(1)] e(2) by (auto simp: nat_abs_dom)
  then have "nat_abs (as @ bs) (ip, port) = None" by (simp add: domIff)
  ultimately show ?thesis
    using e nat_wf_split(1) [OF wf [unfolded t(1)] e(1)]
    by (simp add: t(1) nat_abs_used nat_abs_unused fun_upd_idem)
next
  case None
  then have "(ip, port) \<notin> dom (nat_abs t)"
    by (auto simp: nat_abs_dom scan_simps nat_match_key)
  then have "(nat_abs t)((ip, port) := None) = nat_abs t"
    by (simp add: fun_upd_idem domIff)
  with None show ?thesis
    by (simp add: nat_remove_def)
qed

lemma nat_remove_wf:
  assumes wf: "nat_wf t" shows "nat_wf (nat_remove t ip port)"
proof (cases "first_index (nat_match ip port) t")
  case (Some i)
  then obtain as e bs where t: "t = as @ e # bs" "i = length as" "nat_match ip port e"
    by (rule first_index_split)
  with Some wf show ?thesis
    by (auto simp: nat_remove_def nat_wf_def split: if_splits)
next
  case None
  with wf show ?thesis by (simp add: nat_remove_def)
qed

lemma nat_clear_wf: "nat_wf nat_clear"
  by (simp add: nat_wf_def nat_clear_def)

lemma nat_clear_abs: "nat_abs nat_clear = Map.empty"
  by (simp add: nat_abs_def nat_clear_def)

interpretation natmap: bounded_map nat_clear
  "\<lambda>t k v. nat_add t (fst k) (snd k) v" "\<lambda>t k. nat_remove t (fst k) (snd k)" nat_abs nat_wf NAT_MAX
proof unfold_locales
  show "nat_abs nat_clear = Map.empty" by (rule nat_clear_abs)
  show "nat_wf nat_clear" by (rule nat_clear_wf)
next
  fix t :: nat_table and k :: "u32 \<times> u16" and v
  assume wf: "nat_wf t"
  show "nat_abs (nat_add t (fst k) (snd k) v) =
      (if k \<in> dom (nat_abs t) \<or> card (dom (nat_abs t)) < NAT_MAX
       then (nat_abs t)(k \<mapsto> v) else nat_abs t)"
    using nat_add_abs [OF wf, of "fst k" "snd k" v] by simp
  show "nat_abs (nat_remove t (fst k) (snd k)) = (nat_abs t)(k := None)"
    using nat_remove_abs [OF wf, of "fst k" "snd k"] by simp
  show "nat_wf (nat_add t (fst k) (snd k) v)" "nat_wf (nat_remove t (fst k) (snd k))"
    by (simp_all add: wf nat_add_wf nat_remove_wf)
  show "finite (dom (nat_abs t))" by (simp add: nat_abs_dom)
  show "card (dom (nat_abs t)) \<le> NAT_MAX" using wf by (rule card_nat_abs_le)
qed

text \<open>
  A history of the table: \<open>(k, Some dc)\<close> is a call of \<open>nat_add\<close>, \<open>(k, None)\<close> a
  call of \<open>nat_remove\<close>.
\<close>

fun nat_run :: "nat_table \<Rightarrow> ((u32 \<times> u16) \<times> u32 option) list \<Rightarrow> nat_table" where
  "nat_run t [] = t"
| "nat_run t (((ip, port), Some dc) # ops) = nat_run (nat_add t ip port dc) ops"
| "nat_run t (((ip, port), None) # ops) = nat_run (nat_remove t ip port) ops"

lemma nat_run_eq: "nat_run t ops = natmap.run t ops"
  by (induction t ops rule: nat_run.induct) simp_all

lemma nat_lookup_eq_0: "nat_wf t \<Longrightarrow> (ip, port) \<notin> dom (nat_abs t) \<Longrightarrow> nat_lookup t ip port = 0"
  by (simp add: nat_lookup_abs domIff)

section \<open>Properties\<close>

text \<open>
  C4: on a well-formed table \<open>nat_add\<close>, \<open>nat_remove\<close> and \<open>nat_lookup\<close> are the
  operations of a map of capacity \<open>NAT_MAX\<close> (a new key is dropped when the table is
  full, a key that is already there is always updated; a miss reads as 0), and the
  table stays well formed: every used entry has a key of its own.
\<close>

theorem nat_table_refines_map:
  assumes "nat_wf t"
  shows "nat_abs (nat_add t ip port dc) =
      (if (ip, port) \<in> dom (nat_abs t) \<or> card (dom (nat_abs t)) < NAT_MAX
       then (nat_abs t)((ip, port) \<mapsto> dc) else nat_abs t)
    \<and> nat_abs (nat_remove t ip port) = (nat_abs t)((ip, port) := None)
    \<and> nat_lookup t ip port = (case nat_abs t (ip, port) of None \<Rightarrow> 0 | Some d \<Rightarrow> d)
    \<and> nat_wf (nat_add t ip port dc) \<and> nat_wf (nat_remove t ip port)"
  using assms by (simp add: nat_add_abs nat_remove_abs nat_add_wf nat_remove_wf nat_lookup_abs)

theorem nat_table_refines_map_witness:
  "nat_abs (nat_add nat_clear 7 80 9) (7, 80) = Some 9
    \<and> nat_abs (nat_remove nat_clear 7 80) (7, 80) = None
    \<and> nat_lookup nat_clear 7 80 = 0 \<and> nat_wf (nat_add nat_clear 7 80 9)"
  using nat_table_refines_map [OF nat_clear_wf, of 7 80 9]
  by (simp add: nat_clear_abs NAT_MAX_def)

text \<open>
  C21: a mapping stored while the table has room is found by every later lookup, whatever
  other clients' mappings are added and removed in between.
\<close>

theorem nat_mapping_survives:
  assumes "nat_wf t"
    and "(ip, port) \<in> dom (nat_abs t) \<or> card (dom (nat_abs t)) < NAT_MAX"
    and "(ip, port) \<notin> fst ` set ops"
  shows "nat_lookup (nat_run (nat_add t ip port dc) ops) ip port = dc"
  using natmap.get_put_run [OF assms(1), of "(ip, port)" ops dc] assms(2,3)
  by (simp add: nat_lookup_abs nat_run_eq)

theorem nat_mapping_survives_witness:
  "nat_lookup (nat_run (nat_add nat_clear 7 80 9) [((8, 80), Some 1), ((8, 80), None)]) 7 80 = 9"
  by (rule nat_mapping_survives [OF nat_clear_wf]) (simp_all add: nat_clear_abs NAT_MAX_def)

text \<open>
  C23: once \<open>NAT_MAX\<close> clients are mapped, \<open>nat_add\<close> for a new client changes nothing:
  the lookup that follows returns 0, so the connection of that client has no data
  centre address. Entries are only released by \<open>nat_remove\<close>.
\<close>

theorem nat_full_drops_mapping:
  assumes "nat_wf t" "card (dom (nat_abs t)) = NAT_MAX" "(ip, port) \<notin> dom (nat_abs t)"
  shows "nat_add t ip port dc = t \<and> nat_lookup (nat_add t ip port dc) ip port = 0"
proof -
  have "first_index (nat_match ip port) t = None"
    using assms(3) by (simp add: scan_simps nat_abs_dom_match)
  moreover have "filter ne_used t = t"
  proof (rule ccontr)
    assume "filter ne_used t \<noteq> t"
    then have "length (filter ne_used t) < length t"
      by (metis filter_id_conv length_filter_less)
    then show False
      using assms(1,2) card_nat_abs [OF assms(1)] by (simp add: nat_wf_def)
  qed
  then have "first_index (\<lambda>e. \<not> ne_used e) t = None"
    by (simp add: scan_simps) (metis filter_id_conv)
  ultimately have "nat_add t ip port dc = t"
    by (simp add: nat_add_def)
  with assms show ?thesis by (simp add: nat_lookup_eq_0)
qed

definition nat_full_table :: nat_table where
  "nat_full_table = map (\<lambda>i. \<lparr>ne_client_ip = word_of_nat i, ne_client_port = 80,
     ne_dc_ip = 1, ne_used = True\<rparr>) [0..<NAT_MAX]"

lemma nat_full_table_wf: "nat_wf nat_full_table"
proof -
  have "inj_on (\<lambda>i. (word_of_nat i :: u32, 80 :: u16)) {0..<128}"
  proof (rule inj_onI)
    fix i j :: nat
    assume i: "i \<in> {0..<128}" and j: "j \<in> {0..<128}"
      and "(word_of_nat i :: u32, 80 :: u16) = (word_of_nat j, 80)"
    then have "unat (word_of_nat i :: u32) = unat (word_of_nat j :: u32)" by simp
    then show "i = j" using i j by (simp add: unat_of_nat)
  qed
  moreover have "map nat_key nat_full_table = map (\<lambda>i. (word_of_nat i, 80)) [0..<128]"
    by (simp add: nat_full_table_def NAT_MAX_def nat_key_def)
  moreover have "filter ne_used nat_full_table = nat_full_table"
    by (simp add: nat_full_table_def)
  ultimately show ?thesis
    by (simp add: nat_wf_def distinct_map) (simp add: nat_full_table_def)
qed

theorem nat_full_drops_mapping_witness:
  "nat_add nat_full_table 200 80 5 = nat_full_table
    \<and> nat_lookup (nat_add nat_full_table 200 80 5) 200 80 = 0"
proof (rule nat_full_drops_mapping [OF nat_full_table_wf])
  have used: "filter ne_used nat_full_table = nat_full_table"
    by (simp add: nat_full_table_def)
  then show "card (dom (nat_abs nat_full_table)) = NAT_MAX"
    by (simp add: card_nat_abs [OF nat_full_table_wf]) (simp add: nat_full_table_def)
  have "(200 :: u32) \<noteq> word_of_nat i" if "i < 128" for i
  proof
    assume "(200 :: u32) = word_of_nat i"
    then have "unat (200 :: u32) = unat (word_of_nat i :: u32)" by simp
    with that show False by (simp add: unat_of_nat)
  qed
  then show "(200, 80) \<notin> dom (nat_abs nat_full_table)"
    unfolding nat_abs_dom used by (auto simp: nat_full_table_def nat_key_def NAT_MAX_def)
qed

end
