(* ===== verification/Bridge_Packet.thy ===== *)
theory Bridge_Packet
  imports Bridge_Nat
begin

text \<open>
  The packet rewriting of \<open>Tunnel/lwip_bridge.c\<close>: the destination of an incoming
  packet becomes the address of the lwIP interface (\<open>lwip_bridge_input\<close>), the source
  of an outgoing one becomes the data centre the client addressed (\<open>netif_output\<close>),
  and in both directions the IP header checksum and the TCP checksum are computed
  again. The specification of the checksums is RFC 1071 over the byte sequence
  (\<open>be_sum\<close> folded to 16 bits); the C loops are shown to meet it.
\<close>

section \<open>The C loops\<close>

text \<open>\<open>for (int i = 0; i < 20; i += 2) sum += ((uint16_t)buf[i] << 8) | buf[i+1];\<close>\<close>

function hdr_sum :: "u8 list \<Rightarrow> nat \<Rightarrow> u32 \<Rightarrow> u32" where
  "hdr_sum buf i acc = (if i < 20 then hdr_sum buf (i + 2) (acc + ucast (rd16 buf i)) else acc)"
  by pat_completeness auto
termination
  by (relation "measure (\<lambda>(buf, i, acc). 20 - i)") auto

text \<open>
  \<open>for (int i = 20; i < len; i += 2) { word = buf[i] << 8; if (i + 1 < len) word |= buf[i+1];
  sum2 += word; }\<close>
\<close>

function seg_sum :: "u8 list \<Rightarrow> nat \<Rightarrow> u32 \<Rightarrow> u32" where
  "seg_sum buf i sum2 =
     (if i < length buf
      then seg_sum buf (i + 2)
        (sum2 + ucast (if i + 1 < length buf then rd16 buf i else push_bit 8 (ucast (buf ! i)) :: u16))
      else sum2)"
  by pat_completeness auto
termination
  by (relation "measure (\<lambda>(buf, i, sum2). length buf - i)") auto

text \<open>\<open>while (sum >> 16) sum = (sum & 0xFFFF) + (sum >> 16);\<close>\<close>

function fold_carry :: "u32 \<Rightarrow> u32" where
  "fold_carry acc =
     (if drop_bit 16 acc \<noteq> 0 then fold_carry ((acc AND 0xFFFF) + drop_bit 16 acc) else acc)"
  by pat_completeness auto
termination
proof (relation "measure unat")
  fix s :: u32
  assume "drop_bit 16 s \<noteq> 0"
  then have "unat s div 65536 \<noteq> 0"
    by (metis u32_low_high(2) unat_eq_0)
  moreover have "unat s = 65536 * (unat s div 65536) + unat s mod 65536" by simp
  ultimately have "unat s mod 65536 + unat s div 65536 < unat s" by linarith
  then show "((s AND 0xFFFF) + drop_bit 16 s, s) \<in> measure unat"
    by (simp add: unat_fold_step)
qed simp

declare hdr_sum.simps [simp del] seg_sum.simps [simp del] fold_carry.simps [simp del]

section \<open>Rewriting\<close>

text \<open>The header checksum: cleared, summed over 20 bytes, folded, complemented, stored.\<close>

definition fix_ip_csum :: "u8 list \<Rightarrow> u8 list" where
  "fix_ip_csum buf =
     (let buf = buf[10 := 0, 11 := 0];
          acc = fold_carry (hdr_sum buf 0 0);
          csum = ucast (NOT acc) :: u16
      in buf[10 := byte_of 1 csum, 11 := byte_of 0 csum])"

text \<open>The TCP checksum with its pseudo header; only for protocol 6 and at least 40 bytes.\<close>

definition fix_tcp_csum :: "u8 list \<Rightarrow> u8 list" where
  "fix_tcp_csum buf =
     (let proto = buf ! 9 in
      if proto = 6 \<and> length buf \<ge> 40 then
        (let buf = buf[36 := 0, 37 := 0];
             tcp_len = word_of_nat (length buf) - 20 :: u16;
             sum2 = ucast (rd16 buf 12) + ucast (rd16 buf 14) + ucast (rd16 buf 16)
                  + ucast (rd16 buf 18) + ucast proto + ucast tcp_len :: u32;
             sum2 = fold_carry (seg_sum buf 20 sum2);
             tcp_csum = ucast (NOT sum2) :: u16
         in buf[36 := byte_of 1 tcp_csum, 37 := byte_of 0 tcp_csum])
      else buf)"

text \<open>
  \<open>lwip_bridge_input\<close>, from \<open>memcpy(buf, data, len)\<close> to the stored TCP checksum:
  the destination address becomes 198.18.0.2.
\<close>

definition input_rewrite :: "u8 list \<Rightarrow> u8 list" where
  "input_rewrite data =
     (let buf = data[16 := 198, 17 := 18, 18 := 0, 19 := 2]
      in fix_tcp_csum (fix_ip_csum buf))"

text \<open>
  \<open>netif_output\<close>, between the copy out of the pbuf and \<open>g_output\<close>: a packet whose
  source is 198.18.0.2 gets the address the NAT table has for its destination.
\<close>

definition netif_addr :: u32 where
  "netif_addr = 0xC6120002"

definition output_rewrite :: "nat_table \<Rightarrow> u8 list \<Rightarrow> u8 list" where
  "output_rewrite tbl buf =
     (if length buf \<ge> 20 then
        (let src_ip = rd32 buf 12; dst_ip = rd32 buf 16 in
         if src_ip = netif_addr then
           (let dc_ip = (if length buf \<ge> 40 then nat_lookup tbl dst_ip (rd16 buf 22) else 0);
                dc_ip = (if dc_ip = 0 then nat_lookup tbl dst_ip 0 else dc_ip)
            in if dc_ip \<noteq> 0 then
                 (let buf = buf[12 := byte_of 3 dc_ip, 13 := byte_of 2 dc_ip,
                                14 := byte_of 1 dc_ip, 15 := byte_of 0 dc_ip];
                      buf = fix_ip_csum buf
                  in if length buf \<ge> 40 then fix_tcp_csum buf else buf)
               else buf)
         else buf)
      else buf)"

section \<open>What the loops compute\<close>

lemma hdr_sum_be_sum:
  "length buf \<ge> 20 \<Longrightarrow> even i \<Longrightarrow> i \<le> 20 \<Longrightarrow>
   unat acc + be_sum (drop i (take 20 buf)) < 4294967296 \<Longrightarrow>
   unat (hdr_sum buf i acc) = unat acc + be_sum (drop i (take 20 buf))"
proof (induction buf i acc rule: hdr_sum.induct)
  case (1 buf i acc)
  show ?case
  proof (cases "i < 20")
    case True
    then have i: "i + 1 < length (take 20 buf)"
      using "1.prems"(1,2) by (simp add: min_def) presburger
    have rd: "rd16 (take 20 buf) i = rd16 buf i"
      using i by (intro rd16_other) auto
    have step: "be_sum (drop i (take 20 buf)) = unat (rd16 buf i) + be_sum (drop (i + 2) (take 20 buf))"
      using be_sum_drop_step [OF i] by (simp add: rd)
    have acc: "unat (acc + ucast (rd16 buf i)) = unat acc + unat (rd16 buf i)"
      using "1.prems"(4) step by (simp add: unat_word_ariths byte_simps del: rd16_nat)
    have "i + 2 \<le> 20" using i "1.prems"(2) by simp
    then have "unat (hdr_sum buf (i + 2) (acc + ucast (rd16 buf i)))
        = unat (acc + ucast (rd16 buf i)) + be_sum (drop (i + 2) (take 20 buf))"
      using True "1.prems" acc step by (intro "1.IH") auto
    then show ?thesis
      using True acc step by (simp add: hdr_sum.simps [of buf i acc])
  next
    case False
    then show ?thesis by (simp add: hdr_sum.simps [of buf i acc])
  qed
qed

lemma seg_sum_be_sum:
  "even i \<Longrightarrow> unat acc + be_sum (drop i buf) < 4294967296 \<Longrightarrow>
   unat (seg_sum buf i acc) = unat acc + be_sum (drop i buf)"
proof (induction buf i acc rule: seg_sum.induct)
  case (1 buf i acc)
  let ?w = "if i + 1 < length buf then rd16 buf i else push_bit 8 (ucast (buf ! i)) :: u16"
  show ?case
  proof (cases "i < length buf")
    case True
    have step: "be_sum (drop i buf) = unat ?w + be_sum (drop (i + 2) buf)"
    proof (cases "i + 1 < length buf")
      case True
      then show ?thesis by (simp add: be_sum_drop_step)
    next
      case False
      with True have "drop i buf = [buf ! i]" "drop (i + 2) buf = []"
        by (simp_all add: Cons_nth_drop_Suc [symmetric])
      then show ?thesis
        using False unat_u8_less [of "buf ! i"]
        by (simp add: push_bit_eq_mult unat_word_ariths byte_simps)
    qed
    have acc: "unat (acc + ucast ?w) = unat acc + unat ?w"
      using "1.prems"(2) step by (simp only: unat_word_ariths unat_u16_ucast) simp
    have "unat (seg_sum buf (i + 2) (acc + ucast ?w)) = unat (acc + ucast ?w) + be_sum (drop (i + 2) buf)"
      using True "1.prems" acc step by (intro "1.IH") auto
    then show ?thesis
      using True acc step by (simp add: seg_sum.simps [of buf i acc])
  next
    case False
    then show ?thesis by (simp add: seg_sum.simps [of buf i acc])
  qed
qed

lemma fold_carry_fold16: "unat (fold_carry s) = fold16 (unat s)"
proof (induction s rule: fold_carry.induct)
  case (1 s)
  show ?case
  proof (cases "drop_bit 16 s = 0")
    case True
    then have "unat s div 65536 = 0"
      by (metis u32_low_high(2) unat_eq_0)
    then have "unat s \<le> 65535" by (simp add: div_eq_0_iff)
    then show ?thesis
      using True by (simp add: fold_carry.simps [of s] csum_simps)
  next
    case False
    with 1 show ?thesis
      by (simp add: fold_carry.simps [of s] unat_fold_step fold16_step)
  qed
qed

lemma unat_compl_fold: "unat (ucast (NOT (fold_carry s)) :: u16) = 65535 - fold16 (unat s)"
proof -
  have le: "fold16 (unat s) \<le> 65535" by (rule fold16_le)
  have "unat (NOT (fold_carry s)) = 4294967295 - fold16 (unat s)"
    using le unat_u32_less [of "fold_carry s"]
    by (simp add: unat_not_u32 fold_carry_fold16)
  also have "\<dots> mod 65536 = 65535 - fold16 (unat s)"
  proof -
    have "4294967295 - fold16 (unat s) = (65535 - fold16 (unat s)) + 65536 * 65535"
      using le by simp
    then show ?thesis by (simp only: mod_mult_self2) simp
  qed
  finally show ?thesis
    by (simp add: unsigned_ucast_eq take_bit_eq_mod)
qed

section \<open>The checksums are right\<close>

text \<open>
  What a receiver checks (RFC 791, RFC 793 with RFC 1071): the folded sum over the
  header, or over the pseudo header and the segment, checksum field included, is all
  ones. The header is as long as its IHL field says, the segment is what the total length field
  leaves behind the header; the pseudo header is the two addresses, the protocol and the
  segment length.
\<close>

definition ip_hlen :: "u8 list \<Rightarrow> nat" where
  "ip_hlen b = 4 * (unat (b ! 0) mod 16)"

definition ip_csum_ok :: "u8 list \<Rightarrow> bool" where
  "ip_csum_ok b \<longleftrightarrow> fold16 (be_sum (take (ip_hlen b) b)) = 65535"

definition tcp_csum_ok :: "u8 list \<Rightarrow> bool" where
  "tcp_csum_ok b \<longleftrightarrow> (let segment = drop (ip_hlen b) (take (unat (rd16 b 2)) b)
     in fold16 (be_sum (take 8 (drop 12 b)) + unat (b ! 9) + length segment + be_sum segment) = 65535)"

text \<open>
  The packets the rewriting is made for: without IP options, not a fragment, and nothing behind
  the datagram.
\<close>

definition whole_plain :: "u8 list \<Rightarrow> bool" where
  "whole_plain b \<longleftrightarrow> ip_hlen b = 20 \<and> unat (rd16 b 2) = length b \<and> rd16 b 6 AND 0x3FFF = 0"

text \<open>The pseudo header and the segment as the code takes them.\<close>

definition pseudo_sum :: "u8 list \<Rightarrow> nat" where
  "pseudo_sum b = be_sum (take 8 (drop 12 b)) + unat (b ! 9) + (length b - 20)"

lemma tcp_csum_ok_plain:
  "whole_plain b \<Longrightarrow> tcp_csum_ok b \<longleftrightarrow> fold16 (pseudo_sum b + be_sum (drop 20 b)) = 65535"
  by (simp add: whole_plain_def tcp_csum_ok_def pseudo_sum_def)

lemma be_sum_take_wr16:
  assumes "i + 1 < n" "n \<le> length b" "even i"
  shows "be_sum (take n (wr16 b i x)) + unat (rd16 b i) = be_sum (take n b) + unat x"
proof -
  have "take n (wr16 b i x) = wr16 (take n b) i x"
    by (simp add: wr16_def take_update_swap)
  moreover have "rd16 (take n b) i = rd16 b i"
    using assms by (intro rd16_other) auto
  ultimately show ?thesis
    using be_sum_wr16 [of i "take n b" x] assms by simp
qed

lemma be_sum_drop_wr16:
  assumes "i + 1 < length b" "even i" "even n" "n \<le> i"
  shows "be_sum (drop n (wr16 b i x)) + unat (rd16 b i) = be_sum (drop n b) + unat x"
proof -
  have "drop n (wr16 b i x) = wr16 (drop n b) (i - n) x"
    using assms by (simp add: wr16_def drop_update_swap Suc_diff_le)
  moreover have "rd16 (drop n b) (i - n) = rd16 b i"
    using assms by (simp add: rd16_def)
  ultimately show ?thesis
    using be_sum_wr16 [of "i - n" "drop n b" x] assms by simp
qed

lemma wr16_0: "b[i := 0, Suc i := 0] = wr16 b i 0"
  by (simp add: wr16_def byte_of_def)

lemma wr16_wr16 [simp]: "wr16 (wr16 b i x) i y = wr16 b i y"
  by (simp add: wr16_def list_update_swap)

lemma rd16_0: "i + 1 < length b \<Longrightarrow> rd16 (wr16 b i 0) i = 0"
  by (rule rd16_wr16_same)

definition ip_csum_value :: "u8 list \<Rightarrow> u16" where
  "ip_csum_value b = ucast (NOT (fold_carry (hdr_sum (wr16 b 10 0) 0 0)))"

lemma fix_ip_csum_wr16: "fix_ip_csum b = wr16 b 10 (ip_csum_value b)"
proof -
  have b0: "b[10 := 0, 11 := 0] = wr16 b 10 0" using wr16_0 [of b 10] by simp
  have "fix_ip_csum b = wr16 (wr16 b 10 0) 10 (ip_csum_value b)"
    unfolding fix_ip_csum_def ip_csum_value_def Let_def b0 by (simp add: wr16_def)
  then show ?thesis by simp
qed

lemma length_fix_ip_csum [simp]: "length (fix_ip_csum b) = length b"
  by (simp add: fix_ip_csum_wr16)

lemma fix_ip_csum_ok:
  assumes "length b \<ge> 20" shows "fold16 (be_sum (take 20 (fix_ip_csum b))) = 65535"
proof -
  define b0 where "b0 = wr16 b 10 0"
  have len: "length b0 \<ge> 20" using assms by (simp add: b0_def)
  have "be_sum (take 20 b0) \<le> 65535 * ((length (take 20 b0) + 1) div 2)"
    by (rule be_sum_bound)
  then have "be_sum (take 20 b0) < 4294967296"
    using len by (simp add: min_absorb2)
  then have "unat (hdr_sum b0 0 0) = be_sum (take 20 b0)"
    using len by (subst hdr_sum_be_sum) (simp_all add: min_def)
  then have csum: "unat (ip_csum_value b) = 65535 - fold16 (be_sum (take 20 b0))"
    by (simp add: ip_csum_value_def unat_compl_fold flip: b0_def)
  have "be_sum (take 20 (fix_ip_csum b)) = be_sum (take 20 b0) + unat (ip_csum_value b)"
    using be_sum_take_wr16 [of 10 20 b0 "ip_csum_value b"] len assms
    by (simp add: fix_ip_csum_wr16 b0_def rd16_0)
  then show ?thesis
    by (simp add: csum fold16_complement)
qed

lemma be_sum_addresses:
  assumes "length b \<ge> 20"
  shows "be_sum (take 8 (drop 12 b)) = unat (rd16 b 12) + unat (rd16 b 14) + unat (rd16 b 16) + unat (rd16 b 18)"
proof -
  let ?c = "take 20 b"
  have step: "be_sum (drop i ?c) = unat (rd16 b i) + be_sum (drop (i + 2) ?c)" if "i + 1 < 20" for i
  proof -
    have "rd16 ?c i = rd16 b i"
      using that assms by (intro rd16_other) auto
    then show ?thesis
      using be_sum_drop_step [of i ?c] that assms by simp
  qed
  have "take 8 (drop 12 b) = drop 12 ?c" by (simp add: take_drop)
  then show ?thesis
    using step [of 12] step [of 14] step [of 16] step [of 18] by simp
qed

definition tcp_csum_value :: "u8 list \<Rightarrow> u16" where
  "tcp_csum_value b =
     (let b0 = wr16 b 36 0 in
      ucast (NOT (fold_carry (seg_sum b0 20
        (ucast (rd16 b0 12) + ucast (rd16 b0 14) + ucast (rd16 b0 16) + ucast (rd16 b0 18)
         + ucast (b ! 9) + ucast (word_of_nat (length b) - 20 :: u16))))))"

lemma fix_tcp_csum_wr16:
  "fix_tcp_csum b = (if b ! 9 = 6 \<and> length b \<ge> 40 then wr16 b 36 (tcp_csum_value b) else b)"
proof -
  have b0: "b[36 := 0, 37 := 0] = wr16 b 36 0" using wr16_0 [of b 36] by simp
  have "fix_tcp_csum b = (if b ! 9 = 6 \<and> length b \<ge> 40
      then wr16 (wr16 b 36 0) 36 (tcp_csum_value b) else b)"
    unfolding fix_tcp_csum_def tcp_csum_value_def Let_def b0 by (simp add: wr16_def)
  then show ?thesis by simp
qed

lemma length_fix_tcp_csum [simp]: "length (fix_tcp_csum b) = length b"
  by (simp add: fix_tcp_csum_wr16)

lemma pseudo_sum_wr16:
  "length b \<ge> 40 \<Longrightarrow> pseudo_sum (wr16 b 36 x) = pseudo_sum b"
  by (simp add: pseudo_sum_def be_sum_addresses) (simp add: rd16_def nth_wr16)

lemma fix_tcp_csum_ok:
  assumes "length b \<ge> 40" "length b \<le> 65535" "b ! 9 = 6"
  shows "fold16 (pseudo_sum (fix_tcp_csum b) + be_sum (drop 20 (fix_tcp_csum b))) = 65535"
proof -
  define b0 where "b0 = wr16 b 36 0"
  have len: "length b0 = length b" by (simp add: b0_def)
  have tl: "unat (word_of_nat (length b) - 20 :: u16) = length b - 20"
  proof -
    have "unat (word_of_nat (length b) :: u16) = length b"
      using assms by (simp add: unat_of_nat)
    moreover from this have "(20 :: u16) \<le> word_of_nat (length b)"
      using assms by (simp add: word_le_nat_alt)
    ultimately show ?thesis by (simp add: unat_sub)
  qed
  let ?p = "ucast (rd16 b0 12) + ucast (rd16 b0 14) + ucast (rd16 b0 16) + ucast (rd16 b0 18)
         + ucast (b ! 9) + ucast (word_of_nat (length b) - 20 :: u16) :: u32"
  have "b0 ! 9 = b ! 9" by (simp add: b0_def nth_wr16)
  then have p: "unat ?p = pseudo_sum b0"
    using assms unat_u16_less [of "rd16 b0 12"] unat_u16_less [of "rd16 b0 14"]
      unat_u16_less [of "rd16 b0 16"] unat_u16_less [of "rd16 b0 18"]
    by (simp add: pseudo_sum_def be_sum_addresses len unat_word_ariths unat_u16_ucast unat_u8_ucast tl)
  have "pseudo_sum b0 \<le> 5 * 65535 + 255"
    using assms unat_u16_less [of "rd16 b0 12"] unat_u16_less [of "rd16 b0 14"]
      unat_u16_less [of "rd16 b0 16"] unat_u16_less [of "rd16 b0 18"] unat_u8_less [of "b0 ! 9"]
    by (simp add: pseudo_sum_def be_sum_addresses len)
  moreover have "be_sum (drop 20 b0) \<le> 65535 * 32768"
  proof (rule order_trans [OF be_sum_bound])
    have "(length (drop 20 b0) + 1) div 2 \<le> 32768" using assms len by simp
    then show "65535 * ((length (drop 20 b0) + 1) div 2) \<le> 65535 * 32768" by (rule mult_le_mono2)
  qed
  ultimately have seg: "unat (seg_sum b0 20 ?p) = pseudo_sum b0 + be_sum (drop 20 b0)"
    by (subst seg_sum_be_sum) (simp_all add: p)
  have csum: "unat (tcp_csum_value b) = 65535 - fold16 (pseudo_sum b0 + be_sum (drop 20 b0))"
    unfolding tcp_csum_value_def Let_def b0_def [symmetric] unat_compl_fold seg ..
  have fix_eq: "fix_tcp_csum b = wr16 b 36 (tcp_csum_value b)"
    using assms by (simp add: fix_tcp_csum_wr16)
  have "be_sum (drop 20 (fix_tcp_csum b)) = be_sum (drop 20 b0) + unat (tcp_csum_value b)"
    using be_sum_drop_wr16 [of 36 b0 20 "tcp_csum_value b"] assms
    by (simp add: fix_eq b0_def rd16_0)
  moreover have "pseudo_sum (fix_tcp_csum b) = pseudo_sum b0"
    using assms by (simp add: fix_eq b0_def pseudo_sum_wr16)
  ultimately have "pseudo_sum (fix_tcp_csum b) + be_sum (drop 20 (fix_tcp_csum b))
      = (pseudo_sum b0 + be_sum (drop 20 b0)) + unat (tcp_csum_value b)" by simp
  then show ?thesis
    unfolding csum by (simp only: fold16_complement)
qed

lemma header_fix_tcp: "take 20 (fix_tcp_csum b) = take 20 b"
  by (simp add: fix_tcp_csum_wr16 wr16_def)

lemma nth_fix: "j \<notin> {10, 11} \<Longrightarrow> fix_ip_csum b ! j = b ! j"
  "j \<notin> {36, 37} \<Longrightarrow> fix_tcp_csum b ! j = b ! j" "b ! 9 \<noteq> 6 \<Longrightarrow> fix_tcp_csum b = b"
  by (simp_all add: fix_ip_csum_wr16 fix_tcp_csum_wr16 nth_wr16)

text \<open>The checksums of a packet that has been through both fixes.\<close>

lemma ip_hlen_fix [simp]: "ip_hlen (fix_tcp_csum (fix_ip_csum b)) = ip_hlen b"
  by (simp add: ip_hlen_def nth_fix)

lemma whole_plain_fix [simp]: "whole_plain (fix_tcp_csum (fix_ip_csum b)) = whole_plain b"
proof -
  have "rd16 (fix_tcp_csum (fix_ip_csum b)) i = rd16 b i" if "i = 2 \<or> i = 6" for i
    by (rule rd16_other) (use that in \<open>auto simp: nth_fix\<close>)
  then show ?thesis by (simp add: whole_plain_def)
qed

lemma csums_fix:
  assumes "length b \<ge> 40" "length b \<le> 65535"
  shows "ip_hlen b = 20 \<Longrightarrow> ip_csum_ok (fix_tcp_csum (fix_ip_csum b))"
    and "whole_plain b \<Longrightarrow> b ! 9 = 6 \<Longrightarrow> tcp_csum_ok (fix_tcp_csum (fix_ip_csum b))"
proof -
  show "ip_csum_ok (fix_tcp_csum (fix_ip_csum b))" if "ip_hlen b = 20"
    using fix_ip_csum_ok [of b] assms(1) that by (simp add: ip_csum_ok_def header_fix_tcp)
  show "tcp_csum_ok (fix_tcp_csum (fix_ip_csum b))" if "whole_plain b" "b ! 9 = 6"
    using fix_tcp_csum_ok [of "fix_ip_csum b"] assms that by (subst tcp_csum_ok_plain) (simp_all add: nth_fix)
qed

text \<open>The fields the checks look at are not among those the rewriting sets.\<close>

lemma wr32_plain [simp]:
  assumes "i = 12 \<or> i = 16"
  shows "ip_hlen (wr32 b i a) = ip_hlen b" "whole_plain (wr32 b i a) = whole_plain b" "wr32 b i a ! 9 = b ! 9"
proof -
  have "rd16 (wr32 b i a) k = rd16 b k" if "k = 2 \<or> k = 6" for k
    by (rule rd16_other) (use that assms in \<open>auto simp: nth_wr32\<close>)
  moreover show "ip_hlen (wr32 b i a) = ip_hlen b" "wr32 b i a ! 9 = b ! 9" using assms by (auto simp: ip_hlen_def nth_wr32)
  ultimately show "whole_plain (wr32 b i a) = whole_plain b" by (simp add: whole_plain_def)
qed

lemma set_dst: "data[16 := 198, 17 := 18, 18 := 0, 19 := 2] = wr32 data 16 netif_addr"
  by (simp add: wr32_def netif_addr_def byte_of_def)

lemma set_src: "buf[12 := byte_of 3 a, 13 := byte_of 2 a, 14 := byte_of 1 a, 15 := byte_of 0 a] = wr32 buf 12 a"
  by (simp add: wr32_def)

lemma length_input_rewrite [simp]: "length (input_rewrite d) = length d"
  by (simp add: input_rewrite_def Let_def)

lemma input_rewrite_fix: "input_rewrite d = fix_tcp_csum (fix_ip_csum (wr32 d 16 netif_addr))"
  by (simp add: input_rewrite_def Let_def set_dst)

text \<open>The bytes of the TCP checksum change for TCP only.\<close>

lemma nth_rewritten:
  assumes "i = 12 \<or> i = 16" "j \<notin> {10, 11} \<union> {i..<i + 4}" "b ! 9 = 6 \<Longrightarrow> j \<notin> {36, 37}"
  shows "fix_tcp_csum (fix_ip_csum (wr32 b i a)) ! j = b ! j"
  using assms by (cases "b ! 9 = 6") (auto simp: nth_fix nth_wr32)

lemma rd32_input_rewrite:
  assumes "length d \<ge> 20" shows "rd32 (input_rewrite d) 16 = netif_addr"
proof -
  have "rd32 (input_rewrite d) 16 = rd32 (wr32 d 16 netif_addr) 16"
    by (rule rd32_other) (auto simp: input_rewrite_def Let_def set_dst nth_fix)
  then show ?thesis using assms by (simp add: byte_simps del: rd32_nat)
qed

lemma output_rewrite_hit:
  assumes "length b \<ge> 40" "rd32 b 12 = netif_addr"
    and "nat_lookup t (rd32 b 16) (rd16 b 22) = dc" "dc \<noteq> 0"
  shows "output_rewrite t b = fix_tcp_csum (fix_ip_csum (wr32 b 12 dc))"
  unfolding output_rewrite_def Let_def set_src using assms by simp

lemma rd32_fix:
  assumes "i \<notin> {7, 8, 9, 10, 11, 33, 34, 35, 36, 37}"
  shows "rd32 (fix_tcp_csum (fix_ip_csum b)) i = rd32 b i"
  by (rule rd32_other) (use assms in \<open>auto simp: nth_fix\<close>)

section \<open>Properties\<close>

text \<open>
  C2: \<open>lwip_bridge_input\<close> hands lwIP a packet for the interface address 198.18.0.2. If the packet has no IP
  options, its IP header checksum verifies; if it also is a whole TCP datagram (not a
  fragment, nothing behind it), its TCP checksum verifies. Every byte outside the destination address, the
  header checksum and, for TCP only, the TCP checksum is the client's.
\<close>

theorem input_rewrite_correct:
  assumes "40 \<le> length d" "length d \<le> 65535"
  shows "rd32 (input_rewrite d) 16 = netif_addr
    \<and> (ip_hlen d = 20 \<longrightarrow> ip_csum_ok (input_rewrite d))
    \<and> (whole_plain d \<and> d ! 9 = 6 \<longrightarrow> tcp_csum_ok (input_rewrite d))
    \<and> length (input_rewrite d) = length d
    \<and> (\<forall>j. j \<notin> {10, 11} \<union> {16, 17, 18, 19} \<union> (if d ! 9 = 6 then {36, 37} else {}) \<longrightarrow> input_rewrite d ! j = d ! j)"
proof -
  have "input_rewrite d ! j = d ! j" if "j \<notin> {10, 11} \<union> {16, 17, 18, 19} \<union> (if d ! 9 = 6 then {36, 37} else {})" for j
    unfolding input_rewrite_fix using that by (intro nth_rewritten) (auto split: if_splits)
  moreover have "ip_hlen d = 20 \<longrightarrow> ip_csum_ok (input_rewrite d)" "whole_plain d \<and> d ! 9 = 6 \<longrightarrow> tcp_csum_ok (input_rewrite d)"
    unfolding input_rewrite_fix using assms csums_fix [of "wr32 d 16 netif_addr"] by simp_all
  ultimately show ?thesis
    using assms by (simp add: rd32_input_rewrite)
qed

definition sample_packet :: "u8 list" where
  "sample_packet = [69, 0, 0, 40, 0, 0, 64, 0, 64, 6, 0, 0, 10, 0, 0, 5, 149, 154, 167, 51,
     192, 1, 1, 187, 0, 0, 0, 1, 0, 0, 0, 0, 80, 2, 255, 255, 0, 0, 0, 0]"

theorem input_rewrite_correct_witness:
  "rd32 (input_rewrite sample_packet) 16 = netif_addr \<and> ip_csum_ok (input_rewrite sample_packet)
    \<and> tcp_csum_ok (input_rewrite sample_packet)"
proof -
  have "ip_hlen sample_packet = 20" "whole_plain sample_packet" "sample_packet ! 9 = 6" "length sample_packet = 40"
    by (simp_all add: sample_packet_def whole_plain_def ip_hlen_def rd16_def)
  then show ?thesis using input_rewrite_correct [of sample_packet] by simp
qed

text \<open>
  The header length is built into the code: the checksum it stores covers 20 bytes, so that a header
  with options, whose checksum was right before, no longer verifies.
\<close>

lemma fold16_more:
  assumes "fold16 n = 65535" shows "fold16 (n + 513) = 513"
proof -
  have n: "n \<noteq> 0" "(n - 1) mod 65535 = 65534" using assms by (auto simp: fold16_def split: if_splits)
  have "(n + 513 - 1) mod 65535 = ((n - 1) mod 65535 + 513) mod 65535" using n(1) by (simp add: mod_add_left_eq)
  then show ?thesis using n by (simp add: fold16_def)
qed

lemma options_broken:
  assumes "24 \<le> length b" "ip_hlen b = 24" "take 4 (drop 20 b) = [1, 1, 1, 0]"
  shows "\<not> ip_csum_ok (fix_tcp_csum (fix_ip_csum b))"
proof -
  let ?r = "fix_tcp_csum (fix_ip_csum b)"
  have "take 4 (drop 20 ?r) = take 4 (drop 20 b)"
    using assms(1) by (intro nth_equalityI) (auto simp: nth_fix)
  then have "take 24 ?r = take 20 ?r @ [1, 1, 1, 0]"
    using take_add [of 20 4 ?r] assms(3) by simp
  then have "be_sum (take 24 ?r) = be_sum (take 20 ?r) + 513"
    using assms(1) by (simp add: be_sum_append)
  moreover have "fold16 (be_sum (take 20 ?r)) = 65535"
    using fix_ip_csum_ok [of b] assms(1) by (simp add: header_fix_tcp)
  ultimately show ?thesis using assms(2) by (simp add: ip_csum_ok_def fold16_more)
qed

definition packet_with_options :: "u8 list" where
  "packet_with_options = [70, 0, 0, 44, 0, 0, 64, 0, 64, 6, 0xF0, 0xF8, 10, 0, 0, 5, 149, 154, 167, 51, 1, 1, 1, 0,
     192, 1, 1, 187, 0, 0, 0, 1, 0, 0, 0, 0, 80, 2, 255, 255, 0, 0, 0, 0]"

theorem input_rewrite_options_broken:
  "ip_csum_ok packet_with_options \<and> \<not> ip_csum_ok (input_rewrite packet_with_options)"
proof -
  have "ip_csum_ok packet_with_options"
    by (simp add: ip_csum_ok_def ip_hlen_def packet_with_options_def fold16_def)
  moreover have "take 4 (drop 20 (wr32 packet_with_options 16 netif_addr)) = [1, 1, 1, 0]" "ip_hlen packet_with_options = 24"
      "length packet_with_options = 44"
    by (simp_all add: wr32_def packet_with_options_def ip_hlen_def)
  ultimately show ?thesis unfolding input_rewrite_fix by (simp add: options_broken)
qed

text \<open>
  C3: \<open>netif_output\<close> gives a packet from the interface address the mapped data centre
  address as its source. Without IP options its IP header checksum verifies, and a whole TCP datagram has a
  verifying TCP checksum; every byte outside the source address, the header checksum and, for TCP only,
  the TCP checksum is unchanged.
\<close>

theorem output_rewrite_correct:
  assumes "40 \<le> length b" "length b \<le> 65535" "rd32 b 12 = netif_addr"
    and "nat_lookup t (rd32 b 16) (rd16 b 22) = dc" "dc \<noteq> 0"
  shows "rd32 (output_rewrite t b) 12 = dc
    \<and> (ip_hlen b = 20 \<longrightarrow> ip_csum_ok (output_rewrite t b))
    \<and> (whole_plain b \<and> b ! 9 = 6 \<longrightarrow> tcp_csum_ok (output_rewrite t b))
    \<and> length (output_rewrite t b) = length b
    \<and> (\<forall>j. j \<notin> {10, 11} \<union> {12, 13, 14, 15} \<union> (if b ! 9 = 6 then {36, 37} else {}) \<longrightarrow> output_rewrite t b ! j = b ! j)"
proof -
  have eq: "output_rewrite t b = fix_tcp_csum (fix_ip_csum (wr32 b 12 dc))"
    using assms by (intro output_rewrite_hit)
  have "output_rewrite t b ! j = b ! j" if "j \<notin> {10, 11} \<union> {12, 13, 14, 15} \<union> (if b ! 9 = 6 then {36, 37} else {})" for j
    unfolding eq using that by (intro nth_rewritten) (auto split: if_splits)
  moreover have "ip_hlen b = 20 \<longrightarrow> ip_csum_ok (output_rewrite t b)" "whole_plain b \<and> b ! 9 = 6 \<longrightarrow> tcp_csum_ok (output_rewrite t b)"
    unfolding eq using assms csums_fix [of "wr32 b 12 dc"] by simp_all
  moreover have "rd32 (output_rewrite t b) 12 = dc"
    using assms(1) by (simp add: eq rd32_fix byte_simps del: rd32_nat)
  ultimately show ?thesis by (simp add: eq)
qed

definition sample_reply :: "u8 list" where
  "sample_reply = [69, 0, 0, 40, 0, 0, 0, 0, 255, 6, 0, 0, 198, 18, 0, 2, 10, 0, 0, 5,
     1, 187, 192, 1, 0, 0, 0, 9, 0, 0, 0, 2, 80, 18, 255, 255, 0, 0, 0, 0]"

lemma sample_reply_facts:
  "length sample_reply = 40" "rd32 sample_reply 12 = netif_addr" "rd32 sample_reply 16 = 0x0A000005"
  "rd16 sample_reply 22 = 0xC001" "sample_reply ! 9 = 6" "whole_plain sample_reply"
  by (simp_all add: sample_reply_def rd32_def rd16_def netif_addr_def whole_plain_def ip_hlen_def)

theorem output_rewrite_correct_witness:
  "rd32 (output_rewrite (nat_add nat_clear 0x0A000005 0xC001 0x959AA733) sample_reply) 12 = 0x959AA733
   \<and> tcp_csum_ok (output_rewrite (nat_add nat_clear 0x0A000005 0xC001 0x959AA733) sample_reply)"
proof -
  let ?t = "nat_add nat_clear 0x0A000005 0xC001 0x959AA733"
  have "nat_lookup ?t (rd32 sample_reply 16) (rd16 sample_reply 22) = 0x959AA733"
    by (simp add: sample_reply_facts nat_lookup_abs nat_add_abs nat_clear_wf nat_clear_abs NAT_MAX_def)
  then show ?thesis
    using output_rewrite_correct [of sample_reply ?t "0x959AA733"]
    by (simp add: sample_reply_facts)
qed

text \<open>
  C1: the translation is transparent to the client: after \<open>lwip_bridge_input\<close> has
  recorded the destination of a client packet (with room in the table, whatever other
  clients' packets are recorded and released meanwhile), a reply from the interface to
  that client address and port leaves with that destination as its source.
\<close>

theorem nat_round_trip:
  assumes "nat_wf t"
    and "(rd32 d 12, rd16 d 20) \<in> dom (nat_abs t) \<or> card (dom (nat_abs t)) < NAT_MAX"
    and "(rd32 d 12, rd16 d 20) \<notin> fst ` set ops"
    and "rd32 d 16 \<noteq> 0"
    and "40 \<le> length r" "rd32 r 12 = netif_addr" "rd32 r 16 = rd32 d 12" "rd16 r 22 = rd16 d 20"
  shows "rd32 (output_rewrite (nat_run (nat_add t (rd32 d 12) (rd16 d 20) (rd32 d 16)) ops) r) 12
    = rd32 d 16"
proof -
  let ?t = "nat_run (nat_add t (rd32 d 12) (rd16 d 20) (rd32 d 16)) ops"
  have "nat_lookup ?t (rd32 r 16) (rd16 r 22) = rd32 d 16"
    using natmap.get_put_run [OF assms(1,2,3)] by (simp add: assms nat_lookup_abs nat_run_eq)
  then have "output_rewrite ?t r = fix_tcp_csum (fix_ip_csum (wr32 r 12 (rd32 d 16)))"
    using assms by (intro output_rewrite_hit)
  then show ?thesis
    using assms(5) by (simp add: rd32_fix byte_simps del: rd32_nat)
qed

theorem nat_round_trip_witness:
  "rd32 (output_rewrite (nat_run (nat_add nat_clear (rd32 sample_packet 12) (rd16 sample_packet 20)
     (rd32 sample_packet 16)) [((1, 2), Some 3)]) sample_reply) 12 = 0x959AA733"
proof -
  have p: "rd32 sample_packet 12 = 0x0A000005" "rd16 sample_packet 20 = 0xC001"
    "rd32 sample_packet 16 = 0x959AA733"
    by (simp_all add: sample_packet_def rd32_def rd16_def)
  have "rd32 (output_rewrite (nat_run (nat_add nat_clear (rd32 sample_packet 12)
      (rd16 sample_packet 20) (rd32 sample_packet 16)) [((1, 2), Some 3)]) sample_reply) 12
      = rd32 sample_packet 16"
    by (rule nat_round_trip [OF nat_clear_wf])
      (simp_all add: p sample_reply_facts nat_clear_abs NAT_MAX_def)
  then show ?thesis by (simp add: p)
qed

end
