(* ===== verification/Netif.thy ===== *)
theory Netif
  imports Tcp_Timer
begin

text \<open>
  Network interfaces (\<open>Tunnel/lwip/core/netif.c\<close>): adding, removing and configuring an
  interface. Status callbacks, ARP, IGMP, statistics and the loop interface are not part of the
  configuration.
\<close>

definition netif_upd :: "nat \<Rightarrow> (netif \<Rightarrow> netif) \<Rightarrow> 'a tcp_stack \<Rightarrow> 'a tcp_stack option" where
  "netif_upd a f w = map_option (\<lambda>n. w\<lparr>ts_netifs := (ts_netifs w)(a \<mapsto> f n)\<rparr>) (ts_netifs w a)"

definition netif_do_set_ipaddr :: "'a tcp_env \<Rightarrow> nat \<Rightarrow> u32 \<Rightarrow> 'a tcp_stack \<Rightarrow> 'a tcp_stack option" where
  "netif_do_set_ipaddr env nif ipaddr w =
     do { n \<leftarrow> ts_netifs w nif;
          if ipaddr \<noteq> nif_ip_addr n then do {
            w \<leftarrow> tcp_netif_ip_addr_changed env (nif_ip_addr n) (Some ipaddr) w;
            netif_upd nif (\<lambda>n. n\<lparr>nif_ip_addr := ipaddr\<rparr>) w }
          else Some w }"

definition netif_set_ipaddr :: "'a tcp_env \<Rightarrow> nat \<Rightarrow> u32 option \<Rightarrow> 'a tcp_stack \<Rightarrow> 'a tcp_stack option" where
  "netif_set_ipaddr env nif ipaddr w = netif_do_set_ipaddr env nif (case ipaddr of None \<Rightarrow> 0 | Some a \<Rightarrow> a) w"

definition netif_do_set_netmask :: "nat \<Rightarrow> u32 \<Rightarrow> 'a tcp_stack \<Rightarrow> 'a tcp_stack option" where
  "netif_do_set_netmask nif netmask w = netif_upd nif (\<lambda>n. if netmask \<noteq> nif_netmask n then n\<lparr>nif_netmask := netmask\<rparr> else n) w"

definition netif_set_netmask :: "nat \<Rightarrow> u32 option \<Rightarrow> 'a tcp_stack \<Rightarrow> 'a tcp_stack option" where
  "netif_set_netmask nif netmask w = netif_do_set_netmask nif (case netmask of None \<Rightarrow> 0 | Some a \<Rightarrow> a) w"

definition netif_do_set_gw :: "nat \<Rightarrow> u32 \<Rightarrow> 'a tcp_stack \<Rightarrow> 'a tcp_stack option" where
  "netif_do_set_gw nif gw w = netif_upd nif (\<lambda>n. if gw \<noteq> nif_gw n then n\<lparr>nif_gw := gw\<rparr> else n) w"

definition netif_set_gw :: "nat \<Rightarrow> u32 option \<Rightarrow> 'a tcp_stack \<Rightarrow> 'a tcp_stack option" where
  "netif_set_gw nif gw w = netif_do_set_gw nif (case gw of None \<Rightarrow> 0 | Some a \<Rightarrow> a) w"

definition netif_set_addr :: "'a tcp_env \<Rightarrow> nat \<Rightarrow> u32 option \<Rightarrow> u32 option \<Rightarrow> u32 option \<Rightarrow> 'a tcp_stack \<Rightarrow> 'a tcp_stack option" where
  "netif_set_addr env nif ipaddr netmask gw w =
     do { let addr = (case ipaddr of None \<Rightarrow> 0 | Some a \<Rightarrow> a);
          w \<leftarrow> (if addr = 0 then netif_do_set_ipaddr env nif addr w else Some w);
          w \<leftarrow> netif_do_set_netmask nif (case netmask of None \<Rightarrow> 0 | Some a \<Rightarrow> a) w;
          w \<leftarrow> netif_do_set_gw nif (case gw of None \<Rightarrow> 0 | Some a \<Rightarrow> a) w;
          if addr \<noteq> 0 then netif_do_set_ipaddr env nif addr w else Some w }"

definition netif_set_default :: "nat option \<Rightarrow> 'a tcp_stack \<Rightarrow> 'a tcp_stack" where
  "netif_set_default nif w = w\<lparr>netif_default := nif\<rparr>"

definition netif_set_up :: "nat \<Rightarrow> 'a tcp_stack \<Rightarrow> 'a tcp_stack option" where
  "netif_set_up nif w = netif_upd nif (\<lambda>n. n\<lparr>nif_flags := nif_flags n OR NETIF_FLAG_UP\<rparr>) w"

definition netif_set_down :: "nat \<Rightarrow> 'a tcp_stack \<Rightarrow> 'a tcp_stack option" where
  "netif_set_down nif w = netif_upd nif (\<lambda>n. n\<lparr>nif_flags := nif_flags n AND NOT NETIF_FLAG_UP\<rparr>) w"

definition netif_set_link_up :: "nat \<Rightarrow> 'a tcp_stack \<Rightarrow> 'a tcp_stack option" where
  "netif_set_link_up nif w = netif_upd nif (\<lambda>n. n\<lparr>nif_flags := nif_flags n OR NETIF_FLAG_LINK_UP\<rparr>) w"

definition netif_set_link_down :: "nat \<Rightarrow> 'a tcp_stack \<Rightarrow> 'a tcp_stack option" where
  "netif_set_link_down nif w = netif_upd nif (\<lambda>n. n\<lparr>nif_flags := nif_flags n AND NOT NETIF_FLAG_LINK_UP\<rparr>) w"

text \<open>
  The search for an unused number: the \<open>do ... while\<close> loop, one turn per number tried. The number
  being tried is the one stored in the interface itself, so the loop cannot end when the
  interface is already on the list.
\<close>

partial_function (option) netif_find_num :: "(nat \<rightharpoonup> netif) \<Rightarrow> nat list \<Rightarrow> nat \<Rightarrow> u8 \<Rightarrow> u8 option" where
  "netif_find_num N lst nif num =
     (let num = (if num = 255 then 0 else num)
      in if \<exists>a \<in> set lst. (if a = nif then num else nif_num (the (N a))) = num
         then netif_find_num N lst nif (num + 1) else Some num)"

text \<open>\<open>init\<close> is the function that sets the interface up; it cannot fail in this program.\<close>

definition netif_add ::
    "'a tcp_env \<Rightarrow> nat \<Rightarrow> u32 option \<Rightarrow> u32 option \<Rightarrow> u32 option \<Rightarrow> (netif \<Rightarrow> err_t \<times> netif) \<Rightarrow> 'a tcp_stack
      \<Rightarrow> (nat option \<times> 'a tcp_stack) option" where
  "netif_add env nif ipaddr netmask gw init w =
     do { w \<leftarrow> netif_upd nif (\<lambda>n. n\<lparr>nif_ip_addr := 0, nif_netmask := 0, nif_gw := 0,
                nif_output := netif_null_output_ip4_fn, nif_mtu := 0, nif_flags := 0, nif_num := netif_num w\<rparr>) w;
          w \<leftarrow> netif_set_addr env nif ipaddr netmask gw w;
          n \<leftarrow> ts_netifs w nif;
          let (err, n) = init n;
          let w = w\<lparr>ts_netifs := (ts_netifs w)(nif \<mapsto> n)\<rparr>;
          if err \<noteq> ERR_OK then Some (None, w)
          else if \<not> (\<forall>a \<in> set (netif_list w). ts_netifs w a \<noteq> None) then None
          else do {
            num \<leftarrow> netif_find_num (ts_netifs w) (netif_list w) nif (nif_num n);
            w \<leftarrow> netif_upd nif (\<lambda>n. n\<lparr>nif_num := num\<rparr>) w;
            Some (Some nif, w\<lparr>netif_num := (if num = 254 then 0 else num + 1), netif_list := nif # netif_list w\<rparr>) } }"

definition netif_remove :: "'a tcp_env \<Rightarrow> nat option \<Rightarrow> 'a tcp_stack \<Rightarrow> 'a tcp_stack option" where
  "netif_remove env p w =
     (case p of None \<Rightarrow> Some w
      | Some nif \<Rightarrow> do {
          n \<leftarrow> ts_netifs w nif;
          w \<leftarrow> (if nif_ip_addr n \<noteq> 0 then tcp_netif_ip_addr_changed env (nif_ip_addr n) None w else Some w);
          w \<leftarrow> (if netif_is_up n then netif_set_down nif w else Some w);
          let w = (if netif_default w = Some nif then netif_set_default None w else w);
          Some (w\<lparr>netif_list := remove1 nif (netif_list w)\<rparr>) })"

fun find_name :: "(nat \<rightharpoonup> netif) \<Rightarrow> string \<Rightarrow> u8 \<Rightarrow> nat list \<Rightarrow> nat option option" where
  "find_name N nm num [] = Some None"
| "find_name N nm num (a # as) =
     Option.bind (N a) (\<lambda>n. if nif_num n = num \<and> nif_name n = nm then Some (Some a) else find_name N nm num as)"

end
