(* ===== verification/Ip4_Reass.thy ===== *)
theory Ip4_Reass
  imports Icmp
begin

text \<open>
  Reassembly of IP fragments (\<open>Tunnel/lwip/core/ipv4/ip4_frag.c\<close>). The list of datagrams and the
  number of queued pbufs are globals; the fragments of a datagram are sorted by their start.
\<close>

definition IP_REASS_MAXAGE :: u8 where "IP_REASS_MAXAGE = 15"

definition IP_REASS_MAX_PBUFS :: nat where "IP_REASS_MAX_PBUFS = 10"

definition IP_REASS_FLAG_LASTFRAG :: u8 where "IP_REASS_FLAG_LASTFRAG = 0x01"

definition MEMP_REASSDATA :: nat where "MEMP_REASSDATA = 3"

datatype reass_validate = TELEGRAM_FINISHED | PBUF_QUEUED | PBUF_DROPPED

text \<open>The header kept in a datagram, and the one at an address.\<close>

definition IP_ADDRESSES_AND_ID_MATCH :: "u8 list \<Rightarrow> u8 list \<Rightarrow> bool" where
  "IP_ADDRESSES_AND_ID_MATCH a b \<longleftrightarrow> rd32 a 12 = rd32 b 12 \<and> rd32 a 16 = rd32 b 16 \<and> rd16 a 4 = rd16 b 4"

definition ip_hdr_at :: "'a tcp_stack \<Rightarrow> nat \<Rightarrow> u8 list" where
  "ip_hdr_at w a = rd_bytes (ps_mem (ts_pb w)) a IP_HLEN"

section \<open>Freeing datagrams\<close>

definition ip_reass_dequeue_datagram :: "nat \<Rightarrow> 'a tcp_stack \<Rightarrow> 'a tcp_stack" where
  "ip_reass_dequeue_datagram e w =
     (stack_free MEMP_REASSDATA e w)\<lparr>reassdatagrams := filter (\<lambda>r. ir_elem r \<noteq> e) (reassdatagrams w)\<rparr>"

fun free_frags :: "(nat \<times> u16 \<times> u16) list \<Rightarrow> u16 \<Rightarrow> 'a tcp_stack \<Rightarrow> (u16 \<times> 'a tcp_stack) option" where
  "free_frags [] freed w = Some (freed, w)"
| "free_frags ((p, _, _) # fs) freed w =
     Option.bind (pbuf_clen (Some p) (ts_pb w)) (\<lambda>clen.
     Option.bind (stack_pb (pbuf_free (Some p)) w) (\<lambda>(_, w). free_frags fs (freed + clen) w))"

definition ip_reass_free_complete_datagram ::
    "'a tcp_env \<Rightarrow> ip_reassdata \<Rightarrow> 'a tcp_stack \<Rightarrow> (u16 \<times> 'a tcp_stack) option" where
  "ip_reass_free_complete_datagram env ipr w =
     do { (freed, frags, w) \<leftarrow>
            (case ir_frags ipr of
               (p, start, _) # fs \<Rightarrow>
                 if start = 0 then do {
                   b \<leftarrow> stack_buf w p;
                   w \<leftarrow> icmp_time_exceeded env p ICMP_TE_FRAG (st_bytes (p_payload b) (ir_iphdr ipr) w);
                   clen \<leftarrow> pbuf_clen (Some p) (ts_pb w);
                   (_, w) \<leftarrow> stack_pb (pbuf_free (Some p)) w;
                   Some (clen, fs, w) }
                 else Some (0, ir_frags ipr, w)
             | [] \<Rightarrow> None);
          (freed, w) \<leftarrow> free_frags frags freed w;
          let w = ip_reass_dequeue_datagram (ir_elem ipr) w;
          Some (freed, w\<lparr>ip_reass_pbufcount := ip_reass_pbufcount w - freed\<rparr>) }"

text \<open>The timer: a datagram whose timer has run out is freed.\<close>

fun reass_tmr_loop :: "'a tcp_env \<Rightarrow> ip_reassdata list \<Rightarrow> 'a tcp_stack \<Rightarrow> 'a tcp_stack option" where
  "reass_tmr_loop env [] w = Some w"
| "reass_tmr_loop env (r # rs) w =
     (if ir_timer r > 0
      then reass_tmr_loop env rs (w\<lparr>reassdatagrams :=
             map (\<lambda>x. if ir_elem x = ir_elem r then x\<lparr>ir_timer := ir_timer x - 1\<rparr> else x) (reassdatagrams w)\<rparr>)
      else Option.bind (ip_reass_free_complete_datagram env r w) (\<lambda>(_, w). reass_tmr_loop env rs w))"

definition ip_reass_tmr :: "'a tcp_env \<Rightarrow> 'a tcp_stack \<Rightarrow> 'a tcp_stack option" where
  "ip_reass_tmr env w = reass_tmr_loop env (reassdatagrams w) w"

text \<open>The oldest datagram that \<open>fraghdr\<close> does not belong to; on equal timers the last one.\<close>

definition oldest_datagram :: "u8 list \<Rightarrow> ip_reassdata list \<Rightarrow> ip_reassdata option" where
  "oldest_datagram fraghdr rs =
     foldl (\<lambda>old r. case old of None \<Rightarrow> Some r | Some o' \<Rightarrow> if ir_timer r \<le> ir_timer o' then Some r else old)
       None (filter (\<lambda>r. \<not> IP_ADDRESSES_AND_ID_MATCH (ir_iphdr r) fraghdr) rs)"

partial_function (option) ip_reass_remove_oldest_datagram ::
    "'a tcp_env \<Rightarrow> u8 list \<Rightarrow> nat \<Rightarrow> nat \<Rightarrow> 'a tcp_stack \<Rightarrow> (nat \<times> 'a tcp_stack) option" where
  "ip_reass_remove_oldest_datagram env fraghdr pbufs_needed pbufs_freed w =
     (let other_datagrams = length (filter (\<lambda>r. \<not> IP_ADDRESSES_AND_ID_MATCH (ir_iphdr r) fraghdr) (reassdatagrams w))
      in case oldest_datagram fraghdr (reassdatagrams w) of
           None \<Rightarrow> Some (pbufs_freed, w)
         | Some r \<Rightarrow> Option.bind (ip_reass_free_complete_datagram env r w) (\<lambda>(n, w).
             let pbufs_freed = pbufs_freed + unat n
             in if pbufs_freed < pbufs_needed \<and> other_datagrams > 1
                then ip_reass_remove_oldest_datagram env fraghdr pbufs_needed pbufs_freed w
                else Some (pbufs_freed, w)))"

section \<open>Adding a fragment\<close>

definition ip_reass_enqueue_new_datagram ::
    "'a tcp_env \<Rightarrow> u8 list \<Rightarrow> u16 \<Rightarrow> 'a tcp_stack \<Rightarrow> (nat option \<times> 'a tcp_stack) option" where
  "ip_reass_enqueue_new_datagram env fraghdr clen w =
     do { let (m, w) = stack_malloc MEMP_REASSDATA w;
          (m, w) \<leftarrow> (if m \<noteq> None then Some (m, w)
                 else do {
                   (freed, w) \<leftarrow> ip_reass_remove_oldest_datagram env fraghdr (unat clen) 0 w;
                   if freed \<ge> unat clen then Some (stack_malloc MEMP_REASSDATA w) else Some (None, w) });
          case m of None \<Rightarrow> Some (None, w)
          | Some e \<Rightarrow>
              Some (Some e, w\<lparr>reassdatagrams := \<lparr>ir_elem = e, ir_frags = [], ir_iphdr = fraghdr, ir_datagram_len = 0,
                ir_flags = 0, ir_timer = IP_REASS_MAXAGE\<rparr> # reassdatagrams w\<rparr>) }"

text \<open>
  Where the fragment \<open>(start, fend)\<close> goes: the loop over the fragments, with the one before the
  current one. The result has the fragments before it, those after it, and whether there is no
  hole up to it.
\<close>

fun frag_place ::
    "u16 \<Rightarrow> u16 \<Rightarrow> (nat \<times> u16 \<times> u16) option \<Rightarrow> bool \<Rightarrow> (nat \<times> u16 \<times> u16) list \<Rightarrow> (nat \<times> u16 \<times> u16) list
      \<Rightarrow> ((nat \<times> u16 \<times> u16) list \<times> (nat \<times> u16 \<times> u16) list \<times> bool) option" where
  "frag_place start fend prev valid done [] =
     (case prev of None \<Rightarrow> Some (done, [], valid)
      | Some (_, _, prev_end) \<Rightarrow> Some (done, [], valid \<and> prev_end = start))"
| "frag_place start fend prev valid done ((q, q_start, q_end) # fs) =
     (if start < q_start then
        (case prev of
           Some (_, _, prev_end) \<Rightarrow>
             if start < prev_end \<or> fend > q_start then None
             else Some (done, (q, q_start, q_end) # fs, valid \<and> prev_end = start)
         | None \<Rightarrow> if fend > q_start then None else Some (done, (q, q_start, q_end) # fs, valid))
      else if start = q_start then None
      else if start < q_end then None
      else frag_place start fend (Some (q, q_start, q_end))
             (valid \<and> (case prev of None \<Rightarrow> True | Some (_, _, prev_end) \<Rightarrow> prev_end = q_start))
             (done @ [(q, q_start, q_end)]) fs)"

text \<open>No hole after a fragment that ends at \<open>e\<close>.\<close>

fun no_holes :: "u16 \<Rightarrow> (nat \<times> u16 \<times> u16) list \<Rightarrow> bool" where
  "no_holes e [] = True"
| "no_holes e ((_, s, e') # fs) = (e = s \<and> no_holes e' fs)"

definition ip_reass_chain_frag_into_datagram_and_validate ::
    "ip_reassdata \<Rightarrow> nat \<Rightarrow> bool \<Rightarrow> 'a tcp_stack \<Rightarrow> (reass_validate \<times> ip_reassdata) option" where
  "ip_reass_chain_frag_into_datagram_and_validate ipr new_p is_last w =
     do { b \<leftarrow> stack_buf w new_p;
          let fraghdr = p_payload b;
          let len = IPH_LEN w fraghdr;
          let hlen = (ucast (IPH_HL_BYTES w fraghdr) :: u16);
          if hlen > len then Some (PBUF_DROPPED, ipr)
          else do {
            let start = IPH_OFFSET_BYTES w fraghdr;
            let fend = start + (len - hlen);
            if fend < start then Some (PBUF_DROPPED, ipr)
            else case frag_place start fend None True [] (ir_frags ipr) of
              None \<Rightarrow> Some (PBUF_DROPPED, ipr)
            | Some (before, after, valid) \<Rightarrow> do {
                let frags = before @ (new_p, start, fend) # after;
                let valid = (valid \<and> fst (snd (hd frags)) = 0 \<and> no_holes fend after);
                Some (if (is_last \<or> ir_flags ipr AND IP_REASS_FLAG_LASTFRAG \<noteq> 0) \<and> valid then TELEGRAM_FINISHED else PBUF_QUEUED,
                      ipr\<lparr>ir_frags := frags\<rparr>) } } }"

section \<open>Reassembling\<close>

text \<open>Chaining the fragments of a complete datagram.\<close>

fun chain_frags :: "nat \<Rightarrow> (nat \<times> u16 \<times> u16) list \<Rightarrow> 'a tcp_stack \<Rightarrow> 'a tcp_stack option" where
  "chain_frags p [] w = Some w"
| "chain_frags p ((r, _, _) # fs) w =
     Option.bind (stack_pb (pbuf_remove_header (Some r) IP_HLEN) w) (\<lambda>(_, w).
     Option.bind (map_option (\<lambda>pb. w\<lparr>ts_pb := pb\<rparr>) (pbuf_cat (Some p) (Some r) (ts_pb w))) (chain_frags p fs))"

definition reass_finish :: "ip_reassdata \<Rightarrow> 'a tcp_stack \<Rightarrow> (nat option \<times> 'a tcp_stack) option" where
  "reass_finish ipr w =
     (case ir_frags ipr of [] \<Rightarrow> None
      | (p, _, _) # fs \<Rightarrow> do {
          b \<leftarrow> stack_buf w p;
          let h = p_payload b;
          let w = st_bytes h (ir_iphdr ipr) w;
          let w = st_u16 (h + 2) (ir_datagram_len ipr + of_nat IP_HLEN) w;
          let w = st_u16 (h + 6) 0 w;
          let w = st_u16 (h + 10) 0 w;
          w \<leftarrow> chain_frags p fs w;
          let w = ip_reass_dequeue_datagram (ir_elem ipr) w;
          clen \<leftarrow> pbuf_clen (Some p) (ts_pb w);
          Some (Some p, w\<lparr>ip_reass_pbufcount := ip_reass_pbufcount w - clen\<rparr>) })"

definition reass_drop :: "nat \<Rightarrow> 'a tcp_stack \<Rightarrow> (nat option \<times> 'a tcp_stack) option" where
  "reass_drop p w = map_option (\<lambda>(_, w). (None, w)) (stack_pb (pbuf_free (Some p)) w)"

definition set_reass :: "ip_reassdata \<Rightarrow> 'a tcp_stack \<Rightarrow> 'a tcp_stack" where
  "set_reass ipr w = w\<lparr>reassdatagrams := map (\<lambda>x. if ir_elem x = ir_elem ipr then ipr else x) (reassdatagrams w)\<rparr>"

text \<open>From the point where the datagram \<open>ipr\<close> of the fragment is known.\<close>

definition reass_add :: "ip_reassdata \<Rightarrow> nat \<Rightarrow> nat \<Rightarrow> u16 \<Rightarrow> u16 \<Rightarrow> 'a tcp_stack \<Rightarrow> (nat option \<times> 'a tcp_stack) option" where
  "reass_add ipr p fraghdr len clen w =
     do { let offset = IPH_OFFSET_BYTES w fraghdr;
          let is_last = (IPH_OFFSET w fraghdr AND IP_MF = 0);
          let datagram_len = offset + len;
          (valid, ipr') \<leftarrow>
            (if is_last \<and> (datagram_len < offset \<or> datagram_len > 0xFFFF - of_nat IP_HLEN) then Some (PBUF_DROPPED, ipr)
             else ip_reass_chain_frag_into_datagram_and_validate ipr p is_last w);
          if valid = PBUF_DROPPED then
            reass_drop p (if ir_frags ipr = [] then ip_reass_dequeue_datagram (ir_elem ipr) w else w)
          else do {
            let w = w\<lparr>ip_reass_pbufcount := ip_reass_pbufcount w + clen\<rparr>;
            let ipr' = (if is_last then ipr'\<lparr>ir_datagram_len := datagram_len, ir_flags := ir_flags ipr' OR IP_REASS_FLAG_LASTFRAG\<rparr>
                        else ipr');
            let w = set_reass ipr' w;
            if valid = TELEGRAM_FINISHED then reass_finish ipr' w else Some (None, w) } }"

definition ip4_reass :: "'a tcp_env \<Rightarrow> nat \<Rightarrow> 'a tcp_stack \<Rightarrow> (nat option \<times> 'a tcp_stack) option" where
  "ip4_reass env p w =
     do { b \<leftarrow> stack_buf w p;
          let fraghdr = p_payload b;
          let hlen = (ucast (IPH_HL_BYTES w fraghdr) :: u16);
          if unat hlen \<noteq> IP_HLEN then reass_drop p w
          else if hlen > IPH_LEN w fraghdr then reass_drop p w
          else do {
            let len = IPH_LEN w fraghdr - hlen;
            let hdr = ip_hdr_at w fraghdr;
            clen \<leftarrow> pbuf_clen (Some p) (ts_pb w);
            (room, w) \<leftarrow>
              (if unat (ip_reass_pbufcount w) + unat clen > IP_REASS_MAX_PBUFS then do {
                 (n, w) \<leftarrow> ip_reass_remove_oldest_datagram env hdr (unat clen) 0 w;
                 Some (n \<noteq> 0 \<and> unat (ip_reass_pbufcount w) + unat clen \<le> IP_REASS_MAX_PBUFS, w) }
               else Some (True, w));
            if \<not> room then reass_drop p w
            else do {
              (m, w) \<leftarrow>
                (case find (\<lambda>r. IP_ADDRESSES_AND_ID_MATCH (ir_iphdr r) hdr) (reassdatagrams w) of
                   None \<Rightarrow> do {
                     (m, w) \<leftarrow> ip_reass_enqueue_new_datagram env hdr clen w;
                     Some (map_option (\<lambda>_. hd (reassdatagrams w)) m, w) }
                 | Some r \<Rightarrow> do {
                     let r = (if rd16 hdr 6 AND IP_OFFMASK = 0 \<and> rd16 (ir_iphdr r) 6 AND IP_OFFMASK \<noteq> 0
                              then r\<lparr>ir_iphdr := hdr\<rparr> else r);
                     Some (Some r, set_reass r w) });
              case m of None \<Rightarrow> reass_drop p w
              | Some ipr \<Rightarrow> reass_add ipr p fraghdr len clen w } } }"

section \<open>The fragments of a datagram\<close>

text \<open>The fragments are in order and do not overlap.\<close>

definition frags_ok :: "(nat \<times> u16 \<times> u16) list \<Rightarrow> bool" where
  "frags_ok fs \<longleftrightarrow> sorted_wrt (\<lambda>(_, s, e) (_, s', e'). e \<le> s' \<and> s < s') fs \<and> (\<forall>(_, s, e) \<in> set fs. s \<le> e)"

text \<open>Together they cover everything from \<open>a\<close> to \<open>z\<close> without a hole.\<close>

fun covers :: "u16 \<Rightarrow> (nat \<times> u16 \<times> u16) list \<Rightarrow> u16 \<Rightarrow> bool" where
  "covers a [] z = (a = z)"
| "covers a ((_, s, e) # fs) z = (a = s \<and> covers e fs z)"

lemma covers_append: "covers a (xs @ ys) z \<longleftrightarrow> (\<exists>m. covers a xs m \<and> covers m ys z)"
  by (induction xs arbitrary: a) auto

lemma no_holes_covers: "no_holes e fs \<longleftrightarrow> (\<exists>z. covers e fs z)"
  by (induction e fs rule: no_holes.induct) auto

lemma frags_ok_Cons:
  "frags_ok ((q, s, e) # fs) \<longleftrightarrow> s \<le> e \<and> (\<forall>(_, s', e') \<in> set fs. e \<le> s' \<and> s < s') \<and> frags_ok fs"
  by (auto simp: frags_ok_def)

lemma frags_ok_Nil [simp]: "frags_ok []"
  by (simp add: frags_ok_def)

lemma frags_ok_append:
  "frags_ok (xs @ ys) \<longleftrightarrow> frags_ok xs \<and> frags_ok ys \<and> (\<forall>(_, s, e) \<in> set xs. \<forall>(_, s', e') \<in> set ys. e \<le> s' \<and> s < s')"
  by (induction xs) (auto simp: frags_ok_Cons ball_Un)

text \<open>
  The loop of \<open>frag_place\<close>: the fragments \<open>xs\<close> have been passed, each of them ends before the new
  one, and \<open>valid\<close> says whether they have no hole.
\<close>

definition passed :: "u16 \<Rightarrow> (nat \<times> u16 \<times> u16) option \<Rightarrow> bool \<Rightarrow> (nat \<times> u16 \<times> u16) list \<Rightarrow> bool" where
  "passed start prev valid xs \<longleftrightarrow> (\<forall>(_, s, e) \<in> set xs. e \<le> start \<and> s < start)
     \<and> (if xs = [] then prev = None \<and> valid
        else prev = Some (last xs) \<and> valid = (\<exists>z. covers (fst (snd (hd xs))) xs z))"

lemma covers_last: "covers a xs z \<Longrightarrow> xs \<noteq> [] \<Longrightarrow> z = snd (snd (last xs))"
  by (induction a xs z rule: covers.induct) (auto split: if_splits)

text \<open>Adding a fragment at the end of those that have been passed.\<close>

lemma covers_snoc:
  assumes "passed start prev valid xs"
  shows "covers (fst (snd (hd (xs @ [(q, s, e)])))) (xs @ [(q, s, e)]) z
    \<longleftrightarrow> z = e \<and> valid \<and> (case prev of None \<Rightarrow> True | Some (_, _, prev_end) \<Rightarrow> prev_end = s)"
proof (cases "xs = []")
  case True
  then show ?thesis using assms by (auto simp: passed_def)
next
  case False
  obtain r a b where l: "last xs = (r, a, b)" by (cases "last xs") auto
  have "covers (fst (snd (hd xs))) (xs @ [(q, s, e)]) z \<longleftrightarrow> z = e \<and> covers (fst (snd (hd xs))) xs s"
    by (auto simp: covers_append)
  moreover have "covers (fst (snd (hd xs))) xs s \<longleftrightarrow> (\<exists>y. covers (fst (snd (hd xs))) xs y) \<and> b = s"
    using covers_last [OF _ False] l by (metis snd_conv)
  ultimately show ?thesis using assms False l by (auto simp: passed_def)
qed

lemma passed_step:
  assumes "passed start prev valid xs" "e \<le> start" "s < start"
  shows "passed start (Some (q, s, e)) (valid \<and> (case prev of None \<Rightarrow> True | Some (_, _, prev_end) \<Rightarrow> prev_end = s)) (xs @ [(q, s, e)])"
proof -
  have "(\<exists>z. covers (fst (snd (hd (xs @ [(q, s, e)])))) (xs @ [(q, s, e)]) z)
    \<longleftrightarrow> valid \<and> (case prev of None \<Rightarrow> True | Some (_, _, prev_end) \<Rightarrow> prev_end = s)"
    using covers_snoc [OF assms(1), of q s e] by blast
  then show ?thesis using assms by (simp add: passed_def ball_Un)
qed

text \<open>Placing the new fragment between those it has passed and those that start behind its end.\<close>

lemma frags_ok_insert:
  assumes "frags_ok (xs @ ys)" "\<forall>(_, s, e) \<in> set xs. e \<le> start \<and> s < start" "start \<le> fend"
    and "\<forall>(_, s, e) \<in> set ys. fend \<le> s \<and> start < s"
  shows "frags_ok (xs @ (p, start, fend) # ys)"
  using assms by (auto simp: frags_ok_append frags_ok_Cons)

lemma frags_ok_behind:
  assumes "frags_ok ((q, s, e) # fs)" "start < s" "fend \<le> s"
  shows "\<forall>(_, s', e') \<in> set ((q, s, e) # fs). fend \<le> s' \<and> start < s'"
  using assms by (fastforce simp: frags_ok_Cons)

lemma frag_place_spec:
  assumes "frag_place start fend prev valid xs fs = Some (before, after, v)"
    and "frags_ok (xs @ fs)" "passed start prev valid xs" "start \<le> fend"
  shows "before @ after = xs @ fs \<and> frags_ok (before @ (p, start, fend) # after)
    \<and> (v \<longleftrightarrow> covers (fst (snd (hd (before @ [(p, start, fend)])))) (before @ [(p, start, fend)]) fend)"
  using assms
proof (induction start fend prev valid xs fs rule: frag_place.induct)
  case (1 start fend prev valid xs)
  have "before = xs \<and> after = [] \<and> v = (valid \<and> (case prev of None \<Rightarrow> True | Some (_, _, prev_end) \<Rightarrow> prev_end = start))"
    using 1(1) by (auto split: option.splits prod.splits)
  moreover have "frags_ok (xs @ [(p, start, fend)])"
    using 1(2-4) by (intro frags_ok_insert) (simp_all add: passed_def)
  ultimately show ?case using covers_snoc [OF 1(3)] by simp
next
  case (2 start fend prev valid xs q s e fs)
  consider (before) "start < s" | (same) "start = s" | (overlap) "start > s" "start < e" | (after) "start > s" "e \<le> start" by fastforce
  then show ?case
  proof cases
    case before
    have r: "before = xs \<and> after = (q, s, e) # fs \<and> fend \<le> s
      \<and> v = (valid \<and> (case prev of None \<Rightarrow> True | Some (_, _, prev_end) \<Rightarrow> prev_end = start))"
      using 2(2) before by (auto split: option.splits prod.splits if_splits)
    have "frags_ok ((q, s, e) # fs)" using 2(3) by (simp add: frags_ok_append)
    then have "frags_ok (xs @ (p, start, fend) # (q, s, e) # fs)"
      using frags_ok_insert [OF 2(3) _ 2(5)] frags_ok_behind before r 2(4) by (simp add: passed_def)
    then show ?thesis using r covers_snoc [OF 2(4)] by simp
  next
    case after
    then have "\<not> start < s" "start \<noteq> s" "\<not> start < e" by auto
    then show ?thesis using 2 passed_step [OF 2(4) after(2,1), of q] by simp
  next
    case overlap
    then have "\<not> start < s" "start \<noteq> s" by auto
    then show ?thesis using 2(2) overlap by simp
  qed (use 2(2) in simp)
qed

text \<open>The bytes of a fragment, as the code reads them from its header.\<close>

definition frag_range :: "'a tcp_stack \<Rightarrow> nat \<Rightarrow> u16 \<times> u16" where
  "frag_range w h = (IPH_OFFSET_BYTES w h, IPH_OFFSET_BYTES w h + (IPH_LEN w h - ucast (IPH_HL_BYTES w h)))"

lemma chain_frag_spec:
  assumes "ip_reass_chain_frag_into_datagram_and_validate ipr new_p is_last w = Some (v, ipr')"
    and "stack_buf w new_p = Some b" "frag_range w (p_payload b) = (start, fend)" "frags_ok (ir_frags ipr)"
  shows "if v = PBUF_DROPPED then ipr' = ipr
    else frags_ok (ir_frags ipr')
       \<and> (\<exists>before after. ir_frags ipr = before @ after \<and> ir_frags ipr' = before @ (new_p, start, fend) # after)
       \<and> (v = TELEGRAM_FINISHED \<longleftrightarrow>
            (is_last \<or> ir_flags ipr AND IP_REASS_FLAG_LASTFRAG \<noteq> 0) \<and> (\<exists>z. covers 0 (ir_frags ipr') z))"
proof (cases "v = PBUF_DROPPED")
  case True
  then show ?thesis using assms(1)
    by (auto simp: ip_reass_chain_frag_into_datagram_and_validate_def Let_def split: bind_splits if_splits option.splits prod.splits)
next
  case False
  then obtain before after v' where ok: "start \<le> fend"
    and f: "frag_place start fend None True [] (ir_frags ipr) = Some (before, after, v')"
    and i: "ipr' = ipr\<lparr>ir_frags := before @ (new_p, start, fend) # after\<rparr>"
    and v: "v = (if (is_last \<or> ir_flags ipr AND IP_REASS_FLAG_LASTFRAG \<noteq> 0) \<and> v'
                   \<and> fst (snd (hd (before @ (new_p, start, fend) # after))) = 0 \<and> no_holes fend after
                 then TELEGRAM_FINISHED else PBUF_QUEUED)"
    using assms(1-3)
    by (auto simp: ip_reass_chain_frag_into_datagram_and_validate_def frag_range_def Let_def not_less
        split: bind_splits if_splits option.splits prod.splits)
  have s: "before @ after = ir_frags ipr \<and> frags_ok (before @ (new_p, start, fend) # after)
    \<and> (v' \<longleftrightarrow> covers (fst (snd (hd (before @ [(new_p, start, fend)])))) (before @ [(new_p, start, fend)]) fend)"
    using frag_place_spec [OF f _ _ ok, of new_p] assms(4) by (simp add: passed_def)
  have "(\<exists>z. covers 0 (before @ (new_p, start, fend) # after) z)
    \<longleftrightarrow> covers 0 (before @ [(new_p, start, fend)]) fend \<and> no_holes fend after"
    using covers_append [of 0 "before @ [(new_p, start, fend)]" after] by (auto simp: no_holes_covers covers_append)
  also have "\<dots> \<longleftrightarrow> v' \<and> fst (snd (hd (before @ (new_p, start, fend) # after))) = 0 \<and> no_holes fend after"
    using s by (cases before) auto
  finally have "v = TELEGRAM_FINISHED \<longleftrightarrow>
      (is_last \<or> ir_flags ipr AND IP_REASS_FLAG_LASTFRAG \<noteq> 0) \<and> (\<exists>z. covers 0 (ir_frags ipr') z)" using i v by simp
  moreover have "ir_frags ipr = before @ after \<and> ir_frags ipr' = before @ (new_p, start, fend) # after" using i s by simp
  then have "\<exists>before after. ir_frags ipr = before @ after \<and> ir_frags ipr' = before @ (new_p, start, fend) # after" by blast
  moreover have "frags_ok (ir_frags ipr')" using i s by simp
  ultimately show ?thesis using False by simp
qed

end
