(* ===== verification/Ip4_In.thy ===== *)
theory Ip4_In
  imports Tcp_Input Ip4_Reass
begin

text \<open>
  The input side of IP (\<open>Tunnel/lwip/core/ipv4/ip4.c\<close>): checks, the interface a packet is for,
  reassembly, and the protocol.
\<close>

definition ip4_input_accept :: "u32 \<Rightarrow> netif \<Rightarrow> bool" where
  "ip4_input_accept dest n \<longleftrightarrow>
     netif_is_up n \<and> nif_ip_addr n \<noteq> 0 \<and> (dest = nif_ip_addr n \<or> ip4_addr_isbroadcast dest n)"

text \<open>The interface that accepts the packet: the receiving one, or one of the others.\<close>

fun accept_loop :: "(nat \<rightharpoonup> netif) \<Rightarrow> u32 \<Rightarrow> nat \<Rightarrow> nat list \<Rightarrow> nat option option" where
  "accept_loop N dest inp [] = Some None"
| "accept_loop N dest inp (a # as) =
     (if a = inp then accept_loop N dest inp as
      else Option.bind (N a) (\<lambda>n. if ip4_input_accept dest n then Some (Some a) else accept_loop N dest inp as))"

definition input_netif :: "nat \<Rightarrow> u32 \<Rightarrow> 'a tcp_stack \<Rightarrow> nat option option" where
  "input_netif inp dest w =
     do { n \<leftarrow> ts_netifs w inp;
          if ip4_addr_ismulticast dest then
            Some (if netif_is_up n \<and> nif_ip_addr n \<noteq> 0 then Some inp else None)
          else if ip4_input_accept dest n then Some (Some inp)
          else if ip4_addr_isloopback dest then Some None
          else accept_loop (ts_netifs w) dest inp (netif_list w) }"

definition drop_packet :: "nat \<Rightarrow> 'a tcp_stack \<Rightarrow> 'a tcp_stack option" where
  "drop_packet p w = map_option snd (stack_pb (pbuf_free (Some p)) w)"

text \<open>The upper layers.\<close>

definition ip4_deliver :: "'a tcp_env \<Rightarrow> nat \<Rightarrow> nat \<Rightarrow> nat \<Rightarrow> u16 \<Rightarrow> 'a tcp_stack \<Rightarrow> 'a tcp_stack option" where
  "ip4_deliver env p inp nif iphdr_hlen w =
     do { b \<leftarrow> stack_buf w p;
          let iphdr = p_payload b;
          let proto = IPH_PROTO w iphdr;
          let w = w\<lparr>ip_data := (ip_data w)\<lparr>current_netif := Some nif, current_input_netif := Some inp,
                    current_ip4_header := Some iphdr, current_ip_header_tot_len := ucast (IPH_HL_BYTES w iphdr)\<rparr>\<rparr>;
          (_, w) \<leftarrow> stack_pb (pbuf_remove_header (Some p) (unat iphdr_hlen)) w;
          w \<leftarrow> (if proto = IP_PROTO_TCP then tcp_input env p w
                 else if proto = IP_PROTO_ICMP then icmp_input env p inp w
                 else do {
                   n \<leftarrow> ts_netifs w nif;
                   let dest = current_iphdr_dest (ip_data w);
                   w \<leftarrow> (if \<not> ip4_addr_isbroadcast dest n \<and> \<not> ip4_addr_ismulticast dest then do {
                            (_, w) \<leftarrow> stack_pb (pbuf_header_force (Some p) (uint iphdr_hlen)) w;
                            icmp_dest_unreach env p ICMP_DUR_PROTO w }
                          else Some w);
                   drop_packet p w });
          Some (w\<lparr>ip_data := \<lparr>current_netif = None, current_input_netif = None, current_ip4_header = None,
                    current_ip_header_tot_len = 0, current_iphdr_src = 0, current_iphdr_dest = 0\<rparr>\<rparr>) }"

definition ip4_input :: "'a tcp_env \<Rightarrow> nat \<Rightarrow> nat \<Rightarrow> 'a tcp_stack \<Rightarrow> 'a tcp_stack option" where
  "ip4_input env p inp w =
     do { b \<leftarrow> stack_buf w p;
          let iphdr = p_payload b;
          if IPH_V w iphdr \<noteq> 4 then drop_packet p w
          else do {
            let iphdr_hlen = (ucast (IPH_HL_BYTES w iphdr) :: u16);
            let iphdr_len = IPH_LEN w iphdr;
            w \<leftarrow> (if iphdr_len < p_tot_len b
                   then map_option (\<lambda>pb. w\<lparr>ts_pb := pb\<rparr>) (pbuf_realloc p iphdr_len (ts_pb w)) else Some w);
            b \<leftarrow> stack_buf w p;
            if iphdr_hlen > p_len b \<or> iphdr_len > p_tot_len b \<or> iphdr_hlen < of_nat IP_HLEN then drop_packet p w
            else do {
              let src = ld_u32 w (iphdr + 12);
              let dest = ld_u32 w (iphdr + 16);
              let w = w\<lparr>ip_data := (ip_data w)\<lparr>current_iphdr_src := src, current_iphdr_dest := dest\<rparr>\<rparr>;
              nif \<leftarrow> input_netif inp dest w;
              n \<leftarrow> ts_netifs w inp;
              if ip4_addr_isbroadcast src n \<or> ip4_addr_ismulticast src then drop_packet p w
              else case nif of None \<Rightarrow> drop_packet p w
              | Some nif \<Rightarrow>
                  if IPH_OFFSET w iphdr AND (IP_OFFMASK OR IP_MF) \<noteq> 0 then do {
                    (r, w) \<leftarrow> ip4_reass env p w;
                    case r of None \<Rightarrow> Some w | Some p \<Rightarrow> ip4_deliver env p inp nif iphdr_hlen w }
                  else ip4_deliver env p inp nif iphdr_hlen w } } }"

end
