(* ===== verification/Bridge.thy ===== *)
theory Bridge
  imports Bridge_Packet Netif Ip4_In
begin

text \<open>
  The bridge between the packet tunnel and lwIP (\<open>Tunnel/lwip_bridge.c\<close>): the connection table,
  the callbacks it registers with lwIP and the functions it offers to the tunnel. The bridge is
  the application of the stack, its globals are the state \<open>ts_app\<close>.

  The handlers the tunnel passes to \<open>lwip_bridge_init\<close> are parameters (\<open>bridge_cbs\<close>) over a state
  \<open>'u\<close> of the tunnel. The output and the close handler only change that state; the accept, receive
  and sent handlers are programs that may call the bridge. Whether the n-th \<open>malloc\<close> succeeds
  is a parameter, too.
\<close>

section \<open>State\<close>

definition MAX_CONNS :: nat where "MAX_CONNS = 64"

record conn_t =
  c_pcb :: "nat option"
  c_dc_ip :: u32
  c_client_ip :: u32
  c_client_port :: u16
  c_active :: bool

definition conns_clear :: "conn_t list" where
  "conns_clear = replicate MAX_CONNS \<lparr>c_pcb = None, c_dc_ip = 0, c_client_ip = 0, c_client_port = 0, c_active = False\<rparr>"

record 'u bridge =
  g_nat :: nat_table
  g_conns :: "conn_t list"
  g_dbg_key_ip :: u32
  g_dbg_dc :: u32
  g_dbg_nat_ip :: u32
  g_dbg_nat_dc :: u32
  g_dbg_key_port :: u16
  g_dbg_nat_port :: u16
  g_last_write_err :: int
  g_inmem_drops :: u32
  g_mallocs :: nat
  g_user :: 'u

text \<open>What a handler of the tunnel does: steps on its own state and calls of the bridge.\<close>

datatype 'u handler =
    Return
  | Step "'u \<Rightarrow> 'u \<times> 'u handler"
  | Call_write u32 "u8 list" "int \<Rightarrow> 'u handler"
  | Call_close u32 "'u handler"
  | Call_get_dst_ip u32 "u32 \<Rightarrow> 'u handler"

record 'u bridge_cbs =
  g_output :: "(u8 list \<Rightarrow> 'u \<Rightarrow> 'u) option"
  g_accept :: "(u32 \<Rightarrow> 'u handler) option"
  g_recv :: "(u32 \<Rightarrow> u8 list \<Rightarrow> 'u handler) option"
  g_close :: "(u32 \<Rightarrow> int \<Rightarrow> 'u \<Rightarrow> 'u) option"
  g_sent :: "(u32 \<Rightarrow> 'u handler) option"
  malloc_ok :: "nat \<Rightarrow> nat \<Rightarrow> bool"

type_synonym 'u bstack = "'u bridge tcp_stack"

definition app_upd :: "('a \<Rightarrow> 'a) \<Rightarrow> 'a tcp_stack \<Rightarrow> 'a tcp_stack" where
  "app_upd f w = w\<lparr>ts_app := f (ts_app w)\<rparr>"

definition bridge_malloc :: "'u bridge_cbs \<Rightarrow> u16 \<Rightarrow> 'u bstack \<Rightarrow> bool \<times> 'u bstack" where
  "bridge_malloc cbs n w = (malloc_ok cbs (g_mallocs (ts_app w)) (unat n), app_upd (\<lambda>g. g\<lparr>g_mallocs := g_mallocs g + 1\<rparr>) w)"

fun err_code :: "err_t \<Rightarrow> int" where
  "err_code ERR_OK = 0"
| "err_code ERR_MEM = -1"
| "err_code ERR_BUF = -2"
| "err_code ERR_TIMEOUT = -3"
| "err_code ERR_RTE = -4"
| "err_code ERR_INPROGRESS = -5"
| "err_code ERR_VAL = -6"
| "err_code ERR_WOULDBLOCK = -7"
| "err_code ERR_USE = -8"
| "err_code ERR_ALREADY = -9"
| "err_code ERR_ISCONN = -10"
| "err_code ERR_CONN = -11"
| "err_code ERR_IF = -12"
| "err_code ERR_ABRT = -13"
| "err_code ERR_RST = -14"
| "err_code ERR_CLSD = -15"
| "err_code ERR_ARG = -16"

definition conn_of_id :: "u32 \<Rightarrow> 'u bridge \<Rightarrow> nat option" where
  "conn_of_id conn_id g = (if unat conn_id \<ge> MAX_CONNS \<or> \<not> c_active (g_conns g ! unat conn_id) then None else Some (unat conn_id))"

definition conn_upd :: "nat \<Rightarrow> (conn_t \<Rightarrow> conn_t) \<Rightarrow> 'u bridge \<Rightarrow> 'u bridge" where
  "conn_upd i f g = g\<lparr>g_conns := (g_conns g)[i := f (g_conns g ! i)]\<rparr>"

definition conn_clear :: "nat \<Rightarrow> 'u bridge \<Rightarrow> 'u bridge" where
  "conn_clear i g = conn_upd i (\<lambda>c. c\<lparr>c_active := False, c_pcb := None\<rparr>) g"

definition conn_nat_remove :: "nat \<Rightarrow> 'u bridge \<Rightarrow> 'u bridge" where
  "conn_nat_remove i g = g\<lparr>g_nat := nat_remove (g_nat g) (c_client_ip (g_conns g ! i)) (c_client_port (g_conns g ! i))\<rparr>"

section \<open>The interface\<close>

definition netif_output :: "'u bridge_cbs \<Rightarrow> nat \<Rightarrow> nat \<Rightarrow> u32 \<Rightarrow> 'u bstack \<Rightarrow> (err_t \<times> 'u bstack) option" where
  "netif_output cbs nif p ipaddr w =
     (case g_output cbs of None \<Rightarrow> Some (ERR_OK, w)
      | Some output \<Rightarrow> do {
          b \<leftarrow> stack_buf w p;
          let total = p_tot_len b;
          let (ok, w) = bridge_malloc cbs total w;
          if \<not> ok then Some (ERR_MEM, w)
          else do {
            (copied, buf) \<leftarrow> pbuf_copy_partial (ts_pb w) (Some p) total 0;
            if copied \<noteq> total then Some (ERR_OK, w)
            else Some (ERR_OK, app_upd (\<lambda>g. g\<lparr>g_user := output (output_rewrite (g_nat g) buf) (g_user g)\<rparr>) w) } })"

definition netif_init_cb :: "netif \<Rightarrow> err_t \<times> netif" where
  "netif_init_cb n = (ERR_OK, n\<lparr>nif_name := ''ws'', nif_output := netif_output_fn, nif_mtu := 1500,
     nif_flags := NETIF_FLAG_UP OR NETIF_FLAG_LINK_UP\<rparr>)"

section \<open>The error callback\<close>

definition call_g_close :: "'u bridge_cbs \<Rightarrow> u32 \<Rightarrow> int \<Rightarrow> 'u bstack \<Rightarrow> 'u bstack" where
  "call_g_close cbs conn_id code w =
     (case g_close cbs of None \<Rightarrow> w | Some f \<Rightarrow> app_upd (\<lambda>g. g\<lparr>g_user := f conn_id code (g_user g)\<rparr>) w)"

definition tcp_err_cb :: "'u bridge_cbs \<Rightarrow> nat \<Rightarrow> err_t \<Rightarrow> 'u bstack \<Rightarrow> 'u bstack" where
  "tcp_err_cb cbs arg err w =
     (let conn_id = of_nat arg;
          w = call_g_close cbs conn_id (err_code err) w
      in case conn_of_id conn_id (ts_app w) of
           None \<Rightarrow> w
         | Some i \<Rightarrow> app_upd (\<lambda>g. conn_clear i (conn_nat_remove i g)) w)"

text \<open>
  The functions lwIP reaches through pointers from the functions the bridge calls: those only
  output packets and report errors.
\<close>

definition out_env :: "'u bridge_cbs \<Rightarrow> 'u bridge tcp_env" where
  "out_env cbs = \<lparr>env_netif_output = netif_output cbs,
     env_err_cb = (\<lambda>f arg err w. Some (tcp_err_cb cbs arg err w)),
     env_recv_cb = (\<lambda>_ _ _ _ _. None), env_sent_cb = (\<lambda>_ _ _ _. None),
     env_accept_cb = (\<lambda>_ _ _ _. None), env_poll_cb = (\<lambda>_ _ _ _. None)\<rparr>"

section \<open>What the tunnel calls\<close>

definition TCP_WRITE_FLAG_COPY :: u8 where "TCP_WRITE_FLAG_COPY = 0x01"

definition lwip_bridge_write :: "'u bridge_cbs \<Rightarrow> u32 \<Rightarrow> u8 list \<Rightarrow> 'u bstack \<Rightarrow> (int \<times> 'u bstack) option" where
  "lwip_bridge_write cbs conn_id data w =
     (case Option.bind (conn_of_id conn_id (ts_app w)) (\<lambda>i. c_pcb (g_conns (ts_app w) ! i)) of
        None \<Rightarrow> Some (-1, app_upd (\<lambda>g. g\<lparr>g_last_write_err := -99\<rparr>) w)
      | Some pcb \<Rightarrow> do {
          (err, w) \<leftarrow> tcp_write (Some pcb) (Some data) TCP_WRITE_FLAG_COPY w;
          let w = app_upd (\<lambda>g. g\<lparr>g_last_write_err := err_code err\<rparr>) w;
          if err = ERR_OK then do {
            (_, w) \<leftarrow> tcp_output (out_env cbs) pcb w;
            Some (0, w) }
          else Some (-1, w) })"

text \<open>Aborting a connection without a report to the tunnel.\<close>

definition abort_conn :: "'u bridge_cbs \<Rightarrow> nat \<Rightarrow> 'u bstack \<Rightarrow> 'u bstack option" where
  "abort_conn cbs pcb w =
     do { w \<leftarrow> tcp_recv (Some pcb) None w;
          w \<leftarrow> tcp_err (Some pcb) None w;
          tcp_abort (out_env cbs) (Some pcb) w }"

definition lwip_bridge_close :: "'u bridge_cbs \<Rightarrow> u32 \<Rightarrow> 'u bstack \<Rightarrow> 'u bstack option" where
  "lwip_bridge_close cbs conn_id w =
     (case conn_of_id conn_id (ts_app w) of None \<Rightarrow> Some w
      | Some i \<Rightarrow> (case c_pcb (g_conns (ts_app w) ! i) of None \<Rightarrow> Some w
          | Some pcb \<Rightarrow> do {
              w \<leftarrow> abort_conn cbs pcb (app_upd (conn_nat_remove i) w);
              Some (app_upd (conn_clear i) w) }))"

definition lwip_bridge_get_dst_ip :: "u32 \<Rightarrow> 'u bstack \<Rightarrow> u32" where
  "lwip_bridge_get_dst_ip conn_id w =
     (case conn_of_id conn_id (ts_app w) of None \<Rightarrow> 0 | Some i \<Rightarrow> c_dc_ip (g_conns (ts_app w) ! i))"

definition conn_pcb :: "u32 \<Rightarrow> 'u bstack \<Rightarrow> nat option" where
  "conn_pcb conn_id w = Option.bind (conn_of_id conn_id (ts_app w)) (\<lambda>i. c_pcb (g_conns (ts_app w) ! i))"

definition lwip_bridge_snd_dbg :: "u32 \<Rightarrow> 'u bstack \<Rightarrow> (int \<times> u32 \<times> u32 \<times> u32) option" where
  "lwip_bridge_snd_dbg conn_id w =
     (case conn_pcb conn_id w of None \<Rightarrow> Some (g_last_write_err (ts_app w), 0, 0, 0)
      | Some pcb \<Rightarrow> map_option (\<lambda>b. (g_last_write_err (ts_app w), ucast (t_snd_wnd b), ucast (t_snd_buf b),
          t_snd_nxt b - t_lastack b)) (ts_pcbs w pcb))"

definition lwip_bridge_conn_stats :: "u32 \<Rightarrow> 'u bstack \<Rightarrow> (u32 \<times> u32) option" where
  "lwip_bridge_conn_stats conn_id w =
     (case conn_pcb conn_id w of None \<Rightarrow> Some (0, 0)
      | Some pcb \<Rightarrow> map_option (\<lambda>b. (of_nat (tcp_state_num (t_state b)), t_snd_nxt b - t_lastack b)) (ts_pcbs w pcb))"

definition lwip_bridge_dbg_nat :: "'u bstack \<Rightarrow> u32 \<times> u16 \<times> u32 \<times> u32 \<times> u16 \<times> u32" where
  "lwip_bridge_dbg_nat w = (let g = ts_app w in
     (g_dbg_key_ip g, g_dbg_key_port g, g_dbg_dc g, g_dbg_nat_ip g, g_dbg_nat_port g, g_dbg_nat_dc g))"

definition lwip_bridge_inmem_drops :: "'u bstack \<Rightarrow> u32" where
  "lwip_bridge_inmem_drops w = g_inmem_drops (ts_app w)"

text \<open>Running a handler of the tunnel.\<close>

primrec run_handler :: "'u bridge_cbs \<Rightarrow> 'u handler \<Rightarrow> 'u bstack \<Rightarrow> 'u bstack option" where
  "run_handler cbs Return = (\<lambda>w. Some w)"
| "run_handler cbs (Step f) = (\<lambda>w.
     let (u, h) = map_prod id (run_handler cbs) (f (g_user (ts_app w))) in h (app_upd (\<lambda>g. g\<lparr>g_user := u\<rparr>) w))"
| "run_handler cbs (Call_write conn_id data k) = (\<lambda>w.
     Option.bind (lwip_bridge_write cbs conn_id data w) (\<lambda>(r, w). run_handler cbs (k r) w))"
| "run_handler cbs (Call_close conn_id h) = (\<lambda>w. Option.bind (lwip_bridge_close cbs conn_id w) (run_handler cbs h))"
| "run_handler cbs (Call_get_dst_ip conn_id k) = (\<lambda>w. run_handler cbs (k (lwip_bridge_get_dst_ip conn_id w)) w)"

section \<open>Callbacks\<close>

definition first_nat :: "nat_table \<Rightarrow> nat_entry option" where
  "first_nat t = find ne_used t"

text \<open>The diagnosis of a lookup: its key, its result and the first entry in use.\<close>

definition accept_dbg :: "u32 \<Rightarrow> u16 \<Rightarrow> u32 \<Rightarrow> 'u bridge \<Rightarrow> 'u bridge" where
  "accept_dbg client_ip client_port dc_ip g =
     (let g = g\<lparr>g_dbg_key_ip := client_ip, g_dbg_key_port := client_port, g_dbg_dc := dc_ip\<rparr>
      in case first_nat (g_nat g) of
           None \<Rightarrow> g\<lparr>g_dbg_nat_ip := 0, g_dbg_nat_port := 0, g_dbg_nat_dc := 0\<rparr>
         | Some e \<Rightarrow> g\<lparr>g_dbg_nat_ip := ne_client_ip e, g_dbg_nat_port := ne_client_port e, g_dbg_nat_dc := ne_dc_ip e\<rparr>)"

definition free_slot :: "conn_t list \<Rightarrow> nat option" where
  "free_slot conns = first_index (\<lambda>c. \<not> c_active c) conns"

definition tcp_accept_cb :: "'u bridge_cbs \<Rightarrow> nat \<Rightarrow> nat option \<Rightarrow> err_t \<Rightarrow> 'u bstack \<Rightarrow> (err_t \<times> 'u bstack) option" where
  "tcp_accept_cb cbs arg newpcb err w =
     (case newpcb of None \<Rightarrow> Some (ERR_OK, w)
      | Some pcb \<Rightarrow>
          if err \<noteq> ERR_OK then Some (ERR_OK, w)
          else do {
            b \<leftarrow> ts_pcbs w pcb;
            let client_ip = t_remote_ip b;
            let client_port = t_remote_port b;
            let dc_ip = nat_lookup (g_nat (ts_app w)) client_ip client_port;
            let w = app_upd (accept_dbg client_ip client_port dc_ip) w;
            case free_slot (g_conns (ts_app w)) of
              None \<Rightarrow> do {
                w \<leftarrow> tcp_abort (out_env cbs) (Some pcb) w;
                Some (ERR_OK, w) }
            | Some slot \<Rightarrow> do {
                let w = app_upd (conn_upd slot (\<lambda>_. \<lparr>c_pcb = Some pcb, c_dc_ip = dc_ip, c_client_ip = client_ip,
                          c_client_port = client_port, c_active = True\<rparr>)) w;
                w \<leftarrow> tcp_arg (Some pcb) slot w;
                w \<leftarrow> tcp_nagle_disable pcb w;
                w \<leftarrow> tcp_recv (Some pcb) (Some tcp_recv_cb_fn) w;
                w \<leftarrow> tcp_err (Some pcb) (Some tcp_err_cb_fn) w;
                w \<leftarrow> tcp_sent (Some pcb) (Some tcp_sent_cb_fn) w;
                w \<leftarrow> (case g_accept cbs of None \<Rightarrow> Some w | Some f \<Rightarrow> run_handler cbs (f (of_nat slot)) w);
                Some (ERR_OK, w) } })"

text \<open>The end of a connection, by the peer (\<open>p = NULL\<close>) or by an error.\<close>

definition recv_close :: "'u bridge_cbs \<Rightarrow> u32 \<Rightarrow> nat option \<Rightarrow> err_t \<Rightarrow> 'u bstack \<Rightarrow> (err_t \<times> 'u bstack) option" where
  "recv_close cbs conn_id p err w =
     do { w \<leftarrow> (case p of None \<Rightarrow> Some w | Some a \<Rightarrow> map_option snd (stack_pb (pbuf_free (Some a)) w));
          let w = call_g_close cbs conn_id (if err = ERR_OK then 0 else err_code err) w;
          case conn_of_id conn_id (ts_app w) of None \<Rightarrow> Some (ERR_ABRT, w)
          | Some i \<Rightarrow> do {
              let w = app_upd (conn_nat_remove i) w;
              w \<leftarrow> (case c_pcb (g_conns (ts_app w) ! i) of None \<Rightarrow> Some w | Some pcb \<Rightarrow> abort_conn cbs pcb w);
              Some (ERR_ABRT, app_upd (conn_clear i) w) } }"

definition call_g_recv :: "'u bridge_cbs \<Rightarrow> u32 \<Rightarrow> nat \<Rightarrow> u16 \<Rightarrow> 'u bstack \<Rightarrow> 'u bstack option" where
  "call_g_recv cbs conn_id p tot w =
     (case g_recv cbs of None \<Rightarrow> Some w
      | Some f \<Rightarrow> do {
          let (ok, w) = bridge_malloc cbs tot w;
          if \<not> ok then Some w
          else do {
            (copied, buf) \<leftarrow> pbuf_copy_partial (ts_pb w) (Some p) tot 0;
            if copied = tot then run_handler cbs (f conn_id buf) w else Some w } })"

definition tcp_recv_cb ::
    "'u bridge_cbs \<Rightarrow> nat \<Rightarrow> nat \<Rightarrow> nat option \<Rightarrow> err_t \<Rightarrow> 'u bstack \<Rightarrow> (err_t \<times> 'u bstack) option" where
  "tcp_recv_cb cbs arg pcb p err w =
     (let conn_id = of_nat arg
      in if err \<noteq> ERR_OK \<or> p = None then recv_close cbs conn_id p err w
         else do {
           b \<leftarrow> stack_buf w (the p);
           w \<leftarrow> call_g_recv cbs conn_id (the p) (p_tot_len b) w;
           b \<leftarrow> stack_buf w (the p);
           w \<leftarrow> tcp_recved (out_env cbs) (Some pcb) (p_tot_len b) w;
           (_, w) \<leftarrow> stack_pb (pbuf_free p) w;
           Some (ERR_OK, w) })"

definition tcp_sent_cb :: "'u bridge_cbs \<Rightarrow> nat \<Rightarrow> nat \<Rightarrow> u16 \<Rightarrow> 'u bstack \<Rightarrow> (err_t \<times> 'u bstack) option" where
  "tcp_sent_cb cbs arg pcb len w =
     do { w \<leftarrow> (case g_sent cbs of None \<Rightarrow> Some w | Some f \<Rightarrow> run_handler cbs (f (of_nat arg)) w);
          Some (ERR_OK, w) }"

definition bridge_env :: "'u bridge_cbs \<Rightarrow> 'u bridge tcp_env" where
  "bridge_env cbs = \<lparr>env_netif_output = netif_output cbs,
     env_err_cb = (\<lambda>f arg err w. Some (tcp_err_cb cbs arg err w)),
     env_recv_cb = tcp_recv_cb cbs, env_sent_cb = tcp_sent_cb cbs,
     env_accept_cb = tcp_accept_cb cbs, env_poll_cb = (\<lambda>_ _ _ _. None)\<rparr>"

section \<open>Start, packets, timers\<close>

definition g_netif :: nat where "g_netif = 1"

text \<open>\<open>lwip_init\<close>: \<open>now\<close> is the clock and \<open>rnd\<close> the random number of \<open>tcp_init\<close>.\<close>

definition MEMP_SYS_TIMEOUT :: nat where "MEMP_SYS_TIMEOUT = 4"

definition lwip_init :: "u32 \<Rightarrow> u32 \<Rightarrow> 'a tcp_stack \<Rightarrow> 'a tcp_stack" where
  "lwip_init now rnd w =
     (let pb = ts_pb w;
          w = w\<lparr>ts_pb := pb\<lparr>ps_heap := mem_init (ps_heap pb), ps_pools := memp_init (ps_pools pb)\<rparr>\<rparr>;
          w = tcp_init rnd w;
          t = ts_timeouts w;
          t = t\<lparr>to_pool := memp_init_pool (fst (ps_pools pb ! MEMP_SYS_TIMEOUT)) (to_pool t)\<rparr>
      in w\<lparr>ts_timeouts := sys_timeouts_init now t\<rparr>)"

fun listen_loop :: "'u bridge_cbs \<Rightarrow> u16 list \<Rightarrow> 'u bstack \<Rightarrow> 'u bstack option" where
  "listen_loop cbs [] w = Some w"
| "listen_loop cbs (port # ports) w =
     do { (r, w) \<leftarrow> tcp_new (bridge_env cbs) w;
          w \<leftarrow> (case r of None \<Rightarrow> Some w
                 | Some pcb \<Rightarrow> do {
                     (_, w) \<leftarrow> tcp_bind (Some pcb) 0 port w;
                     (l, w) \<leftarrow> tcp_listen (Some pcb) w;
                     if l \<noteq> None then tcp_accept l (Some tcp_accept_cb_fn) w else Some w });
          listen_loop cbs ports w }"

definition listen_ports :: "u16 list" where "listen_ports = [443, 80, 5222]"

definition lwip_bridge_init :: "'u bridge_cbs \<Rightarrow> u32 \<Rightarrow> u32 \<Rightarrow> 'u bstack \<Rightarrow> 'u bstack option" where
  "lwip_bridge_init cbs now rnd w =
     do { let w = app_upd (\<lambda>g. g\<lparr>g_conns := conns_clear, g_nat := nat_clear\<rparr>) w;
          let w = lwip_init now rnd w;
          (_, w) \<leftarrow> netif_add (bridge_env cbs) g_netif (Some 0xC6120002) (Some 0xffffffff) (Some 0) netif_init_cb w;
          w \<leftarrow> netif_set_up g_netif w;
          let w = netif_set_default (Some g_netif) w;
          listen_loop cbs listen_ports w }"

definition lwip_bridge_input :: "'u bridge_cbs \<Rightarrow> u8 list \<Rightarrow> 'u bstack \<Rightarrow> 'u bstack option" where
  "lwip_bridge_input cbs data w =
     (let len = of_nat (length data) :: u16
      in if len < 40 then Some w
         else do {
           let w = app_upd (\<lambda>g. g\<lparr>g_nat := nat_add (g_nat g) (rd32 data 12) (rd16 data 20) (rd32 data 16)\<rparr>) w;
           let (ok, w) = bridge_malloc cbs len w;
           if \<not> ok then Some w
           else do {
             (r, w) \<leftarrow> stack_pb (pbuf_alloc PBUF_RAW len PBUF_RAM) w;
             case r of None \<Rightarrow> Some (app_upd (\<lambda>g. g\<lparr>g_inmem_drops := g_inmem_drops g + 1\<rparr>) w)
             | Some p \<Rightarrow> do {
                 b \<leftarrow> stack_buf w p;
                 ip4_input (bridge_env cbs) p g_netif (st_bytes (p_payload b) (input_rewrite data) w) } } })"

text \<open>
  The timers. Nothing that runs inside \<open>tcp_tmr\<close> or \<open>ip_reass_tmr\<close> schedules a timer, so the queue
  is the one \<open>sys_check_timeouts\<close> works on; \<open>clock\<close> is what the callbacks see of the time, turn by turn.
\<close>

definition bridge_timer_env :: "'u bridge_cbs \<Rightarrow> 'u bstack option timer_env" where
  "bridge_timer_env cbs = \<lparr>env_tcp_tmr = (\<lambda>g. Option.bind g (tcp_tmr (bridge_env cbs))),
     env_ip_reass_tmr = (\<lambda>g. Option.bind g (ip_reass_tmr (bridge_env cbs))),
     env_pcbs_exist = (\<lambda>g. case g of None \<Rightarrow> False | Some w \<Rightarrow> tcp_active_pcbs w \<noteq> [] \<or> tcp_tw_pcbs w \<noteq> []),
     env_check_free_ooseq = (\<lambda>g. Option.bind g PBUF_CHECK_FREE_OOSEQ)\<rparr>"

definition lwip_bridge_poll :: "'u bridge_cbs \<Rightarrow> u32 \<Rightarrow> (nat \<Rightarrow> u32) \<Rightarrow> nat \<Rightarrow> 'u bstack \<Rightarrow> 'u bstack option" where
  "lwip_bridge_poll cbs now clock fuel w =
     do { (t, g) \<leftarrow> sys_check_timeouts (bridge_timer_env cbs) now clock fuel (ts_timeouts w, Some (w\<lparr>ts_now := clock 0\<rparr>));
          w \<leftarrow> g;
          Some (w\<lparr>ts_timeouts := t\<rparr>) }"

end
