(* ===== verification/Tcp_Inv.thy ===== *)
theory Tcp_Inv
  imports Tcp_Timer
begin

text \<open>
  The invariant of the TCP control blocks: every pbuf referenced from a queue is accounted
  for, every structure is an element held from its pool, and the PCB lists satisfy the four
  axioms stated in \<open>tcp_priv.h\<close>. Aborting a connection keeps all of it.
\<close>

section \<open>Pools\<close>

definition pool_holds :: "pbuf_state \<Rightarrow> nat \<Rightarrow> nat multiset \<Rightarrow> bool" where
  "pool_holds pb ty M \<longleftrightarrow> ty < length (ps_pools pb)
     \<and> (\<exists>held. memp.pool_inv (memp_elems (fst (ps_pools pb ! ty))) (snd (ps_pools pb ! ty)) held \<and> mset held = M)"

lemma pool_holds_cong: "length (ps_pools pb') = length (ps_pools pb) \<Longrightarrow> ps_pools pb' ! ty = ps_pools pb ! ty
    \<Longrightarrow> pool_holds pb' ty M = pool_holds pb ty M"
  by (simp add: pool_holds_def)

lemma pool_holds_free:
  assumes "pool_holds pb ty (add_mset a M)"
  shows "pool_holds (pb\<lparr>ps_pools := memp_free ty (Some a) (ps_pools pb)\<rparr>) ty M"
proof -
  let ?p = "ps_pools pb ! ty"
  obtain held where h: "ty < length (ps_pools pb)" "memp.pool_inv (memp_elems (fst ?p)) (snd ?p) held"
    "mset held = add_mset a M" using assms by (auto simp: pool_holds_def)
  have a: "a \<in> set held" using h(3) by (metis in_multiset_in_set union_single_eq_member)
  have "memp.pool_inv (memp_elems (fst ?p)) (do_memp_free_pool (snd ?p) a) (remove1 a held)"
    by (rule memp.release_inv [OF h(2) a])
  moreover have "mset (remove1 a held) = M" using h(3) by simp
  ultimately show ?thesis using h(1) by (auto simp: pool_holds_def memp_free_pools)
qed

lemma pool_holds_malloc:
  assumes "pool_holds pb ty M" "memp_malloc ty (ps_pools pb) = (r, pools)"
  shows "case r of None \<Rightarrow> pools = ps_pools pb
    | Some a \<Rightarrow> a \<notin># M \<and> a \<in> set (memp_elems (fst (ps_pools pb ! ty))) \<and> pool_holds (pb\<lparr>ps_pools := pools\<rparr>) ty (add_mset a M)"
proof -
  let ?p = "ps_pools pb ! ty"
  obtain held where h: "ty < length (ps_pools pb)" "memp.pool_inv (memp_elems (fst ?p)) (snd ?p) held"
    "mset held = M" using assms(1) by (auto simp: pool_holds_def)
  obtain r' p' where m: "do_memp_malloc_pool (snd ?p) = (r', p')" by fastforce
  have rp: "r = r'" "pools = (ps_pools pb)[ty := (fst ?p, p')]" using assms(2) h(1) m by (auto simp: memp_malloc_def)
  show ?thesis
  proof (cases r')
    case None
    then have "p' = snd ?p" using memp.alloc_None_same [OF h(2)] m by simp
    then show ?thesis using None rp by simp
  next
    case (Some a)
    note al = memp.alloc_inv [OF h(2) m [unfolded Some]]
    then show ?thesis using Some rp h(1,3) by (auto simp: pool_holds_def intro!: exI [of _ "a # held"])
  qed
qed

text \<open>The operations on pbufs touch no other pool, and the others do not concern the pbufs.\<close>

definition other_pools :: "pbuf_state \<Rightarrow> pbuf_state \<Rightarrow> bool" where
  "other_pools pb pb' \<longleftrightarrow> length (ps_pools pb') = length (ps_pools pb) \<and> (\<forall>ty < MEMP_PBUF. ps_pools pb' ! ty = ps_pools pb ! ty)"

lemma other_pools_refl [simp]: "other_pools pb pb"
  by (simp add: other_pools_def)

lemma other_pools_trans: "other_pools a b \<Longrightarrow> other_pools b c \<Longrightarrow> other_pools a c"
  by (simp add: other_pools_def)

lemma pool_holds_other: "other_pools pb pb' \<Longrightarrow> ty < MEMP_PBUF \<Longrightarrow> pool_holds pb' ty M = pool_holds pb ty M"
  by (rule pool_holds_cong) (auto simp: other_pools_def)

lemma release_other_pools:
  assumes "pbuf_release a src s = Some s'"
  shows "other_pools s s'"
  using assms by (auto simp: pbuf_release_def Let_def other_pools_def memp_free_def memp_idx split: if_splits option.splits)

lemma free_loop_other_pools:
  assumes "pbuf_free_loop p c s = Some r"
  shows "other_pools s (snd r)"
proof (rule pbuf_free_loop.raw_induct [where P = "\<lambda>p c s r. other_pools s (snd r)", OF _ assms])
  fix loop :: "nat option \<Rightarrow> u8 \<Rightarrow> pbuf_state \<Rightarrow> (u8 \<times> pbuf_state) option" and p and count :: u8 and s r
  assume IH: "\<And>p c s r. loop p c s = Some r \<Longrightarrow> other_pools s (snd r)"
    and run: "(case p of None \<Rightarrow> Some (count, s) | Some a \<Rightarrow>
          Option.bind (ps_bufs s a) (\<lambda>b.
            let ref = p_ref b - 1; s = s\<lparr>ps_bufs := (ps_bufs s)(a \<mapsto> b\<lparr>p_ref := ref\<rparr>)\<rparr>
            in if ref = 0 then Option.bind (pbuf_release a (pbuf_get_allocsrc b) s) (loop (p_next b) (count + 1))
               else Some (count, s))) = Some r"
  show "other_pools s (snd r)"
  proof (cases p)
    case None
    then show ?thesis using run by auto
  next
    case (Some a)
    obtain b where b: "ps_bufs s a = Some b" using run Some by (cases "ps_bufs s a") auto
    let ?s = "s\<lparr>ps_bufs := (ps_bufs s)(a \<mapsto> b\<lparr>p_ref := p_ref b - 1\<rparr>)\<rparr>"
    have o: "other_pools s ?s" by (simp add: other_pools_def)
    show ?thesis
    proof (cases "p_ref b - 1 = 0")
      case True
      then obtain s1 where s1: "pbuf_release a (pbuf_get_allocsrc b) ?s = Some s1" "loop (p_next b) (count + 1) s1 = Some r"
        using run Some b by (auto simp: Let_def split: Option.bind_splits)
      then show ?thesis using IH [OF s1(2)] release_other_pools [OF s1(1)] o other_pools_trans by blast
    next
      case False
      then have "r = (count, ?s)" using run Some b by (auto simp: Let_def)
      then show ?thesis using o by simp
    qed
  qed
qed

lemma pbuf_free_other_pools: "pbuf_free p s = Some (c, s') \<Longrightarrow> other_pools s s'"
  using free_loop_other_pools [of p 0 s "(c, s')"] by (auto simp: pbuf_free_def split: if_splits)

lemma pinv_pool:
  assumes "pinv s" "length pools = length (ps_pools s)" "\<And>ty. MEMP_PBUF \<le> ty \<Longrightarrow> pools ! ty = ps_pools s ! ty"
  shows "pinv (s\<lparr>ps_pools := pools\<rparr>)"
proof -
  obtain bs hp hq where i: "pinv_at s bs hp hq" using assms(1) by (auto simp: pinv_def)
  have "pools ! MEMP_PBUF = ps_pools s ! MEMP_PBUF" "pools ! MEMP_PBUF_POOL = ps_pools s ! MEMP_PBUF_POOL"
    using assms(3) by (simp_all add: memp_idx)
  then have "pinv_at (s\<lparr>ps_pools := pools\<rparr>) bs hp hq"
    using i assms(2) by (simp add: pinv_at_def placed_state [of "s\<lparr>ps_pools := pools\<rparr>" s])
  then show ?thesis by (rule pinv_atI)
qed

lemma pinv_memp_free: "pinv s \<Longrightarrow> ty < MEMP_PBUF \<Longrightarrow> pinv (s\<lparr>ps_pools := memp_free ty m (ps_pools s)\<rparr>)"
  by (rule pinv_pool) (auto simp: memp_free_def memp_idx split: option.splits)

lemma pinv_memp_malloc: "pinv s \<Longrightarrow> ty < MEMP_PBUF \<Longrightarrow> pinv (s\<lparr>ps_pools := snd (memp_malloc ty (ps_pools s))\<rparr>)"
  by (rule pinv_pool) (auto simp: memp_malloc_def memp_idx split: prod.splits)

section \<open>Segments\<close>

text \<open>
  \<open>mem_ok pb R S\<close>: the packet buffers are sound with the references \<open>R\<close> held, and the segment
  structures handed out are \<open>S\<close>.
\<close>

definition mem_ok :: "pbuf_state \<Rightarrow> nat multiset \<Rightarrow> nat multiset \<Rightarrow> bool" where
  "mem_ok pb R S \<longleftrightarrow> pinv pb \<and> owned (ps_bufs pb) R \<and> pool_holds pb MEMP_TCP_SEG S"

definition seg_refs :: "tcp_seg list \<Rightarrow> nat multiset" where
  "seg_refs segs = mset (List.map_filter sg_p segs)"

definition seg_elems :: "tcp_seg list \<Rightarrow> nat multiset" where
  "seg_elems segs = mset (map sg_elem segs)"

lemma seg_refs_simps [simp]:
  "seg_refs [] = {#}" "seg_refs (g # gs) = own_next (sg_p g) (seg_refs gs)" "seg_refs (xs @ ys) = seg_refs xs + seg_refs ys"
  by (auto simp: seg_refs_def own_next_def List.map_filter_def split: option.split)

lemma seg_elems_simps [simp]:
  "seg_elems [] = {#}" "seg_elems (g # gs) = add_mset (sg_elem g) (seg_elems gs)" "seg_elems (xs @ ys) = seg_elems xs + seg_elems ys"
  by (auto simp: seg_elems_def)

lemma own_next_add: "own_next p R + Q = own_next p (R + Q)"
  by (auto simp: own_next_def split: option.split)

lemma own_next_add_right: "Q + own_next p R = own_next p (Q + R)"
  by (auto simp: own_next_def split: option.split)

text \<open>Pools 0 and 1 (the PCBs) stay as they are.\<close>

definition pcb_pools :: "pbuf_state \<Rightarrow> pbuf_state \<Rightarrow> bool" where
  "pcb_pools pb pb' \<longleftrightarrow> length (ps_pools pb') = length (ps_pools pb)
     \<and> ps_pools pb' ! MEMP_TCP_PCB = ps_pools pb ! MEMP_TCP_PCB
     \<and> ps_pools pb' ! MEMP_TCP_PCB_LISTEN = ps_pools pb ! MEMP_TCP_PCB_LISTEN"

lemmas pool_idx = MEMP_TCP_PCB_def MEMP_TCP_PCB_LISTEN_def MEMP_TCP_SEG_def memp_idx

lemma pcb_pools_refl [simp]: "pcb_pools pb pb"
  by (simp add: pcb_pools_def)

lemma pcb_pools_trans: "pcb_pools a b \<Longrightarrow> pcb_pools b c \<Longrightarrow> pcb_pools a c"
  by (simp add: pcb_pools_def)

lemma other_pcb_pools: "other_pools a b \<Longrightarrow> pcb_pools a b"
  by (simp add: other_pools_def pcb_pools_def pool_idx)

lemma mem_ok_free_pbuf:
  assumes "mem_ok pb (own_next p R) S"
  shows "\<exists>c pb'. pbuf_free p pb = Some (c, pb') \<and> mem_ok pb' R S \<and> pcb_pools pb pb'"
proof -
  obtain c pb' where *: "pbuf_free p pb = Some (c, pb')" "pinv pb'" "owned (ps_bufs pb') R"
    using pbuf_free_owned [of pb p R] assms by (auto simp: mem_ok_def)
  have o: "other_pools pb pb'" by (rule pbuf_free_other_pools [OF *(1)])
  then have "pool_holds pb' MEMP_TCP_SEG S"
    using pool_holds_other [of pb pb' MEMP_TCP_SEG] assms by (simp add: mem_ok_def pool_idx)
  then show ?thesis using * other_pcb_pools [OF o] by (auto simp: mem_ok_def)
qed

lemma alloc_ram_pools: "pbuf_alloc layer len PBUF_RAM pb = Some (r, pb') \<Longrightarrow> ps_pools pb' = ps_pools pb"
  by (auto simp: pbuf_alloc_def pbuf_init_alloced_pbuf_def Let_def split: if_splits option.splits Option.bind_splits)

lemma alloc_ram_ok:
  assumes "mem_ok pb R S"
  shows "\<exists>r pb'. pbuf_alloc layer len PBUF_RAM pb = Some (r, pb') \<and> mem_ok pb' (own_next r R) S \<and> pcb_pools pb pb'
    \<and> (\<forall>p. r = Some p \<longrightarrow> (\<exists>b. ps_bufs pb' p = Some b \<and> unat (p_tot_len b) = unat len))"
proof -
  have i: "pinv pb" "owned (ps_bufs pb) R" using assms by (simp_all add: mem_ok_def)
  from pbuf_alloc_owned [OF i, of layer len PBUF_RAM] obtain r pb' where
    *: "pbuf_alloc layer len PBUF_RAM pb = Some (r, pb')" "pinv pb'" "owned (ps_bufs pb') (own_next r R)" by blast
  have "\<exists>b. ps_bufs pb' p = Some b \<and> unat (p_tot_len b) = unat len" if "r = Some p" for p
  proof -
    from pbuf_alloc_spec [OF i(1), of layer len PBUF_RAM] *(1) that obtain as where
      "pchain (ps_bufs pb') (Some p) as" "tots (ps_bufs pb') as (unat len) 0" by auto
    then show ?thesis by (cases as) auto
  qed
  moreover have "ps_pools pb' = ps_pools pb" by (rule alloc_ram_pools [OF *(1)])
  ultimately show ?thesis using * assms by (auto simp: mem_ok_def pool_holds_def pcb_pools_def)
qed

lemma stack_free_pbuf:
  assumes "mem_ok (ts_pb w) (own_next p R) S"
  shows "\<exists>c pb'. stack_pb (pbuf_free p) w = Some (c, w\<lparr>ts_pb := pb'\<rparr>) \<and> mem_ok pb' R S \<and> pcb_pools (ts_pb w) pb'"
  using mem_ok_free_pbuf [OF assms] by (auto simp: stack_pb_def)

lemma tcp_seg_free_ok:
  assumes "mem_ok (ts_pb w) (own_next (sg_p g) R) (add_mset (sg_elem g) S)"
  shows "\<exists>pb'. tcp_seg_free g w = Some (w\<lparr>ts_pb := pb'\<rparr>) \<and> mem_ok pb' R S \<and> pcb_pools (ts_pb w) pb'"
proof -
  obtain pb1 where p1: "(case sg_p g of None \<Rightarrow> Some w | Some p \<Rightarrow> map_option snd (stack_pb (pbuf_free (Some p)) w)) = Some (w\<lparr>ts_pb := pb1\<rparr>)"
    "mem_ok pb1 R (add_mset (sg_elem g) S)" "pcb_pools (ts_pb w) pb1"
  proof (cases "sg_p g")
    case None
    then show ?thesis using assms that [of "ts_pb w"] by (simp add: own_next_def)
  next
    case (Some p)
    then show ?thesis using stack_free_pbuf [OF assms] that by auto
  qed
  let ?pb = "pb1\<lparr>ps_pools := memp_free MEMP_TCP_SEG (Some (sg_elem g)) (ps_pools pb1)\<rparr>"
  have "pinv ?pb" using p1(2) by (intro pinv_memp_free) (simp_all add: mem_ok_def pool_idx)
  moreover have "pool_holds ?pb MEMP_TCP_SEG S" using p1(2) pool_holds_free by (simp add: mem_ok_def)
  ultimately have "mem_ok ?pb R S" using p1(2) by (simp add: mem_ok_def)
  moreover have "pcb_pools (ts_pb w) ?pb"
    using p1(3) by (rule pcb_pools_trans) (auto simp: pcb_pools_def pool_idx memp_free_def)
  ultimately show ?thesis using p1(1) by (intro exI [of _ ?pb]) (simp add: tcp_seg_free_def stack_free_def)
qed

lemma tcp_segs_free_ok:
  assumes "mem_ok (ts_pb w) (seg_refs gs + R) (seg_elems gs + S)"
  shows "\<exists>pb'. tcp_segs_free gs w = Some (w\<lparr>ts_pb := pb'\<rparr>) \<and> mem_ok pb' R S \<and> pcb_pools (ts_pb w) pb'"
  using assms
proof (induction gs arbitrary: w)
  case Nil
  then show ?case by (auto intro!: exI [of _ "ts_pb w"])
next
  case (Cons g gs)
  have "mem_ok (ts_pb w) (own_next (sg_p g) (seg_refs gs + R)) (add_mset (sg_elem g) (seg_elems gs + S))"
    using Cons.prems by (simp add: own_next_add)
  from tcp_seg_free_ok [OF this] obtain pb1 where p1: "tcp_seg_free g w = Some (w\<lparr>ts_pb := pb1\<rparr>)"
    "mem_ok pb1 (seg_refs gs + R) (seg_elems gs + S)" "pcb_pools (ts_pb w) pb1" by blast
  from Cons.IH [of "w\<lparr>ts_pb := pb1\<rparr>"] p1(2) obtain pb2 where
    "tcp_segs_free gs (w\<lparr>ts_pb := pb1\<rparr>) = Some (w\<lparr>ts_pb := pb2\<rparr>)" "mem_ok pb2 R S" "pcb_pools pb1 pb2" by auto
  then show ?case using p1 pcb_pools_trans by (auto intro!: exI [of _ pb2])
qed

section \<open>Purging\<close>

definition pcb_segs :: "tcp_pcb \<Rightarrow> tcp_seg list" where
  "pcb_segs b = t_unsent b @ t_unacked b @ t_ooseq b"

definition pcb_refs :: "tcp_pcb \<Rightarrow> nat multiset" where
  "pcb_refs b = own_next (t_refused_data b) (seg_refs (pcb_segs b))"

definition purged :: "tcp_pcb \<Rightarrow> tcp_pcb" where
  "purged b = b\<lparr>t_rtime := -1, t_unsent_oversize := 0, t_unsent := [], t_unacked := [], t_ooseq := [], t_refused_data := None\<rparr>"

definition queueless :: "tcp_state \<Rightarrow> bool" where
  "queueless st \<longleftrightarrow> st = CLOSED \<or> st = TIME_WAIT \<or> st = LISTEN"

lemma mem_ok_eq: "mem_ok pb R S \<Longrightarrow> R = R' \<Longrightarrow> S = S' \<Longrightarrow> mem_ok pb R' S'"
  by simp

lemma pcb_upd_Some: "ts_pcbs w a = Some b \<Longrightarrow> pcb_upd a f w = Some (w\<lparr>ts_pcbs := (ts_pcbs w)(a \<mapsto> f b)\<rparr>)"
  by (simp add: pcb_upd_def)

text \<open>Freeing what a queue holds, in a state where only the memory and one PCB differ from \<open>w\<close>.\<close>

abbreviation with_pcb :: "'a tcp_stack \<Rightarrow> nat \<Rightarrow> pbuf_state \<Rightarrow> tcp_pcb \<Rightarrow> 'a tcp_stack" where
  "with_pcb w pcb pb b \<equiv> w\<lparr>ts_pb := pb, ts_pcbs := (ts_pcbs w)(pcb \<mapsto> b)\<rparr>"

lemma pcbs_pb_swap [simp]: "w\<lparr>ts_pcbs := P, ts_pb := pb\<rparr> = w\<lparr>ts_pb := pb, ts_pcbs := P\<rparr>"
  by simp

lemma with_pcb_upd: "pcb_upd pcb f (with_pcb w pcb pb b) = Some (with_pcb w pcb pb (f b))"
  by (simp add: pcb_upd_def)

lemma with_pcb_segs:
  assumes "mem_ok pb (seg_refs gs + R) (seg_elems gs + S)"
  shows "\<exists>pb'. tcp_segs_free gs (with_pcb w pcb pb b) = Some (with_pcb w pcb pb' b) \<and> mem_ok pb' R S \<and> pcb_pools pb pb'"
  using tcp_segs_free_ok [of "with_pcb w pcb pb b" gs R S] assms by auto

lemma with_pcb_refused:
  assumes "mem_ok pb (own_next (t_refused_data b) R) S"
  shows "\<exists>pb'. (if t_refused_data b \<noteq> None then do {
        w \<leftarrow> map_option snd (stack_pb (pbuf_free (t_refused_data b)) (with_pcb w pcb pb b));
        pcb_upd pcb (\<lambda>b. b\<lparr>t_refused_data := None\<rparr>) w } else Some (with_pcb w pcb pb b))
      = Some (with_pcb w pcb pb' (b\<lparr>t_refused_data := None\<rparr>)) \<and> mem_ok pb' R S \<and> pcb_pools pb pb'"
proof (cases "t_refused_data b")
  case None
  then have e: "b\<lparr>t_refused_data := None\<rparr> = b" by (cases b) simp
  show ?thesis using None assms by (intro exI [of _ pb]) (simp add: e own_next_def)
next
  case (Some p)
  from stack_free_pbuf [of "with_pcb w pcb pb b" "t_refused_data b" R S] assms obtain c pb' where
    "stack_pb (pbuf_free (t_refused_data b)) (with_pcb w pcb pb b) = Some (c, with_pcb w pcb pb' b)"
    "mem_ok pb' R S" "pcb_pools pb pb'" by auto
  then show ?thesis using Some by (intro exI [of _ pb']) (simp add: with_pcb_upd)
qed

lemma with_pcb_purge:
  assumes ok: "mem_ok pb (pcb_refs b + R) (seg_elems (pcb_segs b) + S)" and st: "\<not> queueless (t_state b)"
  shows "\<exists>pb'. tcp_pcb_purge pcb (with_pcb w pcb pb b) = Some (with_pcb w pcb pb' (purged b)) \<and> mem_ok pb' R S \<and> pcb_pools pb pb'"
proof -
  let ?w = "with_pcb w pcb"
  let ?b1 = "b\<lparr>t_refused_data := None\<rparr>"
  have "mem_ok pb (own_next (t_refused_data b) (seg_refs (t_ooseq b) + (seg_refs (t_unsent b) + (seg_refs (t_unacked b) + R))))
      (seg_elems (t_ooseq b) + (seg_elems (t_unsent b) + (seg_elems (t_unacked b) + S)))"
    by (rule mem_ok_eq [OF ok]; cases "t_refused_data b") (simp_all add: pcb_refs_def pcb_segs_def own_next_def ac_simps)
  from with_pcb_refused [OF this, of w pcb] obtain pb1 where p1:
    "(if t_refused_data b \<noteq> None then do {
        w \<leftarrow> map_option snd (stack_pb (pbuf_free (t_refused_data b)) (?w pb b));
        pcb_upd pcb (\<lambda>b. b\<lparr>t_refused_data := None\<rparr>) w } else Some (?w pb b)) = Some (?w pb1 ?b1)"
    "mem_ok pb1 (seg_refs (t_ooseq b) + (seg_refs (t_unsent b) + (seg_refs (t_unacked b) + R)))
      (seg_elems (t_ooseq b) + (seg_elems (t_unsent b) + (seg_elems (t_unacked b) + S)))" "pcb_pools pb pb1" by blast
  from with_pcb_segs [OF p1(2), of w pcb ?b1] obtain pb2 where p2:
    "tcp_segs_free (t_ooseq b) (?w pb1 ?b1) = Some (?w pb2 ?b1)"
    "mem_ok pb2 (seg_refs (t_unsent b) + (seg_refs (t_unacked b) + R)) (seg_elems (t_unsent b) + (seg_elems (t_unacked b) + S))"
    "pcb_pools pb1 pb2" by blast
  let ?b2 = "?b1\<lparr>t_ooseq := []\<rparr>"
  have b1: "?b1\<lparr>t_ooseq := []\<rparr> = ?b1" if "t_ooseq b = []" using that by (cases b) simp
  have fo: "tcp_free_ooseq pcb (?w pb1 ?b1) = Some (?w pb2 ?b2)"
    using p2(1) by (cases "t_ooseq b = []") (simp_all add: b1 tcp_free_ooseq_def with_pcb_upd)
  let ?b3 = "?b2\<lparr>t_rtime := -1\<rparr>"
  from with_pcb_segs [OF p2(2), of w pcb ?b3] obtain pb3 where p3:
    "tcp_segs_free (t_unsent b) (?w pb2 ?b3) = Some (?w pb3 ?b3)"
    "mem_ok pb3 (seg_refs (t_unacked b) + R) (seg_elems (t_unacked b) + S)" "pcb_pools pb2 pb3" by blast
  from with_pcb_segs [OF p3(2), of w pcb ?b3] obtain pb4 where p4:
    "tcp_segs_free (t_unacked b) (?w pb3 ?b3) = Some (?w pb4 ?b3)" "mem_ok pb4 R S" "pcb_pools pb3 pb4" by blast
  have fin: "?b3\<lparr>t_unsent := [], t_unacked := [], t_unsent_oversize := 0\<rparr> = purged b"
    by (cases b) (simp add: purged_def)
  have "tcp_pcb_purge pcb (?w pb b) = Some (?w pb4 (purged b))"
    using st p1(1) fo p3(1) p4(1) fin
    by (simp add: tcp_pcb_purge_def queueless_def with_pcb_upd split del: if_split)
  then show ?thesis using p4(2) pcb_pools_trans p1(3) p2(3) p3(3) p4(3) by blast
qed

lemma tcp_pcb_purge_ok:
  assumes b: "ts_pcbs w pcb = Some b" and ok: "mem_ok (ts_pb w) (pcb_refs b + R) (seg_elems (pcb_segs b) + S)"
    and st: "\<not> queueless (t_state b)"
  shows "\<exists>pb'. tcp_pcb_purge pcb w = Some (with_pcb w pcb pb' (purged b)) \<and> mem_ok pb' R S \<and> pcb_pools (ts_pb w) pb'"
proof -
  have "with_pcb w pcb (ts_pb w) b = w" using b by (simp add: fun_upd_idem)
  then show ?thesis using with_pcb_purge [OF ok st, of pcb w] by simp
qed

section \<open>Sending\<close>

text \<open>Writing payload bytes concerns neither the structures nor the allocators.\<close>

lemma pinv_mem [simp]: "pinv (pb\<lparr>ps_mem := m\<rparr>) = pinv pb"
  by (simp add: pinv_def pinv_at_def placed_def)

lemma mem_ok_mem [simp]: "mem_ok (pb\<lparr>ps_mem := m\<rparr>) R S = mem_ok pb R S"
  by (simp add: mem_ok_def pool_holds_def)

lemma pcb_pools_mem [simp]: "pcb_pools pb (pb'\<lparr>ps_mem := m\<rparr>) = pcb_pools pb pb'"
  by (simp add: pcb_pools_def)

definition stores :: "'a tcp_stack \<Rightarrow> 'a tcp_stack \<Rightarrow> bool" where
  "stores w w' \<longleftrightarrow> (\<exists>m. w' = w\<lparr>ts_pb := (ts_pb w)\<lparr>ps_mem := m\<rparr>\<rparr>)"

lemma stores_refl: "stores w w"
  unfolding stores_def by (intro exI [of _ "ps_mem (ts_pb w)"]) simp

lemma stores_trans: "stores w w' \<Longrightarrow> stores w' w'' \<Longrightarrow> stores w w''"
  unfolding stores_def by auto

lemma st_stores: "stores w (st_u8 a x w)" "stores w (st_u16 a y w)" "stores w (st_u32 a z w)" "stores w (st_bytes a bs w)"
    "stores w (TCPH_HDRLEN_FLAGS_SET a y x w)" "stores w (TCPH_SET_FLAG a x w)" "stores w (TCPH_FLAGS_SET a x w)"
  unfolding stores_def st_u8_def st_u16_def st_u32_def st_bytes_def TCPH_HDRLEN_FLAGS_SET_def TCPH_SET_FLAG_def TCPH_FLAGS_SET_def
  by blast+

lemma stores_st:
  assumes "stores w w'"
  shows "stores w (st_u8 a x w')" "stores w (st_u16 a y w')" "stores w (st_u32 a z w')" "stores w (st_bytes a bs w')"
    "stores w (TCPH_HDRLEN_FLAGS_SET a y x w')" "stores w (TCPH_SET_FLAG a x w')" "stores w (TCPH_FLAGS_SET a x w')"
  by (rule stores_trans [OF assms]; rule st_stores)+

lemma ip4_header_eq: "\<exists>m. ip4_header h src dst ttl tos proto n w = w\<lparr>ip_id := ip_id w + 1, ts_pb := (ts_pb w)\<lparr>ps_mem := m\<rparr>\<rparr>"
  by (rule exI) (simp add: ip4_header_def Let_def st_u8_def st_u16_def st_u32_def)

lemma pinv_add_header:
  assumes "pinv pb" "pbuf_add_header (Some p) k pb = Some (False, pb')" "k \<noteq> 0"
  shows "pinv pb'"
proof -
  from add_header_cases [OF assms(2,3)] obtain b where b: "ps_bufs pb p = Some b" "k \<le> 0xFFFF" "unat (p_tot_len b) + k < 65536"
    "p + SIZEOF_STRUCT_PBUF + k \<le> p_payload b" and pb': "pb' = pb\<lparr>ps_bufs := (ps_bufs pb)(p \<mapsto> b\<lparr>p_payload := p_payload b - k,
        p_len := p_len b + of_nat k, p_tot_len := p_tot_len b + of_nat k\<rparr>)\<rparr>" by blast
  have len: "unat (p_len b + of_nat k) \<le> unat (p_len b) + k"
    using b(2) by (simp add: unat_word_ariths unat_of_nat)
  show ?thesis unfolding pb'
  proof (rule pinv_refield_placed [OF assms(1) b(1)])
    fix bs hp hq
    assume "placed pb bs hp hq p b"
    then show "placed pb bs hp hq p (b\<lparr>p_payload := p_payload b - k, p_len := p_len b + of_nat k, p_tot_len := p_tot_len b + of_nat k\<rparr>)"
      using b(4) len unfolding placed_def
      by (auto simp: pbuf_get_allocsrc_def) (intro exI conjI, assumption, linarith+)
  qed (simp add: pbuf_get_allocsrc_def)
qed

lemma mem_ok_add_header:
  assumes "mem_ok pb R S" "ps_bufs pb p = Some b" "k \<noteq> 0"
  shows "\<exists>r pb'. pbuf_add_header (Some p) k pb = Some (r, pb') \<and> mem_ok pb' R S \<and> pcb_pools pb pb'
    \<and> (\<not> r \<longrightarrow> (\<exists>b'. ps_bufs pb' p = Some b' \<and> unat (p_tot_len b') = unat (p_tot_len b) + k))"
proof -
  have "pbuf_add_header (Some p) k pb \<noteq> None"
    using assms(2) by (auto simp: pbuf_add_header_def pbuf_add_header_impl_def Let_def)
  then obtain r pb' where h: "pbuf_add_header (Some p) k pb = Some (r, pb')" by auto
  show ?thesis
  proof (cases r)
    case True
    then have "pb' = pb" using h assms(2)
      by (auto simp: pbuf_add_header_def pbuf_add_header_impl_def Let_def split: if_splits)
    then show ?thesis using True h assms(1) by auto
  next
    case False
    then have h: "pbuf_add_header (Some p) k pb = Some (False, pb')" using h by simp
    have pi: "pinv pb'" using pinv_add_header [OF _ h assms(3)] assms(1) by (simp add: mem_ok_def)
    obtain b0 where *: "k \<le> 0xFFFF" "unat (p_tot_len b0) + k < 65536" "ps_bufs pb p = Some b0"
      "pb' = pb\<lparr>ps_bufs := (ps_bufs pb)(p \<mapsto> b0\<lparr>p_payload := p_payload b0 - k, p_len := p_len b0 + of_nat k,
         p_tot_len := p_tot_len b0 + of_nat k\<rparr>)\<rparr>" by (rule add_header_cases [OF h assms(3)])
    have b0: "b0 = b" using *(3) assms(2) by simp
    note * = *(1,2,4) [unfolded b0]
    have "owned (ps_bufs pb') R" using owned_fields [of "ps_bufs pb" R p b] assms(1,2) *(3) by (simp add: mem_ok_def)
    moreover have "unat (p_tot_len b + of_nat k) = unat (p_tot_len b) + k"
      using *(1,2) by (simp add: unat_word_ariths unat_of_nat)
    moreover have "pool_holds pb' MEMP_TCP_SEG S" "pcb_pools pb pb'"
      using assms(1) *(3) by (auto simp: mem_ok_def pool_holds_def pcb_pools_def)
    ultimately show ?thesis using h pi *(3) by (auto simp: mem_ok_def)
  qed
qed

text \<open>The interfaces: the list and the default point to interfaces, an MTU is 0 or at least 68 bytes.\<close>

definition netifs_ok :: "'a tcp_stack \<Rightarrow> bool" where
  "netifs_ok w \<longleftrightarrow> (\<forall>a \<in> set (netif_list w). ts_netifs w a \<noteq> None)
     \<and> (\<forall>d. netif_default w = Some d \<longrightarrow> ts_netifs w d \<noteq> None)
     \<and> (\<forall>a n. ts_netifs w a = Some n \<longrightarrow> nif_mtu n = 0 \<or> 68 \<le> unat (nif_mtu n))"

lemma route_loop_ok:
  assumes "\<forall>a \<in> set as. N a \<noteq> None"
  shows "\<exists>r. route_loop N dest as = Some r \<and> (\<forall>a. r = Some a \<longrightarrow> N a \<noteq> None)"
  using assms by (induction as) auto

lemma ip4_route_ok:
  assumes "netifs_ok w"
  shows "\<exists>r. ip4_route w dest = Some r \<and> (\<forall>a. r = Some a \<longrightarrow> ts_netifs w a \<noteq> None)"
proof -
  obtain r where r: "route_loop (ts_netifs w) dest (netif_list w) = Some r" "\<forall>a. r = Some a \<longrightarrow> ts_netifs w a \<noteq> None"
    using route_loop_ok assms unfolding netifs_ok_def by blast
  show ?thesis
    using r assms by (cases r; cases "netif_default w") (auto simp: ip4_route_def netifs_ok_def)
qed

lemma netif_by_num_ok:
  assumes "\<forall>a \<in> set as. N a \<noteq> None"
  shows "\<exists>r. netif_by_num N idx as = Some r \<and> (\<forall>a. r = Some a \<longrightarrow> N a \<noteq> None)"
  using assms by (induction as) auto

lemma tcp_route_ok:
  assumes "netifs_ok w" "\<And>a. p = Some a \<Longrightarrow> ts_pcbs w a \<noteq> None"
  shows "\<exists>r. tcp_route w p src dst = Some r \<and> (\<forall>a. r = Some a \<longrightarrow> ts_netifs w a \<noteq> None)"
proof -
  have "\<forall>a \<in> set (netif_list w). ts_netifs w a \<noteq> None" using assms(1) by (simp add: netifs_ok_def)
  from netif_by_num_ok [OF this] show ?thesis
    using ip4_route_ok [OF assms(1)] assms(2) by (auto simp: tcp_route_def netif_get_by_index_def split: option.splits)
qed

text \<open>
  What the stack relies on: the output function of the interface returns for every well-formed
  packet, changes nothing but the state of the application and keeps \<open>app_ok\<close> of it.
\<close>

locale netif_driver =
  fixes env :: "'a tcp_env" and app_ok :: "'a \<Rightarrow> bool"
  assumes output_returns: "pchain (ps_bufs (ts_pb w)) (Some p) as \<Longrightarrow> app_ok (ts_app w)
    \<Longrightarrow> \<exists>err app. env_netif_output env nif p dest w = Some (err, w\<lparr>ts_app := app\<rparr>) \<and> app_ok app"
begin

abbreviation sent :: "'a tcp_stack \<Rightarrow> pbuf_state \<Rightarrow> u16 \<Rightarrow> 'a \<Rightarrow> 'a tcp_stack" where
  "sent w pb k app \<equiv> w\<lparr>ip_id := k, ts_app := app, ts_pb := pb\<rparr>"

lemma netif_do_output_ok:
  assumes "ts_netifs w nif \<noteq> None" "pchain (ps_bufs (ts_pb w)) (Some p) as" "app_ok (ts_app w)"
  shows "\<exists>err app. netif_do_output env nif p dest w = Some (err, w\<lparr>ts_app := app\<rparr>) \<and> app_ok app"
proof -
  obtain n where n: "ts_netifs w nif = Some n" using assms(1) by blast
  show ?thesis
  proof (cases "nif_output n")
    case netif_null_output_ip4_fn
    have "w\<lparr>ts_app := ts_app w\<rparr> = w" by simp
    then show ?thesis using n netif_null_output_ip4_fn
      assms(3) by (intro exI [of _ ERR_IF] exI [of _ "ts_app w"]) (simp add: netif_do_output_def)
  next
    case netif_output_fn
    then show ?thesis using n output_returns [OF assms(2,3)] by (simp add: netif_do_output_def)
  qed
qed

lemma ip4_output_ok:
  assumes ok: "mem_ok (ts_pb w) (add_mset p R) S" "app_ok (ts_app w)" and n: "netifs_ok w" "ts_netifs w nif \<noteq> None"
    and b: "ps_bufs (ts_pb w) p = Some b" "unat (p_tot_len b) + 20 \<le> 68"
  shows "\<exists>err pb k app. ip4_output_if env p src (Some dst) ttl tos proto nif w = Some (err, sent w pb k app)
    \<and> mem_ok pb (add_mset p R) S \<and> pcb_pools (ts_pb w) pb \<and> app_ok app"
proof -
  obtain nf where nf: "ts_netifs w nif = Some nf" using n(2) by blast
  from mem_ok_add_header [OF ok(1) b(1), of IP_HLEN] obtain r pb1 where
    h: "pbuf_add_header (Some p) IP_HLEN (ts_pb w) = Some (r, pb1)" and m1: "mem_ok pb1 (add_mset p R) S" "pcb_pools (ts_pb w) pb1"
    and t: "\<not> r \<Longrightarrow> \<exists>b'. ps_bufs pb1 p = Some b' \<and> unat (p_tot_len b') = unat (p_tot_len b) + IP_HLEN"
    by (auto simp: IP_HLEN_def)
  show ?thesis
  proof (cases r)
    case True
    then have "ip4_output_if env p src (Some dst) ttl tos proto nif w = Some (ERR_BUF, sent w pb1 (ip_id w) (ts_app w))"
      using h nf by (simp add: ip4_output_if_def ip4_output_if_src_def stack_pb_def)
    then show ?thesis using m1 ok(2) by blast
  next
    case False
    then obtain b' where b': "ps_bufs pb1 p = Some b'" "unat (p_tot_len b') = unat (p_tot_len b) + 20"
      using t by (auto simp: IP_HLEN_def)
    obtain m where m: "ip4_header (p_payload b') (if src = 0 then nif_ip_addr nf else src) dst ttl tos proto (p_tot_len b') (w\<lparr>ts_pb := pb1\<rparr>)
        = w\<lparr>ip_id := ip_id w + 1, ts_pb := pb1\<lparr>ps_mem := m\<rparr>\<rparr>" (is "_ = ?w1")
      using ip4_header_eq [of "p_payload b'" _ dst ttl tos proto "p_tot_len b'" "w\<lparr>ts_pb := pb1\<rparr>"] by fastforce
    have "nif_mtu nf = 0 \<or> 68 \<le> unat (nif_mtu nf)" using n(1) nf by (auto simp: netifs_ok_def)
    then have mtu: "\<not> (nif_mtu nf \<noteq> 0 \<and> p_tot_len b' > nif_mtu nf)"
      using b' b(2) by (auto simp: word_less_nat_alt)
    obtain as where "pchain (ps_bufs pb1) (Some p) as"
      using owned_chain [of "ps_bufs pb1" "add_mset p R" p] m1(1) b'(1) by (auto simp: mem_ok_def)
    then have as: "pchain (ps_bufs (ts_pb ?w1)) (Some p) as" by simp
    obtain err app where o: "netif_do_output env nif p dst ?w1 = Some (err, ?w1\<lparr>ts_app := app\<rparr>)" "app_ok app"
      using netif_do_output_ok [OF _ as, of nif dst] nf ok(2) by auto
    have "ip4_output_if env p src (Some dst) ttl tos proto nif w = Some (err, ?w1\<lparr>ts_app := app\<rparr>)"
      using False h nf b'(1) m mtu o(1)
      by (simp add: ip4_output_if_def ip4_output_if_src_def stack_pb_def stack_buf_def) blast
    moreover have "?w1\<lparr>ts_app := app\<rparr> = sent w (pb1\<lparr>ps_mem := m\<rparr>) (ip_id w + 1) app" by simp
    moreover have "mem_ok (pb1\<lparr>ps_mem := m\<rparr>) (add_mset p R) S" "pcb_pools (ts_pb w) (pb1\<lparr>ps_mem := m\<rparr>)" using m1 by simp_all
    ultimately show ?thesis using o(2) by metis
  qed
qed

lemma control_segment_netif_ok:
  assumes ok: "mem_ok (ts_pb w) (add_mset p R) S" "app_ok (ts_app w)" and n: "netifs_ok w" "ts_netifs w nif \<noteq> None"
    and b: "ps_bufs (ts_pb w) p = Some b" "unat (p_tot_len b) + 20 \<le> 68"
    and pcb: "\<And>a. pcb = Some a \<Longrightarrow> ts_pcbs w a \<noteq> None"
  shows "\<exists>err pb k app. tcp_output_control_segment_netif env pcb p src dst nif w = Some (err, sent w pb k app)
    \<and> mem_ok pb R S \<and> pcb_pools (ts_pb w) pb \<and> app_ok app"
proof -
  obtain ttl tos where t: "(case pcb of None \<Rightarrow> Some (TCP_TTL, 0) | Some a \<Rightarrow> map_option (\<lambda>b. (t_ttl b, t_tos b)) (ts_pcbs w a)) = Some (ttl, tos)"
    using pcb by (cases pcb) auto
  from ip4_output_ok [OF ok n b, of src dst ttl tos IP_PROTO_TCP] obtain err pb k app where
    o: "ip4_output_if env p src (Some dst) ttl tos IP_PROTO_TCP nif w = Some (err, sent w pb k app)"
    "mem_ok pb (add_mset p R) S" "pcb_pools (ts_pb w) pb" "app_ok app" by blast
  from stack_free_pbuf [of "sent w pb k app" "Some p" R S] o(2) obtain c pb' where
    f: "stack_pb (pbuf_free (Some p)) (sent w pb k app) = Some (c, (sent w pb k app)\<lparr>ts_pb := pb'\<rparr>)" "mem_ok pb' R S" "pcb_pools pb pb'"
    by (auto simp: own_next_def)
  have "(sent w pb k app)\<lparr>ts_pb := pb'\<rparr> = sent w pb' k app" by simp
  then show ?thesis
    using t o(1,4) f pcb_pools_trans [OF o(3) f(3)] by (auto simp: tcp_output_control_segment_netif_def)
qed

lemma control_segment_ok:
  assumes ok: "mem_ok (ts_pb w) (add_mset p R) S" "app_ok (ts_app w)" and n: "netifs_ok w"
    and b: "ps_bufs (ts_pb w) p = Some b" "unat (p_tot_len b) + 20 \<le> 68"
    and pcb: "\<And>a. pcb = Some a \<Longrightarrow> ts_pcbs w a \<noteq> None"
  shows "\<exists>err pb k app. tcp_output_control_segment env pcb p src dst w = Some (err, sent w pb k app)
    \<and> mem_ok pb R S \<and> pcb_pools (ts_pb w) pb \<and> app_ok app"
proof -
  obtain r where r: "tcp_route w pcb src dst = Some r" "\<forall>a. r = Some a \<longrightarrow> ts_netifs w a \<noteq> None"
    using tcp_route_ok [OF n pcb] by blast
  show ?thesis
  proof (cases r)
    case None
    from stack_free_pbuf [of w "Some p" R S] ok(1) obtain c pb where
      "stack_pb (pbuf_free (Some p)) w = Some (c, w\<lparr>ts_pb := pb\<rparr>)" "mem_ok pb R S" "pcb_pools (ts_pb w) pb"
      by (auto simp: own_next_def)
    then have "tcp_output_control_segment env pcb p src dst w = Some (ERR_RTE, sent w pb (ip_id w) (ts_app w))"
        "mem_ok pb R S" "pcb_pools (ts_pb w) pb"
      using r None by (simp_all add: tcp_output_control_segment_def)
    then show ?thesis using ok(2) by blast
  next
    case (Some nif)
    then show ?thesis
      using r control_segment_netif_ok [OF ok n _ b pcb] by (simp add: tcp_output_control_segment_def)
  qed
qed

text \<open>A header for a control segment of at most 48 bytes, with its options and data.\<close>

lemma alloc_header_common_ok:
  assumes "mem_ok (ts_pb w) R S" "optlen + datalen \<le> 28"
  shows "\<exists>r pb. tcp_output_alloc_header_common ackno optlen datalen seqno sp dp flags wnd w = Some (r, w\<lparr>ts_pb := pb\<rparr>)
    \<and> mem_ok pb (own_next r R) S \<and> pcb_pools (ts_pb w) pb
    \<and> (\<forall>p. r = Some p \<longrightarrow> (\<exists>b. ps_bufs pb p = Some b \<and> unat (p_tot_len b) = 20 + optlen + datalen))"
proof -
  let ?n = "of_nat (TCP_HLEN + optlen + datalen) :: u16"
  from alloc_ram_ok [OF assms(1), of PBUF_IP ?n] obtain r pb where
    a: "pbuf_alloc PBUF_IP ?n PBUF_RAM (ts_pb w) = Some (r, pb)" "mem_ok pb (own_next r R) S" "pcb_pools (ts_pb w) pb"
    "\<forall>p. r = Some p \<longrightarrow> (\<exists>b. ps_bufs pb p = Some b \<and> unat (p_tot_len b) = unat ?n)" by blast
  show ?thesis
  proof (cases r)
    case None
    then show ?thesis using a
      by (intro exI [of _ r] exI [of _ pb]) (simp add: tcp_output_alloc_header_common_def stack_pb_def)
  next
    case (Some p)
    then obtain b where b: "ps_bufs pb p = Some b" "unat (p_tot_len b) = unat ?n" using a(4) by blast
    have n: "unat ?n = 20 + optlen + datalen" using assms(2) by (simp only: unat_of_nat TCP_HLEN_def) simp
    let ?h = "p_payload b"
    let ?w = "st_u16 (?h + 18) 0 (st_u16 (?h + 16) 0 (st_u16 (?h + 14) wnd (TCPH_HDRLEN_FLAGS_SET ?h (of_nat (5 + optlen div 4)) flags
      (st_u32 (?h + 8) ackno (st_u32 (?h + 4) seqno (st_u16 (?h + 2) dp (st_u16 ?h sp (w\<lparr>ts_pb := pb\<rparr>))))))))"
    have "stores (w\<lparr>ts_pb := pb\<rparr>) ?w" by (intro stores_st stores_refl)
    then obtain m where m: "?w = w\<lparr>ts_pb := pb\<lparr>ps_mem := m\<rparr>\<rparr>" by (auto simp: stores_def)
    have "tcp_output_alloc_header_common ackno optlen datalen seqno sp dp flags wnd w = Some (Some p, ?w)"
      using a(1) Some b(1) by (simp add: tcp_output_alloc_header_common_def stack_pb_def stack_buf_def Let_def)
    then show ?thesis using a(2,3) Some b n m
      by (intro exI [of _ r] exI [of _ "pb\<lparr>ps_mem := m\<rparr>"]) simp
  qed
qed

lemma tcp_rst_ok:
  assumes "mem_ok (ts_pb w) R S" "netifs_ok w" "app_ok (ts_app w)" "\<And>a. pcb = Some a \<Longrightarrow> ts_pcbs w a \<noteq> None"
  shows "\<exists>pb k app. tcp_rst env pcb seqno ackno lip rip lp rp w = Some (sent w pb k app)
    \<and> mem_ok pb R S \<and> pcb_pools (ts_pb w) pb \<and> app_ok app"
proof -
  from alloc_header_common_ok [OF assms(1), of "LWIP_TCP_OPT_LENGTH 0" 0 ackno seqno lp rp "TCP_RST OR TCP_ACK" "swap16 TCP_WND"]
  obtain r pb where a: "tcp_rst_common seqno ackno lp rp w = Some (r, w\<lparr>ts_pb := pb\<rparr>)" "mem_ok pb (own_next r R) S"
    "pcb_pools (ts_pb w) pb" "\<forall>p. r = Some p \<longrightarrow> (\<exists>b. ps_bufs pb p = Some b \<and> unat (p_tot_len b) = 20)"
    by (auto simp: tcp_rst_common_def LWIP_TCP_OPT_LENGTH_def)
  show ?thesis
  proof (cases r)
    case None
    then have "tcp_rst env pcb seqno ackno lip rip lp rp w = Some (sent w pb (ip_id w) (ts_app w))" "mem_ok pb R S"
      using a by (simp_all add: tcp_rst_def own_next_def)
    then show ?thesis using a(3) assms(3) by blast
  next
    case (Some p)
    then obtain b where b: "ps_bufs pb p = Some b" "unat (p_tot_len b) = 20" using a(4) by blast
    from control_segment_ok [of "w\<lparr>ts_pb := pb\<rparr>" p R S b pcb lip rip] a(2) Some b assms(2,3,4)
    obtain err pb' k app where
      "tcp_output_control_segment env pcb p lip rip (w\<lparr>ts_pb := pb\<rparr>) = Some (err, sent w pb' k app)"
      "mem_ok pb' R S" "pcb_pools pb pb'" "app_ok app" by (auto simp: own_next_def netifs_ok_def)
    then show ?thesis using a(1) Some pcb_pools_trans [OF a(3)] by (auto simp: tcp_rst_def)
  qed
qed

text \<open>An acknowledgement changes the flags of the PCB and the announced edge of its window.\<close>

abbreviation sent_pcb :: "'a tcp_stack \<Rightarrow> nat \<Rightarrow> pbuf_state \<Rightarrow> u16 \<Rightarrow> 'a \<Rightarrow> tcp_pcb \<Rightarrow> 'a tcp_stack" where
  "sent_pcb w pcb pb k app b \<equiv> w\<lparr>ip_id := k, ts_app := app, ts_pb := pb, ts_pcbs := (ts_pcbs w)(pcb \<mapsto> b)\<rparr>"

lemma sent_pcb_upd: "pcb_upd pcb f (sent_pcb w pcb pb k app b) = Some (sent_pcb w pcb pb k app (f b))"
  by (simp add: pcb_upd_def)

lemma tcp_send_empty_ack_ok:
  assumes b: "ts_pcbs w pcb = Some b" and ok: "mem_ok (ts_pb w) R S" "netifs_ok w" "app_ok (ts_app w)"
  shows "\<exists>err pb k app f e. tcp_send_empty_ack env pcb w
      = Some (err, sent_pcb w pcb pb k app (b\<lparr>t_rcv_ann_right_edge := e, t_flags := f\<rparr>))
    \<and> mem_ok pb R S \<and> pcb_pools (ts_pb w) pb \<and> app_ok app"
proof -
  let ?s = "sent_pcb w pcb"
  let ?e = "t_rcv_nxt b + ucast (t_rcv_ann_wnd b)"
  let ?b = "\<lambda>f e. b\<lparr>t_rcv_ann_right_edge := e, t_flags := f\<rparr>"
  from alloc_header_common_ok [OF ok(1), of "LWIP_TCP_OPT_LENGTH 0" 0 "t_rcv_nxt b" "t_snd_nxt b" "t_local_port b" "t_remote_port b" TCP_ACK "t_rcv_ann_wnd b"]
  obtain r pb where a: "tcp_output_alloc_header_common (t_rcv_nxt b) (LWIP_TCP_OPT_LENGTH 0) 0 (t_snd_nxt b)
      (t_local_port b) (t_remote_port b) TCP_ACK (t_rcv_ann_wnd b) w = Some (r, w\<lparr>ts_pb := pb\<rparr>)" "mem_ok pb (own_next r R) S"
    "pcb_pools (ts_pb w) pb" "\<forall>p. r = Some p \<longrightarrow> (\<exists>q. ps_bufs pb p = Some q \<and> unat (p_tot_len q) = 20)"
    by (auto simp: LWIP_TCP_OPT_LENGTH_def)
  show ?thesis
  proof (cases r)
    case None
    have "w\<lparr>ts_pb := pb, ts_pcbs := (ts_pcbs w)(pcb \<mapsto> b\<lparr>t_flags := t_flags b OR (TF_ACK_DELAY OR TF_ACK_NOW)\<rparr>)\<rparr>
        = ?s pb (ip_id w) (ts_app w) (?b (t_flags b OR (TF_ACK_DELAY OR TF_ACK_NOW)) (t_rcv_ann_right_edge b))" by simp
    then have "tcp_send_empty_ack env pcb w
        = Some (ERR_BUF, ?s pb (ip_id w) (ts_app w) (?b (t_flags b OR (TF_ACK_DELAY OR TF_ACK_NOW)) (t_rcv_ann_right_edge b)))"
      using None a(1) b by (simp add: tcp_send_empty_ack_def tcp_output_alloc_header_def tcp_set_flags_def pcb_upd_def)
    moreover have "mem_ok pb R S" using None a(2) by (simp add: own_next_def)
    ultimately show ?thesis using a(3) ok(3) by blast
  next
    case (Some p)
    then obtain q where q: "ps_bufs pb p = Some q" "unat (p_tot_len q) = 20" using a(4) by blast
    let ?w1 = "w\<lparr>ts_pb := pb, ts_pcbs := (ts_pcbs w)(pcb \<mapsto> b\<lparr>t_rcv_ann_right_edge := ?e\<rparr>)\<rparr>"
    have h: "tcp_output_alloc_header pcb (LWIP_TCP_OPT_LENGTH 0) 0 (t_snd_nxt b) w = Some (Some p, ?w1)"
      using Some a(1) b by (simp add: tcp_output_alloc_header_def pcb_upd_def)
    have "netifs_ok ?w1" using ok(2) by (simp add: netifs_ok_def)
    with control_segment_ok [of ?w1 p R S q "Some pcb" "t_local_ip b" "t_remote_ip b"] a(2) Some q ok(3)
    obtain err pb' k app where c: "tcp_output_control_segment env (Some pcb) p (t_local_ip b) (t_remote_ip b) ?w1
        = Some (err, sent ?w1 pb' k app)" "mem_ok pb' R S" "pcb_pools pb pb'" "app_ok app" by (auto simp: own_next_def)
    have w1: "sent ?w1 pb' k app = ?s pb' k app (b\<lparr>t_rcv_ann_right_edge := ?e\<rparr>)" by simp
    have "\<exists>f. tcp_send_empty_ack env pcb w = Some (err, ?s pb' k app (?b f ?e))"
      using b h c(1) unfolding tcp_send_empty_ack_def w1
      by (cases "err = ERR_OK") (auto simp: tcp_set_flags_def tcp_clear_flags_def sent_pcb_upd)
    then show ?thesis using c(2,4) pcb_pools_trans [OF a(3) c(3)] by blast
  qed
qed

lemma tcp_output_idle_ok:
  assumes b: "ts_pcbs w pcb = Some b" "t_unsent b = []" and ok: "mem_ok (ts_pb w) R S" "netifs_ok w" "app_ok (ts_app w)"
  shows "\<exists>err pb k app f e. tcp_output env pcb w = Some (err, sent_pcb w pcb pb k app (b\<lparr>t_rcv_ann_right_edge := e, t_flags := f\<rparr>))
    \<and> mem_ok pb R S \<and> pcb_pools (ts_pb w) pb \<and> app_ok app"
proof -
  have id: "w = sent_pcb w pcb (ts_pb w) (ip_id w) (ts_app w) (b\<lparr>t_rcv_ann_right_edge := t_rcv_ann_right_edge b, t_flags := t_flags b\<rparr>)"
    using b(1) by (simp add: fun_upd_idem)
  consider (input) "tcp_input_pcb w = Some pcb" | (ack) "tcp_input_pcb w \<noteq> Some pcb" "t_flags b AND TF_ACK_NOW \<noteq> 0"
    | (none) "tcp_input_pcb w \<noteq> Some pcb" "t_flags b AND TF_ACK_NOW = 0" by blast
  then show ?thesis
  proof cases
    case input
    then have "tcp_output env pcb w = Some (ERR_OK, w)" by (simp add: tcp_output_def)
    then show ?thesis using id ok(1,3) by (metis pcb_pools_refl)
  next
    case ack
    then have "tcp_output env pcb w = tcp_send_empty_ack env pcb w" using b by (simp add: tcp_output_def)
    then show ?thesis using tcp_send_empty_ack_ok [OF b(1) ok] by simp
  next
    case none
    have "tcp_output env pcb w = Some (ERR_OK, sent_pcb w pcb (ts_pb w) (ip_id w) (ts_app w)
        (b\<lparr>t_rcv_ann_right_edge := t_rcv_ann_right_edge b, t_flags := t_flags b AND NOT TF_NAGLEMEMERR\<rparr>))"
      using none b by (simp add: tcp_output_def output_done_def tcp_clear_flags_def pcb_upd_def)
    then show ?thesis using ok(1,3) pcb_pools_refl by blast
  qed
qed

text \<open>Removing a PCB with queues from a list: what is left is a purged PCB in state CLOSED.\<close>

definition removed :: "tcp_pcb \<Rightarrow> tcp_pcb \<Rightarrow> bool" where
  "removed b b' \<longleftrightarrow> (\<exists>f e. b' = (purged b)\<lparr>t_rcv_ann_right_edge := e, t_flags := f, t_state := CLOSED, t_local_port := 0\<rparr>)"

lemma pcb_remove_ack_ok:
  assumes b: "ts_pcbs w pcb = Some b" "t_unsent b = []" and ok: "mem_ok (ts_pb w) R S" "netifs_ok w" "app_ok (ts_app w)"
  shows "\<exists>pb k app f e. (if c then do { w \<leftarrow> tcp_ack_now pcb w; map_option snd (tcp_output env pcb w) } else Some w)
      = Some (sent_pcb w pcb pb k app (b\<lparr>t_rcv_ann_right_edge := e, t_flags := f\<rparr>))
    \<and> mem_ok pb R S \<and> pcb_pools (ts_pb w) pb \<and> app_ok app"
proof (cases c)
  case True
  let ?b = "b\<lparr>t_flags := t_flags b OR TF_ACK_NOW\<rparr>"
  let ?w = "w\<lparr>ts_pcbs := (ts_pcbs w)(pcb \<mapsto> ?b)\<rparr>"
  from tcp_output_idle_ok [of ?w pcb ?b R S] b ok obtain err pb k app f e where
    o: "tcp_output env pcb ?w = Some (err, sent_pcb ?w pcb pb k app (?b\<lparr>t_rcv_ann_right_edge := e, t_flags := f\<rparr>))"
    "mem_ok pb R S" "pcb_pools (ts_pb w) pb" "app_ok app" by (auto simp: netifs_ok_def)
  have "sent_pcb ?w pcb pb k app (?b\<lparr>t_rcv_ann_right_edge := e, t_flags := f\<rparr>)
      = sent_pcb w pcb pb k app (b\<lparr>t_rcv_ann_right_edge := e, t_flags := f\<rparr>)" by simp
  then have "(if c then do { w \<leftarrow> tcp_ack_now pcb w; map_option snd (tcp_output env pcb w) } else Some w)
      = Some (sent_pcb w pcb pb k app (b\<lparr>t_rcv_ann_right_edge := e, t_flags := f\<rparr>))"
    using True b(1) o(1) by (simp add: tcp_ack_now_def tcp_set_flags_def pcb_upd_def)
  then show ?thesis using o(2,3,4) by blast
next
  case False
  have "w = sent_pcb w pcb (ts_pb w) (ip_id w) (ts_app w) (b\<lparr>t_rcv_ann_right_edge := t_rcv_ann_right_edge b, t_flags := t_flags b\<rparr>)"
    using b(1) by (simp add: fun_upd_idem)
  then show ?thesis using False ok(1,3) by (metis pcb_pools_refl)
qed

lemma tcp_pcb_remove_ok:
  assumes b: "ts_pcbs w pcb = Some b" and st: "\<not> queueless (t_state b)"
    and ok: "mem_ok (ts_pb w) (pcb_refs b + R) (seg_elems (pcb_segs b) + S)" "netifs_ok w" "app_ok (ts_app w)"
  shows "\<exists>pb k app b'. tcp_pcb_remove env l pcb w = Some (sent_pcb (TCP_RMV l pcb w) pcb pb k app b')
    \<and> removed b b' \<and> mem_ok pb R S \<and> pcb_pools (ts_pb w) pb \<and> app_ok app"
proof -
  let ?w0 = "TCP_RMV l pcb w"
  have w0: "ts_pcbs ?w0 = ts_pcbs w" "ts_pb ?w0 = ts_pb w" by (cases l; simp add: TCP_RMV_def)+
  have n0: "netifs_ok ?w0" using ok(2) by (cases l) (simp_all add: TCP_RMV_def netifs_ok_def)
  from tcp_pcb_purge_ok [of ?w0 pcb b R S] b st ok(1) obtain pb1 where
    p1: "tcp_pcb_purge pcb ?w0 = Some (with_pcb ?w0 pcb pb1 (purged b))" "mem_ok pb1 R S" "pcb_pools (ts_pb w) pb1"
    unfolding w0 by blast
  let ?w1 = "with_pcb ?w0 pcb pb1 (purged b)"
  have b1: "ts_pcbs ?w1 pcb = Some (purged b)" "t_unsent (purged b) = []" by (simp_all add: purged_def)
  have n1: "netifs_ok ?w1" using n0 by (simp add: netifs_ok_def)
  define c where "c \<longleftrightarrow> t_state (purged b) \<noteq> TIME_WAIT \<and> t_state (purged b) \<noteq> LISTEN \<and> t_flags (purged b) AND TF_ACK_DELAY \<noteq> 0"
  have a0: "app_ok (ts_app ?w1)" using ok(3) by (cases l) (simp_all add: TCP_RMV_def)
  have "mem_ok (ts_pb ?w1) R S" using p1(2) by simp
  from pcb_remove_ack_ok [OF b1 this n1 a0, of c] obtain pb k app f e where
    o: "(if c then do { w \<leftarrow> tcp_ack_now pcb ?w1; map_option snd (tcp_output env pcb w) } else Some ?w1)
      = Some (sent_pcb ?w1 pcb pb k app ((purged b)\<lparr>t_rcv_ann_right_edge := e, t_flags := f\<rparr>))"
    "mem_ok pb R S" "pcb_pools pb1 pb" "app_ok app" by auto
  let ?b' = "(purged b)\<lparr>t_rcv_ann_right_edge := e, t_flags := f, t_state := CLOSED, t_local_port := 0\<rparr>"
  have "tcp_pcb_remove env l pcb w = Some (sent_pcb ?w1 pcb pb k app ?b')"
    using p1(1) o(1) by (simp add: tcp_pcb_remove_def c_def sent_pcb_upd split del: if_split)
  moreover have "sent_pcb ?w1 pcb pb k app ?b' = sent_pcb ?w0 pcb pb k app ?b'" by simp
  moreover have "removed b ?b'" by (auto simp: removed_def)
  ultimately show ?thesis using o(2,4) pcb_pools_trans [OF p1(3) o(3)] by metis
qed

end

end
