(* ===== verification/Tcp_Abort.thy ===== *)
theory Tcp_Abort
  imports Tcp_Inv
begin

text \<open>
  The invariant of the whole stack: accounting of pbufs, segments and control blocks, and the
  axioms about the PCB lists. Aborting a connection keeps it and frees exactly that PCB.
\<close>

section \<open>The invariant\<close>

definition all_refs :: "(nat \<rightharpoonup> tcp_pcb) \<Rightarrow> nat multiset" where
  "all_refs P = (\<Sum>a \<in> dom P. pcb_refs (the (P a)))"

definition all_elems :: "(nat \<rightharpoonup> tcp_pcb) \<Rightarrow> nat multiset" where
  "all_elems P = (\<Sum>a \<in> dom P. seg_elems (pcb_segs (the (P a))))"

lemma sum_dom_remove:
  assumes "finite (dom P)" "P a = Some b"
  shows "(\<Sum>x \<in> dom P. f (the (P x))) = f b + (\<Sum>x \<in> dom (P(a := None)). f (the ((P(a := None)) x)) :: nat multiset)"
proof -
  have "(\<Sum>x \<in> dom P. f (the (P x))) = f (the (P a)) + (\<Sum>x \<in> dom P - {a}. f (the (P x)))"
    using assms by (intro sum.remove) auto
  also have "(\<Sum>x \<in> dom P - {a}. f (the (P x))) = (\<Sum>x \<in> dom (P(a := None)). f (the ((P(a := None)) x)))"
    by (rule sum.cong) auto
  finally show ?thesis using assms(2) by simp
qed

lemma all_remove:
  assumes "finite (dom P)" "P a = Some b"
  shows "all_refs P = pcb_refs b + all_refs (P(a := None))"
    and "all_elems P = seg_elems (pcb_segs b) + all_elems (P(a := None))"
  unfolding all_refs_def all_elems_def
  by (rule sum_dom_remove [OF assms, of pcb_refs], rule sum_dom_remove [OF assms, of "\<lambda>b. seg_elems (pcb_segs b)"])

lemma all_upd:
  assumes "finite (dom P)"
  shows "all_refs (P(a \<mapsto> b)) = pcb_refs b + all_refs (P(a := None))"
    and "all_elems (P(a \<mapsto> b)) = seg_elems (pcb_segs b) + all_elems (P(a := None))"
  using all_remove [of "P(a \<mapsto> b)" a b] assms by simp_all

text \<open>
  The pools of the PCBs as \<open>lwipopts.h\<close> configures them: disjoint arrays.
\<close>

definition MEMP_NUM_TCP_PCB :: nat where "MEMP_NUM_TCP_PCB = 32"

definition MEMP_NUM_TCP_PCB_LISTEN :: nat where "MEMP_NUM_TCP_PCB_LISTEN = 8"

definition pcb_layout :: "pbuf_state \<Rightarrow> bool" where
  "pcb_layout pb \<longleftrightarrow>
     (let d = fst (ps_pools pb ! MEMP_TCP_PCB); l = fst (ps_pools pb ! MEMP_TCP_PCB_LISTEN)
      in 0 < desc_size d \<and> desc_num d = MEMP_NUM_TCP_PCB \<and> 0 < desc_size l \<and> desc_num l = MEMP_NUM_TCP_PCB_LISTEN
         \<and> set (memp_elems d) \<inter> set (memp_elems l) = {})"

lemma pcb_layout_pools: "pcb_pools pb pb' \<Longrightarrow> pcb_layout pb' = pcb_layout pb"
  by (simp add: pcb_layout_def pcb_pools_def)

lemma pcb_layout_cong:
  "fst (ps_pools pb' ! MEMP_TCP_PCB) = fst (ps_pools pb ! MEMP_TCP_PCB)
    \<Longrightarrow> fst (ps_pools pb' ! MEMP_TCP_PCB_LISTEN) = fst (ps_pools pb ! MEMP_TCP_PCB_LISTEN) \<Longrightarrow> pcb_layout pb' = pcb_layout pb"
  by (simp add: pcb_layout_def)

lemma memp_free_fst: "fst (memp_free ty m pools ! k) = fst (pools ! k)"
  by (cases "k < length pools") (auto simp: memp_free_def nth_list_update split: option.split)

lemma memp_malloc_fst: "fst (snd (memp_malloc ty pools) ! k) = fst (pools ! k)"
  by (cases "k < length pools") (auto simp: memp_malloc_def nth_list_update split: prod.split)

text \<open>
  \<open>R\<close> are references to pbufs and \<open>S\<close> segments held outside the PCBs. Every structure is
  accounted for: an element of its pool is held exactly when it is live.
\<close>

definition memory_ok :: "'a tcp_stack \<Rightarrow> nat multiset \<Rightarrow> nat multiset \<Rightarrow> bool" where
  "memory_ok w R S \<longleftrightarrow> finite (dom (ts_pcbs w)) \<and> finite (dom (ts_lpcbs w)) \<and> dom (ts_pcbs w) \<inter> dom (ts_lpcbs w) = {}
     \<and> mem_ok (ts_pb w) (all_refs (ts_pcbs w) + R) (all_elems (ts_pcbs w) + S)
     \<and> pool_holds (ts_pb w) MEMP_TCP_PCB (mset_set (dom (ts_pcbs w)))
     \<and> pool_holds (ts_pb w) MEMP_TCP_PCB_LISTEN (mset_set (dom (ts_lpcbs w)))
     \<and> netifs_ok w \<and> pcb_layout (ts_pb w)"

text \<open>The axioms of \<open>tcp_priv.h\<close>; a PCB without queues has nothing queued.\<close>

definition lists_ok :: "'a tcp_stack \<Rightarrow> bool" where
  "lists_ok w \<longleftrightarrow> distinct (tcp_pcb_lists w) \<and> set (tcp_listen_pcbs w) = dom (ts_lpcbs w)
     \<and> (\<forall>a \<in> set (tcp_bound_pcbs w) \<union> set (tcp_active_pcbs w) \<union> set (tcp_tw_pcbs w). ts_pcbs w a \<noteq> None)
     \<and> (\<forall>a b. ts_pcbs w a = Some b \<longrightarrow>
          (a \<in> set (tcp_bound_pcbs w) \<longleftrightarrow> t_state b = CLOSED \<and> t_local_port b \<noteq> 0)
        \<and> (a \<in> set (tcp_tw_pcbs w) \<longleftrightarrow> t_state b = TIME_WAIT)
        \<and> (a \<in> set (tcp_active_pcbs w) \<longleftrightarrow> \<not> queueless (t_state b))
        \<and> t_state b \<noteq> LISTEN
        \<and> (queueless (t_state b) \<longrightarrow> pcb_segs b = [] \<and> t_refused_data b = None))"

definition stack_ok :: "'a tcp_stack \<Rightarrow> nat multiset \<Rightarrow> nat multiset \<Rightarrow> bool" where
  "stack_ok w R S \<longleftrightarrow> memory_ok w R S \<and> lists_ok w"

lemma stack_okD:
  assumes "stack_ok w R S"
  shows "finite (dom (ts_pcbs w))" "mem_ok (ts_pb w) (all_refs (ts_pcbs w) + R) (all_elems (ts_pcbs w) + S)"
    "pool_holds (ts_pb w) MEMP_TCP_PCB (mset_set (dom (ts_pcbs w)))" "netifs_ok w" "lists_ok w"
    "pool_holds (ts_pb w) MEMP_TCP_PCB_LISTEN (mset_set (dom (ts_lpcbs w)))" "pcb_layout (ts_pb w)"
    "finite (dom (ts_lpcbs w))" "dom (ts_pcbs w) \<inter> dom (ts_lpcbs w) = {}"
  using assms by (simp_all add: stack_ok_def memory_ok_def)

lemma pool_holds_elems: "pool_holds pb ty M \<Longrightarrow> set_mset M \<subseteq> set (memp_elems (fst (ps_pools pb ! ty)))"
  by (auto simp: pool_holds_def memp.pool_inv_def)

lemma card_pcbs:
  assumes "stack_ok w R S"
  shows "card (dom (ts_pcbs w)) \<le> MEMP_NUM_TCP_PCB"
proof -
  note o = stack_okD [OF assms]
  let ?d = "fst (ps_pools (ts_pb w) ! MEMP_TCP_PCB)"
  have "dom (ts_pcbs w) \<subseteq> set (memp_elems ?d)" using pool_holds_elems [OF o(3)] o(1) by simp
  then have "card (dom (ts_pcbs w)) \<le> card (set (memp_elems ?d))" by (rule card_mono [OF finite_set])
  also have "\<dots> \<le> length (memp_elems ?d)" by (rule card_length)
  also have "\<dots> = MEMP_NUM_TCP_PCB" using o(7) by (simp add: memp_elems_def pcb_layout_def Let_def)
  finally show ?thesis .
qed

section \<open>Freeing a PCB\<close>

text \<open>The state after a PCB is gone: it is on no list and its element is back in the pool.\<close>

definition without :: "nat \<Rightarrow> 'a tcp_stack \<Rightarrow> 'a tcp_stack \<Rightarrow> bool" where
  "without pcb w w' \<longleftrightarrow> ts_pcbs w' = (ts_pcbs w)(pcb := None) \<and> ts_lpcbs w' = ts_lpcbs w
     \<and> tcp_listen_pcbs w' = tcp_listen_pcbs w
     \<and> tcp_bound_pcbs w' = remove1 pcb (tcp_bound_pcbs w)
     \<and> tcp_active_pcbs w' = remove1 pcb (tcp_active_pcbs w)
     \<and> tcp_tw_pcbs w' = remove1 pcb (tcp_tw_pcbs w)
     \<and> ts_netifs w' = ts_netifs w \<and> netif_list w' = netif_list w \<and> netif_default w' = netif_default w
     \<and> tcp_input_pcb w' = tcp_input_pcb w \<and> tcp_ticks w' = tcp_ticks w \<and> recv_flags w' = recv_flags w"

lemma without_lists:
  assumes "lists_ok w" "without pcb w w'"
  shows "lists_ok w'"
proof -
  have d: "distinct (tcp_pcb_lists w)" using assms(1) by (simp add: lists_ok_def)
  have r: "set (remove1 pcb xs) = set xs - {pcb}" if "distinct xs" for xs :: "nat list" using that by simp
  have ds: "distinct (tcp_bound_pcbs w)" "distinct (tcp_active_pcbs w)" "distinct (tcp_tw_pcbs w)"
    using d by (auto simp: tcp_pcb_lists_def)
  have "distinct (tcp_pcb_lists w')"
    using d assms(2) by (auto simp: tcp_pcb_lists_def without_def r)
  then show ?thesis using assms ds unfolding lists_ok_def without_def by (auto simp: r split: if_splits)
qed

lemma without_stack:
  assumes w: "stack_ok w R S" and b: "ts_pcbs w pcb = Some b" and w': "without pcb w w'"
    and mem: "mem_ok (ts_pb w') (all_refs ((ts_pcbs w)(pcb := None)) + R) (all_elems ((ts_pcbs w)(pcb := None)) + S)"
    and pools: "ps_pools (ts_pb w') = memp_free MEMP_TCP_PCB (Some pcb) (ps_pools pb)" "pcb_pools (ts_pb w) pb"
  shows "stack_ok w' R S"
proof -
  have l: "MEMP_TCP_PCB < length (ps_pools pb)" using w pools(2) by (simp add: stack_ok_def memory_ok_def pool_holds_def pcb_pools_def)
  have dom: "mset_set (dom (ts_pcbs w)) = add_mset pcb (mset_set (dom ((ts_pcbs w)(pcb := None))))"
    using stack_okD(1) [OF w] b by (simp add: mset_set.remove [of _ pcb] domIff)
  have h: "pool_holds pb MEMP_TCP_PCB (mset_set (dom (ts_pcbs w)))" "pool_holds pb MEMP_TCP_PCB_LISTEN (mset_set (dom (ts_lpcbs w)))"
    using stack_okD(3,6) [OF w] pool_holds_cong [of pb "ts_pb w"] pools(2) by (simp_all add: pcb_pools_def)
  have "pool_holds (pb\<lparr>ps_pools := memp_free MEMP_TCP_PCB (Some pcb) (ps_pools pb)\<rparr>) MEMP_TCP_PCB (mset_set (dom (ts_pcbs w')))"
    using pool_holds_free [of pb MEMP_TCP_PCB pcb] h(1) dom w' by (simp add: without_def)
  then have p0: "pool_holds (ts_pb w') MEMP_TCP_PCB (mset_set (dom (ts_pcbs w')))" using pools(1) by (simp add: pool_holds_def)
  have "pool_holds (ts_pb w') MEMP_TCP_PCB_LISTEN (mset_set (dom (ts_lpcbs w')))"
    using h(2) w' pools(1) pool_holds_cong [of "ts_pb w'" pb MEMP_TCP_PCB_LISTEN] l
    by (simp add: without_def memp_free_pools pool_idx)
  moreover have "pcb_layout (ts_pb w')"
    using stack_okD(7) [OF w] pcb_layout_pools [OF pools(2)] pools(1) pcb_layout_cong [of "ts_pb w'" pb] by (simp add: memp_free_fst)
  ultimately show ?thesis
    using p0 w w' mem without_lists [OF stack_okD(5) [OF w] w'] unfolding stack_ok_def memory_ok_def netifs_ok_def without_def by auto
qed

lemma mem_ok_free_pcb:
  assumes "mem_ok pb R S" "ty = MEMP_TCP_PCB \<or> ty = MEMP_TCP_PCB_LISTEN"
  shows "mem_ok (pb\<lparr>ps_pools := memp_free ty (Some a) (ps_pools pb)\<rparr>) R S"
  using assms pinv_memp_free [of pb ty "Some a"] by (auto simp: mem_ok_def pool_holds_def memp_free_def pool_idx)

lemma lists_ok_pcb:
  assumes "lists_ok w" "ts_pcbs w a = Some b"
  shows "a \<in> set (tcp_bound_pcbs w) \<longleftrightarrow> t_state b = CLOSED \<and> t_local_port b \<noteq> 0"
    and "a \<in> set (tcp_tw_pcbs w) \<longleftrightarrow> t_state b = TIME_WAIT"
    and "a \<in> set (tcp_active_pcbs w) \<longleftrightarrow> \<not> queueless (t_state b)"
    and "t_state b \<noteq> LISTEN"
    and "queueless (t_state b) \<Longrightarrow> pcb_segs b = [] \<and> t_refused_data b = None"
  using assms unfolding lists_ok_def by blast+

lemma queueless_nothing:
  assumes "pcb_segs b = []" "t_refused_data b = None"
  shows "pcb_refs b = {#}" "seg_elems (pcb_segs b) = {#}"
  using assms by (simp_all add: pcb_refs_def own_next_def)

text \<open>The PCB itself and then the memory.\<close>

lemma freed_stack:
  assumes w: "stack_ok w R S" and b: "ts_pcbs w pcb = Some b"
    and w1: "without pcb w (w1\<lparr>ts_pcbs := (ts_pcbs w1)(pcb := None)\<rparr>)"
    and mem: "mem_ok (ts_pb w1) (all_refs ((ts_pcbs w)(pcb := None)) + R) (all_elems ((ts_pcbs w)(pcb := None)) + S)"
      "pcb_pools (ts_pb w) (ts_pb w1)"
  shows "without pcb w (tcp_free pcb w1)" "stack_ok (tcp_free pcb w1) R S"
proof -
  let ?w = "tcp_free pcb w1"
  show wo: "without pcb w ?w" using w1 by (simp add: without_def tcp_free_def stack_free_def)
  have "mem_ok (ts_pb ?w) (all_refs ((ts_pcbs w)(pcb := None)) + R) (all_elems ((ts_pcbs w)(pcb := None)) + S)"
    using mem_ok_free_pcb [OF mem(1), of MEMP_TCP_PCB pcb] by (simp add: tcp_free_def stack_free_def)
  then show "stack_ok ?w R S"
    by (rule without_stack [OF w b wo _ _ mem(2)]) (simp add: tcp_free_def stack_free_def)
qed

section \<open>Aborting\<close>

text \<open>Fields of a PCB that the accounting does not look at.\<close>

definition same_queues :: "tcp_pcb \<Rightarrow> tcp_pcb \<Rightarrow> bool" where
  "same_queues b b' \<longleftrightarrow> pcb_segs b' = pcb_segs b \<and> t_refused_data b' = t_refused_data b
     \<and> t_state b' = t_state b \<and> t_local_port b' = t_local_port b"

lemma stack_ok_upd:
  assumes w: "stack_ok w R S" and b: "ts_pcbs w a = Some b" "same_queues b b'"
  shows "stack_ok (w\<lparr>ts_pcbs := (ts_pcbs w)(a \<mapsto> b')\<rparr>) R S"
proof -
  have d: "dom ((ts_pcbs w)(a \<mapsto> b')) = dom (ts_pcbs w)" using b(1) by auto
  have r: "pcb_refs b' = pcb_refs b" using b(2) by (simp add: same_queues_def pcb_refs_def)
  have "all_refs ((ts_pcbs w)(a \<mapsto> b')) = all_refs (ts_pcbs w)" "all_elems ((ts_pcbs w)(a \<mapsto> b')) = all_elems (ts_pcbs w)"
    using all_upd [OF stack_okD(1) [OF w], of a b'] all_remove [OF stack_okD(1) [OF w] b(1)] b(2) r
    by (simp_all add: same_queues_def)
  then have "memory_ok (w\<lparr>ts_pcbs := (ts_pcbs w)(a \<mapsto> b')\<rparr>) R S"
    using w d unfolding stack_ok_def memory_ok_def by (simp add: netifs_ok_def)
  moreover have "lists_ok (w\<lparr>ts_pcbs := (ts_pcbs w)(a \<mapsto> b')\<rparr>)"
    using stack_okD(5) [OF w] b by (auto simp: lists_ok_def tcp_pcb_lists_def same_queues_def)
  ultimately show ?thesis by (simp add: stack_ok_def)
qed

lemma stack_ok_app [simp]: "stack_ok (w\<lparr>ts_app := app\<rparr>) R S = stack_ok w R S"
  by (simp add: stack_ok_def memory_ok_def lists_ok_def netifs_ok_def tcp_pcb_lists_def)

lemma lists_ok_pb [simp]: "lists_ok (w\<lparr>ts_pb := pb\<rparr>) = lists_ok w"
  by (simp add: lists_ok_def tcp_pcb_lists_def)

lemma without_app [simp]: "without pcb w (w'\<lparr>ts_app := app\<rparr>) = without pcb w w'"
  by (simp add: without_def)

text \<open>
  What \<open>tcp_abandon\<close> does up to the call of the error callback: the PCB is gone, the stack is as it
  should be, and \<open>app_ok\<close> holds. A PCB in TIME-WAIT has no error callback to call.
\<close>

definition abandon_errf :: "tcp_pcb \<Rightarrow> tcp_err_fn option" where
  "abandon_errf b = (if t_state b = TIME_WAIT then None else t_errf b)"

context netif_driver
begin

definition abandoned :: "nat \<Rightarrow> bool \<Rightarrow> tcp_pcb \<Rightarrow> 'a tcp_stack \<Rightarrow> 'a tcp_stack \<Rightarrow> bool" where
  "abandoned pcb reset b w w' \<longleftrightarrow>
     tcp_abandon env (Some pcb) reset w = TCP_EVENT_ERR env (abandon_errf b) (t_callback_arg b) ERR_ABRT w'
     \<and> without pcb w w' \<and> app_ok (ts_app w')"

lemma abandon_timewait:
  assumes w: "stack_ok w R S" "app_ok (ts_app w)" and b: "ts_pcbs w pcb = Some b" and st: "t_state b = TIME_WAIT"
  shows "\<exists>w'. abandoned pcb reset b w w' \<and> stack_ok w' R S"
proof -
  note l = lists_ok_pcb [OF stack_okD(5) [OF w(1)] b]
  have q: "pcb_segs b = []" "t_refused_data b = None" using l(5) st by (simp_all add: queueless_def)
  let ?w = "(TCP_RMV L_tw pcb w)\<lparr>ts_pcbs := (ts_pcbs w)(pcb \<mapsto> b\<lparr>t_state := CLOSED, t_local_port := 0\<rparr>)\<rparr>"
  have "tcp_pcb_remove env L_tw pcb w = Some ?w"
    using b st by (simp add: tcp_pcb_remove_def tcp_pcb_purge_def TCP_RMV_def pcb_upd_def)
  then have a: "tcp_abandon env (Some pcb) reset w = Some (tcp_free pcb ?w)"
    using b st by (simp add: tcp_abandon_def)
  have wo: "without pcb w (?w\<lparr>ts_pcbs := (ts_pcbs ?w)(pcb := None)\<rparr>)"
    using l(1,3) st by (simp add: without_def TCP_RMV_def queueless_def remove1_idem)
  have m: "mem_ok (ts_pb ?w) (all_refs ((ts_pcbs w)(pcb := None)) + R) (all_elems ((ts_pcbs w)(pcb := None)) + S)"
    using stack_okD(2) [OF w(1)] all_remove [OF stack_okD(1) [OF w(1)] b] queueless_nothing [OF q] by (simp add: TCP_RMV_def)
  have "pcb_pools (ts_pb w) (ts_pb ?w)" by (simp add: TCP_RMV_def)
  from freed_stack [OF w(1) b wo m this] a show ?thesis
    using w(2) st by (auto simp: abandoned_def abandon_errf_def TCP_EVENT_ERR_def tcp_free_def stack_free_def TCP_RMV_def)
qed

lemma abandon_closed:
  assumes w: "stack_ok w R S" "app_ok (ts_app w)" and b: "ts_pcbs w pcb = Some b" and st: "t_state b = CLOSED"
  shows "\<exists>w'. abandoned pcb reset b w w' \<and> stack_ok w' R S"
proof -
  note l = lists_ok_pcb [OF stack_okD(5) [OF w(1)] b]
  have q: "pcb_segs b = []" "t_refused_data b = None" using l(5) st by (simp_all add: queueless_def)
  let ?w = "w\<lparr>tcp_bound_pcbs := remove1 pcb (tcp_bound_pcbs w)\<rparr>"
  have w': "(if t_local_port b \<noteq> 0 then TCP_RMV L_bound pcb w else w) = ?w"
    using l(1) st by (auto simp: TCP_RMV_def remove1_idem)
  have a: "tcp_abandon env (Some pcb) reset w = TCP_EVENT_ERR env (t_errf b) (t_callback_arg b) ERR_ABRT (tcp_free pcb ?w)"
    using b st q(1) w' by (simp add: tcp_abandon_def pcb_segs_def Let_def split del: if_split)
  have wo: "without pcb w (?w\<lparr>ts_pcbs := (ts_pcbs ?w)(pcb := None)\<rparr>)"
    using l(2,3) st by (simp add: without_def queueless_def remove1_idem)
  have m: "mem_ok (ts_pb ?w) (all_refs ((ts_pcbs w)(pcb := None)) + R) (all_elems ((ts_pcbs w)(pcb := None)) + S)"
    using stack_okD(2) [OF w(1)] all_remove [OF stack_okD(1) [OF w(1)] b] queueless_nothing [OF q] by simp
  from freed_stack [OF w(1) b wo m] a show ?thesis
    using w(2) st by (intro exI [of _ "tcp_free pcb ?w"]) (simp add: abandoned_def abandon_errf_def tcp_free_def stack_free_def)
qed

lemma abandon_rst:
  assumes "mem_ok (ts_pb w) R S" "netifs_ok w" "app_ok (ts_app w)" "ts_pcbs w pcb \<noteq> None"
  shows "\<exists>pb k app. (if reset then tcp_rst env (Some pcb) seqno ackno lip rip lp rp w else Some w) = Some (sent w pb k app)
    \<and> mem_ok pb R S \<and> pcb_pools (ts_pb w) pb \<and> app_ok app"
proof (cases reset)
  case True
  then show ?thesis using tcp_rst_ok [OF assms(1-3), of "Some pcb"] assms(4) by simp
next
  case False
  have "sent w (ts_pb w) (ip_id w) (ts_app w) = w" by simp
  then show ?thesis using False assms(1,3) by (metis pcb_pools_refl)
qed

lemma abandon_active:
  assumes w: "stack_ok w R S" "app_ok (ts_app w)" and b: "ts_pcbs w pcb = Some b" and st: "\<not> queueless (t_state b)"
  shows "\<exists>w'. abandoned pcb reset b w w' \<and> stack_ok w' R S"
proof -
  note l = lists_ok_pcb [OF stack_okD(5) [OF w(1)] b]
  let ?P = "(ts_pcbs w)(pcb := None)"
  have "mem_ok (ts_pb w) (pcb_refs b + (all_refs ?P + R)) (seg_elems (pcb_segs b) + (all_elems ?P + S))"
    using stack_okD(2) [OF w(1)] all_remove [OF stack_okD(1) [OF w(1)] b] by (simp add: ac_simps)
  from tcp_pcb_remove_ok [OF b st this stack_okD(4) [OF w(1)] w(2), of L_active] obtain pb k app b' where
    r: "tcp_pcb_remove env L_active pcb w = Some (sent_pcb (TCP_RMV L_active pcb w) pcb pb k app b')" "removed b b'"
    and m: "mem_ok pb (all_refs ?P + R) (all_elems ?P + S)" "pcb_pools (ts_pb w) pb" "app_ok app" by blast
  let ?w1 = "(sent_pcb (TCP_RMV L_active pcb w) pcb pb k app b')\<lparr>tcp_active_pcbs_changed := True\<rparr>"
  have q: "t_unacked b' = []" "t_unsent b' = []" "t_ooseq b' = []" using r(2) by (auto simp: removed_def purged_def)
  have n1: "netifs_ok ?w1" using stack_okD(4) [OF w(1)] by (simp add: netifs_ok_def TCP_RMV_def)
  have m1: "mem_ok (ts_pb ?w1) (all_refs ?P + R) (all_elems ?P + S)" "ts_pcbs ?w1 pcb \<noteq> None" "ts_pb ?w1 = pb"
    "app_ok (ts_app ?w1)" using m(1,3) by simp_all
  obtain pb2 k2 app2 where rst: "(if reset then tcp_rst env (Some pcb) (t_snd_nxt b) (t_rcv_nxt b) (t_local_ip b') (t_remote_ip b')
      (t_local_port b) (t_remote_port b') ?w1 else Some ?w1) = Some (sent ?w1 pb2 k2 app2)"
    and m2: "mem_ok pb2 (all_refs ?P + R) (all_elems ?P + S)" "pcb_pools pb pb2" "app_ok app2"
    using abandon_rst [OF m1(1) n1 m1(4,2), unfolded m1(3)] by metis
  let ?w2 = "sent ?w1 pb2 k2 app2"
  have s: "t_state b \<noteq> TIME_WAIT" "t_state b \<noteq> CLOSED" using st by (auto simp: queueless_def)
  have a: "tcp_abandon env (Some pcb) reset w = TCP_EVENT_ERR env (t_errf b) (t_callback_arg b) ERR_ABRT (tcp_free pcb ?w2)"
    using b s r(1) q rst by (simp add: tcp_abandon_def TCP_PCB_REMOVE_ACTIVE_def Let_def split del: if_split)
  have wo: "without pcb w (?w2\<lparr>ts_pcbs := (ts_pcbs ?w2)(pcb := None)\<rparr>)"
    using l(1,2) s by (simp add: without_def TCP_RMV_def remove1_idem)
  have p2: "pcb_pools (ts_pb w) (ts_pb ?w2)" using pcb_pools_trans [OF m(2) m2(2)] by simp
  have m3: "mem_ok (ts_pb ?w2) (all_refs ?P + R) (all_elems ?P + S)" using m2(1) by simp
  from freed_stack [OF w(1) b wo m3 p2] a show ?thesis
    using m2(3) s(1) by (intro exI [of _ "tcp_free pcb ?w2"]) (simp add: abandoned_def abandon_errf_def tcp_free_def stack_free_def)
qed

lemma tcp_abandon_upto:
  assumes "stack_ok w R S" "app_ok (ts_app w)" "ts_pcbs w pcb = Some b"
  shows "\<exists>w'. abandoned pcb reset b w w' \<and> stack_ok w' R S"
proof -
  have "t_state b \<noteq> LISTEN" using lists_ok_pcb(4) [OF stack_okD(5) [OF assms(1)] assms(3)] .
  then consider "t_state b = TIME_WAIT" | "t_state b = CLOSED" | "\<not> queueless (t_state b)" by (auto simp: queueless_def)
  then show ?thesis
    using abandon_timewait [OF assms] abandon_closed [OF assms] abandon_active [OF assms] by cases blast+
qed

text \<open>Without an error callback nothing but the output function sees the application.\<close>

lemma tcp_abandon_quiet:
  assumes "stack_ok w R S" "app_ok (ts_app w)" "ts_pcbs w pcb = Some b" "t_errf b = None"
  shows "\<exists>w'. tcp_abandon env (Some pcb) reset w = Some w' \<and> stack_ok w' R S \<and> without pcb w w' \<and> app_ok (ts_app w')"
  using tcp_abandon_upto [OF assms(1-3), of reset] assms(4) by (auto simp: abandoned_def abandon_errf_def TCP_EVENT_ERR_def)

end

text \<open>An application whose error callback returns, and changes only its own state.\<close>

locale tcp_user = netif_driver +
  assumes err_returns: "app_ok (ts_app w) \<Longrightarrow> \<exists>app. env_err_cb env f arg err w = Some (w\<lparr>ts_app := app\<rparr>) \<and> app_ok app"
begin

lemma event_err_ok:
  assumes "app_ok (ts_app w)"
  shows "\<exists>app. TCP_EVENT_ERR env errf arg err w = Some (w\<lparr>ts_app := app\<rparr>) \<and> app_ok app"
proof (cases errf)
  case None
  have "w\<lparr>ts_app := ts_app w\<rparr> = w" by simp
  then show ?thesis using None assms by (metis TCP_EVENT_ERR_def option.case(1))
next
  case (Some f)
  then show ?thesis using err_returns [OF assms] by (simp add: TCP_EVENT_ERR_def)
qed

lemma tcp_abandon_ok:
  assumes "stack_ok w R S" "app_ok (ts_app w)" "ts_pcbs w pcb \<noteq> None"
  shows "\<exists>w'. tcp_abandon env (Some pcb) reset w = Some w' \<and> stack_ok w' R S \<and> without pcb w w' \<and> app_ok (ts_app w')"
proof -
  obtain b where b: "ts_pcbs w pcb = Some b" using assms(3) by blast
  from tcp_abandon_upto [OF assms(1,2) b, of reset] obtain w1 where w1:
    "tcp_abandon env (Some pcb) reset w = TCP_EVENT_ERR env (abandon_errf b) (t_callback_arg b) ERR_ABRT w1"
    "without pcb w w1" "app_ok (ts_app w1)" "stack_ok w1 R S" by (auto simp: abandoned_def)
  from event_err_ok [OF w1(3)] obtain app where
    "TCP_EVENT_ERR env (abandon_errf b) (t_callback_arg b) ERR_ABRT w1 = Some (w1\<lparr>ts_app := app\<rparr>)" "app_ok app" by blast
  with w1 show ?thesis by (intro exI [of _ "w1\<lparr>ts_app := app\<rparr>"]) simp
qed

end

end
