(* ===== verification/Bridge_Inv.thy ===== *)
theory Bridge_Inv
  imports Bridge Tcp_Abort
begin

text \<open>
  The bridge meets what the stack expects of its application: its output function and its error
  callback return and only touch the globals of the bridge. The invariant of the connection
  table ties the slots in use to the PCBs that carry the callbacks of the bridge; closing and
  ending a connection keep it and leave nothing behind.
\<close>

section \<open>What the callbacks change\<close>

text \<open>Output counts allocations and hands packets to the tunnel, and leaves the tables alone.\<close>

definition same_tables :: "'u bridge \<Rightarrow> 'u bridge \<Rightarrow> bool" where
  "same_tables g g' \<longleftrightarrow> (\<exists>m u. g' = g\<lparr>g_mallocs := m, g_user := u\<rparr>)"

lemma same_tables_refl [simp]: "same_tables g g"
proof -
  have "g = g\<lparr>g_mallocs := g_mallocs g, g_user := g_user g\<rparr>" by simp
  then show ?thesis unfolding same_tables_def by blast
qed

lemma same_tables_step: "same_tables g g' \<Longrightarrow> same_tables g (g'\<lparr>g_mallocs := m, g_user := u\<rparr>)"
  unfolding same_tables_def by clarsimp blast

lemma same_tablesD:
  assumes "same_tables g g'"
  shows "g_nat g' = g_nat g" "g_conns g' = g_conns g" "g_inmem_drops g' = g_inmem_drops g" "g_last_write_err g' = g_last_write_err g"
  using assms by (auto simp: same_tables_def)

lemma netif_output_returns:
  assumes "pchain (ps_bufs (ts_pb w)) (Some p) as" "same_tables g (ts_app w)"
  shows "\<exists>err app. netif_output cbs nif p dest w = Some (err, w\<lparr>ts_app := app\<rparr>) \<and> same_tables g app"
proof -
  let ?g = "ts_app w"
  obtain b where b: "ps_bufs (ts_pb w) p = Some b" using assms(1) by (cases as) auto
  let ?m = "?g\<lparr>g_mallocs := g_mallocs ?g + 1, g_user := g_user ?g\<rparr>"
  have m: "same_tables g ?m" using assms(2) by (rule same_tables_step)
  have id: "w = w\<lparr>ts_app := ?g\<rparr>" by simp
  obtain n bs where c: "pbuf_copy_partial (ts_pb w) (Some p) (p_tot_len b) 0 = Some (n, bs)"
    using pbuf_copy_loop_spec [OF assms(1)] by (simp add: pbuf_copy_partial_def Let_def)
  consider (none) "g_output cbs = None" | (fail) "g_output cbs \<noteq> None" "\<not> malloc_ok cbs (g_mallocs ?g) (unat (p_tot_len b))"
    | (short) "g_output cbs \<noteq> None" "malloc_ok cbs (g_mallocs ?g) (unat (p_tot_len b))" "n \<noteq> p_tot_len b"
    | (out) f where "g_output cbs = Some f" "malloc_ok cbs (g_mallocs ?g) (unat (p_tot_len b))" "n = p_tot_len b" by blast
  then show ?thesis
  proof cases
    case none
    then have "netif_output cbs nif p dest w = Some (ERR_OK, w)" by (simp add: netif_output_def)
    then show ?thesis using assms(2) id by metis
  next
    case fail
    then have "netif_output cbs nif p dest w = Some (ERR_MEM, w\<lparr>ts_app := ?m\<rparr>)"
      using b by (auto simp: netif_output_def stack_buf_def bridge_malloc_def app_upd_def)
    then show ?thesis using m by blast
  next
    case short
    then have "netif_output cbs nif p dest w = Some (ERR_OK, w\<lparr>ts_app := ?m\<rparr>)"
      using b c by (auto simp: netif_output_def stack_buf_def bridge_malloc_def app_upd_def)
    then show ?thesis using m by blast
  next
    case (out f)
    have "netif_output cbs nif p dest w
        = Some (ERR_OK, w\<lparr>ts_app := ?m\<lparr>g_mallocs := g_mallocs ?g + 1, g_user := f (output_rewrite (g_nat ?g) bs) (g_user ?g)\<rparr>\<rparr>)"
      using out b c by (simp add: netif_output_def stack_buf_def bridge_malloc_def app_upd_def)
    then show ?thesis using same_tables_step [OF m] by blast
  qed
qed

text \<open>The output function, for what the bridge calls itself and for what the stack does on its own.\<close>

interpretation out: netif_driver "out_env cbs" "same_tables g" for cbs :: "'u bridge_cbs" and g
  by unfold_locales (simp add: out_env_def netif_output_returns)

text \<open>The tables are arrays of fixed size, and the keys of the NAT table are distinct.\<close>

definition tables_wf :: "'u bridge \<Rightarrow> bool" where
  "tables_wf g \<longleftrightarrow> length (g_conns g) = MAX_CONNS \<and> nat_wf (g_nat g)"

lemma tables_wf_same: "same_tables g g' \<Longrightarrow> tables_wf g' = tables_wf g"
  by (simp add: tables_wf_def same_tablesD)

lemma tables_wf_clear:
  assumes "tables_wf g"
  shows "tables_wf (conn_nat_remove i g)" "tables_wf (conn_clear i g)"
  using assms by (simp_all add: tables_wf_def conn_nat_remove_def conn_clear_def conn_upd_def nat_remove_wf)

definition conn_drop :: "nat \<Rightarrow> 'u bridge \<Rightarrow> 'u bridge" where
  "conn_drop arg g = (case conn_of_id (of_nat arg) g of None \<Rightarrow> g | Some i \<Rightarrow> conn_clear i (conn_nat_remove i g))"

lemma call_g_close_eq: "\<exists>u. call_g_close cbs conn_id code w = w\<lparr>ts_app := (ts_app w)\<lparr>g_user := u\<rparr>\<rparr>"
proof (cases "g_close cbs")
  case None
  then show ?thesis by (intro exI [of _ "g_user (ts_app w)"]) (simp add: call_g_close_def)
next
  case (Some f)
  then show ?thesis by (intro exI [of _ "f conn_id code (g_user (ts_app w))"]) (simp add: call_g_close_def app_upd_def)
qed

lemma tcp_err_cb_eq: "\<exists>u. tcp_err_cb cbs arg err w = w\<lparr>ts_app := conn_drop arg ((ts_app w)\<lparr>g_user := u\<rparr>)\<rparr>"
proof -
  obtain u where "call_g_close cbs (of_nat arg) (err_code err) w = w\<lparr>ts_app := (ts_app w)\<lparr>g_user := u\<rparr>\<rparr>"
    using call_g_close_eq [of cbs "of_nat arg" "err_code err" w] by (elim exE)
  then show ?thesis
    by (intro exI [of _ u]) (simp add: tcp_err_cb_def app_upd_def conn_drop_def Let_def split: option.split)
qed

lemma tables_wf_drop: "tables_wf g \<Longrightarrow> tables_wf (conn_drop arg (g\<lparr>g_user := u\<rparr>))"
  using tables_wf_clear(1) [of "g\<lparr>g_user := u\<rparr>"]
  by (auto simp: conn_drop_def intro!: tables_wf_clear split: option.split) (simp_all add: tables_wf_def)

interpretation br: tcp_user "bridge_env cbs" tables_wf for cbs :: "'u bridge_cbs"
proof unfold_locales
  fix w :: "'u bstack" and p as nif dest
  assume "pchain (ps_bufs (ts_pb w)) (Some p) as" "tables_wf (ts_app w)"
  moreover obtain err app where "netif_output cbs nif p dest w = Some (err, w\<lparr>ts_app := app\<rparr>)" "same_tables (ts_app w) app"
    using netif_output_returns [OF calculation(1), of "ts_app w" cbs nif dest] by auto
  ultimately show "\<exists>err app. env_netif_output (bridge_env cbs) nif p dest w = Some (err, w\<lparr>ts_app := app\<rparr>) \<and> tables_wf app"
    using tables_wf_same by (simp add: bridge_env_def) blast
next
  fix w :: "'u bstack" and f arg err
  assume wf: "tables_wf (ts_app w)"
  obtain u where u: "tcp_err_cb cbs arg err w = w\<lparr>ts_app := conn_drop arg ((ts_app w)\<lparr>g_user := u\<rparr>)\<rparr>"
    using tcp_err_cb_eq [of cbs arg err w] by (elim exE)
  show "\<exists>app. env_err_cb (bridge_env cbs) f arg err w = Some (w\<lparr>ts_app := app\<rparr>) \<and> tables_wf app"
    using u tables_wf_drop [OF wf] by (intro exI [of _ "conn_drop arg ((ts_app w)\<lparr>g_user := u\<rparr>)"]) (simp add: bridge_env_def)
qed

section \<open>The connection table\<close>

text \<open>
  A slot in use points to a PCB that carries its number and the error callback of the bridge, and
  remembers the client of that PCB; a free slot points nowhere. Every PCB with the error callback
  has its slot.
\<close>

definition attached :: "(nat \<rightharpoonup> tcp_pcb) \<Rightarrow> nat \<Rightarrow> conn_t \<Rightarrow> bool" where
  "attached P i c \<longleftrightarrow> (\<exists>a b. c_pcb c = Some a \<and> P a = Some b \<and> t_callback_arg b = i \<and> t_errf b = Some tcp_err_cb_fn
     \<and> c_client_ip c = t_remote_ip b \<and> c_client_port c = t_remote_port b)"

definition conns_ok :: "(nat \<rightharpoonup> tcp_pcb) \<Rightarrow> conn_t list \<Rightarrow> bool" where
  "conns_ok P cs \<longleftrightarrow> (\<forall>i < length cs. if c_active (cs ! i) then attached P i (cs ! i) else c_pcb (cs ! i) = None)
     \<and> (\<forall>a b. P a = Some b \<and> t_errf b \<noteq> None \<longrightarrow>
          t_callback_arg b < length cs \<and> c_active (cs ! t_callback_arg b) \<and> c_pcb (cs ! t_callback_arg b) = Some a)"

definition bridge_ok :: "'u bstack \<Rightarrow> nat multiset \<Rightarrow> nat multiset \<Rightarrow> bool" where
  "bridge_ok w R S \<longleftrightarrow> stack_ok w R S \<and> tables_wf (ts_app w) \<and> conns_ok (ts_pcbs w) (g_conns (ts_app w))"

lemma conns_okD:
  assumes "conns_ok P cs" "i < length cs" "c_active (cs ! i)"
  shows "attached P i (cs ! i)"
  using assms by (auto simp: conns_ok_def)

text \<open>Freeing a PCB together with its slot.\<close>

lemma conns_ok_free:
  assumes ok: "conns_ok P cs" and i: "i < length cs" "c_active (cs ! i)" "c_pcb (cs ! i) = Some a"
    and c: "\<not> c_active c" "c_pcb c = None"
  shows "conns_ok (P(a := None)) (cs[i := c])"
  unfolding conns_ok_def
proof (intro conjI allI impI)
  fix j assume j: "j < length (cs[i := c])"
  obtain b where b: "P a = Some b" "t_callback_arg b = i" using conns_okD [OF ok i(1,2)] i(3) by (auto simp: attached_def)
  have "attached (P(a := None)) j (cs ! j)" if "attached P j (cs ! j)" "j \<noteq> i"
    using that b unfolding attached_def by fastforce
  then show "if c_active (cs[i := c] ! j) then attached (P(a := None)) j (cs[i := c] ! j) else c_pcb (cs[i := c] ! j) = None"
    using ok j c by (cases "j = i") (auto simp: conns_ok_def)
next
  fix a' b' assume "(P(a := None)) a' = Some b' \<and> t_errf b' \<noteq> None"
  then have a': "a' \<noteq> a" "P a' = Some b'" "t_errf b' \<noteq> None" by (auto split: if_splits)
  have o: "t_callback_arg b' < length cs" "c_active (cs ! t_callback_arg b')" "c_pcb (cs ! t_callback_arg b') = Some a'"
    using ok a' unfolding conns_ok_def by blast+
  then have "t_callback_arg b' \<noteq> i" using i(3) a'(1) by auto
  then show "t_callback_arg b' < length (cs[i := c])" "c_active (cs[i := c] ! t_callback_arg b')"
    "c_pcb (cs[i := c] ! t_callback_arg b') = Some a'" using o by simp_all
qed

section \<open>Closing\<close>

lemma abort_conn_ok:
  assumes w: "stack_ok w R S" and b: "ts_pcbs w pcb = Some b"
  shows "\<exists>w'. abort_conn cbs pcb w = Some w' \<and> stack_ok w' R S \<and> without pcb w w' \<and> same_tables (ts_app w) (ts_app w')"
proof -
  let ?b = "b\<lparr>t_recv := None, t_errf := None\<rparr>"
  let ?w = "w\<lparr>ts_pcbs := (ts_pcbs w)(pcb \<mapsto> ?b)\<rparr>"
  have "same_queues b ?b" by (simp add: same_queues_def pcb_segs_def)
  from stack_ok_upd [OF w b this] have "stack_ok ?w R S" .
  from out.tcp_abandon_quiet [OF this, of "ts_app w" pcb ?b cbs True] obtain w' where
    "tcp_abandon (out_env cbs) (Some pcb) True ?w = Some w'" "stack_ok w' R S" "without pcb ?w w'" "same_tables (ts_app w) (ts_app w')"
    by auto
  then show ?thesis using b by (simp add: abort_conn_def tcp_recv_def tcp_err_def pcb_upd_def tcp_abort_def without_def)
qed

text \<open>Aborting the connection of a slot and clearing the slot.\<close>

lemma abort_slot_ok:
  assumes ok: "bridge_ok w R S" and i: "i < MAX_CONNS" "c_active (g_conns (ts_app w) ! i)" "c_pcb (g_conns (ts_app w) ! i) = Some pcb"
  shows "\<exists>w'. abort_conn cbs pcb (app_upd (conn_nat_remove i) w) = Some w' \<and> bridge_ok (app_upd (conn_clear i) w') R S
    \<and> without pcb w w' \<and> same_tables (conn_nat_remove i (ts_app w)) (ts_app w')"
proof -
  let ?w0 = "app_upd (conn_nat_remove i) w"
  note o = ok [unfolded bridge_ok_def tables_wf_def]
  have l: "i < length (g_conns (ts_app w))" using o i(1) by simp
  obtain b where b: "ts_pcbs w pcb = Some b" using conns_okD [OF _ l i(2)] o i(3) by (auto simp: attached_def)
  have "stack_ok ?w0 R S" "ts_pcbs ?w0 pcb = Some b" using o b by (simp_all add: app_upd_def)
  from abort_conn_ok [OF this, of cbs] obtain w' where w': "abort_conn cbs pcb ?w0 = Some w'" "stack_ok w' R S"
    "without pcb ?w0 w'" "same_tables (ts_app ?w0) (ts_app w')" by blast
  note t = same_tablesD [OF w'(4)]
  have wo: "without pcb w w'" using w'(3) by (simp add: without_def app_upd_def)
  have "tables_wf (ts_app ?w0)" using ok tables_wf_clear(1) [of "ts_app w" i] by (simp add: bridge_ok_def app_upd_def)
  then have wf: "tables_wf (conn_clear i (ts_app w'))" using tables_wf_same [OF w'(4)] by (intro tables_wf_clear) simp
  let ?c = "(g_conns (ts_app w) ! i)\<lparr>c_active := False, c_pcb := None\<rparr>"
  have "conns_ok ((ts_pcbs w)(pcb := None)) ((g_conns (ts_app w))[i := ?c])"
    using conns_ok_free [OF _ l i(2,3), of "ts_pcbs w" ?c] o by simp
  then have "conns_ok (ts_pcbs w') (g_conns (conn_clear i (ts_app w')))"
    using t(2) wo by (simp add: conn_clear_def conn_upd_def conn_nat_remove_def app_upd_def without_def)
  then have "bridge_ok (app_upd (conn_clear i) w') R S"
    using w'(2) wf by (simp add: bridge_ok_def) (simp add: app_upd_def)
  then show ?thesis using w' wo by (auto simp: app_upd_def)
qed

lemma conn_of_id_Some: "conn_of_id conn_id g = Some i \<longleftrightarrow> i = unat conn_id \<and> i < MAX_CONNS \<and> c_active (g_conns g ! i)"
  by (auto simp: conn_of_id_def)

lemma lwip_bridge_close_spec:
  assumes ok: "bridge_ok w R S" and i: "conn_of_id conn_id (ts_app w) = Some i" "c_pcb (g_conns (ts_app w) ! i) = Some pcb"
  shows "\<exists>w'. lwip_bridge_close cbs conn_id w = Some w' \<and> bridge_ok w' R S \<and> without pcb w w'
    \<and> (\<forall>j. conn_of_id j (ts_app w') = (if j = conn_id then None else conn_of_id j (ts_app w)))
    \<and> nat_abs (g_nat (ts_app w')) = (nat_abs (g_nat (ts_app w)))
         ((c_client_ip (g_conns (ts_app w) ! i), c_client_port (g_conns (ts_app w) ! i)) := None)"
proof -
  have c: "i = unat conn_id" "i < MAX_CONNS" "c_active (g_conns (ts_app w) ! i)" using i(1) by (auto simp: conn_of_id_Some)
  from abort_slot_ok [OF ok c(2,3) i(2), of cbs] obtain w' where w': "abort_conn cbs pcb (app_upd (conn_nat_remove i) w) = Some w'"
    "bridge_ok (app_upd (conn_clear i) w') R S" "without pcb w w'" "same_tables (conn_nat_remove i (ts_app w)) (ts_app w')" by blast
  note t = same_tablesD [OF w'(4)]
  have len: "length (g_conns (ts_app w)) = MAX_CONNS" "nat_wf (g_nat (ts_app w))" using ok by (simp_all add: bridge_ok_def tables_wf_def)
  have close: "lwip_bridge_close cbs conn_id w = Some (app_upd (conn_clear i) w')"
    using i w'(1) by (simp add: lwip_bridge_close_def)
  have "conn_of_id j (conn_clear i (ts_app w')) = (if j = conn_id then None else conn_of_id j (ts_app w))" for j
  proof -
    have "unat j = unat conn_id \<longleftrightarrow> j = conn_id" by (simp add: word_unat_eq_iff)
    then show ?thesis using t c len by (auto simp: conn_of_id_def conn_clear_def conn_upd_def conn_nat_remove_def nth_list_update)
  qed
  moreover have "nat_abs (g_nat (conn_clear i (ts_app w'))) = (nat_abs (g_nat (ts_app w)))
      ((c_client_ip (g_conns (ts_app w) ! i), c_client_port (g_conns (ts_app w) ! i)) := None)"
    using t len by (simp add: conn_clear_def conn_upd_def conn_nat_remove_def nat_remove_abs)
  moreover have "without pcb w (app_upd (conn_clear i) w')" using w'(3) by (simp add: app_upd_def)
  ultimately show ?thesis using close w'(2) by (simp add: app_upd_def)
qed

section \<open>Accepting\<close>

text \<open>There are fewer PCBs than slots, and every slot in use has a PCB of its own.\<close>

lemma slot_free:
  assumes "bridge_ok w R S"
  shows "\<exists>i. free_slot (g_conns (ts_app w)) = Some i \<and> i < MAX_CONNS \<and> \<not> c_active (g_conns (ts_app w) ! i)"
proof -
  let ?cs = "g_conns (ts_app w)"
  note o = assms [unfolded bridge_ok_def tables_wf_def]
  let ?f = "\<lambda>i. the (c_pcb (?cs ! i))"
  have att: "\<exists>b. ts_pcbs w (?f i) = Some b \<and> t_callback_arg b = i" if "i < MAX_CONNS" "c_active (?cs ! i)" for i
    using conns_okD [of "ts_pcbs w" ?cs i] o that by (auto simp: attached_def)
  have "\<exists>i < MAX_CONNS. \<not> c_active (?cs ! i)"
  proof (rule ccontr)
    assume "\<not> ?thesis"
    then have a: "\<exists>b. ts_pcbs w (?f i) = Some b \<and> t_callback_arg b = i" if "i < MAX_CONNS" for i using that att by blast
    have "inj_on ?f {..<MAX_CONNS}"
    proof (rule inj_onI)
      fix i j assume ij: "i \<in> {..<MAX_CONNS}" "j \<in> {..<MAX_CONNS}" and e: "?f i = ?f j"
      from a [of i] a [of j] ij show "i = j" unfolding e by auto
    qed
    moreover have "?f ` {..<MAX_CONNS} \<subseteq> dom (ts_pcbs w)" using a by (auto simp: dom_def)
    ultimately have "card {..<MAX_CONNS} \<le> card (dom (ts_pcbs w))" using o stack_okD(1) card_inj_on_le by blast
    then show False using card_pcbs [of w R S] o by (simp add: MAX_CONNS_def MEMP_NUM_TCP_PCB_def)
  qed
  then have "\<exists>c \<in> set ?cs. \<not> c_active c" using o nth_mem by metis
  then obtain i where "free_slot ?cs = Some i" by (cases "free_slot ?cs") (auto simp: free_slot_def first_index_None)
  moreover from this have "i < length ?cs \<and> \<not> c_active (?cs ! i)" by (simp add: free_slot_def first_index_Some)
  ultimately show ?thesis using o by auto
qed

text \<open>A PCB becomes a connection of the bridge.\<close>

definition attach :: "nat \<Rightarrow> tcp_pcb \<Rightarrow> tcp_pcb" where
  "attach i b = b\<lparr>t_callback_arg := i, t_flags := t_flags b OR TF_NODELAY, t_recv := Some tcp_recv_cb_fn,
     t_errf := Some tcp_err_cb_fn, t_sent := Some tcp_sent_cb_fn\<rparr>"

lemma conns_ok_attach:
  assumes ok: "conns_ok P cs" and b: "P a = Some b" "t_errf b = None" and i: "i < length cs" "\<not> c_active (cs ! i)"
  shows "conns_ok (P(a \<mapsto> attach i b)) (cs[i := \<lparr>c_pcb = Some a, c_dc_ip = dc, c_client_ip = t_remote_ip b,
    c_client_port = t_remote_port b, c_active = True\<rparr>])" (is "conns_ok ?P ?cs")
  unfolding conns_ok_def
proof (intro conjI allI impI)
  fix j assume j: "j < length ?cs"
  have "attached ?P j (cs ! j)" if "attached P j (cs ! j)" using that b unfolding attached_def by fastforce
  then show "if c_active (?cs ! j) then attached ?P j (?cs ! j) else c_pcb (?cs ! j) = None"
  proof (cases "j = i")
    case True
    then show ?thesis using i(1) by (simp add: attached_def attach_def)
  next
    case False
    then show ?thesis using ok j \<open>attached P j (cs ! j) \<Longrightarrow> attached ?P j (cs ! j)\<close> by (simp add: conns_ok_def)
  qed
next
  fix a' b' assume ab: "?P a' = Some b' \<and> t_errf b' \<noteq> None"
  show "t_callback_arg b' < length ?cs" "c_active (?cs ! t_callback_arg b')" "c_pcb (?cs ! t_callback_arg b') = Some a'"
  proof (atomize (full), cases "a' = a")
    case True
    then show "t_callback_arg b' < length ?cs \<and> c_active (?cs ! t_callback_arg b') \<and> c_pcb (?cs ! t_callback_arg b') = Some a'"
      using ab i by (auto simp: attach_def)
  next
    case False
    then have "t_callback_arg b' < length cs" "c_active (cs ! t_callback_arg b')" "c_pcb (cs ! t_callback_arg b') = Some a'"
      using ok ab by (auto simp: conns_ok_def)
    then show "t_callback_arg b' < length ?cs \<and> c_active (?cs ! t_callback_arg b') \<and> c_pcb (?cs ! t_callback_arg b') = Some a'"
      using i(2) by (cases "t_callback_arg b' = i") auto
  qed
qed

lemma accept_dbg_fields [simp]:
  "g_conns (accept_dbg ip port dc g) = g_conns g" "g_nat (accept_dbg ip port dc g) = g_nat g"
  by (auto simp: accept_dbg_def Let_def split: option.split)

lemma accept_attach:
  assumes ok: "bridge_ok w R S" and b: "ts_pcbs w pcb = Some b" "t_errf b = None"
  shows "\<exists>i w1. tcp_accept_cb cbs arg (Some pcb) ERR_OK w
      = map_option (\<lambda>w. (ERR_OK, w)) (case g_accept cbs of None \<Rightarrow> Some w1 | Some f \<Rightarrow> run_handler cbs (f (of_nat i)) w1)
    \<and> i < MAX_CONNS \<and> conn_of_id (of_nat i) (ts_app w) = None \<and> bridge_ok w1 R S \<and> ts_pcbs w1 = (ts_pcbs w)(pcb \<mapsto> attach i b)
    \<and> conn_of_id (of_nat i) (ts_app w1) = Some i
    \<and> g_conns (ts_app w1) ! i = \<lparr>c_pcb = Some pcb, c_dc_ip = nat_lookup (g_nat (ts_app w)) (t_remote_ip b) (t_remote_port b),
        c_client_ip = t_remote_ip b, c_client_port = t_remote_port b, c_active = True\<rparr>
    \<and> (\<forall>j. j \<noteq> of_nat i \<longrightarrow> conn_of_id j (ts_app w1) = conn_of_id j (ts_app w)) \<and> ts_pb w1 = ts_pb w \<and> ts_netifs w1 = ts_netifs w"
proof -
  let ?g = "ts_app w"
  let ?dc = "nat_lookup (g_nat ?g) (t_remote_ip b) (t_remote_port b)"
  let ?c = "\<lparr>c_pcb = Some pcb, c_dc_ip = ?dc, c_client_ip = t_remote_ip b, c_client_port = t_remote_port b, c_active = True\<rparr>"
  note o = ok [unfolded bridge_ok_def tables_wf_def]
  obtain i where i: "free_slot (g_conns ?g) = Some i" "i < MAX_CONNS" "\<not> c_active (g_conns ?g ! i)" using slot_free [OF ok] by blast
  let ?g' = "conn_upd i (\<lambda>_. ?c) (accept_dbg (t_remote_ip b) (t_remote_port b) ?dc ?g)"
  let ?w1 = "w\<lparr>ts_app := ?g', ts_pcbs := (ts_pcbs w)(pcb \<mapsto> attach i b)\<rparr>"
  have lp: "ts_lpcbs w pcb = None" using o b(1) stack_okD(9) [of w R S] by (auto simp: domIff)
  have id: "unat (of_nat i :: u32) = i" using i(2) by (simp add: MAX_CONNS_def unat_of_nat)
  have "same_queues b (attach i b)" by (simp add: same_queues_def attach_def pcb_segs_def)
  from stack_ok_upd [of w R S pcb b, OF _ b(1) this] o have "stack_ok (w\<lparr>ts_pcbs := (ts_pcbs w)(pcb \<mapsto> attach i b)\<rparr>) R S" by simp
  then have "stack_ok (w\<lparr>ts_pcbs := (ts_pcbs w)(pcb \<mapsto> attach i b), ts_app := ?g'\<rparr>) R S" by simp
  moreover have "w\<lparr>ts_pcbs := (ts_pcbs w)(pcb \<mapsto> attach i b), ts_app := ?g'\<rparr> = ?w1" by simp
  ultimately have "stack_ok ?w1 R S" by metis
  moreover have "conns_ok (ts_pcbs ?w1) (g_conns ?g')"
    using conns_ok_attach [of "ts_pcbs w" "g_conns ?g" pcb b i ?dc] o b i by (simp add: conn_upd_def)
  moreover have "tables_wf ?g'" using o by (simp add: tables_wf_def conn_upd_def)
  ultimately have "bridge_ok ?w1 R S" by (simp add: bridge_ok_def)
  moreover have "tcp_accept_cb cbs arg (Some pcb) ERR_OK w
      = map_option (\<lambda>w. (ERR_OK, w)) (case g_accept cbs of None \<Rightarrow> Some ?w1 | Some f \<Rightarrow> run_handler cbs (f (of_nat i)) ?w1)"
  proof -
    have "app_upd (accept_dbg (t_remote_ip b) (t_remote_port b) ?dc) w = w\<lparr>ts_app := accept_dbg (t_remote_ip b) (t_remote_port b) ?dc ?g\<rparr>"
      by (simp add: app_upd_def)
    then show ?thesis using b(1) i(1) lp
      by (simp add: tcp_accept_cb_def app_upd_def tcp_arg_def tcp_nagle_disable_def tcp_set_flags_def tcp_recv_def tcp_err_def
          tcp_sent_def pcb_upd_def attach_def Let_def split: option.split) (simp add: map_conv_bind_option o_def)
  qed
  moreover have "conn_of_id j ?g' = (if j = of_nat i then Some i else conn_of_id j ?g)" for j
  proof -
    have "unat j = i \<longleftrightarrow> j = of_nat i" using id by (metis word_unat_eq_iff)
    then show ?thesis using i o by (auto simp: conn_of_id_def conn_upd_def nth_list_update)
  qed
  moreover have "conn_of_id (of_nat i) ?g = None" using i(3) id by (simp add: conn_of_id_def)
  moreover have "g_conns ?g' ! i = ?c" using o i(2) by (simp add: conn_upd_def)
  ultimately show ?thesis using i(2) by (intro exI [of _ i] exI [of _ ?w1]) simp
qed

end
