(* ===== verification/Tcp_Setup.thy ===== *)
theory Tcp_Setup
  imports Tcp_Abort
begin

text \<open>
  Setting up control blocks: a PCB taken from its pool, bound and turned into a listener keeps
  the invariant of the stack, and so does one that becomes a connection.
\<close>

section \<open>Pools with room\<close>

lemma pool_has_room:
  assumes "pool_holds pb ty M" "0 < desc_size (fst (ps_pools pb ! ty))" "size M < desc_num (fst (ps_pools pb ! ty))"
  shows "\<exists>a pools. memp_malloc ty (ps_pools pb) = (Some a, pools)"
proof -
  let ?p = "ps_pools pb ! ty"
  obtain held where h: "ty < length (ps_pools pb)" "memp.pool_inv (memp_elems (fst ?p)) (snd ?p) held" "mset held = M"
    using assms(1) by (auto simp: pool_holds_def)
  have "length held = size M" using h(3) by auto
  then have "fst (do_memp_malloc_pool (snd ?p)) \<noteq> None"
    using memp.alloc_None_iff [OF h(2) distinct_memp_elems [OF assms(2)]] assms(3) by (simp add: memp_elems_def)
  then show ?thesis using h(1) by (cases "do_memp_malloc_pool (snd ?p)") (auto simp: memp_malloc_def)
qed

lemma malloc_other:
  assumes "memp_malloc ty (ps_pools pb) = (r, pools)" "ty' \<noteq> ty"
  shows "pool_holds (pb\<lparr>ps_pools := pools\<rparr>) ty' M = pool_holds pb ty' M"
  using assms by (auto simp: pool_holds_def memp_malloc_def split: prod.splits if_splits)

lemma mem_ok_malloc:
  assumes "mem_ok pb R S" "memp_malloc ty (ps_pools pb) = (r, pools)" "ty = MEMP_TCP_PCB \<or> ty = MEMP_TCP_PCB_LISTEN"
  shows "mem_ok (pb\<lparr>ps_pools := pools\<rparr>) R S"
  using assms pinv_memp_malloc [of pb ty] malloc_other [OF assms(2), of MEMP_TCP_SEG]
  by (auto simp: mem_ok_def pool_idx)

section \<open>Control blocks\<close>

lemma all_new:
  assumes "finite (dom P)" "P a = None" "pcb_segs b = []" "t_refused_data b = None"
  shows "all_refs (P(a \<mapsto> b)) = all_refs P" "all_elems (P(a \<mapsto> b)) = all_elems P"
proof -
  have "P(a := None) = P" using assms(2) by auto
  then show "all_refs (P(a \<mapsto> b)) = all_refs P" "all_elems (P(a \<mapsto> b)) = all_elems P"
    using all_upd [OF assms(1), of a b] queueless_nothing [OF assms(3,4)] by simp_all
qed

lemma stack_malloc_eq:
  "stack_malloc ty w = (r, w1) \<Longrightarrow> w1 = w\<lparr>ts_pb := (ts_pb w)\<lparr>ps_pools := snd (memp_malloc ty (ps_pools (ts_pb w)))\<rparr>\<rparr>
    \<and> r = fst (memp_malloc ty (ps_pools (ts_pb w)))"
  by (auto simp: stack_malloc_def split: prod.splits)

lemma stack_malloc_None:
  assumes "stack_ok w R S" "stack_malloc ty w = (None, w1)" "ty = MEMP_TCP_PCB \<or> ty = MEMP_TCP_PCB_LISTEN"
  shows "w1 = w"
proof -
  obtain pools where m: "memp_malloc ty (ps_pools (ts_pb w)) = (None, pools)"
    using stack_malloc_eq [OF assms(2)] by (cases "memp_malloc ty (ps_pools (ts_pb w))") auto
  have "\<exists>M. pool_holds (ts_pb w) ty M" using stack_okD(3,6) [OF assms(1)] assms(3) by auto
  then have "pools = ps_pools (ts_pb w)" using pool_holds_malloc [OF _ m] by auto
  then show ?thesis using stack_malloc_eq [OF assms(2)] m by simp
qed

lemma lists_ok_none:
  assumes "lists_ok w" "ts_pcbs w a = None"
  shows "a \<notin> set (tcp_bound_pcbs w)" "a \<notin> set (tcp_active_pcbs w)" "a \<notin> set (tcp_tw_pcbs w)"
  using assms unfolding lists_ok_def by blast+

lemma mset_set_insert_dom: "finite (dom P) \<Longrightarrow> P a = None \<Longrightarrow> mset_set (dom (P(a \<mapsto> b))) = add_mset a (mset_set (dom P))"
  by (simp add: domIff)

lemma stack_ok_new_pcb:
  assumes w: "stack_ok w R S" and m: "stack_malloc MEMP_TCP_PCB w = (Some a, w1)"
    and b: "pcb_segs b = []" "t_refused_data b = None" "t_state b = CLOSED" "t_local_port b = 0"
  shows "ts_pcbs w a = None" "ts_lpcbs w a = None" "stack_ok (w1\<lparr>ts_pcbs := (ts_pcbs w)(a \<mapsto> b)\<rparr>) R S"
proof -
  let ?P = "(ts_pcbs w)(a \<mapsto> b)"
  note o = stack_okD [OF w]
  obtain pools where p: "memp_malloc MEMP_TCP_PCB (ps_pools (ts_pb w)) = (Some a, pools)"
    using stack_malloc_eq [OF m] by (cases "memp_malloc MEMP_TCP_PCB (ps_pools (ts_pb w))") auto
  have w1: "w1 = w\<lparr>ts_pb := (ts_pb w)\<lparr>ps_pools := pools\<rparr>\<rparr>" using stack_malloc_eq [OF m] p by simp
  note h = pool_holds_malloc [OF o(3) p, simplified]
  show a: "ts_pcbs w a = None" using h o(1) by (auto simp: domIff)
  have "set_mset (mset_set (dom (ts_lpcbs w))) \<inter> set (memp_elems (fst (ps_pools (ts_pb w) ! MEMP_TCP_PCB))) = {}"
    using pool_holds_elems [OF o(6)] o(7) by (auto simp: pcb_layout_def Let_def)
  then show l: "ts_lpcbs w a = None" using h o(8) by (auto simp: domIff)
  have "mem_ok ((ts_pb w)\<lparr>ps_pools := pools\<rparr>) (all_refs ?P + R) (all_elems ?P + S)"
    using mem_ok_malloc [OF o(2) p] all_new [OF o(1) a b(1,2)] by simp
  moreover have "pool_holds ((ts_pb w)\<lparr>ps_pools := pools\<rparr>) MEMP_TCP_PCB_LISTEN (mset_set (dom (ts_lpcbs w)))"
    using o(6) malloc_other [OF p, of MEMP_TCP_PCB_LISTEN] by (simp add: pool_idx)
  moreover have "pcb_layout ((ts_pb w)\<lparr>ps_pools := pools\<rparr>)"
    using o(7) pcb_layout_cong [of "(ts_pb w)\<lparr>ps_pools := pools\<rparr>" "ts_pb w"] memp_malloc_fst [of MEMP_TCP_PCB "ps_pools (ts_pb w)"] p by simp
  moreover have "pool_holds ((ts_pb w)\<lparr>ps_pools := pools\<rparr>) MEMP_TCP_PCB (mset_set (dom ?P))"
    using h mset_set_insert_dom [OF o(1) a] by simp
  ultimately have "memory_ok (w1\<lparr>ts_pcbs := ?P\<rparr>) R S"
    using o(1,4,8,9) l unfolding memory_ok_def w1 by (auto simp: netifs_ok_def domIff)
  moreover have "lists_ok (w1\<lparr>ts_pcbs := ?P\<rparr>)"
    using o(5) b lists_ok_none [OF o(5) a] unfolding lists_ok_def w1 by (auto simp: tcp_pcb_lists_def queueless_def)
  ultimately show "stack_ok (w1\<lparr>ts_pcbs := ?P\<rparr>) R S" by (simp add: stack_ok_def)
qed

text \<open>Putting a PCB on a list may start the timer of TCP, which the accounting does not see.\<close>

lemma stack_ok_timer [simp]: "stack_ok (stack_timer_needed w) R S = stack_ok w R S"
  by (simp add: stack_timer_needed_def stack_ok_def memory_ok_def lists_ok_def netifs_ok_def tcp_pcb_lists_def)

lemma stack_timer_fields [simp]:
  "ts_pcbs (stack_timer_needed w) = ts_pcbs w" "ts_lpcbs (stack_timer_needed w) = ts_lpcbs w"
  "tcp_listen_pcbs (stack_timer_needed w) = tcp_listen_pcbs w" "tcp_bound_pcbs (stack_timer_needed w) = tcp_bound_pcbs w"
  "tcp_active_pcbs (stack_timer_needed w) = tcp_active_pcbs w" "tcp_tw_pcbs (stack_timer_needed w) = tcp_tw_pcbs w"
  "ts_pb (stack_timer_needed w) = ts_pb w" "ts_app (stack_timer_needed w) = ts_app w"
  "ts_netifs (stack_timer_needed w) = ts_netifs w" "netif_list (stack_timer_needed w) = netif_list w"
  "netif_default (stack_timer_needed w) = netif_default w" "tcp_input_pcb (stack_timer_needed w) = tcp_input_pcb w"
  by (simp_all add: stack_timer_needed_def)

text \<open>
  A PCB without queues that is on no list is bound, or becomes a connection: \<open>relisted w l a b'\<close> is
  the state with \<open>b'\<close> in its place, in front of list \<open>l\<close>.
\<close>

definition relisted :: "'a tcp_stack \<Rightarrow> pcb_list \<Rightarrow> nat \<Rightarrow> tcp_pcb \<Rightarrow> 'a tcp_stack" where
  "relisted w l a b' = set_list l (a # list_of l w) (w\<lparr>ts_pcbs := (ts_pcbs w)(a \<mapsto> b')\<rparr>)"

lemma memory_ok_upd:
  assumes "memory_ok w R S" "ts_pcbs w a = Some b" "pcb_segs b' = pcb_segs b" "t_refused_data b' = t_refused_data b"
  shows "memory_ok (w\<lparr>ts_pcbs := (ts_pcbs w)(a \<mapsto> b')\<rparr>) R S"
proof -
  have d: "dom ((ts_pcbs w)(a \<mapsto> b')) = dom (ts_pcbs w)" "finite (dom (ts_pcbs w))" using assms(1,2) by (auto simp: memory_ok_def)
  have "all_refs ((ts_pcbs w)(a \<mapsto> b')) = all_refs (ts_pcbs w)" "all_elems ((ts_pcbs w)(a \<mapsto> b')) = all_elems (ts_pcbs w)"
    using all_upd [OF d(2), of a b'] all_remove [OF d(2) assms(2)] assms(3,4) by (simp_all add: pcb_refs_def)
  then show ?thesis using assms(1) d unfolding memory_ok_def by (simp add: netifs_ok_def)
qed

lemma memory_ok_set_list [simp]: "memory_ok (set_list l as w) R S = memory_ok w R S"
  by (cases l) (simp_all add: memory_ok_def netifs_ok_def)

lemma stack_ok_relisted:
  assumes w: "stack_ok w R S" and b: "ts_pcbs w a = Some b" "t_state b = CLOSED" "t_local_port b = 0"
    and b': "pcb_segs b' = []" "t_refused_data b' = None"
    and l: "l = L_bound \<and> t_state b' = CLOSED \<and> t_local_port b' \<noteq> 0 \<or> l = L_active \<and> \<not> queueless (t_state b')
      \<or> l = L_tw \<and> t_state b' = TIME_WAIT"
  shows "stack_ok (relisted w l a b') R S"
proof -
  note c = lists_ok_pcb [OF stack_okD(5) [OF w] b(1)]
  have n: "a \<notin> set (tcp_bound_pcbs w)" "a \<notin> set (tcp_active_pcbs w)" "a \<notin> set (tcp_tw_pcbs w)" "pcb_segs b = []" "t_refused_data b = None"
    using c b(2,3) by (simp_all add: queueless_def)
  have "a \<notin> set (tcp_listen_pcbs w)" using stack_okD(9,5) [OF w] b(1) by (auto simp: lists_ok_def)
  then have "lists_ok (relisted w l a b')"
    using stack_okD(5) [OF w] n b' l by (elim disjE) (auto simp: relisted_def lists_ok_def tcp_pcb_lists_def queueless_def)
  moreover have "memory_ok (relisted w l a b') R S"
    using memory_ok_upd [of w R S a b b'] w b(1) n(4,5) b' by (simp add: relisted_def stack_ok_def)
  ultimately show ?thesis by (simp add: stack_ok_def)
qed

lemma tcp_bind_ok:
  assumes w: "stack_ok w R S" and b: "ts_pcbs w a = Some b" "t_state b = CLOSED" "t_local_port b = 0" and p: "port \<noteq> 0"
  shows "if bind_conflict w ip port then tcp_bind (Some a) ip port w = Some (ERR_USE, w)
    else \<exists>w' b'. tcp_bind (Some a) ip port w = Some (ERR_OK, stack_timer_needed (relisted w L_bound a b'))
      \<and> stack_ok (relisted w L_bound a b') R S
      \<and> b' = b\<lparr>t_local_ip := (if ip \<noteq> 0 then ip else t_local_ip b), t_local_port := port\<rparr>"
proof -
  let ?b = "b\<lparr>t_local_ip := (if ip \<noteq> 0 then ip else t_local_ip b), t_local_port := port\<rparr>"
  have l: "ts_lpcbs w a = None" using stack_okD(9) [OF w] b(1) by (auto simp: domIff)
  have q: "pcb_segs b = []" "t_refused_data b = None"
    using lists_ok_pcb(5) [OF stack_okD(5) [OF w] b(1)] b(2) by (simp_all add: queueless_def)
  have "stack_ok (relisted w L_bound a ?b) R S"
    using stack_ok_relisted [OF w b, of ?b L_bound] q b(2) p by (simp add: pcb_segs_def)
  then show ?thesis
    using b l p by (simp add: tcp_bind_def pcb_upd_def TCP_REG_def relisted_def)
qed

section \<open>Listeners\<close>

lemma stack_ok_new_listener:
  assumes w: "stack_ok w R S" and m: "stack_malloc MEMP_TCP_PCB_LISTEN w = (Some l, w1)"
  shows "ts_lpcbs w l = None"
    "stack_ok (w1\<lparr>ts_lpcbs := (ts_lpcbs w)(l \<mapsto> x), tcp_listen_pcbs := l # tcp_listen_pcbs w\<rparr>) R S"
proof -
  let ?L = "(ts_lpcbs w)(l \<mapsto> x)"
  let ?w = "w1\<lparr>ts_lpcbs := ?L, tcp_listen_pcbs := l # tcp_listen_pcbs w\<rparr>"
  note o = stack_okD [OF w]
  obtain pools where p: "memp_malloc MEMP_TCP_PCB_LISTEN (ps_pools (ts_pb w)) = (Some l, pools)"
    using stack_malloc_eq [OF m] by (cases "memp_malloc MEMP_TCP_PCB_LISTEN (ps_pools (ts_pb w))") auto
  have w1: "w1 = w\<lparr>ts_pb := (ts_pb w)\<lparr>ps_pools := pools\<rparr>\<rparr>" using stack_malloc_eq [OF m] p by simp
  note h = pool_holds_malloc [OF o(6) p, simplified]
  show l: "ts_lpcbs w l = None" using h o(8) by (auto simp: domIff)
  have "set_mset (mset_set (dom (ts_pcbs w))) \<inter> set (memp_elems (fst (ps_pools (ts_pb w) ! MEMP_TCP_PCB_LISTEN))) = {}"
    using pool_holds_elems [OF o(3)] o(7) by (auto simp: pcb_layout_def Let_def)
  then have a: "ts_pcbs w l = None" using h o(1) by (auto simp: domIff)
  have "mem_ok ((ts_pb w)\<lparr>ps_pools := pools\<rparr>) (all_refs (ts_pcbs w) + R) (all_elems (ts_pcbs w) + S)"
    using mem_ok_malloc [OF o(2) p] by simp
  moreover have "pool_holds ((ts_pb w)\<lparr>ps_pools := pools\<rparr>) MEMP_TCP_PCB (mset_set (dom (ts_pcbs w)))"
    using o(3) malloc_other [OF p, of MEMP_TCP_PCB] by (simp add: pool_idx)
  moreover have "pcb_layout ((ts_pb w)\<lparr>ps_pools := pools\<rparr>)"
    using o(7) pcb_layout_cong [of "(ts_pb w)\<lparr>ps_pools := pools\<rparr>" "ts_pb w"] memp_malloc_fst [of MEMP_TCP_PCB_LISTEN "ps_pools (ts_pb w)"] p by simp
  moreover have "pool_holds ((ts_pb w)\<lparr>ps_pools := pools\<rparr>) MEMP_TCP_PCB_LISTEN (mset_set (dom ?L))"
    using h mset_set_insert_dom [OF o(8) l] by simp
  ultimately have "memory_ok ?w R S"
    using o(1,4,8,9) a unfolding memory_ok_def w1 by (auto simp: netifs_ok_def domIff)
  moreover have "lists_ok ?w"
    using o(5) l lists_ok_none [OF o(5) a] unfolding lists_ok_def w1 by (auto simp: tcp_pcb_lists_def)
  ultimately show "stack_ok ?w R S" by (simp add: stack_ok_def)
qed

definition new_listener :: "tcp_pcb \<Rightarrow> tcp_pcb_listen" where
  "new_listener b = \<lparr>l_local_ip = t_local_ip b, l_netif_idx = t_netif_idx b, l_so_options = t_so_options b,
     l_tos = t_tos b, l_ttl = t_ttl b, l_callback_arg = t_callback_arg b, l_state = LISTEN, l_prio = t_prio b,
     l_local_port = t_local_port b, l_accept = Some tcp_accept_null_fn\<rparr>"

lemma tcp_listen_ok:
  assumes w: "stack_ok w R S" and b: "ts_pcbs w a = Some b" "t_state b = CLOSED"
    and room: "card (dom (ts_lpcbs w)) < MEMP_NUM_TCP_PCB_LISTEN"
  shows "\<exists>l w'. tcp_listen (Some a) w = Some (Some l, w') \<and> stack_ok w' R S
    \<and> ts_pcbs w' = (ts_pcbs w)(a := None) \<and> ts_lpcbs w l = None \<and> ts_lpcbs w' = (ts_lpcbs w)(l \<mapsto> new_listener b)
    \<and> tcp_listen_pcbs w' = l # tcp_listen_pcbs w \<and> ts_app w' = ts_app w \<and> tcp_active_pcbs w' = tcp_active_pcbs w
    \<and> ts_netifs w' = ts_netifs w \<and> netif_list w' = netif_list w \<and> netif_default w' = netif_default w"
proof -
  note o = stack_okD [OF w]
  have "0 < desc_size (fst (ps_pools (ts_pb w) ! MEMP_TCP_PCB_LISTEN))"
    "desc_num (fst (ps_pools (ts_pb w) ! MEMP_TCP_PCB_LISTEN)) = MEMP_NUM_TCP_PCB_LISTEN"
    using o(7) by (simp_all add: pcb_layout_def Let_def)
  then obtain l pools where p: "memp_malloc MEMP_TCP_PCB_LISTEN (ps_pools (ts_pb w)) = (Some l, pools)"
    using pool_has_room [OF o(6)] room o(8) by auto
  let ?w1 = "w\<lparr>ts_pb := (ts_pb w)\<lparr>ps_pools := pools\<rparr>\<rparr>"
  have m: "stack_malloc MEMP_TCP_PCB_LISTEN w = (Some l, ?w1)" using p by (simp add: stack_malloc_def)
  let ?w2 = "?w1\<lparr>ts_lpcbs := (ts_lpcbs w)(l \<mapsto> new_listener b), tcp_listen_pcbs := l # tcp_listen_pcbs w\<rparr>"
  note n = stack_ok_new_listener [OF w m]
  have b2: "ts_pcbs ?w2 a = Some b" using b(1) by simp
  have lp: "ts_lpcbs w a = None" using o(9) b(1) by (auto simp: domIff)
  note c = lists_ok_pcb [OF o(5) b(1)]
  have q: "pcb_segs b = []" "t_refused_data b = None" "a \<notin> set (tcp_active_pcbs w)" "a \<notin> set (tcp_tw_pcbs w)"
    using c b(2) by (simp_all add: queueless_def)
  let ?w3 = "?w2\<lparr>tcp_bound_pcbs := remove1 a (tcp_bound_pcbs w)\<rparr>"
  have wo: "without a ?w2 (?w3\<lparr>ts_pcbs := (ts_pcbs ?w3)(a := None)\<rparr>)"
    using q(3,4) by (simp add: without_def remove1_idem)
  have m3: "mem_ok (ts_pb ?w3) (all_refs ((ts_pcbs ?w2)(a := None)) + R) (all_elems ((ts_pcbs ?w2)(a := None)) + S)"
    using mem_ok_malloc [OF o(2) p] all_remove [OF o(1) b(1)] queueless_nothing [OF q(1,2)] by simp
  from freed_stack(2) [OF n(2) b2 wo m3] have f: "stack_ok (tcp_free a ?w3) R S" by simp
  have rmv: "(if t_local_port b \<noteq> 0 then TCP_RMV L_bound a v else v) = v\<lparr>tcp_bound_pcbs := remove1 a (tcp_bound_pcbs v)\<rparr>"
    if "tcp_bound_pcbs v = tcp_bound_pcbs w" for v :: "'a tcp_stack"
    using that c(1) b(2) by (auto simp: TCP_RMV_def remove1_idem)
  let ?w4 = "?w1\<lparr>ts_lpcbs := (ts_lpcbs w)(l \<mapsto> new_listener b), tcp_bound_pcbs := remove1 a (tcp_bound_pcbs w)\<rparr>"
  have "tcp_listen (Some a) w = Some (Some l, TCP_REG L_listen l (tcp_free a ?w4))"
    using lp b m by (simp add: tcp_listen_def tcp_listen_with_backlog_and_err_def new_listener_def rmv Let_def split del: if_split)
  moreover have "set_list L_listen (l # list_of L_listen (tcp_free a ?w4)) (tcp_free a ?w4) = tcp_free a ?w3"
    by (rule tcp_stack.equality) (simp_all add: tcp_free_def stack_free_def)
  ultimately have "tcp_listen (Some a) w = Some (Some l, stack_timer_needed (tcp_free a ?w3))" by (simp add: TCP_REG_def)
  then show ?thesis using f n(1)
    by (intro exI [of _ l] exI [of _ "stack_timer_needed (tcp_free a ?w3)"]) (simp add: tcp_free_def stack_free_def)
qed

lemma tcp_accept_ok:
  assumes "stack_ok w R S" "ts_lpcbs w l = Some x" "l_state x = LISTEN"
  shows "tcp_accept (Some l) f w = Some (w\<lparr>ts_lpcbs := (ts_lpcbs w)(l \<mapsto> x\<lparr>l_accept := f\<rparr>)\<rparr>)
    \<and> stack_ok (w\<lparr>ts_lpcbs := (ts_lpcbs w)(l \<mapsto> x\<lparr>l_accept := f\<rparr>)\<rparr>) R S"
proof -
  have "dom ((ts_lpcbs w)(l \<mapsto> x\<lparr>l_accept := f\<rparr>)) = dom (ts_lpcbs w)" using assms(2) by auto
  then have "stack_ok (w\<lparr>ts_lpcbs := (ts_lpcbs w)(l \<mapsto> x\<lparr>l_accept := f\<rparr>)\<rparr>) R S"
    using assms(1) by (simp add: stack_ok_def memory_ok_def lists_ok_def netifs_ok_def tcp_pcb_lists_def del: dom_fun_upd) metis
  then show ?thesis using assms(2,3) by (simp add: tcp_accept_def)
qed

text \<open>With a free element in the pool \<open>tcp_new\<close> kills no connection.\<close>

lemma tcp_new_ok:
  assumes w: "stack_ok w R S" and room: "card (dom (ts_pcbs w)) < MEMP_NUM_TCP_PCB"
  shows "\<exists>a pb. tcp_new env w = Some (Some a, init_pcb a TCP_PRIO_NORMAL (w\<lparr>ts_pb := pb\<rparr>))
    \<and> ts_pcbs w a = None \<and> stack_ok (init_pcb a TCP_PRIO_NORMAL (w\<lparr>ts_pb := pb\<rparr>)) R S \<and> ps_bufs pb = ps_bufs (ts_pb w)"
proof -
  note o = stack_okD [OF w]
  have "0 < desc_size (fst (ps_pools (ts_pb w) ! MEMP_TCP_PCB))" "desc_num (fst (ps_pools (ts_pb w) ! MEMP_TCP_PCB)) = MEMP_NUM_TCP_PCB"
    using o(7) by (simp_all add: pcb_layout_def Let_def)
  then obtain a pools where "memp_malloc MEMP_TCP_PCB (ps_pools (ts_pb w)) = (Some a, pools)"
    using pool_has_room [OF o(3)] room o(1) by auto
  then have m: "stack_malloc MEMP_TCP_PCB w = (Some a, w\<lparr>ts_pb := (ts_pb w)\<lparr>ps_pools := pools\<rparr>\<rparr>)" (is "_ = (_, ?w)")
    by (simp add: stack_malloc_def)
  let ?b = "new_pcb TCP_PRIO_NORMAL (tcp_ticks w) (tcp_timer_ctr w)"
  have "pcb_segs ?b = []" "t_refused_data ?b = None" "t_state ?b = CLOSED" "t_local_port ?b = 0"
    by (simp_all add: new_pcb_def pcb_segs_def)
  note n = stack_ok_new_pcb [OF w m this]
  have "tcp_new env w = Some (Some a, init_pcb a TCP_PRIO_NORMAL ?w)"
    using m by (simp add: tcp_new_def tcp_alloc_def or_else_def)
  moreover have "init_pcb a TCP_PRIO_NORMAL ?w = ?w\<lparr>ts_pcbs := (ts_pcbs w)(a \<mapsto> ?b)\<rparr>" by (simp add: init_pcb_def)
  ultimately show ?thesis using n by (intro exI [of _ a] exI [of _ "(ts_pb w)\<lparr>ps_pools := pools\<rparr>"]) simp
qed

end
