(* ===== verification/Bridge_Start.thy ===== *)
theory Bridge_Start
  imports Bridge_Inv Tcp_Setup
begin

text \<open>
  Starting the bridge: in a fresh process \<open>lwip_bridge_init\<close> returns, the invariants hold, the
  interface is up and the default, and the three ports are listened on. Started a second time in
  the same process it never returns.
\<close>

section \<open>A fresh process\<close>

text \<open>
  The zeroed globals. The arrays behind the pools and the heap do not overlap; \<open>g_netif\<close> is the
  only interface of the program.
\<close>

definition pools_placed :: "pbuf_state \<Rightarrow> bool" where
  "pools_placed pb \<longleftrightarrow> length (ps_pools pb) = 7 \<and> pcb_layout pb \<and> 0 < desc_size (fst (ps_pools pb ! MEMP_TCP_SEG))
     \<and> layout_ok (ps_ram pb) (fst (ps_pools pb ! MEMP_PBUF)) (fst (ps_pools pb ! MEMP_PBUF_POOL))"

definition fresh :: "'a tcp_stack \<Rightarrow> bool" where
  "fresh w \<longleftrightarrow> ts_pcbs w = Map.empty \<and> ts_lpcbs w = Map.empty \<and> tcp_pcb_lists w = []
     \<and> dom (ts_netifs w) = {g_netif} \<and> netif_list w = [] \<and> netif_default w = None
     \<and> ps_bufs (ts_pb w) = Map.empty \<and> pools_placed (ts_pb w)"

text \<open>What \<open>lwip_init\<close> makes of the memory.\<close>

lemma memp_init_nth:
  assumes "ty < length st"
  shows "memp_init st ! ty = (fst (st ! ty), memp_init_pool (fst (st ! ty)) (snd (st ! ty)))"
  using assms by (simp add: memp_init_def split: prod.split)

lemma memp_init_holds:
  assumes "ty < length (ps_pools pb)" "0 < desc_size (fst (ps_pools pb ! ty))"
  shows "memp.pool_inv (memp_elems (fst (memp_init (ps_pools pb) ! ty))) (snd (memp_init (ps_pools pb) ! ty)) []"
  using memp_reach_inv [OF memp_reach.init assms(2)] assms(1) by (simp add: memp_init_nth)

lemma heap_inv_init: "heap_inv (mem_init h) [(0, False)]"
  by (simp add: mem_init_def heap_inv_def links_def end_hdr_def mem_consts)

lemma lwip_init_memory:
  assumes "pools_placed pb" "ps_bufs pb = Map.empty"
  defines "pb' \<equiv> pb\<lparr>ps_heap := mem_init (ps_heap pb), ps_pools := memp_init (ps_pools pb)\<rparr>"
  shows "mem_ok pb' {#} {#}" "pool_holds pb' MEMP_TCP_PCB {#}" "pool_holds pb' MEMP_TCP_PCB_LISTEN {#}" "pcb_layout pb'"
proof -
  have len: "length (ps_pools pb) = 7" and lay: "pcb_layout pb" "layout_ok (ps_ram pb) (fst (ps_pools pb ! MEMP_PBUF)) (fst (ps_pools pb ! MEMP_PBUF_POOL))"
    and seg: "0 < desc_size (fst (ps_pools pb ! MEMP_TCP_SEG))" using assms(1) by (simp_all add: pools_placed_def)
  have l: "length (memp_init (ps_pools pb)) = 7" using len by (simp add: memp_init_def)
  have f: "fst (memp_init (ps_pools pb) ! ty) = fst (ps_pools pb ! ty)" if "ty < 7" for ty using that len by (simp add: memp_init_nth)
  have sz: "0 < desc_size (fst (ps_pools pb ! MEMP_PBUF))" "0 < desc_size (fst (ps_pools pb ! MEMP_PBUF_POOL))"
    using lay(2) by (auto simp: layout_ok_def SIZEOF_STRUCT_PBUF_def)
  have h: "pool_holds pb' ty {#}" if "ty < 7" "0 < desc_size (fst (ps_pools pb ! ty))" for ty
    using memp_init_holds [of ty pb] that len l by (auto simp: pool_holds_def pb'_def)
  have "pinv_at pb' [(0, False)] [] []"
    using heap_inv_init l lay(2) f memp_init_holds [of MEMP_PBUF pb] memp_init_holds [of MEMP_PBUF_POOL pb] sz len assms(2)
    by (simp add: pinv_at_def pb'_def memp_idx accounted_def)
  then have "pinv pb'" by (rule pinv_atI)
  moreover have "owned (ps_bufs pb') {#}" using assms(2) by (simp add: pb'_def owned_def)
  ultimately show "mem_ok pb' {#} {#}" using h [of MEMP_TCP_SEG] seg by (simp add: mem_ok_def pool_idx)
  show "pool_holds pb' MEMP_TCP_PCB {#}" "pool_holds pb' MEMP_TCP_PCB_LISTEN {#}"
    using h lay(1) by (simp_all add: pool_idx pcb_layout_def Let_def)
  show "pcb_layout pb'"
    using lay(1) pcb_layout_cong [of pb' pb] f by (simp add: pb'_def pool_idx)
qed

section \<open>The interface\<close>

lemma netif_find_num_empty: "netif_find_num N [] nif num = Some (if num = 255 then 0 else num)"
  by (subst netif_find_num.simps) simp

text \<open>The fields of the interface after \<open>netif_add\<close> and \<open>netif_set_up\<close>.\<close>

definition started_netif :: "netif \<Rightarrow> bool" where
  "started_netif n' \<longleftrightarrow> nif_ip_addr n' = 0xC6120002 \<and> nif_netmask n' = 0xffffffff \<and> nif_gw n' = 0
     \<and> nif_output n' = netif_output_fn \<and> nif_mtu n' = 1500 \<and> nif_name n' = ''ws''
     \<and> netif_is_up n' \<and> netif_is_link_up n'"

lemma netif_set_addr_fresh:
  assumes "nif_ip_addr n = 0" "nif_netmask n = 0" "nif_gw n = 0" "a \<noteq> 0" "m \<noteq> 0"
  shows "netif_set_addr env nif (Some a) (Some m) (Some 0) (w\<lparr>ts_netifs := N(nif \<mapsto> n)\<rparr>)
    = Some (w\<lparr>ts_netifs := N(nif \<mapsto> n\<lparr>nif_netmask := m, nif_ip_addr := a\<rparr>)\<rparr>)"
  using assms by (simp add: netif_set_addr_def netif_upd_def netif_do_set_netmask_def netif_do_set_gw_def
      netif_do_set_ipaddr_def tcp_netif_ip_addr_changed_def)

lemma netif_start_ok:
  assumes "ts_netifs w g_netif = Some n" "netif_list w = []"
  shows "\<exists>n' k w'. netif_add env g_netif (Some 0xC6120002) (Some 0xffffffff) (Some 0) netif_init_cb w = Some (Some g_netif, w')
    \<and> netif_set_up g_netif w' = Some (w\<lparr>ts_netifs := (ts_netifs w)(g_netif \<mapsto> n'), netif_num := k, netif_list := [g_netif]\<rparr>)
    \<and> started_netif n'"
proof -
  let ?n1 = "n\<lparr>nif_ip_addr := 0, nif_netmask := 0, nif_gw := 0, nif_output := netif_null_output_ip4_fn, nif_mtu := 0,
    nif_flags := 0, nif_num := netif_num w\<rparr>"
  let ?n2 = "?n1\<lparr>nif_netmask := 0xffffffff, nif_ip_addr := 0xC6120002\<rparr>"
  define num where "num = (if netif_num w = 255 then 0 else netif_num w)"
  define k where "k = (if num = 254 then 0 else num + 1)"
  define n3 where "n3 = (snd (netif_init_cb ?n2))\<lparr>nif_num := num\<rparr>"
  define n4 where "n4 = n3\<lparr>nif_flags := nif_flags n3 OR NETIF_FLAG_UP\<rparr>"
  let ?w = "\<lambda>n'. w\<lparr>ts_netifs := (ts_netifs w)(g_netif \<mapsto> n'), netif_num := k, netif_list := [g_netif]\<rparr>"
  have "netif_set_addr env g_netif (Some 0xC6120002) (Some 0xffffffff) (Some 0) (w\<lparr>ts_netifs := (ts_netifs w)(g_netif \<mapsto> ?n1)\<rparr>)
      = Some (w\<lparr>ts_netifs := (ts_netifs w)(g_netif \<mapsto> ?n2)\<rparr>)" by (rule netif_set_addr_fresh) simp_all
  then have a: "netif_add env g_netif (Some 0xC6120002) (Some 0xffffffff) (Some 0) netif_init_cb w = Some (Some g_netif, ?w n3)"
    using assms by (simp add: netif_add_def netif_upd_def netif_find_num_empty n3_def num_def k_def netif_init_cb_def)
  have u: "netif_set_up g_netif (?w n3) = Some (?w n4)"
    by (simp add: netif_set_up_def netif_upd_def n4_def)
  have "started_netif n4"
    by (simp add: started_netif_def n4_def n3_def netif_init_cb_def netif_is_up_def netif_is_link_up_def NETIF_FLAG_UP_def NETIF_FLAG_LINK_UP_def)
  with a u show ?thesis by blast
qed

section \<open>Listening\<close>

definition listeners :: "'a tcp_stack \<Rightarrow> tcp_pcb_listen list" where
  "listeners w = map (\<lambda>l. the (ts_lpcbs w l)) (tcp_listen_pcbs w)"

definition accepts :: "tcp_pcb_listen \<Rightarrow> bool" where
  "accepts x \<longleftrightarrow> l_state x = LISTEN \<and> l_local_ip x = 0 \<and> l_accept x = Some tcp_accept_cb_fn"

text \<open>Only listeners, one for each of the ports.\<close>

definition listening :: "'a tcp_stack \<Rightarrow> u16 list \<Rightarrow> bool" where
  "listening w ports \<longleftrightarrow> stack_ok w {#} {#} \<and> ts_pcbs w = Map.empty
     \<and> map l_local_port (listeners w) = ports \<and> (\<forall>x \<in> set (listeners w). accepts x)"

lemma listening_lists:
  assumes "listening w ports"
  shows "tcp_bound_pcbs w = []" "tcp_active_pcbs w = []" "tcp_tw_pcbs w = []" "set (tcp_listen_pcbs w) = dom (ts_lpcbs w)"
    "card (dom (ts_lpcbs w)) = length ports"
proof -
  have l: "lists_ok w" "ts_pcbs w = Map.empty" using assms by (simp_all add: listening_def stack_ok_def)
  then show "tcp_bound_pcbs w = []" "tcp_active_pcbs w = []" "tcp_tw_pcbs w = []"
    by (cases "tcp_bound_pcbs w"; cases "tcp_active_pcbs w"; cases "tcp_tw_pcbs w"; auto simp: lists_ok_def)+
  show s: "set (tcp_listen_pcbs w) = dom (ts_lpcbs w)" using l(1) by (simp add: lists_ok_def)
  have "distinct (tcp_listen_pcbs w)" using l(1) by (simp add: lists_ok_def tcp_pcb_lists_def)
  then have "card (dom (ts_lpcbs w)) = length (tcp_listen_pcbs w)" using distinct_card s by metis
  moreover have "length (tcp_listen_pcbs w) = length ports" using assms by (auto simp: listening_def listeners_def)
  ultimately show "card (dom (ts_lpcbs w)) = length ports" by simp
qed

lemma listening_no_conflict:
  assumes "listening w ports" "port \<notin> set ports" "tcp_pcb_lists w' = tcp_pcb_lists w" "ts_lpcbs w' = ts_lpcbs w"
  shows "\<not> bind_conflict w' ip port"
proof -
  have "l_local_port x \<noteq> port" if "ts_lpcbs w l = Some x" for l x
  proof -
    have "x \<in> set (listeners w)" using listening_lists(4) [OF assms(1)] that by (force simp: listeners_def)
    then show ?thesis using assms(1,2) by (auto simp: listening_def)
  qed
  then show ?thesis
    using listening_lists [OF assms(1)] assms(3,4) by (auto simp: bind_conflict_def tcp_pcb_lists_def local_port_of_def)
qed

definition same_netifs :: "'a tcp_stack \<Rightarrow> 'a tcp_stack \<Rightarrow> bool" where
  "same_netifs w w' \<longleftrightarrow> ts_netifs w' = ts_netifs w \<and> netif_list w' = netif_list w \<and> netif_default w' = netif_default w \<and> ts_app w' = ts_app w"

lemma listen_step:
  assumes w: "listening w ports" and p: "port \<notin> set ports" "port \<noteq> 0" "length ports < MEMP_NUM_TCP_PCB_LISTEN"
  shows "\<exists>w'. listen_loop cbs (port # rest) w = listen_loop cbs rest w' \<and> listening w' (port # ports) \<and> same_netifs w w'"
proof -
  have ok: "stack_ok w {#} {#}" and e: "ts_pcbs w = Map.empty" using w by (simp_all add: listening_def)
  note ll = listening_lists [OF w]
  from tcp_new_ok [OF ok, of "bridge_env cbs"] e obtain a pb where
    n: "tcp_new (bridge_env cbs) w = Some (Some a, init_pcb a TCP_PRIO_NORMAL (w\<lparr>ts_pb := pb\<rparr>))"
    and ok1: "stack_ok (init_pcb a TCP_PRIO_NORMAL (w\<lparr>ts_pb := pb\<rparr>)) {#} {#}" by (auto simp: MEMP_NUM_TCP_PCB_def)
  let ?w1 = "init_pcb a TCP_PRIO_NORMAL (w\<lparr>ts_pb := pb\<rparr>)"
  let ?b = "new_pcb TCP_PRIO_NORMAL (tcp_ticks w) (tcp_timer_ctr w)"
  have b: "ts_pcbs ?w1 a = Some ?b" "t_state ?b = CLOSED" "t_local_port ?b = 0" "t_local_ip ?b = 0"
    by (simp_all add: init_pcb_def new_pcb_def)
  let ?b' = "?b\<lparr>t_local_ip := 0, t_local_port := port\<rparr>"
  let ?w2 = "stack_timer_needed (relisted ?w1 L_bound a ?b')"
  have "\<not> bind_conflict ?w1 0 port"
    by (rule listening_no_conflict [OF w p(1)]) (simp_all add: init_pcb_def tcp_pcb_lists_def)
  with tcp_bind_ok [OF ok1 b(1-3) p(2), of 0] b(4) have
    bd: "tcp_bind (Some a) 0 port ?w1 = Some (ERR_OK, ?w2)" and ok2: "stack_ok ?w2 {#} {#}" by simp_all
  have b2: "ts_pcbs ?w2 a = Some ?b'" "t_state ?b' = CLOSED" using b(2) by (simp_all add: relisted_def)
  have l2: "ts_lpcbs ?w2 = ts_lpcbs w" "tcp_listen_pcbs ?w2 = tcp_listen_pcbs w" "ts_pcbs ?w2 = [a \<mapsto> ?b']" "same_netifs w ?w2"
    using e by (simp_all add: relisted_def init_pcb_def same_netifs_def)
  from tcp_listen_ok [OF ok2 b2] l2 ll(5) p(3) obtain l w3 where
    l: "tcp_listen (Some a) ?w2 = Some (Some l, w3)" and ok3: "stack_ok w3 {#} {#}" and w3: "ts_pcbs w3 = Map.empty"
      "ts_lpcbs w l = None" "ts_lpcbs w3 = (ts_lpcbs w)(l \<mapsto> new_listener ?b')" "tcp_listen_pcbs w3 = l # tcp_listen_pcbs w" "same_netifs w w3"
    by (auto simp: same_netifs_def)
  let ?x = "new_listener ?b'"
  let ?w4 = "w3\<lparr>ts_lpcbs := (ts_lpcbs w3)(l \<mapsto> ?x\<lparr>l_accept := Some tcp_accept_cb_fn\<rparr>)\<rparr>"
  have "ts_lpcbs w3 l = Some ?x" "l_state ?x = LISTEN" using w3(3) by (simp_all add: new_listener_def)
  from tcp_accept_ok [OF ok3 this, of "Some tcp_accept_cb_fn"]
  have ac: "tcp_accept (Some l) (Some tcp_accept_cb_fn) w3 = Some ?w4" "stack_ok ?w4 {#} {#}" by simp_all
  have "listeners ?w4 = ?x\<lparr>l_accept := Some tcp_accept_cb_fn\<rparr> # listeners w"
    using w3(2,3,4) ll(4) by (auto simp: listeners_def domIff)
  then have "listening ?w4 (port # ports)"
    using w w3(1) ac(2) by (auto simp: listening_def accepts_def new_listener_def)
  moreover have "same_netifs w ?w4" using w3(5) by (simp add: same_netifs_def)
  ultimately show ?thesis using n bd l ac(1) by auto
qed

lemma listen_loop_ok:
  "listening w ps \<Longrightarrow> distinct (rev ports @ ps) \<Longrightarrow> 0 \<notin> set ports \<Longrightarrow> length ports + length ps \<le> MEMP_NUM_TCP_PCB_LISTEN
    \<Longrightarrow> \<exists>w'. listen_loop cbs ports w = Some w' \<and> listening w' (rev ports @ ps) \<and> same_netifs w w'"
proof (induction ports arbitrary: w ps)
  case Nil
  then show ?case by (simp add: same_netifs_def)
next
  case (Cons port ports)
  from listen_step [of w ps port cbs ports] Cons.prems obtain w1 where
    w1: "listen_loop cbs (port # ports) w = listen_loop cbs ports w1" "listening w1 (port # ps)" "same_netifs w w1" by auto
  from Cons.IH [OF w1(2)] Cons.prems obtain w' where
    "listen_loop cbs ports w1 = Some w'" "listening w' (rev ports @ port # ps)" "same_netifs w1 w'" by auto
  then show ?case using w1 by (auto simp: same_netifs_def)
qed

section \<open>Starting\<close>

lemma lwip_init_fields:
  "ts_pb (lwip_init now rnd w) = (ts_pb w)\<lparr>ps_heap := mem_init (ps_heap (ts_pb w)), ps_pools := memp_init (ps_pools (ts_pb w))\<rparr>"
  "ts_pcbs (lwip_init now rnd w) = ts_pcbs w" "ts_lpcbs (lwip_init now rnd w) = ts_lpcbs w"
  "tcp_pcb_lists (lwip_init now rnd w) = tcp_pcb_lists w" "ts_netifs (lwip_init now rnd w) = ts_netifs w"
  "netif_list (lwip_init now rnd w) = netif_list w" "netif_default (lwip_init now rnd w) = netif_default w"
  "ts_app (lwip_init now rnd w) = ts_app w"
  by (simp_all add: lwip_init_def tcp_init_def tcp_pcb_lists_def Let_def)

lemma conns_ok_clear: "conns_ok Map.empty conns_clear"
  by (simp add: conns_ok_def conns_clear_def)

lemma lwip_bridge_init_spec:
  assumes "fresh w"
  shows "\<exists>w' n. lwip_bridge_init cbs now rnd w = Some w' \<and> bridge_ok w' {#} {#} \<and> listening w' [5222, 80, 443]
    \<and> netif_list w' = [g_netif] \<and> netif_default w' = Some g_netif \<and> ts_netifs w' = [g_netif \<mapsto> n]
    \<and> started_netif n \<and> nat_abs (g_nat (ts_app w')) = Map.empty \<and> (\<forall>i. conn_of_id i (ts_app w') = None)"
proof -
  define w0 where "w0 = lwip_init now rnd (app_upd (\<lambda>g. g\<lparr>g_conns := conns_clear, g_nat := nat_clear\<rparr>) w)"
  note f = assms [unfolded fresh_def] and i = lwip_init_fields [of now rnd "app_upd (\<lambda>g. g\<lparr>g_conns := conns_clear, g_nat := nat_clear\<rparr>) w", folded w0_def]
  have lists: "tcp_pcb_lists w = []" using f by simp
  have w0: "ts_pcbs w0 = Map.empty" "ts_lpcbs w0 = Map.empty" "tcp_pcb_lists w0 = []" "netif_list w0 = []"
    "ts_netifs w0 = ts_netifs w" "netif_default w0 = None" "ts_app w0 = (ts_app w)\<lparr>g_conns := conns_clear, g_nat := nat_clear\<rparr>"
    using f i lists by (simp_all add: app_upd_def tcp_pcb_lists_def)
  obtain n where n: "ts_netifs w0 g_netif = Some n" using f w0(5) by (auto simp: dom_def)
  from netif_start_ok [OF n w0(4), of "bridge_env cbs"] obtain n' k w1 where
    a: "netif_add (bridge_env cbs) g_netif (Some 0xC6120002) (Some 0xffffffff) (Some 0) netif_init_cb w0 = Some (Some g_netif, w1)"
    "netif_set_up g_netif w1 = Some (w0\<lparr>ts_netifs := (ts_netifs w0)(g_netif \<mapsto> n'), netif_num := k, netif_list := [g_netif]\<rparr>)"
    and n': "started_netif n'" by blast
  let ?w2 = "w0\<lparr>ts_netifs := (ts_netifs w0)(g_netif \<mapsto> n'), netif_num := k, netif_list := [g_netif]\<rparr>"
  let ?w3 = "netif_set_default (Some g_netif) ?w2"
  have "ts_netifs w x = None" if "x \<noteq> g_netif" for x using f that by (metis domIff singletonD)
  then have nifs: "ts_netifs ?w3 = [g_netif \<mapsto> n']" using w0(5) by (auto simp: netif_set_default_def)
  have pb: "ts_pb w0 = (ts_pb w)\<lparr>ps_heap := mem_init (ps_heap (ts_pb w)), ps_pools := memp_init (ps_pools (ts_pb w))\<rparr>"
    using i by (simp add: app_upd_def)
  note m = lwip_init_memory [of "ts_pb w", folded pb]
  have "pools_placed (ts_pb w)" "ps_bufs (ts_pb w) = Map.empty" using f by simp_all
  note m = m [OF this]
  have "netifs_ok ?w3" using nifs n' by (simp add: netifs_ok_def netif_set_default_def started_netif_def)
  then have "memory_ok ?w3 {#} {#}"
    using m w0 by (simp add: memory_ok_def netif_set_default_def all_refs_def all_elems_def)
  moreover have "lists_ok ?w3" using w0 by (simp add: lists_ok_def netif_set_default_def tcp_pcb_lists_def)
  ultimately have "listening ?w3 []"
    using w0 by (simp add: listening_def stack_ok_def listeners_def netif_set_default_def tcp_pcb_lists_def)
  from listen_loop_ok [OF this, of listen_ports cbs] obtain w' where
    l: "listen_loop cbs listen_ports ?w3 = Some w'" "listening w' [5222, 80, 443]" "same_netifs ?w3 w'"
    by (auto simp: listen_ports_def MEMP_NUM_TCP_PCB_LISTEN_def)
  have r: "lwip_bridge_init cbs now rnd w = Some w'"
    using a l(1) by (simp add: lwip_bridge_init_def w0_def)
  have g: "ts_app w' = (ts_app w)\<lparr>g_conns := conns_clear, g_nat := nat_clear\<rparr>" "ts_netifs w' = [g_netif \<mapsto> n']"
    "netif_list w' = [g_netif]" "netif_default w' = Some g_netif"
    using l(3) w0(7) nifs by (simp_all add: same_netifs_def netif_set_default_def)
  have "bridge_ok w' {#} {#}"
    using l(2) g(1) conns_ok_clear nat_clear_wf by (simp add: bridge_ok_def listening_def tables_wf_def) (simp add: conns_clear_def)
  moreover have "conn_of_id i (ts_app w') = None" for i
    using g(1) by (cases "unat i < MAX_CONNS") (simp_all add: conn_of_id_def conns_clear_def)
  ultimately show ?thesis using r l(2) g nat_clear_abs n' by auto
qed

text \<open>A second \<open>netif_add\<close> of the same interface: the number tried is always the one found on the list.\<close>

lemma netif_find_num_listed:
  assumes "netif_find_num N lst nif num = Some r"
  shows "nif \<notin> set lst"
proof (rule netif_find_num.raw_induct [where P = "\<lambda>N lst nif num r. nif \<notin> set lst", OF _ assms])
  fix find and N :: "nat \<rightharpoonup> netif" and lst nif num r
  assume IH: "\<And>N lst nif num r. find N lst nif num = Some r \<Longrightarrow> nif \<notin> set lst"
    and r: "(let num = if num = 255 then 0 else num
      in if \<exists>a \<in> set lst. (if a = nif then num else nif_num (the (N a))) = num then find N lst nif (num + 1) else Some num) = Some r"
  then show "nif \<notin> set lst" by (auto simp: Let_def split: if_splits)
qed

lemma lwip_bridge_init_again:
  assumes "g_netif \<in> set (netif_list w)" "ts_netifs w g_netif = Some n"
  shows "lwip_bridge_init cbs now rnd w = None"
proof -
  define w0 where "w0 = lwip_init now rnd (app_upd (\<lambda>g. g\<lparr>g_conns := conns_clear, g_nat := nat_clear\<rparr>) w)"
  have w0: "ts_netifs w0 g_netif = Some n" "netif_list w0 = netif_list w"
    using assms by (simp_all add: w0_def lwip_init_fields app_upd_def)
  let ?n1 = "n\<lparr>nif_ip_addr := 0, nif_netmask := 0, nif_gw := 0, nif_output := netif_null_output_ip4_fn, nif_mtu := 0,
    nif_flags := 0, nif_num := netif_num w0\<rparr>"
  let ?n2 = "?n1\<lparr>nif_netmask := 0xffffffff, nif_ip_addr := 0xC6120002\<rparr>"
  have "netif_set_addr (bridge_env cbs) g_netif (Some 0xC6120002) (Some 0xffffffff) (Some 0) (w0\<lparr>ts_netifs := (ts_netifs w0)(g_netif \<mapsto> ?n1)\<rparr>)
      = Some (w0\<lparr>ts_netifs := (ts_netifs w0)(g_netif \<mapsto> ?n2)\<rparr>)" by (rule netif_set_addr_fresh) simp_all
  moreover have "netif_find_num N (netif_list w0) g_netif num = None" for N num
    using netif_find_num_listed [of N "netif_list w0" g_netif num] assms(1) w0(2) by (cases "netif_find_num N (netif_list w0) g_netif num") auto
  ultimately have "netif_add (bridge_env cbs) g_netif (Some 0xC6120002) (Some 0xffffffff) (Some 0) netif_init_cb w0 = None"
    using w0 by (simp add: netif_add_def netif_upd_def netif_init_cb_def Let_def)
  then show ?thesis by (simp add: lwip_bridge_init_def w0_def)
qed

section \<open>A concrete process\<close>

definition demo_desc :: "nat \<Rightarrow> nat \<Rightarrow> nat \<Rightarrow> memp_desc \<times> memp_pool" where
  "demo_desc sz n base = (\<lparr>desc_size = sz, desc_num = n, desc_base = base\<rparr>, \<lparr>mp_tab = None, mp_next = \<lambda>_. None\<rparr>)"

definition demo_memory :: pbuf_state where
  "demo_memory = \<lparr>ps_bufs = Map.empty, ps_mem = (\<lambda>_. 0), ps_heap = \<lparr>h_ram = Map.empty, h_lfree = 0\<rparr>, ps_ram = 0,
     ps_pools = [demo_desc 200 32 5000000, demo_desc 64 8 5100000, demo_desc 24 256 5200000, demo_desc 40 5 5300000,
       demo_desc 32 8 5400000, demo_desc 24 32 2000000, demo_desc 1624 64 3000000], ps_free_ooseq_pending = False\<rparr>"

lemma demo_memory_placed: "pools_placed demo_memory" "ps_bufs demo_memory = Map.empty"
proof -
  let ?d = "\<lambda>ty. fst (ps_pools demo_memory ! ty)"
  have d: "?d MEMP_TCP_PCB = \<lparr>desc_size = 200, desc_num = 32, desc_base = 5000000\<rparr>" "?d MEMP_TCP_PCB_LISTEN = \<lparr>desc_size = 64, desc_num = 8, desc_base = 5100000\<rparr>"
    "?d MEMP_TCP_SEG = \<lparr>desc_size = 24, desc_num = 256, desc_base = 5200000\<rparr>" "?d MEMP_PBUF = \<lparr>desc_size = 24, desc_num = 32, desc_base = 2000000\<rparr>"
    "?d MEMP_PBUF_POOL = \<lparr>desc_size = 1624, desc_num = 64, desc_base = 3000000\<rparr>" "length (ps_pools demo_memory) = 7" "ps_ram demo_memory = 0"
    by (simp_all add: demo_memory_def demo_desc_def pool_idx)
  have "layout_ok 0 (?d MEMP_PBUF) (?d MEMP_PBUF_POOL)"
    unfolding d by (auto simp: layout_ok_def memp_elems_def SIZEOF_STRUCT_PBUF_def PBUF_POOL_BUFSIZE_def MEM_SIZE_ALIGNED_def)
  moreover have "pcb_layout demo_memory"
    unfolding pcb_layout_def d by (auto simp: Let_def memp_elems_def MEMP_NUM_TCP_PCB_def MEMP_NUM_TCP_PCB_LISTEN_def)
  ultimately show "pools_placed demo_memory" by (simp add: pools_placed_def d)
  show "ps_bufs demo_memory = Map.empty" by (simp add: demo_memory_def)
qed

definition demo_netif :: netif where
  "demo_netif = \<lparr>nif_ip_addr = 0, nif_netmask = 0, nif_gw = 0, nif_output = netif_null_output_ip4_fn, nif_mtu = 0,
     nif_flags = 0, nif_name = [], nif_num = 0\<rparr>"

definition demo_seg :: tcp_seg where
  "demo_seg = \<lparr>sg_elem = 0, sg_p = None, sg_len = 0, sg_flags = 0, sg_tcphdr = 0\<rparr>"

definition demo_process :: "unit bstack" where
  "demo_process = \<lparr>ts_pb = demo_memory, ts_pcbs = Map.empty, ts_lpcbs = Map.empty, tcp_listen_pcbs = [], tcp_bound_pcbs = [],
     tcp_active_pcbs = [], tcp_tw_pcbs = [], tcp_active_pcbs_changed = False, tcp_port = 0, tcp_iss = 6510, tcp_ticks = 0,
     tcp_timer = 0, tcp_timer_ctr = 0, tcp_input_pcb = None, recv_flags = 0, ts_netifs = [g_netif \<mapsto> demo_netif],
     netif_list = [], netif_default = None, netif_num = 0, ip_id = 0,
     ip_data = \<lparr>current_netif = None, current_input_netif = None, current_ip4_header = None, current_ip_header_tot_len = 0,
       current_iphdr_src = 0, current_iphdr_dest = 0\<rparr>,
     ts_in = \<lparr>in_seg = demo_seg, in_hdr = 0, in_optlen = 0, in_opt1len = 0, in_opt2 = None, in_optidx = 0, in_seqno = 0,
       in_ackno = 0, in_recv_acked = 0, in_tcplen = 0, in_flags = 0, in_recv_data = None\<rparr>,
     reassdatagrams = [], ip_reass_pbufcount = 0,
     ts_timeouts = \<lparr>next_timeout = [], current_timeout_due_time = 0, tcpip_tcp_timer_active = False,
       to_pool = \<lparr>mp_tab = None, mp_next = \<lambda>_. None\<rparr>\<rparr>, ts_now = 0,
     ts_app = \<lparr>g_nat = nat_clear, g_conns = conns_clear, g_dbg_key_ip = 0, g_dbg_dc = 0, g_dbg_nat_ip = 0, g_dbg_nat_dc = 0,
       g_dbg_key_port = 0, g_dbg_nat_port = 0, g_last_write_err = 0, g_inmem_drops = 0, g_mallocs = 0, g_user = ()\<rparr>\<rparr>"

lemma demo_process_fresh: "fresh demo_process"
proof -
  have d: "ts_pb demo_process = demo_memory" "ts_pcbs demo_process = Map.empty" "ts_lpcbs demo_process = Map.empty"
    "tcp_pcb_lists demo_process = []" "ts_netifs demo_process = [g_netif \<mapsto> demo_netif]" "netif_list demo_process = []" "netif_default demo_process = None"
    by (simp_all add: demo_process_def tcp_pcb_lists_def)
  show ?thesis unfolding fresh_def d using demo_memory_placed by simp
qed

section \<open>Properties\<close>

text \<open>
  C5: In a fresh process \<open>lwip_bridge_init\<close> returns with everything set up: memory, pools and PCB
  lists satisfy the invariant of the stack and nothing is allocated but the listeners; the ports
  443, 80 and 5222 are listened on at every address, with the accept callback of the bridge; the
  interface 198.18.0.2/32 is up, the only one and the default; both tables are empty.
\<close>

theorem lwip_bridge_init_ready:
  assumes "fresh w"
  shows "\<exists>w' n. lwip_bridge_init cbs now rnd w = Some w' \<and> bridge_ok w' {#} {#} \<and> listening w' [5222, 80, 443]
    \<and> netif_list w' = [g_netif] \<and> netif_default w' = Some g_netif \<and> ts_netifs w' = [g_netif \<mapsto> n]
    \<and> started_netif n \<and> nat_abs (g_nat (ts_app w')) = Map.empty \<and> (\<forall>i. conn_of_id i (ts_app w') = None)"
  by (rule lwip_bridge_init_spec [OF assms])

theorem lwip_bridge_init_ready_witness:
  "\<exists>w'. lwip_bridge_init \<lparr>g_output = None, g_accept = None, g_recv = None, g_close = None, g_sent = None, malloc_ok = \<lambda>_ _. True\<rparr>
      5 7 demo_process = Some w' \<and> netif_list w' = [g_netif]"
  using lwip_bridge_init_ready [OF demo_process_fresh] by blast

text \<open>
  C18: A second \<open>lwip_bridge_init\<close> in the same process does not return: the interface is still on
  the list of lwIP, and \<open>netif_add\<close> looks for a number that differs from that of every listed
  interface by changing the number of this one.
\<close>

theorem lwip_bridge_init_second_hangs:
  assumes "lwip_bridge_init cbs now rnd w = Some w'" "fresh w"
    and "netif_list w'' = netif_list w'" "ts_netifs w'' = ts_netifs w'"
  shows "lwip_bridge_init cbs' now' rnd' w'' = None"
proof -
  from lwip_bridge_init_spec [OF assms(2), of cbs now rnd] assms(1) obtain n where
    "netif_list w' = [g_netif]" "ts_netifs w' g_netif = Some n" by auto
  then show ?thesis using lwip_bridge_init_again [of w'' n] assms(3,4) by simp
qed

theorem lwip_bridge_init_second_hangs_witness:
  "\<exists>w'. Option.bind (lwip_bridge_init \<lparr>g_output = None, g_accept = None, g_recv = None, g_close = None, g_sent = None,
        malloc_ok = \<lambda>_ _. True\<rparr> 5 7 demo_process) Some = Some w'
    \<and> lwip_bridge_init \<lparr>g_output = None, g_accept = None, g_recv = None, g_close = None, g_sent = None, malloc_ok = \<lambda>_ _. True\<rparr>
        6 8 w' = None"
proof -
  let ?c = "\<lparr>g_output = None, g_accept = None, g_recv = None, g_close = None, g_sent = None, malloc_ok = \<lambda>_ _. True\<rparr> :: unit bridge_cbs"
  obtain w' where w': "lwip_bridge_init ?c 5 7 demo_process = Some w'"
    using lwip_bridge_init_spec [OF demo_process_fresh, of ?c 5 7] by blast
  from lwip_bridge_init_second_hangs [OF w' demo_process_fresh refl refl, of ?c 6 8] w' show ?thesis by simp
qed

end
