(* ===== verification/Bridge_Conn.thy ===== *)
theory Bridge_Conn
  imports Bridge_Start
begin

text \<open>
  The life of a connection in the bridge: it is accepted into a free slot, and it ends when the
  client closes it or when the tunnel calls \<open>lwip_bridge_close\<close>. A tunnel that closes a connection
  while it is being handed data of that connection makes the bridge use a freed PCB.
\<close>

section \<open>The end of a connection\<close>

lemma bridge_ok_user [simp]: "bridge_ok (w\<lparr>ts_app := (ts_app w)\<lparr>g_user := u\<rparr>\<rparr>) R S = bridge_ok w R S"
  by (simp add: bridge_ok_def tables_wf_def)

lemma conn_of_id_user [simp]: "conn_of_id i (g\<lparr>g_user := u\<rparr>) = conn_of_id i g"
  by (simp add: conn_of_id_def)

lemma app_upd_user: "app_upd f (w\<lparr>ts_app := g\<rparr>) = w\<lparr>ts_app := f g\<rparr>"
  by (simp add: app_upd_def)

text \<open>The FIN of the client: the receive callback without a pbuf.\<close>

lemma recv_fin_ok:
  assumes ok: "bridge_ok w R S" and i: "i < MAX_CONNS" "c_active (g_conns (ts_app w) ! i)" "c_pcb (g_conns (ts_app w) ! i) = Some pcb"
  shows "\<exists>w'. tcp_recv_cb cbs i pcb None ERR_OK w = Some (ERR_ABRT, w') \<and> bridge_ok w' R S \<and> without pcb w w'
    \<and> (\<forall>j. conn_of_id j (ts_app w') = (if j = of_nat i then None else conn_of_id j (ts_app w)))
    \<and> nat_abs (g_nat (ts_app w')) = (nat_abs (g_nat (ts_app w)))
         ((c_client_ip (g_conns (ts_app w) ! i), c_client_port (g_conns (ts_app w) ! i)) := None)"
proof -
  have id: "unat (of_nat i :: u32) = i" using i(1) by (simp add: MAX_CONNS_def unat_of_nat)
  obtain u where u: "call_g_close cbs (of_nat i) 0 w = w\<lparr>ts_app := (ts_app w)\<lparr>g_user := u\<rparr>\<rparr>"
    using call_g_close_eq [of cbs "of_nat i" 0 w] by (elim exE)
  let ?w = "w\<lparr>ts_app := (ts_app w)\<lparr>g_user := u\<rparr>\<rparr>"
  have c: "conn_of_id (of_nat i) (ts_app ?w) = Some i" using i(1,2) id by (simp add: conn_of_id_Some)
  have "bridge_ok ?w R S" "c_pcb (g_conns (ts_app ?w) ! i) = Some pcb" using ok i(3) by simp_all
  from lwip_bridge_close_spec [OF this(1) c this(2), of cbs] obtain w' where
    w': "lwip_bridge_close cbs (of_nat i) ?w = Some w'" "bridge_ok w' R S" "without pcb ?w w'"
    "\<forall>j. conn_of_id j (ts_app w') = (if j = of_nat i then None else conn_of_id j (ts_app ?w))"
    "nat_abs (g_nat (ts_app w')) = (nat_abs (g_nat (ts_app ?w)))
       ((c_client_ip (g_conns (ts_app ?w) ! i), c_client_port (g_conns (ts_app ?w) ! i)) := None)" by blast
  have "tcp_recv_cb cbs i pcb None ERR_OK w = map_option (\<lambda>w. (ERR_ABRT, w)) (lwip_bridge_close cbs (of_nat i) ?w)"
    using u c i(3) unfolding tcp_recv_cb_def recv_close_def lwip_bridge_close_def
    by (simp add: conn_nat_remove_def app_upd_user map_conv_bind_option o_def)
  then show ?thesis using w' by (simp add: without_def)
qed

section \<open>Closing from the receive handler\<close>

lemma malloc_counted: "bridge_malloc cbs n w = (malloc_ok cbs (g_mallocs (ts_app w)) (unat n), w\<lparr>ts_app := (ts_app w)\<lparr>g_mallocs := g_mallocs (ts_app w) + 1\<rparr>\<rparr>)"
  by (simp add: bridge_malloc_def app_upd_def)

lemma bridge_ok_mallocs [simp]: "bridge_ok (w\<lparr>ts_app := (ts_app w)\<lparr>g_mallocs := m\<rparr>\<rparr>) R S = bridge_ok w R S"
  by (simp add: bridge_ok_def tables_wf_def)

lemma conn_of_id_mallocs [simp]: "conn_of_id i (g\<lparr>g_mallocs := m\<rparr>) = conn_of_id i g"
  by (simp add: conn_of_id_def)

lemma bridge_ok_chain:
  assumes "bridge_ok w (add_mset p R) S"
  shows "\<exists>as b. pchain (ps_bufs (ts_pb w)) (Some p) as \<and> stack_buf w p = Some b"
proof -
  have "owned (ps_bufs (ts_pb w)) (all_refs (ts_pcbs w) + add_mset p R)"
    using assms stack_okD(2) [of w "add_mset p R" S] by (simp add: bridge_ok_def mem_ok_def)
  then have "ps_bufs (ts_pb w) p \<noteq> None" "\<forall>a. ps_bufs (ts_pb w) a \<noteq> None \<longrightarrow> (\<exists>as. pchain (ps_bufs (ts_pb w)) (Some a) as)"
    by (simp_all add: owned_def)
  then show ?thesis by (auto simp: stack_buf_def)
qed

lemma recv_handler_closes:
  assumes ok: "bridge_ok w (add_mset p R) S" and i: "i < MAX_CONNS" "c_active (g_conns (ts_app w) ! i)" "c_pcb (g_conns (ts_app w) ! i) = Some pcb"
    and f: "g_recv cbs = Some f" "\<And>d. f (of_nat i) d = Call_close (of_nat i) Return" "\<And>k n. malloc_ok cbs k n"
    and len: "pbuf_copy_partial (ts_pb w) (Some p) tot 0 = Some (tot, d)"
  shows "\<exists>w1. call_g_recv cbs (of_nat i) p tot w = Some w1 \<and> bridge_ok w1 (add_mset p R) S \<and> ts_pcbs w1 pcb = None"
proof -
  have id: "unat (of_nat i :: u32) = i" using i(1) by (simp add: MAX_CONNS_def unat_of_nat)
  let ?w = "w\<lparr>ts_app := (ts_app w)\<lparr>g_mallocs := g_mallocs (ts_app w) + 1\<rparr>\<rparr>"
  have c: "conn_of_id (of_nat i) (ts_app ?w) = Some i" using i(1,2) id by (simp add: conn_of_id_Some)
  have "bridge_ok ?w (add_mset p R) S" "c_pcb (g_conns (ts_app ?w) ! i) = Some pcb" using ok i(3) by simp_all
  from lwip_bridge_close_spec [OF this(1) c this(2), of cbs] obtain w1 where
    "lwip_bridge_close cbs (of_nat i) ?w = Some w1" "bridge_ok w1 (add_mset p R) S" "without pcb ?w w1" by blast
  then show ?thesis using f len by (simp add: call_g_recv_def malloc_counted without_def)
qed

section \<open>A concrete connection\<close>

text \<open>The process after \<open>lwip_init\<close>, with a packet of 100 bytes and an established connection.\<close>

definition demo_booted :: "unit bstack" where
  "demo_booted = demo_process\<lparr>ts_pb := demo_memory\<lparr>ps_heap := mem_init (ps_heap demo_memory), ps_pools := memp_init (ps_pools demo_memory)\<rparr>\<rparr>"

lemma demo_booted_ok: "stack_ok demo_booted {#} {#}"
proof -
  note m = lwip_init_memory [OF demo_memory_placed]
  have "memory_ok demo_booted {#} {#}"
    using m by (simp add: memory_ok_def demo_booted_def all_refs_def all_elems_def netifs_ok_def demo_process_def demo_netif_def)
  moreover have "lists_ok demo_booted" by (simp add: lists_ok_def demo_booted_def demo_process_def tcp_pcb_lists_def)
  ultimately show ?thesis by (simp add: stack_ok_def)
qed

lemma demo_packet: "\<exists>p pb. pbuf_alloc PBUF_RAW 100 PBUF_RAM (ts_pb demo_booted) = Some (Some p, pb)
    \<and> ps_bufs pb = [p \<mapsto> new_pbuf (p + 24) 100 100 PBUF_RAM] \<and> stack_ok (demo_booted\<lparr>ts_pb := pb\<rparr>) {#p#} {#}"
proof -
  let ?pb = "ts_pb demo_booted"
  have h: "ps_heap ?pb = mem_init (ps_heap demo_memory)" "ps_bufs ?pb = Map.empty" "ps_ram ?pb = 0"
    by (simp_all add: demo_booted_def demo_memory_def)
  have "first_fit (max 124 12) [(0, False)] = Some 0" by (simp add: mem_consts)
  from mem_malloc_found [OF heap_inv_init _ refl _ this, of "ps_heap demo_memory"]
  obtain k h' where k: "mem_malloc (ps_heap ?pb) 124 = Some (Some k, h')"
    unfolding h(1) by (auto simp: mem_consts)
  define pb where "pb = ?pb\<lparr>ps_heap := h', ps_bufs := [k \<mapsto> new_pbuf (k + 24) 100 100 PBUF_RAM]\<rparr>"
  have al: "pbuf_alloc PBUF_RAW 100 PBUF_RAM ?pb = Some (Some k, pb)"
    using k h by (simp add: pbuf_alloc_def SIZEOF_STRUCT_PBUF_def init_alloced_eq Let_def pb_def)
  note o = stack_okD [OF demo_booted_ok]
  have e: "all_refs (ts_pcbs demo_booted) = {#}" "all_elems (ts_pcbs demo_booted) = {#}"
    by (simp_all add: demo_booted_def demo_process_def all_refs_def all_elems_def)
  from alloc_ram_ok [OF o(2), of PBUF_RAW 100] al e have m: "mem_ok pb {#k#} {#}" "pcb_pools ?pb pb" by (auto simp: own_next_def)
  have "memory_ok (demo_booted\<lparr>ts_pb := pb\<rparr>) {#k#} {#}"
    using demo_booted_ok m e pool_holds_cong [of pb ?pb] pcb_layout_pools [OF m(2)]
    by (auto simp: stack_ok_def memory_ok_def netifs_ok_def pcb_pools_def)
  moreover have "lists_ok (demo_booted\<lparr>ts_pb := pb\<rparr>)" using o(5) by simp
  ultimately show ?thesis using al by (auto simp: stack_ok_def pb_def)
qed

definition demo_cbs :: "(u32 \<Rightarrow> u8 list \<Rightarrow> unit handler) option \<Rightarrow> unit bridge_cbs" where
  "demo_cbs f = \<lparr>g_output = None, g_accept = None, g_recv = f, g_close = None, g_sent = None, malloc_ok = \<lambda>_ _. True\<rparr>"

lemma demo_unaccepted: "\<exists>w pcb b p. bridge_ok (w :: unit bstack) {#p#} {#} \<and> ts_pcbs w pcb = Some b \<and> t_errf b = None \<and> t_state b = ESTABLISHED
    \<and> ps_bufs (ts_pb w) = [p \<mapsto> new_pbuf (p + 24) 100 100 PBUF_RAM] \<and> ts_netifs w = ts_netifs demo_booted
    \<and> b = (new_pcb TCP_PRIO_NORMAL 0 0)\<lparr>t_state := ESTABLISHED, t_remote_ip := 7, t_remote_port := 80\<rparr>"
proof -
  obtain p pb where p: "ps_bufs pb = [p \<mapsto> new_pbuf (p + 24) 100 100 PBUF_RAM]" "stack_ok (demo_booted\<lparr>ts_pb := pb\<rparr>) {#p#} {#}"
    using demo_packet by blast
  let ?w = "demo_booted\<lparr>ts_pb := pb\<rparr>"
  have e: "ts_pcbs ?w = Map.empty" "tcp_ticks ?w = 0" "tcp_timer_ctr ?w = 0" by (simp_all add: demo_booted_def demo_process_def)
  let ?b = "new_pcb TCP_PRIO_NORMAL 0 0"
  from tcp_new_ok [OF p(2), of undefined] e obtain a pb2 where
    a: "stack_ok (init_pcb a TCP_PRIO_NORMAL (?w\<lparr>ts_pb := pb2\<rparr>)) {#p#} {#}" and bufs: "ps_bufs pb2 = ps_bufs pb"
    by (auto simp: MEMP_NUM_TCP_PCB_def)
  let ?w1 = "init_pcb a TCP_PRIO_NORMAL (?w\<lparr>ts_pb := pb2\<rparr>)"
  have b: "ts_pcbs ?w1 a = Some ?b" "t_state ?b = CLOSED" "t_local_port ?b = 0"
    using e by (simp_all add: init_pcb_def new_pcb_def)
  let ?b' = "?b\<lparr>t_state := ESTABLISHED, t_remote_ip := 7, t_remote_port := 80\<rparr>"
  let ?w2 = "relisted ?w1 L_active a ?b'"
  have "stack_ok ?w2 {#p#} {#}"
    by (rule stack_ok_relisted [OF a b]) (simp_all add: new_pcb_def pcb_segs_def queueless_def)
  moreover have "conns_ok (ts_pcbs ?w2) conns_clear" "ts_pcbs ?w2 = [a \<mapsto> ?b']" "t_errf ?b' = None" "ts_pb ?w2 = pb2"
    using e by (auto simp: relisted_def init_pcb_def conns_ok_def conns_clear_def new_pcb_def)
  moreover have "g_conns (ts_app ?w2) = conns_clear" "g_nat (ts_app ?w2) = nat_clear"
    by (simp_all add: relisted_def init_pcb_def demo_booted_def demo_process_def)
  moreover have "ts_netifs ?w2 = ts_netifs demo_booted" by (simp add: relisted_def init_pcb_def)
  ultimately show ?thesis using nat_clear_wf bufs p(1)
    by (intro exI [of _ ?w2] exI [of _ a] exI [of _ ?b'] exI [of _ p]) (simp add: bridge_ok_def tables_wf_def conns_clear_def)
qed

section \<open>Properties\<close>

text \<open>
  C6: A new connection always finds a free slot (there are fewer PCBs than slots): the accept
  callback registers the PCB in a slot that was free, with the destination the NAT table has for
  the client, points the PCB to that slot and to the callbacks of the bridge, and only then calls
  the accept handler of the tunnel; the invariant holds when it does, and no other connection
  is touched.
\<close>

theorem tcp_accept_cb_registers:
  assumes "bridge_ok w R S" "ts_pcbs w pcb = Some b" "t_errf b = None"
  shows "\<exists>i w1. tcp_accept_cb cbs arg (Some pcb) ERR_OK w
      = map_option (\<lambda>w. (ERR_OK, w)) (case g_accept cbs of None \<Rightarrow> Some w1 | Some f \<Rightarrow> run_handler cbs (f (of_nat i)) w1)
    \<and> i < MAX_CONNS \<and> conn_of_id (of_nat i) (ts_app w) = None \<and> bridge_ok w1 R S \<and> ts_pcbs w1 = (ts_pcbs w)(pcb \<mapsto> attach i b)
    \<and> conn_of_id (of_nat i) (ts_app w1) = Some i
    \<and> g_conns (ts_app w1) ! i = \<lparr>c_pcb = Some pcb, c_dc_ip = nat_lookup (g_nat (ts_app w)) (t_remote_ip b) (t_remote_port b),
        c_client_ip = t_remote_ip b, c_client_port = t_remote_port b, c_active = True\<rparr>
    \<and> (\<forall>j. j \<noteq> of_nat i \<longrightarrow> conn_of_id j (ts_app w1) = conn_of_id j (ts_app w))"
  using accept_attach [OF assms] by blast

theorem tcp_accept_cb_registers_witness:
  "\<exists>(w :: unit bstack) pcb b p w1. ts_pcbs w pcb = Some b \<and> tcp_accept_cb (demo_cbs None) 0 (Some pcb) ERR_OK w = Some (ERR_OK, w1)
    \<and> bridge_ok w1 {#p#} {#}"
proof -
  obtain w :: "unit bstack" and pcb b p where w: "bridge_ok w {#p#} {#}" "ts_pcbs w pcb = Some b" "t_errf b = None"
    using demo_unaccepted by blast
  from tcp_accept_cb_registers [OF w, of "demo_cbs None" 0] obtain w1 where
    "tcp_accept_cb (demo_cbs None) 0 (Some pcb) ERR_OK w = Some (ERR_OK, w1)" "bridge_ok w1 {#p#} {#}"
    by (auto simp: demo_cbs_def)
  then show ?thesis using w(2) by blast
qed

lemma demo_connected: "\<exists>w pcb i p. bridge_ok (w :: unit bstack) {#p#} {#} \<and> i < MAX_CONNS \<and> c_active (g_conns (ts_app w) ! i)
    \<and> c_pcb (g_conns (ts_app w) ! i) = Some pcb"
proof -
  obtain w :: "unit bstack" and pcb b p where w: "bridge_ok w {#p#} {#}" "ts_pcbs w pcb = Some b" "t_errf b = None"
    using demo_unaccepted by blast
  from accept_attach [OF w, of "demo_cbs None" 0] obtain i and w1 :: "unit bstack" where "i < MAX_CONNS" "bridge_ok w1 {#p#} {#}"
    "g_conns (ts_app w1) ! i = \<lparr>c_pcb = Some pcb, c_dc_ip = nat_lookup (g_nat (ts_app w)) (t_remote_ip b) (t_remote_port b),
        c_client_ip = t_remote_ip b, c_client_port = t_remote_port b, c_active = True\<rparr>" by blast
  then show ?thesis by (intro exI [of _ w1] exI [of _ pcb] exI [of _ i] exI [of _ p]) simp
qed

text \<open>
  C7: \<open>lwip_bridge_close\<close> of a connection returns and frees exactly that connection: its PCB is
  gone from every list and its memory is back in the pools, its slot is free and its NAT mapping
  removed, every other connection, mapping and PCB is as before, and the invariant holds, so
  nothing is leaked and nothing freed twice.
\<close>

theorem lwip_bridge_close_frees:
  assumes "bridge_ok w R S" "conn_of_id conn_id (ts_app w) = Some i" "c_pcb (g_conns (ts_app w) ! i) = Some pcb"
  shows "\<exists>w'. lwip_bridge_close cbs conn_id w = Some w' \<and> bridge_ok w' R S \<and> without pcb w w'
    \<and> (\<forall>j. conn_of_id j (ts_app w') = (if j = conn_id then None else conn_of_id j (ts_app w)))
    \<and> nat_abs (g_nat (ts_app w')) = (nat_abs (g_nat (ts_app w)))
         ((c_client_ip (g_conns (ts_app w) ! i), c_client_port (g_conns (ts_app w) ! i)) := None)"
  by (rule lwip_bridge_close_spec [OF assms])

theorem lwip_bridge_close_frees_witness:
  "\<exists>(w :: unit bstack) conn_id i w'. conn_of_id conn_id (ts_app w) = Some i \<and> lwip_bridge_close (demo_cbs None) conn_id w = Some w'
    \<and> conn_of_id conn_id (ts_app w') = None"
proof -
  obtain w :: "unit bstack" and pcb i p where w: "bridge_ok w {#p#} {#}" "i < MAX_CONNS" "c_active (g_conns (ts_app w) ! i)"
    "c_pcb (g_conns (ts_app w) ! i) = Some pcb" using demo_connected by blast
  have c: "conn_of_id (of_nat i) (ts_app w) = Some i" using w(2,3) by (simp add: conn_of_id_Some MAX_CONNS_def unat_of_nat)
  from lwip_bridge_close_frees [OF w(1) c w(4), of "demo_cbs None"] obtain w' where
    "lwip_bridge_close (demo_cbs None) (of_nat i) w = Some w'" "conn_of_id (of_nat i) (ts_app w') = None" by auto
  with c show ?thesis by blast
qed

text \<open>
  C9: When the client closes its connection, the receive callback reports it to the tunnel and
  ends the connection in the same way; it returns \<open>ERR_ABRT\<close>, which tells lwIP not to touch the PCB.
\<close>

theorem tcp_recv_cb_fin:
  assumes "bridge_ok w R S" "i < MAX_CONNS" "c_active (g_conns (ts_app w) ! i)" "c_pcb (g_conns (ts_app w) ! i) = Some pcb"
  shows "\<exists>w'. tcp_recv_cb cbs i pcb None ERR_OK w = Some (ERR_ABRT, w') \<and> bridge_ok w' R S \<and> without pcb w w'
    \<and> (\<forall>j. conn_of_id j (ts_app w') = (if j = of_nat i then None else conn_of_id j (ts_app w)))
    \<and> nat_abs (g_nat (ts_app w')) = (nat_abs (g_nat (ts_app w)))
         ((c_client_ip (g_conns (ts_app w) ! i), c_client_port (g_conns (ts_app w) ! i)) := None)"
  by (rule recv_fin_ok [OF assms])

theorem tcp_recv_cb_fin_witness:
  "\<exists>(w :: unit bstack) pcb i w'. tcp_recv_cb (demo_cbs None) i pcb None ERR_OK w = Some (ERR_ABRT, w') \<and> ts_pcbs w' pcb = None"
proof -
  obtain w :: "unit bstack" and pcb i p where w: "bridge_ok w {#p#} {#}" "i < MAX_CONNS" "c_active (g_conns (ts_app w) ! i)"
    "c_pcb (g_conns (ts_app w) ! i) = Some pcb" using demo_connected by blast
  from tcp_recv_cb_fin [OF w, of "demo_cbs None"] obtain w' where
    "tcp_recv_cb (demo_cbs None) i pcb None ERR_OK w = Some (ERR_ABRT, w')" "ts_pcbs w' pcb = None" by (auto simp: without_def)
  then show ?thesis by blast
qed

text \<open>
  C16: A tunnel that calls \<open>lwip_bridge_close\<close> for a connection from the receive handler of that
  connection (as \<open>TunnelSession.handleData\<close> does when the handshake is refused) leaves
  \<open>tcp_recv_cb\<close> with a freed PCB, which it then passes to \<open>tcp_recved\<close>: the handler returns in a sound
  state without that PCB, and the callback has no defined behaviour from there on.
\<close>

theorem tcp_recv_cb_close_in_handler:
  assumes "bridge_ok w (add_mset p R) S" "i < MAX_CONNS" "c_active (g_conns (ts_app w) ! i)" "c_pcb (g_conns (ts_app w) ! i) = Some pcb"
    and "g_recv cbs = Some f" "\<And>d. f (of_nat i) d = Call_close (of_nat i) Return" "\<And>k n. malloc_ok cbs k n"
    and "stack_buf w p = Some b" "pbuf_copy_partial (ts_pb w) (Some p) (p_tot_len b) 0 = Some (p_tot_len b, d)"
  shows "\<exists>w1. call_g_recv cbs (of_nat i) p (p_tot_len b) w = Some w1 \<and> bridge_ok w1 (add_mset p R) S \<and> ts_pcbs w1 pcb = None
    \<and> tcp_recv_cb cbs i pcb (Some p) ERR_OK w = None"
proof -
  from recv_handler_closes [OF assms(1-7,9)] obtain w1 where
    w1: "call_g_recv cbs (of_nat i) p (p_tot_len b) w = Some w1" "bridge_ok w1 (add_mset p R) S" "ts_pcbs w1 pcb = None" by blast
  then have "tcp_recved (out_env cbs) (Some pcb) n w1 = None" for n by (simp add: tcp_recved_def pcb_upd_def)
  then have "tcp_recv_cb cbs i pcb (Some p) ERR_OK w = None"
    using w1(1) assms(8) by (auto simp: tcp_recv_cb_def Let_def bind_eq_None_conv)
  with w1 show ?thesis by blast
qed

theorem tcp_recv_cb_close_in_handler_witness:
  "\<exists>(w :: unit bstack) pcb i p. tcp_recv_cb (demo_cbs (Some (\<lambda>conn_id _. Call_close conn_id Return))) i pcb (Some p) ERR_OK w = None"
proof -
  let ?c = "demo_cbs (Some (\<lambda>conn_id _. Call_close conn_id Return))"
  obtain w :: "unit bstack" and pcb b p where w: "bridge_ok w {#p#} {#}" "ts_pcbs w pcb = Some b" "t_errf b = None"
    "ps_bufs (ts_pb w) = [p \<mapsto> new_pbuf (p + 24) 100 100 PBUF_RAM]" using demo_unaccepted by blast
  from accept_attach [OF w(1-3), of ?c 0] obtain i and w1 :: "unit bstack" where i: "i < MAX_CONNS" "bridge_ok w1 {#p#} {#}" "ts_pb w1 = ts_pb w"
    "g_conns (ts_app w1) ! i = \<lparr>c_pcb = Some pcb, c_dc_ip = nat_lookup (g_nat (ts_app w)) (t_remote_ip b) (t_remote_port b),
        c_client_ip = t_remote_ip b, c_client_port = t_remote_port b, c_active = True\<rparr>" by blast
  let ?q = "new_pbuf (p + 24) 100 100 PBUF_RAM"
  have q: "pchain (ps_bufs (ts_pb w1)) (Some p) [p]" "stack_buf w1 p = Some ?q" "p_tot_len ?q = 100" "length (flat (ts_pb w1) [p]) = 100"
    using w(4) i(3) by (simp_all add: stack_buf_def new_pbuf_def flat_def rd_bytes_def)
  from pbuf_copy_loop_spec [OF q(1), of 100 0 0 "[]"] q(4) have
    "pbuf_copy_partial (ts_pb w1) (Some p) (p_tot_len ?q) 0 = Some (p_tot_len ?q, flat (ts_pb w1) [p])"
    by (simp add: pbuf_copy_partial_def q(3))
  from tcp_recv_cb_close_in_handler [OF i(2,1) _ _ _ _ _ q(2) this, of pcb ?c] i(4) show ?thesis
    by (auto simp: demo_cbs_def)
qed

end
