(* ===== verification/Tcp_Facts.thy ===== *)
theory Tcp_Facts
  imports Bridge_Conn
begin

text \<open>
  Facts about single routines of the stack: local ports, the receive window, the options of a
  segment, the control blocks in TIME-WAIT and the fragments of a datagram.
\<close>

section \<open>Local ports\<close>

declare new_port_loop.simps [simp del]

text \<open>The ports \<open>tcp_new_port\<close> hands out, in a cycle.\<close>

definition ephemeral :: "u16 \<Rightarrow> bool" where
  "ephemeral p \<longleftrightarrow> TCP_LOCAL_PORT_RANGE_START \<le> p \<and> p < TCP_LOCAL_PORT_RANGE_END"

definition cycle_port :: "nat \<Rightarrow> u16" where
  "cycle_port k = of_nat (0xc000 + k mod 0x3fff)"

lemma unat_cycle_port: "unat (cycle_port k) = 0xc000 + k mod 0x3fff"
proof -
  have "k mod 0x3fff < 0x3fff" by simp
  then show ?thesis unfolding cycle_port_def by (simp only: unat_of_nat) simp
qed

lemma ephemeral_cycle [simp]: "ephemeral (cycle_port k)" "cycle_port k \<noteq> 0"
proof -
  have "k mod 0x3fff < 0x3fff" by simp
  then show "ephemeral (cycle_port k)"
    by (simp add: ephemeral_def TCP_LOCAL_PORT_RANGE_START_def TCP_LOCAL_PORT_RANGE_END_def word_le_nat_alt word_less_nat_alt unat_cycle_port)
  show "cycle_port k \<noteq> 0" using unat_cycle_port [of k] by auto
qed

lemma cycle_port_of:
  assumes "ephemeral p"
  shows "p = cycle_port (unat p - 0xc000)"
proof -
  have "0xc000 \<le> unat p" "unat p < 0xffff"
    using assms by (simp_all add: ephemeral_def TCP_LOCAL_PORT_RANGE_START_def TCP_LOCAL_PORT_RANGE_END_def word_le_nat_alt word_less_nat_alt)
  then show ?thesis by (simp add: word_unat_eq_iff unat_cycle_port)
qed

lemma next_port_cycle: "next_port (cycle_port k) = cycle_port (Suc k)"
proof -
  have k: "k mod 0x3fff < 0x3fff" by simp
  have u: "unat (cycle_port k + 1) = 0xc000 + k mod 0x3fff + 1"
    using k by (simp add: unat_word_ariths unat_cycle_port)
  have e: "cycle_port k + 1 = 0xffff \<longleftrightarrow> Suc (k mod 0x3fff) = 0x3fff"
    using u by (auto simp: word_unat_eq_iff)
  have m: "Suc k mod 0x3fff = (if Suc (k mod 0x3fff) = 0x3fff then 0 else Suc (k mod 0x3fff))" by (rule mod_Suc)
  show ?thesis
    using e m u by (simp add: next_port_def TCP_LOCAL_PORT_RANGE_START_def TCP_LOCAL_PORT_RANGE_END_def word_unat_eq_iff unat_cycle_port)
qed

lemma new_port_loop_spec:
  assumes "new_port_loop used n (cycle_port k) = (r, q)" "n \<le> 0x3fff"
  shows "ephemeral q \<and> (if r = 0 then \<forall>j \<in> {1..0x4000 - n}. used (cycle_port (k + j)) else r = q \<and> \<not> used q)"
  using assms
proof (induction "0x4000 - n" arbitrary: n k)
  case (Suc m)
  let ?p = "cycle_port (Suc k)"
  have e: "new_port_loop used n (cycle_port k) = (if used ?p then if n + 1 > 0x3fff then (0, ?p) else new_port_loop used (n + 1) ?p else (?p, ?p))"
    by (subst new_port_loop.simps) (simp add: next_port_cycle Let_def)
  consider "\<not> used ?p" | "used ?p" "n = 0x3fff" | "used ?p" "n < 0x3fff" using Suc(4) by linarith
  then show ?case
  proof cases
    case 3
    then have "new_port_loop used (n + 1) ?p = (r, q)" "m = 0x4000 - (n + 1)" "n + 1 \<le> 0x3fff" using Suc(2,3) e by simp_all
    from Suc(1) [OF this(2,1,3)] have i: "ephemeral q \<and> (if r = 0 then \<forall>j \<in> {1..0x4000 - (n + 1)}. used (cycle_port (Suc k + j)) else r = q \<and> \<not> used q)" .
    have "used (cycle_port (k + j))" if j: "j \<in> {1..0x4000 - n}" "r = 0" for j
    proof (cases "j = 1")
      case True
      then show ?thesis using 3 by simp
    next
      case False
      then have "j - 1 \<in> {1..0x4000 - (n + 1)}" "k + j = Suc k + (j - 1)" using j by auto
      then show ?thesis using i j(2) by metis
    qed
    then show ?thesis using i by auto
  qed (use e Suc(3) in auto)
qed simp

lemma mod_shift: "0 < m \<Longrightarrow> (k + (i + (m - k mod m))) mod m = i mod (m :: nat)"
proof -
  assume "0 < m"
  then have l: "k mod m < m" by simp
  have "m * (k div m + 1) = m * (k div m) + m" by simp
  then have "k + (i + (m - k mod m)) = i + m * (k div m + 1)" using mult_div_mod_eq [of m k] l by linarith
  then show ?thesis by (metis mod_mult_self2)
qed

lemma cycle_port_within: "\<exists>j \<in> {1..0x4000}. cycle_port i = cycle_port (k + j)"
proof -
  define d where "d = (i + (0x3fff - k mod 0x3fff)) mod 0x3fff"
  define j where "j = (if d = 0 then 0x3fff else d)"
  have "(k + d) mod 0x3fff = i mod 0x3fff" using mod_shift [of "0x3fff" k i] by (simp add: d_def mod_add_right_eq)
  then have "(k + j) mod 0x3fff = i mod 0x3fff" by (cases "d = 0") (simp_all add: j_def)
  moreover have "d < 0x3fff" by (simp add: d_def)
  then have "j \<in> {1..0x4000}" by (simp add: j_def)
  ultimately show ?thesis by (intro bexI [of _ j]) (simp_all add: cycle_port_def)
qed

text \<open>
  C34: When the counter is in the range of the ephemeral ports (\<open>tcp_init\<close> may also start it at the end
  of the range, 0xffff, which is outside), \<open>tcp_new_port\<close> returns a port of
  that range no PCB uses, and 0 only when every port of the range is in use; the counter stays
  in the range.
\<close>

theorem tcp_new_port_free:
  assumes "ephemeral (tcp_port w)" "tcp_new_port w = (r, w')"
  shows "ephemeral (tcp_port w') \<and> (if r = 0 then \<forall>p. ephemeral p \<longrightarrow> port_in_use w p else ephemeral r \<and> \<not> port_in_use w r \<and> tcp_port w' = r)
    \<and> w'\<lparr>tcp_port := tcp_port w\<rparr> = w"
proof -
  obtain q where q: "new_port_loop (port_in_use w) 0 (tcp_port w) = (r, q)" "w' = w\<lparr>tcp_port := q\<rparr>"
    using assms(2) by (auto simp: tcp_new_port_def Let_def split: prod.splits)
  define k where "k = unat (tcp_port w) - 0xc000"
  have "new_port_loop (port_in_use w) 0 (cycle_port k) = (r, q)" using q(1) cycle_port_of [OF assms(1)] by (simp add: k_def)
  note s = new_port_loop_spec [OF this, simplified]
  have "port_in_use w p" if r: "r = 0" and p: "ephemeral p" for p
  proof -
    obtain j where "j \<in> {1..0x4000}" "p = cycle_port (k + j)"
      using cycle_port_within [of "unat p - 0xc000" k] cycle_port_of [OF p] by auto
    then show ?thesis using s r by simp
  qed
  then show ?thesis using s q(2) by (auto split: if_splits)
qed

theorem tcp_new_port_free_witness:
  "let w = demo_process\<lparr>tcp_port := 0xfffe\<rparr>; (r, w') = tcp_new_port w in ephemeral (tcp_port w) \<and> r = 0xc000 \<and> ephemeral (tcp_port w')"
proof -
  let ?w = "demo_process\<lparr>tcp_port := 0xfffe\<rparr>"
  have e: "ephemeral (tcp_port ?w)" by (simp add: ephemeral_def TCP_LOCAL_PORT_RANGE_START_def TCP_LOCAL_PORT_RANGE_END_def)
  have n: "tcp_new_port ?w = (0xc000, ?w\<lparr>tcp_port := 0xc000\<rparr>)"
    by (simp add: tcp_new_port_def new_port_loop.simps [of _ 0] next_port_def TCP_LOCAL_PORT_RANGE_START_def TCP_LOCAL_PORT_RANGE_END_def
        port_in_use_def tcp_pcb_lists_def demo_process_def)
  show ?thesis using tcp_new_port_free [OF e n] e n by simp
qed

section \<open>The receive window\<close>

text \<open>What has been announced to the peer fits into the window: the right edge is not beyond it.\<close>

definition announced_fits :: "tcp_pcb \<Rightarrow> bool" where
  "announced_fits b \<longleftrightarrow> t_rcv_ann_right_edge b - t_rcv_nxt b \<le> ucast (t_rcv_wnd b)"

lemma grow_rcv_wnd_saturates: "unat (t_rcv_wnd (grow_rcv_wnd len b)) = min 65535 (unat (t_rcv_wnd b) + unat len)"
proof -
  have w: "unat (t_rcv_wnd b) < 65536" "unat len < 65536" using unsigned_less [of "t_rcv_wnd b"] unsigned_less [of len] by simp_all
  show ?thesis
  proof (cases "unat (t_rcv_wnd b) + unat len < 65536")
    case True
    then have "unat (t_rcv_wnd b + len) = unat (t_rcv_wnd b) + unat len" by (simp add: unat_word_ariths)
    then show ?thesis using True by (simp add: grow_rcv_wnd_def Let_def TCP_WND_def word_less_nat_alt)
  next
    case False
    then have "unat (t_rcv_wnd b + len) = unat (t_rcv_wnd b) + unat len - 65536"
      using w by (simp add: unat_word_ariths mod_if)
    moreover have "unat (t_rcv_wnd b) + unat len - 65536 < unat (t_rcv_wnd b)" using False w by linarith
    ultimately have "t_rcv_wnd b + len < t_rcv_wnd b" by (simp add: word_less_nat_alt)
    then show ?thesis using False by (simp add: grow_rcv_wnd_def TCP_WND_def)
  qed
qed

lemma seq_small_not_negative:
  assumes "d \<le> 0xffff"
  shows "(d :: u32) AND 0x80000000 = 0"
proof -
  have "unat d < 2 ^ 16" using assms by (simp add: word_le_nat_alt)
  then have "take_bit 16 d = d" by (simp add: word_unat_eq_iff unsigned_take_bit_eq take_bit_nat_eq_self)
  then have m: "d AND mask 16 = d" by (simp only: take_bit_eq_mask)
  have "(d AND mask 16) AND 0x80000000 = 0" by (simp add: and.assoc mask_eq_exp_minus_1)
  then show ?thesis by (simp only: m)
qed

lemma update_rcv_ann_wnd_spec:
  assumes "announced_fits b"
  shows "let b' = snd (update_rcv_ann_wnd b) in t_rcv_ann_wnd b' \<le> t_rcv_wnd b
    \<and> t_rcv_ann_right_edge b - t_rcv_nxt b \<le> ucast (t_rcv_ann_wnd b') \<and> t_rcv_wnd b' = t_rcv_wnd b"
proof -
  let ?d = "t_rcv_ann_right_edge b - t_rcv_nxt b"
  have u: "unat (ucast (t_rcv_wnd b) :: u32) = unat (t_rcv_wnd b)" by (rule unat_u16_ucast)
  have d: "unat ?d \<le> unat (t_rcv_wnd b)" using assms u by (simp add: announced_fits_def word_le_nat_alt)
  have w: "unat (t_rcv_wnd b) < 65536" using unsigned_less [of "t_rcv_wnd b"] by simp
  have g: "\<not> TCP_SEQ_GT (t_rcv_nxt b) (t_rcv_ann_right_edge b)"
    using seq_small_not_negative [of ?d] d w by (simp add: TCP_SEQ_GT_def TCP_SEQ_LT_def word_le_nat_alt)
  have c: "unat (ucast ?d :: u16) = unat ?d" using d w by (simp add: unsigned_ucast_eq take_bit_nat_eq_self)
  have "ucast (ucast ?d :: u16) = ?d" using c by (simp add: word_unat_eq_iff unat_u16_ucast)
  then show ?thesis
    using assms g d c by (auto simp: update_rcv_ann_wnd_def Let_def announced_fits_def word_le_nat_alt)
qed

text \<open>
  C35: After the application has taken \<open>len\<close> bytes the receive window has grown by \<open>len\<close>, capped at
  its maximum; the window announced next is never larger than the receive window, and it never
  takes back what has been announced before.
\<close>

theorem recved_window:
  assumes "announced_fits b"
  shows "let b' = snd (update_rcv_ann_wnd (grow_rcv_wnd len b)) in
    unat (t_rcv_wnd b') = min 65535 (unat (t_rcv_wnd b) + unat len)
    \<and> t_rcv_ann_wnd b' \<le> t_rcv_wnd b'
    \<and> t_rcv_ann_right_edge b - t_rcv_nxt b \<le> ucast (t_rcv_ann_wnd b')"
proof -
  let ?b = "grow_rcv_wnd len b"
  note g = grow_rcv_wnd_saturates [of len b]
  have w: "unat (t_rcv_wnd b) < 65536" using unsigned_less [of "t_rcv_wnd b"] by simp
  have s: "t_rcv_ann_right_edge ?b = t_rcv_ann_right_edge b" "t_rcv_nxt ?b = t_rcv_nxt b" by (simp_all add: grow_rcv_wnd_def Let_def)
  have "announced_fits ?b" using assms g s w by (simp add: announced_fits_def word_le_nat_alt unat_u16_ucast)
  from update_rcv_ann_wnd_spec [OF this] show ?thesis using g s by (simp add: Let_def)
qed

theorem recved_window_witness:
  "let b = (new_pcb TCP_PRIO_NORMAL 0 0)\<lparr>t_rcv_nxt := 5000, t_rcv_wnd := 60000, t_rcv_ann_right_edge := 65000\<rparr> in
    announced_fits b \<and> t_rcv_wnd (snd (update_rcv_ann_wnd (grow_rcv_wnd 9000 b))) = 65535"
proof -
  let ?b = "(new_pcb TCP_PRIO_NORMAL 0 0)\<lparr>t_rcv_nxt := 5000, t_rcv_wnd := 60000, t_rcv_ann_right_edge := 65000\<rparr>"
  have a: "announced_fits ?b" by (simp add: announced_fits_def)
  from recved_window [OF this, of 9000] have "unat (t_rcv_wnd (snd (update_rcv_ann_wnd (grow_rcv_wnd 9000 ?b)))) = 65535"
    by (simp add: Let_def)
  then show ?thesis using a by (simp add: word_unat_eq_iff)
qed

section \<open>Options\<close>

lemma parseopt_loop_returns:
  assumes "unat (in_optlen (ts_in w)) \<le> 40"
  shows "\<exists>m k. parseopt_loop w idx mss = Some (m, k) \<and> (m = mss \<or> 0 < m \<and> m \<le> TCP_MSS)"
proof (induction "40 - unat idx" arbitrary: idx mss rule: less_induct)
  case less
  show ?case
  proof (cases "idx < in_optlen (ts_in w)")
    case True
    have i: "unat idx < 40" using True assms by (simp add: word_less_nat_alt)
    have d: "unat (optbyte w (idx + 1)) < 256" using unsigned_less [of "optbyte w (idx + 1)"] by simp
    have adv: "unat (idx + 1) = unat idx + 1" "unat (idx + 1 + 3) = unat idx + 4" using i by (simp_all add: unat_word_ariths)
    have skip: "unat (idx + 1 + 1 + ucast (optbyte w (idx + 1)) - 2) = unat idx + unat (optbyte w (idx + 1))"
      using i d by (simp add: unat_word_ariths unat_u8_ucast)
    have IH: "\<exists>m k. parseopt_loop w idx' mss' = Some (m, k) \<and> (m = mss' \<or> 0 < m \<and> m \<le> TCP_MSS)"
      if "unat idx < unat idx'" for idx' mss' using less(1) [of idx' mss'] that i by simp
    have m: "0 < (if m > TCP_MSS \<or> m = 0 then TCP_MSS else m) \<and> (if m > TCP_MSS \<or> m = 0 then TCP_MSS else m) \<le> TCP_MSS" for m
      by (auto simp: TCP_MSS_def word_gt_0 not_less)
    let ?mss = "let m = push_bit 8 (ucast (optbyte w (idx + 1 + 1))) OR ucast (optbyte w (idx + 1 + 2))
      in if m > TCP_MSS \<or> m = 0 then TCP_MSS else m"
    have mss: "0 < ?mss \<and> ?mss \<le> TCP_MSS" unfolding Let_def by (rule m)
    have eq: "parseopt_loop w idx mss =
        (if optbyte w idx = LWIP_TCP_OPT_EOL then Some (mss, idx + 1)
         else if optbyte w idx = LWIP_TCP_OPT_NOP then parseopt_loop w (idx + 1) mss
         else if optbyte w idx = LWIP_TCP_OPT_MSS then
           if optbyte w (idx + 1) \<noteq> LWIP_TCP_OPT_LEN_MSS \<or> unat (idx + 1) + 1 - 2 + 4 > unat (in_optlen (ts_in w)) then Some (mss, idx + 1 + 1)
           else parseopt_loop w (idx + 1 + 3) ?mss
         else if optbyte w (idx + 1) < 2 then Some (mss, idx + 1 + 1)
         else parseopt_loop w (idx + 1 + 1 + ucast (optbyte w (idx + 1)) - 2) mss)"
      by (simp only: parseopt_loop.simps [of w idx mss] True if_True Let_def)
    have e: "parseopt_loop w idx mss = Some (mss, idx + 1) \<or> parseopt_loop w idx mss = Some (mss, idx + 1 + 1)
      \<or> parseopt_loop w idx mss = parseopt_loop w (idx + 1) mss \<or> parseopt_loop w idx mss = parseopt_loop w (idx + 1 + 3) ?mss
      \<or> 2 \<le> optbyte w (idx + 1)
          \<and> parseopt_loop w idx mss = parseopt_loop w (idx + 1 + 1 + ucast (optbyte w (idx + 1)) - 2) mss"
      using eq by (auto simp only: not_less split: if_splits)
    show ?thesis using e
    proof (elim disjE conjE)
      assume "parseopt_loop w idx mss = parseopt_loop w (idx + 1 + 3) ?mss"
      moreover obtain m k where "parseopt_loop w (idx + 1 + 3) ?mss = Some (m, k)" "m = ?mss \<or> 0 < m \<and> m \<le> TCP_MSS"
        using IH [of "idx + 1 + 3" ?mss] adv(2) by (metis less_add_same_cancel1 zero_less_numeral)
      ultimately show ?thesis using mss by metis
    next
      assume "2 \<le> optbyte w (idx + 1)"
        "parseopt_loop w idx mss = parseopt_loop w (idx + 1 + 1 + ucast (optbyte w (idx + 1)) - 2) mss"
      then show ?thesis using IH [of "idx + 1 + 1 + ucast (optbyte w (idx + 1)) - 2" mss] skip by (simp add: word_le_nat_alt)
    qed (use IH [of "idx + 1" mss] adv(1) in simp_all)
  next
    case False
    then show ?thesis by (subst parseopt_loop.simps) simp
  qed
qed

text \<open>
  C36: Parsing the options of a segment terminates, whatever bytes they hold (a TCP header has at
  most 40 bytes of options), and an MSS it accepts is between 1 and \<open>TCP_MSS\<close>; nothing else of
  the PCB changes.
\<close>

theorem tcp_parseopt_returns:
  assumes "unat (in_optlen (ts_in w)) \<le> 40" "ts_pcbs w pcb = Some b"
  shows "\<exists>w' mss. tcp_parseopt pcb w = Some w' \<and> ts_pcbs w' = (ts_pcbs w)(pcb \<mapsto> b\<lparr>t_mss := mss\<rparr>)
    \<and> (mss = t_mss b \<or> 0 < mss \<and> mss \<le> TCP_MSS)"
proof (cases "in_optlen (ts_in w) = 0")
  case True
  then show ?thesis using assms(2) by (intro exI [of _ w] exI [of _ "t_mss b"]) (simp add: tcp_parseopt_def fun_upd_idem)
next
  case False
  obtain m k where "parseopt_loop w 0 (t_mss b) = Some (m, k)" "m = t_mss b \<or> 0 < m \<and> m \<le> TCP_MSS"
    using parseopt_loop_returns [OF assms(1)] by blast
  then show ?thesis using False assms(2)
    by (intro exI [of _ "in_upd (\<lambda>v. v\<lparr>in_optidx := k\<rparr>) w\<lparr>ts_pcbs := (ts_pcbs w)(pcb \<mapsto> b\<lparr>t_mss := m\<rparr>)\<rparr>"] exI [of _ m])
       (simp add: tcp_parseopt_def pcb_upd_def in_upd_def)
qed

text \<open>A segment of 4 bytes of options that announces an MSS of 1400.\<close>

definition demo_options :: "unit bstack" where
  "demo_options = demo_process\<lparr>ts_pb := demo_memory\<lparr>ps_mem := (\<lambda>_. 0)(120 := 2, 121 := 4, 122 := 5, 123 := 120)\<rparr>,
     ts_in := (ts_in demo_process)\<lparr>in_hdr := 100, in_optlen := 4\<rparr>, ts_pcbs := [8 \<mapsto> new_pcb TCP_PRIO_NORMAL 0 0]\<rparr>"

theorem tcp_parseopt_returns_witness:
  "unat (in_optlen (ts_in demo_options)) \<le> 40 \<and> (\<exists>w' mss. tcp_parseopt 8 demo_options = Some w'
     \<and> ts_pcbs w' = [8 \<mapsto> (new_pcb TCP_PRIO_NORMAL 0 0)\<lparr>t_mss := mss\<rparr>] \<and> mss \<le> TCP_MSS)"
proof -
  have o: "unat (in_optlen (ts_in demo_options)) \<le> 40" "ts_pcbs demo_options = [8 \<mapsto> new_pcb TCP_PRIO_NORMAL 0 0]"
    by (simp_all add: demo_options_def)
  have n: "t_mss (new_pcb TCP_PRIO_NORMAL 0 0) \<le> TCP_MSS" by (simp add: new_pcb_def INITIAL_MSS_def TCP_MSS_def)
  have "ts_pcbs demo_options 8 = Some (new_pcb TCP_PRIO_NORMAL 0 0)" using o by simp
  from tcp_parseopt_returns [OF o(1) this] obtain w' mss where "tcp_parseopt 8 demo_options = Some w'"
    "ts_pcbs w' = [8 \<mapsto> (new_pcb TCP_PRIO_NORMAL 0 0)\<lparr>t_mss := mss\<rparr>]" "mss \<le> TCP_MSS" using n o(2) by auto
  then show ?thesis using o(1) by blast
qed

section \<open>TIME-WAIT\<close>

lemma tw_free_ok:
  assumes w: "stack_ok w R S" and b: "ts_pcbs w pcb = Some b" "t_state b = TIME_WAIT"
  shows "tcp_pcb_purge pcb w = Some w" "without pcb w (tcp_free pcb (TCP_RMV L_tw pcb w))" "stack_ok (tcp_free pcb (TCP_RMV L_tw pcb w)) R S"
proof -
  note l = lists_ok_pcb [OF stack_okD(5) [OF w] b(1)]
  let ?w = "TCP_RMV L_tw pcb w"
  show "tcp_pcb_purge pcb w = Some w" using b by (simp add: tcp_pcb_purge_def)
  have q: "pcb_segs b = []" "t_refused_data b = None" using l(5) b(2) by (simp_all add: queueless_def)
  have wo: "without pcb w (?w\<lparr>ts_pcbs := (ts_pcbs ?w)(pcb := None)\<rparr>)"
    using l(1,3) b(2) by (simp add: without_def TCP_RMV_def queueless_def remove1_idem)
  have m: "mem_ok (ts_pb ?w) (all_refs ((ts_pcbs w)(pcb := None)) + R) (all_elems ((ts_pcbs w)(pcb := None)) + S)"
    using stack_okD(2) [OF w] all_remove [OF stack_okD(1) [OF w] b(1)] queueless_nothing [OF q] by (simp add: TCP_RMV_def)
  have "pcb_pools (ts_pb w) (ts_pb ?w)" by (simp add: TCP_RMV_def)
  from freed_stack [OF w b(1) wo m this] show "without pcb w (tcp_free pcb ?w)" "stack_ok (tcp_free pcb ?w) R S" .
qed

lemma tw_loop_spec:
  assumes "stack_ok w R S" "set xs \<subseteq> set (tcp_tw_pcbs w)" "distinct xs"
  shows "\<exists>w'. tw_loop xs w = Some w' \<and> stack_ok w' R S
    \<and> (\<forall>a b. ts_pcbs w' a = Some b \<longleftrightarrow> ts_pcbs w a = Some b \<and> \<not> (a \<in> set xs \<and> tw_expired w b))"
  using assms
proof (induction xs arbitrary: w)
  case (Cons pcb xs)
  have "ts_pcbs w pcb \<noteq> None" using Cons(3) stack_okD(5) [OF Cons(2)] by (auto simp: lists_ok_def)
  then obtain b where b: "ts_pcbs w pcb = Some b" by blast
  have st: "t_state b = TIME_WAIT" using lists_ok_pcb(2) [OF stack_okD(5) [OF Cons(2)] b] Cons(3) by simp
  show ?case
  proof (cases "tw_expired w b")
    case True
    note f = tw_free_ok [OF Cons(2) b st]
    let ?w = "tcp_free pcb (TCP_RMV L_tw pcb w)"
    have t: "tw_expired ?w = tw_expired w" "ts_pcbs ?w = (ts_pcbs w)(pcb := None)" "tcp_tw_pcbs ?w = remove1 pcb (tcp_tw_pcbs w)"
      using f(2) by (auto simp: without_def tw_expired_def pcb_age_def)
    have "distinct (tcp_tw_pcbs w)" using stack_okD(5) [OF Cons(2)] by (simp add: lists_ok_def tcp_pcb_lists_def)
    then have "set xs \<subseteq> set (tcp_tw_pcbs ?w)" using Cons(3,4) t(3) by auto
    from Cons(1) [OF f(3) this] obtain w' where "tw_loop xs ?w = Some w'" "stack_ok w' R S"
      "\<forall>a b. ts_pcbs w' a = Some b \<longleftrightarrow> ts_pcbs ?w a = Some b \<and> \<not> (a \<in> set xs \<and> tw_expired w b)" using Cons(4) t(1) by auto
    then show ?thesis using b f(1) t(2) True by (intro exI [of _ w']) auto
  next
    case False
    from Cons(1) [OF Cons(2)] Cons(3,4) obtain w' where "tw_loop xs w = Some w'" "stack_ok w' R S"
      "\<forall>a b. ts_pcbs w' a = Some b \<longleftrightarrow> ts_pcbs w a = Some b \<and> \<not> (a \<in> set xs \<and> tw_expired w b)" by auto
    then show ?thesis using b False by (intro exI [of _ w']) auto
  qed
qed simp

text \<open>The slow timer counts ticks of half a second; a segment is taken to live at most one minute, and TIME-WAIT lasts two of them.\<close>

lemma tw_expired_ms: "tw_expired w b \<longleftrightarrow> 2 * 60000 < 500 * unat (tcp_ticks w - t_tmr b)"
  by (auto simp: tw_expired_def pcb_age_def TCP_MSL_def TCP_SLOW_INTERVAL_def)

text \<open>
  C37: The slow timer's pass over the connections in TIME-WAIT returns, frees exactly those that
  have been there for more than two segment lifetimes of one minute (the time since \<open>tmr\<close> in ticks of 500 ms,
  across the wrap-around of the tick counter), and keeps the stack well formed: no
  connection stays in TIME-WAIT longer than that and none leaves it early; connections in other states
  are left alone.
\<close>

theorem tw_loop_frees_expired:
  assumes "stack_ok w R S"
  shows "\<exists>w'. tw_loop (tcp_tw_pcbs w) w = Some w' \<and> stack_ok w' R S
    \<and> (\<forall>a b. ts_pcbs w' a = Some b \<longleftrightarrow>
         ts_pcbs w a = Some b \<and> \<not> (t_state b = TIME_WAIT \<and> 2 * 60000 < 500 * unat (tcp_ticks w - t_tmr b)))"
proof -
  have d: "distinct (tcp_tw_pcbs w)" using stack_okD(5) [OF assms] by (simp add: lists_ok_def tcp_pcb_lists_def)
  have "a \<in> set (tcp_tw_pcbs w) \<longleftrightarrow> t_state b = TIME_WAIT" if "ts_pcbs w a = Some b" for a b
    using lists_ok_pcb(2) [OF stack_okD(5) [OF assms] that] .
  then show ?thesis unfolding tw_expired_ms [symmetric] using tw_loop_spec [OF assms subset_refl d] by metis
qed

lemma demo_timewait: "\<exists>w pcb b. stack_ok (w :: unit bstack) {#} {#} \<and> ts_pcbs w pcb = Some b \<and> t_state b = TIME_WAIT
    \<and> unat (tcp_ticks w - t_tmr b) = 1000"
proof -
  have e: "ts_pcbs demo_booted = Map.empty" "tcp_ticks demo_booted = 0" "tcp_timer_ctr demo_booted = 0"
    by (simp_all add: demo_booted_def demo_process_def)
  let ?b = "new_pcb TCP_PRIO_NORMAL 0 0"
  from tcp_new_ok [OF demo_booted_ok, of undefined] e obtain a pb2 where
    a: "stack_ok (init_pcb a TCP_PRIO_NORMAL (demo_booted\<lparr>ts_pb := pb2\<rparr>)) {#} {#}"
    by (auto simp: MEMP_NUM_TCP_PCB_def)
  let ?w1 = "init_pcb a TCP_PRIO_NORMAL (demo_booted\<lparr>ts_pb := pb2\<rparr>)"
  have b: "ts_pcbs ?w1 a = Some ?b" "t_state ?b = CLOSED" "t_local_port ?b = 0"
    using e by (simp_all add: init_pcb_def new_pcb_def)
  let ?b' = "?b\<lparr>t_state := TIME_WAIT, t_tmr := -1000\<rparr>"
  have "stack_ok (relisted ?w1 L_tw a ?b') {#} {#}"
    by (rule stack_ok_relisted [OF a b]) (simp_all add: new_pcb_def pcb_segs_def queueless_def)
  moreover have "ts_pcbs (relisted ?w1 L_tw a ?b') a = Some ?b'" "t_state ?b' = TIME_WAIT"
    "unat (tcp_ticks (relisted ?w1 L_tw a ?b') - t_tmr ?b') = 1000"
    using e by (simp_all add: relisted_def init_pcb_def)
  ultimately show ?thesis by blast
qed

theorem tw_loop_frees_expired_witness:
  "\<exists>(w :: unit bstack) w' pcb b. stack_ok w {#} {#} \<and> ts_pcbs w pcb = Some b \<and> tw_loop (tcp_tw_pcbs w) w = Some w' \<and> ts_pcbs w' pcb = None"
proof -
  obtain w :: "unit bstack" and pcb b where w: "stack_ok w {#} {#}" and b: "ts_pcbs w pcb = Some b" "t_state b = TIME_WAIT" "unat (tcp_ticks w - t_tmr b) = 1000"
    using demo_timewait by blast
  from tw_loop_frees_expired [OF w] obtain w' where "tw_loop (tcp_tw_pcbs w) w = Some w'"
    "\<forall>a b. ts_pcbs w' a = Some b \<longleftrightarrow> ts_pcbs w a = Some b \<and> \<not> (t_state b = TIME_WAIT \<and> 2 * 60000 < 500 * unat (tcp_ticks w - t_tmr b))" by blast
  moreover have "ts_pcbs w' pcb = None" using calculation(2) b by (cases "ts_pcbs w' pcb") auto
  ultimately show ?thesis using w b(1) by blast
qed

section \<open>Reassembly\<close>

text \<open>
  C38: Adding a fragment to a datagram keeps its fragments in order and disjoint: the fragment is
  put in its place among the others, or it is dropped and nothing changes. The datagram is
  reported complete exactly when the last fragment has been seen and the fragments cover it
  from offset 0 without a hole.
\<close>

theorem ip_reass_chain_frag_correct:
  assumes "ip_reass_chain_frag_into_datagram_and_validate ipr new_p is_last w = Some (v, ipr')"
    and "stack_buf w new_p = Some b" "frag_range w (p_payload b) = (start, fend)" "frags_ok (ir_frags ipr)"
  shows "if v = PBUF_DROPPED then ipr' = ipr
    else frags_ok (ir_frags ipr')
       \<and> (\<exists>before after. ir_frags ipr = before @ after \<and> ir_frags ipr' = before @ (new_p, start, fend) # after)
       \<and> (v = TELEGRAM_FINISHED \<longleftrightarrow>
            (is_last \<or> ir_flags ipr AND IP_REASS_FLAG_LASTFRAG \<noteq> 0) \<and> (\<exists>z. covers 0 (ir_frags ipr') z))"
  by (rule chain_frag_spec [OF assms])

text \<open>The first fragment (8 bytes) arrives after the last one (bytes 8 to 15).\<close>

definition demo_fragment :: "unit bstack" where
  "demo_fragment = demo_process\<lparr>ts_pb := demo_memory\<lparr>ps_mem := (\<lambda>_. 0)(124 := 0x45, 127 := 28, 130 := 0x20),
     ps_bufs := [100 \<mapsto> new_pbuf 124 28 28 PBUF_RAM]\<rparr>\<rparr>"

definition demo_datagram :: ip_reassdata where
  "demo_datagram = \<lparr>ir_elem = 0, ir_frags = [(200, 8, 16)], ir_iphdr = [], ir_datagram_len = 16,
     ir_flags = IP_REASS_FLAG_LASTFRAG, ir_timer = 15\<rparr>"

theorem ip_reass_chain_frag_correct_witness:
  "\<exists>ipr'. ip_reass_chain_frag_into_datagram_and_validate demo_datagram 100 False demo_fragment = Some (TELEGRAM_FINISHED, ipr')
    \<and> frags_ok (ir_frags ipr') \<and> (\<exists>z. covers 0 (ir_frags ipr') z)"
proof -
  have b: "stack_buf demo_fragment 100 = Some (new_pbuf 124 28 28 PBUF_RAM)"
    by (simp add: stack_buf_def demo_fragment_def)
  have h: "IPH_LEN demo_fragment 124 = 28" "IPH_HL_BYTES demo_fragment 124 = 20" "IPH_OFFSET_BYTES demo_fragment 124 = 0"
    by (simp_all add: IPH_LEN_def IPH_HL_BYTES_def IPH_OFFSET_BYTES_def IPH_OFFSET_def ld_u16_def ld_u8_def demo_fragment_def
        rd16_def rd_bytes_def IP_OFFMASK_def)
  have r: "frag_range demo_fragment (p_payload (new_pbuf 124 28 28 PBUF_RAM)) = (0, 8)"
    using h by (simp add: frag_range_def new_pbuf_def)
  have f: "frags_ok (ir_frags demo_datagram)" by (simp add: demo_datagram_def frags_ok_def)
  have v: "ip_reass_chain_frag_into_datagram_and_validate demo_datagram 100 False demo_fragment
      = Some (TELEGRAM_FINISHED, demo_datagram\<lparr>ir_frags := [(100, 0, 8), (200, 8, 16)]\<rparr>)"
    using b h by (simp add: ip_reass_chain_frag_into_datagram_and_validate_def new_pbuf_def demo_datagram_def IP_REASS_FLAG_LASTFRAG_def Let_def)
  from ip_reass_chain_frag_correct [OF v b r f] v show ?thesis by simp
qed

end
