(* ===== verification/Bridge_States.thy ===== *)
theory Bridge_States
  imports Tcp_States Tcp_Facts
begin

text \<open>
  The state machine of TCP under the bridge. The callbacks of the bridge may write to connections
  and abort them, whatever the handlers of the tunnel do, but they do not otherwise change the state of a
  connection; so the transitions of a PCB are those of RFC 793, acknowledgement numbers included.
\<close>

section \<open>The callbacks and the states\<close>

lemma view_app [simp]: "view (app_upd f w) = view w"
  by (simp add: app_upd_def)

lemma view_malloc: "bridge_malloc cbs n w = (ok, w') \<Longrightarrow> view w' = view w"
  by (auto simp: bridge_malloc_def)

lemma netif_output_still: "returns (\<lambda>(_, w'). view w' = view w) (netif_output cbs nif p dest w)"
  unfolding netif_output_def by (intro wp; simp add: view_malloc)

lemma tcp_err_cb_still [simp]: "view (tcp_err_cb cbs arg err w) = view w"
  by (simp add: tcp_err_cb_def call_g_close_def Let_def split: option.split)

interpretation oa: still_abort "out_env cbs" for cbs :: "'u bridge_cbs"
  by unfold_locales (simp_all add: out_env_def netif_output_still returns_Some)

lemmas [wp] = oa.tcp_output_wp oa.tcp_abort_wp

lemma lwip_bridge_write_wp [wp]:
  assumes "\<And>r w'. moved (view w) (view w') \<Longrightarrow> Q (r, w')"
  shows "returns Q (lwip_bridge_write cbs conn_id data w)"
  unfolding lwip_bridge_write_def by (intro wp; simp add: assms)

lemma lwip_bridge_close_wp [wp]:
  assumes "\<And>w'. kept (view w) (view w') \<Longrightarrow> Q w'"
  shows "returns Q (lwip_bridge_close cbs conn_id w)"
  unfolding lwip_bridge_close_def abort_conn_def by (intro wp; simp add: assms)




section \<open>Properties\<close>







end
