(* ===== verification/Tcp_Write.thy ===== *)
theory Tcp_Write
  imports Bridge_Conn
begin

text \<open>
  Queueing data: \<open>tcp_write\<close> appends the bytes it is given to the stream of the connection. The stream
  is read off the memory the queued segments point to, so that the theorem includes that no buffer of a segment
  overlaps another and that later writes leave earlier ones alone.
\<close>

section \<open>Buffers in the heap\<close>

text \<open>Two pbufs in the heap have disjoint memory.\<close>

lemma ram_apart:
  assumes "pinv s" "ps_bufs s a = Some b" "pbuf_get_allocsrc b = 0" "ps_bufs s a' = Some b'" "pbuf_get_allocsrc b' = 0" "a \<noteq> a'"
  shows "p_payload b + unat (p_len b) \<le> a' \<or> p_payload b' + unat (p_len b') \<le> a"
proof -
  obtain bs hp hq where i: "pinv_at s bs hp hq" using assms(1) by (auto simp: pinv_def)
  then have "placed s bs hp hq a b" "placed s bs hp hq a' b'" and l: "links (h_ram (ps_heap s)) bs"
    using assms(2,4) by (auto simp: pinv_at_def heap_inv_def)
  then obtain k e k' e' where k: "a = ps_ram s + k" "(k, e) \<in> heap_allocs bs" "p_payload b + unat (p_len b) \<le> ps_ram s + e"
    "a' = ps_ram s + k'" "(k', e') \<in> heap_allocs bs" "p_payload b' + unat (p_len b') \<le> ps_ram s + e'"
    using assms(3,5) by (auto simp: placed_def)
  then show ?thesis using allocs_disjoint [OF l k(2) k(5)] assms(6) by auto
qed

lemma ram_payload: "pinv s \<Longrightarrow> ps_bufs s a = Some b \<Longrightarrow> pbuf_get_allocsrc b = 0 \<Longrightarrow> a + SIZEOF_STRUCT_PBUF \<le> p_payload b"
proof -
  assume *: "pinv s" "ps_bufs s a = Some b" "pbuf_get_allocsrc b = 0"
  then obtain bs hp hq where "placed s bs hp hq a b" unfolding pinv_def pinv_at_def by blast
  then show ?thesis using *(3) by (auto simp: placed_def)
qed

text \<open>A pbuf may be changed as long as it stays within its memory.\<close>

lemma pinv_refield:
  assumes "pinv s" "ps_bufs s a = Some b" "p_type_internal b' = p_type_internal b" "pbuf_get_allocsrc b = 0"
    "a + SIZEOF_STRUCT_PBUF \<le> p_payload b'" "p_payload b' + unat (p_len b') \<le> p_payload b + unat (p_len b)"
  shows "pinv (s\<lparr>ps_bufs := (ps_bufs s)(a \<mapsto> b')\<rparr>)"
proof (rule pinv_refield_placed [OF assms(1,2)])
  fix bs hp hq
  assume "placed s bs hp hq a b"
  then show "placed s bs hp hq a b'"
    using assms(3-6) unfolding placed_def pbuf_get_allocsrc_def by (auto) (intro exI conjI, assumption, linarith)
qed (use assms(3) in \<open>simp add: pbuf_get_allocsrc_def\<close>)

text \<open>
  \<open>room T pb\<close>: for every pair \<open>(t, q)\<close> in \<open>T\<close> the memory of \<open>t\<close> has room for the pbuf to become \<open>q\<close>.
\<close>

definition swapped :: "nat \<Rightarrow> pbuf \<Rightarrow> pbuf_state \<Rightarrow> pbuf_state" where
  "swapped t q pb = pb\<lparr>ps_bufs := (ps_bufs pb)(t \<mapsto> q)\<rparr>"

lemma swapped_sel [simp]:
  "ps_pools (swapped t q pb) = ps_pools pb" "swapped t q (pb\<lparr>ps_pools := ps\<rparr>) = (swapped t q pb)\<lparr>ps_pools := ps\<rparr>"
  "swapped t q (pb\<lparr>ps_mem := m\<rparr>) = (swapped t q pb)\<lparr>ps_mem := m\<rparr>"
  by (simp_all add: swapped_def)

definition room :: "(nat \<times> pbuf) set \<Rightarrow> pbuf_state \<Rightarrow> bool" where
  "room T pb \<longleftrightarrow> (\<forall>(t, q) \<in> T. ps_bufs pb t \<noteq> None \<and> pinv (swapped t q pb))"

text \<open>The blocks are determined by the headers in the heap, so that there is room for two pbufs at once.\<close>

lemma linked_unique: "linked r p bs e \<Longrightarrow> linked r p' bs' e \<Longrightarrow> nxt bs e = nxt bs' e \<Longrightarrow> bs = bs'"
proof (induction bs arbitrary: p p' bs')
  case Nil
  show ?case
  proof (cases bs')
    case (Cons c cs)
    obtain k u where "c = (k, u)" by fastforce
    then show ?thesis using Nil Cons linked_start_le [of r k cs e] by simp
  qed simp
next
  case (Cons b bs)
  obtain k u where b: "b = (k, u)" by fastforce
  show ?case
  proof (cases bs')
    case Nil
    then show ?thesis using Cons.prems b linked_start_le [of r k bs e] by simp
  next
    case (Cons c cs)
    then show ?thesis using Cons.prems b Cons.IH [of k k cs] by (cases c) simp
  qed
qed

lemma heap_inv_unique: "heap_inv h bs \<Longrightarrow> heap_inv h bs' \<Longrightarrow> bs = bs'"
  unfolding heap_inv_def links_def using linked_unique [of "h_ram h" 0 bs MEM_SIZE_ALIGNED 0 bs'] by simp

lemma room_swapped:
  assumes "room {(t, q)} pb" "room {(p, e)} pb" "t \<noteq> p" "pbuf_get_allocsrc e = 0"
  shows "room {(p, e)} (swapped t q pb)"
proof -
  obtain bs hp hq where 1: "pinv_at (swapped t q pb) bs hp hq" using assms(1) by (auto simp: room_def pinv_def)
  obtain bs' hp' hq' where 2: "pinv_at (swapped p e pb) bs' hp' hq'" using assms(2) by (auto simp: room_def pinv_def)
  have "bs' = bs" using 1 2 heap_inv_unique [of "ps_heap pb" bs' bs] by (simp add: pinv_at_def swapped_def)
  moreover have "placed (swapped p e pb) bs' hp' hq' p e" using 2 by (simp add: pinv_at_def swapped_def)
  ultimately have p: "placed (swapped t q pb) bs hp hq p e" using assms(4) by (simp add: placed_def swapped_def)
  then obtain b where b: "ps_bufs (swapped t q pb) p = Some b" "pbuf_get_allocsrc b = 0"
    using 1 assms(4) by (auto simp: placed_def pinv_at_def accounted_def src_of_def)
  from pinv_at_refield [OF 1 b(1) _ p] b(2) assms(4)
  have "pinv_at (swapped p e (swapped t q pb)) bs hp hq" by (simp add: swapped_def)
  then show ?thesis using assms(2,3) by (auto simp: room_def pinv_def swapped_def)
qed

text \<open>The pbufs stay as they are, the bytes of those in the heap included.\<close>

definition keeps :: "pbuf_state \<Rightarrow> pbuf_state \<Rightarrow> bool" where
  "keeps pb pb' \<longleftrightarrow> (\<forall>a q. ps_bufs pb a = Some q \<longrightarrow> ps_bufs pb' a = Some q
     \<and> (\<forall>x. pbuf_get_allocsrc q = 0 \<and> p_payload q \<le> x \<and> x < p_payload q + unat (p_len q) \<longrightarrow> ps_mem pb' x = ps_mem pb x))"

lemma keeps_refl [simp]: "keeps pb pb"
  by (simp add: keeps_def)

lemma keeps_trans: "keeps a b \<Longrightarrow> keeps b c \<Longrightarrow> keeps a c"
  unfolding keeps_def by metis

lemma keeps_bufs: "keeps pb pb' \<Longrightarrow> ps_bufs pb a = Some q \<Longrightarrow> ps_bufs pb' a = Some q"
  unfolding keeps_def by blast

lemma keeps_mem: "keeps pb pb' \<Longrightarrow> ps_bufs pb a = Some q \<Longrightarrow> pbuf_get_allocsrc q = 0 \<Longrightarrow> p_payload q \<le> x
    \<Longrightarrow> x < p_payload q + unat (p_len q) \<Longrightarrow> ps_mem pb' x = ps_mem pb x"
  unfolding keeps_def by blast

text \<open>Changing a pbuf that was not there before, and its bytes.\<close>

lemma keeps_new:
  assumes "keeps pb pb1" "ps_bufs pb p = None" "pinv pb1" "ps_bufs pb1 p = Some q" "pbuf_get_allocsrc q = 0"
    and "\<And>a. a \<noteq> p \<Longrightarrow> ps_bufs pb2 a = ps_bufs pb1 a"
    and "\<And>x. \<not> (p + SIZEOF_STRUCT_PBUF \<le> x \<and> x < p_payload q + unat (p_len q)) \<Longrightarrow> ps_mem pb2 x = ps_mem pb1 x"
  shows "keeps pb pb2"
proof -
  have ne: "a \<noteq> p" if "ps_bufs pb a = Some b" for a b using assms(2) that by auto
  have b: "ps_bufs pb2 a = Some b" "ps_bufs pb1 a = Some b" "a \<noteq> p" if "ps_bufs pb a = Some b" for a b
    using keeps_bufs [OF assms(1) that] assms(6) [OF ne [OF that]] ne [OF that] by simp_all
  have "ps_mem pb2 x = ps_mem pb x"
    if a: "ps_bufs pb a = Some b" "pbuf_get_allocsrc b = 0" "p_payload b \<le> x" "x < p_payload b + unat (p_len b)" for a b x
  proof -
    have "p_payload b + unat (p_len b) \<le> p \<or> p_payload q + unat (p_len q) \<le> a"
      using ram_apart [OF assms(3) b(2) [OF a(1)] a(2) assms(4,5)] b(3) [OF a(1)] by blast
    moreover have "a + SIZEOF_STRUCT_PBUF \<le> p_payload b" using ram_payload [OF assms(3) b(2) [OF a(1)] a(2)] .
    ultimately have "ps_mem pb2 x = ps_mem pb1 x" using a(3,4) by (intro assms(7)) linarith
    then show ?thesis using keeps_mem [OF assms(1) a] by simp
  qed
  then show ?thesis using b(1) unfolding keeps_def by blast
qed

section \<open>Operations and room\<close>

lemma roomD: "room T pb \<Longrightarrow> (t, q) \<in> T \<Longrightarrow> ps_bufs pb t \<noteq> None \<and> pinv (swapped t q pb)"
  by (auto simp: room_def)

lemma alloc_swapped:
  assumes "pbuf_alloc layer len PBUF_RAM pb = Some (r, pb')" "\<And>p. r = Some p \<Longrightarrow> p \<noteq> t"
  shows "pbuf_alloc layer len PBUF_RAM (swapped t q pb) = Some (r, swapped t q pb')"
proof -
  let ?n = "(SIZEOF_STRUCT_PBUF + (pbuf_layer_offset layer + unat len) mod 2 ^ 32) mod 2 ^ 32"
  show ?thesis
    using assms by (cases "mem_malloc (ps_heap pb) ?n")
      (auto simp: pbuf_alloc_def swapped_def Let_def init_alloced_eq fun_upd_twist split: if_splits option.splits prod.splits)
qed

lemma room_alloc:
  assumes "room T pb" "pbuf_alloc layer len PBUF_RAM pb = Some (r, pb')" "\<And>p. r = Some p \<Longrightarrow> ps_bufs pb p = None"
    "\<And>a. ps_bufs pb a \<noteq> None \<Longrightarrow> ps_bufs pb' a \<noteq> None"
  shows "room T pb'"
proof -
  have "ps_bufs pb' t \<noteq> None \<and> pinv (swapped t q pb')" if "(t, q) \<in> T" for t q
  proof -
    note r = roomD [OF assms(1) that]
    have "pbuf_alloc layer len PBUF_RAM (swapped t q pb) = Some (r, swapped t q pb')"
      using assms(3) r by (intro alloc_swapped [OF assms(2)]) auto
    then show ?thesis using alloc_ram_spec [of "swapped t q pb" _ layer len] r assms(4) by auto
  qed
  then show ?thesis by (auto simp: room_def)
qed

lemma free_single:
  assumes "ps_bufs s p = Some b" "p_next b = None" "p_ref b = 1" "pbuf_get_allocsrc b = 0"
  shows "pbuf_free (Some p) s = map_option (\<lambda>h. (1, s\<lparr>ps_bufs := (ps_bufs s)(p := None), ps_heap := h\<rparr>)) (mem_free (ps_heap s) (Some (p - ps_ram s)))"
  using assms unfolding pbuf_free_def
  by (simp add: pbuf_free_loop.simps [of "Some p"] pbuf_release_def Let_def pbuf_free_loop.simps [of None] option.map_comp comp_def bind_map_option)
     (cases "mem_free (ps_heap s) (Some (p - ps_ram s))"; simp)

text \<open>Freeing a pbuf that was not there before.\<close>

lemma free_new:
  assumes "mem_ok pb (add_mset p R) S" "room T pb" "p \<notin> fst ` T" "keeps pb0 pb" "ps_bufs pb0 p = None"
    and q: "ps_bufs pb p = Some q" "p_next q = None" "p_ref q = 1" "pbuf_get_allocsrc q = 0"
  shows "\<exists>c pb'. pbuf_free (Some p) pb = Some (c, pb') \<and> mem_ok pb' R S \<and> pcb_pools pb pb' \<and> room T pb' \<and> keeps pb0 pb'
    \<and> ps_bufs pb' = (ps_bufs pb)(p := None) \<and> ps_mem pb' = ps_mem pb"
proof -
  obtain c pb' where f: "pbuf_free (Some p) pb = Some (c, pb')" "mem_ok pb' R S" "pcb_pools pb pb'"
    using mem_ok_free_pbuf [of pb "Some p" R S] assms(1) by (auto simp: own_next_def)
  then obtain h where h: "mem_free (ps_heap pb) (Some (p - ps_ram pb)) = Some h" "pb' = pb\<lparr>ps_bufs := (ps_bufs pb)(p := None), ps_heap := h\<rparr>"
    using free_single [OF q] by auto
  have "ps_bufs pb' t \<noteq> None \<and> pinv (swapped t x pb')" if "(t, x) \<in> T" for t x
  proof -
    note r = roomD [OF assms(2) that]
    have t: "t \<noteq> p" using that assms(3) by force
    then have q': "ps_bufs (swapped t x pb) p = Some q" using q by (simp add: swapped_def)
    have e: "pbuf_free (Some p) (swapped t x pb) = Some (1, swapped t x pb')"
      using free_single [OF q' q(2-4)] h t by (simp add: swapped_def fun_upd_twist)
    have "pchain (ps_bufs (swapped t x pb)) (Some p) [p]" using q' q(2) by simp
    from pbuf_free_spec [OF _ this] r q' q(3) e have "pinv (swapped t x pb')" by auto
    then show ?thesis using r t h(2) by simp
  qed
  then have "room T pb'" by (auto simp: room_def)
  moreover have "keeps pb0 pb'" using assms(4,5) h(2) by (auto simp: keeps_def)
  ultimately show ?thesis using f h(2) by auto
qed

lemma room_malloc: "room T pb \<Longrightarrow> ty < MEMP_PBUF \<Longrightarrow> room T (pb\<lparr>ps_pools := snd (memp_malloc ty (ps_pools pb))\<rparr>)"
  unfolding room_def using pinv_memp_malloc [where ty = ty] by (force split: prod.splits)

lemma room_memp_free: "room T pb \<Longrightarrow> ty < MEMP_PBUF \<Longrightarrow> room T (pb\<lparr>ps_pools := memp_free ty m (ps_pools pb)\<rparr>)"
  unfolding room_def using pinv_memp_free [where ty = ty] by (force split: prod.splits)

lemma room_mem [simp]: "room T (pb\<lparr>ps_mem := m\<rparr>) = room T pb"
  by (simp add: room_def)

lemma room_refield:
  assumes "room T pb" "p \<notin> fst ` T" "ps_bufs pb p = Some b" "p_type_internal b' = p_type_internal b" "pbuf_get_allocsrc b = 0"
    "p + SIZEOF_STRUCT_PBUF \<le> p_payload b'" "p_payload b' + unat (p_len b') \<le> p_payload b + unat (p_len b)"
  shows "room T (pb\<lparr>ps_bufs := (ps_bufs pb)(p \<mapsto> b')\<rparr>)"
proof -
  have "pinv (swapped t q (pb\<lparr>ps_bufs := (ps_bufs pb)(p \<mapsto> b')\<rparr>))" if "(t, q) \<in> T" for t q
  proof -
    have t: "t \<noteq> p" using that assms(2) by force
    have "pinv (swapped t q pb)" using roomD [OF assms(1) that] by blast
    from pinv_refield [OF this _ assms(4-7)] show ?thesis using t assms(3) by (simp add: swapped_def fun_upd_twist)
  qed
  then show ?thesis using assms(1) by (auto simp: room_def)
qed

section \<open>Making a segment\<close>

lemma alloc_room:
  assumes "mem_ok pb R S" "room T pb"
  shows "\<exists>r pb'. pbuf_alloc layer len PBUF_RAM pb = Some (r, pb') \<and> mem_ok pb' (own_next r R) S \<and> pcb_pools pb pb' \<and> room T pb'
    \<and> ps_mem pb' = ps_mem pb
    \<and> (case r of None \<Rightarrow> ps_bufs pb' = ps_bufs pb
       | Some p \<Rightarrow> ps_bufs pb p = None
           \<and> ps_bufs pb' = (ps_bufs pb)(p \<mapsto> new_pbuf (p + SIZEOF_STRUCT_PBUF + pbuf_layer_offset layer) len len PBUF_RAM))"
proof -
  have "pinv pb" using assms(1) by (simp add: mem_ok_def)
  from alloc_ram_spec [OF this refl, of layer len] obtain r pb' where
    a: "pbuf_alloc layer len PBUF_RAM pb = Some (r, pb')" "ps_mem pb' = ps_mem pb"
    "case r of None \<Rightarrow> ps_bufs pb' = ps_bufs pb
       | Some p \<Rightarrow> ps_bufs pb p = None
           \<and> ps_bufs pb' = (ps_bufs pb)(p \<mapsto> new_pbuf (p + SIZEOF_STRUCT_PBUF + pbuf_layer_offset layer) len len PBUF_RAM)" by blast
  moreover have "mem_ok pb' (own_next r R) S" "pcb_pools pb pb'" using alloc_ram_ok [OF assms(1), of layer len] a(1) by auto
  moreover have "room T pb'" using room_alloc [OF assms(2) a(1)] a(3) by (auto split: option.splits)
  ultimately show ?thesis by blast
qed

lemma new_pbuf_sel [simp]:
  "p_payload (new_pbuf pl tot len ty) = pl" "p_len (new_pbuf pl tot len ty) = len" "p_tot_len (new_pbuf pl tot len ty) = tot"
  "p_next (new_pbuf pl tot len ty) = None" "p_ref (new_pbuf pl tot len ty) = 1" "p_type_internal (new_pbuf pl tot len ty) = pbuf_type_internal ty"
  "(new_pbuf pl tot len ty)\<lparr>p_len := len', p_tot_len := tot'\<rparr> = new_pbuf pl tot' len' ty"
  by (simp_all add: new_pbuf_def)

text \<open>A buffer of \<open>max_length\<close> bytes of which \<open>len\<close> are used.\<close>

lemma prealloc_ok:
  assumes m: "mem_ok (ts_pb w) R S" "room T (ts_pb w)" and len: "len \<le> max_length"
  shows "\<exists>r pb'. tcp_pbuf_prealloc layer len max_length w = Some (r, w\<lparr>ts_pb := pb'\<rparr>) \<and> pcb_pools (ts_pb w) pb' \<and> room T pb'
    \<and> keeps (ts_pb w) pb' \<and> ps_mem pb' = ps_mem (ts_pb w)
    \<and> (case r of None \<Rightarrow> mem_ok pb' R S
       | Some (p, ov) \<Rightarrow> mem_ok pb' (add_mset p R) S \<and> ov = max_length - len \<and> ps_bufs (ts_pb w) p = None
           \<and> ps_bufs pb' p = Some (new_pbuf (p + SIZEOF_STRUCT_PBUF + pbuf_layer_offset layer) len len PBUF_RAM)
           \<and> room {(p, new_pbuf (p + SIZEOF_STRUCT_PBUF + pbuf_layer_offset layer) max_length max_length PBUF_RAM)} pb')"
proof -
  from alloc_room [OF m, of layer max_length] obtain r pb' where
    a: "pbuf_alloc layer max_length PBUF_RAM (ts_pb w) = Some (r, pb')" "mem_ok pb' (own_next r R) S" "pcb_pools (ts_pb w) pb'" "room T pb'"
      "ps_mem pb' = ps_mem (ts_pb w)"
      "case r of None \<Rightarrow> ps_bufs pb' = ps_bufs (ts_pb w)
       | Some p \<Rightarrow> ps_bufs (ts_pb w) p = None \<and> ps_bufs pb' = (ps_bufs (ts_pb w))
           (p \<mapsto> new_pbuf (p + SIZEOF_STRUCT_PBUF + pbuf_layer_offset layer) max_length max_length PBUF_RAM)" by blast
  show ?thesis
  proof (cases r)
    case None
    then show ?thesis using a
      by (intro exI [of _ None] exI [of _ pb']) (simp add: tcp_pbuf_prealloc_def stack_pb_def own_next_def keeps_def)
  next
    case (Some p)
    let ?n = "\<lambda>len. new_pbuf (p + SIZEOF_STRUCT_PBUF + pbuf_layer_offset layer) len len PBUF_RAM"
    let ?pb = "pb'\<lparr>ps_bufs := (ps_bufs pb')(p \<mapsto> ?n len)\<rparr>"
    have p: "ps_bufs (ts_pb w) p = None" "ps_bufs pb' = (ps_bufs (ts_pb w))(p \<mapsto> ?n max_length)" using a(6) Some by simp_all
    have i: "pinv pb'" "ps_bufs pb' p = Some (?n max_length)" using a(2) p by (simp_all add: mem_ok_def)
    have le: "unat len \<le> unat max_length" using len by (simp add: word_le_nat_alt)
    have "pinv ?pb" by (rule pinv_refield [OF i]) (use le in \<open>simp_all add: new_pbuf_allocsrc\<close>)
    moreover have "owned (ps_bufs ?pb) (add_mset p R)"
      using owned_fields [of "ps_bufs pb'" _ p "?n max_length" "?n len"] a(2) i(2) Some by (simp add: mem_ok_def own_next_def)
    ultimately have "mem_ok ?pb (add_mset p R) S" using a(2) by (simp add: mem_ok_def pool_holds_def)
    moreover have "p \<notin> fst ` T" using roomD [OF m(2)] p(1) by force
    then have "room T ?pb" by (rule room_refield [OF a(4) _ i(2)]) (use le in \<open>simp_all add: new_pbuf_allocsrc\<close>)
    moreover have "swapped p (?n max_length) ?pb = pb'" using i(2) by (simp add: swapped_def fun_upd_idem)
    then have "room {(p, ?n max_length)} ?pb" using i(1) by (simp add: room_def)
    moreover have "keeps (ts_pb w) ?pb" using p a(5) by (auto simp: keeps_def)
    moreover have "pcb_pools (ts_pb w) ?pb" using a(3) by (simp add: pcb_pools_def)
    ultimately show ?thesis using a Some i(2) p(1)
      by (intro exI [of _ "Some (p, max_length - len)"] exI [of _ ?pb])
        (simp add: tcp_pbuf_prealloc_def stack_pb_def stack_buf_def stack_buf_upd_def pbuf_upd_def)
  qed
qed

text \<open>The header that is written, as the fields the queue depends on.\<close>

definition hdr_stored :: "(nat \<Rightarrow> u8) \<Rightarrow> (nat \<Rightarrow> u8) \<Rightarrow> nat \<Rightarrow> u32 \<Rightarrow> bool" where
  "hdr_stored m m' h seqno \<longleftrightarrow> (\<forall>x. \<not> (h \<le> x \<and> x < h + 20) \<longrightarrow> m' x = m x)
     \<and> rd32 (rd_bytes m' (h + 4) 4) 0 = seqno \<and> rd16 (rd_bytes m' (h + 12) 2) 0 = 0x5000"

lemma rd32_bytes: "rd32 [byte_of 3 x, byte_of 2 x, byte_of 1 x, byte_of 0 x] 0 = x"
  using rd32_wr32_same [of 0 "[0, 0, 0, 0]" x] by (simp add: wr32_def numeral_eq_Suc)

lemma rd16_bytes: "rd16 [byte_of 1 x, byte_of 0 x] 0 = x"
  using rd16_wr16_same [of 0 "[0, 0]" x] by (simp add: wr16_def)

lemma rd_bytes_2: "rd_bytes m a 2 = [m a, m (a + 1)]"
  by (simp add: rd_bytes_def numeral_eq_Suc)

lemma rd_bytes_4: "rd_bytes m a 4 = [m a, m (a + 1), m (a + 2), m (a + 3)]"
  by (simp add: rd_bytes_def numeral_eq_Suc)

lemma hdr_stored_st:
  "\<exists>m'. st_u16 (h + 18) 0 (TCPH_HDRLEN_FLAGS_SET h 5 0 (st_u32 (h + 4) seqno (st_u16 (h + 2) rp (st_u16 h lp w))))
     = w\<lparr>ts_pb := (ts_pb w)\<lparr>ps_mem := m'\<rparr>\<rparr> \<and> hdr_stored (ps_mem (ts_pb w)) m' h seqno"
proof -
  let ?m = "wr_bytes (wr_bytes (wr_bytes (wr_bytes (wr_bytes (ps_mem (ts_pb w)) h [byte_of 1 lp, byte_of 0 lp])
      (h + 2) [byte_of 1 rp, byte_of 0 rp]) (h + 4) [byte_of 3 seqno, byte_of 2 seqno, byte_of 1 seqno, byte_of 0 seqno])
      (h + 12) [byte_of 1 (0x5000 :: u16), byte_of 0 (0x5000 :: u16)]) (h + 18) [byte_of 1 (0 :: u16), byte_of 0 (0 :: u16)]"
  have "st_u16 (h + 18) 0 (TCPH_HDRLEN_FLAGS_SET h 5 0 (st_u32 (h + 4) seqno (st_u16 (h + 2) rp (st_u16 h lp w))))
     = w\<lparr>ts_pb := (ts_pb w)\<lparr>ps_mem := ?m\<rparr>\<rparr>"
    by (simp add: st_u16_def st_u32_def TCPH_HDRLEN_FLAGS_SET_def)
  moreover have "rd_bytes ?m (h + 4) 4 = [byte_of 3 seqno, byte_of 2 seqno, byte_of 1 seqno, byte_of 0 seqno]"
    by (simp add: rd_bytes_4 wr_bytes_def)
  moreover have "rd_bytes ?m (h + 12) 2 = [byte_of 1 (0x5000 :: u16), byte_of 0 (0x5000 :: u16)]"
    by (simp add: rd_bytes_2 wr_bytes_def)
  moreover have "?m x = ps_mem (ts_pb w) x" if "\<not> (h \<le> x \<and> x < h + 20)" for x
  proof -
    from that consider "x < h" | "h + 20 \<le> x" by linarith
    then show ?thesis by cases (simp_all add: wr_bytes_def)
  qed
  ultimately show ?thesis by (intro exI [of _ ?m]) (simp add: hdr_stored_def rd32_bytes [simplified] rd16_bytes [simplified])
qed

lemma malloc_seg:
  assumes "mem_ok (ts_pb w) R S" "room T (ts_pb w)"
  shows "\<exists>r pb'. stack_malloc MEMP_TCP_SEG w = (r, w\<lparr>ts_pb := pb'\<rparr>) \<and> pcb_pools (ts_pb w) pb' \<and> room T pb'
    \<and> mem_ok pb' R (own_next r S) \<and> pb' = (ts_pb w)\<lparr>ps_pools := snd (memp_malloc MEMP_TCP_SEG (ps_pools (ts_pb w)))\<rparr>"
proof -
  obtain r pools where m: "memp_malloc MEMP_TCP_SEG (ps_pools (ts_pb w)) = (r, pools)" by fastforce
  let ?pb = "(ts_pb w)\<lparr>ps_pools := pools\<rparr>"
  have p: "pool_holds (ts_pb w) MEMP_TCP_SEG S" "pinv (ts_pb w)" "owned (ps_bufs (ts_pb w)) R" using assms(1) by (simp_all add: mem_ok_def)
  have "pool_holds ?pb MEMP_TCP_SEG (own_next r S)"
    using pool_holds_malloc [OF p(1) m] p(1) by (auto simp: own_next_def split: option.splits)
  moreover have "pinv ?pb" using pinv_memp_malloc [OF p(2), of MEMP_TCP_SEG] m by (simp add: pool_idx)
  moreover have "room T ?pb" using room_malloc [OF assms(2), of MEMP_TCP_SEG] m by (simp add: pool_idx)
  moreover have "pcb_pools (ts_pb w) ?pb"
    using m by (auto simp: pcb_pools_def memp_malloc_def pool_idx nth_list_update split: if_splits prod.splits)
  ultimately show ?thesis using m p(3) by (intro exI [of _ r] exI [of _ ?pb]) (auto simp: stack_malloc_def mem_ok_def)
qed

text \<open>\<open>tcp_create_segment\<close> for a buffer that was not there in \<open>pb0\<close>.\<close>

text \<open>There is room for the TCP header in front of the data.\<close>

lemma tcp_header_fits:
  assumes q: "ps_bufs pb p = Some q" "p_type_internal q = 0x80" "p_tot_len q = p_len q"
      "p + SIZEOF_STRUCT_PBUF + 20 \<le> p_payload q" "unat (p_len q) + 20 < 65536"
  shows "pbuf_add_header (Some p) 20 pb = Some (False, pb\<lparr>ps_bufs := (ps_bufs pb)
    (p \<mapsto> q\<lparr>p_payload := p_payload q - 20, p_len := p_len q + 20, p_tot_len := p_tot_len q + 20\<rparr>)\<rparr>)"
proof -
  have "unat (p_len q + 20) = unat (p_len q) + 20" using q(5) by (simp add: unat_word_ariths)
  then have "\<not> 20 + p_len q < 20" "(0x80 :: u8) AND 0x80 \<noteq> 0" by (simp_all add: word_less_nat_alt add.commute [of 20])
  then show ?thesis using q by (simp add: pbuf_add_header_def pbuf_add_header_impl_def Let_def PBUF_TYPE_FLAG_STRUCT_DATA_CONTIGUOUS_def)
qed

lemma create_segment_ok:
  assumes m: "mem_ok (ts_pb w) (add_mset p R) S" "room T (ts_pb w)" "p \<notin> fst ` T" and k: "keeps pb0 (ts_pb w)" "ps_bufs pb0 p = None"
    and q: "ps_bufs (ts_pb w) p = Some q" "p_next q = None" "p_ref q = 1" "p_type_internal q = 0x80" "p_tot_len q = p_len q"
      "p + SIZEOF_STRUCT_PBUF + 20 \<le> p_payload q" "unat (p_len q) + 20 < 65536"
    and b: "ts_pcbs w pcb = Some b"
  shows "\<exists>r pb'. tcp_create_segment pcb p 0 seqno 0 w = Some (r, w\<lparr>ts_pb := pb'\<rparr>) \<and> pcb_pools (ts_pb w) pb' \<and> room T pb' \<and> keeps pb0 pb'
    \<and> (case r of None \<Rightarrow> mem_ok pb' R S
       | Some g \<Rightarrow> mem_ok pb' (add_mset p R) (add_mset (sg_elem g) S)
           \<and> sg_p g = Some p \<and> sg_len g = p_len q \<and> sg_flags g = 0 \<and> sg_tcphdr g = p_payload q - 20
           \<and> pb' = (ts_pb w)\<lparr>ps_bufs := (ps_bufs (ts_pb w))(p \<mapsto> q\<lparr>p_payload := p_payload q - 20, p_len := p_len q + 20, p_tot_len := p_tot_len q + 20\<rparr>),
                ps_pools := snd (memp_malloc MEMP_TCP_SEG (ps_pools (ts_pb w))), ps_mem := ps_mem pb'\<rparr>
           \<and> hdr_stored (ps_mem (ts_pb w)) (ps_mem pb') (p_payload q - 20) seqno)"
proof -
  have src: "pbuf_get_allocsrc q = 0" using q(4) by (simp add: pbuf_get_allocsrc_def PBUF_TYPE_ALLOC_SRC_MASK_def)
  from malloc_seg [OF m(1,2)] obtain r pb1 where
    a: "stack_malloc MEMP_TCP_SEG w = (r, w\<lparr>ts_pb := pb1\<rparr>)" "pcb_pools (ts_pb w) pb1" "room T pb1" "mem_ok pb1 (add_mset p R) (own_next r S)"
      "pb1 = (ts_pb w)\<lparr>ps_pools := snd (memp_malloc MEMP_TCP_SEG (ps_pools (ts_pb w)))\<rparr>" by blast
  have k1: "keeps pb0 pb1" "ps_bufs pb1 p = Some q" using k q(1) a(5) by (auto simp: keeps_def)
  have o: "LWIP_TCP_OPT_LENGTH 0 = 0" by (simp add: LWIP_TCP_OPT_LENGTH_def)
  show ?thesis
  proof (cases r)
    case None
    from free_new [OF a(4,3) m(3) k1(1) k(2) k1(2) q(2,3) src] obtain c pb2 where
      "pbuf_free (Some p) pb1 = Some (c, pb2)" "mem_ok pb2 R (own_next r S)" "pcb_pools pb1 pb2" "room T pb2" "keeps pb0 pb2" by blast
    then show ?thesis using None a(1) b pcb_pools_trans [OF a(2)]
      by (intro exI [of _ None] exI [of _ pb2]) (simp add: tcp_create_segment_def stack_pb_def own_next_def)
  next
    case (Some c)
    let ?q = "q\<lparr>p_payload := p_payload q - 20, p_len := p_len q + 20, p_tot_len := p_tot_len q + 20\<rparr>"
    let ?pb = "pb1\<lparr>ps_bufs := (ps_bufs pb1)(p \<mapsto> ?q)\<rparr>"
    have l: "unat (p_len q + 20) = unat (p_len q) + 20" using q(7) by (simp add: unat_word_ariths)
    have h: "pbuf_add_header (Some p) 20 pb1 = Some (False, ?pb)" by (rule tcp_header_fits [OF k1(2) q(4-7)])
    have "pinv ?pb" using a(4) by (intro pinv_add_header [OF _ h]) (simp_all add: mem_ok_def)
    moreover have "owned (ps_bufs ?pb) (add_mset p R)"
      using owned_fields [of "ps_bufs pb1" _ p q ?q] a(4) k1(2) by (simp add: mem_ok_def)
    ultimately have mok: "mem_ok ?pb (add_mset p R) (add_mset c S)" using a(4) Some by (simp add: mem_ok_def pool_holds_def own_next_def)
    have rm: "room T ?pb" by (rule room_refield [OF a(3) m(3) k1(2)]) (use q l src in \<open>simp_all\<close>)
    obtain m' where m': "st_u16 (p_payload q - 20 + 18) 0 (TCPH_HDRLEN_FLAGS_SET (p_payload q - 20) 5 0 (st_u32 (p_payload q - 20 + 4) seqno
        (st_u16 (p_payload q - 20 + 2) (t_remote_port b) (st_u16 (p_payload q - 20) (t_local_port b) (w\<lparr>ts_pb := ?pb\<rparr>)))))
      = w\<lparr>ts_pb := ?pb\<lparr>ps_mem := m'\<rparr>\<rparr>" "hdr_stored (ps_mem pb1) m' (p_payload q - 20) seqno"
      using hdr_stored_st [of "p_payload q - 20" seqno "t_remote_port b" "t_local_port b" "w\<lparr>ts_pb := ?pb\<rparr>"] by auto
    let ?g = "\<lparr>sg_elem = c, sg_p = Some p, sg_len = p_tot_len q, sg_flags = 0, sg_tcphdr = p_payload q - 20\<rparr>"
    have "tcp_create_segment pcb p 0 seqno 0 w = Some (Some ?g, w\<lparr>ts_pb := ?pb\<lparr>ps_mem := m'\<rparr>\<rparr>)"
      using a(1) Some b k1(2) h m'(1) by (simp add: tcp_create_segment_def stack_buf_def stack_pb_def o TCP_HLEN_def Let_def)
    moreover have "keeps pb0 (?pb\<lparr>ps_mem := m'\<rparr>)"
    proof (rule keeps_new [OF k1(1) k(2) _ k1(2) src])
      show "pinv pb1" using a(4) by (simp add: mem_ok_def)
      show "ps_mem (?pb\<lparr>ps_mem := m'\<rparr>) x = ps_mem pb1 x" if "\<not> (p + SIZEOF_STRUCT_PBUF \<le> x \<and> x < p_payload q + unat (p_len q))" for x
        using that m'(2) q(6) by (auto simp: hdr_stored_def)
    qed simp
    moreover have "pcb_pools (ts_pb w) (?pb\<lparr>ps_mem := m'\<rparr>)" using a(2) by (simp add: pcb_pools_def)
    ultimately show ?thesis using mok rm m'(2) a(5) q(5)
      by (intro exI [of _ "Some ?g"] exI [of _ "?pb\<lparr>ps_mem := m'\<rparr>"]) simp
  qed
qed

section \<open>Segments and the stream\<close>

definition seg_from :: "tcp_seg \<Rightarrow> nat" where
  "seg_from g = sg_tcphdr g + TCP_HLEN + LWIP_TCP_OPT_LENGTH (sg_flags g)"

definition seg_bytes :: "'a tcp_stack \<Rightarrow> tcp_seg \<Rightarrow> u8 list" where
  "seg_bytes w g = rd_bytes (ps_mem (ts_pb w)) (seg_from g) (unat (sg_len g))"

text \<open>The bytes that wait for their acknowledgement or to be sent.\<close>

definition stream :: "'a tcp_stack \<Rightarrow> tcp_seg list \<Rightarrow> u8 list" where
  "stream w gs = concat (map (seg_bytes w) gs)"

text \<open>The sequence numbers of the segments, from \<open>s\<close> to \<open>e\<close> without a gap.\<close>

fun chained :: "'a tcp_stack \<Rightarrow> u32 \<Rightarrow> tcp_seg list \<Rightarrow> u32 \<Rightarrow> bool" where
  "chained w s [] e = (s = e)"
| "chained w s (g # gs) e = (seg_seqno w g = s \<and> chained w (s + TCP_TCPLEN w g) gs e)"

text \<open>
  A segment lies in the memory of its pbuf, up to its end, with room for an IP header in front, and
  nobody else holds the pbuf; with the headers it fits in a packet of 1500 bytes.
\<close>

definition seg_fields :: "nat \<Rightarrow> pbuf \<Rightarrow> tcp_seg \<Rightarrow> bool" where
  "seg_fields p q g \<longleftrightarrow> p_next q = None \<and> p_ref q = 1 \<and> p_type_internal q = 0x80 \<and> p_tot_len q = p_len q \<and> p + SIZEOF_STRUCT_PBUF + 20 \<le> sg_tcphdr g
     \<and> p_payload q \<le> sg_tcphdr g \<and> p_payload q + unat (p_len q) = seg_from g + unat (sg_len g)"

definition seg_mem :: "pbuf_state \<Rightarrow> tcp_seg \<Rightarrow> bool" where
  "seg_mem pb g \<longleftrightarrow> (\<exists>p q. sg_p g = Some p \<and> ps_bufs pb p = Some q \<and> pbuf_get_allocsrc q = 0 \<and> seg_fields p q g)
     \<and> seg_from g + unat (sg_len g) \<le> sg_tcphdr g + 1480"

lemma seg_memE:
  assumes "seg_mem pb g"
  obtains p q where "sg_p g = Some p" "ps_bufs pb p = Some q" "pbuf_get_allocsrc q = 0" "p_payload q \<le> sg_tcphdr g"
    "seg_from g + unat (sg_len g) \<le> p_payload q + unat (p_len q)"
  using assms by (auto simp: seg_mem_def seg_fields_def)

definition same_seg :: "'a tcp_stack \<Rightarrow> 'a tcp_stack \<Rightarrow> tcp_seg \<Rightarrow> bool" where
  "same_seg w w' g \<longleftrightarrow> seg_bytes w' g = seg_bytes w g \<and> seg_seqno w' g = seg_seqno w g \<and> TCP_TCPLEN w' g = TCP_TCPLEN w g"

lemma chained_append: "chained w s (xs @ ys) e \<longleftrightarrow> (\<exists>t. chained w s xs t \<and> chained w t ys e)"
  by (induction xs arbitrary: s) auto

lemma chained_same: "(\<And>g. g \<in> set gs \<Longrightarrow> same_seg w w' g) \<Longrightarrow> chained w' s gs e = chained w s gs e"
  by (induction gs arbitrary: s) (auto simp: same_seg_def)

lemma stream_same: "(\<And>g. g \<in> set gs \<Longrightarrow> same_seg w w' g) \<Longrightarrow> stream w' gs = stream w gs"
  unfolding stream_def same_seg_def by (metis (no_types, lifting) map_cong)

lemma stream_simps [simp]: "stream w [] = []" "stream w (g # gs) = seg_bytes w g @ stream w gs" "stream w (xs @ ys) = stream w xs @ stream w ys"
  by (simp_all add: stream_def)

text \<open>What happens outside a segment does not concern it.\<close>

lemma same_segI:
  assumes "\<And>x. sg_tcphdr g \<le> x \<Longrightarrow> x < seg_from g + unat (sg_len g) \<Longrightarrow> ps_mem (ts_pb w') x = ps_mem (ts_pb w) x"
  shows "same_seg w w' g"
proof -
  have "rd_bytes (ps_mem (ts_pb w')) (sg_tcphdr g + k) n = rd_bytes (ps_mem (ts_pb w)) (sg_tcphdr g + k) n" if "k + n \<le> 20" for k n
    using that by (intro rd_bytes_cong assms) (auto simp: seg_from_def TCP_HLEN_def)
  then have "seg_seqno w' g = seg_seqno w g" "TCP_TCPLEN w' g = TCP_TCPLEN w g"
    by (simp_all add: seg_seqno_def ld_u32_def TCP_TCPLEN_def TCPH_FLAGS_def ld_u16_def)
  moreover have "seg_bytes w' g = seg_bytes w g"
    unfolding seg_bytes_def by (intro rd_bytes_cong assms) (auto simp: seg_from_def)
  ultimately show ?thesis by (simp add: same_seg_def)
qed

lemma keeps_seg:
  assumes "keeps (ts_pb w) (ts_pb w')" "seg_mem (ts_pb w) g"
  shows "same_seg w w' g" "seg_mem (ts_pb w') g"
proof -
  obtain p q where q: "sg_p g = Some p" "ps_bufs (ts_pb w) p = Some q" "pbuf_get_allocsrc q = 0"
    "p_payload q \<le> sg_tcphdr g" "seg_from g + unat (sg_len g) \<le> p_payload q + unat (p_len q)" by (rule seg_memE [OF assms(2)])
  show "same_seg w w' g" using keeps_mem [OF assms(1) q(2,3)] q(4,5) by (intro same_segI) auto
  show "seg_mem (ts_pb w') g" using keeps_bufs [OF assms(1) q(2)] q assms(2) by (auto simp: seg_mem_def)
qed

text \<open>The last segment has room for \<open>ov\<close> more bytes behind its data.\<close>

definition tail_ext :: "pbuf_state \<Rightarrow> tcp_seg \<Rightarrow> u16 \<Rightarrow> nat \<times> pbuf" where
  "tail_ext pb g ov = (let p = the (sg_p g); q = the (ps_bufs pb p) in (p, q\<lparr>p_len := p_len q + ov, p_tot_len := p_tot_len q + ov\<rparr>))"

definition tail_room :: "pbuf_state \<Rightarrow> tcp_seg \<Rightarrow> u16 \<Rightarrow> bool" where
  "tail_room pb g ov \<longleftrightarrow> (\<exists>p q. sg_p g = Some p \<and> ps_bufs pb p = Some q \<and> pbuf_get_allocsrc q = 0 \<and> seg_fields p q g
     \<and> unat (p_len q) + unat ov < 65536) \<and> seg_from g + unat (sg_len g) + unat ov \<le> sg_tcphdr g + 1480 \<and> room {tail_ext pb g ov} pb"

lemma tail_room_keeps:
  assumes "tail_room pb g ov" "keeps pb pb'" "room {tail_ext pb g ov} pb'"
  shows "tail_room pb' g ov"
proof -
  obtain p q where q: "sg_p g = Some p" "ps_bufs pb p = Some q" using assms(1) by (auto simp: tail_room_def)
  then have "ps_bufs pb' p = Some q" using keeps_bufs [OF assms(2)] by simp
  then show ?thesis using assms(1,3) q by (auto simp: tail_room_def tail_ext_def Let_def)
qed

lemma tail_room_mem: "tail_room pb g ov \<Longrightarrow> seg_mem pb g"
  by (auto simp: tail_room_def seg_mem_def)

text \<open>Segments made since \<open>pb0\<close>, each with a buffer of its own.\<close>

definition fresh_segs :: "pbuf_state \<Rightarrow> pbuf_state \<Rightarrow> tcp_seg list \<Rightarrow> bool" where
  "fresh_segs pb0 pb gs \<longleftrightarrow> distinct (map sg_p gs) \<and> (\<forall>g \<in> set gs. seg_mem pb g \<and> (\<exists>p q. sg_p g = Some p \<and> ps_bufs pb0 p = None
     \<and> ps_bufs pb p = Some q \<and> p_next q = None \<and> p_ref q = 1 \<and> pbuf_get_allocsrc q = 0))"

lemma fresh_segs_Nil [simp]: "fresh_segs pb0 pb []"
  by (simp add: fresh_segs_def)

section \<open>The loop over the new segments\<close>

text \<open>A buffer with the next chunk of the data in it.\<close>

lemma buffer_ready:
  assumes m: "mem_ok (ts_pb w) R S" "room T (ts_pb w)" and len: "len \<le> mss" "length chunk = unat len"
  obtains (none) pb' where "tcp_pbuf_prealloc PBUF_TRANSPORT len mss w = Some (None, w\<lparr>ts_pb := pb'\<rparr>)"
      "mem_ok pb' R S" "pcb_pools (ts_pb w) pb'" "room T pb'" "keeps (ts_pb w) pb'"
  | (some) p q pb1 pb' where "tcp_pbuf_prealloc PBUF_TRANSPORT len mss w = Some (Some (p, mss - len), w\<lparr>ts_pb := pb1\<rparr>)"
      "ps_bufs pb1 p = Some q" "q = new_pbuf (p + SIZEOF_STRUCT_PBUF + 54) len len PBUF_RAM"
      "st_bytes (p_payload q) chunk (w\<lparr>ts_pb := pb1\<rparr>) = w\<lparr>ts_pb := pb'\<rparr>"
      "mem_ok pb' (add_mset p R) S" "pcb_pools (ts_pb w) pb'" "room T pb'" "keeps (ts_pb w) pb'" "ps_bufs (ts_pb w) p = None" "ps_bufs pb' p = Some q"
      "room {(p, new_pbuf (p + SIZEOF_STRUCT_PBUF + 54) mss mss PBUF_RAM)} pb'" "rd_bytes (ps_mem pb') (p_payload q) (unat len) = chunk"
      "p \<notin> fst ` T"
proof -
  have off: "pbuf_layer_offset PBUF_TRANSPORT = 54" by simp
  from prealloc_ok [OF m len(1), of PBUF_TRANSPORT, unfolded off] obtain r pb1 where
    a: "tcp_pbuf_prealloc PBUF_TRANSPORT len mss w = Some (r, w\<lparr>ts_pb := pb1\<rparr>)" "pcb_pools (ts_pb w) pb1" "room T pb1" "keeps (ts_pb w) pb1"
    "case r of None \<Rightarrow> mem_ok pb1 R S
       | Some (p, ov) \<Rightarrow> mem_ok pb1 (add_mset p R) S \<and> ov = mss - len \<and> ps_bufs (ts_pb w) p = None
           \<and> ps_bufs pb1 p = Some (new_pbuf (p + SIZEOF_STRUCT_PBUF + 54) len len PBUF_RAM)
           \<and> room {(p, new_pbuf (p + SIZEOF_STRUCT_PBUF + 54) mss mss PBUF_RAM)} pb1" by blast
  show ?thesis
  proof (cases r)
    case None
    then show ?thesis using a none [of pb1] by simp
  next
    case (Some po)
    then obtain p where p: "r = Some (p, mss - len)" "mem_ok pb1 (add_mset p R) S" "ps_bufs (ts_pb w) p = None"
      "ps_bufs pb1 p = Some (new_pbuf (p + SIZEOF_STRUCT_PBUF + 54) len len PBUF_RAM)"
      "room {(p, new_pbuf (p + SIZEOF_STRUCT_PBUF + 54) mss mss PBUF_RAM)} pb1" using a(5) by (cases po) auto
    let ?q = "new_pbuf (p + SIZEOF_STRUCT_PBUF + 54) len len PBUF_RAM"
    let ?pb = "pb1\<lparr>ps_mem := wr_bytes (ps_mem pb1) (p_payload ?q) chunk\<rparr>"
    have "keeps (ts_pb w) ?pb"
    proof (rule keeps_new [OF a(4) p(3) _ p(4)])
      show "pinv pb1" using p(2) by (simp add: mem_ok_def)
      show "ps_mem ?pb x = ps_mem pb1 x" if "\<not> (p + SIZEOF_STRUCT_PBUF \<le> x \<and> x < p_payload ?q + unat (p_len ?q))" for x
        using that len(2) by (auto simp: wr_bytes_def)
    qed (simp_all add: new_pbuf_allocsrc)
    moreover have "rd_bytes (ps_mem ?pb) (p_payload ?q) (unat len) = chunk"
      using rd_wr_same [of chunk "unat len" "ps_mem pb1" "p_payload ?q"] len(2) by simp
    moreover have "p \<notin> fst ` T" using roomD [OF m(2)] p(3) by force
    ultimately show ?thesis using a p by (intro some [of p pb1 ?q ?pb]) (simp_all add: st_bytes_def)
  qed
qed

text \<open>The segment for it.\<close>

lemma made_segment:
  assumes m: "mem_ok pb (add_mset p R) S" "room T pb" "p \<notin> fst ` T" and k: "keeps pb0 pb" "ps_bufs pb0 p = None"
    and q: "ps_bufs pb p = Some q" "q = new_pbuf (p + SIZEOF_STRUCT_PBUF + 54) len len PBUF_RAM"
    and r: "room {(p, new_pbuf (p + SIZEOF_STRUCT_PBUF + 54) mss mss PBUF_RAM)} pb" "len \<le> mss" "unat mss \<le> 1460"
    and b: "ts_pcbs w pcb = Some b"
  obtains (none) pb' where "tcp_create_segment pcb p 0 seqno 0 (w\<lparr>ts_pb := pb\<rparr>) = Some (None, w\<lparr>ts_pb := pb'\<rparr>)"
      "mem_ok pb' R S" "pcb_pools pb pb'" "room T pb'" "keeps pb0 pb'"
  | (some) g pb' where "tcp_create_segment pcb p 0 seqno 0 (w\<lparr>ts_pb := pb\<rparr>) = Some (Some g, w\<lparr>ts_pb := pb'\<rparr>)"
      "mem_ok pb' (add_mset p R) (add_mset (sg_elem g) S)" "pcb_pools pb pb'" "room T pb'" "keeps pb0 pb'" "sg_p g = Some p"
      "fresh_segs pb0 pb' [g]" "seg_bytes (w\<lparr>ts_pb := pb'\<rparr>) g = rd_bytes (ps_mem pb) (p_payload q) (unat len)"
      "seg_seqno (w\<lparr>ts_pb := pb'\<rparr>) g = seqno" "TCP_TCPLEN (w\<lparr>ts_pb := pb'\<rparr>) g = ucast len" "tail_room pb' g (mss - len)" "sg_len g = len"
proof -
  have len: "unat len \<le> unat mss" "unat len \<le> 1460" "unat (mss - len) = unat mss - unat len"
    using r(2,3) by (simp_all add: word_le_nat_alt unat_sub)
  have q': "p_next q = None" "p_ref q = 1" "p_type_internal q = 0x80" "p_tot_len q = p_len q" "p_payload q = p + SIZEOF_STRUCT_PBUF + 54"
    "p_len q = len" "pbuf_get_allocsrc q = 0" by (simp_all add: q(2) new_pbuf_allocsrc)
  let ?q = "q\<lparr>p_payload := p_payload q - 20, p_len := p_len q + 20, p_tot_len := p_tot_len q + 20\<rparr>"
  have sel: "ts_pb (w\<lparr>ts_pb := pb\<rparr>) = pb" "ts_pcbs (w\<lparr>ts_pb := pb\<rparr>) = ts_pcbs w" "w\<lparr>ts_pb := pb, ts_pb := x\<rparr> = w\<lparr>ts_pb := x\<rparr>" for x by simp_all
  have pl: "p + SIZEOF_STRUCT_PBUF + 20 \<le> p_payload q" "unat (p_len q) + 20 < 65536" using q' len(2) by simp_all
  from create_segment_ok [of "w\<lparr>ts_pb := pb\<rparr>" p R S T pb0 q pcb b seqno, unfolded sel, OF m k q(1) q'(1-4) pl b] obtain rs pb' where
    c: "tcp_create_segment pcb p 0 seqno 0 (w\<lparr>ts_pb := pb\<rparr>) = Some (rs, w\<lparr>ts_pb := pb'\<rparr>)" "pcb_pools pb pb'" "room T pb'" "keeps pb0 pb'"
    "case rs of None \<Rightarrow> mem_ok pb' R S
       | Some g \<Rightarrow> mem_ok pb' (add_mset p R) (add_mset (sg_elem g) S) \<and> sg_p g = Some p \<and> sg_len g = p_len q \<and> sg_flags g = 0
           \<and> sg_tcphdr g = p_payload q - 20
           \<and> pb' = pb\<lparr>ps_bufs := (ps_bufs pb)(p \<mapsto> ?q), ps_pools := snd (memp_malloc MEMP_TCP_SEG (ps_pools pb)), ps_mem := ps_mem pb'\<rparr>
           \<and> hdr_stored (ps_mem pb) (ps_mem pb') (p_payload q - 20) seqno" by blast
  show ?thesis
  proof (cases rs)
    case None
    then show ?thesis using c none [of pb'] by simp
  next
    case (Some g)
    then have g: "mem_ok pb' (add_mset p R) (add_mset (sg_elem g) S)" "sg_p g = Some p" "sg_len g = len" "sg_flags g = 0" "sg_tcphdr g = p_payload q - 20"
      and pb': "pb' = pb\<lparr>ps_bufs := (ps_bufs pb)(p \<mapsto> ?q), ps_pools := snd (memp_malloc MEMP_TCP_SEG (ps_pools pb)), ps_mem := ps_mem pb'\<rparr>"
      and h: "hdr_stored (ps_mem pb) (ps_mem pb') (p_payload q - 20) seqno" using c(5) q' by simp_all
    have sf: "seg_from g = p_payload q" using g q'(5) by (simp add: seg_from_def TCP_HLEN_def LWIP_TCP_OPT_LENGTH_def)
    have bp: "ps_bufs pb' p = Some ?q" by (subst pb') simp
    have l: "unat (len + 20) = unat len + 20" "unat (len + 20 + (mss - len)) = unat mss + 20" using len r(3) by (simp_all add: unat_word_ariths)
    have "seg_bytes (w\<lparr>ts_pb := pb'\<rparr>) g = rd_bytes (ps_mem pb) (p_payload q) (unat len)"
    proof -
      have "rd_bytes (ps_mem pb') (p_payload q) (unat len) = rd_bytes (ps_mem pb) (p_payload q) (unat len)"
        by (rule rd_bytes_cong) (use h q'(5) in \<open>simp add: hdr_stored_def\<close>)
      then show ?thesis by (simp add: seg_bytes_def sf g(3))
    qed
    moreover have "seg_seqno (w\<lparr>ts_pb := pb'\<rparr>) g = seqno" using h g(5) by (simp add: seg_seqno_def ld_u32_def hdr_stored_def)
    moreover have "TCP_TCPLEN (w\<lparr>ts_pb := pb'\<rparr>) g = ucast len"
      using h g(3,5) by (simp add: TCP_TCPLEN_def TCPH_FLAGS_def ld_u16_def hdr_stored_def TCP_FLAGS_def)
    moreover have "fresh_segs pb0 pb' [g]"
      using g(2,3,5) bp k(2) q' sf l len(2) by (auto simp: fresh_segs_def seg_mem_def seg_fields_def pbuf_get_allocsrc_def)
    moreover have "tail_room pb' g (mss - len)"
    proof -
      let ?e = "?q\<lparr>p_len := p_len ?q + (mss - len), p_tot_len := p_tot_len ?q + (mss - len)\<rparr>"
      let ?n = "new_pbuf (p + SIZEOF_STRUCT_PBUF + 54) mss mss PBUF_RAM"
      have "pinv (swapped p ?n pb)" using r(1) by (simp add: room_def)
      then have "pinv ((swapped p ?n pb)\<lparr>ps_bufs := (ps_bufs (swapped p ?n pb))(p \<mapsto> ?e)\<rparr>)"
        by (rule pinv_refield [where b = ?n]) (use q' l in \<open>simp_all add: swapped_def new_pbuf_allocsrc\<close>)
      then have "pinv (swapped p ?e pb)" by (simp add: swapped_def)
      from pinv_memp_malloc [OF this, of MEMP_TCP_SEG]
      have "pinv ((swapped p ?e pb)\<lparr>ps_pools := snd (memp_malloc MEMP_TCP_SEG (ps_pools pb)), ps_mem := ps_mem pb'\<rparr>)" by (simp add: pool_idx)
      moreover have "swapped p ?e pb' = (swapped p ?e pb)\<lparr>ps_pools := snd (memp_malloc MEMP_TCP_SEG (ps_pools pb)), ps_mem := ps_mem pb'\<rparr>"
        by (subst pb') (rule pbuf_state.equality; simp add: swapped_def)
      ultimately have "pinv (swapped p ?e pb')" by (simp only:)
      then have "room {(p, ?e)} pb'" using bp by (simp add: room_def)
      then show ?thesis using g bp q' sf l len r(3) by (auto simp: tail_room_def seg_fields_def tail_ext_def pbuf_get_allocsrc_def)
    qed
    ultimately show ?thesis using c Some g by (intro some [of g pb']) simp_all
  qed
qed

lemma fresh_segs_Cons:
  assumes g: "fresh_segs pb0 pb1 [g]" and gs: "fresh_segs pb1 pb2 gs" and k: "keeps pb0 pb1" "keeps pb1 pb2"
  shows "fresh_segs pb0 pb2 (g # gs)"
proof -
  obtain p q where p: "sg_p g = Some p" "ps_bufs pb0 p = None" "ps_bufs pb1 p = Some q" "p_next q = None" "p_ref q = 1" "pbuf_get_allocsrc q = 0" "seg_mem pb1 g"
    using g by (auto simp: fresh_segs_def)
  have "ps_bufs pb2 p = Some q" by (rule keeps_bufs [OF k(2) p(3)])
  moreover have "seg_mem pb2 g" using p(1,7) keeps_bufs [OF k(2)] unfolding seg_mem_def by blast
  moreover have "ps_bufs pb0 a = None" if "ps_bufs pb1 a = None" for a using that keeps_bufs [OF k(1)] by (cases "ps_bufs pb0 a") auto
  ultimately show ?thesis using p gs unfolding fresh_segs_def by (auto; blast)
qed

lemma clen_single: "ps_bufs pb p = Some q \<Longrightarrow> p_next q = None \<Longrightarrow> pbuf_clen (Some p) pb = Some 1"
  by (simp add: pbuf_clen_def pbuf_clen_loop.simps [of "Some p"] pbuf_clen_loop.simps [of None])

text \<open>The loop: the segments it makes hold the rest of the data, and nothing else changes.\<close>

definition loop_result :: "nat \<Rightarrow> 'a tcp_stack \<Rightarrow> nat multiset \<Rightarrow> nat multiset \<Rightarrow> (nat \<times> pbuf) set \<Rightarrow> u32 \<Rightarrow> u8 list \<Rightarrow> u16 \<Rightarrow> u16
    \<Rightarrow> bool \<Rightarrow> u16 \<Rightarrow> tcp_seg list \<Rightarrow> pbuf_state \<Rightarrow> bool" where
  "loop_result pcb w R S T lbb data pos ov err ov' new pb' \<longleftrightarrow>
     mem_ok pb' (seg_refs new + R) (seg_elems new + S) \<and> pcb_pools (ts_pb w) pb' \<and> room T pb' \<and> keeps (ts_pb w) pb' \<and> fresh_segs (ts_pb w) pb' new
     \<and> (\<not> err \<longrightarrow> stream (w\<lparr>ts_pb := pb'\<rparr>) new = drop (unat pos) data
          \<and> chained (w\<lparr>ts_pb := pb'\<rparr>) (lbb + ucast pos) new (lbb + of_nat (length data))
          \<and> (new = [] \<longrightarrow> ov' = ov) \<and> (new \<noteq> [] \<longrightarrow> tail_room pb' (last new) ov'))"

lemma loop_result_stop:
  assumes "mem_ok pb' R S" "pcb_pools (ts_pb w) pb'" "room T pb'" "keeps (ts_pb w) pb'"
  shows "loop_result pcb w R S T lbb data pos ov True ov' [] pb'"
  using assms by (simp add: loop_result_def)

lemma loop_result_step:
  assumes g: "pcb_pools (ts_pb w) pb1" "keeps (ts_pb w) pb1" "fresh_segs (ts_pb w) pb1 [g]" "sg_p g = Some p"
      "seg_bytes (w\<lparr>ts_pb := pb1\<rparr>) g = take (unat len) (drop (unat pos) data)" "seg_seqno (w\<lparr>ts_pb := pb1\<rparr>) g = lbb + ucast pos"
      "TCP_TCPLEN (w\<lparr>ts_pb := pb1\<rparr>) g = ucast len" "tail_room pb1 g ov1"
    and len: "unat (pos + len) = unat pos + unat len"
    and r: "loop_result pcb (w\<lparr>ts_pb := pb1\<rparr>) (add_mset p R) (add_mset (sg_elem g) S) (insert (tail_ext pb1 g ov1) T) lbb data (pos + len) ov1 err ov' new pb'"
  shows "loop_result pcb w R S T lbb data pos ov err ov' (g # new) pb'"
proof -
  note r = r [unfolded loop_result_def, simplified]
  have gm: "seg_mem pb1 g" using g(3) by (simp add: fresh_segs_def)
  have same: "same_seg (w\<lparr>ts_pb := pb1\<rparr>) (w\<lparr>ts_pb := pb'\<rparr>) g" using keeps_seg(1) [of "w\<lparr>ts_pb := pb1\<rparr>" "w\<lparr>ts_pb := pb'\<rparr>" g] r gm by simp
  have "tail_room pb' g ov1" using r by (intro tail_room_keeps [OF g(8)]) (auto simp: room_def)
  moreover have "(ucast (pos + len) :: u32) = ucast pos + ucast len"
    using len unat_u16_less [of "pos + len"] by (simp add: word_unat_eq_iff unat_word_ariths unat_u16_ucast)
  moreover have "drop (unat pos) data = take (unat len) (drop (unat pos) data) @ drop (unat pos + unat len) data"
    by (metis append_take_drop_id drop_drop add.commute)
  moreover have "fresh_segs (ts_pb w) pb' (g # new)" using r by (intro fresh_segs_Cons [OF g(3) _ g(2)]) auto
  ultimately show ?thesis using r g same len keeps_trans [OF g(2)] pcb_pools_trans [OF g(1)] unfolding loop_result_def
    by (auto simp: same_seg_def own_next_def room_def ac_simps)
qed

lemma write_loop_ok:
  assumes "mem_ok (ts_pb w) R S" "room T (ts_pb w)" "ts_pcbs w pcb = Some b" "0 < unat mss" "unat mss \<le> 1460"
    "length data < 65536" "unat pos \<le> length data"
  shows "\<exists>err ql ov' new pb'. write_loop pcb data mss pos n ov queue w = Some (err, ql, ov', queue @ new, w\<lparr>ts_pb := pb'\<rparr>)
    \<and> loop_result pcb w R S T (t_snd_lbb b) data pos ov err ov' new pb'"
  using assms
proof (induction "length data - unat pos" arbitrary: pos n ov queue w R S T rule: less_induct)
  case less
  let ?len = "of_nat (length data) :: u16"
  have L: "unat ?len = length data" using less.prems(6) by (simp add: unat_of_nat)
  have stop: "\<exists>err ql ov'' new pb''. Some (True, ql', ov', queue, w\<lparr>ts_pb := pb'\<rparr>) = Some (err, ql, ov'', queue @ new, w\<lparr>ts_pb := pb''\<rparr>)
      \<and> loop_result pcb w R S T (t_snd_lbb b) data pos ov err ov'' new pb''"
    if "mem_ok pb' R S" "pcb_pools (ts_pb w) pb'" "room T pb'" "keeps (ts_pb w) pb'" for ql' ov' pb'
    using loop_result_stop [OF that] by (intro exI [of _ True] exI [of _ ql'] exI [of _ ov'] exI [of _ "[]"] exI [of _ pb']) simp
  show ?case
  proof (cases "pos < ?len")
    case False
    then have e: "length data = unat pos" using less.prems(7) L by (simp add: word_less_nat_alt)
    then have "loop_result pcb w R S T (t_snd_lbb b) data pos ov False ov [] (ts_pb w)"
      using less.prems(1,2) by (simp add: loop_result_def)
    then show ?thesis using False
      by (intro exI [of _ False] exI [of _ n] exI [of _ ov] exI [of _ "[]"] exI [of _ "ts_pb w"]) (simp add: write_loop.simps)
  next
    case True
    define len where "len = min (?len - pos) mss"
    let ?chunk = "take (unat len) (drop (unat pos) data)"
    have "unat (?len - pos) = length data - unat pos" using True L by (simp add: unat_sub word_less_nat_alt word_le_nat_alt)
    then have ln: "0 < unat len" "unat len \<le> length data - unat pos" "len \<le> mss"
      using True less.prems(4) L by (auto simp: len_def min_def word_le_nat_alt word_less_nat_alt)
    then have ch: "length ?chunk = unat len" and ps: "unat (pos + len) = unat pos + unat len"
      using less.prems(6,7) by (auto simp: unat_word_ariths)
    show ?thesis
    proof (cases rule: buffer_ready [OF less.prems(1,2) ln(3) ch])
      case (1 pb1)
      then show ?thesis using stop [of pb1 n ov] True by (subst write_loop.simps) (simp add: Let_def len_def [symmetric])
    next
      case (2 p q pb1 pb2)
      have src: "p_next q = None" "p_ref q = 1" "pbuf_get_allocsrc q = 0" using 2(3) by (simp_all add: new_pbuf_allocsrc)
      have c: "pbuf_clen (Some p) pb2 = Some 1" by (rule clen_single [OF 2(10) src(1)])
      let ?create = "tcp_create_segment pcb p 0 (t_snd_lbb b + ucast pos) 0 (w\<lparr>ts_pb := pb2\<rparr>)"
      have step: "write_loop pcb data mss pos n ov queue w =
        (if n + 1 > TCP_SND_QUEUELEN
         then Option.bind (stack_pb (pbuf_free (Some p)) (w\<lparr>ts_pb := pb2\<rparr>)) (\<lambda>(_, w). Some (True, n + 1, mss - len, queue, w))
         else Option.bind ?create (\<lambda>(seg, w). case seg of None \<Rightarrow> Some (True, n + 1, mss - len, queue, w)
                | Some seg \<Rightarrow> write_loop pcb data mss (pos + len) (n + 1) (mss - len) (queue @ [seg]) w))"
        using True 2(1,2,4) c less.prems(3)
        by (subst write_loop.simps, simp add: Let_def len_def [symmetric] stack_buf_def cong del: if_weak_cong split del: if_split)
          (simp only: len_def)
      show ?thesis
      proof (cases "n + 1 > TCP_SND_QUEUELEN")
        case True
        from free_new [OF 2(5,7,13,8,9,10) src] obtain k pb3 where
          "pbuf_free (Some p) pb2 = Some (k, pb3)" "mem_ok pb3 R S" "pcb_pools pb2 pb3" "room T pb3" "keeps (ts_pb w) pb3" by blast
        then show ?thesis using stop [of pb3 "n + 1" "mss - len"] pcb_pools_trans [OF 2(6)] True unfolding step by (simp add: stack_pb_def)
      next
        case False
        show ?thesis
        proof (cases rule: made_segment [OF 2(5,7,13,8,9,10,3,11) ln(3) less.prems(5,3), of "t_snd_lbb b + ucast pos"])
          case (1 pb3)
          then show ?thesis using stop [of pb3 "n + 1" "mss - len"] pcb_pools_trans [OF 2(6)] False unfolding step by simp
        next
          case sg: (2 g pb3)
          let ?w = "w\<lparr>ts_pb := pb3\<rparr>"
          have rm: "room (insert (tail_ext pb3 g (mss - len)) T) pb3" using sg(4,11) by (auto simp: room_def tail_room_def)
          have "length data - unat (pos + len) < length data - unat pos" "unat (pos + len) \<le> length data" using ps ln less.prems(7) by simp_all
          from less.hyps [OF this(1), of ?w "add_mset p R" "add_mset (sg_elem g) S" "insert (tail_ext pb3 g (mss - len)) T" "n + 1" "mss - len" "queue @ [g]"]
            sg(2) rm less.prems(3-6) this(2) obtain err ql ov' new pb' where
            lp: "write_loop pcb data mss (pos + len) (n + 1) (mss - len) (queue @ [g]) ?w = Some (err, ql, ov', (queue @ [g]) @ new, ?w\<lparr>ts_pb := pb'\<rparr>)"
              "loop_result pcb ?w (add_mset p R) (add_mset (sg_elem g) S) (insert (tail_ext pb3 g (mss - len)) T) (t_snd_lbb b) data (pos + len) (mss - len) err ov' new pb'"
            by auto
          have "loop_result pcb w R S T (t_snd_lbb b) data pos ov err ov' (g # new) pb'"
            by (rule loop_result_step [OF _ sg(5,7,6) _ sg(9,10,11) ps lp(2)]) (use pcb_pools_trans [OF 2(6) sg(3)] sg(8) 2(12) in simp_all)
          then show ?thesis using lp(1) False sg(1) unfolding step
            by (intro exI [of _ err] exI [of _ ql] exI [of _ ov'] exI [of _ "g # new"] exI [of _ pb']) simp
        qed
      qed
    qed
  qed
qed

section \<open>Giving up\<close>

text \<open>When memory runs out, the segments made so far are freed again.\<close>

lemma segs_free_fresh:
  assumes "mem_ok (ts_pb w) (seg_refs gs + R) (seg_elems gs + S)" "room T (ts_pb w)" "keeps pb0 (ts_pb w)" "fresh_segs pb0 (ts_pb w) gs" "room T pb0"
  shows "\<exists>pb'. tcp_segs_free gs w = Some (w\<lparr>ts_pb := pb'\<rparr>) \<and> mem_ok pb' R S \<and> pcb_pools (ts_pb w) pb' \<and> room T pb' \<and> keeps pb0 pb'"
  using assms
proof (induction gs arbitrary: w)
  case Nil
  then show ?case by (intro exI [of _ "ts_pb w"]) simp
next
  case (Cons g gs)
  from Cons.prems(4) obtain p q where p: "sg_p g = Some p" "ps_bufs pb0 p = None" "ps_bufs (ts_pb w) p = Some q" "p_next q = None" "p_ref q = 1"
    "pbuf_get_allocsrc q = 0" and gs: "fresh_segs pb0 (ts_pb w) gs" "Some p \<notin> sg_p ` set gs" by (auto simp: fresh_segs_def)
  have m: "mem_ok (ts_pb w) (add_mset p (seg_refs gs + R)) (seg_elems (g # gs) + S)" using Cons.prems(1) p(1) by (simp add: own_next_def)
  have t: "p \<notin> fst ` T" using roomD [OF Cons.prems(5)] p(2) by force
  from free_new [OF m Cons.prems(2) t Cons.prems(3) p(2-6)] obtain c pb1 where
    f: "pbuf_free (Some p) (ts_pb w) = Some (c, pb1)" "mem_ok pb1 (seg_refs gs + R) (seg_elems (g # gs) + S)" "pcb_pools (ts_pb w) pb1" "room T pb1"
      "keeps pb0 pb1" "ps_bufs pb1 = (ps_bufs (ts_pb w))(p := None)" by blast
  let ?pb = "pb1\<lparr>ps_pools := memp_free MEMP_TCP_SEG (Some (sg_elem g)) (ps_pools pb1)\<rparr>"
  have "pool_holds ?pb MEMP_TCP_SEG (seg_elems gs + S)" using f(2) pool_holds_free by (simp add: mem_ok_def)
  moreover have "pinv ?pb" using f(2) by (intro pinv_memp_free) (simp_all add: mem_ok_def pool_idx)
  ultimately have mo: "mem_ok ?pb (seg_refs gs + R) (seg_elems gs + S)" using f(2) by (simp add: mem_ok_def)
  have rm: "room T ?pb" using room_memp_free [OF f(4), of MEMP_TCP_SEG] by (simp add: pool_idx)
  have kp: "keeps pb0 ?pb" using f(5) by (simp add: keeps_def)
  have fr: "fresh_segs pb0 ?pb gs" using gs f(6) unfolding fresh_segs_def seg_mem_def by (auto; force)
  have pp: "pcb_pools (ts_pb w) ?pb" using f(3) by (rule pcb_pools_trans) (auto simp: pcb_pools_def pool_idx memp_free_def)
  from Cons.IH [of "w\<lparr>ts_pb := ?pb\<rparr>"] mo rm kp fr Cons.prems(5) obtain pb' where
    "tcp_segs_free gs (w\<lparr>ts_pb := ?pb\<rparr>) = Some (w\<lparr>ts_pb := pb'\<rparr>)" "mem_ok pb' R S" "pcb_pools ?pb pb'" "room T pb'" "keeps pb0 pb'" by auto
  then show ?case using f(1) p(1) pcb_pools_trans [OF pp]
    by (intro exI [of _ pb']) (simp add: tcp_seg_free_def stack_pb_def stack_free_def)
qed

section \<open>Committing\<close>

text \<open>Bytes written into one pbuf do not concern a segment in another.\<close>

lemma same_seg_other:
  assumes "pinv pb" "seg_mem pb g" "sg_p g \<noteq> Some p" "ps_bufs pb p = Some q" "pbuf_get_allocsrc q = 0"
    and "\<And>x. \<not> (p + SIZEOF_STRUCT_PBUF \<le> x \<and> x < p_payload q + unat (p_len q)) \<Longrightarrow> ps_mem (ts_pb w') x = ps_mem (ts_pb w) x"
  shows "same_seg w w' g"
proof (rule same_segI)
  fix x
  assume x: "sg_tcphdr g \<le> x" "x < seg_from g + unat (sg_len g)"
  obtain a b where b: "sg_p g = Some a" "ps_bufs pb a = Some b" "pbuf_get_allocsrc b = 0" "p_payload b \<le> sg_tcphdr g"
    "seg_from g + unat (sg_len g) \<le> p_payload b + unat (p_len b)" by (rule seg_memE [OF assms(2)])
  have "p_payload b + unat (p_len b) \<le> p \<or> p_payload q + unat (p_len q) \<le> a"
    using ram_apart [OF assms(1) b(2,3) assms(4,5)] assms(3) b(1) by blast
  moreover have "a + SIZEOF_STRUCT_PBUF \<le> p_payload b" by (rule ram_payload [OF assms(1) b(2,3)])
  ultimately show "ps_mem (ts_pb w') x = ps_mem (ts_pb w) x" using x b(4,5) by (intro assms(6)) linarith
qed

lemma fin_syn_kept:
  fixes v :: u16
  assumes "take_bit 2 f = (0 :: u8)"
  shows "(ucast ((v OR ucast f) AND TCP_FLAGS) :: u8) AND (TCP_FIN OR TCP_SYN) = ucast (v AND TCP_FLAGS) AND (TCP_FIN OR TCP_SYN)"
proof -
  have fs: "TCP_FIN OR TCP_SYN = mask 2" by (simp add: TCP_FIN_def TCP_SYN_def mask_eq_exp_minus_1)
  have "take_bit 2 (ucast f :: u16) = 0" using assms by (simp flip: unsigned_take_bit_eq)
  then have "take_bit 2 ((v OR ucast f) AND TCP_FLAGS) = take_bit 2 (v AND TCP_FLAGS)"
    by (simp add: take_bit_and take_bit_or)
  then have "take_bit 2 (ucast ((v OR ucast f) AND TCP_FLAGS) :: u8) = take_bit 2 (ucast (v AND TCP_FLAGS))"
    by (metis unsigned_take_bit_eq)
  then show ?thesis by (simp only: fs take_bit_eq_mask)
qed

text \<open>Another flag is set in the header.\<close>

lemma set_flag_same: "take_bit 2 f = (0 :: u8) \<Longrightarrow> same_seg w (TCPH_SET_FLAG (sg_tcphdr g) f w) g"
proof -
  assume f: "take_bit 2 f = 0"
  let ?h = "sg_tcphdr g" and ?m = "ps_mem (ts_pb w)"
  let ?v = "ld_u16 w (?h + 12) OR ucast f"
  let ?m' = "wr_bytes ?m (?h + 12) [byte_of 1 ?v, byte_of 0 ?v]"
  have m': "TCPH_SET_FLAG ?h f w = w\<lparr>ts_pb := (ts_pb w)\<lparr>ps_mem := ?m'\<rparr>\<rparr>" by (simp add: TCPH_SET_FLAG_def st_u16_def)
  have "rd_bytes ?m' (?h + 4) 4 = rd_bytes ?m (?h + 4) 4" by (rule rd_bytes_cong) (simp add: wr_bytes_def)
  moreover have "rd_bytes ?m' (seg_from g) n = rd_bytes ?m (seg_from g) n" for n
    by (rule rd_bytes_cong) (simp add: wr_bytes_def seg_from_def TCP_HLEN_def)
  moreover have "rd16 (rd_bytes ?m' (?h + 12) 2) 0 = ?v"
  proof -
    have "rd_bytes ?m' (?h + 12) 2 = [byte_of 1 ?v, byte_of 0 ?v]" by (simp add: rd_bytes_2 wr_bytes_def)
    then show ?thesis by (simp only: rd16_bytes)
  qed
  ultimately show ?thesis unfolding m'
    by (simp add: same_seg_def seg_bytes_def seg_seqno_def ld_u32_def TCP_TCPLEN_def TCPH_FLAGS_def ld_u16_def fin_syn_kept [OF f])
qed

text \<open>Appending to the last segment.\<close>

definition longer :: "u16 \<Rightarrow> tcp_seg \<Rightarrow> tcp_seg" where
  "longer n g = g\<lparr>sg_len := sg_len g + n\<rparr>"

lemma longer_sel [simp]: "sg_p (longer n g) = sg_p g" "sg_elem (longer n g) = sg_elem g" "sg_tcphdr (longer n g) = sg_tcphdr g"
  "sg_flags (longer n g) = sg_flags g" "sg_len (longer n g) = sg_len g + n" "seg_from (longer n g) = seg_from g"
  by (simp_all add: longer_def seg_from_def)

lemma extend_tail_single:
  assumes "ps_bufs (ts_pb w) p = Some q" "p_next q = None"
  shows "extend_tail (Some p) n bs w = Some (w\<lparr>ts_pb := (swapped p (q\<lparr>p_len := p_len q + n, p_tot_len := p_tot_len q + n\<rparr>) (ts_pb w))
    \<lparr>ps_mem := wr_bytes (ps_mem (ts_pb w)) (p_payload q + unat (p_len q)) bs\<rparr>\<rparr>)"
proof -
  have q: "q\<lparr>p_tot_len := p_tot_len q + n, p_len := p_len q + n\<rparr> = q\<lparr>p_len := p_len q + n, p_tot_len := p_tot_len q + n\<rparr>"
    by (rule pbuf.equality) simp_all
  have "pb\<lparr>ps_mem := m, ps_bufs := B\<rparr> = pb\<lparr>ps_bufs := B, ps_mem := m\<rparr>" for pb m B
    by (rule pbuf_state.equality) simp_all
  then show ?thesis using assms by (subst extend_tail.simps) (simp add: stack_buf_def stack_buf_upd_def pbuf_upd_def st_bytes_def swapped_def q)
qed

lemma extended:
  assumes m: "mem_ok (ts_pb w) R S" and t: "tail_room (ts_pb w) l ov" and n: "n \<le> ov" "length bs = unat n"
  obtains pb' where "extend_tail (sg_p l) n bs w = Some (w\<lparr>ts_pb := pb'\<rparr>)" "mem_ok pb' R S" "pcb_pools (ts_pb w) pb'"
    "seg_bytes (w\<lparr>ts_pb := pb'\<rparr>) (longer n l) = seg_bytes w l @ bs" "seg_seqno (w\<lparr>ts_pb := pb'\<rparr>) (longer n l) = seg_seqno w l"
    "TCP_TCPLEN (w\<lparr>ts_pb := pb'\<rparr>) (longer n l) = TCP_TCPLEN w l + ucast n" "tail_room pb' (longer n l) (ov - n)"
    "\<forall>g. seg_mem (ts_pb w) g \<and> sg_p g \<noteq> sg_p l \<longrightarrow> same_seg w (w\<lparr>ts_pb := pb'\<rparr>) g \<and> seg_mem pb' g"
    "\<forall>g k. tail_room (ts_pb w) g k \<and> sg_p g \<noteq> sg_p l \<longrightarrow> tail_room pb' g k"
proof -
  let ?pb = "ts_pb w"
  obtain p q where q: "sg_p l = Some p" "ps_bufs ?pb p = Some q" "p_next q = None" "pbuf_get_allocsrc q = 0" "p_tot_len q = p_len q"
    "p_payload q \<le> sg_tcphdr l" "p_payload q + unat (p_len q) = seg_from l + unat (sg_len l)" "unat (p_len q) + unat ov < 65536"
    "p_type_internal q = 0x80" "p_ref q = 1" "p + SIZEOF_STRUCT_PBUF + 20 \<le> sg_tcphdr l" "seg_from l + unat (sg_len l) + unat ov \<le> sg_tcphdr l + 1480"
    and r: "room {(p, q\<lparr>p_len := p_len q + ov, p_tot_len := p_tot_len q + ov\<rparr>)} ?pb"
    using t by (auto simp: tail_room_def seg_fields_def tail_ext_def Let_def)
  let ?q = "q\<lparr>p_len := p_len q + n, p_tot_len := p_tot_len q + n\<rparr>"
  let ?e = "q\<lparr>p_len := p_len q + ov, p_tot_len := p_tot_len q + ov\<rparr>"
  let ?m = "wr_bytes (ps_mem ?pb) (p_payload q + unat (p_len q)) bs"
  let ?pb' = "(swapped p ?q ?pb)\<lparr>ps_mem := ?m\<rparr>" and ?w' = "w\<lparr>ts_pb := (swapped p ?q ?pb)\<lparr>ps_mem := ?m\<rparr>\<rparr>"
  have no: "unat n \<le> unat ov" "unat (ov - n) = unat ov - unat n" using n(1) by (simp_all add: word_le_nat_alt unat_sub)
  have ln: "unat (p_len q + n) = unat (p_len q) + unat n" "unat (p_len q + ov) = unat (p_len q) + unat ov"
    using q(8) no(1) by (simp_all add: unat_word_ariths)
  have "unat (sg_len l) \<le> unat (p_len q)" using q(6,7) by (simp add: seg_from_def)
  then have sl: "unat (sg_len l + n) = unat (sg_len l) + unat n" using q(8) no(1) by (simp add: unat_word_ariths)
  have pe: "pinv (swapped p ?e ?pb)" using r by (simp add: room_def)
  have "pinv ((swapped p ?e ?pb)\<lparr>ps_bufs := (ps_bufs (swapped p ?e ?pb))(p \<mapsto> ?q)\<rparr>)"
    by (rule pinv_refield [OF pe, where b = ?e])
      (use q ln no ram_payload [OF _ q(2,4)] m in \<open>simp_all add: swapped_def pbuf_get_allocsrc_def mem_ok_def\<close>)
  then have pq: "pinv (swapped p ?q ?pb)" by (simp add: swapped_def)
  have "owned (ps_bufs (swapped p ?q ?pb)) R" using owned_fields [of "ps_bufs ?pb" R p q ?q] m q(2) by (simp add: mem_ok_def swapped_def)
  with pq m have mo: "mem_ok ?pb' R S" by (simp add: mem_ok_def pool_holds_def swapped_def)
  have out: "?m x = ps_mem ?pb x" if "\<not> (p_payload q + unat (p_len q) \<le> x \<and> x < p_payload q + unat (p_len q) + unat n)" for x
    using that n(2) by (auto simp: wr_bytes_def)
  have bytes: "seg_bytes ?w' (longer n l) = seg_bytes w l @ bs"
    using rd_wr_mid [of "unat (sg_len l)" bs "unat (sg_len l) + unat n" "ps_mem ?pb" "seg_from l"] n(2) sl q(7)
    by (simp add: seg_bytes_def rd_bytes_take)
  have hdr: "rd_bytes ?m (sg_tcphdr l + k) j = rd_bytes (ps_mem ?pb) (sg_tcphdr l + k) j" if "k + j \<le> 20" for k j
    using that q(7) by (intro rd_bytes_cong out) (simp add: seg_from_def TCP_HLEN_def)
  have seq: "seg_seqno ?w' (longer n l) = seg_seqno w l" by (simp add: seg_seqno_def ld_u32_def hdr)
  have uc: "(ucast (sg_len l + n) :: u32) = ucast (sg_len l) + ucast n"
    using sl unat_u16_less [of "sg_len l + n"] by (simp add: word_unat_eq_iff unat_word_ariths unat_u16_ucast)
  have tl: "TCP_TCPLEN ?w' (longer n l) = TCP_TCPLEN w l + ucast n"
    by (simp add: TCP_TCPLEN_def TCPH_FLAGS_def ld_u16_def hdr uc)
  have "room {(p, ?e)} (swapped p ?q ?pb)" using pe by (simp add: room_def swapped_def)
  then have "room {(p, ?e)} ?pb'" by simp
  then have tr: "tail_room ?pb' (longer n l) (ov - n)"
    using q ln no sl by (simp add: tail_room_def seg_fields_def tail_ext_def Let_def swapped_def pbuf_get_allocsrc_def add.assoc)
  have other: "same_seg w ?w' g \<and> seg_mem ?pb' g" if g: "seg_mem ?pb g" "sg_p g \<noteq> sg_p l" for g
  proof
    have sm: "seg_mem (swapped p ?q ?pb) g" using g q(1) by (auto simp: seg_mem_def swapped_def)
    show "same_seg w ?w' g"
    proof (rule same_seg_other [OF pq sm, of p ?q])
      have "p + SIZEOF_STRUCT_PBUF \<le> p_payload q" using ram_payload [OF _ q(2,4)] m by (simp add: mem_ok_def)
      show "ps_mem (ts_pb ?w') x = ps_mem (ts_pb w) x"
        if "\<not> (p + SIZEOF_STRUCT_PBUF \<le> x \<and> x < p_payload ?q + unat (p_len ?q))" for x
      proof -
        have "\<not> (p_payload q + unat (p_len q) \<le> x \<and> x < p_payload q + unat (p_len q) + unat n)"
          using that ln(1) \<open>p + SIZEOF_STRUCT_PBUF \<le> p_payload q\<close> by auto
        then show ?thesis using out [of x] by simp
      qed
    qed (use g q in \<open>simp_all add: swapped_def pbuf_get_allocsrc_def\<close>)
    show "seg_mem ?pb' g" using sm by (simp add: seg_mem_def)
  qed
  have rq: "room {(p, ?q)} ?pb" using pq q(2) by (simp add: room_def)
  have tails: "tail_room ?pb' g k" if g: "tail_room ?pb g k" "sg_p g \<noteq> sg_p l" for g k
  proof -
    obtain a c where c: "sg_p g = Some a" "ps_bufs ?pb a = Some c" "pbuf_get_allocsrc c = 0" "a \<noteq> p"
      "room {(a, c\<lparr>p_len := p_len c + k, p_tot_len := p_tot_len c + k\<rparr>)} ?pb"
      using g q(1) by (auto simp: tail_room_def tail_ext_def Let_def)
    from room_swapped [OF rq c(5)] c(3,4) have "room {(a, c\<lparr>p_len := p_len c + k, p_tot_len := p_tot_len c + k\<rparr>)} ?pb'"
      by (simp add: pbuf_get_allocsrc_def)
    then show ?thesis using g(1) c by (auto simp: tail_room_def tail_ext_def Let_def swapped_def)
  qed
  have "pcb_pools ?pb ?pb'" by (simp add: pcb_pools_def swapped_def)
  then show ?thesis using extend_tail_single [OF q(2,3), of n bs] mo bytes seq tl tr other tails q(1) by (intro that [of ?pb']) auto
qed

lemma queue_mem [simp]: "seg_mem (pb\<lparr>ps_mem := m\<rparr>) g = seg_mem pb g" "tail_room (pb\<lparr>ps_mem := m\<rparr>) g ov = tail_room pb g ov"
  by (simp_all add: seg_mem_def tail_room_def tail_ext_def)

lemma set_flag_ok:
  assumes "pinv (ts_pb w)" "\<forall>g \<in> set gs. seg_mem (ts_pb w) g" "distinct (map sg_p gs)" "l \<in> set gs" "g \<in> set gs" "take_bit 2 f = (0 :: u8)"
  shows "same_seg w (TCPH_SET_FLAG (sg_tcphdr l) f w) g"
proof (cases "g = l")
  case True
  then show ?thesis using set_flag_same [OF assms(6)] by simp
next
  case False
  then have ne: "sg_p g \<noteq> sg_p l" using assms(3-5) by (auto simp: distinct_map dest: inj_onD)
  obtain p q where q: "sg_p l = Some p" "ps_bufs (ts_pb w) p = Some q" "pbuf_get_allocsrc q = 0" "p_payload q \<le> sg_tcphdr l"
    "seg_from l + unat (sg_len l) \<le> p_payload q + unat (p_len q)" using assms(2,4) seg_memE by metis
  have "p + SIZEOF_STRUCT_PBUF \<le> p_payload q" by (rule ram_payload [OF assms(1) q(2,3)])
  then have "sg_tcphdr l + 12 \<le> x \<and> x < sg_tcphdr l + 14 \<longrightarrow> p + SIZEOF_STRUCT_PBUF \<le> x \<and> x < p_payload q + unat (p_len q)" for x
    using q(4,5) by (auto simp: seg_from_def TCP_HLEN_def)
  then show ?thesis
    by (intro same_seg_other [OF assms(1) _ _ q(2,3)]) (use assms(2,5) ne q(1) in \<open>auto simp: TCPH_SET_FLAG_def st_u16_def wr_bytes_def\<close>)
qed

text \<open>The tail of the queue after phase 1.\<close>

definition lengthen :: "u16 \<Rightarrow> tcp_seg list \<Rightarrow> tcp_seg list" where
  "lengthen n gs = (if n > 0 then butlast gs @ [(last gs)\<lparr>sg_len := sg_len (last gs) + n\<rparr>] else gs)"

lemma lengthen_snoc: "lengthen n (gs @ [g]) = gs @ [longer n g]" if "n > 0"
  using that by (simp add: lengthen_def longer_def)

lemma lengthen_refs:
  assumes "n > 0 \<Longrightarrow> gs \<noteq> []"
  shows "map sg_p (lengthen n gs) = map sg_p gs" "map sg_elem (lengthen n gs) = map sg_elem gs"
proof -
  have "map sg_p (lengthen n gs) = map sg_p gs \<and> map sg_elem (lengthen n gs) = map sg_elem gs"
  proof (cases "n > 0")
    case True
    then obtain xs g where "gs = xs @ [g]" using assms by (cases gs rule: rev_cases) auto
    then show ?thesis using True by (simp add: lengthen_snoc)
  qed (simp add: lengthen_def)
  then show "map sg_p (lengthen n gs) = map sg_p gs" "map sg_elem (lengthen n gs) = map sg_elem gs" by blast+
qed

lemma commit_ok:
  assumes m: "mem_ok (ts_pb w) R S" and sm: "\<forall>g \<in> set (una @ uns @ new). seg_mem (ts_pb w) g" "distinct (map sg_p (una @ uns @ new))"
    and t: "n > 0 \<Longrightarrow> uns \<noteq> [] \<and> tail_room (ts_pb w) (last uns) ov" "n \<le> ov" and bs: "length bs = unat n"
  obtains pb' where "(if n > 0 then extend_tail (sg_p (last uns)) n bs w else Some w) = Some (w\<lparr>ts_pb := pb'\<rparr>)" "mem_ok pb' R S" "pcb_pools (ts_pb w) pb'"
    "\<forall>g \<in> set (una @ lengthen n uns @ new). seg_mem pb' g" "\<forall>g \<in> set (una @ new). same_seg w (w\<lparr>ts_pb := pb'\<rparr>) g"
    "stream (w\<lparr>ts_pb := pb'\<rparr>) (lengthen n uns) = stream w uns @ bs"
    "\<forall>s e. chained w s uns e \<longrightarrow> chained (w\<lparr>ts_pb := pb'\<rparr>) s (lengthen n uns) (e + ucast n)"
    "\<forall>k. new \<noteq> [] \<and> tail_room (ts_pb w) (last new) k \<longrightarrow> tail_room pb' (last new) k"
    "n > 0 \<longrightarrow> tail_room pb' (last (lengthen n uns)) (ov - n)" "n = 0 \<longrightarrow> pb' = ts_pb w"
proof (cases "n > 0")
  case False
  then have "n = 0" by (simp add: word_gt_0)
  then show ?thesis using m sm bs by (intro that [of "ts_pb w"]) (simp_all add: lengthen_def same_seg_def)
next
  case True
  then obtain xs l where uns: "uns = xs @ [l]" using t(1) by (cases uns rule: rev_cases) auto
  then have tl: "tail_room (ts_pb w) l ov" using t(1) True by simp
  obtain pb' where
    e: "extend_tail (sg_p l) n bs w = Some (w\<lparr>ts_pb := pb'\<rparr>)" "mem_ok pb' R S" "pcb_pools (ts_pb w) pb'"
      "seg_bytes (w\<lparr>ts_pb := pb'\<rparr>) (longer n l) = seg_bytes w l @ bs" "seg_seqno (w\<lparr>ts_pb := pb'\<rparr>) (longer n l) = seg_seqno w l"
      "TCP_TCPLEN (w\<lparr>ts_pb := pb'\<rparr>) (longer n l) = TCP_TCPLEN w l + ucast n" "tail_room pb' (longer n l) (ov - n)"
      "\<forall>g. seg_mem (ts_pb w) g \<and> sg_p g \<noteq> sg_p l \<longrightarrow> same_seg w (w\<lparr>ts_pb := pb'\<rparr>) g \<and> seg_mem pb' g"
      "\<forall>g k. tail_room (ts_pb w) g k \<and> sg_p g \<noteq> sg_p l \<longrightarrow> tail_room pb' g k" by (rule extended [OF m tl t(2) bs])
  have "sg_p l \<notin> sg_p ` set (una @ xs @ new)" using sm(2) uns by (auto simp: image_Un)
  then have ne: "sg_p g \<noteq> sg_p l" if "g \<in> set (una @ xs @ new)" for g using that by (metis imageI)
  have old: "same_seg w (w\<lparr>ts_pb := pb'\<rparr>) g \<and> seg_mem pb' g" if "g \<in> set (una @ xs @ new)" for g
    using e(8) ne [OF that] sm(1) that uns by auto
  have st: "stream (w\<lparr>ts_pb := pb'\<rparr>) xs = stream w xs" by (rule stream_same) (use old in auto)
  have ch: "chained (w\<lparr>ts_pb := pb'\<rparr>) s (xs @ [longer n l]) (e + ucast n)" if "chained w s (xs @ [l]) e" for s e
    using that old e(5,6) chained_same [of xs w "w\<lparr>ts_pb := pb'\<rparr>"] by (auto simp: chained_append)
  show ?thesis
  proof (rule that [of pb'])
    show "\<forall>g \<in> set (una @ lengthen n uns @ new). seg_mem pb' g" using old tail_room_mem [OF e(7)] True uns by (auto simp: lengthen_snoc)
    show "\<forall>g \<in> set (una @ new). same_seg w (w\<lparr>ts_pb := pb'\<rparr>) g" using old by auto
    show "\<forall>k. new \<noteq> [] \<and> tail_room (ts_pb w) (last new) k \<longrightarrow> tail_room pb' (last new) k" using e(9) ne [of "last new"] by auto
  qed (use e True uns old st ch in \<open>simp_all add: lengthen_snoc\<close>)
qed

section \<open>\<open>tcp_write\<close>\<close>

text \<open>
  The invariant of the send queues of a PCB: its segments lie in buffers of their own, and if the last unsent
  segment is said to have unused bytes at its end, its buffer has room for them.
\<close>

definition send_ok :: "'a tcp_stack \<Rightarrow> tcp_pcb \<Rightarrow> bool" where
  "send_ok w b \<longleftrightarrow> (\<forall>g \<in> set (t_unacked b @ t_unsent b). seg_mem (ts_pb w) g) \<and> distinct (map sg_p (t_unacked b @ t_unsent b))
     \<and> (t_unsent b \<noteq> [] \<and> t_unsent_oversize b > 0 \<longrightarrow> tail_room (ts_pb w) (last (t_unsent b)) (t_unsent_oversize b))
     \<and> 0 < t_mss b \<and> t_mss b \<le> 1460"

text \<open>A PCB whose queues changed, in the invariant of the stack.\<close>

lemma stack_ok_queued:
  assumes w: "stack_ok w R S" "ts_pcbs w a = Some b" "\<not> queueless (t_state b)" "t_state b' = t_state b" "pcb_pools (ts_pb w) pb"
    and m: "mem_ok pb (pcb_refs b' + all_refs ((ts_pcbs w)(a := None)) + R) (seg_elems (pcb_segs b') + all_elems ((ts_pcbs w)(a := None)) + S)"
  shows "stack_ok (w\<lparr>ts_pb := pb, ts_pcbs := (ts_pcbs w)(a \<mapsto> b')\<rparr>) R S"
proof -
  note o = stack_okD [OF w(1)]
  have d: "dom ((ts_pcbs w)(a \<mapsto> b')) = dom (ts_pcbs w)" using w(2) by auto
  have "memory_ok (w\<lparr>ts_pb := pb, ts_pcbs := (ts_pcbs w)(a \<mapsto> b')\<rparr>) R S"
    using o m d all_upd [OF o(1), of a b'] pcb_layout_pools [OF w(5)] pool_holds_cong [of pb "ts_pb w"] w(5)
    unfolding memory_ok_def by (simp add: netifs_ok_def pcb_pools_def)
  moreover have "lists_ok (w\<lparr>ts_pb := pb, ts_pcbs := (ts_pcbs w)(a \<mapsto> b')\<rparr>)"
    using o(5) w(2-4) by (auto simp: lists_ok_def tcp_pcb_lists_def queueless_def)
  ultimately show ?thesis by (simp add: stack_ok_def)
qed

lemma write_mss_bounds: "0 < t_mss b \<Longrightarrow> t_mss b \<le> 1460 \<Longrightarrow> 0 < unat (write_mss b) \<and> unat (write_mss b) \<le> 1460"
  by (auto simp: write_mss_def Let_def min_def word_le_nat_alt word_less_nat_alt word_unat_eq_iff)

lemma write_oversize_cases:
  assumes "write_oversize b len = (used, ov)"
  shows "used \<le> len" "used \<le> t_unsent_oversize b \<or> used = 0" "used > 0 \<Longrightarrow> t_unsent b \<noteq> [] \<and> t_unsent_oversize b > 0"
    "t_unsent b \<noteq> [] \<Longrightarrow> ov = t_unsent_oversize b - used" "t_unsent b = [] \<Longrightarrow> used = 0 \<and> ov = 0"
  using assms by (auto simp: write_oversize_def Let_def min_le_iff_disj split: if_splits)

text \<open>What the two results of \<open>tcp_write\<close> mean for the queues.\<close>

text \<open>The PCB after the commit.\<close>

definition written :: "tcp_seg list \<Rightarrow> u16 \<Rightarrow> u16 \<Rightarrow> u16 \<Rightarrow> tcp_pcb \<Rightarrow> tcp_pcb" where
  "written unsent ov len ql b = b\<lparr>t_unsent_oversize := ov, t_unsent := unsent, t_snd_lbb := t_snd_lbb b + ucast len,
     t_snd_buf := t_snd_buf b - len, t_snd_queuelen := ql\<rparr>"

lemma written_sel [simp]:
  "t_unsent_oversize (written us ov len ql b) = ov" "t_unsent (written us ov len ql b) = us" "t_unacked (written us ov len ql b) = t_unacked b"
  "t_snd_lbb (written us ov len ql b) = t_snd_lbb b + ucast len" "t_snd_buf (written us ov len ql b) = t_snd_buf b - len"
  "t_state (written us ov len ql b) = t_state b" "t_mss (written us ov len ql b) = t_mss b" "t_ooseq (written us ov len ql b) = t_ooseq b"
  "t_refused_data (written us ov len ql b) = t_refused_data b" "t_snd_queuelen (written us ov len ql b) = ql"
  by (simp_all add: written_def)

text \<open>Only the memory and the PCBs change.\<close>

definition only_pcbs :: "'a tcp_stack \<Rightarrow> 'a tcp_stack \<Rightarrow> bool" where
  "only_pcbs w w' \<longleftrightarrow> w' = w\<lparr>ts_pb := ts_pb w', ts_pcbs := ts_pcbs w'\<rparr>"

definition appended :: "'a tcp_stack \<Rightarrow> tcp_pcb \<Rightarrow> u8 list \<Rightarrow> 'a tcp_stack \<Rightarrow> tcp_pcb \<Rightarrow> bool" where
  "appended w b data w' b' \<longleftrightarrow> stream w' (t_unsent b') = stream w (t_unsent b) @ data \<and> t_unacked b' = t_unacked b
     \<and> stream w' (t_unacked b) = stream w (t_unacked b) \<and> t_snd_lbb b' = t_snd_lbb b + of_nat (length data)
     \<and> unat (t_snd_buf b') + length data = unat (t_snd_buf b)
     \<and> (\<forall>s. chained w s (t_unsent b) (t_snd_lbb b) \<longrightarrow> chained w' s (t_unsent b') (t_snd_lbb b'))
     \<and> (\<forall>s e. chained w' s (t_unacked b) e = chained w s (t_unacked b) e) \<and> (t_unsent b' = [] \<longrightarrow> t_unsent_oversize b' = 0)
     \<and> b' = written (t_unsent b') (t_unsent_oversize b') (of_nat (length data)) (t_snd_queuelen b') b \<and> only_pcbs w w'"

definition refused :: "'a tcp_stack \<Rightarrow> tcp_pcb \<Rightarrow> 'a tcp_stack \<Rightarrow> tcp_pcb \<Rightarrow> bool" where
  "refused w b w' b' \<longleftrightarrow> b' = b\<lparr>t_flags := t_flags b'\<rparr> \<and> stream w' (t_unsent b) = stream w (t_unsent b)
     \<and> stream w' (t_unacked b) = stream w (t_unacked b) \<and> (\<forall>s e. chained w' s (t_unsent b) e = chained w s (t_unsent b) e)
     \<and> (\<forall>s e. chained w' s (t_unacked b) e = chained w s (t_unacked b) e) \<and> only_pcbs w w'"

lemma send_ok_keeps:
  assumes "send_ok w b" "keeps (ts_pb w) (ts_pb w')" "t_unsent b \<noteq> [] \<and> t_unsent_oversize b > 0 \<Longrightarrow> room {tail_ext (ts_pb w) (last (t_unsent b)) (t_unsent_oversize b)} (ts_pb w')"
    and "b' = b\<lparr>t_flags := t_flags b'\<rparr>" "only_pcbs w w'"
  shows "send_ok w' b'" "refused w b w' b'"
proof -
  have b': "t_unacked b' = t_unacked b" "t_unsent b' = t_unsent b" "t_unsent_oversize b' = t_unsent_oversize b" "t_mss b' = t_mss b"
    by (subst assms(4), simp)+
  have k: "same_seg w w' g \<and> seg_mem (ts_pb w') g" if "g \<in> set (t_unacked b @ t_unsent b)" for g
    using keeps_seg [OF assms(2)] assms(1) that unfolding send_ok_def by blast
  show "send_ok w' b'" using assms(1,3) k tail_room_keeps [OF _ assms(2)] unfolding send_ok_def b' by auto
  show "refused w b w' b'" using assms(4,5) k stream_same [of _ w w'] chained_same [of _ w w'] unfolding refused_def by auto
qed

lemma seg_refs_cong:
  assumes "map sg_p gs = map sg_p gs'"
  shows "seg_refs gs = seg_refs gs'"
proof -
  have "seg_refs gs = foldr own_next (map sg_p gs) {#}" for gs by (induction gs) simp_all
  then show ?thesis using assms by simp
qed

lemma pcb_refs_queued:
  assumes "map sg_p u = map sg_p (t_unsent b)" "map sg_elem u = map sg_elem (t_unsent b)" "t_unsent b' = u @ new"
    "t_unacked b' = t_unacked b" "t_ooseq b' = t_ooseq b" "t_refused_data b' = t_refused_data b"
  shows "pcb_refs b' = seg_refs new + pcb_refs b" "seg_elems (pcb_segs b') = seg_elems new + seg_elems (pcb_segs b)"
  using assms seg_refs_cong [OF assms(1)]
  by (simp_all add: pcb_refs_def pcb_segs_def own_next_add_right seg_elems_def ac_simps)

text \<open>The result when a buffer or a segment cannot be allocated.\<close>

lemma write_refused:
  assumes w: "stack_ok w R S" "ts_pcbs w pcb = Some b" "send_ok w b" "\<not> queueless (t_state b)"
    and T: "T = (if t_unsent b \<noteq> [] \<and> t_unsent_oversize b > 0 then {tail_ext (ts_pb w) (last (t_unsent b)) (t_unsent_oversize b)} else {})"
    and l: "loop_result pcb w (all_refs (ts_pcbs w) + R) (all_elems (ts_pcbs w) + S) T lbb data pos ov err ov' new pb1"
  shows "\<exists>w' b'. Option.bind (tcp_set_flags pcb f (w\<lparr>ts_pb := pb1\<rparr>)) (\<lambda>w. Option.bind (tcp_segs_free new w) (\<lambda>w. Some (ERR_MEM, w))) = Some (ERR_MEM, w')
    \<and> stack_ok w' R S \<and> ts_pcbs w' = (ts_pcbs w)(pcb \<mapsto> b') \<and> send_ok w' b' \<and> refused w b w' b'"
proof -
  let ?b = "b\<lparr>t_flags := t_flags b OR f\<rparr>"
  let ?w = "w\<lparr>ts_pb := pb1, ts_pcbs := (ts_pcbs w)(pcb \<mapsto> ?b)\<rparr>"
  have f: "tcp_set_flags pcb f (w\<lparr>ts_pb := pb1\<rparr>) = Some ?w" using w(2) by (simp add: tcp_set_flags_def pcb_upd_def)
  have r0: "room T (ts_pb w)" using w(3) by (simp add: T send_ok_def tail_room_def room_def)
  note l = l [unfolded loop_result_def]
  from segs_free_fresh [of ?w new _ _ T "ts_pb w"] l r0 obtain pb2 where
    s: "tcp_segs_free new ?w = Some (?w\<lparr>ts_pb := pb2\<rparr>)" "mem_ok pb2 (all_refs (ts_pcbs w) + R) (all_elems (ts_pcbs w) + S)" "pcb_pools pb1 pb2"
      "room T pb2" "keeps (ts_pb w) pb2" by auto
  let ?w2 = "w\<lparr>ts_pb := pb2, ts_pcbs := (ts_pcbs w)(pcb \<mapsto> ?b)\<rparr>"
  have e: "?w\<lparr>ts_pb := pb2\<rparr> = ?w2" by simp
  note o = stack_okD [OF w(1)]
  have pr: "pcb_refs ?b = pcb_refs b" "pcb_segs ?b = pcb_segs b" by (simp_all add: pcb_refs_def pcb_segs_def)
  have "stack_ok ?w2 R S"
    using s(2) all_remove [OF o(1) w(2)] pcb_pools_trans [OF _ s(3)] l pr by (intro stack_ok_queued [OF w(1,2,4)]) simp_all
  moreover have "send_ok ?w2 ?b" "refused w b ?w2 ?b"
    using s(4,5) by (intro send_ok_keeps [OF w(3)]; simp add: T only_pcbs_def)+
  ultimately show ?thesis using f s(1) unfolding e by auto
qed

lemma same_seg_trans: "same_seg u v g \<Longrightarrow> same_seg v w g \<Longrightarrow> same_seg u w g"
  by (simp add: same_seg_def)

text \<open>The PSH flag of the last segment, if there is one.\<close>

lemma psh_last:
  assumes "pinv (ts_pb w)" "\<forall>g \<in> set gs. seg_mem (ts_pb w) g" "distinct (map sg_p gs)" "c \<longrightarrow> l \<in> set gs"
  shows "\<exists>m. (if c then TCPH_SET_FLAG (sg_tcphdr l) TCP_PSH w else w) = w\<lparr>ts_pb := (ts_pb w)\<lparr>ps_mem := m\<rparr>\<rparr>
    \<and> (\<forall>g \<in> set gs. same_seg w (w\<lparr>ts_pb := (ts_pb w)\<lparr>ps_mem := m\<rparr>\<rparr>) g)"
proof (cases c)
  case True
  have "TCPH_SET_FLAG (sg_tcphdr l) TCP_PSH w = w\<lparr>ts_pb := (ts_pb w)\<lparr>ps_mem := ps_mem (ts_pb (TCPH_SET_FLAG (sg_tcphdr l) TCP_PSH w))\<rparr>\<rparr>"
    by (simp add: TCPH_SET_FLAG_def st_u16_def)
  moreover have "take_bit 2 TCP_PSH = 0" by (simp add: TCP_PSH_def)
  ultimately show ?thesis using True set_flag_ok [OF assms(1-3)] assms(4)
    by (intro exI [of _ "ps_mem (ts_pb (TCPH_SET_FLAG (sg_tcphdr l) TCP_PSH w))"]) metis
next
  case False
  then show ?thesis by (intro exI [of _ "ps_mem (ts_pb w)"]) (simp add: same_seg_def)
qed

text \<open>The queues after the loop, before the commit.\<close>

lemma after_loop:
  assumes w: "send_ok w b" "T = (if t_unsent b \<noteq> [] \<and> t_unsent_oversize b > 0 then {tail_ext (ts_pb w) (last (t_unsent b)) (t_unsent_oversize b)} else {})"
    and l: "loop_result pcb w R S T lbb data pos ov False ov' new pb1"
  shows "\<forall>g \<in> set (t_unacked b @ t_unsent b @ new). seg_mem pb1 g" "distinct (map sg_p (t_unacked b @ t_unsent b @ new))"
    "\<forall>g \<in> set (t_unacked b @ t_unsent b). same_seg w (w\<lparr>ts_pb := pb1\<rparr>) g"
    "t_unsent b \<noteq> [] \<and> t_unsent_oversize b > 0 \<longrightarrow> tail_room pb1 (last (t_unsent b)) (t_unsent_oversize b)"
proof -
  note l = l [unfolded loop_result_def]
  have k: "keeps (ts_pb w) (ts_pb (w\<lparr>ts_pb := pb1\<rparr>))" using l by simp
  have s: "seg_mem (ts_pb w) g" if "g \<in> set (t_unacked b @ t_unsent b)" for g using w(1) that unfolding send_ok_def by blast
  have old: "same_seg w (w\<lparr>ts_pb := pb1\<rparr>) g \<and> seg_mem pb1 g" if "g \<in> set (t_unacked b @ t_unsent b)" for g
    using keeps_seg [OF k s [OF that]] by simp
  show "\<forall>g \<in> set (t_unacked b @ t_unsent b). same_seg w (w\<lparr>ts_pb := pb1\<rparr>) g" using old by blast
  show "\<forall>g \<in> set (t_unacked b @ t_unsent b @ new). seg_mem pb1 g" using old l by (auto simp: fresh_segs_def)
  have "sg_p h \<noteq> sg_p g" if "g \<in> set new" "h \<in> set (t_unacked b @ t_unsent b)" for g h
    using l that(1) s [OF that(2)] by (auto simp: fresh_segs_def seg_mem_def)
  then have "set (map sg_p (t_unacked b @ t_unsent b)) \<inter> set (map sg_p new) = {}" unfolding set_map by blast
  moreover have "distinct (map sg_p (t_unacked b @ t_unsent b))" "distinct (map sg_p new)" using w(1) l unfolding send_ok_def fresh_segs_def by blast+
  ultimately have "distinct (map sg_p (t_unacked b @ t_unsent b) @ map sg_p new)" unfolding distinct_append by blast
  then show "distinct (map sg_p (t_unacked b @ t_unsent b @ new))" unfolding map_append append_assoc .
  show "t_unsent b \<noteq> [] \<and> t_unsent_oversize b > 0 \<longrightarrow> tail_room pb1 (last (t_unsent b)) (t_unsent_oversize b)"
  proof
    assume c: "t_unsent b \<noteq> [] \<and> t_unsent_oversize b > 0"
    then have 1: "tail_room (ts_pb w) (last (t_unsent b)) (t_unsent_oversize b)" using w(1) unfolding send_ok_def by blast
    have 2: "room {tail_ext (ts_pb w) (last (t_unsent b)) (t_unsent_oversize b)} pb1" using l w(2) c by simp
    have "keeps (ts_pb w) pb1" using k by simp
    from tail_room_keeps [OF 1 this 2] show "tail_room pb1 (last (t_unsent b)) (t_unsent_oversize b)" .
  qed
qed

text \<open>The queue is ready: it holds the data, with its sequence numbers.\<close>

definition ready :: "'a tcp_stack \<Rightarrow> tcp_pcb \<Rightarrow> u8 list \<Rightarrow> 'a tcp_stack \<Rightarrow> tcp_seg list \<Rightarrow> u16 \<Rightarrow> bool" where
  "ready w b data w' us ov \<longleftrightarrow> (\<forall>g \<in> set (t_unacked b @ us). seg_mem (ts_pb w') g) \<and> distinct (map sg_p (t_unacked b @ us))
     \<and> stream w' us = stream w (t_unsent b) @ data \<and> stream w' (t_unacked b) = stream w (t_unacked b) \<and> (\<forall>s e. chained w' s (t_unacked b) e = chained w s (t_unacked b) e)
     \<and> (\<forall>s. chained w s (t_unsent b) (t_snd_lbb b) \<longrightarrow> chained w' s us (t_snd_lbb b + of_nat (length data)))
     \<and> (us \<noteq> [] \<and> ov > 0 \<longrightarrow> tail_room (ts_pb w') (last us) ov) \<and> (us = [] \<longrightarrow> ov = 0)"

lemma commit_ready:
  assumes w: "send_ok w b"
    and T: "T = (if t_unsent b \<noteq> [] \<and> t_unsent_oversize b > 0 then {tail_ext (ts_pb w) (last (t_unsent b)) (t_unsent_oversize b)} else {})"
    and l: "loop_result pcb w R S T (t_snd_lbb b) data used ov False ov' new pb1"
    and len: "length data < 65536" "len = of_nat (length data)" "write_oversize b len = (used, ov)"
  shows "\<exists>pb2. (if used > 0 then extend_tail (sg_p (last (t_unsent b))) used (take (unat used) data) (w\<lparr>ts_pb := pb1\<rparr>) else Some (w\<lparr>ts_pb := pb1\<rparr>))
      = Some (w\<lparr>ts_pb := pb2\<rparr>) \<and> mem_ok pb2 (seg_refs new + R) (seg_elems new + S) \<and> pcb_pools (ts_pb w) pb2
    \<and> ready w b data (w\<lparr>ts_pb := pb2\<rparr>) (lengthen used (t_unsent b) @ new) ov'"
proof -
  let ?w1 = "w\<lparr>ts_pb := pb1\<rparr>" and ?una = "t_unacked b" and ?uns = "t_unsent b"
  note a = after_loop [OF w T l] and wo = write_oversize_cases [OF len(3)]
  note l = l [unfolded loop_result_def]
  have used: "unat used \<le> length data" using wo(1) len(1,2) by (simp add: word_le_nat_alt unat_of_nat)
  have m: "mem_ok (ts_pb ?w1) (seg_refs new + R) (seg_elems new + S)" using l by simp
  have t: "used > 0 \<Longrightarrow> ?uns \<noteq> [] \<and> tail_room (ts_pb ?w1) (last ?uns) (t_unsent_oversize b)" "used \<le> t_unsent_oversize b"
    using wo(2,3) a(4) by auto
  have sm: "\<forall>g \<in> set (?una @ ?uns @ new). seg_mem (ts_pb ?w1) g" using a(1) by simp
  have bs: "length (take (unat used) data) = unat used" using used by simp
  obtain pb2 where c: "(if used > 0 then extend_tail (sg_p (last ?uns)) used (take (unat used) data) ?w1 else Some ?w1) = Some (?w1\<lparr>ts_pb := pb2\<rparr>)"
    "mem_ok pb2 (seg_refs new + R) (seg_elems new + S)" "pcb_pools (ts_pb ?w1) pb2"
    "\<forall>g \<in> set (?una @ lengthen used ?uns @ new). seg_mem pb2 g" "\<forall>g \<in> set (?una @ new). same_seg ?w1 (?w1\<lparr>ts_pb := pb2\<rparr>) g"
    "stream (?w1\<lparr>ts_pb := pb2\<rparr>) (lengthen used ?uns) = stream ?w1 ?uns @ take (unat used) data"
    "\<forall>s e. chained ?w1 s ?uns e \<longrightarrow> chained (?w1\<lparr>ts_pb := pb2\<rparr>) s (lengthen used ?uns) (e + ucast used)"
    "\<forall>k. new \<noteq> [] \<and> tail_room (ts_pb ?w1) (last new) k \<longrightarrow> tail_room pb2 (last new) k"
    "used > 0 \<longrightarrow> tail_room pb2 (last (lengthen used ?uns)) (t_unsent_oversize b - used)" "used = 0 \<longrightarrow> pb2 = ts_pb ?w1"
    by (rule commit_ok [OF m sm a(2) t bs])
  let ?w2 = "w\<lparr>ts_pb := pb2\<rparr>"
  have w2: "?w1\<lparr>ts_pb := pb2\<rparr> = ?w2" "ts_pb ?w1 = pb1" by simp_all
  note c = c [unfolded w2]
  have st: "stream ?w1 ?uns = stream w ?uns" "stream ?w1 ?una = stream w ?una" "stream ?w2 ?una = stream ?w1 ?una" "stream ?w2 new = stream ?w1 new"
    by (rule stream_same; use a(3) c(5) in simp)+
  have ch: "chained ?w1 s ?uns e = chained w s ?uns e" "chained ?w2 s new e = chained ?w1 s new e"
    "chained ?w1 s ?una e = chained w s ?una e" "chained ?w2 s ?una e = chained ?w1 s ?una e" for s e
    by (rule chained_same; use a(3) c(5) in simp)+
  have "stream ?w2 (lengthen used ?uns @ new) = stream w ?uns @ data" using l c(6) st by simp
  moreover have "chained ?w2 s (lengthen used ?uns @ new) (t_snd_lbb b + of_nat (length data))" if "chained w s ?uns (t_snd_lbb b)" for s
    unfolding chained_append using l c(7) ch that by (intro exI [of _ "t_snd_lbb b + ucast used"]) simp
  moreover have "tail_room pb2 (last (lengthen used ?uns @ new)) ov'" if "lengthen used ?uns @ new \<noteq> []" "ov' > 0"
  proof (cases "new = []")
    case False
    then show ?thesis using l c(8) by simp
  next
    case True
    then have ov: "ov' = ov" "lengthen used ?uns \<noteq> []" using l that(1) by auto
    then have u: "?uns \<noteq> []" by (auto simp: lengthen_def split: if_splits dest: t(1))
    then have "ov' = t_unsent_oversize b - used" using wo(4) ov by simp
    then show ?thesis using True c(9,10) a(4) u that(2) by (cases "used > 0") (auto simp: lengthen_def word_gt_0)
  qed
  moreover have "ov' = 0" if "lengthen used ?uns @ new = []" using that l wo(5) by (auto simp: lengthen_def split: if_splits)
  moreover have "distinct (map sg_p (?una @ lengthen used ?uns @ new))" using a(2) lengthen_refs(1) [of used ?uns] t(1) by simp
  moreover have "pcb_pools (ts_pb w) pb2" using l c(3) pcb_pools_trans by blast
  ultimately show ?thesis using c(1,2,4) st ch by (intro exI [of _ pb2]) (simp add: ready_def)
qed

lemma ready_same:
  assumes "ready w b data w1 us ov" "\<forall>g \<in> set (t_unacked b @ us). same_seg w1 w2 g" "ts_pb w2 = (ts_pb w1)\<lparr>ps_mem := m\<rparr>"
  shows "ready w b data w2 us ov"
proof -
  have "stream w2 us = stream w1 us" "stream w2 (t_unacked b) = stream w1 (t_unacked b)" by (rule stream_same; use assms(2) in simp)+
  moreover have "chained w2 s us e = chained w1 s us e" "chained w2 s (t_unacked b) e = chained w1 s (t_unacked b) e" for s e
    by (rule chained_same; use assms(2) in simp)+
  ultimately show ?thesis using assms(1,3) by (simp add: ready_def)
qed

lemma write_accepted:
  assumes w: "stack_ok w R S" "ts_pcbs w pcb = Some b" "send_ok w b" "\<not> queueless (t_state b)"
    and m: "mem_ok pb2 (seg_refs new + (all_refs (ts_pcbs w) + R)) (seg_elems new + (all_elems (ts_pcbs w) + S))" "pcb_pools (ts_pb w) pb2"
    and r: "ready w b data (w\<lparr>ts_pb := pb2\<rparr>) us ov'" "us = u @ new" "map sg_p u = map sg_p (t_unsent b)" "map sg_elem u = map sg_elem (t_unsent b)"
    and len: "length data < 65536" "length data \<le> unat (t_snd_buf b)" "len = of_nat (length data)"
    and c: "c \<longrightarrow> us \<noteq> []" and b': "b' = written us ov' len ql b"
    and w2: "w2 = w\<lparr>ts_pb := pb2, ts_pcbs := (ts_pcbs w)(pcb \<mapsto> b')\<rparr>" and w': "w' = (if c then TCPH_SET_FLAG (sg_tcphdr (last us)) TCP_PSH w2 else w2)"
  shows "stack_ok w' R S \<and> ts_pcbs w' = (ts_pcbs w)(pcb \<mapsto> b') \<and> send_ok w' b' \<and> appended w b data w' b'"
proof -
  have "\<forall>g \<in> set (t_unacked b @ us). same_seg (w\<lparr>ts_pb := pb2\<rparr>) w2 g" by (auto intro!: same_segI simp: w2)
  then have r2: "ready w b data w2 us ov'" by (rule ready_same [OF r(1), where m = "ps_mem pb2"]) (simp add: w2)
  have pv: "pinv (ts_pb w2)" using m(1) by (simp add: w2 mem_ok_def)
  have mem: "\<forall>g \<in> set (t_unacked b @ us). seg_mem (ts_pb w2) g" and dis: "distinct (map sg_p (t_unacked b @ us))" using r2 unfolding ready_def by blast+
  have lst: "c \<longrightarrow> last us \<in> set (t_unacked b @ us)" using c by simp
  from psh_last [OF pv mem dis lst] obtain mm where p: "w' = w2\<lparr>ts_pb := (ts_pb w2)\<lparr>ps_mem := mm\<rparr>\<rparr>" "\<forall>g \<in> set (t_unacked b @ us). same_seg w2 w' g"
    unfolding w' by metis
  have rd: "ready w b data w' us ov'" by (rule ready_same [OF r2 p(2), where m = mm]) (simp add: p(1))
  have w'_eq: "w' = w\<lparr>ts_pb := pb2\<lparr>ps_mem := mm\<rparr>, ts_pcbs := (ts_pcbs w)(pcb \<mapsto> b')\<rparr>" by (simp add: p(1) w2)
  note o = stack_okD [OF w(1)]
  have refs: "pcb_refs b' = seg_refs new + pcb_refs b" "seg_elems (pcb_segs b') = seg_elems new + seg_elems (pcb_segs b)"
    by (rule pcb_refs_queued [OF r(3,4)]; simp add: b' r(2))+
  have "stack_ok w' R S" unfolding w'_eq
    by (rule stack_ok_queued [OF w(1,2,4)]) (use m refs all_remove [OF o(1) w(2)] in \<open>simp_all add: b' add.assoc\<close>)
  moreover have "send_ok w' b'" using rd w(3) by (simp add: send_ok_def ready_def b')
  moreover have "appended w b data w' b'"
  proof -
    have "unat len = length data" using len(1,3) by (simp add: unat_of_nat)
    moreover have "of_nat (unat len) = (ucast len :: u32)" by simp
    then have "(ucast len :: u32) = of_nat (length data)" unfolding calculation by simp
    moreover have "unat (t_snd_buf b - len) + length data = unat (t_snd_buf b)"
      using calculation(1) len(2) by (simp add: unat_sub word_le_nat_alt)
    moreover have "only_pcbs w w'" by (simp add: only_pcbs_def w'_eq)
    ultimately show ?thesis using rd len(3) by (simp add: appended_def ready_def b')
  qed
  ultimately show ?thesis by (simp add: w'_eq)
qed

lemma lengthen_Nil: "lengthen n gs = [] \<longleftrightarrow> gs = [] \<and> \<not> n > 0"
  by (simp add: lengthen_def)

lemma write_body:
  assumes w: "stack_ok w R S" "ts_pcbs w pcb = Some b" "send_ok w b" "\<not> queueless (t_state b)" and len: "length data < 65536" "length data \<le> unat (t_snd_buf b)"
    and chk: "tcp_write_checks pcb (of_nat (length data)) w = Some (ERR_OK, w)"
  shows "\<exists>err w' b'. tcp_write (Some pcb) (Some data) apiflags w = Some (err, w') \<and> stack_ok w' R S \<and> ts_pcbs w' = (ts_pcbs w)(pcb \<mapsto> b') \<and> send_ok w' b'
    \<and> (err = ERR_OK \<and> appended w b data w' b' \<or> err = ERR_MEM \<and> refused w b w' b')"
proof -
  let ?len = "of_nat (length data) :: u16"
  obtain used ov where wo: "write_oversize b ?len = (used, ov)" by fastforce
  define T where "T = (if t_unsent b \<noteq> [] \<and> t_unsent_oversize b > 0 then {tail_ext (ts_pb w) (last (t_unsent b)) (t_unsent_oversize b)} else {})"
  have r0: "room T (ts_pb w)" using w(3) by (simp add: T_def send_ok_def tail_room_def room_def)
  have mss: "0 < unat (write_mss b)" "unat (write_mss b) \<le> 1460" using write_mss_bounds [of b] w(3) unfolding send_ok_def by blast+
  have used: "unat used \<le> length data" using write_oversize_cases(1) [OF wo] len(1) by (simp add: word_le_nat_alt unat_of_nat)
  from write_loop_ok [OF stack_okD(2) [OF w(1)] r0 w(2) mss len(1) used, of "t_snd_queuelen b" ov "[]"] obtain err ql ov' new pb1 where
    lp: "write_loop pcb data (write_mss b) used (t_snd_queuelen b) ov [] w = Some (err, ql, ov', new, w\<lparr>ts_pb := pb1\<rparr>)"
    and l: "loop_result pcb w (all_refs (ts_pcbs w) + R) (all_elems (ts_pcbs w) + S) T (t_snd_lbb b) data used ov err ov' new pb1" by auto
  show ?thesis
  proof (cases err)
    case True
    from write_refused [OF w T_def l, of TF_NAGLEMEMERR] obtain w' b' where
      "Option.bind (tcp_set_flags pcb TF_NAGLEMEMERR (w\<lparr>ts_pb := pb1\<rparr>)) (\<lambda>w. Option.bind (tcp_segs_free new w) (\<lambda>w. Some (ERR_MEM, w))) = Some (ERR_MEM, w')"
      "stack_ok w' R S \<and> ts_pcbs w' = (ts_pcbs w)(pcb \<mapsto> b') \<and> send_ok w' b' \<and> refused w b w' b'" by blast
    then show ?thesis using chk w(2) wo lp True
      by (intro exI [of _ ERR_MEM] exI [of _ w'] exI [of _ b']) (simp add: tcp_write_def)
  next
    case False
    then have e: "err = False" by simp
    from commit_ready [OF w(3) T_def l [unfolded e] len(1) refl wo] obtain pb2 where
      c: "(if used > 0 then extend_tail (sg_p (last (t_unsent b))) used (take (unat used) data) (w\<lparr>ts_pb := pb1\<rparr>) else Some (w\<lparr>ts_pb := pb1\<rparr>))
        = Some (w\<lparr>ts_pb := pb2\<rparr>)" "mem_ok pb2 (seg_refs new + (all_refs (ts_pcbs w) + R)) (seg_elems new + (all_elems (ts_pcbs w) + S))"
        "pcb_pools (ts_pb w) pb2" "ready w b data (w\<lparr>ts_pb := pb2\<rparr>) (lengthen used (t_unsent b) @ new) ov'" by blast
    let ?us = "lengthen used (t_unsent b) @ new"
    let ?b = "written ?us ov' ?len ql b"
    let ?w2 = "w\<lparr>ts_pb := pb2, ts_pcbs := (ts_pcbs w)(pcb \<mapsto> ?b)\<rparr>"
    let ?c = "(t_unsent b \<noteq> [] \<and> t_unsent_oversize b > 0 \<or> new \<noteq> []) \<and> sg_tcphdr (last ?us) \<noteq> 0 \<and> apiflags AND TCP_WRITE_FLAG_MORE = 0"
    let ?w' = "if ?c then TCPH_SET_FLAG (sg_tcphdr (last ?us)) TCP_PSH ?w2 else ?w2"
    have ur: "map sg_p (lengthen used (t_unsent b)) = map sg_p (t_unsent b)" "map sg_elem (lengthen used (t_unsent b)) = map sg_elem (t_unsent b)"
      using write_oversize_cases(3) [OF wo] by (intro lengthen_refs; blast)+
    have cc: "?c \<longrightarrow> ?us \<noteq> []" by (auto simp: lengthen_Nil)
    have "tcp_write (Some pcb) (Some data) apiflags w = Some (ERR_OK, ?w')"
      using chk w(2) wo lp False c(1)
      by (simp add: tcp_write_def Let_def pcb_upd_def lengthen_def [symmetric] written_def [symmetric] cong del: if_weak_cong split del: if_split)
    then show ?thesis using write_accepted [OF w c(2,3,4) refl ur len refl cc refl refl refl] by blast
  qed
qed

lemma tcp_write_spec:
  assumes w: "stack_ok w R S" "ts_pcbs w pcb = Some b" "send_ok w b" and len: "length data < 65536"
  shows "\<exists>err w' b'. tcp_write (Some pcb) (Some data) apiflags w = Some (err, w') \<and> stack_ok w' R S \<and> ts_pcbs w' = (ts_pcbs w)(pcb \<mapsto> b') \<and> send_ok w' b'
    \<and> (err = ERR_OK \<and> appended w b data w' b' \<or> err = ERR_MEM \<and> refused w b w' b'
       \<or> err = ERR_CONN \<and> t_state b \<notin> {ESTABLISHED, CLOSE_WAIT, SYN_SENT, SYN_RCVD} \<and> refused w b w' b')"
proof -
  let ?len = "of_nat (length data) :: u16"
  have same: "send_ok (w\<lparr>ts_pcbs := P\<rparr>) (b\<lparr>t_flags := f\<rparr>) \<and> refused w b (w\<lparr>ts_pcbs := P\<rparr>) (b\<lparr>t_flags := f\<rparr>)" for P f
  proof -
    have "room {tail_ext (ts_pb w) (last (t_unsent b)) (t_unsent_oversize b)} (ts_pb w)" if "t_unsent b \<noteq> [] \<and> t_unsent_oversize b > 0"
      using w(3) that by (simp add: send_ok_def tail_room_def)
    then show ?thesis using send_ok_keeps [OF w(3), of "w\<lparr>ts_pcbs := P\<rparr>" "b\<lparr>t_flags := f\<rparr>"] by (simp add: only_pcbs_def)
  qed
  consider (conn) "t_state b \<notin> {ESTABLISHED, CLOSE_WAIT, SYN_SENT, SYN_RCVD}"
    | (full) "t_state b \<in> {ESTABLISHED, CLOSE_WAIT, SYN_SENT, SYN_RCVD}" "?len \<noteq> 0" "?len > t_snd_buf b \<or> t_snd_queuelen b \<ge> TCP_SND_QUEUELEN"
    | (ok) "t_state b \<in> {ESTABLISHED, CLOSE_WAIT, SYN_SENT, SYN_RCVD}" "?len = 0 \<or> \<not> ?len > t_snd_buf b \<and> \<not> t_snd_queuelen b \<ge> TCP_SND_QUEUELEN" by blast
  then show ?thesis
  proof cases
    case conn
    then have "tcp_write (Some pcb) (Some data) apiflags w = Some (ERR_CONN, w)" using w(2) by (simp add: tcp_write_def tcp_write_checks_def)
    then show ?thesis using conn w same [of "ts_pcbs w" "t_flags b"] by (intro exI [of _ ERR_CONN] exI [of _ w] exI [of _ b]) (simp add: fun_upd_idem)
  next
    case full
    let ?b = "b\<lparr>t_flags := t_flags b OR TF_NAGLEMEMERR\<rparr>"
    have "tcp_write (Some pcb) (Some data) apiflags w = Some (ERR_MEM, w\<lparr>ts_pcbs := (ts_pcbs w)(pcb \<mapsto> ?b)\<rparr>)"
      using full w(2) by (auto simp: tcp_write_def tcp_write_checks_def tcp_set_flags_def pcb_upd_def)
    moreover have "stack_ok (w\<lparr>ts_pcbs := (ts_pcbs w)(pcb \<mapsto> ?b)\<rparr>) R S"
      by (rule stack_ok_upd [OF w(1,2)]) (simp add: same_queues_def pcb_segs_def)
    ultimately show ?thesis using same by (intro exI [of _ ERR_MEM] exI [of _ "w\<lparr>ts_pcbs := (ts_pcbs w)(pcb \<mapsto> ?b)\<rparr>"] exI [of _ ?b]) simp
  next
    case ok
    have "unat ?len = length data" using len by (simp add: unat_of_nat)
    then have sz: "length data \<le> unat (t_snd_buf b)" using ok(2) by (auto simp: word_less_nat_alt)
    have chk: "tcp_write_checks pcb ?len w = Some (ERR_OK, w)" using ok w(2) by (auto simp: tcp_write_checks_def)
    have "\<not> queueless (t_state b)" using ok(1) by (auto simp: queueless_def)
    from write_body [OF w this len sz chk, of apiflags] show ?thesis by blast
  qed
qed

section \<open>A write that is accepted\<close>

text \<open>With an empty queue, data that fits in one segment is accepted as soon as there is memory for the segment.\<close>

lemma write_one_segment:
  assumes w: "stack_ok w R S" "ts_pcbs w pcb = Some b" "send_ok w b" "t_unsent b = []" "t_state b \<in> {ESTABLISHED, CLOSE_WAIT, SYN_SENT, SYN_RCVD}"
    and len: "data \<noteq> []" "length data \<le> unat (write_mss b)" "length data \<le> unat (t_snd_buf b)" "t_snd_queuelen b < TCP_SND_QUEUELEN"
    and mem: "pbuf_alloc PBUF_TRANSPORT (write_mss b) PBUF_RAM (ts_pb w) = Some (Some p, pb)" "fst (memp_malloc MEMP_TCP_SEG (ps_pools (ts_pb w))) \<noteq> None"
  shows "\<exists>w' b' g. tcp_write (Some pcb) (Some data) apiflags w = Some (ERR_OK, w') \<and> ts_pcbs w' pcb = Some b' \<and> t_unsent b' = [g]"
proof -
  let ?len = "of_nat (length data) :: u16"
  let ?mss = "write_mss b"
  have bd: "length data < 65536" using len(2) unat_u16_less [of ?mss] by linarith
  then have L: "unat ?len = length data" by (simp add: unat_of_nat)
  then have l: "?len \<le> ?mss" "?len \<noteq> 0" "\<not> ?len > t_snd_buf b" "length (take (unat ?len) data) = unat ?len" "min ?len ?mss = ?len" "0 < ?len"
    using len(1-3) by (auto simp: word_le_nat_alt word_less_nat_alt min_def simp flip: word_unat_eq_iff)
  have mss: "unat ?mss \<le> 1460" using write_mss_bounds [of b] w(3) unfolding send_ok_def by blast
  have q: "\<not> TCP_SND_QUEUELEN < t_snd_queuelen b + 1" using len(4) by (metis inc_le leD)
  have chk: "tcp_write_checks pcb ?len w = Some (ERR_OK, w)" using w(2,5) l(2,3) len(4) by (auto simp: tcp_write_checks_def)
  have wo: "write_oversize b ?len = (0, 0)" using w(4) by (simp add: write_oversize_def)
  have "room {} (ts_pb w)" by (simp add: room_def)
  show ?thesis
  proof (cases rule: buffer_ready [OF stack_okD(2) [OF w(1)] \<open>room {} (ts_pb w)\<close> l(1,4)])
    case (1 pb1)
    then show ?thesis using mem(1) by (auto simp: tcp_pbuf_prealloc_def stack_pb_def stack_buf_def stack_buf_upd_def bind_eq_Some_conv split: option.splits)
  next
    case (2 p' q pb1 pb2)
    have "ps_pools pb1 = ps_pools pb"
      using 2(1) mem(1) by (auto simp: tcp_pbuf_prealloc_def stack_pb_def stack_buf_def stack_buf_upd_def pbuf_upd_def bind_eq_Some_conv dest: arg_cong [where f = "\<lambda>w. ps_pools (ts_pb w)"])
    moreover have "ps_pools pb2 = ps_pools pb1" using arg_cong [OF 2(4), of "\<lambda>w. ps_pools (ts_pb w)"] by (simp add: st_bytes_def)
    ultimately have pl: "ps_pools pb2 = ps_pools (ts_pb w)" using alloc_ram_pools [OF mem(1)] by simp
    obtain c pools where c: "memp_malloc MEMP_TCP_SEG (ps_pools (ts_pb w)) = (Some c, pools)"
      using mem(2) by (cases "memp_malloc MEMP_TCP_SEG (ps_pools (ts_pb w))") auto
    let ?pb = "pb2\<lparr>ps_pools := pools\<rparr>"
    have ql: "unat (p_len q) + 20 < 65536" using l(1) mss 2(3) by (simp add: word_le_nat_alt)
    have h: "pbuf_add_header (Some p') 20 ?pb = Some (False, ?pb\<lparr>ps_bufs := (ps_bufs ?pb)
      (p' \<mapsto> q\<lparr>p_payload := p_payload q - 20, p_len := p_len q + 20, p_tot_len := p_tot_len q + 20\<rparr>)\<rparr>)"
      by (rule tcp_header_fits) (use 2(3,10) ql in simp_all)
    have "\<exists>g w'. tcp_create_segment pcb p' 0 (t_snd_lbb b) 0 (w\<lparr>ts_pb := pb2\<rparr>) = Some (Some g, w') \<and> ts_pcbs w' = ts_pcbs w"
      using w(2) c pl 2(10) h
      by (simp add: tcp_create_segment_def stack_malloc_def stack_buf_def stack_pb_def LWIP_TCP_OPT_LENGTH_def TCP_HLEN_def Let_def
          st_u16_def st_u32_def st_bytes_def TCPH_HDRLEN_FLAGS_SET_def)
    then obtain g w' where g: "tcp_create_segment pcb p' 0 (t_snd_lbb b) 0 (w\<lparr>ts_pb := pb2\<rparr>) = Some (Some g, w')" "ts_pcbs w' = ts_pcbs w" by blast
    have "write_loop pcb data ?mss ?len n ov gs w' = Some (False, n, ov, gs, w')" for n ov gs by (subst write_loop.simps) simp
    then have "write_loop pcb data ?mss 0 (t_snd_queuelen b) 0 [] w = Some (False, t_snd_queuelen b + 1, ?mss - ?len, [g], w')"
      using 2(1,2,4) clen_single [OF 2(10)] 2(3) w(2) g(1) l(5,6) q
      by (subst write_loop.simps) (simp add: Let_def stack_buf_def)
    then show ?thesis using chk w(2,4) wo g(2) by (simp add: tcp_write_def Let_def pcb_upd_def TCPH_SET_FLAG_def st_u16_def)
  qed
qed

text \<open>A connection that has nothing queued, just after the boot.\<close>

lemma demo_sender: "\<exists>(w :: unit bstack) pcb b p pb. bridge_ok w {#} {#} \<and> ts_netifs w = ts_netifs demo_booted \<and> ts_pcbs w pcb = Some b \<and> send_ok w b
    \<and> b = (new_pcb TCP_PRIO_NORMAL 0 0)\<lparr>t_state := ESTABLISHED, t_remote_ip := 7, t_remote_port := 80\<rparr>
    \<and> pbuf_alloc PBUF_TRANSPORT (write_mss b) PBUF_RAM (ts_pb w) = Some (Some p, pb) \<and> fst (memp_malloc MEMP_TCP_SEG (ps_pools (ts_pb w))) \<noteq> None"
proof -
  let ?w = demo_booted
  let ?b = "new_pcb TCP_PRIO_NORMAL 0 0"
  let ?b' = "?b\<lparr>t_state := ESTABLISHED, t_remote_ip := 7, t_remote_port := 80\<rparr>"
  note o = stack_okD [OF demo_booted_ok]
  have e: "ts_pcbs ?w = Map.empty" by (simp add: demo_booted_def demo_process_def)
  have "0 < desc_size (fst (ps_pools (ts_pb ?w) ! MEMP_TCP_PCB))" "desc_num (fst (ps_pools (ts_pb ?w) ! MEMP_TCP_PCB)) = MEMP_NUM_TCP_PCB"
    using o(7) by (simp_all add: pcb_layout_def Let_def)
  then obtain a pools where a: "memp_malloc MEMP_TCP_PCB (ps_pools (ts_pb ?w)) = (Some a, pools)"
    using pool_has_room [OF o(3)] e by (auto simp: MEMP_NUM_TCP_PCB_def)
  let ?w1 = "?w\<lparr>ts_pb := (ts_pb ?w)\<lparr>ps_pools := pools\<rparr>\<rparr>"
  let ?w2 = "?w1\<lparr>ts_pcbs := [a \<mapsto> ?b]\<rparr>"
  let ?w3 = "relisted ?w2 L_active a ?b'"
  have m: "stack_malloc MEMP_TCP_PCB ?w = (Some a, ?w1)" using a by (simp add: stack_malloc_def)
  have w2: "stack_ok ?w2 {#} {#}" using stack_ok_new_pcb(3) [OF demo_booted_ok m, of ?b] e by (simp add: new_pcb_def pcb_segs_def)
  have b: "ts_pcbs ?w2 a = Some ?b" "t_state ?b = CLOSED" "t_local_port ?b = 0" by (simp_all add: new_pcb_def)
  have "stack_ok ?w3 {#} {#}"
    by (rule stack_ok_relisted [OF w2 b]) (simp_all add: new_pcb_def pcb_segs_def queueless_def)
  moreover have "ts_pcbs ?w3 a = Some ?b'" "ts_pb ?w3 = (ts_pb ?w)\<lparr>ps_pools := pools\<rparr>" by (simp_all add: relisted_def)
  moreover have "send_ok ?w3 ?b'" by (simp add: send_ok_def new_pcb_def INITIAL_MSS_def)
  moreover obtain p pb where "pbuf_alloc PBUF_TRANSPORT (write_mss ?b') PBUF_RAM ((ts_pb ?w)\<lparr>ps_pools := pools\<rparr>) = Some (Some p, pb)"
  proof -
    have "first_fit (max 614 12) [(0, False)] = Some 0" by (simp add: mem_consts)
    from mem_malloc_found [OF heap_inv_init _ refl _ this, of "ps_heap demo_memory"]
    obtain k h' where "mem_malloc (ps_heap (ts_pb ?w)) 614 = Some (Some k, h')" by (auto simp: mem_consts demo_booted_def)
    then show ?thesis by (intro that) (simp add: pbuf_alloc_def SIZEOF_STRUCT_PBUF_def Let_def write_mss_def new_pcb_def INITIAL_MSS_def)
  qed
  moreover have "fst (memp_malloc MEMP_TCP_SEG pools) \<noteq> None"
  proof -
    have "pool_holds (ts_pb ?w) MEMP_TCP_SEG {#}" using o(2) e by (simp add: mem_ok_def all_elems_def)
    moreover have "fst (ps_pools (ts_pb ?w) ! MEMP_TCP_SEG) = fst (demo_desc 24 256 5200000)"
      by (simp add: demo_booted_def demo_memory_def memp_init_def MEMP_TCP_SEG_def split: prod.split)
    ultimately have "fst (memp_malloc MEMP_TCP_SEG (ps_pools (ts_pb ?w))) \<noteq> None"
      using pool_has_room [of "ts_pb ?w" MEMP_TCP_SEG "{#}"] by (auto simp: demo_desc_def)
    moreover have "pools ! MEMP_TCP_SEG = ps_pools (ts_pb ?w) ! MEMP_TCP_SEG" "length pools = length (ps_pools (ts_pb ?w))"
      using a by (auto simp: memp_malloc_def pool_idx split: prod.splits if_splits)
    ultimately show ?thesis by (auto simp: memp_malloc_def Let_def split: prod.splits if_splits)
  qed
  moreover have "conns_ok (ts_pcbs ?w3) conns_clear" using e by (auto simp: relisted_def conns_ok_def conns_clear_def new_pcb_def)
  moreover have "g_conns (ts_app ?w3) = conns_clear" "g_nat (ts_app ?w3) = nat_clear" "ts_netifs ?w3 = ts_netifs ?w"
    by (simp_all add: relisted_def demo_booted_def demo_process_def)
  ultimately show ?thesis using nat_clear_wf
    by (intro exI [of _ ?w3] exI [of _ a] exI [of _ ?b'] exI [of _ p] exI [of _ pb]) (simp add: bridge_ok_def tables_wf_def conns_clear_def)
qed

section \<open>Properties\<close>

text \<open>
  C15: \<open>tcp_write\<close> returns, keeps the invariants of the stack and of the send queues, and changes nothing
  but the memory and this PCB. If it reports success, the bytes that wait to be sent are those that waited before followed by
  the data, those that wait for their acknowledgement are untouched, the send buffer shrinks by the length of the data,
  and segments whose sequence numbers were contiguous up to the end of the stream still are.
  Otherwise the connection is in a state without sending or there is no room, and the queues are as before.
\<close>

theorem tcp_write_appends:
  assumes "stack_ok w R S" "ts_pcbs w pcb = Some b" "send_ok w b" "length data < 65536"
  shows "\<exists>err w' b'. tcp_write (Some pcb) (Some data) apiflags w = Some (err, w') \<and> stack_ok w' R S \<and> ts_pcbs w' = (ts_pcbs w)(pcb \<mapsto> b') \<and> send_ok w' b'
    \<and> (err = ERR_OK \<and> appended w b data w' b' \<or> err = ERR_MEM \<and> refused w b w' b'
       \<or> err = ERR_CONN \<and> t_state b \<notin> {ESTABLISHED, CLOSE_WAIT, SYN_SENT, SYN_RCVD} \<and> refused w b w' b')"
  by (rule tcp_write_spec [OF assms])

theorem tcp_write_appends_witness:
  "\<exists>(w :: unit bstack) pcb b w' b'. stack_ok w {#} {#} \<and> ts_pcbs w pcb = Some b \<and> send_ok w b \<and> stream w (t_unsent b) = []
    \<and> tcp_write (Some pcb) (Some [104, 105]) 0 w = Some (ERR_OK, w') \<and> ts_pcbs w' pcb = Some b' \<and> stream w' (t_unsent b') = [104, 105]"
proof -
  obtain w :: "unit bstack" and pcb b p pb where ok: "bridge_ok w {#} {#}" and w: "stack_ok w {#} {#}" "ts_pcbs w pcb = Some b" "send_ok w b"
    "b = (new_pcb TCP_PRIO_NORMAL 0 0)\<lparr>t_state := ESTABLISHED, t_remote_ip := 7, t_remote_port := 80\<rparr>"
    "pbuf_alloc PBUF_TRANSPORT (write_mss b) PBUF_RAM (ts_pb w) = Some (Some p, pb)" "fst (memp_malloc MEMP_TCP_SEG (ps_pools (ts_pb w))) \<noteq> None"
    using demo_sender unfolding bridge_ok_def by blast
  have "length [104, 105 :: u8] < 65536" by simp
  from tcp_write_appends [OF w(1-3) this, of 0] obtain err w' b' where
    t: "tcp_write (Some pcb) (Some [104, 105]) 0 w = Some (err, w')" "ts_pcbs w' = (ts_pcbs w)(pcb \<mapsto> b')"
      "err = ERR_OK \<Longrightarrow> appended w b [104, 105] w' b'" by auto
  have "err = ERR_OK" using write_one_segment [OF w(1-3) _ _ _ _ _ _ w(5,6), of "[104, 105]" 0] t(1)
    by (simp add: w(4) write_mss_def new_pcb_def INITIAL_MSS_def TCP_SND_QUEUELEN_def TCP_SND_BUF_def)
  then show ?thesis using w t by (intro exI [of _ w] exI [of _ pcb] exI [of _ b] exI [of _ w'] exI [of _ b']) (simp add: appended_def new_pcb_def)
qed

end
