(* ===== verification/Tcp_Send.thy ===== *)
theory Tcp_Send
  imports Tcp_Write
begin

text \<open>
  Sending: \<open>tcp_output\<close> moves segments from the unsent to the unacknowledged queue without
  touching the bytes they carry, and \<open>lwip_bridge_write\<close> is \<open>tcp_write\<close> followed by it.
\<close>

section \<open>Segments that are left alone\<close>

definition calm :: "'a tcp_stack \<Rightarrow> 'a tcp_stack \<Rightarrow> tcp_seg set \<Rightarrow> bool" where
  "calm w w' G \<longleftrightarrow> (\<forall>g \<in> G. same_seg w w' g \<and> seg_mem (ts_pb w') g \<and> (\<forall>k. tail_room (ts_pb w) g k \<longrightarrow> tail_room (ts_pb w') g k))"

definition segs_in :: "'a tcp_stack \<Rightarrow> tcp_seg set \<Rightarrow> bool" where
  "segs_in w G \<longleftrightarrow> (\<forall>g \<in> G. seg_mem (ts_pb w) g) \<and> inj_on sg_p G"

lemma same_seg_pb: "ts_pb w' = ts_pb w \<Longrightarrow> same_seg w w' g"
  by (rule same_segI) simp

lemma calm_pb: "segs_in w G \<Longrightarrow> ts_pb w' = ts_pb w \<Longrightarrow> calm w w' G"
  by (simp add: calm_def segs_in_def same_seg_pb)

lemma calm_trans: "calm u v G \<Longrightarrow> calm v w G \<Longrightarrow> calm u w G"
  unfolding calm_def by (meson same_seg_trans)

lemma calm_segs: "calm w w' G \<Longrightarrow> segs_in w G \<Longrightarrow> segs_in w' G"
  by (simp add: calm_def segs_in_def)

lemma segs_in_mono: "segs_in w G \<Longrightarrow> G' \<subseteq> G \<Longrightarrow> segs_in w G'"
  unfolding segs_in_def by (meson inj_on_subset subsetD)

lemma calm_mono: "calm w w' G \<Longrightarrow> G' \<subseteq> G \<Longrightarrow> calm w w' G'"
  unfolding calm_def by blast

lemma calm_stream: "calm w w' (set gs) \<Longrightarrow> stream w' gs = stream w gs \<and> chained w' s gs e = chained w s gs e"
  using stream_same [of gs w w'] chained_same [of gs w w' s e] by (auto simp: calm_def)

text \<open>Everything that was there is kept, with the room behind the segments.\<close>

lemma room_mono: "room T pb \<Longrightarrow> T' \<subseteq> T \<Longrightarrow> room T' pb"
  unfolding room_def by blast

lemma calm_keeps:
  assumes "segs_in w G" "keeps (ts_pb w) (ts_pb w')" "room {x. \<exists>g k. g \<in> G \<and> tail_room (ts_pb w) g k \<and> x = tail_ext (ts_pb w) g k} (ts_pb w')"
  shows "calm w w' G"
proof -
  have "tail_room (ts_pb w') g k" if "g \<in> G" "tail_room (ts_pb w) g k" for g k
    using that by (intro tail_room_keeps [OF that(2) assms(2)] room_mono [OF assms(3)]) blast
  then show ?thesis using keeps_seg [OF assms(2)] assms(1) by (simp add: calm_def segs_in_def)
qed

lemma tails_room: "room {x. \<exists>g k. g \<in> G \<and> tail_room pb g k \<and> x = tail_ext pb g k} pb"
  by (auto simp: room_def tail_room_def)

text \<open>The pbuf of one segment gets a new start, and its headers are written.\<close>

lemma calm_one:
  assumes m: "mem_ok (ts_pb w) R S" and G: "segs_in w G" "l \<in> G" "sg_p l = Some p" "ps_bufs (ts_pb w) p = Some q"
    and q': "seg_fields p q' l" "p + SIZEOF_STRUCT_PBUF \<le> p_payload q'" "sg_tcphdr l \<le> p_payload q' + 20"
    and w': "ts_pb w' = (ts_pb w)\<lparr>ps_bufs := (ps_bufs (ts_pb w))(p \<mapsto> q'), ps_mem := m'\<rparr>"
    and m': "\<And>x. \<not> (p + SIZEOF_STRUCT_PBUF \<le> x \<and> x < seg_from l + unat (sg_len l)) \<Longrightarrow> m' x = ps_mem (ts_pb w) x"
    and l: "same_seg w w' l"
  shows "mem_ok (ts_pb w') R S" "calm w w' G"
proof -
  let ?pb = "ts_pb w"
  have sm: "seg_mem ?pb g" if "g \<in> G" for g using G(1) that by (simp add: segs_in_def)
  have q: "seg_fields p q l" "pbuf_get_allocsrc q = 0" "seg_from l + unat (sg_len l) \<le> sg_tcphdr l + 1480"
    using sm [OF G(2)] G(3,4) by (auto simp: seg_mem_def)
  have pi: "pinv ?pb" and ow: "owned (ps_bufs ?pb) R" using m by (simp_all add: mem_ok_def)
  have e: "p_payload q' + unat (p_len q') = p_payload q + unat (p_len q)" "p_type_internal q' = p_type_internal q" "p_next q' = p_next q" "p_ref q' = p_ref q"
    using q(1) q'(1) by (simp_all add: seg_fields_def)
  have a0: "pbuf_get_allocsrc q' = 0" using q(2) e(2) by (simp add: pbuf_get_allocsrc_def)
  have pq: "pinv (swapped p q' ?pb)"
    using pinv_refield [OF pi G(4) e(2) q(2) q'(2)] e(1) by (simp add: swapped_def)
  have "owned (ps_bufs (swapped p q' ?pb)) R" using owned_fields [OF ow G(4) e(3,4)] by (simp add: swapped_def)
  with pq m show "mem_ok (ts_pb w') R S" by (simp add: mem_ok_def pool_holds_def swapped_def w')
  have w'': "ts_pb w' = (swapped p q' ?pb)\<lparr>ps_mem := m'\<rparr>" by (simp add: w' swapped_def)
  have ll: "seg_mem (ts_pb w') l" using q'(1) a0 G(3) q(3) by (simp add: seg_mem_def w')
  have lt: "tail_room (ts_pb w') l k" if t: "tail_room ?pb l k" for k
  proof -
    let ?e = "q\<lparr>p_len := p_len q + k, p_tot_len := p_tot_len q + k\<rparr>" and ?e' = "q'\<lparr>p_len := p_len q' + k, p_tot_len := p_tot_len q' + k\<rparr>"
    have b: "unat (p_len q) + unat k < 65536" "seg_from l + unat (sg_len l) + unat k \<le> sg_tcphdr l + 1480" and r: "pinv (swapped p ?e ?pb)"
      using t G(3,4) by (auto simp: tail_room_def tail_ext_def Let_def room_def)
    have b': "unat (p_len q') + unat k < 65536" using b(2) q'(1,3) by (auto simp: seg_fields_def)
    have u: "unat (p_len q + k) = unat (p_len q) + unat k" "unat (p_len q' + k) = unat (p_len q') + unat k"
      using b(1) b' by (simp_all add: unat_word_ariths)
    have "pinv ((swapped p ?e ?pb)\<lparr>ps_bufs := (ps_bufs (swapped p ?e ?pb))(p \<mapsto> ?e')\<rparr>)"
      by (rule pinv_refield [OF r, where b = ?e]) (use e u q'(2) q(2) in \<open>simp_all add: swapped_def pbuf_get_allocsrc_def\<close>)
    then have "pinv (swapped p ?e' (swapped p q' ?pb))" by (simp add: swapped_def)
    then have "room {(p, ?e')} (ts_pb w')" unfolding w'' by (simp add: room_def) (simp add: swapped_def)
    then show ?thesis using q'(1) a0 G(3) b(2) b' unfolding w' by (auto simp: tail_room_def tail_ext_def)
  qed
  have other: "same_seg w w' g \<and> seg_mem (ts_pb w') g \<and> (\<forall>k. tail_room ?pb g k \<longrightarrow> tail_room (ts_pb w') g k)" if g: "g \<in> G" "g \<noteq> l" for g
  proof -
    have ne: "sg_p g \<noteq> Some p" using G g by (metis inj_onD segs_in_def)
    have gm: "seg_mem ?pb g" by (rule sm [OF g(1)])
    have "same_seg w w' g"
    proof (rule same_seg_other [OF pi gm ne G(4) q(2)])
      show "ps_mem (ts_pb w') x = ps_mem (ts_pb w) x" if "\<not> (p + SIZEOF_STRUCT_PBUF \<le> x \<and> x < p_payload q + unat (p_len q))" for x
        using that m' [of x] q(1) by (simp add: w' seg_fields_def)
    qed
    moreover have "seg_mem (ts_pb w') g" using gm ne by (auto simp: seg_mem_def w')
    moreover have "tail_room (ts_pb w') g k" if t: "tail_room ?pb g k" for k
    proof -
      obtain a c where c: "sg_p g = Some a" "ps_bufs ?pb a = Some c" "pbuf_get_allocsrc c = 0" "a \<noteq> p"
        "room {(a, c\<lparr>p_len := p_len c + k, p_tot_len := p_tot_len c + k\<rparr>)} ?pb"
        using t ne by (auto simp: tail_room_def tail_ext_def Let_def)
      have "room {(p, q')} ?pb" using pq G(4) by (simp add: room_def)
      from room_swapped [OF this c(5)] c(3,4) have "room {(a, c\<lparr>p_len := p_len c + k, p_tot_len := p_tot_len c + k\<rparr>)} (ts_pb w')"
        unfolding w'' by (simp add: pbuf_get_allocsrc_def)
      then show ?thesis using t c by (auto simp: tail_room_def tail_ext_def Let_def w')
    qed
    ultimately show ?thesis by blast
  qed
  show "calm w w' G" using l ll lt other unfolding calm_def by metis
qed

lemma calm_set_flag:
  assumes "mem_ok (ts_pb w) R S" "segs_in w G" "l \<in> G" "take_bit 2 f = (0 :: u8)"
  shows "calm w (TCPH_SET_FLAG (sg_tcphdr l) f w) G"
proof -
  let ?w = "TCPH_SET_FLAG (sg_tcphdr l) f w"
  have "same_seg w ?w g" if "g \<in> G" for g
  proof (cases "g = l")
    case False
    then have "sg_p g \<noteq> sg_p l" using assms(2,3) that by (auto simp: segs_in_def inj_on_def)
    then show ?thesis using set_flag_ok [of w "[l, g]" l g f] assms that by (simp add: segs_in_def mem_ok_def)
  qed (simp add: set_flag_same assms(4))
  then show ?thesis using assms(2) by (simp add: calm_def segs_in_def) (simp add: TCPH_SET_FLAG_def st_u16_def)
qed

section \<open>One segment\<close>

text \<open>Of the header only the sequence number and the flags matter for the stream.\<close>

lemma same_seg_hdr:
  assumes "\<And>x. sg_tcphdr g + 4 \<le> x \<and> x < sg_tcphdr g + 8 \<or> sg_tcphdr g + 12 \<le> x \<and> x < sg_tcphdr g + 14
      \<or> seg_from g \<le> x \<and> x < seg_from g + unat (sg_len g) \<Longrightarrow> ps_mem (ts_pb w') x = ps_mem (ts_pb w) x"
  shows "same_seg w w' g"
proof -
  have "rd_bytes (ps_mem (ts_pb w')) (sg_tcphdr g + 4) 4 = rd_bytes (ps_mem (ts_pb w)) (sg_tcphdr g + 4) 4"
    "rd_bytes (ps_mem (ts_pb w')) (sg_tcphdr g + 12) 2 = rd_bytes (ps_mem (ts_pb w)) (sg_tcphdr g + 12) 2"
    "rd_bytes (ps_mem (ts_pb w')) (seg_from g) (unat (sg_len g)) = rd_bytes (ps_mem (ts_pb w)) (seg_from g) (unat (sg_len g))"
    by (intro rd_bytes_cong assms; simp)+
  then show ?thesis by (simp add: same_seg_def seg_bytes_def seg_seqno_def ld_u32_def TCP_TCPLEN_def TCPH_FLAGS_def ld_u16_def)
qed

lemma st_other:
  "x < a \<or> a + 2 \<le> x \<Longrightarrow> ps_mem (ts_pb (st_u16 a v w)) x = ps_mem (ts_pb w) x"
  "x < a \<or> a + 4 \<le> x \<Longrightarrow> ps_mem (ts_pb (st_u32 a u w)) x = ps_mem (ts_pb w) x"
  by (auto simp: st_u16_def st_u32_def wr_bytes_def)

lemma st_u8_other: "x \<noteq> a \<Longrightarrow> ps_mem (ts_pb (st_u8 a v w)) x = ps_mem (ts_pb w) x"
  by (auto simp: st_u8_def wr_bytes_def)

lemma ip4_header_mem: "\<exists>m. ip4_header a src dst ttl tos proto n w = w\<lparr>ip_id := ip_id w + 1, ts_pb := (ts_pb w)\<lparr>ps_mem := m\<rparr>\<rparr>
    \<and> (\<forall>x. \<not> (a \<le> x \<and> x < a + 20) \<longrightarrow> m x = ps_mem (ts_pb w) x)"
proof -
  obtain m where m: "ip4_header a src dst ttl tos proto n w = w\<lparr>ip_id := ip_id w + 1, ts_pb := (ts_pb w)\<lparr>ps_mem := m\<rparr>\<rparr>" using ip4_header_eq by blast
  then have e: "m = ps_mem (ts_pb (ip4_header a src dst ttl tos proto n w))" by simp
  have "m x = ps_mem (ts_pb w) x" if x: "\<not> (a \<le> x \<and> x < a + 20)" for x
  proof -
    consider "x < a" | "a + 20 \<le> x" using x by linarith
    then show ?thesis unfolding e by cases (simp_all add: ip4_header_def Let_def st_other st_u8_other)
  qed
  then show ?thesis using m by blast
qed

definition mtu_ok :: "'a tcp_stack \<Rightarrow> bool" where
  "mtu_ok w \<longleftrightarrow> (\<forall>a n. ts_netifs w a = Some n \<longrightarrow> nif_mtu n = 0 \<or> 1500 \<le> nif_mtu n)"

text \<open>The fields that sending a segment changes in the PCB.\<close>

definition seg_stamped :: "tcp_pcb \<Rightarrow> tcp_pcb \<Rightarrow> bool" where
  "seg_stamped b b' \<longleftrightarrow> (\<exists>e t r q. b' = b\<lparr>t_rcv_ann_right_edge := e, t_rtime := t, t_rttest := r, t_rtseq := q\<rparr>)"

text \<open>The pbuf of a segment just before it is handed to IP.\<close>

lemma seg_trimmed:
  assumes "seg_fields p q g" "seg_from g + unat (sg_len g) \<le> sg_tcphdr g + 1480"
  defines "q1 \<equiv> (let len = of_nat (sg_tcphdr g - p_payload q) in q\<lparr>p_payload := sg_tcphdr g, p_tot_len := p_tot_len q - len, p_len := p_len q - len\<rparr>)"
  shows "seg_fields p q1 g" "p_payload q1 = sg_tcphdr g" "unat (p_len q1) \<le> 1480"
proof -
  let ?d = "of_nat (sg_tcphdr g - p_payload q) :: u16"
  note f = assms(1) [unfolded seg_fields_def]
  have le: "sg_tcphdr g - p_payload q \<le> unat (p_len q)" using f by (auto simp: seg_from_def)
  then have d: "unat ?d = sg_tcphdr g - p_payload q" using unat_u16_less [of "p_len q"] by (simp add: unat_of_nat)
  then have l: "unat (p_len q - ?d) = unat (p_len q) - (sg_tcphdr g - p_payload q)" using le by (simp add: unat_sub word_le_nat_alt)
  then show "seg_fields p q1 g" using f le by (auto simp: q1_def seg_fields_def Let_def)
  show "p_payload q1 = sg_tcphdr g" by (simp add: q1_def Let_def)
  show "unat (p_len q1) \<le> 1480" using l f le assms(2) by (auto simp: q1_def Let_def)
qed

context netif_driver
begin

lemma ip4_output_mem:
  assumes q: "ps_bufs (ts_pb w) p = Some q" "p_type_internal q = 0x80" "p_tot_len q = p_len q" "p_next q = None"
      "p + SIZEOF_STRUCT_PBUF + 20 \<le> p_payload q" "unat (p_len q) \<le> 1480"
    and w: "ts_netifs w nif = Some n" "nif_mtu n = 0 \<or> 1500 \<le> nif_mtu n" "app_ok (ts_app w)"
  shows "\<exists>err k app m. ip4_output_if env p src (Some dst) ttl tos proto nif w = Some (err, sent w ((ts_pb w)\<lparr>ps_bufs := (ps_bufs (ts_pb w))
      (p \<mapsto> q\<lparr>p_payload := p_payload q - 20, p_len := p_len q + 20, p_tot_len := p_tot_len q + 20\<rparr>), ps_mem := m\<rparr>) k app)
    \<and> app_ok app \<and> (\<forall>x. \<not> (p_payload q - 20 \<le> x \<and> x < p_payload q) \<longrightarrow> m x = ps_mem (ts_pb w) x)"
proof -
  let ?q = "q\<lparr>p_payload := p_payload q - 20, p_len := p_len q + 20, p_tot_len := p_tot_len q + 20\<rparr>"
  let ?pb = "(ts_pb w)\<lparr>ps_bufs := (ps_bufs (ts_pb w))(p \<mapsto> ?q)\<rparr>"
  let ?src = "if src = 0 then nif_ip_addr n else src"
  have h: "pbuf_add_header (Some p) 20 (ts_pb w) = Some (False, ?pb)" by (rule tcp_header_fits) (use q in simp_all)
  obtain m where m: "ip4_header (p_payload q - 20) ?src dst ttl tos proto (p_tot_len q + 20) (w\<lparr>ts_pb := ?pb\<rparr>)
      = w\<lparr>ip_id := ip_id w + 1, ts_pb := ?pb\<lparr>ps_mem := m\<rparr>\<rparr>" (is "_ = ?w1")
    "\<forall>x. \<not> (p_payload q - 20 \<le> x \<and> x < p_payload q - 20 + 20) \<longrightarrow> m x = ps_mem (ts_pb w) x"
    using ip4_header_mem [of "p_payload q - 20" ?src dst ttl tos proto "p_tot_len q + 20" "w\<lparr>ts_pb := ?pb\<rparr>"] by auto
  have "unat (p_len q + 20) = unat (p_len q) + 20" using q(6) by (simp add: unat_word_ariths)
  then have mtu: "\<not> (nif_mtu n \<noteq> 0 \<and> p_tot_len q + 20 > nif_mtu n)" using w(2) q(3,6) by (auto simp: word_less_nat_alt word_le_nat_alt)
  have "pchain (ps_bufs (ts_pb ?w1)) (Some p) [p]" using q(4) by simp
  from netif_do_output_ok [OF _ this, of nif dst] w(1,3) obtain err app where
    o: "netif_do_output env nif p dst ?w1 = Some (err, ?w1\<lparr>ts_app := app\<rparr>)" "app_ok app" by auto
  have "ip4_output_if env p src (Some dst) ttl tos proto nif w = Some (err, ?w1\<lparr>ts_app := app\<rparr>)"
    using h w(1) m(1) mtu o(1) by (simp add: ip4_output_if_def ip4_output_if_src_def stack_pb_def stack_buf_def IP_HLEN_def) blast
  moreover have "?w1\<lparr>ts_app := app\<rparr> = sent w (?pb\<lparr>ps_mem := m\<rparr>) (ip_id w + 1) app" by simp
  moreover have "p_payload q - 20 + 20 = p_payload q" using q(5) by simp
  ultimately show ?thesis using o(2) m(2) by (intro exI [of _ err] exI [of _ "ip_id w + 1"] exI [of _ app] exI [of _ m]) simp
qed

lemma tcp_output_segment_ok:
  assumes m: "mem_ok (ts_pb w) R S" and G: "segs_in w G" "l \<in> G"
    and w: "ts_pcbs w pcb = Some b" "ts_netifs w nif \<noteq> None" "mtu_ok w" "app_ok (ts_app w)"
  shows "\<exists>err pb k app b'. tcp_output_segment env l pcb nif w = Some (err, sent_pcb w pcb pb k app b') \<and> seg_stamped b b'
    \<and> mem_ok pb R S \<and> pcb_pools (ts_pb w) pb \<and> app_ok app \<and> calm w (sent_pcb w pcb pb k app b') G"
proof -
  let ?pb = "ts_pb w" and ?h = "sg_tcphdr l"
  obtain n where n: "ts_netifs w nif = Some n" "nif_mtu n = 0 \<or> 1500 \<le> nif_mtu n" using w(2,3) by (auto simp: mtu_ok_def)
  obtain p q where q: "sg_p l = Some p" "ps_bufs ?pb p = Some q" "pbuf_get_allocsrc q = 0" "seg_fields p q l"
    and sz: "seg_from l + unat (sg_len l) \<le> ?h + 1480" using G by (auto simp: segs_in_def seg_mem_def)
  have busy: "tcp_output_segment_busy w l = Some False"
    using q by (simp add: tcp_output_segment_busy_def stack_buf_def seg_fields_def)
  define w1 where "w1 = (let w = st_u16 (?h + 14) (t_rcv_ann_wnd b) (st_u32 (?h + 8) (t_rcv_nxt b) w)
    in if sg_flags l AND TF_SEG_OPTS_MSS \<noteq> 0 then st_u32 (?h + TCP_HLEN) (TCP_BUILD_MSS_OPTION (tcp_eff_send_mss_netif TCP_MSS (Some (nif_mtu n)))) w else w)"
  have "stores w w1" by (simp add: w1_def Let_def stores_st stores_refl)
  then obtain m1 where m1: "w1 = w\<lparr>ts_pb := ?pb\<lparr>ps_mem := m1\<rparr>\<rparr>" by (auto simp: stores_def)
  define b' where "b' = b\<lparr>t_rcv_ann_right_edge := t_rcv_nxt b + ucast (t_rcv_ann_wnd b),
     t_rtime := (if t_rtime b < 0 then 0 else t_rtime b), t_rttest := (if t_rttest b = 0 then tcp_ticks w else t_rttest b),
     t_rtseq := (if t_rttest b = 0 then seg_seqno w1 l else t_rtseq b)\<rparr>"
  define q1 where "q1 = (let len = of_nat (?h - p_payload q) in q\<lparr>p_payload := ?h, p_tot_len := p_tot_len q - len, p_len := p_len q - len\<rparr>)"
  note q1 = seg_trimmed [OF q(4) sz, folded q1_def]
  define m2 where "m2 = ps_mem (ts_pb (st_u16 (?h + 16) 0 w1))"
  let ?pb2 = "?pb\<lparr>ps_bufs := (ps_bufs ?pb)(p \<mapsto> q1), ps_mem := m2\<rparr>"
  let ?w2 = "w\<lparr>ts_pb := ?pb2, ts_pcbs := (ts_pcbs w)(pcb \<mapsto> b')\<rparr>"
  have f1: "p_type_internal q1 = 0x80" "p_tot_len q1 = p_len q1" "p_next q1 = None" "p + SIZEOF_STRUCT_PBUF + 20 \<le> p_payload q1"
    using q1 by (auto simp: seg_fields_def)
  from ip4_output_mem [of ?w2 p q1 nif n "t_local_ip b" "t_remote_ip b" "t_ttl b" "t_tos b" IP_PROTO_TCP] f1 q1(3) n w(4)
  obtain err k app m3 where o: "ip4_output_if env p (t_local_ip b) (Some (t_remote_ip b)) (t_ttl b) (t_tos b) IP_PROTO_TCP nif ?w2
      = Some (err, sent ?w2 (?pb2\<lparr>ps_bufs := (ps_bufs ?pb2)(p \<mapsto> q1\<lparr>p_payload := p_payload q1 - 20, p_len := p_len q1 + 20, p_tot_len := p_tot_len q1 + 20\<rparr>), ps_mem := m3\<rparr>) k app)"
    "app_ok app" "\<forall>x. \<not> (p_payload q1 - 20 \<le> x \<and> x < p_payload q1) \<longrightarrow> m3 x = m2 x" by auto
  let ?q2 = "q1\<lparr>p_payload := p_payload q1 - 20, p_len := p_len q1 + 20, p_tot_len := p_tot_len q1 + 20\<rparr>"
  let ?pb3 = "?pb\<lparr>ps_bufs := (ps_bufs ?pb)(p \<mapsto> ?q2), ps_mem := m3\<rparr>"
  let ?w3 = "sent_pcb w pcb ?pb3 k app b'"
  have w1': "w1 = (if sg_flags l AND TF_SEG_OPTS_MSS \<noteq> 0
      then st_u32 (?h + TCP_HLEN) (TCP_BUILD_MSS_OPTION (tcp_eff_send_mss_netif TCP_MSS (Some (nif_mtu n)))) (st_u16 (?h + 14) (t_rcv_ann_wnd b) (st_u32 (?h + 8) (t_rcv_nxt b) w))
      else st_u16 (?h + 14) (t_rcv_ann_wnd b) (st_u32 (?h + 8) (t_rcv_nxt b) w))" by (simp only: w1_def Let_def)
  have t: "tcp_ticks w1 = tcp_ticks w" "ts_pcbs w1 pcb = Some b" by (simp_all add: m1 w(1))
  have w2: "st_u16 (?h + 16) 0 (w1\<lparr>ts_pcbs := (ts_pcbs w1)(pcb \<mapsto> b'), ts_pb := (ts_pb w1)\<lparr>ps_bufs := (ps_bufs (ts_pb w1))(p \<mapsto> q1)\<rparr>\<rparr>) = ?w2"
    unfolding m2_def m1 by (rule tcp_stack.equality; simp add: st_u16_def; rule pbuf_state.equality; simp)
  have "tcp_output_segment env l pcb nif w = ip4_output_if env p (t_local_ip b) (Some (t_remote_ip b)) (t_ttl b) (t_tos b) IP_PROTO_TCP nif ?w2"
    unfolding w2 [symmetric] tcp_output_segment_def busy w(1) n(1) bind.bind_lunit if_False Let_def w1' [symmetric] pcb_upd_Some [OF t(2)] q(1)
    using q(2) by (simp add: stack_buf_upd_def pbuf_upd_def t(1) m1 b'_def q1_def [symmetric, unfolded Let_def])
  then have "tcp_output_segment env l pcb nif w = Some (err, ?w3)"
    using o(1) by simp
  moreover have mm: "m3 x = ps_mem ?pb x" if "x < ?h - 20 \<or> ?h \<le> x" "x < ?h + 8 \<or> ?h + 12 \<le> x" "x < ?h + 14 \<or> ?h + 18 \<le> x" "x < ?h + 20 \<or> seg_from l \<le> x" for x
  proof -
    have "m3 x = m2 x" using o(3) that(1) q1(2) by auto
    also have "\<dots> = ps_mem ?pb x" using that unfolding m2_def w1' by (auto simp: st_other seg_from_def LWIP_TCP_OPT_LENGTH_def TCP_HLEN_def split: if_splits)
    finally show ?thesis .
  qed
  moreover have "mem_ok ?pb3 R S" "calm w ?w3 G"
  proof -
    have u: "unat (p_len q1 + 20) = unat (p_len q1) + 20" using q1(3) by (simp add: unat_word_ariths)
    have fh: "?h + 20 \<le> seg_from l" by (simp add: seg_from_def TCP_HLEN_def)
    have f2: "seg_fields p ?q2 l" "p + SIZEOF_STRUCT_PBUF \<le> p_payload ?q2" "?h \<le> p_payload ?q2 + 20" using q1 f1 u by (auto simp: seg_fields_def)
    have "same_seg w ?w3 l" by (rule same_seg_hdr) (use mm fh in auto)
    moreover have "m3 x = ps_mem ?pb x" if "\<not> (p + SIZEOF_STRUCT_PBUF \<le> x \<and> x < seg_from l + unat (sg_len l))" for x
      using that fh f1(4) q1(2) by (intro mm) auto
    ultimately show "mem_ok ?pb3 R S" "calm w ?w3 G" using calm_one [OF m G q(1,2) f2, of ?w3 m3] by simp_all
  qed
  moreover have "pcb_pools ?pb ?pb3" by (simp add: pcb_pools_def)
  moreover have "seg_stamped b b'" unfolding seg_stamped_def b'_def by blast
  ultimately show ?thesis using o(2) by blast
qed

end

section \<open>Steps of sending\<close>

abbreviation queued :: "tcp_pcb \<Rightarrow> tcp_seg list" where
  "queued b \<equiv> t_unacked b @ t_unsent b"

text \<open>What belongs to the connection and is not changed by sending.\<close>

definition same_conn :: "tcp_pcb \<Rightarrow> tcp_pcb \<Rightarrow> bool" where
  "same_conn b b' \<longleftrightarrow> t_state b' = t_state b \<and> t_local_port b' = t_local_port b \<and> t_remote_ip b' = t_remote_ip b \<and> t_remote_port b' = t_remote_port b
     \<and> t_errf b' = t_errf b \<and> t_callback_arg b' = t_callback_arg b \<and> t_ooseq b' = t_ooseq b \<and> t_refused_data b' = t_refused_data b
     \<and> t_mss b' = t_mss b \<and> t_snd_lbb b' = t_snd_lbb b \<and> t_snd_buf b' = t_snd_buf b \<and> t_snd_queuelen b' = t_snd_queuelen b
     \<and> t_rcv_nxt b' = t_rcv_nxt b \<and> t_rcv_wnd b' = t_rcv_wnd b"

text \<open>Without unsent data there is no unused space behind it, as \<open>tcp_write\<close> asserts.\<close>

definition idle :: "tcp_pcb \<Rightarrow> bool" where
  "idle b \<longleftrightarrow> (t_unsent b = [] \<longrightarrow> t_unsent_oversize b = 0)"

definition held :: "'a tcp_stack \<Rightarrow> nat \<Rightarrow> tcp_pcb \<Rightarrow> nat multiset \<Rightarrow> nat multiset \<Rightarrow> bool" where
  "held w pcb b R S \<longleftrightarrow> ts_pcbs w pcb = Some b \<and> mem_ok (ts_pb w) (pcb_refs b + all_refs ((ts_pcbs w)(pcb := None)) + R)
     (seg_elems (pcb_segs b) + all_elems ((ts_pcbs w)(pcb := None)) + S)"

text \<open>
  From \<open>w\<close> to \<open>w'\<close> only the memory, the PCB, the packet counter of IP and the application change; what
  is queued stays the same stream with the same numbers.
\<close>

definition out_step :: "nat \<Rightarrow> nat multiset \<Rightarrow> nat multiset \<Rightarrow> 'a tcp_stack \<Rightarrow> tcp_pcb \<Rightarrow> 'a tcp_stack \<Rightarrow> tcp_pcb \<Rightarrow> bool" where
  "out_step pcb R S w b w' b' \<longleftrightarrow>
     (\<exists>pb k app. w' = w\<lparr>ip_id := k, ts_app := app, ts_pb := pb, ts_pcbs := (ts_pcbs w)(pcb \<mapsto> b')\<rparr>)
     \<and> pcb_pools (ts_pb w) (ts_pb w') \<and> held w' pcb b' R S \<and> send_ok w' b' \<and> same_conn b b' \<and> stream w' (queued b') = stream w (queued b)
     \<and> (\<forall>s e. chained w s (queued b) e \<longrightarrow> chained w' s (queued b') e)"

lemma same_conn_trans: "same_conn b b1 \<Longrightarrow> same_conn b1 b2 \<Longrightarrow> same_conn b b2"
  by (simp add: same_conn_def)

lemma out_stepD:
  assumes "out_step pcb R S w b w' b'"
  shows "\<exists>pb k app. w' = w\<lparr>ip_id := k, ts_app := app, ts_pb := pb, ts_pcbs := (ts_pcbs w)(pcb \<mapsto> b')\<rparr>"
    "pcb_pools (ts_pb w) (ts_pb w')" "held w' pcb b' R S" "send_ok w' b'" "same_conn b b'" "stream w' (queued b') = stream w (queued b)"
    "chained w s (queued b) e \<Longrightarrow> chained w' s (queued b') e"
  using assms unfolding out_step_def by blast+

lemma out_stepI:
  assumes "w' = w\<lparr>ip_id := k, ts_app := app, ts_pb := pb, ts_pcbs := (ts_pcbs w)(pcb \<mapsto> b')\<rparr>" "pcb_pools (ts_pb w) pb"
    "held w' pcb b' R S" "send_ok w' b'" "same_conn b b'" "stream w' (queued b') = stream w (queued b)"
    "\<And>s e. chained w s (queued b) e \<Longrightarrow> chained w' s (queued b') e"
  shows "out_step pcb R S w b w' b'"
proof -
  have "ts_pb w' = pb" by (simp add: assms(1))
  then show ?thesis using assms unfolding out_step_def by blast
qed

lemma out_step_trans:
  assumes 1: "out_step pcb R S w b w1 b1" and 2: "out_step pcb R S w1 b1 w2 b2"
  shows "out_step pcb R S w b w2 b2"
proof -
  note d1 = out_stepD [OF 1] and d2 = out_stepD [OF 2]
  obtain pb k app where "w1 = w\<lparr>ip_id := k, ts_app := app, ts_pb := pb, ts_pcbs := (ts_pcbs w)(pcb \<mapsto> b1)\<rparr>" using d1(1) by blast
  moreover obtain pb' k' app' where "w2 = w1\<lparr>ip_id := k', ts_app := app', ts_pb := pb', ts_pcbs := (ts_pcbs w1)(pcb \<mapsto> b2)\<rparr>" using d2(1) by blast
  ultimately have "w2 = w\<lparr>ip_id := k', ts_app := app', ts_pb := pb', ts_pcbs := (ts_pcbs w)(pcb \<mapsto> b2)\<rparr>" by simp
  then have "\<exists>pb k app. w2 = w\<lparr>ip_id := k, ts_app := app, ts_pb := pb, ts_pcbs := (ts_pcbs w)(pcb \<mapsto> b2)\<rparr>" by blast
  moreover have "stream w2 (queued b2) = stream w (queued b)" by (rule trans [OF d2(6) d1(6)])
  ultimately show ?thesis using pcb_pools_trans [OF d1(2) d2(2)] same_conn_trans [OF d1(5) d2(5)] d2(3,4) d1(7) d2(7) unfolding out_step_def by blast
qed

lemma out_step_calm:
  assumes w: "held w pcb b R S" "send_ok w b"
    and w': "w' = w\<lparr>ip_id := k, ts_app := app, ts_pb := pb, ts_pcbs := (ts_pcbs w)(pcb \<mapsto> b')\<rparr>" "pcb_pools (ts_pb w) pb" "calm w w' (set (queued b))"
    and m: "mem_ok pb (pcb_refs b + all_refs ((ts_pcbs w)(pcb := None)) + R) (seg_elems (pcb_segs b) + all_elems ((ts_pcbs w)(pcb := None)) + S)"
    and b': "same_conn b b'" "t_unsent b' = t_unsent b" "t_unacked b' = t_unacked b" "t_unsent b = [] \<or> t_unsent_oversize b' = t_unsent_oversize b"
  shows "out_step pcb R S w b w' b'"
proof -
  have "held w' pcb b' R S" using m b' unfolding held_def w' by (simp add: pcb_refs_def pcb_segs_def same_conn_def)
  moreover have "send_ok w' b'" using w(2) w'(3) b' unfolding send_ok_def calm_def same_conn_def by auto
  ultimately show ?thesis using w'(1,2) b' calm_stream [OF w'(3)] unfolding out_step_def by auto
qed

lemma seq_lt_small: "unat (a - b) < 2 ^ 31 \<Longrightarrow> \<not> TCP_SEQ_LT a b"
proof -
  assume "unat (a - b) < 2 ^ 31"
  then have "\<not> bit (unat (a - b)) 31" by (simp add: bit_nat_iff bit_iff_odd)
  then have "\<not> bit (a - b) 31" by (simp add: bit_unsigned_iff)
  then show ?thesis using and_exp_eq_0_iff_not_bit [of "a - b" 31] by (simp add: TCP_SEQ_LT_def)
qed

lemma tcplen_nat: "unat (TCP_TCPLEN w g) = unat (sg_len g) + (if TCPH_FLAGS w (sg_tcphdr g) AND (TCP_FIN OR TCP_SYN) \<noteq> 0 then 1 else 0)"
  using unat_u16_less [of "sg_len g"] by (simp add: TCP_TCPLEN_def unat_word_ariths unat_u16_ucast)

text \<open>Segments are sent in order: the next one goes to the end of the unacknowledged queue.\<close>

lemma queue_unacked_end:
  assumes "chained w s (gs @ g # hs) e"
  shows "queue_unacked w g gs = gs @ [g]"
proof (cases gs rule: rev_cases)
  case (snoc ys l)
  then obtain t where "seg_seqno w l = t" "seg_seqno w g = t + TCP_TCPLEN w l" using assms by (auto simp: chained_append)
  then have "unat (seg_seqno w g - seg_seqno w l) < 2 ^ 31"
    using tcplen_nat [of w l] unat_u16_less [of "sg_len l"] by simp
  then show ?thesis using seq_lt_small snoc by (auto simp: queue_unacked_def)
qed (simp add: queue_unacked_def)

text \<open>A segment without data or flags is freed instead.\<close>

lemma stack_pb_inj: "w\<lparr>ts_pb := pb\<rparr> = w\<lparr>ts_pb := pb'\<rparr> \<Longrightarrow> pb = pb'"
  by (drule arg_cong [where f = ts_pb]) simp

lemma seg_free_calm:
  assumes m: "mem_ok (ts_pb w) (own_next (sg_p l) R) (add_mset (sg_elem l) S)" and l: "seg_mem (ts_pb w) l"
    and G: "segs_in w G" "\<And>g. g \<in> G \<Longrightarrow> sg_p g \<noteq> sg_p l"
  shows "\<exists>pb'. tcp_seg_free l w = Some (w\<lparr>ts_pb := pb'\<rparr>) \<and> mem_ok pb' R S \<and> pcb_pools (ts_pb w) pb' \<and> calm w (w\<lparr>ts_pb := pb'\<rparr>) G"
proof -
  let ?pb = "ts_pb w"
  let ?T = "{x. \<exists>g k. g \<in> G \<and> tail_room ?pb g k \<and> x = tail_ext ?pb g k}"
  obtain p q where q: "sg_p l = Some p" "ps_bufs ?pb p = Some q" "pbuf_get_allocsrc q = 0" "p_next q = None" "p_ref q = 1"
    using l by (auto simp: seg_mem_def seg_fields_def)
  have "p \<notin> fst ` ?T" using G(2) q(1) by (auto simp: tail_room_def tail_ext_def Let_def)
  moreover have "keeps (?pb\<lparr>ps_bufs := (ps_bufs ?pb)(p := None)\<rparr>) ?pb" by (auto simp: keeps_def)
  moreover have "mem_ok ?pb (add_mset p R) (add_mset (sg_elem l) S)" using m q(1) by (simp add: own_next_def)
  ultimately obtain c pb1 where f: "pbuf_free (Some p) ?pb = Some (c, pb1)" "room ?T pb1" "ps_bufs pb1 = (ps_bufs ?pb)(p := None)" "ps_mem pb1 = ps_mem ?pb"
    using free_new [OF _ tails_room, of ?pb p R "add_mset (sg_elem l) S" G "?pb\<lparr>ps_bufs := (ps_bufs ?pb)(p := None)\<rparr>" q] q by auto
  let ?pb' = "pb1\<lparr>ps_pools := memp_free MEMP_TCP_SEG (Some (sg_elem l)) (ps_pools pb1)\<rparr>"
  have e: "tcp_seg_free l w = Some (w\<lparr>ts_pb := ?pb'\<rparr>)" using f(1) q(1) by (simp add: tcp_seg_free_def stack_pb_def stack_free_def)
  have rm: "room ?T ?pb'" by (rule room_memp_free [OF f(2)]) (simp add: pool_idx)
  have same: "ps_bufs ?pb' a = ps_bufs ?pb a" if "g \<in> G" "sg_p g = Some a" for g a
    using G(2) [OF that(1)] that(2) q(1) f(3) by auto
  have "tail_room ?pb' g k" if g: "g \<in> G" "tail_room ?pb g k" for g k
  proof -
    have "room {tail_ext ?pb g k} ?pb'" by (rule room_mono [OF rm]) (use g in blast)
    then show ?thesis using g(2) same [OF g(1)] by (auto simp: tail_room_def tail_ext_def)
  qed
  moreover have "seg_mem ?pb' g" if "g \<in> G" for g
  proof -
    have "seg_mem ?pb g" using that G(1) by (simp add: segs_in_def)
    then show ?thesis using same [OF that] by (auto simp: seg_mem_def)
  qed
  moreover have "same_seg w (w\<lparr>ts_pb := ?pb'\<rparr>) g" for g by (rule same_segI) (simp add: f(4))
  ultimately have "calm w (w\<lparr>ts_pb := ?pb'\<rparr>) G" by (simp add: calm_def)
  moreover obtain pb2 where "w\<lparr>ts_pb := pb2\<rparr> = w\<lparr>ts_pb := ?pb'\<rparr>" "mem_ok pb2 R S" "pcb_pools ?pb pb2"
    using tcp_seg_free_ok [OF m] e by auto
  then have "mem_ok ?pb' R S" "pcb_pools ?pb ?pb'" using stack_pb_inj [where w = w and pb = pb2 and pb' = ?pb'] by simp_all
  ultimately show ?thesis using e by blast
qed

lemma own_next_commute: "own_next p (own_next q R) = own_next q (own_next p R)"
  by (auto simp: own_next_def split: option.split)

lemma stack_pb_id: "w\<lparr>ts_pcbs := P\<rparr> = w\<lparr>ip_id := ip_id w, ts_app := ts_app w, ts_pb := ts_pb w, ts_pcbs := P\<rparr>"
  by simp

lemma send_ok_segs: "send_ok w b \<Longrightarrow> segs_in w (set (queued b))"
  unfolding send_ok_def segs_in_def distinct_map by blast

lemma sent_segment_ok:
  assumes w: "held w pcb b R S" "send_ok w b" "t_unsent b = l # rest" "chained w s (queued b) e"
  shows "\<exists>w' b'. sent_segment pcb l rest w = Some w' \<and> out_step pcb R S w b w' b' \<and> t_unsent b' = rest \<and> ts_app w' = ts_app w"
proof -
  define f where "f = (if t_state b \<noteq> SYN_SENT then t_flags b AND NOT (TF_ACK_DELAY OR TF_ACK_NOW) else t_flags b)"
  define n where "n = (let n = seg_seqno w l + TCP_TCPLEN w l in if TCP_SEQ_LT (t_snd_nxt b) n then n else t_snd_nxt b)"
  let ?b = "\<lambda>una. b\<lparr>t_unsent := rest, t_flags := f, t_snd_nxt := n, t_unacked := una\<rparr>"
  have pb: "ts_pcbs w pcb = Some b" using w(1) by (simp add: held_def)
  have qe: "queue_unacked w l (t_unacked b) = t_unacked b @ [l]" using queue_unacked_end w(3,4) by simp
  note so = w(2) [unfolded send_ok_def w(3)]
  show ?thesis
  proof (cases "TCP_TCPLEN w l > 0")
    case True
    let ?b1 = "?b (t_unacked b @ [l])"
    let ?w1 = "w\<lparr>ts_pcbs := (ts_pcbs w)(pcb \<mapsto> ?b1)\<rparr>"
    have "sent_segment pcb l rest w = Some ?w1" using True pb qe by (simp add: sent_segment_def pcb_upd_def f_def n_def Let_def)
    moreover have "out_step pcb R S w b ?w1 ?b1"
    proof -
      have q1: "queued ?b1 = queued b" using w(3) by simp
      have "held ?w1 pcb ?b1 R S" using w(1) by (simp add: held_def pcb_refs_def pcb_segs_def w(3) own_next_add own_next_add_right ac_simps)
      moreover have "send_ok ?w1 ?b1" unfolding send_ok_def q1 using w(2) unfolding send_ok_def by (auto simp: w(3))
      ultimately show ?thesis using calm_stream [OF calm_pb [OF send_ok_segs [OF w(2)], of ?w1]] q1
        by (intro out_stepI [OF stack_pb_id]) (simp_all add: same_conn_def)
    qed
    ultimately show ?thesis by (intro exI [of _ ?w1] exI [of _ ?b1]) simp
  next
    case False
    let ?b1 = "?b (t_unacked b)"
    let ?w1 = "w\<lparr>ts_pcbs := (ts_pcbs w)(pcb \<mapsto> ?b1)\<rparr>"
    have "sent_segment pcb l rest w = tcp_seg_free l ?w1" using False pb by (simp add: sent_segment_def pcb_upd_def f_def n_def Let_def)
    moreover have z: "TCP_TCPLEN w l = 0" "sg_len l = 0" using False tcplen_nat [of w l] by (simp_all add: word_gt_0 word_unat_eq_iff split: if_splits)
    have sg: "segs_in ?w1 (set (queued ?b1))"
      using segs_in_mono [OF send_ok_segs [OF w(2)], of "set (queued ?b1)"] w(3) by (auto simp: segs_in_def)
    have "\<exists>pb'. tcp_seg_free l ?w1 = Some (?w1\<lparr>ts_pb := pb'\<rparr>)
        \<and> mem_ok pb' (pcb_refs ?b1 + all_refs ((ts_pcbs w)(pcb := None)) + R) (seg_elems (pcb_segs ?b1) + all_elems ((ts_pcbs w)(pcb := None)) + S)
        \<and> pcb_pools (ts_pb ?w1) pb' \<and> calm ?w1 (?w1\<lparr>ts_pb := pb'\<rparr>) (set (queued ?b1))"
    proof (rule seg_free_calm [OF _ _ sg])
      show "mem_ok (ts_pb ?w1) (own_next (sg_p l) (pcb_refs ?b1 + all_refs ((ts_pcbs w)(pcb := None)) + R))
          (add_mset (sg_elem l) (seg_elems (pcb_segs ?b1) + all_elems ((ts_pcbs w)(pcb := None)) + S))"
        using w(1) by (simp add: held_def pcb_refs_def pcb_segs_def w(3) own_next_add own_next_add_right own_next_commute ac_simps)
      show "seg_mem (ts_pb ?w1) l" using so by simp
      show "sg_p g \<noteq> sg_p l" if "g \<in> set (queued ?b1)" for g using so that by (auto simp: image_iff)
    qed
    then obtain pb' where f: "tcp_seg_free l ?w1 = Some (?w1\<lparr>ts_pb := pb'\<rparr>)"
      "mem_ok pb' (pcb_refs ?b1 + all_refs ((ts_pcbs w)(pcb := None)) + R) (seg_elems (pcb_segs ?b1) + all_elems ((ts_pcbs w)(pcb := None)) + S)"
      "pcb_pools (ts_pb ?w1) pb'" "calm ?w1 (?w1\<lparr>ts_pb := pb'\<rparr>) (set (queued ?b1))" by blast
    let ?w2 = "?w1\<lparr>ts_pb := pb'\<rparr>"
    have "out_step pcb R S w b ?w2 ?b1"
    proof -
      have c1: "calm w ?w1 (set (queued ?b1))" by (rule calm_pb) (use sg in \<open>simp_all add: segs_in_def\<close>)
      have c: "calm w ?w2 (set (queued ?b1))" by (rule calm_trans [OF c1 f(4)])
      have sb: "seg_bytes w l = []" using z(2) by (simp add: seg_bytes_def rd_bytes_def)
      have st: "stream ?w2 (queued ?b1) = stream w (queued b)" using calm_stream [OF c] sb w(3) by simp
      have ch: "chained ?w2 s (queued ?b1) e" if "chained w s (queued b) e" for s e
        using that calm_stream [OF c, of s e] w(3) z(1) by (auto simp: chained_append)
      have "held ?w2 pcb ?b1 R S" using f(2) by (simp add: held_def)
      moreover have "send_ok ?w2 ?b1" using so c1 c unfolding send_ok_def calm_def by (auto simp: w(3))
      moreover have "?w2 = w\<lparr>ip_id := ip_id w, ts_app := ts_app w, ts_pb := pb', ts_pcbs := (ts_pcbs w)(pcb \<mapsto> ?b1)\<rparr>" by simp
      ultimately show ?thesis using st ch f(3) by (intro out_stepI [where k = "ip_id w" and app = "ts_app w" and pb = pb']) (simp_all add: same_conn_def)
    qed
    ultimately show ?thesis using f(1) by (intro exI [of _ ?w2] exI [of _ ?b1]) simp
  qed
qed

section \<open>The loop\<close>

lemma same_conn_refl [simp]: "same_conn b b"
  by (simp add: same_conn_def)

lemma held_pcb: "held w pcb b R S \<Longrightarrow> ts_pcbs w pcb = Some b"
  by (simp add: held_def)

text \<open>An update of other fields of the PCB.\<close>

lemma out_step_upd:
  assumes w: "held w pcb b R S" "send_ok w b"
    and b': "same_conn b (f b)" "t_unsent (f b) = t_unsent b" "t_unacked (f b) = t_unacked b" "t_unsent b = [] \<or> t_unsent_oversize (f b) = t_unsent_oversize b"
  shows "\<exists>w' b'. pcb_upd pcb f w = Some w' \<and> out_step pcb R S w b w' b' \<and> ts_app w' = ts_app w \<and> b' = f b"
proof -
  let ?w = "w\<lparr>ts_pcbs := (ts_pcbs w)(pcb \<mapsto> f b)\<rparr>"
  have "out_step pcb R S w b ?w (f b)"
    by (rule out_step_calm [OF w stack_pb_id]) (use b' w(1) calm_pb [OF send_ok_segs [OF w(2)], of ?w] in \<open>simp_all add: held_def\<close>)
  then show ?thesis using pcb_upd_Some [OF held_pcb [OF w(1)], of f] by (intro exI [of _ ?w] exI [of _ "f b"]) simp
qed

lemma out_step_refl: "held w pcb b R S \<Longrightarrow> send_ok w b \<Longrightarrow> out_step pcb R S w b w b"
  using out_step_upd [of w pcb b R S "\<lambda>b. b"] by (auto simp: pcb_upd_def held_def fun_upd_idem)

lemma out_step_netifs:
  assumes "out_step pcb R S w b w' b'"
  shows "ts_netifs w' = ts_netifs w" "mtu_ok w' = mtu_ok w" "netifs_ok w' = netifs_ok w" "tcp_input_pcb w' = tcp_input_pcb w"
proof -
  obtain pb k app where "w' = w\<lparr>ip_id := k, ts_app := app, ts_pb := pb, ts_pcbs := (ts_pcbs w)(pcb \<mapsto> b')\<rparr>" using out_stepD(1) [OF assms] by blast
  then show "ts_netifs w' = ts_netifs w" "mtu_ok w' = mtu_ok w" "netifs_ok w' = netifs_ok w" "tcp_input_pcb w' = tcp_input_pcb w"
    by (simp_all add: mtu_ok_def netifs_ok_def)
qed

lemma out_step_flag:
  assumes w: "held w pcb b R S" "send_ok w b" and l: "l \<in> set (queued b)" "take_bit 2 f = (0 :: u8)"
  shows "out_step pcb R S w b (TCPH_SET_FLAG (sg_tcphdr l) f w) b" "ts_app (TCPH_SET_FLAG (sg_tcphdr l) f w) = ts_app w"
proof -
  let ?w = "TCPH_SET_FLAG (sg_tcphdr l) f w"
  obtain m where m: "?w = w\<lparr>ts_pb := (ts_pb w)\<lparr>ps_mem := m\<rparr>\<rparr>" using st_stores(6) unfolding stores_def by blast
  then have e: "?w = w\<lparr>ip_id := ip_id w, ts_app := ts_app w, ts_pb := (ts_pb w)\<lparr>ps_mem := m\<rparr>, ts_pcbs := (ts_pcbs w)(pcb \<mapsto> b)\<rparr>"
    using held_pcb [OF w(1)] by (simp add: fun_upd_idem)
  have "calm w ?w (set (queued b))" using calm_set_flag [OF _ send_ok_segs [OF w(2)] l] w(1) by (auto simp: held_def)
  from out_step_calm [OF w e _ this] show "out_step pcb R S w b ?w b" using w(1) by (simp add: held_def)
  show "ts_app ?w = ts_app w" by (simp add: m)
qed

context netif_driver
begin

lemma out_step_segment:
  assumes w: "held w pcb b R S" "send_ok w b" "l \<in> set (queued b)" "ts_netifs w nif \<noteq> None" "mtu_ok w" "app_ok (ts_app w)"
  shows "\<exists>err w' b'. tcp_output_segment env l pcb nif w = Some (err, w') \<and> out_step pcb R S w b w' b' \<and> app_ok (ts_app w') \<and> t_unsent b' = t_unsent b"
proof -
  from w(1) have m: "mem_ok (ts_pb w) (pcb_refs b + all_refs ((ts_pcbs w)(pcb := None)) + R) (seg_elems (pcb_segs b) + all_elems ((ts_pcbs w)(pcb := None)) + S)"
    by (simp add: held_def)
  from tcp_output_segment_ok [OF m send_ok_segs [OF w(2)] w(3) held_pcb [OF w(1)] w(4-6)] obtain err pb k app b' where
    o: "tcp_output_segment env l pcb nif w = Some (err, sent_pcb w pcb pb k app b')" "seg_stamped b b'" "pcb_pools (ts_pb w) pb" "app_ok app"
      "calm w (sent_pcb w pcb pb k app b') (set (queued b))"
      "mem_ok pb (pcb_refs b + all_refs ((ts_pcbs w)(pcb := None)) + R) (seg_elems (pcb_segs b) + all_elems ((ts_pcbs w)(pcb := None)) + S)" by blast
  have b': "same_conn b b'" "t_unsent b' = t_unsent b" "t_unacked b' = t_unacked b" "t_unsent_oversize b' = t_unsent_oversize b"
    using o(2) by (auto simp: seg_stamped_def same_conn_def)
  have "out_step pcb R S w b (sent_pcb w pcb pb k app b') b'" by (rule out_step_calm [OF w(1,2) refl o(3,5,6)]) (use b' in simp_all)
  then show ?thesis using o(1,4) b'(2) by (intro exI [of _ err] exI [of _ "sent_pcb w pcb pb k app b'"] exI [of _ b']) simp
qed

lemma output_loop_ok:
  assumes "held w pcb b R S" "send_ok w b" "t_unsent b = gs" "chained w s (queued b) e" "ts_netifs w nif \<noteq> None" "mtu_ok w" "app_ok (ts_app w)"
  shows "\<exists>r w' b'. output_loop env pcb nif wnd gs w = Some (r, w') \<and> out_step pcb R S w b w' b' \<and> app_ok (ts_app w') \<and> (r \<noteq> None \<longrightarrow> t_unsent b' \<noteq> [])"
  using assms
proof (induction gs arbitrary: w b)
  case Nil
  then show ?case using out_step_refl by fastforce
next
  case (Cons l rest)
  note w = Cons.prems
  note p = held_pcb [OF w(1)]
  let ?stop = "\<not> seg_fits w (t_lastack b) wnd l \<or> \<not> tcp_do_output_nagle b \<and> t_flags b AND (TF_NAGLEMEMERR OR TF_FIN) = 0"
  let ?w0 = "if t_state b \<noteq> SYN_SENT then TCPH_SET_FLAG (sg_tcphdr l) TCP_ACK w else w"
  have lq: "l \<in> set (queued b)" using w(3) by simp
  show ?case
  proof (cases ?stop)
    case True
    then show ?thesis using p out_step_refl [OF w(1,2)] w(7) by (intro exI [of _ None] exI [of _ w] exI [of _ b]) simp
  next
    case False
    have s0: "out_step pcb R S w b ?w0 b" "ts_app ?w0 = ts_app w"
      using out_step_flag [OF w(1,2) lq, of TCP_ACK] out_step_refl [OF w(1,2)] by (auto simp: TCP_ACK_def)
    note d0 = out_stepD [OF s0(1)] and n0 = out_step_netifs [OF s0(1)]
    from out_step_segment [OF d0(3,4) lq, of nif] n0 s0(2) w(5-7) obtain err w1 b1 where
      s1: "tcp_output_segment env l pcb nif ?w0 = Some (err, w1)" "out_step pcb R S ?w0 b w1 b1" "app_ok (ts_app w1)" "t_unsent b1 = l # rest"
      using w(3) by auto
    note s1' = out_step_trans [OF s0(1) s1(2)]
    note d1 = out_stepD [OF s1'] and n1 = out_step_netifs [OF s1']
    have e1: "output_loop env pcb nif wnd (l # rest) w = (if err \<noteq> ERR_OK then map_option (\<lambda>w. (Some err, w)) (tcp_set_flags pcb TF_NAGLEMEMERR w1)
        else Option.bind (sent_segment pcb l rest w1) (output_loop env pcb nif wnd rest))"
      using p s1(1) by (simp only: output_loop.simps option.simps Option.bind.simps False if_False prod.case)
    show ?thesis
    proof (cases "err = ERR_OK")
      case True
      from sent_segment_ok [OF d1(3,4) s1(4) d1(7) [OF w(4)]] obtain w2 b2 where
        s2: "sent_segment pcb l rest w1 = Some w2" "out_step pcb R S w1 b1 w2 b2" "t_unsent b2 = rest" "ts_app w2 = ts_app w1" by blast
      note s2' = out_step_trans [OF s1' s2(2)]
      note d2 = out_stepD [OF s2'] and n2 = out_step_netifs [OF s2']
      from Cons.IH [OF d2(3,4) s2(3) d2(7) [OF w(4)]] n2 w(5,6) s1(3) s2(4) obtain r w3 b3 where
        s3: "output_loop env pcb nif wnd rest w2 = Some (r, w3)" "out_step pcb R S w2 b2 w3 b3" "app_ok (ts_app w3)" "r \<noteq> None \<longrightarrow> t_unsent b3 \<noteq> []" by auto
      show ?thesis using e1 True s2(1) s3(1,3,4) out_step_trans [OF s2' s3(2)] by auto
    next
      case False
      from out_step_upd [OF d1(3,4), of "\<lambda>b. b\<lparr>t_flags := t_flags b OR TF_NAGLEMEMERR\<rparr>"] obtain w2 b2 where
        s2: "tcp_set_flags pcb TF_NAGLEMEMERR w1 = Some w2" "out_step pcb R S w1 b1 w2 b2" "ts_app w2 = ts_app w1" "t_unsent b2 = t_unsent b1"
        by (auto simp: tcp_set_flags_def same_conn_def)
      then show ?thesis unfolding e1 using False s1(3,4) out_step_trans [OF s1' s2(2)] by (intro exI [of _ "Some err"] exI [of _ w2] exI [of _ b2]) simp
    qed
  qed
qed

end

section \<open>Acknowledgements\<close>

text \<open>A control segment is made, sent and freed; nothing that was there before is touched.\<close>

lemma room_dom: "room T pb \<Longrightarrow> ps_bufs pb p = None \<Longrightarrow> p \<notin> fst ` T"
  by (force simp: room_def)

lemma alloc_header_fresh:
  assumes m: "mem_ok (ts_pb w) R S" "room T (ts_pb w)"
  shows "\<exists>r pb. tcp_output_alloc_header_common ackno 0 0 seqno sp dp flags wnd w = Some (r, w\<lparr>ts_pb := pb\<rparr>)
    \<and> mem_ok pb (own_next r R) S \<and> pcb_pools (ts_pb w) pb \<and> room T pb \<and> keeps (ts_pb w) pb
    \<and> (\<forall>p. r = Some p \<longrightarrow> ps_bufs (ts_pb w) p = None \<and> ps_bufs pb p = Some (new_pbuf (p + SIZEOF_STRUCT_PBUF + 34) 20 20 PBUF_RAM))"
proof -
  from alloc_room [OF m, of PBUF_IP 20] obtain r pb where
    a: "pbuf_alloc PBUF_IP 20 PBUF_RAM (ts_pb w) = Some (r, pb)" "mem_ok pb (own_next r R) S" "pcb_pools (ts_pb w) pb" "room T pb" "ps_mem pb = ps_mem (ts_pb w)"
      "case r of None \<Rightarrow> ps_bufs pb = ps_bufs (ts_pb w)
       | Some p \<Rightarrow> ps_bufs (ts_pb w) p = None \<and> ps_bufs pb = (ps_bufs (ts_pb w))(p \<mapsto> new_pbuf (p + SIZEOF_STRUCT_PBUF + pbuf_layer_offset PBUF_IP) 20 20 PBUF_RAM)"
    by blast
  show ?thesis
  proof (cases r)
    case None
    have "keeps (ts_pb w) pb" using None a(5,6) by (simp add: keeps_def)
    then show ?thesis using None a by (intro exI [of _ r] exI [of _ pb]) (simp add: tcp_output_alloc_header_common_def stack_pb_def TCP_HLEN_def)
  next
    case (Some p)
    let ?h = "p + SIZEOF_STRUCT_PBUF + 34"
    have p: "ps_bufs (ts_pb w) p = None" "ps_bufs pb = (ps_bufs (ts_pb w))(p \<mapsto> new_pbuf ?h 20 20 PBUF_RAM)" using a(6) Some by simp_all
    let ?w = "st_u16 (?h + 18) 0 (st_u16 (?h + 16) 0 (st_u16 (?h + 14) wnd (TCPH_HDRLEN_FLAGS_SET ?h 5 flags
      (st_u32 (?h + 8) ackno (st_u32 (?h + 4) seqno (st_u16 (?h + 2) dp (st_u16 ?h sp (w\<lparr>ts_pb := pb\<rparr>))))))))"
    have "stores (w\<lparr>ts_pb := pb\<rparr>) ?w" by (intro stores_st stores_refl)
    then obtain m where m: "?w = w\<lparr>ts_pb := pb\<lparr>ps_mem := m\<rparr>\<rparr>" by (auto simp: stores_def)
    have mm: "m x = ps_mem pb x" if "x < ?h \<or> ?h + 20 \<le> x" for x
    proof -
      have "m x = ps_mem (ts_pb ?w) x" by (simp only: m) simp
      also have "\<dots> = ps_mem pb x" using that by (auto simp: st_other TCPH_HDRLEN_FLAGS_SET_def)
      finally show ?thesis .
    qed
    have k: "keeps (ts_pb w) pb" using p a(5) by (auto simp: keeps_def)
    have "keeps (ts_pb w) (pb\<lparr>ps_mem := m\<rparr>)"
      by (rule keeps_new [OF k p(1), where q = "new_pbuf ?h 20 20 PBUF_RAM"]) (use a(2) p(2) mm in \<open>auto simp: mem_ok_def new_pbuf_allocsrc\<close>)
    moreover have "tcp_output_alloc_header_common ackno 0 0 seqno sp dp flags wnd w = Some (Some p, ?w)"
      using a(1) Some p(2) by (simp add: tcp_output_alloc_header_common_def stack_pb_def stack_buf_def Let_def TCP_HLEN_def)
    ultimately show ?thesis using a(2-4) Some p m by (intro exI [of _ r] exI [of _ "pb\<lparr>ps_mem := m\<rparr>"]) simp
  qed
qed

context netif_driver
begin

lemma control_segment_fresh:
  assumes m: "mem_ok (ts_pb w) (add_mset p R) S" "room T (ts_pb w)" "keeps pb0 (ts_pb w)" "ps_bufs pb0 p = None" "p \<notin> fst ` T"
    and q: "ps_bufs (ts_pb w) p = Some (new_pbuf (p + SIZEOF_STRUCT_PBUF + 34) 20 20 PBUF_RAM)"
    and w: "ts_pcbs w pcb = Some b" "netifs_ok w" "mtu_ok w" "app_ok (ts_app w)"
  shows "\<exists>err pb k app. tcp_output_control_segment env (Some pcb) p src dst w = Some (err, sent w pb k app)
    \<and> mem_ok pb R S \<and> pcb_pools (ts_pb w) pb \<and> app_ok app \<and> room T pb \<and> keeps pb0 pb"
proof -
  let ?q = "new_pbuf (p + SIZEOF_STRUCT_PBUF + 34) 20 20 PBUF_RAM"
  obtain r where r: "tcp_route w (Some pcb) src dst = Some r" "\<forall>a. r = Some a \<longrightarrow> ts_netifs w a \<noteq> None"
    using tcp_route_ok [OF w(2), of "Some pcb" src dst] w(1) by auto
  have src: "pbuf_get_allocsrc ?q = 0" by (simp add: new_pbuf_allocsrc)
  show ?thesis
  proof (cases r)
    case None
    from free_new [OF m(1,2,5,3,4) q] src obtain c pb where
      "pbuf_free (Some p) (ts_pb w) = Some (c, pb)" "mem_ok pb R S" "pcb_pools (ts_pb w) pb" "room T pb" "keeps pb0 pb" by auto
    moreover have "w\<lparr>ts_pb := pb\<rparr> = sent w pb (ip_id w) (ts_app w)" by simp
    ultimately show ?thesis using None r w(4)
      by (intro exI [of _ ERR_RTE] exI [of _ pb] exI [of _ "ip_id w"] exI [of _ "ts_app w"]) (simp add: tcp_output_control_segment_def stack_pb_def)
  next
    case (Some nif)
    then obtain n where n: "ts_netifs w nif = Some n" "nif_mtu n = 0 \<or> 1500 \<le> nif_mtu n" using r(2) w(3) by (auto simp: mtu_ok_def)
    let ?q2 = "?q\<lparr>p_payload := p_payload ?q - 20, p_len := p_len ?q + 20, p_tot_len := p_tot_len ?q + 20\<rparr>"
    let ?pb1 = "\<lambda>m. (ts_pb w)\<lparr>ps_bufs := (ps_bufs (ts_pb w))(p \<mapsto> ?q2), ps_mem := m\<rparr>"
    have "\<exists>err k app m. ip4_output_if env p src (Some dst) (t_ttl b) (t_tos b) IP_PROTO_TCP nif w = Some (err, sent w (?pb1 m) k app)
        \<and> app_ok app \<and> (\<forall>x. \<not> (p_payload ?q - 20 \<le> x \<and> x < p_payload ?q) \<longrightarrow> m x = ps_mem (ts_pb w) x)"
      by (rule ip4_output_mem [OF q _ _ _ _ _ n w(4)]) simp_all
    then obtain err k app m1 where o: "ip4_output_if env p src (Some dst) (t_ttl b) (t_tos b) IP_PROTO_TCP nif w = Some (err, sent w (?pb1 m1) k app)" "app_ok app"
      "\<forall>x. \<not> (p_payload ?q - 20 \<le> x \<and> x < p_payload ?q) \<longrightarrow> m1 x = ps_mem (ts_pb w) x" by blast
    have "pinv (?pb1 m1)" using pinv_refield [OF _ q, of ?q2] m(1) src by (simp add: mem_ok_def)
    moreover have "owned (ps_bufs (?pb1 m1)) (add_mset p R)" using owned_fields [of "ps_bufs (ts_pb w)" "add_mset p R" p ?q ?q2] q m(1) by (simp add: mem_ok_def)
    ultimately have m1: "mem_ok (?pb1 m1) (add_mset p R) S" using m(1) by (simp add: mem_ok_def pool_holds_def)
    have r1: "room T (?pb1 m1)" using room_refield [OF m(2,5) q, of ?q2] src by simp
    have k1: "keeps pb0 (?pb1 m1)"
      by (rule keeps_new [OF m(3,4) _ q]) (use m(1) src o(3) in \<open>auto simp: mem_ok_def\<close>)
    have q2: "ps_bufs (?pb1 m1) p = Some ?q2" "pbuf_get_allocsrc ?q2 = 0" using src by (simp_all add: pbuf_get_allocsrc_def)
    from free_new [OF m1 r1 m(5) k1 m(4) q2(1)] q2(2) obtain c pb where
      f: "pbuf_free (Some p) (?pb1 m1) = Some (c, pb)" "mem_ok pb R S" "pcb_pools (?pb1 m1) pb" "room T pb" "keeps pb0 pb" by auto
    have "(sent w (?pb1 m1) k app)\<lparr>ts_pb := pb\<rparr> = sent w pb k app" by simp
    then have "tcp_output_control_segment env (Some pcb) p src dst w = Some (err, sent w pb k app)"
      using r(1) Some w(1) o(1) f(1) by (simp add: tcp_output_control_segment_def tcp_output_control_segment_netif_def stack_pb_def)
    moreover have "pcb_pools (ts_pb w) pb" using f(3) by (rule pcb_pools_trans [rotated]) (simp add: pcb_pools_def)
    ultimately show ?thesis using f(2,4,5) o(2) by blast
  qed
qed

lemma empty_ack_step:
  assumes w: "held w pcb b R S" "send_ok w b" "netifs_ok w" "mtu_ok w" "app_ok (ts_app w)"
  shows "\<exists>err w' b'. tcp_send_empty_ack env pcb w = Some (err, w') \<and> out_step pcb R S w b w' b' \<and> app_ok (ts_app w') \<and> (idle b \<longrightarrow> idle b')"
proof -
  let ?s = "sent_pcb w pcb" and ?e = "t_rcv_nxt b + ucast (t_rcv_ann_wnd b)"
  let ?b = "\<lambda>f e. b\<lparr>t_rcv_ann_right_edge := e, t_flags := f\<rparr>"
  let ?R = "pcb_refs b + all_refs ((ts_pcbs w)(pcb := None)) + R" and ?S = "seg_elems (pcb_segs b) + all_elems ((ts_pcbs w)(pcb := None)) + S"
  let ?T = "{x. \<exists>g k. g \<in> set (queued b) \<and> tail_room (ts_pb w) g k \<and> x = tail_ext (ts_pb w) g k}"
  note p = held_pcb [OF w(1)]
  have m: "mem_ok (ts_pb w) ?R ?S" using w(1) by (simp add: held_def)
  have fin: "out_step pcb R S w b (?s pb k app (?b f e)) (?b f e)"
    if "mem_ok pb ?R ?S" "pcb_pools (ts_pb w) pb" "room ?T pb" "keeps (ts_pb w) pb" for pb k app f e
    by (rule out_step_calm [OF w(1,2) refl that(2) _ that(1)]) (use calm_keeps [OF send_ok_segs [OF w(2)]] that(3,4) in \<open>simp_all add: same_conn_def\<close>)
  from alloc_header_fresh [OF m tails_room, of "t_rcv_nxt b" "t_snd_nxt b" "t_local_port b" "t_remote_port b" TCP_ACK "t_rcv_ann_wnd b" "set (queued b)"]
  obtain r pb where a: "tcp_output_alloc_header_common (t_rcv_nxt b) 0 0 (t_snd_nxt b) (t_local_port b) (t_remote_port b) TCP_ACK (t_rcv_ann_wnd b) w = Some (r, w\<lparr>ts_pb := pb\<rparr>)"
    "mem_ok pb (own_next r ?R) ?S" "pcb_pools (ts_pb w) pb" "room ?T pb" "keeps (ts_pb w) pb"
    "\<forall>p. r = Some p \<longrightarrow> ps_bufs (ts_pb w) p = None \<and> ps_bufs pb p = Some (new_pbuf (p + SIZEOF_STRUCT_PBUF + 34) 20 20 PBUF_RAM)" by blast
  have ol: "LWIP_TCP_OPT_LENGTH 0 = 0" by (simp add: LWIP_TCP_OPT_LENGTH_def)
  show ?thesis
  proof (cases r)
    case None
    let ?f = "t_flags b OR (TF_ACK_DELAY OR TF_ACK_NOW)"
    have "w\<lparr>ts_pb := pb, ts_pcbs := (ts_pcbs w)(pcb \<mapsto> b\<lparr>t_flags := ?f\<rparr>)\<rparr> = ?s pb (ip_id w) (ts_app w) (?b ?f (t_rcv_ann_right_edge b))" by simp
    then have "tcp_send_empty_ack env pcb w = Some (ERR_BUF, ?s pb (ip_id w) (ts_app w) (?b ?f (t_rcv_ann_right_edge b)))"
      using None a(1) p by (simp add: tcp_send_empty_ack_def tcp_output_alloc_header_def tcp_set_flags_def pcb_upd_def ol)
    moreover have "mem_ok pb ?R ?S" using None a(2) by (simp add: own_next_def)
    ultimately show ?thesis using fin [OF _ a(3-5), where k = "ip_id w" and app = "ts_app w" and f = ?f and e = "t_rcv_ann_right_edge b"] w(5)
      by (intro exI [of _ ERR_BUF] exI [of _ "?s pb (ip_id w) (ts_app w) (?b ?f (t_rcv_ann_right_edge b))"] exI [of _ "?b ?f (t_rcv_ann_right_edge b)"]) (simp add: idle_def)
  next
    case (Some x)
    then have x: "ps_bufs (ts_pb w) x = None" "ps_bufs pb x = Some (new_pbuf (x + SIZEOF_STRUCT_PBUF + 34) 20 20 PBUF_RAM)" using a(6) by simp_all
    let ?w1 = "w\<lparr>ts_pb := pb, ts_pcbs := (ts_pcbs w)(pcb \<mapsto> b\<lparr>t_rcv_ann_right_edge := ?e\<rparr>)\<rparr>"
    have h: "tcp_output_alloc_header pcb 0 0 (t_snd_nxt b) w = Some (Some x, ?w1)"
      using Some a(1) p by (simp add: tcp_output_alloc_header_def pcb_upd_def)
    have nx: "x \<notin> fst ` ?T" using room_dom [OF tails_room x(1)] .
    have "netifs_ok ?w1" "mtu_ok ?w1" using w(3,4) by (simp_all add: netifs_ok_def mtu_ok_def)
    with control_segment_fresh [of ?w1 x ?R ?S ?T "ts_pb w" pcb "b\<lparr>t_rcv_ann_right_edge := ?e\<rparr>" "t_local_ip b" "t_remote_ip b"] a(2,4,5) Some x nx w(5)
    obtain err pb' k app where c: "tcp_output_control_segment env (Some pcb) x (t_local_ip b) (t_remote_ip b) ?w1 = Some (err, sent ?w1 pb' k app)"
      "mem_ok pb' ?R ?S" "pcb_pools pb pb'" "app_ok app" "room ?T pb'" "keeps (ts_pb w) pb'" by (auto simp: own_next_def)
    have w1: "sent ?w1 pb' k app = ?s pb' k app (b\<lparr>t_rcv_ann_right_edge := ?e\<rparr>)" by simp
    have "\<exists>f. tcp_send_empty_ack env pcb w = Some (err, ?s pb' k app (?b f ?e))"
      using p h c(1) unfolding tcp_send_empty_ack_def ol w1
      by (cases "err = ERR_OK") (auto simp: tcp_set_flags_def tcp_clear_flags_def sent_pcb_upd)
    then obtain f where f: "tcp_send_empty_ack env pcb w = Some (err, ?s pb' k app (?b f ?e))" by blast
    show ?thesis using f fin [OF c(2) pcb_pools_trans [OF a(3) c(3)] c(5,6), where k = k and app = app and f = f and e = ?e] c(4)
      by (intro exI [of _ err] exI [of _ "?s pb' k app (?b f ?e)"] exI [of _ "?b f ?e"]) (simp add: idle_def)
  qed
qed

text \<open>The whole of \<open>tcp_output\<close>, one part after the other.\<close>

lemma output_done_step:
  assumes w: "held w pcb b R S" "send_ok w b" "app_ok (ts_app w)"
  shows "\<exists>err w' b'. output_done pcb w = Some (err, w') \<and> out_step pcb R S w b w' b' \<and> app_ok (ts_app w') \<and> (idle b \<longrightarrow> idle b')"
proof -
  from out_step_upd [OF w(1,2), of "\<lambda>b. b\<lparr>t_flags := t_flags b AND NOT TF_NAGLEMEMERR\<rparr>"] obtain w' b' where
    "tcp_clear_flags pcb TF_NAGLEMEMERR w = Some w'" "out_step pcb R S w b w' b'" "ts_app w' = ts_app w" "idle b' = idle b"
    by (auto simp: tcp_clear_flags_def same_conn_def idle_def)
  then show ?thesis using w(3) by (intro exI [of _ ERR_OK] exI [of _ w'] exI [of _ b']) (simp add: output_done_def)
qed

lemma out_step_then:
  assumes "out_step pcb R S w b w1 b1" "idle b \<longrightarrow> idle b1" "\<exists>err w' b'. x = Some (err, w') \<and> out_step pcb R S w1 b1 w' b' \<and> app_ok (ts_app w') \<and> (idle b1 \<longrightarrow> idle b')"
  shows "\<exists>err w' b'. x = Some (err, w') \<and> out_step pcb R S w b w' b' \<and> app_ok (ts_app w') \<and> (idle b \<longrightarrow> idle b')"
  using assms out_step_trans by blast

lemma ack_or_done_step:
  assumes w: "held w pcb b R S" "send_ok w b" "netifs_ok w" "mtu_ok w" "app_ok (ts_app w)"
  shows "\<exists>err w' b'. (if c then tcp_send_empty_ack env pcb w else output_done pcb w) = Some (err, w') \<and> out_step pcb R S w b w' b' \<and> app_ok (ts_app w') \<and> (idle b \<longrightarrow> idle b')"
  using empty_ack_step [OF w] output_done_step [OF w(1,2,5)] by simp

lemma output_on_step:
  assumes w: "held w pcb b R S" "send_ok w b" "chained w s (queued b) e" "netifs_ok w" "mtu_ok w" "app_ok (ts_app w)" "ts_netifs w nif \<noteq> None"
  shows "\<exists>err w' b'. output_on env pcb nif seg wnd w = Some (err, w') \<and> out_step pcb R S w b w' b' \<and> app_ok (ts_app w') \<and> (idle b \<longrightarrow> idle b')"
proof (cases "seg_fits w (t_lastack b) wnd seg")
  case False
  let ?c = "wnd = ucast (t_snd_wnd b) \<and> t_unacked b = [] \<and> t_persist_backoff b = 0"
  let ?f = "\<lambda>b. b\<lparr>t_persist_cnt := 0, t_persist_backoff := 1, t_persist_probe := 0\<rparr>"
  obtain w1 b1 where 1: "(if ?c then pcb_upd pcb ?f w else Some w) = Some w1" "out_step pcb R S w b w1 b1" "ts_app w1 = ts_app w" "idle b \<longrightarrow> idle b1"
    using out_step_upd [OF w(1,2), of ?f] out_step_refl [OF w(1,2)] by (cases ?c) (auto simp: same_conn_def idle_def)
  note d = out_stepD [OF 1(2)] and n = out_step_netifs [OF 1(2)]
  have "output_on env pcb nif seg wnd w = (if t_flags b AND TF_ACK_NOW \<noteq> 0 then tcp_send_empty_ack env pcb w1 else output_done pcb w1)"
    using held_pcb [OF w(1)] False 1(1) by (simp add: output_on_def)
  then show ?thesis using out_step_then [OF 1(2,4) ack_or_done_step [OF d(3,4)]] n w(4-6) 1(3) by (simp only:)
next
  case True
  from out_step_upd [OF w(1,2), of "\<lambda>b. b\<lparr>t_persist_backoff := 0\<rparr>"] obtain w1 b1 where
    1: "pcb_upd pcb (\<lambda>b. b\<lparr>t_persist_backoff := 0\<rparr>) w = Some w1" "out_step pcb R S w b w1 b1" "ts_app w1 = ts_app w" "t_unsent b1 = t_unsent b"
    by (auto simp: same_conn_def)
  note d1 = out_stepD [OF 1(2)] and n1 = out_step_netifs [OF 1(2)]
  from output_loop_ok [OF d1(3,4) 1(4) d1(7) [OF w(3)], of nif wnd] n1 w(5-7) 1(3) obtain r w2 b2 where
    2: "output_loop env pcb nif wnd (t_unsent b) w1 = Some (r, w2)" "out_step pcb R S w1 b1 w2 b2" "app_ok (ts_app w2)" "r \<noteq> None \<longrightarrow> t_unsent b2 \<noteq> []" by auto
  note s2 = out_step_trans [OF 1(2) 2(2)]
  note d2 = out_stepD [OF s2]
  let ?f = "\<lambda>b. if t_unsent b = [] then b\<lparr>t_unsent_oversize := 0\<rparr> else b"
  have "\<exists>w3 b3. pcb_upd pcb ?f w2 = Some w3 \<and> out_step pcb R S w2 b2 w3 b3 \<and> ts_app w3 = ts_app w2 \<and> b3 = ?f b2"
    by (rule out_step_upd [OF d2(3,4)]) (simp_all add: same_conn_def)
  then obtain w3 b3 where 3: "pcb_upd pcb ?f w2 = Some w3" "out_step pcb R S w2 b2 w3 b3" "ts_app w3 = ts_app w2" "b3 = ?f b2" by blast
  have i3: "idle b \<longrightarrow> idle b3" by (simp add: 3(4) idle_def)
  note s3 = out_step_trans [OF s2 3(2)]
  have e: "output_on env pcb nif seg wnd w = (case r of Some err \<Rightarrow> Some (err, w2) | None \<Rightarrow> output_done pcb w3)"
    using held_pcb [OF w(1)] True 1(1) 2(1) 3(1) by (simp add: output_on_def split: option.splits)
  show ?thesis
  proof (cases r)
    case None
    then show ?thesis using e out_step_then [OF s3 i3 output_done_step [OF out_stepD(3,4) [OF s3]]] 2(3) 3(3) by simp
  next
    case (Some err)
    then show ?thesis using e s2 2(3,4) by (auto simp: idle_def)
  qed
qed

lemma tcp_output_step:
  assumes w: "held w pcb b R S" "send_ok w b" "chained w s (queued b) e" "netifs_ok w" "mtu_ok w" "app_ok (ts_app w)"
  shows "\<exists>err w' b'. tcp_output env pcb w = Some (err, w') \<and> out_step pcb R S w b w' b' \<and> app_ok (ts_app w') \<and> (idle b \<longrightarrow> idle b')"
proof (cases "tcp_input_pcb w = Some pcb")
  case True
  then show ?thesis using out_step_refl [OF w(1,2)] w(6) by (auto simp: tcp_output_def)
next
  case False
  note p = held_pcb [OF w(1)]
  let ?wnd = "ucast (min (t_snd_wnd b) (t_cwnd b)) :: u32"
  show ?thesis
  proof (cases "t_unsent b")
    case Nil
    then have "tcp_output env pcb w = (if t_flags b AND TF_ACK_NOW \<noteq> 0 then tcp_send_empty_ack env pcb w else output_done pcb w)"
      using False p by (simp add: tcp_output_def)
    then show ?thesis using ack_or_done_step [OF w(1,2,4-6)] by (simp only:)
  next
    case (Cons seg rest)
    obtain r where r: "tcp_route w (Some pcb) (t_local_ip b) (t_remote_ip b) = Some r" "\<forall>a. r = Some a \<longrightarrow> ts_netifs w a \<noteq> None"
      using tcp_route_ok [OF w(4), of "Some pcb" "t_local_ip b" "t_remote_ip b"] p by auto
    show ?thesis
    proof (cases r)
      case None
      then have "tcp_output env pcb w = Some (ERR_RTE, w)" using False p Cons r(1) by (simp add: tcp_output_def Let_def)
      then show ?thesis using out_step_refl [OF w(1,2)] w(6) by blast
    next
      case (Some nif)
      then obtain n where n: "ts_netifs w nif = Some n" using r(2) by blast
      let ?f = "\<lambda>b. b\<lparr>t_local_ip := (if t_local_ip b = 0 then nif_ip_addr n else t_local_ip b)\<rparr>"
      from out_step_upd [OF w(1,2), of ?f] obtain w1 b1 where
        1: "pcb_upd pcb ?f w = Some w1" "out_step pcb R S w b w1 b1" "ts_app w1 = ts_app w" "idle b \<longrightarrow> idle b1" by (auto simp: same_conn_def idle_def)
      note d = out_stepD [OF 1(2)] and m = out_step_netifs [OF 1(2)]
      have "tcp_output env pcb w = output_on env pcb nif seg ?wnd w1"
        using False p Cons r(1) Some n 1(1) by (simp add: tcp_output_def Let_def)
      then show ?thesis using out_step_then [OF 1(2,4) output_on_step [OF d(3,4) d(7) [OF w(3)]]] m w(4-6) 1(3) n by simp
    qed
  qed
qed

end

section \<open>Writing through the bridge\<close>

lemma stack_ok_ip_id [simp]: "stack_ok (w\<lparr>ip_id := k\<rparr>) R S = stack_ok w R S"
  by (simp add: stack_ok_def memory_ok_def lists_ok_def netifs_ok_def tcp_pcb_lists_def)

lemma stack_ok_held:
  assumes "stack_ok w R S" "ts_pcbs w pcb = Some b"
  shows "held w pcb b R S"
  using stack_okD(2) [OF assms(1)] all_remove [OF stack_okD(1) [OF assms(1)] assms(2)] assms(2) by (simp add: held_def)

lemma out_step_stack:
  assumes "stack_ok w R S" "ts_pcbs w pcb = Some b" "\<not> queueless (t_state b)" "out_step pcb R S w b w' b'"
  shows "stack_ok w' R S" "ts_pcbs w' = (ts_pcbs w)(pcb \<mapsto> b')"
proof -
  note d = out_stepD [OF assms(4)]
  obtain pb k app where w': "w' = w\<lparr>ip_id := k, ts_app := app, ts_pb := pb, ts_pcbs := (ts_pcbs w)(pcb \<mapsto> b')\<rparr>" using d(1) by blast
  let ?w = "w\<lparr>ts_pb := pb, ts_pcbs := (ts_pcbs w)(pcb \<mapsto> b')\<rparr>"
  have "stack_ok ?w R S"
    by (rule stack_ok_queued [OF assms(1-3)]) (use d(2,3,5) in \<open>simp_all add: w' held_def same_conn_def\<close>)
  then have "stack_ok (?w\<lparr>ip_id := k, ts_app := app\<rparr>) R S" by (simp only: stack_ok_app stack_ok_ip_id)
  moreover have "?w\<lparr>ip_id := k, ts_app := app\<rparr> = w'" by (simp add: w')
  ultimately show "stack_ok w' R S" by simp
  show "ts_pcbs w' = (ts_pcbs w)(pcb \<mapsto> b')" by (simp add: w')
qed

text \<open>The bridge knows a connection by these fields.\<close>

definition same_peer :: "tcp_pcb \<Rightarrow> tcp_pcb \<Rightarrow> bool" where
  "same_peer b b' \<longleftrightarrow> t_state b' = t_state b \<and> t_remote_ip b' = t_remote_ip b \<and> t_remote_port b' = t_remote_port b
     \<and> t_errf b' = t_errf b \<and> t_callback_arg b' = t_callback_arg b"

lemma conns_ok_same:
  assumes "conns_ok P cs" "P a = Some b" "same_peer b b'"
  shows "conns_ok (P(a \<mapsto> b')) cs"
proof -
  have s: "t_errf b' = t_errf b" "t_callback_arg b' = t_callback_arg b" "t_remote_ip b' = t_remote_ip b" "t_remote_port b' = t_remote_port b"
    using assms(3) by (simp_all add: same_peer_def)
  have "attached (P(a \<mapsto> b')) i c" if "attached P i c" for i c
    using that assms(2) s unfolding attached_def by (metis fun_upd_apply option.inject)
  moreover have "\<exists>b0. P x = Some b0 \<and> t_errf b0 = t_errf y \<and> t_callback_arg b0 = t_callback_arg y" if "(P(a \<mapsto> b')) x = Some y" for x y
    using that assms(2) s by (cases "x = a") auto
  ultimately show ?thesis using assms(1) unfolding conns_ok_def by (metis (no_types, lifting))
qed

text \<open>What holds of a connection between two calls of the bridge: its queues and their numbers.\<close>

definition conn_ok :: "'a tcp_stack \<Rightarrow> u32 \<Rightarrow> tcp_pcb \<Rightarrow> bool" where
  "conn_ok w s b \<longleftrightarrow> send_ok w b \<and> chained w s (queued b) (t_snd_lbb b) \<and> idle b"

lemma written_peer: "t_state (written us ov len ql b) = t_state b" "t_remote_ip (written us ov len ql b) = t_remote_ip b"
    "t_remote_port (written us ov len ql b) = t_remote_port b" "t_errf (written us ov len ql b) = t_errf b" "t_callback_arg (written us ov len ql b) = t_callback_arg b"
  by (simp_all add: written_def)

lemma appended_conn:
  assumes "conn_ok w s b" "send_ok w' b'" "appended w b data w' b'"
  shows "conn_ok w' s b'" "stream w' (queued b') = stream w (queued b) @ data" "same_peer b b'"
proof -
  note a = assms(3) [unfolded appended_def]
  have u: "t_unacked b' = t_unacked b" using a by blast
  show "stream w' (queued b') = stream w (queued b) @ data" using a by simp
  show "conn_ok w' s b'" using assms(1,2) a by (auto simp: conn_ok_def chained_append u idle_def)
  have "b' = written (t_unsent b') (t_unsent_oversize b') (of_nat (length data)) (t_snd_queuelen b') b" using a by blast
  then show "same_peer b b'" by (metis (no_types, lifting) same_peer_def written_peer)
qed

lemma refused_conn:
  assumes "conn_ok w s b" "send_ok w' b'" "refused w b w' b'"
  shows "conn_ok w' s b'" "stream w' (queued b') = stream w (queued b)" "same_peer b b'"
proof -
  note a = assms(3) [unfolded refused_def]
  have e: "b' = b\<lparr>t_flags := t_flags b'\<rparr>" using a by blast
  have u: "t_unacked b' = t_unacked b" "t_unsent b' = t_unsent b" "t_snd_lbb b' = t_snd_lbb b" "t_unsent_oversize b' = t_unsent_oversize b" by (subst e, simp)+
  show "stream w' (queued b') = stream w (queued b)" using a u by simp
  show "conn_ok w' s b'" using assms(1,2) a by (auto simp: conn_ok_def chained_append u idle_def)
  have "same_peer b (b\<lparr>t_flags := f\<rparr>)" for f by (simp add: same_peer_def)
  then show "same_peer b b'" using e by metis
qed

text \<open>A different application state does not concern the queues.\<close>

lemma conn_ok_app [simp]: "conn_ok (w\<lparr>ts_app := app\<rparr>) s b = conn_ok w s b" "stream (w\<lparr>ts_app := app\<rparr>) gs = stream w gs"
proof -
  have "chained (w\<lparr>ts_app := app\<rparr>) s gs e = chained w s gs e" for s gs e by (rule chained_same) (rule same_seg_pb, simp)
  then show "conn_ok (w\<lparr>ts_app := app\<rparr>) s b = conn_ok w s b" by (simp add: conn_ok_def send_ok_def)
  show "stream (w\<lparr>ts_app := app\<rparr>) gs = stream w gs" by (rule stream_same) (rule same_seg_pb, simp)
qed

lemma out_step_conn:
  assumes "conn_ok w s b" "out_step pcb R S w b w' b'" "idle b \<longrightarrow> idle b'"
  shows "conn_ok w' s b'" "stream w' (queued b') = stream w (queued b)" "same_peer b b'"
  using assms(1,3) out_stepD(3-7) [OF assms(2)] by (auto simp: conn_ok_def same_conn_def same_peer_def)

lemma write_ok_state:
  assumes "tcp_write (Some pcb) (Some data) f w = Some (ERR_OK, w')" "ts_pcbs w pcb = Some b"
  shows "\<not> queueless (t_state b)"
proof
  assume "queueless (t_state b)"
  then have "t_state b \<notin> {ESTABLISHED, CLOSE_WAIT, SYN_SENT, SYN_RCVD}" by (auto simp: queueless_def)
  then show False using assms by (simp add: tcp_write_def tcp_write_checks_def)
qed

text \<open>Sending from the bridge.\<close>

lemma bridge_output_ok:
  assumes ok: "bridge_ok w R S" and b: "ts_pcbs w pcb = Some b" "conn_ok w s b" "\<not> queueless (t_state b)" "mtu_ok w"
  shows "\<exists>err w' b'. tcp_output (out_env cbs) pcb w = Some (err, w') \<and> bridge_ok w' R S \<and> ts_pcbs w' = (ts_pcbs w)(pcb \<mapsto> b') \<and> conn_ok w' s b'
    \<and> stream w' (queued b') = stream w (queued b) \<and> same_peer b b' \<and> mtu_ok w' \<and> same_tables (ts_app w) (ts_app w')
    \<and> t_rcv_nxt b' = t_rcv_nxt b \<and> t_rcv_wnd b' = t_rcv_wnd b"
proof -
  have st: "stack_ok w R S" using ok by (simp add: bridge_ok_def)
  have c: "send_ok w b" "chained w s (queued b) (t_snd_lbb b)" using b(2) by (simp_all add: conn_ok_def)
  from out.tcp_output_step [OF stack_ok_held [OF st b(1)] c stack_okD(4) [OF st] b(4) same_tables_refl] obtain err w' b' where
    o: "tcp_output (out_env cbs) pcb w = Some (err, w')" "out_step pcb R S w b w' b'" "same_tables (ts_app w) (ts_app w')" "idle b \<longrightarrow> idle b'" by blast
  note s' = out_step_stack [OF st b(1,3) o(2)] and c' = out_step_conn [OF b(2) o(2,4)]
  have "bridge_ok w' R S"
    using ok s' conns_ok_same [of "ts_pcbs w" "g_conns (ts_app w)" pcb b b'] b(1) c'(3) same_tablesD(2) [OF o(3)] tables_wf_same [OF o(3)] by (simp add: bridge_ok_def)
  moreover have "t_rcv_nxt b' = t_rcv_nxt b" "t_rcv_wnd b' = t_rcv_wnd b" using out_stepD(5) [OF o(2)] by (simp_all add: same_conn_def)
  ultimately show ?thesis using o(1,3) s'(2) c' out_step_netifs(2) [OF o(2)] b(4) by blast
qed

lemma bridge_ok_write:
  assumes ok: "bridge_ok w R S" and w1: "stack_ok w1 R S" "only_pcbs w w1" "ts_pcbs w1 = (ts_pcbs w)(pcb \<mapsto> b1)" "ts_pcbs w pcb = Some b" "same_peer b b1"
  shows "bridge_ok (app_upd (\<lambda>g. g\<lparr>g_last_write_err := e\<rparr>) w1) R S" "ts_app w1 = ts_app w" "mtu_ok w1 = mtu_ok w"
proof -
  note o = w1(2) [unfolded only_pcbs_def]
  show a: "ts_app w1 = ts_app w" by (subst o) simp
  have "ts_netifs w1 = ts_netifs w" by (subst o) simp
  then show "mtu_ok w1 = mtu_ok w" by (simp add: mtu_ok_def)
  show "bridge_ok (app_upd (\<lambda>g. g\<lparr>g_last_write_err := e\<rparr>) w1) R S"
    using ok w1(1,3) a conns_ok_same [of "ts_pcbs w" "g_conns (ts_app w)" pcb b b1] w1(4,5) by (simp add: bridge_ok_def app_upd_def tables_wf_def)
qed

lemma lwip_bridge_write_spec:
  assumes ok: "bridge_ok w R S" and i: "conn_of_id conn_id (ts_app w) = Some i" "c_pcb (g_conns (ts_app w) ! i) = Some pcb"
    and b: "ts_pcbs w pcb = Some b" "conn_ok w s b" "mtu_ok w" and len: "length data < 65536"
  shows "\<exists>r w' b'. lwip_bridge_write cbs conn_id data w = Some (r, w') \<and> bridge_ok w' R S \<and> mtu_ok w' \<and> ts_pcbs w' = (ts_pcbs w)(pcb \<mapsto> b')
    \<and> conn_ok w' s b' \<and> same_peer b b' \<and> g_conns (ts_app w') = g_conns (ts_app w) \<and> g_nat (ts_app w') = g_nat (ts_app w)
    \<and> (r = 0 \<and> stream w' (queued b') = stream w (queued b) @ data \<or> r = -1 \<and> stream w' (queued b') = stream w (queued b))"
proof -
  have st: "stack_ok w R S" using ok by (simp add: bridge_ok_def)
  have so: "send_ok w b" using b(2) by (simp add: conn_ok_def)
  from tcp_write_spec [OF st b(1) so len, of TCP_WRITE_FLAG_COPY] obtain err w1 b1 where
    t: "tcp_write (Some pcb) (Some data) TCP_WRITE_FLAG_COPY w = Some (err, w1)" "stack_ok w1 R S" "ts_pcbs w1 = (ts_pcbs w)(pcb \<mapsto> b1)" "send_ok w1 b1"
      "err = ERR_OK \<and> appended w b data w1 b1 \<or> err \<noteq> ERR_OK \<and> refused w b w1 b1" by auto
  let ?w2 = "app_upd (\<lambda>g. g\<lparr>g_last_write_err := err_code err\<rparr>) w1"
  have op: "only_pcbs w w1" using t(5) by (auto simp: appended_def refused_def)
  show ?thesis
  proof (cases "err = ERR_OK")
    case True
    then have ap: "appended w b data w1 b1" using t(5) by simp
    note c1 = appended_conn [OF b(2) t(4) ap]
    note w2 = bridge_ok_write [OF ok t(2) op t(3) b(1) c1(3)]
    have p: "ts_pcbs ?w2 pcb = Some b1" "conn_ok ?w2 s b1" "\<not> queueless (t_state b1)" "mtu_ok ?w2"
      using t(3) c1 w2(3) b(3) write_ok_state [OF t(1) [unfolded True] b(1)] by (simp_all add: app_upd_def same_peer_def mtu_ok_def)
    from bridge_output_ok [OF w2(1) p, of cbs] obtain e' w' b' where
      o: "tcp_output (out_env cbs) pcb ?w2 = Some (e', w')" "bridge_ok w' R S" "ts_pcbs w' = (ts_pcbs ?w2)(pcb \<mapsto> b')" "conn_ok w' s b'"
        "stream w' (queued b') = stream ?w2 (queued b1)" "same_peer b1 b'" "mtu_ok w'" "same_tables (ts_app ?w2) (ts_app w')" by blast
    have "lwip_bridge_write cbs conn_id data w = Some (0, w')" using i t(1) True o(1) by (simp add: lwip_bridge_write_def)
    moreover have "ts_pcbs w' = (ts_pcbs w)(pcb \<mapsto> b')" using o(3) t(3) by (simp add: app_upd_def)
    moreover have "g_conns (ts_app w') = g_conns (ts_app w)" "g_nat (ts_app w') = g_nat (ts_app w)"
      using same_tablesD(1,2) [OF o(8)] w2(2) by (simp_all add: app_upd_def)
    moreover have "stream w' (queued b') = stream w (queued b) @ data" using o(5) c1(2) by (simp add: app_upd_def)
    moreover have "same_peer b b'" using c1(3) o(6) by (simp add: same_peer_def)
    ultimately show ?thesis using o(2,4,7) by blast
  next
    case False
    then have rf: "refused w b w1 b1" using t(5) by simp
    note c1 = refused_conn [OF b(2) t(4) rf]
    note w2 = bridge_ok_write [OF ok t(2) op t(3) b(1) c1(3)]
    have "lwip_bridge_write cbs conn_id data w = Some (-1, ?w2)" using i t(1) False by (simp add: lwip_bridge_write_def)
    moreover have "mtu_ok ?w2" "ts_pcbs ?w2 = (ts_pcbs w)(pcb \<mapsto> b1)" "conn_ok ?w2 s b1" "stream ?w2 (queued b1) = stream w (queued b)"
      "g_conns (ts_app ?w2) = g_conns (ts_app w)" "g_nat (ts_app ?w2) = g_nat (ts_app w)"
      using t(3) c1 w2(2,3) b(3) by (simp_all add: app_upd_def mtu_ok_def)
    ultimately show ?thesis using c1(3) w2(1) by blast
  qed
qed

section \<open>Properties\<close>

text \<open>
  C11: \<open>lwip_bridge_write\<close> on a connection returns, keeps the invariant of the bridge and touches no
  other connection. If it returns 0, the bytes of the connection that are not acknowledged yet, sent or
  unsent, are those from before followed by the data, in segments with contiguous sequence
  numbers that start where they did; if it returns -1, they are those from before. In both cases the
  invariant of the connection that the next write needs holds again.
\<close>

theorem lwip_bridge_write_sends:
  assumes "bridge_ok w R S" "conn_of_id conn_id (ts_app w) = Some i" "c_pcb (g_conns (ts_app w) ! i) = Some pcb"
    and "ts_pcbs w pcb = Some b" "conn_ok w s b" "mtu_ok w" "length data < 65536"
  shows "\<exists>r w' b'. lwip_bridge_write cbs conn_id data w = Some (r, w') \<and> bridge_ok w' R S \<and> mtu_ok w' \<and> ts_pcbs w' = (ts_pcbs w)(pcb \<mapsto> b')
    \<and> conn_ok w' s b' \<and> same_peer b b' \<and> g_conns (ts_app w') = g_conns (ts_app w) \<and> g_nat (ts_app w') = g_nat (ts_app w)
    \<and> (r = 0 \<and> stream w' (queued b') = stream w (queued b) @ data \<or> r = -1 \<and> stream w' (queued b') = stream w (queued b))"
  by (rule lwip_bridge_write_spec [OF assms])

theorem lwip_bridge_write_sends_witness:
  "\<exists>(w :: unit bstack) conn_id pcb b w' b'. bridge_ok w {#} {#} \<and> ts_pcbs w pcb = Some b \<and> stream w (queued b) = []
    \<and> lwip_bridge_write (demo_cbs None) conn_id [104, 105] w = Some (0, w') \<and> ts_pcbs w' pcb = Some b' \<and> stream w' (queued b') = [104, 105]"
proof -
  obtain w :: "unit bstack" and pcb b p pb where w: "bridge_ok w {#} {#}" "ts_netifs w = ts_netifs demo_booted" "ts_pcbs w pcb = Some b" "send_ok w b"
    and b: "b = (new_pcb TCP_PRIO_NORMAL 0 0)\<lparr>t_state := ESTABLISHED, t_remote_ip := 7, t_remote_port := 80\<rparr>"
    and m: "pbuf_alloc PBUF_TRANSPORT (write_mss b) PBUF_RAM (ts_pb w) = Some (Some p, pb)" "fst (memp_malloc MEMP_TCP_SEG (ps_pools (ts_pb w))) \<noteq> None"
    using demo_sender by blast
  have "t_errf b = None" by (simp add: b new_pcb_def)
  from accept_attach [OF w(1,3) this, of "demo_cbs None" 0] obtain i and w1 :: "unit bstack" where i: "bridge_ok w1 {#} {#}" "ts_pcbs w1 = (ts_pcbs w)(pcb \<mapsto> attach i b)"
    "conn_of_id (of_nat i) (ts_app w1) = Some i" "c_pcb (g_conns (ts_app w1) ! i) = Some pcb" "ts_pb w1 = ts_pb w" "ts_netifs w1 = ts_netifs w" by auto
  let ?b = "attach i b" and ?d = "[104, 105] :: u8 list"
  have e: "t_unsent ?b = []" "t_unacked ?b = []" "t_mss ?b = 536" "t_snd_wnd_max ?b = 0" "write_mss ?b = write_mss b"
      "t_state ?b = ESTABLISHED" "t_snd_queuelen ?b = 0" "t_snd_buf ?b = TCP_SND_BUF"
    by (simp_all add: attach_def b new_pcb_def INITIAL_MSS_def write_mss_def)
  have p: "ts_pcbs w1 pcb = Some ?b" "send_ok w1 ?b" using i(2) e by (simp_all add: send_ok_def)
  have c: "conn_ok w1 (t_snd_lbb ?b) ?b" using p(2) e by (simp add: conn_ok_def idle_def attach_def b new_pcb_def)
  have mtu: "mtu_ok w1" using i(6) w(2) by (simp add: mtu_ok_def demo_booted_def demo_process_def demo_netif_def)
  have "length ?d < 65536" by simp
  from lwip_bridge_write_sends [OF i(1,3,4) p(1) c mtu this, of "demo_cbs None"] obtain r w' b' where
    r: "lwip_bridge_write (demo_cbs None) (of_nat i) ?d w1 = Some (r, w')" "ts_pcbs w' = (ts_pcbs w1)(pcb \<mapsto> b')"
      "r = 0 \<Longrightarrow> stream w' (queued b') = stream w1 (queued ?b) @ ?d" by fastforce
  have "stack_ok w1 {#} {#}" using i(1) by (simp add: bridge_ok_def)
  from write_one_segment [OF this p, of ?d p pb TCP_WRITE_FLAG_COPY] obtain w2 where
    "tcp_write (Some pcb) (Some ?d) TCP_WRITE_FLAG_COPY w1 = Some (ERR_OK, w2)"
    using m i(5) e by (auto simp: write_mss_def TCP_SND_QUEUELEN_def TCP_SND_BUF_def)
  then have "r = 0" using r(1) i(3,4) by (auto simp: lwip_bridge_write_def bind_eq_Some_conv)
  then show ?thesis using r i(1) p(1) e by (intro exI [of _ w1] exI [of _ "of_nat i"] exI [of _ pcb] exI [of _ ?b] exI [of _ w'] exI [of _ b']) simp
qed

end
