(* ===== verification/Tcp_Ack.thy ===== *)
theory Tcp_Ack
  imports Tcp_Send
begin

text \<open>
  Retransmission after a timeout queues everything that is not acknowledged again, and an
  acknowledgement of new data frees exactly the segments it covers: both keep the stream of
  the connection.
\<close>

section \<open>Retransmission\<close>

text \<open>A segment whose buffer nobody else holds is not busy.\<close>

lemma any_busy_own: "(\<And>g. g \<in> set gs \<Longrightarrow> seg_mem (ts_pb w) g) \<Longrightarrow> any_busy w gs = Some False"
proof (induction gs)
  case (Cons g gs)
  have "tcp_output_segment_busy w g = Some False"
    using Cons.prems [of g] by (auto simp: seg_mem_def seg_fields_def tcp_output_segment_busy_def stack_buf_def)
  then show ?case using Cons by simp
qed simp

lemma rexmit_prepare_step:
  assumes w: "held w pcb b R S" "send_ok w b" "idle b" and u: "t_unacked b \<noteq> []"
  shows "\<exists>w1 b1. tcp_rexmit_rto_prepare pcb w = Some (ERR_OK, w1) \<and> out_step pcb R S w b w1 b1
    \<and> t_unacked b1 = [] \<and> t_unsent b1 = queued b \<and> idle b1 \<and> ts_app w1 = ts_app w"
proof -
  let ?g = "last (t_unacked b)"
  let ?b = "b\<lparr>t_unsent := queued b, t_unacked := [], t_flags := t_flags b OR TF_RTO, t_rto_end := seg_seqno w ?g + TCP_TCPLEN w ?g, t_rttest := 0\<rparr>"
  let ?w = "w\<lparr>ts_pcbs := (ts_pcbs w)(pcb \<mapsto> ?b)\<rparr>"
  have nb: "any_busy w (t_unacked b) = Some False" by (rule any_busy_own) (use w(2) in \<open>simp add: send_ok_def\<close>)
  have q: "queued ?b = queued b" by simp
  have "tcp_rexmit_rto_prepare pcb w = Some (ERR_OK, ?w)"
    using held_pcb [OF w(1)] u nb by (simp add: tcp_rexmit_rto_prepare_def pcb_upd_def Let_def)
  moreover have "out_step pcb R S w b ?w ?b"
  proof (rule out_stepI [OF stack_pb_id])
    show "held ?w pcb ?b R S" using w(1) by (simp add: held_def pcb_refs_def pcb_segs_def own_next_add own_next_add_right seg_elems_def ac_simps)
    show "send_ok ?w ?b" using w(2,3) by (auto simp: send_ok_def idle_def)
  qed (use calm_stream [OF calm_pb [OF send_ok_segs [OF w(2)], of ?w]] in \<open>simp_all add: same_conn_def\<close>)
  ultimately show ?thesis using u by (intro exI [of _ ?w] exI [of _ ?b]) (simp add: idle_def)
qed

lemma bridge_ok_step:
  assumes "bridge_ok w R S" "ts_pcbs w pcb = Some b" "\<not> queueless (t_state b)" "out_step pcb R S w b w' b'" "ts_app w' = ts_app w"
  shows "bridge_ok w' R S"
proof -
  have st: "stack_ok w R S" using assms(1) by (simp add: bridge_ok_def)
  note s' = out_step_stack [OF st assms(2-4)]
  have "same_peer b b'" using out_stepD(5) [OF assms(4)] by (simp add: same_conn_def same_peer_def)
  then show ?thesis using assms(1,2,5) s' conns_ok_same [of "ts_pcbs w" "g_conns (ts_app w)" pcb b b'] by (simp add: bridge_ok_def)
qed

lemma tcp_rexmit_rto_spec:
  assumes ok: "bridge_ok w R S" and b: "ts_pcbs w pcb = Some b" "conn_ok w s b" "\<not> queueless (t_state b)" "mtu_ok w"
  shows "\<exists>w' b'. tcp_rexmit_rto (out_env cbs) pcb w = Some w' \<and> bridge_ok w' R S \<and> mtu_ok w' \<and> ts_pcbs w' = (ts_pcbs w)(pcb \<mapsto> b')
    \<and> conn_ok w' s b' \<and> stream w' (queued b') = stream w (queued b) \<and> same_peer b b'"
proof (cases "t_unacked b = []")
  case True
  then have "tcp_rexmit_rto (out_env cbs) pcb w = Some w" using b(1) by (simp add: tcp_rexmit_rto_def tcp_rexmit_rto_prepare_def)
  then show ?thesis using ok b by (intro exI [of _ w] exI [of _ b]) (simp add: fun_upd_idem same_peer_def)
next
  case False
  have st: "stack_ok w R S" using ok by (simp add: bridge_ok_def)
  have c: "send_ok w b" "idle b" using b(2) by (simp_all add: conn_ok_def)
  from rexmit_prepare_step [OF stack_ok_held [OF st b(1)] c False] obtain w1 b1 where
    1: "tcp_rexmit_rto_prepare pcb w = Some (ERR_OK, w1)" "out_step pcb R S w b w1 b1" "idle b1" "ts_app w1 = ts_app w" by blast
  let ?f = "\<lambda>b. b\<lparr>t_nrtx := (if t_nrtx b < 0xFF then t_nrtx b + 1 else t_nrtx b)\<rparr>"
  have "\<exists>w2 b2. pcb_upd pcb ?f w1 = Some w2 \<and> out_step pcb R S w1 b1 w2 b2 \<and> ts_app w2 = ts_app w1 \<and> b2 = ?f b1"
    by (rule out_step_upd [OF out_stepD(3,4) [OF 1(2)]]) (simp_all add: same_conn_def)
  then obtain w2 b2 where 2: "pcb_upd pcb ?f w1 = Some w2" "out_step pcb R S w1 b1 w2 b2" "ts_app w2 = ts_app w1" "b2 = ?f b1" by blast
  note s2 = out_step_trans [OF 1(2) 2(2)]
  have i2: "idle b \<longrightarrow> idle b2" using 1(3) by (simp add: 2(4) idle_def)
  note c2 = out_step_conn [OF b(2) s2 i2]
  have p2: "ts_pcbs w2 = (ts_pcbs w)(pcb \<mapsto> b2)" by (rule out_step_stack(2) [OF st b(1,3) s2])
  have "\<not> queueless (t_state b2)" "mtu_ok w2" using b(3,4) c2(3) out_step_netifs(2) [OF s2] by (simp_all add: same_peer_def)
  with bridge_output_ok [OF bridge_ok_step [OF ok b(1,3) s2] _ c2(1), where cbs = cbs and pcb = pcb] 1(4) 2(3) p2 obtain err w' b' where
    o: "tcp_output (out_env cbs) pcb w2 = Some (err, w')" "bridge_ok w' R S" "ts_pcbs w' = (ts_pcbs w)(pcb \<mapsto> b')" "conn_ok w' s b'"
      "stream w' (queued b') = stream w2 (queued b2)" "same_peer b2 b'" "mtu_ok w'" by auto
  have "tcp_rexmit_rto (out_env cbs) pcb w = Some w'" using 1(1) 2(1) o(1) by (simp add: tcp_rexmit_rto_def tcp_rexmit_rto_commit_def)
  then show ?thesis using o(2-7) c2(2,3) by (intro exI [of _ w'] exI [of _ b']) (simp add: same_peer_def)
qed

section \<open>Acknowledgements\<close>

text \<open>The test of \<open>tcp_free_acked_segments\<close>: the segment ends before the acknowledgement.\<close>

definition acked_seg :: "'a tcp_stack \<Rightarrow> u32 \<Rightarrow> tcp_seg \<Rightarrow> bool" where
  "acked_seg w a g \<longleftrightarrow> TCP_SEQ_LEQ (seg_seqno w g + TCP_TCPLEN w g) a"

definition seq_space :: "'a tcp_stack \<Rightarrow> tcp_seg list \<Rightarrow> nat" where
  "seq_space w gs = (\<Sum>g\<leftarrow>gs. unat (TCP_TCPLEN w g))"

lemma seq_leq_nat: "TCP_SEQ_LEQ a b \<longleftrightarrow> unat (b - a) < 2 ^ 31"
proof -
  have "TCP_SEQ_LT b a \<longleftrightarrow> bit (b - a) 31" using and_exp_eq_0_iff_not_bit [of "b - a" 31] by (simp add: TCP_SEQ_LT_def)
  also have "\<dots> \<longleftrightarrow> bit (unat (b - a)) 31" by (simp add: bit_unsigned_iff)
  also have "\<dots> \<longleftrightarrow> odd (unat (b - a) div 2 ^ 31)" by (rule bit_iff_odd)
  also have "\<dots> \<longleftrightarrow> \<not> unat (b - a) < 2 ^ 31"
  proof -
    have "unat (b - a) < 2 * 2 ^ 31" using unsigned_less [of "b - a"] by simp
    then have "unat (b - a) div 2 ^ 31 < 2" by (simp add: div_less_iff_less_mult)
    then show ?thesis by (auto simp: less_2_cases_iff div_eq_0_iff)
  qed
  finally show ?thesis by (simp add: TCP_SEQ_LEQ_def)
qed

text \<open>Within half of the sequence space, numbers are ordered like their distances from a number before them.\<close>

lemma seq_leq_offset:
  assumes "n < 2 ^ 31" "TCP_SEQ_LEQ s a"
  shows "TCP_SEQ_LEQ (s + of_nat n) a \<longleftrightarrow> n \<le> unat (a - s)"
proof -
  let ?d = "unat (a - s)"
  have d: "?d < 2 ^ 31" using assms(2) by (simp add: seq_leq_nat)
  have n: "unat (of_nat n :: u32) = n" using assms(1) by (simp add: unat_of_nat)
  have e: "a - (s + of_nat n) = (a - s) - of_nat n" by simp
  show ?thesis
  proof (cases "n \<le> ?d")
    case True
    then have "unat (a - s - of_nat n) = ?d - n" by (simp add: unat_sub word_le_nat_alt n)
    then show ?thesis using True d unfolding seq_leq_nat e by linarith
  next
    case False
    then have "unat (a - s - of_nat n) = 2 ^ 32 + ?d - n" using assms(1) d n
      by (simp add: unat_word_ariths unat_sub_if' word_le_nat_alt)
    then have "\<not> unat (a - s - of_nat n) < 2 ^ 31" using assms(1) d by simp
    then show ?thesis using False unfolding seq_leq_nat e by blast
  qed
qed

lemma chained_end: "chained w s gs e \<Longrightarrow> e = s + of_nat (seq_space w gs)"
proof (induction gs arbitrary: s)
  case (Cons g gs)
  then have "e = s + TCP_TCPLEN w g + of_nat (seq_space w gs)" by auto
  then show ?case by (simp add: seq_space_def)
qed (simp add: seq_space_def)

text \<open>So the acknowledged segments are a prefix of the queue.\<close>

lemma acked_prefix:
  assumes "chained w s (g # gs) e" "seq_space w (g # gs) < 2 ^ 31" "TCP_SEQ_LEQ s a" "\<not> acked_seg w a g" "h \<in> set gs"
  shows "\<not> acked_seg w a h"
proof -
  obtain xs ys where x: "gs = xs @ h # ys" using assms(5) by (auto dest: split_list)
  have c: "chained w s (g # xs @ [h]) (s + of_nat (seq_space w (g # xs @ [h])))" "chained w s [g] (s + of_nat (seq_space w [g]))"
    using assms(1) chained_end [of w s "g # xs @ [h]"] by (auto simp: x chained_append seq_space_def)
  have sp: "seq_space w [g] \<le> seq_space w (g # xs @ [h])" "seq_space w (g # xs @ [h]) < 2 ^ 31" using assms(2) by (auto simp: x seq_space_def)
  have "seg_seqno w g = s" using assms(1) by simp
  then have "\<not> seq_space w [g] \<le> unat (a - s)" using assms(4) seq_leq_offset [OF _ assms(3), of "seq_space w [g]"] sp
    by (simp add: acked_seg_def seq_space_def)
  then have "\<not> TCP_SEQ_LEQ (s + of_nat (seq_space w (g # xs @ [h]))) a" using seq_leq_offset [OF sp(2) assms(3)] sp(1) by linarith
  moreover have "seg_seqno w h + TCP_TCPLEN w h = s + of_nat (seq_space w (g # xs @ [h]))"
    using c(1) by (auto simp: chained_append)
  ultimately show ?thesis by (simp add: acked_seg_def)
qed

text \<open>Freeing them: the rest of the queue and the other segments of the connection are left alone.\<close>

abbreviation acked_state :: "'a tcp_stack \<Rightarrow> nat \<Rightarrow> tcp_pcb \<Rightarrow> u16 \<Rightarrow> u16 \<Rightarrow> pbuf_state \<Rightarrow> 'a tcp_stack" where
  "acked_state w pcb b ql n pb \<equiv> w\<lparr>ts_pcbs := (ts_pcbs w)(pcb \<mapsto> b\<lparr>t_snd_queuelen := ql\<rparr>), ts_in := (ts_in w)\<lparr>in_recv_acked := n\<rparr>, ts_pb := pb\<rparr>"

lemma length_seg_bytes: "length (seg_bytes w g) = unat (sg_len g)"
  by (simp add: seg_bytes_def rd_bytes_def)

lemma calm_acked: "calm w w' G \<Longrightarrow> g \<in> G \<Longrightarrow> acked_seg w' a g = acked_seg w a g"
  by (simp add: calm_def same_seg_def acked_seg_def)

lemma free_acked_ok:
  assumes "mem_ok (ts_pb w) (seg_refs segs + R) (seg_elems segs + S)" "segs_in w (set (segs @ others))" "distinct (map sg_p (segs @ others))"
    and "ts_pcbs w pcb = Some b" "in_ackno (ts_in w) = a"
    and "n = in_recv_acked (ts_in w) + of_nat (length (stream w (takeWhile (acked_seg w a) segs)))"
  shows "\<exists>pb ql. tcp_free_acked_segments pcb segs w = Some (dropWhile (acked_seg w a) segs, acked_state w pcb b ql n pb)
    \<and> mem_ok pb (seg_refs (dropWhile (acked_seg w a) segs) + R) (seg_elems (dropWhile (acked_seg w a) segs) + S) \<and> pcb_pools (ts_pb w) pb
    \<and> calm w (acked_state w pcb b ql n pb) (set (dropWhile (acked_seg w a) segs @ others))"
  using assms
proof (induction segs arbitrary: w b)
  case Nil
  then have e: "acked_state w pcb b (t_snd_queuelen b) n (ts_pb w) = w" by (simp add: fun_upd_idem)
  have "calm w w (set others)" using Nil.prems(2) by (intro calm_pb) simp_all
  then show ?case using Nil.prems(1) by (intro exI [of _ "ts_pb w"] exI [of _ "t_snd_queuelen b"]) (unfold e, simp)
next
  case (Cons g segs)
  show ?case
  proof (cases "acked_seg w a g")
    case False
    have e: "acked_state w pcb b (t_snd_queuelen b) n (ts_pb w) = w" using Cons.prems(4,6) False by (simp add: fun_upd_idem)
    have "calm w w (set (g # segs @ others))" using Cons.prems(2) by (intro calm_pb) simp_all
    moreover have "tcp_free_acked_segments pcb (g # segs) w = Some (g # segs, w)" using False Cons.prems(5) by (simp add: acked_seg_def)
    ultimately show ?thesis using Cons.prems(1) False by (intro exI [of _ "ts_pb w"] exI [of _ "t_snd_queuelen b"]) (unfold e, simp)
  next
    case True
    let ?b1 = "b\<lparr>t_snd_queuelen := t_snd_queuelen b - 1\<rparr>" and ?n1 = "in_recv_acked (ts_in w) + sg_len g"
    let ?w1 = "w\<lparr>ts_pcbs := (ts_pcbs w)(pcb \<mapsto> ?b1), ts_in := (ts_in w)\<lparr>in_recv_acked := ?n1\<rparr>\<rparr>" and ?G = "set (segs @ others)"
    have gm: "seg_mem (ts_pb w) g" using Cons.prems(2) by (simp add: segs_in_def)
    then have cl: "pbuf_clen (sg_p g) (ts_pb w) = Some 1" using clen_single by (auto simp: seg_mem_def seg_fields_def)
    have sg: "segs_in ?w1 ?G" using segs_in_mono [OF Cons.prems(2), of ?G] by (auto simp: segs_in_def)
    have "\<exists>pb'. tcp_seg_free g ?w1 = Some (?w1\<lparr>ts_pb := pb'\<rparr>) \<and> mem_ok pb' (seg_refs segs + R) (seg_elems segs + S) \<and> pcb_pools (ts_pb ?w1) pb'
        \<and> calm ?w1 (?w1\<lparr>ts_pb := pb'\<rparr>) ?G"
    proof (rule seg_free_calm [OF _ _ sg])
      show "mem_ok (ts_pb ?w1) (own_next (sg_p g) (seg_refs segs + R)) (add_mset (sg_elem g) (seg_elems segs + S))"
        using Cons.prems(1) by (simp add: own_next_add seg_elems_def)
      show "sg_p h \<noteq> sg_p g" if "h \<in> ?G" for h using Cons.prems(3) that by (auto simp: image_iff)
    qed (use gm in simp)
    then obtain pb1 where f: "tcp_seg_free g ?w1 = Some (?w1\<lparr>ts_pb := pb1\<rparr>)" "mem_ok pb1 (seg_refs segs + R) (seg_elems segs + S)"
      "pcb_pools (ts_pb w) pb1" "calm ?w1 (?w1\<lparr>ts_pb := pb1\<rparr>) ?G" by auto
    let ?w2 = "?w1\<lparr>ts_pb := pb1\<rparr>"
    have "calm w ?w1 ?G" by (rule calm_pb [OF segs_in_mono [OF Cons.prems(2)]]) auto
    then have c: "calm w ?w2 ?G" using f(4) by (rule calm_trans)
    have tw: "takeWhile (acked_seg ?w2 a) segs = takeWhile (acked_seg w a) segs" "dropWhile (acked_seg ?w2 a) segs = dropWhile (acked_seg w a) segs"
      using calm_acked [OF c] by (auto intro!: takeWhile_cong dropWhile_cong)
    have "set (takeWhile (acked_seg w a) segs) \<subseteq> ?G" using set_takeWhileD by fastforce
    then have st: "stream ?w2 (takeWhile (acked_seg w a) segs) = stream w (takeWhile (acked_seg w a) segs)"
      using calm_stream [OF calm_mono [OF c]] by blast
    have "segs_in ?w2 ?G" by (rule calm_segs [OF f(4) sg])
    have e: "acked_state ?w2 pcb ?b1 ql n pb = acked_state w pcb b ql n pb" for ql pb by (rule tcp_stack.equality) simp_all
    have p: "mem_ok (ts_pb ?w2) (seg_refs segs + R) (seg_elems segs + S)" "distinct (map sg_p (segs @ others))" "ts_pcbs ?w2 pcb = Some ?b1" "in_ackno (ts_in ?w2) = a"
      using f(2) Cons.prems(3,5) by simp_all
    have n: "n = in_recv_acked (ts_in ?w2) + of_nat (length (stream ?w2 (takeWhile (acked_seg ?w2 a) segs)))"
      unfolding tw st using Cons.prems(6) True by (simp add: length_seg_bytes)
    have p2: "ts_pb ?w2 = pb1" by simp
    from Cons.IH [OF p(1) \<open>segs_in ?w2 ?G\<close> p(2-4) n, unfolded tw e p2] obtain pb ql where
      i: "tcp_free_acked_segments pcb segs ?w2 = Some (dropWhile (acked_seg w a) segs, acked_state w pcb b ql n pb)"
        "mem_ok pb (seg_refs (dropWhile (acked_seg w a) segs) + R) (seg_elems (dropWhile (acked_seg w a) segs) + S)" "pcb_pools pb1 pb"
        "calm ?w2 (acked_state w pcb b ql n pb) (set (dropWhile (acked_seg w a) segs @ others))" by blast
    have "calm w ?w2 (set (dropWhile (acked_seg w a) segs @ others))"
      by (rule calm_mono [OF c]) (use set_dropWhileD in fastforce)
    then have "calm w (acked_state w pcb b ql n pb) (set (dropWhile (acked_seg w a) segs @ others))" using i(4) by (rule calm_trans)
    moreover have "tcp_free_acked_segments pcb (g # segs) w = Some (dropWhile (acked_seg w a) segs, acked_state w pcb b ql n pb)"
      using True Cons.prems(4,5) cl f(1) i(1) by (simp add: acked_seg_def pcb_upd_def in_upd_def)
    moreover have "dropWhile (acked_seg w a) (g # segs) = dropWhile (acked_seg w a) segs" using True by simp
    ultimately show ?thesis using i(2) pcb_pools_trans [OF f(3) i(3)] by metis
  qed
qed

lemma acked_split:
  assumes "chained w s (xs @ ys) e" "seq_space w (xs @ ys) < 2 ^ 31" "TCP_SEQ_LEQ s a"
  shows "dropWhile (acked_seg w a) xs @ dropWhile (acked_seg w a) ys = dropWhile (acked_seg w a) (xs @ ys)"
    "takeWhile (acked_seg w a) xs @ takeWhile (acked_seg w a) ys = takeWhile (acked_seg w a) (xs @ ys)"
proof -
  let ?P = "acked_seg w a"
  have "dropWhile ?P xs @ dropWhile ?P ys = dropWhile ?P (xs @ ys) \<and> takeWhile ?P xs @ takeWhile ?P ys = takeWhile ?P (xs @ ys)"
    using assms
  proof (induction xs arbitrary: s)
    case (Cons g xs)
    show ?case
    proof (cases "?P g")
      case True
      have "TCP_SEQ_LEQ (s + TCP_TCPLEN w g) a" using True Cons.prems(1) by (simp add: acked_seg_def)
      moreover have "chained w (s + TCP_TCPLEN w g) (xs @ ys) e" "seq_space w (xs @ ys) < 2 ^ 31" using Cons.prems(1,2) by (auto simp: seq_space_def)
      ultimately show ?thesis using Cons.IH True by simp
    next
      case False
      have "\<not> ?P h" if "h \<in> set ys" for h
        by (rule acked_prefix [OF Cons.prems(1,2) [unfolded append_Cons] Cons.prems(3) False]) (use that in simp)
      then have "dropWhile ?P ys = ys \<and> takeWhile ?P ys = []" by (cases ys) auto
      then show ?thesis using False by simp
    qed
  qed simp
  then show "dropWhile ?P xs @ dropWhile ?P ys = dropWhile ?P (xs @ ys)" "takeWhile ?P xs @ takeWhile ?P ys = takeWhile ?P (xs @ ys)" by blast+
qed

text \<open>The number behind the freed segments: where the queue now starts.\<close>

lemma acked_rest:
  assumes "chained w s gs e" "TCP_SEQ_LEQ s a"
  shows "\<exists>s'. chained w s (takeWhile (acked_seg w a) gs) s' \<and> chained w s' (dropWhile (acked_seg w a) gs) e \<and> TCP_SEQ_LEQ s' a"
  using assms
proof (induction gs arbitrary: s)
  case (Cons g gs)
  then show ?case using Cons.IH [of "s + TCP_TCPLEN w g"] by (cases "acked_seg w a g") (auto simp: acked_seg_def)
qed simp

lemma stack_ok_in [simp]: "stack_ok (w\<lparr>ts_in := v\<rparr>) R S = stack_ok w R S"
  by (simp add: stack_ok_def memory_ok_def lists_ok_def netifs_ok_def tcp_pcb_lists_def)

text \<open>What an acknowledgement leaves alone in a PCB, besides the queues.\<close>

definition same_end :: "tcp_pcb \<Rightarrow> tcp_pcb \<Rightarrow> bool" where
  "same_end b b' \<longleftrightarrow> same_peer b b' \<and> t_ooseq b' = t_ooseq b \<and> t_refused_data b' = t_refused_data b \<and> t_mss b' = t_mss b \<and> t_snd_lbb b' = t_snd_lbb b"

lemma new_ack_fields:
  "t_unacked (new_ack a b) = t_unacked b" "t_unsent (new_ack a b) = t_unsent b" "t_unsent_oversize (new_ack a b) = t_unsent_oversize b"
  "t_snd_buf (new_ack a b) = t_snd_buf b" "t_lastack (new_ack a b) = a" "same_end b (new_ack a b)"
  by (simp_all add: new_ack_def grow_cwnd_def Let_def same_end_def same_peer_def)

text \<open>The two queues are freed one after the other.\<close>

lemma free_both_ok:
  assumes h: "held w pcb b R S" and so: "send_ok w b" and a: "in_ackno (ts_in w) = a"
  defines "P \<equiv> acked_seg w a"
  defines "una \<equiv> dropWhile P (t_unacked b)" and "uns \<equiv> dropWhile P (t_unsent b)"
  shows "\<exists>w1 pb ql. tcp_free_acked_segments pcb (t_unacked b) w = Some (una, w1) \<and> ts_pcbs w1 pcb \<noteq> None
    \<and> Option.bind (pcb_upd pcb (\<lambda>b. b\<lparr>t_unacked := una\<rparr>) w1) (tcp_free_acked_segments pcb (t_unsent b))
        = Some (uns, acked_state w pcb (b\<lparr>t_unacked := una\<rparr>) ql
            (in_recv_acked (ts_in w) + of_nat (length (stream w (takeWhile P (t_unacked b) @ takeWhile P (t_unsent b))))) pb)
    \<and> held (with_pcb w pcb pb (b\<lparr>t_unacked := una, t_unsent := uns, t_snd_queuelen := ql\<rparr>)) pcb (b\<lparr>t_unacked := una, t_unsent := uns, t_snd_queuelen := ql\<rparr>) R S
    \<and> pcb_pools (ts_pb w) pb \<and> calm w (w\<lparr>ts_pb := pb\<rparr>) (set (una @ uns))"
proof -
  let ?A = "all_refs ((ts_pcbs w)(pcb := None)) + R" and ?E = "all_elems ((ts_pcbs w)(pcb := None)) + S"
  let ?Q = "own_next (t_refused_data b) (seg_refs (t_ooseq b)) + ?A" and ?F = "seg_elems (t_ooseq b) + ?E"
  have m: "mem_ok (ts_pb w) (seg_refs (t_unacked b) + (seg_refs (t_unsent b) + ?Q)) (seg_elems (t_unacked b) + (seg_elems (t_unsent b) + ?F))"
    using h by (simp add: held_def pcb_refs_def pcb_segs_def own_next_add own_next_add_right seg_elems_def ac_simps)
  have d: "distinct (map sg_p (t_unacked b @ t_unsent b))" and sg: "segs_in w (set (t_unacked b @ t_unsent b))" using so send_ok_segs [OF so] by (auto simp: send_ok_def)
  let ?n1 = "in_recv_acked (ts_in w) + of_nat (length (stream w (takeWhile P (t_unacked b))))"
  from free_acked_ok [OF m sg d held_pcb [OF h] a refl, folded P_def, folded una_def] obtain pb1 ql1 where
    1: "tcp_free_acked_segments pcb (t_unacked b) w = Some (una, acked_state w pcb b ql1 ?n1 pb1)"
      "mem_ok pb1 (seg_refs una + (seg_refs (t_unsent b) + ?Q)) (seg_elems una + (seg_elems (t_unsent b) + ?F))" "pcb_pools (ts_pb w) pb1"
      "calm w (acked_state w pcb b ql1 ?n1 pb1) (set (una @ t_unsent b))" by blast
  let ?w1 = "acked_state w pcb b ql1 ?n1 pb1" and ?b1 = "b\<lparr>t_snd_queuelen := ql1, t_unacked := una\<rparr>"
  let ?w2 = "?w1\<lparr>ts_pcbs := (ts_pcbs ?w1)(pcb \<mapsto> ?b1)\<rparr>"
  have una: "set una \<subseteq> set (t_unacked b)" "\<exists>xs. t_unacked b = xs @ una"
    using set_dropWhileD takeWhile_dropWhile_id [of P "t_unacked b"] unfolding una_def by (fastforce, metis)
  have sg2: "segs_in ?w2 (set (t_unsent b @ una))"
    using calm_segs [OF 1(4) segs_in_mono [OF sg]] una(1) by (auto simp: segs_in_def Un_commute)
  have d2: "distinct (map sg_p (t_unsent b @ una))" using d una(2) by (clarsimp simp: image_Un) blast
  have c2: "calm w ?w2 (set (t_unsent b @ una))"
    using calm_trans [OF 1(4) calm_pb [where w' = ?w2]] calm_segs [OF 1(4) segs_in_mono [OF sg]] una(1) by (auto simp: Un_commute)
  have aq: "acked_seg ?w2 a g = P g" if "g \<in> set (t_unsent b)" for g
  proof -
    have "acked_seg ?w2 a g = acked_seg w a g" by (rule calm_acked [OF c2]) (use that in simp)
    also have "\<dots> = P g" by (simp only: P_def)
    finally show ?thesis .
  qed
  have P2: "takeWhile (acked_seg ?w2 a) (t_unsent b) = takeWhile P (t_unsent b)" "dropWhile (acked_seg ?w2 a) (t_unsent b) = uns"
    unfolding uns_def by (rule takeWhile_cong [OF refl aq], assumption) (rule dropWhile_cong [OF refl aq], assumption)
  have "set (takeWhile P (t_unsent b)) \<subseteq> set (t_unsent b @ una)" using set_takeWhileD by fastforce
  then have st2: "stream ?w2 (takeWhile P (t_unsent b)) = stream w (takeWhile P (t_unsent b))" using calm_stream [OF calm_mono [OF c2]] by blast
  let ?n2 = "in_recv_acked (ts_in w) + of_nat (length (stream w (takeWhile P (t_unacked b) @ takeWhile P (t_unsent b))))"
  have n2: "?n2 = in_recv_acked (ts_in ?w2) + of_nat (length (stream ?w2 (takeWhile (acked_seg ?w2 a) (t_unsent b))))"
    unfolding P2 st2 by simp
  have m2: "mem_ok (ts_pb ?w2) (seg_refs (t_unsent b) + (seg_refs una + ?Q)) (seg_elems (t_unsent b) + (seg_elems una + ?F))"
    using 1(2) by (simp add: ac_simps)
  have p2: "ts_pcbs ?w2 pcb = Some ?b1" "in_ackno (ts_in ?w2) = a" using a by simp_all
  from free_acked_ok [OF m2 sg2 d2 p2 n2, unfolded P2] obtain pb ql where
    2: "tcp_free_acked_segments pcb (t_unsent b) ?w2 = Some (uns, acked_state ?w2 pcb ?b1 ql ?n2 pb)"
      "mem_ok pb (seg_refs uns + (seg_refs una + ?Q)) (seg_elems uns + (seg_elems una + ?F))" "pcb_pools (ts_pb ?w2) pb"
      "calm ?w2 (acked_state ?w2 pcb ?b1 ql ?n2 pb) (set (uns @ una))" by blast
  have e2: "acked_state ?w2 pcb ?b1 ql ?n2 pb = acked_state w pcb (b\<lparr>t_unacked := una\<rparr>) ql ?n2 pb" by (rule tcp_stack.equality) simp_all
  have uns: "set uns \<subseteq> set (t_unsent b)" using set_dropWhileD unfolding uns_def by fastforce
  have c3: "calm w (acked_state ?w2 pcb ?b1 ql ?n2 pb) (set (una @ uns))"
    using calm_trans [OF calm_mono [OF c2] 2(4)] uns by (auto simp: Un_commute)
  moreover have "calm (acked_state ?w2 pcb ?b1 ql ?n2 pb) (w\<lparr>ts_pb := pb\<rparr>) (set (una @ uns))"
    by (rule calm_pb [OF calm_segs [OF c3 segs_in_mono [OF sg]]]) (use una(1) uns in auto)
  ultimately have "calm w (w\<lparr>ts_pb := pb\<rparr>) (set (una @ uns))" by (rule calm_trans)
  moreover have "held (with_pcb w pcb pb (b\<lparr>t_unacked := una, t_unsent := uns, t_snd_queuelen := ql\<rparr>)) pcb (b\<lparr>t_unacked := una, t_unsent := uns, t_snd_queuelen := ql\<rparr>) R S"
    using 2(2) by (simp add: held_def pcb_refs_def pcb_segs_def own_next_add own_next_add_right seg_elems_def ac_simps)
  moreover have "Option.bind (pcb_upd pcb (\<lambda>b. b\<lparr>t_unacked := una\<rparr>) ?w1) (tcp_free_acked_segments pcb (t_unsent b)) = Some (uns, acked_state w pcb (b\<lparr>t_unacked := una\<rparr>) ql ?n2 pb)"
    using 2(1) unfolding e2 by (simp add: pcb_upd_def)
  moreover have "pcb_pools (ts_pb w) pb" using pcb_pools_trans [OF 1(3)] 2(3) by simp
  ultimately show ?thesis using 1(1) by (intro exI [of _ ?w1] exI [of _ pb] exI [of _ ql]) simp
qed

text \<open>The invariant of the connection for what remains.\<close>

lemma acked_conn:
  assumes c: "conn_ok w s b" and a: "TCP_SEQ_LEQ s a" "seq_space w (queued b) < 2 ^ 31"
    and b': "t_unacked b' = dropWhile (acked_seg w a) (t_unacked b)" "t_unsent b' = dropWhile (acked_seg w a) (t_unsent b)"
      "t_unsent_oversize b' = (if t_unsent b' = [] then 0 else t_unsent_oversize b)" "same_end b b'"
    and cw: "calm w w' (set (queued b'))"
  shows "queued b' = dropWhile (acked_seg w a) (queued b)"
    "stream w (queued b) = stream w (takeWhile (acked_seg w a) (queued b)) @ stream w' (queued b')"
    "\<exists>s'. conn_ok w' s' b' \<and> chained w s (takeWhile (acked_seg w a) (queued b)) s' \<and> TCP_SEQ_LEQ s' a"
proof -
  let ?P = "acked_seg w a" and ?uns = "t_unsent b'"
  have c: "send_ok w b" "chained w s (queued b) (t_snd_lbb b)" using c by (simp_all add: conn_ok_def)
  show q: "queued b' = dropWhile ?P (queued b)" unfolding b'(1,2) by (rule acked_split(1) [OF c(2) a(2,1)])
  show "stream w (queued b) = stream w (takeWhile ?P (queued b)) @ stream w' (queued b')"
    unfolding q calm_stream [OF cw [unfolded q], THEN conjunct1] using takeWhile_dropWhile_id [of ?P "queued b"] by (metis stream_simps(3))
  obtain s' where s': "chained w s (takeWhile ?P (queued b)) s'" "chained w s' (queued b') (t_snd_lbb b)" "TCP_SEQ_LEQ s' a"
    using acked_rest [OF c(2) a(1)] unfolding q by blast
  have "distinct (map sg_p (takeWhile ?P (queued b) @ dropWhile ?P (queued b)))" using c(1) unfolding send_ok_def takeWhile_dropWhile_id by blast
  then have "distinct (map sg_p (queued b'))" unfolding q map_append distinct_append by blast
  moreover have "tail_room (ts_pb w') (last ?uns) (t_unsent_oversize b)" if "?uns \<noteq> []" "t_unsent_oversize b > 0"
  proof -
    have "last ?uns = last (t_unsent b)" "t_unsent b \<noteq> []"
      using that(1) takeWhile_dropWhile_id [of ?P "t_unsent b"] last_appendR [of ?uns "takeWhile ?P (t_unsent b)"] unfolding b'(2) by auto
    then have "tail_room (ts_pb w) (last ?uns) (t_unsent_oversize b)" using c(1) that(2) by (simp add: send_ok_def)
    moreover have "last ?uns \<in> set (queued b')" using that(1) by simp
    ultimately show ?thesis using cw unfolding calm_def by blast
  qed
  ultimately have "send_ok w' b'" using c(1) cw b'(3,4) unfolding send_ok_def calm_def same_end_def by auto
  then have "conn_ok w' s' b'" using s'(2) calm_stream [OF cw] b'(3,4) by (simp add: conn_ok_def idle_def same_end_def)
  then show "\<exists>s'. conn_ok w' s' b' \<and> chained w s (takeWhile ?P (queued b)) s' \<and> TCP_SEQ_LEQ s' a" using s' by blast
qed

lemma rcv_new_ack_spec:
  assumes st: "stack_ok w R S" and b: "ts_pcbs w pcb = Some b" "conn_ok w s b" "\<not> queueless (t_state b)"
    and a: "in_ackno (ts_in w) = a" "TCP_SEQ_LEQ s a" "in_recv_acked (ts_in w) = 0" and sp: "seq_space w (queued b) < 2 ^ 31"
  defines "acked \<equiv> takeWhile (acked_seg w a) (queued b)"
  shows "\<exists>w' b' s'. rcv_new_ack pcb w = Some w' \<and> stack_ok w' R S \<and> ts_pcbs w' = (ts_pcbs w)(pcb \<mapsto> b') \<and> same_peer b b'
    \<and> w' = w\<lparr>ts_pcbs := ts_pcbs w', ts_in := (ts_in w)\<lparr>in_recv_acked := of_nat (length (stream w acked))\<rparr>, ts_pb := ts_pb w'\<rparr>
    \<and> queued b' = dropWhile (acked_seg w a) (queued b) \<and> stream w (queued b) = stream w acked @ stream w' (queued b')
    \<and> conn_ok w' s' b' \<and> chained w s acked s' \<and> TCP_SEQ_LEQ s' a
    \<and> t_snd_buf b' = t_snd_buf b + of_nat (length (stream w acked)) \<and> t_lastack b' = a"
proof -
  let ?P = "acked_seg w a"
  let ?una = "dropWhile ?P (t_unacked b)" and ?uns = "dropWhile ?P (t_unsent b)"
  have c: "send_ok w b" "chained w s (queued b) (t_snd_lbb b)" "idle b" using b(2) by (simp_all add: conn_ok_def)
  note sl = acked_split [OF c(2) sp a(2)]
  let ?b0 = "new_ack a b"
  let ?v = "w\<lparr>ts_pcbs := (ts_pcbs w)(pcb \<mapsto> ?b0)\<rparr>"
  note f = new_ack_fields [where a = a and b = b]
  have P0: "acked_seg ?v a = ?P" using calm_acked [OF calm_pb [of w "{g}" ?v for g]] same_seg_pb [of ?v w]
    by (auto simp: acked_seg_def same_seg_def fun_eq_iff)
  have h0: "held ?v pcb ?b0 R S" and s0: "send_ok ?v ?b0"
    using stack_ok_held [OF st b(1)] c(1) f by (simp_all add: held_def pcb_refs_def pcb_segs_def send_ok_def same_end_def)
  have st0: "stream ?v gs = stream w gs" for gs by (rule stream_same) (rule same_seg_pb, simp)
  let ?n = "of_nat (length (stream w acked)) :: u16"
  have e0: "in_recv_acked (ts_in ?v) + of_nat (length (stream ?v (takeWhile ?P (t_unacked b) @ takeWhile ?P (t_unsent b)))) = ?n"
    unfolding st0 sl(2) acked_def using a(3) by simp
  have "in_ackno (ts_in ?v) = a" using a(1) by simp
  from free_both_ok [OF h0 s0 this, unfolded f P0 e0] obtain w1 pb ql where
    o: "tcp_free_acked_segments pcb (t_unacked b) ?v = Some (?una, w1)"
      "Option.bind (pcb_upd pcb (\<lambda>b. b\<lparr>t_unacked := ?una\<rparr>) w1) (tcp_free_acked_segments pcb (t_unsent b)) = Some (?uns, acked_state ?v pcb (?b0\<lparr>t_unacked := ?una\<rparr>) ql ?n pb)"
      "pcb_pools (ts_pb ?v) pb" "calm ?v (?v\<lparr>ts_pb := pb\<rparr>) (set (?una @ ?uns))"
      "held (with_pcb ?v pcb pb (?b0\<lparr>t_unacked := ?una, t_unsent := ?uns, t_snd_queuelen := ql\<rparr>)) pcb (?b0\<lparr>t_unacked := ?una, t_unsent := ?uns, t_snd_queuelen := ql\<rparr>) R S"
    by blast
  obtain w2 where w2: "pcb_upd pcb (\<lambda>b. b\<lparr>t_unacked := ?una\<rparr>) w1 = Some w2"
    "tcp_free_acked_segments pcb (t_unsent b) w2 = Some (?uns, acked_state ?v pcb (?b0\<lparr>t_unacked := ?una\<rparr>) ql ?n pb)"
    using o(2) by (auto simp: bind_eq_Some_conv)
  let ?b3 = "?b0\<lparr>t_unacked := ?una, t_snd_queuelen := ql\<rparr>"
  let ?b4 = "?b3\<lparr>t_unsent := ?uns, t_rtime := (if ?una = [] then -1 else 0), t_polltmr := 0,
      t_unsent_oversize := (if ?uns = [] then 0 else t_unsent_oversize ?b3), t_snd_buf := t_snd_buf ?b3 + ?n\<rparr>"
  let ?W = "\<lambda>b. w\<lparr>ts_pcbs := (ts_pcbs w)(pcb \<mapsto> b), ts_in := (ts_in w)\<lparr>in_recv_acked := ?n\<rparr>, ts_pb := pb\<rparr>"
  let ?b' = "if t_flags ?b4 AND TF_RTO \<noteq> 0 \<and> rto_over (?W ?b4) ?b4 then ?b4\<lparr>t_flags := t_flags ?b4 AND NOT TF_RTO\<rparr> else ?b4"
  have e3: "acked_state ?v pcb (?b0\<lparr>t_unacked := ?una\<rparr>) ql ?n pb = ?W ?b3" by (rule tcp_stack.equality) simp_all
  have e4: "(?W x)\<lparr>ts_pcbs := (ts_pcbs (?W x))(pcb \<mapsto> y)\<rparr> = ?W y" for x y by (rule tcp_stack.equality) simp_all
  have u: "ts_pcbs (?W x) pcb = Some x" "in_recv_acked (ts_in (?W x)) = ?n" for x by simp_all
  have r: "rcv_new_ack pcb w = Some (?W ?b')"
    unfolding rcv_new_ack_def a(1) pcb_upd_Some [OF b(1)] Option.bind.simps
    by (simp add: f(1,2) o(1) w2(1) w2(2) [unfolded e3] u pcb_upd_Some [OF u(1), unfolded e4] split del: if_split cong del: if_weak_cong)
  have b': "t_unacked ?b' = ?una" "t_unsent ?b' = ?uns" "t_unsent_oversize ?b' = (if ?uns = [] then 0 else t_unsent_oversize b)"
      "t_snd_buf ?b' = t_snd_buf b + ?n" "t_lastack ?b' = a" "same_end b ?b'"
    using f by (simp_all add: same_end_def same_peer_def)
  define b' where "b' = ?b'"
  let ?w' = "?W b'"
  note b' = b' [folded b'_def]
  have sub: "set (?una @ ?uns) \<subseteq> set (queued b)" unfolding sl(1) using set_dropWhileD by fastforce
  have "calm w ?v (set (?una @ ?uns))" by (rule calm_pb [OF segs_in_mono [OF send_ok_segs [OF c(1)] sub]]) simp
  then have c1: "calm w (?v\<lparr>ts_pb := pb\<rparr>) (set (?una @ ?uns))" using o(4) by (rule calm_trans)
  have "calm (?v\<lparr>ts_pb := pb\<rparr>) ?w' (set (?una @ ?uns))"
    by (rule calm_pb [OF calm_segs [OF c1 segs_in_mono [OF send_ok_segs [OF c(1)] sub]]]) simp
  with c1 have cw: "calm w ?w' (set (queued b'))" unfolding b'(1,2) by (rule calm_trans)
  note ac = acked_conn [OF b(2) a(2) sp b'(1,2) b'(3) [folded b'(2)] b'(6) cw, folded acked_def]
  have hp: "held ?w' pcb b' R S" using o(5) b'(1,2,6) f(6) by (simp add: held_def pcb_refs_def pcb_segs_def same_end_def)
  have "stack_ok (w\<lparr>ts_pb := pb, ts_pcbs := (ts_pcbs w)(pcb \<mapsto> b')\<rparr>) R S"
    by (rule stack_ok_queued [OF st b(1,3)]) (use hp o(3) b'(6) in \<open>simp_all add: held_def same_end_def same_peer_def\<close>)
  then have "stack_ok ((w\<lparr>ts_pb := pb, ts_pcbs := (ts_pcbs w)(pcb \<mapsto> b')\<rparr>)\<lparr>ts_in := (ts_in w)\<lparr>in_recv_acked := ?n\<rparr>\<rparr>) R S" by (simp only: stack_ok_in)
  moreover have "(w\<lparr>ts_pb := pb, ts_pcbs := (ts_pcbs w)(pcb \<mapsto> b')\<rparr>)\<lparr>ts_in := (ts_in w)\<lparr>in_recv_acked := ?n\<rparr>\<rparr> = ?w'"
    by (rule tcp_stack.equality) simp_all
  ultimately have ok: "stack_ok ?w' R S" by simp
  show ?thesis using r [folded b'_def] ok ac b'(4-6) by (intro exI [of _ ?w'] exI [of _ b']) (auto simp: same_end_def)
qed

text \<open>An acknowledgement of everything leaves nothing.\<close>

lemma acked_all:
  assumes "chained w s gs e" "seq_space w gs < 2 ^ 31"
  shows "dropWhile (acked_seg w e) gs = []"
proof -
  have e: "e = s + of_nat (seq_space w gs)" by (rule chained_end [OF assms(1)])
  then have n: "unat (e - s) = seq_space w gs" using assms(2) by (simp add: unat_of_nat)
  then have l: "TCP_SEQ_LEQ s e" using assms(2) by (simp add: seq_leq_nat)
  have "acked_seg w e g" if g: "g \<in> set gs" for g
  proof -
    obtain xs ys where x: "gs = xs @ g # ys" using split_list [OF g] by blast
    have sp: "seq_space w (xs @ [g]) \<le> seq_space w gs" by (simp add: x seq_space_def)
    have "chained w s (xs @ [g]) (seg_seqno w g + TCP_TCPLEN w g)" using assms(1) by (auto simp: x chained_append)
    then have "seg_seqno w g + TCP_TCPLEN w g = s + of_nat (seq_space w (xs @ [g]))" by (rule chained_end)
    then show ?thesis using seq_leq_offset [OF le_less_trans [OF sp assms(2)] l] sp n by (simp add: acked_seg_def)
  qed
  then show ?thesis by simp
qed

text \<open>Updates of the PCB before and after.\<close>

lemma conn_ok_upd:
  fixes w w' :: "'a tcp_stack"
  assumes "conn_ok w s b" "t_unacked b' = t_unacked b" "t_unsent b' = t_unsent b" "t_unsent_oversize b' = t_unsent_oversize b" "same_end b b'" "ts_pb w' = ts_pb w"
  shows "conn_ok w' s b'" "stream w' gs = stream w gs" "acked_seg w' a = acked_seg w a" "chained w' = chained w" "seq_space w' = seq_space w"
proof -
  have e: "same_seg w w' g" for g by (rule same_seg_pb [OF assms(6)])
  show "stream w' gs = stream w gs" by (rule stream_same) (rule e)
  show c: "chained w' = chained w" by (intro ext chained_same e)
  show "acked_seg w' a = acked_seg w a" "seq_space w' = seq_space w" using e by (simp_all add: acked_seg_def seq_space_def same_seg_def fun_eq_iff)
  show "conn_ok w' s b'" using assms by (simp add: conn_ok_def send_ok_def idle_def same_end_def c)
qed

lemma ack_keeps:
  "t_unacked (update_snd_wnd x y z b) = t_unacked b" "t_unsent (update_snd_wnd x y z b) = t_unsent b" "t_unsent_oversize (update_snd_wnd x y z b) = t_unsent_oversize b"
  "t_snd_buf (update_snd_wnd x y z b) = t_snd_buf b" "t_lastack (update_snd_wnd x y z b) = t_lastack b" "t_snd_nxt (update_snd_wnd x y z b) = t_snd_nxt b"
  "same_end b (update_snd_wnd x y z b)" "same_queues b (update_snd_wnd x y z b)"
  "t_unacked (rtt_update t y b) = t_unacked b" "t_unsent (rtt_update t y b) = t_unsent b" "t_unsent_oversize (rtt_update t y b) = t_unsent_oversize b"
  "t_snd_buf (rtt_update t y b) = t_snd_buf b" "t_lastack (rtt_update t y b) = t_lastack b"
  "same_end b (rtt_update t y b)" "same_queues b (rtt_update t y b)"
  by (simp_all add: update_snd_wnd_def rtt_update_def Let_def same_end_def same_peer_def same_queues_def pcb_segs_def)

lemma rcv_ack_spec:
  assumes st: "stack_ok w R S" and b: "ts_pcbs w pcb = Some b" "conn_ok w s b" "\<not> queueless (t_state b)"
    and a: "in_ackno (ts_in w) = a" "\<not> TCP_SEQ_LEQ a (t_lastack b)" "TCP_SEQ_BETWEEN a (t_lastack b + 1) (t_snd_nxt b)" "in_recv_acked (ts_in w) = 0"
    and s: "TCP_SEQ_LEQ s a" "seq_space w (queued b) < 2 ^ 31"
  defines "acked \<equiv> takeWhile (acked_seg w a) (queued b)"
  shows "\<exists>w' b' s'. rcv_ack env pcb w = Some w' \<and> stack_ok w' R S \<and> ts_pcbs w' = (ts_pcbs w)(pcb \<mapsto> b') \<and> same_peer b b'
    \<and> in_recv_acked (ts_in w') = of_nat (length (stream w acked))
    \<and> queued b' = dropWhile (acked_seg w a) (queued b) \<and> stream w (queued b) = stream w acked @ stream w' (queued b')
    \<and> conn_ok w' s' b' \<and> chained w s acked s' \<and> TCP_SEQ_LEQ s' a
    \<and> t_snd_buf b' = t_snd_buf b + of_nat (length (stream w acked)) \<and> t_lastack b' = a \<and> (a = t_snd_lbb b \<longrightarrow> queued b' = [])"
proof -
  let ?f = "update_snd_wnd (in_seqno (ts_in w)) a (ld_u16 w (in_hdr (ts_in w) + 14))"
  let ?b = "?f b"
  let ?v = "w\<lparr>ts_pcbs := (ts_pcbs w)(pcb \<mapsto> ?b)\<rparr>"
  note f = ack_keeps(1-8) [where x = "in_seqno (ts_in w)" and y = a and z = "ld_u16 w (in_hdr (ts_in w) + 14)" and b = b]
  have "ts_pb ?v = ts_pb w" by simp
  note u = conn_ok_upd [OF b(2) f(1-3) f(7) this]
  have p: "stack_ok ?v R S" "ts_pcbs ?v pcb = Some ?b" "\<not> queueless (t_state ?b)" "in_ackno (ts_in ?v) = a" "in_recv_acked (ts_in ?v) = 0" "seq_space ?v (queued ?b) < 2 ^ 31"
    using stack_ok_upd [OF st b(1) f(8)] b(3) a(1,4) f(7) s(2) unfolding u(5) f by (simp_all add: same_end_def same_peer_def)
  from rcv_new_ack_spec [OF p(1,2) u(1) p(3,4) s(1) p(5,6), unfolded u(2-5) f, folded acked_def] obtain w1 b1 s' where
    1: "rcv_new_ack pcb ?v = Some w1" "stack_ok w1 R S" "ts_pcbs w1 = (ts_pcbs ?v)(pcb \<mapsto> b1)" "same_peer ?b b1"
      "w1 = ?v\<lparr>ts_pcbs := ts_pcbs w1, ts_in := (ts_in ?v)\<lparr>in_recv_acked := of_nat (length (stream w acked))\<rparr>, ts_pb := ts_pb w1\<rparr>"
      "queued b1 = dropWhile (acked_seg w a) (queued b)" "stream w (queued b) = stream w acked @ stream w1 (queued b1)"
      "conn_ok w1 s' b1" "chained w s acked s'" "TCP_SEQ_LEQ s' a" "t_snd_buf b1 = t_snd_buf b + of_nat (length (stream w acked))" "t_lastack b1 = a" by blast
  let ?g = "rtt_update (tcp_ticks w1) a"
  let ?w' = "w1\<lparr>ts_pcbs := (ts_pcbs w1)(pcb \<mapsto> ?g b1)\<rparr>"
  note g = ack_keeps(9-15) [where t = "tcp_ticks w1" and y = a and b = b1]
  have "ts_pb ?w' = ts_pb w1" by simp
  note u' = conn_ok_upd [OF 1(8) g(1-3) g(6) this]
  have "ts_pcbs w1 pcb = Some b1" using 1(3) by simp
  note r = pcb_upd_Some [OF this, of ?g] and ok = stack_ok_upd [OF 1(2) this g(7)]
  have "rcv_ack env pcb w = Some ?w'"
    using b(1) a(1-3) pcb_upd_Some [OF b(1), of ?f] f(5,6) 1(1) r by (simp add: rcv_ack_def Let_def)
  moreover have "ts_pcbs ?w' = (ts_pcbs w)(pcb \<mapsto> ?g b1)" using 1(3) by simp
  moreover have "in_recv_acked (ts_in ?w') = of_nat (length (stream w acked))" by (subst 1(5)) simp
  moreover have "same_peer b (?g b1)" using f(7) 1(4) g(6) by (simp add: same_end_def same_peer_def)
  moreover have "a = t_snd_lbb b \<longrightarrow> queued (?g b1) = []"
    unfolding g(1,2) 1(6) using acked_all [OF _ s(2), of s "t_snd_lbb b"] b(2) by (metis conn_ok_def)
  moreover have "queued (?g b1) = queued b1" "stream ?w' (queued (?g b1)) = stream w1 (queued b1)" unfolding u'(2) g(1,2) by simp_all
  ultimately show ?thesis using ok 1(6,7,9-12) u'(1) g(4,5) by metis
qed

section \<open>Properties\<close>

text \<open>A connection with one segment in flight.\<close>

lemma bridge_ok_queues:
  assumes "bridge_ok w R S" "ts_pcbs w pcb = Some b" "same_queues b b'" "same_peer b b'"
  shows "bridge_ok (w\<lparr>ts_pcbs := (ts_pcbs w)(pcb \<mapsto> b')\<rparr>) R S"
  using assms stack_ok_upd [of w R S pcb b b'] conns_ok_same [of "ts_pcbs w" "g_conns (ts_app w)" pcb b b'] by (simp add: bridge_ok_def)

lemma demo_in_flight: "\<exists>(w :: unit bstack) pcb b g. bridge_ok w {#} {#} \<and> mtu_ok w \<and> ts_pcbs w pcb = Some b \<and> conn_ok w 0 b \<and> t_unacked b = [g] \<and> t_unsent b = []
    \<and> stream w [g] = [104, 105] \<and> t_lastack b = 0 \<and> t_snd_nxt b = 2 \<and> t_snd_lbb b = 2 \<and> t_state b = ESTABLISHED"
proof -
  obtain w :: "unit bstack" and pcb b p pb where w: "bridge_ok w {#} {#}" "ts_netifs w = ts_netifs demo_booted" "ts_pcbs w pcb = Some b" "send_ok w b"
    and b: "b = (new_pcb TCP_PRIO_NORMAL 0 0)\<lparr>t_state := ESTABLISHED, t_remote_ip := 7, t_remote_port := 80\<rparr>"
    and m: "pbuf_alloc PBUF_TRANSPORT (write_mss b) PBUF_RAM (ts_pb w) = Some (Some p, pb)" "fst (memp_malloc MEMP_TCP_SEG (ps_pools (ts_pb w))) \<noteq> None"
    using demo_sender by blast
  let ?d = "[104, 105] :: u8 list"
  have st: "stack_ok w {#} {#}" using w(1) by (simp add: bridge_ok_def)
  have e: "t_unsent b = []" "t_unacked b = []" "t_snd_lbb b = 0" "t_lastack b = 0" "t_state b = ESTABLISHED" "t_unsent_oversize b = 0" by (simp_all add: b new_pcb_def)
  from write_one_segment [OF st w(3,4) e(1) _ _ _ _ _ m, of ?d 0] obtain w1 b1 g where
    o: "tcp_write (Some pcb) (Some ?d) 0 w = Some (ERR_OK, w1)" "ts_pcbs w1 pcb = Some b1" "t_unsent b1 = [g]"
    by (auto simp: b write_mss_def new_pcb_def INITIAL_MSS_def TCP_SND_QUEUELEN_def TCP_SND_BUF_def)
  from tcp_write_spec [OF st w(3,4), of ?d 0] o(1,2) have t: "stack_ok w1 {#} {#}" "ts_pcbs w1 = (ts_pcbs w)(pcb \<mapsto> b1)" "send_ok w1 b1" "appended w b ?d w1 b1"
    by auto
  have c: "conn_ok w 0 b" using w(4) e by (simp add: conn_ok_def idle_def)
  note c1 = appended_conn [OF c t(3,4)]
  have op: "only_pcbs w w1" and f1: "t_unacked b1 = []" "t_snd_lbb b1 = 2" using t(4) e by (simp_all add: appended_def)
  obtain us ov ql where "b1 = written us ov 2 ql b" using t(4) by (auto simp: appended_def)
  then have f2: "t_lastack b1 = 0" "t_state b1 = ESTABLISHED" using e by (simp_all add: written_def)
  let ?w2 = "app_upd (\<lambda>g. g\<lparr>g_last_write_err := 0\<rparr>) w1" and ?b = "b1\<lparr>t_unsent := [], t_unacked := [g], t_unsent_oversize := 0, t_snd_nxt := 2\<rparr>"
  note w2 = bridge_ok_write [OF w(1) t(1) op t(2) w(3) c1(3)]
  have p2: "ts_pcbs ?w2 pcb = Some b1" "ts_pb ?w2 = ts_pb w1" using o(2) by (simp_all add: app_upd_def)
  let ?w = "?w2\<lparr>ts_pcbs := (ts_pcbs ?w2)(pcb \<mapsto> ?b)\<rparr>"
  have "bridge_ok ?w {#} {#}"
    by (rule bridge_ok_queues [OF w2(1) [where e = 0] p2(1)]) (use o(3) f1 in \<open>simp_all add: same_queues_def pcb_segs_def same_peer_def\<close>)
  moreover have "mtu_ok ?w" using w2(3) w(2) by (simp add: mtu_ok_def demo_booted_def demo_process_def demo_netif_def app_upd_def)
  moreover have ss: "same_seg w1 ?w h" for h by (rule same_seg_pb) (use p2(2) in simp)
  have "conn_ok ?w 0 ?b" using c1(1) o(3) f1 p2(2) ss [of g] by (simp add: conn_ok_def send_ok_def idle_def same_seg_def)
  moreover have "stream ?w [g] = ?d" using c1(2) o(3) f1 e stream_same [of "[g]" w1 ?w] ss by simp
  ultimately show ?thesis using f1 f2 by (intro exI [of _ ?w] exI [of _ pcb] exI [of _ ?b] exI [of _ g]) simp
qed

text \<open>
  C13: Retransmission after a timeout. When data is in flight, \<open>tcp_rexmit_rto_prepare\<close> succeeds and puts every
  unacknowledged segment back in front of the unsent ones, in order. \<open>tcp_rexmit_rto\<close> always returns and keeps the
  invariant of the bridge and every other connection; afterwards the unacknowledged stream of the connection has the same bytes
  under the same sequence numbers, whatever part of it was sent again.
\<close>

theorem tcp_rexmit_rto_resends:
  assumes ok: "bridge_ok w R S" and b: "ts_pcbs w pcb = Some b" "conn_ok w s b" "\<not> queueless (t_state b)" "mtu_ok w"
  shows "(t_unacked b \<noteq> [] \<longrightarrow> (\<exists>w1 b1. tcp_rexmit_rto_prepare pcb w = Some (ERR_OK, w1) \<and> ts_pcbs w1 pcb = Some b1
      \<and> t_unacked b1 = [] \<and> t_unsent b1 = queued b \<and> conn_ok w1 s b1))
    \<and> (\<exists>w' b'. tcp_rexmit_rto (out_env cbs) pcb w = Some w' \<and> bridge_ok w' R S \<and> mtu_ok w' \<and> ts_pcbs w' = (ts_pcbs w)(pcb \<mapsto> b')
      \<and> conn_ok w' s b' \<and> stream w' (queued b') = stream w (queued b) \<and> same_peer b b')"
proof (intro conjI impI)
  assume u: "t_unacked b \<noteq> []"
  have st: "stack_ok w R S" using ok by (simp add: bridge_ok_def)
  have c: "send_ok w b" "idle b" using b(2) by (simp_all add: conn_ok_def)
  from rexmit_prepare_step [OF stack_ok_held [OF st b(1)] c u] obtain w1 b1 where
    1: "tcp_rexmit_rto_prepare pcb w = Some (ERR_OK, w1)" "out_step pcb R S w b w1 b1" "t_unacked b1 = []" "t_unsent b1 = queued b" "idle b1" by blast
  then show "\<exists>w1 b1. tcp_rexmit_rto_prepare pcb w = Some (ERR_OK, w1) \<and> ts_pcbs w1 pcb = Some b1 \<and> t_unacked b1 = [] \<and> t_unsent b1 = queued b \<and> conn_ok w1 s b1"
    using out_step_conn(1) [OF b(2) 1(2)] held_pcb [OF out_stepD(3) [OF 1(2)]] by blast
qed (rule tcp_rexmit_rto_spec [OF assms])

theorem tcp_rexmit_rto_resends_witness:
  "\<exists>(w :: unit bstack) pcb b w1 b1 w' b'. bridge_ok w {#} {#} \<and> ts_pcbs w pcb = Some b \<and> stream w (t_unacked b) = [104, 105]
    \<and> tcp_rexmit_rto_prepare pcb w = Some (ERR_OK, w1) \<and> ts_pcbs w1 pcb = Some b1 \<and> t_unacked b1 = [] \<and> t_unsent b1 = t_unacked b
    \<and> tcp_rexmit_rto (out_env (demo_cbs None)) pcb w = Some w' \<and> ts_pcbs w' pcb = Some b' \<and> stream w' (queued b') = [104, 105]"
proof -
  obtain w :: "unit bstack" and pcb b g where w: "bridge_ok w {#} {#}" "mtu_ok w" "ts_pcbs w pcb = Some b" "conn_ok w 0 b" "t_unacked b = [g]" "t_unsent b = []"
    "stream w [g] = [104, 105]" "t_state b = ESTABLISHED" using demo_in_flight by blast
  have "\<not> queueless (t_state b)" by (simp add: w(8) queueless_def)
  note r = tcp_rexmit_rto_resends [OF w(1,3,4) this w(2), of "demo_cbs None"]
  have "t_unacked b \<noteq> []" by (simp add: w(5))
  with r obtain w1 b1 where 1: "tcp_rexmit_rto_prepare pcb w = Some (ERR_OK, w1)" "ts_pcbs w1 pcb = Some b1" "t_unacked b1 = []" "t_unsent b1 = queued b" by blast
  from r obtain w' b' where 2: "tcp_rexmit_rto (out_env (demo_cbs None)) pcb w = Some w'" "ts_pcbs w' = (ts_pcbs w)(pcb \<mapsto> b')" "stream w' (queued b') = stream w (queued b)" by blast
  have "ts_pcbs w' pcb = Some b'" "stream w' (queued b') = [104, 105]" "stream w (t_unacked b) = [104, 105]" "t_unsent b1 = t_unacked b"
    using 2(2,3) 1(4) w(5-7) by simp_all
  then show ?thesis using w(1,3) 1(1-3) 2(1) by blast
qed

text \<open>
  C12: An acknowledgement of new data (the branch of \<open>tcp_receive\<close> for a number between the last acknowledgement and \<open>snd_nxt\<close>), on a
  connection with its queues in order and less than half of the sequence space queued. The segments that end
  before the number are freed, from both queues, and no others: they are a prefix of the stream, the rest keeps its bytes and its numbers, and
  everything is freed when everything is acknowledged. The space in the send buffer grows by the number of bytes
  freed, which is also what the application is told, and the invariants of the stack and of the connection hold again.
\<close>

theorem rcv_ack_frees_acknowledged:
  assumes "stack_ok w R S" "ts_pcbs w pcb = Some b" "conn_ok w s b" "\<not> queueless (t_state b)"
    and "in_ackno (ts_in w) = a" "\<not> TCP_SEQ_LEQ a (t_lastack b)" "TCP_SEQ_BETWEEN a (t_lastack b + 1) (t_snd_nxt b)" "in_recv_acked (ts_in w) = 0"
    and "TCP_SEQ_LEQ s a" "seq_space w (queued b) < 2 ^ 31"
  shows "\<exists>w' b' s'. rcv_ack env pcb w = Some w' \<and> stack_ok w' R S \<and> ts_pcbs w' = (ts_pcbs w)(pcb \<mapsto> b') \<and> same_peer b b'
    \<and> in_recv_acked (ts_in w') = of_nat (length (stream w (takeWhile (acked_seg w a) (queued b))))
    \<and> queued b' = dropWhile (acked_seg w a) (queued b) \<and> stream w (queued b) = stream w (takeWhile (acked_seg w a) (queued b)) @ stream w' (queued b')
    \<and> conn_ok w' s' b' \<and> chained w s (takeWhile (acked_seg w a) (queued b)) s' \<and> TCP_SEQ_LEQ s' a
    \<and> t_snd_buf b' = t_snd_buf b + of_nat (length (stream w (takeWhile (acked_seg w a) (queued b)))) \<and> t_lastack b' = a
    \<and> (a = t_snd_lbb b \<longrightarrow> queued b' = [])"
  by (rule rcv_ack_spec [OF assms])

theorem rcv_ack_frees_acknowledged_witness:
  "\<exists>(w :: unit bstack) pcb b w' b'. stack_ok w {#} {#} \<and> ts_pcbs w pcb = Some b \<and> stream w (queued b) = [104, 105]
    \<and> rcv_ack (out_env (demo_cbs None)) pcb w = Some w' \<and> ts_pcbs w' pcb = Some b' \<and> queued b' = [] \<and> in_recv_acked (ts_in w') = 2"
proof -
  obtain w :: "unit bstack" and pcb b g where w: "bridge_ok w {#} {#}" "ts_pcbs w pcb = Some b" "conn_ok w 0 b" "t_unacked b = [g]" "t_unsent b = []"
    "stream w [g] = [104, 105]" "t_lastack b = 0" "t_snd_nxt b = 2" "t_snd_lbb b = 2" "t_state b = ESTABLISHED" using demo_in_flight by blast
  let ?w = "w\<lparr>ts_in := (ts_in w)\<lparr>in_ackno := 2, in_recv_acked := 0\<rparr>\<rparr>"
  have st: "stack_ok ?w {#} {#}" using w(1) by (simp add: bridge_ok_def)
  have same: "same_end b b" "ts_pb ?w = ts_pb w" by (simp_all add: same_end_def same_peer_def)
  note u = conn_ok_upd [OF w(3) refl refl refl same]
  have p: "ts_pcbs ?w pcb = Some b" "\<not> queueless (t_state b)" "in_ackno (ts_in ?w) = 2" "in_recv_acked (ts_in ?w) = 0" using w(2,10) by (simp_all add: queueless_def)
  have sq: "\<not> TCP_SEQ_LEQ 2 (t_lastack b)" "TCP_SEQ_BETWEEN 2 (t_lastack b + 1) (t_snd_nxt b)" "TCP_SEQ_LEQ 0 2"
    by (simp_all add: w(7,8) TCP_SEQ_BETWEEN_def TCP_SEQ_GEQ_def seq_leq_nat)
  have "seq_space ?w (queued b) < 2 ^ 31" using tcplen_nat [of w g] unat_u16_less [of "sg_len g"] unfolding u(5) by (simp add: w(4,5) seq_space_def)
  from rcv_ack_frees_acknowledged [OF st p(1) u(1) p(2,3) sq(1,2) p(4) sq(3) this, of "out_env (demo_cbs None)"] obtain w' b' where
    r: "rcv_ack (out_env (demo_cbs None)) pcb ?w = Some w'" "ts_pcbs w' = (ts_pcbs w)(pcb \<mapsto> b')"
      "in_recv_acked (ts_in w') = of_nat (length (stream ?w (takeWhile (acked_seg ?w 2) (queued b))))"
      "stream ?w (queued b) = stream ?w (takeWhile (acked_seg ?w 2) (queued b)) @ stream w' (queued b')" "queued b' = []" using w(9) by auto
  have "stream ?w (queued b) = [104, 105]" unfolding u(2) using w(4-6) by simp
  moreover have "in_recv_acked (ts_in w') = 2" using r(3,4) calculation unfolding r(5) by simp
  ultimately show ?thesis using st p(1) r(1,2,5) by (intro exI [of _ ?w] exI [of _ pcb] exI [of _ b] exI [of _ w'] exI [of _ b']) simp
qed

end
