(* ===== verification/Bridge_Recv.thy ===== *)
theory Bridge_Recv
  imports Tcp_Ack Tcp_Facts
begin

text \<open>
  Data from a client: what \<open>tcp_recv_cb\<close> hands to the tunnel, and what it tells lwIP.
\<close>

section \<open>Handlers that stay on their own state\<close>

text \<open>A handler that, from the state \<open>u\<close> of the tunnel, calls no function of the bridge and ends in the state \<open>v\<close>.\<close>

inductive quiet_run :: "'u handler \<Rightarrow> 'u \<Rightarrow> 'u \<Rightarrow> bool" where
  quiet_return: "quiet_run Return u u"
| quiet_step: "f u = (u', h) \<Longrightarrow> quiet_run h u' v \<Longrightarrow> quiet_run (Step f) u v"

lemma run_quiet:
  assumes "quiet_run h u v" "g_user (ts_app w) = u"
  shows "run_handler cbs h w = Some (w\<lparr>ts_app := (ts_app w)\<lparr>g_user := v\<rparr>\<rparr>)"
  using assms
proof (induction arbitrary: w)
  case (quiet_return u)
  then show ?case by (simp flip: quiet_return)
next
  case (quiet_step f u u' h v)
  then show ?case by (simp add: app_upd_def)
qed

section \<open>Opening the window and freeing the packet\<close>

lemma stack_ok_free:
  assumes "stack_ok w (add_mset p R) S"
  shows "\<exists>c pb. stack_pb (pbuf_free (Some p)) w = Some (c, w\<lparr>ts_pb := pb\<rparr>) \<and> stack_ok (w\<lparr>ts_pb := pb\<rparr>) R S"
proof -
  note o = stack_okD [OF assms]
  have "mem_ok (ts_pb w) (own_next (Some p) (all_refs (ts_pcbs w) + R)) (all_elems (ts_pcbs w) + S)" using o(2) by (simp add: own_next_def)
  from stack_free_pbuf [OF this] obtain c pb where
    f: "stack_pb (pbuf_free (Some p)) w = Some (c, w\<lparr>ts_pb := pb\<rparr>)" "mem_ok pb (all_refs (ts_pcbs w) + R) (all_elems (ts_pcbs w) + S)" "pcb_pools (ts_pb w) pb" by blast
  have "memory_ok (w\<lparr>ts_pb := pb\<rparr>) R S"
    using assms f(2,3) pool_holds_cong [of pb "ts_pb w"] pcb_layout_pools [OF f(3)]
    by (auto simp: stack_ok_def memory_ok_def netifs_ok_def pcb_pools_def)
  moreover have "lists_ok (w\<lparr>ts_pb := pb\<rparr>)" using o(5) by simp
  ultimately show ?thesis using f(1) by (auto simp: stack_ok_def)
qed

lemma recved_keeps:
  fixes len
  defines "f \<equiv> \<lambda>b. snd (update_rcv_ann_wnd (grow_rcv_wnd len b))"
  shows "t_unacked (f b) = t_unacked b" "t_unsent (f b) = t_unsent b" "t_unsent_oversize (f b) = t_unsent_oversize b"
    "same_end b (f b)" "same_queues b (f b)" "t_rcv_nxt (f b) = t_rcv_nxt b"
    "unat (t_rcv_wnd (f b)) = min 65535 (unat (t_rcv_wnd b) + unat len)"
proof -
  have u: "\<exists>x. snd (update_rcv_ann_wnd b) = b\<lparr>t_rcv_ann_wnd := x\<rparr>" for b by (auto simp: update_rcv_ann_wnd_def Let_def)
  obtain x where x: "f b = (grow_rcv_wnd len b)\<lparr>t_rcv_ann_wnd := x\<rparr>" using u [of "grow_rcv_wnd len b"] unfolding f_def by blast
  show "t_unacked (f b) = t_unacked b" "t_unsent (f b) = t_unsent b" "t_unsent_oversize (f b) = t_unsent_oversize b"
    "same_end b (f b)" "same_queues b (f b)" "t_rcv_nxt (f b) = t_rcv_nxt b"
    unfolding x by (simp_all add: grow_rcv_wnd_def Let_def same_end_def same_peer_def same_queues_def pcb_segs_def)
  show "unat (t_rcv_wnd (f b)) = min 65535 (unat (t_rcv_wnd b) + unat len)" unfolding x by (simp add: grow_rcv_wnd_saturates)
qed

lemma tcp_recved_ok:
  assumes ok: "bridge_ok w R S" and b: "ts_pcbs w pcb = Some b" "conn_ok w s b" "\<not> queueless (t_state b)" "mtu_ok w"
  shows "\<exists>w' b'. tcp_recved (out_env cbs) (Some pcb) len w = Some w' \<and> bridge_ok w' R S \<and> ts_pcbs w' = (ts_pcbs w)(pcb \<mapsto> b') \<and> conn_ok w' s b'
    \<and> stream w' (queued b') = stream w (queued b) \<and> same_peer b b' \<and> same_tables (ts_app w) (ts_app w')
    \<and> t_rcv_nxt b' = t_rcv_nxt b \<and> unat (t_rcv_wnd b') = min 65535 (unat (t_rcv_wnd b) + unat len)"
proof -
  let ?f = "\<lambda>b. snd (update_rcv_ann_wnd (grow_rcv_wnd len b))" and ?k = "fst (update_rcv_ann_wnd (grow_rcv_wnd len b))"
  let ?upd = "\<lambda>b'. w\<lparr>ts_pcbs := (ts_pcbs w)(pcb \<mapsto> b')\<rparr>"
  let ?b = "?f b" and ?c = "?f b\<lparr>t_flags := t_flags (?f b) OR TF_ACK_NOW\<rparr>"
  note k = recved_keeps [where len = len and b = b]
  have u: "bridge_ok (?upd x) R S" "conn_ok (?upd x) s x" "stream (?upd x) gs = stream w gs" "mtu_ok (?upd x)" if "x = ?b \<or> x = ?c" for x gs
  proof -
    have e: "t_unacked x = t_unacked b" "t_unsent x = t_unsent b" "t_unsent_oversize x = t_unsent_oversize b" "same_end b x" "same_queues b x"
      using that k by (auto simp: same_end_def same_peer_def same_queues_def pcb_segs_def)
    have "ts_pb (?upd x) = ts_pb w" by simp
    from conn_ok_upd [OF b(2) e(1-4) this] show "conn_ok (?upd x) s x" "stream (?upd x) gs = stream w gs" by blast+
    show "bridge_ok (?upd x) R S" using bridge_ok_queues [OF ok b(1) e(5)] e(4) by (simp add: same_end_def)
    show "mtu_ok (?upd x)" using b(4) by (simp add: mtu_ok_def)
  qed
  have p: "same_peer b ?b" using k(4) by (simp add: same_end_def)
  show ?thesis
  proof (cases "?k \<ge> TCP_WND_UPDATE_THRESHOLD")
    case False
    then have "tcp_recved (out_env cbs) (Some pcb) len w = Some (?upd ?b)"
      using b(1) by (simp add: tcp_recved_def tcp_update_rcv_ann_wnd_def pcb_upd_def)
    then show ?thesis using u [of ?b] k p by (intro exI [of _ "?upd ?b"] exI [of _ ?b]) simp
  next
    case True
    have q: "ts_pcbs (?upd ?c) pcb = Some ?c" "\<not> queueless (t_state ?c)" using p b(3) by (simp_all add: same_peer_def)
    from bridge_output_ok [OF u(1) [of ?c] q(1) u(2) [of ?c] q(2) u(4) [of ?c], of cbs] obtain err w' b' where
      o: "tcp_output (out_env cbs) pcb (?upd ?c) = Some (err, w')" "bridge_ok w' R S" "ts_pcbs w' = (ts_pcbs (?upd ?c))(pcb \<mapsto> b')" "conn_ok w' s b'"
        "stream w' (queued b') = stream (?upd ?c) (queued ?c)" "same_peer ?c b'" "same_tables (ts_app (?upd ?c)) (ts_app w')"
        "t_rcv_nxt b' = t_rcv_nxt ?c" "t_rcv_wnd b' = t_rcv_wnd ?c" by blast
    have "tcp_recved (out_env cbs) (Some pcb) len w = Some w'"
      using True b(1) o(1) by (simp add: tcp_recved_def tcp_update_rcv_ann_wnd_def pcb_upd_def tcp_ack_now_def tcp_set_flags_def)
    moreover have "stream w' (queued b') = stream w (queued b)" unfolding o(5) u(3) [of ?c, OF disjI2, OF refl] using k(1,2) by simp
    ultimately show ?thesis using o(2-4,6-9) k p by (intro exI [of _ w'] exI [of _ b']) (simp add: same_peer_def)
  qed
qed

section \<open>The callback\<close>

lemma recv_rest_ok:
  assumes ok: "bridge_ok w (add_mset p R) S" and b: "ts_pcbs w pcb = Some b" "conn_ok w s b" "\<not> queueless (t_state b)" "mtu_ok w"
    and q: "ps_bufs (ts_pb w) p = Some q"
    and h: "call_g_recv cbs (of_nat i) p (p_tot_len q) w = Some w1" "w1 = w\<lparr>ts_app := app\<rparr>" "same_tables (ts_app w) app"
  shows "\<exists>w' b'. tcp_recv_cb cbs i pcb (Some p) ERR_OK w = Some (ERR_OK, w') \<and> bridge_ok w' R S \<and> ts_pcbs w' = (ts_pcbs w)(pcb \<mapsto> b') \<and> same_peer b b'
    \<and> g_conns (ts_app w') = g_conns (ts_app w) \<and> g_nat (ts_app w') = g_nat (ts_app w)
    \<and> t_rcv_nxt b' = t_rcv_nxt b \<and> unat (t_rcv_wnd b') = min 65535 (unat (t_rcv_wnd b) + unat (p_tot_len q))"
proof -
  have w1: "bridge_ok w1 (add_mset p R) S" "ts_pcbs w1 pcb = Some b" "conn_ok w1 s b" "mtu_ok w1" "ps_bufs (ts_pb w1) p = Some q"
    using ok b q same_tablesD(1,2) [OF h(3)] tables_wf_same [OF h(3)] by (simp_all add: h(2) bridge_ok_def mtu_ok_def)
  from tcp_recved_ok [OF w1(1-3) b(3) w1(4), of cbs "p_tot_len q"] obtain w2 b' where
    2: "tcp_recved (out_env cbs) (Some pcb) (p_tot_len q) w1 = Some w2" "bridge_ok w2 (add_mset p R) S" "ts_pcbs w2 = (ts_pcbs w1)(pcb \<mapsto> b')"
      "same_peer b b'" "same_tables (ts_app w1) (ts_app w2)" "t_rcv_nxt b' = t_rcv_nxt b" "unat (t_rcv_wnd b') = min 65535 (unat (t_rcv_wnd b) + unat (p_tot_len q))" by blast
  have "stack_ok w2 (add_mset p R) S" using 2(2) by (simp add: bridge_ok_def)
  from stack_ok_free [OF this] obtain c pb where f: "stack_pb (pbuf_free (Some p)) w2 = Some (c, w2\<lparr>ts_pb := pb\<rparr>)" "stack_ok (w2\<lparr>ts_pb := pb\<rparr>) R S" by blast
  have "tcp_recv_cb cbs i pcb (Some p) ERR_OK w = Some (ERR_OK, w2\<lparr>ts_pb := pb\<rparr>)"
    using q h(1) w1(5) 2(1) f(1) by (simp add: tcp_recv_cb_def stack_buf_def)
  moreover have "bridge_ok (w2\<lparr>ts_pb := pb\<rparr>) R S" using 2(2) f(2) by (simp add: bridge_ok_def)
  ultimately show ?thesis using 2(3-7) same_tablesD(1,2) [OF 2(5)] same_tablesD(1,2) [OF h(3)]
    by (intro exI [of _ "w2\<lparr>ts_pb := pb\<rparr>"] exI [of _ b']) (simp add: h(2))
qed

lemma copy_whole:
  assumes "pchain (ps_bufs s) (Some p) as" "length (flat s as) = unat n"
  shows "pbuf_copy_partial s (Some p) n 0 = Some (n, flat s as)"
  using pbuf_copy_loop_spec [OF assms(1), of n 0 0 "[]"] assms(2) by (simp add: pbuf_copy_partial_def Let_def)

section \<open>Properties\<close>

text \<open>
  C8: Data of a client reaches the tunnel, provided that \<open>malloc\<close> gives the buffer for it (\<open>malloc_ok\<close>) and that the receive handler
  works on its own state only and calls no function of the bridge (\<open>quiet_run\<close>). For a chain of pbufs of any shape, \<open>tcp_recv_cb\<close>
  then calls the receive handler with exactly the bytes of the chain, returns \<open>ERR_OK\<close>, has freed the chain, has opened the
  receive window by the number of bytes (up to its maximum) without moving \<open>rcv_nxt\<close>, and the invariant of the bridge holds, the
  tables and the other connections unchanged.
\<close>

theorem tcp_recv_cb_delivers:
  assumes "bridge_ok w (add_mset p R) S" "ts_pcbs w pcb = Some b" "conn_ok w s b" "\<not> queueless (t_state b)" "mtu_ok w"
    and q: "ps_bufs (ts_pb w) p = Some q" "pchain (ps_bufs (ts_pb w)) (Some p) as" "length (flat (ts_pb w) as) = unat (p_tot_len q)"
    and f: "g_recv cbs = Some f" "malloc_ok cbs (g_mallocs (ts_app w)) (unat (p_tot_len q))"
    and u: "quiet_run (f (of_nat i) (flat (ts_pb w) as)) (g_user (ts_app w)) u"
  shows "\<exists>w1 w' b'. call_g_recv cbs (of_nat i) p (p_tot_len q) w = Some w1 \<and> g_user (ts_app w1) = u
    \<and> tcp_recv_cb cbs i pcb (Some p) ERR_OK w = Some (ERR_OK, w') \<and> bridge_ok w' R S \<and> ts_pcbs w' = (ts_pcbs w)(pcb \<mapsto> b') \<and> same_peer b b'
    \<and> g_conns (ts_app w') = g_conns (ts_app w) \<and> g_nat (ts_app w') = g_nat (ts_app w)
    \<and> t_rcv_nxt b' = t_rcv_nxt b \<and> unat (t_rcv_wnd b') = min 65535 (unat (t_rcv_wnd b) + length (flat (ts_pb w) as))"
proof -
  let ?app = "(ts_app w)\<lparr>g_mallocs := g_mallocs (ts_app w) + 1, g_user := u\<rparr>"
  let ?w1 = "w\<lparr>ts_app := (ts_app w)\<lparr>g_mallocs := g_mallocs (ts_app w) + 1\<rparr>\<rparr>"
  have g: "g_user (ts_app ?w1) = g_user (ts_app w)" by simp
  have c: "call_g_recv cbs (of_nat i) p (p_tot_len q) w = Some (w\<lparr>ts_app := ?app\<rparr>)"
    using f copy_whole [OF q(2,3)] run_quiet [OF u g, of cbs] by (simp add: call_g_recv_def malloc_counted)
  moreover have "same_tables (ts_app w) ?app" by (rule same_tables_step [OF same_tables_refl])
  ultimately show ?thesis using recv_rest_ok [OF assms(1-5) q(1) c refl] q(3) by fastforce
qed

text \<open>A connection with nothing queued and a packet of 100 bytes.\<close>

lemma demo_receiver: "\<exists>(w :: unit bstack) pcb b p. bridge_ok w {#p#} {#} \<and> ts_pcbs w pcb = Some b \<and> conn_ok w 0 b \<and> \<not> queueless (t_state b) \<and> mtu_ok w
    \<and> ps_bufs (ts_pb w) p = Some (new_pbuf (p + 24) 100 100 PBUF_RAM) \<and> pchain (ps_bufs (ts_pb w)) (Some p) [p] \<and> length (flat (ts_pb w) [p]) = 100"
proof -
  obtain w :: "unit bstack" and pcb b p where w: "bridge_ok w {#p#} {#}" "ts_pcbs w pcb = Some b" "ts_netifs w = ts_netifs demo_booted"
    "ps_bufs (ts_pb w) = [p \<mapsto> new_pbuf (p + 24) 100 100 PBUF_RAM]"
    and b: "b = (new_pcb TCP_PRIO_NORMAL 0 0)\<lparr>t_state := ESTABLISHED, t_remote_ip := 7, t_remote_port := 80\<rparr>" using demo_unaccepted by blast
  have "conn_ok w 0 b" "\<not> queueless (t_state b)" by (simp_all add: b conn_ok_def send_ok_def idle_def new_pcb_def INITIAL_MSS_def queueless_def)
  moreover have "mtu_ok w" using w(3) by (simp add: mtu_ok_def demo_booted_def demo_process_def demo_netif_def)
  moreover have "pchain (ps_bufs (ts_pb w)) (Some p) [p]" "length (flat (ts_pb w) [p]) = 100" using w(4) by (simp_all add: new_pbuf_def flat_def rd_bytes_def)
  ultimately show ?thesis using w by (intro exI [of _ w] exI [of _ pcb] exI [of _ b] exI [of _ p]) simp
qed

theorem tcp_recv_cb_delivers_witness:
  "\<exists>(w :: unit bstack) pcb p w' b'. ps_bufs (ts_pb w) p = Some (new_pbuf (p + 24) 100 100 PBUF_RAM)
    \<and> tcp_recv_cb (demo_cbs (Some (\<lambda>_ _. Step (\<lambda>u. (u, Return))))) 0 pcb (Some p) ERR_OK w = Some (ERR_OK, w') \<and> bridge_ok w' {#} {#} \<and> ts_pcbs w' pcb = Some b'"
proof -
  obtain w :: "unit bstack" and pcb b p where w: "bridge_ok w {#p#} {#}" "ts_pcbs w pcb = Some b" "conn_ok w 0 b" "\<not> queueless (t_state b)" "mtu_ok w"
    and q: "ps_bufs (ts_pb w) p = Some (new_pbuf (p + 24) 100 100 PBUF_RAM)" "pchain (ps_bufs (ts_pb w)) (Some p) [p]" "length (flat (ts_pb w) [p]) = 100"
    using demo_receiver by blast
  let ?h = "Step (\<lambda>u. (u, Return)) :: unit handler" and ?c = "demo_cbs (Some (\<lambda>_ _. Step (\<lambda>u. (u, Return))))"
  have "quiet_run ?h (g_user (ts_app w)) ()" by (auto intro: quiet_run.intros)
  moreover have "length (flat (ts_pb w) [p]) = unat (p_tot_len (new_pbuf (p + 24) 100 100 PBUF_RAM))" using q(3) by (simp add: new_pbuf_def)
  moreover have "malloc_ok ?c (g_mallocs (ts_app w)) n" "g_recv ?c = Some (\<lambda>_ _. ?h)" for n by (simp_all add: demo_cbs_def)
  ultimately have "\<exists>w1 w' b'. call_g_recv ?c (of_nat 0) p (p_tot_len (new_pbuf (p + 24) 100 100 PBUF_RAM)) w = Some w1 \<and> g_user (ts_app w1) = ()
    \<and> tcp_recv_cb ?c 0 pcb (Some p) ERR_OK w = Some (ERR_OK, w') \<and> bridge_ok w' {#} {#} \<and> ts_pcbs w' = (ts_pcbs w)(pcb \<mapsto> b') \<and> same_peer b b'
    \<and> g_conns (ts_app w') = g_conns (ts_app w) \<and> g_nat (ts_app w') = g_nat (ts_app w)
    \<and> t_rcv_nxt b' = t_rcv_nxt b \<and> unat (t_rcv_wnd b') = min 65535 (unat (t_rcv_wnd b) + length (flat (ts_pb w) [p]))"
    by (intro tcp_recv_cb_delivers [OF w q(1,2)]) simp_all
  then obtain w' b' where "tcp_recv_cb ?c 0 pcb (Some p) ERR_OK w = Some (ERR_OK, w')" "bridge_ok w' {#} {#}" "ts_pcbs w' = (ts_pcbs w)(pcb \<mapsto> b')" by blast
  then show ?thesis using q(1) by (intro exI [of _ w] exI [of _ pcb] exI [of _ p] exI [of _ w'] exI [of _ b']) simp
qed

text \<open>
  C17: Data can be lost: when \<open>malloc\<close> fails in \<open>tcp_recv_cb\<close>, the handler is not called, but the callback goes on as if the data had
  been taken: it opens the receive window by the number of bytes, frees them and returns \<open>ERR_OK\<close>, so that lwIP acknowledges to the client
  what the tunnel has never seen.
\<close>

theorem tcp_recv_cb_loses_data:
  assumes "bridge_ok w (add_mset p R) S" "ts_pcbs w pcb = Some b" "conn_ok w s b" "\<not> queueless (t_state b)" "mtu_ok w"
    and q: "ps_bufs (ts_pb w) p = Some q" and f: "\<not> malloc_ok cbs (g_mallocs (ts_app w)) (unat (p_tot_len q))"
  shows "\<exists>w1 w' b'. call_g_recv cbs (of_nat i) p (p_tot_len q) w = Some w1 \<and> g_user (ts_app w1) = g_user (ts_app w)
    \<and> tcp_recv_cb cbs i pcb (Some p) ERR_OK w = Some (ERR_OK, w') \<and> bridge_ok w' R S \<and> ts_pcbs w' = (ts_pcbs w)(pcb \<mapsto> b')
    \<and> unat (t_rcv_wnd b') = min 65535 (unat (t_rcv_wnd b) + unat (p_tot_len q))"
proof -
  have "\<exists>m. call_g_recv cbs (of_nat i) p (p_tot_len q) w = Some (w\<lparr>ts_app := (ts_app w)\<lparr>g_mallocs := m, g_user := g_user (ts_app w)\<rparr>\<rparr>)"
    using f by (cases "g_recv cbs") (auto simp: call_g_recv_def malloc_counted intro: exI [of _ "g_mallocs (ts_app w)"])
  then obtain m where c: "call_g_recv cbs (of_nat i) p (p_tot_len q) w = Some (w\<lparr>ts_app := (ts_app w)\<lparr>g_mallocs := m, g_user := g_user (ts_app w)\<rparr>\<rparr>)" by blast
  from recv_rest_ok [OF assms(1-5) q c refl same_tables_step [OF same_tables_refl]] c show ?thesis by auto
qed

theorem tcp_recv_cb_loses_data_witness:
  "\<exists>(w :: unit bstack) pcb p w'. tcp_recv_cb \<lparr>g_output = None, g_accept = None, g_recv = Some (\<lambda>_ _. Return), g_close = None, g_sent = None, malloc_ok = \<lambda>_ _. False\<rparr>
      0 pcb (Some p) ERR_OK w = Some (ERR_OK, w') \<and> bridge_ok w' {#} {#}"
proof -
  let ?c = "\<lparr>g_output = None, g_accept = None, g_recv = Some (\<lambda>_ _. Return), g_close = None, g_sent = None, malloc_ok = \<lambda>_ _. False\<rparr> :: unit bridge_cbs"
  obtain w :: "unit bstack" and pcb b p where w: "bridge_ok w {#p#} {#}" "ts_pcbs w pcb = Some b" "conn_ok w 0 b" "\<not> queueless (t_state b)" "mtu_ok w"
    and q: "ps_bufs (ts_pb w) p = Some (new_pbuf (p + 24) 100 100 PBUF_RAM)" using demo_receiver by blast
  have "\<not> malloc_ok ?c (g_mallocs (ts_app w)) n" for n by simp
  from tcp_recv_cb_loses_data [OF w q this, of 0] show ?thesis by blast
qed

end
