(* ===== verification/Tcp_Rcv.thy ===== *)
theory Tcp_Rcv
  imports Tcp_Ack
begin

text \<open>
  Receiving data that overlaps what was received before: \<open>tcp_receive\<close> cuts the old bytes off the front of
  the chain of pbufs and passes on the rest.
\<close>

section \<open>Trimming the front of a chain\<close>

text \<open>The pbufs of a chain are changed within their old data only.\<close>

definition shrunk :: "pbuf_state \<Rightarrow> pbuf_state \<Rightarrow> nat list \<Rightarrow> bool" where
  "shrunk s s' as \<longleftrightarrow> (\<forall>a \<in> set as. \<exists>q q'. ps_bufs s a = Some q \<and> ps_bufs s' a = Some q' \<and> p_next q' = p_next q
     \<and> p_payload q \<le> p_payload q' \<and> p_payload q' + unat (p_len q') \<le> p_payload q + unat (p_len q))
   \<and> (\<forall>a. a \<notin> set as \<longrightarrow> ps_bufs s' a = ps_bufs s a) \<and> ps_mem s' = ps_mem s"

lemma shrunk_chain: "shrunk s s' as \<Longrightarrow> pchain (ps_bufs s) p as \<Longrightarrow> pchain (ps_bufs s') p as"
  by (rule pchain_next) (auto simp: shrunk_def)

lemma shrunk_payload:
  assumes "shrunk s s' as" "in_payload s' as x"
  shows "in_payload s as x"
proof -
  obtain a where a: "a \<in> set as" "p_payload (the (ps_bufs s' a)) \<le> x" "x < p_payload (the (ps_bufs s' a)) + unat (p_len (the (ps_bufs s' a)))"
    using assms(2) by (auto simp: in_payload_def)
  then obtain q q' where "ps_bufs s a = Some q" "ps_bufs s' a = Some q'" "p_payload q \<le> p_payload q'" "p_payload q' + unat (p_len q') \<le> p_payload q + unat (p_len q)"
    using assms(1) unfolding shrunk_def by blast
  then show ?thesis using a by (auto simp: in_payload_def intro!: bexI [of _ a])
qed

lemma flat_upd: "a \<notin> set as \<Longrightarrow> flat (s\<lparr>ps_bufs := (ps_bufs s)(a := x)\<rparr>) as = flat s as"
  by (rule flat_cong) auto

lemma trim_chain:
  assumes "pchain (ps_bufs (ts_pb w)) (Some p) as" "unat off \<le> length (flat (ts_pb w) as)" "ps_bufs (ts_pb w) p = Some q"
  shows "\<exists>p' off' w1 pb. trim_loop p off n w = Some (p', off', w1) \<and> stack_pb (pbuf_remove_header (Some p') (unat off')) w1 = Some (False, w\<lparr>ts_pb := pb\<rparr>)
    \<and> shrunk (ts_pb w) pb as \<and> flat pb as = drop (unat off) (flat (ts_pb w) as)
    \<and> (\<exists>q'. ps_bufs pb p = Some q' \<and> p_tot_len q' = (if p_len q < off then n else p_tot_len q - off))"
  using assms
proof (induction as arbitrary: p off w q)
  case (Cons a as)
  let ?pb = "ts_pb w"
  have p: "a = p" "pchain (ps_bufs ?pb) (p_next q) as" "p \<notin> set as" using Cons.prems(1,3) pchain_distinct [OF Cons.prems(1)] by auto
  have fl: "flat ?pb (p # as) = rd_bytes (ps_mem ?pb) (p_payload q) (unat (p_len q)) @ flat ?pb as" by (rule flat_Cons [OF Cons.prems(3)])
  show ?case
  proof (cases "p_len q < off")
    case False
    then have le: "unat off \<le> unat (p_len q)" by (simp add: word_less_nat_alt)
    let ?q = "q\<lparr>p_payload := p_payload q + unat off, p_len := p_len q - off, p_tot_len := p_tot_len q - off\<rparr>"
    let ?s = "?pb\<lparr>ps_bufs := (ps_bufs ?pb)(p \<mapsto> ?q)\<rparr>"
    have t: "trim_loop p off n w = Some (p, off, w)" using False Cons.prems(3) by (subst trim_loop.simps) (simp add: stack_buf_def)
    have u: "unat (p_len q - off) = unat (p_len q) - unat off" using le by (simp add: unat_sub word_le_nat_alt)
    have r: "stack_pb (pbuf_remove_header (Some p) (unat off)) w = Some (False, w\<lparr>ts_pb := ?s\<rparr>)"
    proof (cases "off = 0")
      case True
      then have "?s = ?pb" using Cons.prems(3) by (simp add: fun_upd_idem)
      then show ?thesis using True by (simp add: stack_pb_def pbuf_remove_header_def)
    next
      case nz: False
      then have "unat off \<noteq> 0" "unat off \<le> 65535" using unat_u16_less [of off] by (simp_all add: unat_eq_zero)
      then show ?thesis using le Cons.prems(3) by (simp add: stack_pb_def pbuf_remove_header_def Let_def word_le_nat_alt)
    qed
    have "flat ?s (p # as) = rd_bytes (ps_mem ?pb) (p_payload q + unat off) (unat (p_len q) - unat off) @ flat ?pb as"
      using flat_Cons [of ?s p ?q as] flat_upd [OF p(3), of ?pb] u by simp
    then have f: "flat ?s (a # as) = drop (unat off) (flat ?pb (a # as))" unfolding p(1) fl using le by (simp add: rd_bytes_drop)
    have sh: "shrunk ?pb ?s (a # as)"
    proof -
      have "\<exists>q. ps_bufs ?pb x = Some q" if "x \<in> set as" for x using pchain_in [OF p(2) that] by blast
      then have "\<exists>r r'. ps_bufs ?pb x = Some r \<and> ps_bufs ?s x = Some r' \<and> p_next r' = p_next r \<and> p_payload r \<le> p_payload r'
          \<and> p_payload r' + unat (p_len r') \<le> p_payload r + unat (p_len r)" if "x \<in> set (a # as)" for x
        using that Cons.prems(3) le u p(1) by (cases "x = p") fastforce+
      then show ?thesis using p(1) by (simp add: shrunk_def)
    qed
    show ?thesis using t r f sh False by (intro exI [of _ p] exI [of _ off] exI [of _ w] exI [of _ ?s]) simp
  next
    case True
    then have le: "unat (p_len q) < unat off" by (simp add: word_less_nat_alt)
    let ?q = "q\<lparr>p_tot_len := n, p_len := 0\<rparr>"
    let ?w = "w\<lparr>ts_pb := ?pb\<lparr>ps_bufs := (ps_bufs ?pb)(p \<mapsto> ?q)\<rparr>\<rparr>"
    have u: "unat (off - p_len q) = unat off - unat (p_len q)" using le by (simp add: unat_sub word_le_nat_alt)
    have fw: "flat (ts_pb ?w) as = flat ?pb as" using flat_upd [OF p(3)] by simp
    have len: "unat (off - p_len q) \<le> length (flat (ts_pb ?w) as)" using Cons.prems(2) le unfolding p(1) fl fw u by simp
    have "flat ?pb as \<noteq> []" using Cons.prems(2) le unfolding p(1) fl by auto
    then obtain y ys where y: "as = y # ys" "p_next q = Some y" using p(2) by (cases as) auto
    then obtain qy where qy: "ps_bufs (ts_pb ?w) y = Some qy" using p(2,3) by auto
    have "pchain (ps_bufs (ts_pb ?w)) (Some y) as" using p(2,3) y by simp
    from Cons.IH [OF this len qy] obtain p' off' w1 pb where
      i: "trim_loop y (off - p_len q) n ?w = Some (p', off', w1)" "stack_pb (pbuf_remove_header (Some p') (unat off')) w1 = Some (False, ?w\<lparr>ts_pb := pb\<rparr>)"
        "shrunk (ts_pb ?w) pb as" "flat pb as = drop (unat (off - p_len q)) (flat (ts_pb ?w) as)" by blast
    have t: "trim_loop p off n w = Some (p', off', w1)"
      using True Cons.prems(3) y(2) i(1) by (subst trim_loop.simps) (simp add: stack_buf_def stack_buf_upd_def pbuf_upd_def)
    have pq: "ps_bufs pb p = Some ?q" using i(3) p(3) by (simp add: shrunk_def)
    have f: "flat pb (a # as) = drop (unat off) (flat ?pb (a # as))"
      unfolding p(1) fl flat_Cons [OF pq] i(4) fw u using le by (simp add: rd_bytes_def)
    have sh: "shrunk ?pb pb (a # as)" using i(3) p(1,3) pq Cons.prems(3) by (auto simp: shrunk_def) (metis fun_upd_other)+
    show ?thesis using t i(2) f sh pq True by (intro exI [of _ p'] exI [of _ off'] exI [of _ w1] exI [of _ pb]) simp
  qed
qed simp

section \<open>The old part of a segment\<close>

lemma seq_between_nat:
  assumes "TCP_SEQ_BETWEEN a (s + 1) (s + n - 1)" "0 < unat n" "unat n < 65536"
  shows "unat (a - s) < unat n"
proof (rule ccontr)
  let ?d = "a - s"
  assume "\<not> unat ?d < unat n"
  then have d: "unat n \<le> unat ?d" by simp
  have l: "unat (?d - 1) < 2 ^ 31" "unat (n - 1 - ?d) < 2 ^ 31" using assms(1) unfolding TCP_SEQ_BETWEEN_def TCP_SEQ_GEQ_def seq_leq_nat by (simp_all add: algebra_simps)
  have nz: "?d \<noteq> 0" "n \<noteq> 0" using d assms(2) by (metis le_zero_eq neq0_conv unat_0 less_irrefl)+
  note u = unat_minus_one [OF nz(1)] unat_minus_one [OF nz(2)]
  have "unat (n - 1 - ?d) = 2 ^ 32 + (unat n - 1) - unat ?d" using u(2) d assms(2) by (simp add: unat_sub_if' word_le_nat_alt)
  then show False using l u(1) assms(2,3) d by simp
qed

lemma rcv_trim_spec:
  assumes b: "ts_pcbs w pcb = Some b" and g: "in_seg (ts_in w) = g" "sg_p g = Some p" and q: "ps_bufs (ts_pb w) p = Some q" "pchain (ps_bufs (ts_pb w)) (Some p) as"
    and len: "unat (p_tot_len q) = length (flat (ts_pb w) as)" "unat (in_tcplen (ts_in w)) \<le> length (flat (ts_pb w) as) + 1" "0 < unat (in_tcplen (ts_in w))"
    and hdr: "\<And>x. in_payload (ts_pb w) as x \<Longrightarrow> x < sg_tcphdr g + 4 \<or> sg_tcphdr g + 8 \<le> x"
    and old: "TCP_SEQ_BETWEEN (t_rcv_nxt b) (in_seqno (ts_in w) + 1) (in_seqno (ts_in w) + ucast (in_tcplen (ts_in w)) - 1)"
  defines "off \<equiv> unat (t_rcv_nxt b - in_seqno (ts_in w))"
  shows "\<exists>pb q'. rcv_trim pcb w = Some (w\<lparr>ts_pb := pb, ts_in := (ts_in w)\<lparr>in_seg := g\<lparr>sg_len := sg_len g - of_nat off\<rparr>, in_seqno := t_rcv_nxt b\<rparr>\<rparr>)
    \<and> off < unat (in_tcplen (ts_in w)) \<and> pchain (ps_bufs pb) (Some p) as \<and> flat pb as = drop off (flat (ts_pb w) as)
    \<and> ps_bufs pb p = Some q' \<and> unat (p_tot_len q') = length (flat (ts_pb w) as) - off
    \<and> (\<forall>x. x < sg_tcphdr g + 4 \<or> sg_tcphdr g + 8 \<le> x \<longrightarrow> ps_mem pb x = ps_mem (ts_pb w) x)"
proof -
  let ?v = "ts_in w" and ?pb = "ts_pb w" and ?h = "sg_tcphdr g"
  define o16 :: u16 where "o16 = ucast (t_rcv_nxt b - in_seqno ?v)"
  have n: "unat (ucast (in_tcplen ?v) :: u32) = unat (in_tcplen ?v)" "unat (in_tcplen ?v) < 65536" by (simp_all add: unat_u16_ucast unat_u16_less)
  have lt: "off < unat (in_tcplen ?v)" using seq_between_nat [OF old] n len(3) by (simp add: off_def)
  have o: "unat o16 = off" "of_nat off = o16"
  proof -
    have "off < 65536" using lt n(2) by simp
    then show "unat o16 = off" unfolding o16_def off_def by (simp add: unsigned_ucast_eq take_bit_nat_eq_self)
    then show "of_nat off = o16" by (metis of_nat_unat ucast_id)
  qed
  have "unat o16 \<le> length (flat ?pb as)" using o(1) lt len(2) by simp
  from trim_chain [OF q(2) this q(1), of "p_tot_len q - o16"] obtain p' off' w1 pb q' where
    t: "trim_loop p o16 (p_tot_len q - o16) w = Some (p', off', w1)" "stack_pb (pbuf_remove_header (Some p') (unat off')) w1 = Some (False, w\<lparr>ts_pb := pb\<rparr>)"
      "shrunk ?pb pb as" "flat pb as = drop off (flat ?pb as)" "ps_bufs pb p = Some q'" "p_tot_len q' = p_tot_len q - o16" unfolding o(1) by auto
  let ?s = "pb\<lparr>ps_mem := wr_bytes (ps_mem pb) (?h + 4) [byte_of 3 (t_rcv_nxt b), byte_of 2 (t_rcv_nxt b), byte_of 1 (t_rcv_nxt b), byte_of 0 (t_rcv_nxt b)]\<rparr>"
  have m: "ps_mem ?s x = ps_mem ?pb x" if "x < ?h + 4 \<or> ?h + 8 \<le> x" for x using that t(3) by (auto simp: wr_bytes_def shrunk_def)
  have f: "flat ?s as = flat pb as"
    using hdr m t(3) shrunk_payload [OF t(3)] by (intro flat_mem_cong) (auto simp: shrunk_def)
  have e: "(in_upd (\<lambda>v. v\<lparr>in_seg := (in_seg v)\<lparr>sg_len := sg_len (in_seg v) - o16\<rparr>, in_seqno := t_rcv_nxt b\<rparr>) (st_u32 (?h + 4) (t_rcv_nxt b) (w\<lparr>ts_pb := pb\<rparr>)))
      = w\<lparr>ts_pb := ?s, ts_in := ?v\<lparr>in_seg := g\<lparr>sg_len := sg_len g - o16\<rparr>, in_seqno := t_rcv_nxt b\<rparr>\<rparr>"
    by (simp add: in_upd_def st_u32_def g(1))
  have "rcv_trim pcb w = Some (w\<lparr>ts_pb := ?s, ts_in := ?v\<lparr>in_seg := g\<lparr>sg_len := sg_len g - o16\<rparr>, in_seqno := t_rcv_nxt b\<rparr>\<rparr>)"
    unfolding e [symmetric] using b old g q(1) t(1,2) by (simp add: rcv_trim_def Let_def stack_buf_def o16_def [symmetric])
  moreover have "unat (p_tot_len q') = length (flat ?pb as) - off"
    using lt len(1,2) o(1) unfolding t(6) by (simp add: unat_sub word_le_nat_alt)
  moreover have "pchain (ps_bufs ?s) (Some p) as" using shrunk_chain [OF t(3) q(2)] by simp
  ultimately show ?thesis using lt f m t(4,5) unfolding o(2) by (intro exI [of _ ?s] exI [of _ q']) simp
qed

section \<open>The new part\<close>

lemma update_rcv_ann_keeps: "\<exists>x. snd (update_rcv_ann_wnd b) = b\<lparr>t_rcv_ann_wnd := x\<rparr>"
  by (auto simp: update_rcv_ann_wnd_def Let_def)

lemma tcp_ack_flags:
  assumes "ts_pcbs w pcb = Some b"
  shows "\<exists>f. tcp_ack pcb w = Some (w\<lparr>ts_pcbs := (ts_pcbs w)(pcb \<mapsto> b\<lparr>t_flags := f\<rparr>)\<rparr>)"
  using assms by (auto simp: tcp_ack_def tcp_ack_now_def tcp_set_flags_def tcp_clear_flags_def pcb_upd_def)

lemma rcv_inseq_spec:
  assumes b: "ts_pcbs w pcb = Some b" "t_ooseq b = []" and g: "in_seg (ts_in w) = g" "sg_p g = Some p" and q: "ps_bufs (ts_pb w) p = Some q" "p_tot_len q > 0"
    and wnd: "seg_tcplen w g \<le> t_rcv_wnd b"
  shows "\<exists>w' b'. rcv_inseq pcb w = Some w' \<and> ts_pb w' = ts_pb w \<and> ts_pcbs w' = (ts_pcbs w)(pcb \<mapsto> b') \<and> in_recv_data (ts_in w') = Some p
    \<and> sg_p (in_seg (ts_in w')) = None \<and> t_rcv_nxt b' = in_seqno (ts_in w) + ucast (seg_tcplen w g) \<and> t_rcv_wnd b' = t_rcv_wnd b - seg_tcplen w g
    \<and> (seg_has_flag w g TCP_FIN \<longrightarrow> recv_flags w' = recv_flags w OR TF_GOT_FIN)"
proof -
  let ?n = "seg_tcplen w g"
  let ?v = "(ts_in w)\<lparr>in_seg := g, in_tcplen := ?n\<rparr>"
  let ?w1 = "w\<lparr>ts_in := ?v\<rparr>"
  let ?b1 = "b\<lparr>t_rcv_nxt := in_seqno ?v + ucast ?n, t_rcv_wnd := t_rcv_wnd b - ?n\<rparr>"
  obtain x where x: "snd (update_rcv_ann_wnd ?b1) = ?b1\<lparr>t_rcv_ann_wnd := x\<rparr>" using update_rcv_ann_keeps by blast
  let ?b2 = "?b1\<lparr>t_rcv_ann_wnd := x\<rparr>"
  let ?w2 = "w\<lparr>ts_in := ?v, ts_pcbs := (ts_pcbs w)(pcb \<mapsto> ?b2)\<rparr>"
  let ?v3 = "?v\<lparr>in_recv_data := Some p, in_seg := g\<lparr>sg_p := None\<rparr>\<rparr>"
  let ?w3 = "?w2\<lparr>ts_in := ?v3\<rparr>"
  let ?w4 = "if seg_has_flag w g TCP_FIN then ?w3\<lparr>recv_flags := recv_flags w OR TF_GOT_FIN\<rparr> else ?w3"
  have "\<not> t_rcv_wnd b < ?n" using wnd by simp
  then have e1: "inseq_window pcb w = Some ?w1" using b(1) g by (simp add: inseq_window_def Let_def set_inseg_def in_upd_def)
  have e2: "inseq_ooseq pcb ?w1 = Some ?w1" using b by (simp add: inseq_ooseq_def)
  have fl: "seg_has_flag (u\<lparr>ts_in := z, ts_pcbs := P\<rparr>) g f = seg_has_flag u g f" "seg_has_flag (u\<lparr>ts_in := z\<rparr>) g f = seg_has_flag u g f"
    "seg_has_flag (u\<lparr>ts_pcbs := P\<rparr>) g f = seg_has_flag u g f" for u :: "'a tcp_stack" and z P f
    by (simp_all add: seg_has_flag_def TCPH_FLAGS_def ld_u16_def)
  have p4: "ts_pcbs ?w4 pcb = Some ?b2" by simp
  from tcp_ack_flags [OF p4] obtain f where f: "tcp_ack pcb ?w4 = Some (?w4\<lparr>ts_pcbs := (ts_pcbs ?w4)(pcb \<mapsto> ?b2\<lparr>t_flags := f\<rparr>)\<rparr>)" by blast
  have "rcv_inseq pcb w = tcp_ack pcb ?w4"
    using e1 e2 b g q x fl unfolding rcv_inseq_def
    by (simp add: pcb_upd_def tcp_update_rcv_ann_wnd_def stack_buf_def Let_def in_upd_def)
  then show ?thesis unfolding f by (intro exI [of _ "?w4\<lparr>ts_pcbs := (ts_pcbs ?w4)(pcb \<mapsto> ?b2\<lparr>t_flags := f\<rparr>)\<rparr>"] exI [of _ "?b2\<lparr>t_flags := f\<rparr>"]) simp
qed

lemma trimmed_tcplen:
  assumes m: "\<And>x. x < sg_tcphdr g + 4 \<or> sg_tcphdr g + 8 \<le> x \<Longrightarrow> ps_mem (ts_pb w1) x = ps_mem (ts_pb w) x"
    and off: "unat o32 \<le> unat (sg_len g)" and small: "unat (TCP_TCPLEN w g) < 65536"
  shows "unat (seg_tcplen w1 (g\<lparr>sg_len := sg_len g - of_nat (unat o32)\<rparr>)) = unat (TCP_TCPLEN w g) - unat o32"
    "ucast (seg_tcplen w1 (g\<lparr>sg_len := sg_len g - of_nat (unat o32)\<rparr>)) = TCP_TCPLEN w g - o32"
proof -
  let ?g = "g\<lparr>sg_len := sg_len g - of_nat (unat o32)\<rparr>"
  have "TCPH_FLAGS w1 (sg_tcphdr g) = TCPH_FLAGS w (sg_tcphdr g)" by (simp add: TCPH_FLAGS_def ld_u16_def rd_bytes_2 m)
  moreover have "unat (ucast o32 :: u16) = unat o32" using off unat_u16_less [of "sg_len g"] by (simp add: unsigned_ucast_eq take_bit_nat_eq_self)
  then have "unat (sg_len ?g) = unat (sg_len g) - unat o32" using off by (simp add: unat_sub word_le_nat_alt)
  ultimately have u: "unat (TCP_TCPLEN w1 ?g) = unat (TCP_TCPLEN w g) - unat o32" using tcplen_nat [of w1 ?g] tcplen_nat [of w g] off by simp
  then show s: "unat (seg_tcplen w1 ?g) = unat (TCP_TCPLEN w g) - unat o32"
    using small by (simp add: seg_tcplen_def unsigned_ucast_eq take_bit_nat_eq_self)
  have "unat o32 \<le> unat (TCP_TCPLEN w g)" using off tcplen_nat [of w g] by simp
  then have "unat (ucast (seg_tcplen w1 ?g) :: u32) = unat (TCP_TCPLEN w g - o32)" unfolding unat_u16_ucast s by (simp add: unat_sub word_le_nat_alt)
  then show "ucast (seg_tcplen w1 ?g) = TCP_TCPLEN w g - o32" by (simp add: word_unat_eq_iff)
qed

section \<open>A concrete overlap\<close>

text \<open>Three bytes in two pbufs, of which the first two are old.\<close>

definition demo_overlap :: "unit tcp_stack" where
  "demo_overlap = undefined\<lparr>ts_pb := demo_state\<lparr>ps_mem := (\<lambda>x. if x < 100 then 0 else of_nat x),
       ps_bufs := [1 \<mapsto> (new_pbuf 100 3 1 PBUF_RAM)\<lparr>p_next := Some 2\<rparr>, 2 \<mapsto> new_pbuf 200 2 2 PBUF_RAM]\<rparr>,
     ts_pcbs := [9 \<mapsto> (new_pcb TCP_PRIO_NORMAL 0 0)\<lparr>t_rcv_nxt := 12\<rparr>],
     ts_in := undefined\<lparr>in_seg := \<lparr>sg_elem = 0, sg_p = Some 1, sg_len = 3, sg_flags = 0, sg_tcphdr = 50\<rparr>, in_seqno := 10, in_tcplen := 3\<rparr>\<rparr>"

lemma demo_overlap_facts:
  "ts_pcbs demo_overlap 9 = Some ((new_pcb TCP_PRIO_NORMAL 0 0)\<lparr>t_rcv_nxt := 12\<rparr>)" "in_seqno (ts_in demo_overlap) = 10" "in_tcplen (ts_in demo_overlap) = 3"
  "in_seg (ts_in demo_overlap) = \<lparr>sg_elem = 0, sg_p = Some 1, sg_len = 3, sg_flags = 0, sg_tcphdr = 50\<rparr>"
  "ps_bufs (ts_pb demo_overlap) 1 = Some ((new_pbuf 100 3 1 PBUF_RAM)\<lparr>p_next := Some 2\<rparr>)"
  "pchain (ps_bufs (ts_pb demo_overlap)) (Some 1) [1, 2]" "flat (ts_pb demo_overlap) [1, 2] = [100, 200, 201]"
  "TCP_TCPLEN demo_overlap \<lparr>sg_elem = 0, sg_p = Some 1, sg_len = 3, sg_flags = 0, sg_tcphdr = 50\<rparr> = 3"
  "in_payload (ts_pb demo_overlap) [1, 2] x \<Longrightarrow> 100 \<le> x"
  by (auto simp: demo_overlap_def new_pbuf_def flat_def rd_bytes_def upt_rec in_payload_def TCP_TCPLEN_def TCPH_FLAGS_def ld_u16_def rd_bytes_2 rd16_def)

section \<open>Properties\<close>

text \<open>
  C14: A segment that starts before \<open>rcv_nxt\<close> and reaches beyond it (a retransmission that overlaps what was received), with no segment waiting out of sequence
  and what is new of it within the receive window (beyond it the code cuts the tail).
  Trimming skips or shortens the pbufs of the segment, however it is cut, so that exactly the bytes from \<open>rcv_nxt\<close> on are handed to the
  application; the next expected number is the end of the segment, and the right edge of the window has not moved.
\<close>

theorem tcp_receive_overlap:
  assumes b: "ts_pcbs w pcb = Some b" "t_ooseq b = []" and g: "in_seg (ts_in w) = g" "sg_p g = Some p" "sg_len g = p_tot_len q"
    and q: "ps_bufs (ts_pb w) p = Some q" "pchain (ps_bufs (ts_pb w)) (Some p) as" "unat (p_tot_len q) = length (flat (ts_pb w) as)"
    and len: "ucast (in_tcplen (ts_in w)) = TCP_TCPLEN w g" "0 < in_tcplen (ts_in w)"
    and hdr: "\<And>x. in_payload (ts_pb w) as x \<Longrightarrow> x < sg_tcphdr g + 4 \<or> sg_tcphdr g + 8 \<le> x"
    and old: "TCP_SEQ_BETWEEN (t_rcv_nxt b) (in_seqno (ts_in w) + 1) (in_seqno (ts_in w) + ucast (in_tcplen (ts_in w)) - 1)"
    and new: "unat (t_rcv_nxt b - in_seqno (ts_in w)) < length (flat (ts_pb w) as)"
    and wnd: "unat (TCP_TCPLEN w g) - unat (t_rcv_nxt b - in_seqno (ts_in w)) \<le> unat (t_rcv_wnd b)"
  shows "\<exists>w1 w' b'. rcv_trim pcb w = Some w1 \<and> in_seqno (ts_in w1) = t_rcv_nxt b \<and> rcv_inseq pcb w1 = Some w' \<and> ts_pcbs w' = (ts_pcbs w)(pcb \<mapsto> b')
    \<and> in_recv_data (ts_in w') = Some p \<and> pchain (ps_bufs (ts_pb w')) (Some p) as
    \<and> flat (ts_pb w') as = drop (unat (t_rcv_nxt b - in_seqno (ts_in w))) (flat (ts_pb w) as)
    \<and> t_rcv_nxt b' = in_seqno (ts_in w) + TCP_TCPLEN w g \<and> t_rcv_nxt b' + ucast (t_rcv_wnd b') = t_rcv_nxt b + ucast (t_rcv_wnd b)"
proof -
  let ?v = "ts_in w" and ?o = "t_rcv_nxt b - in_seqno (ts_in w)"
  let ?g = "g\<lparr>sg_len := sg_len g - of_nat (unat ?o)\<rparr>"
  have N: "unat (TCP_TCPLEN w g) = unat (in_tcplen ?v)" "unat (in_tcplen ?v) < 65536" unfolding len(1) [symmetric] by (simp_all add: unat_u16_ucast unat_u16_less)
  have l: "unat (in_tcplen ?v) \<le> length (flat (ts_pb w) as) + 1" "0 < unat (in_tcplen ?v)"
    using N(1) tcplen_nat [of w g] g(3) q(3) len(2) by (auto simp: unat_gt_0 word_gt_0 split: if_splits)
  from rcv_trim_spec [OF b(1) g(1,2) q l hdr old] obtain pb q' where
    t: "rcv_trim pcb w = Some (w\<lparr>ts_pb := pb, ts_in := ?v\<lparr>in_seg := ?g, in_seqno := t_rcv_nxt b\<rparr>\<rparr>)" "pchain (ps_bufs pb) (Some p) as"
      "flat pb as = drop (unat ?o) (flat (ts_pb w) as)" "ps_bufs pb p = Some q'" "unat (p_tot_len q') = length (flat (ts_pb w) as) - unat ?o"
      "\<forall>x. x < sg_tcphdr g + 4 \<or> sg_tcphdr g + 8 \<le> x \<longrightarrow> ps_mem pb x = ps_mem (ts_pb w) x" by blast
  let ?w1 = "w\<lparr>ts_pb := pb, ts_in := ?v\<lparr>in_seg := ?g, in_seqno := t_rcv_nxt b\<rparr>\<rparr>"
  have m: "ps_mem (ts_pb ?w1) x = ps_mem (ts_pb w) x" if "x < sg_tcphdr g + 4 \<or> sg_tcphdr g + 8 \<le> x" for x using t(6) that by auto
  have so: "unat ?o \<le> unat (sg_len g)" "unat (TCP_TCPLEN w g) < 65536" using new q(3) g(3) N by simp_all
  note tl = trimmed_tcplen [of g ?w1 w, OF m so]
  have p1: "ts_pcbs ?w1 pcb = Some b" "in_seg (ts_in ?w1) = ?g" "sg_p ?g = Some p" "ps_bufs (ts_pb ?w1) p = Some q'" using b(1) g(2) t(4) by simp_all
  have le: "seg_tcplen ?w1 ?g \<le> t_rcv_wnd b" using tl(1) wnd by (simp add: word_le_nat_alt)
  have "p_tot_len q' > 0" using t(5) new by (simp add: word_less_nat_alt)
  from rcv_inseq_spec [OF p1(1) b(2) p1(2-4) this le] obtain w' b' where
    i: "rcv_inseq pcb ?w1 = Some w'" "ts_pb w' = ts_pb ?w1" "ts_pcbs w' = (ts_pcbs ?w1)(pcb \<mapsto> b')" "in_recv_data (ts_in w') = Some p"
      "t_rcv_nxt b' = in_seqno (ts_in ?w1) + ucast (seg_tcplen ?w1 ?g)" "t_rcv_wnd b' = t_rcv_wnd b - seg_tcplen ?w1 ?g" by blast
  have "(ucast (t_rcv_wnd b - seg_tcplen ?w1 ?g) :: u32) = ucast (t_rcv_wnd b) - ucast (seg_tcplen ?w1 ?g)"
    using le by (simp add: word_unat_eq_iff unat_u16_ucast unat_sub word_le_nat_alt)
  then have "t_rcv_nxt b' + ucast (t_rcv_wnd b') = t_rcv_nxt b + ucast (t_rcv_wnd b)" unfolding i(5,6) by simp
  moreover have "t_rcv_nxt b' = in_seqno ?v + TCP_TCPLEN w g" using i(5) tl(2) by simp
  ultimately show ?thesis using t(1-3) i(1-4) by (intro exI [of _ ?w1] exI [of _ w'] exI [of _ b']) simp
qed

theorem tcp_receive_overlap_witness:
  "\<exists>w1 w' b'. rcv_trim 9 demo_overlap = Some w1 \<and> rcv_inseq 9 w1 = Some w' \<and> ts_pcbs w' 9 = Some b'
    \<and> in_recv_data (ts_in w') = Some 1 \<and> flat (ts_pb w') [1, 2] = [201] \<and> t_rcv_nxt b' = 13"
proof -
  let ?b = "(new_pcb TCP_PRIO_NORMAL 0 0)\<lparr>t_rcv_nxt := 12\<rparr>" and ?g = "\<lparr>sg_elem = 0, sg_p = Some 1, sg_len = 3, sg_flags = 0, sg_tcphdr = 50\<rparr>"
    and ?q = "(new_pbuf 100 3 1 PBUF_RAM)\<lparr>p_next := Some 2\<rparr>"
  note d = demo_overlap_facts
  have "\<exists>w1 w' b'. rcv_trim 9 demo_overlap = Some w1 \<and> in_seqno (ts_in w1) = t_rcv_nxt ?b \<and> rcv_inseq 9 w1 = Some w' \<and> ts_pcbs w' = (ts_pcbs demo_overlap)(9 \<mapsto> b')
    \<and> in_recv_data (ts_in w') = Some 1 \<and> pchain (ps_bufs (ts_pb w')) (Some 1) [1, 2]
    \<and> flat (ts_pb w') [1, 2] = drop (unat (t_rcv_nxt ?b - in_seqno (ts_in demo_overlap))) (flat (ts_pb demo_overlap) [1, 2])
    \<and> t_rcv_nxt b' = in_seqno (ts_in demo_overlap) + TCP_TCPLEN demo_overlap ?g \<and> t_rcv_nxt b' + ucast (t_rcv_wnd b') = t_rcv_nxt ?b + ucast (t_rcv_wnd ?b)"
    by (rule tcp_receive_overlap [OF d(1) _ d(4) _ _ d(5,6)])
      (auto simp del: One_nat_def simp: d(2,3,7,8) new_pcb_def new_pbuf_def TCP_WND_def TCP_SEQ_BETWEEN_def TCP_SEQ_GEQ_def seq_leq_nat dest!: d(9))
  then show ?thesis by (auto simp del: One_nat_def simp: d(2,7,8))
qed

end
