(* ===== verification/Ip4_Addr.thy ===== *)
theory Ip4_Addr
  imports Prelude
begin

text \<open>
  IPv4 addresses as text (\<open>Tunnel/lwip/core/ipv4/ip4_addr.c\<close>), and netmasks. An address is the number
  whose four bytes are its octets, the first octet the highest: the byte order of memory that the code
  converts from and to does not show here. A C string is the list of its characters without the final NUL.
\<close>

section \<open>Characters\<close>

definition NUL :: char where "NUL = CHR 0x00"

definition lwip_in_range :: "char \<Rightarrow> char \<Rightarrow> char \<Rightarrow> bool" where
  "lwip_in_range c lo up \<longleftrightarrow> (of_char lo :: nat) \<le> of_char c \<and> (of_char c :: nat) \<le> of_char up"

definition lwip_isdigit :: "char \<Rightarrow> bool" where
  "lwip_isdigit c = lwip_in_range c CHR ''0'' CHR ''9''"

definition lwip_isxdigit :: "char \<Rightarrow> bool" where
  "lwip_isxdigit c \<longleftrightarrow> lwip_isdigit c \<or> lwip_in_range c CHR ''a'' CHR ''f'' \<or> lwip_in_range c CHR ''A'' CHR ''F''"

definition lwip_islower :: "char \<Rightarrow> bool" where
  "lwip_islower c = lwip_in_range c CHR ''a'' CHR ''z''"

definition lwip_isspace :: "char \<Rightarrow> bool" where
  "lwip_isspace c \<longleftrightarrow> c \<in> {CHR '' '', CHR 0x0C, CHR 0x0A, CHR 0x0D, CHR 0x09, CHR 0x0B}"

text \<open>The character a pointer into the string points to.\<close>

fun peek :: "string \<Rightarrow> char" where
  "peek [] = NUL"
| "peek (c # cs) = c"

section \<open>Reading\<close>

definition digit_val :: "char \<Rightarrow> u32" where
  "digit_val c = of_nat (of_char c) - of_nat (of_char CHR ''0'')"

fun aton_digits :: "u32 \<Rightarrow> u32 \<Rightarrow> string \<Rightarrow> u32 \<times> string" where
  "aton_digits base val [] = (val, [])"
| "aton_digits base val (c # cs) =
     (if lwip_isdigit c then
        if base = 8 \<and> digit_val c \<ge> 8 then (val, c # cs)
        else aton_digits base (val * base + digit_val c) cs
      else if base = 16 \<and> lwip_isxdigit c then
        aton_digits base (push_bit 4 val OR
          (of_nat (of_char c) + 10 - (if lwip_islower c then of_nat (of_char CHR ''a'') else of_nat (of_char CHR ''A'')))) cs
      else (val, c # cs))"

text \<open>One number: the prefix chooses the base.\<close>

definition aton_number :: "string \<Rightarrow> u32 \<times> string" where
  "aton_number cp =
     (if peek cp = CHR ''0'' then
        if peek (tl cp) = CHR ''x'' \<or> peek (tl cp) = CHR ''X'' then aton_digits 16 0 (tl (tl cp))
        else aton_digits 8 0 (tl cp)
      else aton_digits 10 0 cp)"

text \<open>The numbers between the dots; the last one is returned separately, with what follows it.\<close>

function aton_parts :: "u32 list \<Rightarrow> string \<Rightarrow> (u32 list \<times> u32 \<times> string) option" where
  "aton_parts parts cp =
     (if \<not> lwip_isdigit (peek cp) then None
      else let (val, cp) = aton_number cp
           in if peek cp = CHR ''.'' then
                if length parts \<ge> 3 then None else aton_parts (parts @ [val]) (tl cp)
              else Some (parts, val, cp))"
  by pat_completeness auto
termination by (relation "measure (\<lambda>(parts, _). 3 - length parts)") auto

declare aton_parts.simps [simp del]

definition ip4addr_aton :: "string \<Rightarrow> u32 option" where
  "ip4addr_aton cp =
     (case aton_parts [] cp of None \<Rightarrow> None
      | Some (parts, val, rest) \<Rightarrow>
          if peek rest \<noteq> NUL \<and> \<not> lwip_isspace (peek rest) then None
          else case parts of
                 [] \<Rightarrow> Some val
               | [a] \<Rightarrow> if val > 0xffffff \<or> a > 0xff then None else Some (val OR push_bit 24 a)
               | [a, b] \<Rightarrow> if val > 0xffff \<or> a > 0xff \<or> b > 0xff then None
                           else Some (val OR (push_bit 24 a OR push_bit 16 b))
               | [a, b, c] \<Rightarrow> if val > 0xff \<or> a > 0xff \<or> b > 0xff \<or> c > 0xff then None
                           else Some (val OR (push_bit 24 a OR push_bit 16 b OR push_bit 8 c))
               | _ \<Rightarrow> None)"

definition IPADDR_NONE :: u32 where "IPADDR_NONE = 0xffffffff"

definition ipaddr_addr :: "string \<Rightarrow> u32" where
  "ipaddr_addr cp = (case ip4addr_aton cp of Some val \<Rightarrow> val | None \<Rightarrow> IPADDR_NONE)"

section \<open>Writing\<close>

definition digit_char :: "u8 \<Rightarrow> char" where
  "digit_char r = char_of (of_char CHR ''0'' + unat r :: nat)"

text \<open>The \<open>do\<close>-\<open>while\<close> loop that fills \<open>inv\<close>, lowest digit first.\<close>

function octet_digits :: "u8 \<Rightarrow> string" where
  "octet_digits ap = digit_char (ap mod 10) # (if ap div 10 = 0 then [] else octet_digits (ap div 10))"
  by pat_completeness auto
termination
  by (relation "measure unat") (auto simp: unat_div word_unat_eq_iff div_less_dividend)

declare octet_digits.simps [simp del]

text \<open>Storing characters in a buffer of \<open>buflen\<close> bytes; \<open>None\<close> is the early return of \<open>NULL\<close>.\<close>

fun put :: "int \<Rightarrow> string \<Rightarrow> string \<Rightarrow> string option" where
  "put buflen buf [] = Some buf"
| "put buflen buf (c # cs) = (if int (length buf) \<ge> buflen then None else put buflen (buf @ [c]) cs)"

fun ntoa_octets :: "int \<Rightarrow> string \<Rightarrow> u8 list \<Rightarrow> string option" where
  "ntoa_octets buflen buf [] = Some buf"
| "ntoa_octets buflen buf (ap # aps) =
     Option.bind (put buflen buf (rev (octet_digits ap))) (\<lambda>buf.
     Option.bind (put buflen buf [CHR ''.'']) (\<lambda>buf. ntoa_octets buflen buf aps))"

definition octets :: "u32 \<Rightarrow> u8 list" where
  "octets a = [ucast (drop_bit 24 a), ucast (drop_bit 16 a), ucast (drop_bit 8 a), ucast a]"

text \<open>The last dot is overwritten by the NUL.\<close>

definition ip4addr_ntoa_r :: "u32 \<Rightarrow> int \<Rightarrow> string option" where
  "ip4addr_ntoa_r a buflen = map_option butlast (ntoa_octets buflen [] (octets a))"

definition IP4ADDR_STRLEN_MAX :: int where "IP4ADDR_STRLEN_MAX = 16"

definition ip4addr_ntoa :: "u32 \<Rightarrow> string option" where
  "ip4addr_ntoa a = ip4addr_ntoa_r a IP4ADDR_STRLEN_MAX"

section \<open>Netmasks\<close>

text \<open>The mask runs from the highest bit down; here it is given by the number of its bit plus one.\<close>

fun first_zero :: "u32 \<Rightarrow> nat \<Rightarrow> nat" where
  "first_zero nm 0 = 0"
| "first_zero nm (Suc k) = (if nm AND push_bit k 1 = 0 then Suc k else first_zero nm k)"

fun only_zeros :: "u32 \<Rightarrow> nat \<Rightarrow> bool" where
  "only_zeros nm 0 = True"
| "only_zeros nm (Suc k) = (if nm AND push_bit k 1 \<noteq> 0 then False else only_zeros nm k)"

definition ip4_addr_netmask_valid :: "u32 \<Rightarrow> bool" where
  "ip4_addr_netmask_valid nm = only_zeros nm (first_zero nm 32)"

section \<open>Decimal digits\<close>

lemma digit_char_facts:
  assumes "r < 10"
  shows "lwip_isdigit (digit_char r)" "digit_val (digit_char r) = ucast r" "digit_char r = CHR ''0'' \<longleftrightarrow> r = 0"
proof -
  have r: "unat r < 10" using assms by (simp add: word_less_nat_alt)
  have d: "of_char (digit_char r) = (48 + unat r :: nat)" using r by (simp add: digit_char_def)
  show "lwip_isdigit (digit_char r)" using r by (simp add: lwip_isdigit_def lwip_in_range_def d)
  show "digit_val (digit_char r) = ucast r" by (simp add: digit_val_def d)
  have "digit_char r = CHR ''0'' \<longleftrightarrow> of_char (digit_char r) = (of_char CHR ''0'' :: nat)" by (simp only: of_char_eq_iff)
  then show "digit_char r = CHR ''0'' \<longleftrightarrow> r = 0" by (simp add: d word_unat_eq_iff)
qed

lemma mod_10_less [simp]: "(o' :: u8) mod 10 < 10"
  by (simp add: word_less_nat_alt unat_mod)

lemma octet_split: "ucast (o' div 10) * 10 + ucast (o' mod 10) = (ucast o' :: u32)" for o' :: u8
proof -
  have u: "unat (ucast x :: u32) = unat x" for x :: u8
    using unat_u8_less [of x] by (simp add: unsigned_ucast_eq take_bit_nat_eq_self)
  have "unat o' div 10 * 10 + unat o' mod 10 < 2 ^ 32" using unat_u8_less [of o'] by simp
  then show ?thesis by (simp add: word_unat_eq_iff unat_word_ariths(1,2) u unat_div unat_mod)
qed

lemma octet_digits_length: "length (octet_digits o') \<le> 3"
proof -
  have z: "o' div 10 = 0 \<longleftrightarrow> unat o' div 10 = 0" for o' :: u8 by (simp add: word_unat_eq_iff unat_div)
  have "unat o' < 256" using unsigned_less [of o'] by simp
  then have "unat (o' div 10) < 26" by (simp add: unat_div)
  then have "unat (o' div 10 div 10) < 10" by (simp add: unat_div)
  then have "o' div 10 div 10 div 10 = 0" by (simp add: z)
  then show ?thesis
    by (subst octet_digits.simps, subst octet_digits.simps [of "o' div 10"], subst octet_digits.simps [of "o' div 10 div 10"]) simp
qed

lemma octet_digits_last: "last (octet_digits o') = CHR ''0'' \<longleftrightarrow> o' = 0"
proof (induction o' rule: octet_digits.induct)
  case (1 ap)
  show ?case
  proof (cases "ap div 10 = 0")
    case True
    then have m: "ap mod 10 = ap" using word_mod_div_equality [of ap 10] by simp
    show ?thesis using True digit_char_facts(3) [OF mod_10_less, of ap] unfolding m by (simp add: octet_digits.simps [of ap] m)
  next
    case False
    moreover from this have "ap \<noteq> 0" by auto
    moreover have "octet_digits (ap div 10) \<noteq> []" by (simp add: octet_digits.simps)
    ultimately show ?thesis using 1 by (simp add: octet_digits.simps [of ap])
  qed
qed

lemma aton_digits_octet:
  "aton_digits 10 val (rev (octet_digits o') @ rest) = aton_digits 10 (val * 10 ^ length (octet_digits o') + ucast o') rest"
proof (induction o' arbitrary: val rest rule: octet_digits.induct)
  case (1 ap)
  note d = digit_char_facts [OF mod_10_less, of ap]
  show ?case
  proof (cases "ap div 10 = 0")
    case True
    then have "ap mod 10 = ap" using word_mod_div_equality [of ap 10] by simp
    with True d show ?thesis by (simp add: octet_digits.simps [of ap])
  next
    case False
    have "(val * 10 ^ length (octet_digits (ap div 10)) + ucast (ap div 10)) * 10 + ucast (ap mod 10)
        = val * 10 ^ length (octet_digits ap) + ucast ap"
      using False by (simp add: octet_digits.simps [of ap] algebra_simps flip: octet_split [of ap])
    with False d 1 show ?thesis by (simp add: octet_digits.simps [of ap] del: power_Suc)
  qed
qed

text \<open>Reading back an octet, at the end or before a dot.\<close>

lemma aton_number_octet:
  assumes "rest = [] \<or> peek rest = CHR ''.''"
  shows "aton_number (rev (octet_digits o') @ rest) = (ucast o', rest)"
    "lwip_isdigit (peek (rev (octet_digits o') @ rest))"
proof -
  have stop: "aton_digits base val rest = (val, rest)" for base val
    using assms by (cases rest) (auto simp: lwip_isdigit_def lwip_isxdigit_def lwip_in_range_def)
  have ne: "octet_digits o' \<noteq> []" by (simp add: octet_digits.simps)
  then have pk: "peek (rev (octet_digits o') @ rest) = last (octet_digits o')"
    by (cases "octet_digits o'" rule: rev_cases) simp_all
  show "aton_number (rev (octet_digits o') @ rest) = (ucast o', rest)"
  proof (cases "o' = 0")
    case True
    have r: "peek rest \<noteq> CHR ''x''" "peek rest \<noteq> CHR ''X''" using assms by (auto simp: NUL_def)
    have "octet_digits 0 = [CHR ''0'']" using digit_char_facts(3) [of 0] by (simp add: octet_digits.simps)
    with True r show ?thesis by (simp add: aton_number_def stop)
  next
    case False
    then have "last (octet_digits o') \<noteq> CHR ''0''" by (simp add: octet_digits_last)
    then show ?thesis by (simp add: aton_number_def pk aton_digits_octet stop)
  qed
  have "lwip_isdigit (last (octet_digits o'))" for o'
  proof (induction o' rule: octet_digits.induct)
    case (1 ap)
    then show ?case using digit_char_facts(1) [OF mod_10_less, of ap] octet_digits.simps [of "ap div 10"]
      by (simp add: octet_digits.simps [of ap])
  qed
  then show "lwip_isdigit (peek (rev (octet_digits o') @ rest))" by (simp add: pk)
qed

section \<open>Dotted notation\<close>

definition dotted :: "u8 list \<Rightarrow> string" where
  "dotted os = concat (map (\<lambda>o'. rev (octet_digits o') @ ''.'') os)"

lemma put_eq: "put n buf cs = (if cs = [] \<or> int (length (buf @ cs)) \<le> n then Some (buf @ cs) else None)"
  by (induction cs arbitrary: buf) auto

lemma ntoa_octets_eq:
  "ntoa_octets n buf os = (if os = [] \<or> int (length (buf @ dotted os)) \<le> n then Some (buf @ dotted os) else None)"
  by (induction os arbitrary: buf) (auto simp: put_eq dotted_def octet_digits.simps)

lemma aton_parts_octet:
  assumes "rest = [] \<or> peek rest = CHR ''.''"
  shows "aton_parts parts (rev (octet_digits o') @ rest) =
    (if rest \<noteq> [] then if length parts \<ge> 3 then None else aton_parts (parts @ [ucast o']) (tl rest) else Some (parts, ucast o', []))"
  using aton_number_octet [OF assms, of o'] assms
  by (subst aton_parts.simps) (auto simp: NUL_def)

lemma octets_join:
  "(ucast (ucast a :: u8) OR (push_bit 24 (ucast (ucast (drop_bit 24 a) :: u8)) OR push_bit 16 (ucast (ucast (drop_bit 16 a) :: u8))
      OR push_bit 8 (ucast (ucast (drop_bit 8 a) :: u8)))) = a" for a :: u32
proof (rule bit_word_eqI)
  fix n :: nat assume n: "n < LENGTH(32)"
  consider "n < 8" | "8 \<le> n" "n < 16" | "16 \<le> n" "n < 24" | "24 \<le> n" using not_le by blast
  then show "bit (ucast (ucast a :: u8) OR (push_bit 24 (ucast (ucast (drop_bit 24 a) :: u8)) OR push_bit 16 (ucast (ucast (drop_bit 16 a) :: u8))
      OR push_bit 8 (ucast (ucast (drop_bit 8 a) :: u8))) :: u32) n = bit a n"
    using n by cases (auto simp: bit_simps)
qed

lemma octet_small: "\<not> (ucast (o' :: u8) :: u32) > 0xff"
  using unat_u8_less [of o'] by (simp add: word_less_nat_alt unsigned_ucast_eq take_bit_nat_eq_self)

lemma ip4addr_round_trip_spec:
  "ip4addr_aton (butlast (dotted (octets a))) = Some a"
proof -
  have b: "butlast (dotted (octets a)) = rev (octet_digits (ucast (drop_bit 24 a))) @ ''.'' @ rev (octet_digits (ucast (drop_bit 16 a))) @ ''.''
      @ rev (octet_digits (ucast (drop_bit 8 a))) @ ''.'' @ rev (octet_digits (ucast a)) @ []"
    by (simp add: dotted_def octets_def butlast_append)
  show ?thesis unfolding ip4addr_aton_def b using octet_small
    by (simp add: aton_parts_octet NUL_def octets_join [simplified] del: append_Nil2)
qed

lemma dotted_length: "length (dotted (octets a)) \<le> 16"
  using octet_digits_length [of "ucast (drop_bit 24 a)"] octet_digits_length [of "ucast (drop_bit 16 a)"]
    octet_digits_length [of "ucast (drop_bit 8 a)"] octet_digits_length [of "ucast a"]
  by (simp add: dotted_def octets_def)

section \<open>Netmasks\<close>

lemma and_bit_iff: "nm AND 2 ^ k = 0 \<longleftrightarrow> \<not> bit nm k" "nm AND 1 = 0 \<longleftrightarrow> \<not> bit nm 0" for nm :: u32
proof -
  show p: "nm AND 2 ^ k = 0 \<longleftrightarrow> \<not> bit nm k" for k
  proof
    assume "nm AND 2 ^ k = 0"
    then have "bit (nm AND 2 ^ k) k = False" by simp
    then show "\<not> bit nm k" using bit_imp_le_length [of nm k] by (auto simp: bit_simps)
  next
    assume "\<not> bit nm k"
    then show "nm AND 2 ^ k = 0" by (intro bit_word_eqI) (auto simp: bit_simps)
  qed
  show "nm AND 1 = 0 \<longleftrightarrow> \<not> bit nm 0" using p [of 0] by simp
qed

lemma only_zeros_iff: "only_zeros nm k \<longleftrightarrow> (\<forall>i<k. \<not> bit nm i)"
  by (induction k) (auto simp: and_bit_iff less_Suc_eq)

lemma first_zero_facts: "first_zero nm k \<le> k" "first_zero nm k \<le> i \<Longrightarrow> i < k \<Longrightarrow> bit nm i"
    "first_zero nm k \<noteq> 0 \<Longrightarrow> \<not> bit nm (first_zero nm k - 1)"
  by (induction k) (auto simp: and_bit_iff less_Suc_eq le_Suc_eq split: if_splits)

lemma netmask_valid_split: "ip4_addr_netmask_valid nm \<longleftrightarrow> (\<exists>n\<le>32. \<forall>i<32. bit nm i \<longleftrightarrow> 32 - n \<le> i)"
proof
  assume "ip4_addr_netmask_valid nm"
  then have "\<forall>i<first_zero nm 32. \<not> bit nm i" by (simp add: ip4_addr_netmask_valid_def only_zeros_iff)
  then show "\<exists>n\<le>32. \<forall>i<32. bit nm i \<longleftrightarrow> 32 - n \<le> i"
    using first_zero_facts(1,2) [of nm 32] by (intro exI [of _ "32 - first_zero nm 32"]) (auto simp: not_less [symmetric])
next
  assume "\<exists>n\<le>32. \<forall>i<32. bit nm i \<longleftrightarrow> 32 - n \<le> i"
  then obtain n where n: "n \<le> 32" "\<And>i. i < 32 \<Longrightarrow> bit nm i \<longleftrightarrow> 32 - n \<le> i" by blast
  note f = first_zero_facts [of nm 32]
  have "first_zero nm 32 \<le> 32 - n"
  proof (rule ccontr)
    assume "\<not> first_zero nm 32 \<le> 32 - n"
    then have "32 - n \<le> first_zero nm 32 - 1" "first_zero nm 32 - 1 < 32" "first_zero nm 32 \<noteq> 0" using f(1) by linarith+
    then show False using f(3) n(2) [of "first_zero nm 32 - 1"] by simp
  qed
  then show "ip4_addr_netmask_valid nm" using n(2) f(1) by (auto simp: ip4_addr_netmask_valid_def only_zeros_iff)
qed

text \<open>
  A netmask is valid exactly if it is a number of ones followed by zeros only.
\<close>

lemma ip4_addr_netmask_valid_iff:
  "ip4_addr_netmask_valid nm \<longleftrightarrow> (\<exists>n\<le>32. nm = push_bit (32 - n) (mask n))"
proof -
  have "nm = push_bit (32 - n) (mask n) \<longleftrightarrow> (\<forall>i<32. bit nm i \<longleftrightarrow> 32 - n \<le> i)" if "n \<le> 32" for n
  proof -
    have "bit (push_bit (32 - n) (mask n) :: u32) i \<longleftrightarrow> 32 - n \<le> i" if "i < 32" for i
      using that \<open>n \<le> 32\<close> by (auto simp: bit_simps)
    then show ?thesis by (auto intro!: bit_word_eqI)
  qed
  then show ?thesis by (auto simp: netmask_valid_split)
qed

section \<open>Properties\<close>

text \<open>
  C39: Any address can be written in dotted notation into a buffer of 16 bytes (at most 15 characters
  and the NUL, at most three digits per octet), into a smaller one only if the text fits, and reading the text
  gives the address again.
\<close>

theorem ip4addr_round_trip:
  "\<exists>s. ip4addr_ntoa a = Some s \<and> length s \<le> 15 \<and> ip4addr_aton s = Some a \<and> ipaddr_addr s = a
     \<and> (\<forall>buflen. ip4addr_ntoa_r a buflen = (if int (length s) + 1 \<le> buflen then Some s else None))"
proof -
  have ne: "dotted (octets a) \<noteq> []" by (simp add: dotted_def octets_def)
  have l: "length (butlast (dotted (octets a))) + 1 = length (dotted (octets a))"
    using ne by (cases "dotted (octets a)" rule: rev_cases) simp_all
  have n: "ip4addr_ntoa_r a n = (if int (length (butlast (dotted (octets a)))) + 1 \<le> n then Some (butlast (dotted (octets a))) else None)" for n
    using l by (simp add: ip4addr_ntoa_r_def ntoa_octets_eq octets_def)
  show ?thesis using n ip4addr_round_trip_spec [of a] dotted_length [of a] l
    by (intro exI [of _ "butlast (dotted (octets a))"]) (simp add: ip4addr_ntoa_def IP4ADDR_STRLEN_MAX_def ipaddr_addr_def)
qed

end
