(* ===== verification/Names.thy ===== *)
theory Names
  imports Ip4_Addr Netif
begin

text \<open>
  Strings (\<open>Tunnel/lwip/core/def.c\<close>), the names of interfaces (\<open>netif.c\<close>), and small functions on PCBs. A C string is the
  list of its characters without the final NUL; a pointer into a string is a suffix, or the
  offset of that suffix. A buffer that is written is the list of its bytes.
\<close>

section \<open>Comparing and searching\<close>

definition upc :: "char \<Rightarrow> u8" where
  "upc c = of_char c OR 0x20"

text \<open>The test of \<open>lwip_stricmp\<close> for two characters that are not the same.\<close>

definition chars_differ :: "char \<Rightarrow> char \<Rightarrow> bool" where
  "chars_differ c1 c2 \<longleftrightarrow> (if upc c1 \<ge> of_char CHR ''a'' \<and> upc c1 \<le> of_char CHR ''z'' then upc c1 \<noteq> upc c2 else True)"

lemma peek_NUL: "peek s \<noteq> NUL \<Longrightarrow> s \<noteq> []"
  by auto

function lwip_stricmp :: "string \<Rightarrow> string \<Rightarrow> int" where
  "lwip_stricmp str1 str2 =
     (let c1 = peek str1; c2 = peek str2
      in if c1 \<noteq> c2 \<and> chars_differ c1 c2 then 1
         else if c1 \<noteq> NUL then lwip_stricmp (tl str1) (tl str2) else 0)"
  by pat_completeness auto
termination by (relation "measure (\<lambda>(s, _). length s)") (auto dest!: peek_NUL)

text \<open>The counter is a \<open>size_t\<close>: a length of 0 wraps around.\<close>

function lwip_strnicmp :: "string \<Rightarrow> string \<Rightarrow> 64 word \<Rightarrow> int" where
  "lwip_strnicmp str1 str2 len =
     (let c1 = peek str1; c2 = peek str2
      in if c1 \<noteq> c2 \<and> chars_differ c1 c2 then 1
         else if len - 1 \<noteq> 0 \<and> c1 \<noteq> NUL then lwip_strnicmp (tl str1) (tl str2) (len - 1) else 0)"
  by pat_completeness auto
termination by (relation "measure (\<lambda>(s, _, _). length s)") (auto dest!: peek_NUL)

declare lwip_stricmp.simps [simp del] lwip_strnicmp.simps [simp del]

text \<open>\<open>strncmp\<close> of the C library gives 0.\<close>

definition strncmp_eq :: "string \<Rightarrow> string \<Rightarrow> nat \<Rightarrow> bool" where
  "strncmp_eq s t n \<longleftrightarrow> take n s = take n t"

text \<open>The loops: \<open>k\<close> is the offset of \<open>p\<close> in the buffer.\<close>

fun strnstr_loop :: "string \<Rightarrow> nat \<Rightarrow> nat \<Rightarrow> string \<Rightarrow> nat option" where
  "strnstr_loop token n k [] = None"
| "strnstr_loop token n k (c # p) =
     (if k + length token \<le> n then
        if c = peek token \<and> strncmp_eq (c # p) token (length token) then Some k
        else strnstr_loop token n (k + 1) p
      else None)"

definition lwip_strnstr :: "string \<Rightarrow> string \<Rightarrow> nat \<Rightarrow> nat option" where
  "lwip_strnstr buffer token n = (if length token = 0 then Some 0 else strnstr_loop token n 0 buffer)"

fun strnistr_loop :: "string \<Rightarrow> nat \<Rightarrow> nat \<Rightarrow> string \<Rightarrow> nat option" where
  "strnistr_loop token n k [] = None"
| "strnistr_loop token n k (c # p) =
     (if k + length token \<le> n then
        if lwip_strnicmp (c # p) token (of_nat (length token)) = 0 then Some k
        else strnistr_loop token n (k + 1) p
      else None)"

definition lwip_strnistr :: "string \<Rightarrow> string \<Rightarrow> nat \<Rightarrow> nat option" where
  "lwip_strnistr buffer token n = (if length token = 0 then Some 0 else strnistr_loop token n 0 buffer)"

section \<open>Numbers\<close>

text \<open>The digits, written from the end of the buffer: \<open>tmp\<close> and \<open>res\<close> are offsets.\<close>

function itoa_loop :: "nat \<Rightarrow> nat \<Rightarrow> nat \<Rightarrow> char list \<Rightarrow> nat \<times> nat \<times> char list" where
  "itoa_loop res n tmp buf =
     (if n \<noteq> 0 \<and> tmp > res
      then itoa_loop res (n div 10) (tmp - 1) (buf[tmp - 1 := char_of (of_char CHR ''0'' + n mod 10 :: nat)])
      else (n, tmp, buf))"
  by pat_completeness auto
termination by (relation "measure (\<lambda>(_, n, _, _). n)") auto

declare itoa_loop.simps [simp del]

text \<open>\<open>memmove\<close> within the buffer.\<close>

definition memmove :: "nat \<Rightarrow> nat \<Rightarrow> nat \<Rightarrow> char list \<Rightarrow> char list" where
  "memmove dst src n buf = take dst buf @ take n (drop src buf) @ drop (dst + n) buf"

text \<open>\<open>number\<close> is an \<open>int\<close> of 32 bits; the smallest one has no negation (the C code is undefined there).\<close>

definition INT_MIN :: int where "INT_MIN = - (2 ^ 31)"

definition lwip_itoa :: "char list \<Rightarrow> int \<Rightarrow> char list option" where
  "lwip_itoa result number =
     (if number = INT_MIN then None
      else let bufsize = length result; n = nat \<bar>number\<bar>
           in if bufsize < 2 then Some (if bufsize = 1 then result[0 := NUL] else result)
              else let res = (if number < 0 then 1 else 0);
                       buf = (if number < 0 then result[0 := CHR ''-''] else result)[bufsize - 1 := NUL];
                       (n, tmp, buf) = itoa_loop res n (bufsize - 1) buf
                   in if n \<noteq> 0 then Some (buf[0 := NUL])
                      else if buf ! tmp = NUL then Some (buf[res := CHR ''0'', res + 1 := NUL])
                      else Some (memmove res tmp (bufsize - tmp) buf))"

text \<open>\<open>atoi\<close> of the C library, as far as it is defined.\<close>

fun atoi_digits :: "nat \<Rightarrow> string \<Rightarrow> nat" where
  "atoi_digits v [] = v"
| "atoi_digits v (c # cs) = (if lwip_isdigit c then atoi_digits (v * 10 + (of_char c - of_char CHR ''0'')) cs else v)"

definition atoi :: "string \<Rightarrow> int" where
  "atoi s =
     (let s = dropWhile lwip_isspace s
      in if peek s = CHR ''-'' then - int (atoi_digits 0 (tl s))
         else if peek s = CHR ''+'' then int (atoi_digits 0 (tl s)) else int (atoi_digits 0 s))"

section \<open>Names of interfaces\<close>

definition NETIF_NAMESIZE :: nat where "NETIF_NAMESIZE = 6"

text \<open>A name shorter than two characters is read past its end.\<close>

definition netif_find :: "'a tcp_stack \<Rightarrow> string option \<Rightarrow> nat option option" where
  "netif_find w name =
     (case name of None \<Rightarrow> Some None
      | Some nm \<Rightarrow>
          if length nm < 2 then None
          else let num = (of_int (atoi (drop 2 nm)) :: u8)
               in if num = 0 \<and> peek (drop 2 nm) \<noteq> CHR ''0'' then Some None
                  else find_name (ts_netifs w) (take 2 nm) num (netif_list w))"

definition netif_get_index :: "netif \<Rightarrow> u8" where
  "netif_get_index n = nif_num n + 1"

definition netif_name_to_index :: "'a tcp_stack \<Rightarrow> string option \<Rightarrow> u8 option" where
  "netif_name_to_index w name =
     do { r \<leftarrow> netif_find w name;
          case r of None \<Rightarrow> Some 0 | Some a \<Rightarrow> do { n \<leftarrow> ts_netifs w a; Some (netif_get_index n) } }"

text \<open>\<open>name\<close> is the buffer of \<open>NETIF_NAMESIZE\<close> bytes; the result is its content, or \<open>NULL\<close>.\<close>

definition netif_index_to_name :: "'a tcp_stack \<Rightarrow> u8 \<Rightarrow> char list \<Rightarrow> char list option option" where
  "netif_index_to_name w idx name =
     do { r \<leftarrow> netif_get_by_index w idx;
          case r of None \<Rightarrow> Some None
          | Some a \<Rightarrow> do {
              n \<leftarrow> ts_netifs w a;
              b \<leftarrow> lwip_itoa (take (NETIF_NAMESIZE - 2) (drop 2 name)) (uint idx - 1);
              Some (Some (nif_name n @ b)) } }"

section \<open>Small functions\<close>

definition tcp_bind_netif :: "nat \<Rightarrow> nat option \<Rightarrow> 'a tcp_stack \<Rightarrow> 'a tcp_stack option" where
  "tcp_bind_netif pcb nif w =
     (case nif of None \<Rightarrow> pcb_upd pcb (\<lambda>b. b\<lparr>t_netif_idx := 0\<rparr>) w
      | Some a \<Rightarrow> do { n \<leftarrow> ts_netifs w a; pcb_upd pcb (\<lambda>b. b\<lparr>t_netif_idx := netif_get_index n\<rparr>) w })"

text \<open>The address and the port are both asked for.\<close>

definition tcp_tcp_get_tcp_addrinfo :: "nat option \<Rightarrow> bool \<Rightarrow> 'a tcp_stack \<Rightarrow> (err_t \<times> (u32 \<times> u16) option) option" where
  "tcp_tcp_get_tcp_addrinfo p local w =
     (case p of None \<Rightarrow> Some (ERR_VAL, None)
      | Some pcb \<Rightarrow> do {
          b \<leftarrow> ts_pcbs w pcb;
          Some (ERR_OK, Some (if local then (t_local_ip b, t_local_port b) else (t_remote_ip b, t_remote_port b))) })"

fun tcp_debug_state_str :: "tcp_state \<Rightarrow> string" where
  "tcp_debug_state_str CLOSED = ''CLOSED''"
| "tcp_debug_state_str LISTEN = ''LISTEN''"
| "tcp_debug_state_str SYN_SENT = ''SYN_SENT''"
| "tcp_debug_state_str SYN_RCVD = ''SYN_RCVD''"
| "tcp_debug_state_str ESTABLISHED = ''ESTABLISHED''"
| "tcp_debug_state_str FIN_WAIT_1 = ''FIN_WAIT_1''"
| "tcp_debug_state_str FIN_WAIT_2 = ''FIN_WAIT_2''"
| "tcp_debug_state_str CLOSE_WAIT = ''CLOSE_WAIT''"
| "tcp_debug_state_str CLOSING = ''CLOSING''"
| "tcp_debug_state_str LAST_ACK = ''LAST_ACK''"
| "tcp_debug_state_str TIME_WAIT = ''TIME_WAIT''"

section \<open>Comparison without case\<close>

text \<open>Lower case, for the letters of ASCII.\<close>

definition lower :: "char \<Rightarrow> u8" where
  "lower c = (if of_char CHR ''A'' \<le> (of_char c :: u8) \<and> of_char c \<le> (of_char CHR ''Z'' :: u8) then of_char c + 0x20 else of_char c)"

definition letter :: "u8 \<Rightarrow> bool" where
  "letter x \<longleftrightarrow> 0x61 \<le> x OR 0x20 \<and> x OR 0x20 \<le> 0x7A"

lemma u8_cases: "(\<forall>n \<in> set [0..<256]. P (of_nat n)) \<Longrightarrow> P x" for x :: u8
  using unat_u8_less [of x] by (force dest: bspec [of _ _ "unat x"])

lemma lower_letter: "lower c = (if letter (of_char c) then of_char c OR 0x20 else of_char c)"
proof -
  have "(if 0x41 \<le> x \<and> x \<le> 0x5A then x + 0x20 else x) = (if letter x then x OR 0x20 else x)" for x :: u8
    unfolding letter_def by (rule u8_cases) code_simp
  then show ?thesis by (simp add: lower_def)
qed

lemma letter_or: "letter x \<Longrightarrow> x OR 0x20 = y \<Longrightarrow> letter y"
  by (auto simp: letter_def or.assoc)

lemma unat_of_char: "unat (of_char c :: u8) = of_char c"
proof -
  have "(of_char c :: u8) = of_nat (of_char c)" by (rule of_nat_of_char [symmetric])
  moreover have "(of_char c :: nat) < 256" using of_char_of [of "of_char c :: nat"] by (metis char_of_char mod_less_divisor zero_less_numeral)
  ultimately show ?thesis by (simp add: unat_of_nat)
qed

lemma chars_differ_lower: "c1 \<noteq> c2 \<and> chars_differ c1 c2 \<longleftrightarrow> lower c1 \<noteq> lower c2"
proof -
  let ?x = "of_char c1 :: u8" and ?y = "of_char c2 :: u8"
  have e: "c1 = c2 \<longleftrightarrow> ?x = ?y" using unat_of_char [of c1] unat_of_char [of c2] by (metis of_char_eq_iff)
  have d: "chars_differ c1 c2 \<longleftrightarrow> (letter ?x \<longrightarrow> ?x OR 0x20 \<noteq> ?y OR 0x20)" by (auto simp: chars_differ_def upc_def letter_def)
  have l: "letter ?y" if "letter ?x" "?x OR 0x20 = ?y OR 0x20" using that by (simp add: letter_def)
  have l1: "?x OR 0x20 \<noteq> ?y" if "letter ?x" "\<not> letter ?y" using that letter_or by blast
  have l2: "?x \<noteq> ?y OR 0x20" if "\<not> letter ?x" "letter ?y" using that letter_or by metis
  show ?thesis unfolding e d lower_letter using l l1 l2 by auto
qed

lemma lower_NUL: "lower c = lower NUL \<longleftrightarrow> c = NUL"
  using chars_differ_lower [of NUL c] by (auto simp: NUL_def chars_differ_def upc_def)

lemma lwip_stricmp_iff:
  assumes "NUL \<notin> set s" "NUL \<notin> set t"
  shows "lwip_stricmp s t = (if map lower s = map lower t then 0 else 1)"
  using assms
proof (induction s arbitrary: t)
  case Nil
  then show ?case using chars_differ_lower [of NUL "peek t"] lower_NUL [of "peek t"] by (cases t) (auto simp: lwip_stricmp.simps [of "[]"])
next
  case (Cons c s)
  show ?case
  proof (cases t)
    case Nil
    then show ?thesis using Cons.prems chars_differ_lower [of c NUL] lower_NUL [of c] by (auto simp: lwip_stricmp.simps [of "c # s"])
  next
    case t: (Cons d u)
    then show ?thesis using Cons.prems Cons.IH [of u] chars_differ_lower [of c d] by (auto simp: lwip_stricmp.simps [of "c # s"])
  qed
qed

lemma lwip_strnicmp_iff:
  assumes "NUL \<notin> set s" "NUL \<notin> set t" "0 < unat len"
  shows "lwip_strnicmp s t len = (if take (unat len) (map lower s) = take (unat len) (map lower t) then 0 else 1)"
  using assms
proof (induction s arbitrary: t len)
  case Nil
  then show ?case using chars_differ_lower [of NUL "peek t"] lower_NUL [of "peek t"] by (cases t) (auto simp: lwip_strnicmp.simps [of "[]"])
next
  case (Cons c s)
  obtain n where n: "unat len = Suc n" using Cons.prems(3) by (cases "unat len") auto
  have u: "unat (len - 1) = n" using n by (metis One_nat_def diff_Suc_1 unat_eq_zero unat_minus_one nat.simps(3))
  then have z: "len - 1 = 0 \<longleftrightarrow> n = 0" by (auto simp: word_unat_eq_iff)
  show ?case
  proof (cases t)
    case Nil
    then show ?thesis using Cons.prems chars_differ_lower [of c NUL] lower_NUL [of c] n by (auto simp: lwip_strnicmp.simps [of "c # s"])
  next
    case t: (Cons d v)
    then show ?thesis using Cons.prems Cons.IH [of v "len - 1"] chars_differ_lower [of c d] n u z
      by (cases "n = 0") (auto simp: lwip_strnicmp.simps [of "c # s"])
  qed
qed

section \<open>Searching\<close>

lemma strnstr_loop_find:
  assumes "token \<noteq> []"
  shows "strnstr_loop token n k p = map_option ((+) k) (find (\<lambda>i. k + i + length token \<le> n \<and> take (length token) (drop i p) = token) [0..<length p])"
proof (induction p arbitrary: k)
  case (Cons c p)
  have u: "[0..<length (c # p)] = 0 # map Suc [0..<length p]" by (simp add: upt_conv_Cons map_Suc_upt del: upt_Suc)
  have f: "find Q (map Suc xs) = map_option Suc (find (\<lambda>i. Q (Suc i)) xs)" for Q xs by (induction xs) auto
  have stop: "find (\<lambda>i. k + Suc i + length token \<le> n \<and> R i) xs = None" if "\<not> k + length token \<le> n" for R xs
    using that by (auto simp: find_None_iff)
  have m: "c = peek token \<and> strncmp_eq (c # p) token (length token) \<longleftrightarrow> take (length token) (c # p) = token"
    using assms by (cases token) (auto simp: strncmp_eq_def)
  show ?case unfolding u using Cons.IH [of "k + 1"] stop m by (auto simp: f option.map_comp comp_def)
qed simp

text \<open>The first place where the token stands in the first \<open>n\<close> bytes.\<close>

lemma lwip_strnstr_find:
  "lwip_strnstr buffer token n = (if token = [] then Some 0
     else find (\<lambda>i. i + length token \<le> n \<and> take (length token) (drop i buffer) = token) [0..<length buffer])"
  using strnstr_loop_find [of token n 0 buffer] by (simp add: lwip_strnstr_def option.map_ident cong: option.map_cong)

section \<open>Decimal numbers\<close>

definition dig :: "nat \<Rightarrow> char" where
  "dig d = char_of (of_char CHR ''0'' + d :: nat)"

fun decs :: "nat \<Rightarrow> string" where
  "decs n = (if n = 0 then [] else decs (n div 10) @ [dig (n mod 10)])"

declare decs.simps [simp del]

definition decimal :: "int \<Rightarrow> string" where
  "decimal n = (if n < 0 then CHR ''-'' # decs (nat (- n)) else if n = 0 then ''0'' else decs (nat n))"

lemma dig_code: "d < 10 \<Longrightarrow> of_char (dig d) = 48 + d"
  by (simp add: dig_def)

lemma dig_facts:
  assumes "d < 10"
  shows "dig d \<noteq> NUL" "lwip_isdigit (dig d)" "\<not> lwip_isspace (dig d)" "dig d \<noteq> CHR ''-''" "dig d \<noteq> CHR ''+''" "dig d = CHR ''0'' \<longleftrightarrow> d = 0"
proof -
  have c: "dig d = x \<longleftrightarrow> 48 + d = of_char x" for x using dig_code [OF assms] by (metis of_char_eq_iff)
  show "dig d \<noteq> NUL" "\<not> lwip_isspace (dig d)" "dig d \<noteq> CHR ''-''" "dig d \<noteq> CHR ''+''" "dig d = CHR ''0'' \<longleftrightarrow> d = 0"
    using assms by (auto simp: c NUL_def lwip_isspace_def)
  show "lwip_isdigit (dig d)" using assms by (simp add: lwip_isdigit_def lwip_in_range_def dig_code)
qed

lemma decs_facts: "NUL \<notin> set (decs n)" "n \<noteq> 0 \<Longrightarrow> decs n \<noteq> [] \<and> hd (decs n) \<in> dig ` {1..<10}" "list_all lwip_isdigit (decs n)"
proof (induction n rule: decs.induct)
  case (1 n)
  {
    case 1
    then show ?case using "1.IH"(1) dig_facts(1) [of "n mod 10"] by (subst decs.simps) auto
  next
    case 2
    have "n mod 10 = n" if "n div 10 = 0" using that by simp
    then show ?case using 2 "1.IH"(2) by (subst (1 2) decs.simps, cases "n div 10 = 0") (auto simp: decs.simps [of 0] hd_append)
  next
    case 3
    then show ?case using "1.IH"(3) dig_facts(2) [of "n mod 10"] by (subst decs.simps) auto
  }
qed

lemma decs_Nil [simp]: "decs n = [] \<longleftrightarrow> n = 0"
  using decs_facts(2) [of n] by (auto simp: decs.simps [of 0])

lemma decs_0 [simp]: "decs 0 = []"
  by simp

text \<open>The loop writes the digits in front of \<open>tmp\<close>, or runs out of room.\<close>

lemma itoa_loop_decs:
  assumes "res \<le> tmp" "tmp < length buf"
  shows "\<exists>n' buf'. itoa_loop res n tmp buf = (n', tmp - min (length (decs n)) (tmp - res), buf') \<and> length buf' = length buf
    \<and> (n' = 0 \<longleftrightarrow> length (decs n) \<le> tmp - res) \<and> (n' = 0 \<longrightarrow> buf' = take (tmp - length (decs n)) buf @ decs n @ drop tmp buf)"
  using assms
proof (induction res n tmp buf rule: itoa_loop.induct)
  case (1 res n tmp buf)
  show ?case
  proof (cases "n \<noteq> 0 \<and> tmp > res")
    case False
    then have "itoa_loop res n tmp buf = (n, tmp, buf)" by (subst itoa_loop.simps) auto
    then show ?thesis using False "1.prems" decs_Nil [of n] by (cases "n = 0") auto
  next
    case True
    let ?b = "buf[tmp - 1 := dig (n mod 10)]"
    have d: "decs n = decs (n div 10) @ [dig (n mod 10)]" using True by (subst decs.simps) simp
    have e: "itoa_loop res n tmp buf = itoa_loop res (n div 10) (tmp - 1) ?b" using True by (subst itoa_loop.simps) (simp add: dig_def)
    have p: "res \<le> tmp - 1" "tmp - 1 < length ?b" using True "1.prems" by auto
    have ih: "\<exists>n' buf'. itoa_loop res (n div 10) (tmp - 1) ?b = (n', tmp - 1 - min (length (decs (n div 10))) (tmp - 1 - res), buf') \<and> length buf' = length ?b
      \<and> (n' = 0 \<longleftrightarrow> length (decs (n div 10)) \<le> tmp - 1 - res)
      \<and> (n' = 0 \<longrightarrow> buf' = take (tmp - 1 - length (decs (n div 10))) ?b @ decs (n div 10) @ drop (tmp - 1) ?b)"
      using "1.IH" [OF True, folded dig_def, OF p] .
    then obtain n' buf' where i: "itoa_loop res (n div 10) (tmp - 1) ?b = (n', tmp - 1 - min (length (decs (n div 10))) (tmp - 1 - res), buf')" "length buf' = length buf"
      "n' = 0 \<longleftrightarrow> length (decs (n div 10)) \<le> tmp - 1 - res"
      "n' = 0 \<longrightarrow> buf' = take (tmp - 1 - length (decs (n div 10))) ?b @ decs (n div 10) @ drop (tmp - 1) ?b"
      unfolding length_list_update by blast
    have "drop (tmp - 1) ?b = dig (n mod 10) # drop tmp buf"
      using True "1.prems"(2) by (metis Cons_nth_drop_Suc One_nat_def Suc_pred drop_update_cancel length_list_update less_imp_diff_less lessI less_nat_zero_code neq0_conv nth_list_update_eq)
    moreover have "take (tmp - 1 - l) ?b = take (tmp - Suc l) buf" for l using take_update_cancel [of "tmp - Suc l" "tmp - 1" buf] by simp
    ultimately show ?thesis using e i True by (auto simp: d)
  qed
qed

text \<open>The result as a C string: the decimal number if it fits with its NUL, the empty string otherwise.\<close>

abbreviation c_str :: "char list \<Rightarrow> string" where
  "c_str \<equiv> takeWhile (\<lambda>c. c \<noteq> NUL)"

lemma c_str_append: "NUL \<notin> set xs \<Longrightarrow> c_str (xs @ NUL # ys) = xs"
  by (induction xs) auto

lemma memmove_str:
  assumes "buf = pre @ skip @ d @ [NUL]" "res = length pre" "tmp = length pre + length skip"
  shows "memmove res tmp (length buf - tmp) buf = pre @ d @ NUL # drop (length pre + length d + 1) buf"
  using assms by (simp add: memmove_def)

lemma lwip_itoa_decimal:
  assumes n: "number \<noteq> INT_MIN" and l: "2 \<le> length result"
  shows "\<exists>r. lwip_itoa result number = Some r \<and> length r = length result
    \<and> c_str r = (if length (decimal number) < length result then decimal number else [])"
proof -
  define b n where "b = length result" and "n = nat \<bar>number\<bar>"
  define pre where "pre = (if number < 0 then ''-'' else [])"
  define res :: nat where "res = (if number < 0 then 1 else 0)"
  define buf where "buf = (if number < 0 then result[0 := CHR ''-''] else result)[b - 1 := NUL]"
  have f: "res = length pre" "res \<le> b - 1" "2 \<le> b" "length buf = b" using l by (auto simp: res_def pre_def buf_def b_def)
  have "drop (b - 1) buf = buf ! (b - 1) # drop b buf" using f(3,4) Cons_nth_drop_Suc [of "b - 1" buf] by simp
  then have last: "drop (b - 1) buf = [NUL]" using f(3,4) by (simp add: buf_def b_def)
  have hd: "take res buf = pre" using l by (cases result) (auto simp: res_def pre_def buf_def b_def nth_list_update list_update_append split: nat.split)
  have dec: "decimal number = pre @ (if number = 0 then ''0'' else decs n)" by (simp add: decimal_def pre_def n_def)
  have z: "number = 0 \<longleftrightarrow> n = 0" "number = 0 \<Longrightarrow> res = 0" by (simp_all add: n_def res_def)
  have pn: "NUL \<notin> set (pre @ decs n)" using decs_facts(1) [of n] by (simp add: NUL_def pre_def)
  obtain n' buf' where i: "itoa_loop res n (b - 1) buf = (n', b - 1 - min (length (decs n)) (b - 1 - res), buf')" "length buf' = b"
    "n' = 0 \<longleftrightarrow> length (decs n) \<le> b - 1 - res" "n' = 0 \<longrightarrow> buf' = take (b - 1 - length (decs n)) buf @ decs n @ drop (b - 1) buf"
    using itoa_loop_decs [of res "b - 1" buf n] f by auto
  define t where "t = b - 1 - min (length (decs n)) (b - 1 - res)"
  have e: "lwip_itoa result number = (if n' \<noteq> 0 then Some (buf'[0 := NUL]) else if buf' ! t = NUL then Some (buf'[res := CHR ''0'', res + 1 := NUL])
      else Some (memmove res t (b - t) buf'))"
    using n l i(1) unfolding lwip_itoa_def Let_def t_def res_def buf_def b_def n_def by simp
  have "\<exists>r. lwip_itoa result number = Some r \<and> length r = b \<and> c_str r = (if length (decimal number) < b then decimal number else [])"
  proof (cases "n' = 0")
    case False
    then have "number \<noteq> 0" using i(3) z by auto
    then have "\<not> length (decimal number) < b" using False i(3) f dec by auto
    moreover have "c_str (buf'[0 := NUL]) = []" using i(2) f by (cases buf') auto
    ultimately show ?thesis using e False i(2) by simp
  next
    case True
    then have le: "length (decs n) \<le> b - 1 - res" and b': "buf' = take (b - 1 - length (decs n)) buf @ decs n @ [NUL]" using i(3,4) last by simp_all
    then have t: "t = b - 1 - length (decs n)" by (simp add: t_def)
    show ?thesis
    proof (cases "number = 0")
      case nz: True
      then have "buf' ! t = NUL" using b' f z by (simp add: nth_append t)
      moreover obtain x y ys where "buf' = x # y # ys" using i(2) f(3) by (cases buf' rule: remdups_adj.cases) auto
      ultimately show ?thesis using e True nz i(2) f z by (auto simp: decimal_def NUL_def)
    next
      case nz: False
      have "buf' ! t = hd (decs n)" using b' f nz z by (simp add: t nth_append hd_conv_nth)
      moreover have "hd (decs n) \<in> set (decs n)" using nz z by simp
      ultimately have h: "buf' ! t \<noteq> NUL" using decs_facts(1) [of n] by metis
      let ?skip = "drop res (take (b - 1 - length (decs n)) buf)"
      have rt: "res \<le> b - 1 - length (decs n)" using le f(2) by linarith
      have "take res (take (b - 1 - length (decs n)) buf) = pre" using hd rt by (simp add: min_absorb1)
      then have "take (b - 1 - length (decs n)) buf = pre @ ?skip" by (metis append_take_drop_id)
      then have bb: "buf' = pre @ ?skip @ decs n @ [NUL]" using b' by simp
      have tt: "t = length pre + length ?skip" using rt f by (simp add: t)
      have m: "memmove res t (b - t) buf' = pre @ decs n @ NUL # drop (length pre + length (decs n) + 1) buf'"
        using memmove_str [OF bb f(1) tt] i(2) by simp
      have "c_str (memmove res t (b - t) buf') = pre @ decs n" unfolding m using c_str_append [OF pn] by simp
      moreover have "length (memmove res t (b - t) buf') = b" unfolding m using i(2) le f by simp
      moreover have "length (pre @ decs n) < b" using le f by simp
      ultimately show ?thesis using e True h dec nz by simp
    qed
  qed
  then show ?thesis by (simp add: b_def)
qed

lemma atoi_digits_snoc: "list_all lwip_isdigit (xs @ [c]) \<Longrightarrow> atoi_digits v (xs @ [c]) = atoi_digits v xs * 10 + (of_char c - 48)"
  by (induction xs arbitrary: v) auto

lemma atoi_digits_decs: "atoi_digits 0 (decs n) = n"
proof (induction n rule: decs.induct)
  case (1 n)
  show ?case
  proof (cases "n = 0")
    case False
    then have d: "decs n = decs (n div 10) @ [dig (n mod 10)]" by (subst decs.simps) simp
    show ?thesis using decs_facts(3) [of n] "1.IH" [OF False] dig_code [of "n mod 10"] unfolding d by (subst atoi_digits_snoc) simp_all
  qed simp
qed

lemma atoi_decimal: "0 \<le> n \<Longrightarrow> atoi (decimal n) = n"
proof (cases "n = 0")
  case False
  assume "0 \<le> n"
  then have d: "decimal n = decs (nat n)" "nat n \<noteq> 0" using False by (simp_all add: decimal_def)
  then obtain c cs where c: "decs (nat n) = c # cs" "c \<in> dig ` {1..<10}" using decs_facts(2) [of "nat n"] by (cases "decs (nat n)") auto
  then have "\<not> lwip_isspace c" "c \<noteq> CHR ''-''" "c \<noteq> CHR ''+''" using dig_facts by auto
  then show ?thesis using atoi_digits_decs [of "nat n"] d \<open>0 \<le> n\<close> c(1) by (simp add: atoi_def)
qed (simp add: decimal_def atoi_def lwip_isspace_def lwip_isdigit_def lwip_in_range_def)

section \<open>From an index to a name and back\<close>

lemma length_decs: "n < 10 ^ k \<Longrightarrow> length (decs n) \<le> k"
proof (induction k arbitrary: n)
  case (Suc k)
  then have "length (decs (n div 10)) \<le> k" by (intro Suc.IH) auto
  then show ?case by (subst decs.simps) simp
qed simp

lemma netif_by_num_found:
  "netif_by_num N idx as = Some (Some a) \<Longrightarrow> N a = Some n \<Longrightarrow> nif_num n + 1 = idx \<and> a \<in> set as"
  by (induction as) (auto simp: Option.bind_eq_Some_conv split: if_splits)

lemma find_name_found:
  assumes "list_all (\<lambda>a. N a \<noteq> None) as" "a \<in> set as" "N a = Some n" "nif_num n = num" "nif_name n = nm"
  shows "\<exists>a' n'. find_name N nm num as = Some (Some a') \<and> N a' = Some n' \<and> nif_num n' = num \<and> nif_name n' = nm"
  using assms by (induction as) auto

lemma peek_decimal:
  assumes "0 \<le> n"
  shows "peek (decimal n) = CHR ''0'' \<longleftrightarrow> n = 0"
proof (cases "n = 0")
  case False
  then have d: "decimal n = decs (nat n)" "nat n \<noteq> 0" using assms by (simp_all add: decimal_def)
  then obtain c cs where c: "decs (nat n) = c # cs" "c \<in> dig ` {1..<10}" using decs_facts(2) [of "nat n"] by (cases "decs (nat n)") auto
  then show ?thesis using dig_facts(6) False by (auto simp: d)
qed (simp add: decimal_def)

lemma NUL_decimal: "NUL \<notin> set (decimal n)"
  using decs_facts(1) by (auto simp: decimal_def NUL_def)

lemma c_str_prefix: "NUL \<notin> set xs \<Longrightarrow> c_str (xs @ ys) = xs @ c_str ys"
  by (induction xs) auto

text \<open>The name of an index is the two letters and the number in decimal: three digits and the NUL always fit.\<close>

lemma netif_index_to_name_spec:
  assumes l: "length name = NETIF_NAMESIZE" and g: "netif_get_by_index w idx = Some (Some a)" and a: "ts_netifs w a = Some n"
    and nm: "NUL \<notin> set (nif_name n)"
  shows "\<exists>b. netif_index_to_name w idx name = Some (Some b) \<and> c_str b = nif_name n @ decimal (uint idx - 1)"
proof -
  have i0: "idx \<noteq> 0" using g by (auto simp: netif_get_by_index_def split: if_splits)
  have "uint idx < 256" using uint_bounded [of idx] by simp
  moreover have "uint idx \<noteq> 0" "0 \<le> uint idx" using i0 by (simp_all add: uint_0_iff)
  ultimately have i: "0 \<le> uint idx - 1" "uint idx - 1 < 1000" by linarith+
  have "nat (uint idx - 1) < 10 ^ 3" using i by simp
  then have d: "length (decimal (uint idx - 1)) < 4" using length_decs [of "nat (uint idx - 1)" 3] i(1) by (simp add: decimal_def)
  let ?buf = "take (NETIF_NAMESIZE - 2) (drop 2 name)"
  have b: "length ?buf = 4" using l by (simp add: NETIF_NAMESIZE_def)
  obtain r where r: "lwip_itoa ?buf (uint idx - 1) = Some r" "c_str r = decimal (uint idx - 1)"
    using lwip_itoa_decimal [of "uint idx - 1" ?buf] i(1) d unfolding b INT_MIN_def by auto
  show ?thesis using g a r nm by (simp add: netif_index_to_name_def c_str_prefix)
qed

lemma netif_find_decimal:
  assumes "length nm = 2" "0 \<le> k" "k < 256"
  shows "netif_find w (Some (nm @ decimal k)) = find_name (ts_netifs w) nm (of_int k) (netif_list w)"
proof -
  have "(of_int k :: u8) = 0 \<longleftrightarrow> k = 0"
    using assms(2,3) by (simp add: word_uint_eq_iff uint_word_of_int)
  then show ?thesis using assms peek_decimal [OF assms(2)] by (simp add: netif_find_def atoi_decimal)
qed

text \<open>C40: The name that \<open>netif_index_to_name\<close> writes for an index is a name that \<open>netif_name_to_index\<close> takes back to the same index:
  the buffer of \<open>NETIF_NAMESIZE\<close> bytes is long enough for every number, and the interface that \<open>netif_find\<close> meets first has that number.\<close>

theorem netif_name_round_trip:
  assumes "length name = NETIF_NAMESIZE" "list_all (\<lambda>a. ts_netifs w a \<noteq> None) (netif_list w)"
    and g: "netif_get_by_index w idx = Some (Some a)" and a: "ts_netifs w a = Some n"
    and nm: "length (nif_name n) = 2" "NUL \<notin> set (nif_name n)"
  shows "\<exists>b. netif_index_to_name w idx name = Some (Some b) \<and> netif_name_to_index w (Some (c_str b)) = Some idx"
proof -
  obtain b where b: "netif_index_to_name w idx name = Some (Some b)" "c_str b = nif_name n @ decimal (uint idx - 1)"
    using netif_index_to_name_spec [OF assms(1) g a nm(2)] by auto
  have i0: "idx \<noteq> 0" and f: "netif_by_num (ts_netifs w) idx (netif_list w) = Some (Some a)"
    using g by (auto simp: netif_get_by_index_def split: if_splits)
  have m: "a \<in> set (netif_list w)" and k: "nif_num n = idx - 1" using netif_by_num_found [OF f a] by auto
  have u: "uint idx < 256" "0 \<le> uint idx - 1" using uint_bounded [of idx] i0 uint_0_iff [of idx] uint_ge_0 [of idx] by (simp_all del: uint_ge_0, linarith)
  have "netif_find w (Some (c_str b)) = find_name (ts_netifs w) (nif_name n) (idx - 1) (netif_list w)"
    unfolding b(2) using netif_find_decimal [OF nm(1), of "uint idx - 1" w] u by simp
  then show ?thesis using find_name_found [OF assms(2) m a k refl] b(1) by (auto simp: netif_name_to_index_def netif_get_index_def)
qed

theorem netif_name_round_trip_witness:
  "\<exists>b. netif_index_to_name ((undefined :: unit tcp_stack)\<lparr>netif_list := [1], ts_netifs := [1 \<mapsto> (undefined :: netif)\<lparr>nif_name := ''ws'', nif_num := 0\<rparr>]\<rparr>) 1 (replicate 6 NUL) = Some (Some b)
     \<and> netif_name_to_index ((undefined :: unit tcp_stack)\<lparr>netif_list := [1], ts_netifs := [1 \<mapsto> (undefined :: netif)\<lparr>nif_name := ''ws'', nif_num := 0\<rparr>]\<rparr>) (Some (c_str b)) = Some 1"
  by (rule netif_name_round_trip [where a = 1 and n = "(undefined :: netif)\<lparr>nif_name := ''ws'', nif_num := 0\<rparr>"])
    (simp_all add: NETIF_NAMESIZE_def netif_get_by_index_def NUL_def)

end
