(* ===== verification/Spec2Isabelle.thy ===== *)
theory Spec2Isabelle
  imports Bridge_States Bridge_Recv Tcp_Rcv Names
begin

text \<open>
  Verification of the packet core of WSBridge-iOS.

  \<^bold>\<open>The program.\<close> A packet tunnel hands IP packets to \<open>src/Tunnel/lwip_bridge.c\<close>, which rewrites
  their destination to 198.18.0.2, remembers the original destination in a NAT table and gives
  them to lwIP (\<open>src/Tunnel/lwip\<close>), a TCP/IP stack without an operating system. lwIP terminates
  the TCP connections; the bridge registers each of them in a table of 64 slots and passes their
  data to handlers of the tunnel. What lwIP sends goes back through the bridge, which restores the
  source address. Everything runs in one thread: the tunnel calls the bridge, the bridge
  calls lwIP, lwIP calls back into the bridge through function pointers, and the bridge calls the
  handlers, which may call the bridge again.

  \<^bold>\<open>The model.\<close> One definition per C function or loop, with the names of the source. C integers are
  words of their width; memory is a map from addresses to structures, plus bytes; a linked list is
  a list of addresses or of structures. A step that C leaves undefined (following a pointer to
  freed memory) and a loop that does not end are \<open>None\<close>, so that a theorem that a function returns
  \<open>Some\<close> excludes both. The configuration is that of \<open>src/Tunnel/lwipopts.h\<close>: code it compiles
  out is not modelled.

  \<^item> \<open>Prelude\<close>: types, bytes in network order, lemmas on lists and words.
  \<^item> \<open>Bridge_Nat\<close>, \<open>Bridge_Packet\<close>: the NAT table (\<open>nat_add\<close>, \<open>nat_lookup\<close>, \<open>nat_remove\<close>) as an
    implementation of a map of bounded capacity, the rewriting of packets and their checksums.
  \<^item> \<open>Mem\<close>, \<open>Memp\<close>: the heap (\<open>core/mem.c\<close>) with the invariant of its block list, and the pools
    (\<open>core/memp.c\<close>), each with the locale of an allocator that its clients rely on.
  \<^item> \<open>Pbuf\<close>, \<open>Pbuf_Data\<close>, \<open>Pbuf_Own\<close>: packet buffers (\<open>core/pbuf.c\<close>): allocation and release, the
    operations on their data, and reference counts as ownership by a multiset of holders. Their invariant
    \<open>pinv\<close> is an exact account: what the heap and the pbuf pools have handed out is the memory of the live pbufs.
  \<^item> \<open>Inet_Chksum\<close>: the Internet checksum (\<open>core/inet_chksum.c\<close>) against RFC 1071.
  \<^item> \<open>Timeouts\<close>: the timer queue (\<open>core/timeouts.c\<close>), across wrap-around of the clock.
  \<^item> \<open>Tcp_Base\<close>, \<open>Tcp_Out\<close>, \<open>Tcp\<close>, \<open>Tcp_Timer\<close>, \<open>Tcp_In\<close>, \<open>Tcp_Input\<close>: TCP (\<open>core/tcp.c\<close>, \<open>tcp_out.c\<close>,
    \<open>tcp_in.c\<close>). The state of the stack is the record \<open>tcp_stack\<close>: memory, control blocks by address,
    the four PCB lists, the variables about the segment being received, the timers, and the state
    of the application. The functions behind pointers are the record \<open>tcp_env\<close>.
  \<^item> \<open>Ip4_Out\<close>, \<open>Ip4_Reass\<close>, \<open>Ip4_In\<close>, \<open>Icmp\<close>, \<open>Netif\<close>, \<open>Ip4_Addr\<close>: IP output and fragmentation, reassembly, IP
    input, ICMP, interfaces, and addresses as text (\<open>core/ipv4/*.c\<close>, \<open>core/netif.c\<close>).
  \<^item> \<open>Names\<close>: the string functions of \<open>core/def.c\<close>, names of interfaces, and the functions on control blocks that
    nothing else in the program calls.
  \<^item> \<open>Bridge\<close>: the rest of \<open>lwip_bridge.c\<close>: connection table, callbacks, the functions the tunnel
    calls. The handlers of the tunnel are a parameter: the output and the close handler change the
    state of the tunnel only, the others are programs over the calls of the bridge (\<open>handler\<close>).
    Whether \<open>malloc\<close> succeeds, the clock and the random number are parameters, too.
  \<^item> \<open>Tcp_Inv\<close>, \<open>Tcp_Abort\<close>, \<open>Tcp_Setup\<close>: the invariant \<open>stack_ok\<close> of the stack (every pbuf, segment and
    control block is accounted for exactly once, the PCB lists agree with the states) and what keeps
    it: sending control segments, aborting, opening and listening. The locales \<open>netif_driver\<close> and
    \<open>tcp_user\<close> say what the stack needs of the output function and of the error callback.
  \<^item> \<open>Bridge_Inv\<close>, \<open>Bridge_Start\<close>, \<open>Bridge_Conn\<close>: the bridge as an instance of these locales, the
    invariant \<open>bridge_ok\<close> that ties slots to control blocks, start-up, accepting and ending connections.
  \<^item> \<open>Tcp_Facts\<close>: local ports, receive window, options, TIME-WAIT and fragments.
  \<^item> \<open>Tcp_States\<close>, \<open>Bridge_States\<close>: the state machine of TCP. A small calculus (\<open>returns\<close>) shows which functions
    leave the states of the control blocks alone; processing a segment is the transition of RFC 793 that its flags
    and its acknowledgement number ask for, with the callbacks of the bridge as the environment (locales \<open>still_output\<close>, \<open>still_abort\<close>, \<open>still_env\<close>).
  \<^item> \<open>Tcp_Write\<close>: queueing data. The bytes of a connection are read off the memory its segments point to
    (\<open>stream\<close>); \<open>send_ok\<close> says that the segments own that memory and what is unused behind the last of them.
  \<^item> \<open>Tcp_Send\<close>: sending. \<open>out_step\<close> relates the states before and after a part of \<open>tcp_output\<close>: the queues
    change, the stream and its numbers do not. With \<open>Tcp_Write\<close> this gives \<open>lwip_bridge_write\<close>.
  \<^item> \<open>Tcp_Ack\<close>: retransmission after a timeout and acknowledgements of new data, as changes of the two queues
    that keep the stream or free a prefix of it. Sequence numbers are compared as distances below half of their range.
  \<^item> \<open>Tcp_Rcv\<close>: segments that overlap received data: trimming a chain of pbufs, and in-sequence data.
  \<^item> \<open>Bridge_Recv\<close>: the receive callback with data: what the tunnel gets and how the window opens.

  \<^bold>\<open>What is shown.\<close> A reply leaves with the address the client used, and both rewritings give
  packets whose checksums verify (whole datagrams without IP options) and touch nothing else. The NAT table implements a bounded map. The heap, the pools
  and the packet buffers never hand out memory twice, never lose any and always return, in every
  history of calls. The timers of the stack are never lost and checking them terminates. The
  bridge starts with its invariant, every accepted connection gets a slot, and closing, by the
  tunnel or by the client, frees exactly that connection. A segment takes its connection through exactly the transition of the state
  machine of RFC 793 that is due and leaves the states of the others alone. Data that \<open>lwip_bridge_write\<close> accepts is appended
  to the stream of the connection, whatever the segments it is cut into and however many of them are sent at once; a
  retransmission timeout keeps it, and an acknowledgement removes exactly the segments it covers. Data from a client
  reaches the receive handler of the tunnel unchanged if \<open>malloc\<close> succeeds. Four theorems are about defects: a
  receive handler that closes its connection makes the bridge use a freed control block, data is lost when \<open>malloc\<close> fails in the
  receive callback, a second \<open>lwip_bridge_init\<close> in the same process does not end, and the rewriting breaks the header
  checksum of packets with IP options.

  \<^bold>\<open>Fuel.\<close> Only \<open>sys_check_timeouts\<close> has a bound on its number of rounds, as an argument; the property
  about it shows that a bound computed from the queue suffices. All other loops are
  structural, have a measure, or are \<open>partial_function\<close> with \<open>None\<close> for a loop that does not end.

  \<^bold>\<open>Not modelled.\<close> The Swift code; the parts of lwIP that \<open>lwipopts.h\<close> compiles out (sockets and the
  sequential API, UDP, DNS, DHCP, ARP, IGMP, IPv6, altcp, statistics) or that the program does not
  call (applications, PPP, link-layer drivers); debug output and assertions; within TCP the
  optional features that are off (SACK, timestamps, window scaling, backlog, extended arguments).
\<close>

end
